(* ===== verification/Rust_Prelude.thy ===== *)
theory Rust_Prelude
  imports Main "HOL-Library.Word" "HOL-Library.Multiset"
begin

unbundle bit_operations_syntax

text \<open>
  Shared vocabulary of the development: the machine integer types of the source, the outcome
  of running a piece of Rust (a value, a panic, or undefined behaviour), raw memory as a list of
  possibly uninitialised cells, and the lemmas on words, lists and outcomes that the component
  theories use. Nothing here models code of the repository by itself.
\<close>

section \<open>Machine integers\<close>

type_synonym u8 = "8 word"
type_synonym u16 = "16 word"
type_synonym u32 = "32 word"
type_synonym u64 = "64 word"
type_synonym usize = "64 word"

text \<open>\<open>word_nat\<close> collects the rules that turn word expressions into arithmetic on \<open>nat\<close>.\<close>

named_theorems word_nat
named_theorems outcome_simps

lemma unat_ucast_mod [word_nat]:
  "unat (ucast (w :: 'a::len word) :: 'b::len word) = unat w mod 2 ^ LENGTH('b)"
  by (simp add: unsigned_ucast_eq take_bit_eq_mod)

lemma unat_and_mask [word_nat]: "unat ((w :: 'a::len word) AND mask n) = unat w mod 2 ^ n"
  by (simp only: take_bit_eq_mask [symmetric] unsigned_take_bit_eq take_bit_eq_mod [where ?'a = nat])

lemma unat_drop_bit_div [word_nat]: "unat (drop_bit n (w :: 'a::len word)) = unat w div 2 ^ n"
  by (simp only: unat_drop_bit_eq drop_bit_eq_div [where ?'a = nat])

lemma unat_push_bit_mod [word_nat]:
  "unat (push_bit n (w :: 'a::len word)) = (unat w * 2 ^ n) mod 2 ^ LENGTH('a)"
  by (simp only: unsigned_push_bit_eq push_bit_eq_mult [where ?'a = nat]
      take_bit_eq_mod [where ?'a = nat])

lemma or_disjoint_nat:
  fixes a b :: nat
  assumes "b < 2 ^ k" and "2 ^ k dvd a"
  shows "a OR b = a + b"
proof -
  have "a AND b = 0"
  proof (rule bit_eqI)
    fix n
    have "bit a n \<Longrightarrow> k \<le> n"
      using assms(2) by (metis bit_push_bit_iff dvd_div_mult_self push_bit_eq_mult)
    moreover have "bit b n \<Longrightarrow> n < k"
      using assms(1) by (metis bit_take_bit_iff take_bit_nat_eq_self)
    ultimately show "bit (a AND b) n = bit 0 n" by (auto simp: bit_simps)
  qed
  then show ?thesis by (simp add: disjunctive_add_eq_or)
qed

lemma unat_or_disjoint:
  fixes a b :: "'a::len word"
  assumes "unat b < 2 ^ k" and "2 ^ k dvd unat a"
  shows "unat (a OR b) = unat a + unat b"
  using or_disjoint_nat [OF assms] by (simp add: unsigned_or_eq)

lemma div_eq_iff_range:
  fixes n k q :: nat
  assumes "0 < k"
  shows "n div k = q \<longleftrightarrow> q * k \<le> n \<and> n < Suc q * k"
proof
  assume "n div k = q"
  then show "q * k \<le> n \<and> n < Suc q * k"
    using assms dividend_less_div_times [of k n] div_times_less_eq_dividend [of n k] by auto
qed (simp add: div_nat_eqI mult.commute)

lemma unat_less_pow: "unat (w :: 'a::len word) < 2 ^ LENGTH('a)"
  by (rule unsigned_less)

lemma word_eq_unatI: "unat a = unat b \<Longrightarrow> a = (b :: 'a::len word)"
  by (simp add: word_unat_eq_iff)

section \<open>Binary logarithms\<close>

text \<open>Number of bits, leading zeros of a 64 bit integer, and \<open>ilog2\<close>.\<close>

fun bit_width :: "nat \<Rightarrow> nat" where
  "bit_width n = (if n = 0 then 0 else Suc (bit_width (n div 2)))"

definition leading_zeros :: "nat \<Rightarrow> nat" where
  "leading_zeros x = 64 - bit_width x"

fun ilog2 :: "nat \<Rightarrow> nat" where
  "ilog2 n = (if n < 2 then 0 else Suc (ilog2 (n div 2)))"

declare bit_width.simps [simp del] ilog2.simps [simp del]

lemma ilog2_bounds: "0 < n \<Longrightarrow> 2 ^ ilog2 n \<le> n \<and> n < 2 ^ Suc (ilog2 n)"
proof (induction n rule: ilog2.induct)
  case (1 n)
  show ?case
  proof (cases "n < 2")
    case False
    then have "0 < n div 2" by (simp add: div_greater_zero_iff)
    then have "2 ^ ilog2 (n div 2) \<le> n div 2 \<and> n div 2 < 2 ^ Suc (ilog2 (n div 2))" using 1 False by blast
    then have "2 ^ ilog2 (n div 2) * 2 \<le> n \<and> n < 2 ^ Suc (ilog2 (n div 2)) * 2"
      by (simp add: less_eq_div_iff_mult_less_eq div_less_iff_less_mult)
    then show ?thesis using False by (simp add: ilog2.simps [of n] mult.commute)
  qed (use 1 in \<open>simp add: ilog2.simps [of n]\<close>)
qed

section \<open>Outcomes of running Rust code\<close>

text \<open>
  A computation returns a value, panics, or has undefined behaviour. The last one is an explicit
  outcome, so that a theorem saying that a safe function returns also says that the
  unchecked operations inside it are used within their contracts.
\<close>

datatype 'a outcome = Ret 'a | Panic | UB

fun and_then :: "'a outcome \<Rightarrow> ('a \<Rightarrow> 'b outcome) \<Rightarrow> 'b outcome" where
  "and_then (Ret x) f = f x"
| "and_then Panic f = Panic"
| "and_then UB f = UB"

lemma and_then_cong [fundef_cong]:
  "m = m' \<Longrightarrow> (\<And>x. m' = Ret x \<Longrightarrow> f x = g x) \<Longrightarrow> and_then m f = and_then m' g"
  by (cases m') auto

lemma and_then_assoc: "and_then (and_then m f) g = and_then m (\<lambda>x. and_then (f x) g)"
  by (cases m) auto

lemma and_then_eq_Ret_iff [outcome_simps]:
  "and_then m f = Ret y \<longleftrightarrow> (\<exists>x. m = Ret x \<and> f x = Ret y)"
  by (cases m) auto

text \<open>Checked and unchecked access to an element: \<open>v[i]\<close> panics out of range, an unchecked
  access has no defined behaviour there.\<close>

definition index :: "'a list \<Rightarrow> nat \<Rightarrow> 'a outcome" where
  "index xs i = (if i < length xs then Ret (xs ! i) else Panic)"

definition get_unchecked :: "'a list \<Rightarrow> nat \<Rightarrow> 'a outcome" where
  "get_unchecked xs i = (if i < length xs then Ret (xs ! i) else UB)"

lemma index_Ret [simp]: "i < length xs \<Longrightarrow> index xs i = Ret (xs ! i)"
  by (simp add: index_def)

lemma get_unchecked_Ret [simp]: "i < length xs \<Longrightarrow> get_unchecked xs i = Ret (xs ! i)"
  by (simp add: get_unchecked_def)

end
