(* ===== verification/Char_Encoding.thy ===== *)
theory Char_Encoding
  imports Rust_Prelude
begin

text \<open>
  Unicode scalar values and their encodings: \<open>library/core/src/char/convert.rs\<close> (the range
  check behind \<open>char::from_u32\<close>), \<open>char/methods.rs\<close> (lengths, UTF-8 and UTF-16 encoders,
  digit conversion) and \<open>char/decode.rs\<close> (the UTF-16 decoder). A \<open>char\<close> is a 32-bit word that
  passes \<open>char_try_from_u32\<close>; building one from another word is undefined behaviour, as
  \<open>from_u32_unchecked\<close> documents.
\<close>

section \<open>Scalar values (char/convert.rs)\<close>

definition char_try_from_u32 :: "u32 \<Rightarrow> u32 option" where
  "char_try_from_u32 i =
     (if 0x110000 - 0x800 \<le> (i XOR 0xD800) - 0x800 then None else Some i)"

definition from_u32 :: "u32 \<Rightarrow> u32 option" where
  "from_u32 i = (case char_try_from_u32 i of Some c \<Rightarrow> Some c | None \<Rightarrow> None)"

definition from_u32_unchecked :: "u32 \<Rightarrow> u32 outcome" where
  "from_u32_unchecked i = (if char_try_from_u32 i \<noteq> None then Ret i else UB)"

text \<open>The comment in the source gives the meaning of the range check: a scalar value is at most
  \<open>0x10FFFF\<close> and is no surrogate.\<close>

definition is_scalar :: "u32 \<Rightarrow> bool" where
  "is_scalar i \<longleftrightarrow> i < 0x110000 \<and> \<not> (0xD800 \<le> i \<and> i < 0xE000)"

section \<open>Lengths and encoders (char/methods.rs)\<close>

definition len_utf8 :: "u32 \<Rightarrow> nat" where
  "len_utf8 code =
     (if code < 0x80 then 1 else if code < 0x800 then 2 else if code < 0x10000 then 3 else 4)"

definition len_utf16 :: "u32 \<Rightarrow> nat" where
  "len_utf16 code = (if code AND 0xFFFF = code then 1 else 2)"

definition TAG_CONT :: u8 where "TAG_CONT = 0x80"
definition TAG_TWO_B :: u8 where "TAG_TWO_B = 0xC0"
definition TAG_THREE_B :: u8 where "TAG_THREE_B = 0xE0"
definition TAG_FOUR_B :: u8 where "TAG_FOUR_B = 0xF0"

text \<open>The encoders write into a caller's buffer and return the prefix they wrote: the model
  returns the written prefix together with the whole buffer after the call.\<close>

definition encode_utf8_raw :: "u32 \<Rightarrow> u8 list \<Rightarrow> (u8 list \<times> u8 list) outcome" where
  "encode_utf8_raw code dst =
     (let len = len_utf8 code in
      and_then
        (case (len, dst) of
           (Suc 0, a # r) \<Rightarrow> Ret (ucast code # r)
         | (Suc (Suc 0), a # b # r) \<Rightarrow>
             Ret ((ucast (drop_bit 6 code AND 0x1F) OR TAG_TWO_B)
                # (ucast (code AND 0x3F) OR TAG_CONT) # r)
         | (Suc (Suc (Suc 0)), a # b # c # r) \<Rightarrow>
             Ret ((ucast (drop_bit 12 code AND 0x0F) OR TAG_THREE_B)
                # (ucast (drop_bit 6 code AND 0x3F) OR TAG_CONT)
                # (ucast (code AND 0x3F) OR TAG_CONT) # r)
         | (Suc (Suc (Suc (Suc 0))), a # b # c # d # r) \<Rightarrow>
             Ret ((ucast (drop_bit 18 code AND 0x07) OR TAG_FOUR_B)
                # (ucast (drop_bit 12 code AND 0x3F) OR TAG_CONT)
                # (ucast (drop_bit 6 code AND 0x3F) OR TAG_CONT)
                # (ucast (code AND 0x3F) OR TAG_CONT) # r)
         | _ \<Rightarrow> Panic)
        (\<lambda>dst'. if len \<le> length dst' then Ret (take len dst', dst') else UB))"

definition encode_utf16_raw :: "u32 \<Rightarrow> u16 list \<Rightarrow> (u16 list \<times> u16 list) outcome" where
  "encode_utf16_raw code dst =
     (let len = len_utf16 code in
      and_then
        (case (len, dst) of
           (Suc 0, a # r) \<Rightarrow> Ret (ucast code # r)
         | (Suc (Suc 0), a # b # r) \<Rightarrow>
             (let code' = code - 0x10000 in
              Ret ((ucast (drop_bit 10 code') OR 0xD800) # (ucast (code' AND 0x3FF) OR 0xDC00) # r))
         | _ \<Rightarrow> Panic)
        (\<lambda>dst'. if len \<le> length dst' then Ret (take len dst', dst') else UB))"

text \<open>Encoding a sequence of characters, each through a buffer of two units.\<close>

fun encode_utf16_all :: "u32 list \<Rightarrow> u16 list outcome" where
  "encode_utf16_all [] = Ret []"
| "encode_utf16_all (c # cs) =
     and_then (encode_utf16_raw c [0, 0]) (\<lambda>(us, _).
       and_then (encode_utf16_all cs) (\<lambda>vs. Ret (us @ vs)))"

section \<open>Decoding UTF-16 (char/decode.rs)\<close>

definition is_utf16_surrogate :: "u16 \<Rightarrow> bool" where
  "is_utf16_surrogate u \<longleftrightarrow> 0xD800 \<le> u \<and> u \<le> 0xDFFF"

record decode_utf16_state =
  du16_iter :: "u16 list"
  du16_buf :: "u16 option"

definition decode_utf16 :: "u16 list \<Rightarrow> decode_utf16_state" where
  "decode_utf16 us = \<lparr>du16_iter = us, du16_buf = None\<rparr>"

text \<open>One call of \<open>next\<close>: \<open>None\<close> at the end of the input, otherwise a scalar value
  (\<open>Inr\<close>) or the unpaired surrogate (\<open>Inl\<close>).\<close>

definition decode_utf16_next ::
  "decode_utf16_state \<Rightarrow> ((u16 + u32) option \<times> decode_utf16_state) outcome" where
  "decode_utf16_next s =
     (case (case du16_buf s of Some b \<Rightarrow> Some (b, s\<lparr>du16_buf := None\<rparr>)
            | None \<Rightarrow> (case du16_iter s of [] \<Rightarrow> None | u # us \<Rightarrow> Some (u, s\<lparr>du16_iter := us\<rparr>))) of
        None \<Rightarrow> Ret (None, s)
      | Some (u, s) \<Rightarrow>
          if \<not> is_utf16_surrogate u then
            and_then (from_u32_unchecked (ucast u)) (\<lambda>c. Ret (Some (Inr c), s))
          else if 0xDC00 \<le> u then Ret (Some (Inl u), s)
          else (case du16_iter s of
              [] \<Rightarrow> Ret (Some (Inl u), s)
            | u2 # us \<Rightarrow>
                (let s = s\<lparr>du16_iter := us\<rparr> in
                 if u2 < 0xDC00 \<or> 0xDFFF < u2 then Ret (Some (Inl u), s\<lparr>du16_buf := Some u2\<rparr>)
                 else (let c = (push_bit 10 (ucast (u AND 0x3ff)) OR ucast (u2 AND 0x3ff)) + 0x10000
                       in and_then (from_u32_unchecked c) (\<lambda>c. Ret (Some (Inr c), s))))))"

section \<open>Digits (char/methods.rs, char/convert.rs)\<close>

definition saturating_add_u32 :: "u32 \<Rightarrow> u32 \<Rightarrow> u32" where
  "saturating_add_u32 a b = (if unat a + unat b < 2 ^ 32 then a + b else - 1)"

definition to_digit :: "u32 \<Rightarrow> u32 \<Rightarrow> u32 option outcome" where
  "to_digit self radix =
     (let digit = self - 0x30 in
      if 10 < radix then
        (if \<not> radix \<le> 36 then Panic
         else if digit < 10 then Ret (Some digit)
         else (let digit = saturating_add_u32 ((self OR 0x20) - 0x61) 10
               in Ret (if digit < radix then Some digit else None)))
      else Ret (if digit < radix then Some digit else None))"

definition from_digit :: "u32 \<Rightarrow> u32 \<Rightarrow> u32 option outcome" where
  "from_digit num radix =
     (if 36 < radix then Panic
      else if num < radix then
        (let n = (ucast num :: u8) in
         if n < 10 then Ret (Some (ucast (0x30 + n))) else Ret (Some (ucast (0x61 + n - 10))))
      else Ret None)"

section \<open>Scalar values: the range check\<close>

lemma xor_high_bits:
  fixes n :: nat
  shows "(n XOR 0xD800) div 0x10000 = n div 0x10000"
    and "(n XOR 0xD800) div 0x800 = 0 \<longleftrightarrow> n div 0x800 = 27"
proof -
  have "drop_bit 16 (n XOR 0xD800) = drop_bit 16 n" by (simp add: drop_bit_xor)
  then show "(n XOR 0xD800) div 0x10000 = n div 0x10000" by (simp add: drop_bit_eq_div)
  have "drop_bit 11 (n XOR 0xD800) = drop_bit 11 n XOR 27" by (simp add: drop_bit_xor)
  moreover have "drop_bit 11 n XOR 27 = 0 \<longleftrightarrow> drop_bit 11 n = 27"
    by (metis xor.assoc xor_self_eq xor.left_neutral xor.right_neutral)
  ultimately show "(n XOR 0xD800) div 0x800 = 0 \<longleftrightarrow> n div 0x800 = 27"
    by (simp add: drop_bit_eq_div)
qed

lemma unat_sub_wrap:
  fixes a b :: "'a::len word"
  shows "unat (a - b) = (if unat b \<le> unat a then unat a - unat b else 2 ^ LENGTH('a) + unat a - unat b)"
  by (auto simp: unat_sub_if_size word_size)

lemma is_scalar_iff_div:
  "is_scalar i \<longleftrightarrow> unat i div 0x10000 < 17 \<and> unat i div 0x800 \<noteq> 27"
proof -
  have "unat i < 0x110000 \<longleftrightarrow> unat i div 0x10000 < 17"
    by (simp add: div_less_iff_less_mult)
  moreover have "(0xD800 \<le> unat i \<and> unat i < 0xE000) \<longleftrightarrow> unat i div 0x800 = 27"
    by (simp add: div_eq_iff_range)
  ultimately show ?thesis by (simp add: is_scalar_def word_le_nat_alt word_less_nat_alt)
qed

lemma char_try_from_u32_is_scalar:
  "char_try_from_u32 i = (if is_scalar i then Some i else None)"
proof -
  let ?m = "unat i XOR 0xD800"
  have m: "unat (i XOR 0xD800) = ?m" by (simp add: unsigned_xor_eq)
  have bound: "?m < 2 ^ 32" using unat_less_pow [of "i XOR 0xD800"] m by simp
  have "0x110000 - 0x800 \<le> (i XOR 0xD800) - 0x800 \<longleftrightarrow> ?m < 0x800 \<or> 0x110000 \<le> ?m"
    using bound by (auto simp: word_le_nat_alt unat_sub_wrap m)
  also have "\<dots> \<longleftrightarrow> ?m div 0x800 = 0 \<or> \<not> ?m div 0x10000 < 17"
    by (auto simp: div_less_iff_less_mult div_eq_0_iff)
  also have "\<dots> \<longleftrightarrow> \<not> is_scalar i"
    by (auto simp: xor_high_bits is_scalar_iff_div)
  finally show ?thesis by (simp add: char_try_from_u32_def)
qed

lemma from_u32_unchecked_scalar [simp]: "is_scalar i \<Longrightarrow> from_u32_unchecked i = Ret i"
  by (simp add: from_u32_unchecked_def char_try_from_u32_is_scalar)

section \<open>The encoded bytes as arithmetic\<close>

lemma unat_and_low_bits [word_nat]:
  fixes w :: "'a::len word"
  shows "unat (w AND 0x07) = unat w mod 8" "unat (w AND 0x0F) = unat w mod 16"
    "unat (w AND 0x1F) = unat w mod 32" "unat (w AND 0x3F) = unat w mod 64"
    "unat (w AND 0x3FF) = unat w mod 1024" "unat (w AND 0xFFFF) = unat w mod 65536"
  using unat_and_mask [of w 3] unat_and_mask [of w 4] unat_and_mask [of w 5]
    unat_and_mask [of w 6] unat_and_mask [of w 10] unat_and_mask [of w 16]
  by (simp_all add: mask_eq_exp_minus_1)

lemma unat_or_tag:
  fixes x t :: "'a::len word"
  assumes "unat x < 2 ^ k" and "2 ^ k dvd unat t"
  shows "unat (x OR t) = unat t + unat x"
  using unat_or_disjoint [OF assms] by (simp add: or.commute)

lemmas tag_defs = TAG_CONT_def TAG_TWO_B_def TAG_THREE_B_def TAG_FOUR_B_def

lemma unat_cont_byte: "unat (ucast (w AND 0x3F :: u32) OR TAG_CONT :: u8) = 0x80 + unat w mod 64"
  by (subst unat_or_tag [where k = 6]) (auto simp: word_nat tag_defs)

lemma unat_lead_bytes:
  shows "unat (ucast (w AND 0x1F :: u32) OR TAG_TWO_B :: u8) = 0xC0 + unat w mod 32"
    and "unat (ucast (w AND 0x0F :: u32) OR TAG_THREE_B :: u8) = 0xE0 + unat w mod 16"
    and "unat (ucast (w AND 0x07 :: u32) OR TAG_FOUR_B :: u8) = 0xF0 + unat w mod 8"
  by (subst unat_or_tag [where k = 5] unat_or_tag [where k = 4] unat_or_tag [where k = 3],
      auto simp: word_nat tag_defs)+

definition utf8_bytes :: "u32 \<Rightarrow> u8 list" where
  "utf8_bytes code =
     (if code < 0x80 then [ucast code]
      else if code < 0x800 then
        [ucast (drop_bit 6 code AND 0x1F) OR TAG_TWO_B, ucast (code AND 0x3F) OR TAG_CONT]
      else if code < 0x10000 then
        [ucast (drop_bit 12 code AND 0x0F) OR TAG_THREE_B,
         ucast (drop_bit 6 code AND 0x3F) OR TAG_CONT, ucast (code AND 0x3F) OR TAG_CONT]
      else
        [ucast (drop_bit 18 code AND 0x07) OR TAG_FOUR_B,
         ucast (drop_bit 12 code AND 0x3F) OR TAG_CONT,
         ucast (drop_bit 6 code AND 0x3F) OR TAG_CONT, ucast (code AND 0x3F) OR TAG_CONT])"

lemma length_utf8_bytes: "length (utf8_bytes code) = len_utf8 code"
  by (simp add: utf8_bytes_def len_utf8_def)

lemma utf8_bytes_nonempty [simp]: "utf8_bytes code \<noteq> []"
  by (simp add: utf8_bytes_def)

lemma encode_utf8_raw_bytes:
  "encode_utf8_raw code dst =
     (if len_utf8 code \<le> length dst
      then Ret (utf8_bytes code, utf8_bytes code @ drop (len_utf8 code) dst) else Panic)"
  by (cases dst; cases "tl dst"; cases "tl (tl dst)"; cases "tl (tl (tl dst))")
    (auto simp: encode_utf8_raw_def len_utf8_def utf8_bytes_def Let_def)

lemma map_unat_utf8_bytes:
  fixes code :: u32
  defines "n \<equiv> unat code"
  shows "map unat (utf8_bytes code) =
     (if n < 0x80 then [n]
      else if n < 0x800 then [0xC0 + n div 64 mod 32, 0x80 + n mod 64]
      else if n < 0x10000 then [0xE0 + n div 4096 mod 16, 0x80 + n div 64 mod 64, 0x80 + n mod 64]
      else [0xF0 + n div 262144 mod 8, 0x80 + n div 4096 mod 64, 0x80 + n div 64 mod 64,
            0x80 + n mod 64])"
  by (auto simp: n_def utf8_bytes_def unat_cont_byte unat_lead_bytes word_less_nat_alt word_nat)

section \<open>UTF-16: encoded units and the decoder\<close>

definition utf16_units :: "u32 \<Rightarrow> u16 list" where
  "utf16_units code =
     (if code < 0x10000 then [ucast code]
      else [ucast (drop_bit 10 (code - 0x10000)) OR 0xD800,
            ucast ((code - 0x10000) AND 0x3FF) OR 0xDC00])"

lemma len_utf16_alt: "len_utf16 code = (if code < 0x10000 then 1 else 2)"
proof -
  have "code AND 0xFFFF = code \<longleftrightarrow> unat code mod 65536 = unat code"
    by (simp add: word_unat_eq_iff word_nat)
  also have "\<dots> \<longleftrightarrow> unat code < 65536" by (metis mod_less mod_less_divisor zero_less_numeral)
  finally show ?thesis by (simp add: len_utf16_def word_less_nat_alt)
qed

lemma encode_utf16_raw_units:
  "encode_utf16_raw code dst =
     (if len_utf16 code \<le> length dst
      then Ret (utf16_units code, utf16_units code @ drop (len_utf16 code) dst) else Panic)"
  by (cases dst; cases "tl dst")
    (auto simp: encode_utf16_raw_def len_utf16_alt utf16_units_def Let_def)

lemma unat_utf16_pair:
  assumes "is_scalar code" and "\<not> code < 0x10000"
  defines "n \<equiv> unat code - 0x10000"
  shows "n < 2 ^ 20"
    and "unat (ucast (drop_bit 10 (code - 0x10000)) OR 0xD800 :: u16) = 0xD800 + n div 1024"
    and "unat (ucast ((code - 0x10000) AND 0x3FF) OR 0xDC00 :: u16) = 0xDC00 + n mod 1024"
proof -
  have le: "0x10000 \<le> unat code" and lt: "unat code < 0x110000"
    using assms(1,2) by (auto simp: is_scalar_def word_less_nat_alt)
  then show n: "n < 2 ^ 20" by (simp add: n_def)
  have sub: "unat (code - 0x10000) = n" using le by (simp add: n_def unat_sub_wrap)
  have small: "n div 1024 < 1024" using n by (simp add: div_less_iff_less_mult)
  show "unat (ucast (drop_bit 10 (code - 0x10000)) OR 0xD800 :: u16) = 0xD800 + n div 1024"
    using small by (subst unat_or_tag [where k = 10]) (auto simp: word_nat sub)
  show "unat (ucast ((code - 0x10000) AND 0x3FF) OR 0xDC00 :: u16) = 0xDC00 + n mod 1024"
    by (subst unat_or_tag [where k = 10]) (auto simp: word_nat sub)
qed

text \<open>The value the decoder assembles from a surrogate pair.\<close>

lemma unat_join_surrogates:
  fixes u u2 :: u16
  shows "unat ((push_bit 10 (ucast (u AND 0x3ff)) OR ucast (u2 AND 0x3ff)) + 0x10000 :: u32)
       = (unat u mod 1024) * 1024 + unat u2 mod 1024 + 0x10000"
proof -
  have "unat (push_bit 10 (ucast (u AND 0x3ff)) OR ucast (u2 AND 0x3ff) :: u32)
      = (unat u mod 1024) * 1024 + unat u2 mod 1024"
    by (subst unat_or_disjoint [where k = 10]) (auto simp: word_nat)
  moreover have "unat u mod 1024 < 1024" "unat u2 mod 1024 < 1024" by auto
  ultimately show ?thesis by (simp add: unat_word_ariths)
qed

lemma join_surrogates_scalar:
  "is_scalar ((push_bit 10 (ucast (u AND 0x3ff :: u16)) OR ucast (u2 AND 0x3ff :: u16)) + 0x10000)"
proof -
  have "unat u mod 1024 < 1024" "unat u2 mod 1024 < 1024" by auto
  then show ?thesis
    by (auto simp: is_scalar_def word_less_nat_alt word_le_nat_alt unat_join_surrogates)
qed

lemma non_surrogate_scalar: "\<not> is_utf16_surrogate u \<Longrightarrow> is_scalar (ucast u)"
  using unat_less_pow [of u]
  by (auto simp: is_utf16_surrogate_def is_scalar_def word_less_nat_alt word_le_nat_alt word_nat)

lemmas decode_utf16_splits = option.splits list.splits if_splits

text \<open>A call of the decoder consumes at least one unit of input whenever it yields an item.\<close>

definition du16_size :: "decode_utf16_state \<Rightarrow> nat" where
  "du16_size s = 2 * length (du16_iter s) + (case du16_buf s of None \<Rightarrow> 0 | Some _ \<Rightarrow> 1)"

lemma decode_utf16_next_size:
  "decode_utf16_next s = Ret (Some r, s') \<Longrightarrow> du16_size s' < du16_size s"
  by (auto simp: decode_utf16_next_def du16_size_def Let_def outcome_simps split: decode_utf16_splits)

function decode_utf16_all :: "decode_utf16_state \<Rightarrow> (u16 + u32) list outcome" where
  "decode_utf16_all s =
     and_then (decode_utf16_next s) (\<lambda>(r, s').
       case r of None \<Rightarrow> Ret []
       | Some x \<Rightarrow> and_then (decode_utf16_all s') (\<lambda>xs. Ret (x # xs)))"
  by pat_completeness auto
termination
  by (relation "measure du16_size") (auto simp: decode_utf16_next_size)

declare decode_utf16_all.simps [simp del]

lemma decode_utf16_next_defined:
  "\<exists>r s'. decode_utf16_next s = Ret (r, s') \<and> (\<forall>c. r = Some (Inr c) \<longrightarrow> is_scalar c)"
  using non_surrogate_scalar join_surrogates_scalar
  by (auto simp: decode_utf16_next_def Let_def split: decode_utf16_splits)

lemma decode_utf16_next_units:
  assumes "is_scalar c"
  shows "decode_utf16_next (decode_utf16 (utf16_units c @ us)) = Ret (Some (Inr c), decode_utf16 us)"
proof (cases "c < 0x10000")
  case True
  then have n: "unat c < 65536" by (simp add: word_less_nat_alt)
  then have inv: "ucast (ucast c :: u16) = c" by (intro word_eq_unatI) (simp add: word_nat)
  have "\<not> is_utf16_surrogate (ucast c)"
    using assms n by (auto simp: is_utf16_surrogate_def is_scalar_def word_less_nat_alt word_le_nat_alt word_nat)
  then show ?thesis
    using True assms by (simp add: decode_utf16_next_def decode_utf16_def utf16_units_def inv)
next
  case False
  let ?u = "ucast (drop_bit 10 (c - 0x10000)) OR 0xD800 :: u16"
  let ?u2 = "ucast ((c - 0x10000) AND 0x3FF) OR 0xDC00 :: u16"
  define n where "n = unat c - 0x10000"
  note pair = unat_utf16_pair [OF assms False, folded n_def]
  have small: "n div 1024 < 1024" using pair(1) by (simp add: div_less_iff_less_mult)
  have c: "(push_bit 10 (ucast (?u AND 0x3ff)) OR ucast (?u2 AND 0x3ff)) + 0x10000 = c"
  proof (rule word_eq_unatI, subst unat_join_surrogates)
    have "0x10000 \<le> unat c" using False by (simp add: word_less_nat_alt)
    then show "unat ?u mod 1024 * 1024 + unat ?u2 mod 1024 + 0x10000 = unat c"
      using small unfolding pair by (simp add: mod_add_left_eq [symmetric] n_def)
  qed
  have "is_utf16_surrogate ?u" "\<not> 0xDC00 \<le> ?u" "\<not> (?u2 < 0xDC00 \<or> 0xDFFF < ?u2)"
    using small unfolding is_utf16_surrogate_def word_less_nat_alt word_le_nat_alt pair by auto
  then show ?thesis
    using False assms c by (simp add: decode_utf16_next_def decode_utf16_def utf16_units_def Let_def)
qed

lemma decode_utf16_all_units:
  assumes "\<forall>c \<in> set cs. is_scalar c"
  shows "decode_utf16_all (decode_utf16 (concat (map utf16_units cs))) = Ret (map Inr cs)"
  using assms
proof (induction cs)
  case Nil
  then show ?case
    by (simp add: decode_utf16_all.simps) (simp add: decode_utf16_def decode_utf16_next_def)
next
  case (Cons c cs)
  then show ?case
    by (simp add: decode_utf16_all.simps [of "decode_utf16 (utf16_units c @ us)" for us]
        decode_utf16_next_units)
qed

lemma encode_utf16_all_units: "encode_utf16_all cs = Ret (concat (map utf16_units cs))"
  by (induction cs) (auto simp: encode_utf16_raw_units len_utf16_alt)

text \<open>Re-encoding what one call of the decoder yields gives back the units it consumed.\<close>

definition du16_rest :: "decode_utf16_state \<Rightarrow> u16 list" where
  "du16_rest s = (case du16_buf s of None \<Rightarrow> [] | Some b \<Rightarrow> [b]) @ du16_iter s"

fun item_units :: "u16 + u32 \<Rightarrow> u16 list" where
  "item_units (Inl u) = [u]"
| "item_units (Inr c) = utf16_units c"

lemma utf16_units_non_surrogate: "utf16_units (ucast u) = [u]"
  using unat_less_pow [of u]
  by (auto simp: utf16_units_def word_less_nat_alt word_nat word_unat_eq_iff)

lemma utf16_units_join:
  assumes "0xD800 \<le> u" "\<not> 0xDC00 \<le> u" "\<not> u2 < 0xDC00" "\<not> 0xDFFF < u2"
  defines "c \<equiv> (push_bit 10 (ucast (u AND 0x3ff)) OR ucast (u2 AND 0x3ff)) + 0x10000"
  shows "utf16_units c = [u, u2]"
proof -
  define a b where "a = unat u - 0xD800" and "b = unat u2 - 0xDC00"
  have u: "unat u = 0xD800 + a" "a < 1024" and u2: "unat u2 = 0xDC00 + b" "b < 1024"
    using assms(1-4) by (auto simp: a_def b_def word_le_nat_alt word_less_nat_alt)
  have c: "unat c = a * 1024 + b + 0x10000"
    unfolding c_def unat_join_surrogates u(1) u2(1)
    using u(2) u2(2) by (simp add: mod_add_left_eq [symmetric])
  have sc: "is_scalar c" unfolding c_def by (rule join_surrogates_scalar)
  have big: "\<not> c < 0x10000" by (simp add: word_less_nat_alt c)
  have "unat c - 0x10000 = a * 1024 + b" by (simp add: c)
  then have d: "(unat c - 0x10000) div 1024 = a" "(unat c - 0x10000) mod 1024 = b"
    using u2(2) by simp_all
  have "ucast (drop_bit 10 (c - 0x10000)) OR 0xD800 = u"
    by (rule word_eq_unatI) (simp only: unat_utf16_pair(2) [OF sc big] d u)
  moreover have "ucast ((c - 0x10000) AND 0x3FF) OR 0xDC00 = u2"
    by (rule word_eq_unatI) (simp only: unat_utf16_pair(3) [OF sc big] d u2)
  ultimately show ?thesis using big by (simp add: utf16_units_def)
qed

lemma decode_utf16_next_rest:
  "decode_utf16_next s = Ret (None, s') \<Longrightarrow> du16_rest s = []"
  "decode_utf16_next s = Ret (Some r, s') \<Longrightarrow> du16_rest s = item_units r @ du16_rest s'"
  using utf16_units_non_surrogate
  by (auto simp: decode_utf16_next_def du16_rest_def Let_def outcome_simps from_u32_unchecked_def
      utf16_units_join is_utf16_surrogate_def split: decode_utf16_splits)

lemma decode_utf16_all_rest:
  "\<exists>xs. decode_utf16_all s = Ret xs \<and> concat (map item_units xs) = du16_rest s
      \<and> (\<forall>c. Inr c \<in> set xs \<longrightarrow> is_scalar c)"
proof (induction s rule: decode_utf16_all.induct)
  case (1 s)
  obtain r s' where n: "decode_utf16_next s = Ret (r, s')" and sc: "\<forall>c. r = Some (Inr c) \<longrightarrow> is_scalar c"
    using decode_utf16_next_defined by blast
  show ?case
  proof (cases r)
    case None
    then show ?thesis using n decode_utf16_next_rest(1) by (simp add: decode_utf16_all.simps [of s])
  next
    case (Some x)
    from "1.IH" [OF n refl Some] obtain xs where "decode_utf16_all s' = Ret xs"
      "concat (map item_units xs) = du16_rest s'" "\<forall>c. Inr c \<in> set xs \<longrightarrow> is_scalar c" by blast
    then show ?thesis
      using n Some sc decode_utf16_next_rest(2) by (auto simp: decode_utf16_all.simps [of s])
  qed
qed

text \<open>The reference: a leading surrogate followed by a trailing one is the scalar value of the pair, any other surrogate
  is unpaired, and every other unit is a scalar value.\<close>

definition leading_surrogate :: "u16 \<Rightarrow> bool" where
  "leading_surrogate u \<longleftrightarrow> 0xD800 \<le> u \<and> u \<le> 0xDBFF"

definition trailing_surrogate :: "u16 \<Rightarrow> bool" where
  "trailing_surrogate u \<longleftrightarrow> 0xDC00 \<le> u \<and> u \<le> 0xDFFF"

definition single_unit :: "u16 \<Rightarrow> u16 + u32" where
  "single_unit u = (if leading_surrogate u \<or> trailing_surrogate u then Inl u else Inr (ucast u))"

fun utf16_items :: "u16 list \<Rightarrow> (u16 + u32) list" where
  "utf16_items [] = []"
| "utf16_items [u] = [single_unit u]"
| "utf16_items (u # v # us) =
     (if leading_surrogate u \<and> trailing_surrogate v then Inr (word_of_nat (0x10000 + 0x400 * (unat u - 0xD800) + (unat v - 0xDC00))) # utf16_items us
      else single_unit u # utf16_items (v # us))"

lemma surrogate_kinds:
  "is_utf16_surrogate u \<longleftrightarrow> leading_surrogate u \<or> trailing_surrogate u" "is_utf16_surrogate u \<Longrightarrow> 0xDC00 \<le> u \<longleftrightarrow> trailing_surrogate u" "trailing_surrogate u \<Longrightarrow> \<not> leading_surrogate u"
  "u < 0xDC00 \<or> 0xDFFF < u \<longleftrightarrow> \<not> trailing_surrogate u"
  by (auto simp: is_utf16_surrogate_def leading_surrogate_def trailing_surrogate_def word_le_nat_alt word_less_nat_alt)

lemma join_surrogates_value:
  assumes "leading_surrogate u" "trailing_surrogate u2"
  shows "(push_bit 10 (ucast (u AND 0x3ff)) OR ucast (u2 AND 0x3ff)) + 0x10000
    = (word_of_nat (0x10000 + 0x400 * (unat u - 0xD800) + (unat u2 - 0xDC00)) :: u32)"
proof -
  define a b where "a = unat u - 0xD800" and "b = unat u2 - 0xDC00"
  have u: "unat u = 0xD800 + a" "a < 1024" and u2: "unat u2 = 0xDC00 + b" "b < 1024"
    using assms by (auto simp: a_def b_def leading_surrogate_def trailing_surrogate_def word_le_nat_alt)
  have "unat ((push_bit 10 (ucast (u AND 0x3ff)) OR ucast (u2 AND 0x3ff)) + 0x10000 :: u32) = a * 1024 + b + 0x10000"
    unfolding unat_join_surrogates u(1) u2(1) using u(2) u2(2) by (simp add: mod_add_left_eq [symmetric])
  moreover have "unat (word_of_nat (0x10000 + 0x400 * a + b) :: u32) = 0x10000 + 0x400 * a + b"
    unfolding unsigned_of_nat using u(2) u2(2) by (subst take_bit_nat_eq_self) simp_all
  ultimately show ?thesis unfolding a_def [symmetric] b_def [symmetric] by (intro word_eq_unatI) simp
qed

lemma utf16_items_single: "\<not> (leading_surrogate u \<and> us \<noteq> [] \<and> trailing_surrogate (hd us)) \<Longrightarrow> utf16_items (u # us) = single_unit u # utf16_items us"
  by (cases us) auto

lemma decode_utf16_next_items:
  assumes "decode_utf16_next s = Ret (Some r, s')"
  shows "utf16_items (du16_rest s) = r # utf16_items (du16_rest s')"
proof -
  obtain u us where s: "du16_rest s = u # us"
    and n: "decode_utf16_next s = decode_utf16_next \<lparr>du16_iter = u # us, du16_buf = None\<rparr>"
    using assms by (cases s) (auto simp: decode_utf16_next_def du16_rest_def split: option.splits list.splits)
  show ?thesis
  proof (cases "leading_surrogate u \<and> us \<noteq> [] \<and> trailing_surrogate (hd us)")
    case True
    then obtain v vs where us: "us = v # vs" "trailing_surrogate v" by (cases us) auto
    then have "is_utf16_surrogate u" "\<not> 0xDC00 \<le> u" using True surrogate_kinds(1-3) [of u] by auto
    then show ?thesis using assms True us surrogate_kinds(4) [of v] join_surrogates_value [of u v] unfolding n s
      by (auto simp: decode_utf16_next_def du16_rest_def Let_def outcome_simps from_u32_unchecked_def split: if_splits)
  next
    case False
    then show ?thesis using assms surrogate_kinds(1-3) [of u] surrogate_kinds(4) [of "hd us"] unfolding n s
      by (auto simp: decode_utf16_next_def du16_rest_def Let_def outcome_simps from_u32_unchecked_def utf16_items_single single_unit_def
          split: if_splits list.splits)
  qed
qed

lemma decode_utf16_all_items: "decode_utf16_all s = Ret (utf16_items (du16_rest s))"
proof (induction s rule: decode_utf16_all.induct)
  case (1 s)
  obtain r s' where n: "decode_utf16_next s = Ret (r, s')" using decode_utf16_next_defined by blast
  show ?case
  proof (cases r)
    case None
    then show ?thesis using n decode_utf16_next_rest(1) by (simp add: decode_utf16_all.simps [of s])
  next
    case (Some x)
    from "1.IH" [OF n refl Some] show ?thesis using n Some decode_utf16_next_items [of s x s'] by (simp add: decode_utf16_all.simps [of s])
  qed
qed

section \<open>Properties\<close>

text \<open>The range check of \<open>char::from_u32\<close>, an exclusive-or, a wrapping subtraction and one
  comparison, accepts exactly the Unicode scalar values, and \<open>from_u32_unchecked\<close> is defined
  exactly on the words that the safe version accepts.\<close>

lemma from_u32_exact:
  "from_u32 i = (if i \<le> 0x10FFFF \<and> \<not> (0xD800 \<le> i \<and> i \<le> 0xDFFF) then Some i else None)
   \<and> (from_u32_unchecked i = (case from_u32 i of Some c \<Rightarrow> Ret c | None \<Rightarrow> UB))"
proof -
  have "is_scalar i \<longleftrightarrow> i \<le> 0x10FFFF \<and> \<not> (0xD800 \<le> i \<and> i \<le> 0xDFFF)"
    by (auto simp: is_scalar_def word_less_nat_alt word_le_nat_alt)
  then show ?thesis
    by (simp add: from_u32_def from_u32_unchecked_def char_try_from_u32_is_scalar)
qed

text \<open>C7: decoding UTF-16 is total, free of undefined behaviour and exact on arbitrary input: a leading surrogate and a
  trailing one behind it are the scalar value of the pair, every other surrogate is reported as unpaired and decoding goes on
  with the next unit, and every other unit is itself. So every decoded value is a scalar value, every error is a surrogate,
  and writing the items out again gives the input. Encoding scalar values with \<open>encode_utf16_raw\<close> and decoding
  the units with \<open>DecodeUtf16\<close> gives the values back, with no error item.\<close>

theorem decode_utf16_lossless:
  "(\<exists>xs. decode_utf16_all (decode_utf16 us) = Ret xs \<and> xs = utf16_items us \<and> concat (map item_units xs) = us
      \<and> (\<forall>c. Inr c \<in> set xs \<longrightarrow> from_u32 c = Some c) \<and> (\<forall>u. Inl u \<in> set xs \<longrightarrow> is_utf16_surrogate u))
   \<and> ((\<forall>c \<in> set cs. from_u32 c \<noteq> None) \<longrightarrow>
        and_then (encode_utf16_all cs) (\<lambda>us. decode_utf16_all (decode_utf16 us)) = Ret (map Inr cs))"
proof (intro conjI impI)
  have "Inl u \<in> set (utf16_items us) \<Longrightarrow> is_utf16_surrogate u" for u
    by (induction us rule: utf16_items.induct) (auto simp: single_unit_def surrogate_kinds(1) split: if_splits)
  moreover have "du16_rest (decode_utf16 us) = us" by (simp add: du16_rest_def decode_utf16_def)
  moreover have "is_scalar c \<Longrightarrow> from_u32 c = Some c" for c by (simp add: from_u32_def char_try_from_u32_is_scalar)
  ultimately show "\<exists>xs. decode_utf16_all (decode_utf16 us) = Ret xs \<and> xs = utf16_items us \<and> concat (map item_units xs) = us
      \<and> (\<forall>c. Inr c \<in> set xs \<longrightarrow> from_u32 c = Some c) \<and> (\<forall>u. Inl u \<in> set xs \<longrightarrow> is_utf16_surrogate u)"
    using decode_utf16_all_rest [of "decode_utf16 us"] decode_utf16_all_items [of "decode_utf16 us"] by (metis outcome.inject)
next
  assume "\<forall>c \<in> set cs. from_u32 c \<noteq> None"
  then have "\<forall>c \<in> set cs. is_scalar c" by (auto simp: from_u32_def char_try_from_u32_is_scalar split: if_splits)
  then show "and_then (encode_utf16_all cs) (\<lambda>us. decode_utf16_all (decode_utf16 us)) = Ret (map Inr cs)"
    by (simp add: encode_utf16_all_units decode_utf16_all_units)
qed

theorem decode_utf16_lossless_witness:
  "decode_utf16_all (decode_utf16 [0xD800, 0x41, 0xD83D, 0xDE00, 0xDC00]) = Ret [Inl 0xD800, Inr 0x41, Inr 0x1F600, Inl 0xDC00]
   \<and> and_then (encode_utf16_all [0x1F600, 0x41]) (\<lambda>us. decode_utf16_all (decode_utf16 us)) = Ret [Inr 0x1F600, Inr 0x41]"
proof -
  have "utf16_items [0xD800, 0x41, 0xD83D, 0xDE00, 0xDC00] = [Inl 0xD800, Inr 0x41, Inr 0x1F600, Inl 0xDC00]"
    by (simp add: single_unit_def leading_surrogate_def trailing_surrogate_def)
  moreover have "\<forall>c \<in> set [0x1F600, 0x41 :: u32]. from_u32 c \<noteq> None"
    by (simp add: from_u32_def char_try_from_u32_is_scalar is_scalar_def)
  moreover have "map Inr [0x1F600, 0x41 :: u32] = [Inr 0x1F600, Inr 0x41 :: u16 + u32]" by simp
  ultimately show ?thesis using decode_utf16_lossless [of "[0xD800, 0x41, 0xD83D, 0xDE00, 0xDC00]" "[0x1F600, 0x41]"] by metis
qed

text \<open>\<open>to_digit\<close> inverts \<open>from_digit\<close> for every radix up to 36, and the intermediate digit
  character is ASCII.\<close>

lemma digit_roundtrip:
  assumes "radix \<le> 36" and "num < radix"
  shows "\<exists>c. from_digit num radix = Ret (Some c) \<and> c < 0x80 \<and> to_digit c radix = Ret (Some num)"
proof -
  define n where "n = unat num"
  have n: "n < 36" "n < unat radix" and r: "unat radix \<le> 36"
    using assms by (auto simp: n_def word_less_nat_alt word_le_nat_alt)
  show ?thesis
  proof (cases "n < 10")
    case True
    let ?c = "ucast (0x30 + ucast num :: u8) :: u32"
    have "unat ?c = 0x30 + n" using True by (simp add: word_nat unat_word_ariths n_def)
    then have "?c - 0x30 = num" "?c < 0x80"
      using True by (auto simp: word_unat_eq_iff unat_sub_wrap n_def word_less_nat_alt)
    moreover have "(ucast num :: u8) < 10" "num < 10"
      using True by (auto simp: word_less_nat_alt word_nat n_def)
    ultimately show ?thesis using assms by (auto simp: from_digit_def to_digit_def Let_def)
  next
    case False
    let ?c = "ucast (0x61 + ucast num - 10 :: u8) :: u32"
    have c: "unat ?c = 0x57 + n" using False n by (simp add: word_nat unat_word_ariths unat_sub_wrap n_def)
    have "?c OR 0x20 = ?c"
    proof -
      have "unat ?c \<in> {97..<123}" using c n False by auto
      then have "?c \<in> of_nat ` {97..<123}" by (intro image_eqI [where x = "unat ?c"]) simp_all
      moreover have "\<forall>w \<in> of_nat ` {97..<123}. w OR 0x20 = (w :: u32)" by code_simp
      ultimately show ?thesis by blast
    qed
    moreover have "\<not> ?c - 0x30 < 10" "?c < 0x80" "saturating_add_u32 (?c - 0x61) 10 = num"
      using c n False
      by (auto simp: word_less_nat_alt unat_sub_wrap saturating_add_u32_def word_unat_eq_iff
          unat_word_ariths n_def)
    moreover have "\<not> (ucast num :: u8) < 10" "10 < radix"
      using False n by (auto simp: word_less_nat_alt word_nat n_def)
    ultimately show ?thesis using assms by (auto simp: from_digit_def to_digit_def Let_def)
  qed
qed

end
