(* ===== verification/Utf8_Codec.thy ===== *)
theory Utf8_Codec
  imports Char_Encoding
begin

text \<open>
  The decoder of one code point, in both directions (\<open>next_code_point\<close> and
  \<open>next_code_point_reverse\<close> of \<open>library/core/src/str/validations.rs\<close>), the byte grammar of RFC 3629
  as the validator spells it, and the proof that the grammar describes exactly what
  \<open>encode_utf8_raw\<close> writes for scalar values and that the decoders invert it. The byte iterator of
  the source is a list; an \<open>unwrap_unchecked\<close> of a missing byte is undefined behaviour.
\<close>

section \<open>Decoding one code point\<close>

definition CONT_MASK :: u8 where "CONT_MASK = 0x3F"

definition utf8_first_byte :: "u8 \<Rightarrow> nat \<Rightarrow> u32" where
  "utf8_first_byte byte width = ucast (byte AND drop_bit width 0x7F)"

definition utf8_acc_cont_byte :: "u32 \<Rightarrow> u8 \<Rightarrow> u32" where
  "utf8_acc_cont_byte ch byte = push_bit 6 ch OR ucast (byte AND CONT_MASK)"

definition utf8_is_cont_byte :: "u8 \<Rightarrow> bool" where
  "utf8_is_cont_byte byte \<longleftrightarrow> sint byte < -64"

text \<open>The byte iterator of the source is the list of the bytes not yet consumed.\<close>

fun next_byte_unchecked :: "u8 list \<Rightarrow> (u8 \<times> u8 list) outcome" where
  "next_byte_unchecked [] = UB"
| "next_byte_unchecked (b # bs) = Ret (b, bs)"

definition next_code_point :: "u8 list \<Rightarrow> (u32 option \<times> u8 list) outcome" where
  "next_code_point bytes =
     (case bytes of
        [] \<Rightarrow> Ret (None, [])
      | x # bytes \<Rightarrow>
          if x < 128 then Ret (Some (ucast x), bytes)
          else (let init = utf8_first_byte x 2 in
            and_then (next_byte_unchecked bytes) (\<lambda>(y, bytes).
              if \<not> 0xE0 \<le> x then Ret (Some (utf8_acc_cont_byte init y), bytes)
              else and_then (next_byte_unchecked bytes) (\<lambda>(z, bytes).
                let y_z = utf8_acc_cont_byte (ucast (y AND CONT_MASK)) z in
                if \<not> 0xF0 \<le> x then Ret (Some (push_bit 12 init OR y_z), bytes)
                else and_then (next_byte_unchecked bytes) (\<lambda>(w, bytes).
                  Ret (Some (push_bit 18 (init AND 7) OR utf8_acc_cont_byte y_z w), bytes))))))"

definition next_back_unchecked :: "u8 list \<Rightarrow> (u8 \<times> u8 list) outcome" where
  "next_back_unchecked bs = (if bs = [] then UB else Ret (last bs, butlast bs))"

definition next_code_point_reverse :: "u8 list \<Rightarrow> (u32 option \<times> u8 list) outcome" where
  "next_code_point_reverse bytes =
     (if bytes = [] then Ret (None, [])
      else (let w = last bytes; bytes = butlast bytes in
        if w < 128 then Ret (Some (ucast w), bytes)
        else and_then (next_back_unchecked bytes) (\<lambda>(z, bytes).
          if utf8_is_cont_byte z then
            and_then (next_back_unchecked bytes) (\<lambda>(y, bytes).
              if utf8_is_cont_byte y then
                and_then (next_back_unchecked bytes) (\<lambda>(x, bytes).
                  let ch = utf8_first_byte x 4;
                      ch = utf8_acc_cont_byte ch y;
                      ch = utf8_acc_cont_byte ch z
                  in Ret (Some (utf8_acc_cont_byte ch w), bytes))
              else (let ch = utf8_acc_cont_byte (utf8_first_byte y 3) z
                    in Ret (Some (utf8_acc_cont_byte ch w), bytes)))
          else Ret (Some (utf8_acc_cont_byte (utf8_first_byte z 2) w), bytes))))"

section \<open>Bytes\<close>

lemma bit_7_u8: "bit (b :: u8) 7 \<longleftrightarrow> 128 \<le> unat b"
proof -
  have lt: "unat b < 256" using unat_less_pow [of b] by simp
  have "bit b 7 \<longleftrightarrow> bit (unat b) 7" by (simp add: bit_unsigned_iff)
  also have "\<dots> \<longleftrightarrow> odd (unat b div 128)" by (simp add: bit_iff_odd)
  also have "\<dots> \<longleftrightarrow> 128 \<le> unat b"
  proof (cases "128 \<le> unat b")
    case True
    then have "unat b div 128 = 1" using lt by (simp add: div_eq_iff_range)
    with True show ?thesis by simp
  qed simp
  finally show ?thesis .
qed

lemma sint_u8: "sint (b :: u8) = (if unat b < 128 then int (unat b) else int (unat b) - 256)"
proof -
  have "sint b = signed_take_bit 7 (uint b)" by (simp add: signed_take_bit_eq sint_uint)
  also have "\<dots> = uint b - 256 * of_bool (bit b 7)"
    by (simp add: signed_take_bit_eq_take_bit_minus bit_unsigned_iff)
      (simp add: take_bit_int_eq_self_iff unsigned_less [of b, simplified])
  finally show ?thesis by (auto simp: bit_7_u8)
qed

lemma is_cont_byte_range: "utf8_is_cont_byte b \<longleftrightarrow> 0x80 \<le> b \<and> b \<le> 0xBF"
  using unat_less_pow [of b]
  by (auto simp: utf8_is_cont_byte_def sint_u8 word_le_nat_alt simp del: of_nat_unat)

lemma not_cont_byte: "sint b \<ge> -64 \<longleftrightarrow> \<not> utf8_is_cont_byte b"
  by (auto simp: utf8_is_cont_byte_def)

section \<open>The grammar of RFC 3629 and the encoder\<close>

text \<open>The second byte allowed after a leading byte: the tuple patterns of the validator.\<close>

definition second_of_three :: "u8 \<Rightarrow> u8 \<Rightarrow> bool" where
  "second_of_three first b \<longleftrightarrow>
     first = 0xE0 \<and> 0xA0 \<le> b \<and> b \<le> 0xBF \<or>
     0xE1 \<le> first \<and> first \<le> 0xEC \<and> 0x80 \<le> b \<and> b \<le> 0xBF \<or>
     first = 0xED \<and> 0x80 \<le> b \<and> b \<le> 0x9F \<or>
     0xEE \<le> first \<and> first \<le> 0xEF \<and> 0x80 \<le> b \<and> b \<le> 0xBF"

definition second_of_four :: "u8 \<Rightarrow> u8 \<Rightarrow> bool" where
  "second_of_four first b \<longleftrightarrow>
     first = 0xF0 \<and> 0x90 \<le> b \<and> b \<le> 0xBF \<or>
     0xF1 \<le> first \<and> first \<le> 0xF3 \<and> 0x80 \<le> b \<and> b \<le> 0xBF \<or>
     first = 0xF4 \<and> 0x80 \<le> b \<and> b \<le> 0x8F"



text \<open>The byte sequences of one character, as the comment in the source quotes them.\<close>

fun rfc3629_char :: "u8 list \<Rightarrow> bool" where
  "rfc3629_char [a] = (a < 0x80)"
| "rfc3629_char [a, b] = (0xC2 \<le> a \<and> a \<le> 0xDF \<and> utf8_is_cont_byte b)"
| "rfc3629_char [a, b, c] = (second_of_three a b \<and> utf8_is_cont_byte c)"
| "rfc3629_char [a, b, c, d] = (second_of_four a b \<and> utf8_is_cont_byte c \<and> utf8_is_cont_byte d)"
| "rfc3629_char _ = False"

lemmas byte_nat = second_of_three_def second_of_four_def is_cont_byte_range
  word_le_nat_alt word_less_nat_alt word_unat_eq_iff

text \<open>Six-bit groups of a number, for linear reasoning about encoded bytes.\<close>

lemma six_bit_groups:
  fixes n :: nat
  shows "n = 64 * (n div 64) + n mod 64"
    and "n div 64 = 64 * (n div 4096) + n div 64 mod 64"
    and "n div 4096 = 64 * (n div 262144) + n div 4096 mod 64"
proof -
  have "n div 4096 = n div 64 div 64" "n div 262144 = n div 4096 div 64"
    by (simp_all flip: div_mult2_eq)
  then show "n div 64 = 64 * (n div 4096) + n div 64 mod 64"
    "n div 4096 = 64 * (n div 262144) + n div 4096 mod 64" by (metis mult_div_mod_eq)+
qed simp

lemma rfc3629_utf8_bytes:
  assumes "is_scalar c"
  shows "rfc3629_char (utf8_bytes c)"
proof -
  define n where "n = unat c"
  have n: "n < 0x110000" "\<not> (0xD800 \<le> n \<and> n < 0xE000)"
    using assms by (auto simp: n_def is_scalar_def word_less_nat_alt word_le_nat_alt)
  note m = map_unat_utf8_bytes [of c, folded n_def]
  consider "n < 0x80" | "0x80 \<le> n" "n < 0x800" | "0x800 \<le> n" "n < 0x10000" | "0x10000 \<le> n"
    by linarith
  then show ?thesis
  proof cases
    case 1
    with m show ?thesis by (auto simp: map_eq_Cons_conv byte_nat)
  next
    case 2
    with m obtain a b where "utf8_bytes c = [a, b]" "unat a = 0xC0 + n div 64 mod 32"
      "unat b = 0x80 + n mod 64" by (auto simp: map_eq_Cons_conv)
    moreover have "n div 64 < 32" using 2 by simp
    moreover have "2 \<le> n div 64" using 2 by simp
    ultimately show ?thesis by (auto simp: byte_nat)
  next
    case 3
    with m obtain a b d where b: "utf8_bytes c = [a, b, d]" "unat a = 0xE0 + n div 4096 mod 16"
      "unat b = 0x80 + n div 64 mod 64" "unat d = 0x80 + n mod 64" by (auto simp: map_eq_Cons_conv)
    define A B C where "A = n div 4096" and "B = n div 64 mod 64" and "C = n mod 64"
    have lt: "A < 16" "B < 64" "C < 64" using 3 by (simp_all add: A_def B_def C_def)
    have "n = 4096 * A + 64 * B + C"
      using six_bit_groups(1,2) [of n] unfolding A_def B_def C_def by linarith
    with 3 n lt have z: "A = 0 \<longrightarrow> 32 \<le> B" "A = 13 \<longrightarrow> B < 32" by linarith+
    have "unat a = 0xE0 + A" "unat b = 0x80 + B" "unat d = 0x80 + C"
      using b lt by (simp_all add: A_def B_def C_def)
    with b(1) z lt show ?thesis by (simp add: byte_nat) linarith
  next
    case 4
    with m obtain a b d e where b: "utf8_bytes c = [a, b, d, e]" "unat a = 0xF0 + n div 262144 mod 8"
      "unat b = 0x80 + n div 4096 mod 64" "unat d = 0x80 + n div 64 mod 64" "unat e = 0x80 + n mod 64"
      by (auto simp: map_eq_Cons_conv)
    define A B C D where "A = n div 262144" and "B = n div 4096 mod 64" and "C = n div 64 mod 64"
      and "D = n mod 64"
    have lt: "B < 64" "C < 64" "D < 64" by (simp_all add: B_def C_def D_def)
    have e: "n = 262144 * A + 4096 * B + 64 * C + D"
      using six_bit_groups [of n] unfolding A_def B_def C_def D_def by linarith
    have A: "A \<le> 4" using n(1) e by linarith
    have z: "A = 0 \<longrightarrow> 16 \<le> B" "A = 4 \<longrightarrow> B < 16" using 4 n(1) e lt by linarith+
    have "unat a = 0xF0 + A" "unat b = 0x80 + B" "unat d = 0x80 + C" "unat e = 0x80 + D"
      using b A by (simp_all add: A_def B_def C_def D_def)
    with b(1) z lt A show ?thesis by (simp add: byte_nat) linarith
  qed
qed

section \<open>Decoding inverts encoding\<close>

fun decode_nat :: "nat list \<Rightarrow> nat" where
  "decode_nat [a] = a"
| "decode_nat [a, b] = 64 * (a mod 32) + b mod 64"
| "decode_nat [a, b, c] = 4096 * (a mod 16) + 64 * (b mod 64) + c mod 64"
| "decode_nat [a, b, c, d] = 262144 * (a mod 8) + 4096 * (b mod 64) + 64 * (c mod 64) + d mod 64"
| "decode_nat _ = 0"

lemma unat_first_byte [word_nat]:
  "unat (utf8_first_byte b 2) = unat b mod 32" "unat (utf8_first_byte b 3) = unat b mod 16"
  "unat (utf8_first_byte b 4) = unat b mod 8"
  by (simp_all add: utf8_first_byte_def word_nat)

lemma unat_cont_value [word_nat]: "unat (b AND CONT_MASK) = unat b mod 64"
  by (simp add: CONT_MASK_def word_nat)

lemma unat_ucast_u8 [simp]: "unat (ucast (b :: u8) :: u32) = unat b"
  using unat_less_pow [of b] by (simp add: word_nat)

lemma unat_acc_cont_byte:
  "unat ch < 0x400000 \<Longrightarrow> unat (utf8_acc_cont_byte ch b) = 64 * unat ch + unat b mod 64"
  unfolding utf8_acc_cont_byte_def
  by (subst unat_or_disjoint [where k = 6]) (auto simp: word_nat)

lemma unat_first_and_7: "unat (utf8_first_byte x 2 AND 7) = unat x mod 8"
  using unat_and_low_bits(1) [of "utf8_first_byte x 2"] by (simp add: word_nat mod_mod_cancel)

lemma code_point_sums:
  "unat (utf8_acc_cont_byte (utf8_first_byte x 2) y) = decode_nat [unat x, unat y]"
  "unat (utf8_acc_cont_byte (ucast (y AND CONT_MASK)) z) = 64 * (unat y mod 64) + unat z mod 64"
  "unat (push_bit 12 (utf8_first_byte x 2) OR utf8_acc_cont_byte (ucast (y AND CONT_MASK)) z)
     = 4096 * (unat x mod 32) + 64 * (unat y mod 64) + unat z mod 64"
  "unat (push_bit 18 (utf8_first_byte x 2 AND 7)
       OR utf8_acc_cont_byte (utf8_acc_cont_byte (ucast (y AND CONT_MASK)) z) w)
     = decode_nat [unat x, unat y, unat z, unat w]"
proof -
  have m: "unat y mod 64 < 64" "unat z mod 64 < 64" "unat w mod 64 < 64" "unat x mod 32 < 32"
    "unat x mod 8 < 8" by simp_all
  show "unat (utf8_acc_cont_byte (utf8_first_byte x 2) y) = decode_nat [unat x, unat y]"
    using m by (simp add: unat_acc_cont_byte word_nat)
  show yz: "unat (utf8_acc_cont_byte (ucast (y AND CONT_MASK)) z) = 64 * (unat y mod 64) + unat z mod 64"
    using m by (simp add: unat_acc_cont_byte word_nat)
  show "unat (push_bit 12 (utf8_first_byte x 2) OR utf8_acc_cont_byte (ucast (y AND CONT_MASK)) z)
     = 4096 * (unat x mod 32) + 64 * (unat y mod 64) + unat z mod 64"
    using m by (subst unat_or_disjoint [where k = 12]) (auto simp: word_nat yz)
  have yzw: "unat (utf8_acc_cont_byte (utf8_acc_cont_byte (ucast (y AND CONT_MASK)) z) w)
     = 4096 * (unat y mod 64) + 64 * (unat z mod 64) + unat w mod 64"
    using m by (subst unat_acc_cont_byte) (auto simp: yz)
  show "unat (push_bit 18 (utf8_first_byte x 2 AND 7)
       OR utf8_acc_cont_byte (utf8_acc_cont_byte (ucast (y AND CONT_MASK)) z) w)
     = decode_nat [unat x, unat y, unat z, unat w]"
    using m by (subst unat_or_disjoint [where k = 18])
      (auto simp: word_nat yzw unat_first_and_7 mod_mod_cancel simp del: push_bit_and)
qed

lemma rfc3629_lead:
  assumes "rfc3629_char (a # bs)"
  shows "bs = [] \<longleftrightarrow> a < 128" "length bs = 1 \<longleftrightarrow> 0xC2 \<le> a \<and> a \<le> 0xDF"
    "length bs = 2 \<longleftrightarrow> 0xE0 \<le> a \<and> a \<le> 0xEF" "length bs = 3 \<longleftrightarrow> 0xF0 \<le> a \<and> a \<le> 0xF4"
    "length bs \<le> 3"
  using assms by (cases "a # bs" rule: rfc3629_char.cases; auto simp: byte_nat)+

lemma rfc3629_tail:
  assumes "rfc3629_char (a # bs)"
  shows "\<forall>b \<in> set bs. utf8_is_cont_byte b" "\<not> utf8_is_cont_byte a"
  using assms by (cases "a # bs" rule: rfc3629_char.cases; auto simp: byte_nat)+

lemma rfc3629_cases [consumes 1, case_names one two three four]:
  assumes rfc: "rfc3629_char bs"
    and "\<And>a. bs = [a] \<Longrightarrow> a < 128 \<Longrightarrow> P"
    and "\<And>a b. bs = [a, b] \<Longrightarrow> 0xC2 \<le> a \<Longrightarrow> a \<le> 0xDF \<Longrightarrow> P"
    and "\<And>a b c. bs = [a, b, c] \<Longrightarrow> 0xE0 \<le> a \<Longrightarrow> a \<le> 0xEF \<Longrightarrow> P"
    and "\<And>a b c d. bs = [a, b, c, d] \<Longrightarrow> 0xF0 \<le> a \<Longrightarrow> a \<le> 0xF4 \<Longrightarrow> P"
  shows P
proof (cases bs rule: rfc3629_char.cases)
  case (1 a)
  with rfc assms(2) show ?thesis by simp
next
  case (2 a b)
  with rfc assms(3) show ?thesis by simp
next
  case (3 a b c)
  with rfc rfc3629_lead(3) [of a "[b, c]"] assms(4) show ?thesis by simp
next
  case (4 a b c d)
  with rfc rfc3629_lead(4) [of a "[b, c, d]"] assms(5) show ?thesis by simp
qed (use rfc in auto)

lemma next_code_point_rfc:
  assumes "rfc3629_char bs"
  shows "\<exists>c. next_code_point (bs @ rest) = Ret (Some c, rest) \<and> unat c = decode_nat (map unat bs)"
  using assms
proof (cases rule: rfc3629_cases)
  case (one a)
  then show ?thesis by (intro exI [of _ "ucast a"]) (simp add: next_code_point_def)
next
  case (two a b)
  then have "\<not> a < 128" "\<not> 0xE0 \<le> a" by (auto simp: word_le_nat_alt word_less_nat_alt)
  then have "next_code_point (bs @ rest) = Ret (Some (utf8_acc_cont_byte (utf8_first_byte a 2) b), rest)"
    by (simp add: two next_code_point_def Let_def)
  then show ?thesis using code_point_sums(1) [of a b] by (simp add: two)
next
  case (three a b c)
  let ?c = "push_bit 12 (utf8_first_byte a 2) OR utf8_acc_cont_byte (ucast (b AND CONT_MASK)) c"
  have k: "unat a - 224 < 16" "224 \<le> unat a" using three by (auto simp: word_le_nat_alt)
  then have "unat a div 32 = 7" "unat a div 16 = 14" by (simp_all add: div_eq_iff_range)
  then have m: "unat a mod 32 = unat a mod 16"
    using minus_mult_div_eq_mod [of "unat a" 32] minus_mult_div_eq_mod [of "unat a" 16] by simp
  have "\<not> a < 128" "0xE0 \<le> a" "\<not> 0xF0 \<le> a"
    using three by (auto simp: word_le_nat_alt word_less_nat_alt)
  then have "next_code_point (bs @ rest) = Ret (Some ?c, rest)"
    by (simp add: three next_code_point_def Let_def)
  moreover have "unat ?c = decode_nat (map unat bs)"
    by (simp only: three code_point_sums m list.map decode_nat.simps)
  ultimately show ?thesis by blast
next
  case (four a b c d)
  let ?c = "push_bit 18 (utf8_first_byte a 2 AND 7)
       OR utf8_acc_cont_byte (utf8_acc_cont_byte (ucast (b AND CONT_MASK)) c) d"
  have "\<not> a < 128" "0xE0 \<le> a" "0xF0 \<le> a"
    using four by (auto simp: word_le_nat_alt word_less_nat_alt)
  then have "next_code_point (bs @ rest) = Ret (Some ?c, rest)"
    by (simp add: four next_code_point_def Let_def del: push_bit_and)
  moreover have "unat ?c = decode_nat (map unat bs)"
    by (simp only: four code_point_sums list.map)
  ultimately show ?thesis by blast
qed

lemma reverse_sums:
  "unat (utf8_acc_cont_byte (utf8_acc_cont_byte (utf8_first_byte x 3) y) z)
     = decode_nat [unat x, unat y, unat z]"
  "unat (utf8_acc_cont_byte (utf8_acc_cont_byte (utf8_acc_cont_byte (utf8_first_byte x 4) y) z) w)
     = decode_nat [unat x, unat y, unat z, unat w]"
proof -
  have m: "unat y mod 64 < 64" "unat z mod 64 < 64" "unat x mod 16 < 16" "unat x mod 8 < 8" by simp_all
  have a: "unat (utf8_acc_cont_byte (utf8_first_byte x 3) y) = 64 * (unat x mod 16) + unat y mod 64"
    "unat (utf8_acc_cont_byte (utf8_first_byte x 4) y) = 64 * (unat x mod 8) + unat y mod 64"
    using m by (simp_all add: unat_acc_cont_byte word_nat)
  show "unat (utf8_acc_cont_byte (utf8_acc_cont_byte (utf8_first_byte x 3) y) z)
     = decode_nat [unat x, unat y, unat z]"
    using m by (simp add: unat_acc_cont_byte a)
  have "unat (utf8_acc_cont_byte (utf8_acc_cont_byte (utf8_first_byte x 4) y) z)
     = 4096 * (unat x mod 8) + 64 * (unat y mod 64) + unat z mod 64"
    using m by (simp add: unat_acc_cont_byte a)
  then show "unat (utf8_acc_cont_byte (utf8_acc_cont_byte (utf8_acc_cont_byte (utf8_first_byte x 4) y) z) w)
     = decode_nat [unat x, unat y, unat z, unat w]"
    using m by (simp add: unat_acc_cont_byte)
qed

lemma next_code_point_reverse_rfc:
  assumes "rfc3629_char bs"
  shows "\<exists>c. next_code_point_reverse (pre @ bs) = Ret (Some c, pre) \<and> unat c = decode_nat (map unat bs)"
proof -
  have snoc: "next_back_unchecked (xs @ [x]) = Ret (x, xs)" for x xs
    by (simp add: next_back_unchecked_def)
  have shape: "pre @ [a, b] = (pre @ [a]) @ [b]" "pre @ [a, b, c] = ((pre @ [a]) @ [b]) @ [c]"
    "pre @ [a, b, c, d] = (((pre @ [a]) @ [b]) @ [c]) @ [d]" for a b c d by simp_all
  note rev_defs = next_code_point_reverse_def Let_def butlast_snoc last_snoc snoc shape
  have cont: "utf8_is_cont_byte b \<Longrightarrow> \<not> b < 128" for b by (auto simp: byte_nat)
  from assms show ?thesis
  proof (cases rule: rfc3629_cases)
    case (one a)
    then have "next_code_point_reverse (pre @ bs) = Ret (Some (ucast a), pre)"
      unfolding one rev_defs by simp
    then show ?thesis by (simp add: one)
  next
    case (two a b)
    with assms rfc3629_tail [of a "[b]"] have "\<not> utf8_is_cont_byte a" "\<not> b < 128"
      by (simp_all add: cont)
    then have "next_code_point_reverse (pre @ bs)
        = Ret (Some (utf8_acc_cont_byte (utf8_first_byte a 2) b), pre)"
      unfolding two rev_defs by simp
    then show ?thesis using code_point_sums(1) [of a b] by (simp add: two)
  next
    case (three a b c)
    with assms rfc3629_tail [of a "[b, c]"]
    have "\<not> utf8_is_cont_byte a" "utf8_is_cont_byte b" "\<not> c < 128" by (simp_all add: cont)
    then have "next_code_point_reverse (pre @ bs)
        = Ret (Some (utf8_acc_cont_byte (utf8_acc_cont_byte (utf8_first_byte a 3) b) c), pre)"
      unfolding three rev_defs by (simp add: snoc)
    then show ?thesis using reverse_sums(1) [of a b c] by (simp only: three list.map) blast
  next
    case (four a b c d)
    with assms have "\<forall>x \<in> set [b, c, d]. utf8_is_cont_byte x" by (intro rfc3629_tail(1) [of a]) simp
    then have "utf8_is_cont_byte b" "utf8_is_cont_byte c" "\<not> d < 128" by (auto simp: cont)
    then have "next_code_point_reverse (pre @ bs)
        = Ret (Some (utf8_acc_cont_byte (utf8_acc_cont_byte (utf8_acc_cont_byte
            (utf8_first_byte a 4) b) c) d), pre)"
      unfolding four rev_defs by (simp add: snoc del: append_assoc)
    then show ?thesis using reverse_sums(2) [of a b c d] by (simp only: four list.map) blast
  qed
qed

lemma tagged_mods:
  fixes x :: nat
  shows "x < 32 \<Longrightarrow> (0xC0 + x) mod 32 = x" "x < 16 \<Longrightarrow> (0xE0 + x) mod 16 = x"
    "x < 8 \<Longrightarrow> (0xF0 + x) mod 8 = x" "x < 64 \<Longrightarrow> (0x80 + x) mod 64 = x"
  using mod_mult_self3 [of 6 32 x] mod_mult_self3 [of 14 16 x] mod_mult_self3 [of 30 8 x]
    mod_mult_self3 [of 2 64 x] by simp_all

lemma six_bit_digits:
  fixes a b c d :: nat
  assumes "b < 64" "c < 64" "d < 64"
  shows "(64 * a + b) div 64 = a" "(64 * a + b) mod 64 = b"
    "(4096 * a + 64 * b + c) div 4096 = a" "(4096 * a + 64 * b + c) div 64 mod 64 = b"
    "(4096 * a + 64 * b + c) mod 64 = c"
    "(262144 * a + 4096 * b + 64 * c + d) div 262144 = a"
    "(262144 * a + 4096 * b + 64 * c + d) div 4096 mod 64 = b"
    "(262144 * a + 4096 * b + 64 * c + d) div 64 mod 64 = c"
    "(262144 * a + 4096 * b + 64 * c + d) mod 64 = d"
proof -
  have s: "(64 * x + y) div 64 = x" "(64 * x + y) mod 64 = y" if "y < 64" for x y :: nat
    using that by simp_all
  have n: "4096 * a + 64 * b + c = 64 * (64 * a + b) + c"
    and m: "262144 * a + 4096 * b + 64 * c + d = 64 * (64 * (64 * a + b) + c) + d" by simp_all
  have q: "x div 4096 = x div 64 div 64" "x div 262144 = x div 64 div 64 div 64" for x :: nat
    by (simp_all flip: div_mult2_eq)
  show "(64 * a + b) div 64 = a" "(64 * a + b) mod 64 = b"
    "(4096 * a + 64 * b + c) div 4096 = a" "(4096 * a + 64 * b + c) div 64 mod 64 = b"
    "(4096 * a + 64 * b + c) mod 64 = c"
    "(262144 * a + 4096 * b + 64 * c + d) div 262144 = a"
    "(262144 * a + 4096 * b + 64 * c + d) div 4096 mod 64 = b"
    "(262144 * a + 4096 * b + 64 * c + d) div 64 mod 64 = c"
    "(262144 * a + 4096 * b + 64 * c + d) mod 64 = d"
    unfolding n m q by (simp_all only: s assms)
qed

lemma decode_nat_utf8_bytes:
  assumes "is_scalar c"
  shows "decode_nat (map unat (utf8_bytes c)) = unat c"
proof -
  define n where "n = unat c"
  have lt: "n < 0x110000" using assms by (simp add: n_def is_scalar_def word_less_nat_alt)
  note m = map_unat_utf8_bytes [of c, folded n_def] and g = six_bit_groups [of n]
  consider "n < 0x80" | "0x80 \<le> n" "n < 0x800" | "0x800 \<le> n" "n < 0x10000" | "0x10000 \<le> n"
    by linarith
  then have "decode_nat (map unat (utf8_bytes c)) = n"
  proof cases
    case 2
    then have "n div 64 < 32" by simp
    with 2 g(1) show ?thesis by (simp add: m tagged_mods)
  next
    case 3
    then have "n div 4096 < 16" by simp
    moreover have "4096 * (n div 4096) + 64 * (n div 64 mod 64) + n mod 64 = n" using g by linarith
    ultimately show ?thesis using 3 by (simp add: m tagged_mods)
  next
    case 4
    have "n div 262144 < 8" using lt by simp
    moreover have "262144 * (n div 262144) + 4096 * (n div 4096 mod 64) + 64 * (n div 64 mod 64)
      + n mod 64 = n" using g by linarith
    ultimately show ?thesis using 4 by (simp add: m tagged_mods)
  qed (simp add: m)
  then show ?thesis by (simp add: n_def)
qed

lemma next_code_point_utf8_bytes:
  assumes "is_scalar c"
  shows "next_code_point (utf8_bytes c @ rest) = Ret (Some c, rest)"
    and "next_code_point_reverse (pre @ utf8_bytes c) = Ret (Some c, pre)"
  using next_code_point_rfc [OF rfc3629_utf8_bytes [OF assms], of rest]
    next_code_point_reverse_rfc [OF rfc3629_utf8_bytes [OF assms], of pre]
  by (auto simp: decode_nat_utf8_bytes assms word_unat_eq_iff)

lemma rfc3629_imp_utf8_bytes:
  assumes "rfc3629_char bs"
  shows "\<exists>c. is_scalar c \<and> utf8_bytes c = bs"
proof -
  define n where "n = decode_nat (map unat bs)"
  have "n < 0x110000 \<and> \<not> (0xD800 \<le> n \<and> n < 0xE000) \<and>
    (if n < 0x80 then [n]
      else if n < 0x800 then [0xC0 + n div 64 mod 32, 0x80 + n mod 64]
      else if n < 0x10000 then [0xE0 + n div 4096 mod 16, 0x80 + n div 64 mod 64, 0x80 + n mod 64]
      else [0xF0 + n div 262144 mod 8, 0x80 + n div 4096 mod 64, 0x80 + n div 64 mod 64,
            0x80 + n mod 64]) = map unat bs"
    using assms
  proof (cases rule: rfc3629_cases)
    case (one a)
    then show ?thesis by (simp add: n_def word_less_nat_alt)
  next
    case (two a b)
    define A B where "A = unat a - 0xC0" and "B = unat b - 0x80"
    have v: "unat a = 0xC0 + A" "unat b = 0x80 + B" "2 \<le> A" "A < 32" "B < 64"
      using two assms by (auto simp: A_def B_def byte_nat)
    then have n: "n = 64 * A + B" by (simp add: n_def two tagged_mods)
    with v show ?thesis by (simp add: two six_bit_digits)
  next
    case (three a b c)
    define A B C where "A = unat a - 0xE0" and "B = unat b - 0x80" and "C = unat c - 0x80"
    have v: "unat a = 0xE0 + A" "unat b = 0x80 + B" "unat c = 0x80 + C" "A < 16" "B < 64" "C < 64"
      and z: "A = 0 \<longrightarrow> 32 \<le> B" "A = 13 \<longrightarrow> B < 32"
      using three assms by (auto simp: A_def B_def C_def byte_nat)
    then have n: "n = 4096 * A + 64 * B + C" by (simp add: n_def three tagged_mods)
    have "0x800 \<le> n" "n < 0x10000" using v z unfolding n by linarith+
    moreover have "n < 0xD800 \<or> 0xE000 \<le> n"
      using v z unfolding n by (cases A "13 :: nat" rule: linorder_cases) linarith+
    ultimately have "0x800 \<le> n" "n < 0x10000" "\<not> (0xD800 \<le> n \<and> n < 0xE000)" by linarith+
    with v show ?thesis by (simp add: three n six_bit_digits)
  next
    case (four a b c d)
    define A B C D where "A = unat a - 0xF0" and "B = unat b - 0x80" and "C = unat c - 0x80"
      and "D = unat d - 0x80"
    have v: "unat a = 0xF0 + A" "unat b = 0x80 + B" "unat c = 0x80 + C" "unat d = 0x80 + D"
        "A \<le> 4" "B < 64" "C < 64" "D < 64"
      and z: "A = 0 \<longrightarrow> 16 \<le> B" "A = 4 \<longrightarrow> B < 16"
      using four assms by (auto simp: A_def B_def C_def D_def byte_nat)
    then have n: "n = 262144 * A + 4096 * B + 64 * C + D" by (simp add: n_def four tagged_mods)
    have "0x10000 \<le> n" "n < 0x110000" using v z unfolding n by linarith+
    with v show ?thesis by (simp add: four n six_bit_digits)
  qed
  moreover from this have u: "unat (of_nat n :: u32) = n" by (simp add: unsigned_of_nat take_bit_nat_eq_self)
  ultimately have "is_scalar (of_nat n)" "map unat (utf8_bytes (of_nat n)) = map unat bs"
    by (simp_all only: map_unat_utf8_bytes u) (simp add: is_scalar_def word_less_nat_alt word_le_nat_alt u)
  then show ?thesis by (metis list.inj_map_strong word_eq_unatI)
qed

end
