(* ===== verification/Utf8_Validation.thy ===== *)
theory Utf8_Validation
  imports Utf8_Codec
begin

text \<open>
  The UTF-8 validator \<open>run_utf8_validation\<close> of \<open>library/core/src/str/validations.rs\<close>, with its
  word-wise ASCII fast path, and \<open>from_utf8\<close> of \<open>str/converts.rs\<close>. The slice is a list of bytes at an
  address; \<open>align\<close> is what \<open>align_offset\<close> returned for it. A read of a word at an address that is not
  a multiple of eight, or past the end of the slice, is undefined behaviour in the model.
\<close>

section \<open>Words of eight bytes\<close>

definition usize_from_bytes :: "u8 list \<Rightarrow> usize" where
  "usize_from_bytes bs = foldr (\<lambda>b w. ucast b OR push_bit 8 w) bs 0"

definition repeat_u8 :: "u8 \<Rightarrow> usize" where
  "repeat_u8 x = usize_from_bytes (replicate 8 x)"

definition NONASCII_MASK :: usize where "NONASCII_MASK = repeat_u8 0x80"

definition contains_nonascii :: "usize \<Rightarrow> bool" where
  "contains_nonascii x \<longleftrightarrow> x AND NONASCII_MASK \<noteq> 0"

definition read_usize :: "nat \<Rightarrow> u8 list \<Rightarrow> nat \<Rightarrow> usize outcome" where
  "read_usize addr v i =
     (if i + 8 \<le> length v \<and> (addr + i) mod 8 = 0
      then Ret (usize_from_bytes (take 8 (drop i v))) else UB)"

section \<open>The validator\<close>

definition UTF8_CHAR_WIDTH :: "nat list" where
  "UTF8_CHAR_WIDTH =
     replicate 128 1 @ replicate 64 0 @ [0, 0] @ replicate 14 2 @ replicate 16 2 @
     replicate 16 3 @ replicate 5 4 @ replicate 11 0"

definition utf8_char_width :: "u8 \<Rightarrow> nat" where
  "utf8_char_width b = UTF8_CHAR_WIDTH ! unat b"

record utf8_error =
  valid_up_to :: nat
  error_len :: "nat option"

definition utf8_err :: "nat \<Rightarrow> nat option \<Rightarrow> (utf8_error + 'a) outcome" where
  "utf8_err old_offset l = Ret (Inl \<lparr>valid_up_to = old_offset, error_len = l\<rparr>)"

text \<open>The macro \<open>next!\<close>, called with the incremented index.\<close>

definition next_or_err ::
  "u8 list \<Rightarrow> nat \<Rightarrow> nat \<Rightarrow> (u8 \<Rightarrow> (utf8_error + 'a) outcome) \<Rightarrow> (utf8_error + 'a) outcome" where
  "next_or_err v old_offset i k =
     (if length v \<le> i then utf8_err old_offset None else and_then (index v i) k)"

text \<open>The multi-byte branch of the loop body: the new index, or the error.\<close>

definition validate_multibyte :: "u8 list \<Rightarrow> nat \<Rightarrow> u8 \<Rightarrow> (utf8_error + nat) outcome" where
  "validate_multibyte v i first =
     (let w = utf8_char_width first in
      if w = 2 then
        next_or_err v i (i + 1) (\<lambda>b. if sint b \<ge> -64 then utf8_err i (Some 1) else Ret (Inr (i + 2)))
      else if w = 3 then
        next_or_err v i (i + 1) (\<lambda>b.
          if \<not> second_of_three first b then utf8_err i (Some 1)
          else next_or_err v i (i + 2) (\<lambda>c.
            if sint c \<ge> -64 then utf8_err i (Some 2) else Ret (Inr (i + 3))))
      else if w = 4 then
        next_or_err v i (i + 1) (\<lambda>b.
          if \<not> second_of_four first b then utf8_err i (Some 1)
          else next_or_err v i (i + 2) (\<lambda>c.
            if sint c \<ge> -64 then utf8_err i (Some 2)
            else next_or_err v i (i + 3) (\<lambda>d.
              if sint d \<ge> -64 then utf8_err i (Some 3) else Ret (Inr (i + 4)))))
      else utf8_err i (Some 1))"

text \<open>The two inner loops of the ASCII branch: two words at a time, then byte by byte.\<close>

function ascii_block_loop :: "nat \<Rightarrow> u8 list \<Rightarrow> nat \<Rightarrow> nat \<Rightarrow> nat outcome" where
  "ascii_block_loop addr v blocks_end i =
     (if i < blocks_end then
        and_then (read_usize addr v i) (\<lambda>u.
        and_then (read_usize addr v (i + 8)) (\<lambda>w.
          if contains_nonascii u \<or> contains_nonascii w then Ret i
          else ascii_block_loop addr v blocks_end (i + 16)))
      else Ret i)"
  by pat_completeness auto
termination by (relation "measure (\<lambda>(addr, v, e, i). e - i)") auto

function ascii_byte_loop :: "u8 list \<Rightarrow> nat \<Rightarrow> nat outcome" where
  "ascii_byte_loop v i =
     (if i < length v then
        and_then (index v i) (\<lambda>b. if b < 128 then ascii_byte_loop v (i + 1) else Ret i)
      else Ret i)"
  by pat_completeness auto
termination by (relation "measure (\<lambda>(v, i). length v - i)") auto

definition validate_ascii :: "nat \<Rightarrow> usize \<Rightarrow> u8 list \<Rightarrow> nat \<Rightarrow> nat outcome" where
  "validate_ascii addr align v i =
     (let blocks_end = (if 16 \<le> length v then length v - 16 + 1 else 0) in
      if align \<noteq> - 1 \<and> unat (align - of_nat i) mod 8 = 0 then
        and_then (ascii_block_loop addr v blocks_end i) (ascii_byte_loop v)
      else Ret (i + 1))"

definition validate_step :: "nat \<Rightarrow> usize \<Rightarrow> u8 list \<Rightarrow> nat \<Rightarrow> (utf8_error + nat) outcome" where
  "validate_step addr align v i =
     and_then (index v i) (\<lambda>first.
       if 128 \<le> first then validate_multibyte v i first
       else and_then (validate_ascii addr align v i) (\<lambda>j. Ret (Inr j)))"

declare ascii_block_loop.simps [simp del] ascii_byte_loop.simps [simp del]

section \<open>Words and the width table\<close>

lemma utf8_char_width_cases:
  "utf8_char_width b =
     (if b < 0x80 then 1 else if b < 0xC2 then 0 else if b < 0xE0 then 2
      else if b < 0xF0 then 3 else if b < 0xF5 then 4 else 0)"
  using unat_less_pow [of b]
  by (auto simp: utf8_char_width_def UTF8_CHAR_WIDTH_def nth_append word_less_nat_alt nth_Cons')

lemma bit_usize_from_bytes:
  "bit (usize_from_bytes bs) n \<longleftrightarrow> n < 64 \<and> n div 8 < length bs \<and> bit (bs ! (n div 8)) (n mod 8)"
proof (induction bs arbitrary: n)
  case Nil
  then show ?case by (simp add: usize_from_bytes_def)
next
  case (Cons b bs)
  have b: "\<not> bit b m" if "8 \<le> m" for m
    using that by (auto dest: bit_imp_le_length)
  have "bit (usize_from_bytes (b # bs)) n
     \<longleftrightarrow> n < 64 \<and> (bit b n \<or> 8 \<le> n \<and> bit (usize_from_bytes bs) (n - 8))"
    by (auto simp: usize_from_bytes_def bit_simps dest: bit_imp_le_length)
  also have "\<dots> \<longleftrightarrow> n < 64 \<and> n div 8 < length (b # bs) \<and> bit ((b # bs) ! (n div 8)) (n mod 8)"
  proof (cases "n < 8")
    case True
    then show ?thesis by simp
  next
    case False
    then have "n div 8 = Suc ((n - 8) div 8)" "n mod 8 = (n - 8) mod 8"
      by (simp_all add: le_div_geq le_mod_geq)
    with False b show ?thesis by (auto simp: Cons.IH)
  qed
  finally show ?case .
qed

lemma contains_nonascii_bytes:
  assumes "length bs = 8"
  shows "contains_nonascii (usize_from_bytes bs) \<longleftrightarrow> (\<exists>b \<in> set bs. \<not> b < 128)"
proof -
  have "contains_nonascii (usize_from_bytes bs)
      \<longleftrightarrow> (\<exists>n. bit (usize_from_bytes bs) n \<and> bit (repeat_u8 0x80) n)"
    by (auto simp: contains_nonascii_def NONASCII_MASK_def bit_eq_iff bit_simps)
      (use bit_usize_from_bytes in blast)
  also have "\<dots> \<longleftrightarrow> (\<exists>n < 64. bit (bs ! (n div 8)) (n mod 8) \<and> bit (0x80 :: u8) (n mod 8))"
    using assms by (auto simp: repeat_u8_def bit_usize_from_bytes)
  also have "\<dots> \<longleftrightarrow> (\<exists>k < 8. bit (bs ! k) 7)"
  proof -
    have m: "bit (0x80 :: u8) m \<longleftrightarrow> m = 7" for m
      using bit_exp_iff [of 7 m, where ?'a = u8] by (auto dest: bit_imp_le_length)
    have "bit (bs ! k) 7 \<Longrightarrow> k < 8 \<Longrightarrow> 8 * k + 7 < 64 \<and> bit (bs ! ((8 * k + 7) div 8)) ((8 * k + 7) mod 8)
        \<and> (8 * k + 7) mod 8 = 7" for k by simp
    moreover have "n < 64 \<Longrightarrow> n div 8 < 8" for n :: nat by simp
    ultimately show ?thesis unfolding m by metis
  qed
  also have "\<dots> \<longleftrightarrow> (\<exists>b \<in> set bs. \<not> b < 128)"
    using assms by (auto simp: bit_7_u8 in_set_conv_nth word_less_nat_alt not_less Bex_def)
  finally show ?thesis .
qed

section \<open>The ASCII fast path\<close>

definition align_ok :: "nat \<Rightarrow> usize \<Rightarrow> bool" where
  "align_ok addr align \<longleftrightarrow> align = - 1 \<or> (addr + unat align) mod 8 = 0"

lemma aligned_index:
  fixes align :: usize
  assumes "(addr + unat align) mod 8 = 0" and "unat (align - of_nat i) mod 8 = 0"
  shows "(addr + i) mod 8 = 0"
proof -
  define M :: int where "M = 2 ^ 64"
  have dvd: "(8::int) dvd M" by (simp add: M_def)
  have "uint (align - of_nat i) = (uint align - int i mod M) mod M"
    by (simp add: M_def uint_word_ariths unsigned_of_nat take_bit_eq_mod zmod_int)
  then have "uint (align - of_nat i) mod 8 = (uint align - int i mod M) mod 8"
    using dvd by (simp add: mod_mod_cancel)
  also have "\<dots> = (uint align - int i) mod 8"
    using dvd by (metis mod_diff_right_eq mod_mod_cancel)
  finally have "uint (align - of_nat i) mod 8 = (uint align - int i) mod 8" .
  moreover have "int (unat (align - of_nat i) mod 8) = 0" using assms(2) by simp
  ultimately have "(8::int) dvd uint align - int i"
    by (simp add: zmod_int mod_eq_0_iff_dvd)
  moreover have "int ((addr + unat align) mod 8) = 0" using assms(1) by simp
  then have "(8::int) dvd int addr + uint align"
    by (simp add: zmod_int mod_eq_0_iff_dvd)
  ultimately have "(8::int) dvd (int addr + uint align) - (uint align - int i)"
    using dvd_diff by blast
  then have "int 8 dvd int (addr + i)" by simp
  then have "8 dvd addr + i" by (simp only: of_nat_dvd_iff)
  then show ?thesis by (rule dvd_imp_mod_0)
qed

definition ascii_range :: "u8 list \<Rightarrow> nat \<Rightarrow> nat \<Rightarrow> bool" where
  "ascii_range v i j \<longleftrightarrow> i \<le> j \<and> j \<le> length v \<and> (\<forall>k. i \<le> k \<and> k < j \<longrightarrow> v ! k < 128)"

lemma ascii_range_trans: "ascii_range v i j \<Longrightarrow> ascii_range v j k \<Longrightarrow> ascii_range v i k"
  by (auto simp: ascii_range_def) (metis not_le_imp_less)

lemma ascii_range_refl [simp]: "ascii_range v i i \<longleftrightarrow> i \<le> length v"
  by (auto simp: ascii_range_def)

lemma ascii_range_Suc: "i < length v \<Longrightarrow> v ! i < 128 \<Longrightarrow> ascii_range v i (Suc i)"
  by (auto simp: ascii_range_def less_Suc_eq_le dest: le_antisym)

lemma ascii_block:
  assumes "length v \<ge> i + 8" and "\<not> contains_nonascii (usize_from_bytes (take 8 (drop i v)))"
  shows "ascii_range v i (i + 8)"
  unfolding ascii_range_def
proof (intro conjI allI impI)
  fix k
  assume k: "i \<le> k \<and> k < i + 8"
  have "take 8 (drop i v) ! (k - i) \<in> set (take 8 (drop i v))"
    using k assms(1) by (intro nth_mem) auto
  moreover have "take 8 (drop i v) ! (k - i) = v ! k" using k assms(1) by (auto simp: less_diff_conv2)
  ultimately have "v ! k \<in> set (take 8 (drop i v))" by simp
  then show "v ! k < 128"
    using assms contains_nonascii_bytes [of "take 8 (drop i v)"] by auto
qed (use assms in auto)

lemma ascii_block_loop_spec:
  assumes "i \<le> length v" and "(addr + i) mod 8 = 0" and "e = (if 16 \<le> length v then length v - 16 + 1 else 0)"
  shows "\<exists>j. ascii_block_loop addr v e i = Ret j \<and> ascii_range v i j"
  using assms
proof (induction addr v e i rule: ascii_block_loop.induct)
  case (1 addr v e i)
  show ?case
  proof (cases "i < e")
    case False
    then show ?thesis using "1.prems"(1) by (simp add: ascii_block_loop.simps [of addr v e i])
  next
    case True
    then have len: "i + 16 \<le> length v" using "1.prems"(3) by (auto split: if_splits)
    have m: "(addr + (i + 8)) mod 8 = 0" "(addr + (i + 16)) mod 8 = 0"
      using "1.prems"(2) mod_add_self2 [of "addr + i" 8] mod_mult_self2 [of "addr + i" 8 2]
      by (simp_all add: add.assoc)
    let ?u = "usize_from_bytes (take 8 (drop i v))" and ?w = "usize_from_bytes (take 8 (drop (i + 8) v))"
    have r: "read_usize addr v i = Ret ?u" "read_usize addr v (i + 8) = Ret ?w"
      using len m "1.prems"(2) by (simp_all add: read_usize_def)
    show ?thesis
    proof (cases "contains_nonascii ?u \<or> contains_nonascii ?w")
      case nb: True
      then show ?thesis using True r len
        by (simp add: ascii_block_loop.simps [of addr v e i])
    next
      case nb: False
      from "1.IH" [OF True r nb len m(2) "1.prems"(3)] obtain j
        where j: "ascii_block_loop addr v e (i + 16) = Ret j" "ascii_range v (i + 16) j" by blast
      have "ascii_range v i (i + 8)" "ascii_range v (i + 8) (i + 16)"
        using nb len ascii_block [of i v] ascii_block [of "i + 8" v] by (simp_all add: add.assoc)
      with j have "ascii_range v i j" by (blast intro: ascii_range_trans)
      with True r nb j(1) show ?thesis by (simp add: ascii_block_loop.simps [of addr v e i])
    qed
  qed
qed

lemma ascii_byte_loop_spec:
  assumes "i \<le> length v"
  shows "\<exists>j. ascii_byte_loop v i = Ret j \<and> ascii_range v i j \<and> (i < length v \<and> v ! i < 128 \<longrightarrow> i < j)"
  using assms
proof (induction v i rule: ascii_byte_loop.induct)
  case (1 v i)
  show ?case
  proof (cases "i < length v \<and> v ! i < 128")
    case True
    with "1.IH" [of "v ! i"] obtain j where j: "ascii_byte_loop v (i + 1) = Ret j" "ascii_range v (i + 1) j"
      by auto
    have "ascii_range v i (i + 1)" using True by (simp add: ascii_range_Suc)
    from this j(2) have "ascii_range v i j" by (rule ascii_range_trans)
    moreover have "i < j" using j(2) by (simp add: ascii_range_def)
    ultimately show ?thesis using True j(1) by (auto simp: ascii_byte_loop.simps [of v i])
  next
    case False
    with "1.prems" show ?thesis by (auto simp: ascii_byte_loop.simps [of v i])
  qed
qed

lemma validate_ascii_spec:
  assumes "i < length v" and "v ! i < 128" and "align_ok addr align"
  shows "\<exists>j. validate_ascii addr align v i = Ret j \<and> i < j \<and> ascii_range v i j"
proof (cases "align \<noteq> - 1 \<and> unat (align - of_nat i) mod 8 = 0")
  case True
  with assms(3) have "(addr + unat align) mod 8 = 0" unfolding align_ok_def by blast
  from aligned_index [OF this conjunct2 [OF True]] have al: "(addr + i) mod 8 = 0" .
  let ?e = "if 16 \<le> length v then length v - 16 + 1 else 0"
  obtain j where j: "ascii_block_loop addr v ?e i = Ret j" "ascii_range v i j"
    using ascii_block_loop_spec [OF less_imp_le [OF assms(1)] al refl] by blast
  then have "j \<le> length v" by (simp add: ascii_range_def)
  with ascii_byte_loop_spec obtain k where
    k: "ascii_byte_loop v j = Ret k" "ascii_range v j k" "j < length v \<and> v ! j < 128 \<longrightarrow> j < k" by blast
  have "i < k" using j(2) k(2,3) assms(1,2) by (cases "i = j") (auto simp: ascii_range_def)
  moreover have "ascii_range v i k" using j(2) k(2) by (rule ascii_range_trans)
  moreover have "validate_ascii addr align v i = Ret k"
    unfolding validate_ascii_def Let_def if_P [OF True] j(1) by (simp add: k(1))
  ultimately show ?thesis by blast
next
  case False
  then have "validate_ascii addr align v i = Ret (Suc i)"
    unfolding validate_ascii_def Let_def if_not_P [OF False] by simp
  with assms ascii_range_Suc show ?thesis by blast
qed

section \<open>The multi-byte branch\<close>

lemma next_or_err_drop:
  "next_or_err v i (i + k) f
     = (if length (drop i v) \<le> k then utf8_err i None else f (drop i v ! k))"
  by (auto simp: next_or_err_def)

text \<open>What an error report says about the bytes at the reported position: with no length the input
  ends inside a character; with a length, no character starts with one byte more, and the reported
  bytes are a longest beginning of one (or a single byte).\<close>

definition utf8_broken :: "u8 list \<Rightarrow> nat option \<Rightarrow> bool" where
  "utf8_broken bs l \<longleftrightarrow> bs \<noteq> [] \<and> (\<forall>j. \<not> rfc3629_char (take j bs)) \<and> (case l of
     None \<Rightarrow> \<exists>t. t \<noteq> [] \<and> rfc3629_char (bs @ t)
   | Some k \<Rightarrow> 1 \<le> k \<and> k \<le> 3 \<and> k \<le> length bs \<and> (\<forall>t. \<not> rfc3629_char (take (Suc k) bs @ t))
       \<and> (k = 1 \<or> (\<exists>t. rfc3629_char (take k bs @ t))))"

lemma rfc3629_width: "rfc3629_char c \<Longrightarrow> utf8_char_width (hd c) = length c"
  by (erule rfc3629_cases) (auto simp: utf8_char_width_cases word_le_nat_alt word_less_nat_alt)

lemma rfc3629_unique_prefix:
  assumes "rfc3629_char c" "rfc3629_char c'" "c @ x = c' @ y"
  shows "c = c' \<and> x = y"
proof -
  have "c \<noteq> []" "c' \<noteq> []" using assms(1,2) by auto
  then have "hd c = hd c'" using assms(3) by (metis hd_append2)
  then have "length c = length c'" using rfc3629_width assms(1,2) by metis
  with assms(3) show ?thesis by simp
qed

lemma rfc3629_proper_prefix: "rfc3629_char (bs @ t) \<Longrightarrow> t \<noteq> [] \<Longrightarrow> \<not> rfc3629_char (take j bs)"
  using rfc3629_unique_prefix [of "take j bs" "bs @ t" "drop j bs @ t" "[]"] by auto

lemma utf8_broken_None: "rfc3629_char (bs @ t) \<Longrightarrow> bs \<noteq> [] \<Longrightarrow> t \<noteq> [] \<Longrightarrow> utf8_broken bs None"
  using rfc3629_proper_prefix [of bs t] by (auto simp: utf8_broken_def)

lemma utf8_broken_1:
  assumes "\<not> a < 128" and "\<And>t. \<not> rfc3629_char (a # b # t)"
  shows "utf8_broken (a # b # bs) (Some 1)"
proof -
  have "\<not> rfc3629_char (take j (a # b # bs))" for j
    using assms by (cases j; cases "j - 1") auto
  with assms(2) show ?thesis by (simp add: utf8_broken_def)
qed

lemma utf8_broken_1_single:
  assumes "\<And>t. \<not> rfc3629_char (a # t)"
  shows "utf8_broken (a # bs) (Some 1)"
proof -
  have "\<not> rfc3629_char (take j (a # bs))" for j using assms by (cases j) auto
  with assms show ?thesis by (simp add: utf8_broken_def)
qed

lemma utf8_broken_more:
  assumes "rfc3629_char (p @ s)" "s \<noteq> []" and "\<And>t. \<not> rfc3629_char (p @ c # t)"
    and "length p = k" "1 < k" "k \<le> 3"
  shows "utf8_broken (p @ c # bs) (Some k)"
proof -
  have "\<not> rfc3629_char (take j (p @ c # bs))" for j
  proof (cases "j \<le> k")
    case True
    then have "take j (p @ c # bs) = take j p" using assms(4) by simp
    then show ?thesis using rfc3629_proper_prefix [OF assms(1,2)] by simp
  next
    case False
    then obtain m where "j - length p = Suc m" using assms(4) by (metis Suc_diff_Suc not_le)
    then have "take j (p @ c # bs) = p @ c # take m bs" using False assms(4) by simp
    then show ?thesis using assms(3) by simp
  qed
  moreover have "take k (p @ c # bs) = p" "take (Suc k) (p @ c # bs) = p @ [c]" using assms(4) by auto
  ultimately show ?thesis using assms unfolding utf8_broken_def by auto
qed

lemmas utf8_broken_2 = utf8_broken_more [where p = "[a, b]" and k = 2 for a b, simplified]
lemmas utf8_broken_3 = utf8_broken_more [where p = "[a, b, c]" and k = 3 for a b c, simplified]

lemma rfc3629_second:
  assumes "rfc3629_char (a # b # t)"
  shows "0xC2 \<le> a \<and> a < 0xE0 \<and> utf8_is_cont_byte b \<and> t = [] \<or> 0xE0 \<le> a \<and> a < 0xF0 \<and> second_of_three a b \<and> length t = 1
    \<or> 0xF0 \<le> a \<and> a < 0xF5 \<and> second_of_four a b \<and> length t = 2"
  using assms
proof (cases rule: rfc3629_cases)
  case (two a' b')
  then have "a < 0xE0" by (simp add: word_le_nat_alt word_less_nat_alt)
  with two assms show ?thesis by simp
next
  case (three a' b' c)
  then have "a < 0xF0" by (simp add: word_le_nat_alt word_less_nat_alt)
  with three assms show ?thesis by simp
next
  case (four a' b' c d)
  then have "a < 0xF5" by (simp add: word_le_nat_alt word_less_nat_alt)
  with four assms show ?thesis by simp
qed simp

lemma second_completion:
  "0xE0 \<le> a \<Longrightarrow> a < 0xF0 \<Longrightarrow> \<exists>b. second_of_three a b"
  "0xF0 \<le> a \<Longrightarrow> a < 0xF5 \<Longrightarrow> \<exists>b. second_of_four a b"
proof -
  assume "0xE0 \<le> a" "a < 0xF0"
  then have "second_of_three a (if a = 0xE0 then 0xA0 else 0x80)" by (auto simp: byte_nat)
  then show "\<exists>b. second_of_three a b" ..
next
  assume "0xF0 \<le> a" "a < 0xF5"
  then have "second_of_four a (if a = 0xF0 then 0x90 else 0x80)" by (auto simp: byte_nat)
  then show "\<exists>b. second_of_four a b" ..
qed

lemma cont_80 [simp]: "utf8_is_cont_byte 0x80"
  by (simp add: is_cont_byte_range)

lemma validate_two:
  assumes "drop i v = a # bs" and "0xC2 \<le> a" and "a < 0xE0"
  shows "(validate_multibyte v i a = Ret (Inr (i + 2)) \<and> rfc3629_char (take 2 (drop i v)) \<and> 2 \<le> length (drop i v))
    \<or> (\<exists>l. validate_multibyte v i a = utf8_err i l \<and> utf8_broken (drop i v) l)"
proof -
  have big: "\<not> a < 128" using assms(2) by (auto simp: word_le_nat_alt word_less_nat_alt)
  have w: "utf8_char_width a = 2" using assms(2,3) by (auto simp: utf8_char_width_cases word_le_nat_alt word_less_nat_alt)
  have le: "a \<le> 0xDF" using assms(3) by (simp add: word_le_nat_alt word_less_nat_alt)
  have v: "validate_multibyte v i a = (case bs of [] \<Rightarrow> utf8_err i None
     | b # _ \<Rightarrow> if utf8_is_cont_byte b then Ret (Inr (i + 2)) else utf8_err i (Some 1))"
    unfolding validate_multibyte_def Let_def w next_or_err_drop assms(1) not_cont_byte
    by (cases bs) simp_all
  show ?thesis
  proof (cases bs)
    case Nil
    have "rfc3629_char ([a] @ [0x80])" using assms(2) le by simp
    then have "utf8_broken (drop i v) None" unfolding assms(1) Nil by (rule utf8_broken_None) simp_all
    moreover have "validate_multibyte v i a = utf8_err i None" by (simp add: v Nil)
    ultimately show ?thesis by blast
  next
    case (Cons b bs')
    show ?thesis
    proof (cases "utf8_is_cont_byte b")
      case True
      then show ?thesis using assms le by (simp add: v Cons)
    next
      case False
      then have "\<not> rfc3629_char (a # b # t)" for t
        using rfc3629_tail(1) [of a "b # t"] by auto
      then have "utf8_broken (drop i v) (Some 1)" unfolding assms(1) Cons by (rule utf8_broken_1 [OF big])
      moreover have "validate_multibyte v i a = utf8_err i (Some 1)" using False by (simp add: v Cons)
    ultimately show ?thesis by blast
    qed
  qed
qed

lemma validate_three:
  assumes "drop i v = a # bs" and "0xE0 \<le> a" and "a < 0xF0"
  shows "(validate_multibyte v i a = Ret (Inr (i + 3)) \<and> rfc3629_char (take 3 (drop i v)) \<and> 3 \<le> length (drop i v))
    \<or> (\<exists>l. validate_multibyte v i a = utf8_err i l \<and> utf8_broken (drop i v) l)"
proof -
  have big: "\<not> a < 128" using assms(2) by (auto simp: word_le_nat_alt word_less_nat_alt)
  have w: "utf8_char_width a = 3" using assms(2,3) by (auto simp: utf8_char_width_cases word_le_nat_alt word_less_nat_alt)
  have v: "validate_multibyte v i a = (case bs of [] \<Rightarrow> utf8_err i None
     | [b] \<Rightarrow> if second_of_three a b then utf8_err i None else utf8_err i (Some 1)
     | b # c # _ \<Rightarrow> if \<not> second_of_three a b then utf8_err i (Some 1)
         else if utf8_is_cont_byte c then Ret (Inr (i + 3)) else utf8_err i (Some 2))"
    unfolding validate_multibyte_def Let_def w next_or_err_drop assms(1) not_cont_byte
    by (cases bs; cases "tl bs") simp_all
  have bad2: "\<not> rfc3629_char (a # b # t)" if "\<not> second_of_three a b" for b t
    using rfc3629_second [of a b t] that assms(2,3) by (auto simp: not_le [symmetric])
  show ?thesis
  proof (cases bs)
    case Nil
    obtain b where "second_of_three a b" using second_completion(1) assms(2,3) by blast
    then have "rfc3629_char ([a] @ [b, 0x80])" by simp
    then have "utf8_broken (drop i v) None" unfolding assms(1) Nil by (rule utf8_broken_None) simp_all
    moreover have "validate_multibyte v i a = utf8_err i None" by (simp add: v Nil)
    ultimately show ?thesis by blast
  next
    case (Cons b bs')
    show ?thesis
    proof (cases "second_of_three a b")
      case False
      then have "utf8_broken (drop i v) (Some 1)"
        unfolding assms(1) Cons by (intro utf8_broken_1 [OF big] bad2)
      moreover have "validate_multibyte v i a = utf8_err i (Some 1)" using False by (cases bs') (simp_all add: v Cons)
    ultimately show ?thesis by blast
    next
      case b: True
      show ?thesis
      proof (cases bs')
        case Nil
        have "rfc3629_char ([a, b] @ [0x80])" using b by simp
        then have "utf8_broken (drop i v) None"
          unfolding assms(1) Cons Nil by (rule utf8_broken_None) simp_all
        moreover have "validate_multibyte v i a = utf8_err i None" using b by (simp add: v Cons Nil)
    ultimately show ?thesis by blast
      next
        case c: (Cons c bs'')
        show ?thesis
        proof (cases "utf8_is_cont_byte c")
          case True
          then show ?thesis using b by (simp add: v Cons c assms(1) numeral_3_eq_3)
        next
          case False
          then have "\<not> rfc3629_char (a # b # c # t)" for t
            using rfc3629_tail(1) [of a "b # c # t"] by auto
          moreover have "rfc3629_char (a # b # [0x80])" using b by simp
          ultimately have "utf8_broken (drop i v) (Some 2)"
            unfolding assms(1) Cons c by (intro utf8_broken_2 [where s = "[0x80]"]) simp_all
          moreover have "validate_multibyte v i a = utf8_err i (Some 2)" using b False by (simp add: v Cons c)
    ultimately show ?thesis by blast
        qed
      qed
    qed
  qed
qed
lemma validate_four:
  assumes "drop i v = a # bs" and "0xF0 \<le> a" and "a < 0xF5"
  shows "(validate_multibyte v i a = Ret (Inr (i + 4)) \<and> rfc3629_char (take 4 (drop i v)) \<and> 4 \<le> length (drop i v))
    \<or> (\<exists>l. validate_multibyte v i a = utf8_err i l \<and> utf8_broken (drop i v) l)"
proof -
  have big: "\<not> a < 128" using assms(2) by (auto simp: word_le_nat_alt word_less_nat_alt)
  have w: "utf8_char_width a = 4" using assms(2,3) by (auto simp: utf8_char_width_cases word_le_nat_alt word_less_nat_alt)
  have v: "validate_multibyte v i a = (case bs of [] \<Rightarrow> utf8_err i None
     | b # bs \<Rightarrow> if \<not> second_of_four a b then utf8_err i (Some 1) else (case bs of [] \<Rightarrow> utf8_err i None
     | c # bs \<Rightarrow> if \<not> utf8_is_cont_byte c then utf8_err i (Some 2) else (case bs of [] \<Rightarrow> utf8_err i None
     | d # bs \<Rightarrow> if utf8_is_cont_byte d then Ret (Inr (i + 4)) else utf8_err i (Some 3))))"
    unfolding validate_multibyte_def Let_def w next_or_err_drop assms(1) not_cont_byte
    by (cases bs; cases "tl bs"; cases "tl (tl bs)") (simp_all add: numeral_2_eq_2 numeral_3_eq_3)
  have bad2: "\<not> rfc3629_char (a # b # t)" if "\<not> second_of_four a b" for b t
    using rfc3629_second [of a b t] that assms(2,3) by (auto simp: word_le_nat_alt word_less_nat_alt)
  have cont: "utf8_is_cont_byte x" if "rfc3629_char (a # t)" "x \<in> set t" for x t
    using that rfc3629_tail(1) by blast
  have err: "?thesis" if "validate_multibyte v i a = utf8_err i l" "utf8_broken (a # bs) l" for l
    using that unfolding assms(1) by blast
  consider (e1) "bs = []" | (b2) b bs' where "bs = b # bs'" "\<not> second_of_four a b"
    | (e2) b where "bs = [b]" "second_of_four a b"
    | (b3) b c bs' where "bs = b # c # bs'" "second_of_four a b" "\<not> utf8_is_cont_byte c"
    | (e3) b c where "bs = [b, c]" "second_of_four a b" "utf8_is_cont_byte c"
    | (b4) b c d bs' where "bs = b # c # d # bs'" "second_of_four a b" "utf8_is_cont_byte c"
        "\<not> utf8_is_cont_byte d"
    | (ok) b c d bs' where "bs = b # c # d # bs'" "second_of_four a b" "utf8_is_cont_byte c"
        "utf8_is_cont_byte d"
    by (metis list.exhaust)
  then show ?thesis
  proof cases
    case e1
    obtain b where "second_of_four a b" using second_completion(2) assms(2,3) by blast
    then have "rfc3629_char ([a] @ [b, 0x80, 0x80])" by simp
    from utf8_broken_None [OF this] show ?thesis by (intro err) (simp_all add: v e1)
  next
    case b2
    from utf8_broken_1 [OF big bad2 [OF b2(2)]] show ?thesis by (intro err) (simp_all add: v b2)
  next
    case (e2 b)
    then have "rfc3629_char ([a, b] @ [0x80, 0x80])" by simp
    from utf8_broken_None [OF this] show ?thesis by (intro err) (simp_all add: v e2)
  next
    case (b3 b c bs')
    have "rfc3629_char (a # b # [0x80, 0x80])" using b3 by simp
    moreover have "\<not> rfc3629_char (a # b # c # t)" for t using cont [of "b # c # t" c] b3(3) by auto
    ultimately have "utf8_broken (a # b # c # bs') (Some 2)" by (intro utf8_broken_2 [where s = "[0x80, 0x80]"]) simp_all
    then show ?thesis by (intro err) (simp_all add: v b3)
  next
    case (e3 b c)
    then have "rfc3629_char ([a, b, c] @ [0x80])" by simp
    from utf8_broken_None [OF this] show ?thesis by (intro err) (simp_all add: v e3)
  next
    case (b4 b c d bs')
    have "rfc3629_char (a # b # c # [0x80])" using b4 by simp
    moreover have "\<not> rfc3629_char (a # b # c # d # t)" for t
      using cont [of "b # c # d # t" d] b4(4) by auto
    ultimately have "utf8_broken (a # b # c # d # bs') (Some 3)" by (intro utf8_broken_3 [where s = "[0x80]"]) simp_all
    then show ?thesis by (intro err) (simp_all add: v b4)
  next
    case (ok b c d bs')
    then have "rfc3629_char (take 4 (drop i v))" unfolding assms(1) by (simp add: numeral_eq_Suc)
    then show ?thesis using ok by (simp add: v assms(1))
  qed
qed

lemma validate_multibyte_spec:
  assumes "i < length v" and "128 \<le> v ! i"
  shows "(\<exists>k. validate_multibyte v i (v ! i) = Ret (Inr (i + k)) \<and> rfc3629_char (take k (drop i v))
        \<and> k \<le> length (drop i v))
    \<or> (\<exists>l. validate_multibyte v i (v ! i) = utf8_err i l \<and> utf8_broken (drop i v) l)"
proof -
  define a where "a = v ! i"
  obtain bs where d: "drop i v = a # bs" using assms(1) by (metis Cons_nth_drop_Suc a_def)
  have a128: "\<not> a < 128" using assms(2) by (simp add: a_def)
  consider "a < 0xC2 \<or> 0xF5 \<le> a" | "0xC2 \<le> a" "a < 0xE0" | "0xE0 \<le> a" "a < 0xF0" | "0xF0 \<le> a" "a < 0xF5"
    by fastforce
  then have "(\<exists>k. validate_multibyte v i a = Ret (Inr (i + k)) \<and> rfc3629_char (take k (drop i v))
        \<and> k \<le> length (drop i v))
    \<or> (\<exists>l. validate_multibyte v i a = utf8_err i l \<and> utf8_broken (drop i v) l)"
  proof cases
    case 1
    then have w: "utf8_char_width a = 0" using a128
      by (auto simp: utf8_char_width_cases word_le_nat_alt word_less_nat_alt)
    have "\<not> rfc3629_char (a # t)" for t
      using rfc3629_second [of a "hd t" "tl t"] a128 1 by (cases t) (auto simp: word_le_nat_alt word_less_nat_alt)
    then have "utf8_broken (drop i v) (Some 1)" unfolding d by (rule utf8_broken_1_single)
    moreover have "validate_multibyte v i a = utf8_err i (Some 1)"
      by (simp add: validate_multibyte_def w)
    ultimately show ?thesis by blast
  next
    case 2
    with validate_two [OF d] show ?thesis by blast
  next
    case 3
    with validate_three [OF d] show ?thesis by blast
  next
    case 4
    with validate_four [OF d] show ?thesis by blast
  qed
  then show ?thesis by (simp only: a_def)
qed

lemma validate_step_spec:
  assumes "i < length v" and "align_ok addr align"
  shows "(\<exists>k. validate_step addr align v i = Ret (Inr (i + k)) \<and> 0 < k \<and> i + k \<le> length v
        \<and> (rfc3629_char (take k (drop i v)) \<or> (\<forall>b \<in> set (take k (drop i v)). b < 128)))
    \<or> (\<exists>l. validate_step addr align v i = utf8_err i l \<and> utf8_broken (drop i v) l)"
proof (cases "128 \<le> v ! i")
  case True
  have "validate_step addr align v i = validate_multibyte v i (v ! i)"
    using assms(1) True by (simp add: validate_step_def)
  moreover have "rfc3629_char (take k bs) \<Longrightarrow> 0 < k" for k and bs :: "u8 list" by (cases k) simp_all
  ultimately show ?thesis using validate_multibyte_spec [OF assms(1) True] assms(1) by fastforce
next
  case False
  then have lt: "v ! i < 128" by simp
  obtain j where j: "validate_ascii addr align v i = Ret j" "i < j" "ascii_range v i j"
    using validate_ascii_spec [OF assms(1) lt assms(2)] by blast
  have "\<forall>b \<in> set (take (j - i) (drop i v)). b < 128"
    using j(3) by (auto simp: in_set_conv_nth ascii_range_def)
  moreover have "validate_step addr align v i = Ret (Inr (i + (j - i)))"
    using assms(1) False j by (simp add: validate_step_def)
  ultimately show ?thesis using j(2,3) by (intro disjI1 exI [of _ "j - i"]) (auto simp: ascii_range_def)
qed

section \<open>The outer loop and \<open>from_utf8\<close>\<close>

lemma ascii_block_loop_ge: "ascii_block_loop addr v e i = Ret j \<Longrightarrow> i \<le> j"
proof (induction addr v e i rule: ascii_block_loop.induct)
  case (1 addr v e i)
  show ?case
  proof (cases "i < e")
    case True
    then obtain u w where u: "read_usize addr v i = Ret u" "read_usize addr v (i + 8) = Ret w"
      using "1.prems" by (auto simp: ascii_block_loop.simps [of addr v e i] outcome_simps)
    show ?thesis
    proof (cases "contains_nonascii u \<or> contains_nonascii w")
      case nb: True
      with "1.prems" True u show ?thesis by (simp add: ascii_block_loop.simps [of addr v e i])
    next
      case nb: False
      with "1.prems" True u have "ascii_block_loop addr v e (i + 16) = Ret j"
        by (simp add: ascii_block_loop.simps [of addr v e i])
      from "1.IH" [OF True u nb this] show ?thesis by simp
    qed
  next
    case False
    with "1.prems" show ?thesis by (simp add: ascii_block_loop.simps [of addr v e i])
  qed
qed

lemma ascii_byte_loop_ge: "ascii_byte_loop v i = Ret j \<Longrightarrow> i \<le> j \<and> (i < length v \<and> v ! i < 128 \<longrightarrow> i < j)"
proof (cases "i \<le> length v")
  case True
  assume "ascii_byte_loop v i = Ret j"
  with ascii_byte_loop_spec [OF True] show ?thesis by (auto simp: ascii_range_def)
next
  case False
  assume "ascii_byte_loop v i = Ret j"
  with False show ?thesis by (simp add: ascii_byte_loop.simps [of v i])
qed

lemma validate_ascii_progress:
  assumes "validate_ascii addr align v i = Ret j" and "i < length v" and "v ! i < 128"
  shows "i < j"
proof (cases "align \<noteq> - 1 \<and> unat (align - of_nat i) mod 8 = 0")
  case True
  from assms(1) obtain k where k: "i \<le> k" "ascii_byte_loop v k = Ret j"
    unfolding validate_ascii_def Let_def if_P [OF True] and_then_eq_Ret_iff
    using ascii_block_loop_ge by blast
  then show ?thesis using ascii_byte_loop_ge [OF k(2)] assms(2,3) by (cases "i = k") auto
next
  case False
  from assms(1) show ?thesis unfolding validate_ascii_def Let_def if_not_P [OF False] by simp
qed

lemma validate_step_progress:
  assumes "validate_step addr align v i = Ret (Inr j)" and "i < length v"
  shows "i < j"
proof (cases "128 \<le> v ! i")
  case True
  then have e: "validate_multibyte v i (v ! i) = Ret (Inr j)" using assms by (simp add: validate_step_def)
  have "take 0 (drop i v) = []" by simp
  then show ?thesis using validate_multibyte_spec [OF assms(2) True] unfolding e
    by (metis (no_types, lifting) add_cancel_right_right le_add1 le_neq_implies_less outcome.inject(1)
        rfc3629_char.simps(5) sum.inject(2) sum.distinct(1) utf8_err_def)
next
  case False
  then have "v ! i < 128" by simp
  moreover have "validate_ascii addr align v i = Ret j"
    using assms False by (auto simp: validate_step_def outcome_simps)
  ultimately show ?thesis using validate_ascii_progress assms(2) by blast
qed

function validate_from :: "nat \<Rightarrow> usize \<Rightarrow> u8 list \<Rightarrow> nat \<Rightarrow> (utf8_error + unit) outcome" where
  "validate_from addr align v i =
     (if i < length v then
        and_then (validate_step addr align v i) (\<lambda>r.
          case r of Inl e \<Rightarrow> Ret (Inl e) | Inr j \<Rightarrow> validate_from addr align v j)
      else Ret (Inr ()))"
  by pat_completeness auto
termination
  by (relation "measure (\<lambda>(addr, align, v, i). length v - i)")
    (auto dest: validate_step_progress intro!: diff_less_mono2)

declare validate_from.simps [simp del]

definition run_utf8_validation :: "nat \<Rightarrow> usize \<Rightarrow> u8 list \<Rightarrow> (utf8_error + unit) outcome" where
  "run_utf8_validation addr align v = validate_from addr align v 0"

text \<open>What a \<open>str\<close> may hold: a concatenation of characters of the grammar. It is the contract of
  \<open>from_utf8_unchecked\<close>.\<close>

function is_utf8 :: "u8 list \<Rightarrow> bool" where
  "is_utf8 bs =
     (if bs = [] then True
      else let k = utf8_char_width (hd bs) in
        if rfc3629_char (take k bs) then is_utf8 (drop k bs) else False)"
  by pat_completeness auto
termination
proof (relation "measure length")
  fix bs :: "u8 list" and k
  assume "bs \<noteq> []" "rfc3629_char (take k bs)"
  then show "(drop k bs, bs) \<in> measure length" by (cases k) auto
qed simp

declare is_utf8.simps [simp del]

definition from_utf8_unchecked :: "u8 list \<Rightarrow> u8 list outcome" where
  "from_utf8_unchecked v = (if is_utf8 v then Ret v else UB)"

definition from_utf8 :: "nat \<Rightarrow> usize \<Rightarrow> u8 list \<Rightarrow> (utf8_error + u8 list) outcome" where
  "from_utf8 addr align v =
     and_then (run_utf8_validation addr align v) (\<lambda>r.
       case r of Inr _ \<Rightarrow> and_then (from_utf8_unchecked v) (\<lambda>s. Ret (Inr s)) | Inl err \<Rightarrow> Ret (Inl err))"

section \<open>Valid strings\<close>

lemma is_utf8_Nil [simp]: "is_utf8 []"
  by (simp add: is_utf8.simps [of "[]"])

lemma is_utf8_append_char:
  assumes "rfc3629_char c"
  shows "is_utf8 (c @ bs) \<longleftrightarrow> is_utf8 bs"
proof -
  have "c \<noteq> []" using assms by auto
  then show ?thesis using assms rfc3629_width [OF assms] by (simp add: is_utf8.simps [of "c @ bs"] Let_def)
qed

lemma is_utf8_append_ascii: "\<forall>b \<in> set as. b < 128 \<Longrightarrow> is_utf8 (as @ bs) \<longleftrightarrow> is_utf8 bs"
proof (induction as)
  case (Cons a as)
  then have "rfc3629_char [a]" by simp
  from is_utf8_append_char [OF this, of "as @ bs"] Cons show ?case by simp
qed simp

lemma utf8_broken_not_utf8: "utf8_broken bs l \<Longrightarrow> \<not> is_utf8 bs"
  by (subst is_utf8.simps) (auto simp: utf8_broken_def Let_def)

lemma is_utf8_append:
  assumes "is_utf8 as"
  shows "is_utf8 (as @ bs) \<longleftrightarrow> is_utf8 bs"
  using assms
proof (induction as rule: is_utf8.induct)
  case (1 as)
  show ?case
  proof (cases "as = []")
    case False
    let ?k = "utf8_char_width (hd as)"
    have r: "rfc3629_char (take ?k as)" "is_utf8 (drop ?k as)"
      using "1.prems" False by (auto simp: is_utf8.simps [of as] Let_def split: if_splits)
    have "is_utf8 ((take ?k as @ drop ?k as) @ bs) \<longleftrightarrow> is_utf8 (drop ?k as @ bs)"
      unfolding append_assoc by (rule is_utf8_append_char [OF r(1)])
    with "1.IH" [OF False refl r] show ?thesis by simp
  qed simp
qed

lemma is_utf8_encoded: "is_utf8 bs \<longleftrightarrow> (\<exists>cs. (\<forall>c \<in> set cs. is_scalar c) \<and> bs = concat (map utf8_bytes cs))"
proof
  show "is_utf8 bs \<Longrightarrow> \<exists>cs. (\<forall>c \<in> set cs. is_scalar c) \<and> bs = concat (map utf8_bytes cs)"
  proof (induction bs rule: is_utf8.induct)
    case (1 bs)
    show ?case
    proof (cases "bs = []")
      case True
      then show ?thesis by (intro exI [of _ "[]"]) simp
    next
      case False
      let ?k = "utf8_char_width (hd bs)"
      have r: "rfc3629_char (take ?k bs)" "is_utf8 (drop ?k bs)"
        using "1.prems" False by (auto simp: is_utf8.simps [of bs] Let_def split: if_splits)
      obtain cs where cs: "\<forall>c \<in> set cs. is_scalar c" "drop ?k bs = concat (map utf8_bytes cs)"
        using "1.IH" [OF False refl r] by blast
      obtain c where c: "is_scalar c" "utf8_bytes c = take ?k bs"
        using rfc3629_imp_utf8_bytes [OF r(1)] by blast
      have "bs = utf8_bytes c @ concat (map utf8_bytes cs)" using c(2) cs(2) by (metis append_take_drop_id)
      with c(1) cs(1) show ?thesis by (intro exI [of _ "c # cs"]) simp
    qed
  qed
next
  assume "\<exists>cs. (\<forall>c \<in> set cs. is_scalar c) \<and> bs = concat (map utf8_bytes cs)"
  then obtain cs where "\<forall>c \<in> set cs. is_scalar c" "bs = concat (map utf8_bytes cs)" by blast
  then show "is_utf8 bs"
    by (induction cs arbitrary: bs) (simp_all add: is_utf8_append_char rfc3629_utf8_bytes)
qed

section \<open>Correctness of the validator\<close>

lemma validate_from_spec:
  assumes "i \<le> length v" and "is_utf8 (take i v)" and "align_ok addr align"
  shows "(\<exists>e. validate_from addr align v i = Ret (Inl e) \<and> i \<le> valid_up_to e \<and> valid_up_to e < length v
        \<and> is_utf8 (take (valid_up_to e) v) \<and> utf8_broken (drop (valid_up_to e) v) (error_len e))
    \<or> (validate_from addr align v i = Ret (Inr ()) \<and> is_utf8 v)"
  using assms
proof (induction addr align v i rule: validate_from.induct)
  case (1 addr align v i)
  show ?case
  proof (cases "i < length v")
    case False
    then have "validate_from addr align v i = Ret (Inr ())"
      by (simp add: validate_from.simps [of addr align v i])
    with False "1.prems" show ?thesis by simp
  next
    case True
    consider (ok) k where "validate_step addr align v i = Ret (Inr (i + k))" "0 < k" "i + k \<le> length v"
        "rfc3629_char (take k (drop i v)) \<or> (\<forall>b \<in> set (take k (drop i v)). b < 128)"
      | (err) l where "validate_step addr align v i = utf8_err i l" "utf8_broken (drop i v) l"
      using validate_step_spec [OF True "1.prems"(3)] by blast
    then show ?thesis
    proof cases
      case (ok k)
      have "is_utf8 (take k (drop i v))"
        using ok(4) is_utf8_append_char [of _ "[]"] is_utf8_append_ascii [of _ "[]"] by auto
      moreover have "take (i + k) v = take i v @ take k (drop i v)" by (rule take_add)
      ultimately have "is_utf8 (take (i + k) v)" using "1.prems"(2) is_utf8_append by simp
      from "1.IH" [OF True ok(1) refl ok(3) this "1.prems"(3)] show ?thesis
        using True ok(1) by (auto simp: validate_from.simps [of addr align v i])
    next
      case (err l)
      then show ?thesis using True "1.prems"(2)
        by (simp add: validate_from.simps [of addr align v i] utf8_err_def)
    qed
  qed
qed


lemma run_utf8_validation_cases:
  assumes "align_ok addr align"
  shows "(\<exists>e. run_utf8_validation addr align v = Ret (Inl e) \<and> \<not> is_utf8 v)
      \<or> (run_utf8_validation addr align v = Ret (Inr ()) \<and> is_utf8 v)"
  unfolding run_utf8_validation_def
  using validate_from_spec [of 0 v addr align] assms is_utf8_append utf8_broken_not_utf8
  by (metis append_take_drop_id is_utf8_Nil le0 take0)

section \<open>Properties\<close>

text \<open>C8: UTF-8 validation is exact and safe. With the alignment that \<open>align_offset\<close> documents, the
  validator (fast path included) runs without undefined behaviour and without panicking, and it accepts a slice exactly when
  the slice is the concatenation of what \<open>encode_utf8_raw\<close> writes for a sequence of Unicode scalar values. So
  \<open>from_utf8\<close> calls \<open>from_utf8_unchecked\<close> only on valid UTF-8: it returns the slice unchanged or the
  validator's error.\<close>

theorem run_utf8_validation_exact:
  assumes "align_ok addr align"
  shows "\<exists>r. run_utf8_validation addr align v = Ret r \<and>
    (r = Inr () \<longleftrightarrow> (\<exists>cs. (\<forall>c \<in> set cs. from_u32 c = Some c) \<and>
       v = concat (map (\<lambda>c. case encode_utf8_raw c [0, 0, 0, 0] of Ret (s, _) \<Rightarrow> s | _ \<Rightarrow> []) cs)))
    \<and> from_utf8 addr align v = Ret (case r of Inl e \<Rightarrow> Inl e | Inr _ \<Rightarrow> Inr v)"
proof -
  have enc: "(case encode_utf8_raw c [0, 0, 0, 0] of Ret (s, _) \<Rightarrow> s | _ \<Rightarrow> []) = utf8_bytes c" for c
    by (simp add: encode_utf8_raw_bytes len_utf8_def)
  have sc: "from_u32 c = Some c \<longleftrightarrow> is_scalar c" for c
    by (simp add: from_u32_def char_try_from_u32_is_scalar)
  show ?thesis using run_utf8_validation_cases [OF assms, of v] unfolding enc sc is_utf8_encoded [symmetric]
    by (auto simp: from_utf8_def from_utf8_unchecked_def)
qed

theorem run_utf8_validation_exact_witness:
  "\<exists>r. run_utf8_validation 3 5 [0x41, 0xC3, 0x28] = Ret r \<and>
    (r = Inr () \<longleftrightarrow> (\<exists>cs. (\<forall>c \<in> set cs. from_u32 c = Some c) \<and>
       [0x41, 0xC3, 0x28]
         = concat (map (\<lambda>c. case encode_utf8_raw c [0, 0, 0, 0] of Ret (s, _) \<Rightarrow> s | _ \<Rightarrow> []) cs)))
    \<and> from_utf8 3 5 [0x41, 0xC3, 0x28] = Ret (case r of Inl e \<Rightarrow> Inl e | Inr _ \<Rightarrow> Inr [0x41, 0xC3, 0x28])"
  by (rule run_utf8_validation_exact) (simp add: align_ok_def)

text \<open>C9: the error report is exact: everything before \<open>valid_up_to\<close> is valid UTF-8, no character
  starts there, \<open>error_len = None\<close> means that the input ends inside a character, and
  \<open>error_len = Some k\<close> gives the longest beginning of a character at that place (at most three bytes),
  which the following byte cannot continue.\<close>

theorem utf8_error_exact:
  assumes "align_ok addr align" and "run_utf8_validation addr align v = Ret (Inl e)"
  shows "valid_up_to e < length v \<and> is_utf8 (take (valid_up_to e) v) \<and> utf8_broken (drop (valid_up_to e) v) (error_len e)"
  using validate_from_spec [of 0 v addr align] assms by (auto simp: run_utf8_validation_def)

theorem utf8_error_exact_witness:
  "run_utf8_validation 0 (- 1) [0x41, 0xE2, 0x82] = Ret (Inl \<lparr>valid_up_to = 1, error_len = None\<rparr>) \<and>
   (1 < length [0x41, 0xE2, 0x82 :: u8] \<and> is_utf8 (take 1 [0x41, 0xE2, 0x82]) \<and> utf8_broken (drop 1 [0x41, 0xE2, 0x82]) None)"
proof -
  have run: "run_utf8_validation 0 (- 1) [0x41, 0xE2, 0x82] = Ret (Inl \<lparr>valid_up_to = 1, error_len = None\<rparr>)"
    by code_simp
  have "align_ok 0 (- 1)" by (simp add: align_ok_def)
  from utf8_error_exact [OF this run] show ?thesis using run by simp
qed

text \<open>C10: \<open>next_code_point\<close> and \<open>next_code_point_reverse\<close> read exactly one character off the front
  and off the back of a valid string, without undefined behaviour, and return the scalar value whose
  encoding they consumed.\<close>

theorem next_code_point_inverts_encode:
  assumes "from_u32 c = Some c" and "encode_utf8_raw c dst = Ret (s, dst')"
  shows "next_code_point (s @ rest) = Ret (Some c, rest)
    \<and> next_code_point_reverse (rest @ s) = Ret (Some c, rest) \<and> length s = len_utf8 c"
proof -
  have "is_scalar c" using assms(1) by (simp add: from_u32_def char_try_from_u32_is_scalar split: if_splits)
  moreover have "s = utf8_bytes c" using assms(2) by (simp add: encode_utf8_raw_bytes split: if_splits)
  ultimately show ?thesis by (simp add: next_code_point_utf8_bytes length_utf8_bytes)
qed

theorem next_code_point_inverts_encode_witness:
  "next_code_point ([0xE2, 0x82, 0xAC] @ [0x41]) = Ret (Some 0x20AC, [0x41])
    \<and> next_code_point_reverse ([0x41] @ [0xE2, 0x82, 0xAC]) = Ret (Some 0x20AC, [0x41])
    \<and> length [0xE2, 0x82, 0xAC :: u8] = len_utf8 0x20AC"
  by (rule next_code_point_inverts_encode [where dst = "[0, 0, 0]" and dst' = "[0xE2, 0x82, 0xAC]"])
    code_simp+

end
