(* ===== verification/Utf8_Lossy.thy ===== *)
theory Utf8_Lossy
  imports Utf8_Validation
begin

text \<open>
  \<open>library/core/src/str/lossy.rs\<close>: the iterator \<open>Utf8Chunks\<close>, which splits arbitrary bytes into valid
  UTF-8 and short invalid pieces, and the lossy conversion built on it (\<open>String::from_utf8_lossy\<close> of
  \<open>library/alloc/src/string.rs\<close>, which a path's \<open>display\<close> uses). The unchecked splits and
  \<open>from_utf8_unchecked\<close> of the source are undefined behaviour outside their contracts.
\<close>

section \<open>One chunk\<close>

definition safe_get :: "u8 list \<Rightarrow> nat \<Rightarrow> u8" where
  "safe_get xs i = (if i < length xs then xs ! i else 0)"

definition TAG_CONT_U8 :: u8 where "TAG_CONT_U8 = 128"

definition not_tag_cont :: "u8 \<Rightarrow> bool" where
  "not_tag_cont b \<longleftrightarrow> b AND 192 \<noteq> TAG_CONT_U8"

text \<open>The body of the loop after \<open>i += 1\<close>: the index reached and whether the loop goes on.\<close>

definition chunk_char :: "u8 list \<Rightarrow> nat \<Rightarrow> u8 \<Rightarrow> nat \<times> bool" where
  "chunk_char source i byte =
     (if byte < 128 then (i, True)
      else (let w = utf8_char_width byte in
        if w = 2 then
          (if not_tag_cont (safe_get source i) then (i, False) else (i + 1, True))
        else if w = 3 then
          (if \<not> second_of_three byte (safe_get source i) then (i, False)
           else if not_tag_cont (safe_get source (i + 1)) then (i + 1, False)
           else (i + 2, True))
        else if w = 4 then
          (if \<not> second_of_four byte (safe_get source i) then (i, False)
           else if not_tag_cont (safe_get source (i + 1)) then (i + 1, False)
           else if not_tag_cont (safe_get source (i + 2)) then (i + 2, False)
           else (i + 3, True))
        else (i, False)))"

lemma chunk_char_ge: "i \<le> fst (chunk_char source i byte)"
  by (simp add: chunk_char_def Let_def)

function chunk_loop :: "u8 list \<Rightarrow> nat \<Rightarrow> nat \<Rightarrow> (nat \<times> nat) outcome" where
  "chunk_loop source i vup =
     (if i < length source then
        and_then (get_unchecked source i) (\<lambda>byte.
          let (j, go) = chunk_char source (i + 1) byte in
          if go then chunk_loop source j j else Ret (j, vup))
      else Ret (i, vup))"
  by pat_completeness auto
termination
proof (relation "measure (\<lambda>(source, i, v). length source - i)")
  fix source :: "u8 list" and i vup :: nat and byte x j go
  assume "i < length source" "x = chunk_char source (i + 1) byte" "(j, go) = x"
  then have "i < j" using chunk_char_ge [of "i + 1" source byte] by (metis Suc_eq_plus1 fst_conv less_eq_Suc_le)
  with \<open>i < length source\<close>
  show "((source, j, j), (source, i, vup)) \<in> measure (\<lambda>(source, i, v). length source - i)" by simp
qed simp

declare chunk_loop.simps [simp del]

definition split_at_unchecked :: "'a list \<Rightarrow> nat \<Rightarrow> ('a list \<times> 'a list) outcome" where
  "split_at_unchecked xs mid = (if mid \<le> length xs then Ret (take mid xs, drop mid xs) else UB)"

record utf8_chunk =
  chunk_valid :: "u8 list"
  chunk_invalid :: "u8 list"

text \<open>\<open>Utf8Chunks::next\<close>: the chunk and the remaining source.\<close>

definition utf8_chunks_next :: "u8 list \<Rightarrow> (utf8_chunk option \<times> u8 list) outcome" where
  "utf8_chunks_next source =
     (if source = [] then Ret (None, source)
      else and_then (chunk_loop source 0 0) (\<lambda>(i, vup).
        and_then (split_at_unchecked source i) (\<lambda>(inspected, remaining).
        and_then (split_at_unchecked inspected vup) (\<lambda>(valid, invalid).
        and_then (from_utf8_unchecked valid) (\<lambda>v.
          Ret (Some \<lparr>chunk_valid = v, chunk_invalid = invalid\<rparr>, remaining))))))"

section \<open>The chunk loop against the validator\<close>

lemma all_bytes: "list_all (\<lambda>n. P (of_nat n :: u8)) [0..<256] \<Longrightarrow> P b"
proof -
  assume "list_all (\<lambda>n. P (of_nat n :: u8)) [0..<256]"
  moreover have "unat b \<in> set [0..<256]" using unat_less_pow [of b] by simp
  ultimately have "P (of_nat (unat b))" by (simp only: list_all_iff)
  then show ?thesis by simp
qed

lemma not_tag_cont_iff: "not_tag_cont b \<longleftrightarrow> \<not> utf8_is_cont_byte b"
  unfolding not_tag_cont_def TAG_CONT_U8_def is_cont_byte_range by (rule all_bytes) code_simp

lemma zero_no_continuation:
  "\<not> utf8_is_cont_byte 0" "\<not> second_of_three a 0" "\<not> second_of_four a 0"
  by (simp_all add: is_cont_byte_range second_of_three_def second_of_four_def)

lemma chunk_char_validate:
  assumes "i < length s" and "128 \<le> s ! i"
  shows "validate_multibyte s i (s ! i) = Ret (Inr j) \<Longrightarrow> chunk_char s (i + 1) (s ! i) = (j, True)"
    and "validate_multibyte s i (s ! i) = utf8_err i l \<Longrightarrow>
      chunk_char s (i + 1) (s ! i) = (i + (case l of None \<Rightarrow> length s - i | Some k \<Rightarrow> k), False)"
proof -
  have "\<not> s ! i < 128" using assms(2) by simp
  note defs = validate_multibyte_def chunk_char_def Let_def next_or_err_def safe_get_def
    not_tag_cont_iff not_cont_byte utf8_err_def zero_no_continuation numeral_3_eq_3
  show "validate_multibyte s i (s ! i) = Ret (Inr j) \<Longrightarrow> chunk_char s (i + 1) (s ! i) = (j, True)"
    using \<open>\<not> s ! i < 128\<close> by (auto simp: defs split: if_splits)
  show "validate_multibyte s i (s ! i) = utf8_err i l \<Longrightarrow>
      chunk_char s (i + 1) (s ! i) = (i + (case l of None \<Rightarrow> length s - i | Some k \<Rightarrow> k), False)"
    using \<open>\<not> s ! i < 128\<close> assms(1) by (auto simp: defs zero_no_continuation split: if_splits)
qed

definition invalid_len :: "nat option \<Rightarrow> nat \<Rightarrow> nat" where
  "invalid_len l rest = (case l of None \<Rightarrow> rest | Some k \<Rightarrow> k)"

lemma utf8_broken_length:
  assumes "utf8_broken bs l"
  shows "0 < invalid_len l (length bs)" "invalid_len l (length bs) \<le> length bs" "invalid_len l (length bs) \<le> 3"
proof -
  have "length bs \<le> 3" if "rfc3629_char (bs @ t)" "t \<noteq> []" for t
    using that(1) by (rule rfc3629_cases) (use that(2) in \<open>auto simp: append_eq_Cons_conv\<close>)
  then show "0 < invalid_len l (length bs)" "invalid_len l (length bs) \<le> length bs" "invalid_len l (length bs) \<le> 3"
    using assms by (auto simp: utf8_broken_def invalid_len_def split: option.splits)
qed

lemma chunk_loop_spec:
  assumes "i \<le> length s" and "is_utf8 (take i s)"
  shows "(\<exists>v l. chunk_loop s i i = Ret (v + invalid_len l (length s - v), v) \<and> v < length s
        \<and> is_utf8 (take v s) \<and> utf8_broken (drop v s) l)
    \<or> chunk_loop s i i = Ret (length s, length s) \<and> is_utf8 s"
  using assms
proof (induction "length s - i" arbitrary: i rule: less_induct)
  case less
  show ?case
  proof (cases "i < length s")
    case False
    then have "chunk_loop s i i = Ret (i, i)" by (simp add: chunk_loop.simps [of s i i])
    with False less.prems show ?thesis by simp
  next
    case True
    let ?c = "chunk_char s (i + 1) (s ! i)"
    have go: "chunk_loop s i i = chunk_loop s j j" if "?c = (j, True)" for j
      using True that by (simp add: chunk_loop.simps [of s i i])
    have step: ?thesis if c: "?c = (j, True)" and j: "i < j" "j \<le> length s" "is_utf8 (take (j - i) (drop i s))" for j
    proof -
      have "is_utf8 (take j s)"
        using less.prems(2) j take_add [of i "j - i" s] is_utf8_append by simp
      then show ?thesis using less.hyps [of j] j True unfolding go [OF c] by simp
    qed
    show ?thesis
    proof (cases "s ! i < 128")
      case small: True
      then have "is_utf8 [s ! i]" using is_utf8_append_ascii [of "[s ! i]" "[]"] by simp
      moreover have "take 1 (drop i s) = [s ! i]" using True by (simp add: take_Suc hd_drop_conv_nth)
      ultimately show ?thesis using True small by (intro step [of "i + 1"]) (simp_all add: chunk_char_def)
    next
      case False
      then have big: "128 \<le> s ! i" by simp
      note cc = chunk_char_validate [OF True big]
      from validate_multibyte_spec [OF True big] show ?thesis
      proof (elim disjE exE conjE)
        fix k
        assume k: "validate_multibyte s i (s ! i) = Ret (Inr (i + k))" "rfc3629_char (take k (drop i s))"
          "k \<le> length (drop i s)"
        have "0 < k" using k(2) by (cases k) auto
        then show ?thesis using k True is_utf8_append_char [OF k(2), of "[]"]
          by (intro step [of "i + k"] cc(1)) simp_all
      next
        fix l
        assume l: "validate_multibyte s i (s ! i) = utf8_err i l" "utf8_broken (drop i s) l"
        have "chunk_loop s i i = Ret (i + invalid_len l (length s - i), i)"
          using True cc(2) [OF l(1)] by (simp add: chunk_loop.simps [of s i i] invalid_len_def)
        then show ?thesis using True less.prems(2) l(2) by blast
      qed
    qed
  qed
qed

lemma utf8_chunks_next_spec:
  assumes "s \<noteq> []"
  shows "\<exists>c rest. utf8_chunks_next s = Ret (Some c, rest) \<and> s = chunk_valid c @ chunk_invalid c @ rest
    \<and> is_utf8 (chunk_valid c) \<and> length (chunk_invalid c) \<le> 3 \<and> length rest < length s
    \<and> (if chunk_invalid c = [] then rest = [] else
        \<exists>l. utf8_broken (chunk_invalid c @ rest) l
          \<and> length (chunk_invalid c) = invalid_len l (length s - length (chunk_valid c)))"
proof -
  from chunk_loop_spec [of 0 s] have "(\<exists>v l. chunk_loop s 0 0 = Ret (v + invalid_len l (length s - v), v) \<and> v < length s
        \<and> is_utf8 (take v s) \<and> utf8_broken (drop v s) l)
    \<or> chunk_loop s 0 0 = Ret (length s, length s) \<and> is_utf8 s" by simp
  then show ?thesis
  proof (elim disjE exE conjE)
    fix v l
    assume a: "chunk_loop s 0 0 = Ret (v + invalid_len l (length s - v), v)" "v < length s"
      "is_utf8 (take v s)" "utf8_broken (drop v s) l"
    let ?n = "invalid_len l (length s - v)"
    have n: "0 < ?n" "?n \<le> length s - v" "?n \<le> 3" using utf8_broken_length [OF a(4)] by simp_all
    have vn: "v + ?n \<le> length s" using n(2) a(2) by linarith
    let ?c = "\<lparr>chunk_valid = take v s, chunk_invalid = take ?n (drop v s)\<rparr>"
    have "utf8_chunks_next s = Ret (Some ?c, drop (v + ?n) s)"
      using assms a(1-3) vn by (simp add: utf8_chunks_next_def split_at_unchecked_def from_utf8_unchecked_def
          take_drop min_def add.commute)
    moreover have "drop v s = take ?n (drop v s) @ drop (v + ?n) s"
      by (metis add.commute append_take_drop_id drop_drop)
    moreover have "take ?n (drop v s) \<noteq> []" using n a(2) by auto
    ultimately show ?thesis using a n
      by (intro exI [of _ ?c] exI [of _ "drop (v + ?n) s"]) (auto simp: min_def intro!: exI [of _ l])
  next
    assume "chunk_loop s 0 0 = Ret (length s, length s)" "is_utf8 s"
    then have "utf8_chunks_next s = Ret (Some \<lparr>chunk_valid = s, chunk_invalid = []\<rparr>, [])"
      using assms by (simp add: utf8_chunks_next_def split_at_unchecked_def from_utf8_unchecked_def)
    then show ?thesis using \<open>is_utf8 s\<close> assms by simp
  qed
qed

section \<open>All chunks, and the lossy conversion\<close>

lemma utf8_chunks_next_shorter: "utf8_chunks_next s = Ret (Some c, rest) \<Longrightarrow> length rest < length s"
  using utf8_chunks_next_spec [of s] by (cases "s = []") (auto simp: utf8_chunks_next_def)

function utf8_chunks :: "u8 list \<Rightarrow> utf8_chunk list outcome" where
  "utf8_chunks source =
     and_then (utf8_chunks_next source) (\<lambda>(r, rest).
       case r of None \<Rightarrow> Ret [] | Some c \<Rightarrow> and_then (utf8_chunks rest) (\<lambda>cs. Ret (c # cs)))"
  by pat_completeness auto
termination by (relation "measure length") (auto simp: utf8_chunks_next_shorter)

declare utf8_chunks.simps [simp del]

definition REPLACEMENT :: "u8 list" where "REPLACEMENT = [0xEF, 0xBF, 0xBD]"

text \<open>\<open>String::from_utf8_lossy\<close>: borrow when the first chunk is everything, otherwise push each chunk
  and one replacement character per invalid piece.\<close>

definition push_chunk :: "utf8_chunk \<Rightarrow> u8 list \<Rightarrow> u8 list" where
  "push_chunk c res = res @ chunk_valid c @ (if chunk_invalid c \<noteq> [] then REPLACEMENT else [])"

definition from_utf8_lossy :: "u8 list \<Rightarrow> u8 list outcome" where
  "from_utf8_lossy v =
     and_then (utf8_chunks_next v) (\<lambda>(r, rest).
       case r of None \<Rightarrow> Ret []
       | Some c \<Rightarrow>
           if chunk_invalid c = [] then Ret (chunk_valid c)
           else and_then (utf8_chunks rest) (\<lambda>cs.
             Ret (fold push_chunk cs (chunk_valid c @ REPLACEMENT))))"

text \<open>\<open>Display\<close> of an operating system string (\<open>library/std/src/sys/os_str/bytes.rs\<close>), without width
  or precision: what \<open>path.display().to_string()\<close> gives.\<close>

fun display_chunks :: "utf8_chunk list \<Rightarrow> u8 list" where
  "display_chunks [] = []"
| "display_chunks (c # cs) =
     (if chunk_invalid c = [] then chunk_valid c else chunk_valid c @ REPLACEMENT @ display_chunks cs)"

definition os_str_display :: "u8 list \<Rightarrow> u8 list outcome" where
  "os_str_display inner =
     (if inner = [] then Ret [] else and_then (utf8_chunks inner) (\<lambda>cs. Ret (display_chunks cs)))"

fun well_chunked :: "utf8_chunk list \<Rightarrow> bool" where
  "well_chunked [] = True"
| "well_chunked (c # cs) = (is_utf8 (chunk_valid c) \<and> length (chunk_invalid c) \<le> 3
     \<and> (chunk_invalid c = [] \<longrightarrow> cs = []) \<and> well_chunked cs)"

lemma utf8_chunks_Nil [simp]: "utf8_chunks [] = Ret []"
  by (simp add: utf8_chunks.simps [of "[]"] utf8_chunks_next_def)

lemma utf8_chunks_spec:
  "\<exists>cs. utf8_chunks s = Ret cs \<and> concat (map (\<lambda>c. chunk_valid c @ chunk_invalid c) cs) = s
    \<and> well_chunked cs \<and> (is_utf8 s \<and> s \<noteq> [] \<longrightarrow> cs = [\<lparr>chunk_valid = s, chunk_invalid = []\<rparr>])"
proof (induction s rule: utf8_chunks.induct)
  case (1 s)
  show ?case
  proof (cases "s = []")
    case True
    then show ?thesis by simp
  next
    case False
    then obtain c rest where n: "utf8_chunks_next s = Ret (Some c, rest)"
      and s: "s = chunk_valid c @ chunk_invalid c @ rest"
      and c: "is_utf8 (chunk_valid c)" "length (chunk_invalid c) \<le> 3"
      and i: "if chunk_invalid c = [] then rest = [] else
        \<exists>l. utf8_broken (chunk_invalid c @ rest) l
          \<and> length (chunk_invalid c) = invalid_len l (length s - length (chunk_valid c))"
      using utf8_chunks_next_spec [OF False] by metis
    obtain cs where cs: "utf8_chunks rest = Ret cs"
      "concat (map (\<lambda>c. chunk_valid c @ chunk_invalid c) cs) = rest" "well_chunked cs"
      using "1.IH" [OF n refl refl] by blast
    have e: "utf8_chunks s = Ret (c # cs)" using n cs(1) by (simp add: utf8_chunks.simps [of s])
    have nil: "cs = []" if "rest = []"
      using cs(1) that by simp
    have one: "c # cs = [\<lparr>chunk_valid = s, chunk_invalid = []\<rparr>]" if "is_utf8 s"
    proof (cases "chunk_invalid c = []")
      case True
      with i s nil show ?thesis by (auto intro: utf8_chunk.equality)
    next
      case False
      with i obtain l where "utf8_broken (chunk_invalid c @ rest) l" by auto
      moreover have "is_utf8 (chunk_invalid c @ rest)" using that s is_utf8_append [OF c(1)] by metis
      ultimately show ?thesis using utf8_broken_not_utf8 by blast
    qed
    show ?thesis using e cs s c i nil one by auto
  qed
qed

lemma is_utf8_REPLACEMENT: "is_utf8 REPLACEMENT"
  unfolding REPLACEMENT_def by code_simp

lemma display_chunks_utf8: "well_chunked cs \<Longrightarrow> is_utf8 (display_chunks cs)"
  by (induction cs) (auto simp: is_utf8_append is_utf8_REPLACEMENT)

lemma fold_push_chunk: "well_chunked cs \<Longrightarrow> fold push_chunk cs res = res @ display_chunks cs"
  by (induction cs arbitrary: res) (auto simp: push_chunk_def)

lemma lossy_display_eq:
  assumes "utf8_chunks v = Ret cs" "well_chunked cs"
  shows "from_utf8_lossy v = Ret (display_chunks cs)" "os_str_display v = Ret (display_chunks cs)"
proof -
  obtain r rest where n: "utf8_chunks_next v = Ret (r, rest)"
    using assms(1) by (auto simp: utf8_chunks.simps [of v] outcome_simps)
  show "from_utf8_lossy v = Ret (display_chunks cs)"
    using assms n by (cases r) (auto simp: utf8_chunks.simps [of v] from_utf8_lossy_def
        and_then_eq_Ret_iff [of "utf8_chunks rest"] fold_push_chunk)
  show "os_str_display v = Ret (display_chunks cs)"
    using assms by (cases "v = []") (auto simp: os_str_display_def)
qed

section \<open>Properties\<close>

text \<open>C11: \<open>Utf8Chunks\<close> splits any byte string safely and losslessly: the iterator ends, no unchecked split
  or conversion leaves its contract, the chunks concatenate to the input, every \<open>valid\<close> part is UTF-8, every
  \<open>invalid\<close> part has at most three bytes and only the last chunk may lack one; valid input is one chunk. The
  lossy conversions built on it always return valid UTF-8, leave valid UTF-8 unchanged, and
  \<open>String::from_utf8_lossy\<close> agrees with the \<open>Display\<close> of an operating system string.\<close>

theorem utf8_chunks_lossless:
  "\<exists>cs r. utf8_chunks v = Ret cs \<and> concat (map (\<lambda>c. chunk_valid c @ chunk_invalid c) cs) = v
    \<and> well_chunked cs \<and> (is_utf8 v \<and> v \<noteq> [] \<longrightarrow> cs = [\<lparr>chunk_valid = v, chunk_invalid = []\<rparr>])
    \<and> from_utf8_lossy v = Ret r \<and> os_str_display v = Ret r \<and> is_utf8 r \<and> (is_utf8 v \<longrightarrow> r = v)"
proof -
  obtain cs where cs: "utf8_chunks v = Ret cs" "well_chunked cs"
    and parts: "concat (map (\<lambda>c. chunk_valid c @ chunk_invalid c) cs) = v"
    and one: "is_utf8 v \<and> v \<noteq> [] \<longrightarrow> cs = [\<lparr>chunk_valid = v, chunk_invalid = []\<rparr>]"
    using utf8_chunks_spec by blast
  have "v = [] \<Longrightarrow> cs = []" using cs(1) by simp
  with one have "is_utf8 v \<longrightarrow> display_chunks cs = v" by (cases "v = []") auto
  with cs parts one lossy_display_eq [OF cs] display_chunks_utf8 [OF cs(2)] show ?thesis by blast
qed

theorem utf8_chunks_lossless_witness:
  "\<exists>r. from_utf8_lossy [0xC3, 0xA9] = Ret r \<and> os_str_display [0xC3, 0xA9] = Ret r \<and> is_utf8 r
    \<and> (is_utf8 [0xC3, 0xA9] \<longrightarrow> r = [0xC3, 0xA9])"
  using utf8_chunks_lossless [of "[0xC3, 0xA9]"] by blast

end
