(* ===== verification/Str_Format.thy ===== *)
theory Str_Format
  imports Utf8_Lossy
begin

text \<open>
  The string operations the scanner uses, from the library's own source: substring search, \<open>str::replace\<close>
  (\<open>library/alloc/src/str.rs\<close>), \<open>Formatter::pad\<close> and \<open>padding\<close>
  (\<open>library/core/src/fmt/mod.rs\<close>) and the extension of a file name (\<open>rsplit_file_at_dot\<close> and
  \<open>Path::extension\<close> of \<open>library/std/src/path.rs\<close>). A Rust string is a \<open>string\<close>, one HOL
  character per byte of its UTF-8 encoding.
\<close>

section \<open>Bytes and characters\<close>

definition bytes_of :: "string \<Rightarrow> u8 list" where
  "bytes_of s = map of_char s"

definition string_of :: "u8 list \<Rightarrow> string" where
  "string_of bs = map (\<lambda>b. char_of (unat b)) bs"

definition starts_char :: "char \<Rightarrow> bool" where
  "starts_char c \<longleftrightarrow> \<not> utf8_is_cont_byte (of_char c)"

definition chars_count :: "string \<Rightarrow> nat" where
  "chars_count s = length (filter starts_char s)"

text \<open>The byte offset of the \<open>n\<close>-th character: \<open>char_indices().nth(n)\<close>.\<close>

fun char_index :: "string \<Rightarrow> nat \<Rightarrow> nat option" where
  "char_index [] n = None"
| "char_index (c # cs) n =
     (if starts_char c then
        (case n of 0 \<Rightarrow> Some 0 | Suc m \<Rightarrow> map_option Suc (char_index cs m))
      else map_option Suc (char_index cs n))"

section \<open>Searching and replacing\<close>

fun str_starts_with :: "string \<Rightarrow> string \<Rightarrow> bool" where
  "str_starts_with [] s = True"
| "str_starts_with (p # ps) [] = False"
| "str_starts_with (p # ps) (c # cs) = (p = c \<and> str_starts_with ps cs)"

fun str_contains :: "string \<Rightarrow> string \<Rightarrow> bool" where
  "str_contains [] pat = (pat = [])"
| "str_contains (c # cs) pat = (str_starts_with pat (c # cs) \<or> str_contains cs pat)"

text \<open>\<open>match_indices\<close> for a non-empty pattern: the start of every match, from the left and
  without overlap. \<open>skip\<close> counts the bytes of the current match that are still to be passed.\<close>

fun match_indices :: "string \<Rightarrow> string \<Rightarrow> nat \<Rightarrow> nat \<Rightarrow> nat list" where
  "match_indices [] pat pos skip = []"
| "match_indices (c # cs) pat pos skip =
     (if 0 < skip then match_indices cs pat (pos + 1) (skip - 1)
      else if str_starts_with pat (c # cs) then pos # match_indices cs pat (pos + 1) (length pat - 1)
      else match_indices cs pat (pos + 1) 0)"

text \<open>\<open>str::get_unchecked\<close> on a range: the precondition the library asserts is the range check
  (character boundaries are not asserted there).\<close>

definition str_get_unchecked :: "string \<Rightarrow> nat \<Rightarrow> nat \<Rightarrow> string outcome" where
  "str_get_unchecked s a b = (if a \<le> b \<and> b \<le> length s then Ret (take (b - a) (drop a s)) else UB)"

fun replace_loop :: "string \<Rightarrow> nat \<Rightarrow> string \<Rightarrow> nat list \<Rightarrow> string \<Rightarrow> nat \<Rightarrow> string outcome" where
  "replace_loop s plen to [] result last_end =
     and_then (str_get_unchecked s last_end (length s)) (\<lambda>t. Ret (result @ t))"
| "replace_loop s plen to (start # ms) result last_end =
     and_then (str_get_unchecked s last_end start) (\<lambda>t.
       replace_loop s plen to ms (result @ t @ to) (start + plen))"

definition str_replace :: "string \<Rightarrow> string \<Rightarrow> string \<Rightarrow> string outcome" where
  "str_replace s from to = replace_loop s (length from) to (match_indices s from 0 0) [] 0"

section \<open>Padding (core/fmt)\<close>

datatype alignment = AlignLeft | AlignRight | AlignCenter

record formatter =
  fmt_fill :: char
  fmt_align :: "alignment option"
  fmt_width :: "nat option"
  fmt_precision :: "nat option"
  fmt_flags :: u32

text \<open>\<open>padding\<close> writes the pre-padding and returns the post-padding: both as strings here.\<close>

definition padding :: "formatter \<Rightarrow> nat \<Rightarrow> alignment \<Rightarrow> string \<times> string" where
  "padding f n dflt =
     (let align = (case fmt_align f of None \<Rightarrow> dflt | Some a \<Rightarrow> a);
          (pre_pad, post_pad) = (case align of
             AlignLeft \<Rightarrow> (0, n) | AlignRight \<Rightarrow> (n, 0) | AlignCenter \<Rightarrow> (n div 2, (n + 1) div 2))
      in (replicate pre_pad (fmt_fill f), replicate post_pad (fmt_fill f)))"

definition pad :: "formatter \<Rightarrow> string \<Rightarrow> string" where
  "pad f s =
     (if fmt_width f = None \<and> fmt_precision f = None then s
      else (let s = (case fmt_precision f of
                       Some m \<Rightarrow> (case char_index s m of Some i \<Rightarrow> take i s | None \<Rightarrow> s)
                     | None \<Rightarrow> s)
            in case fmt_width f of
                 None \<Rightarrow> s
               | Some width \<Rightarrow>
                   if width \<le> chars_count s then s
                   else (let (pre, post) = padding f (width - chars_count s) AlignLeft
                         in pre @ s @ post)))"

section \<open>File extensions (std/path)\<close>

definition split_last_dot :: "string \<Rightarrow> string option \<times> string option" where
  "split_last_dot file =
     (let after = rev (takeWhile (\<lambda>c. c \<noteq> CHR ''.'') (rev file)) in
      if CHR ''.'' \<in> set file
      then (Some (take (length file - length after - 1) file), Some after) else (None, Some file))"

definition rsplit_file_at_dot :: "string \<Rightarrow> string option \<times> string option" where
  "rsplit_file_at_dot file =
     (if file = ''..'' then (Some file, None)
      else (let (before, after) = split_last_dot file in
        if before = Some [] then (Some file, None) else (before, after)))"

text \<open>\<open>Path::components\<close> on Unix, as far as \<open>file_name\<close> looks at it: the separators split the path,
  empty and \<open>.\<close> components are dropped.\<close>

fun split_on :: "char \<Rightarrow> string \<Rightarrow> string list" where
  "split_on d [] = [[]]"
| "split_on d (c # cs) =
     (if c = d then [] # split_on d cs
      else (case split_on d cs of [] \<Rightarrow> [[c]] | w # ws \<Rightarrow> (c # w) # ws))"

definition file_name :: "string \<Rightarrow> string option" where
  "file_name path =
     (let cs = filter (\<lambda>c. c \<noteq> [] \<and> c \<noteq> ''.'') (split_on CHR ''/'' path) in
      if cs = [] \<or> last cs = ''..'' then None else Some (last cs))"

definition path_extension :: "string \<Rightarrow> string option" where
  "path_extension path = (case file_name path of None \<Rightarrow> None
     | Some n \<Rightarrow> (let (before, after) = rsplit_file_at_dot n in
         case before of None \<Rightarrow> None | Some _ \<Rightarrow> after))"

text \<open>\<open>PathBuf::push\<close> on Unix with a relative path: a separator is added when it is missing.\<close>

definition path_join :: "string \<Rightarrow> string \<Rightarrow> string" where
  "path_join buf path =
     (if buf \<noteq> [] \<and> last buf \<noteq> CHR ''/'' then buf @ CHR ''/'' # path else buf @ path)"

section \<open>Lemmas\<close>

lemma str_starts_with_iff: "str_starts_with p s \<longleftrightarrow> (\<exists>t. s = p @ t)"
  by (induction p s rule: str_starts_with.induct) auto

lemma str_contains_iff: "str_contains s p \<longleftrightarrow> (\<exists>a b. s = a @ p @ b)"
proof (induction s p rule: str_contains.induct)
  case (2 c cs pat)
  have "(\<exists>a b. c # cs = a @ pat @ b) \<longleftrightarrow> (\<exists>b. c # cs = pat @ b) \<or> (\<exists>a b. cs = a @ pat @ b)"
  proof
    assume "\<exists>a b. c # cs = a @ pat @ b"
    then obtain a b where "c # cs = a @ pat @ b" by blast
    then show "(\<exists>b. c # cs = pat @ b) \<or> (\<exists>a b. cs = a @ pat @ b)" by (cases a) auto
  qed (metis append_Cons append_Nil)
  with 2 show ?case by (simp add: str_starts_with_iff)
qed auto

text \<open>Reference definition of the replacement: rewrite the leftmost match and go on after it.\<close>

function replace_spec :: "string \<Rightarrow> string \<Rightarrow> string \<Rightarrow> string" where
  "replace_spec pat to s =
     (if s = [] then []
      else if pat \<noteq> [] \<and> str_starts_with pat s then to @ replace_spec pat to (drop (length pat) s)
      else hd s # replace_spec pat to (tl s))"
  by pat_completeness auto
termination by (relation "measure (\<lambda>(p, t, s). length s)") auto

declare replace_spec.simps [simp del]

lemma match_indices_skip:
  "match_indices s pat pos k = match_indices (drop k s) pat (pos + k) 0"
proof (induction k arbitrary: s pos)
  case (Suc k)
  then show ?case by (cases s) auto
qed simp

lemma replace_loop_spec:
  assumes "pat \<noteq> []" and "k \<le> length pre"
  shows "replace_loop (pre @ suf) (length pat) to (match_indices suf pat (length pre) 0) res k
    = Ret (res @ drop k pre @ replace_spec pat to suf)"
  using assms
proof (induction pat to suf arbitrary: pre res k rule: replace_spec.induct)
  case (1 pat to suf)
  show ?case
  proof (cases suf)
    case Nil
    then show ?thesis using "1.prems"
      by (simp add: str_get_unchecked_def replace_spec.simps [of _ _ "[]"])
  next
    case (Cons c cs)
    show ?thesis
    proof (cases "pat \<noteq> [] \<and> str_starts_with pat suf")
      case True
      then obtain t where t: "suf = pat @ t" by (auto simp: str_starts_with_iff)
      have dr: "drop (length pat) (c # cs) = t" using t Cons by (metis append_eq_conv_conj)
      have m: "match_indices suf pat (length pre) 0
          = length pre # match_indices t pat (length (pre @ pat)) 0"
      proof -
        have "drop (length pat - 1) cs = t" using t Cons True by (cases pat) auto
        moreover have "match_indices suf pat (length pre) 0
            = length pre # match_indices cs pat (length pre + 1) (length pat - 1)"
          using True Cons by simp
        moreover have "length pre + 1 + (length pat - 1) = length (pre @ pat)"
          using True by (cases pat) auto
        ultimately show ?thesis using match_indices_skip [of cs pat "length pre + 1" "length pat - 1"]
          by presburger
      qed
      have r: "replace_spec pat to suf = to @ replace_spec pat to t"
        using True Cons by (subst replace_spec.simps) (auto simp: dr)
      have "replace_loop ((pre @ pat) @ t) (length pat) to
          (match_indices t pat (length (pre @ pat)) 0) (res @ drop k pre @ to) (length (pre @ pat))
        = Ret ((res @ drop k pre @ to) @ drop (length (pre @ pat)) (pre @ pat) @ replace_spec pat to t)"
        using "1.IH" (1) [of "length (pre @ pat)" "pre @ pat" "res @ drop k pre @ to"] True Cons dr "1.prems"
        by simp
      then show ?thesis using "1.prems" unfolding m r
        by (simp add: str_get_unchecked_def t)
    next
      case False
      have m: "match_indices suf pat (length pre) 0 = match_indices cs pat (length (pre @ [c])) 0"
        using False Cons "1.prems"(1) by auto
      have r: "replace_spec pat to suf = c # replace_spec pat to cs"
        using False Cons by (subst replace_spec.simps) auto
      show ?thesis using "1.IH" (2) [of k "pre @ [c]" res] False Cons "1.prems" unfolding m r by auto
    qed
  qed
qed

text \<open>\<open>str::replace\<close> is the leftmost non-overlapping rewriting; its unchecked slices are in range.\<close>

lemma str_replace_spec: "pat \<noteq> [] \<Longrightarrow> str_replace s pat to = Ret (replace_spec pat to s)"
  using replace_loop_spec [of pat 0 "[]" s to "[]"] by (simp add: str_replace_def)

lemma replace_spec_no_match: "\<not> str_contains s pat \<Longrightarrow> replace_spec pat to s = s"
proof (induction s)
  case (Cons c cs)
  then show ?case by (subst replace_spec.simps) auto
qed (simp add: replace_spec.simps)

section \<open>Lemmas on padding and paths\<close>

lemma chars_count_append [simp]: "chars_count (a @ b) = chars_count a + chars_count b"
  by (simp add: chars_count_def)

lemma chars_count_replicate: "starts_char c \<Longrightarrow> chars_count (replicate n c) = n"
  by (simp add: chars_count_def)

lemma chars_count_le_length: "chars_count s \<le> length s"
  by (simp add: chars_count_def)

lemma pad_chars_count:
  assumes "starts_char (fmt_fill f)" "fmt_precision f = None" "fmt_width f = Some w"
  shows "chars_count (pad f s) = max w (chars_count s)"
  using assms by (auto simp: pad_def padding_def Let_def chars_count_replicate
      split: alignment.splits option.splits)

lemma split_on_ne [simp]: "split_on d s \<noteq> []"
  by (induction d s rule: split_on.induct) (auto split: list.splits)

lemma split_on_none: "d \<notin> set s \<Longrightarrow> split_on d s = [s]"
  by (induction d s rule: split_on.induct) auto

lemma split_on_append: "d \<notin> set n \<Longrightarrow> split_on d (s @ d # n) = split_on d s @ [n]"
  by (induction d s rule: split_on.induct) (auto simp: split_on_none split: list.splits)

lemma split_on_append_last: "s = [] \<or> last s = d \<Longrightarrow> d \<notin> set n \<Longrightarrow> split_on d (s @ n) = butlast (split_on d s) @ [n]"
proof (cases s rule: rev_cases)
  case (snoc t x)
  assume "s = [] \<or> last s = d" "d \<notin> set n"
  with snoc show ?thesis using split_on_append [of d n t] split_on_append [of d "[]" t] by simp
qed (simp add: split_on_none)

lemma file_name_join:
  assumes "CHR ''/'' \<notin> set n" "n \<noteq> []" "n \<noteq> ''.''" "n \<noteq> ''..''"
  shows "file_name (path_join d n) = Some n"
proof (cases "d \<noteq> [] \<and> last d \<noteq> CHR ''/''")
  case True
  then show ?thesis using assms by (simp add: file_name_def path_join_def split_on_append)
next
  case False
  then have "split_on CHR ''/'' (d @ n) = butlast (split_on CHR ''/'' d) @ [n]"
    using split_on_append_last [OF _ assms(1)] by auto
  moreover have "path_join d n = d @ n" using False by (simp add: path_join_def)
  ultimately show ?thesis using assms by (simp add: file_name_def)
qed

lemma rsplit_file_at_dot_rs:
  "rsplit_file_at_dot (stem @ ''.rs'') = (if stem = [] then (Some ''.rs'', None) else (Some stem, Some ''rs''))"
  by (auto simp: rsplit_file_at_dot_def split_last_dot_def)

lemma split_last_dot_snd:
  "split_last_dot n = (Some b, Some e) \<Longrightarrow> n = b @ CHR ''.'' # e"
proof -
  assume a: "split_last_dot n = (Some b, Some e)"
  let ?P = "\<lambda>c. c \<noteq> CHR ''.''"
  have d: "CHR ''.'' \<in> set n" and e: "e = rev (takeWhile ?P (rev n))"
    and b: "b = take (length n - length e - 1) n"
    using a by (auto simp: split_last_dot_def Let_def split: if_splits)
  have ne: "dropWhile ?P (rev n) \<noteq> []" using d by (auto simp: dropWhile_eq_Nil_conv)
  then obtain r where r: "dropWhile ?P (rev n) = CHR ''.'' # r"
    using hd_dropWhile [OF ne] by (metis (full_types) list.collapse)
  have "rev n = takeWhile ?P (rev n) @ CHR ''.'' # r" using r takeWhile_dropWhile_id [of ?P "rev n"] by simp
  then have n: "n = rev r @ CHR ''.'' # e" unfolding e
    by (metis append.assoc append_Cons append_Nil rev.simps(2) rev_append rev_rev_ident)
  with b have "b = rev r" by simp
  with n show ?thesis by simp
qed

text \<open>Which file names the scanner takes for Rust sources: those with a non-empty stem before \<open>.rs\<close>.\<close>

lemma path_extension_rs:
  assumes "CHR ''/'' \<notin> set n" "n \<noteq> []" "n \<noteq> ''.''" "n \<noteq> ''..''"
  shows "path_extension (path_join d n) = Some ''rs'' \<longleftrightarrow> (\<exists>stem. stem \<noteq> [] \<and> n = stem @ ''.rs'')"
proof
  assume "path_extension (path_join d n) = Some ''rs''"
  then obtain b where "rsplit_file_at_dot n = (Some b, Some ''rs'')"
    by (auto simp: path_extension_def file_name_join [OF assms] split: option.splits prod.splits)
  then have "b \<noteq> []" "split_last_dot n = (Some b, Some ''rs'')"
    by (auto simp: rsplit_file_at_dot_def Let_def split: if_splits prod.splits)
  with split_last_dot_snd [of n b "''rs''"] show "\<exists>stem. stem \<noteq> [] \<and> n = stem @ ''.rs''" by auto
next
  assume "\<exists>stem. stem \<noteq> [] \<and> n = stem @ ''.rs''"
  then show "path_extension (path_join d n) = Some ''rs''"
    using rsplit_file_at_dot_rs
    by (auto simp: path_extension_def file_name_join [OF assms])
qed

end
