(* ===== verification/Scanner.thy ===== *)
theory Scanner
  imports Str_Format
begin

text \<open>
  The scanner itself, \<open>src/main.rs\<close>: the visitor that collects the functions whose name contains
  \<open>unchecked\<close>, the walk over the directory tree, the search for a safe version of every collected
  function and the table written to \<open>safe_version_results.txt\<close>.

  The file system, the parser of the \<open>syn\<close> crate and the iteration order of the hash sets are the
  fields of \<open>environment\<close>: the scanner only calls them. A syntax tree is kept as far as it declares
  functions: functions, implementation blocks, traits, blocks of foreign items, and for everything else the
  items nested in it (modules, bodies). The body of a macro is a sequence of tokens and holds no items.
\<close>

section \<open>Syntax trees and the environment\<close>

record signature =
  sig_ident :: string
  sig_unsafety :: bool

datatype item =
    Item_Fn signature "item list"
  | Item_Impl "item list" "impl_item list"
  | Item_Trait "item list" "trait_item list"
  | Item_ForeignMod "signature list"
  | Item_Other "item list"
and impl_item =
    ImplItem_Fn signature "item list"
  | ImplItem_Other "item list"
and trait_item =
    TraitItem_Fn signature "item list"
  | TraitItem_Other "item list"

datatype scan_error = Io_Error nat | Parse_Error nat

text \<open>\<open>read_dir\<close> gives the names of the entries, each of which may be an error. \<open>pair_order\<close> and
  \<open>triple_order\<close> are the orders in which the hash sets are iterated. \<open>write_line i\<close> is the error of
  the \<open>i\<close>-th \<open>writeln!\<close> on the report, if it fails.\<close>

record environment =
  read_dir :: "string \<Rightarrow> scan_error + (scan_error + string) list"
  is_dir :: "string \<Rightarrow> bool"
  read_to_string :: "string \<Rightarrow> scan_error + string"
  parse_file :: "string \<Rightarrow> scan_error + item list"
  pair_order :: "(string \<times> string) list \<Rightarrow> (string \<times> string) list"
  triple_order :: "(string \<times> string \<times> string) list \<Rightarrow> (string \<times> string \<times> string) list"
  create_file :: "scan_error option"
  write_line :: "nat \<Rightarrow> scan_error option"

text \<open>A hash set is the list of its elements without repetition.\<close>

definition hash_insert :: "'a \<Rightarrow> 'a list \<Rightarrow> 'a list" where
  "hash_insert x xs = (if x \<in> set xs then xs else xs @ [x])"

section \<open>The visitor\<close>

record function_visitor =
  unchecked_functions :: "(string \<times> string) list"
  current_file :: string

definition record_fn :: "string \<Rightarrow> function_visitor \<Rightarrow> function_visitor" where
  "record_fn fn_name v =
     (if str_contains fn_name ''unchecked''
      then v\<lparr>unchecked_functions := hash_insert (current_file v, fn_name) (unchecked_functions v)\<rparr>
      else v)"

fun record_methods :: "impl_item list \<Rightarrow> function_visitor \<Rightarrow> function_visitor" where
  "record_methods [] v = v"
| "record_methods (ImplItem_Fn s b # is) v = record_methods is (record_fn (sig_ident s) v)"
| "record_methods (ImplItem_Other b # is) v = record_methods is v"

text \<open>\<open>visit_item_fn\<close> and \<open>visit_item_impl\<close> of the visitor, and around them the default walk of
  \<open>syn::visit\<close> into the nested items. The visitor has no method for traits and foreign items: it only
  walks into the default bodies.\<close>

fun visit_item :: "item \<Rightarrow> function_visitor \<Rightarrow> function_visitor"
and visit_items :: "item list \<Rightarrow> function_visitor \<Rightarrow> function_visitor"
and visit_impl_items :: "impl_item list \<Rightarrow> function_visitor \<Rightarrow> function_visitor"
and visit_trait_items :: "trait_item list \<Rightarrow> function_visitor \<Rightarrow> function_visitor" where
  "visit_item (Item_Fn s body) v = visit_items body (record_fn (sig_ident s) v)"
| "visit_item (Item_Impl hdr is) v = visit_impl_items is (visit_items hdr (record_methods is v))"
| "visit_item (Item_Trait hdr ts) v = visit_trait_items ts (visit_items hdr v)"
| "visit_item (Item_ForeignMod ss) v = v"
| "visit_item (Item_Other ns) v = visit_items ns v"
| "visit_items [] v = v"
| "visit_items (i # is) v = visit_items is (visit_item i v)"
| "visit_impl_items [] v = v"
| "visit_impl_items (ImplItem_Fn s body # is) v = visit_impl_items is (visit_items body v)"
| "visit_impl_items (ImplItem_Other ns # is) v = visit_impl_items is (visit_items ns v)"
| "visit_trait_items [] v = v"
| "visit_trait_items (TraitItem_Fn s body # ts) v = visit_trait_items ts (visit_items body v)"
| "visit_trait_items (TraitItem_Other ns # ts) v = visit_trait_items ts (visit_items ns v)"

section \<open>Walking the directory tree\<close>

text \<open>How a call ended, beside the state it leaves: the shared set of functions and the lines
  printed. \<open>Out_Of_Fuel\<close> stands for a recursion deeper than the bound (a cycle of links).\<close>

datatype verdict = Done | Failed scan_error | Panicked | Out_Of_Fuel

record scan_state =
  found :: "(string \<times> string) list"
  printed :: "string list"

definition process_file :: "environment \<Rightarrow> string \<Rightarrow> scan_state \<Rightarrow> verdict \<times> scan_state" where
  "process_file env file_path st =
     (case read_to_string env file_path of
        Inl e \<Rightarrow> (Failed e, st)
      | Inr file_content \<Rightarrow>
          (case parse_file env file_content of
             Inl e \<Rightarrow> (Failed e, st)
           | Inr parsed_file \<Rightarrow>
               (let visitor = visit_items parsed_file
                      \<lparr>unchecked_functions = [], current_file = file_path\<rparr>
                in (Done, st\<lparr>found := fold hash_insert (pair_order env (unchecked_functions visitor))
                               (found st)\<rparr>))))"

definition path_display :: "string \<Rightarrow> string outcome" where
  "path_display p = and_then (os_str_display (bytes_of p)) (\<lambda>bs. Ret (string_of bs))"

text \<open>\<open>to_str().unwrap()\<close>: the path itself when it is UTF-8, a panic otherwise.\<close>

definition to_str_unwrap :: "string \<Rightarrow> string outcome" where
  "to_str_unwrap p = (if is_utf8 (bytes_of p) then Ret p else Panic)"

definition process_path ::
  "(string \<Rightarrow> scan_state \<Rightarrow> verdict \<times> scan_state) \<Rightarrow> environment \<Rightarrow> string \<Rightarrow> scan_state \<Rightarrow> verdict \<times> scan_state" where
  "process_path descend env path st =
     (if is_dir env path then
        (case to_str_unwrap path of Ret p \<Rightarrow> descend p st | _ \<Rightarrow> (Panicked, st))
      else (case path_extension path of
              None \<Rightarrow> (Done, st)
            | Some ext \<Rightarrow>
                if ext = ''rs'' then
                  (case path_display path of
                     Ret p \<Rightarrow> process_file env p (st\<lparr>printed := printed st @ [''Processing file: '' @ p]\<rparr>)
                   | _ \<Rightarrow> (Panicked, st))
                else (Done, st)))"

fun process_paths ::
  "(string \<Rightarrow> scan_state \<Rightarrow> verdict \<times> scan_state) \<Rightarrow> environment \<Rightarrow> string list \<Rightarrow> scan_state \<Rightarrow> verdict \<times> scan_state" where
  "process_paths descend env [] st = (Done, st)"
| "process_paths descend env (path # paths) st =
     (case process_path descend env path st of
        (Done, st') \<Rightarrow> process_paths descend env paths st'
      | r \<Rightarrow> r)"

definition entry_paths :: "string \<Rightarrow> (scan_error + string) list \<Rightarrow> string list" where
  "entry_paths dir_path entries =
     map (path_join dir_path) (List.map_filter (\<lambda>e. case e of Inl _ \<Rightarrow> None | Inr n \<Rightarrow> Some n) entries)"

fun process_directory :: "nat \<Rightarrow> environment \<Rightarrow> string \<Rightarrow> scan_state \<Rightarrow> verdict \<times> scan_state" where
  "process_directory 0 env dir_path st = (Out_Of_Fuel, st)"
| "process_directory (Suc fuel) env dir_path st =
     (case read_dir env dir_path of
        Inl e \<Rightarrow> (Failed e, st)
      | Inr entries \<Rightarrow> process_paths (process_directory fuel env) env (entry_paths dir_path entries) st)"

section \<open>Looking for safe versions\<close>

text \<open>The state of the search is \<open>(found_safe_func, func_safety)\<close>. The \<open>break\<close> in an
  \<open>impl\<close> leaves only the loop over its methods; the one at a function leaves the loop over the items.\<close>

fun search_impl :: "string \<Rightarrow> impl_item list \<Rightarrow> bool \<times> bool \<Rightarrow> bool \<times> bool" where
  "search_impl safe_func_name [] acc = acc"
| "search_impl safe_func_name (ImplItem_Fn s b # is) (found_safe_func, func_safety) =
     (if sig_ident s = safe_func_name then (True, if sig_unsafety s then False else func_safety)
      else search_impl safe_func_name is (found_safe_func, func_safety))"
| "search_impl safe_func_name (ImplItem_Other b # is) acc = search_impl safe_func_name is acc"

fun search_items :: "string \<Rightarrow> item list \<Rightarrow> bool \<times> bool \<Rightarrow> bool \<times> bool" where
  "search_items safe_func_name [] acc = acc"
| "search_items safe_func_name (Item_Fn s b # is) (found_safe_func, func_safety) =
     (if sig_ident s = safe_func_name then (True, if sig_unsafety s then False else func_safety)
      else search_items safe_func_name is (found_safe_func, func_safety))"
| "search_items safe_func_name (Item_Impl hdr ms # is) acc =
     search_items safe_func_name is (search_impl safe_func_name ms acc)"
| "search_items safe_func_name (Item_Trait hdr ts # is) acc = search_items safe_func_name is acc"
| "search_items safe_func_name (Item_ForeignMod ss # is) acc = search_items safe_func_name is acc"
| "search_items safe_func_name (Item_Other ns # is) acc = search_items safe_func_name is acc"

definition safe_entry :: "string \<Rightarrow> bool \<times> bool \<Rightarrow> string" where
  "safe_entry safe_func_name acc =
     (if fst acc then (if snd acc then safe_func_name else safe_func_name @ ''(unsafe)'') else ''None'')"

fun check_loop :: "environment \<Rightarrow> (string \<times> string) list \<Rightarrow> (string \<times> string \<times> string) list
    \<Rightarrow> (scan_error + (string \<times> string \<times> string) list) outcome" where
  "check_loop env [] results = Ret (Inr results)"
| "check_loop env ((file_path, func_name) # fs) results =
     and_then (str_replace func_name ''_unchecked'' []) (\<lambda>safe_func_name.
       case read_to_string env file_path of
         Inl e \<Rightarrow> Ret (Inl e)
       | Inr file_content \<Rightarrow>
           (case parse_file env file_content of
              Inl e \<Rightarrow> Ret (Inl e)
            | Inr items \<Rightarrow>
                check_loop env fs (hash_insert
                  (file_path, func_name, safe_entry safe_func_name (search_items safe_func_name items (False, True)))
                  results)))"

definition check_for_safe_versions ::
  "environment \<Rightarrow> (string \<times> string) list \<Rightarrow> (scan_error + (string \<times> string \<times> string) list) outcome" where
  "check_for_safe_versions env output = check_loop env (pair_order env output) []"

section \<open>The report\<close>

definition max_len :: "string list \<Rightarrow> nat" where
  "max_len ss = fold max (map length ss) 0"

definition field :: "char \<Rightarrow> alignment option \<Rightarrow> nat \<Rightarrow> string \<Rightarrow> string" where
  "field fill al w s = pad \<lparr>fmt_fill = fill, fmt_align = al, fmt_width = Some w, fmt_precision = None, fmt_flags = 0\<rparr> s"

definition table_row :: "nat \<Rightarrow> nat \<Rightarrow> nat \<Rightarrow> string \<times> string \<times> string \<Rightarrow> string" where
  "table_row a b c r = (case r of (x, y, z) \<Rightarrow>
     ''| '' @ field CHR '' '' None a x @ '' | '' @ field CHR '' '' None b y @ '' | ''
       @ field CHR '' '' None c z @ '' |'')"

definition table_separator :: "nat \<Rightarrow> nat \<Rightarrow> nat \<Rightarrow> string" where
  "table_separator a b c =
     ''|'' @ field CHR ''-'' (Some AlignLeft) a [] @ ''|'' @ field CHR ''-'' (Some AlignLeft) b [] @ ''|''
       @ field CHR ''-'' (Some AlignLeft) c [] @ ''|''"

definition report_lines :: "environment \<Rightarrow> (string \<times> string \<times> string) list \<Rightarrow> string list" where
  "report_lines env rs =
     (let a = max_len (map (\<lambda>(path, _, _). path) rs) + 2;
          b = max_len (map (\<lambda>(_, func, _). func) rs) + 2;
          c = max_len (map (\<lambda>(_, _, safe_func). safe_func) rs) + 2
      in table_row a b c (''File Path'', ''Unchecked Function'', ''Safe Function'')
         # table_separator a b c # map (table_row a b c) (triple_order env rs))"

text \<open>The lines written before the first failing one, and how writing ended.\<close>

fun write_lines :: "environment \<Rightarrow> nat \<Rightarrow> string list \<Rightarrow> verdict \<times> string list" where
  "write_lines env i [] = (Done, [])"
| "write_lines env i (l # ls) =
     (case write_line env i of
        Some e \<Rightarrow> (Failed e, [])
      | None \<Rightarrow> (case write_lines env (Suc i) ls of (v, out) \<Rightarrow> (v, l # out)))"

record run =
  verdict_of :: verdict
  report :: "string list option"
  stdout_lines :: "string list"

definition scanner_main :: "nat \<Rightarrow> environment \<Rightarrow> run" where
  "scanner_main fuel env =
     (case process_directory fuel env ''library'' \<lparr>found = [], printed = []\<rparr> of
        (Done, st) \<Rightarrow>
          (case check_for_safe_versions env (found st) of
             Ret (Inr rs) \<Rightarrow>
               (case create_file env of
                  Some e \<Rightarrow> \<lparr>verdict_of = Failed e, report = None, stdout_lines = printed st\<rparr>
                | None \<Rightarrow>
                    (case write_lines env 0 (report_lines env rs) of
                       (Done, out) \<Rightarrow> \<lparr>verdict_of = Done, report = Some out, stdout_lines = printed st
                          @ [''Safe version results have been written to safe_version_results.txt'']\<rparr>
                     | (v, out) \<Rightarrow> \<lparr>verdict_of = v, report = Some out, stdout_lines = printed st\<rparr>))
           | Ret (Inl e) \<Rightarrow> \<lparr>verdict_of = Failed e, report = None, stdout_lines = printed st\<rparr>
           | _ \<Rightarrow> \<lparr>verdict_of = Panicked, report = None, stdout_lines = printed st\<rparr>)
      | (v, st) \<Rightarrow> \<lparr>verdict_of = v, report = None, stdout_lines = printed st\<rparr>)"

section \<open>Specification: what is declared where\<close>

text \<open>The names a syntax tree declares, at any depth, with the kind of the function, and the ones the scanner is
  after.\<close>

datatype fn_kind = Free_Fn | Impl_Method | Trait_Method | Foreign_Fn

inductive declares :: "fn_kind \<Rightarrow> item \<Rightarrow> string \<Rightarrow> bool"
  and impl_declares :: "fn_kind \<Rightarrow> impl_item \<Rightarrow> string \<Rightarrow> bool"
  and trait_declares :: "fn_kind \<Rightarrow> trait_item \<Rightarrow> string \<Rightarrow> bool" where
  decl_fn: "declares Free_Fn (Item_Fn s b) (sig_ident s)"
| decl_body: "i \<in> set b \<Longrightarrow> declares k i n \<Longrightarrow> declares k (Item_Fn s b) n"
| decl_header: "i \<in> set h \<Longrightarrow> declares k i n \<Longrightarrow> declares k (Item_Impl h ms) n"
| decl_impl: "m \<in> set ms \<Longrightarrow> impl_declares k m n \<Longrightarrow> declares k (Item_Impl h ms) n"
| decl_trait_header: "i \<in> set h \<Longrightarrow> declares k i n \<Longrightarrow> declares k (Item_Trait h ts) n"
| decl_trait: "t \<in> set ts \<Longrightarrow> trait_declares k t n \<Longrightarrow> declares k (Item_Trait h ts) n"
| decl_foreign: "s \<in> set ss \<Longrightarrow> declares Foreign_Fn (Item_ForeignMod ss) (sig_ident s)"
| decl_other: "i \<in> set ns \<Longrightarrow> declares k i n \<Longrightarrow> declares k (Item_Other ns) n"
| decl_method: "impl_declares Impl_Method (ImplItem_Fn s b) (sig_ident s)"
| decl_method_body: "i \<in> set b \<Longrightarrow> declares k i n \<Longrightarrow> impl_declares k (ImplItem_Fn s b) n"
| decl_impl_other: "i \<in> set ns \<Longrightarrow> declares k i n \<Longrightarrow> impl_declares k (ImplItem_Other ns) n"
| decl_trait_method: "trait_declares Trait_Method (TraitItem_Fn s b) (sig_ident s)"
| decl_default_body: "i \<in> set b \<Longrightarrow> declares k i n \<Longrightarrow> trait_declares k (TraitItem_Fn s b) n"
| decl_trait_other: "i \<in> set ns \<Longrightarrow> declares k i n \<Longrightarrow> trait_declares k (TraitItem_Other ns) n"

inductive_simps declares_simps [simp]:
  "declares k (Item_Fn s b) n" "declares k (Item_Impl h ms) n" "declares k (Item_Trait h ts) n"
  "declares k (Item_ForeignMod ss) n" "declares k (Item_Other ns) n"

inductive_simps impl_declares_simps [simp]:
  "impl_declares k (ImplItem_Fn s b) n" "impl_declares k (ImplItem_Other ns) n"

inductive_simps trait_declares_simps [simp]:
  "trait_declares k (TraitItem_Fn s b) n" "trait_declares k (TraitItem_Other ns) n"

definition declared :: "fn_kind set \<Rightarrow> item list \<Rightarrow> string set" where
  "declared ks is = {n. \<exists>k \<in> ks. \<exists>i \<in> set is. declares k i n}"

definition unchecked_names :: "item list \<Rightarrow> string set" where
  "unchecked_names is = {n \<in> declared {Free_Fn, Impl_Method} is. str_contains n ''unchecked''}"

fun top_signatures :: "item list \<Rightarrow> signature list" where
  "top_signatures [] = []"
| "top_signatures (Item_Fn s b # is) = s # top_signatures is"
| "top_signatures (Item_Impl h ms # is) =
     List.map_filter (\<lambda>m. case m of ImplItem_Fn s b \<Rightarrow> Some s | _ \<Rightarrow> None) ms @ top_signatures is"
| "top_signatures (Item_Trait h ts # is) = top_signatures is"
| "top_signatures (Item_ForeignMod ss # is) = top_signatures is"
| "top_signatures (Item_Other ns # is) = top_signatures is"

definition file_items :: "environment \<Rightarrow> string \<Rightarrow> item list option" where
  "file_items env f = (case read_to_string env f of Inl _ \<Rightarrow> None
     | Inr t \<Rightarrow> (case parse_file env t of Inl _ \<Rightarrow> None | Inr is \<Rightarrow> Some is))"

text \<open>The Rust sources and the directories below a directory.\<close>

inductive source_below :: "environment \<Rightarrow> string \<Rightarrow> string \<Rightarrow> bool" for env where
  here: "read_dir env d = Inr es \<Longrightarrow> p \<in> set (entry_paths d es) \<Longrightarrow> \<not> is_dir env p
    \<Longrightarrow> path_extension p = Some ''rs'' \<Longrightarrow> source_below env d p"
| deeper: "read_dir env d = Inr es \<Longrightarrow> q \<in> set (entry_paths d es) \<Longrightarrow> is_dir env q
    \<Longrightarrow> source_below env q p \<Longrightarrow> source_below env d p"

inductive dir_below :: "environment \<Rightarrow> string \<Rightarrow> string \<Rightarrow> bool" for env where
  child: "read_dir env d = Inr es \<Longrightarrow> q \<in> set (entry_paths d es) \<Longrightarrow> is_dir env q \<Longrightarrow> dir_below env d q"
| descendant: "read_dir env d = Inr es \<Longrightarrow> q \<in> set (entry_paths d es) \<Longrightarrow> is_dir env q
    \<Longrightarrow> dir_below env q r \<Longrightarrow> dir_below env d r"

inductive_cases source_belowE: "source_below env d p"
inductive_cases dir_belowE: "dir_below env d q"

definition ranked :: "environment \<Rightarrow> (string \<Rightarrow> nat) \<Rightarrow> bool" where
  "ranked env rank \<longleftrightarrow> (\<forall>d es q. read_dir env d = Inr es \<longrightarrow> q \<in> set (entry_paths d es)
     \<longrightarrow> is_dir env q \<longrightarrow> rank q < rank d)"

text \<open>The iteration of a hash set visits its elements, each once.\<close>

definition fair_order :: "environment \<Rightarrow> bool" where
  "fair_order env \<longleftrightarrow> (\<forall>xs. distinct xs \<longrightarrow> distinct (pair_order env xs) \<and> set (pair_order env xs) = set xs)
     \<and> (\<forall>xs. distinct xs \<longrightarrow> distinct (triple_order env xs) \<and> set (triple_order env xs) = set xs)"

section \<open>Lemmas on the visitor\<close>

lemma set_hash_insert [simp]: "set (hash_insert x xs) = insert x (set xs)"
  by (auto simp: hash_insert_def)

lemma distinct_hash_insert [simp]: "distinct (hash_insert x xs) = distinct xs"
  by (auto simp: hash_insert_def)

lemma set_fold_hash_insert [simp]: "set (fold hash_insert xs ys) = set xs \<union> set ys"
  by (induction xs arbitrary: ys) auto

lemma distinct_fold_hash_insert [simp]: "distinct (fold hash_insert xs ys) = distinct ys"
  by (induction xs arbitrary: ys) auto

definition grown :: "function_visitor \<Rightarrow> string set \<Rightarrow> function_visitor \<Rightarrow> bool" where
  "grown v ns v' \<longleftrightarrow> current_file v' = current_file v
     \<and> set (unchecked_functions v') = set (unchecked_functions v)
         \<union> {(current_file v, n) | n. n \<in> ns \<and> str_contains n ''unchecked''}
     \<and> (distinct (unchecked_functions v) \<longrightarrow> distinct (unchecked_functions v'))"

lemma grown_trans: "grown v ns v' \<Longrightarrow> grown v' ms v'' \<Longrightarrow> ns \<union> ms = ks \<Longrightarrow> grown v ks v''"
  by (auto simp: grown_def)

lemma grown_refl: "grown v {} v"
  by (simp add: grown_def)

lemma grown_record_fn: "grown v {n} (record_fn n v)"
  by (auto simp: grown_def record_fn_def)

fun impl_body :: "impl_item \<Rightarrow> item list" where
  "impl_body (ImplItem_Fn s b) = b"
| "impl_body (ImplItem_Other ns) = ns"

fun trait_body :: "trait_item \<Rightarrow> item list" where
  "trait_body (TraitItem_Fn s b) = b"
| "trait_body (TraitItem_Other ns) = ns"

abbreviation collected :: "item list \<Rightarrow> string set" where
  "collected \<equiv> declared {Free_Fn, Impl_Method}"

lemma declared_simps [simp]: "declared ks [] = {}" "declared ks (is @ js) = declared ks is \<union> declared ks js"
  by (auto simp: declared_def)

lemma collected_item:
  "collected [Item_Fn s b] = insert (sig_ident s) (collected b)"
  "collected [Item_Impl h ms] = {n. \<exists>m \<in> set ms. \<exists>s b. m = ImplItem_Fn s b \<and> n = sig_ident s} \<union> collected h \<union> collected (concat (map impl_body ms))"
  "collected [Item_Trait h ts] = collected h \<union> collected (concat (map trait_body ts))"
  "collected [Item_ForeignMod ss] = {}" "collected [Item_Other ns] = collected ns"
proof -
  have m: "impl_declares k m n \<longleftrightarrow> (\<exists>s b. m = ImplItem_Fn s b \<and> k = Impl_Method \<and> n = sig_ident s) \<or> (\<exists>i \<in> set (impl_body m). declares k i n)" for k m n
    by (cases m) auto
  have t: "trait_declares k t n \<longleftrightarrow> (\<exists>s b. t = TraitItem_Fn s b \<and> k = Trait_Method \<and> n = sig_ident s) \<or> (\<exists>i \<in> set (trait_body t). declares k i n)" for k t n
    by (cases t) auto
  show "collected [Item_Fn s b] = insert (sig_ident s) (collected b)" "collected [Item_ForeignMod ss] = {}" "collected [Item_Other ns] = collected ns"
    by (auto simp: declared_def)
  show "collected [Item_Trait h ts] = collected h \<union> collected (concat (map trait_body ts))" by (auto simp: declared_def t)
  show "collected [Item_Impl h ms] = {n. \<exists>m \<in> set ms. \<exists>s b. m = ImplItem_Fn s b \<and> n = sig_ident s} \<union> collected h \<union> collected (concat (map impl_body ms))"
    by (auto simp: declared_def m)
qed

lemma grown_record_methods:
  "grown v {n. \<exists>m \<in> set ms. \<exists>s b. m = ImplItem_Fn s b \<and> n = sig_ident s} (record_methods ms v)"
proof (induction ms v rule: record_methods.induct)
  case (2 s b ms v)
  show ?case unfolding record_methods.simps by (rule grown_trans [OF grown_record_fn 2]) auto
qed (auto simp: grown_refl)

lemma grown_visit:
  "grown v (collected [i]) (visit_item i v)"
  "grown v (collected is) (visit_items is v)"
  "grown v (collected (concat (map impl_body ms))) (visit_impl_items ms v)"
  "grown v (collected (concat (map trait_body ts))) (visit_trait_items ts v)"
proof (induction i v and "is" v and ms v and ts v rule: visit_item_visit_items_visit_impl_items_visit_trait_items.induct)
  case (1 s body v)
  show ?case unfolding visit_item.simps by (rule grown_trans [OF grown_record_fn 1]) (simp add: collected_item)
next
  case (2 hdr ms v)
  show ?case unfolding visit_item.simps
    by (rule grown_trans [OF grown_trans [OF grown_record_methods 2(1) refl] 2(2)]) (simp add: collected_item)
next
  case (3 hdr ts v)
  show ?case unfolding visit_item.simps by (rule grown_trans [OF 3]) (simp add: collected_item)
next
  case (5 ns v)
  then show ?case by (simp add: collected_item)
next
  case (7 i "is" v)
  show ?case unfolding visit_items.simps by (rule grown_trans [OF 7]) (auto simp: declared_def)
next
  case (9 s body ms v)
  show ?case unfolding visit_impl_items.simps by (rule grown_trans [OF 9]) simp
next
  case (10 ns ms v)
  show ?case unfolding visit_impl_items.simps by (rule grown_trans [OF 10]) simp
next
  case (12 s body ts v)
  show ?case unfolding visit_trait_items.simps by (rule grown_trans [OF 12]) simp
next
  case (13 ns ts v)
  show ?case unfolding visit_trait_items.simps by (rule grown_trans [OF 13]) simp
qed (auto simp: grown_refl collected_item)

lemma visit_items_exact:
  fixes items :: "item list" and fp :: string
  defines "v \<equiv> visit_items items \<lparr>unchecked_functions = [], current_file = fp\<rparr>"
  shows "set (unchecked_functions v) = {fp} \<times> unchecked_names items" "distinct (unchecked_functions v)"
  using grown_visit(2) [of "\<lparr>unchecked_functions = [], current_file = fp\<rparr>" items]
  by (auto simp: grown_def v_def unchecked_names_def)

section \<open>Lemmas on the walk\<close>

lemma os_str_display_total: "\<exists>r. os_str_display v = Ret r"
  using utf8_chunks_spec lossy_display_eq(2) by blast

lemma path_display_total: "\<exists>f. path_display p = Ret f"
  using os_str_display_total [of "bytes_of p"] by (auto simp: path_display_def)

lemma process_file_items:
  "process_file env f st = (case file_items env f of
      None \<Rightarrow> (fst (process_file env f st), st)
    | Some is \<Rightarrow> (Done, snd (process_file env f st)))"
  "fst (process_file env f st) = Done \<longleftrightarrow> file_items env f \<noteq> None"
  "fst (process_file env f st) \<noteq> Out_Of_Fuel"
  by (auto simp: process_file_def file_items_def Let_def split: sum.splits)

lemma process_file_found:
  assumes "fair_order env" "file_items env f = Some is"
  shows "set (found (snd (process_file env f st))) = set (found st) \<union> {f} \<times> unchecked_names is"
    and "distinct (found (snd (process_file env f st))) = distinct (found st)"
  using assms visit_items_exact [of "is" f]
  by (auto simp: process_file_def file_items_def Let_def fair_order_def split: sum.splits)

text \<open>What a successful walk has found below a directory, and when it succeeds.\<close>

definition found_below :: "environment \<Rightarrow> string \<Rightarrow> (string \<times> string) set" where
  "found_below env d = {(f, n). \<exists>p is. source_below env d p \<and> path_display p = Ret f
     \<and> file_items env f = Some is \<and> n \<in> unchecked_names is}"

definition readable_source :: "environment \<Rightarrow> string \<Rightarrow> bool" where
  "readable_source env p \<longleftrightarrow> (\<exists>f is. path_display p = Ret f \<and> file_items env f = Some is)"

definition listable :: "environment \<Rightarrow> string \<Rightarrow> bool" where
  "listable env q \<longleftrightarrow> (\<exists>es. read_dir env q = Inr es)"

definition scannable :: "environment \<Rightarrow> string \<Rightarrow> bool" where
  "scannable env d \<longleftrightarrow> listable env d \<and> (\<forall>p. source_below env d p \<longrightarrow> readable_source env p)
     \<and> (\<forall>q. dir_below env d q \<longrightarrow> listable env q \<and> is_utf8 (bytes_of q))"

lemma process_path_source:
  assumes "\<not> is_dir env p" "path_extension p = Some ''rs''" "path_display p = Ret f"
  shows "process_path descend env p st =
    process_file env f (st\<lparr>printed := printed st @ [''Processing file: '' @ f]\<rparr>)"
  using assms by (simp add: process_path_def)

lemma source_below_iff:
  assumes "read_dir env d = Inr es"
  shows "source_below env d p \<longleftrightarrow> (p \<in> set (entry_paths d es) \<and> \<not> is_dir env p \<and> path_extension p = Some ''rs'')
      \<or> (\<exists>q \<in> set (entry_paths d es). is_dir env q \<and> source_below env q p)"
  using assms by (auto elim: source_belowE intro: here deeper)

lemma dir_below_iff:
  assumes "read_dir env d = Inr es"
  shows "dir_below env d r \<longleftrightarrow> (\<exists>q \<in> set (entry_paths d es). is_dir env q \<and> (r = q \<or> dir_below env q r))"
proof
  show "dir_below env d r \<Longrightarrow> \<exists>q \<in> set (entry_paths d es). is_dir env q \<and> (r = q \<or> dir_below env q r)"
    by (erule dir_belowE) (use assms in auto)
qed (use assms in \<open>auto intro: child descendant\<close>)

text \<open>The same for one entry of a listing.\<close>

definition entry_ok :: "environment \<Rightarrow> string \<Rightarrow> bool" where
  "entry_ok env p \<longleftrightarrow> (if is_dir env p then is_utf8 (bytes_of p) \<and> scannable env p
     else path_extension p = Some ''rs'' \<longrightarrow> readable_source env p)"

definition entry_found :: "environment \<Rightarrow> string \<Rightarrow> (string \<times> string) set" where
  "entry_found env p = (if is_dir env p then found_below env p
     else if path_extension p = Some ''rs'' then
       {(f, n). \<exists>is. path_display p = Ret f \<and> file_items env f = Some is \<and> n \<in> unchecked_names is}
     else {})"

lemma scannable_entries:
  "read_dir env d = Inr es \<Longrightarrow> scannable env d \<longleftrightarrow> (\<forall>p \<in> set (entry_paths d es). entry_ok env p)"
  unfolding scannable_def entry_ok_def source_below_iff dir_below_iff
  by (auto simp: listable_def)

lemma found_below_entries:
  "read_dir env d = Inr es \<Longrightarrow> found_below env d = (\<Union>p \<in> set (entry_paths d es). entry_found env p)"
  unfolding found_below_def entry_found_def source_below_iff by (auto split: if_splits)

text \<open>The contract of a recursive call: it keeps the set free of repetition and, when it succeeds,
  has found what is below the directory.\<close>

definition walks :: "environment \<Rightarrow> string \<Rightarrow> scan_state \<Rightarrow> verdict \<times> scan_state \<Rightarrow> bool" where
  "walks env q st r \<longleftrightarrow> (fst r = Done \<longrightarrow> scannable env q
     \<and> set (found (snd r)) = set (found st) \<union> found_below env q
     \<and> distinct (found (snd r)) = distinct (found st))"

lemma process_path_done:
  assumes "fair_order env" and "is_dir env p \<Longrightarrow> walks env p st (descend p st)"
    and "process_path descend env p st = (Done, st')"
  shows "entry_ok env p \<and> set (found st') = set (found st) \<union> entry_found env p
    \<and> distinct (found st') = distinct (found st)"
proof -
  obtain f where f: "path_display p = Ret f" using path_display_total by blast
  consider (dir) "is_dir env p" | (src) "\<not> is_dir env p" "path_extension p = Some ''rs''"
    | (skip) "\<not> is_dir env p" "path_extension p \<noteq> Some ''rs''" by blast
  then show ?thesis
  proof cases
    case dir
    then have "is_utf8 (bytes_of p)" and d: "descend p st = (Done, st')" using assms(3)
      by (simp_all add: process_path_def to_str_unwrap_def split: if_splits)
    with dir show ?thesis using assms(2) by (simp add: walks_def entry_ok_def entry_found_def)
  next
    case src
    let ?st = "st\<lparr>printed := printed st @ [''Processing file: '' @ f]\<rparr>"
    have e: "process_file env f ?st = (Done, st')" using assms(3) process_path_source [OF src f] by simp
    then obtain "is" where "is": "file_items env f = Some is"
      using process_file_items(2) [of env f ?st] by auto
    have "entry_found env p = {f} \<times> unchecked_names is" using src f "is" by (auto simp: entry_found_def)
    moreover have "entry_ok env p" using src f "is" by (simp add: entry_ok_def readable_source_def)
    ultimately show ?thesis using process_file_found [OF assms(1) "is", of ?st] e by simp
  next
    case skip
    then show ?thesis using assms(3)
      by (auto simp: process_path_def entry_ok_def entry_found_def split: option.splits if_splits)
  qed
qed

lemma process_paths_done:
  assumes "fair_order env" and "\<And>q st. is_dir env q \<Longrightarrow> walks env q st (descend q st)"
  shows "process_paths descend env ps st = (Done, st') \<Longrightarrow>
    (\<forall>p \<in> set ps. entry_ok env p) \<and> set (found st') = set (found st) \<union> (\<Union>p \<in> set ps. entry_found env p)
    \<and> distinct (found st') = distinct (found st)"
proof (induction ps arbitrary: st)
  case (Cons p ps)
  then obtain st1 where p: "process_path descend env p st = (Done, st1)"
    and ps: "process_paths descend env ps st1 = (Done, st')"
    by (auto split: prod.splits verdict.splits)
  show ?case using process_path_done [OF assms(1) assms(2) p] Cons.IH [OF ps] by auto
qed simp

lemma process_directory_walks:
  assumes "fair_order env"
  shows "walks env d st (process_directory fuel env d st)"
proof (induction fuel arbitrary: d st)
  case (Suc fuel)
  show ?case
  proof (cases "read_dir env d")
    case (Inr es)
    have "walks env d st r" if r: "process_paths (process_directory fuel env) env (entry_paths d es) st = r" for r
    proof (cases "fst r = Done")
      case True
      then show ?thesis using process_paths_done [OF assms Suc, of "entry_paths d es" st "snd r"] r
        unfolding walks_def scannable_entries [OF Inr] found_below_entries [OF Inr] by (metis prod.collapse)
    qed (simp add: walks_def)
    with Inr show ?thesis by simp
  qed (simp add: walks_def)
qed (simp add: walks_def)

section \<open>Termination of the walk\<close>

lemma process_path_complete:
  assumes "entry_ok env p" and "is_dir env p \<Longrightarrow> scannable env p \<Longrightarrow> fst (descend p st) = Done"
  shows "fst (process_path descend env p st) = Done"
proof -
  obtain f where f: "path_display p = Ret f" using path_display_total by blast
  then show ?thesis using assms process_file_items(2) [of env f]
    by (auto simp: process_path_def entry_ok_def to_str_unwrap_def readable_source_def split: option.splits)
qed

lemma process_paths_complete:
  assumes "\<And>p. p \<in> set ps \<Longrightarrow> entry_ok env p"
    and "\<And>p st. p \<in> set ps \<Longrightarrow> is_dir env p \<Longrightarrow> scannable env p \<Longrightarrow> fst (descend p st) = Done"
  shows "fst (process_paths descend env ps st) = Done"
  using assms
proof (induction ps arbitrary: st)
  case (Cons p ps)
  have "fst (process_path descend env p st) = Done" using Cons.prems by (intro process_path_complete) auto
  moreover have "fst (process_paths descend env ps (snd (process_path descend env p st))) = Done"
    using Cons.prems by (intro Cons.IH) auto
  ultimately show ?case by (auto split: prod.splits verdict.splits)
qed simp

lemma process_paths_cong_fuel:
  assumes "\<And>p st. p \<in> set ps \<Longrightarrow> is_dir env p \<Longrightarrow> descend p st = descend' p st \<and> fst (descend p st) \<noteq> Out_Of_Fuel"
  shows "process_paths descend env ps st = process_paths descend' env ps st
    \<and> fst (process_paths descend env ps st) \<noteq> Out_Of_Fuel"
  using assms
proof (induction ps arbitrary: st)
  case (Cons p ps)
  have "process_path descend env p st = process_path descend' env p st
      \<and> fst (process_path descend env p st) \<noteq> Out_Of_Fuel"
    using Cons.prems [of p st] process_file_items(3)
    by (auto simp: process_path_def to_str_unwrap_def split: outcome.splits option.splits)
  moreover have "process_paths descend env ps st' = process_paths descend' env ps st'
      \<and> fst (process_paths descend env ps st') \<noteq> Out_Of_Fuel" for st'
    by (rule Cons.IH, rule Cons.prems) simp_all
  ultimately show ?case by (simp split: prod.splits verdict.splits) (metis fst_conv)
qed simp

lemma process_directory_fuel:
  assumes "ranked env rank" and "rank d < fuel"
  shows "process_directory fuel env d st = process_directory (Suc (rank d)) env d st
    \<and> fst (process_directory fuel env d st) \<noteq> Out_Of_Fuel"
  using assms(2)
proof (induction "rank d" arbitrary: d fuel st rule: less_induct)
  case less
  obtain k where k: "fuel = Suc k" "rank d \<le> k" using less.prems by (cases fuel) auto
  show ?case
  proof (cases "read_dir env d")
    case (Inr es)
    have "process_directory k env q st = process_directory (rank d) env q st
        \<and> fst (process_directory k env q st) \<noteq> Out_Of_Fuel"
      if "q \<in> set (entry_paths d es)" "is_dir env q" for q st
    proof -
      have "rank q < rank d" using assms(1) Inr that by (auto simp: ranked_def)
      with less.hyps [of q "rank d" st] less.hyps [of q k st] k(2) show ?thesis by auto
    qed
    from process_paths_cong_fuel [of "entry_paths d es" env "process_directory k env" _ st, OF this]
    show ?thesis using Inr k by (simp; metis)
  qed (simp add: k)
qed

lemma process_directory_complete:
  assumes "ranked env rank" and "rank d < fuel" and "scannable env d"
  shows "fst (process_directory fuel env d st) = Done"
  using assms(2,3)
proof (induction fuel arbitrary: d st)
  case (Suc fuel)
  then obtain es where es: "read_dir env d = Inr es" by (auto simp: scannable_def listable_def)
  have "rank q < fuel" if "q \<in> set (entry_paths d es)" "is_dir env q" for q
    using assms(1) es that Suc.prems(1) unfolding ranked_def by (metis less_Suc_eq_le order_less_le_trans)
  with Suc es show ?case using scannable_entries [OF es]
    by (auto intro!: process_paths_complete)
qed simp

section \<open>Lemmas on the search for safe versions\<close>

lemma search_impl_spec:
  fixes ms :: "impl_item list"
  defines "sigs \<equiv> List.map_filter (\<lambda>m. case m of ImplItem_Fn s b \<Rightarrow> Some s | _ \<Rightarrow> None) ms"
  shows "search_impl n ms (fd, sf) = (case find (\<lambda>s. sig_ident s = n) sigs of
      None \<Rightarrow> (fd, sf) | Some s \<Rightarrow> (True, sf \<and> \<not> sig_unsafety s))"
  unfolding sigs_def
  by (induction n ms "(fd, sf)" rule: search_impl.induct) (auto simp: map_filter_simps)

lemma search_impl_fst: "fst (search_impl n ms acc) \<longleftrightarrow> fst acc \<or> (\<exists>s \<in> set (top_signatures [Item_Impl h ms]). sig_ident s = n)"
  by (cases acc) (auto simp: search_impl_spec find_None_iff find_Some_iff split: option.splits)

lemma search_items_fst:
  "fst (search_items n items acc) \<longleftrightarrow> fst acc \<or> (\<exists>s \<in> set (top_signatures items). sig_ident s = n)"
  by (induction n items acc rule: search_items.induct)
    (auto simp: search_impl_fst [of _ _ _ "[]"])

lemma search_impl_snd:
  "snd (search_impl n ms acc) \<Longrightarrow> snd acc"
  "\<forall>s \<in> set (top_signatures [Item_Impl h ms]). sig_ident s = n \<longrightarrow> \<not> sig_unsafety s
    \<Longrightarrow> snd (search_impl n ms acc) = snd acc"
  "\<forall>s \<in> set (top_signatures [Item_Impl h ms]). sig_ident s = n \<longrightarrow> sig_unsafety s
    \<Longrightarrow> fst acc \<longrightarrow> \<not> snd acc \<Longrightarrow> fst (search_impl n ms acc) \<longrightarrow> \<not> snd (search_impl n ms acc)"
  by (cases acc; auto simp: search_impl_spec find_None_iff find_Some_iff split: option.splits)+

lemma search_items_snd:
  "\<forall>s \<in> set (top_signatures items). sig_ident s = n \<longrightarrow> \<not> sig_unsafety s
    \<Longrightarrow> snd (search_items n items acc) = snd acc"
  "\<forall>s \<in> set (top_signatures items). sig_ident s = n \<longrightarrow> sig_unsafety s
    \<Longrightarrow> fst acc \<longrightarrow> \<not> snd acc \<Longrightarrow> fst (search_items n items acc) \<longrightarrow> \<not> snd (search_items n items acc)"
proof -
  show "snd (search_items n items acc) = snd acc"
    if "\<forall>s \<in> set (top_signatures items). sig_ident s = n \<longrightarrow> \<not> sig_unsafety s"
    using that
  proof (induction n items acc rule: search_items.induct)
    case (3 n hdr ms "is" acc)
    then show ?case using search_impl_snd(2) [of "[]" ms n acc] by auto
  qed auto
  show "fst (search_items n items acc) \<longrightarrow> \<not> snd (search_items n items acc)"
    if "\<forall>s \<in> set (top_signatures items). sig_ident s = n \<longrightarrow> sig_unsafety s" "fst acc \<longrightarrow> \<not> snd acc"
    using that
  proof (induction n items acc rule: search_items.induct)
    case (3 n hdr ms "is" acc)
    then show ?case using search_impl_snd(3) [of "[]" ms n acc] by auto
  qed auto
qed

text \<open>The third column of the report as a function of the file's items and the function's name.\<close>

definition safe_name :: "string \<Rightarrow> string" where
  "safe_name n = replace_spec ''_unchecked'' [] n"

definition safe_column :: "item list \<Rightarrow> string \<Rightarrow> string" where
  "safe_column items n = safe_entry (safe_name n) (search_items (safe_name n) items (False, True))"

lemma check_loop_spec:
  assumes "\<forall>(f, n) \<in> set fs. file_items env f \<noteq> None"
  shows "check_loop env fs results = Ret (Inr (fold hash_insert
    (map (\<lambda>(f, n). (f, n, safe_column (the (file_items env f)) n)) fs) results))"
  using assms
proof (induction env fs results rule: check_loop.induct)
  case (2 env f n fs results)
  then obtain t "is" where "read_to_string env f = Inr t" "parse_file env t = Inr is"
    by (auto simp: file_items_def split: sum.splits)
  with 2 show ?case by (simp add: str_replace_spec safe_column_def safe_name_def file_items_def)
qed simp

lemma check_loop_error:
  assumes "(f, n) \<in> set fs" "file_items env f = None"
  shows "\<exists>e. check_loop env fs results = Ret (Inl e)"
  using assms(1)
proof (induction fs arbitrary: results)
  case (Cons x fs)
  obtain g m where x: "x = (g, m)" by (cases x)
  show ?case
  proof (cases "file_items env g")
    case None
    then show ?thesis by (auto simp: x str_replace_spec file_items_def split: sum.splits)
  next
    case (Some items)
    then have "(f, n) \<in> set fs" using Cons.prems x assms(2) by auto
    from Cons.IH [OF this] show ?thesis using Some
      by (auto simp: x str_replace_spec file_items_def split: sum.splits)
  qed
qed simp

lemma check_exact:
  assumes "fair_order env" "distinct fs" "\<forall>(f, n) \<in> set fs. file_items env f \<noteq> None"
  obtains rs where "check_for_safe_versions env fs = Ret (Inr rs)" "distinct rs"
    "set rs = (\<lambda>(f, n). (f, n, safe_column (the (file_items env f)) n)) ` set fs"
proof -
  have "set (pair_order env fs) = set fs" using assms(1,2) by (auto simp: fair_order_def)
  with assms(3) show ?thesis using that check_loop_spec [of "pair_order env fs" env "[]"]
    by (simp add: check_for_safe_versions_def)
qed

section \<open>Lemmas on the report\<close>

lemma fold_max_ge: "(m :: nat) \<le> fold max xs m" "x \<in> set xs \<Longrightarrow> x \<le> fold max xs m"
  by (induction xs arbitrary: m) (auto intro: order_trans [OF max.cobounded1] order_trans [OF max.cobounded2])

lemma max_len_ge: "s \<in> set ss \<Longrightarrow> length s \<le> max_len ss"
  by (auto simp: max_len_def intro: fold_max_ge(2))

lemma starts_char_ascii: "starts_char CHR '' ''" "starts_char CHR ''-''"
  by code_simp+

lemma chars_count_field:
  "starts_char fill \<Longrightarrow> chars_count (field fill al w s) = max w (chars_count s)"
  by (simp add: field_def pad_chars_count)

lemma field_wide: "length s \<le> w \<Longrightarrow> chars_count (field CHR '' '' al (w + 2) s) = w + 2"
  using chars_count_le_length [of s] by (simp add: chars_count_field starts_char_ascii)

lemma chars_count_bars: "chars_count ''| '' = 2" "chars_count '' | '' = 3" "chars_count '' |'' = 2" "chars_count ''|'' = 1"
  by code_simp+

lemma chars_count_table_row:
  "length x \<le> a \<Longrightarrow> length y \<le> b \<Longrightarrow> length z \<le> c
    \<Longrightarrow> chars_count (table_row (a + 2) (b + 2) (c + 2) (x, y, z)) = a + b + c + 16"
  by (simp add: table_row_def field_wide chars_count_bars del: append.simps add_2_eq_Suc')

lemma chars_count_table_separator: "chars_count (table_separator a b c) = a + b + c + 4"
proof -
  have "chars_count [] = 0" by (simp add: chars_count_def)
  then show ?thesis
    by (simp add: table_separator_def chars_count_field starts_char_ascii chars_count_bars del: append.simps)
qed

lemma write_lines_done: "write_lines env i ls = (Done, out) \<Longrightarrow> out = ls"
  by (induction env i ls arbitrary: out rule: write_lines.induct) (auto split: option.splits prod.splits)

section \<open>Properties\<close>

text \<open>C2: the visitor collects exactly the free functions and the methods of implementation blocks whose name contains
  \<open>unchecked\<close>, at any depth of the file, each name once and under the file's path. A name that only methods
  of traits or foreign functions have is not collected.\<close>

theorem visitor_exact:
  "set (unchecked_functions (visit_items items \<lparr>unchecked_functions = [], current_file = path\<rparr>))
     = {(path, n) | n. n \<in> declared {Free_Fn, Impl_Method} items \<and> str_contains n ''unchecked''}
   \<and> distinct (unchecked_functions (visit_items items \<lparr>unchecked_functions = [], current_file = path\<rparr>))
   \<and> (n \<in> declared {Trait_Method, Foreign_Fn} items - declared {Free_Fn, Impl_Method} items
       \<longrightarrow> (path, n) \<notin> set (unchecked_functions (visit_items items \<lparr>unchecked_functions = [], current_file = path\<rparr>)))"
  using visit_items_exact [of items path] by (auto simp: unchecked_names_def)

text \<open>A trait with a method, as \<open>Iterator\<close> has.\<close>

theorem visitor_exact_witness:
  "''__iterator_get_unchecked'' \<in> declared {Trait_Method, Foreign_Fn}
       [Item_Trait [] [TraitItem_Fn \<lparr>sig_ident = ''__iterator_get_unchecked'', sig_unsafety = True\<rparr> []]]
   \<and> (''f.rs'', ''__iterator_get_unchecked'') \<notin> set (unchecked_functions (visit_items
       [Item_Trait [] [TraitItem_Fn \<lparr>sig_ident = ''__iterator_get_unchecked'', sig_unsafety = True\<rparr> []]]
       \<lparr>unchecked_functions = [], current_file = ''f.rs''\<rparr>))"
proof -
  let ?is = "[Item_Trait [] [TraitItem_Fn \<lparr>sig_ident = ''__iterator_get_unchecked'', sig_unsafety = True\<rparr> []]]"
  have "''__iterator_get_unchecked'' \<in> declared {Trait_Method, Foreign_Fn} ?is - declared {Free_Fn, Impl_Method} ?is"
    by (simp add: declared_def)
  then show ?thesis using visitor_exact [of ?is "''f.rs''" "''__iterator_get_unchecked''"] by blast
qed

definition demo_env :: environment where
  "demo_env = \<lparr>
     read_dir = (\<lambda>d. if d = ''library'' then Inr [Inr ''a.rs'', Inl (Io_Error 5), Inr ''sub'', Inr ''x.md'']
                    else if d = ''library/sub'' then Inr [Inr ''b.rs''] else Inl (Io_Error 2)),
     is_dir = (\<lambda>p. p = ''library/sub''),
     read_to_string = (\<lambda>p. Inr p),
     parse_file = (\<lambda>t. if t = ''library/a.rs''
        then Inr [Item_Fn \<lparr>sig_ident = ''get'', sig_unsafety = False\<rparr> [],
                  Item_Impl [] [ImplItem_Fn \<lparr>sig_ident = ''get_unchecked'', sig_unsafety = True\<rparr> []]]
        else Inr [Item_Other [Item_Fn \<lparr>sig_ident = ''set_unchecked'', sig_unsafety = True\<rparr> []]]),
     pair_order = rev, triple_order = (\<lambda>xs. xs), create_file = None, write_line = (\<lambda>_. None)\<rparr>"

lemma demo_ranked: "ranked demo_env (\<lambda>d. if d = ''library'' then 1 else 0)"
  by (auto simp: ranked_def demo_env_def entry_paths_def map_filter_simps path_join_def)

lemma demo_fair: "fair_order demo_env"
  by (simp add: fair_order_def demo_env_def)

lemma demo_walk:
  "process_directory 2 demo_env ''library'' \<lparr>found = [], printed = []\<rparr>
   = (Done, \<lparr>found = [(''library/a.rs'', ''get_unchecked''), (''library/sub/b.rs'', ''set_unchecked'')],
       printed = [''Processing file: library/a.rs'', ''Processing file: library/sub/b.rs'']\<rparr>)"
  by code_simp

text \<open>C3: on a directory tree without cycles (every subdirectory has a smaller rank) the recursive
  walk ends: more fuel than the rank changes nothing and is never used up, and the walk succeeds
  exactly when every directory below can be listed and has a UTF-8 path and every Rust source below
  can be read and parsed. A successful walk adds to the shared set exactly the unchecked functions of the Rust
  sources below the directory, each once, whatever the iteration order of the hash sets.\<close>

theorem walk_exact:
  assumes "ranked env rank" and "rank d < fuel" and "fair_order env"
  shows "process_directory fuel env d st = process_directory (Suc (rank d)) env d st
    \<and> fst (process_directory fuel env d st) \<noteq> Out_Of_Fuel
    \<and> (fst (process_directory fuel env d st) = Done \<longleftrightarrow> scannable env d)
    \<and> (\<forall>st'. process_directory k env d st = (Done, st') \<longrightarrow>
         set (found st') = set (found st) \<union> found_below env d \<and> (distinct (found st) \<longrightarrow> distinct (found st')))"
proof -
  have "set (found st') = set (found st) \<union> found_below env d \<and> (distinct (found st) \<longrightarrow> distinct (found st'))"
    if "process_directory k env d st = (Done, st')" for st'
    using process_directory_walks [OF assms(3), of d st k] that by (simp add: walks_def)
  then show ?thesis using process_directory_fuel [OF assms(1,2), of st] process_directory_complete [OF assms(1,2), of st]
      process_directory_walks [OF assms(3), of d st fuel] unfolding walks_def by blast
qed

theorem walk_exact_witness:
  "{(''library/a.rs'', ''get_unchecked''), (''library/sub/b.rs'', ''set_unchecked'')} = found_below demo_env ''library''
   \<and> fst (process_directory 9 demo_env ''library'' \<lparr>found = [], printed = []\<rparr>) \<noteq> Out_Of_Fuel
   \<and> scannable demo_env ''library''"
proof -
  have "(if ''library'' = ''library'' then 1 else 0) < (9 :: nat)" by simp
  note w = walk_exact [OF demo_ranked this demo_fair, of "\<lparr>found = [], printed = []\<rparr>" 2]
  have r: "process_directory 9 demo_env ''library'' \<lparr>found = [], printed = []\<rparr>
      = process_directory 2 demo_env ''library'' \<lparr>found = [], printed = []\<rparr>" using w by (simp add: numeral_2_eq_2 del: process_directory.simps)
  have "fst (process_directory 9 demo_env ''library'' \<lparr>found = [], printed = []\<rparr>) = Done" unfolding r demo_walk by simp
  with w have "scannable demo_env ''library''"
    "fst (process_directory 9 demo_env ''library'' \<lparr>found = [], printed = []\<rparr>) \<noteq> Out_Of_Fuel" by blast+
  moreover have "{(''library/a.rs'', ''get_unchecked''), (''library/sub/b.rs'', ''set_unchecked'')} = found_below demo_env ''library''"
    using w demo_walk by (simp del: process_directory.simps)
  ultimately show ?thesis by blast
qed

text \<open>C4: once every collected file can be read and parsed, \<open>check_for_safe_versions\<close> returns one
  entry per collected function, whose third column depends only on the file's items and the name,
  never on the iteration order; a file that cannot be read or parsed any more is an error.\<close>

theorem check_for_safe_versions_exact:
  assumes "fair_order env" and "distinct fs"
  shows "((\<forall>x \<in> set fs. file_items env (fst x) \<noteq> None) \<longrightarrow>
      (\<exists>rs. check_for_safe_versions env fs = Ret (Inr rs) \<and> distinct rs
        \<and> set rs = (\<lambda>(f, n). (f, n, safe_column (the (file_items env f)) n)) ` set fs))
    \<and> ((\<exists>x \<in> set fs. file_items env (fst x) = None) \<longrightarrow> (\<exists>e. check_for_safe_versions env fs = Ret (Inl e)))"
proof (intro conjI impI)
  assume "\<forall>x \<in> set fs. file_items env (fst x) \<noteq> None"
  then have "\<forall>(f, n) \<in> set fs. file_items env f \<noteq> None" by force
  then show "\<exists>rs. check_for_safe_versions env fs = Ret (Inr rs) \<and> distinct rs
      \<and> set rs = (\<lambda>(f, n). (f, n, safe_column (the (file_items env f)) n)) ` set fs"
    by (rule check_exact [OF assms]) blast
next
  assume "\<exists>x \<in> set fs. file_items env (fst x) = None"
  then obtain f n where "(f, n) \<in> set fs" "file_items env f = None" by auto
  moreover have "set (pair_order env fs) = set fs" using assms by (auto simp: fair_order_def)
  ultimately show "\<exists>e. check_for_safe_versions env fs = Ret (Inl e)"
    unfolding check_for_safe_versions_def by (metis check_loop_error)
qed

theorem check_for_safe_versions_exact_witness:
  "\<exists>rs. check_for_safe_versions demo_env [(''library/a.rs'', ''get_unchecked'')] = Ret (Inr rs) \<and> distinct rs
     \<and> set rs = {(''library/a.rs'', ''get_unchecked'', ''get'')}"
proof -
  have "\<forall>x \<in> set [(''library/a.rs'', ''get_unchecked'')]. file_items demo_env (fst x) \<noteq> None"
    by (simp add: file_items_def demo_env_def)
  moreover have "safe_column (the (file_items demo_env ''library/a.rs'')) ''get_unchecked'' = ''get''" by code_simp
  ultimately show ?thesis
    using check_for_safe_versions_exact [OF demo_fair, of "[(''library/a.rs'', ''get_unchecked'')]"] by simp
qed

text \<open>C5: what the third column means. If no function or method of the top level of the file has the safe name, it is
  \<open>None\<close>; if some has it, it is the safe name, with the suffix \<open>(unsafe)\<close> or without, so that
  \<open>None\<close> says that there is none unless the safe name is itself \<open>None\<close>. It is the safe name when all
  functions of that name are safe, and has the suffix when all of them are unsafe.\<close>

theorem safe_column_meaning:
  fixes n :: string
  defines "named \<equiv> (\<lambda>items s. s \<in> set (top_signatures items) \<and> sig_ident s = safe_name n)"
  shows "fst (search_items (safe_name n) items (False, True)) = (\<exists>s. named items s)
    \<and> ((\<nexists>s. named items s) \<longrightarrow> safe_column items n = ''None'')
    \<and> ((\<exists>s. named items s) \<longrightarrow> safe_column items n \<in> {safe_name n, safe_name n @ ''(unsafe)''})
    \<and> (safe_name n \<noteq> ''None'' \<longrightarrow> (safe_column items n = ''None'') = (\<nexists>s. named items s))
    \<and> ((\<exists>s. named items s) \<and> (\<forall>s. named items s \<longrightarrow> \<not> sig_unsafety s)
      \<longrightarrow> safe_column items n = safe_name n)
    \<and> ((\<exists>s. named items s) \<and> (\<forall>s. named items s \<longrightarrow> sig_unsafety s)
      \<longrightarrow> safe_column items n = safe_name n @ ''(unsafe)'')"
proof -
  have "length (safe_name n @ ''(unsafe)'') \<noteq> length ''None''" by simp
  then have "safe_name n @ ''(unsafe)'' \<noteq> ''None''" by metis
  then show ?thesis
    using search_items_fst [of "safe_name n" items "(False, True)"] search_items_snd [of items "safe_name n" "(False, True)"]
    unfolding named_def safe_column_def safe_entry_def by (auto simp del: append.simps)
qed

theorem safe_column_meaning_witness:
  "safe_column [Item_Impl [] [ImplItem_Fn \<lparr>sig_ident = ''get'', sig_unsafety = True\<rparr> []]] ''get_unchecked''
     = ''get(unsafe)''"
proof -
  have "safe_name ''get_unchecked'' = ''get''" by code_simp
  then show ?thesis
    using safe_column_meaning [where items = "[Item_Impl [] [ImplItem_Fn \<lparr>sig_ident = ''get'', sig_unsafety = True\<rparr> []]]"
        and n = "''get_unchecked''"] by (simp add: map_filter_simps)
qed

text \<open>A function whose name contains \<open>unchecked\<close> but not \<open>_unchecked\<close> is its own safe
  version.\<close>

theorem prefix_unchecked_is_its_own_safe_version:
  "safe_column [Item_Fn \<lparr>sig_ident = ''unchecked_add'', sig_unsafety = False\<rparr> []] ''unchecked_add'' = ''unchecked_add''"
  by code_simp

text \<open>A safe version that stands beside the unchecked function in a nested module is not seen.\<close>

theorem nested_safe_version_missed:
  "(''f'', ''get_unchecked'') \<in> set (unchecked_functions (visit_items
      [Item_Other [Item_Fn \<lparr>sig_ident = ''get_unchecked'', sig_unsafety = True\<rparr> [],
                   Item_Fn \<lparr>sig_ident = ''get'', sig_unsafety = False\<rparr> []]]
      \<lparr>unchecked_functions = [], current_file = ''f''\<rparr>))
   \<and> safe_column [Item_Other [Item_Fn \<lparr>sig_ident = ''get_unchecked'', sig_unsafety = True\<rparr> [],
                              Item_Fn \<lparr>sig_ident = ''get'', sig_unsafety = False\<rparr> []]] ''get_unchecked'' = ''None''"
  by code_simp

text \<open>C6: the widths of the report. The columns are two characters wider than the longest entry in bytes. All rows of
  entries have the same number of characters, the separator line has six fewer, and the heading is wider than the rows by what
  its titles exceed the columns.\<close>

theorem report_widths:
  assumes "fair_order env" and "distinct rs"
  defines "a \<equiv> max_len (map (\<lambda>(path, _, _). path) rs) + 2" and "b \<equiv> max_len (map (\<lambda>(_, func, _). func) rs) + 2"
    and "c \<equiv> max_len (map (\<lambda>(_, _, safe_func). safe_func) rs) + 2"
  shows "length (report_lines env rs) = length rs + 2
    \<and> chars_count (report_lines env rs ! 0) = max a 9 + max b 18 + max c 13 + 10
    \<and> chars_count (report_lines env rs ! 1) + 6 = a + b + c + 10
    \<and> (\<forall>l \<in> set (drop 2 (report_lines env rs)). chars_count l = a + b + c + 10)"
proof -
  have o: "set (triple_order env rs) = set rs" "length (triple_order env rs) = length rs"
    using assms(1,2) by (auto simp: fair_order_def) (metis distinct_card)
  have r: "chars_count (table_row a b c t) = a + b + c + 10" if "t \<in> set rs" for t
  proof (cases t)
    case (fields x y z)
    have "x \<in> set (map (\<lambda>(path, _, _). path) rs)" "y \<in> set (map (\<lambda>(_, func, _). func) rs)"
      "z \<in> set (map (\<lambda>(_, _, safe_func). safe_func) rs)" using that fields by force+
    from chars_count_table_row [OF this [THEN max_len_ge]] show ?thesis unfolding fields a_def b_def c_def by simp
  qed
  have t: "chars_count ''File Path'' = 9" "chars_count ''Unchecked Function'' = 18" "chars_count ''Safe Function'' = 13" by code_simp+
  have h: "chars_count (table_row a b c (''File Path'', ''Unchecked Function'', ''Safe Function'')) = max a 9 + max b 18 + max c 13 + 10"
    by (simp add: table_row_def chars_count_field starts_char_ascii chars_count_bars t del: append.simps)
  have l: "report_lines env rs = table_row a b c (''File Path'', ''Unchecked Function'', ''Safe Function'') # table_separator a b c
      # map (table_row a b c) (triple_order env rs)"
    by (simp add: report_lines_def Let_def a_def b_def c_def)
  show ?thesis unfolding l using h r o by (simp add: chars_count_table_separator)
qed

theorem report_widths_witness:
  "chars_count (report_lines demo_env [(''p'', ''get_unchecked'', ''get'')] ! 0) = 50
    \<and> chars_count (report_lines demo_env [(''p'', ''get_unchecked'', ''get'')] ! 1) = 27
    \<and> length (report_lines demo_env [(''p'', ''get_unchecked'', ''get'')]) = 3
    \<and> chars_count (drop 2 (report_lines demo_env [(''p'', ''get_unchecked'', ''get'')]) ! 0) = 33"
proof -
  have "drop 2 (report_lines demo_env [(''p'', ''get_unchecked'', ''get'')]) ! 0
      \<in> set (drop 2 (report_lines demo_env [(''p'', ''get_unchecked'', ''get'')]))"
    by (simp add: report_lines_def Let_def demo_env_def)
  then show ?thesis using report_widths [OF demo_fair, of "[(''p'', ''get_unchecked'', ''get'')]"] by (simp add: max_len_def)
qed

lemma found_below_parsed: "(f, n) \<in> found_below env d \<Longrightarrow> file_items env f \<noteq> None"
  by (auto simp: found_below_def)

lemma found_rows:
  "(\<lambda>(f, n). (f, n, safe_column (the (file_items env f)) n)) ` found_below env d
    = {(f, n, safe_column items n) | f n items p. source_below env d p \<and> path_display p = Ret f
        \<and> file_items env f = Some items \<and> n \<in> declared {Free_Fn, Impl_Method} items \<and> str_contains n ''unchecked''}"
proof (intro equalityI subsetI)
  fix x
  assume "x \<in> (\<lambda>(f, n). (f, n, safe_column (the (file_items env f)) n)) ` found_below env d"
  then obtain f n p items where "x = (f, n, safe_column items n)" "source_below env d p" "path_display p = Ret f" "file_items env f = Some items"
    "n \<in> declared {Free_Fn, Impl_Method} items" "str_contains n ''unchecked''" by (auto simp: found_below_def unchecked_names_def)
  then show "x \<in> {(f, n, safe_column items n) | f n items p. source_below env d p \<and> path_display p = Ret f
      \<and> file_items env f = Some items \<and> n \<in> declared {Free_Fn, Impl_Method} items \<and> str_contains n ''unchecked''}" by blast
next
  fix x
  assume "x \<in> {(f, n, safe_column items n) | f n items p. source_below env d p \<and> path_display p = Ret f
      \<and> file_items env f = Some items \<and> n \<in> declared {Free_Fn, Impl_Method} items \<and> str_contains n ''unchecked''}"
  then obtain f n p items where x: "x = (f, n, safe_column items n)" "source_below env d p" "path_display p = Ret f" "file_items env f = Some items"
    "n \<in> declared {Free_Fn, Impl_Method} items" "str_contains n ''unchecked''" by blast
  then have "(f, n) \<in> found_below env d" by (auto simp: found_below_def unchecked_names_def)
  then show "x \<in> (\<lambda>(f, n). (f, n, safe_column (the (file_items env f)) n)) ` found_below env d"
    by (rule rev_image_eqI) (simp add: x)
qed

lemma check_found:
  assumes "fair_order env" "process_directory fuel env d \<lparr>found = [], printed = []\<rparr> = (Done, st)"
  obtains rs where "check_for_safe_versions env (found st) = Ret (Inr rs)" "distinct rs"
    "set rs = (\<lambda>(f, n). (f, n, safe_column (the (file_items env f)) n)) ` found_below env d"
proof -
  have w: "set (found st) = found_below env d" "distinct (found st)"
    using process_directory_walks [OF assms(1), of d "\<lparr>found = [], printed = []\<rparr>" fuel] assms(2)
    by (simp_all add: walks_def)
  then have "\<forall>(f, n) \<in> set (found st). file_items env f \<noteq> None" using found_below_parsed by blast
  from check_exact [OF assms(1) w(2) this] obtain rs
    where "check_for_safe_versions env (found st) = Ret (Inr rs)" "distinct rs"
      "set rs = (\<lambda>(f, n). (f, n, safe_column (the (file_items env f)) n)) ` set (found st)" .
  from that [OF this [unfolded w(1)]] show ?thesis .
qed

text \<open>C1: end to end, a run of the scanner that succeeds leaves a report of a heading, a separator and exactly one row
  for every pair of a file and a name of which a free function or a method of an implementation block in a Rust source below
  \<open>library\<close> has that name and the name contains \<open>unchecked\<close>, with the safe version found for it.
  Functions of one name in one file share a row, and methods of traits and foreign functions have none.\<close>

theorem main_report:
  assumes "fair_order env" and "verdict_of (scanner_main fuel env) = Done"
  shows "\<exists>a b c rs. report (scanner_main fuel env) = Some
      (table_row a b c (''File Path'', ''Unchecked Function'', ''Safe Function'')
       # table_separator a b c # map (table_row a b c) rs)
    \<and> distinct rs
    \<and> set rs = {(f, n, safe_column items n) | f n items p. source_below env ''library'' p \<and> path_display p = Ret f
        \<and> file_items env f = Some items \<and> n \<in> declared {Free_Fn, Impl_Method} items \<and> str_contains n ''unchecked''}"
proof -
  obtain st where st: "process_directory fuel env ''library'' \<lparr>found = [], printed = []\<rparr> = (Done, st)"
    using assms(2) by (auto simp: scanner_main_def split: prod.splits verdict.splits)
  from check_found [OF assms(1) st] obtain rs
    where rs: "check_for_safe_versions env (found st) = Ret (Inr rs)" "distinct rs"
      "set rs = (\<lambda>(f, n). (f, n, safe_column (the (file_items env f)) n)) ` found_below env ''library''" .
  obtain out where out: "write_lines env 0 (report_lines env rs) = (Done, out)"
    and r: "report (scanner_main fuel env) = Some out"
    using assms(2) st rs(1) by (auto simp: scanner_main_def split: prod.splits verdict.splits option.splits)
  have "report (scanner_main fuel env) = Some (report_lines env rs)" using write_lines_done [OF out] r by simp
  moreover have "distinct (triple_order env rs) \<and> set (triple_order env rs) = set rs"
    using assms(1) rs(2) by (simp add: fair_order_def)
  ultimately show ?thesis unfolding report_lines_def Let_def found_rows [symmetric] rs(3) [symmetric] by blast
qed

lemma demo_main_done: "verdict_of (scanner_main 2 demo_env) = Done"
  by code_simp

theorem main_report_witness:
  "\<exists>a b c rs. report (scanner_main 2 demo_env) = Some
      (table_row a b c (''File Path'', ''Unchecked Function'', ''Safe Function'')
       # table_separator a b c # map (table_row a b c) rs)
    \<and> distinct rs
    \<and> set rs = {(f, n, safe_column items n) | f n items p. source_below demo_env ''library'' p \<and> path_display p = Ret f
        \<and> file_items demo_env f = Some items \<and> n \<in> declared {Free_Fn, Impl_Method} items \<and> str_contains n ''unchecked''}"
  by (rule main_report [OF demo_fair demo_main_done])

end
