(* ===== verification/Usize.thy ===== *)
theory Usize
  imports Rust_Prelude
begin

text \<open>
  The arithmetic of \<open>usize\<close> used by the allocation and collection code, on natural numbers below
  \<open>2 ^ 64\<close> with every overflow written out: the checked, wrapping and unchecked operations of
  \<open>library/core/src/num/uint_macros.rs\<close>. An unchecked operation outside its precondition is
  undefined behaviour.
\<close>

definition usize_bound :: nat where
  "usize_bound = 2 ^ 64"

definition isize_bound :: nat where
  "isize_bound = 2 ^ 63"

definition isize_max :: nat where
  "isize_max = isize_bound - 1"

definition usize_checked_add :: "nat \<Rightarrow> nat \<Rightarrow> nat option" where
  "usize_checked_add a b = (if a + b < usize_bound then Some (a + b) else None)"

definition usize_checked_mul :: "nat \<Rightarrow> nat \<Rightarrow> nat option" where
  "usize_checked_mul a b = (if a * b < usize_bound then Some (a * b) else None)"

definition usize_wrapping_add :: "nat \<Rightarrow> nat \<Rightarrow> nat" where
  "usize_wrapping_add a b = (a + b) mod usize_bound"

definition usize_wrapping_sub :: "nat \<Rightarrow> nat \<Rightarrow> nat" where
  "usize_wrapping_sub a b = (a + (usize_bound - b)) mod usize_bound"

definition usize_unchecked_add :: "nat \<Rightarrow> nat \<Rightarrow> nat outcome" where
  "usize_unchecked_add a b = (if a + b < usize_bound then Ret (a + b) else UB)"

definition usize_unchecked_sub :: "nat \<Rightarrow> nat \<Rightarrow> nat outcome" where
  "usize_unchecked_sub a b = (if b \<le> a then Ret (a - b) else UB)"

definition usize_unchecked_mul :: "nat \<Rightarrow> nat \<Rightarrow> nat outcome" where
  "usize_unchecked_mul a b = (if a * b < usize_bound then Ret (a * b) else UB)"

fun count_ones :: "nat \<Rightarrow> nat" where
  "count_ones n = (if n = 0 then 0 else n mod 2 + count_ones (n div 2))"

definition is_power_of_two :: "nat \<Rightarrow> bool" where
  "is_power_of_two n \<longleftrightarrow> count_ones n = 1"

declare count_ones.simps [simp del]

lemma usize_bound_double: "usize_bound = 2 * isize_bound"
  and isize_bound_pos [simp]: "0 < isize_bound"
  by (simp_all add: usize_bound_def isize_bound_def)

lemma count_ones_0 [simp]: "count_ones 0 = 0"
  by (simp add: count_ones.simps)

lemma count_ones_eq_0: "count_ones n = 0 \<longleftrightarrow> n = 0"
proof (induction n rule: count_ones.induct)
  case (1 n)
  show ?case
  proof (cases "n = 0")
    case False
    then have "n mod 2 = 0 \<Longrightarrow> n div 2 \<noteq> 0" by presburger
    with 1 False show ?thesis by (auto simp: count_ones.simps [of n])
  qed simp
qed

lemma is_power_of_two_iff: "is_power_of_two n \<longleftrightarrow> (\<exists>k. n = 2 ^ k)"
  unfolding is_power_of_two_def
proof (induction n rule: count_ones.induct)
  case (1 n)
  show ?case
  proof (cases "n = 0")
    case True
    then show ?thesis by simp
  next
    case False
    show ?thesis
    proof (cases "even n")
      case True
      then have "count_ones n = count_ones (n div 2)" using False by (simp add: count_ones.simps [of n])
      then have "count_ones n = 1 \<longleftrightarrow> (\<exists>k. n div 2 = 2 ^ k)" using 1 False by simp
      also have "\<dots> \<longleftrightarrow> (\<exists>k. n = 2 ^ k)"
      proof
        assume "\<exists>k. n div 2 = 2 ^ k"
        then obtain k where "n div 2 = 2 ^ k" by blast
        then have "n = 2 ^ Suc k" using True by (auto elim!: evenE)
        then show "\<exists>k. n = 2 ^ k" by blast
      next
        assume "\<exists>k. n = 2 ^ k"
        then obtain k where k: "n = 2 ^ k" by blast
        then obtain j where "k = Suc j" using True by (cases k) auto
        with k show "\<exists>k. n div 2 = 2 ^ k" by auto
      qed
      finally show ?thesis .
    next
      case odd: False
      then have "count_ones n = 1 \<longleftrightarrow> n div 2 = 0"
        using False by (simp add: count_ones.simps [of n] count_ones_eq_0 odd_iff_mod_2_eq_one)
      also have "\<dots> \<longleftrightarrow> n = 1" using odd False by presburger
      also have "\<dots> \<longleftrightarrow> (\<exists>k. n = 2 ^ k)"
      proof
        assume "\<exists>k. n = 2 ^ k"
        then obtain k where k: "n = 2 ^ k" by blast
        then have "k = 0" using odd by (cases k) auto
        with k show "n = 1" by simp
      qed (auto intro: exI [of _ 0])
      finally show ?thesis .
    qed
  qed
qed

lemma usize_wrapping_sub_add:
  "a < usize_bound \<Longrightarrow> b \<le> a \<Longrightarrow> usize_wrapping_sub a b = a - b"
  "a < b \<Longrightarrow> b < usize_bound \<Longrightarrow> usize_wrapping_sub a b = usize_bound - (b - a)"
proof -
  show "usize_wrapping_sub a b = a - b" if "a < usize_bound" "b \<le> a"
  proof -
    have e: "a + (usize_bound - b) = (a - b) + usize_bound" using that by simp
    have "a - b < usize_bound" using that by simp
    then show ?thesis unfolding usize_wrapping_sub_def e by simp
  qed
  show "usize_wrapping_sub a b = usize_bound - (b - a)" if "a < b" "b < usize_bound"
    using that by (simp add: usize_wrapping_sub_def)
qed

lemma usize_wrapping_add_small: "a + b < usize_bound \<Longrightarrow> usize_wrapping_add a b = a + b"
  by (simp add: usize_wrapping_add_def)

end
