(* ===== verification/Layout.thy ===== *)
theory Layout
  imports Usize
begin

text \<open>
  Memory layouts, \<open>library/core/src/alloc/layout.rs\<close> and the alignments of
  \<open>library/core/src/ptr/alignment.rs\<close>. A layout is a size and an alignment; every operation below is
  the one of the source, the unchecked additions and the unchecked constructor with their
  preconditions.
\<close>

record layout =
  l_size :: nat
  l_align :: nat

definition alignment_new :: "nat \<Rightarrow> nat option" where
  "alignment_new align = (if is_power_of_two align then Some align else None)"

definition alignment_max :: "nat \<Rightarrow> nat \<Rightarrow> nat" where
  "alignment_max a b = (if a > b then a else b)"

definition max_size_for_align :: "nat \<Rightarrow> nat outcome" where
  "max_size_for_align align = usize_unchecked_sub (isize_max + 1) align"

definition is_size_align_valid :: "nat \<Rightarrow> nat \<Rightarrow> bool outcome" where
  "is_size_align_valid sz align =
     (case alignment_new align of
        None \<Rightarrow> Ret False
      | Some align \<Rightarrow> and_then (max_size_for_align align) (\<lambda>mx. if sz > mx then Ret False else Ret True))"

definition from_size_align :: "nat \<Rightarrow> nat \<Rightarrow> layout option outcome" where
  "from_size_align sz align =
     and_then (is_size_align_valid sz align) (\<lambda>ok.
       if ok then Ret (Some \<lparr>l_size = sz, l_align = align\<rparr>) else Ret None)"

definition from_size_alignment :: "nat \<Rightarrow> nat \<Rightarrow> layout option outcome" where
  "from_size_alignment sz align =
     and_then (max_size_for_align align) (\<lambda>mx.
       if sz > mx then Ret None else Ret (Some \<lparr>l_size = sz, l_align = align\<rparr>))"

definition from_size_align_unchecked :: "nat \<Rightarrow> nat \<Rightarrow> layout outcome" where
  "from_size_align_unchecked sz align =
     and_then (is_size_align_valid sz align) (\<lambda>ok.
       if ok then Ret \<lparr>l_size = sz, l_align = align\<rparr> else UB)"

definition align_to :: "layout \<Rightarrow> nat \<Rightarrow> layout option outcome" where
  "align_to l align =
     (case alignment_new align of
        Some align \<Rightarrow> from_size_alignment (l_size l) (alignment_max (l_align l) align)
      | None \<Rightarrow> Ret None)"

definition size_rounded_up_to_custom_align :: "layout \<Rightarrow> nat \<Rightarrow> nat outcome" where
  "size_rounded_up_to_custom_align l align =
     and_then (usize_unchecked_sub align 1) (\<lambda>align_m1.
     and_then (usize_unchecked_add (l_size l) align_m1) (\<lambda>s.
       Ret (unat ((of_nat s :: usize) AND NOT (of_nat align_m1)))))"

definition padding_needed_for :: "layout \<Rightarrow> nat \<Rightarrow> nat outcome" where
  "padding_needed_for l align =
     (case alignment_new align of
        None \<Rightarrow> Ret (usize_bound - 1)
      | Some align \<Rightarrow>
          and_then (size_rounded_up_to_custom_align l align) (\<lambda>len_rounded_up.
            usize_unchecked_sub len_rounded_up (l_size l)))"

definition pad_to_align :: "layout \<Rightarrow> layout outcome" where
  "pad_to_align l =
     and_then (size_rounded_up_to_custom_align l (l_align l)) (\<lambda>new_size.
       from_size_align_unchecked new_size (l_align l))"

definition repeat_packed :: "layout \<Rightarrow> nat \<Rightarrow> layout option outcome" where
  "repeat_packed l n =
     (case usize_checked_mul (l_size l) n of
        Some sz \<Rightarrow> from_size_alignment sz (l_align l)
      | None \<Rightarrow> Ret None)"

definition layout_repeat :: "layout \<Rightarrow> nat \<Rightarrow> (layout \<times> nat) option outcome" where
  "layout_repeat l n =
     and_then (pad_to_align l) (\<lambda>padded.
     and_then (repeat_packed padded n) (\<lambda>r.
       case r of Some repeated \<Rightarrow> Ret (Some (repeated, l_size padded)) | None \<Rightarrow> Ret None))"

definition layout_extend :: "layout \<Rightarrow> layout \<Rightarrow> (layout \<times> nat) option outcome" where
  "layout_extend l nxt =
     (let new_align = alignment_max (l_align l) (l_align nxt) in
      and_then (size_rounded_up_to_custom_align l (l_align nxt)) (\<lambda>offset.
      and_then (usize_unchecked_add offset (l_size nxt)) (\<lambda>new_size.
      and_then (from_size_alignment new_size new_align) (\<lambda>r.
        case r of Some layout \<Rightarrow> Ret (Some (layout, offset)) | None \<Rightarrow> Ret None))))"

definition extend_packed :: "layout \<Rightarrow> layout \<Rightarrow> layout option outcome" where
  "extend_packed l nxt =
     and_then (usize_unchecked_add (l_size l) (l_size nxt)) (\<lambda>new_size.
       from_size_alignment new_size (l_align l))"

definition layout_array :: "layout \<Rightarrow> nat \<Rightarrow> layout option outcome" where
  "layout_array element n =
     and_then (max_size_for_align (l_align element)) (\<lambda>mx.
       if l_size element \<noteq> 0 \<and> n > mx div l_size element then Ret None
       else and_then (usize_unchecked_mul (l_size element) n) (\<lambda>array_size.
         and_then (from_size_align_unchecked array_size (l_align element)) (\<lambda>l. Ret (Some l))))"

section \<open>The invariant\<close>

text \<open>The alignment is a power of two and the size, rounded up to it, fits \<open>isize\<close>.\<close>

definition layout_ok :: "layout \<Rightarrow> bool" where
  "layout_ok l \<longleftrightarrow> is_power_of_two (l_align l) \<and> l_align l \<le> isize_bound \<and> l_size l \<le> isize_bound - l_align l"

definition rounded_up :: "nat \<Rightarrow> nat \<Rightarrow> nat" where
  "rounded_up sz align = (sz + (align - 1)) div align * align"

lemma pow2_le_half: "is_power_of_two a \<Longrightarrow> a < usize_bound \<Longrightarrow> a \<le> isize_bound"
proof -
  assume "is_power_of_two a" "a < usize_bound"
  then obtain k where k: "a = 2 ^ k" "(2 :: nat) ^ k < 2 ^ 64" by (auto simp: is_power_of_two_iff usize_bound_def)
  then have "k < 64" by (simp only: power_strict_increasing_iff [of 2])
  then have "(2 :: nat) ^ k \<le> 2 ^ 63" by (intro power_increasing) auto
  with k show ?thesis unfolding isize_bound_def by (simp only: k)
qed

lemma pow2_dvd_half: "is_power_of_two a \<Longrightarrow> a \<le> isize_bound \<Longrightarrow> a dvd isize_bound"
proof -
  assume "is_power_of_two a" "a \<le> isize_bound"
  then obtain k where k: "a = 2 ^ k" "(2 :: nat) ^ k \<le> 2 ^ 63"
    unfolding is_power_of_two_iff isize_bound_def by blast
  then have "k \<le> 63" by (simp only: power_increasing_iff [of 2])
  then show ?thesis unfolding k isize_bound_def by (rule le_imp_power_dvd)
qed

lemma max_size_for_align_Ret: "a \<le> isize_bound \<Longrightarrow> max_size_for_align a = Ret (isize_bound - a)"
  by (simp add: max_size_for_align_def usize_unchecked_sub_def isize_max_def)

lemma is_size_align_valid_iff:
  assumes "align < usize_bound"
  shows "is_size_align_valid sz align = Ret (layout_ok \<lparr>l_size = sz, l_align = align\<rparr>)"
  using pow2_le_half [OF _ assms]
  by (auto simp: is_size_align_valid_def alignment_new_def layout_ok_def max_size_for_align_Ret not_le)

lemma from_size_align_exact:
  assumes "align < usize_bound"
  shows "from_size_align sz align =
    Ret (if layout_ok \<lparr>l_size = sz, l_align = align\<rparr> then Some \<lparr>l_size = sz, l_align = align\<rparr> else None)"
    and "from_size_align_unchecked sz align =
    (if layout_ok \<lparr>l_size = sz, l_align = align\<rparr> then Ret \<lparr>l_size = sz, l_align = align\<rparr> else UB)"
  by (simp_all add: from_size_align_def from_size_align_unchecked_def is_size_align_valid_iff [OF assms])

lemma from_size_alignment_exact:
  assumes "is_power_of_two align" "align \<le> isize_bound"
  shows "from_size_alignment sz align =
    Ret (if layout_ok \<lparr>l_size = sz, l_align = align\<rparr> then Some \<lparr>l_size = sz, l_align = align\<rparr> else None)"
  using assms by (auto simp: from_size_alignment_def max_size_for_align_Ret layout_ok_def not_le)

lemma layout_ok_pow2: "layout_ok l \<Longrightarrow> is_power_of_two (l_align l)"
  and layout_ok_align: "layout_ok l \<Longrightarrow> l_align l \<le> isize_bound"
  and layout_ok_pos: "layout_ok l \<Longrightarrow> 0 < l_align l"
  and layout_ok_size: "layout_ok l \<Longrightarrow> l_size l + l_align l \<le> isize_bound"
  by (auto simp: layout_ok_def is_power_of_two_iff)

lemma and_not_mask_eq: "(w :: usize) AND NOT (mask k) = push_bit k (drop_bit k w)"
  by (rule bit_eqI) (auto simp: bit_simps)

lemma unat_and_not_mask: "unat ((w :: usize) AND NOT (mask k)) = unat w div 2 ^ k * 2 ^ k"
proof -
  have "unat w div 2 ^ k * 2 ^ k \<le> unat w" by simp
  also have "unat w < 2 ^ 64" using unat_less_pow [of w] by simp
  finally show ?thesis unfolding and_not_mask_eq unat_push_bit_mod unat_drop_bit_div by simp
qed

lemma of_nat_pow_minus_1: "(of_nat (2 ^ k - 1) :: usize) = mask k"
  by (simp add: mask_eq_exp_minus_1 of_nat_diff)

lemma size_rounded_up_exact:
  assumes "is_power_of_two align" "l_size l + align \<le> usize_bound"
  shows "size_rounded_up_to_custom_align l align = Ret (rounded_up (l_size l) align)"
proof -
  obtain k where k: "align = 2 ^ k" using assms(1) by (auto simp: is_power_of_two_iff)
  have pos: "0 < align" using k by simp
  then have s: "l_size l + (align - 1) < usize_bound" using assms(2) by linarith
  have "unat ((of_nat (l_size l + (align - 1)) :: usize) AND NOT (of_nat (align - 1)))
      = (l_size l + (align - 1)) div align * align"
    unfolding k of_nat_pow_minus_1 unat_and_not_mask
    using s by (simp add: k unat_of_nat usize_bound_def del: of_nat_add)
  then show ?thesis using s pos unfolding size_rounded_up_to_custom_align_def rounded_up_def
    by (simp add: usize_unchecked_sub_def usize_unchecked_add_def del: of_nat_add)
qed

lemma rounded_up_props:
  assumes "0 < align"
  shows "align dvd rounded_up sz align" "sz \<le> rounded_up sz align"
    "rounded_up sz align < sz + align"
proof -
  let ?x = "sz + (align - 1)"
  have m: "?x mod align < align" and d: "?x div align * align + ?x mod align = ?x"
    using assms by (simp_all add: div_mult_mod_eq)
  show "align dvd rounded_up sz align" by (simp add: rounded_up_def)
  show "sz \<le> rounded_up sz align" "rounded_up sz align < sz + align"
    unfolding rounded_up_def using m d assms by linarith+
qed

lemma rounded_up_least:
  assumes "0 < align" "align dvd m" "sz \<le> m"
  shows "rounded_up sz align \<le> m"
proof -
  obtain q where q: "m = align * q" using assms(2) by blast
  have "rounded_up sz align < align * Suc q" using rounded_up_props(3) [OF assms(1), of sz] assms(3) q by simp
  moreover obtain r where r: "rounded_up sz align = align * r" using rounded_up_props(1) [OF assms(1)] by blast
  ultimately have "r < Suc q" using assms(1) by (metis mult_less_cancel1)
  then show ?thesis using q r by simp
qed

lemma rounded_up_ok:
  assumes "layout_ok l"
  shows "layout_ok \<lparr>l_size = rounded_up (l_size l) (l_align l), l_align = l_align l\<rparr>"
proof -
  have "l_align l dvd isize_bound" using assms by (intro pow2_dvd_half) (auto simp: layout_ok_def)
  then have "l_align l dvd isize_bound - l_align l" by (simp add: dvd_diff_nat)
  then have "rounded_up (l_size l) (l_align l) \<le> isize_bound - l_align l"
    using rounded_up_least [OF layout_ok_pos [OF assms]] assms by (simp add: layout_ok_def)
  then show ?thesis using assms by (simp add: layout_ok_def)
qed

lemma layout_align_bound: "layout_ok l \<Longrightarrow> l_align l < usize_bound"
  using layout_ok_align [of l] isize_bound_pos unfolding usize_bound_double by linarith

lemma layout_rounds: "layout_ok l \<Longrightarrow> is_power_of_two a \<Longrightarrow> a \<le> isize_bound
    \<Longrightarrow> size_rounded_up_to_custom_align l a = Ret (rounded_up (l_size l) a)"
  using layout_ok_size [of l] by (intro size_rounded_up_exact) (auto simp: usize_bound_double)

lemma pad_to_align_exact:
  assumes "layout_ok l"
  shows "pad_to_align l = Ret \<lparr>l_size = rounded_up (l_size l) (l_align l), l_align = l_align l\<rparr>"
  using rounded_up_ok [OF assms]
  by (simp add: pad_to_align_def layout_rounds assms layout_ok_pow2 layout_ok_align
      from_size_align_exact layout_align_bound)

definition fit :: "nat \<Rightarrow> nat \<Rightarrow> layout option" where
  "fit sz align = (if layout_ok \<lparr>l_size = sz, l_align = align\<rparr>
     then Some \<lparr>l_size = sz, l_align = align\<rparr> else None)"

lemma repeat_packed_exact:
  assumes "layout_ok l"
  shows "repeat_packed l n = Ret (fit (l_size l * n) (l_align l))"
proof (cases "l_size l * n < usize_bound")
  case True
  then show ?thesis using assms
    by (simp add: repeat_packed_def usize_checked_mul_def fit_def from_size_alignment_exact layout_ok_pow2 layout_ok_align)
next
  case False
  then have "isize_bound < l_size l * n" using isize_bound_pos unfolding usize_bound_double by linarith
  then have "\<not> layout_ok \<lparr>l_size = l_size l * n, l_align = l_align l\<rparr>" by (auto simp: layout_ok_def)
  with False show ?thesis by (simp add: repeat_packed_def usize_checked_mul_def fit_def)
qed

lemma layout_repeat_exact:
  assumes "layout_ok l"
  shows "layout_repeat l n = Ret (map_option (\<lambda>r. (r, rounded_up (l_size l) (l_align l)))
    (fit (rounded_up (l_size l) (l_align l) * n) (l_align l)))"
  using repeat_packed_exact [OF rounded_up_ok [OF assms], of n]
  by (simp add: layout_repeat_def pad_to_align_exact [OF assms] split: option.splits)

lemma alignment_max_eq: "alignment_max a b = max a b"
  by (simp add: alignment_max_def max_def)

lemma layout_ok_max:
  assumes "layout_ok l" "layout_ok m"
  shows "is_power_of_two (max (l_align l) (l_align m))" "max (l_align l) (l_align m) \<le> isize_bound"
  using assms by (auto simp: layout_ok_def max_def)

lemma layout_extend_exact:
  assumes "layout_ok l" "layout_ok m"
  shows "layout_extend l m = Ret (map_option (\<lambda>r. (r, rounded_up (l_size l) (l_align m)))
    (fit (rounded_up (l_size l) (l_align m) + l_size m) (max (l_align l) (l_align m))))"
proof -
  have "rounded_up (l_size l) (l_align m) < l_size l + l_align m"
    using rounded_up_props(3) layout_ok_pos [OF assms(2)] by blast
  then have "rounded_up (l_size l) (l_align m) + l_size m < usize_bound"
    using layout_ok_size [OF assms(1)] layout_ok_size [OF assms(2)]
      layout_ok_pos [OF assms(1)] unfolding usize_bound_double by linarith
  then show ?thesis using layout_rounds [OF assms(1) layout_ok_pow2 [OF assms(2)] layout_ok_align [OF assms(2)]]
      layout_ok_max [OF assms]
    by (simp add: layout_extend_def usize_unchecked_add_def alignment_max_eq fit_def from_size_alignment_exact)
qed

lemma layout_array_exact:
  assumes "layout_ok l"
  shows "layout_array l n = Ret (fit (l_size l * n) (l_align l))"
proof -
  let ?mx = "isize_bound - l_align l"
  have le: "l_size l * n \<le> ?mx \<longleftrightarrow> l_size l = 0 \<or> n \<le> ?mx div l_size l"
    by (cases "l_size l = 0") (simp_all add: less_eq_div_iff_mult_less_eq mult.commute)
  have ok: "layout_ok \<lparr>l_size = l_size l * n, l_align = l_align l\<rparr> \<longleftrightarrow> l_size l * n \<le> ?mx"
    using assms by (simp add: layout_ok_def)
  have "l_size l * n < usize_bound" if "l_size l * n \<le> ?mx"
  proof -
    have "l_size l * n \<le> isize_bound" using that by linarith
    then show ?thesis using isize_bound_pos unfolding usize_bound_double by linarith
  qed
  then show ?thesis using le ok
    by (simp add: layout_array_def max_size_for_align_Ret layout_ok_align [OF assms] usize_unchecked_mul_def
        from_size_align_exact layout_align_bound [OF assms] fit_def not_less)
qed

lemma fit_ok: "fit s a = Some l \<Longrightarrow> layout_ok l \<and> l_size l = s \<and> l_align l = a"
  by (auto simp: fit_def split: if_splits)

lemma padding_needed_for_exact:
  assumes "layout_ok l" "a < usize_bound" "is_power_of_two a"
  shows "padding_needed_for l a = Ret (rounded_up (l_size l) a - l_size l)"
proof -
  have "0 < a" using assms(3) by (auto simp: is_power_of_two_iff)
  then show ?thesis using layout_rounds [OF assms(1,3) pow2_le_half [OF assms(3,2)]] rounded_up_props(2) [of a]
    by (simp add: padding_needed_for_def alignment_new_def assms(3) usize_unchecked_sub_def)
qed

lemma extend_packed_exact:
  assumes "layout_ok l" "layout_ok m"
  shows "extend_packed l m = Ret (fit (l_size l + l_size m) (l_align l))"
proof -
  have "l_size l + l_size m < usize_bound"
    using layout_ok_size [OF assms(1)] layout_ok_size [OF assms(2)] layout_ok_pos [OF assms(1)]
    unfolding usize_bound_double by linarith
  then show ?thesis using assms
    by (simp add: extend_packed_def usize_unchecked_add_def fit_def from_size_alignment_exact
        layout_ok_pow2 layout_ok_align)
qed

lemma align_to_exact:
  assumes "layout_ok l" "a < usize_bound"
  shows "align_to l a = Ret (if is_power_of_two a then fit (l_size l) (max (l_align l) a) else None)"
proof -
  have "is_power_of_two (max (l_align l) a)" "max (l_align l) a \<le> isize_bound" if "is_power_of_two a"
    using that pow2_le_half [OF that assms(2)] assms(1) by (auto simp: layout_ok_def max_def)
  then show ?thesis
    by (auto simp: align_to_def alignment_new_def alignment_max_eq fit_def from_size_alignment_exact)
qed

section \<open>Properties\<close>

text \<open>\<open>Layout::extend\<close> places the second field at the least offset that is aligned for it and not
  before the end of the first, and the combined layout is aligned for both and just holds them; it fails
  only when that layout would be invalid.\<close>

lemma layout_extend_sound:
  assumes "layout_ok l" "layout_ok m"
  shows "\<exists>offset. l_align m dvd offset \<and> l_size l \<le> offset
    \<and> (\<forall>other. l_align m dvd other \<and> l_size l \<le> other \<longrightarrow> offset \<le> other)
    \<and> layout_extend l m = Ret (map_option (\<lambda>r. (r, offset))
        (fit (offset + l_size m) (max (l_align l) (l_align m))))
    \<and> padding_needed_for l (l_align m) = Ret (offset - l_size l)"
  using rounded_up_props [OF layout_ok_pos [OF assms(2)], of "l_size l"]
    rounded_up_least [OF layout_ok_pos [OF assms(2)], of _ "l_size l"] layout_extend_exact [OF assms]
    padding_needed_for_exact [OF assms(1) layout_align_bound [OF assms(2)] layout_ok_pow2 [OF assms(2)]]
  by blast

text \<open>C12: the layout constructors. \<open>from_size_align\<close> accepts exactly the valid layouts, its unchecked
  counterpart is defined exactly there, and re-aligning, padding, repeating and packing a valid layout
  give the specified layout or the error, never undefined behaviour and never an invalid layout.
  \<open>extend\<close> places the second field at the least offset aligned for it behind the first.\<close>

theorem layout_operations_exact:
  assumes "layout_ok l" "layout_ok m" "a < usize_bound"
  shows "from_size_align sz a = Ret (fit sz a)
    \<and> from_size_align_unchecked sz a = (case fit sz a of Some r \<Rightarrow> Ret r | None \<Rightarrow> UB)
    \<and> align_to l a = Ret (if is_power_of_two a then fit (l_size l) (max (l_align l) a) else None)
    \<and> pad_to_align l = Ret \<lparr>l_size = rounded_up (l_size l) (l_align l), l_align = l_align l\<rparr>
    \<and> layout_ok \<lparr>l_size = rounded_up (l_size l) (l_align l), l_align = l_align l\<rparr>
    \<and> repeat_packed l n = Ret (fit (l_size l * n) (l_align l))
    \<and> layout_repeat l n = Ret (map_option (\<lambda>r. (r, rounded_up (l_size l) (l_align l)))
        (fit (rounded_up (l_size l) (l_align l) * n) (l_align l)))
    \<and> layout_array l n = Ret (fit (l_size l * n) (l_align l))
    \<and> extend_packed l m = Ret (fit (l_size l + l_size m) (l_align l))
    \<and> (\<exists>offset. l_align m dvd offset \<and> l_size l \<le> offset
        \<and> (\<forall>other. l_align m dvd other \<and> l_size l \<le> other \<longrightarrow> offset \<le> other)
        \<and> layout_extend l m = Ret (map_option (\<lambda>r. (r, offset))
            (fit (offset + l_size m) (max (l_align l) (l_align m))))
        \<and> padding_needed_for l (l_align m) = Ret (offset - l_size l))"
  using layout_extend_sound [OF assms(1,2)] from_size_align_exact [OF assms(3)] align_to_exact [OF assms(1,3)] pad_to_align_exact [OF assms(1)]
    rounded_up_ok [OF assms(1)] repeat_packed_exact [OF assms(1)] layout_repeat_exact [OF assms(1)]
    layout_array_exact [OF assms(1)] extend_packed_exact [OF assms(1,2)]
  by (simp add: fit_def)

lemma demo_pow2: "is_power_of_two 4" "is_power_of_two 1"
  by (simp_all add: is_power_of_two_def count_ones.simps)

lemma demo_layout_ok: "layout_ok \<lparr>l_size = 5, l_align = 4\<rparr>" "layout_ok \<lparr>l_size = 3, l_align = 1\<rparr>"
  by (simp_all add: layout_ok_def demo_pow2 isize_bound_def del: One_nat_def)

theorem layout_operations_exact_witness:
  "pad_to_align \<lparr>l_size = 5, l_align = 4\<rparr> = Ret \<lparr>l_size = 8, l_align = 4\<rparr>
   \<and> layout_array \<lparr>l_size = 5, l_align = 4\<rparr> 3 = Ret (Some \<lparr>l_size = 15, l_align = 4\<rparr>)"
proof -
  have "rounded_up 5 4 = 8" "fit 15 4 = Some \<lparr>l_size = 15, l_align = 4\<rparr>" "(8 :: nat) < usize_bound"
    by (simp_all add: rounded_up_def fit_def layout_ok_def demo_pow2 isize_bound_def usize_bound_def)
  then show ?thesis using layout_operations_exact [OF demo_layout_ok, of 8 _ 3] by simp
qed

end
