(* ===== verification/Raw_Vec.thy ===== *)
theory Raw_Vec
  imports Layout
begin

text \<open>
  The growable buffer behind \<open>Vec\<close> and \<open>VecDeque\<close>, \<open>library/alloc/src/raw_vec.rs\<close>. The
  buffer is the list of its cells, \<open>None\<close> where it is uninitialised, so the capacity of a sized element type is
  its length. The element layout is an argument, as in \<open>RawVecInner\<close>. The allocator is a parameter: the predicate
  says which requests succeed. Reallocation keeps the cells that exist before and after; growing an allocation to a smaller
  size and shrinking it to a larger one are undefined behaviour, as \<open>Allocator\<close> documents. \<open>Panic\<close>
  is a panic or, for a failed allocation, the end of the process.
\<close>

type_synonym 'a cells = "'a option list"
type_synonym allocator = "layout \<Rightarrow> bool"

datatype try_reserve_error = CapacityOverflow | AllocError layout

definition min_non_zero_cap :: "nat \<Rightarrow> nat" where
  "min_non_zero_cap sz = (if sz = 1 then 8 else if sz \<le> 1024 then 4 else 1)"

definition capacity :: "layout \<Rightarrow> 'a cells \<Rightarrow> nat" where
  "capacity el b = (if l_size el = 0 then usize_bound - 1 else length b)"

definition needs_to_grow :: "layout \<Rightarrow> 'a cells \<Rightarrow> nat \<Rightarrow> nat \<Rightarrow> bool" where
  "needs_to_grow el b len additional \<longleftrightarrow> additional > usize_wrapping_sub (capacity el b) len"

definition raw_layout_array :: "nat \<Rightarrow> layout \<Rightarrow> (try_reserve_error + layout) outcome" where
  "raw_layout_array cap el = and_then (layout_repeat el cap) (\<lambda>r.
     case r of Some (layout, _) \<Rightarrow> Ret (Inr layout) | None \<Rightarrow> Ret (Inl CapacityOverflow))"

definition current_memory :: "layout \<Rightarrow> 'a cells \<Rightarrow> layout option outcome" where
  "current_memory el b =
     (if l_size el = 0 \<or> length b = 0 then Ret None
      else and_then (usize_unchecked_mul (l_size el) (length b)) (\<lambda>alloc_size.
           and_then (from_size_align_unchecked alloc_size (l_align el)) (\<lambda>l. Ret (Some l))))"

definition alloc_guard :: "nat \<Rightarrow> nat \<Rightarrow> try_reserve_error option" where
  "alloc_guard usize_bits alloc_size =
     (if usize_bits < 64 \<and> alloc_size > isize_max then Some CapacityOverflow else None)"

definition finish_grow :: "allocator \<Rightarrow> layout \<Rightarrow> layout option \<Rightarrow> (try_reserve_error + unit) outcome" where
  "finish_grow al new_layout cur =
     (case alloc_guard 64 (l_size new_layout) of
        Some e \<Rightarrow> Ret (Inl e)
      | None \<Rightarrow>
          (case cur of
             Some old_layout \<Rightarrow>
               if l_align old_layout \<noteq> l_align new_layout \<or> l_size new_layout < l_size old_layout then UB
               else if al new_layout then Ret (Inr ()) else Ret (Inl (AllocError new_layout))
           | None \<Rightarrow> if al new_layout then Ret (Inr ()) else Ret (Inl (AllocError new_layout))))"

text \<open>Allocation of a new buffer and growth to a given capacity: the common tail of \<open>grow_amortized\<close>
  and \<open>grow_exact\<close>.\<close>

definition grow_to :: "allocator \<Rightarrow> layout \<Rightarrow> 'a cells \<Rightarrow> nat \<Rightarrow> (try_reserve_error + 'a cells) outcome" where
  "grow_to al el b cap =
     and_then (raw_layout_array cap el) (\<lambda>r. case r of
       Inl e \<Rightarrow> Ret (Inl e)
     | Inr new_layout \<Rightarrow>
         and_then (current_memory el b) (\<lambda>cur.
         and_then (finish_grow al new_layout cur) (\<lambda>r. case r of
           Inl e \<Rightarrow> Ret (Inl e)
         | Inr _ \<Rightarrow> Ret (Inr (b @ replicate (cap - length b) None)))))"

definition grow_amortized ::
  "allocator \<Rightarrow> layout \<Rightarrow> 'a cells \<Rightarrow> nat \<Rightarrow> nat \<Rightarrow> (try_reserve_error + 'a cells) outcome" where
  "grow_amortized al el b len additional =
     (if l_size el = 0 then Ret (Inl CapacityOverflow)
      else (case usize_checked_add len additional of
              None \<Rightarrow> Ret (Inl CapacityOverflow)
            | Some required_cap \<Rightarrow>
                (let cap = max (length b * 2) required_cap;
                     cap = max (min_non_zero_cap (l_size el)) cap
                 in grow_to al el b cap)))"

definition grow_exact ::
  "allocator \<Rightarrow> layout \<Rightarrow> 'a cells \<Rightarrow> nat \<Rightarrow> nat \<Rightarrow> (try_reserve_error + 'a cells) outcome" where
  "grow_exact al el b len additional =
     (if l_size el = 0 then Ret (Inl CapacityOverflow)
      else (case usize_checked_add len additional of
              None \<Rightarrow> Ret (Inl CapacityOverflow)
            | Some cap \<Rightarrow> grow_to al el b cap))"

text \<open>\<open>handle_error\<close> does not return: a capacity overflow panics, a failed allocation aborts.\<close>

definition handle_error :: "(try_reserve_error + 'a) outcome \<Rightarrow> 'a outcome" where
  "handle_error m = and_then m (\<lambda>r. case r of Inl _ \<Rightarrow> Panic | Inr x \<Rightarrow> Ret x)"

definition assert_unchecked :: "bool \<Rightarrow> 'a outcome \<Rightarrow> 'a outcome" where
  "assert_unchecked c m = (if c then m else UB)"

definition raw_reserve :: "allocator \<Rightarrow> layout \<Rightarrow> 'a cells \<Rightarrow> nat \<Rightarrow> nat \<Rightarrow> 'a cells outcome" where
  "raw_reserve al el b len additional =
     (if needs_to_grow el b len additional then handle_error (grow_amortized al el b len additional) else Ret b)"

definition raw_grow_one :: "allocator \<Rightarrow> layout \<Rightarrow> 'a cells \<Rightarrow> 'a cells outcome" where
  "raw_grow_one al el b = handle_error (grow_amortized al el b (length b) 1)"

definition raw_try_reserve ::
  "allocator \<Rightarrow> layout \<Rightarrow> 'a cells \<Rightarrow> nat \<Rightarrow> nat \<Rightarrow> (try_reserve_error + 'a cells) outcome" where
  "raw_try_reserve al el b len additional =
     and_then (if needs_to_grow el b len additional then grow_amortized al el b len additional else Ret (Inr b))
       (\<lambda>r. case r of Inl e \<Rightarrow> Ret (Inl e)
                 | Inr b \<Rightarrow> assert_unchecked (\<not> needs_to_grow el b len additional) (Ret (Inr b)))"

definition raw_try_reserve_exact ::
  "allocator \<Rightarrow> layout \<Rightarrow> 'a cells \<Rightarrow> nat \<Rightarrow> nat \<Rightarrow> (try_reserve_error + 'a cells) outcome" where
  "raw_try_reserve_exact al el b len additional =
     and_then (if needs_to_grow el b len additional then grow_exact al el b len additional else Ret (Inr b))
       (\<lambda>r. case r of Inl e \<Rightarrow> Ret (Inl e)
                 | Inr b \<Rightarrow> assert_unchecked (\<not> needs_to_grow el b len additional) (Ret (Inr b)))"

definition raw_reserve_exact :: "allocator \<Rightarrow> layout \<Rightarrow> 'a cells \<Rightarrow> nat \<Rightarrow> nat \<Rightarrow> 'a cells outcome" where
  "raw_reserve_exact al el b len additional = handle_error (raw_try_reserve_exact al el b len additional)"

definition shrink_unchecked :: "allocator \<Rightarrow> layout \<Rightarrow> 'a cells \<Rightarrow> nat \<Rightarrow> (try_reserve_error + 'a cells) outcome" where
  "shrink_unchecked al el b cap =
     and_then (current_memory el b) (\<lambda>cur. case cur of
       None \<Rightarrow> Ret (Inr b)
     | Some layout \<Rightarrow>
         if cap = 0 then Ret (Inr [])
         else and_then (usize_unchecked_mul (l_size el) cap) (\<lambda>new_size.
              and_then (from_size_align_unchecked new_size (l_align layout)) (\<lambda>new_layout.
                if l_size layout < l_size new_layout then UB
                else if al new_layout then Ret (Inr (take cap b)) else Ret (Inl (AllocError new_layout)))))"

definition shrink :: "allocator \<Rightarrow> layout \<Rightarrow> 'a cells \<Rightarrow> nat \<Rightarrow> (try_reserve_error + 'a cells) outcome" where
  "shrink al el b cap = (if cap \<le> capacity el b then shrink_unchecked al el b cap else Panic)"

definition raw_shrink_to_fit :: "allocator \<Rightarrow> layout \<Rightarrow> 'a cells \<Rightarrow> nat \<Rightarrow> 'a cells outcome" where
  "raw_shrink_to_fit al el b cap = handle_error (shrink al el b cap)"

definition try_allocate_in :: "allocator \<Rightarrow> layout \<Rightarrow> nat \<Rightarrow> (try_reserve_error + 'a cells) outcome" where
  "try_allocate_in al el cap =
     and_then (raw_layout_array cap el) (\<lambda>r. case r of
       Inl _ \<Rightarrow> Ret (Inl CapacityOverflow)
     | Inr layout \<Rightarrow>
         if l_size layout = 0 then Ret (Inr [])
         else (case alloc_guard 64 (l_size layout) of
                 Some e \<Rightarrow> Ret (Inl e)
               | None \<Rightarrow> if al layout then Ret (Inr (replicate cap None)) else Ret (Inl (AllocError layout))))"

definition raw_with_capacity_in :: "allocator \<Rightarrow> layout \<Rightarrow> nat \<Rightarrow> 'a cells outcome" where
  "raw_with_capacity_in al el cap =
     and_then (try_allocate_in al el cap) (\<lambda>r. case r of
       Inr b \<Rightarrow> assert_unchecked (\<not> needs_to_grow el b 0 cap) (Ret b)
     | Inl _ \<Rightarrow> Panic)"

text \<open>\<open>ptr::copy\<close> within a buffer: the block is read before it is written.\<close>

definition mem_move :: "'a cells \<Rightarrow> nat \<Rightarrow> nat \<Rightarrow> nat \<Rightarrow> 'a cells" where
  "mem_move b src dst len = take dst b @ take len (drop src b) @ drop (dst + len) b"

section \<open>The invariant and the behaviour of growing\<close>

text \<open>A type's size is a multiple of its alignment, and the buffer is one valid allocation.\<close>

definition elem_ok :: "layout \<Rightarrow> bool" where
  "elem_ok el \<longleftrightarrow> layout_ok el \<and> l_align el dvd l_size el"

definition raw_ok :: "layout \<Rightarrow> 'a cells \<Rightarrow> bool" where
  "raw_ok el b \<longleftrightarrow> elem_ok el \<and> layout_ok \<lparr>l_size = l_size el * length b, l_align = l_align el\<rparr>"

lemma length_mem_move [simp]:
  "src + len \<le> length b \<Longrightarrow> dst + len \<le> length b \<Longrightarrow> length (mem_move b src dst len) = length b"
  by (simp add: mem_move_def)

lemma nth_mem_move:
  "src + len \<le> length b \<Longrightarrow> dst + len \<le> length b \<Longrightarrow> j < length b \<Longrightarrow>
    mem_move b src dst len ! j = (if dst \<le> j \<and> j < dst + len then b ! (src + (j - dst)) else b ! j)"
  by (auto simp: mem_move_def nth_append)

lemma elem_ok_rounded: "elem_ok el \<Longrightarrow> rounded_up (l_size el) (l_align el) = l_size el"
  using rounded_up_least [of "l_align el" "l_size el" "l_size el"] rounded_up_props(2) [of "l_align el" "l_size el"]
    layout_ok_pos [of el] by (auto simp: elem_ok_def intro: antisym)

lemma raw_layout_array_exact:
  "elem_ok el \<Longrightarrow> raw_layout_array n el =
     Ret (case fit (l_size el * n) (l_align el) of Some l \<Rightarrow> Inr l | None \<Rightarrow> Inl CapacityOverflow)"
  using layout_repeat_exact [of el n] elem_ok_rounded [of el]
  by (auto simp: raw_layout_array_def elem_ok_def split: option.splits)

lemma raw_ok_length: "raw_ok el b \<Longrightarrow> l_size el \<noteq> 0 \<Longrightarrow> length b < isize_bound"
proof -
  assume "raw_ok el b" "l_size el \<noteq> 0"
  then have "l_size el * length b + l_align el \<le> isize_bound" "0 < l_align el"
    by (auto simp: raw_ok_def layout_ok_def elem_ok_def is_power_of_two_iff)
  moreover have "length b \<le> l_size el * length b" using \<open>l_size el \<noteq> 0\<close> by (cases "l_size el") auto
  ultimately show ?thesis by linarith
qed

lemma current_memory_exact:
  assumes "raw_ok el b"
  shows "current_memory el b = Ret (if l_size el = 0 \<or> length b = 0 then None
    else Some \<lparr>l_size = l_size el * length b, l_align = l_align el\<rparr>)"
proof -
  have "l_size el * length b < usize_bound" 
    using layout_ok_size [of "\<lparr>l_size = l_size el * length b, l_align = l_align el\<rparr>"] assms isize_bound_pos
    unfolding raw_ok_def usize_bound_double by (simp del: isize_bound_pos)
  then show ?thesis using assms layout_align_bound [of el]
    by (simp add: current_memory_def usize_unchecked_mul_def raw_ok_def elem_ok_def from_size_align_exact)
qed

lemma finish_grow_exact:
  "finish_grow al new None = Ret (if al new then Inr () else Inl (AllocError new))"
  "l_align old = l_align new \<Longrightarrow> l_size old \<le> l_size new \<Longrightarrow>
    finish_grow al new (Some old) = Ret (if al new then Inr () else Inl (AllocError new))"
  by (simp_all add: finish_grow_def alloc_guard_def)

lemma grow_to_exact:
  assumes "raw_ok el b" "length b \<le> cap"
  shows "grow_to al el b cap = Ret (case fit (l_size el * cap) (l_align el) of
      None \<Rightarrow> Inl CapacityOverflow
    | Some l \<Rightarrow> if al l then Inr (b @ replicate (cap - length b) None) else Inl (AllocError l))"
proof -
  have el: "elem_ok el" using assms by (simp add: raw_ok_def)
  show ?thesis
  proof (cases "fit (l_size el * cap) (l_align el)")
    case (Some l)
    then have "l_align l = l_align el" "l_size l = l_size el * cap" by (auto dest: fit_ok)
    with Some show ?thesis using assms(2)
      by (simp add: grow_to_def raw_layout_array_exact [OF el] current_memory_exact [OF assms(1)] finish_grow_exact)
  qed (simp add: grow_to_def raw_layout_array_exact [OF el])
qed

abbreviation extend_to :: "'a cells \<Rightarrow> nat \<Rightarrow> 'a cells" where
  "extend_to b cap \<equiv> b @ replicate (cap - length b) None"

text \<open>A request for the given number of elements can be met: it is a valid layout, and the allocator grants it.\<close>

definition array_layout :: "layout \<Rightarrow> nat \<Rightarrow> layout" where
  "array_layout el n = \<lparr>l_size = l_size el * n, l_align = l_align el\<rparr>"

definition granted :: "allocator \<Rightarrow> layout \<Rightarrow> nat \<Rightarrow> bool" where
  "granted al el n \<longleftrightarrow> layout_ok (array_layout el n) \<and> al (array_layout el n)"

text \<open>The reason why a request is not met.\<close>

definition refusal :: "layout \<Rightarrow> nat \<Rightarrow> try_reserve_error" where
  "refusal el n = (if layout_ok (array_layout el n) then AllocError (array_layout el n) else CapacityOverflow)"

lemma grow_to_granted:
  assumes "raw_ok el b" "length b \<le> cap"
  shows "grow_to al el b cap = Ret (if granted al el cap then Inr (b @ replicate (cap - length b) None) else Inl (refusal el cap))"
  by (simp add: grow_to_exact [OF assms] fit_def granted_def refusal_def array_layout_def)

lemma not_granted_large: "l_size el \<noteq> 0 \<Longrightarrow> usize_bound \<le> n \<Longrightarrow> \<not> layout_ok (array_layout el n)"
proof
  assume a: "l_size el \<noteq> 0" "usize_bound \<le> n" "layout_ok (array_layout el n)"
  then have "l_size el * n \<le> isize_bound" by (auto simp: layout_ok_def array_layout_def)
  moreover have "n \<le> l_size el * n" using a(1) by (cases "l_size el") auto
  ultimately show False using a(2) isize_bound_pos unfolding usize_bound_double by linarith
qed

text \<open>The capacity a buffer that is too small grows to.\<close>

definition amortized :: "layout \<Rightarrow> 'a cells \<Rightarrow> nat \<Rightarrow> nat" where
  "amortized el b need = max (min_non_zero_cap (l_size el)) (max (length b * 2) need)"

text \<open>There is room for \<open>need\<close> elements, or memory for it can be had.\<close>

definition has_room :: "allocator \<Rightarrow> layout \<Rightarrow> 'a cells \<Rightarrow> nat \<Rightarrow> bool" where
  "has_room al el b need \<longleftrightarrow> need \<le> length b \<or> granted al el (amortized el b need)"

lemma amortized_ge: "length b \<le> amortized el b need" "need \<le> amortized el b need" "2 * length b \<le> amortized el b need"
  by (auto simp: amortized_def)

lemma grow_amortized_exact:
  assumes "raw_ok el b" "l_size el \<noteq> 0"
  shows "grow_amortized al el b len additional =
    Ret (if granted al el (amortized el b (len + additional))
      then Inr (b @ replicate (amortized el b (len + additional) - length b) None)
      else Inl (refusal el (amortized el b (len + additional))))"
proof (cases "len + additional < usize_bound")
  case True
  then show ?thesis using assms(2) grow_to_granted [OF assms(1) amortized_ge(1), of al el "len + additional"]
    by (simp add: grow_amortized_def usize_checked_add_def Let_def amortized_def)
next
  case False
  then have "usize_bound \<le> amortized el b (len + additional)" using amortized_ge(2) [of "len + additional" el b] by linarith
  then show ?thesis using False assms(2) not_granted_large [OF assms(2)]
    by (simp add: grow_amortized_def usize_checked_add_def granted_def refusal_def)
qed

lemma grow_exact_exact:
  assumes "raw_ok el b" "l_size el \<noteq> 0" "length b \<le> len + additional"
  shows "grow_exact al el b len additional =
    Ret (if granted al el (len + additional) then Inr (b @ replicate (len + additional - length b) None)
      else Inl (refusal el (len + additional)))"
proof (cases "len + additional < usize_bound")
  case True
  then show ?thesis using assms(2) grow_to_granted [OF assms(1,3), of al] by (simp add: grow_exact_def usize_checked_add_def)
next
  case False
  then show ?thesis using assms(2) not_granted_large [OF assms(2)]
    by (simp add: grow_exact_def usize_checked_add_def granted_def refusal_def)
qed

lemma granted_raw_ok:
  assumes "raw_ok el b" "granted al el cap" "length b \<le> cap"
  shows "raw_ok el (b @ replicate (cap - length b) None)"
  using assms by (simp add: raw_ok_def granted_def array_layout_def)

text \<open>What growing promises: the old cells stay in front, the new ones are uninitialised, and the
  buffer is still one valid allocation.\<close>

definition grown_to :: "layout \<Rightarrow> 'a cells \<Rightarrow> nat \<Rightarrow> 'a cells \<Rightarrow> bool" where
  "grown_to el b need b' \<longleftrightarrow> raw_ok el b' \<and> need \<le> length b' \<and> (\<exists>n. b' = b @ replicate n None)"

lemma granted_grown_to:
  assumes "raw_ok el b" "granted al el cap" "length b \<le> cap" "need \<le> cap"
  shows "grown_to el b need (b @ replicate (cap - length b) None)"
  using granted_raw_ok [OF assms(1-3)] assms(3,4) by (auto simp: grown_to_def)

lemma raw_ok_capacity_bound: "raw_ok el b \<Longrightarrow> capacity el b < usize_bound"
  using raw_ok_length [of el b] by (auto simp: capacity_def usize_bound_double)

lemma needs_to_grow_iff:
  assumes "raw_ok el b" "len \<le> capacity el b"
  shows "needs_to_grow el b len additional \<longleftrightarrow> capacity el b < len + additional"
  using usize_wrapping_sub_add(1) [OF raw_ok_capacity_bound [OF assms(1)] assms(2)] assms(2)
  by (auto simp: needs_to_grow_def)

lemma grown_to_refl: "raw_ok el b \<Longrightarrow> need \<le> length b \<Longrightarrow> grown_to el b need b"
  by (auto simp: grown_to_def intro: exI [of _ 0])

lemma needs_to_grow_sized:
  assumes "raw_ok el b" "len \<le> length b" "l_size el \<noteq> 0"
  shows "needs_to_grow el b len additional \<longleftrightarrow> length b < len + additional"
  using needs_to_grow_iff [OF assms(1), of len additional] assms(2,3) by (simp add: capacity_def)

text \<open>The reserving operations, exactly. \<open>reserved al el b need cap\<close>: nothing happens when there is room,
  and otherwise the buffer grows to \<open>cap\<close> if that is granted.\<close>

definition reserved :: "allocator \<Rightarrow> layout \<Rightarrow> 'a cells \<Rightarrow> nat \<Rightarrow> nat \<Rightarrow> try_reserve_error + 'a cells" where
  "reserved al el b need cap =
     (if need \<le> length b then Inr b else if granted al el cap then Inr (extend_to b cap) else Inl (refusal el cap))"

lemma reserved_grown_to:
  assumes "raw_ok el b" "length b \<le> cap" "need \<le> cap" "reserved al el b need cap = Inr b'"
  shows "grown_to el b need b'"
  using assms granted_grown_to [OF assms(1) _ assms(2,3)] grown_to_refl [of el b need] by (auto simp: reserved_def split: if_splits)

lemma raw_try_reserve_exactly:
  assumes "raw_ok el b" "len \<le> length b" "l_size el \<noteq> 0"
  shows "raw_try_reserve al el b len additional = Ret (reserved al el b (len + additional) (amortized el b (len + additional)))"
proof -
  let ?n = "len + additional" and ?c = "amortized el b (len + additional)"
  have "\<not> needs_to_grow el (extend_to b ?c) len additional" if "granted al el ?c"
    using granted_raw_ok [OF assms(1) that amortized_ge(1)] assms(2,3) amortized_ge(1) [of b el ?n] amortized_ge(2) [of ?n el b] by (subst needs_to_grow_sized) auto
  then show ?thesis using needs_to_grow_sized [OF assms] grow_amortized_exact [OF assms(1,3), of al len additional]
    by (auto simp: raw_try_reserve_def reserved_def assert_unchecked_def)
qed

lemma raw_try_reserve_exact_exactly:
  assumes "raw_ok el b" "len \<le> length b" "l_size el \<noteq> 0"
  shows "raw_try_reserve_exact al el b len additional = Ret (reserved al el b (len + additional) (len + additional))"
proof -
  let ?n = "len + additional"
  have "\<not> needs_to_grow el (extend_to b ?n) len additional" if "granted al el ?n" "length b < ?n"
    using granted_raw_ok [OF assms(1) that(1)] assms(2,3) that(2) by (subst needs_to_grow_sized) auto
  then show ?thesis using needs_to_grow_sized [OF assms] grow_exact_exact [OF assms(1,3), of len additional al]
    by (auto simp: raw_try_reserve_exact_def reserved_def assert_unchecked_def)
qed

lemma handle_error_Ret: "handle_error m = Ret x \<longleftrightarrow> m = Ret (Inr x)"
  by (cases m) (auto simp: handle_error_def split: sum.splits)

lemma handle_error_no_UB: "\<exists>r. m = Ret r \<Longrightarrow> handle_error m \<noteq> UB"
  by (auto simp: handle_error_def split: sum.splits)

text \<open>\<open>or_fail\<close>: an error ends the call.\<close>

definition or_fail :: "try_reserve_error + 'a \<Rightarrow> 'a outcome" where
  "or_fail r = (case r of Inl _ \<Rightarrow> Panic | Inr x \<Rightarrow> Ret x)"

lemma or_fail_simps [simp]: "or_fail r \<noteq> UB" "or_fail r = Ret x \<longleftrightarrow> r = Inr x" "handle_error (Ret r) = or_fail r"
  by (auto simp: or_fail_def handle_error_def split: sum.splits)

lemma or_fail_reserved:
  "or_fail (reserved al el b need cap) = (if need \<le> length b then Ret b else if granted al el cap then Ret (extend_to b cap) else Panic)"
  by (simp add: or_fail_def reserved_def)

lemma raw_reserve_exactly:
  assumes "raw_ok el b" "len \<le> length b" "l_size el \<noteq> 0"
  shows "raw_reserve al el b len additional = or_fail (reserved al el b (len + additional) (amortized el b (len + additional)))"
  using needs_to_grow_sized [OF assms] grow_amortized_exact [OF assms(1,3), of al len additional]
  by (auto simp: raw_reserve_def or_fail_def reserved_def)

lemma raw_reserve_exact_exactly:
  assumes "raw_ok el b" "len \<le> length b" "l_size el \<noteq> 0"
  shows "raw_reserve_exact al el b len additional = or_fail (reserved al el b (len + additional) (len + additional))"
  by (simp add: raw_reserve_exact_def raw_try_reserve_exact_exactly [OF assms])

lemma raw_grow_one_exactly:
  assumes "raw_ok el b" "l_size el \<noteq> 0"
  shows "raw_grow_one al el b = (if granted al el (amortized el b (Suc (length b)))
    then Ret (extend_to b (amortized el b (Suc (length b)))) else Panic)"
  using grow_amortized_exact [OF assms, of al "length b" 1] by (simp add: raw_grow_one_def or_fail_def)

lemma raw_reserve_result:
  assumes "raw_ok el b" "len \<le> length b" "l_size el \<noteq> 0"
  shows "raw_reserve al el b len additional \<noteq> UB"
    "raw_reserve al el b len additional = Ret b' \<Longrightarrow> grown_to el b (len + additional) b'"
  using reserved_grown_to [OF assms(1) amortized_ge(1,2)] by (simp_all add: raw_reserve_exactly [OF assms])

lemma raw_grow_one_result:
  assumes "raw_ok el b"
  shows "raw_grow_one al el b \<noteq> UB" "raw_grow_one al el b = Ret b' \<Longrightarrow> grown_to el b (Suc (length b)) b'"
proof -
  have z: "raw_grow_one al el b = Panic" if "l_size el = 0" using that by (simp add: raw_grow_one_def grow_amortized_def or_fail_def)
  show "raw_grow_one al el b \<noteq> UB" using z raw_grow_one_exactly [OF assms] by (cases "l_size el = 0") auto
  show "raw_grow_one al el b = Ret b' \<Longrightarrow> grown_to el b (Suc (length b)) b'"
    using z raw_grow_one_exactly [OF assms] granted_grown_to [OF assms _ amortized_ge(1,2)] by (cases "l_size el = 0") (auto split: if_splits)
qed

lemma shrink_exactly:
  assumes "raw_ok el b" "l_size el \<noteq> 0"
  shows "shrink al el b cap = (if cap \<le> length b then Ret (if length b = 0 then Inr b
      else if cap = 0 \<or> al (array_layout el cap) then Inr (take cap b) else Inl (AllocError (array_layout el cap))) else Panic)"
    "cap \<le> length b \<Longrightarrow> raw_ok el (take cap b)"
proof -
  let ?l = "\<lparr>l_size = l_size el * cap, l_align = l_align el\<rparr>"
  have ok: "layout_ok ?l" if "cap \<le> length b"
  proof -
    have le: "l_size el * cap \<le> l_size el * length b" using that by simp
    show ?thesis using assms(1) order_trans [OF le] by (simp add: raw_ok_def layout_ok_def)
  qed
  then have "l_size el * cap < usize_bound" if "cap \<le> length b" using layout_ok_size [of ?l] that isize_bound_pos
    unfolding usize_bound_double by (simp del: isize_bound_pos)
  with ok show "shrink al el b cap = (if cap \<le> length b then Ret (if length b = 0 then Inr b
      else if cap = 0 \<or> al (array_layout el cap) then Inr (take cap b) else Inl (AllocError (array_layout el cap))) else Panic)"
    using assms layout_align_bound [of el]
    by (simp add: shrink_def shrink_unchecked_def capacity_def current_memory_exact usize_unchecked_mul_def
        from_size_align_exact raw_ok_def elem_ok_def array_layout_def)
  show "raw_ok el (take cap b)" if "cap \<le> length b" using that assms ok by (simp add: raw_ok_def min_def)
qed

lemma shrink_result:
  assumes "raw_ok el b" "cap \<le> length b" "l_size el \<noteq> 0"
  shows "shrink al el b cap = Ret (let l = \<lparr>l_size = l_size el * cap, l_align = l_align el\<rparr> in
      if length b = 0 then Inr b else if cap = 0 \<or> al l then Inr (take cap b) else Inl (AllocError l))"
    "raw_ok el (take cap b)"
  using shrink_exactly(1) [OF assms(1,3), of al cap] shrink_exactly(2) [OF assms(1,3,2)] assms(2) by (simp_all add: array_layout_def)

lemma try_allocate_in_result:
  assumes "elem_ok el" "l_size el \<noteq> 0"
  shows "try_allocate_in al el n = Ret (case fit (l_size el * n) (l_align el) of
      None \<Rightarrow> Inl CapacityOverflow
    | Some l \<Rightarrow> if n = 0 \<or> al l then Inr (replicate n None) else Inl (AllocError l))"
proof (cases "fit (l_size el * n) (l_align el)")
  case (Some l)
  then have "l_size l = l_size el * n" by (simp add: fit_ok)
  with Some assms show ?thesis by (simp add: try_allocate_in_def raw_layout_array_exact alloc_guard_def)
qed (simp add: try_allocate_in_def raw_layout_array_exact assms)

lemma raw_with_capacity_exactly:
  assumes "elem_ok el" "l_size el \<noteq> 0"
  shows "n = 0 \<or> granted al el n \<Longrightarrow> raw_ok el (replicate n None :: 'a cells)"
    "raw_with_capacity_in al el n = (if n = 0 \<or> granted al el n then Ret (replicate n None :: 'a cells) else Panic)"
proof -
  have zero: "layout_ok (array_layout el 0)" using assms(1) layout_align_bound [of el] by (auto simp: array_layout_def elem_ok_def layout_ok_def)
  show ok: "raw_ok el (replicate n None :: 'a cells)" if "n = 0 \<or> granted al el n"
    using that assms(1) zero by (auto simp: raw_ok_def granted_def array_layout_def)
  have room: "\<not> needs_to_grow el (replicate n None :: 'a cells) 0 n" if "n = 0 \<or> granted al el n"
    using needs_to_grow_sized [OF ok [OF that], of 0 n] assms(2) by simp
  have "try_allocate_in al el n = Ret (if n = 0 \<or> granted al el n then Inr (replicate n None :: 'a cells) else Inl (refusal el n))"
    using zero by (auto simp: try_allocate_in_result [OF assms] fit_def granted_def refusal_def array_layout_def)
  then show "raw_with_capacity_in al el n = (if n = 0 \<or> granted al el n then Ret (replicate n None :: 'a cells) else Panic)"
    using room by (auto simp: raw_with_capacity_in_def assert_unchecked_def)
qed

lemma raw_with_capacity_result:
  assumes "elem_ok el" "l_size el \<noteq> 0"
  shows "raw_with_capacity_in al el n \<noteq> (UB :: 'a cells outcome)"
    "raw_with_capacity_in al el n = Ret (b :: 'a cells) \<Longrightarrow> raw_ok el b \<and> b = replicate n None"
  using raw_with_capacity_exactly(1) [OF assms, of n al, where ?'a = 'a] raw_with_capacity_exactly(2) [OF assms, of al n, where ?'a = 'a]
  by (auto split: if_splits)

section \<open>Growth as an interface\<close>

text \<open>The contract the collections rely on, whichever operation of the buffer they call: growing
  returns exactly when the memory for it can be had, and the buffer it returns is valid, large enough, and
  extends the old one by uninitialised cells; otherwise it panics.\<close>

locale buffer_growth =
  fixes ok :: "'a cells \<Rightarrow> bool" and grow :: "'a cells \<Rightarrow> 'a cells outcome" and need :: "'a cells \<Rightarrow> nat"
    and fits :: "'a cells \<Rightarrow> bool"
  assumes grow_fits: "ok b \<Longrightarrow> fits b \<Longrightarrow>
      \<exists>n. grow b = Ret (b @ replicate n None) \<and> ok (b @ replicate n None) \<and> need b \<le> length b + n"
    and grow_stuck: "ok b \<Longrightarrow> \<not> fits b \<Longrightarrow> grow b = Panic"
begin

lemma grow_cases:
  assumes "ok b"
  obtains n where "fits b" "grow b = Ret (b @ replicate n None)" "ok (b @ replicate n None)" "need b \<le> length b + n"
    | "\<not> fits b" "grow b = Panic"
  using grow_fits [OF assms] grow_stuck [OF assms] by blast

end

interpretation grow_one: buffer_growth
  "\<lambda>b. raw_ok el b \<and> l_size el \<noteq> 0" "raw_grow_one al el" "\<lambda>b. Suc (length b)"
  "\<lambda>b. has_room al el b (Suc (length b))" for el al
proof unfold_locales
  fix b :: "'a cells"
  assume b: "raw_ok el b \<and> l_size el \<noteq> 0"
  let ?c = "amortized el b (Suc (length b))"
  note r = raw_grow_one_exactly [of el b al, OF conjunct1 [OF b] conjunct2 [OF b]]
  show "\<exists>n. raw_grow_one al el b = Ret (b @ replicate n None) \<and> (raw_ok el (b @ replicate n None) \<and> l_size el \<noteq> 0)
      \<and> Suc (length b) \<le> length b + n" if "has_room al el b (Suc (length b))"
    using that b r granted_raw_ok [of el b al ?c] amortized_ge(1) [of b el "Suc (length b)"] amortized_ge(2) [of "Suc (length b)" el b]
    by (intro exI [of _ "?c - length b"]) (simp add: has_room_def)
  show "raw_grow_one al el b = Panic" if "\<not> has_room al el b (Suc (length b))" using that r by (simp add: has_room_def)
qed

text \<open>Both reserving operations come from one fact about \<open>reserved\<close>.\<close>

lemma reserved_growth:
  assumes "raw_ok el b" "length b < need \<longrightarrow> length b \<le> cap \<and> need \<le> cap"
  shows "need \<le> length b \<or> granted al el cap \<Longrightarrow> \<exists>n. or_fail (reserved al el b need cap) = Ret (b @ replicate n None)
      \<and> raw_ok el (b @ replicate n None) \<and> need \<le> length b + n"
    "\<not> (need \<le> length b \<or> granted al el cap) \<Longrightarrow> or_fail (reserved al el b need cap) = Panic"
proof -
  show "\<exists>n. or_fail (reserved al el b need cap) = Ret (b @ replicate n None)
      \<and> raw_ok el (b @ replicate n None) \<and> need \<le> length b + n" if "need \<le> length b \<or> granted al el cap"
  proof (cases "need \<le> length b")
    case True
    then show ?thesis using assms(1) by (intro exI [of _ 0]) (simp add: or_fail_reserved)
  next
    case False
    then show ?thesis using that assms granted_raw_ok [of el b al cap]
      by (intro exI [of _ "cap - length b"]) (simp add: or_fail_reserved)
  qed
qed (simp add: or_fail_reserved)

interpretation reserve: buffer_growth
  "\<lambda>b. raw_ok el b \<and> l_size el \<noteq> 0 \<and> len \<le> length b" "\<lambda>b. raw_reserve al el b len additional"
  "\<lambda>b. len + additional" "\<lambda>b. has_room al el b (len + additional)" for el al len additional
proof unfold_locales
  fix b :: "'a cells"
  assume b: "raw_ok el b \<and> l_size el \<noteq> 0 \<and> len \<le> length b"
  then have e: "raw_reserve al el b len additional = or_fail (reserved al el b (len + additional) (amortized el b (len + additional)))"
    by (intro raw_reserve_exactly) simp_all
  note g = reserved_growth [of el b "len + additional" "amortized el b (len + additional)" al]
  show "\<exists>n. raw_reserve al el b len additional = Ret (b @ replicate n None)
      \<and> (raw_ok el (b @ replicate n None) \<and> l_size el \<noteq> 0 \<and> len \<le> length (b @ replicate n None)) \<and> len + additional \<le> length b + n"
    if "has_room al el b (len + additional)"
    using that b g(1) amortized_ge(1,2) unfolding e has_room_def by fastforce
  show "raw_reserve al el b len additional = Panic" if "\<not> has_room al el b (len + additional)"
    using that b g(2) amortized_ge(1,2) unfolding e has_room_def by blast
qed

interpretation reserve_exact: buffer_growth
  "\<lambda>b. raw_ok el b \<and> l_size el \<noteq> 0 \<and> len \<le> length b" "\<lambda>b. raw_reserve_exact al el b len additional"
  "\<lambda>b. len + additional" "\<lambda>b. len + additional \<le> length b \<or> granted al el (len + additional)" for el al len additional
proof unfold_locales
  fix b :: "'a cells"
  assume b: "raw_ok el b \<and> l_size el \<noteq> 0 \<and> len \<le> length b"
  then have e: "raw_reserve_exact al el b len additional = or_fail (reserved al el b (len + additional) (len + additional))"
    by (intro raw_reserve_exact_exactly) simp_all
  note g = reserved_growth [of el b "len + additional" "len + additional" al]
  show "\<exists>n. raw_reserve_exact al el b len additional = Ret (b @ replicate n None)
      \<and> (raw_ok el (b @ replicate n None) \<and> l_size el \<noteq> 0 \<and> len \<le> length (b @ replicate n None)) \<and> len + additional \<le> length b + n"
    if "len + additional \<le> length b \<or> granted al el (len + additional)"
    using that b g(1) unfolding e by fastforce
  show "raw_reserve_exact al el b len additional = Panic" if "\<not> (len + additional \<le> length b \<or> granted al el (len + additional))"
    using that b g(2) unfolding e by simp
qed

section \<open>Property\<close>

text \<open>C13: the buffer operations of a sized element type, exactly. On a valid buffer they have no undefined behaviour,
  the contract of the allocator included. Reserving does nothing when there is room; otherwise the buffer gets the capacity
  that is asked for, at least doubled unless it is \<open>exact\<close>, with the old cells in front, and the call fails
  exactly when that many elements are no valid layout or the allocator refuses them, with the error that says which. Shrinking
  keeps the front cells or reports the refused request, and panics exactly when it would grow. Every buffer that is returned
  is valid.\<close>

theorem raw_vec_operations:
  fixes b :: "'a cells" and additional :: nat
  assumes "raw_ok el b" "len \<le> length b" "l_size el \<noteq> 0"
  defines "need \<equiv> len + additional" and "large \<equiv> max (min_non_zero_cap (l_size el)) (max (length b * 2) (len + additional))"
    and "one \<equiv> max (min_non_zero_cap (l_size el)) (max (length b * 2) (Suc (length b)))"
  shows "raw_try_reserve al el b len additional = Ret (reserved al el b need large)
    \<and> raw_try_reserve_exact al el b len additional = Ret (reserved al el b need need)
    \<and> raw_reserve al el b len additional = or_fail (reserved al el b need large)
    \<and> raw_reserve_exact al el b len additional = or_fail (reserved al el b need need)
    \<and> raw_grow_one al el b = or_fail (reserved al el b (Suc (length b)) one)
    \<and> raw_with_capacity_in al el n = (if n = 0 \<or> granted al el n then Ret (replicate n None :: 'a cells) else Panic)
    \<and> shrink al el b cap = (if cap \<le> length b then Ret (if length b = 0 then Inr b
        else if cap = 0 \<or> al (array_layout el cap) then Inr (take cap b) else Inl (AllocError (array_layout el cap))) else Panic)
    \<and> (\<forall>b'. reserved al el b need large = Inr b' \<or> reserved al el b need need = Inr b' \<longrightarrow> grown_to el b need b')
    \<and> (granted al el one \<longrightarrow> raw_ok el (extend_to b one)) \<and> (cap \<le> length b \<longrightarrow> raw_ok el (take cap b))"
proof -
  have l: "large = amortized el b need" "one = amortized el b (Suc (length b))" by (simp_all add: large_def one_def need_def amortized_def)
  have 1: "raw_grow_one al el b = or_fail (reserved al el b (Suc (length b)) one)"
    by (simp add: raw_grow_one_exactly [OF assms(1,3)] or_fail_reserved l)
  have 2: "raw_with_capacity_in al el n = (if n = 0 \<or> granted al el n then Ret (replicate n None :: 'a cells) else Panic)"
    using assms(1) by (intro raw_with_capacity_exactly(2)) (simp_all add: raw_ok_def assms(3))
  have 3: "grown_to el b need b'" if "reserved al el b need large = Inr b'" for b'
    using reserved_grown_to [OF assms(1) amortized_ge(1,2) that [unfolded l]] .
  have 4: "grown_to el b need b'" if "reserved al el b need need = Inr b'" for b'
    using that granted_grown_to [OF assms(1)] grown_to_refl [OF assms(1)] by (auto simp: reserved_def split: if_splits)
  have 5: "granted al el one \<Longrightarrow> raw_ok el (extend_to b one)" unfolding l by (rule granted_raw_ok [OF assms(1) _ amortized_ge(1)])
  note 6 = raw_try_reserve_exactly [OF assms(1-3), of al additional, folded need_def, folded l(1)]
    raw_try_reserve_exact_exactly [OF assms(1-3), of al additional, folded need_def]
    raw_reserve_exactly [OF assms(1-3), of al additional, folded need_def, folded l(1)]
    raw_reserve_exact_exactly [OF assms(1-3), of al additional, folded need_def]
  show ?thesis using 3 4 5 shrink_exactly(2) [OF assms(1,3), of cap]
    by (intro conjI allI impI 1 2 6 shrink_exactly(1) [OF assms(1,3)]) blast+
qed

lemma demo_raw_ok: "raw_ok \<lparr>l_size = 4, l_align = 4\<rparr> [Some CHR ''x'', None]"
  by (simp add: raw_ok_def elem_ok_def layout_ok_def demo_pow2 isize_bound_def)

theorem raw_vec_operations_witness:
  "raw_grow_one (\<lambda>_. True) \<lparr>l_size = 4, l_align = 4\<rparr> [Some CHR ''x'', None] = Ret [Some CHR ''x'', None, None, None]
   \<and> raw_grow_one (\<lambda>l. l_size l < 16) \<lparr>l_size = 4, l_align = 4\<rparr> [Some CHR ''x'', None] = Panic
   \<and> shrink (\<lambda>_. True) \<lparr>l_size = 4, l_align = 4\<rparr> [Some CHR ''x'', None] 1 = Ret (Inr [Some CHR ''x''])"
proof -
  have "layout_ok (array_layout \<lparr>l_size = 4, l_align = 4\<rparr> 4)" by (simp add: array_layout_def layout_ok_def demo_pow2 isize_bound_def)
  then show ?thesis
    using raw_vec_operations [OF demo_raw_ok, of 0 "\<lambda>_. True" 0 0 1] raw_vec_operations [OF demo_raw_ok, of 0 "\<lambda>l. l_size l < 16" 0 0 1]
    by (auto simp: reserved_def or_fail_def granted_def min_non_zero_cap_def array_layout_def)
qed

end
