(* ===== verification/Vec_Deque_Buffer.thy ===== *)
theory Vec_Deque_Buffer
  imports Raw_Vec
begin

text \<open>
  The ring buffer underneath \<open>VecDeque\<close>, \<open>library/alloc/src/collections/vec_deque/mod.rs\<close>: index
  arithmetic, raw reads, writes and block copies, and \<open>wrap_copy\<close>, which moves a block of elements that
  may wrap around the end of the buffer in source, destination or both. Element types have a non-zero
  size, so the capacity is the number of cells. Reads of uninitialised cells, accesses out of range
  and overlapping non-overlapping copies are undefined behaviour.
\<close>

record 'a vec_deque =
  vd_head :: nat
  vd_len :: nat
  vd_buf :: "'a cells"

definition vd_cap :: "'a vec_deque \<Rightarrow> nat" where
  "vd_cap d = length (vd_buf d)"

definition wrap_index :: "nat \<Rightarrow> nat \<Rightarrow> nat" where
  "wrap_index logical_index cap = (if logical_index \<ge> cap then logical_index - cap else logical_index)"

definition wrap_add :: "'a vec_deque \<Rightarrow> nat \<Rightarrow> nat \<Rightarrow> nat" where
  "wrap_add d idx addend = wrap_index (usize_wrapping_add idx addend) (vd_cap d)"

definition to_physical_idx :: "'a vec_deque \<Rightarrow> nat \<Rightarrow> nat" where
  "to_physical_idx d idx = wrap_add d (vd_head d) idx"

definition wrap_sub :: "'a vec_deque \<Rightarrow> nat \<Rightarrow> nat \<Rightarrow> nat" where
  "wrap_sub d idx subtrahend =
     wrap_index (usize_wrapping_add (usize_wrapping_sub idx subtrahend) (vd_cap d)) (vd_cap d)"

definition buffer_read :: "'a vec_deque \<Rightarrow> nat \<Rightarrow> 'a outcome" where
  "buffer_read d off =
     (if off < vd_cap d then (case vd_buf d ! off of Some x \<Rightarrow> Ret x | None \<Rightarrow> UB) else UB)"

definition buffer_write :: "'a vec_deque \<Rightarrow> nat \<Rightarrow> 'a \<Rightarrow> 'a vec_deque outcome" where
  "buffer_write d off v =
     (if off < vd_cap d then Ret (d\<lparr>vd_buf := (vd_buf d)[off := Some v]\<rparr>) else UB)"

definition buf_copy :: "'a vec_deque \<Rightarrow> nat \<Rightarrow> nat \<Rightarrow> nat \<Rightarrow> 'a vec_deque outcome" where
  "buf_copy d src dst len =
     (if dst + len \<le> vd_cap d \<and> src + len \<le> vd_cap d
      then Ret (d\<lparr>vd_buf := mem_move (vd_buf d) src dst len\<rparr>) else UB)"

definition buf_copy_nonoverlapping :: "'a vec_deque \<Rightarrow> nat \<Rightarrow> nat \<Rightarrow> nat \<Rightarrow> 'a vec_deque outcome" where
  "buf_copy_nonoverlapping d src dst len =
     (if dst + len \<le> vd_cap d \<and> src + len \<le> vd_cap d \<and> (src + len \<le> dst \<or> dst + len \<le> src)
      then Ret (d\<lparr>vd_buf := mem_move (vd_buf d) src dst len\<rparr>) else UB)"

definition abs_diff :: "nat \<Rightarrow> nat \<Rightarrow> nat" where
  "abs_diff a b = (if a < b then b - a else a - b)"

text \<open>The precondition that the source asserts in debug builds is the contract of \<open>wrap_copy\<close>.\<close>

definition wrap_copy :: "'a vec_deque \<Rightarrow> nat \<Rightarrow> nat \<Rightarrow> nat \<Rightarrow> 'a vec_deque outcome" where
  "wrap_copy d src dst len =
     (if \<not> min (abs_diff src dst) (vd_cap d - abs_diff src dst) + len \<le> vd_cap d then UB
      else if src = dst \<or> len = 0 then Ret d
      else
        (let dst_after_src = wrap_sub d dst src < len;
             src_pre_wrap_len = vd_cap d - src;
             dst_pre_wrap_len = vd_cap d - dst;
             src_wraps = src_pre_wrap_len < len;
             dst_wraps = dst_pre_wrap_len < len
         in if \<not> src_wraps \<and> \<not> dst_wraps then buf_copy d src dst len
            else if \<not> dst_after_src \<and> \<not> src_wraps \<and> dst_wraps then
              and_then (buf_copy d src dst dst_pre_wrap_len) (\<lambda>d.
                buf_copy d (src + dst_pre_wrap_len) 0 (len - dst_pre_wrap_len))
            else if dst_after_src \<and> \<not> src_wraps \<and> dst_wraps then
              and_then (buf_copy d (src + dst_pre_wrap_len) 0 (len - dst_pre_wrap_len)) (\<lambda>d.
                buf_copy d src dst dst_pre_wrap_len)
            else if \<not> dst_after_src \<and> src_wraps \<and> \<not> dst_wraps then
              and_then (buf_copy d src dst src_pre_wrap_len) (\<lambda>d.
                buf_copy d 0 (dst + src_pre_wrap_len) (len - src_pre_wrap_len))
            else if dst_after_src \<and> src_wraps \<and> \<not> dst_wraps then
              and_then (buf_copy d 0 (dst + src_pre_wrap_len) (len - src_pre_wrap_len)) (\<lambda>d.
                buf_copy d src dst src_pre_wrap_len)
            else if \<not> dst_after_src then
              (let delta = dst_pre_wrap_len - src_pre_wrap_len in
               and_then (buf_copy d src dst src_pre_wrap_len) (\<lambda>d.
               and_then (buf_copy d 0 (dst + src_pre_wrap_len) delta) (\<lambda>d.
                 buf_copy d delta 0 (len - dst_pre_wrap_len))))
            else
              (let delta = src_pre_wrap_len - dst_pre_wrap_len in
               and_then (buf_copy d 0 delta (len - src_pre_wrap_len)) (\<lambda>d.
               and_then (buf_copy d (vd_cap d - delta) 0 delta) (\<lambda>d.
                 buf_copy d src dst dst_pre_wrap_len)))))"

section \<open>Index arithmetic\<close>

lemma wrap_index_less: "x < 2 * c \<Longrightarrow> wrap_index x c < c"
  by (auto simp: wrap_index_def)

lemma wrap_add_eq: "vd_cap d < isize_bound \<Longrightarrow> idx \<le> vd_cap d \<Longrightarrow> i \<le> vd_cap d
    \<Longrightarrow> wrap_add d idx i = wrap_index (idx + i) (vd_cap d)"
  by (simp add: wrap_add_def usize_wrapping_add_small usize_bound_double)

lemma to_physical_eq: "vd_cap d < isize_bound \<Longrightarrow> vd_head d \<le> vd_cap d \<Longrightarrow> i \<le> vd_cap d
    \<Longrightarrow> to_physical_idx d i = wrap_index (vd_head d + i) (vd_cap d)"
  by (simp add: to_physical_idx_def wrap_add_eq)

lemma wrap_sub_eq:
  assumes "vd_cap d < isize_bound" "idx < vd_cap d" "s \<le> vd_cap d"
  shows "wrap_sub d idx s = (if s \<le> idx then idx - s else idx + vd_cap d - s)"
proof (cases "s \<le> idx")
  case True
  then have "usize_wrapping_sub idx s = idx - s" using assms by (simp add: usize_wrapping_sub_add usize_bound_double)
  then show ?thesis using True assms
    by (simp add: wrap_sub_def usize_wrapping_add_small usize_bound_double wrap_index_def)
next
  case False
  then have s: "usize_wrapping_sub idx s = usize_bound - (s - idx)"
    using assms by (intro usize_wrapping_sub_add) (auto simp: usize_bound_double)
  have "usize_bound - (s - idx) + vd_cap d = usize_bound + (idx + vd_cap d - s)"
    using False assms by (simp add: usize_bound_double)
  moreover have "idx + vd_cap d - s < usize_bound" using assms by (simp add: usize_bound_double)
  ultimately have "usize_wrapping_add (usize_wrapping_sub idx s) (vd_cap d) = idx + vd_cap d - s"
    unfolding usize_wrapping_add_def s by (metis add.commute mod_add_self2 mod_less)
  then show ?thesis using False assms by (simp add: wrap_sub_def wrap_index_def)
qed

section \<open>Block copies\<close>

lemma buf_copy_Ret:
  "dst + len \<le> vd_cap d \<Longrightarrow> src + len \<le> vd_cap d \<Longrightarrow>
    buf_copy d src dst len = Ret (d\<lparr>vd_buf := mem_move (vd_buf d) src dst len\<rparr>)"
  by (simp add: buf_copy_def)

lemma vd_cap_move [simp]:
  "dst + len \<le> vd_cap d \<Longrightarrow> src + len \<le> vd_cap d \<Longrightarrow>
    vd_cap (d\<lparr>vd_buf := mem_move (vd_buf d) src dst len\<rparr>) = vd_cap d"
  by (simp add: vd_cap_def)

text \<open>The position of a cell counted from the destination, and what \<open>wrap_copy\<close> leaves there.\<close>

definition offset_from :: "nat \<Rightarrow> nat \<Rightarrow> nat \<Rightarrow> nat" where
  "offset_from c dst j = (if dst \<le> j then j - dst else j + c - dst)"

definition ring_moved :: "'a cells \<Rightarrow> nat \<Rightarrow> nat \<Rightarrow> nat \<Rightarrow> 'a cells \<Rightarrow> bool" where
  "ring_moved b src dst len b' \<longleftrightarrow> length b' = length b \<and> (\<forall>j < length b. b' ! j =
     (if offset_from (length b) dst j < len
      then b ! wrap_index (src + offset_from (length b) dst j) (length b) else b ! j))"

lemma ring_moved_direct:
  assumes "src + len \<le> length b" "dst + len \<le> length b"
  shows "ring_moved b src dst len (mem_move b src dst len)"
  using assms by (auto simp: ring_moved_def nth_mem_move offset_from_def wrap_index_def intro!: arg_cong [where f = "(!) b"])

lemma ring_moved_dst_wraps_before:
  assumes "src + len \<le> n" "dst < n" "n < dst + len" "n = length b" "src + len \<le> dst"
  shows "ring_moved b src dst len
    (mem_move (mem_move b src dst (n - dst)) (src + (n - dst)) 0 (len - (n - dst)))"
  using assms by (auto simp: ring_moved_def nth_mem_move offset_from_def wrap_index_def intro!: arg_cong [where f = "(!) b"])

lemma ring_moved_dst_wraps_after:
  assumes "src + len \<le> n" "dst < n" "n < dst + len" "n = length b" "dst < src + len" "dst - src + len \<le> n" "src < dst"
  shows "ring_moved b src dst len
    (mem_move (mem_move b (src + (n - dst)) 0 (len - (n - dst))) src dst (n - dst))"
  using assms by (auto simp: ring_moved_def nth_mem_move offset_from_def wrap_index_def intro!: arg_cong [where f = "(!) b"])

lemma ring_moved_src_wraps_before:
  assumes "dst + len \<le> n" "src < n" "n < src + len" "n = length b" "dst < src" "src - dst + len \<le> n"
  shows "ring_moved b src dst len
    (mem_move (mem_move b src dst (n - src)) 0 (dst + (n - src)) (len - (n - src)))"
  using assms by (auto simp: ring_moved_def nth_mem_move offset_from_def wrap_index_def intro!: arg_cong [where f = "(!) b"])

lemma ring_moved_src_wraps_after:
  assumes "dst + len \<le> n" "src < n" "n < src + len" "n = length b" "dst + n < src + len" "dst + len \<le> src"
  shows "ring_moved b src dst len
    (mem_move (mem_move b 0 (dst + (n - src)) (len - (n - src))) src dst (n - src))"
  using assms by (auto simp: ring_moved_def nth_mem_move offset_from_def wrap_index_def intro!: arg_cong [where f = "(!) b"])

lemma ring_moved_both_wrap_before:
  assumes "n < dst + len" "src < n" "n < src + len" "n = length b" "dst < src" "src - dst + len \<le> n"
  shows "ring_moved b src dst len
    (mem_move (mem_move (mem_move b src dst (n - src)) 0 (dst + (n - src)) (src - dst)) (src - dst) 0 (len - (n - dst)))"
    (is "ring_moved _ _ _ _ ?b3")
proof -
  define b1 where "b1 = mem_move b src dst (n - src)"
  define b2 where "b2 = mem_move b1 0 (dst + (n - src)) (src - dst)"
  have b1: "length b1 = n" "\<And>j. j < n \<Longrightarrow> b1 ! j = (if dst \<le> j \<and> j < dst + (n - src) then b ! (src + (j - dst)) else b ! j)"
    using assms by (auto simp: b1_def nth_mem_move)
  have b2: "length b2 = n" "\<And>j. j < n \<Longrightarrow> b2 ! j = (if dst + (n - src) \<le> j then b1 ! (j - (dst + (n - src))) else b1 ! j)"
    using assms b1(1) by (auto simp: b2_def nth_mem_move)
  define b3 where "b3 = ?b3"
  have b3: "length b3 = n" "\<And>j. j < n \<Longrightarrow> b3 ! j = (if j < len - (n - dst) then b2 ! (src - dst + j) else b2 ! j)"
    using assms b2(1) unfolding b3_def b1_def [symmetric] b2_def [symmetric] by (auto simp: nth_mem_move)
  have "b3 ! j = (if offset_from n dst j < len then b ! wrap_index (src + offset_from n dst j) n else b ! j)"
    if j: "j < n" for j
  proof -
    consider "j < len - (n - dst)" | "len - (n - dst) \<le> j" "j < dst" | "dst \<le> j" "j < dst + (n - src)"
      | "dst + (n - src) \<le> j" by linarith
    then show ?thesis
    proof cases
      case 1
      have "b2 ! (src - dst + j) = b ! (src - dst + j)" using 1 assms j by (auto simp: b1(2) b2(2))
      moreover have "wrap_index (src + offset_from n dst j) n = src - dst + j" "offset_from n dst j < len"
        using 1 assms j by (auto simp: offset_from_def wrap_index_def)
      ultimately show ?thesis using 1 j by (simp add: b3(2))
    next
      case 2
      then have "\<not> offset_from n dst j < len" "\<not> dst + (n - src) \<le> j" using assms by (auto simp: offset_from_def)
      with 2 show ?thesis using assms(2) j by (auto simp: b3(2) b2(2) b1(2))
    next
      case 3
      have "wrap_index (src + offset_from n dst j) n = src + (j - dst)" "offset_from n dst j < len"
        using 3 assms by (auto simp: offset_from_def wrap_index_def)
      moreover have "\<not> j < len - (n - dst)" "\<not> dst + (n - src) \<le> j" using 3 assms by linarith+
      ultimately show ?thesis using 3 j by (simp add: b3(2) b2(2) b1(2))
    next
      case 4
      have "wrap_index (src + offset_from n dst j) n = j - (dst + (n - src))" "offset_from n dst j < len"
        using 4 assms j by (auto simp: offset_from_def wrap_index_def)
      moreover have "\<not> j < len - (n - dst)" "j - (dst + (n - src)) < n" "\<not> dst \<le> j - (dst + (n - src))"
        using 4 assms j by linarith+
      ultimately show ?thesis using 4 j by (simp add: b3(2) b2(2) b1(2))
    qed
  qed
  then show ?thesis using b3(1) assms(4) unfolding b3_def [symmetric] by (simp add: ring_moved_def)
qed

lemma ring_moved_both_wrap_after:
  assumes "n < dst + len" "dst < n" "n < src + len" "n = length b" "src < dst" "dst - src + len \<le> n"
  shows "ring_moved b src dst len
    (mem_move (mem_move (mem_move b 0 (dst - src) (len - (n - src))) (n - (dst - src)) 0 (dst - src)) src dst (n - dst))"
    (is "ring_moved _ _ _ _ ?b3")
proof -
  define b1 where "b1 = mem_move b 0 (dst - src) (len - (n - src))"
  define b2 where "b2 = mem_move b1 (n - (dst - src)) 0 (dst - src)"
  have b1: "length b1 = n" "\<And>j. j < n \<Longrightarrow> b1 ! j =
      (if dst - src \<le> j \<and> j < dst - src + (len - (n - src)) then b ! (j - (dst - src)) else b ! j)"
    using assms by (auto simp: b1_def nth_mem_move)
  have b2: "length b2 = n" "\<And>j. j < n \<Longrightarrow> b2 ! j = (if j < dst - src then b1 ! (n - (dst - src) + j) else b1 ! j)"
    using assms b1(1) by (auto simp: b2_def nth_mem_move)
  define b3 where "b3 = ?b3"
  have b3: "length b3 = n" "\<And>j. j < n \<Longrightarrow> b3 ! j = (if dst \<le> j then b2 ! (src + (j - dst)) else b2 ! j)"
    using assms b2(1) unfolding b3_def b1_def [symmetric] b2_def [symmetric] by (auto simp: nth_mem_move)
  have "b3 ! j = (if offset_from n dst j < len then b ! wrap_index (src + offset_from n dst j) n else b ! j)"
    if j: "j < n" for j
  proof -
    consider "j < dst - src" | "dst - src \<le> j" "j < dst - src + (len - (n - src))"
      | "dst - src + (len - (n - src)) \<le> j" "j < dst" | "dst \<le> j" by linarith
    then show ?thesis
    proof cases
      case 1
      have "wrap_index (src + offset_from n dst j) n = n - (dst - src) + j" "offset_from n dst j < len"
        using 1 assms j by (auto simp: offset_from_def wrap_index_def)
      moreover have "\<not> dst \<le> j" "n - (dst - src) + j < n" "\<not> n - (dst - src) + j < dst - src + (len - (n - src))"
        using 1 assms by linarith+
      ultimately show ?thesis using 1 j by (auto simp: b3(2) b2(2) b1(2))
    next
      case 2
      have "wrap_index (src + offset_from n dst j) n = j - (dst - src)" "offset_from n dst j < len"
        using 2 assms j by (auto simp: offset_from_def wrap_index_def)
      moreover have "\<not> dst \<le> j" "\<not> j < dst - src" using 2 assms by linarith+
      ultimately show ?thesis using 2 j by (simp add: b3(2) b2(2) b1(2))
    next
      case 3
      then have "\<not> offset_from n dst j < len" using assms by (auto simp: offset_from_def)
      moreover have "\<not> dst \<le> j" "\<not> j < dst - src" "\<not> j < dst - src + (len - (n - src))" using 3 assms by linarith+
      ultimately show ?thesis using j by (simp add: b3(2) b2(2) b1(2))
    next
      case 4
      have "wrap_index (src + offset_from n dst j) n = src + (j - dst)" "offset_from n dst j < len"
        using 4 assms j by (auto simp: offset_from_def wrap_index_def)
      moreover have "src + (j - dst) < n" "\<not> src + (j - dst) < dst - src"
        "\<not> src + (j - dst) < dst - src + (len - (n - src))" using 4 assms j by linarith+
      ultimately show ?thesis using 4 j by (simp add: b3(2) b2(2) b1(2))
    qed
  qed
  then show ?thesis using b3(1) assms(4) unfolding b3_def [symmetric] by (simp add: ring_moved_def)
qed

lemma ring_moved_refl: "src < length b \<Longrightarrow> src = dst \<or> len = 0 \<Longrightarrow> ring_moved b src dst len b"
  by (auto simp: ring_moved_def offset_from_def wrap_index_def)

lemma buf_copy_on:
  "length c = vd_cap d \<Longrightarrow> s + l \<le> vd_cap d \<Longrightarrow> t + l \<le> vd_cap d \<Longrightarrow>
    buf_copy (d\<lparr>vd_buf := c\<rparr>) s t l = Ret (d\<lparr>vd_buf := mem_move c s t l\<rparr>)"
  by (simp add: buf_copy_def vd_cap_def)

lemma buf_copy_here:
  "s + l \<le> vd_cap d \<Longrightarrow> t + l \<le> vd_cap d \<Longrightarrow> buf_copy d s t l = Ret (d\<lparr>vd_buf := mem_move (vd_buf d) s t l\<rparr>)"
  by (simp add: buf_copy_def)

lemma length_move_buf:
  "s + l \<le> vd_cap d \<Longrightarrow> t + l \<le> vd_cap d \<Longrightarrow> length (mem_move (vd_buf d) s t l) = vd_cap d"
  by (simp add: vd_cap_def)

lemma wrap_copy_branch:
  assumes "min (abs_diff src dst) (vd_cap d - abs_diff src dst) + len \<le> vd_cap d" "src \<noteq> dst" "len \<noteq> 0"
    and "(wrap_sub d dst src < len) = A" "(vd_cap d - src < len) = S" "(vd_cap d - dst < len) = D"
  shows "wrap_copy d src dst len =
    (let p = vd_cap d - src; q = vd_cap d - dst in
     if \<not> S \<and> \<not> D then buf_copy d src dst len
     else if \<not> S \<and> \<not> A then and_then (buf_copy d src dst q) (\<lambda>d. buf_copy d (src + q) 0 (len - q))
     else if \<not> S \<and> A then and_then (buf_copy d (src + q) 0 (len - q)) (\<lambda>d. buf_copy d src dst q)
     else if \<not> D \<and> \<not> A then and_then (buf_copy d src dst p) (\<lambda>d. buf_copy d 0 (dst + p) (len - p))
     else if \<not> D \<and> A then and_then (buf_copy d 0 (dst + p) (len - p)) (\<lambda>d. buf_copy d src dst p)
     else if \<not> A then and_then (buf_copy d src dst p) (\<lambda>d. and_then (buf_copy d 0 (dst + p) (q - p)) (\<lambda>d.
         buf_copy d (q - p) 0 (len - q)))
     else and_then (buf_copy d 0 (p - q) (len - p)) (\<lambda>d. and_then (buf_copy d (vd_cap d - (p - q)) 0 (p - q)) (\<lambda>d.
         buf_copy d src dst q)))"
  unfolding wrap_copy_def Let_def assms(4-6) using assms(1-3) by (cases A; cases S; cases D) simp_all

text \<open>\<open>wrap_copy\<close> moves the ring segment, whichever of source and destination wrap around.\<close>

definition moves_ring :: "'a vec_deque \<Rightarrow> nat \<Rightarrow> nat \<Rightarrow> nat \<Rightarrow> bool" where
  "moves_ring d src dst len \<longleftrightarrow> (\<exists>b. wrap_copy d src dst len = Ret (d\<lparr>vd_buf := b\<rparr>)
     \<and> ring_moved (vd_buf d) src dst len b)"

lemma moves_ringI:
  "wrap_copy d src dst len = Ret (d\<lparr>vd_buf := b\<rparr>) \<Longrightarrow> ring_moved (vd_buf d) src dst len b \<Longrightarrow> moves_ring d src dst len"
  by (auto simp: moves_ring_def)

lemma wrap_copy_no_src_wrap:
  assumes "vd_cap d < isize_bound" "dst < vd_cap d" "src \<noteq> dst" "len \<noteq> 0" "src + len \<le> vd_cap d"
    and c: "min (abs_diff src dst) (vd_cap d - abs_diff src dst) + len \<le> vd_cap d"
  shows "moves_ring d src dst len"
proof -
  let ?n = "vd_cap d"
  have n: "?n = length (vd_buf d)" by (simp add: vd_cap_def)
  have S: "(?n - src < len) = False" using assms by simp
  have ws: "wrap_sub d dst src = (if src \<le> dst then dst - src else dst + ?n - src)"
    using assms by (intro wrap_sub_eq) auto
  note br = wrap_copy_branch [OF c assms(3,4) _ S, simplified Let_def, simplified]
  consider (plain) "dst + len \<le> ?n" | (before) "?n < dst + len" "\<not> wrap_sub d dst src < len"
    | (after) "?n < dst + len" "wrap_sub d dst src < len" by linarith
  then show ?thesis
  proof cases
    case plain
    then have "(?n - dst < len) = False" by simp
    with br [OF refl this] show ?thesis using assms plain n
      by (intro moves_ringI [OF _ ring_moved_direct]) (auto simp: buf_copy_here)
  next
    case before
    then have D: "(?n - dst < len) = True" and A: "(wrap_sub d dst src < len) = False" using assms(2) by simp_all
    have l: "src + len \<le> dst" using before ws assms by (auto split: if_splits)
    show ?thesis
      by (rule moves_ringI [OF _ ring_moved_dst_wraps_before [OF assms(5,2) before(1) n l]])
        (use br [OF A D] assms l before in \<open>simp add: buf_copy_here buf_copy_on length_move_buf\<close>)
  next
    case after
    then have D: "(?n - dst < len) = True" and A: "(wrap_sub d dst src < len) = True" using assms(2) by simp_all
    have l: "dst < src + len" "dst - src + len \<le> ?n" "src < dst"
      using after ws assms c by (auto simp: abs_diff_def split: if_splits)
    show ?thesis
      by (rule moves_ringI [OF _ ring_moved_dst_wraps_after [OF assms(5,2) after(1) n l]])
        (use br [OF A D] assms l after in \<open>simp add: buf_copy_here buf_copy_on length_move_buf\<close>)
  qed
qed

lemma wrap_copy_src_wraps_only:
  assumes "vd_cap d < isize_bound" "src < vd_cap d" "src \<noteq> dst" "len \<noteq> 0" "vd_cap d < src + len" "dst + len \<le> vd_cap d"
    and c: "min (abs_diff src dst) (vd_cap d - abs_diff src dst) + len \<le> vd_cap d"
  shows "moves_ring d src dst len"
proof -
  let ?n = "vd_cap d"
  have n: "?n = length (vd_buf d)" by (simp add: vd_cap_def)
  have S: "(?n - src < len) = True" and D: "(?n - dst < len) = False" using assms by simp_all
  have ws: "wrap_sub d dst src = (if src \<le> dst then dst - src else dst + ?n - src)"
    using assms by (intro wrap_sub_eq) auto
  note br = wrap_copy_branch [OF c assms(3,4) _ S D, simplified Let_def, simplified]
  show ?thesis
  proof (cases "wrap_sub d dst src < len")
    case False
    then have l: "dst < src" "src - dst + len \<le> ?n" using ws assms c by (auto simp: abs_diff_def split: if_splits)
    have A: "(wrap_sub d dst src < len) = False" using False by simp
    show ?thesis
      by (rule moves_ringI [OF _ ring_moved_src_wraps_before [OF assms(6,2,5) n l]])
        (use br [OF A] assms l in \<open>simp add: buf_copy_here buf_copy_on length_move_buf\<close>)
  next
    case True
    then have l: "dst + ?n < src + len" "dst + len \<le> src" using ws assms c by (auto simp: abs_diff_def split: if_splits)
    have A: "(wrap_sub d dst src < len) = True" using True by simp
    show ?thesis
      by (rule moves_ringI [OF _ ring_moved_src_wraps_after [OF assms(6,2,5) n l]])
        (use br [OF A] assms l in \<open>simp add: buf_copy_here buf_copy_on length_move_buf\<close>)
  qed
qed

lemma wrap_copy_both_wrap:
  assumes "vd_cap d < isize_bound" "src < vd_cap d" "dst < vd_cap d" "src \<noteq> dst" "len \<noteq> 0"
    "vd_cap d < src + len" "vd_cap d < dst + len"
    and c: "min (abs_diff src dst) (vd_cap d - abs_diff src dst) + len \<le> vd_cap d"
  shows "moves_ring d src dst len"
proof -
  let ?n = "vd_cap d"
  have n: "?n = length (vd_buf d)" by (simp add: vd_cap_def)
  have S: "(?n - src < len) = True" and D: "(?n - dst < len) = True" using assms by simp_all
  have ws: "wrap_sub d dst src = (if src \<le> dst then dst - src else dst + ?n - src)"
    using assms by (intro wrap_sub_eq) auto
  note br = wrap_copy_branch [OF c assms(4,5) _ S D, simplified Let_def, simplified]
  show ?thesis
  proof (cases "wrap_sub d dst src < len")
    case False
    then have l: "dst < src" "src - dst + len \<le> ?n" using ws assms c by (auto simp: abs_diff_def split: if_splits)
    have A: "(wrap_sub d dst src < len) = False" using False by simp
    have "?n - dst - (?n - src) = src - dst" using l assms(2) by simp
    then show ?thesis
      by (intro moves_ringI [OF _ ring_moved_both_wrap_before [OF assms(7,2,6) n l]])
        (use br [OF A] assms(2,6,7) l in \<open>simp add: buf_copy_here buf_copy_on length_move_buf\<close>)
  next
    case True
    then have l: "src < dst" "dst - src + len \<le> ?n" using ws assms c by (auto simp: abs_diff_def split: if_splits)
    have A: "(wrap_sub d dst src < len) = True" using True by simp
    have e: "?n - src - (?n - dst) = dst - src" using l assms(3) by simp
    have "vd_cap (d\<lparr>vd_buf := mem_move (vd_buf d) 0 (dst - src) (len - (?n - src))\<rparr>) = ?n"
      using assms l by (intro vd_cap_move) linarith+
    then show ?thesis using e
      by (intro moves_ringI [OF _ ring_moved_both_wrap_after [OF assms(7,3,6) n l]])
        (use br [OF A] assms(3,6,7) l in \<open>simp add: buf_copy_here buf_copy_on length_move_buf\<close>)
  qed
qed

lemma wrap_copy_moves:
  assumes "vd_cap d < isize_bound" "src < vd_cap d" "dst < vd_cap d"
    and "min (abs_diff src dst) (vd_cap d - abs_diff src dst) + len \<le> vd_cap d"
  shows "moves_ring d src dst len"
proof (cases "src = dst \<or> len = 0")
  case True
  then show ?thesis using assms ring_moved_refl [of src "vd_buf d" dst len]
    by (intro moves_ringI [of _ _ _ _ "vd_buf d"]) (auto simp: wrap_copy_def vd_cap_def)
next
  case False
  then show ?thesis using assms wrap_copy_no_src_wrap wrap_copy_src_wraps_only wrap_copy_both_wrap
    by (metis not_le)
qed

end
