(* ===== verification/Call_Sequences.thy ===== *)
theory Call_Sequences
  imports Rust_Prelude
begin

text \<open>
  Sequences of calls on a stateful component and what it means that they implement a specification on
  abstract values. A call may panic for two reasons only: the specification says so (\<open>None\<close>), or the
  call needs memory that is not to be had. The second is a predicate on the call and the state,
  which the component has to give; where it does not hold, the call has to return.
\<close>

fun run_calls :: "('c \<Rightarrow> 's \<Rightarrow> ('r \<times> 's) outcome) \<Rightarrow> 'c list \<Rightarrow> 's \<Rightarrow> ('r list \<times> 's) outcome" where
  "run_calls step [] s = Ret ([], s)"
| "run_calls step (c # cs) s =
     and_then (step c s) (\<lambda>(r, s). and_then (run_calls step cs s) (\<lambda>(rs, s). Ret (r # rs, s)))"

fun spec_calls :: "('c \<Rightarrow> 'x \<Rightarrow> ('r \<times> 'x) option) \<Rightarrow> 'c list \<Rightarrow> 'x \<Rightarrow> ('r list \<times> 'x) option" where
  "spec_calls spec [] x = Some ([], x)"
| "spec_calls spec (c # cs) x = (case spec c x of
     None \<Rightarrow> None
   | Some (r, x) \<Rightarrow> (case spec_calls spec cs x of None \<Rightarrow> None | Some (rs, x) \<Rightarrow> Some (r # rs, x)))"

text \<open>A sequence runs out of memory: the calls before some call return, and that call is stuck.\<close>

fun runs_out :: "('c \<Rightarrow> 's \<Rightarrow> ('r \<times> 's) outcome) \<Rightarrow> ('c \<Rightarrow> 's \<Rightarrow> bool) \<Rightarrow> 'c list \<Rightarrow> 's \<Rightarrow> bool" where
  "runs_out step stuck [] s \<longleftrightarrow> False"
| "runs_out step stuck (c # cs) s \<longleftrightarrow>
     stuck c s \<or> (case step c s of Ret (r, s') \<Rightarrow> runs_out step stuck cs s' | _ \<Rightarrow> False)"

text \<open>The outcome of a call, or of a sequence, against its specification.\<close>

definition refines :: "('x \<Rightarrow> 's \<Rightarrow> bool) \<Rightarrow> bool \<Rightarrow> ('r \<times> 's) outcome \<Rightarrow> ('r \<times> 'x) option \<Rightarrow> bool" where
  "refines rep blocked m p = (case p of
     None \<Rightarrow> m = Panic
   | Some (r, x) \<Rightarrow> if blocked then m = Panic else \<exists>s. m = Ret (r, s) \<and> rep x s)"

lemma refines_Some:
  "refines rep blocked m (Some p) \<longleftrightarrow> (if blocked then m = Panic else \<exists>s. m = Ret (fst p, s) \<and> rep (snd p) s)"
  by (simp add: refines_def split: prod.split)

locale call_machine =
  fixes rep :: "'x \<Rightarrow> 's \<Rightarrow> bool"
    and step :: "'c \<Rightarrow> 's \<Rightarrow> ('r \<times> 's) outcome"
    and spec :: "'c \<Rightarrow> 'x \<Rightarrow> ('r \<times> 'x) option"
    and stuck :: "'c \<Rightarrow> 's \<Rightarrow> bool"
  assumes step_refines: "rep x s \<Longrightarrow> refines rep (stuck c s) (step c s) (spec c x)"
begin

lemma run_refines: "rep x s \<Longrightarrow> refines rep (runs_out step stuck cs s) (run_calls step cs s) (spec_calls spec cs x)"
proof (induction cs arbitrary: x s)
  case (Cons c cs)
  note c = step_refines [OF Cons.prems, of c]
  show ?case
  proof (cases "spec c x")
    case (Some p)
    obtain r y where p: "p = (r, y)" by force
    from c Some p consider "stuck c s" "step c s = Panic" | s' where "\<not> stuck c s" "step c s = Ret (r, s')" "rep y s'"
      by (auto simp: refines_def split: if_splits)
    then show ?thesis
    proof cases
      case 2
      then show ?thesis using Cons.IH [OF 2(3)] Some p
        by (auto simp: refines_def split: option.splits prod.splits if_splits)
    qed (use Some p in \<open>auto simp: refines_def split: option.splits\<close>)
  qed (use c in \<open>simp add: refines_def\<close>)
qed (simp add: refines_def)

end

end
