(* ===== verification/Deque_Spec.thy ===== *)
theory Deque_Spec
  imports Call_Sequences
begin

text \<open>
  The interface of a double-ended queue: what pushing and popping at both ends promise, stated over an
  abstract list. A push panics when there is no memory for one more element, and only then; a pop never
  does. The client lemma, proved once from the laws, says that every sequence of calls returns what the same sequence
  returns on a list unless one of its pushes meets a deque that is out of memory.
\<close>

datatype 'a deque_op = Push_Back 'a | Push_Front 'a | Pop_Back | Pop_Front

text \<open>The meaning of a call on the abstract list, and of a sequence of calls with their results.\<close>

fun list_op :: "'a deque_op \<Rightarrow> 'a list \<Rightarrow> 'a option \<times> 'a list" where
  "list_op (Push_Back v) xs = (None, xs @ [v])"
| "list_op (Push_Front v) xs = (None, v # xs)"
| "list_op Pop_Back xs = (if xs = [] then (None, xs) else (Some (last xs), butlast xs))"
| "list_op Pop_Front xs = (case xs of [] \<Rightarrow> (None, []) | x # ys \<Rightarrow> (Some x, ys))"

fun list_run :: "'a deque_op list \<Rightarrow> 'a list \<Rightarrow> 'a option list \<times> 'a list" where
  "list_run [] xs = ([], xs)"
| "list_run (c # cs) xs =
     (case list_op c xs of (r, ys) \<Rightarrow> (case list_run cs ys of (rs, zs) \<Rightarrow> (r # rs, zs)))"

fun run_op :: "('d \<Rightarrow> 'a \<Rightarrow> 'd outcome) \<Rightarrow> ('d \<Rightarrow> 'a \<Rightarrow> 'd outcome) \<Rightarrow> ('d \<Rightarrow> ('a option \<times> 'd) outcome)
    \<Rightarrow> ('d \<Rightarrow> ('a option \<times> 'd) outcome) \<Rightarrow> 'a deque_op \<Rightarrow> 'd \<Rightarrow> ('a option \<times> 'd) outcome" where
  "run_op pb pf qb qf (Push_Back v) d = and_then (pb d v) (\<lambda>d. Ret (None, d))"
| "run_op pb pf qb qf (Push_Front v) d = and_then (pf d v) (\<lambda>d. Ret (None, d))"
| "run_op pb pf qb qf Pop_Back d = qb d"
| "run_op pb pf qb qf Pop_Front d = qf d"

text \<open>Only a push can lack memory.\<close>

fun push_stuck :: "('d \<Rightarrow> bool) \<Rightarrow> 'a deque_op \<Rightarrow> 'd \<Rightarrow> bool" where
  "push_stuck stuck (Push_Back v) d = stuck d"
| "push_stuck stuck (Push_Front v) d = stuck d"
| "push_stuck stuck Pop_Back d = False"
| "push_stuck stuck Pop_Front d = False"

lemma spec_calls_list_op: "spec_calls (\<lambda>c xs. Some (list_op c xs)) cs xs = Some (list_run cs xs)"
  by (induction cs arbitrary: xs) (auto split: prod.split)

locale deque =
  fixes rep :: "'d \<Rightarrow> 'a list \<Rightarrow> bool"
    and push_b push_f :: "'d \<Rightarrow> 'a \<Rightarrow> 'd outcome"
    and pop_b pop_f :: "'d \<Rightarrow> ('a option \<times> 'd) outcome"
    and stuck :: "'d \<Rightarrow> bool"
  assumes push_b: "rep d xs \<Longrightarrow> if stuck d then push_b d v = Panic else \<exists>d'. push_b d v = Ret d' \<and> rep d' (xs @ [v])"
    and push_f: "rep d xs \<Longrightarrow> if stuck d then push_f d v = Panic else \<exists>d'. push_f d v = Ret d' \<and> rep d' (v # xs)"
    and pop_b: "rep d xs \<Longrightarrow> \<exists>d'. pop_b d = Ret (if xs = [] then None else Some (last xs), d') \<and> rep d' (butlast xs)"
    and pop_f: "rep d xs \<Longrightarrow> \<exists>d'. pop_f d = Ret (if xs = [] then None else Some (hd xs), d') \<and> rep d' (tl xs)"
begin

lemma run_op_refines:
  assumes "rep d xs"
  shows "refines (\<lambda>xs d. rep d xs) (push_stuck stuck c d) (run_op push_b push_f pop_b pop_f c d) (Some (list_op c xs))"
proof (cases c)
  case (Push_Back v)
  then show ?thesis using push_b [OF assms, of v] by (auto simp: refines_Some)
next
  case (Push_Front v)
  then show ?thesis using push_f [OF assms, of v] by (auto simp: refines_Some)
next
  case Pop_Back
  then show ?thesis using pop_b [OF assms] by (auto simp: refines_Some)
next
  case Pop_Front
  then show ?thesis using pop_f [OF assms] by (auto simp: refines_Some split: list.splits)
qed

end

sublocale deque \<subseteq> calls: call_machine
  "\<lambda>xs d. rep d xs" "run_op push_b push_f pop_b pop_f" "\<lambda>c xs. Some (list_op c xs)" "push_stuck stuck"
  by unfold_locales (rule run_op_refines)

context deque begin

lemma run_ops_refines:
  assumes "rep d xs"
  shows "if runs_out (run_op push_b push_f pop_b pop_f) (push_stuck stuck) cs d
    then run_calls (run_op push_b push_f pop_b pop_f) cs d = Panic
    else \<exists>d'. run_calls (run_op push_b push_f pop_b pop_f) cs d = Ret (fst (list_run cs xs), d') \<and> rep d' (snd (list_run cs xs))"
  using calls.run_refines [OF assms, of cs] by (simp add: spec_calls_list_op refines_Some)

end

end
