(* ===== verification/Vec_Deque.thy ===== *)
theory Vec_Deque
  imports Vec_Deque_Buffer Deque_Spec
begin

text \<open>
  The double-ended queue \<open>VecDeque\<close>, \<open>library/alloc/src/collections/vec_deque/mod.rs\<close>, on the ring buffer
  of \<open>Vec_Deque_Buffer\<close>: growing and shrinking, access, insertion and removal at both ends and in the
  middle, rotation, splitting and appending, making the buffer contiguous, filtering. The abstract state is
  a list; every operation is shown to implement the list operation, to keep the representation invariant
  and to stay within the contracts of the unchecked buffer operations.

  Dropping an element leaves its cell as it is; the model does not count drops.
\<close>

section \<open>Operations\<close>

definition handle_capacity_increase :: "nat \<Rightarrow> 'a vec_deque \<Rightarrow> 'a vec_deque outcome" where
  "handle_capacity_increase old_capacity d =
     (let new_capacity = vd_cap d in
      if vd_head d \<le> old_capacity - vd_len d then Ret d
      else
        (let head_len = old_capacity - vd_head d;
             tail_len = vd_len d - head_len
         in if head_len > tail_len \<and> new_capacity - old_capacity \<ge> tail_len
            then buf_copy_nonoverlapping d 0 old_capacity tail_len
            else (let new_head = new_capacity - head_len in
                  and_then (buf_copy d (vd_head d) new_head head_len) (\<lambda>d. Ret (d\<lparr>vd_head := new_head\<rparr>)))))"

definition grow_with :: "('a cells \<Rightarrow> 'a cells outcome) \<Rightarrow> 'a vec_deque \<Rightarrow> 'a vec_deque outcome" where
  "grow_with g d = and_then (g (vd_buf d)) (\<lambda>b. handle_capacity_increase (vd_cap d) (d\<lparr>vd_buf := b\<rparr>))"

definition vd_grow :: "allocator \<Rightarrow> layout \<Rightarrow> 'a vec_deque \<Rightarrow> 'a vec_deque outcome" where
  "vd_grow al el d = grow_with (raw_grow_one al el) d"

definition vd_reserve :: "allocator \<Rightarrow> layout \<Rightarrow> 'a vec_deque \<Rightarrow> nat \<Rightarrow> 'a vec_deque outcome" where
  "vd_reserve al el d additional =
     (case usize_checked_add (vd_len d) additional of
        None \<Rightarrow> Panic
      | Some new_cap \<Rightarrow>
          if new_cap > vd_cap d then grow_with (\<lambda>b. raw_reserve al el b (vd_len d) additional) d else Ret d)"

definition vd_reserve_exact :: "allocator \<Rightarrow> layout \<Rightarrow> 'a vec_deque \<Rightarrow> nat \<Rightarrow> 'a vec_deque outcome" where
  "vd_reserve_exact al el d additional =
     (case usize_checked_add (vd_len d) additional of
        None \<Rightarrow> Panic
      | Some new_cap \<Rightarrow>
          if new_cap > vd_cap d then grow_with (\<lambda>b. raw_reserve_exact al el b (vd_len d) additional) d else Ret d)"

definition vd_with_capacity :: "allocator \<Rightarrow> layout \<Rightarrow> nat \<Rightarrow> 'a vec_deque outcome" where
  "vd_with_capacity al el cap =
     and_then (raw_with_capacity_in al el cap) (\<lambda>b. Ret \<lparr>vd_head = 0, vd_len = 0, vd_buf = b\<rparr>)"

definition is_full :: "'a vec_deque \<Rightarrow> bool" where
  "is_full d \<longleftrightarrow> vd_len d = vd_cap d"

definition vd_get :: "'a vec_deque \<Rightarrow> nat \<Rightarrow> 'a option outcome" where
  "vd_get d i =
     (if i < vd_len d then and_then (buffer_read d (to_physical_idx d i)) (\<lambda>x. Ret (Some x)) else Ret None)"

text \<open>Assignment through \<open>get_mut\<close>.\<close>

definition vd_set :: "'a vec_deque \<Rightarrow> nat \<Rightarrow> 'a \<Rightarrow> 'a vec_deque option outcome" where
  "vd_set d i v =
     (if i < vd_len d then and_then (buffer_write d (to_physical_idx d i) v) (\<lambda>d. Ret (Some d)) else Ret None)"

definition vd_swap :: "'a vec_deque \<Rightarrow> nat \<Rightarrow> nat \<Rightarrow> 'a vec_deque outcome" where
  "vd_swap d i j =
     (if \<not> i < vd_len d \<or> \<not> j < vd_len d then Panic
      else (let ri = to_physical_idx d i; rj = to_physical_idx d j in
        and_then (buffer_read d ri) (\<lambda>x. and_then (buffer_read d rj) (\<lambda>y.
        and_then (buffer_write d ri y) (\<lambda>d. buffer_write d rj x)))))"

definition vd_front :: "'a vec_deque \<Rightarrow> 'a option outcome" where
  "vd_front d = vd_get d 0"

definition vd_back :: "'a vec_deque \<Rightarrow> 'a option outcome" where
  "vd_back d = vd_get d (usize_wrapping_sub (vd_len d) 1)"

definition pop_front :: "'a vec_deque \<Rightarrow> ('a option \<times> 'a vec_deque) outcome" where
  "pop_front d =
     (if vd_len d = 0 then Ret (None, d)
      else (let old_head = vd_head d;
                d = d\<lparr>vd_head := to_physical_idx d 1, vd_len := vd_len d - 1\<rparr>
            in assert_unchecked (vd_len d < vd_cap d)
                 (and_then (buffer_read d old_head) (\<lambda>x. Ret (Some x, d)))))"

definition pop_back :: "'a vec_deque \<Rightarrow> ('a option \<times> 'a vec_deque) outcome" where
  "pop_back d =
     (if vd_len d = 0 then Ret (None, d)
      else (let d = d\<lparr>vd_len := vd_len d - 1\<rparr>
            in assert_unchecked (vd_len d < vd_cap d)
                 (and_then (buffer_read d (to_physical_idx d (vd_len d))) (\<lambda>x. Ret (Some x, d)))))"

definition ensure_room :: "allocator \<Rightarrow> layout \<Rightarrow> 'a vec_deque \<Rightarrow> 'a vec_deque outcome" where
  "ensure_room al el d = (if is_full d then vd_grow al el d else Ret d)"

definition push_front :: "allocator \<Rightarrow> layout \<Rightarrow> 'a vec_deque \<Rightarrow> 'a \<Rightarrow> 'a vec_deque outcome" where
  "push_front al el d v =
     and_then (ensure_room al el d) (\<lambda>d.
       let d = d\<lparr>vd_head := wrap_sub d (vd_head d) 1, vd_len := vd_len d + 1\<rparr>
       in buffer_write d (vd_head d) v)"

definition push_back :: "allocator \<Rightarrow> layout \<Rightarrow> 'a vec_deque \<Rightarrow> 'a \<Rightarrow> 'a vec_deque outcome" where
  "push_back al el d v =
     and_then (ensure_room al el d) (\<lambda>d.
     and_then (buffer_write d (to_physical_idx d (vd_len d)) v) (\<lambda>d. Ret (d\<lparr>vd_len := vd_len d + 1\<rparr>)))"

definition is_contiguous :: "'a vec_deque \<Rightarrow> bool" where
  "is_contiguous d \<longleftrightarrow> vd_head d \<le> vd_cap d - vd_len d"

definition swap_remove_front :: "'a vec_deque \<Rightarrow> nat \<Rightarrow> ('a option \<times> 'a vec_deque) outcome" where
  "swap_remove_front d i =
     (let len = vd_len d in
      if i < len \<and> i \<noteq> 0 then and_then (vd_swap d i 0) pop_front
      else if i \<ge> len then Ret (None, d) else pop_front d)"

definition swap_remove_back :: "'a vec_deque \<Rightarrow> nat \<Rightarrow> ('a option \<times> 'a vec_deque) outcome" where
  "swap_remove_back d i =
     (let len = vd_len d in
      if len > 0 \<and> i < len - 1 then and_then (vd_swap d i (len - 1)) pop_back
      else if i \<ge> len then Ret (None, d) else pop_back d)"

definition vd_insert :: "allocator \<Rightarrow> layout \<Rightarrow> 'a vec_deque \<Rightarrow> nat \<Rightarrow> 'a \<Rightarrow> 'a vec_deque outcome" where
  "vd_insert al el d i v =
     (if \<not> i \<le> vd_len d then Panic
      else and_then (ensure_room al el d) (\<lambda>d.
        let k = vd_len d - i in
        if k < i then
          and_then (wrap_copy d (to_physical_idx d i) (to_physical_idx d (i + 1)) k) (\<lambda>d.
          and_then (buffer_write d (to_physical_idx d i) v) (\<lambda>d. Ret (d\<lparr>vd_len := vd_len d + 1\<rparr>)))
        else
          (let old_head = vd_head d;
               d = d\<lparr>vd_head := wrap_sub d (vd_head d) 1\<rparr>
           in and_then (wrap_copy d old_head (vd_head d) i) (\<lambda>d.
              and_then (buffer_write d (to_physical_idx d i) v) (\<lambda>d. Ret (d\<lparr>vd_len := vd_len d + 1\<rparr>))))))"

definition vd_remove :: "'a vec_deque \<Rightarrow> nat \<Rightarrow> ('a option \<times> 'a vec_deque) outcome" where
  "vd_remove d i =
     (if vd_len d \<le> i then Ret (None, d)
      else (let wrapped_idx = to_physical_idx d i in
        and_then (buffer_read d wrapped_idx) (\<lambda>elem.
        let k = vd_len d - i - 1 in
        if k < i then
          and_then (wrap_copy d (wrap_add d wrapped_idx 1) wrapped_idx k) (\<lambda>d.
            Ret (Some elem, d\<lparr>vd_len := vd_len d - 1\<rparr>))
        else
          (let old_head = vd_head d;
               d = d\<lparr>vd_head := to_physical_idx d 1\<rparr>
           in and_then (wrap_copy d old_head (vd_head d) i) (\<lambda>d.
                Ret (Some elem, d\<lparr>vd_len := vd_len d - 1\<rparr>))))))"

definition rotate_left_inner :: "'a vec_deque \<Rightarrow> nat \<Rightarrow> 'a vec_deque outcome" where
  "rotate_left_inner d mid =
     and_then (wrap_copy d (vd_head d) (to_physical_idx d (vd_len d)) mid) (\<lambda>d.
       Ret (d\<lparr>vd_head := to_physical_idx d mid\<rparr>))"

definition rotate_right_inner :: "'a vec_deque \<Rightarrow> nat \<Rightarrow> 'a vec_deque outcome" where
  "rotate_right_inner d k =
     (let d = d\<lparr>vd_head := wrap_sub d (vd_head d) k\<rparr>
      in wrap_copy d (to_physical_idx d (vd_len d)) (vd_head d) k)"

definition vd_rotate_left :: "'a vec_deque \<Rightarrow> nat \<Rightarrow> 'a vec_deque outcome" where
  "vd_rotate_left d n =
     (if \<not> n \<le> vd_len d then Panic
      else (let k = vd_len d - n in if n \<le> k then rotate_left_inner d n else rotate_right_inner d k))"

definition vd_rotate_right :: "'a vec_deque \<Rightarrow> nat \<Rightarrow> 'a vec_deque outcome" where
  "vd_rotate_right d n =
     (if \<not> n \<le> vd_len d then Panic
      else (let k = vd_len d - n in if n \<le> k then rotate_right_inner d n else rotate_left_inner d k))"

section \<open>The representation\<close>

definition ring_holds :: "'a cells \<Rightarrow> nat \<Rightarrow> 'a list \<Rightarrow> bool" where
  "ring_holds b h xs \<longleftrightarrow> (\<forall>i < length xs. b ! ((h + i) mod length b) = Some (xs ! i))"

definition vd_rep :: "layout \<Rightarrow> 'a vec_deque \<Rightarrow> 'a list \<Rightarrow> bool" where
  "vd_rep el d xs \<longleftrightarrow> raw_ok el (vd_buf d) \<and> l_size el \<noteq> 0 \<and> vd_len d = length xs \<and> length xs \<le> vd_cap d
     \<and> (vd_head d < vd_cap d \<or> vd_head d = 0) \<and> ring_holds (vd_buf d) (vd_head d) xs"

lemma vd_cap_update [simp]: "vd_cap (d\<lparr>vd_head := h\<rparr>) = vd_cap d" "vd_cap (d\<lparr>vd_len := l\<rparr>) = vd_cap d"
  "vd_cap (d\<lparr>vd_buf := b\<rparr>) = length b"
  by (simp_all add: vd_cap_def)

lemma buffer_read_update [simp]:
  "buffer_read (d\<lparr>vd_head := h\<rparr>) off = buffer_read d off" "buffer_read (d\<lparr>vd_len := l\<rparr>) off = buffer_read d off"
  by (simp_all add: buffer_read_def)

lemma wrap_index_mod: "x < 2 * n \<Longrightarrow> wrap_index x n = x mod n"
  by (cases "x < n") (simp_all add: wrap_index_def mod_if le_mod_geq)

lemma vd_rep_bound: "vd_rep el d xs \<Longrightarrow> vd_cap d < isize_bound"
  using raw_ok_length [of el "vd_buf d"] by (auto simp: vd_rep_def vd_cap_def)

lemma vd_rep_len: "vd_rep el d xs \<Longrightarrow> vd_len d = length xs" "vd_rep el d xs \<Longrightarrow> length xs \<le> vd_cap d"
  by (auto simp: vd_rep_def)

lemma phys_mod:
  assumes "vd_cap d < isize_bound" "vd_head d < vd_cap d" "i \<le> vd_cap d"
  shows "to_physical_idx d i = (vd_head d + i) mod vd_cap d"
  using assms to_physical_eq [of d i] by (simp add: wrap_index_mod)

lemma wrap_sub_mod:
  assumes "vd_cap d < isize_bound" "x < vd_cap d" "s \<le> vd_cap d"
  shows "wrap_sub d x s = (x + (vd_cap d - s)) mod vd_cap d"
proof (cases "s \<le> x")
  case True
  then have e: "x + (vd_cap d - s) = (x - s) + vd_cap d" using assms by simp
  have "(x - s) < vd_cap d" using assms by simp
  then have "(x - s + vd_cap d) mod vd_cap d = x - s" by (simp only: mod_add_self2 mod_less)
  then show ?thesis unfolding e using True wrap_sub_eq [OF assms] by simp
next
  case False
  then show ?thesis using assms wrap_sub_eq [OF assms] by simp
qed

lemma mod_shift_inj: "i < n \<Longrightarrow> j < n \<Longrightarrow> (h + i) mod n = (h + j) mod n \<longleftrightarrow> i = (j :: nat)"
proof
  assume a: "i < n" "j < n" "(h + i) mod n = (h + j) mod n"
  have "i = j" if "i \<le> j" "j < n" "(h + i) mod n = (h + j) mod n" for i j :: nat
  proof -
    have "n dvd (h + j) - (h + i)" using that by (intro mod_eq_dvd_iff_nat [THEN iffD1]) auto
    then have "n dvd j - i" by simp
    with that show ?thesis by (metis diff_is_0_eq dvd_imp_le le_antisym le_less_trans less_imp_diff_less linorder_not_le zero_less_diff)
  qed
  with a show "i = j" by (metis nat_le_linear)
qed simp

lemma ring_update:
  assumes "i < length b" "length xs \<le> length b"
  shows "ring_holds (b[(h + i) mod length b := c]) h xs \<longleftrightarrow>
    (\<forall>j < length xs. if j = i then c = Some (xs ! j) else b ! ((h + j) mod length b) = Some (xs ! j))"
proof -
  have "b[(h + i) mod length b := c] ! ((h + j) mod length b) = (if j = i then c else b ! ((h + j) mod length b))"
    if "j < length xs" for j
  proof -
    have "(h + i) mod length b < length b" using assms(1) by (intro mod_less_divisor) auto
    then show ?thesis using assms that mod_shift_inj [of i "length b" j h] by (simp add: nth_list_update)
  qed
  then show ?thesis by (auto simp: ring_holds_def)
qed

text \<open>\<open>wrap_copy\<close> between two logical positions counted from the head.\<close>

lemma ring_dist:
  fixes h a c n :: nat
  assumes "h < n" "a \<le> n" "c \<le> n"
  defines "s \<equiv> (h + a) mod n" and "t \<equiv> (h + c) mod n"
  shows "min (abs_diff s t) (n - abs_diff s t) = min (abs_diff a c) (n - abs_diff a c)"
proof -
  have s: "s = (if h + a < n then h + a else if h + a < 2 * n then h + a - n else h + a - 2 * n)"
    and t: "t = (if h + c < n then h + c else if h + c < 2 * n then h + c - n else h + c - 2 * n)"
    using assms by (simp_all add: mod_if le_mod_geq)
  show ?thesis unfolding s t using assms(1-3) by (auto simp: abs_diff_def min_def)
qed

lemma ring_moved_mod:
  assumes "ring_moved b s t len b'" "s < length b" "t < length b" "k < length b"
  shows "b' ! ((t + k) mod length b) = (if k < len then b ! ((s + k) mod length b) else b ! ((t + k) mod length b))"
proof -
  let ?n = "length b" and ?j = "(t + k) mod length b"
  have j: "?j < ?n" using assms(3) by (intro mod_less_divisor) auto
  have off: "offset_from ?n t ?j = k" using assms(3,4) by (cases "t + k < ?n") (auto simp: offset_from_def le_mod_geq)
  have "wrap_index (s + k) ?n = (s + k) mod ?n" using assms by (intro wrap_index_mod) simp
  with assms(1) j off show ?thesis unfolding ring_moved_def by simp
qed

lemma wrap_copy_logical:
  assumes "vd_cap d < isize_bound" "h < vd_cap d" "a \<le> vd_cap d" "c \<le> vd_cap d"
    and "min (abs_diff a c) (vd_cap d - abs_diff a c) + len \<le> vd_cap d"
  obtains b where "wrap_copy d ((h + a) mod vd_cap d) ((h + c) mod vd_cap d) len = Ret (d\<lparr>vd_buf := b\<rparr>)"
    "length b = vd_cap d"
    "\<And>j. j < vd_cap d \<Longrightarrow> b ! ((h + j) mod vd_cap d) =
      (let k = (if c \<le> j then j - c else j + vd_cap d - c) in
       if k < len then vd_buf d ! ((h + a + k) mod vd_cap d) else vd_buf d ! ((h + j) mod vd_cap d))"
proof -
  let ?n = "vd_cap d" and ?s = "(h + a) mod vd_cap d" and ?t = "(h + c) mod vd_cap d"
  have n: "0 < ?n" "length (vd_buf d) = ?n" using assms(2) by (auto simp: vd_cap_def)
  have "min (abs_diff ?s ?t) (?n - abs_diff ?s ?t) + len \<le> ?n" using ring_dist [OF assms(2-4)] assms(5) by simp
  then have "moves_ring d ?s ?t len" using assms(1) n by (intro wrap_copy_moves) auto
  then obtain b where b: "wrap_copy d ?s ?t len = Ret (d\<lparr>vd_buf := b\<rparr>)" "ring_moved (vd_buf d) ?s ?t len b"
    by (auto simp: moves_ring_def)
  have "b ! ((h + j) mod ?n) = (let k = (if c \<le> j then j - c else j + ?n - c) in
       if k < len then vd_buf d ! ((h + a + k) mod ?n) else vd_buf d ! ((h + j) mod ?n))" if j: "j < ?n" for j
  proof -
    define k where "k = (if c \<le> j then j - c else j + ?n - c)"
    have k: "k < ?n" using j assms(4) n by (auto simp: k_def)
    have "h + c + k = (if c \<le> j then h + j else h + j + ?n)" using assms(4) by (auto simp: k_def)
    then have t: "(?t + k) mod ?n = (h + j) mod ?n" by (simp add: mod_add_left_eq split: if_splits)
    have s: "(?s + k) mod ?n = (h + a + k) mod ?n" by (simp add: mod_add_left_eq)
    show ?thesis using ring_moved_mod [OF b(2), of k] n k by (simp add: s t k_def [symmetric])
  qed
  then show ?thesis using that b n by (simp add: ring_moved_def)
qed

lemma wrap_copy_from:
  assumes "vd_cap d < isize_bound" "h < vd_cap d" "a \<le> vd_cap d" "c \<le> vd_cap d"
    and "min (abs_diff a c) (vd_cap d - abs_diff a c) + len \<le> vd_cap d"
  shows "\<exists>b. wrap_copy (d\<lparr>vd_head := g\<rparr>) ((h + a) mod vd_cap d) ((h + c) mod vd_cap d) len
        = Ret (d\<lparr>vd_head := g, vd_buf := b\<rparr>)
    \<and> length b = vd_cap d
    \<and> (\<forall>j < vd_cap d. b ! ((h + j) mod vd_cap d) =
      (let k = (if c \<le> j then j - c else j + vd_cap d - c) in
       if k < len then vd_buf d ! ((h + a + k) mod vd_cap d) else vd_buf d ! ((h + j) mod vd_cap d)))"
proof -
  let ?e = "d\<lparr>vd_head := g\<rparr>"
  have e: "vd_cap ?e = vd_cap d" "vd_buf ?e = vd_buf d" by simp_all
  obtain b where "wrap_copy ?e ((h + a) mod vd_cap ?e) ((h + c) mod vd_cap ?e) len = Ret (?e\<lparr>vd_buf := b\<rparr>)"
    "length b = vd_cap ?e"
    "\<And>j. j < vd_cap ?e \<Longrightarrow> b ! ((h + j) mod vd_cap ?e) =
      (let k = (if c \<le> j then j - c else j + vd_cap ?e - c) in
       if k < len then vd_buf ?e ! ((h + a + k) mod vd_cap ?e) else vd_buf ?e ! ((h + j) mod vd_cap ?e))"
    using wrap_copy_logical [of ?e h a c len] assms unfolding e by blast
  then show ?thesis unfolding e by blast
qed

lemma copy_contract: "abs_diff a c + len \<le> n \<Longrightarrow> min (abs_diff a c) (n - abs_diff a c) + len \<le> n"
  by simp

section \<open>Access\<close>

lemma vd_rep_head: "vd_rep el d xs \<Longrightarrow> 0 < vd_cap d \<Longrightarrow> vd_head d < vd_cap d"
  by (auto simp: vd_rep_def)

lemma vd_rep_nonempty: "vd_rep el d xs \<Longrightarrow> i < length xs \<Longrightarrow> vd_head d < vd_cap d"
  using vd_rep_len(2) [of el d xs] by (intro vd_rep_head) auto

lemma vd_rep_phys: "vd_rep el d xs \<Longrightarrow> vd_head d < vd_cap d \<Longrightarrow> i \<le> vd_cap d
    \<Longrightarrow> to_physical_idx d i = (vd_head d + i) mod vd_cap d"
  by (rule phys_mod [OF vd_rep_bound])

lemma read_mod:
  assumes "vd_rep el d xs" "i < length xs"
  shows "buffer_read d ((vd_head d + i) mod vd_cap d) = Ret (xs ! i)"
proof -
  have "(vd_head d + i) mod vd_cap d < vd_cap d"
    using vd_rep_nonempty [OF assms] by (intro mod_less_divisor) auto
  then show ?thesis using assms by (simp add: buffer_read_def vd_rep_def ring_holds_def vd_cap_def)
qed

lemma vd_get_exact:
  assumes "vd_rep el d xs"
  shows "vd_get d i = Ret (if i < length xs then Some (xs ! i) else None)"
  using assms read_mod [OF assms] vd_rep_nonempty [OF assms] vd_rep_len [OF assms]
  by (auto simp: vd_get_def vd_rep_phys [OF assms])

lemma write_mod:
  assumes "vd_rep el d xs" "i < length xs"
  obtains d' where "buffer_write d ((vd_head d + i) mod vd_cap d) v = Ret d'" "vd_rep el d' (xs[i := v])"
    "vd_head d' = vd_head d" "vd_cap d' = vd_cap d"
proof -
  have lt: "(vd_head d + i) mod vd_cap d < vd_cap d"
    using vd_rep_nonempty [OF assms] by (intro mod_less_divisor) auto
  let ?d = "d\<lparr>vd_buf := (vd_buf d)[(vd_head d + i) mod vd_cap d := Some v]\<rparr>"
  have "buffer_write d ((vd_head d + i) mod vd_cap d) v = Ret ?d" using lt by (simp add: buffer_write_def)
  moreover have "ring_holds (vd_buf ?d) (vd_head d) (xs[i := v])"
    using assms vd_rep_len(2) [OF assms(1)] ring_update [of i "vd_buf d" "xs[i := v]" "vd_head d" "Some v"]
    by (auto simp: vd_cap_def vd_rep_def ring_holds_def nth_list_update)
  ultimately show ?thesis using assms that [of ?d] by (auto simp: vd_rep_def vd_cap_def raw_ok_def)
qed

lemma vd_set_exact:
  assumes "vd_rep el d xs"
  shows "if i < length xs then \<exists>d'. vd_set d i v = Ret (Some d') \<and> vd_rep el d' (xs[i := v]) else vd_set d i v = Ret None"
proof (cases "i < length xs")
  case True
  then have "to_physical_idx d i = (vd_head d + i) mod vd_cap d"
    using vd_rep_phys [OF assms vd_rep_nonempty [OF assms True]] vd_rep_len [OF assms] by simp
  moreover obtain d' where "buffer_write d ((vd_head d + i) mod vd_cap d) v = Ret d'" "vd_rep el d' (xs[i := v])"
    using write_mod [OF assms True] by metis
  ultimately show ?thesis using True vd_rep_len [OF assms] by (simp add: vd_set_def)
qed (use vd_rep_len [OF assms] in \<open>simp add: vd_set_def\<close>)

lemma vd_swap_exact:
  assumes "vd_rep el d xs"
  shows "if i < length xs \<and> j < length xs then \<exists>d'. vd_swap d i j = Ret d' \<and> vd_rep el d' (xs[i := xs ! j, j := xs ! i])
    else vd_swap d i j = Panic"
proof (cases "i < length xs \<and> j < length xs")
  case True
  have len: "i \<le> vd_cap d" "j \<le> vd_cap d" "vd_len d = length xs" using True vd_rep_len [OF assms] by auto
  have h: "vd_head d < vd_cap d" using vd_rep_nonempty [OF assms] True by blast
  obtain d1 where d1: "buffer_write d ((vd_head d + i) mod vd_cap d) (xs ! j) = Ret d1" "vd_rep el d1 (xs[i := xs ! j])"
    "vd_head d1 = vd_head d" "vd_cap d1 = vd_cap d" using write_mod [OF assms conjunct1 [OF True]] by metis
  obtain d2 where d2: "buffer_write d1 ((vd_head d1 + j) mod vd_cap d1) (xs ! i) = Ret d2"
    "vd_rep el d2 (xs[i := xs ! j, j := xs ! i])"
    using write_mod [OF d1(2), of j] True by auto
  show ?thesis using True len d1 d2 read_mod [OF assms] vd_rep_phys [OF assms h]
    by (simp add: vd_swap_def Let_def)
qed (use vd_rep_len [OF assms] in \<open>auto simp: vd_swap_def\<close>)

lemma vd_front_exact: "vd_rep el d xs \<Longrightarrow> vd_front d = Ret (if xs = [] then None else Some (hd xs))"
  by (simp add: vd_front_def vd_get_exact hd_conv_nth)

lemma vd_back_exact:
  assumes "vd_rep el d xs"
  shows "vd_back d = Ret (if xs = [] then None else Some (last xs))"
proof (cases "xs = []")
  case True
  have "usize_wrapping_sub 0 1 = usize_bound - 1" by (simp add: usize_wrapping_sub_def usize_bound_def)
  moreover have "0 < usize_bound" by (simp add: usize_bound_def)
  ultimately show ?thesis using True assms vd_rep_len [OF assms] by (simp add: vd_back_def vd_get_exact)
next
  case False
  then have "usize_wrapping_sub (length xs) 1 = length xs - 1"
    using vd_rep_bound [OF assms] vd_rep_len [OF assms]
    by (intro usize_wrapping_sub_add) (auto simp: usize_bound_double Suc_le_eq)
  then show ?thesis using False vd_rep_len [OF assms] by (simp add: vd_back_def vd_get_exact [OF assms] last_conv_nth)
qed

section \<open>Growing\<close>

lemma ring_holds_flat: "h + length xs \<le> length b \<Longrightarrow>
    ring_holds b h xs \<longleftrightarrow> (\<forall>i < length xs. b ! (h + i) = Some (xs ! i))"
  by (auto simp: ring_holds_def)

lemma ring_holds_split:
  assumes "h < length b" "length b < h + length xs" "length xs \<le> length b"
  shows "ring_holds b h xs \<longleftrightarrow> (\<forall>i < length b - h. b ! (h + i) = Some (xs ! i))
    \<and> (\<forall>i < h + length xs - length b. b ! i = Some (xs ! (i + (length b - h))))" (is "_ \<longleftrightarrow> ?r")
proof
  assume r: "ring_holds b h xs"
  have "b ! i = Some (xs ! (i + (length b - h)))" if "i < h + length xs - length b" for i
    using r that assms by (auto simp: ring_holds_def dest: spec [of _ "i + (length b - h)"])
  moreover have "b ! (h + i) = Some (xs ! i)" if "i < length b - h" for i
    using r that assms by (auto simp: ring_holds_def dest: spec [of _ i])
  ultimately show ?r by blast
next
  assume r: ?r
  have "b ! ((h + i) mod length b) = Some (xs ! i)" if i: "i < length xs" for i
  proof (cases "h + i < length b")
    case False
    then have "(h + i) mod length b = i - (length b - h)" "i - (length b - h) < h + length xs - length b"
      using i assms by (auto simp: le_mod_geq)
    moreover have "i - (length b - h) + (length b - h) = i" using False assms by simp
    ultimately show ?thesis using r by metis
  qed (use r in auto)
  then show "ring_holds b h xs" by (simp add: ring_holds_def)
qed

lemma handle_capacity_increase_keeps:
  assumes "ring_holds b h xs" "length xs \<le> length b" "h < length b \<or> h = 0"
    and "length b \<le> length c" "\<And>i. i < length b \<Longrightarrow> c ! i = b ! i"
  obtains h' c' where
    "handle_capacity_increase (length b) \<lparr>vd_head = h, vd_len = length xs, vd_buf = c\<rparr>
       = Ret \<lparr>vd_head = h', vd_len = length xs, vd_buf = c'\<rparr>"
    "length c' = length c" "ring_holds c' h' xs" "h' < length c \<or> h' = 0"
proof (cases "h \<le> length b - length xs")
  case True
  then have f: "h + length xs \<le> length b" using assms(2) by linarith
  then have "ring_holds c h xs" using assms ring_holds_flat [of h xs b] ring_holds_flat [of h xs c] by auto
  then show ?thesis using True assms(3,4) by (intro that [of h c]) (auto simp: handle_capacity_increase_def Let_def)
next
  case False
  then have h: "h < length b" "length b < h + length xs" using assms(2,3) by auto
  define hl where "hl = length b - h"
  define tl where "tl = length xs - hl"
  have l: "h + hl = length b" "length xs = hl + tl" "h + length xs - length b = tl" "tl \<le> h" "0 < hl"
    using h assms(2) by (auto simp: hl_def tl_def)
  have old: "\<And>i. i < hl \<Longrightarrow> c ! (h + i) = Some (xs ! i)" "\<And>i. i < tl \<Longrightarrow> c ! i = Some (xs ! (i + hl))"
    using assms(1,5) ring_holds_split [OF h assms(2)] l unfolding hl_def [symmetric] by auto
  let ?d = "\<lparr>vd_head = h, vd_len = length xs, vd_buf = c\<rparr>"
  show ?thesis
  proof (cases "hl > tl \<and> length c - length b \<ge> tl")
    case True
    let ?c = "mem_move c 0 (length b) tl"
    have f: "length b + tl \<le> length c" using True assms(4) by linarith
    have e: "handle_capacity_increase (length b) ?d = Ret (?d\<lparr>vd_buf := ?c\<rparr>)"
      using False True l f h by (simp add: handle_capacity_increase_def Let_def vd_cap_def hl_def [symmetric]
          tl_def [symmetric] buf_copy_nonoverlapping_def)
    have "?c ! (h + i) = Some (xs ! i)" if "i < length xs" for i
    proof (cases "i < hl")
      case True
      then show ?thesis using old(1) f l by (simp add: nth_mem_move)
    next
      case False
      then have "h + i - length b = i - hl" "i - hl < tl" using l that by auto
      with old(2) [of "i - hl"] False f l that show ?thesis by (auto simp: nth_mem_move)
    qed
    then have "ring_holds ?c h xs" using f l by (subst ring_holds_flat) auto
    then show ?thesis using that [of h ?c] e f h assms(4) by auto
  next
    case nc: False
    let ?nh = "length c - hl"
    let ?c = "mem_move c h ?nh hl"
    have le: "hl \<le> length c" "h + hl \<le> length c" "?nh + hl = length c" using l assms(4) by auto
    have e: "handle_capacity_increase (length b) ?d = Ret (?d\<lparr>vd_buf := ?c, vd_head := ?nh\<rparr>)"
      using False nc l le by (auto simp: handle_capacity_increase_def Let_def vd_cap_def hl_def [symmetric]
          tl_def [symmetric] buf_copy_def)
    have tl: "tl \<le> ?nh" using l le assms(4) by linarith
    have "ring_holds ?c ?nh xs"
    proof (cases "tl = 0")
      case True
      then show ?thesis using le l old(1) by (subst ring_holds_flat) (auto simp: nth_mem_move)
    next
      case tl0: False
      have "length ?c - ?nh = hl" "?nh + length xs - length ?c = tl" using le l by auto
      then show ?thesis using le l old tl tl0
        by (subst ring_holds_split) (auto simp: nth_mem_move)
    qed
    then show ?thesis using that [of ?nh ?c] e le l by auto
  qed
qed

text \<open>Growing a deque, for every way of growing its buffer that keeps the contract.\<close>

locale deque_growth = buffer_growth +
  assumes ok_length: "ok b \<Longrightarrow> length b' = length b \<Longrightarrow> ok b'"
begin

lemma grow_with_keeps:
  assumes "ok (vd_buf d)" "vd_len d = length xs" "length xs \<le> vd_cap d" "vd_head d < vd_cap d \<or> vd_head d = 0"
    "ring_holds (vd_buf d) (vd_head d) xs"
  obtains d' where "fits (vd_buf d)" "grow_with grow d = Ret d'" "ok (vd_buf d')" "need (vd_buf d) \<le> vd_cap d'" "vd_cap d \<le> vd_cap d'"
      "vd_len d' = length xs" "vd_head d' < vd_cap d' \<or> vd_head d' = 0" "ring_holds (vd_buf d') (vd_head d') xs"
    | "\<not> fits (vd_buf d)" "grow_with grow d = Panic"
proof (cases rule: grow_cases [OF assms(1)])
  case (1 n)
  let ?c = "vd_buf d @ replicate n None"
  obtain h b' where hb: "handle_capacity_increase (length (vd_buf d)) \<lparr>vd_head = vd_head d, vd_len = length xs, vd_buf = ?c\<rparr>
      = Ret \<lparr>vd_head = h, vd_len = length xs, vd_buf = b'\<rparr>" "length b' = length ?c" "ring_holds b' h xs" "h < length ?c \<or> h = 0"
  proof (rule handle_capacity_increase_keeps [OF assms(5), of ?c])
    show "\<And>i. i < length (vd_buf d) \<Longrightarrow> ?c ! i = vd_buf d ! i" by (simp add: nth_append)
  qed (use assms(3,4) in \<open>auto simp: vd_cap_def\<close>)
  have "d\<lparr>vd_buf := ?c\<rparr> = \<lparr>vd_head = vd_head d, vd_len = length xs, vd_buf = ?c\<rparr>" using assms(2) by simp
  then have "grow_with grow d = Ret \<lparr>vd_head = h, vd_len = length xs, vd_buf = b'\<rparr>"
    using 1 hb(1) by (simp add: grow_with_def vd_cap_def)
  then show ?thesis using that(1) 1 hb(2-) ok_length [of ?c b'] by (simp add: vd_cap_def)
next
  case 2
  then show ?thesis using that(2) by (simp add: grow_with_def)
qed

end

interpretation vd_grow_one: deque_growth
  "\<lambda>b. raw_ok el b \<and> l_size el \<noteq> 0" "raw_grow_one al el" "\<lambda>b. Suc (length b)"
  "\<lambda>b. has_room al el b (Suc (length b))" for el al
  by unfold_locales (simp add: raw_ok_def)

interpretation vd_grow_reserve: deque_growth
  "\<lambda>b. raw_ok el b \<and> l_size el \<noteq> 0 \<and> len \<le> length b" "\<lambda>b. raw_reserve al el b len additional"
  "\<lambda>b. len + additional" "\<lambda>b. has_room al el b (len + additional)" for el al len additional
  by unfold_locales (simp add: raw_ok_def)

interpretation vd_grow_reserve_exact: deque_growth
  "\<lambda>b. raw_ok el b \<and> l_size el \<noteq> 0 \<and> len \<le> length b" "\<lambda>b. raw_reserve_exact al el b len additional"
  "\<lambda>b. len + additional" "\<lambda>b. len + additional \<le> length b \<or> granted al el (len + additional)" for el al len additional
  by unfold_locales (simp add: raw_ok_def)

text \<open>The deque is full, and the buffer it would grow to is no valid layout or refused by the allocator.\<close>

definition vd_stuck :: "allocator \<Rightarrow> layout \<Rightarrow> 'a vec_deque \<Rightarrow> bool" where
  "vd_stuck al el d \<longleftrightarrow> vd_len d = vd_cap d
     \<and> \<not> granted al el (max (min_non_zero_cap (l_size el)) (max (vd_cap d * 2) (Suc (vd_cap d))))"

lemma vd_stuck_iff: "vd_len d \<le> vd_cap d \<Longrightarrow> vd_stuck al el d \<longleftrightarrow> \<not> has_room al el (vd_buf d) (Suc (vd_len d))"
  by (auto simp: vd_stuck_def has_room_def amortized_def vd_cap_def not_less_eq_eq)

lemma vd_grow_exact:
  assumes "vd_rep el d xs" "vd_cap d = length xs"
  obtains d' where "\<not> vd_stuck al el d" "vd_grow al el d = Ret d'" "vd_rep el d' xs" "vd_cap d < vd_cap d'"
    | "vd_stuck al el d" "vd_grow al el d = Panic"
proof -
  have "raw_ok el (vd_buf d) \<and> l_size el \<noteq> 0" "vd_len d = length xs" "length xs \<le> vd_cap d" "vd_head d < vd_cap d \<or> vd_head d = 0"
    "ring_holds (vd_buf d) (vd_head d) xs" using assms by (auto simp: vd_rep_def)
  note r = this
  have st: "vd_stuck al el d \<longleftrightarrow> \<not> has_room al el (vd_buf d) (Suc (length (vd_buf d)))"
    using assms(2) r(2) by (simp add: vd_stuck_iff vd_cap_def)
  show ?thesis
    using vd_grow_one.grow_with_keeps [OF r, of al]
  proof cases
    case (1 d')
    then have "vd_rep el d' xs" "vd_cap d < vd_cap d'" using r by (auto simp: vd_rep_def vd_cap_def Suc_le_eq)
    then show ?thesis using that(1) 1(1,2) st by (simp add: vd_grow_def)
  next
    case 2
    then show ?thesis using that(2) st by (simp add: vd_grow_def)
  qed
qed

lemma ensure_room_exact:
  assumes "vd_rep el d xs"
  obtains d' where "\<not> vd_stuck al el d" "ensure_room al el d = Ret d'" "vd_rep el d' xs" "length xs < vd_cap d'"
    | "vd_stuck al el d" "ensure_room al el d = Panic"
proof (cases "is_full d")
  case True
  then have "vd_cap d = length xs" using vd_rep_len [OF assms] by (simp add: is_full_def)
  then show ?thesis using vd_grow_exact [OF assms, of al] that True by (metis ensure_room_def)
next
  case False
  then have "length xs < vd_cap d" using vd_rep_len [OF assms] by (simp add: is_full_def)
  moreover from this have "\<not> vd_stuck al el d" using vd_rep_len [OF assms] by (simp add: vd_stuck_def)
  ultimately show ?thesis using that(1) assms False by (simp add: ensure_room_def)
qed

text \<open>The contract of the reserving operations, from the representation alone: they panic exactly when the
  memory cannot be had.\<close>

definition reserves :: "layout \<Rightarrow> 'a list \<Rightarrow> nat \<Rightarrow> bool \<Rightarrow> 'a vec_deque outcome \<Rightarrow> bool" where
  "reserves el xs additional possible r \<longleftrightarrow>
     (if possible then \<exists>d'. r = Ret d' \<and> vd_rep el d' xs \<and> length xs + additional \<le> vd_cap d' else r = Panic)"

lemma vd_reserve_by:
  assumes "vd_rep el d xs" "vd_cap d < length xs + additional"
    and g: "deque_growth (\<lambda>b. raw_ok el b \<and> l_size el \<noteq> 0 \<and> length xs \<le> length b) g (\<lambda>b. length xs + additional) fits"
  shows "reserves el xs additional (fits (vd_buf d)) (grow_with g d)"
proof -
  have r: "raw_ok el (vd_buf d) \<and> l_size el \<noteq> 0 \<and> length xs \<le> length (vd_buf d)" "vd_len d = length xs"
    "length xs \<le> vd_cap d" "vd_head d < vd_cap d \<or> vd_head d = 0" "ring_holds (vd_buf d) (vd_head d) xs"
    using assms(1) by (auto simp: vd_rep_def vd_cap_def)
  show ?thesis using deque_growth.grow_with_keeps [OF g r]
  proof cases
    case (1 d')
    then show ?thesis using r by (auto simp: vd_rep_def reserves_def)
  qed (simp add: reserves_def)
qed

lemma not_granted_overflow: "l_size el \<noteq> 0 \<Longrightarrow> \<not> n < usize_bound \<Longrightarrow> n \<le> cap \<Longrightarrow> \<not> granted al el cap"
  using not_granted_large [of el cap] by (simp add: granted_def)

lemma vd_reserve_exact_contract:
  assumes "vd_rep el d xs"
  shows "reserves el xs additional (has_room al el (vd_buf d) (length xs + additional)) (vd_reserve al el d additional)"
    "reserves el xs additional (length xs + additional \<le> vd_cap d \<or> granted al el (length xs + additional))
      (vd_reserve_exact al el d additional)"
proof -
  let ?n = "length xs + additional"
  have len: "vd_len d = length xs" "l_size el \<noteq> 0" using assms by (auto simp: vd_rep_def)
  have cap: "length (vd_buf d) < usize_bound" using vd_rep_bound [OF assms] unfolding vd_cap_def usize_bound_double by linarith
  have n1: "\<not> has_room al el (vd_buf d) ?n" if "\<not> ?n < usize_bound"
    using not_granted_overflow [OF len(2) that amortized_ge(2)] that cap unfolding has_room_def by (metis leD le_less_trans)
  have n2: "\<not> (?n \<le> vd_cap d \<or> granted al el ?n)" if "\<not> ?n < usize_bound"
    using not_granted_overflow [OF len(2) that order_refl] that cap unfolding vd_cap_def by (metis le_less_trans)
  show "reserves el xs additional (has_room al el (vd_buf d) ?n) (vd_reserve al el d additional)"
  proof (cases "vd_cap d < ?n")
    case True
    note g = vd_reserve_by [OF assms True vd_grow_reserve.deque_growth_axioms [of el "length xs" al additional]]
    show ?thesis using g n1 True len(1) by (auto simp: reserves_def vd_reserve_def usize_checked_add_def)
  next
    case False
    then show ?thesis using assms len(1) cap by (auto simp: reserves_def vd_reserve_def usize_checked_add_def has_room_def vd_cap_def)
  qed
  show "reserves el xs additional (?n \<le> vd_cap d \<or> granted al el ?n) (vd_reserve_exact al el d additional)"
  proof (cases "vd_cap d < ?n")
    case True
    note g = vd_reserve_by [OF assms True vd_grow_reserve_exact.deque_growth_axioms [of el "length xs" al additional]]
    show ?thesis using g n2 True len(1)
      by (cases "?n < usize_bound") (simp_all add: reserves_def vd_reserve_exact_def usize_checked_add_def vd_cap_def)
  next
    case False
    then show ?thesis using assms len(1) cap by (auto simp: reserves_def vd_reserve_exact_def usize_checked_add_def vd_cap_def)
  qed
qed

section \<open>Pushing and popping\<close>

lemma vd_with_capacity_exact:
  assumes "elem_ok el" "l_size el \<noteq> 0"
  shows "if n = 0 \<or> granted al el n
    then \<exists>d :: 'a vec_deque. vd_with_capacity al el n = Ret d \<and> vd_rep el d [] \<and> vd_cap d = n
    else vd_with_capacity al el n = (Panic :: 'a vec_deque outcome)"
  using raw_with_capacity_exactly(1) [OF assms, of n al, where ?'a = 'a] raw_with_capacity_exactly(2) [OF assms, of al n, where ?'a = 'a]
  by (auto simp: vd_with_capacity_def vd_rep_def vd_cap_def ring_holds_def assms)

lemma vd_repI:
  assumes "raw_ok el b" "l_size el \<noteq> 0" "length xs \<le> length b" "h < length b \<or> h = 0" "ring_holds b h xs"
  shows "vd_rep el \<lparr>vd_head = h, vd_len = length xs, vd_buf = b\<rparr> xs"
  using assms by (simp add: vd_rep_def vd_cap_def)

lemma pop_front_exact:
  assumes "vd_rep el d xs"
  shows "\<exists>d'. pop_front d = Ret (if xs = [] then None else Some (hd xs), d') \<and> vd_rep el d' (tl xs)"
proof (cases xs)
  case Nil
  then show ?thesis using assms vd_rep_len [OF assms] by (simp add: pop_front_def)
next
  case (Cons x ys)
  let ?n = "vd_cap d"
  have h: "vd_head d < ?n" using vd_rep_nonempty [OF assms, of 0] Cons by simp
  have l: "vd_len d = Suc (length ys)" "Suc (length ys) \<le> ?n" using vd_rep_len [OF assms] Cons by auto
  let ?d = "d\<lparr>vd_head := (vd_head d + 1) mod ?n, vd_len := length ys\<rparr>"
  have p: "to_physical_idx d 1 = (vd_head d + 1) mod ?n" using vd_rep_phys [OF assms h, of 1] l by simp
  have c: "vd_cap ?d = ?n" by (simp add: vd_cap_def)
  have "buffer_read d (vd_head d) = Ret x" using read_mod [OF assms, of 0] Cons h by simp
  then have rd: "buffer_read ?d (vd_head d) = Ret x" by simp
  have "ring_holds (vd_buf d) ((vd_head d + 1) mod ?n) ys"
    using assms by (force simp: ring_holds_def vd_rep_def Cons vd_cap_def mod_add_left_eq)
  moreover have "(vd_head d + 1) mod ?n < ?n" using h by (intro mod_less_divisor) auto
  ultimately have "vd_rep el ?d ys" using assms l by (simp add: vd_rep_def vd_cap_def Cons)
  moreover have "pop_front d = Ret (Some x, ?d)"
    using l p rd c by (simp add: pop_front_def Let_def assert_unchecked_def)
  ultimately show ?thesis using Cons by simp
qed

lemma pop_back_exact:
  assumes "vd_rep el d xs"
  shows "\<exists>d'. pop_back d = Ret (if xs = [] then None else Some (last xs), d') \<and> vd_rep el d' (butlast xs)"
proof (cases xs rule: rev_cases)
  case Nil
  then show ?thesis using assms vd_rep_len [OF assms] by (simp add: pop_back_def)
next
  case (snoc ys x)
  let ?n = "vd_cap d" and ?d = "d\<lparr>vd_len := length ys\<rparr>"
  have h: "vd_head d < ?n" using vd_rep_nonempty [OF assms, of 0] snoc by simp
  have l: "vd_len d = Suc (length ys)" "Suc (length ys) \<le> ?n" using vd_rep_len [OF assms] snoc by auto
  have c: "vd_cap ?d = ?n" by (simp add: vd_cap_def)
  have "to_physical_idx d (length ys) = (vd_head d + length ys) mod ?n" using vd_rep_phys [OF assms h] l by simp
  then have p: "to_physical_idx ?d (length ys) = (vd_head d + length ys) mod ?n"
    by (simp add: to_physical_idx_def wrap_add_def vd_cap_def)
  have rd: "buffer_read ?d ((vd_head d + length ys) mod ?n) = Ret x"
    using read_mod [OF assms, of "length ys"] snoc by simp
  have "vd_rep el ?d ys" using assms l snoc by (auto simp: vd_rep_def vd_cap_def ring_holds_def nth_append)
  moreover have "pop_back d = Ret (Some x, ?d)"
    using l p rd c by (simp add: pop_back_def Let_def assert_unchecked_def)
  ultimately show ?thesis using snoc by simp
qed

lemma write_cell:
  assumes "raw_ok el (vd_buf d)" "off < vd_cap d"
  shows "buffer_write d off v = Ret (d\<lparr>vd_buf := (vd_buf d)[off := Some v]\<rparr>)" "raw_ok el ((vd_buf d)[off := Some v])"
  using assms by (auto simp: buffer_write_def raw_ok_def)

lemma retreat_mod: "s \<le> n \<Longrightarrow> ((h + (n - s)) mod n + (s + i)) mod n = (h + i) mod (n :: nat)"
proof -
  assume "s \<le> n"
  then have e: "h + (n - s) + (s + i) = (h + i) + n" by simp
  show ?thesis unfolding mod_add_left_eq e by simp
qed

lemma vd_rep_nth: "vd_rep el d xs \<Longrightarrow> i < length xs \<Longrightarrow> vd_buf d ! ((vd_head d + i) mod vd_cap d) = Some (xs ! i)"
  by (simp add: vd_rep_def ring_holds_def vd_cap_def)

lemma push_back_exact:
  assumes "vd_rep el d xs"
  shows "if vd_stuck al el d then push_back al el d v = Panic else \<exists>d'. push_back al el d v = Ret d' \<and> vd_rep el d' (xs @ [v])"
proof (cases rule: ensure_room_exact [OF assms, of al])
  case (1 e)
  let ?n = "vd_cap e" and ?p = "(vd_head e + length xs) mod vd_cap e"
  have h: "vd_head e < ?n" using vd_rep_head [OF 1(3)] 1(4) by linarith
  then have p: "to_physical_idx e (vd_len e) = ?p" "?p < ?n"
    using vd_rep_phys [OF 1(3) h] vd_rep_len [OF 1(3)] by auto
  have raw: "raw_ok el (vd_buf e)" using 1(3) by (simp add: vd_rep_def)
  have "ring_holds ((vd_buf e)[?p := Some v]) (vd_head e) (xs @ [v])"
    using 1 ring_update [of "length xs" "vd_buf e" "xs @ [v]" "vd_head e" "Some v"]
    by (auto simp: vd_cap_def vd_rep_def ring_holds_def nth_append)
  then have "vd_rep el (e\<lparr>vd_buf := (vd_buf e)[?p := Some v], vd_len := vd_len e + 1\<rparr>) (xs @ [v])"
    using 1(3,4) h write_cell(2) [OF raw p(2)] by (simp add: vd_rep_def vd_cap_def)
  then show ?thesis using 1(1,2) p write_cell(1) [OF raw p(2)] by (simp add: push_back_def)
next
  case 2
  then show ?thesis by (simp add: push_back_def)
qed

lemma push_front_exact:
  assumes "vd_rep el d xs"
  shows "if vd_stuck al el d then push_front al el d v = Panic else \<exists>d'. push_front al el d v = Ret d' \<and> vd_rep el d' (v # xs)"
proof (cases rule: ensure_room_exact [OF assms, of al])
  case (1 e)
  let ?n = "vd_cap e"
  define h where "h = (vd_head e + (?n - 1)) mod ?n"
  have hd: "vd_head e < ?n" "0 < ?n" using vd_rep_head [OF 1(3)] 1(4) by linarith+
  have hn: "h < ?n" using hd by (simp add: h_def)
  have ws: "wrap_sub e (vd_head e) 1 = h"
    using wrap_sub_mod [OF vd_rep_bound [OF 1(3)] hd(1), of 1] hd(2) by (simp add: h_def)
  have raw: "raw_ok el (vd_buf e)" using 1(3) by (simp add: vd_rep_def)
  have old: "vd_buf e ! ((h + Suc j) mod ?n) = Some (xs ! j)" if "j < length xs" for j
    using retreat_mod [of 1 ?n "vd_head e" j] vd_rep_nth [OF 1(3) that] hd(2) by (simp add: h_def)
  let ?b = "(vd_buf e)[h := Some v]"
  have "ring_holds ((vd_buf e)[(h + 0) mod length (vd_buf e) := Some v]) h (v # xs)"
  proof (subst ring_update)
    show "\<forall>j < length (v # xs). if j = 0 then Some v = Some ((v # xs) ! j)
        else vd_buf e ! ((h + j) mod length (vd_buf e)) = Some ((v # xs) ! j)"
      using old by (auto simp: vd_cap_def less_Suc_eq_0_disj)
  qed (use 1(4) in \<open>auto simp: vd_cap_def\<close>)
  then have "ring_holds ?b h (v # xs)" using hn by (simp add: vd_cap_def)
  then have "vd_rep el (e\<lparr>vd_head := h, vd_len := vd_len e + 1, vd_buf := ?b\<rparr>) (v # xs)"
    using 1(3,4) hn write_cell(2) [OF raw hn] by (simp add: vd_rep_def vd_cap_def)
  then show ?thesis using 1(1,2) ws hn by (simp add: push_front_def Let_def buffer_write_def vd_cap_def)
next
  case 2
  then show ?thesis by (simp add: push_front_def)
qed

section \<open>Inserting and removing in the middle\<close>

lemma length_insert_at: "i \<le> length xs \<Longrightarrow> length (take i xs @ v # drop i xs) = Suc (length xs)"
  by simp

lemma nth_insert_at:
  "i \<le> length xs \<Longrightarrow> j \<le> length xs \<Longrightarrow>
    (take i xs @ v # drop i xs) ! j = (if j < i then xs ! j else if j = i then v else xs ! (j - 1))"
  by (auto simp: nth_append nth_Cons' min_def)

lemma nth_remove_at:
  "i < length xs \<Longrightarrow> j < length xs - 1 \<Longrightarrow>
    (take i xs @ drop (Suc i) xs) ! j = (if j < i then xs ! j else xs ! (Suc j))"
  by (auto simp: nth_append min_def)

lemma vd_insert_back:
  assumes rep: "vd_rep el d xs" and room: "length xs < vd_cap d" and i: "i \<le> length xs" "length xs - i < i"
  obtains d' where
    "and_then (wrap_copy d (to_physical_idx d i) (to_physical_idx d (i + 1)) (length xs - i)) (\<lambda>d.
       and_then (buffer_write d (to_physical_idx d i) v) (\<lambda>d. Ret (d\<lparr>vd_len := vd_len d + 1\<rparr>))) = Ret d'"
    "vd_rep el d' (take i xs @ v # drop i xs)"
proof -
  let ?n = "vd_cap d" and ?h = "vd_head d"
  have h: "?h < ?n" using vd_rep_head [OF rep] room by linarith
  have raw: "raw_ok el (vd_buf d)" using rep by (simp add: vd_rep_def)
  have ph: "to_physical_idx d i = (?h + i) mod ?n" "to_physical_idx d (i + 1) = (?h + (i + 1)) mod ?n"
    using vd_rep_phys [OF rep h] i room by auto
  obtain b where b: "wrap_copy d ((?h + i) mod ?n) ((?h + (i + 1)) mod ?n) (length xs - i) = Ret (d\<lparr>vd_buf := b\<rparr>)"
    "length b = ?n" "\<And>j. j < ?n \<Longrightarrow> b ! ((?h + j) mod ?n) = (let k = (if i + 1 \<le> j then j - (i + 1) else j + ?n - (i + 1)) in
       if k < length xs - i then vd_buf d ! ((?h + i + k) mod ?n) else vd_buf d ! ((?h + j) mod ?n))"
    using wrap_copy_logical [OF vd_rep_bound [OF rep] h, of i "i + 1" "length xs - i"] i room
    by (auto simp: abs_diff_def)
  have rb: "raw_ok el b" using raw b(2) by (simp add: raw_ok_def vd_cap_def)
  have ph': "to_physical_idx (d\<lparr>vd_buf := b\<rparr>) i = (?h + i) mod ?n"
    using ph(1) b(2) by (simp add: to_physical_idx_def wrap_add_def)
  let ?d = "d\<lparr>vd_buf := b[(?h + i) mod ?n := Some v], vd_len := vd_len d + 1\<rparr>"
  have "ring_holds (b[(?h + i) mod length b := Some v]) ?h (take i xs @ v # drop i xs)"
  proof (subst ring_update)
    show "i < length b" using i room b(2) by simp
    show "length (take i xs @ v # drop i xs) \<le> length b" using i room b(2) by simp
    show "\<forall>j < length (take i xs @ v # drop i xs). if j = i then Some v = Some ((take i xs @ v # drop i xs) ! j)
        else b ! ((?h + j) mod length b) = Some ((take i xs @ v # drop i xs) ! j)"
    proof (intro allI impI)
      fix j assume j: "j < length (take i xs @ v # drop i xs)"
      then have j': "j \<le> length xs" "j < ?n" using i room by auto
      note old = vd_rep_nth [OF rep]
      consider "j = i" | "j < i" | "i < j" by linarith
      then show "if j = i then Some v = Some ((take i xs @ v # drop i xs) ! j)
        else b ! ((?h + j) mod length b) = Some ((take i xs @ v # drop i xs) ! j)"
      proof cases
        case 1
        then show ?thesis using i by (simp add: nth_insert_at)
      next
        case 2
        then show ?thesis using b(2) b(3) [OF j'(2)] i room j' old [of j] by (auto simp: nth_insert_at Let_def)
      next
        case 3
        then have "?h + i + (j - (i + 1)) = ?h + (j - 1)" by simp
        then show ?thesis using 3 b(2) b(3) [OF j'(2)] i j' old [of "j - 1"] by (auto simp: nth_insert_at Let_def)
      qed
    qed
  qed
  then have "vd_rep el ?d (take i xs @ v # drop i xs)"
    using rep rb b(2) i room h by (simp add: vd_rep_def raw_ok_def vd_cap_def)
  moreover have "buffer_write (d\<lparr>vd_buf := b\<rparr>) ((?h + i) mod ?n) v = Ret (d\<lparr>vd_buf := b[(?h + i) mod ?n := Some v]\<rparr>)"
    using b(2) h by (auto simp: buffer_write_def)
  ultimately show ?thesis using that [of ?d] b(1) ph ph' by simp
qed

lemma vd_insert_front:
  assumes rep: "vd_rep el d xs" and room: "length xs < vd_cap d" and i: "i \<le> length xs"
  obtains d' where
    "(let old_head = vd_head d; d = d\<lparr>vd_head := wrap_sub d (vd_head d) 1\<rparr>
      in and_then (wrap_copy d old_head (vd_head d) i) (\<lambda>d.
         and_then (buffer_write d (to_physical_idx d i) v) (\<lambda>d. Ret (d\<lparr>vd_len := vd_len d + 1\<rparr>)))) = Ret d'"
    "vd_rep el d' (take i xs @ v # drop i xs)"
proof -
  let ?n = "vd_cap d"
  define h where "h = (vd_head d + (?n - 1)) mod ?n"
  have hd: "vd_head d < ?n" "0 < ?n" using vd_rep_head [OF rep] room by linarith+
  have h: "h < ?n" using hd by (simp add: h_def)
  have ws: "wrap_sub d (vd_head d) 1 = h"
    using wrap_sub_mod [OF vd_rep_bound [OF rep] hd(1), of 1] hd(2) by (simp add: h_def)
  have raw: "raw_ok el (vd_buf d)" using rep by (simp add: vd_rep_def)
  have old: "vd_buf d ! ((h + Suc j) mod ?n) = Some (xs ! j)" if "j < length xs" for j
    using retreat_mod [of 1 ?n "vd_head d" j] vd_rep_nth [OF rep that] hd(2) by (simp add: h_def)
  have oh: "vd_head d = (h + 1) mod ?n" using retreat_mod [of 1 ?n "vd_head d" 0] hd by (simp add: h_def)
  let ?e = "d\<lparr>vd_head := h\<rparr>"
  obtain b where b: "wrap_copy ?e ((h + 1) mod ?n) ((h + 0) mod ?n) i = Ret (?e\<lparr>vd_buf := b\<rparr>)" "length b = ?n"
    "\<And>j. j < ?n \<Longrightarrow> b ! ((h + j) mod ?n) = (if j < i then vd_buf d ! ((h + 1 + j) mod ?n) else vd_buf d ! ((h + j) mod ?n))"
    using wrap_copy_from [OF vd_rep_bound [OF rep] h _ _ copy_contract, of 1 0 i h] h i room
    by (auto simp: abs_diff_def)
  have ph: "to_physical_idx (?e\<lparr>vd_buf := b\<rparr>) i = (h + i) mod ?n"
    using phys_mod [of "?e\<lparr>vd_buf := b\<rparr>" i] b(2) h vd_rep_bound [OF rep] i room by simp
  let ?d = "?e\<lparr>vd_buf := b[(h + i) mod ?n := Some v], vd_len := vd_len d + 1\<rparr>"
  have "ring_holds (b[(h + i) mod length b := Some v]) h (take i xs @ v # drop i xs)"
  proof (subst ring_update)
    show "\<forall>j < length (take i xs @ v # drop i xs). if j = i then Some v = Some ((take i xs @ v # drop i xs) ! j)
        else b ! ((h + j) mod length b) = Some ((take i xs @ v # drop i xs) ! j)"
    proof (intro allI impI)
      fix j assume j: "j < length (take i xs @ v # drop i xs)"
      then have j': "j \<le> length xs" "j < ?n" using i room by auto
      consider "j = i" | "j < i" | "i < j" by linarith
      then show "if j = i then Some v = Some ((take i xs @ v # drop i xs) ! j)
        else b ! ((h + j) mod length b) = Some ((take i xs @ v # drop i xs) ! j)"
      proof cases
        case 1
        then show ?thesis using i by (simp add: nth_insert_at)
      next
        case 2
        then show ?thesis using b(2) b(3) [OF j'(2)] i j' old [of j] by (auto simp: nth_insert_at)
      next
        case 3
        then show ?thesis using b(2) b(3) [OF j'(2)] i j' old [of "j - 1"] by (auto simp: nth_insert_at)
      qed
    qed
  qed (use i room b(2) in auto)
  then have "vd_rep el ?d (take i xs @ v # drop i xs)"
    using rep raw b(2) i room h by (simp add: vd_rep_def raw_ok_def vd_cap_def)
  moreover have "buffer_write (?e\<lparr>vd_buf := b\<rparr>) ((h + i) mod ?n) v = Ret (?e\<lparr>vd_buf := b[(h + i) mod ?n := Some v]\<rparr>)"
    using b(2) h by (auto simp: buffer_write_def)
  ultimately show ?thesis using that [of ?d] b(1) ph ws oh h by (simp add: Let_def)
qed

lemma vd_insert_exact:
  assumes "vd_rep el d xs"
  shows "if i \<le> length xs \<and> \<not> vd_stuck al el d then \<exists>d'. vd_insert al el d i v = Ret d' \<and> vd_rep el d' (take i xs @ v # drop i xs)
    else vd_insert al el d i v = Panic"
proof (cases "i \<le> length xs")
  case True
  show ?thesis
  proof (cases rule: ensure_room_exact [OF assms, of al])
    case (1 e)
    have l: "vd_len e = length xs" "vd_len d = length xs" using vd_rep_len [OF 1(3)] vd_rep_len [OF assms] by auto
    show ?thesis
    proof (cases "length xs - i < i")
      case less: True
      show ?thesis by (rule vd_insert_back [OF 1(3,4) True less, of v])
          (use True less 1(1,2) l in \<open>simp add: vd_insert_def\<close>)
    next
      case False
      show ?thesis by (rule vd_insert_front [OF 1(3,4) True, of v])
          (use True False 1(1,2) l in \<open>simp add: vd_insert_def\<close>)
    qed
  next
    case 2
    then show ?thesis using True vd_rep_len [OF assms] by (simp add: vd_insert_def)
  qed
qed (use vd_rep_len [OF assms] in \<open>simp add: vd_insert_def\<close>)

lemma vd_rep_shorter:
  assumes "vd_rep el d xs" "length b = vd_cap d" "ring_holds b h ys" "length ys \<le> vd_cap d" "h < vd_cap d"
  shows "vd_rep el (d\<lparr>vd_head := h, vd_buf := b, vd_len := length ys\<rparr>) ys"
    "vd_rep el (d\<lparr>vd_buf := b, vd_len := length ys\<rparr>\<lparr>vd_head := h\<rparr>) ys"
  using assms by (auto simp: vd_rep_def raw_ok_def vd_cap_def)

lemma vd_remove_back:
  assumes rep: "vd_rep el d xs" and i: "i < length xs"
  obtains b where
    "wrap_copy d (wrap_add d (to_physical_idx d i) 1) (to_physical_idx d i) (length xs - i - 1) = Ret (d\<lparr>vd_buf := b\<rparr>)"
    "length b = vd_cap d" "ring_holds b (vd_head d) (take i xs @ drop (Suc i) xs)"
proof -
  let ?n = "vd_cap d" and ?h = "vd_head d" and ?k = "length xs - i - 1"
  have h: "?h < ?n" using vd_rep_nonempty [OF rep i] .
  have le: "length xs \<le> ?n" using vd_rep_len [OF rep] by simp
  have ph: "to_physical_idx d i = (?h + i) mod ?n" using vd_rep_phys [OF rep h] i le by simp
  have "(?h + i) mod ?n < ?n" using h by (intro mod_less_divisor) auto
  then have "wrap_add d ((?h + i) mod ?n) 1 = ((?h + i) mod ?n + 1) mod ?n"
    using wrap_add_eq [OF vd_rep_bound [OF rep], of "(?h + i) mod ?n" 1] wrap_index_mod [of "(?h + i) mod ?n + 1" ?n]
    by linarith
  then have wa: "wrap_add d (to_physical_idx d i) 1 = (?h + (i + 1)) mod ?n"
    unfolding ph by (simp add: mod_add_left_eq mod_Suc_eq)
  have dd: "d\<lparr>vd_head := ?h\<rparr> = d" by simp
  have c: "Suc (length xs - Suc i) \<le> ?n" using i le by linarith
  obtain b where b: "wrap_copy d ((?h + (i + 1)) mod ?n) ((?h + i) mod ?n) ?k = Ret (d\<lparr>vd_buf := b\<rparr>)" "length b = ?n"
    "\<And>j. j < ?n \<Longrightarrow> b ! ((?h + j) mod ?n) = (let k = (if i \<le> j then j - i else j + ?n - i) in
       if k < ?k then vd_buf d ! ((?h + (i + 1) + k) mod ?n) else vd_buf d ! ((?h + j) mod ?n))"
    using wrap_copy_from [OF vd_rep_bound [OF rep] h _ _ copy_contract, of "i + 1" i ?k ?h] i le c
    unfolding dd by (auto simp: abs_diff_def)
  have "ring_holds b ?h (take i xs @ drop (Suc i) xs)"
  proof (unfold ring_holds_def b(2), intro allI impI)
    fix j assume "j < length (take i xs @ drop (Suc i) xs)"
    then have j: "j < length xs - 1" "j < ?n" using i le by auto
    show "b ! ((?h + j) mod ?n) = Some ((take i xs @ drop (Suc i) xs) ! j)"
    proof (cases "i \<le> j")
      case True
      then have "?h + (i + 1) + (j - i) = ?h + Suc j" by simp
      then show ?thesis using True j i b(3) [OF j(2)] vd_rep_nth [OF rep, of "Suc j"]
        by (auto simp: nth_remove_at Let_def)
    next
      case False
      then show ?thesis using j i le b(3) [OF j(2)] vd_rep_nth [OF rep, of j] by (auto simp: nth_remove_at Let_def)
    qed
  qed
  then show ?thesis using that b ph wa by simp
qed

lemma vd_remove_front:
  assumes rep: "vd_rep el d xs" and i: "i < length xs"
  obtains b where
    "wrap_copy (d\<lparr>vd_head := to_physical_idx d 1\<rparr>) (vd_head d) (to_physical_idx d 1) i
      = Ret (d\<lparr>vd_head := to_physical_idx d 1, vd_buf := b\<rparr>)"
    "length b = vd_cap d" "ring_holds b (to_physical_idx d 1) (take i xs @ drop (Suc i) xs)" "to_physical_idx d 1 < vd_cap d"
proof -
  let ?n = "vd_cap d" and ?h = "vd_head d"
  have h: "?h < ?n" "0 < ?n" using vd_rep_nonempty [OF rep i] by auto
  have le: "length xs \<le> ?n" using vd_rep_len [OF rep] by simp
  have ph: "to_physical_idx d 1 = (?h + 1) mod ?n" using vd_rep_phys [OF rep h(1), of 1] h(2) by simp
  obtain b where b: "wrap_copy (d\<lparr>vd_head := (?h + 1) mod ?n\<rparr>) ((?h + 0) mod ?n) ((?h + 1) mod ?n) i
      = Ret (d\<lparr>vd_head := (?h + 1) mod ?n, vd_buf := b\<rparr>)" "length b = ?n"
    "\<And>j. j < ?n \<Longrightarrow> b ! ((?h + j) mod ?n) = (let k = (if 1 \<le> j then j - 1 else j + ?n - 1) in
       if k < i then vd_buf d ! ((?h + 0 + k) mod ?n) else vd_buf d ! ((?h + j) mod ?n))"
    using wrap_copy_from [OF vd_rep_bound [OF rep] h(1) _ _ copy_contract, of 0 1 i "(?h + 1) mod ?n"] i le
    unfolding abs_diff_def by auto
  have "ring_holds b ((?h + 1) mod ?n) (take i xs @ drop (Suc i) xs)"
  proof (unfold ring_holds_def b(2), intro allI impI)
    fix j assume "j < length (take i xs @ drop (Suc i) xs)"
    then have j: "j < length xs - 1" "Suc j < ?n" using i le by auto
    have "((?h + 1) mod ?n + j) mod ?n = (?h + Suc j) mod ?n" by (simp add: mod_add_left_eq mod_Suc_eq)
    then show "b ! (((?h + 1) mod ?n + j) mod ?n) = Some ((take i xs @ drop (Suc i) xs) ! j)"
      using j i b(3) [OF j(2)] vd_rep_nth [OF rep, of j] vd_rep_nth [OF rep, of "Suc j"]
      by (auto simp: nth_remove_at Let_def)
  qed
  moreover have "(?h + 1) mod ?n < ?n" using h by (intro mod_less_divisor) auto
  ultimately show ?thesis using that b h(1) ph by simp
qed

lemma vd_remove_exact:
  assumes "vd_rep el d xs"
  shows "if i < length xs then \<exists>d'. vd_remove d i = Ret (Some (xs ! i), d') \<and> vd_rep el d' (take i xs @ drop (Suc i) xs)
    else vd_remove d i = Ret (None, d)"
proof (cases "i < length xs")
  case True
  have l: "vd_len d = length xs" "length xs \<le> vd_cap d" using vd_rep_len [OF assms] by auto
  have rd: "buffer_read d (to_physical_idx d i) = Ret (xs ! i)"
    using read_mod [OF assms True] vd_rep_phys [OF assms vd_rep_nonempty [OF assms True]] True l by simp
  have ys: "length (take i xs @ drop (Suc i) xs) = length xs - 1" using True by simp
  show ?thesis
  proof (cases "length xs - i - 1 < i")
    case less: True
    show ?thesis
    proof (rule vd_remove_back [OF assms True])
      fix b assume b: "wrap_copy d (wrap_add d (to_physical_idx d i) 1) (to_physical_idx d i) (length xs - i - 1) = Ret (d\<lparr>vd_buf := b\<rparr>)"
        "length b = vd_cap d" "ring_holds b (vd_head d) (take i xs @ drop (Suc i) xs)"
      have "vd_rep el (d\<lparr>vd_buf := b, vd_len := length xs - 1\<rparr>) (take i xs @ drop (Suc i) xs)"
        using vd_rep_shorter(1) [OF assms b(2,3) _ vd_rep_nonempty [OF assms True]] ys l by simp
      then show ?thesis using True less b(1) rd l by (simp add: vd_remove_def Let_def)
    qed
  next
    case False
    show ?thesis
    proof (rule vd_remove_front [OF assms True])
      fix b assume b: "wrap_copy (d\<lparr>vd_head := to_physical_idx d 1\<rparr>) (vd_head d) (to_physical_idx d 1) i
          = Ret (d\<lparr>vd_head := to_physical_idx d 1, vd_buf := b\<rparr>)"
        "length b = vd_cap d" "ring_holds b (to_physical_idx d 1) (take i xs @ drop (Suc i) xs)" "to_physical_idx d 1 < vd_cap d"
      have "vd_rep el (d\<lparr>vd_head := to_physical_idx d 1, vd_buf := b, vd_len := length xs - 1\<rparr>) (take i xs @ drop (Suc i) xs)"
        using vd_rep_shorter(1) [OF assms b(2,3) _ b(4)] ys l by simp
      then show ?thesis using True False b(1) rd l by (simp add: vd_remove_def Let_def)
    qed
  qed
qed (use vd_rep_len [OF assms] in \<open>simp add: vd_remove_def\<close>)

section \<open>Rotation\<close>

lemma ring_contract: "2 * k \<le> len \<Longrightarrow> len \<le> n \<Longrightarrow> min (abs_diff 0 len) (n - abs_diff 0 len) + k \<le> n"
  "2 * k \<le> len \<Longrightarrow> len \<le> n \<Longrightarrow> min (abs_diff len 0) (n - abs_diff len 0) + k \<le> n"
  by (auto simp: abs_diff_def min_def)

lemma rotate_left_inner_exact:
  assumes rep: "vd_rep el d xs" and m: "2 * mid \<le> length xs" "xs \<noteq> []"
  shows "\<exists>d'. rotate_left_inner d mid = Ret d' \<and> vd_rep el d' (drop mid xs @ take mid xs)"
proof -
  let ?n = "vd_cap d" and ?h = "vd_head d" and ?len = "length xs"
  have h: "?h < ?n" "0 < ?n" using vd_rep_nonempty [OF rep, of 0] m(2) by auto
  have le: "?len \<le> ?n" "vd_len d = ?len" using vd_rep_len [OF rep] by auto
  have ph: "to_physical_idx d ?len = (?h + ?len) mod ?n" using vd_rep_phys [OF rep h(1)] le by simp
  have dd: "d\<lparr>vd_head := ?h\<rparr> = d" by simp
  obtain b where b: "wrap_copy d ((?h + 0) mod ?n) ((?h + ?len) mod ?n) mid = Ret (d\<lparr>vd_buf := b\<rparr>)" "length b = ?n"
    "\<And>j. j < ?n \<Longrightarrow> b ! ((?h + j) mod ?n) = (let k = (if ?len \<le> j then j - ?len else j + ?n - ?len) in
       if k < mid then vd_buf d ! ((?h + 0 + k) mod ?n) else vd_buf d ! ((?h + j) mod ?n))"
    using wrap_copy_from [OF vd_rep_bound [OF rep] h(1) _ _ ring_contract(1) [OF m(1) le(1)], of ?h] le
    unfolding dd by auto
  have ph': "to_physical_idx (d\<lparr>vd_buf := b\<rparr>) mid = (?h + mid) mod ?n"
    using phys_mod [of "d\<lparr>vd_buf := b\<rparr>" mid] b(2) h vd_rep_bound [OF rep] m le by simp
  let ?ys = "drop mid xs @ take mid xs"
  have "ring_holds b ((?h + mid) mod ?n) ?ys"
  proof (unfold ring_holds_def b(2), intro allI impI)
    fix t assume "t < length ?ys"
    then have t: "t < ?len" using m by simp
    have e: "((?h + mid) mod ?n + t) mod ?n = (?h + (mid + t)) mod ?n" by (simp add: mod_add_left_eq add.assoc)
    show "b ! (((?h + mid) mod ?n + t) mod ?n) = Some (?ys ! t)"
    proof (cases "t < ?len - mid")
      case True
      then show ?thesis unfolding e using b(3) [of "mid + t"] le vd_rep_nth [OF rep, of "mid + t"]
        by (auto simp: nth_append Let_def)
    next
      case False
      define u where "u = t - (?len - mid)"
      have u: "u < mid" "mid + t = ?len + u" "?ys ! t = xs ! u" using False t m by (auto simp: u_def nth_append)
      let ?j = "if ?len + u < ?n then ?len + u else ?len + u - ?n"
      have "b ! ((?h + (?len + u)) mod ?n) = Some (xs ! u)"
      proof (cases "?len + u < ?n")
        case True
        then show ?thesis using b(3) [of "?len + u"] u(1) m vd_rep_nth [OF rep, of u] by (simp add: Let_def)
      next
        case False
        then have j: "?h + (?len + u) = ?h + (?len + u - ?n) + ?n" "?len + u - ?n < ?len" "?len + u - ?n < ?n"
          "?len + u - ?n + ?n - ?len = u" using u(1) m le by auto
        have "b ! ((?h + (?len + u - ?n)) mod ?n) = Some (xs ! u)"
          using b(3) [OF j(3)] j(2,4) u(1) m vd_rep_nth [OF rep, of u] by (simp add: Let_def)
        then show ?thesis unfolding j(1) by simp
      qed
      then show ?thesis unfolding e u .
    qed
  qed
  moreover have "(?h + mid) mod ?n < ?n" using h(2) by simp
  ultimately have "vd_rep el (d\<lparr>vd_buf := b, vd_head := (?h + mid) mod ?n\<rparr>) ?ys"
    using rep b(2) m le by (simp add: vd_rep_def raw_ok_def vd_cap_def)
  then show ?thesis using b(1) h(1) ph ph' le by (simp add: rotate_left_inner_def)
qed

lemma rotate_right_inner_exact:
  assumes rep: "vd_rep el d xs" and k: "2 * k \<le> length xs" "xs \<noteq> []"
  shows "\<exists>d'. rotate_right_inner d k = Ret d' \<and> vd_rep el d' (drop (length xs - k) xs @ take (length xs - k) xs)"
proof -
  let ?n = "vd_cap d" and ?len = "length xs"
  have hd: "vd_head d < ?n" "0 < ?n" using vd_rep_nonempty [OF rep, of 0] k(2) by auto
  have le: "?len \<le> ?n" "vd_len d = ?len" "k \<le> ?n" using vd_rep_len [OF rep] k by auto
  define h where "h = (vd_head d + (?n - k)) mod ?n"
  have h: "h < ?n" using hd by (simp add: h_def)
  have ws: "wrap_sub d (vd_head d) k = h" using wrap_sub_mod [OF vd_rep_bound [OF rep] hd(1) le(3)] by (simp add: h_def)
  have old: "vd_buf d ! ((h + (k + j)) mod ?n) = Some (xs ! j)" if "j < ?len" for j
    using retreat_mod [OF le(3), of "vd_head d" j] vd_rep_nth [OF rep that] by (simp add: h_def)
  have ph: "to_physical_idx (d\<lparr>vd_head := h\<rparr>) ?len = (h + ?len) mod ?n"
    using phys_mod [of "d\<lparr>vd_head := h\<rparr>" ?len] h vd_rep_bound [OF rep] le by simp
  obtain b where b: "wrap_copy (d\<lparr>vd_head := h\<rparr>) ((h + ?len) mod ?n) ((h + 0) mod ?n) k = Ret (d\<lparr>vd_head := h, vd_buf := b\<rparr>)"
    "length b = ?n"
    "\<And>j. j < ?n \<Longrightarrow> b ! ((h + j) mod ?n) = (if j < k then vd_buf d ! ((h + ?len + j) mod ?n) else vd_buf d ! ((h + j) mod ?n))"
    using wrap_copy_from [OF vd_rep_bound [OF rep] h _ _ ring_contract(2) [OF k(1) le(1)], of h] le by auto
  let ?ys = "drop (?len - k) xs @ take (?len - k) xs"
  have "ring_holds b h ?ys"
  proof (unfold ring_holds_def b(2), intro allI impI)
    fix j assume "j < length ?ys"
    then have j: "j < ?len" "j < ?n" using le by auto
    show "b ! ((h + j) mod ?n) = Some (?ys ! j)"
    proof (cases "j < k")
      case True
      then have e: "h + (k + (?len - k + j)) = h + ?len + j" and "?len - k + j < ?len" using k by auto
      from old [OF this(2), unfolded e] have "vd_buf d ! ((h + ?len + j) mod ?n) = Some (xs ! (?len - k + j))" .
      then show ?thesis using True b(3) [OF j(2)] k by (simp add: nth_append)
    next
      case False
      then show ?thesis using b(3) [OF j(2)] old [of "j - k"] k j by (auto simp: nth_append)
    qed
  qed
  then have "vd_rep el (d\<lparr>vd_head := h, vd_buf := b\<rparr>) ?ys"
    using rep b(2) k le h by (simp add: vd_rep_def raw_ok_def vd_cap_def)
  then show ?thesis using b(1) h ph ws le by (simp add: rotate_right_inner_def Let_def)
qed

lemma rotate_inner_empty:
  assumes "vd_rep el d []"
  shows "\<exists>d'. rotate_left_inner d 0 = Ret d' \<and> vd_rep el d' []" "\<exists>d'. rotate_right_inner d 0 = Ret d' \<and> vd_rep el d' []"
proof -
  have m: "min (abs_diff s t) (vd_cap d - abs_diff s t) + 0 \<le> vd_cap d" for s t by simp
  have p: "to_physical_idx d 0 = vd_head d"
    using assms to_physical_eq [OF vd_rep_bound [OF assms], of 0] by (auto simp: vd_rep_def wrap_index_def)
  then show "\<exists>d'. rotate_left_inner d 0 = Ret d' \<and> vd_rep el d' []"
    using m assms by (simp add: rotate_left_inner_def wrap_copy_def)
  have "wrap_sub d (vd_head d) 0 = vd_head d"
  proof (cases "vd_cap d = 0")
    case True
    then have "vd_head d = 0" using assms by (simp add: vd_rep_def)
    then show ?thesis using True by (simp add: wrap_sub_def wrap_index_def usize_wrapping_sub_def usize_wrapping_add_def)
  next
    case False
    then show ?thesis using wrap_sub_eq [OF vd_rep_bound [OF assms] vd_rep_head [OF assms], of 0] by simp
  qed
  then show "\<exists>d'. rotate_right_inner d 0 = Ret d' \<and> vd_rep el d' []"
    using m assms by (simp add: rotate_right_inner_def wrap_copy_def)
qed

lemma rotate_inner_exact:
  assumes "vd_rep el d xs" "2 * k \<le> length xs"
  shows "\<exists>d'. rotate_left_inner d k = Ret d' \<and> vd_rep el d' (drop k xs @ take k xs)"
    "\<exists>d'. rotate_right_inner d k = Ret d' \<and> vd_rep el d' (drop (length xs - k) xs @ take (length xs - k) xs)"
proof -
  show "\<exists>d'. rotate_left_inner d k = Ret d' \<and> vd_rep el d' (drop k xs @ take k xs)"
    using assms rotate_left_inner_exact [OF assms] rotate_inner_empty(1) by (cases "xs = []") auto
  show "\<exists>d'. rotate_right_inner d k = Ret d' \<and> vd_rep el d' (drop (length xs - k) xs @ take (length xs - k) xs)"
    using assms rotate_right_inner_exact [OF assms] rotate_inner_empty(2) by (cases "xs = []") auto
qed

lemma vd_rotate_exact:
  assumes "vd_rep el d xs"
  shows "if n \<le> length xs then (\<exists>d'. vd_rotate_left d n = Ret d' \<and> vd_rep el d' (drop n xs @ take n xs))
      \<and> (\<exists>d'. vd_rotate_right d n = Ret d' \<and> vd_rep el d' (drop (length xs - n) xs @ take (length xs - n) xs))
    else vd_rotate_left d n = Panic \<and> vd_rotate_right d n = Panic"
proof (cases "n \<le> length xs")
  case True
  have l: "vd_len d = length xs" using vd_rep_len [OF assms] by simp
  show ?thesis
  proof (cases "n \<le> length xs - n")
    case le: True
    then show ?thesis using True l rotate_inner_exact [OF assms, of n]
      by (simp add: vd_rotate_left_def vd_rotate_right_def)
  next
    case False
    then have "length xs - (length xs - n) = n" using True by simp
    then show ?thesis using False True l rotate_inner_exact [OF assms, of "length xs - n"]
      by (simp add: vd_rotate_left_def vd_rotate_right_def)
  qed
qed (use vd_rep_len [OF assms] in \<open>simp add: vd_rotate_left_def vd_rotate_right_def\<close>)

section \<open>Provider of the deque interface\<close>

interpretation vd_deque: deque "vd_rep el" "push_back al el" "push_front al el" pop_back pop_front "vd_stuck al el" for el al
proof unfold_locales
  fix d :: "'a vec_deque" and xs v
  assume r: "vd_rep el d xs"
  show "if vd_stuck al el d then push_back al el d v = Panic else \<exists>d'. push_back al el d v = Ret d' \<and> vd_rep el d' (xs @ [v])"
    by (rule push_back_exact [OF r])
  show "if vd_stuck al el d then push_front al el d v = Panic else \<exists>d'. push_front al el d v = Ret d' \<and> vd_rep el d' (v # xs)"
    by (rule push_front_exact [OF r])
  show "\<exists>d'. pop_back d = Ret (if xs = [] then None else Some (last xs), d') \<and> vd_rep el d' (butlast xs)"
    by (rule pop_back_exact [OF r])
  show "\<exists>d'. pop_front d = Ret (if xs = [] then None else Some (hd xs), d') \<and> vd_rep el d' (tl xs)"
    by (rule pop_front_exact [OF r])
qed

lemma swap_remove_front_exact:
  assumes "vd_rep el d xs" "i < length xs"
  shows "\<exists>d'. swap_remove_front d i = Ret (Some (xs ! i), d') \<and> vd_rep el d' (tl (xs[i := hd xs]))"
proof -
  have l: "vd_len d = length xs" using vd_rep_len [OF assms(1)] by simp
  obtain x ys where xs: "xs = x # ys" using assms(2) by (cases xs) auto
  show ?thesis
  proof (cases i)
    case 0
    then show ?thesis using pop_front_exact [OF assms(1)] l by (simp add: swap_remove_front_def xs)
  next
    case (Suc k)
    obtain d1 where d1: "vd_swap d i 0 = Ret d1" "vd_rep el d1 (xs[i := xs ! 0, 0 := xs ! i])"
      using vd_swap_exact [OF assms(1), of i 0] assms(2) xs by auto
    then show ?thesis using pop_front_exact [OF d1(2)] Suc assms(2) l by (simp add: swap_remove_front_def xs)
  qed
qed

lemma swap_remove_back_exact:
  assumes "vd_rep el d xs" "i < length xs"
  shows "\<exists>d'. swap_remove_back d i = Ret (Some (xs ! i), d') \<and> vd_rep el d' (butlast (xs[i := last xs]))"
proof -
  obtain ys x where xs: "xs = ys @ [x]" using assms(2) by (cases xs rule: rev_cases) auto
  have l: "vd_len d = Suc (length ys)" using vd_rep_len [OF assms(1)] xs by simp
  show ?thesis
  proof (cases "i < length ys")
    case False
    then have "i = length ys" using assms(2) xs by simp
    then show ?thesis using pop_back_exact [OF assms(1)] l by (simp add: swap_remove_back_def xs)
  next
    case True
    obtain d1 where d1: "vd_swap d i (length ys) = Ret d1" "vd_rep el d1 (xs[i := xs ! length ys, length ys := xs ! i])"
      using vd_swap_exact [OF assms(1), of i "length ys"] True xs by auto
    have e: "xs[i := xs ! length ys, length ys := xs ! i] = ys[i := x] @ [xs ! i]"
      "butlast (xs[i := last xs]) = ys[i := x]"
      using True by (simp_all add: xs list_update_append nth_append)
    from pop_back_exact [OF d1(2)] obtain d2 where "pop_back d1 = Ret (Some (xs ! i), d2)" "vd_rep el d2 (ys[i := x])"
      unfolding e(1) by auto
    then show ?thesis using d1(1) True l unfolding e(2) by (simp add: swap_remove_back_def)
  qed
qed

section \<open>Properties\<close>

text \<open>C14: \<open>VecDeque\<close> refines a list: from a state that represents a list, every sequence of pushes and
  pops at both ends returns what it returns on the list and ends in a state that represents the resulting
  list, unless a push of the sequence meets a full deque and the doubled buffer is no valid layout or is refused by the
  allocator; then the sequence panics there. No call has undefined behaviour, and no pop panics.\<close>

theorem vec_deque_refines_list:
  assumes "vd_rep el d xs"
  shows "if runs_out (run_op (push_back al el) (push_front al el) pop_back pop_front)
      (push_stuck (vd_stuck al el)) cs d
    then run_calls (run_op (push_back al el) (push_front al el) pop_back pop_front) cs d = Panic
    else \<exists>d'. run_calls (run_op (push_back al el) (push_front al el) pop_back pop_front) cs d = Ret (fst (list_run cs xs), d')
         \<and> vd_rep el d' (snd (list_run cs xs))"
  by (rule vd_deque.run_ops_refines [OF assms])

lemma demo_vd_rep: "vd_rep \<lparr>l_size = 4, l_align = 4\<rparr> \<lparr>vd_head = 2, vd_len = 2, vd_buf = [Some CHR ''b'', None, Some CHR ''a'']\<rparr> [CHR ''a'', CHR ''b'']"
  by (simp add: vd_rep_def raw_ok_def elem_ok_def layout_ok_def demo_pow2 isize_bound_def vd_cap_def ring_holds_def
      less_Suc_eq)

text \<open>The definitions that a concrete run unfolds.\<close>

lemmas vd_eval = push_back_def push_front_def pop_back_def pop_front_def ensure_room_def is_full_def vd_stuck_def
  buffer_write_def buffer_read_def to_physical_idx_def wrap_add_def wrap_sub_def wrap_index_def vd_cap_def
  usize_wrapping_add_def usize_wrapping_sub_def usize_bound_def assert_unchecked_def vd_grow_def grow_with_def
  raw_grow_one_exactly granted_def array_layout_def layout_ok_def demo_pow2 isize_bound_def min_non_zero_cap_def
  amortized_def handle_capacity_increase_def raw_ok_def elem_ok_def

theorem vec_deque_refines_list_witness:
  "(\<exists>d'. run_calls (run_op (push_back (\<lambda>_. True) \<lparr>l_size = 4, l_align = 4\<rparr>) (push_front (\<lambda>_. True) \<lparr>l_size = 4, l_align = 4\<rparr>) pop_back pop_front)
      [Pop_Front, Push_Back CHR ''c'', Push_Back CHR ''d'', Push_Front CHR ''e'', Pop_Back]
      \<lparr>vd_head = 2, vd_len = 2, vd_buf = [Some CHR ''b'', None, Some CHR ''a'']\<rparr> = Ret ([Some CHR ''a'', None, None, None, Some CHR ''d''], d')
     \<and> vd_rep \<lparr>l_size = 4, l_align = 4\<rparr> d' [CHR ''e'', CHR ''b'', CHR ''c''])
   \<and> run_calls (run_op (push_back (\<lambda>_. False) \<lparr>l_size = 4, l_align = 4\<rparr>) (push_front (\<lambda>_. False) \<lparr>l_size = 4, l_align = 4\<rparr>) pop_back pop_front)
      [Push_Front CHR ''c'', Push_Front CHR ''d'']
      \<lparr>vd_head = 2, vd_len = 2, vd_buf = [Some CHR ''b'', None, Some CHR ''a'']\<rparr> = Panic"
  using vec_deque_refines_list [OF demo_vd_rep, of "\<lambda>_. True" "[Pop_Front, Push_Back CHR ''c'', Push_Back CHR ''d'', Push_Front CHR ''e'', Pop_Back]"]
    vec_deque_refines_list [OF demo_vd_rep, of "\<lambda>_. False" "[Push_Front CHR ''c'', Push_Front CHR ''d'']"]
  by (simp add: vd_eval)

text \<open>C15: access and modification in the middle of a \<open>VecDeque\<close>. Reading, writing, swapping, inserting
  and removing at an index and rotating by an amount do to the represented list what their names say, out
  of range they return \<open>None\<close> or panic, and the wrapping block moves they are made of stay within their
  contract on every branch. An insertion in range, the end included, panics exactly when the deque is full and the larger
  buffer is refused.\<close>

theorem vec_deque_middle:
  assumes "vd_rep el d xs"
  shows "vd_get d i = Ret (if i < length xs then Some (xs ! i) else None)
    \<and> (if i < length xs then \<exists>d'. vd_set d i v = Ret (Some d') \<and> vd_rep el d' (xs[i := v]) else vd_set d i v = Ret None)
    \<and> (if i < length xs \<and> j < length xs then \<exists>d'. vd_swap d i j = Ret d' \<and> vd_rep el d' (xs[i := xs ! j, j := xs ! i])
       else vd_swap d i j = Panic)
    \<and> (if i \<le> length xs \<and> \<not> vd_stuck al el d
       then \<exists>d'. vd_insert al el d i v = Ret d' \<and> vd_rep el d' (take i xs @ v # drop i xs)
       else vd_insert al el d i v = Panic)
    \<and> (if i < length xs then \<exists>d'. vd_remove d i = Ret (Some (xs ! i), d') \<and> vd_rep el d' (take i xs @ drop (Suc i) xs)
       else vd_remove d i = Ret (None, d))
    \<and> (if i \<le> length xs then (\<exists>d'. vd_rotate_left d i = Ret d' \<and> vd_rep el d' (drop i xs @ take i xs))
         \<and> (\<exists>d'. vd_rotate_right d i = Ret d' \<and> vd_rep el d' (drop (length xs - i) xs @ take (length xs - i) xs))
       else vd_rotate_left d i = Panic \<and> vd_rotate_right d i = Panic)
    \<and> vd_front d = Ret (if xs = [] then None else Some (hd xs))
    \<and> vd_back d = Ret (if xs = [] then None else Some (last xs))
    \<and> (if i < length xs then \<exists>d'. swap_remove_front d i = Ret (Some (xs ! i), d') \<and> vd_rep el d' (tl (xs[i := hd xs]))
       else swap_remove_front d i = Ret (None, d))
    \<and> (if i < length xs then \<exists>d'. swap_remove_back d i = Ret (Some (xs ! i), d') \<and> vd_rep el d' (butlast (xs[i := last xs]))
       else swap_remove_back d i = Ret (None, d))"
proof (intro conjI)
  have l: "vd_len d = length xs" using vd_rep_len [OF assms] by simp
  show "if i < length xs then \<exists>d'. swap_remove_front d i = Ret (Some (xs ! i), d') \<and> vd_rep el d' (tl (xs[i := hd xs]))
      else swap_remove_front d i = Ret (None, d)"
    using swap_remove_front_exact [OF assms] l by (cases "i < length xs") (simp, simp add: swap_remove_front_def Let_def)
  show "if i < length xs then \<exists>d'. swap_remove_back d i = Ret (Some (xs ! i), d') \<and> vd_rep el d' (butlast (xs[i := last xs]))
      else swap_remove_back d i = Ret (None, d)"
    using swap_remove_back_exact [OF assms] l by (cases "i < length xs") (simp, auto simp: swap_remove_back_def Let_def)
qed (rule vd_get_exact [OF assms] vd_set_exact [OF assms] vd_swap_exact [OF assms] vd_insert_exact [OF assms]
    vd_remove_exact [OF assms] vd_rotate_exact [OF assms] vd_front_exact [OF assms] vd_back_exact [OF assms])+

theorem vec_deque_middle_witness:
  "(\<exists>d'. vd_remove \<lparr>vd_head = 2, vd_len = 2, vd_buf = [Some CHR ''b'', None, Some CHR ''a'']\<rparr> 0 = Ret (Some CHR ''a'', d')
     \<and> vd_rep \<lparr>l_size = 4, l_align = 4\<rparr> d' [CHR ''b''])
   \<and> (\<exists>d'. vd_insert (\<lambda>_. False) \<lparr>l_size = 4, l_align = 4\<rparr>
        \<lparr>vd_head = 2, vd_len = 2, vd_buf = [Some CHR ''b'', None, Some CHR ''a'']\<rparr> 2 CHR ''c'' = Ret d'
     \<and> vd_rep \<lparr>l_size = 4, l_align = 4\<rparr> d' ''abc'')"
  using vec_deque_middle [OF demo_vd_rep, of 0] vec_deque_middle [OF demo_vd_rep, of 2 "CHR ''c''" 0 "\<lambda>_. False"]
  by (simp add: vd_stuck_def vd_cap_def)

end
