(* ===== verification/Vec_Deque_Slices.thy ===== *)
theory Vec_Deque_Slices
  imports Vec_Deque
begin

text \<open>
  The operations of \<open>VecDeque\<close> that look at the buffer as one or two slices: \<open>as_slices\<close>, truncation,
  comparison, appending, splitting, filtering, shrinking with its recovery when the allocator fails, and
  making the buffer contiguous. \<open>slice::rotate_left\<close> and \<open>rotate_right\<close> on a block of cells are given by
  their result.
\<close>

section \<open>Operations\<close>

definition slice_ranges :: "'a vec_deque \<Rightarrow> nat \<Rightarrow> nat \<Rightarrow> (nat \<times> nat) \<times> (nat \<times> nat)" where
  "slice_ranges d start stop =
     (let len = stop - start in
      if len = 0 then ((0, 0), (0, 0))
      else (let wrapped_start = to_physical_idx d start;
                head_len = vd_cap d - wrapped_start
            in if head_len \<ge> len then ((wrapped_start, wrapped_start + len), (0, 0))
               else (let tail_len = len - head_len in ((wrapped_start, vd_cap d), (0, tail_len)))))"

definition buffer_range :: "'a vec_deque \<Rightarrow> nat \<times> nat \<Rightarrow> 'a list outcome" where
  "buffer_range d r =
     (case r of (a, b) \<Rightarrow>
        if a \<le> b \<and> b \<le> vd_cap d \<and> None \<notin> set (take (b - a) (drop a (vd_buf d)))
        then Ret (map the (take (b - a) (drop a (vd_buf d)))) else UB)"

definition as_slices :: "'a vec_deque \<Rightarrow> ('a list \<times> 'a list) outcome" where
  "as_slices d =
     (case slice_ranges d 0 (vd_len d) of (a_range, b_range) \<Rightarrow>
        and_then (buffer_range d a_range) (\<lambda>a. and_then (buffer_range d b_range) (\<lambda>b. Ret (a, b))))"

definition vd_truncate :: "'a vec_deque \<Rightarrow> nat \<Rightarrow> 'a vec_deque outcome" where
  "vd_truncate d len =
     (if len \<ge> vd_len d then Ret d
      else and_then (as_slices d) (\<lambda>(front, back).
        if len > length front then
          (let begin = len - length front in
           if begin \<le> length back then Ret (d\<lparr>vd_len := len\<rparr>) else UB)
        else if len \<le> length front then Ret (d\<lparr>vd_len := len\<rparr>) else UB))"

definition vd_contains :: "'a vec_deque \<Rightarrow> 'a \<Rightarrow> bool outcome" where
  "vd_contains d x = and_then (as_slices d) (\<lambda>(a, b). Ret (x \<in> set a \<or> x \<in> set b))"

definition vd_eq :: "'a vec_deque \<Rightarrow> 'a vec_deque \<Rightarrow> bool outcome" where
  "vd_eq d e =
     (if vd_len d \<noteq> vd_len e then Ret False
      else and_then (as_slices d) (\<lambda>(sa, sb). and_then (as_slices e) (\<lambda>(oa, ob).
        if length sa = length oa then Ret (sa = oa \<and> sb = ob)
        else if length sa < length oa then
          (let front = length sa; mid = length oa - front in
           if mid \<le> length sb
           then Ret (sa = take front oa \<and> take mid sb = drop front oa \<and> drop mid sb = ob) else Panic)
        else
          (let front = length oa; mid = length sa - front in
           if mid \<le> length ob
           then Ret (take front sa = oa \<and> drop front sa = take mid ob \<and> sb = drop mid ob) else Panic))))"

text \<open>A block write from outside the buffer.\<close>

definition write_block :: "'a vec_deque \<Rightarrow> nat \<Rightarrow> 'a list \<Rightarrow> 'a vec_deque outcome" where
  "write_block d dst src =
     (if dst + length src \<le> vd_cap d
      then Ret (d\<lparr>vd_buf := take dst (vd_buf d) @ map Some src @ drop (dst + length src) (vd_buf d)\<rparr>) else UB)"

definition copy_slice :: "'a vec_deque \<Rightarrow> nat \<Rightarrow> 'a list \<Rightarrow> 'a vec_deque outcome" where
  "copy_slice d dst src =
     (let head_room = vd_cap d - dst in
      if length src \<le> head_room then write_block d dst src
      else and_then (write_block d dst (take head_room src)) (\<lambda>d. write_block d 0 (drop head_room src)))"

definition vd_append :: "allocator \<Rightarrow> layout \<Rightarrow> 'a vec_deque \<Rightarrow> 'a vec_deque \<Rightarrow> ('a vec_deque \<times> 'a vec_deque) outcome" where
  "vd_append al el d other =
     and_then (vd_reserve al el d (vd_len other)) (\<lambda>d.
     and_then (as_slices other) (\<lambda>(left, right).
     and_then (copy_slice d (to_physical_idx d (vd_len d)) left) (\<lambda>d.
     and_then (copy_slice d (to_physical_idx d (vd_len d + length left)) right) (\<lambda>d.
       Ret (d\<lparr>vd_len := vd_len d + vd_len other\<rparr>, other\<lparr>vd_len := 0, vd_head := 0\<rparr>)))))"

definition vd_split_off :: "allocator \<Rightarrow> layout \<Rightarrow> 'a vec_deque \<Rightarrow> nat \<Rightarrow> ('a vec_deque \<times> 'a vec_deque) outcome" where
  "vd_split_off al el d at =
     (let len = vd_len d in
      if \<not> at \<le> len then Panic
      else (let other_len = len - at in
        and_then (vd_with_capacity al el other_len) (\<lambda>other.
        and_then (as_slices d) (\<lambda>(first_half, second_half).
          let first_len = length first_half; second_len = length second_half in
          and_then
            (if at < first_len then
               and_then (write_block other 0 (drop at first_half)) (\<lambda>other.
                 write_block other (first_len - at) second_half)
             else (let offset = at - first_len in
                   if offset \<le> second_len then write_block other 0 (drop offset second_half) else UB))
            (\<lambda>other. Ret (d\<lparr>vd_len := at\<rparr>, other\<lparr>vd_len := other_len\<rparr>))))))"

text \<open>\<open>extend\<close> from a slice or a vector: the specialised \<open>spec_extend\<close>.\<close>

definition spec_extend_slice :: "allocator \<Rightarrow> layout \<Rightarrow> 'a vec_deque \<Rightarrow> 'a list \<Rightarrow> 'a vec_deque outcome" where
  "spec_extend_slice al el d vs =
     and_then (vd_reserve al el d (length vs)) (\<lambda>d.
     and_then (copy_slice d (to_physical_idx d (vd_len d)) vs) (\<lambda>d. Ret (d\<lparr>vd_len := vd_len d + length vs\<rparr>)))"

text \<open>\<open>retain_mut\<close> with a predicate. The number of elements still to visit is the recursion argument.\<close>

definition vd_index :: "'a vec_deque \<Rightarrow> nat \<Rightarrow> 'a outcome" where
  "vd_index d i = and_then (vd_get d i) (\<lambda>r. case r of Some x \<Rightarrow> Ret x | None \<Rightarrow> Panic)"

fun retain_stage1 :: "('a \<Rightarrow> bool) \<Rightarrow> 'a vec_deque \<Rightarrow> nat \<Rightarrow> nat \<Rightarrow> nat \<Rightarrow> (nat \<times> nat) outcome" where
  "retain_stage1 f d 0 idx cur = Ret (idx, cur)"
| "retain_stage1 f d (Suc n) idx cur =
     and_then (vd_index d cur) (\<lambda>x.
       if \<not> f x then Ret (idx, cur + 1) else retain_stage1 f d n (idx + 1) (cur + 1))"

fun retain_stage2 :: "('a \<Rightarrow> bool) \<Rightarrow> 'a vec_deque \<Rightarrow> nat \<Rightarrow> nat \<Rightarrow> nat \<Rightarrow> (nat \<times> 'a vec_deque) outcome" where
  "retain_stage2 f d 0 idx cur = Ret (idx, d)"
| "retain_stage2 f d (Suc n) idx cur =
     and_then (vd_index d cur) (\<lambda>x.
       if \<not> f x then retain_stage2 f d n idx (cur + 1)
       else and_then (vd_swap d idx cur) (\<lambda>d. retain_stage2 f d n (idx + 1) (cur + 1)))"

definition vd_retain :: "('a \<Rightarrow> bool) \<Rightarrow> 'a vec_deque \<Rightarrow> 'a vec_deque outcome" where
  "vd_retain f d =
     (let len = vd_len d in
      and_then (retain_stage1 f d len 0 0) (\<lambda>(idx, cur).
      and_then (retain_stage2 f d (len - cur) idx cur) (\<lambda>(idx', d).
        if len \<noteq> idx' then vd_truncate d idx' else Ret d)))"

text \<open>\<open>shrink_to\<close>: first the elements are moved below the new capacity, then the buffer shrinks. When the
  allocator refuses, the drop guard calls \<open>abort_shrink\<close> before the error is reported.\<close>

definition shrink_prepare :: "'a vec_deque \<Rightarrow> nat \<Rightarrow> 'a vec_deque outcome" where
  "shrink_prepare d target_cap =
     (let tail_outside = (target_cap + 1 \<le> vd_head d + vd_len d \<and> vd_head d + vd_len d \<le> vd_cap d) in
      if vd_len d = 0 then Ret (d\<lparr>vd_head := 0\<rparr>)
      else if vd_head d \<ge> target_cap \<and> tail_outside then
        and_then (buf_copy_nonoverlapping d (vd_head d) 0 (vd_len d)) (\<lambda>d. Ret (d\<lparr>vd_head := 0\<rparr>))
      else if vd_head d < target_cap \<and> tail_outside then
        (let len = vd_head d + vd_len d - target_cap in buf_copy_nonoverlapping d target_cap 0 len)
      else if \<not> is_contiguous d then
        (let head_len = vd_cap d - vd_head d; new_head = target_cap - head_len in
         and_then (buf_copy d (vd_head d) new_head head_len) (\<lambda>d. Ret (d\<lparr>vd_head := new_head\<rparr>)))
      else Ret d)"

definition abort_shrink :: "'a vec_deque \<Rightarrow> nat \<Rightarrow> nat \<Rightarrow> 'a vec_deque outcome" where
  "abort_shrink d old_head target_cap =
     (if vd_head d \<le> target_cap - vd_len d then Ret d
      else (let head_len = target_cap - vd_head d; tail_len = vd_len d - head_len in
        if tail_len \<le> min head_len (vd_cap d - target_cap)
        then buf_copy_nonoverlapping d 0 target_cap tail_len
        else and_then (buf_copy d (vd_head d) old_head head_len) (\<lambda>d. Ret (d\<lparr>vd_head := old_head\<rparr>))))"

definition vd_shrink_to ::
  "allocator \<Rightarrow> layout \<Rightarrow> 'a vec_deque \<Rightarrow> nat \<Rightarrow> (try_reserve_error option \<times> 'a vec_deque) outcome" where
  "vd_shrink_to al el d min_capacity =
     (let target_cap = max min_capacity (vd_len d) in
      if vd_cap d \<le> target_cap then Ret (None, d)
      else (let old_head = vd_head d in
        and_then (shrink_prepare d target_cap) (\<lambda>d.
        and_then (shrink al el (vd_buf d) target_cap) (\<lambda>r. case r of
          Inr b \<Rightarrow> Ret (None, d\<lparr>vd_buf := b\<rparr>)
        | Inl e \<Rightarrow> and_then (abort_shrink d old_head target_cap) (\<lambda>d. Ret (Some e, d))))))"

text \<open>Rotating a block of cells in place.\<close>

definition rotate_block :: "'a vec_deque \<Rightarrow> nat \<Rightarrow> nat \<Rightarrow> nat \<Rightarrow> 'a vec_deque outcome" where
  "rotate_block d a b mid =
     (if \<not> (a \<le> b \<and> b \<le> vd_cap d) then UB
      else if \<not> mid \<le> b - a then Panic
      else (let s = take (b - a) (drop a (vd_buf d)) in
        Ret (d\<lparr>vd_buf := take a (vd_buf d) @ (drop mid s @ take mid s) @ drop b (vd_buf d)\<rparr>)))"

definition make_contiguous :: "'a vec_deque \<Rightarrow> 'a vec_deque outcome" where
  "make_contiguous d =
     (if is_contiguous d then Ret d
      else
        (let head = vd_head d; len = vd_len d; cap = vd_cap d;
             free = cap - len; head_len = cap - head; tail = len - head_len; tail_len = tail
         in if free \<ge> head_len then
              and_then (buf_copy d 0 head_len tail_len) (\<lambda>d.
              and_then (buf_copy_nonoverlapping d head 0 head_len) (\<lambda>d. Ret (d\<lparr>vd_head := 0\<rparr>)))
            else if free \<ge> tail_len then
              and_then (buf_copy d head tail head_len) (\<lambda>d.
              and_then (buf_copy_nonoverlapping d 0 (tail + head_len) tail_len) (\<lambda>d. Ret (d\<lparr>vd_head := tail\<rparr>)))
            else if head_len > tail_len then
              and_then (if free \<noteq> 0 then buf_copy d 0 free tail_len else Ret d) (\<lambda>d.
              and_then (rotate_block d free cap tail_len) (\<lambda>d. Ret (d\<lparr>vd_head := free\<rparr>)))
            else
              and_then (if free \<noteq> 0 then buf_copy d (vd_head d) tail_len head_len else Ret d) (\<lambda>d.
              and_then (rotate_block d 0 len (len - head_len)) (\<lambda>d. Ret (d\<lparr>vd_head := 0\<rparr>)))))"

section \<open>Slices\<close>

lemma take_drop_eq_map: "h + length xs \<le> length b \<Longrightarrow> (\<And>i. i < length xs \<Longrightarrow> b ! (h + i) = Some (xs ! i))
    \<Longrightarrow> take (length xs) (drop h b) = map Some xs"
  by (rule nth_equalityI) auto

lemma buffer_range_Ret:
  assumes "h + length xs \<le> vd_cap d" "\<And>i. i < length xs \<Longrightarrow> vd_buf d ! (h + i) = Some (xs ! i)"
  shows "buffer_range d (h, h + length xs) = Ret xs"
proof -
  have "take (length xs) (drop h (vd_buf d)) = map Some xs"
    using assms by (intro take_drop_eq_map) (auto simp: vd_cap_def)
  then show ?thesis using assms(1) by (simp add: buffer_range_def o_def)
qed

lemma as_slices_exact:
  assumes "vd_rep el d xs"
  shows "as_slices d = Ret (take (vd_cap d - vd_head d) xs, drop (vd_cap d - vd_head d) xs)"
proof (cases "xs = []")
  case True
  then show ?thesis using vd_rep_len [OF assms]
    by (simp add: as_slices_def slice_ranges_def buffer_range_def)
next
  case False
  let ?n = "vd_cap d" and ?h = "vd_head d"
  have h: "?h < ?n" using vd_rep_nonempty [OF assms, of 0] False by simp
  have l: "vd_len d = length xs" "length xs \<le> ?n" using vd_rep_len [OF assms] by auto
  have p: "to_physical_idx d 0 = ?h" using vd_rep_phys [OF assms h, of 0] h by simp
  have r: "ring_holds (vd_buf d) ?h xs" using assms by (simp add: vd_rep_def)
  show ?thesis
  proof (cases "length xs \<le> ?n - ?h")
    case True
    then have "buffer_range d (?h, ?h + length xs) = Ret xs"
      using r h ring_holds_flat [of ?h xs "vd_buf d"] by (intro buffer_range_Ret) (auto simp: vd_cap_def)
    then show ?thesis using True False l p h
      by (simp add: as_slices_def slice_ranges_def Let_def buffer_range_def [of d "(0, 0)"])
  next
    case wrap: False
    let ?a = "take (?n - ?h) xs" and ?b = "drop (?n - ?h) xs"
    have s: "\<And>i. i < ?n - ?h \<Longrightarrow> vd_buf d ! (?h + i) = Some (xs ! i)"
      "\<And>i. i < ?h + length xs - ?n \<Longrightarrow> vd_buf d ! i = Some (xs ! (i + (?n - ?h)))"
      using r ring_holds_split [of ?h "vd_buf d" xs] h wrap l by (auto simp: vd_cap_def)
    have "buffer_range d (?h, ?h + length ?a) = Ret ?a"
      using s(1) h wrap by (intro buffer_range_Ret) auto
    moreover have "buffer_range d (0, 0 + length ?b) = Ret ?b"
      using s(2) h wrap l by (intro buffer_range_Ret) (auto simp: add.commute)
    moreover have "?h + length ?a = ?n" "0 + length ?b = length xs - (?n - ?h)" using h wrap by auto
    ultimately show ?thesis using wrap False l p by (simp add: as_slices_def slice_ranges_def Let_def)
  qed
qed

lemma vd_rep_take:
  assumes "vd_rep el d xs" "m \<le> length xs"
  shows "vd_rep el (d\<lparr>vd_len := m\<rparr>) (take m xs)"
  using assms by (auto simp: vd_rep_def vd_cap_def ring_holds_def)

lemma vd_truncate_exact:
  assumes "vd_rep el d xs"
  shows "\<exists>d'. vd_truncate d m = Ret d' \<and> vd_rep el d' (take m xs)"
proof (cases "m < length xs")
  case True
  then show ?thesis using vd_rep_take [OF assms, of m] vd_rep_len [OF assms]
    by (auto simp: vd_truncate_def as_slices_exact [OF assms] Let_def min_def)
qed (use assms vd_rep_len [OF assms] in \<open>simp add: vd_truncate_def\<close>)

lemma vd_contains_exact:
  assumes "vd_rep el d xs"
  shows "vd_contains d x = Ret (x \<in> set xs)"
proof -
  have "x \<in> set (take k xs) \<or> x \<in> set (drop k xs) \<longleftrightarrow> x \<in> set xs" for k
    by (metis append_take_drop_id set_append Un_iff)
  then show ?thesis by (simp add: vd_contains_def as_slices_exact [OF assms])
qed

lemma list_eq_split: "as = bs \<longleftrightarrow> take k as = take k bs \<and> drop k as = drop k bs"
  by (metis append_take_drop_id)

text \<open>The three pairwise comparisons of slices cut at different positions decide equality.\<close>

lemma list_eq_cuts:
  assumes "i \<le> j"
  shows "as = bs \<longleftrightarrow> take i as = take i (take j bs) \<and> take (j - i) (drop i as) = drop i (take j bs)
    \<and> drop (j - i) (drop i as) = drop j bs"
proof -
  have e: "take i (take j bs) = take i bs" "drop i (take j bs) = take (j - i) (drop i bs)"
    "drop (j - i) (drop i bs) = drop j bs" using assms by (simp_all add: drop_take min_def)
  show ?thesis unfolding e(1,2) using list_eq_split [of as bs i] list_eq_split [of "drop i as" "drop i bs" "j - i"] e(3)
    by simp
qed

lemma vd_eq_exact:
  assumes "vd_rep el d xs" "vd_rep el' e ys"
  shows "vd_eq d e = Ret (xs = ys)"
proof (cases "length xs = length ys")
  case True
  define i where "i = min (vd_cap d - vd_head d) (length xs)"
  define j where "j = min (vd_cap e - vd_head e) (length ys)"
  have sl: "as_slices d = Ret (take i xs, drop i xs)" "as_slices e = Ret (take j ys, drop j ys)"
    using as_slices_exact [OF assms(1)] as_slices_exact [OF assms(2)] by (auto simp: i_def j_def min_def)
  have le: "i \<le> length xs" "j \<le> length ys" by (auto simp: i_def j_def)
  then have len: "length (take i xs) = i" "length (take j ys) = j" "length (drop i xs) = length xs - i"
    "length (drop j ys) = length ys - j" by auto
  have vl: "vd_len d = vd_len e" using True vd_rep_len [OF assms(1)] vd_rep_len [OF assms(2)] by simp
  consider "i = j" | "i < j" | "j < i" by linarith
  then show ?thesis
  proof cases
    case 1
    then show ?thesis using vl len list_eq_split [of xs ys i] by (simp add: vd_eq_def sl del: length_take length_drop)
  next
    case 2
    then have "j - i \<le> length xs - i" using le True by simp
    then show ?thesis using 2 vl len list_eq_cuts [of i j xs ys]
      by (simp add: vd_eq_def sl Let_def del: length_take length_drop)
  next
    case 3
    then have "i - j \<le> length ys - j" using le True by simp
    then show ?thesis using 3 vl len list_eq_cuts [of j i ys xs]
      by (auto simp: vd_eq_def sl Let_def simp del: length_take length_drop)
  qed
qed (use vd_rep_len [OF assms(1)] vd_rep_len [OF assms(2)] in \<open>auto simp: vd_eq_def\<close>)

section \<open>Copying slices in\<close>

definition slice_written :: "'a cells \<Rightarrow> nat \<Rightarrow> 'a list \<Rightarrow> 'a cells \<Rightarrow> bool" where
  "slice_written b dst vs b' \<longleftrightarrow> length b' = length b \<and> (\<forall>j < length b. b' ! j =
     (if offset_from (length b) dst j < length vs then Some (vs ! offset_from (length b) dst j) else b ! j))"

lemma write_block_Ret: "dst + length vs \<le> vd_cap d \<Longrightarrow> \<exists>b. write_block d dst vs = Ret (d\<lparr>vd_buf := b\<rparr>) \<and> length b = vd_cap d
    \<and> (\<forall>j < vd_cap d. b ! j = (if dst \<le> j \<and> j < dst + length vs then Some (vs ! (j - dst)) else vd_buf d ! j))"
  by (rule exI [of _ "take dst (vd_buf d) @ map Some vs @ drop (dst + length vs) (vd_buf d)"])
    (auto simp: write_block_def vd_cap_def nth_append)

lemma copy_slice_written:
  assumes "dst < vd_cap d" "length vs \<le> vd_cap d"
  shows "\<exists>b. copy_slice d dst vs = Ret (d\<lparr>vd_buf := b\<rparr>) \<and> slice_written (vd_buf d) dst vs b"
proof (cases "length vs \<le> vd_cap d - dst")
  case True
  then have "dst + length vs \<le> vd_cap d" using assms(1) by simp
  from write_block_Ret [OF this] obtain b where "write_block d dst vs = Ret (d\<lparr>vd_buf := b\<rparr>)" "length b = vd_cap d"
    "\<forall>j < vd_cap d. b ! j = (if dst \<le> j \<and> j < dst + length vs then Some (vs ! (j - dst)) else vd_buf d ! j)"
    by blast
  then show ?thesis using True assms
    by (intro exI [of _ b]) (auto simp: copy_slice_def slice_written_def offset_from_def vd_cap_def)
next
  case False
  let ?r = "vd_cap d - dst"
  have l: "length (take ?r vs) = ?r" "length (drop ?r vs) = length vs - ?r" using False by auto
  obtain b where b: "write_block d dst (take ?r vs) = Ret (d\<lparr>vd_buf := b\<rparr>)" "length b = vd_cap d"
    "\<And>j. j < vd_cap d \<Longrightarrow> b ! j = (if dst \<le> j then Some (vs ! (j - dst)) else vd_buf d ! j)"
    using write_block_Ret [of dst "take ?r vs" d] l assms(1) by auto
  obtain c where c: "write_block (d\<lparr>vd_buf := b\<rparr>) 0 (drop ?r vs) = Ret (d\<lparr>vd_buf := c\<rparr>)" "length c = vd_cap d"
    "\<And>j. j < vd_cap d \<Longrightarrow> c ! j = (if j < length vs - ?r then Some (vs ! (?r + j)) else b ! j)"
  proof -
    have "0 + length (drop ?r vs) \<le> vd_cap (d\<lparr>vd_buf := b\<rparr>)" using l assms b(2) by simp
    from write_block_Ret [OF this] show ?thesis using that b(2) False by auto
  qed
  have "c ! j = (if offset_from (vd_cap d) dst j < length vs then Some (vs ! offset_from (vd_cap d) dst j) else vd_buf d ! j)"
    if j: "j < vd_cap d" for j
  proof -
    have "?r + j = j + vd_cap d - dst" using assms(1) by simp
    then show ?thesis using b(3) [OF j] c(3) [OF j] False assms j by (auto simp: offset_from_def)
  qed
  then show ?thesis using False b c by (auto simp: copy_slice_def slice_written_def vd_cap_def)
qed

lemma slice_written_mod:
  assumes "slice_written b t vs b'" "t < length b" "k < length b"
  shows "b' ! ((t + k) mod length b) = (if k < length vs then Some (vs ! k) else b ! ((t + k) mod length b))"
proof -
  have j: "(t + k) mod length b < length b" using assms(2) by (intro mod_less_divisor) auto
  have "offset_from (length b) t ((t + k) mod length b) = k"
    using assms(2,3) by (cases "t + k < length b") (auto simp: offset_from_def le_mod_geq)
  with assms(1) j show ?thesis by (simp add: slice_written_def)
qed

lemma copy_slice_extends:
  assumes "vd_cap d < isize_bound" "vd_head d < vd_cap d \<or> vd_head d = 0" "ring_holds (vd_buf d) (vd_head d) xs"
    and "length xs + length vs \<le> vd_cap d"
  obtains b where "copy_slice d (to_physical_idx d (length xs)) vs = Ret (d\<lparr>vd_buf := b\<rparr>)" "length b = vd_cap d"
    "ring_holds b (vd_head d) (xs @ vs)"
proof (cases "vd_cap d = 0")
  case True
  then have e: "xs = []" "vs = []" "vd_head d = 0" "vd_buf d = []" using assms by (auto simp: vd_cap_def)
  then have "to_physical_idx d 0 = 0" using True
    by (simp add: to_physical_idx_def wrap_add_def usize_wrapping_add_def wrap_index_def)
  then show ?thesis using that [of "[]"] e True
    by (simp add: copy_slice_def write_block_def ring_holds_def vd_cap_def)
next
  case False
  let ?n = "vd_cap d" and ?h = "vd_head d" and ?a = "length xs"
  have h: "?h < ?n" using assms(2) False by auto
  have n: "length (vd_buf d) = ?n" by (simp add: vd_cap_def)
  have p: "to_physical_idx d ?a = (?h + ?a) mod ?n" using phys_mod [OF assms(1) h] assms(4) by simp
  have pl: "(?h + ?a) mod ?n < ?n" using h by (intro mod_less_divisor) auto
  obtain b where b: "copy_slice d ((?h + ?a) mod ?n) vs = Ret (d\<lparr>vd_buf := b\<rparr>)"
    "slice_written (vd_buf d) ((?h + ?a) mod ?n) vs b"
    using copy_slice_written [OF pl, of vs] assms(4) by auto
  have "ring_holds b ?h (xs @ vs)"
  proof (unfold ring_holds_def, intro allI impI)
    fix j assume j: "j < length (xs @ vs)"
    define k where "k = (if ?a \<le> j then j - ?a else j + ?n - ?a)"
    have k: "k < ?n" using j assms(4) False by (auto simp: k_def)
    have "?h + ?a + k = (if ?a \<le> j then ?h + j else ?h + j + ?n)" using assms(4) by (auto simp: k_def)
    then have t: "((?h + ?a) mod ?n + k) mod ?n = (?h + j) mod ?n" by (simp add: mod_add_left_eq split: if_splits)
    have "b ! ((?h + j) mod ?n) = (if k < length vs then Some (vs ! k) else vd_buf d ! ((?h + j) mod ?n))"
      using slice_written_mod [OF b(2), of k] n k pl by (simp add: t)
    moreover have "length b = ?n" using b(2) n by (simp add: slice_written_def)
    ultimately show "b ! ((?h + j) mod length b) = Some ((xs @ vs) ! j)"
      using j assms(3,4) n by (auto simp: k_def nth_append ring_holds_def)
  qed
  then show ?thesis using that [of b] b p n by (simp add: slice_written_def)
qed

lemma spec_extend_slice_exact:
  assumes "vd_rep el d xs"
  shows "if has_room al el (vd_buf d) (length xs + length vs)
    then \<exists>d'. spec_extend_slice al el d vs = Ret d' \<and> vd_rep el d' (xs @ vs) else spec_extend_slice al el d vs = Panic"
proof -
  let ?fits = "has_room al el (vd_buf d) (length xs + length vs)"
  from vd_reserve_exact_contract(1) [OF assms, of "length vs" al]
  consider "\<not> ?fits" "vd_reserve al el d (length vs) = Panic"
    | e where "vd_reserve al el d (length vs) = Ret e" "vd_rep el e xs" "length xs + length vs \<le> vd_cap e" ?fits
    by (auto simp: reserves_def split: if_splits)
  then show ?thesis
  proof cases
    case (2 e)
    obtain b where b: "copy_slice e (to_physical_idx e (length xs)) vs = Ret (e\<lparr>vd_buf := b\<rparr>)" "length b = vd_cap e"
      "ring_holds b (vd_head e) (xs @ vs)"
      using copy_slice_extends [OF vd_rep_bound [OF 2(2)] _ _ 2(3)] 2(2) unfolding vd_rep_def by metis
    have "vd_rep el (e\<lparr>vd_buf := b, vd_len := vd_len e + length vs\<rparr>) (xs @ vs)"
      using 2(2,3) b(2,3) by (simp add: vd_rep_def raw_ok_def vd_cap_def)
    then show ?thesis using 2(1,4) b(1) vd_rep_len [OF 2(2)] by (simp add: spec_extend_slice_def)
  qed (simp add: spec_extend_slice_def)
qed

lemma vd_append_exact:
  assumes "vd_rep el d xs" "vd_rep el e ys"
  shows "if has_room al el (vd_buf d) (length xs + length ys)
    then \<exists>d' e'. vd_append al el d e = Ret (d', e') \<and> vd_rep el d' (xs @ ys) \<and> vd_rep el e' [] else vd_append al el d e = Panic"
proof -
  let ?fits = "has_room al el (vd_buf d) (length xs + length ys)"
  have ly: "vd_len e = length ys" using vd_rep_len [OF assms(2)] by simp
  from vd_reserve_exact_contract(1) [OF assms(1), of "length ys" al]
  consider "\<not> ?fits" "vd_reserve al el d (length ys) = Panic"
    | c where "vd_reserve al el d (length ys) = Ret c" "vd_rep el c xs" "length xs + length ys \<le> vd_cap c" ?fits
    by (auto simp: reserves_def split: if_splits)
  then show ?thesis
  proof cases
    case (2 c)
    let ?l = "take (vd_cap e - vd_head e) ys" and ?r = "drop (vd_cap e - vd_head e) ys"
    have c: "vd_cap c < isize_bound" "vd_head c < vd_cap c \<or> vd_head c = 0" "ring_holds (vd_buf c) (vd_head c) xs"
      "vd_len c = length xs" using 2(2) vd_rep_bound [OF 2(2)] by (auto simp: vd_rep_def)
    have s1: "length xs + length ?l \<le> vd_cap c" using 2(3) by simp
    obtain b where b: "copy_slice c (to_physical_idx c (length xs)) ?l = Ret (c\<lparr>vd_buf := b\<rparr>)" "length b = vd_cap c"
      "ring_holds b (vd_head c) (xs @ ?l)"
      using copy_slice_extends [OF c(1-3) s1] by metis
    let ?c = "c\<lparr>vd_buf := b\<rparr>"
    have cc: "vd_cap ?c < isize_bound" "vd_head ?c < vd_cap ?c \<or> vd_head ?c = 0" "ring_holds (vd_buf ?c) (vd_head ?c) (xs @ ?l)"
      "length (xs @ ?l) + length ?r \<le> vd_cap ?c" using b c 2(3) by auto
    obtain b' where b': "copy_slice ?c (to_physical_idx ?c (length (xs @ ?l))) ?r = Ret (?c\<lparr>vd_buf := b'\<rparr>)"
      "length b' = vd_cap ?c" "ring_holds b' (vd_head ?c) ((xs @ ?l) @ ?r)"
      using copy_slice_extends [OF cc] by metis
    have "vd_rep el (c\<lparr>vd_buf := b', vd_len := vd_len c + vd_len e\<rparr>) (xs @ ys)"
      using 2(2,3) b(2) b'(2,3) ly by (simp add: vd_rep_def raw_ok_def vd_cap_def)
    moreover have "vd_rep el (e\<lparr>vd_len := 0, vd_head := 0\<rparr>) []"
      using assms(2) by (simp add: vd_rep_def ring_holds_def)
    ultimately show ?thesis using 2(1,4) b(1) b'(1) ly c(4)
      by (simp add: vd_append_def as_slices_exact [OF assms(2)])
  qed (simp add: vd_append_def ly)
qed

lemma vd_split_off_exact:
  assumes "vd_rep el d xs" "at \<le> length xs"
  shows "if at = length xs \<or> granted al el (length xs - at)
    then \<exists>d' e. vd_split_off al el d at = Ret (d', e) \<and> vd_rep el d' (take at xs) \<and> vd_rep el e (drop at xs)
    else vd_split_off al el d at = Panic"
proof -
  let ?m = "length xs - at" and ?k = "vd_cap d - vd_head d" and ?fits = "at = length xs \<or> granted al el (length xs - at)"
  have l: "vd_len d = length xs" using vd_rep_len [OF assms(1)] by simp
  have el: "elem_ok el" "l_size el \<noteq> 0" using assms(1) by (auto simp: vd_rep_def raw_ok_def)
  from vd_with_capacity_exact [OF el, of ?m al, where ?'a = 'a]
  consider "\<not> ?fits" "vd_with_capacity al el ?m = (Panic :: 'a vec_deque outcome)"
    | e0 where "vd_with_capacity al el ?m = Ret e0" "vd_rep el (e0 :: 'a vec_deque) []" "vd_cap e0 = ?m" "vd_head e0 = 0" ?fits
    using assms(2) by (auto simp: vd_with_capacity_def and_then_eq_Ret_iff split: if_splits)
  then show ?thesis
  proof cases
    case (2 e0)
    have fill: "\<exists>b. and_then (write_block e0 0 us) (\<lambda>e0. write_block e0 (length us) vs) = Ret (e0\<lparr>vd_buf := b\<rparr>)
        \<and> vd_rep el (e0\<lparr>vd_buf := b, vd_len := ?m\<rparr>) (us @ vs)" if "length us + length vs = ?m" for us vs
    proof (intro exI conjI)
      let ?b = "map Some us @ map Some vs :: 'a cells"
      have dr: "drop (length us) (vd_buf e0) = drop (length us) (vd_buf e0)" "length (vd_buf e0) = ?m"
        using 2(3) by (auto simp: vd_cap_def)
      show "and_then (write_block e0 0 us) (\<lambda>e0. write_block e0 (length us) vs) = Ret (e0\<lparr>vd_buf := ?b\<rparr>)"
        using that dr(2) by (auto simp: write_block_def vd_cap_def)
      show "vd_rep el (e0\<lparr>vd_buf := ?b, vd_len := ?m\<rparr>) (us @ vs)"
        using 2 that dr(2) by (auto simp: vd_rep_def raw_ok_def vd_cap_def ring_holds_def nth_append)
    qed
    have first: "vd_rep el (d\<lparr>vd_len := at\<rparr>) (take at xs)" by (rule vd_rep_take [OF assms])
    show ?thesis
    proof (cases "at < length (take ?k xs)")
      case True
      have eq: "drop at (take ?k xs) @ drop ?k xs = drop at xs" "length (take ?k xs) - at = length (drop at (take ?k xs))"
        "length (drop at (take ?k xs)) + length (drop ?k xs) = ?m"
      proof -
        show d: "drop at (take ?k xs) @ drop ?k xs = drop at xs"
          using drop_append [of at "take ?k xs" "drop ?k xs"] True by simp
        show "length (take ?k xs) - at = length (drop at (take ?k xs))" by simp
        show "length (drop at (take ?k xs)) + length (drop ?k xs) = ?m" using arg_cong [OF d, of length] by simp
      qed
      from fill [OF eq(3)] show ?thesis
        using True 2(1,5) l assms(2) first unfolding eq(1)
        by (auto simp: vd_split_off_def as_slices_exact [OF assms(1)] Let_def eq(2) simp del: length_drop length_take)
    next
      case False
      let ?o = "at - length (take ?k xs)"
      have eq: "drop ?o (drop ?k xs) = drop at xs" "?o \<le> length (drop ?k xs)" "length (drop at xs) = ?m"
      proof -
        have "drop at (take ?k xs) = []" using False by (simp only: drop_eq_Nil not_less)
        then show "drop ?o (drop ?k xs) = drop at xs"
          using drop_append [of at "take ?k xs" "drop ?k xs"] by (simp only: append_take_drop_id append_Nil)
        show "?o \<le> length (drop ?k xs)" "length (drop at xs) = ?m" using assms(2) by (auto simp: min_def)
      qed
      obtain b where b: "write_block e0 0 (drop at xs) = Ret (e0\<lparr>vd_buf := b\<rparr>)"
        "vd_rep el (e0\<lparr>vd_buf := b, vd_len := ?m\<rparr>) (drop at xs)"
        using fill [of "[]" "drop at xs"] by (auto simp: write_block_def [of _ _ "[]"])
      then show ?thesis using False 2(1,5) l assms(2) first eq(2)
        by (simp add: vd_split_off_def as_slices_exact [OF assms(1)] Let_def eq(1) del: length_drop length_take drop_drop)
    qed
  qed (use l assms(2) in \<open>simp add: vd_split_off_def\<close>)
qed

section \<open>Filtering\<close>

lemma vd_index_exact: "vd_rep el d xs \<Longrightarrow> i < length xs \<Longrightarrow> vd_index d i = Ret (xs ! i)"
  by (simp add: vd_index_def vd_get_exact)

lemma retain_stage1_exact:
  assumes "vd_rep el d xs"
  shows "n = length xs - cur \<Longrightarrow> cur \<le> length xs \<Longrightarrow>
    \<exists>idx cur'. retain_stage1 f d n cur cur = Ret (idx, cur') \<and> idx \<le> cur' \<and> cur' \<le> length xs
      \<and> take (idx - cur) (drop cur xs) @ filter f (drop cur' xs) = filter f (drop cur xs) \<and> cur \<le> idx
      \<and> (\<forall>x \<in> set (take (idx - cur) (drop cur xs)). f x)"
proof (induction n arbitrary: cur)
  case (Suc n)
  then have c: "cur < length xs" by simp
  have d: "drop cur xs = xs ! cur # drop (Suc cur) xs" using c by (simp add: Cons_nth_drop_Suc)
  show ?case
  proof (cases "f (xs ! cur)")
    case True
    have "n = length xs - Suc cur" "Suc cur \<le> length xs" using Suc.prems c by auto
    from Suc.IH [OF this] obtain idx cur' where r: "retain_stage1 f d n (Suc cur) (Suc cur) = Ret (idx, cur')"
      "idx \<le> cur'" "cur' \<le> length xs" "Suc cur \<le> idx"
      "take (idx - Suc cur) (drop (Suc cur) xs) @ filter f (drop cur' xs) = filter f (drop (Suc cur) xs)"
      "\<forall>x \<in> set (take (idx - Suc cur) (drop (Suc cur) xs)). f x" by blast
    have "idx - cur = Suc (idx - Suc cur)" using r(4) by simp
    then have t: "take (idx - cur) (drop cur xs) = xs ! cur # take (idx - Suc cur) (drop (Suc cur) xs)"
      unfolding d by simp
    have "filter f (drop cur xs) = xs ! cur # filter f (drop (Suc cur) xs)" unfolding d using True by simp
    then have "take (idx - cur) (drop cur xs) @ filter f (drop cur' xs) = filter f (drop cur xs)"
      using r(5) t by simp
    moreover have "\<forall>x \<in> set (take (idx - cur) (drop cur xs)). f x" using r(6) t True by simp
    ultimately show ?thesis using r(1-4) True c by (auto simp: vd_index_exact [OF assms])
  next
    case False
    have "filter f (drop cur xs) = filter f (drop (Suc cur) xs)" unfolding d using False by simp
    then show ?thesis using False c by (auto simp: vd_index_exact [OF assms] intro!: exI [of _ cur])
  qed
qed simp

lemma retain_stage2_exact:
  assumes "vd_rep el d ys" "idx \<le> cur" "cur + n = length ys"
  shows "\<exists>idx' d' ys'. retain_stage2 f d n idx cur = Ret (idx', d') \<and> vd_rep el d' ys' \<and> length ys' = length ys
    \<and> idx' \<le> length ys \<and> take idx' ys' = take idx ys @ filter f (drop cur ys)"
  using assms
proof (induction n arbitrary: d ys idx cur)
  case (Suc n)
  then have c: "cur < length ys" by simp
  have d: "drop cur ys = ys ! cur # drop (Suc cur) ys" using c by (simp add: Cons_nth_drop_Suc)
  show ?case
  proof (cases "f (ys ! cur)")
    case True
    let ?zs = "ys[idx := ys ! cur, cur := ys ! idx]"
    obtain e where e: "vd_swap d idx cur = Ret e" "vd_rep el e ?zs"
      using vd_swap_exact [OF Suc.prems(1), of idx cur] c Suc.prems(2) by auto
    have "Suc cur + n = length ?zs" using Suc.prems(3) by simp
    from Suc.IH [OF e(2) _ this, of "Suc idx"] Suc.prems(2) obtain idx' d' ys' where
      r: "retain_stage2 f e n (Suc idx) (Suc cur) = Ret (idx', d')" "vd_rep el d' ys'" "length ys' = length ys"
        "idx' \<le> length ys" "take idx' ys' = take (Suc idx) ?zs @ filter f (drop (Suc cur) ?zs)" by auto
    have "drop (Suc cur) ?zs = drop (Suc cur) ys" using Suc.prems(2) by simp
    moreover have "take (Suc idx) ?zs = take idx ys @ [ys ! cur]"
      using Suc.prems(2) c by (simp add: take_Suc_conv_app_nth nth_list_update)
    ultimately have "take idx' ys' = take idx ys @ filter f (drop cur ys)" using r(5) True d by simp
    then show ?thesis using r(1-4) True c e(1) by (auto simp: vd_index_exact [OF Suc.prems(1)])
  next
    case False
    have "Suc cur + n = length ys" using Suc.prems(3) by simp
    from Suc.IH [OF Suc.prems(1) _ this, of idx] Suc.prems(2) False d c show ?thesis
      by (auto simp: vd_index_exact [OF Suc.prems(1)])
  qed
qed auto

lemma vd_retain_exact:
  assumes "vd_rep el d xs"
  shows "\<exists>d'. vd_retain f d = Ret d' \<and> vd_rep el d' (filter f xs)"
proof -
  have l: "vd_len d = length xs" using vd_rep_len [OF assms] by simp
  obtain idx cur where s1: "retain_stage1 f d (length xs) 0 0 = Ret (idx, cur)" "idx \<le> cur" "cur \<le> length xs"
    "take idx xs @ filter f (drop cur xs) = filter f xs"
    using retain_stage1_exact [OF assms, of "length xs" 0 f] by auto
  have "cur + (length xs - cur) = length xs" using s1(3) by simp
  from retain_stage2_exact [OF assms s1(2) this, of f] obtain idx' d' ys where
    s2: "retain_stage2 f d (length xs - cur) idx cur = Ret (idx', d')" "vd_rep el d' ys" "length ys = length xs"
      "idx' \<le> length xs" "take idx' ys = filter f xs" using s1(4) by auto
  have "\<exists>d''. (if length xs \<noteq> idx' then vd_truncate d' idx' else Ret d') = Ret d'' \<and> vd_rep el d'' (take idx' ys)"
    using vd_truncate_exact [OF s2(2), of idx'] s2(2,3) by auto
  then show ?thesis using s1(1) s2(1,5) l by (auto simp: vd_retain_def Let_def)
qed

section \<open>Making the buffer contiguous\<close>

lemma mem_move_same: "src + len \<le> length b \<Longrightarrow> mem_move b src src len = b"
  by (rule nth_equalityI) (auto simp: nth_mem_move)

definition flat_at :: "'a cells \<Rightarrow> nat \<Rightarrow> 'a list \<Rightarrow> bool" where
  "flat_at b h xs \<longleftrightarrow> h + length xs \<le> length b \<and> (\<forall>i < length xs. b ! (h + i) = Some (xs ! i))"

lemma flat_atD: "flat_at b h xs \<Longrightarrow> i < length xs \<Longrightarrow> b ! (h + i) = Some (xs ! i)"
  "flat_at b h xs \<Longrightarrow> h + length xs \<le> length b"
  by (auto simp: flat_at_def)

lemma flat_at_ring: "flat_at b h xs \<Longrightarrow> ring_holds b h xs"
  using ring_holds_flat [of h xs b] by (simp add: flat_at_def)

lemma flat_at_append: "flat_at b h (xs @ ys) \<longleftrightarrow> flat_at b h xs \<and> flat_at b (h + length xs) ys"
proof -
  have "(\<forall>i < length xs + length ys. b ! (h + i) = Some ((xs @ ys) ! i)) \<longleftrightarrow>
      (\<forall>i < length xs. b ! (h + i) = Some (xs ! i)) \<and> (\<forall>i < length ys. b ! (h + length xs + i) = Some (ys ! i))"
    (is "?l \<longleftrightarrow> ?r \<and> ?t")
  proof
    assume l: ?l
    have ?r using l by (auto simp: nth_append)
    moreover have ?t
    proof (intro allI impI)
      fix i assume "i < length ys"
      then show "b ! (h + length xs + i) = Some (ys ! i)"
        using l [rule_format, of "length xs + i"] by (simp add: add.assoc)
    qed
    ultimately show "?r \<and> ?t" ..
  next
    assume r: "?r \<and> ?t"
    show ?l
    proof (intro allI impI)
      fix i assume "i < length xs + length ys"
      then show "b ! (h + i) = Some ((xs @ ys) ! i)"
        using r conjunct2 [OF r, rule_format, of "i - length xs"] by (cases "i < length xs") (auto simp: nth_append)
    qed
  qed
  then show ?thesis by (auto simp: flat_at_def)
qed

lemma flat_at_moved:
  assumes "flat_at b src xs" "dst + length xs \<le> length b"
  shows "flat_at (mem_move b src dst (length xs)) dst xs"
  using assms by (simp add: flat_at_def nth_mem_move)

lemma flat_at_move_other:
  assumes "flat_at b h xs" "src + len \<le> length b" "dst + len \<le> length b" "dst + len \<le> h \<or> h + length xs \<le> dst"
  shows "flat_at (mem_move b src dst len) h xs"
  using assms by (auto simp: flat_at_def nth_mem_move)

lemma flat_at_take: "flat_at b h xs \<longleftrightarrow> h + length xs \<le> length b \<and> take (length xs) (drop h b) = map Some xs"
proof -
  have "h + length xs \<le> length b \<Longrightarrow> take (length xs) (drop h b) = map Some xs \<longleftrightarrow>
    (\<forall>i < length xs. b ! (h + i) = Some (xs ! i))" by (simp add: list_eq_iff_nth_eq)
  then show ?thesis by (auto simp: flat_at_def)
qed

lemma rotate_block_flat:
  assumes "flat_at (vd_buf d) a (ys @ xs)"
  shows "\<exists>b. rotate_block d a (a + (length ys + length xs)) (length ys) = Ret (d\<lparr>vd_buf := b\<rparr>)
    \<and> length b = vd_cap d \<and> flat_at b a (xs @ ys)"
proof -
  let ?b = "take a (vd_buf d) @ map Some (xs @ ys) @ drop (a + (length ys + length xs)) (vd_buf d)"
  have t: "take (length ys + length xs) (drop a (vd_buf d)) = map Some (ys @ xs)" "a + (length ys + length xs) \<le> vd_cap d"
    using assms by (simp_all add: flat_at_take vd_cap_def)
  have l: "length (take a (vd_buf d)) = a" "length ?b = vd_cap d" using t(2) by (simp_all add: vd_cap_def)
  have "flat_at ?b a (xs @ ys)"
    using l(2) t(2) unfolding flat_at_take drop_append l(1) by (simp add: vd_cap_def)
  then show ?thesis using t l(2) by (intro exI [of _ ?b]) (simp add: rotate_block_def Let_def)
qed

text \<open>A wrapped deque holds its first elements at the head and the others at the start of the buffer.\<close>

lemma wrapped_parts:
  assumes "vd_rep el d xs" "\<not> is_contiguous d"
  defines "ys \<equiv> take (vd_cap d - vd_head d) xs" and "zs \<equiv> drop (vd_cap d - vd_head d) xs"
  shows "xs = ys @ zs" "flat_at (vd_buf d) (vd_head d) ys" "flat_at (vd_buf d) 0 zs" "length ys = vd_cap d - vd_head d"
    "vd_head d + length ys = vd_cap d" "vd_len d = length ys + length zs" "length zs \<le> vd_head d" "zs \<noteq> []"
proof -
  have l: "vd_len d = length xs" "length xs \<le> vd_cap d" using vd_rep_len [OF assms(1)] by auto
  then have w: "vd_cap d < vd_head d + length xs" using assms(2) by (simp add: is_contiguous_def)
  have h: "vd_head d < vd_cap d" using assms(1) w l by (auto simp: vd_rep_def)
  have r: "(\<forall>i < vd_cap d - vd_head d. vd_buf d ! (vd_head d + i) = Some (xs ! i))
    \<and> (\<forall>i < vd_head d + length xs - vd_cap d. vd_buf d ! i = Some (xs ! (i + (vd_cap d - vd_head d))))"
    using ring_holds_split [of "vd_head d" "vd_buf d" xs] assms(1) h w l by (simp add: vd_rep_def vd_cap_def)
  show "xs = ys @ zs" by (simp add: ys_def zs_def)
  show "flat_at (vd_buf d) (vd_head d) ys" using r h w by (simp add: ys_def flat_at_def vd_cap_def)
  show "flat_at (vd_buf d) 0 zs" using r h w l by (simp add: zs_def flat_at_def vd_cap_def add.commute)
  show "length ys = vd_cap d - vd_head d" "vd_head d + length ys = vd_cap d" "vd_len d = length ys + length zs"
    "length zs \<le> vd_head d" "zs \<noteq> []"
    using h w l by (auto simp: ys_def zs_def)
qed

lemma vd_rep_flat:
  assumes "vd_rep el d xs" "length b = vd_cap d" "flat_at b h xs" "h < vd_cap d"
  shows "vd_rep el (d\<lparr>vd_buf := b, vd_head := h\<rparr>) xs \<and> is_contiguous (d\<lparr>vd_buf := b, vd_head := h\<rparr>)"
  using assms flat_at_ring [OF assms(3)] flat_atD(2) [OF assms(3)]
  by (auto simp: vd_rep_def vd_cap_def raw_ok_def is_contiguous_def)

lemma buf_copy_nonoverlapping_on:
  "length c = vd_cap d \<Longrightarrow> s + l \<le> vd_cap d \<Longrightarrow> t + l \<le> vd_cap d \<Longrightarrow> s + l \<le> t \<or> t + l \<le> s \<Longrightarrow>
    buf_copy_nonoverlapping (d\<lparr>vd_buf := c\<rparr>) s t l = Ret (d\<lparr>vd_buf := mem_move c s t l\<rparr>)"
  by (simp add: buf_copy_nonoverlapping_def vd_cap_def)

lemma move_if_needed:
  assumes "src + len \<le> vd_cap d" "dst + len \<le> vd_cap d" "free = 0 \<Longrightarrow> src = dst"
  shows "(if free \<noteq> 0 then buf_copy d src dst len else Ret d) = Ret (d\<lparr>vd_buf := mem_move (vd_buf d) src dst len\<rparr>)"
  using assms mem_move_same [of src len "vd_buf d"] by (auto simp: buf_copy_def vd_cap_def)

lemma gather_front:
  assumes "flat_at b h ys" "flat_at b 0 zs" "h + length ys = length b" "length ys + length zs \<le> h"
  shows "flat_at (mem_move (mem_move b 0 (length ys) (length zs)) h 0 (length ys)) 0 (ys @ zs)"
proof -
  define c where "c = mem_move b 0 (length ys) (length zs)"
  have c: "length c = length b" using assms by (simp add: c_def)
  have "flat_at c h ys" unfolding c_def using assms by (intro flat_at_move_other) auto
  moreover have "flat_at c (length ys) zs" unfolding c_def using assms by (intro flat_at_moved) auto
  ultimately show ?thesis using assms c unfolding flat_at_append c_def [symmetric]
    by (intro conjI flat_at_moved flat_at_move_other) auto
qed

lemma gather_gap:
  assumes "flat_at b h ys" "flat_at b 0 zs" "h + length ys = length b" "length zs + (length ys + length zs) \<le> length b"
  shows "flat_at (mem_move (mem_move b h (length zs) (length ys)) 0 (length zs + length ys) (length zs)) (length zs) (ys @ zs)"
proof -
  define c where "c = mem_move b h (length zs) (length ys)"
  have c: "length c = length b" using assms by (simp add: c_def)
  have "flat_at c (length zs) ys" unfolding c_def using assms by (intro flat_at_moved) auto
  moreover have "flat_at c 0 zs" unfolding c_def using assms by (intro flat_at_move_other) auto
  ultimately show ?thesis using assms c unfolding flat_at_append c_def [symmetric]
    by (intro conjI flat_at_moved flat_at_move_other) auto
qed

lemma gather_rotate:
  assumes "flat_at b h ys" "flat_at b 0 zs" "h + length ys = length b" "free + length zs = h"
  shows "flat_at (mem_move b 0 free (length zs)) free (zs @ ys)" "flat_at (mem_move b h (length zs) (length ys)) 0 (zs @ ys)"
proof -
  have "flat_at (mem_move b 0 free (length zs)) free zs" using assms by (intro flat_at_moved) auto
  moreover have "flat_at (mem_move b 0 free (length zs)) (free + length zs) ys"
    using assms by (intro flat_at_move_other) auto
  ultimately show "flat_at (mem_move b 0 free (length zs)) free (zs @ ys)" unfolding flat_at_append by simp
  have "flat_at (mem_move b h (length zs) (length ys)) 0 zs" using assms by (intro flat_at_move_other) auto
  moreover have "flat_at (mem_move b h (length zs) (length ys)) (0 + length zs) ys"
    using assms by (simp only: add_0) (intro flat_at_moved, auto)
  ultimately show "flat_at (mem_move b h (length zs) (length ys)) 0 (zs @ ys)" unfolding flat_at_append by simp
qed

text \<open>The wrapped case with the positions as numbers: \<open>p\<close> elements at the head, \<open>q\<close> at the
  start, \<open>free\<close> unused cells.\<close>

lemma make_contiguous_wrapped:
  assumes "\<not> is_contiguous d" "vd_cap d - vd_head d = p" "vd_len d - p = q" "vd_cap d - vd_len d = free" "vd_len d = p + q"
  shows "make_contiguous d =
    (if p \<le> free then
       and_then (buf_copy d 0 p q) (\<lambda>e. and_then (buf_copy_nonoverlapping e (vd_head d) 0 p) (\<lambda>d. Ret (d\<lparr>vd_head := 0\<rparr>)))
     else if q \<le> free then
       and_then (buf_copy d (vd_head d) q p) (\<lambda>e.
       and_then (buf_copy_nonoverlapping e 0 (q + p) q) (\<lambda>d. Ret (d\<lparr>vd_head := q\<rparr>)))
     else if q < p then
       and_then (if free \<noteq> 0 then buf_copy d 0 free q else Ret d) (\<lambda>e.
       and_then (rotate_block e free (vd_cap d) q) (\<lambda>d. Ret (d\<lparr>vd_head := free\<rparr>)))
     else
       and_then (if free \<noteq> 0 then buf_copy d (vd_head d) q p else Ret d) (\<lambda>e.
       and_then (rotate_block e 0 (p + q) q) (\<lambda>d. Ret (d\<lparr>vd_head := 0\<rparr>))))"
  unfolding make_contiguous_def Let_def assms(2-4) assms(5) [symmetric] using assms(1,5) by (simp only: if_False if_True diff_add_inverse)

lemma gather_moves:
  assumes "\<not> is_contiguous d" "flat_at (vd_buf d) (vd_head d) ys" "flat_at (vd_buf d) 0 zs"
    and f: "vd_head d + length ys = length (vd_buf d)" "free + length zs = vd_head d" "vd_len d = length ys + length zs"
    and a: "length ys \<le> free \<or> length zs \<le> free"
  shows "\<exists>b h. make_contiguous d = Ret (d\<lparr>vd_buf := b, vd_head := h\<rparr>) \<and> length b = vd_cap d \<and> flat_at b h (ys @ zs)
    \<and> (h = 0 \<or> h = length zs)"
proof -
  have c: "vd_cap d = length (vd_buf d)" by (simp add: vd_cap_def)
  note s = make_contiguous_wrapped [OF assms(1), of "length ys" "length zs" free]
  show ?thesis
  proof (cases "length ys \<le> free")
    case True
    let ?b = "mem_move (mem_move (vd_buf d) 0 (length ys) (length zs)) (vd_head d) 0 (length ys)"
    have "make_contiguous d = Ret (d\<lparr>vd_buf := ?b, vd_head := 0\<rparr>)"
      using True f c by (subst s) (auto simp: buf_copy_here buf_copy_nonoverlapping_on)
    then show ?thesis using gather_front [OF assms(2-4)] True f c by (intro exI [of _ ?b] exI [of _ 0]) auto
  next
    case False
    let ?b = "mem_move (mem_move (vd_buf d) (vd_head d) (length zs) (length ys)) 0 (length zs + length ys) (length zs)"
    have "make_contiguous d = Ret (d\<lparr>vd_buf := ?b, vd_head := length zs\<rparr>)"
      using False a f c by (subst s) (auto simp: buf_copy_here buf_copy_nonoverlapping_on)
    then show ?thesis using gather_gap [OF assms(2-4)] False a f c
      by (intro exI [of _ ?b] exI [of _ "length zs"]) auto
  qed
qed

lemma gather_rotates:
  assumes "\<not> is_contiguous d" "flat_at (vd_buf d) (vd_head d) ys" "flat_at (vd_buf d) 0 zs"
    and f: "vd_head d + length ys = length (vd_buf d)" "free + length zs = vd_head d" "vd_len d = length ys + length zs"
    and a: "\<not> (length ys \<le> free \<or> length zs \<le> free)"
  shows "\<exists>b h. make_contiguous d = Ret (d\<lparr>vd_buf := b, vd_head := h\<rparr>) \<and> length b = vd_cap d \<and> flat_at b h (ys @ zs)
    \<and> (h = 0 \<or> h = free)"
proof -
  have c: "vd_cap d = length (vd_buf d)" by (simp add: vd_cap_def)
  note s = make_contiguous_wrapped [OF assms(1), of "length ys" "length zs" free]
  note g = gather_rotate [OF assms(2-5)]
  show ?thesis
  proof (cases "length zs < length ys")
    case True
    let ?b = "mem_move (vd_buf d) 0 free (length zs)"
    obtain e where e: "rotate_block (d\<lparr>vd_buf := ?b\<rparr>) free (free + (length zs + length ys)) (length zs) = Ret (d\<lparr>vd_buf := e\<rparr>)"
        "length e = vd_cap d" "flat_at e free (ys @ zs)"
      using rotate_block_flat [of "d\<lparr>vd_buf := ?b\<rparr>" free zs ys] g(1) f c by auto
    moreover have "free + (length zs + length ys) = vd_cap d" using f(1,2) c by simp
    moreover have "(if free \<noteq> 0 then buf_copy d 0 free (length zs) else Ret d) = Ret (d\<lparr>vd_buf := ?b\<rparr>)"
      using f c by (intro move_if_needed) auto
    ultimately have "make_contiguous d = Ret (d\<lparr>vd_buf := e, vd_head := free\<rparr>)" using a True f c by (subst s) auto
    then show ?thesis using e by blast
  next
    case False
    let ?b = "mem_move (vd_buf d) (vd_head d) (length zs) (length ys)"
    obtain e where e: "rotate_block (d\<lparr>vd_buf := ?b\<rparr>) 0 (length ys + length zs) (length zs) = Ret (d\<lparr>vd_buf := e\<rparr>)"
        "length e = vd_cap d" "flat_at e 0 (ys @ zs)"
      using rotate_block_flat [of "d\<lparr>vd_buf := ?b\<rparr>" 0 zs ys] g(2) f c by (auto simp: add.commute)
    moreover have "(if free \<noteq> 0 then buf_copy d (vd_head d) (length zs) (length ys) else Ret d) = Ret (d\<lparr>vd_buf := ?b\<rparr>)"
      using f c by (intro move_if_needed) auto
    ultimately have "make_contiguous d = Ret (d\<lparr>vd_buf := e, vd_head := 0\<rparr>)" using a False f c by (subst s) auto
    then show ?thesis using e by blast
  qed
qed

lemma make_contiguous_exact:
  assumes rep: "vd_rep el d xs"
  shows "\<exists>d'. make_contiguous d = Ret d' \<and> vd_rep el d' xs \<and> is_contiguous d'"
proof (cases "is_contiguous d")
  case False
  define ys zs where "ys = take (vd_cap d - vd_head d) xs" and "zs = drop (vd_cap d - vd_head d) xs"
  note w = wrapped_parts [OF rep False, folded ys_def zs_def]
  have f: "vd_head d + length ys = length (vd_buf d)" "(vd_cap d - vd_len d) + length zs = vd_head d"
    "vd_head d < vd_cap d" "vd_cap d - vd_len d < vd_cap d" "length zs < vd_cap d"
    using w(5-8) vd_rep_len(1,2) [OF rep] vd_rep_nonempty [OF rep, of 0] w(1) by (auto simp: vd_cap_def)
  note g = gather_moves [OF False w(2,3) f(1,2) w(6)] gather_rotates [OF False w(2,3) f(1,2) w(6)]
  have "\<exists>b h. make_contiguous d = Ret (d\<lparr>vd_buf := b, vd_head := h\<rparr>) \<and> length b = vd_cap d \<and> flat_at b h xs \<and> h < vd_cap d"
    using g f w(1) by (metis gr_zeroI less_zeroE)
  then show ?thesis using vd_rep_flat [OF rep] by blast
qed (use rep in \<open>simp add: make_contiguous_def\<close>)

section \<open>Shrinking\<close>

text \<open>The state between moving the elements below the new capacity and shrinking the buffer: the elements are
  in the first \<open>t\<close> cells, in one piece or in two, and in the second case the old arrangement can be restored.\<close>

definition staged :: "'a cells \<Rightarrow> nat \<Rightarrow> nat \<Rightarrow> nat \<Rightarrow> 'a list \<Rightarrow> bool" where
  "staged b h old t xs \<longleftrightarrow> h + length xs \<le> t \<and> flat_at b h xs
     \<or> (\<exists>ys zs. xs = ys @ zs \<and> ys \<noteq> [] \<and> zs \<noteq> [] \<and> h + length ys = t \<and> length zs \<le> h \<and> flat_at b h ys \<and> flat_at b 0 zs
          \<and> (h = old \<and> flat_at b t zs \<or> old + length ys = length b))"

lemma staged_split:
  "flat_at b h ys \<Longrightarrow> flat_at b 0 zs \<Longrightarrow> ys \<noteq> [] \<Longrightarrow> zs \<noteq> [] \<Longrightarrow> h + length ys = t \<Longrightarrow> length zs \<le> h \<Longrightarrow>
    h = old \<and> flat_at b t zs \<or> old + length ys = length b \<Longrightarrow> staged b h old t (ys @ zs)"
  unfolding staged_def by blast

lemma contiguous_flat:
  assumes "vd_rep el d xs" "is_contiguous d"
  shows "flat_at (vd_buf d) (vd_head d) xs"
proof -
  have "vd_head d + length xs \<le> length (vd_buf d)"
    using assms vd_rep_len [OF assms(1)] by (simp add: is_contiguous_def vd_cap_def)
  then show ?thesis using assms(1) ring_holds_flat [of "vd_head d" xs "vd_buf d"] by (simp add: flat_at_def vd_rep_def)
qed

lemma shrink_prepare_contiguous:
  assumes rep: "vd_rep el d xs" and "is_contiguous d" "length xs \<le> t" "t < vd_cap d" "xs \<noteq> []"
  shows "\<exists>b h. shrink_prepare d t = Ret (d\<lparr>vd_buf := b, vd_head := h\<rparr>) \<and> length b = vd_cap d
    \<and> h < t \<and> staged b h (vd_head d) t xs"
proof -
  let ?h = "vd_head d" and ?b = "vd_buf d"
  have c: "vd_cap d = length ?b" "vd_len d = length xs" "?h + length xs \<le> length ?b" "0 < length xs"
    using assms vd_rep_len [OF rep] by (auto simp: vd_cap_def is_contiguous_def)
  have fl: "flat_at ?b ?h xs" by (rule contiguous_flat [OF assms(1,2)])
  consider (inside) "?h + length xs \<le> t" | (out) "t < ?h + length xs" "t \<le> ?h" | (part) "t < ?h + length xs" "?h < t"
    by linarith
  then show ?thesis
  proof cases
    case inside
    then have "shrink_prepare d t = Ret (d\<lparr>vd_buf := ?b, vd_head := ?h\<rparr>)"
      using c assms(2) by (simp add: shrink_prepare_def Let_def)
    moreover have "?h < t" using inside c(4) by linarith
    ultimately show ?thesis using inside fl c(1) unfolding staged_def by metis
  next
    case out
    let ?e = "mem_move ?b ?h 0 (length xs)"
    have "shrink_prepare d t = Ret (d\<lparr>vd_buf := ?e, vd_head := 0\<rparr>)"
      using out c assms(3) Suc_leI [OF out(1)] by (simp add: shrink_prepare_def Let_def buf_copy_nonoverlapping_def)
    moreover have "flat_at ?e 0 xs" using fl c by (intro flat_at_moved) auto
    moreover have "0 < t" using c(4) assms(3) by linarith
    moreover have "length ?e = vd_cap d" "0 + length xs \<le> t" using c assms(3) by auto
    ultimately show ?thesis unfolding staged_def by blast
  next
    case part
    define ys zs where "ys = take (t - ?h) xs" and "zs = drop (t - ?h) xs"
    have x: "xs = ys @ zs" "?h + length ys = t" "ys \<noteq> []" "zs \<noteq> []" "length zs = ?h + length xs - t"
      using part assms(3) by (auto simp: ys_def zs_def)
    let ?e = "mem_move ?b t 0 (length zs)"
    have f2: "flat_at ?b ?h ys" "flat_at ?b t zs" using fl unfolding x(1) flat_at_append x(2) by auto
    have l: "length zs \<le> ?h" "t + length zs \<le> length ?b" using x(2,5) c(3) assms(3) x(1) by auto
    have pr: "shrink_prepare d t = Ret (d\<lparr>vd_buf := ?e, vd_head := ?h\<rparr>)"
      using part c assms(3) l x(5) by (simp add: shrink_prepare_def Let_def buf_copy_nonoverlapping_def)
    have "flat_at ?e 0 zs" using f2(2) l by (intro flat_at_moved) auto
    moreover have "flat_at ?e ?h ys" "flat_at ?e t zs" using f2 l part by (auto intro!: flat_at_move_other)
    ultimately have "staged ?e ?h ?h t xs" using x(2-4) l unfolding x(1) by (intro staged_split) auto
    moreover have "length ?e = vd_cap d" using l x(2) c(1) by simp
    ultimately show ?thesis using pr part(2) by blast
  qed
qed

lemma shrink_prepare_exact:
  assumes rep: "vd_rep el d xs" and "length xs \<le> t" "t < vd_cap d"
  shows "\<exists>b h. shrink_prepare d t = Ret (d\<lparr>vd_buf := b, vd_head := h\<rparr>) \<and> length b = vd_cap d
    \<and> (h < t \<or> h = 0) \<and> staged b h (vd_head d) t xs"
proof (cases "xs = []"; cases "xs = [] \<or> is_contiguous d")
  assume "xs = []"
  then show ?thesis using rep vd_rep_len(1) [OF rep]
    by (intro exI [of _ "vd_buf d"] exI [of _ 0]) (simp add: shrink_prepare_def staged_def flat_at_def vd_cap_def)
next
  assume "xs \<noteq> []" "xs = [] \<or> is_contiguous d"
  then show ?thesis using shrink_prepare_contiguous [OF rep _ assms(2,3)] by blast
next
  assume ne: "xs \<noteq> []" and "\<not> (xs = [] \<or> is_contiguous d)"
  then have nc: "\<not> is_contiguous d" by blast
  define ys zs where "ys = take (vd_cap d - vd_head d) xs" and "zs = drop (vd_cap d - vd_head d) xs"
  note w = wrapped_parts [OF rep nc, folded ys_def zs_def]
  let ?p = "t - length ys"
  let ?e = "mem_move (vd_buf d) (vd_head d) ?p (length ys)"
  have h: "vd_head d < vd_cap d" using vd_rep_nonempty [OF rep, of 0] ne by simp
  have c: "vd_cap d = length (vd_buf d)" "length ys + length zs \<le> t" "vd_len d \<noteq> 0" "ys \<noteq> []"
    using w(1,4,6) assms(2) ne h by (auto simp: vd_cap_def)
  have pr: "shrink_prepare d t = Ret (d\<lparr>vd_buf := ?e, vd_head := ?p\<rparr>)"
    using nc c w(4-8) assms(3) by (auto simp: shrink_prepare_def Let_def is_contiguous_def buf_copy_def)
  have "flat_at ?e ?p ys" using w(2) c assms(3) by (intro flat_at_moved) auto
  moreover have "flat_at ?e 0 zs" using w(3,5) c assms(3) by (intro flat_at_move_other) auto
  ultimately have "staged ?e ?p (vd_head d) t xs" using w(5,8) c assms(3) unfolding w(1) by (intro staged_split) auto
  moreover have "length ?e = vd_cap d" "?p < t"
    using w(5) c(1,2,4) assms(3) by (simp, cases ys, auto)
  ultimately show ?thesis using pr by blast
qed simp

lemma ring_holds_parts:
  assumes "h + length ys = length b" "flat_at b h ys" "flat_at b 0 zs" "length zs \<le> h" "ys \<noteq> []" "zs \<noteq> []"
  shows "ring_holds b h (ys @ zs)"
proof -
  have l: "h < length b" "length b < h + length (ys @ zs)" "length (ys @ zs) \<le> length b" "length b - h = length ys"
    "h + length (ys @ zs) - length b = length zs"
    using assms(1,4-6) by (auto simp flip: length_greater_0_conv)
  have a: "b ! (h + i) = Some (ys ! i)" if "i < length ys" for i by (rule flat_atD(1) [OF assms(2) that])
  have c: "b ! i = Some (zs ! i)" if "i < length zs" for i using flat_atD(1) [OF assms(3) that] by simp
  show ?thesis unfolding ring_holds_split [OF l(1-3)] l(4,5) using a c by (simp add: nth_append)
qed

lemma staged_ring:
  assumes "staged b h old t xs" "t \<le> length b"
  shows "ring_holds (take t b) h xs"
proof -
  have cut: "flat_at b k us \<Longrightarrow> k + length us \<le> t \<Longrightarrow> flat_at (take t b) k us" for k us
    using assms(2) by (simp add: flat_at_def)
  from assms(1) consider "h + length xs \<le> t" "flat_at b h xs"
    | ys zs where "xs = ys @ zs" "ys \<noteq> []" "zs \<noteq> []" "h + length ys = t" "length zs \<le> h" "flat_at b h ys" "flat_at b 0 zs"
    unfolding staged_def by blast
  then show ?thesis
  proof cases
    case 1
    then show ?thesis by (intro flat_at_ring cut)
  next
    case 2
    then show ?thesis using assms(2) unfolding 2(1) by (intro ring_holds_parts cut) auto
  qed
qed

lemma abort_shrink_exact:
  assumes "staged (vd_buf d) (vd_head d) old t xs" "vd_len d = length xs" "length xs \<le> t" "t < vd_cap d"
    and "vd_head d < t \<or> vd_head d = 0" "old < vd_cap d \<or> old = 0"
  shows "\<exists>b h. abort_shrink d old t = Ret (d\<lparr>vd_buf := b, vd_head := h\<rparr>) \<and> length b = vd_cap d
    \<and> (h < vd_cap d \<or> h = 0) \<and> ring_holds b h xs"
proof -
  let ?b = "vd_buf d" and ?h = "vd_head d"
  have c: "vd_cap d = length ?b" by (simp add: vd_cap_def)
  from assms(1) consider (flat) "?h + length xs \<le> t" "flat_at ?b ?h xs"
    | (split) ys zs where "xs = ys @ zs" "ys \<noteq> []" "zs \<noteq> []" "?h + length ys = t" "length zs \<le> ?h" "flat_at ?b ?h ys"
      "flat_at ?b 0 zs" "?h = old \<and> flat_at ?b t zs \<or> old + length ys = length ?b"
    unfolding staged_def by blast
  then show ?thesis
  proof cases
    case flat
    then have "?h \<le> t - vd_len d" using assms(2) by linarith
    then have "abort_shrink d old t = Ret (d\<lparr>vd_buf := ?b, vd_head := ?h\<rparr>)" by (simp add: abort_shrink_def)
    then show ?thesis using flat_at_ring [OF flat(2)] assms(4,5) c by (intro exI conjI) auto
  next
    case split
    have n: "\<not> ?h \<le> t - vd_len d" "t - ?h = length ys" "vd_len d - length ys = length zs"
      using split(1-5) assms(2,3) by (auto simp flip: length_greater_0_conv)
    have a: "abort_shrink d old t = (if length zs \<le> min (length ys) (vd_cap d - t)
        then buf_copy_nonoverlapping d 0 t (length zs)
        else and_then (buf_copy d ?h old (length ys)) (\<lambda>d. Ret (d\<lparr>vd_head := old\<rparr>)))"
      unfolding abort_shrink_def Let_def n(2,3) using n(1) by simp
    show ?thesis
    proof (cases "length zs \<le> min (length ys) (vd_cap d - t)")
      case True
      then have room: "t + length zs \<le> vd_cap d" using assms(4) by auto
      let ?e = "mem_move ?b 0 t (length zs)"
      have "flat_at ?e ?h ys" using split c assms(4) True by (intro flat_at_move_other) auto
      moreover have "flat_at ?e t zs" using split c assms(4) True by (intro flat_at_moved) auto
      ultimately have "flat_at ?e ?h xs" unfolding split(1) flat_at_append split(4) by simp
      moreover have "abort_shrink d old t = Ret (d\<lparr>vd_buf := ?e, vd_head := ?h\<rparr>)"
        using True split(4,5) room unfolding a by (simp add: buf_copy_nonoverlapping_def)
      moreover have "length ?e = vd_cap d" using room c by simp
      moreover have "?h < vd_cap d \<or> ?h = 0" using assms(4,5) by auto
      ultimately show ?thesis using flat_at_ring by blast
    next
      case False
      let ?e = "mem_move ?b ?h old (length ys)"
      have b: "old + length ys \<le> length ?b" using split(4,8) assms(4) c by auto
      have l: "length ?e = length ?b" using b split(4) assms(4) c by simp
      have "ring_holds ?e old xs"
      proof (cases "old + length ys = length ?b")
        case True
        have "flat_at ?e old ys" "flat_at ?e 0 zs"
          using split b c assms(4) True by (auto intro!: flat_at_moved flat_at_move_other)
        moreover have "length zs \<le> old" using split(4,5) True assms(4) c by simp
        ultimately show ?thesis using True l split(2,3) unfolding split(1) by (intro ring_holds_parts) auto
      next
        case k: False
        then have k: "?h = old" "flat_at ?b t zs" using split(8) by auto
        then have "?e = ?b" using split(4) assms(4) c by (simp add: mem_move_same)
        moreover have "flat_at ?b old xs" unfolding split(1) flat_at_append using k split(4,6) by simp
        ultimately show ?thesis using flat_at_ring by simp
      qed
      moreover have "abort_shrink d old t = Ret (d\<lparr>vd_buf := ?e, vd_head := old\<rparr>)"
        using b split(4) c assms(4) unfolding a if_not_P [OF False] by (simp add: buf_copy_def)
      ultimately show ?thesis using l c assms(6) by metis
    qed
  qed
qed

lemma vd_shrink_to_exact:
  fixes m :: nat
  assumes rep: "vd_rep el d xs"
  defines "l \<equiv> array_layout el (max m (length xs))"
  shows "\<exists>d'. vd_rep el d' xs
    \<and> (if vd_cap d \<le> max m (length xs) \<or> max m (length xs) = 0 \<or> al l
       then vd_shrink_to al el d m = Ret (None, d') \<and> vd_cap d' = min (vd_cap d) (max m (length xs))
       else vd_shrink_to al el d m = Ret (Some (AllocError l), d') \<and> vd_cap d' = vd_cap d)"
proof (cases "vd_cap d \<le> max m (length xs)")
  case True
  then show ?thesis using rep vd_rep_len(1) [OF rep] by (simp add: vd_shrink_to_def Let_def min_def)
next
  case False
  define t where "t = max m (length xs)"
  have t: "length xs \<le> t" "t < vd_cap d" using False by (auto simp: t_def)
  have ok: "raw_ok el (vd_buf d)" "l_size el \<noteq> 0" "vd_head d < vd_cap d \<or> vd_head d = 0"
    using rep by (auto simp: vd_rep_def)
  obtain b h where p: "shrink_prepare d t = Ret (d\<lparr>vd_buf := b, vd_head := h\<rparr>)" "length b = vd_cap d"
    "h < t \<or> h = 0" "staged b h (vd_head d) t xs" using shrink_prepare_exact [OF rep t] by blast
  let ?d = "d\<lparr>vd_buf := b, vd_head := h\<rparr>" and ?l = "\<lparr>l_size = l_size el * t, l_align = l_align el\<rparr>"
  have okb: "raw_ok el b" using ok(1) p(2) by (simp add: raw_ok_def vd_cap_def)
  have sh: "shrink al el b t = Ret (if t = 0 \<or> al ?l then Inr (take t b) else Inl (AllocError ?l))" "raw_ok el (take t b)"
    using shrink_result(1) [OF okb _ ok(2), of t al] shrink_result(2) [OF okb _ ok(2), of t] t p(2)
    by (auto simp: Let_def)
  have s: "vd_shrink_to al el d m = and_then (shrink al el b t) (\<lambda>r. case r of
      Inr c \<Rightarrow> Ret (None, d\<lparr>vd_head := h, vd_buf := c\<rparr>)
    | Inl e \<Rightarrow> and_then (abort_shrink ?d (vd_head d) t) (\<lambda>d. Ret (Some e, d)))"
    using p(1) t(2) unfolding vd_shrink_to_def Let_def vd_rep_len(1) [OF rep] t_def [symmetric]
    by simp
  show ?thesis
  proof (cases "t = 0 \<or> al ?l")
    case True
    have "vd_rep el (d\<lparr>vd_head := h, vd_buf := take t b\<rparr>) xs"
      using staged_ring [OF p(4)] p(2,3) t sh(2) ok(2) vd_rep_len(1) [OF rep] by (auto simp: vd_rep_def)
    moreover have "vd_shrink_to al el d m = Ret (None, d\<lparr>vd_head := h, vd_buf := take t b\<rparr>)"
      using True unfolding s sh(1) by simp
    moreover have "vd_cap (d\<lparr>vd_head := h, vd_buf := take t b\<rparr>) = min (vd_cap d) t" using p(2) by simp
    ultimately show ?thesis using True unfolding t_def l_def array_layout_def
      by (intro exI [of _ "d\<lparr>vd_head := h, vd_buf := take t b\<rparr>"]) (simp add: t_def)
  next
    case False
    note refused = this
    obtain e k where a: "abort_shrink ?d (vd_head d) t = Ret (?d\<lparr>vd_buf := e, vd_head := k\<rparr>)" "length e = vd_cap d"
      "k < vd_cap d \<or> k = 0" "ring_holds e k xs"
      using abort_shrink_exact [of ?d "vd_head d" t xs] p(2-4) t ok(3) vd_rep_len(1) [OF rep] by auto
    have "vd_rep el (?d\<lparr>vd_buf := e, vd_head := k\<rparr>) xs"
      using a(2-4) ok(1,2) vd_rep_len [OF rep] by (simp add: vd_rep_def raw_ok_def vd_cap_def)
    moreover have "vd_shrink_to al el d m = Ret (Some (AllocError ?l), ?d\<lparr>vd_buf := e, vd_head := k\<rparr>)"
      using False a(1) unfolding s sh(1) by simp
    moreover have "vd_cap (?d\<lparr>vd_buf := e, vd_head := k\<rparr>) = vd_cap d" using a(2) by simp
    ultimately show ?thesis using refused \<open>\<not> vd_cap d \<le> max m (length xs)\<close> unfolding t_def l_def array_layout_def
      by (intro exI [of _ "?d\<lparr>vd_buf := e, vd_head := k\<rparr>"]) simp
  qed
qed

section \<open>Properties\<close>

text \<open>C16: the slice view and the shape of a \<open>VecDeque\<close>. The two slices concatenate to the represented
  list, and truncation, membership, equality, extension by a slice, appending another deque, splitting and filtering computed
  on those slices are the list operations, whatever the position of the head. Reserving keeps the elements and gives room for
  the announced number. The operations that need memory panic exactly when there is no room and the larger buffer is no valid
  layout or refused; splitting panics also beyond the end. \<open>make_contiguous\<close> ends with all elements in one slice
  on each of its branches; \<open>shrink_to\<close> ends with the smallest allowed capacity, or, exactly when the allocator
  refuses, restores a deque with the same elements in the old buffer before the failure is reported.\<close>

theorem vec_deque_slices:
  assumes "vd_rep el d xs" "vd_rep el e ys"
  shows "(\<exists>a b. as_slices d = Ret (a, b) \<and> a @ b = xs)
    \<and> (\<exists>d'. vd_truncate d m = Ret d' \<and> vd_rep el d' (take m xs))
    \<and> vd_contains d x = Ret (x \<in> set xs)
    \<and> vd_eq d e = Ret (xs = ys)
    \<and> (if has_room al el (vd_buf d) (length xs + length vs)
       then \<exists>d'. spec_extend_slice al el d vs = Ret d' \<and> vd_rep el d' (xs @ vs) else spec_extend_slice al el d vs = Panic)
    \<and> (if has_room al el (vd_buf d) (length xs + length ys)
       then \<exists>d' e'. vd_append al el d e = Ret (d', e') \<and> vd_rep el d' (xs @ ys) \<and> vd_rep el e' [] else vd_append al el d e = Panic)
    \<and> (if m \<le> length xs \<and> (m = length xs \<or> granted al el (length xs - m))
       then \<exists>d' e. vd_split_off al el d m = Ret (d', e) \<and> vd_rep el d' (take m xs) \<and> vd_rep el e (drop m xs)
       else vd_split_off al el d m = Panic)
    \<and> (\<exists>d'. vd_retain f d = Ret d' \<and> vd_rep el d' (filter f xs))
    \<and> (if has_room al el (vd_buf d) (length xs + n)
       then \<exists>d'. vd_reserve al el d n = Ret d' \<and> vd_rep el d' xs \<and> length xs + n \<le> vd_cap d' else vd_reserve al el d n = Panic)
    \<and> (if length xs + n \<le> vd_cap d \<or> granted al el (length xs + n)
       then \<exists>d'. vd_reserve_exact al el d n = Ret d' \<and> vd_rep el d' xs \<and> length xs + n \<le> vd_cap d'
       else vd_reserve_exact al el d n = Panic)
    \<and> (\<exists>d'. make_contiguous d = Ret d' \<and> vd_rep el d' xs \<and> is_contiguous d')
    \<and> (\<exists>d'. vd_rep el d' xs
         \<and> (if vd_cap d \<le> max m (length xs) \<or> max m (length xs) = 0 \<or> al (array_layout el (max m (length xs)))
            then vd_shrink_to al el d m = Ret (None, d') \<and> vd_cap d' = min (vd_cap d) (max m (length xs))
            else vd_shrink_to al el d m = Ret (Some (AllocError (array_layout el (max m (length xs)))), d') \<and> vd_cap d' = vd_cap d))"
proof (intro conjI)
  show "\<exists>a b. as_slices d = Ret (a, b) \<and> a @ b = xs" by (simp add: as_slices_exact [OF assms(1)])
  show "if m \<le> length xs \<and> (m = length xs \<or> granted al el (length xs - m))
       then \<exists>d' e. vd_split_off al el d m = Ret (d', e) \<and> vd_rep el d' (take m xs) \<and> vd_rep el e (drop m xs)
       else vd_split_off al el d m = Panic"
  proof (cases "m \<le> length xs")
    case True
    then show ?thesis using vd_split_off_exact [OF assms(1) True, of al] by simp
  qed (use vd_rep_len(1) [OF assms(1)] in \<open>simp add: vd_split_off_def\<close>)
  show "if has_room al el (vd_buf d) (length xs + n)
       then \<exists>d'. vd_reserve al el d n = Ret d' \<and> vd_rep el d' xs \<and> length xs + n \<le> vd_cap d' else vd_reserve al el d n = Panic"
    "if length xs + n \<le> vd_cap d \<or> granted al el (length xs + n)
       then \<exists>d'. vd_reserve_exact al el d n = Ret d' \<and> vd_rep el d' xs \<and> length xs + n \<le> vd_cap d'
       else vd_reserve_exact al el d n = Panic"
    using vd_reserve_exact_contract [OF assms(1)] unfolding reserves_def by blast+
qed (rule vd_truncate_exact [OF assms(1)] vd_contains_exact [OF assms(1)] vd_eq_exact [OF assms]
    spec_extend_slice_exact [OF assms(1)] vd_append_exact [OF assms] vd_retain_exact [OF assms(1)]
    make_contiguous_exact [OF assms(1)] vd_shrink_to_exact [OF assms(1)])+

theorem vec_deque_slices_witness:
  "vd_eq \<lparr>vd_head = 2, vd_len = 2, vd_buf = [Some CHR ''b'', None, Some CHR ''a'']\<rparr>
       \<lparr>vd_head = 2, vd_len = 2, vd_buf = [Some CHR ''b'', None, Some CHR ''a'']\<rparr> = Ret True
   \<and> (\<exists>d'. vd_retain (\<lambda>c. c = CHR ''b'') \<lparr>vd_head = 2, vd_len = 2, vd_buf = [Some CHR ''b'', None, Some CHR ''a'']\<rparr> = Ret d'
       \<and> vd_rep \<lparr>l_size = 4, l_align = 4\<rparr> d' [CHR ''b''])
   \<and> (\<exists>d'. spec_extend_slice (\<lambda>_. False) \<lparr>l_size = 4, l_align = 4\<rparr>
         \<lparr>vd_head = 2, vd_len = 2, vd_buf = [Some CHR ''b'', None, Some CHR ''a'']\<rparr> ''c'' = Ret d'
       \<and> vd_rep \<lparr>l_size = 4, l_align = 4\<rparr> d' ''abc'')
   \<and> (\<exists>d' l. vd_shrink_to (\<lambda>_. False) \<lparr>l_size = 4, l_align = 4\<rparr>
         \<lparr>vd_head = 2, vd_len = 2, vd_buf = [Some CHR ''b'', None, Some CHR ''a'']\<rparr> 0 = Ret (Some (AllocError l), d')
       \<and> vd_rep \<lparr>l_size = 4, l_align = 4\<rparr> d' [CHR ''a'', CHR ''b''])"
  using vec_deque_slices [OF demo_vd_rep demo_vd_rep, of 0 "CHR ''a''" "\<lambda>_. False" "''c''" "\<lambda>c. c = CHR ''b''" 0]
  by (simp add: has_room_def vd_cap_def) blast

end
