(* ===== verification/Binary_Heap.thy ===== *)
theory Binary_Heap
  imports Rust_Prelude
begin

text \<open>
  \<open>BinaryHeap\<close> of \<open>library/alloc/src/collections/binary_heap/mod.rs\<close>: the hole that moves through the
  vector, sifting in its three forms, rebuilding with its choice of strategy, the public operations and the
  mutable peek with its leak amplification. The vector is the list of its elements, and the elements are
  linearly ordered, as the \<open>Ord\<close> bound asks. Positions are natural numbers: a vector of a sized element
  type has at most \<open>isize::MAX\<close> elements, so \<open>2 * pos + 2\<close> does not wrap. The growth of the
  vector and its failure are the subject of \<open>Vec_Ops\<close>.
\<close>

section \<open>The hole\<close>

record 'a hole =
  h_data :: "'a list"
  h_elt :: 'a
  h_pos :: nat

definition hole_new :: "'a list \<Rightarrow> nat \<Rightarrow> 'a hole outcome" where
  "hole_new data pos = and_then (get_unchecked data pos) (\<lambda>elt. Ret \<lparr>h_data = data, h_elt = elt, h_pos = pos\<rparr>)"

definition hole_get :: "'a hole \<Rightarrow> nat \<Rightarrow> 'a outcome" where
  "hole_get h i = (if i \<noteq> h_pos h then get_unchecked (h_data h) i else UB)"

definition move_to :: "'a hole \<Rightarrow> nat \<Rightarrow> 'a hole outcome" where
  "move_to h i =
     (if i \<noteq> h_pos h \<and> i < length (h_data h)
      then Ret (h\<lparr>h_data := (h_data h)[h_pos h := h_data h ! i], h_pos := i\<rparr>) else UB)"

text \<open>Dropping the hole puts the element back.\<close>

definition hole_drop :: "'a hole \<Rightarrow> 'a list outcome" where
  "hole_drop h = (if h_pos h < length (h_data h) then Ret ((h_data h)[h_pos h := h_elt h]) else UB)"

lemma move_to_pos: "move_to h i = Ret h' \<Longrightarrow> h_pos h' = i"
  by (auto simp: move_to_def split: if_splits)

section \<open>Sifting\<close>

function sift_up_loop :: "'a::linorder hole \<Rightarrow> nat \<Rightarrow> 'a hole outcome" where
  "sift_up_loop h start =
     (if h_pos h > start then
        (let parent = (h_pos h - 1) div 2 in
         and_then (hole_get h parent) (\<lambda>x.
           if h_elt h \<le> x then Ret h else and_then (move_to h parent) (\<lambda>h. sift_up_loop h start)))
      else Ret h)"
  by pat_completeness auto
termination by (relation "measure (\<lambda>(h, _). h_pos h)") (auto dest!: move_to_pos)

definition sift_up :: "'a::linorder list \<Rightarrow> nat \<Rightarrow> nat \<Rightarrow> (nat \<times> 'a list) outcome" where
  "sift_up data start pos =
     and_then (hole_new data pos) (\<lambda>h.
     and_then (sift_up_loop h start) (\<lambda>h.
     and_then (hole_drop h) (\<lambda>data. Ret (h_pos h, data))))"

text \<open>The loop of \<open>sift_down_range\<close>; the flag says whether it returned from inside.\<close>

function sift_down_loop :: "'a::linorder hole \<Rightarrow> nat \<Rightarrow> nat \<Rightarrow> (bool \<times> nat \<times> 'a hole) outcome" where
  "sift_down_loop h child stop =
     (if child \<le> stop - 2 then
        and_then (hole_get h child) (\<lambda>a.
        and_then (hole_get h (child + 1)) (\<lambda>b.
          let child = child + (if a \<le> b then 1 else 0) in
          and_then (hole_get h child) (\<lambda>x.
            if h_elt h \<ge> x then Ret (True, child, h)
            else and_then (move_to h child) (\<lambda>h. sift_down_loop h (2 * h_pos h + 1) stop))))
      else Ret (False, child, h))"
  by pat_completeness auto
termination by (relation "measure (\<lambda>(_, child, stop). Suc stop - child)") (auto dest!: move_to_pos)

definition sift_down_range :: "'a::linorder list \<Rightarrow> nat \<Rightarrow> nat \<Rightarrow> 'a list outcome" where
  "sift_down_range data pos stop =
     and_then (hole_new data pos) (\<lambda>h.
     and_then (sift_down_loop h (2 * h_pos h + 1) stop) (\<lambda>(returned, child, h).
       if returned then hole_drop h
       else if child = stop - 1 then
         and_then (hole_get h child) (\<lambda>x.
           if h_elt h < x then and_then (move_to h child) hole_drop else hole_drop h)
       else hole_drop h))"

definition sift_down :: "'a::linorder list \<Rightarrow> nat \<Rightarrow> 'a list outcome" where
  "sift_down data pos = sift_down_range data pos (length data)"

function to_bottom_loop :: "'a::linorder hole \<Rightarrow> nat \<Rightarrow> nat \<Rightarrow> (nat \<times> 'a hole) outcome" where
  "to_bottom_loop h child stop =
     (if child \<le> stop - 2 then
        and_then (hole_get h child) (\<lambda>a.
        and_then (hole_get h (child + 1)) (\<lambda>b.
          let child = child + (if a \<le> b then 1 else 0) in
          and_then (move_to h child) (\<lambda>h. to_bottom_loop h (2 * h_pos h + 1) stop)))
      else Ret (child, h))"
  by pat_completeness auto
termination by (relation "measure (\<lambda>(_, child, stop). Suc stop - child)") (auto dest!: move_to_pos)

definition sift_down_to_bottom :: "'a::linorder list \<Rightarrow> nat \<Rightarrow> 'a list outcome" where
  "sift_down_to_bottom data pos =
     (let stop = length data; start = pos in
      and_then (hole_new data pos) (\<lambda>h.
      and_then (to_bottom_loop h (2 * h_pos h + 1) stop) (\<lambda>(child, h).
      and_then (if child = stop - 1 then move_to h child else Ret h) (\<lambda>h.
      and_then (hole_drop h) (\<lambda>data.
      and_then (sift_up data start (h_pos h)) (\<lambda>(_, data). Ret data))))))"
section \<open>Rebuilding\<close>

fun rebuild_loop :: "'a::linorder list \<Rightarrow> nat \<Rightarrow> 'a list outcome" where
  "rebuild_loop data 0 = Ret data"
| "rebuild_loop data (Suc n) = and_then (sift_down data n) (\<lambda>data. rebuild_loop data n)"

definition rebuild :: "'a::linorder list \<Rightarrow> 'a list outcome" where
  "rebuild data = rebuild_loop data (length data div 2)"

fun sift_up_each :: "'a::linorder list \<Rightarrow> nat list \<Rightarrow> 'a list outcome" where
  "sift_up_each data [] = Ret data"
| "sift_up_each data (i # is) = and_then (sift_up data 0 i) (\<lambda>(_, data). sift_up_each data is)"

definition log2_fast :: "nat \<Rightarrow> nat" where
  "log2_fast x = 64 - leading_zeros x - 1"

definition better_to_rebuild :: "nat \<Rightarrow> nat \<Rightarrow> bool" where
  "better_to_rebuild len start =
     (let tail_len = len - start in
      if start < tail_len then True
      else if len \<le> 2048 then 2 * len < tail_len * log2_fast start
      else 2 * len < tail_len * 11)"

definition rebuild_tail :: "'a::linorder list \<Rightarrow> nat \<Rightarrow> 'a list outcome" where
  "rebuild_tail data start =
     (if start = length data then Ret data
      else if better_to_rebuild (length data) start then rebuild data
      else sift_up_each data [start ..< length data])"

section \<open>Operations\<close>

definition heap_push :: "'a::linorder list \<Rightarrow> 'a \<Rightarrow> 'a list outcome" where
  "heap_push data item =
     (let old_len = length data; data = data @ [item] in
      and_then (sift_up data 0 old_len) (\<lambda>(_, data). Ret data))"

definition heap_pop :: "'a::linorder list \<Rightarrow> ('a option \<times> 'a list) outcome" where
  "heap_pop data =
     (if data = [] then Ret (None, data)
      else (let item = last data; data = butlast data in
        if data \<noteq> [] then
          and_then (index data 0) (\<lambda>top.
          and_then (sift_down_to_bottom (data[0 := item]) 0) (\<lambda>data. Ret (Some top, data)))
        else Ret (Some item, data)))"

definition heap_peek :: "'a list \<Rightarrow> 'a option" where
  "heap_peek data = (if 0 < length data then Some (data ! 0) else None)"

definition heap_from_vec :: "'a::linorder list \<Rightarrow> 'a list outcome" where
  "heap_from_vec vec = rebuild vec"

text \<open>\<open>append\<close> keeps the longer vector and leaves the other one empty.\<close>

definition heap_append :: "'a::linorder list \<Rightarrow> 'a list \<Rightarrow> ('a list \<times> 'a list) outcome" where
  "heap_append data other =
     (let (data, other) = (if length data < length other then (other, data) else (data, other));
          start = length data; data = data @ other
      in and_then (rebuild_tail data start) (\<lambda>data. Ret (data, [])))"

text \<open>The closure of \<open>retain\<close> counts the visited elements and remembers the first removed position.\<close>

fun retain_from :: "('a \<Rightarrow> bool) \<Rightarrow> 'a list \<Rightarrow> nat \<Rightarrow> nat \<Rightarrow> nat" where
  "retain_from f [] i from = from"
| "retain_from f (e # es) i from =
     (let keep = f e; from = (if \<not> keep \<and> i < from then i else from) in retain_from f es (i + 1) from)"

definition heap_retain :: "('a::linorder \<Rightarrow> bool) \<Rightarrow> 'a list \<Rightarrow> 'a list outcome" where
  "heap_retain f data = rebuild_tail (filter f data) (retain_from f data 0 (length data))"

text \<open>\<open>extend\<close> adds the items to the vector and rebuilds behind the old elements when the guard is dropped,
  also if the iterator panics (\<open>None\<close>) on the way; the result says whether it did.\<close>

fun items_before_panic :: "'a option list \<Rightarrow> 'a list" where
  "items_before_panic [] = []"
| "items_before_panic (None # items) = []"
| "items_before_panic (Some x # items) = x # items_before_panic items"

definition heap_extend :: "'a::linorder list \<Rightarrow> 'a option list \<Rightarrow> (bool \<times> 'a list) outcome" where
  "heap_extend data items =
     (let rebuild_from = length data; data = data @ items_before_panic items in
      and_then (rebuild_tail data rebuild_from) (\<lambda>data. Ret (None \<in> set items, data)))"

definition heap_extend_one :: "'a::linorder list \<Rightarrow> 'a \<Rightarrow> 'a list outcome" where
  "heap_extend_one data item = heap_push data item"

text \<open>\<open>drain\<close> hands out the elements of the vector in its order and leaves the heap empty, used up or
  leaked; \<open>clear\<close> drops the iterator at once.\<close>

definition heap_drain :: "'a list \<Rightarrow> 'a list \<times> 'a list" where
  "heap_drain data = (data, [])"

definition heap_clear :: "'a list \<Rightarrow> 'a list" where
  "heap_clear data = snd (heap_drain data)"

function sorted_loop :: "'a::linorder list \<Rightarrow> nat \<Rightarrow> 'a list outcome" where
  "sorted_loop data stop =
     (if stop > 1 then
        (let stop = stop - 1 in
         if stop < length data
         then and_then (sift_down_range (data[0 := data ! stop, stop := data ! 0]) 0 stop) (\<lambda>data. sorted_loop data stop)
         else UB)
      else Ret data)"
  by pat_completeness auto
termination by (relation "measure snd") auto

definition into_sorted_vec :: "'a::linorder list \<Rightarrow> 'a list outcome" where
  "into_sorted_vec data = sorted_loop data (length data)"

section \<open>The mutable peek\<close>

text \<open>\<open>pm_data\<close> is the storage of the vector and \<open>pm_len\<close> its current length, which
  \<open>deref_mut\<close> sets to one until the guard is dropped.\<close>

record 'a peek_mut =
  pm_data :: "'a list"
  pm_len :: nat
  original_len :: "nat option"

definition heap_peek_mut :: "'a list \<Rightarrow> 'a peek_mut option" where
  "heap_peek_mut data =
     (if data = [] then None else Some \<lparr>pm_data = data, pm_len = length data, original_len = None\<rparr>)"

definition deref_mut :: "'a peek_mut \<Rightarrow> 'a peek_mut" where
  "deref_mut p = (let len = pm_len p in if len > 1 then p\<lparr>original_len := Some len, pm_len := 1\<rparr> else p)"

definition peek_assign :: "'a peek_mut \<Rightarrow> 'a \<Rightarrow> 'a peek_mut outcome" where
  "peek_assign p v =
     (let p = deref_mut p in if 0 < pm_len p then Ret (p\<lparr>pm_data := (pm_data p)[0 := v]\<rparr>) else UB)"

definition set_len :: "'a peek_mut \<Rightarrow> nat \<Rightarrow> 'a peek_mut outcome" where
  "set_len p n = (if n \<le> length (pm_data p) then Ret (p\<lparr>pm_len := n\<rparr>) else UB)"

definition pm_vec :: "'a peek_mut \<Rightarrow> 'a list" where
  "pm_vec p = take (pm_len p) (pm_data p)"

definition peek_drop :: "'a::linorder peek_mut \<Rightarrow> 'a list outcome" where
  "peek_drop p =
     (case original_len p of
        Some n \<Rightarrow> and_then (set_len p n) (\<lambda>p. sift_down (pm_vec p) 0)
      | None \<Rightarrow> Ret (pm_vec p))"

definition peek_pop :: "'a::linorder peek_mut \<Rightarrow> ('a \<times> 'a list) outcome" where
  "peek_pop p =
     and_then (case original_len p of Some n \<Rightarrow> set_len p n | None \<Rightarrow> Ret p) (\<lambda>p.
     and_then (heap_pop (pm_vec p)) (\<lambda>(r, data).
       case r of Some x \<Rightarrow> Ret (x, data) | None \<Rightarrow> Panic))"

declare sift_up_loop.simps [simp del] sift_down_loop.simps [simp del] to_bottom_loop.simps [simp del]
  sorted_loop.simps [simp del]

section \<open>The heap order\<close>

definition par :: "nat \<Rightarrow> nat" where
  "par i = (i - 1) div 2"

definition heap_from :: "nat \<Rightarrow> nat \<Rightarrow> 'a::linorder list \<Rightarrow> bool" where
  "heap_from s n xs \<longleftrightarrow> (\<forall>i < n. 0 < i \<and> s \<le> par i \<longrightarrow> xs ! i \<le> xs ! par i)"

definition is_heap :: "'a::linorder list \<Rightarrow> bool" where
  "is_heap xs \<longleftrightarrow> heap_from 0 (length xs) xs"

text \<open>The order away from the hole \<open>p\<close>: on the way down, on the way to the bottom, and on the way up.\<close>

definition down_inv :: "nat \<Rightarrow> nat \<Rightarrow> nat \<Rightarrow> 'a::linorder list \<Rightarrow> bool" where
  "down_inv s n p xs \<longleftrightarrow> s \<le> p \<and> p < n
     \<and> (\<forall>i < n. 0 < i \<and> s \<le> par i \<and> par i \<noteq> p \<longrightarrow> xs ! i \<le> xs ! par i)
     \<and> (p \<noteq> s \<longrightarrow> (\<forall>i < n. 0 < i \<and> par i = p \<longrightarrow> xs ! i \<le> xs ! par p))"

definition bottom_inv :: "nat \<Rightarrow> nat \<Rightarrow> 'a::linorder list \<Rightarrow> bool" where
  "bottom_inv n p xs \<longleftrightarrow> p < n
     \<and> (\<forall>i < n. 0 < i \<and> i \<noteq> p \<and> par i \<noteq> p \<longrightarrow> xs ! i \<le> xs ! par i)
     \<and> (0 < p \<longrightarrow> (\<forall>i < n. 0 < i \<and> par i = p \<longrightarrow> xs ! i \<le> xs ! par p))"

definition up_inv :: "nat \<Rightarrow> nat \<Rightarrow> 'a::linorder list \<Rightarrow> bool" where
  "up_inv n p xs \<longleftrightarrow> p < n
     \<and> (\<forall>i < n. 0 < i \<and> i \<noteq> p \<longrightarrow> xs ! i \<le> xs ! par i)
     \<and> (0 < p \<longrightarrow> (\<forall>i < n. 0 < i \<and> par i = p \<longrightarrow> xs ! i \<le> xs ! par p))"

definition swp :: "'a list \<Rightarrow> nat \<Rightarrow> nat \<Rightarrow> 'a list" where
  "swp xs i j = xs[i := xs ! j, j := xs ! i]"

lemma par_iff: "0 < i \<Longrightarrow> par i = p \<longleftrightarrow> i = 2 * p + 1 \<or> i = 2 * p + 2"
  unfolding par_def by presburger

lemma par_less: "0 < i \<Longrightarrow> par i < i"
  unfolding par_def by presburger

lemma length_swp [simp]: "length (swp xs i j) = length xs"
  by (simp add: swp_def)

lemma nth_swp: "i < length xs \<Longrightarrow> j < length xs \<Longrightarrow>
    swp xs i j ! k = (if k = j then xs ! i else if k = i then xs ! j else xs ! k)"
  by (auto simp: swp_def nth_list_update)

lemma mset_swp: "i < length xs \<Longrightarrow> j < length xs \<Longrightarrow> mset (swp xs i j) = mset xs"
  unfolding swp_def by (rule mset_swap)

lemma drop_swp: "i < n \<Longrightarrow> j < n \<Longrightarrow> drop n (swp xs i j) = drop n xs"
  by (simp add: swp_def)

lemma down_step:
  assumes "down_inv s n p xs" "n \<le> length xs" "c < n" "0 < c" "par c = p"
    and "\<And>i. i < n \<Longrightarrow> 0 < i \<Longrightarrow> par i = p \<Longrightarrow> xs ! i \<le> xs ! c" "xs ! p \<le> xs ! c"
  shows "down_inv s n c (swp xs p c)"
proof -
  have p: "s \<le> p" "p < n" "p < c" "s \<le> c"
    using assms(1,4,5) par_less [of c] by (auto simp: down_inv_def)
  note d = assms(1) [unfolded down_inv_def]
  have n: "swp xs p c ! k = (if k = c then xs ! p else if k = p then xs ! c else xs ! k)" for k
    using p assms(2,3) by (intro nth_swp) auto
  have "swp xs p c ! i \<le> swp xs p c ! par i" if "i < n" "0 < i" "s \<le> par i" "par i \<noteq> c" for i
  proof (cases "par i = p")
    case True
    then show ?thesis using that assms(5-7) p by (auto simp: n dest: par_less)
  next
    case False
    show ?thesis
    proof (cases "i = p")
      case True
      then have "s \<noteq> p" using that par_less [of i] by auto
      then show ?thesis using True False that d assms(3-5) p by (auto simp: n)
    qed (use False that d assms(5) in \<open>auto simp: n\<close>)
  qed
  moreover have "swp xs p c ! i \<le> swp xs p c ! par c" if "i < n" "0 < i" "par i = c" for i
    using that d p assms(5) par_less [of i] by (auto simp: n)
  ultimately show ?thesis using p assms(3) by (simp add: down_inv_def)
qed

lemma down_done:
  assumes "down_inv s n p xs" "\<And>i. i < n \<Longrightarrow> 0 < i \<Longrightarrow> par i = p \<Longrightarrow> xs ! i \<le> xs ! p"
  shows "heap_from s n xs"
  using assms by (auto simp: down_inv_def heap_from_def)

lemma bottom_step:
  assumes "bottom_inv n p xs" "n \<le> length xs" "c < n" "0 < c" "par c = p"
    and "\<And>i. i < n \<Longrightarrow> 0 < i \<Longrightarrow> par i = p \<Longrightarrow> xs ! i \<le> xs ! c"
  shows "bottom_inv n c (swp xs p c)"
proof -
  have p: "p < n" "p < c" using assms(1,4,5) par_less [of c] by (auto simp: bottom_inv_def)
  note d = assms(1) [unfolded bottom_inv_def]
  have n: "swp xs p c ! k = (if k = c then xs ! p else if k = p then xs ! c else xs ! k)" for k
    using p assms(2,3) by (intro nth_swp) auto
  have "swp xs p c ! i \<le> swp xs p c ! par i" if "i < n" "0 < i" "i \<noteq> c" "par i \<noteq> c" for i
  proof (cases "par i = p")
    case True
    then show ?thesis using that assms(6) p par_less [of i] by (auto simp: n)
  next
    case False
    then show ?thesis using that d assms(3-5) p by (cases "i = p") (auto simp: n)
  qed
  moreover have "swp xs p c ! i \<le> swp xs p c ! par c" if "i < n" "0 < i" "par i = c" for i
    using that d p assms(5) par_less [of i] by (auto simp: n)
  ultimately show ?thesis using p assms(3) by (simp add: bottom_inv_def)
qed

lemma bottom_done: "bottom_inv n p xs \<Longrightarrow> n \<le> 2 * p + 1 \<Longrightarrow> up_inv n p xs"
  using par_iff by (fastforce simp: bottom_inv_def up_inv_def)

lemma up_step:
  assumes "up_inv n p xs" "n \<le> length xs" "0 < p" "xs ! par p \<le> xs ! p"
  shows "up_inv n (par p) (swp xs p (par p))"
proof -
  define q where "q = par p"
  have p: "p < n" "q < p" using assms(1,3) par_less [of p] by (auto simp: up_inv_def q_def)
  note d = assms(1) [unfolded up_inv_def, folded q_def]
  have le: "xs ! q \<le> xs ! p" using assms(4) by (simp add: q_def)
  have n: "swp xs p q ! k = (if k = q then xs ! p else if k = p then xs ! q else xs ! k)" for k
    using p assms(2) by (intro nth_swp) auto
  have e: "xs ! i \<le> xs ! par i" if "i < n" "0 < i" "i \<noteq> p" for i using d that by blast
  have "swp xs p q ! i \<le> swp xs p q ! par i" if i: "i < n" "0 < i" "i \<noteq> q" for i
  proof (cases "i = p")
    case True
    then show ?thesis using le p by (simp add: n q_def [symmetric])
  next
    case ip: False
    show ?thesis
    proof (cases "par i = p")
      case True
      then show ?thesis using i ip d assms(3) p by (simp add: n)
    next
      case False
      show ?thesis
      proof (cases "par i = q")
        case True
        then have "xs ! i \<le> xs ! q" using e [OF i(1,2) ip] by simp
        then show ?thesis using True i ip le by (simp add: n)
      qed (use False i ip e in \<open>simp add: n\<close>)
    qed
  qed
  moreover have "swp xs p q ! i \<le> swp xs p q ! par q" if i: "i < n" "0 < i" "par i = q" "0 < q" for i
  proof -
    have "par q < q" "xs ! q \<le> xs ! par q" using e [of q] p i(4) par_less [of q] by auto
    moreover have "i = p \<or> xs ! i \<le> xs ! q" using e [of i] i by auto
    ultimately show ?thesis using p i par_less [of i] by (auto simp: n)
  qed
  ultimately show ?thesis using p by (simp add: up_inv_def q_def [symmetric])
qed

lemma up_done: "up_inv n p xs \<Longrightarrow> p = 0 \<or> xs ! p \<le> xs ! par p \<Longrightarrow> heap_from 0 n xs"
  by (auto simp: up_inv_def heap_from_def)

section \<open>The loops keep the order\<close>

definition filled :: "'a hole \<Rightarrow> 'a list" where
  "filled h = (h_data h)[h_pos h := h_elt h]"

definition hole_ok :: "'a hole \<Rightarrow> bool" where
  "hole_ok h \<longleftrightarrow> h_pos h < length (h_data h)"

lemma hole_new_exact:
  assumes "p < length xs"
  obtains h where "hole_new xs p = Ret h" "hole_ok h" "filled h = xs" "h_pos h = p"
  using assms by (simp add: hole_new_def hole_ok_def filled_def)

lemma hole_facts:
  assumes "hole_ok h"
  shows "hole_drop h = Ret (filled h)" "h_elt h = filled h ! h_pos h" "length (filled h) = length (h_data h)"
    "i \<noteq> h_pos h \<Longrightarrow> i < length (filled h) \<Longrightarrow> hole_get h i = Ret (filled h ! i)"
  using assms by (simp_all add: hole_ok_def hole_drop_def filled_def hole_get_def)

lemma move_to_exact:
  assumes "hole_ok h" "i \<noteq> h_pos h" "i < length (filled h)"
  obtains h' where "move_to h i = Ret h'" "hole_ok h'" "filled h' = swp (filled h) (h_pos h) i" "h_pos h' = i"
proof -
  let ?h = "h\<lparr>h_data := (h_data h)[h_pos h := h_data h ! i], h_pos := i\<rparr>"
  have "filled ?h = swp (filled h) (h_pos h) i" using assms by (simp add: filled_def swp_def hole_ok_def list_update_swap)
  then show thesis using that [of ?h] assms by (simp add: move_to_def hole_ok_def filled_def)
qed

text \<open>A rearrangement of the first \<open>n\<close> elements.\<close>

definition rearranged :: "nat \<Rightarrow> 'a list \<Rightarrow> 'a list \<Rightarrow> bool" where
  "rearranged n xs ys \<longleftrightarrow> mset ys = mset xs \<and> drop n ys = drop n xs"

lemma rearranged_refl [simp]: "rearranged n xs xs"
  by (simp add: rearranged_def)

lemma rearranged_trans: "rearranged n xs ys \<Longrightarrow> rearranged n ys zs \<Longrightarrow> rearranged n xs zs"
  by (simp add: rearranged_def)

lemma rearranged_swp: "i < n \<Longrightarrow> j < n \<Longrightarrow> n \<le> length xs \<Longrightarrow> rearranged n xs (swp xs i j)"
  by (simp add: rearranged_def mset_swp drop_swp)

lemma rearranged_length: "rearranged n xs ys \<Longrightarrow> length ys = length xs"
  by (auto simp: rearranged_def dest: mset_eq_length)

lemma rearranged_swp_then: "rearranged n (swp xs i j) ys \<Longrightarrow> i < n \<Longrightarrow> j < n \<Longrightarrow> n \<le> length xs \<Longrightarrow> rearranged n xs ys"
  using rearranged_swp rearranged_trans by blast

lemma sift_up_loop_exact:
  "hole_ok h \<Longrightarrow> up_inv n (h_pos h) (filled h) \<Longrightarrow> n \<le> length (filled h) \<Longrightarrow>
    \<exists>h'. sift_up_loop h 0 = Ret h' \<and> hole_ok h' \<and> rearranged n (filled h) (filled h') \<and> heap_from 0 n (filled h')"
proof (induction "h_pos h" arbitrary: h rule: less_induct)
  case less
  let ?p = "h_pos h" and ?xs = "filled h"
  show ?case
  proof (cases "0 < ?p")
    case True
    then have q: "par ?p < ?p" "(?p - 1) div 2 = par ?p" by (simp_all add: par_less) (simp add: par_def)
    have p: "?p < n" using less.prems(2) by (simp add: up_inv_def)
    have g: "hole_get h (par ?p) = Ret (?xs ! par ?p)"
      using q p less.prems by (intro hole_facts(4)) auto
    note f = hole_facts(2) [OF less.prems(1)]
    show ?thesis
    proof (cases "?xs ! ?p \<le> ?xs ! par ?p")
      case le: True
      then show ?thesis using True g f q less.prems up_done [OF less.prems(2)]
        by (subst sift_up_loop.simps) (simp add: Let_def)
    next
      case False
      obtain h' where m: "move_to h (par ?p) = Ret h'" "hole_ok h'" "filled h' = swp ?xs ?p (par ?p)" "h_pos h' = par ?p"
        using move_to_exact [OF less.prems(1), of "par ?p"] q p less.prems(3) by auto
      have "up_inv n (par ?p) (swp ?xs ?p (par ?p))" using less.prems False True by (intro up_step) auto
      then obtain h'' where i: "sift_up_loop h' 0 = Ret h''" "hole_ok h''" "rearranged n (filled h') (filled h'')"
        "heap_from 0 n (filled h'')"
        using less.hyps [of h'] m q less.prems(3) by auto
      have "rearranged n ?xs (filled h'')" using i(3) m(3) q p less.prems(3) by (auto intro: rearranged_swp_then)
      moreover have "sift_up_loop h 0 = Ret h''" using True g f q m(1) i(1) False
        by (subst sift_up_loop.simps) (simp add: Let_def)
      ultimately show ?thesis using i by blast
    qed
  next
    case False
    then show ?thesis using less.prems up_done [OF less.prems(2)] by (simp add: sift_up_loop.simps)
  qed
qed

lemma sift_up_exact:
  assumes "up_inv n p xs" "n \<le> length xs"
  shows "\<exists>q ys. sift_up xs 0 p = Ret (q, ys) \<and> rearranged n xs ys \<and> heap_from 0 n ys"
proof -
  have "p < length xs" using assms by (simp add: up_inv_def)
  then obtain h where h: "hole_new xs p = Ret h" "hole_ok h" "filled h = xs" "h_pos h = p" by (rule hole_new_exact)
  then obtain h' where "sift_up_loop h 0 = Ret h'" "hole_ok h'" "rearranged n xs (filled h')" "heap_from 0 n (filled h')"
    using sift_up_loop_exact [of h n] assms by auto
  then show ?thesis using h by (simp add: sift_up_def hole_facts)
qed

lemma larger_child:
  fixes h :: "'a::linorder hole"
  assumes "hole_ok h" "2 * h_pos h + 2 < n" "n \<le> length (filled h)"
  defines "c \<equiv> 2 * h_pos h + 1 + (if filled h ! (2 * h_pos h + 1) \<le> filled h ! (2 * h_pos h + 2) then 1 else 0)"
  shows "hole_get h (2 * h_pos h + 1) = Ret (filled h ! (2 * h_pos h + 1))"
    "hole_get h (2 * h_pos h + 1 + 1) = Ret (filled h ! (2 * h_pos h + 2))"
    "hole_get h c = Ret (filled h ! c)" "c < n" "0 < c" "par c = h_pos h" "c \<noteq> h_pos h" "h_pos h < n"
    "\<And>i. i < n \<Longrightarrow> 0 < i \<Longrightarrow> par i = h_pos h \<Longrightarrow> filled h ! i \<le> filled h ! c"
proof -
  show "c < n" "0 < c" "par c = h_pos h" "c \<noteq> h_pos h" "h_pos h < n" using assms(2) by (auto simp: c_def par_def)
  then show "hole_get h c = Ret (filled h ! c)" using assms by (intro hole_facts(4)) auto
  show "hole_get h (2 * h_pos h + 1) = Ret (filled h ! (2 * h_pos h + 1))"
    "hole_get h (2 * h_pos h + 1 + 1) = Ret (filled h ! (2 * h_pos h + 2))"
    using assms hole_facts(4) [OF assms(1), of "2 * h_pos h + 1"] hole_facts(4) [OF assms(1), of "2 * h_pos h + 2"] by auto
  show "filled h ! i \<le> filled h ! c" if "i < n" "0 < i" "par i = h_pos h" for i
    using that par_iff [of i "h_pos h"] by (auto simp: c_def)
qed

lemma sift_down_loop_exact:
  "hole_ok h \<Longrightarrow> down_inv s n (h_pos h) (filled h) \<Longrightarrow> n \<le> length (filled h) \<Longrightarrow>
    \<exists>r c h'. sift_down_loop h (2 * h_pos h + 1) n = Ret (r, c, h') \<and> hole_ok h' \<and> rearranged n (filled h) (filled h')
      \<and> (if r then heap_from s n (filled h') else c = 2 * h_pos h' + 1 \<and> n - 2 < c \<and> down_inv s n (h_pos h') (filled h'))"
proof (induction "n - h_pos h" arbitrary: h rule: less_induct)
  case less
  let ?p = "h_pos h" and ?xs = "filled h"
  show ?case
  proof (cases "2 * ?p + 1 \<le> n - 2")
    case True
    then have two: "2 * ?p + 2 < n" by linarith
    define c where "c = 2 * ?p + 1 + (if ?xs ! (2 * ?p + 1) \<le> ?xs ! (2 * ?p + 2) then 1 else 0)"
    note l = larger_child [OF less.prems(1) two less.prems(3), folded c_def]
    have e: "sift_down_loop h (2 * ?p + 1) n = (if ?xs ! c \<le> ?xs ! ?p then Ret (True, c, h)
        else and_then (move_to h c) (\<lambda>h. sift_down_loop h (2 * h_pos h + 1) n))"
      using True l(1-3) hole_facts(2) [OF less.prems(1)]
      by (subst sift_down_loop.simps) (simp only: if_True and_then.simps Let_def c_def [symmetric])
    show ?thesis
    proof (cases "?xs ! c \<le> ?xs ! ?p")
      case le: True
      have "heap_from s n ?xs" using l(9) le by (intro down_done [OF less.prems(2)]) (meson order_trans)
      then show ?thesis using less.prems(1) le unfolding e by auto
    next
      case False
      obtain h' where m: "move_to h c = Ret h'" "hole_ok h'" "filled h' = swp ?xs ?p c" "h_pos h' = c"
        using move_to_exact [OF less.prems(1) l(7)] l(4) less.prems(3) by auto
      have d: "down_inv s n c (swp ?xs ?p c)" using less.prems l False by (intro down_step) auto
      have "n - c < n - ?p" using l(4-6) par_less [of c] by simp
      then obtain r c' h'' where i: "sift_down_loop h' (2 * h_pos h' + 1) n = Ret (r, c', h'')" "hole_ok h''"
        "rearranged n (filled h') (filled h'')"
        "if r then heap_from s n (filled h'') else c' = 2 * h_pos h'' + 1 \<and> n - 2 < c' \<and> down_inv s n (h_pos h'') (filled h'')"
        using less.hyps [of h'] m d less.prems(3) by auto
      have "rearranged n ?xs (filled h'')" using i(3) m(3) l(4,8) less.prems(3) by (auto intro: rearranged_swp_then)
      then show ?thesis using e False m(1) i by auto
    qed
  next
    case False
    then have "sift_down_loop h (2 * ?p + 1) n = Ret (False, 2 * ?p + 1, h)" by (subst sift_down_loop.simps) simp
    then show ?thesis using less.prems False by auto
  qed
qed

lemma sift_down_range_exact:
  assumes "p < n" "n \<le> length xs" "heap_from (Suc p) n xs"
  shows "\<exists>ys. sift_down_range xs p n = Ret ys \<and> rearranged n xs ys \<and> heap_from p n ys"
proof -
  have "p < length xs" using assms by simp
  then obtain h where h: "hole_new xs p = Ret h" "hole_ok h" "filled h = xs" "h_pos h = p" by (rule hole_new_exact)
  have "down_inv p n p xs" using assms by (auto simp: down_inv_def heap_from_def Suc_le_eq)
  then obtain r c k where l: "sift_down_loop h (2 * h_pos h + 1) n = Ret (r, c, k)" "hole_ok k" "rearranged n xs (filled k)"
      "if r then heap_from p n (filled k) else c = 2 * h_pos k + 1 \<and> n - 2 < c \<and> down_inv p n (h_pos k) (filled k)"
    using sift_down_loop_exact [of h p n] h assms(2) by auto
  have len: "length (filled k) = length xs" using rearranged_length [OF l(3)] .
  have s: "sift_down_range xs p n = (if r then Ret (filled k) else if c = n - 1 then
      and_then (hole_get k c) (\<lambda>x. if h_elt k < x then and_then (move_to k c) hole_drop else Ret (filled k)) else Ret (filled k))"
    using h(1) l(1) unfolding sift_down_range_def by (simp cong: if_cong add: hole_facts(1) [OF l(2)])
  show ?thesis
  proof (cases r)
    case False
    then have k: "c = 2 * h_pos k + 1" "n - 2 < c" "down_inv p n (h_pos k) (filled k)" using l(4) by auto
    have pk: "h_pos k < n" "0 < c" "par c = h_pos k" using k by (auto simp: down_inv_def par_def)
    show ?thesis
    proof (cases "c = n - 1")
      case True
      then have c: "c < n" "c \<noteq> h_pos k" using pk k(1) by auto
      have only: "i = c" if "i < n" "0 < i" "par i = h_pos k" for i using that par_iff [of i "h_pos k"] k(1) True by auto
      have g: "hole_get k c = Ret (filled k ! c)" using c assms(2) len by (intro hole_facts(4) [OF l(2)]) auto
      show ?thesis
      proof (cases "filled k ! h_pos k < filled k ! c")
        case less: True
        obtain k' where m: "move_to k c = Ret k'" "hole_ok k'" "filled k' = swp (filled k) (h_pos k) c" "h_pos k' = c"
          using move_to_exact [OF l(2) c(2)] c(1) assms(2) len by auto
        have "down_inv p n c (filled k')" unfolding m(3)
        proof (rule down_step [OF k(3)])
          show "filled k ! i \<le> filled k ! c" if "i < n" "0 < i" "par i = h_pos k" for i using only [OF that] by simp
        qed (use c pk assms(2) len less in auto)
        then have "heap_from p n (filled k')"
        proof (rule down_done)
          show "filled k' ! i \<le> filled k' ! c" if "i < n" "0 < i" "par i = c" for i
            using that par_less [of i] True by linarith
        qed
        moreover have "rearranged n xs (filled k')"
          unfolding m(3) using l(3) rearranged_swp [of "h_pos k" n c "filled k"] pk c assms(2) len rearranged_trans by metis
        moreover have "sift_down_range xs p n = Ret (filled k')"
          using s False True g less m(1) hole_facts(1) [OF m(2)] hole_facts(2) [OF l(2)] by simp
        ultimately show ?thesis by blast
      next
        case ge: False
        have "heap_from p n (filled k)" using only ge by (intro down_done [OF k(3)]) auto
        then show ?thesis using s False True g ge l(3) hole_facts(2) [OF l(2)] by simp
      qed
    next
      case no: False
      have "heap_from p n (filled k)" using k(1,2) no par_iff by (intro down_done [OF k(3)]) fastforce
      then show ?thesis using s False no l(3) by simp
    qed
  qed (use s l in auto)
qed

lemma to_bottom_loop_exact:
  "hole_ok h \<Longrightarrow> bottom_inv n (h_pos h) (filled h) \<Longrightarrow> n \<le> length (filled h) \<Longrightarrow>
    \<exists>c k. to_bottom_loop h (2 * h_pos h + 1) n = Ret (c, k) \<and> hole_ok k \<and> rearranged n (filled h) (filled k)
      \<and> c = 2 * h_pos k + 1 \<and> n - 2 < c \<and> bottom_inv n (h_pos k) (filled k)"
proof (induction "n - h_pos h" arbitrary: h rule: less_induct)
  case less
  let ?p = "h_pos h" and ?xs = "filled h"
  show ?case
  proof (cases "2 * ?p + 1 \<le> n - 2")
    case True
    then have two: "2 * ?p + 2 < n" by linarith
    define c where "c = 2 * ?p + 1 + (if ?xs ! (2 * ?p + 1) \<le> ?xs ! (2 * ?p + 2) then 1 else 0)"
    note l = larger_child [OF less.prems(1) two less.prems(3), folded c_def]
    have e: "to_bottom_loop h (2 * ?p + 1) n = and_then (move_to h c) (\<lambda>h. to_bottom_loop h (2 * h_pos h + 1) n)"
      using True l(1,2) by (subst to_bottom_loop.simps) (simp only: if_True and_then.simps Let_def c_def [symmetric])
    obtain h' where m: "move_to h c = Ret h'" "hole_ok h'" "filled h' = swp ?xs ?p c" "h_pos h' = c"
      using move_to_exact [OF less.prems(1) l(7)] l(4) less.prems(3) by auto
    have d: "bottom_inv n c (swp ?xs ?p c)" using less.prems l by (intro bottom_step) auto
    have "n - c < n - ?p" using l(4-6) par_less [of c] by simp
    then obtain c' k where i: "to_bottom_loop h' (2 * h_pos h' + 1) n = Ret (c', k)" "hole_ok k"
        "rearranged n (filled h') (filled k)" "c' = 2 * h_pos k + 1" "n - 2 < c'" "bottom_inv n (h_pos k) (filled k)"
      using less.hyps [of h'] m d less.prems(3) by auto
    have "rearranged n ?xs (filled k)" using i(3) m(3) l(4,8) less.prems(3) by (auto intro: rearranged_swp_then)
    moreover have "to_bottom_loop h (2 * ?p + 1) n = Ret (c', k)" unfolding e m(1) and_then.simps by (rule i(1))
    ultimately show ?thesis using i by blast
  next
    case False
    then show ?thesis using less.prems by (subst to_bottom_loop.simps) simp
  qed
qed

lemma sift_down_to_bottom_exact:
  assumes "bottom_inv (length xs) 0 xs"
  shows "\<exists>ys. sift_down_to_bottom xs 0 = Ret ys \<and> mset ys = mset xs \<and> is_heap ys"
proof -
  let ?n = "length xs"
  have "0 < ?n" using assms by (simp add: bottom_inv_def)
  then obtain h where h: "hole_new xs 0 = Ret h" "hole_ok h" "filled h = xs" "h_pos h = 0" by (rule hole_new_exact)
  then obtain c k where l: "to_bottom_loop h (2 * h_pos h + 1) ?n = Ret (c, k)" "hole_ok k" "rearranged ?n xs (filled k)"
      "c = 2 * h_pos k + 1" "?n - 2 < c" "bottom_inv ?n (h_pos k) (filled k)"
    using to_bottom_loop_exact [of h ?n] assms by auto
  have len: "length (filled k) = ?n" using rearranged_length [OF l(3)] .
  have "\<exists>j. (if c = ?n - 1 then move_to k c else Ret k) = Ret j \<and> hole_ok j \<and> rearranged ?n xs (filled j)
      \<and> up_inv ?n (h_pos j) (filled j)"
  proof (cases "c = ?n - 1")
    case True
    then have c: "c < ?n" "c \<noteq> h_pos k" "h_pos k < ?n" "par c = h_pos k" "0 < c"
      using \<open>0 < ?n\<close> l(4,6) by (auto simp: bottom_inv_def par_def)
    obtain j where m: "move_to k c = Ret j" "hole_ok j" "filled j = swp (filled k) (h_pos k) c" "h_pos j = c"
      using move_to_exact [OF l(2) c(2)] c(1) len by auto
    have "bottom_inv ?n c (filled j)" unfolding m(3)
    proof (rule bottom_step [OF l(6)])
      show "filled k ! i \<le> filled k ! c" if "i < ?n" "0 < i" "par i = h_pos k" for i
        using that par_iff [of i "h_pos k"] l(4) True by auto
    qed (use c len in auto)
    then have "up_inv ?n (h_pos j) (filled j)" using True m(4) by (intro bottom_done) auto
    moreover have "rearranged ?n xs (filled j)"
      unfolding m(3) using l(3) rearranged_swp [of "h_pos k" ?n c "filled k"] c len rearranged_trans by (metis order_refl)
    ultimately show ?thesis using True m by auto
  next
    case False
    then have "up_inv ?n (h_pos k) (filled k)" using l(4-6) by (intro bottom_done) auto
    then show ?thesis using False l by auto
  qed
  then obtain j where j: "(if c = ?n - 1 then move_to k c else Ret k) = Ret j" "hole_ok j" "rearranged ?n xs (filled j)"
      "up_inv ?n (h_pos j) (filled j)" by blast
  then obtain q ys where s: "sift_up (filled j) 0 (h_pos j) = Ret (q, ys)" "rearranged ?n (filled j) ys" "heap_from 0 ?n ys"
    using sift_up_exact [OF j(4)] rearranged_length [OF j(3)] by auto
  have "sift_down_to_bottom xs 0 = Ret ys"
    using h(1) l(1) j(1) s(1) by (simp add: sift_down_to_bottom_def Let_def hole_facts(1) [OF j(2)])
  then show ?thesis using s(2,3) j(3) rearranged_length [OF s(2)] rearranged_length [OF j(3)]
    by (simp add: rearranged_def is_heap_def)
qed

section \<open>The operations keep the heap\<close>

lemma heap_from_cut: "heap_from s n xs \<Longrightarrow> m \<le> n \<Longrightarrow> heap_from s m xs"
  by (simp add: heap_from_def)

lemma heap_from_weaken: "heap_from s n xs \<Longrightarrow> s \<le> t \<Longrightarrow> heap_from t n xs"
  by (auto simp: heap_from_def)

lemma heap_from_agree:
  assumes "heap_from s n xs" "\<And>i. i < n \<Longrightarrow> ys ! i = xs ! i"
  shows "heap_from s n ys"
  unfolding heap_from_def
proof (intro allI impI)
  fix i assume i: "i < n" "0 < i \<and> s \<le> par i"
  then have "par i < n" using par_less [of i] by simp
  then show "ys ! i \<le> ys ! par i" using assms(1) assms(2) [of i] assms(2) [of "par i"] i by (simp add: heap_from_def)
qed

lemma heap_from_tail: "heap_from 0 n xs \<Longrightarrow> heap_from (Suc 0) n (xs[0 := v])"
  unfolding heap_from_def by simp

lemma heap_from_max: "heap_from 0 n xs \<Longrightarrow> i < n \<Longrightarrow> xs ! i \<le> xs ! 0"
proof (induction i rule: less_induct)
  case (less i)
  show ?case
  proof (cases "i = 0")
    case False
    then have "par i < i" "xs ! i \<le> xs ! par i" using less.prems par_less [of i] by (auto simp: heap_from_def)
    then show ?thesis using less.IH [of "par i"] less.prems by (meson order_trans less_trans)
  qed simp
qed

lemma heap_max: "is_heap xs \<Longrightarrow> xs \<noteq> [] \<Longrightarrow> xs ! 0 = Max_mset (mset xs)"
  using heap_from_max [of "length xs" xs] nth_mem [of 0 xs]
  by (intro Max_eqI [symmetric]) (auto simp: is_heap_def in_set_conv_nth)

lemma up_inv_last: "heap_from 0 n xs \<Longrightarrow> up_inv (Suc n) n xs"
proof -
  assume h: "heap_from 0 n xs"
  have "\<not> par i = n" if "i < Suc n" "0 < i" for i using that par_less [of i] by linarith
  then show ?thesis using h by (auto simp: up_inv_def heap_from_def less_Suc_eq)
qed

lemma heap_push_exact:
  assumes "is_heap xs"
  shows "\<exists>ys. heap_push xs x = Ret ys \<and> is_heap ys \<and> mset ys = add_mset x (mset xs)"
proof -
  have "heap_from 0 (length xs) (xs @ [x])"
    using assms unfolding is_heap_def by (rule heap_from_agree) (simp add: nth_append)
  from sift_up_exact [OF up_inv_last [OF this]] obtain q ys where
    "sift_up (xs @ [x]) 0 (length xs) = Ret (q, ys)" "rearranged (Suc (length xs)) (xs @ [x]) ys" "heap_from 0 (Suc (length xs)) ys"
    by auto
  moreover from this have "length ys = Suc (length xs)" by (auto dest: rearranged_length)
  ultimately show ?thesis by (simp add: heap_push_def is_heap_def rearranged_def)
qed

lemma replace_root: "heap_from (Suc 0) (length xs) xs \<Longrightarrow> xs \<noteq> [] \<Longrightarrow> bottom_inv (length xs) 0 (xs[0 := x])"
  unfolding bottom_inv_def heap_from_def by (simp add: Suc_le_eq)

lemma heap_pop_snoc:
  assumes "heap_from (Suc 0) (length (y # zs @ [x])) (y # zs @ [x])"
  shows "\<exists>ys. heap_pop (y # zs @ [x]) = Ret (Some y, ys) \<and> is_heap ys \<and> mset ys = add_mset x (mset zs)"
proof -
  have "heap_from (Suc 0) (length (y # zs)) (y # zs @ [x])" using assms by (rule heap_from_cut) simp
  then have "heap_from (Suc 0) (length (y # zs)) (y # zs)"
    by (rule heap_from_agree) (simp add: nth_append flip: append_Cons)
  from replace_root [OF this, of x] have "bottom_inv (length (x # zs)) 0 (x # zs)" by simp
  from sift_down_to_bottom_exact [OF this] show ?thesis by (auto simp: heap_pop_def)
qed

text \<open>Popping does not depend on the order at the root.\<close>

lemma heap_pop_root:
  assumes "heap_from (Suc 0) (length xs) xs" "xs \<noteq> []"
  shows "\<exists>ys. heap_pop xs = Ret (Some (xs ! 0), ys) \<and> is_heap ys \<and> mset ys = mset xs - {#xs ! 0#}"
proof -
  obtain y ws where y: "xs = y # ws" using assms(2) by (cases xs) auto
  show ?thesis
  proof (cases ws rule: rev_cases)
    case Nil
    then show ?thesis unfolding y by (simp add: heap_pop_def is_heap_def heap_from_def)
  next
    case (snoc zs x)
    then show ?thesis using heap_pop_snoc [of y zs x] assms(1) unfolding y by simp
  qed
qed

lemma heap_pop_exact:
  assumes "is_heap xs" "xs \<noteq> []"
  shows "\<exists>ys. heap_pop xs = Ret (Some (xs ! 0), ys) \<and> is_heap ys \<and> mset ys = mset xs - {#xs ! 0#}"
  using heap_pop_root [OF heap_from_weaken [of 0 "length xs" xs "Suc 0"] assms(2)] assms(1) by (simp add: is_heap_def)

lemma rebuild_loop_exact:
  "heap_from n (length xs) xs \<Longrightarrow> n \<le> length xs \<Longrightarrow> \<exists>ys. rebuild_loop xs n = Ret ys \<and> is_heap ys \<and> mset ys = mset xs"
proof (induction n arbitrary: xs)
  case (Suc n)
  have "n < length xs" using Suc.prems(2) by simp
  from sift_down_range_exact [OF this order_refl Suc.prems(1)] obtain ys where
    s: "sift_down_range xs n (length xs) = Ret ys" "rearranged (length xs) xs ys" "heap_from n (length xs) ys" by blast
  have l: "length ys = length xs" "mset ys = mset xs" using s(2) rearranged_length [OF s(2)] by (simp_all add: rearranged_def)
  obtain zs where "rebuild_loop ys n = Ret zs" "is_heap zs" "mset zs = mset ys"
    using Suc.IH [of ys] s(3) l(1) Suc.prems(2) by auto
  then show ?case using s(1) l(2) by (simp add: sift_down_def)
qed (simp add: is_heap_def)

lemma rebuild_exact: "\<exists>ys. rebuild xs = Ret ys \<and> is_heap ys \<and> mset ys = mset xs"
proof -
  have "heap_from (length xs div 2) (length xs) xs" by (auto simp: heap_from_def par_def)
  then show ?thesis unfolding rebuild_def by (intro rebuild_loop_exact) auto
qed

lemma sift_up_each_exact:
  "heap_from 0 i xs \<Longrightarrow> i \<le> length xs \<Longrightarrow> \<exists>ys. sift_up_each xs [i ..< length xs] = Ret ys \<and> is_heap ys \<and> mset ys = mset xs"
proof (induction "length xs - i" arbitrary: i xs)
  case (Suc n)
  then have i: "i < length xs" "[i ..< length xs] = i # [Suc i ..< length xs]" by (auto simp: upt_rec)
  from sift_up_exact [OF up_inv_last [OF Suc.prems(1)]] i(1) obtain q ys where
    s: "sift_up xs 0 i = Ret (q, ys)" "rearranged (Suc i) xs ys" "heap_from 0 (Suc i) ys" by auto
  have l: "length ys = length xs" "mset ys = mset xs" using s(2) rearranged_length [OF s(2)] by (auto simp: rearranged_def)
  have "n = length ys - Suc i" using Suc.hyps(2) l(1) by simp
  from Suc.hyps(1) [OF this s(3)] show ?case using s(1) l i by simp
qed (auto simp: is_heap_def)

lemma rebuild_tail_exact:
  assumes "heap_from 0 start xs" "start \<le> length xs"
  shows "\<exists>ys. rebuild_tail xs start = Ret ys \<and> is_heap ys \<and> mset ys = mset xs"
proof (cases "start = length xs")
  case False
  then show ?thesis using rebuild_exact [of xs] sift_up_each_exact [OF assms] by (simp add: rebuild_tail_def)
qed (use assms in \<open>simp add: rebuild_tail_def is_heap_def\<close>)

lemma rebuild_appended:
  assumes "is_heap xs"
  shows "\<exists>zs. rebuild_tail (xs @ ys) (length xs) = Ret zs \<and> is_heap zs \<and> mset zs = mset xs + mset ys"
proof -
  have "heap_from 0 (length xs) (xs @ ys)" using assms unfolding is_heap_def
    by (rule heap_from_agree) (simp add: nth_append)
  from rebuild_tail_exact [OF this] show ?thesis by simp
qed

lemma heap_extend_exact:
  assumes "is_heap xs"
  shows "\<exists>zs. heap_extend xs items = Ret (None \<in> set items, zs) \<and> is_heap zs \<and> mset zs = mset xs + mset (items_before_panic items)"
  using rebuild_appended [OF assms, of "items_before_panic items"] by (auto simp: heap_extend_def)

lemma items_before_panic_Some: "items_before_panic (map Some vs @ None # items) = vs" "items_before_panic (map Some vs) = vs"
  by (induction vs) auto

lemma heap_append_exact:
  assumes "is_heap xs" "is_heap ys"
  shows "\<exists>zs. heap_append xs ys = Ret (zs, []) \<and> is_heap zs \<and> mset zs = mset xs + mset ys"
proof -
  note t = rebuild_appended
  show ?thesis
  proof (cases "length xs < length ys")
    case True
    then show ?thesis using t [OF assms(2), of xs] by (auto simp: heap_append_def Let_def add.commute)
  next
    case False
    then show ?thesis using t [OF assms(1), of ys] by (auto simp: heap_append_def Let_def)
  qed
qed

lemma retain_from_exact:
  "i + length xs \<le> from \<Longrightarrow> retain_from f xs i from = (if filter f xs = xs then from else i + length (takeWhile f xs))"
proof (induction xs arbitrary: i "from")
  case (Cons x xs)
  have settled: "retain_from f ys j k = k" if "k \<le> j" for ys j k
    using that by (induction ys arbitrary: j) auto
  show ?case
  proof (cases "f x")
    case True
    then show ?thesis using Cons.IH [of "Suc i" "from"] Cons.prems by simp
  next
    case False
    have "filter f xs \<noteq> x # xs" by (metis filter_eq_Cons_iff length_filter_le length_Cons not_less_eq_eq order_refl)
    then show ?thesis using False settled [of i "Suc i" xs] Cons.prems by simp
  qed
qed simp

lemma filter_prefix: "filter f xs = takeWhile f xs @ filter f (dropWhile f xs)"
  by (induction xs) auto

lemma heap_retain_exact:
  assumes "is_heap xs"
  shows "\<exists>ys. heap_retain f xs = Ret ys \<and> is_heap ys \<and> mset ys = filter_mset f (mset xs)"
proof -
  define k where "k = retain_from f xs 0 (length xs)"
  have k: "k = (if filter f xs = xs then length xs else length (takeWhile f xs))"
    using retain_from_exact [of 0 xs "length xs" f] by (simp add: k_def)
  have "heap_from 0 k (filter f xs)"
  proof (cases "filter f xs = xs")
    case False
    have kl: "k \<le> length xs" using False k by (simp add: length_takeWhile_le)
    have "heap_from 0 k xs" using assms kl unfolding is_heap_def by (rule heap_from_cut)
    then show ?thesis
    proof (rule heap_from_agree)
      fix i assume "i < k"
      then have i: "i < length (takeWhile f xs)" using False k by simp
      show "filter f xs ! i = xs ! i" unfolding filter_prefix [of f xs] nth_append using i by (simp add: takeWhile_nth)
    qed
  qed (use assms k in \<open>simp add: is_heap_def\<close>)
  moreover have "k \<le> length (filter f xs)"
  proof (cases "filter f xs = xs")
    case False
    then show ?thesis using k arg_cong [OF filter_prefix [of f xs], of length] by simp
  qed (use k in simp)
  ultimately have "\<exists>ys. rebuild_tail (filter f xs) k = Ret ys \<and> is_heap ys \<and> mset ys = mset (filter f xs)"
    by (rule rebuild_tail_exact)
  then show ?thesis unfolding heap_retain_def k_def by simp
qed

section \<open>Sorting\<close>

definition sort_inv :: "nat \<Rightarrow> 'a::linorder list \<Rightarrow> bool" where
  "sort_inv n xs \<longleftrightarrow> n \<le> length xs \<and> heap_from 0 n xs \<and> sorted (drop n xs)
     \<and> (\<forall>a \<in># mset (take n xs). \<forall>b \<in> set (drop n xs). a \<le> b)"

lemma rearranged_take: "rearranged n xs ys \<Longrightarrow> mset (take n ys) = mset (take n xs)"
  unfolding rearranged_def by (metis add_right_cancel append_take_drop_id mset_append)

lemma sort_step:
  assumes "sort_inv (Suc n) xs" "0 < n"
  shows "\<exists>ys. sift_down_range (swp xs 0 n) 0 n = Ret ys \<and> sort_inv n ys \<and> mset ys = mset xs"
proof -
  note i = assms(1) [unfolded sort_inv_def]
  have n: "n < length xs" "0 < length xs" using i by auto
  have s: "swp xs 0 n ! k = (if k = n then xs ! 0 else if k = 0 then xs ! n else xs ! k)" for k
    using n by (intro nth_swp) auto
  have h: "heap_from 0 (Suc n) xs" "sorted (drop (Suc n) xs)" using i by blast+
  from h(1) have "heap_from 0 n xs" by (rule heap_from_cut) simp
  then have "heap_from (Suc 0) n (xs[0 := xs ! n])" by (rule heap_from_tail)
  then have t: "heap_from (Suc 0) n (swp xs 0 n)" by (rule heap_from_agree) (simp add: swp_def)
  have "n \<le> length (swp xs 0 n)" using n by simp
  from sift_down_range_exact [OF assms(2) this t] obtain ys where
    ys: "sift_down_range (swp xs 0 n) 0 n = Ret ys" "rearranged n (swp xs 0 n) ys" "heap_from 0 n ys" by blast
  have m: "mset ys = mset xs" "length ys = length xs"
    using ys(2) rearranged_length [OF ys(2)] mset_swp [of 0 xs n] n by (simp_all add: rearranged_def)
  have top: "a \<le> xs ! 0" if "a \<in> set (take (Suc n) xs)" for a
  proof -
    from that obtain k where "k < length (take (Suc n) xs)" "a = take (Suc n) xs ! k" by (metis in_set_conv_nth)
    then have "k < Suc n" "a = xs ! k" by auto
    then show ?thesis using heap_from_max [OF h(1)] by simp
  qed
  have "drop n (swp xs 0 n) = xs ! 0 # drop (Suc n) xs"
    using Cons_nth_drop_Suc [of n "swp xs 0 n", symmetric] n(1) s [of n] drop_swp [of 0 "Suc n" n xs]
    by (simp only: length_swp if_True zero_less_Suc lessI refl)
  then have d: "drop n ys = xs ! 0 # drop (Suc n) xs" using ys(2) by (simp add: rearranged_def)
  have x0: "xs ! 0 \<in> set (take (Suc n) xs)" using n by (cases xs) auto
  have sub: "a \<in> set (take (Suc n) xs)" if "a \<in> set (take n ys)" for a
  proof -
    have "a \<in> set (take n (swp xs 0 n))" using that rearranged_take [OF ys(2)] by (metis set_mset_mset)
    then obtain k where "k < n" "a = swp xs 0 n ! k" using n by (auto simp: in_set_conv_nth)
    then have "a = xs ! (if k = 0 then n else k)" using s [of k] by simp
    then show ?thesis using n \<open>k < n\<close> nth_mem [of "if k = 0 then n else k" "take (Suc n) xs"] by simp
  qed
  have le: "a \<le> b" if "a \<in> set (take (Suc n) xs)" "b \<in> set (drop (Suc n) xs)" for a b
    using i that unfolding set_mset_mset by blast
  have "sorted (drop n ys)" unfolding d using h(2) le [OF x0] by simp
  moreover have "\<forall>a \<in># mset (take n ys). \<forall>b \<in> set (drop n ys). a \<le> b"
    unfolding d using sub top le by simp
  ultimately have "sort_inv n ys" using ys(3) m n unfolding sort_inv_def by simp
  then show ?thesis using ys(1) m(1) by blast
qed

lemma sorted_loop_exact: "sort_inv n xs \<Longrightarrow> \<exists>ys. sorted_loop xs n = Ret ys \<and> sorted ys \<and> mset ys = mset xs"
proof (induction n arbitrary: xs)
  case 0
  then show ?case by (simp add: sorted_loop.simps sort_inv_def)
next
  case (Suc n)
  show ?case
  proof (cases "n = 0")
    case True
    obtain x ws where "xs = x # ws" using Suc.prems by (cases xs) (auto simp: sort_inv_def)
    then show ?thesis using True Suc.prems by (simp add: sorted_loop.simps sort_inv_def)
  next
    case False
    obtain ys where ys: "sift_down_range (swp xs 0 n) 0 n = Ret ys" "sort_inv n ys" "mset ys = mset xs"
      using sort_step [OF Suc.prems] False by auto
    moreover have "n < length xs" using Suc.prems by (simp add: sort_inv_def)
    ultimately show ?thesis using Suc.IH [OF ys(2)] False by (subst sorted_loop.simps) (auto simp: swp_def)
  qed
qed

lemma into_sorted_vec_exact: "is_heap xs \<Longrightarrow> into_sorted_vec xs = Ret (sort xs)"
proof -
  assume "is_heap xs"
  then have "sort_inv (length xs) xs" by (simp add: sort_inv_def is_heap_def)
  from sorted_loop_exact [OF this] obtain ys where "sorted_loop xs (length xs) = Ret ys" "sorted ys" "mset ys = mset xs" by blast
  then show ?thesis by (simp add: into_sorted_vec_def properties_for_sort)
qed

section \<open>The mutable peek\<close>

text \<open>The guard on the heap \<open>xs\<close> after the greatest element has been set to \<open>v\<close>, or not been
  touched.\<close>

definition peeking :: "'a::linorder list \<Rightarrow> 'a \<Rightarrow> 'a peek_mut \<Rightarrow> bool" where
  "peeking xs v p \<longleftrightarrow> xs \<noteq> [] \<and> is_heap xs \<and> pm_data p = xs[0 := v]
     \<and> (original_len p = Some (length xs) \<and> pm_len p = 1
        \<or> original_len p = None \<and> pm_len p = length xs \<and> (length xs = 1 \<or> v = xs ! 0))"

lemma heap_peek_mut_exact:
  "is_heap xs \<Longrightarrow> (case heap_peek_mut xs of None \<Rightarrow> xs = [] | Some p \<Rightarrow> peeking xs (xs ! 0) p)"
  by (simp add: heap_peek_mut_def peeking_def)

lemma peek_assign_exact: "peeking xs v p \<Longrightarrow> \<exists>p'. peek_assign p w = Ret p' \<and> peeking xs w p'"
  by (auto simp: peeking_def peek_assign_def deref_mut_def Let_def not_less le_Suc_eq)

lemma singleton_heap: "length xs \<le> 1 \<Longrightarrow> is_heap xs"
  by (auto simp: is_heap_def heap_from_def)

lemma peeking_vec: "peeking xs v p \<Longrightarrow> is_heap (pm_vec p)"
  by (auto simp: peeking_def pm_vec_def intro: singleton_heap)

lemma mset_replace: "xs \<noteq> [] \<Longrightarrow> mset (xs[0 := v]) = add_mset v (mset xs - {#xs ! 0#})"
  by (cases xs) auto

lemma peek_drop_exact:
  assumes "peeking xs v p"
  shows "\<exists>ys. peek_drop p = Ret ys \<and> is_heap ys \<and> mset ys = add_mset v (mset xs - {#xs ! 0#})"
proof (cases "original_len p")
  case None
  then have "pm_vec p = xs[0 := v]" using assms by (auto simp: peeking_def pm_vec_def)
  then show ?thesis using None assms peeking_vec [OF assms] mset_replace [of xs v] by (simp add: peek_drop_def peeking_def)
next
  case (Some n)
  then have p: "n = length xs" "pm_data p = xs[0 := v]" "xs \<noteq> []" "is_heap xs" using assms by (auto simp: peeking_def)
  have "heap_from (Suc 0) (length (xs[0 := v])) (xs[0 := v])"
    using p(4) heap_from_tail [of "length xs" xs v] by (simp add: is_heap_def)
  from sift_down_range_exact [OF _ order_refl this] p(3) obtain ys where
    ys: "sift_down_range (xs[0 := v]) 0 (length xs) = Ret ys" "rearranged (length xs) (xs[0 := v]) ys"
      "heap_from 0 (length xs) ys" by auto
  have "length ys = length xs" using rearranged_length [OF ys(2)] by simp
  then have "is_heap ys" "mset ys = add_mset v (mset xs - {#xs ! 0#})"
    using ys(2,3) mset_replace [OF p(3), of v] by (simp_all add: is_heap_def rearranged_def)
  moreover have "peek_drop p = Ret ys"
    using Some p ys(1) by (simp add: peek_drop_def set_len_def pm_vec_def sift_down_def)
  ultimately show ?thesis by blast
qed

lemma peek_pop_exact:
  assumes "peeking xs v p"
  shows "\<exists>ys. peek_pop p = Ret (v, ys) \<and> is_heap ys \<and> mset ys = mset xs - {#xs ! 0#}"
proof -
  have x: "xs \<noteq> []" "is_heap xs" "pm_data p = xs[0 := v]" using assms by (auto simp: peeking_def)
  have "heap_from (Suc 0) (length (xs[0 := v])) (xs[0 := v])"
    using x(2) heap_from_tail [of "length xs" xs v] by (simp add: is_heap_def)
  from heap_pop_root [OF this] obtain ys where
    ys: "heap_pop (xs[0 := v]) = Ret (Some v, ys)" "is_heap ys" "mset ys = mset (xs[0 := v]) - {#v#}" using x(1) by auto
  have "peek_pop p = and_then (heap_pop (xs[0 := v])) (\<lambda>(r, data). case r of Some x \<Rightarrow> Ret (x, data) | None \<Rightarrow> Panic)"
    using assms by (auto simp: peek_pop_def peeking_def set_len_def pm_vec_def)
  then show ?thesis using ys mset_replace [OF x(1), of v] by simp
qed

section \<open>A priority queue\<close>

text \<open>The contract of a priority queue over multisets. What a client learns from it is proved once.\<close>

fun push_all :: "('q \<Rightarrow> 'a \<Rightarrow> 'q outcome) \<Rightarrow> 'q \<Rightarrow> 'a list \<Rightarrow> 'q outcome" where
  "push_all push q [] = Ret q"
| "push_all push q (x # xs) = and_then (push q x) (\<lambda>q. push_all push q xs)"

text \<open>\<open>IntoIterSorted\<close> and \<open>DrainSorted\<close> call \<open>pop\<close> until it returns
  \<open>None\<close>; the first argument bounds the calls.\<close>

fun drain_sorted :: "nat \<Rightarrow> ('q \<Rightarrow> ('a option \<times> 'q) outcome) \<Rightarrow> 'q \<Rightarrow> 'a list outcome" where
  "drain_sorted 0 pop q = Panic"
| "drain_sorted (Suc n) pop q =
     and_then (pop q) (\<lambda>(r, q). case r of
       None \<Rightarrow> Ret []
     | Some x \<Rightarrow> and_then (drain_sorted n pop q) (\<lambda>xs. Ret (x # xs)))"

text \<open>Dropping a \<open>DrainSorted\<close> pops and drops what is left. When a destructor panics (\<open>dp\<close>),
  the guard goes on with the same loop while the panic unwinds; a second panic ends the process.\<close>

fun drain_sorted_drop :: "nat \<Rightarrow> ('q \<Rightarrow> ('a option \<times> 'q) outcome) \<Rightarrow> ('a \<Rightarrow> bool) \<Rightarrow> bool \<Rightarrow> 'q \<Rightarrow> (bool \<times> 'a list \<times> 'q) outcome" where
  "drain_sorted_drop 0 pop dp unwinding q = Panic"
| "drain_sorted_drop (Suc n) pop dp unwinding q =
     and_then (pop q) (\<lambda>(r, q). case r of
       None \<Rightarrow> Ret (unwinding, [], q)
     | Some x \<Rightarrow> if dp x \<and> unwinding then Panic
         else and_then (drain_sorted_drop n pop dp (unwinding \<or> dp x) q) (\<lambda>(u, d, q). Ret (u, x # d, q)))"

locale priority_queue =
  fixes push :: "'q \<Rightarrow> 'a::linorder \<Rightarrow> 'q outcome"
    and pop :: "'q \<Rightarrow> ('a option \<times> 'q) outcome"
    and holds :: "'q \<Rightarrow> 'a multiset \<Rightarrow> bool"
  assumes push_holds: "holds q M \<Longrightarrow> \<exists>q'. push q x = Ret q' \<and> holds q' (add_mset x M)"
    and pop_empty: "holds q {#} \<Longrightarrow> \<exists>q'. pop q = Ret (None, q') \<and> holds q' {#}"
    and pop_max: "holds q M \<Longrightarrow> M \<noteq> {#} \<Longrightarrow>
      \<exists>q'. pop q = Ret (Some (Max_mset M), q') \<and> holds q' (M - {#Max_mset M#})"
begin

lemma push_all_holds: "holds q M \<Longrightarrow> \<exists>q'. push_all push q xs = Ret q' \<and> holds q' (M + mset xs)"
proof (induction xs arbitrary: q M)
  case (Cons x xs)
  then obtain q' where "push q x = Ret q'" "holds q' (add_mset x M)" using push_holds by blast
  then show ?case using Cons.IH [of q' "add_mset x M"] by simp
qed simp

lemma pop_greatest:
  assumes "holds q M" "M \<noteq> {#}"
  obtains m q' where "pop q = Ret (Some m, q')" "holds q' (M - {#m#})" "m \<in># M" "Suc (size (M - {#m#})) = size M"
    "sorted_list_of_multiset M = sorted_list_of_multiset (M - {#m#}) @ [m]"
proof -
  let ?m = "Max_mset M"
  have m: "?m \<in># M" using assms(2) by simp
  obtain q' where q: "pop q = Ret (Some ?m, q')" "holds q' (M - {#?m#})" using pop_max [OF assms] by blast
  have "sorted (sorted_list_of_multiset (M - {#?m#}) @ [?m])"
    using m by (auto simp: sorted_append dest: in_diffD)
  then have "sort (sorted_list_of_multiset M) = sorted_list_of_multiset (M - {#?m#}) @ [?m]"
    using m by (intro properties_for_sort) auto
  then have "sorted_list_of_multiset M = sorted_list_of_multiset (M - {#?m#}) @ [?m]"
    by (simp add: sorted_sort_id)
  moreover have "Suc (size (M - {#?m#})) = size M" by (metis m insert_DiffM size_add_mset)
  ultimately show ?thesis using that q m by blast
qed

lemma drain_sorted_exact:
  "holds q M \<Longrightarrow> size M < n \<Longrightarrow> drain_sorted n pop q = Ret (rev (sorted_list_of_multiset M))"
proof (induction n arbitrary: q M)
  case (Suc n)
  show ?case
  proof (cases "M = {#}")
    case True
    then show ?thesis using Suc.prems pop_empty by fastforce
  next
    case False
    then obtain m q' where m: "pop q = Ret (Some m, q')" "holds q' (M - {#m#})" "Suc (size (M - {#m#})) = size M"
      "sorted_list_of_multiset M = sorted_list_of_multiset (M - {#m#}) @ [m]" using pop_greatest [OF Suc.prems(1)] by metis
    then show ?thesis using Suc.IH [OF m(2)] Suc.prems(2) by simp
  qed
qed simp

lemma drain_sorted_drop_exact:
  "holds q M \<Longrightarrow> size M < n \<Longrightarrow>
     if size (filter_mset dp M) + of_bool u \<le> 1
     then \<exists>q'. drain_sorted_drop n pop dp u q = Ret (u \<or> (\<exists>x \<in># M. dp x), rev (sorted_list_of_multiset M), q') \<and> holds q' {#}
     else drain_sorted_drop n pop dp u q = Panic"
proof (induction n arbitrary: q M u)
  case (Suc n)
  show ?case
  proof (cases "M = {#}")
    case True
    then show ?thesis using Suc.prems pop_empty by fastforce
  next
    case False
    then obtain m q' where m: "pop q = Ret (Some m, q')" "holds q' (M - {#m#})" "m \<in># M" "Suc (size (M - {#m#})) = size M"
      "sorted_list_of_multiset M = sorted_list_of_multiset (M - {#m#}) @ [m]" using pop_greatest [OF Suc.prems(1)] by metis
    obtain N where N: "M = add_mset m N" using m(3) by (metis insert_DiffM)
    have n: "size N < n" "holds q' N" using Suc.prems(2) m(2) by (simp_all add: N)
    have l: "rev (sorted_list_of_multiset M) = m # rev (sorted_list_of_multiset N)" using m(5) N by simp
    show ?thesis
    proof (cases "dp m \<and> u")
      case True
      then show ?thesis using m(1) by (simp add: N)
    next
      case False
      have c: "size (filter_mset dp M) + of_bool u = size (filter_mset dp N) + of_bool (u \<or> dp m)" using False by (auto simp: N)
      have r: "drain_sorted_drop (Suc n) pop dp u q
          = and_then (drain_sorted_drop n pop dp (u \<or> dp m) q') (\<lambda>(u, d, q). Ret (u, m # d, q))"
        using False m(1) by auto
      show ?thesis using Suc.IH [OF n(2,1), of "u \<or> dp m"] unfolding c r l by (auto simp: N split: if_splits)
    qed
  qed
qed simp

text \<open>Pushing a list and draining the queue sorts it, greatest first.\<close>

lemma push_drain:
  assumes "holds q {#}"
  shows "and_then (push_all push q xs) (drain_sorted (Suc (length xs)) pop) = Ret (rev (sort xs))"
proof -
  obtain q' where q: "push_all push q xs = Ret q'" "holds q' (mset xs)" using push_all_holds [OF assms, of xs] by auto
  have "sorted_list_of_multiset (mset xs) = sort xs" by simp
  then show ?thesis using q drain_sorted_exact [OF q(2), of "Suc (length xs)"] by simp
qed

end

interpretation bheap: priority_queue heap_push heap_pop "\<lambda>xs M. is_heap xs \<and> mset xs = M"
proof unfold_locales
  show "\<exists>q'. heap_push q x = Ret q' \<and> is_heap q' \<and> mset q' = add_mset x M" if "is_heap q \<and> mset q = M" for q :: "'a list" and M x
    using heap_push_exact [of q x] that by auto
  show "\<exists>q'. heap_pop q = Ret (None, q') \<and> is_heap q' \<and> mset q' = {#}" if "is_heap q \<and> mset q = {#}" for q :: "'a list"
    using that by (auto simp: heap_pop_def)
  show "\<exists>q'. heap_pop q = Ret (Some (Max_mset M), q') \<and> is_heap q' \<and> mset q' = M - {#Max_mset M#}"
    if "is_heap q \<and> mset q = M" "M \<noteq> {#}" for q :: "'a list" and M
    using heap_pop_exact [of q] heap_max [of q] that by auto
qed

section \<open>Properties\<close>

lemma demo_heap: "is_heap [9, 5, 8, 1, (3 :: nat)]"
  by code_simp

text \<open>C17: the operations of a \<open>BinaryHeap\<close> that add, remove or show elements keep the heap order and
  change the multiset of elements as announced: a push and \<open>extend_one\<close> add, a pop removes the greatest element,
  \<open>peek\<close> shows it, a vector becomes a heap of its elements, \<open>append\<close> unites, \<open>extend\<close>
  adds the items, those before the panic if the iterator panics, \<open>retain\<close> filters, \<open>drain\<close> hands out
  all elements and it and \<open>clear\<close> leave an empty heap. None of them reads or moves outside its slice, and the
  choice between the two strategies of \<open>rebuild_tail\<close> does not show in the result. The two ways to sort with a
  heap agree with the library's sort: \<open>into_sorted_vec\<close> returns the elements in increasing order, and the sorted
  iterators, which pop until the heap is empty, in decreasing order; pushing a list element by element and draining sorts it.
  Dropping a sorted draining iterator drops every element in that order and empties the heap, also when one destructor panics;
  a second panic ends the process.\<close>

theorem binary_heap_refines_multiset:
  assumes "is_heap xs" "is_heap ys"
  shows "(\<exists>zs. heap_push xs x = Ret zs \<and> is_heap zs \<and> mset zs = add_mset x (mset xs))
    \<and> (\<exists>zs. heap_extend_one xs x = Ret zs \<and> is_heap zs \<and> mset zs = add_mset x (mset xs))
    \<and> (if xs = [] then heap_pop xs = Ret (None, []) \<and> heap_peek xs = None
       else heap_peek xs = Some (Max_mset (mset xs))
         \<and> (\<exists>zs. heap_pop xs = Ret (Some (Max_mset (mset xs)), zs) \<and> is_heap zs \<and> mset zs = mset xs - {#Max_mset (mset xs)#}))
    \<and> (\<exists>zs. heap_from_vec vs = Ret zs \<and> is_heap zs \<and> mset zs = mset vs)
    \<and> (\<exists>zs. heap_append xs ys = Ret (zs, []) \<and> is_heap zs \<and> mset zs = mset xs + mset ys)
    \<and> (\<exists>zs. heap_extend xs (map Some vs) = Ret (False, zs) \<and> is_heap zs \<and> mset zs = mset xs + mset vs)
    \<and> (\<exists>zs. heap_extend xs (map Some vs @ None # items) = Ret (True, zs) \<and> is_heap zs \<and> mset zs = mset xs + mset vs)
    \<and> (\<exists>zs. heap_retain f xs = Ret zs \<and> is_heap zs \<and> mset zs = filter_mset f (mset xs))
    \<and> mset (fst (heap_drain xs)) = mset xs \<and> snd (heap_drain xs) = [] \<and> heap_clear xs = []
    \<and> into_sorted_vec xs = Ret (sort xs)
    \<and> drain_sorted (Suc (length xs)) heap_pop xs = Ret (rev (sort xs))
    \<and> drain_sorted_drop (Suc (length xs)) heap_pop dp False xs
        = (if length (filter dp xs) \<le> 1 then Ret (\<exists>x \<in> set xs. dp x, rev (sort xs), []) else Panic)
    \<and> and_then (push_all heap_push [] vs) (drain_sorted (Suc (length vs)) heap_pop) = Ret (rev (sort vs))"
proof (intro conjI)
  show "if xs = [] then heap_pop xs = Ret (None, []) \<and> heap_peek xs = None
       else heap_peek xs = Some (Max_mset (mset xs))
         \<and> (\<exists>zs. heap_pop xs = Ret (Some (Max_mset (mset xs)), zs) \<and> is_heap zs \<and> mset zs = mset xs - {#Max_mset (mset xs)#})"
    using heap_pop_exact [OF assms(1)] heap_max [OF assms(1)] by (simp add: heap_pop_def heap_peek_def)
  have s: "sorted_list_of_multiset (mset xs) = sort xs" by simp
  then show "drain_sorted (Suc (length xs)) heap_pop xs = Ret (rev (sort xs))"
    using bheap.drain_sorted_exact [of xs "mset xs" "Suc (length xs)"] assms(1) by simp
  have c: "size (filter_mset dp (mset xs)) = length (filter dp xs)" by (metis mset_filter size_mset)
  show "drain_sorted_drop (Suc (length xs)) heap_pop dp False xs
      = (if length (filter dp xs) \<le> 1 then Ret (\<exists>x \<in> set xs. dp x, rev (sort xs), []) else Panic)"
    using bheap.drain_sorted_drop_exact [of xs "mset xs" "Suc (length xs)" dp False] assms(1) unfolding c s by (auto split: if_splits)
  show "and_then (push_all heap_push [] vs) (drain_sorted (Suc (length vs)) heap_pop) = Ret (rev (sort vs))"
    by (rule bheap.push_drain) (simp add: is_heap_def heap_from_def)
  show "\<exists>zs. heap_extend_one xs x = Ret zs \<and> is_heap zs \<and> mset zs = add_mset x (mset xs)"
    unfolding heap_extend_one_def by (rule heap_push_exact [OF assms(1)])
  show "\<exists>zs. heap_extend xs (map Some vs) = Ret (False, zs) \<and> is_heap zs \<and> mset zs = mset xs + mset vs"
    "\<exists>zs. heap_extend xs (map Some vs @ None # items) = Ret (True, zs) \<and> is_heap zs \<and> mset zs = mset xs + mset vs"
    using heap_extend_exact [OF assms(1), of "map Some vs"] heap_extend_exact [OF assms(1), of "map Some vs @ None # items"]
    by (auto simp: items_before_panic_Some)
qed (simp_all add: heap_drain_def heap_clear_def heap_push_exact [OF assms(1)] rebuild_exact [folded heap_from_vec_def] heap_append_exact [OF assms]
    heap_retain_exact [OF assms(1)] into_sorted_vec_exact [OF assms(1)])

theorem binary_heap_refines_multiset_witness:
  "\<exists>zs. heap_append [9, 5, 8, 1, 3] [9, 5, 8, 1, (3 :: nat)] = Ret (zs, []) \<and> is_heap zs
     \<and> mset zs = {#9, 5, 8, 1, 3, 9, 5, 8, 1, 3#}"
proof -
  have "\<exists>zs. heap_append [9, 5, 8, 1, 3] [9, 5, 8, 1, (3 :: nat)] = Ret (zs, []) \<and> is_heap zs
     \<and> mset zs = mset [9, 5, 8, 1, 3] + mset [9, 5, 8, 1, 3]"
    using binary_heap_refines_multiset [OF demo_heap demo_heap, of 0 "[]" "[]" "\<lambda>_. True" "\<lambda>_. True"] by blast
  then show ?thesis by simp
qed

text \<open>C18: the mutable peek. While a guard is alive, however often its element is assigned, the visible vector
  is a heap, so leaking the guard is harmless; dropping it restores the length and the order with the last
  assigned value in place of the old maximum, and \<open>PeekMut::pop\<close> returns that value and leaves the rest.\<close>

theorem peek_mut_safe:
  assumes "peeking xs v p"
  shows "is_heap (pm_vec p)
    \<and> (\<exists>p'. peek_assign p w = Ret p' \<and> peeking xs w p')
    \<and> (\<exists>ys. peek_drop p = Ret ys \<and> is_heap ys \<and> mset ys = add_mset v (mset xs - {#xs ! 0#}))
    \<and> (\<exists>ys. peek_pop p = Ret (v, ys) \<and> is_heap ys \<and> mset ys = mset xs - {#xs ! 0#})
    \<and> (case heap_peek_mut xs of None \<Rightarrow> False | Some q \<Rightarrow> peeking xs (xs ! 0) q)"
proof -
  have "case heap_peek_mut xs of None \<Rightarrow> False | Some q \<Rightarrow> peeking xs (xs ! 0) q"
    using heap_peek_mut_exact [of xs] assms by (auto simp: peeking_def split: option.splits)
  then show ?thesis
    using peeking_vec [OF assms] peek_assign_exact [OF assms] peek_drop_exact [OF assms] peek_pop_exact [OF assms] by blast
qed

theorem peek_mut_safe_witness:
  "\<exists>ys. peek_drop \<lparr>pm_data = [2, 5, 8, 1, (3 :: nat)], pm_len = 1, original_len = Some 5\<rparr> = Ret ys \<and> is_heap ys
     \<and> mset ys = {#2, 5, 8, 1, 3#}"
proof -
  have "peeking [9, 5, 8, 1, 3] 2 \<lparr>pm_data = [2, 5, 8, 1, (3 :: nat)], pm_len = 1, original_len = Some 5\<rparr>"
    using demo_heap by (simp add: peeking_def)
  from peek_mut_safe [OF this] show ?thesis by (simp add: ac_simps)
qed

end
