(* ===== verification/Thread_System.thy ===== *)
theory Thread_System
  imports Rust_Prelude
begin

text \<open>
  Threads that share atomic variables. A system is a step relation; one step is one atomic access of one thread.
  \<open>compare_exchange\<close>, \<open>swap\<close> and the fetch operations act on the current value of a variable:
  accesses to a single atomic variable have one total order whatever their memory ordering, which is all the lock words below
  rely on. \<open>futex_wait\<close> compares and goes to sleep atomically, \<open>futex_wake\<close> wakes a sleeping thread
  when there is one, and a sleeper may wake up without a reason.
\<close>

section \<open>Reachable states\<close>

inductive reachable :: "('s \<Rightarrow> 's \<Rightarrow> bool) \<Rightarrow> 's \<Rightarrow> 's \<Rightarrow> bool" for step s0 where
  reachable_start: "reachable step s0 s0"
| reachable_step: "reachable step s0 s \<Longrightarrow> step s s' \<Longrightarrow> reachable step s0 s'"

lemma reachable_trans: "reachable step b c \<Longrightarrow> reachable step a b \<Longrightarrow> reachable step a c"
  by (induction rule: reachable.induct) (auto intro: reachable_step)

lemma reachable_single: "step a b \<Longrightarrow> reachable step a b"
  by (rule reachable_step [OF reachable_start])

locale invariant_system =
  fixes step :: "'s \<Rightarrow> 's \<Rightarrow> bool" and s0 :: 's and inv :: "'s \<Rightarrow> bool"
  assumes inv_start: "inv s0"
    and inv_step: "inv s \<Longrightarrow> step s s' \<Longrightarrow> inv s'"
begin

lemma inv_reachable: "reachable step s0 s \<Longrightarrow> inv s"
  by (induction rule: reachable.induct) (auto intro: inv_start inv_step)

end

section \<open>Atomic accesses\<close>

text \<open>The result (\<open>Inr\<close> for \<open>Ok\<close>) with the value seen, and the value afterwards.\<close>

definition compare_exchange :: "'v \<Rightarrow> 'v \<Rightarrow> 'v \<Rightarrow> ('v + 'v) \<times> 'v" where
  "compare_exchange v current new = (if v = current then (Inr v, new) else (Inl v, v))"

lemma compare_exchange_simps [simp]:
  "compare_exchange v v new = (Inr v, new)" "v \<noteq> c \<Longrightarrow> compare_exchange v c new = (Inl v, v)"
  by (simp_all add: compare_exchange_def)

end
