(* ===== verification/Futex_Mutex.thy ===== *)
theory Futex_Mutex
  imports Thread_System
begin

text \<open>
  The mutex of \<open>library/std/src/sys/sync/mutex/futex.rs\<close>: any number of threads take and release it through
  one futex word. Each constructor of \<open>mutex_pc\<close> is a place before the next atomic access of a thread.
\<close>

definition UNLOCKED :: u32 where "UNLOCKED = 0"
definition LOCKED :: u32 where "LOCKED = 1"
definition CONTENDED :: u32 where "CONTENDED = 2"

datatype mutex_pc =
    Idle
  | Spin bool nat
  | Retry
  | Contended_Loop u32
  | Wait
  | Asleep
  | Holding
  | Waking

record mutex_state =
  m_futex :: u32
  m_pc :: "nat \<Rightarrow> mutex_pc"

definition mutex_new :: mutex_state where
  "mutex_new = \<lparr>m_futex = UNLOCKED, m_pc = \<lambda>_. Idle\<rparr>"

section \<open>Operations\<close>

definition mutex_try_lock :: "u32 \<Rightarrow> u32 \<times> mutex_pc" where
  "mutex_try_lock v = (case compare_exchange v UNLOCKED LOCKED of
     (Inr _, v') \<Rightarrow> (v', Holding) | (Inl _, v') \<Rightarrow> (v', Idle))"

definition mutex_lock :: "u32 \<Rightarrow> u32 \<times> mutex_pc" where
  "mutex_lock v = (case compare_exchange v UNLOCKED LOCKED of
     (Inr _, v') \<Rightarrow> (v', Holding) | (Inl _, v') \<Rightarrow> (v', Spin True 100))"

text \<open>Where \<open>lock_contended\<close> goes on after its first spin (\<open>True\<close>) and after those in the
  loop.\<close>

definition after_spin :: "bool \<Rightarrow> u32 \<Rightarrow> mutex_pc" where
  "after_spin first state = (if first \<and> state = UNLOCKED then Retry else Contended_Loop state)"

definition mutex_spin :: "bool \<Rightarrow> nat \<Rightarrow> u32 \<Rightarrow> mutex_pc" where
  "mutex_spin first n state =
     (if state \<noteq> LOCKED \<or> n = 0 then after_spin first state else Spin first (n - 1))"

fun lock_contended :: "mutex_pc \<Rightarrow> u32 \<Rightarrow> (u32 \<times> mutex_pc) option" where
  "lock_contended (Spin first n) v = Some (v, mutex_spin first n v)"
| "lock_contended Retry v = (case compare_exchange v UNLOCKED LOCKED of
     (Inr _, v') \<Rightarrow> Some (v', Holding) | (Inl state, v') \<Rightarrow> Some (v', Contended_Loop state))"
| "lock_contended (Contended_Loop state) v =
     (if state \<noteq> CONTENDED then (if v = UNLOCKED then Some (CONTENDED, Holding) else Some (CONTENDED, Wait))
      else Some (v, Wait))"
| "lock_contended Wait v = (if v = CONTENDED then Some (v, Asleep) else Some (v, Spin False 100))"
| "lock_contended _ v = None"

definition mutex_unlock :: "u32 \<Rightarrow> u32 \<times> mutex_pc" where
  "mutex_unlock v = (UNLOCKED, if v = CONTENDED then Waking else Idle)"

inductive mutex_step :: "mutex_state \<Rightarrow> mutex_state \<Rightarrow> bool" where
  try_lock: "m_pc s t = Idle \<Longrightarrow> mutex_try_lock (m_futex s) = (v, p) \<Longrightarrow>
    mutex_step s (s\<lparr>m_futex := v, m_pc := (m_pc s)(t := p)\<rparr>)"
| lock: "m_pc s t = Idle \<Longrightarrow> mutex_lock (m_futex s) = (v, p) \<Longrightarrow>
    mutex_step s (s\<lparr>m_futex := v, m_pc := (m_pc s)(t := p)\<rparr>)"
| contended: "lock_contended (m_pc s t) (m_futex s) = Some (v, p) \<Longrightarrow>
    mutex_step s (s\<lparr>m_futex := v, m_pc := (m_pc s)(t := p)\<rparr>)"
| unlock: "m_pc s t = Holding \<Longrightarrow> mutex_unlock (m_futex s) = (v, p) \<Longrightarrow>
    mutex_step s (s\<lparr>m_futex := v, m_pc := (m_pc s)(t := p)\<rparr>)"
| wake: "m_pc s t = Waking \<Longrightarrow> m_pc s u = Asleep \<Longrightarrow>
    mutex_step s (s\<lparr>m_pc := (m_pc s)(t := Idle, u := Spin False 100)\<rparr>)"
| wake_nobody: "m_pc s t = Waking \<Longrightarrow> \<forall>u. m_pc s u \<noteq> Asleep \<Longrightarrow>
    mutex_step s (s\<lparr>m_pc := (m_pc s)(t := Idle)\<rparr>)"
| spurious: "m_pc s t = Asleep \<Longrightarrow> mutex_step s (s\<lparr>m_pc := (m_pc s)(t := Spin False 100)\<rparr>)"

section \<open>Mutual exclusion\<close>

definition mutex_exclusive :: "mutex_state \<Rightarrow> bool" where
  "mutex_exclusive s \<longleftrightarrow> m_futex s \<in> {UNLOCKED, LOCKED, CONTENDED}
     \<and> (m_futex s = UNLOCKED \<longrightarrow> (\<forall>t. m_pc s t \<noteq> Holding))
     \<and> (m_futex s \<noteq> UNLOCKED \<longrightarrow> (\<exists>t. \<forall>u. m_pc s u = Holding \<longleftrightarrow> u = t))"

text \<open>A thread on its way through the loop of \<open>lock_contended\<close>.\<close>

fun in_loop :: "mutex_pc \<Rightarrow> bool" where
  "in_loop (Spin first n) = (\<not> first)"
| "in_loop (Contended_Loop state) = True"
| "in_loop Wait = True"
| "in_loop _ = False"

definition mutex_wakes :: "mutex_state \<Rightarrow> bool" where
  "mutex_wakes s \<longleftrightarrow> (\<exists>t. m_pc s t = Asleep) \<longrightarrow>
     m_futex s = CONTENDED \<or> (\<exists>u. m_pc s u = Waking \<or> in_loop (m_pc s u))"

lemmas futex_words = UNLOCKED_def LOCKED_def CONTENDED_def

lemma words_distinct [simp]: "UNLOCKED \<noteq> LOCKED" "LOCKED \<noteq> UNLOCKED" "UNLOCKED \<noteq> CONTENDED" "CONTENDED \<noteq> UNLOCKED"
  "LOCKED \<noteq> CONTENDED" "CONTENDED \<noteq> LOCKED"
  by (simp_all add: futex_words)

lemma exclusive_update:
  assumes "mutex_exclusive s"
  shows "m_pc s t \<noteq> Holding \<Longrightarrow> p \<noteq> Holding \<Longrightarrow> v = m_futex s \<or> v \<noteq> UNLOCKED \<and> m_futex s \<noteq> UNLOCKED \<Longrightarrow>
      v \<in> {UNLOCKED, LOCKED, CONTENDED} \<Longrightarrow> mutex_exclusive (s\<lparr>m_futex := v, m_pc := (m_pc s)(t := p)\<rparr>)"
    "m_futex s = UNLOCKED \<Longrightarrow> v \<in> {LOCKED, CONTENDED} \<Longrightarrow> mutex_exclusive (s\<lparr>m_futex := v, m_pc := (m_pc s)(t := Holding)\<rparr>)"
    "m_pc s t = Holding \<Longrightarrow> p \<noteq> Holding \<Longrightarrow> mutex_exclusive (s\<lparr>m_futex := UNLOCKED, m_pc := (m_pc s)(t := p)\<rparr>)"
proof -
  note e = assms [unfolded mutex_exclusive_def]
  show "mutex_exclusive (s\<lparr>m_futex := v, m_pc := (m_pc s)(t := p)\<rparr>)"
    if "m_pc s t \<noteq> Holding" "p \<noteq> Holding" "v = m_futex s \<or> v \<noteq> UNLOCKED \<and> m_futex s \<noteq> UNLOCKED" "v \<in> {UNLOCKED, LOCKED, CONTENDED}"
  proof -
    have "((m_pc s)(t := p)) u = Holding \<longleftrightarrow> m_pc s u = Holding" for u using that(1,2) by simp
    then show ?thesis using e that(3,4) unfolding mutex_exclusive_def by auto
  qed
  show "mutex_exclusive (s\<lparr>m_futex := v, m_pc := (m_pc s)(t := Holding)\<rparr>)" if "m_futex s = UNLOCKED" "v \<in> {LOCKED, CONTENDED}"
  proof -
    have "((m_pc s)(t := Holding)) u = Holding \<longleftrightarrow> u = t" for u using e that(1) by simp
    then show ?thesis using that(2) unfolding mutex_exclusive_def by auto
  qed
  show "mutex_exclusive (s\<lparr>m_futex := UNLOCKED, m_pc := (m_pc s)(t := p)\<rparr>)" if "m_pc s t = Holding" "p \<noteq> Holding"
  proof -
    have "((m_pc s)(t := p)) u \<noteq> Holding" for u using e that by (cases "u = t") auto
    then show ?thesis unfolding mutex_exclusive_def by simp
  qed
qed

lemma lock_contended_cases:
  assumes "lock_contended q v = Some (w, p)"
  obtains (same) "w = v" "p \<noteq> Holding" "q \<noteq> Holding" "q \<noteq> Idle" "q \<noteq> Asleep" "q \<noteq> Waking"
      "in_loop q \<longrightarrow> in_loop p \<or> v = CONTENDED" "p = Asleep \<longrightarrow> v = CONTENDED"
    | (acquire) "v = UNLOCKED" "w = LOCKED" "p = Holding" "q = Retry"
    | (mark) "w = CONTENDED" "p = Wait" "v \<noteq> UNLOCKED" "q \<noteq> Holding" "q \<noteq> Asleep"
    | (grab) "v = UNLOCKED" "w = CONTENDED" "p = Holding" "q \<noteq> Holding" "q \<noteq> Asleep"
  using assms
  by (cases "(q, v)" rule: lock_contended.cases)
    (auto simp: compare_exchange_def mutex_spin_def after_spin_def split: if_splits)

lemma exclusive_pc:
  "mutex_exclusive s \<Longrightarrow> m_pc s t \<noteq> Holding \<Longrightarrow> p \<noteq> Holding \<Longrightarrow> mutex_exclusive (s\<lparr>m_pc := (m_pc s)(t := p)\<rparr>)"
  using exclusive_update(1) [of s t p "m_futex s"] by (simp add: mutex_exclusive_def [of s])

lemma exclusive_try:
  assumes "mutex_exclusive s" "m_pc s t \<noteq> Holding" "p \<noteq> Holding"
    and "(case compare_exchange (m_futex s) UNLOCKED LOCKED of (Inr _, v') \<Rightarrow> (v', Holding) | (Inl _, v') \<Rightarrow> (v', p)) = (v, q)"
  shows "mutex_exclusive (s\<lparr>m_futex := v, m_pc := (m_pc s)(t := q)\<rparr>)"
proof (cases "m_futex s = UNLOCKED")
  case True
  then show ?thesis using assms(4) exclusive_update(2) [OF assms(1), of LOCKED t] by auto
next
  case False
  then show ?thesis using assms exclusive_pc [OF assms(1-3)] by auto
qed

lemma exclusive_step:
  assumes "mutex_exclusive s" "mutex_step s s'"
  shows "mutex_exclusive s'"
  using assms(2)
proof cases
  case (contended t v p)
  have w: "m_futex s \<in> {UNLOCKED, LOCKED, CONTENDED}" using assms(1) by (simp add: mutex_exclusive_def)
  from contended(2) show ?thesis
  proof (cases rule: lock_contended_cases)
    case same
    then show ?thesis unfolding contended(1) using w by (intro exclusive_update(1) [OF assms(1)]) auto
  next
    case acquire
    then show ?thesis unfolding contended(1) using exclusive_update(2) [OF assms(1), of LOCKED t] by simp
  next
    case mark
    then show ?thesis unfolding contended(1) by (intro exclusive_update(1) [OF assms(1)]) auto
  next
    case grab
    then show ?thesis unfolding contended(1) using exclusive_update(2) [OF assms(1), of CONTENDED t] by simp
  qed
next
  case (unlock t v p)
  then show ?thesis using exclusive_update(3) [OF assms(1), of t p] by (auto simp: mutex_unlock_def split: if_splits)
next
  case (wake t u)
  have "mutex_exclusive (s\<lparr>m_pc := (m_pc s)(t := Idle)\<rparr>)" using wake by (intro exclusive_pc [OF assms(1)]) auto
  from exclusive_pc [OF this, of u "Spin False 100"] show ?thesis using wake by auto
next
  case (try_lock t v p)
  then show ?thesis using exclusive_try [OF assms(1), of t Idle v p] by (simp add: mutex_try_lock_def)
next
  case (lock t v p)
  then show ?thesis using exclusive_try [OF assms(1), of t "Spin True 100" v p] by (simp add: mutex_lock_def)
qed (use exclusive_pc [OF assms(1)] in auto)

lemma mutex_wakesI:
  "(\<And>r. f r = Asleep \<Longrightarrow> v = CONTENDED \<or> (\<exists>u. f u = Waking \<or> in_loop (f u))) \<Longrightarrow> mutex_wakes (s\<lparr>m_futex := v, m_pc := f\<rparr>)"
  by (auto simp: mutex_wakes_def)

lemma wakes_keep:
  assumes "mutex_wakes s" "m_futex s = CONTENDED \<Longrightarrow> v = CONTENDED" "p \<noteq> Asleep" "m_pc s t \<noteq> Waking"
    "in_loop (m_pc s t) \<Longrightarrow> in_loop p"
  shows "mutex_wakes (s\<lparr>m_futex := v, m_pc := (m_pc s)(t := p)\<rparr>)"
proof (rule mutex_wakesI)
  fix r assume "((m_pc s)(t := p)) r = Asleep"
  then have "m_pc s r = Asleep" using assms(3) by (cases "r = t") simp_all
  then consider "m_futex s = CONTENDED" | u where "m_pc s u = Waking \<or> in_loop (m_pc s u)"
    using assms(1) unfolding mutex_wakes_def by blast
  then show "v = CONTENDED \<or> (\<exists>u. ((m_pc s)(t := p)) u = Waking \<or> in_loop (((m_pc s)(t := p)) u))"
  proof cases
    case (2 u)
    then have "((m_pc s)(t := p)) u = Waking \<or> in_loop (((m_pc s)(t := p)) u)" using assms(4,5) by (cases "u = t") auto
    then show ?thesis by blast
  qed (use assms(2) in blast)
qed

lemma wakes_by:
  "v = CONTENDED \<or> f u = Waking \<or> in_loop (f u) \<Longrightarrow> mutex_wakes (s\<lparr>m_futex := v, m_pc := f\<rparr>)"
  by (rule mutex_wakesI) blast

lemma wakes_step:
  assumes "mutex_wakes s" "mutex_step s s'"
  shows "mutex_wakes s'"
  using assms(2)
proof cases
  case (contended t v p)
  show ?thesis
  proof (cases "v = CONTENDED")
    case False
    from contended(2) have "m_futex s \<noteq> CONTENDED" "in_loop (m_pc s t) \<longrightarrow> in_loop p" "m_pc s t \<noteq> Waking" "p \<noteq> Asleep"
      using False by (cases rule: lock_contended_cases; simp)+
    then show ?thesis unfolding contended(1) by (intro wakes_keep [OF assms(1)]) auto
  qed (simp add: contended(1) wakes_by)
next
  case (unlock t v p)
  show ?thesis
  proof (cases "m_futex s = CONTENDED")
    case True
    then have "((m_pc s)(t := p)) t = Waking" using unlock(3) by (simp add: mutex_unlock_def)
    then show ?thesis unfolding unlock(1) by (intro wakes_by) blast
  next
    case False
    then have "p = Idle" using unlock(3) by (simp add: mutex_unlock_def)
    then show ?thesis unfolding unlock(1) using False unlock(2) by (intro wakes_keep [OF assms(1)]) simp_all
  qed
next
  case (try_lock t v p)
  have "m_futex s = CONTENDED \<longrightarrow> v = CONTENDED" "p \<noteq> Asleep"
    using try_lock(3) by (auto simp: mutex_try_lock_def compare_exchange_def split: if_splits)
  then show ?thesis unfolding try_lock(1) using try_lock(2) by (intro wakes_keep [OF assms(1)]) simp_all
next
  case (lock t v p)
  have "m_futex s = CONTENDED \<longrightarrow> v = CONTENDED" "p \<noteq> Asleep"
    using lock(3) by (auto simp: mutex_lock_def compare_exchange_def split: if_splits)
  then show ?thesis unfolding lock(1) using lock(2) by (intro wakes_keep [OF assms(1)]) simp_all
next
  case (wake t u)
  then have "in_loop (((m_pc s)(t := Idle, u := Spin False 100)) u)" by simp
  then show ?thesis using wakes_by [of "m_futex s" _ u s] unfolding wake(1) by (simp del: fun_upd_apply)
next
  case (wake_nobody t)
  then show ?thesis unfolding mutex_wakes_def by simp
next
  case (spurious t)
  then have "in_loop (((m_pc s)(t := Spin False 100)) t)" by simp
  then show ?thesis using wakes_by [of "m_futex s" _ t s] unfolding spurious(1) by (simp del: fun_upd_apply)
qed

interpretation mutex: invariant_system mutex_step mutex_new "\<lambda>s. mutex_exclusive s \<and> mutex_wakes s"
proof unfold_locales
  show "mutex_exclusive mutex_new \<and> mutex_wakes mutex_new"
    by (simp add: mutex_new_def mutex_exclusive_def mutex_wakes_def)
qed (use exclusive_step wakes_step in blast)

section \<open>Progress\<close>

text \<open>The state after \<open>n\<close> accesses of one thread in \<open>lock_contended\<close>, all other threads
  standing still.\<close>

inductive alone :: "nat \<Rightarrow> nat \<Rightarrow> mutex_state \<Rightarrow> mutex_state \<Rightarrow> bool" for t where
  alone_none: "alone t 0 s s"
| alone_access: "lock_contended (m_pc s t) (m_futex s) = Some (v, p) \<Longrightarrow>
    alone t n (s\<lparr>m_futex := v, m_pc := (m_pc s)(t := p)\<rparr>) s' \<Longrightarrow> alone t (Suc n) s s'"

lemma alone_reachable: "alone t n s s' \<Longrightarrow> reachable mutex_step s s'"
proof (induction rule: alone.induct)
  case (alone_access s v p n s')
  have "mutex_step s (s\<lparr>m_futex := v, m_pc := (m_pc s)(t := p)\<rparr>)" using alone_access(1) by (rule mutex_step.contended)
  then show ?case by (intro reachable_trans [OF alone_access(3)] reachable_single)
qed (rule reachable_start)

text \<open>The same as a function, for at most \<open>n\<close> accesses.\<close>

fun run_alone :: "nat \<Rightarrow> u32 \<times> mutex_pc \<Rightarrow> u32 \<times> mutex_pc" where
  "run_alone 0 (v, p) = (v, p)"
| "run_alone (Suc n) (v, p) = (case lock_contended p v of None \<Rightarrow> (v, p) | Some vp \<Rightarrow> run_alone n vp)"

lemma run_alone_steps:
  "run_alone n (m_futex s, m_pc s t) = (v, p) \<Longrightarrow> \<exists>k \<le> n. alone t k s (s\<lparr>m_futex := v, m_pc := (m_pc s)(t := p)\<rparr>)"
proof (induction n arbitrary: s)
  case 0
  then have "s\<lparr>m_futex := v, m_pc := (m_pc s)(t := p)\<rparr> = s" by (simp only: run_alone.simps prod.inject) (simp add: fun_upd_idem)
  then show ?case by (intro exI [of _ 0]) (simp only: alone_none le0)
next
  case (Suc n)
  show ?case
  proof (cases "lock_contended (m_pc s t) (m_futex s)")
    case None
    then have "s\<lparr>m_futex := v, m_pc := (m_pc s)(t := p)\<rparr> = s" using Suc.prems by (simp add: fun_upd_idem)
    then show ?thesis by (intro exI [of _ 0]) (simp only: alone_none le0)
  next
    case (Some vp)
    obtain w q where vp: "vp = (w, q)" by (cases vp) auto
    let ?s = "s\<lparr>m_futex := w, m_pc := (m_pc s)(t := q)\<rparr>"
    have "run_alone n (m_futex ?s, m_pc ?s t) = (v, p)" using Suc.prems Some vp by simp
    from Suc.IH [OF this] obtain k where k: "k \<le> n" "alone t k ?s (s\<lparr>m_futex := v, m_pc := (m_pc s)(t := p)\<rparr>)"
      by (auto simp del: fun_upd_apply)
    have "alone t (Suc k) s (s\<lparr>m_futex := v, m_pc := (m_pc s)(t := p)\<rparr>)"
      using Some vp k(2) by (intro alone_access [of s t w q]) simp_all
    then show ?thesis using Suc_le_mono k(1) by blast
  qed
qed

lemma run_alone_reachable:
  "run_alone n (m_futex s, m_pc s t) = (v, p) \<Longrightarrow> reachable mutex_step s (s\<lparr>m_futex := v, m_pc := (m_pc s)(t := p)\<rparr>)"
  using run_alone_steps alone_reachable by blast

lemma loop_acquires: "in_loop p \<Longrightarrow> run_alone 4 (UNLOCKED, p) = (CONTENDED, Holding)"
  by (cases p) (auto simp: eval_nat_numeral mutex_spin_def after_spin_def)

section \<open>Properties\<close>

text \<open>C19: mutual exclusion. In every state that any interleaving of the threads' atomic accesses reaches, at
  most one thread is between a successful lock and its unlock, the word is one of the three states, and it
  says \<open>UNLOCKED\<close> exactly when nobody holds the lock.\<close>

theorem mutex_mutual_exclusion:
  assumes "reachable mutex_step mutex_new s"
  shows "(m_pc s t = Holding \<and> m_pc s u = Holding \<longrightarrow> t = u)
    \<and> m_futex s \<in> {UNLOCKED, LOCKED, CONTENDED}
    \<and> (m_futex s = UNLOCKED \<longleftrightarrow> (\<forall>r. m_pc s r \<noteq> Holding))"
proof -
  have i: "mutex_exclusive s" using mutex.inv_reachable [OF assms] by blast
  show ?thesis
  proof (cases "m_futex s = UNLOCKED")
    case True
    then show ?thesis using i unfolding mutex_exclusive_def by simp
  next
    case False
    then obtain h where "\<forall>r. m_pc s r = Holding \<longleftrightarrow> r = h" using i unfolding mutex_exclusive_def by blast
    then show ?thesis using False i unfolding mutex_exclusive_def by simp
  qed
qed

lemma demo_held: "reachable mutex_step mutex_new (mutex_new\<lparr>m_futex := LOCKED, m_pc := (\<lambda>_. Idle)(0 := Holding)\<rparr>)"
proof -
  have "mutex_step mutex_new (mutex_new\<lparr>m_futex := LOCKED, m_pc := (m_pc mutex_new)(0 := Holding)\<rparr>)"
    by (rule mutex_step.lock) (simp_all add: mutex_new_def mutex_lock_def)
  from reachable_step [of mutex_step, OF reachable_start this] show ?thesis by (simp add: mutex_new_def)
qed

theorem mutex_mutual_exclusion_witness:
  "m_futex (mutex_new\<lparr>m_futex := LOCKED, m_pc := (\<lambda>_. Idle)(0 := Holding)\<rparr>) \<in> {UNLOCKED, LOCKED, CONTENDED}"
  using mutex_mutual_exclusion [OF demo_held] by blast

text \<open>C20: no wake-up is lost. Whenever a thread sleeps, the holder of the lock will see \<open>CONTENDED\<close> when
  it unlocks, or a thread is about to call \<open>futex_wake\<close>, or an awake thread is in the loop; and when the lock is
  free, every such awake thread takes it within four accesses of its own, if no other thread comes between, and leaves it
  \<open>CONTENDED\<close>, so that its unlock wakes the next one.\<close>

theorem mutex_no_lost_wakeup:
  assumes "reachable mutex_step mutex_new s" "m_pc s t = Asleep"
  shows "((\<exists>h. m_pc s h = Holding \<and> mutex_unlock (m_futex s) = (UNLOCKED, Waking))
      \<or> (\<exists>u. m_pc s u = Waking) \<or> (\<exists>u. in_loop (m_pc s u)))
    \<and> (\<forall>u. in_loop (m_pc s u) \<and> m_futex s = UNLOCKED \<longrightarrow>
         (\<exists>n \<le> 4. alone u n s (s\<lparr>m_futex := CONTENDED, m_pc := (m_pc s)(u := Holding)\<rparr>)))
    \<and> (\<forall>u n s'. alone u n s s' \<longrightarrow> reachable mutex_step s s')"
proof -
  have i: "mutex_exclusive s" "mutex_wakes s" using mutex.inv_reachable [OF assms(1)] by auto
  have "m_futex s = CONTENDED \<or> (\<exists>u. m_pc s u = Waking \<or> in_loop (m_pc s u))"
    using i(2) assms(2) unfolding mutex_wakes_def by blast
  moreover have "\<exists>h. m_pc s h = Holding \<and> mutex_unlock (m_futex s) = (UNLOCKED, Waking)" if "m_futex s = CONTENDED"
    using i(1) that unfolding mutex_exclusive_def by (auto simp: mutex_unlock_def)
  moreover have "\<exists>n \<le> 4. alone u n s (s\<lparr>m_futex := CONTENDED, m_pc := (m_pc s)(u := Holding)\<rparr>)"
    if "in_loop (m_pc s u)" "m_futex s = UNLOCKED" for u
    using run_alone_steps [of 4 s u] loop_acquires [OF that(1)] that(2) by simp
  ultimately show ?thesis using alone_reachable by blast
qed

text \<open>Thread 0 holds the lock, thread 1 has marked it and is asleep.\<close>

definition demo_asleep :: mutex_state where
  "demo_asleep = \<lparr>m_futex = CONTENDED, m_pc = (\<lambda>_. Idle)(0 := Holding, 1 := Asleep)\<rparr>"

lemma demo_asleep_reachable: "reachable mutex_step mutex_new demo_asleep"
proof -
  let ?h = "mutex_new\<lparr>m_futex := LOCKED, m_pc := (\<lambda>_. Idle)(0 := Holding)\<rparr>"
  let ?l = "?h\<lparr>m_futex := LOCKED, m_pc := (m_pc ?h)(1 := Spin True 100)\<rparr>"
  have l: "mutex_step ?h ?l" by (rule mutex_step.lock) (simp_all add: mutex_lock_def)
  have r: "run_alone 103 (m_futex ?l, m_pc ?l 1) = (CONTENDED, Asleep)"
    by (simp add: eval_nat_numeral mutex_spin_def after_spin_def)
  have "?l\<lparr>m_futex := CONTENDED, m_pc := (m_pc ?l)(1 := Asleep)\<rparr> = demo_asleep"
    by (simp add: demo_asleep_def mutex_new_def)
  with run_alone_reachable [OF r] have "reachable mutex_step ?l demo_asleep" by (simp only:)
  then show ?thesis by (rule reachable_trans) (rule reachable_step [OF demo_held l])
qed

theorem mutex_no_lost_wakeup_witness:
  "(\<exists>h. m_pc demo_asleep h = Holding \<and> mutex_unlock (m_futex demo_asleep) = (UNLOCKED, Waking))
    \<or> (\<exists>u. m_pc demo_asleep u = Waking) \<or> (\<exists>u. in_loop (m_pc demo_asleep u))"
  using mutex_no_lost_wakeup [OF demo_asleep_reachable, of 1, THEN conjunct1] by (simp add: demo_asleep_def)

end
