(* ===== verification/Futex_RwLock.thy ===== *)
theory Futex_RwLock
  imports Thread_System
begin

text \<open>
  The reader-writer lock of \<open>library/std/src/sys/sync/rwlock/futex.rs\<close>. The state word holds a 30 bit
  counter and two waiting flags; a second word counts the notifications of writers. Each constructor of \<open>rw_pc\<close>
  is a place before the next atomic access of a thread. The flag \<open>ok\<close> of a step says whether a weak
  compare-and-exchange is spared a spurious failure.
\<close>

definition READ_LOCKED :: u32 where "READ_LOCKED = 1"
definition MASK :: u32 where "MASK = push_bit 30 1 - 1"
definition WRITE_LOCKED :: u32 where "WRITE_LOCKED = MASK"
definition MAX_READERS :: u32 where "MAX_READERS = MASK - 1"
definition READERS_WAITING :: u32 where "READERS_WAITING = push_bit 30 1"
definition WRITERS_WAITING :: u32 where "WRITERS_WAITING = push_bit 31 1"

definition is_unlocked :: "u32 \<Rightarrow> bool" where "is_unlocked state = (state AND MASK = 0)"
definition is_write_locked :: "u32 \<Rightarrow> bool" where "is_write_locked state = (state AND MASK = WRITE_LOCKED)"
definition has_readers_waiting :: "u32 \<Rightarrow> bool" where "has_readers_waiting state = (state AND READERS_WAITING \<noteq> 0)"
definition has_writers_waiting :: "u32 \<Rightarrow> bool" where "has_writers_waiting state = (state AND WRITERS_WAITING \<noteq> 0)"
definition is_read_lockable :: "u32 \<Rightarrow> bool" where
  "is_read_lockable state = (state AND MASK < MAX_READERS \<and> \<not> has_readers_waiting state \<and> \<not> has_writers_waiting state)"
definition has_reached_max_readers :: "u32 \<Rightarrow> bool" where
  "has_reached_max_readers state = (state AND MASK = MAX_READERS)"

datatype rw_pc =
    RIdle
  | Read_Try u32
  | Read_Spin nat
  | Read_Loop u32
  | Read_Wait u32
  | Read_Asleep
  | Reading
  | Too_Many_Readers
  | Assertion_Failed
  | Write_Spin nat u32
  | Write_Loop u32 u32
  | Write_Notify
  | Write_Check u32
  | Write_Wait u32
  | Write_Asleep
  | Writing
  | Wake_Start u32
  | Wake_Writer bool
  | Wake_Call bool
  | Wake_Second u32
  | Wake_Third
  | Wake_All

record rw_state =
  rw_word :: u32
  rw_notify :: u32
  rw_pcs :: "nat \<Rightarrow> rw_pc"

definition rwlock_new :: rw_state where
  "rwlock_new = \<lparr>rw_word = 0, rw_notify = 0, rw_pcs = \<lambda>_. RIdle\<rparr>"

section \<open>Readers\<close>

definition try_read :: "u32 \<Rightarrow> u32 \<times> rw_pc" where
  "try_read s = (if is_read_lockable s then (s + READ_LOCKED, Reading) else (s, RIdle))"

definition compare_exchange_weak :: "bool \<Rightarrow> 'v \<Rightarrow> 'v \<Rightarrow> 'v \<Rightarrow> ('v + 'v) \<times> 'v" where
  "compare_exchange_weak ok v current new = (if ok then compare_exchange v current new else (Inl v, v))"

definition rw_read :: "bool \<Rightarrow> u32 \<Rightarrow> u32 \<Rightarrow> u32 \<times> rw_pc" where
  "rw_read ok state v =
     (if \<not> is_read_lockable state then (v, Read_Spin 100)
      else case compare_exchange_weak ok v state (state + READ_LOCKED) of
        (Inl _, v') \<Rightarrow> (v', Read_Spin 100) | (Inr _, v') \<Rightarrow> (v', Reading))"

definition spin_until :: "(u32 \<Rightarrow> bool) \<Rightarrow> nat \<Rightarrow> u32 \<Rightarrow> bool" where
  "spin_until f n state = (f state \<or> n = 0)"

definition spin_read :: "nat \<Rightarrow> u32 \<Rightarrow> rw_pc" where
  "spin_read n v =
     (if spin_until (\<lambda>state. \<not> is_write_locked state \<or> has_readers_waiting state \<or> has_writers_waiting state) n v
      then Read_Loop v else Read_Spin (n - 1))"

definition read_contended :: "bool \<Rightarrow> u32 \<Rightarrow> u32 \<Rightarrow> u32 \<times> rw_pc" where
  "read_contended ok state v =
     (if is_read_lockable state then
        (case compare_exchange_weak ok v state (state + READ_LOCKED) of
           (Inr _, v') \<Rightarrow> (v', Reading) | (Inl s, v') \<Rightarrow> (v', Read_Loop s))
      else if has_reached_max_readers state then (v, Too_Many_Readers)
      else if \<not> has_readers_waiting state then
        (case compare_exchange v state (state OR READERS_WAITING) of
           (Inl s, v') \<Rightarrow> (v', Read_Loop s) | (Inr _, v') \<Rightarrow> (v', Read_Wait (state OR READERS_WAITING)))
      else (v, Read_Wait (state OR READERS_WAITING)))"

definition read_unlock :: "u32 \<Rightarrow> u32 \<times> rw_pc" where
  "read_unlock v =
     (let state = v - READ_LOCKED in
      (state, if is_unlocked state \<and> has_writers_waiting state then Wake_Start state else RIdle))"

section \<open>Writers\<close>

definition try_write :: "u32 \<Rightarrow> u32 \<times> rw_pc" where
  "try_write s = (if is_unlocked s then (s + WRITE_LOCKED, Writing) else (s, RIdle))"

definition rw_write :: "bool \<Rightarrow> u32 \<Rightarrow> u32 \<times> rw_pc" where
  "rw_write ok v = (case compare_exchange_weak ok v 0 WRITE_LOCKED of
     (Inl _, v') \<Rightarrow> (v', Write_Spin 100 0) | (Inr _, v') \<Rightarrow> (v', Writing))"

definition spin_write :: "nat \<Rightarrow> u32 \<Rightarrow> u32 \<Rightarrow> rw_pc" where
  "spin_write n other v =
     (if spin_until (\<lambda>state. is_unlocked state \<or> has_writers_waiting state) n v
      then Write_Loop v other else Write_Spin (n - 1) other)"

definition write_contended :: "bool \<Rightarrow> u32 \<Rightarrow> u32 \<Rightarrow> u32 \<Rightarrow> u32 \<times> rw_pc" where
  "write_contended ok state other v =
     (if is_unlocked state then
        (case compare_exchange_weak ok v state (state OR WRITE_LOCKED OR other) of
           (Inr _, v') \<Rightarrow> (v', Writing) | (Inl s, v') \<Rightarrow> (v', Write_Loop s other))
      else if \<not> has_writers_waiting state then
        (case compare_exchange v state (state OR WRITERS_WAITING) of
           (Inl s, v') \<Rightarrow> (v', Write_Loop s other) | (Inr _, v') \<Rightarrow> (v', Write_Notify))
      else (v, Write_Notify))"

definition write_check :: "u32 \<Rightarrow> u32 \<Rightarrow> rw_pc" where
  "write_check seq state =
     (if is_unlocked state \<or> \<not> has_writers_waiting state then Write_Loop state WRITERS_WAITING else Write_Wait seq)"

definition write_unlock :: "u32 \<Rightarrow> u32 \<times> rw_pc" where
  "write_unlock v =
     (let state = v - WRITE_LOCKED in
      (state, if has_writers_waiting state \<or> has_readers_waiting state then Wake_Start state else RIdle))"

section \<open>Waking\<close>

definition wake_third :: "u32 \<Rightarrow> u32 \<Rightarrow> u32 \<times> rw_pc" where
  "wake_third state v =
     (if state = READERS_WAITING then
        (case compare_exchange v state 0 of (Inr _, v') \<Rightarrow> (v', Wake_All) | (Inl _, v') \<Rightarrow> (v', RIdle))
      else (v, RIdle))"

definition wake_second :: "u32 \<Rightarrow> u32 \<Rightarrow> u32 \<times> rw_pc" where
  "wake_second state v =
     (if state = READERS_WAITING + WRITERS_WAITING then
        (case compare_exchange v state READERS_WAITING of
           (Inl _, v') \<Rightarrow> (v', RIdle) | (Inr _, v') \<Rightarrow> (v', Wake_Writer True))
      else wake_third state v)"

text \<open>When the first exchange fails, the function goes on with the value it saw.\<close>

definition wake_writer_or_readers :: "u32 \<Rightarrow> u32 \<Rightarrow> u32 \<times> rw_pc" where
  "wake_writer_or_readers state v =
     (if \<not> is_unlocked state then (v, Assertion_Failed)
      else if state = WRITERS_WAITING then
        (case compare_exchange v state 0 of
           (Inr _, v') \<Rightarrow> (v', Wake_Writer False) | (Inl s, v') \<Rightarrow> (v', Wake_Second s))
      else wake_second state v)"

section \<open>Steps\<close>

text \<open>The next access of a thread inside a call, on the state word \<open>v\<close> and the notification counter
  \<open>n\<close>.\<close>

fun rw_access :: "bool \<Rightarrow> rw_pc \<Rightarrow> u32 \<Rightarrow> u32 \<Rightarrow> ((u32 \<times> rw_pc) \<times> u32) option" where
  "rw_access ok (Read_Try state) v n = Some (rw_read ok state v, n)"
| "rw_access ok (Read_Spin k) v n = Some ((v, spin_read k v), n)"
| "rw_access ok (Read_Loop state) v n = Some (read_contended ok state v, n)"
| "rw_access ok (Read_Wait expected) v n = Some ((v, if v = expected then Read_Asleep else Read_Spin 100), n)"
| "rw_access ok (Write_Spin k other) v n = Some ((v, spin_write k other v), n)"
| "rw_access ok (Write_Loop state other) v n = Some (write_contended ok state other v, n)"
| "rw_access ok Write_Notify v n = Some ((v, Write_Check n), n)"
| "rw_access ok (Write_Check seq) v n = Some ((v, write_check seq v), n)"
| "rw_access ok (Write_Wait seq) v n = Some ((v, if n = seq then Write_Asleep else Write_Spin 100 WRITERS_WAITING), n)"
| "rw_access ok (Wake_Start state) v n = Some (wake_writer_or_readers state v, n)"
| "rw_access ok (Wake_Second state) v n = Some (wake_second state v, n)"
| "rw_access ok Wake_Third v n = Some (wake_third READERS_WAITING v, n)"
| "rw_access ok (Wake_Writer fallback) v n = Some ((v, Wake_Call fallback), n + 1)"
| "rw_access ok Reading v n = Some (read_unlock v, n)"
| "rw_access ok Writing v n = Some (write_unlock v, n)"
| "rw_access ok _ v n = None"

text \<open>A call of a thread that is outside the lock.\<close>

inductive rw_call :: "u32 \<Rightarrow> u32 \<times> rw_pc \<Rightarrow> bool" where
  "rw_call v (try_read v)"
| "rw_call v (v, Read_Try v)"
| "rw_call v (try_write v)"
| "rw_call v (rw_write ok v)"

inductive rw_step :: "rw_state \<Rightarrow> rw_state \<Rightarrow> bool" where
  call: "rw_pcs s t = RIdle \<Longrightarrow> rw_call (rw_word s) (v, p) \<Longrightarrow>
    rw_step s (s\<lparr>rw_word := v, rw_pcs := (rw_pcs s)(t := p)\<rparr>)"
| access: "rw_access ok (rw_pcs s t) (rw_word s) (rw_notify s) = Some ((v, p), n) \<Longrightarrow>
    rw_step s (s\<lparr>rw_word := v, rw_notify := n, rw_pcs := (rw_pcs s)(t := p)\<rparr>)"
| wake_one: "rw_pcs s t = Wake_Call fallback \<Longrightarrow> rw_pcs s u = Write_Asleep \<Longrightarrow>
    rw_step s (s\<lparr>rw_pcs := (rw_pcs s)(u := Write_Spin 100 WRITERS_WAITING, t := if fallback \<and> \<not> woke then Wake_Third else RIdle)\<rparr>)"
| wake_none: "rw_pcs s t = Wake_Call fallback \<Longrightarrow> \<forall>u. rw_pcs s u \<noteq> Write_Asleep \<Longrightarrow>
    rw_step s (s\<lparr>rw_pcs := (rw_pcs s)(t := if fallback then Wake_Third else RIdle)\<rparr>)"
| wake_all: "rw_pcs s t = Wake_All \<Longrightarrow>
    rw_step s (s\<lparr>rw_pcs := (\<lambda>u. if rw_pcs s u = Read_Asleep then Read_Spin 100 else rw_pcs s u)(t := RIdle)\<rparr>)"
| spurious_reader: "rw_pcs s t = Read_Asleep \<Longrightarrow> rw_step s (s\<lparr>rw_pcs := (rw_pcs s)(t := Read_Spin 100)\<rparr>)"
| spurious_writer: "rw_pcs s t = Write_Asleep \<Longrightarrow>
    rw_step s (s\<lparr>rw_pcs := (rw_pcs s)(t := Write_Spin 100 WRITERS_WAITING)\<rparr>)"

section \<open>The state word\<close>

text \<open>The counter and the two flags of a word.\<close>

definition lock_count :: "u32 \<Rightarrow> nat" where "lock_count v = take_bit 30 (unat v)"
definition flags :: "u32 \<Rightarrow> nat" where "flags v = drop_bit 30 (unat v)"

lemma word_split: "unat v = flags v * 2 ^ 30 + lock_count v"
  using div_mult_mod_eq [of "unat v" "2 ^ 30"] by (simp add: lock_count_def flags_def take_bit_eq_mod drop_bit_eq_div)

lemma lock_count_less: "lock_count v < 2 ^ 30"
  by (simp add: lock_count_def take_bit_eq_mod)

lemma flags_less: "flags v < 4"
  using unat_less_pow [of v] by (simp add: flags_def drop_bit_eq_div)

lemma word_parts:
  assumes "unat v = f * 2 ^ 30 + c" "c < 2 ^ 30"
  shows "lock_count v = c" "flags v = f"
  using assms by (simp_all add: lock_count_def flags_def take_bit_eq_mod drop_bit_eq_div)

lemma mask_word: "MASK = mask 30" "unat MASK = 2 ^ 30 - 1"
  by (simp_all add: MASK_def push_bit_eq_mult mask_eq_exp_minus_1)

lemma and_MASK: "unat (v AND MASK) = lock_count v"
  unfolding mask_word(1) unat_and_mask lock_count_def take_bit_eq_mod ..

lemma const_words: "unat READERS_WAITING = 2 ^ 30" "unat WRITERS_WAITING = 2 ^ 31" "unat MAX_READERS = 2 ^ 30 - 2"
  "unat WRITE_LOCKED = 2 ^ 30 - 1" "unat READ_LOCKED = 1"
  by (simp_all add: READERS_WAITING_def WRITERS_WAITING_def MAX_READERS_def WRITE_LOCKED_def READ_LOCKED_def MASK_def push_bit_eq_mult)

lemma const_parts:
  "lock_count READERS_WAITING = 0" "lock_count WRITERS_WAITING = 0" "lock_count (READERS_WAITING + WRITERS_WAITING) = 0" "lock_count 0 = 0"
  "flags READERS_WAITING = 1" "flags WRITERS_WAITING = 2" "flags (READERS_WAITING + WRITERS_WAITING) = 3" "flags 0 = 0"
  by (simp_all add: lock_count_def flags_def const_words READERS_WAITING_def WRITERS_WAITING_def push_bit_eq_mult take_bit_eq_mod drop_bit_eq_div)

lemma state_tests:
  "is_unlocked v \<longleftrightarrow> lock_count v = 0" "is_write_locked v \<longleftrightarrow> lock_count v = 2 ^ 30 - 1"
  "has_reached_max_readers v \<longleftrightarrow> lock_count v = 2 ^ 30 - 2"
  "v AND MASK < MAX_READERS \<longleftrightarrow> lock_count v < 2 ^ 30 - 2"
  unfolding is_unlocked_def is_write_locked_def has_reached_max_readers_def
  by (simp_all add: and_MASK word_unat_eq_iff word_less_nat_alt const_words)

lemma bit_div: "bit (v :: u32) k \<longleftrightarrow> odd (unat v div 2 ^ k)"
proof -
  have "bit v k \<longleftrightarrow> bit (unat v) k" by (simp add: bit_unsigned_iff)
  then show ?thesis by (simp only: bit_iff_odd [of "unat v"])
qed

lemma flag_tests: "has_readers_waiting v \<longleftrightarrow> odd (flags v)" "has_writers_waiting v \<longleftrightarrow> 2 \<le> flags v"
proof -
  have "has_readers_waiting v \<longleftrightarrow> bit v 30" "has_writers_waiting v \<longleftrightarrow> bit v 31"
    unfolding has_readers_waiting_def has_writers_waiting_def READERS_WAITING_def WRITERS_WAITING_def
    by (simp_all only: push_bit_of_1 and_exp_eq_0_iff_not_bit not_not)
  moreover have f: "flags v = unat v div 2 ^ 30" "unat v div 2 ^ 31 = flags v div 2"
    using div_mult2_eq [of "unat v" "2 ^ 30" 2] by (simp_all add: flags_def drop_bit_eq_div)
  moreover have "odd (flags v div 2) \<longleftrightarrow> 2 \<le> flags v" using flags_less [of v] by presburger
  ultimately show "has_readers_waiting v \<longleftrightarrow> odd (flags v)" "has_writers_waiting v \<longleftrightarrow> 2 \<le> flags v"
    unfolding bit_div f(2) f(1) [symmetric] by blast+
qed

lemma lockable_iff: "is_read_lockable v \<longleftrightarrow> lock_count v < 2 ^ 30 - 2 \<and> flags v = 0"
  unfolding is_read_lockable_def state_tests flag_tests using flags_less [of v] by presburger

lemma add_parts:
  assumes "lock_count v + unat d < 2 ^ 30"
  shows "lock_count (v + d) = lock_count v + unat d" "flags (v + d) = flags v"
proof -
  have "unat v + unat d < 2 ^ 32" using assms word_split [of v] flags_less [of v] by simp
  then have "unat (v + d) = flags v * 2 ^ 30 + (lock_count v + unat d)"
    using word_split [of v] by (simp add: unat_word_ariths(1))
  from word_parts [OF this assms] show "lock_count (v + d) = lock_count v + unat d" "flags (v + d) = flags v" by auto
qed

lemma sub_parts:
  assumes "unat d \<le> lock_count v"
  shows "lock_count (v - d) = lock_count v - unat d" "flags (v - d) = flags v"
proof -
  have "unat (v - d) = flags v * 2 ^ 30 + (lock_count v - unat d)"
    using assms word_split [of v] by (simp add: unat_sub word_le_nat_alt)
  moreover have "lock_count v - unat d < 2 ^ 30" using lock_count_less [of v] by linarith
  ultimately show "lock_count (v - d) = lock_count v - unat d" "flags (v - d) = flags v" using word_parts by auto
qed

lemma or_parts: "lock_count (v OR w) = lock_count v OR lock_count w" "flags (v OR w) = flags v OR flags w"
  by (simp_all add: lock_count_def flags_def unsigned_or_eq)

lemma or_flags:
  "lock_count (v OR READERS_WAITING) = lock_count v" "lock_count (v OR WRITERS_WAITING) = lock_count v"
  "flags (v OR WRITERS_WAITING) = flags v OR 2" "flags (v OR READERS_WAITING) = flags v OR 1"
  by (simp_all add: or_parts const_parts)

lemma or_write_locked:
  assumes "lock_count v = 0" "other \<in> {0, WRITERS_WAITING}"
  shows "lock_count (v OR WRITE_LOCKED OR other) = 2 ^ 30 - 1"
proof -
  have "lock_count WRITE_LOCKED = 2 ^ 30 - 1" using word_parts [of WRITE_LOCKED 0 "2 ^ 30 - 1"] const_words by simp
  then show ?thesis using assms const_parts by (auto simp: or_parts)
qed

section \<open>Exclusion\<close>

definition reading :: "(nat \<Rightarrow> rw_pc) \<Rightarrow> nat set" where "reading f = {t. f t = Reading}"
definition writing :: "(nat \<Rightarrow> rw_pc) \<Rightarrow> nat set" where "writing f = {t. f t = Writing}"

text \<open>What a place guarantees: the extra flag of a waiting writer is zero or \<open>WRITERS_WAITING\<close>, and the assertion
  of \<open>wake_writer_or_readers\<close> holds.\<close>

fun pc_ok :: "rw_pc \<Rightarrow> bool" where
  "pc_ok (Write_Spin n other) = (other \<in> {0, WRITERS_WAITING})"
| "pc_ok (Write_Loop state other) = (other \<in> {0, WRITERS_WAITING})"
| "pc_ok (Wake_Start state) = is_unlocked state"
| "pc_ok Assertion_Failed = False"
| "pc_ok _ = True"

text \<open>The counter is the number of readers, or all ones for a single writer; readers wait on a read-locked lock
  only when a writer waits too.\<close>

definition rw_inv :: "rw_state \<Rightarrow> bool" where
  "rw_inv s \<longleftrightarrow> finite (reading (rw_pcs s)) \<and> (\<forall>t. pc_ok (rw_pcs s t))
     \<and> (writing (rw_pcs s) = {} \<and> lock_count (rw_word s) = card (reading (rw_pcs s)) \<and> lock_count (rw_word s) \<le> 2 ^ 30 - 2
        \<or> (\<exists>w. writing (rw_pcs s) = {w}) \<and> reading (rw_pcs s) = {} \<and> lock_count (rw_word s) = 2 ^ 30 - 1)
     \<and> (lock_count (rw_word s) \<in> {1 .. 2 ^ 30 - 2} \<longrightarrow> has_readers_waiting (rw_word s) \<longrightarrow> has_writers_waiting (rw_word s))"

text \<open>The effect of one access on the word and on the place of the thread.\<close>

inductive rw_effect :: "rw_pc \<Rightarrow> u32 \<Rightarrow> rw_pc \<Rightarrow> u32 \<Rightarrow> bool" where
  keep: "lock_count v' = lock_count v \<Longrightarrow> p \<notin> {Reading, Writing} \<Longrightarrow> p' \<notin> {Reading, Writing} \<Longrightarrow>
    (lock_count v \<in> {1 .. 2 ^ 30 - 2} \<longrightarrow> has_readers_waiting v' \<longrightarrow> has_writers_waiting v' \<or> has_readers_waiting v \<and> flags v' = flags v)
    \<Longrightarrow> rw_effect p v p' v'"
| read_acquire: "lock_count v < 2 ^ 30 - 2 \<Longrightarrow> lock_count v' = lock_count v + 1 \<Longrightarrow> flags v' = 0 \<Longrightarrow>
    p \<notin> {Reading, Writing} \<Longrightarrow> rw_effect p v Reading v'"
| write_acquire: "lock_count v = 0 \<Longrightarrow> lock_count v' = 2 ^ 30 - 1 \<Longrightarrow> p \<notin> {Reading, Writing} \<Longrightarrow> rw_effect p v Writing v'"
| read_release: "lock_count v' = lock_count v - 1 \<Longrightarrow> flags v' = flags v \<Longrightarrow> p' \<notin> {Reading, Writing} \<Longrightarrow> rw_effect Reading v p' v'"
| write_release: "lock_count v' = 0 \<Longrightarrow> p' \<notin> {Reading, Writing} \<Longrightarrow> rw_effect Writing v p' v'"

lemma set_update:
  "p \<noteq> Reading \<Longrightarrow> reading (f(t := p)) = reading f - {t}" "p \<noteq> Writing \<Longrightarrow> writing (f(t := p)) = writing f - {t}"
  "reading (f(t := Reading)) = insert t (reading f)" "writing (f(t := Writing)) = insert t (writing f)"
  by (auto simp: reading_def writing_def)

lemma in_sets: "t \<in> reading f \<longleftrightarrow> f t = Reading" "t \<in> writing f \<longleftrightarrow> f t = Writing"
  by (simp_all add: reading_def writing_def)

lemma rw_invI:
  assumes "finite (reading f)" "\<And>u. pc_ok (f u)"
    and "writing f = {} \<and> lock_count v = card (reading f) \<and> lock_count v \<le> 2 ^ 30 - 2
      \<or> (\<exists>w. writing f = {w}) \<and> reading f = {} \<and> lock_count v = 2 ^ 30 - 1"
    and "lock_count v \<in> {1 .. 2 ^ 30 - 2} \<Longrightarrow> has_readers_waiting v \<Longrightarrow> has_writers_waiting v"
  shows "rw_inv (s\<lparr>rw_word := v, rw_notify := n, rw_pcs := f\<rparr>)"
  unfolding rw_inv_def using assms by (simp del: atLeastAtMost_iff)

lemma rw_inv_parts:
  assumes "rw_inv s"
  shows "finite (reading (rw_pcs s))" "pc_ok (rw_pcs s u)"
    "writing (rw_pcs s) \<noteq> {} \<Longrightarrow> (\<exists>w. writing (rw_pcs s) = {w}) \<and> reading (rw_pcs s) = {} \<and> lock_count (rw_word s) = 2 ^ 30 - 1"
    "lock_count (rw_word s) \<noteq> 2 ^ 30 - 1 \<or> reading (rw_pcs s) \<noteq> {} \<Longrightarrow>
      writing (rw_pcs s) = {} \<and> lock_count (rw_word s) = card (reading (rw_pcs s)) \<and> lock_count (rw_word s) \<le> 2 ^ 30 - 2"
    "lock_count (rw_word s) \<in> {1 .. 2 ^ 30 - 2} \<Longrightarrow> has_readers_waiting (rw_word s) \<Longrightarrow> has_writers_waiting (rw_word s)"
  using assms unfolding rw_inv_def by blast+

lemma rw_inv_update:
  assumes inv: "rw_inv s" and e: "rw_effect (rw_pcs s t) (rw_word s) p v" and p: "pc_ok p"
  shows "rw_inv (s\<lparr>rw_word := v, rw_notify := n, rw_pcs := (rw_pcs s)(t := p)\<rparr>)"
proof (rule rw_invI)
  let ?f = "rw_pcs s" and ?w = "rw_word s"
  note i = rw_inv_parts [OF inv]
  show "pc_ok ((?f(t := p)) u)" for u using i(2) p by simp
  show "finite (reading (?f(t := p)))"
    using i(1) set_update(1) [of p ?f t] set_update(3) [of ?f t] by (cases "p = Reading") simp_all
  from e show "writing (?f(t := p)) = {} \<and> lock_count v = card (reading (?f(t := p))) \<and> lock_count v \<le> 2 ^ 30 - 2
      \<or> (\<exists>w. writing (?f(t := p)) = {w}) \<and> reading (?f(t := p)) = {} \<and> lock_count v = 2 ^ 30 - 1"
  proof cases
    case keep
    have "reading (?f(t := p)) = reading ?f" "writing (?f(t := p)) = writing ?f"
      using keep(2,3) set_update(1,2) [of p ?f t] in_sets [of t ?f] by auto
    then show ?thesis using inv keep(1) unfolding rw_inv_def by presburger
  next
    case read_acquire
    have n: "writing ?f = {}" "lock_count ?w = card (reading ?f)" using i(4) read_acquire(2) by auto
    have "reading (?f(t := p)) = insert t (reading ?f)" "writing (?f(t := p)) = {}" "t \<notin> reading ?f"
      using read_acquire(1,5) n set_update(3) [of ?f t] set_update(2) [of p ?f t] in_sets [of t ?f] by auto
    then show ?thesis using n read_acquire(2,3) i(1) by simp
  next
    case write_acquire
    have n: "writing ?f = {}" "reading ?f = {}" using i(1,4) write_acquire(2) by auto
    have "reading (?f(t := p)) = {}" "writing (?f(t := p)) = {t}"
      using write_acquire(1) n set_update(4) [of ?f t] set_update(1) [of p ?f t] by auto
    then show ?thesis using write_acquire(3) by blast
  next
    case read_release
    have t: "t \<in> reading ?f" using read_release(1) in_sets by simp
    have n: "writing ?f = {}" "lock_count ?w = card (reading ?f)" "lock_count ?w \<le> 2 ^ 30 - 2" using i(4) t by auto
    have "reading (?f(t := p)) = reading ?f - {t}" "writing (?f(t := p)) = {}"
      using read_release(4) n set_update(1,2) [of p ?f t] by auto
    then show ?thesis using n read_release(2) t i(1) by (simp add: card_Diff_singleton)
  next
    case write_release
    have t: "t \<in> writing ?f" using write_release(1) in_sets by simp
    then obtain w where "writing ?f = {w}" "reading ?f = {}" using i(3) by blast
    then have "writing ?f = {t}" "reading ?f = {}" using t by auto
    then have "reading (?f(t := p)) = {}" "writing (?f(t := p)) = {}"
      using write_release(3) set_update(1,2) [of p ?f t] by auto
    then show ?thesis using write_release(2) by simp
  qed
  assume c: "lock_count v \<in> {1 .. 2 ^ 30 - 2}" and r: "has_readers_waiting v"
  from e show "has_writers_waiting v"
  proof cases
    case keep
    have cw: "lock_count ?w \<in> {1 .. 2 ^ 30 - 2}" using c unfolding keep(1) .
    then show ?thesis using keep(4) r i(5) [OF cw] by (metis flag_tests(2))
  next
    case read_release
    have t: "t \<in> reading ?f" using read_release(1) in_sets by simp
    have "lock_count ?w \<in> {1 .. 2 ^ 30 - 2}" using i(4) t c read_release(2) by auto
    moreover have "has_readers_waiting ?w" using r read_release(3) flag_tests(1) by simp
    ultimately have "has_writers_waiting ?w" by (rule i(5))
    then show ?thesis using read_release(3) flag_tests(2) by simp
  qed (use c r in \<open>auto simp: flag_tests(1)\<close>)
qed

lemma keep_word: "p \<notin> {Reading, Writing} \<Longrightarrow> p' \<notin> {Reading, Writing} \<Longrightarrow> rw_effect p v p' v"
  by (intro rw_effect.keep) auto

lemma unat_READ_LOCKED: "unat READ_LOCKED = 1" "unat WRITE_LOCKED = 2 ^ 30 - 1"
  using const_words by auto

lemma acquire_read:
  assumes "is_read_lockable v" "p \<notin> {Reading, Writing}"
  shows "rw_effect p v Reading (v + READ_LOCKED)"
proof -
  have "lock_count v < 2 ^ 30 - 2" "flags v = 0" using assms(1) lockable_iff by auto
  then show ?thesis using assms(2) add_parts [of v READ_LOCKED] by (intro rw_effect.read_acquire) (auto simp: unat_READ_LOCKED)
qed

lemma mark_reader:
  assumes "\<not> is_read_lockable v" "\<not> has_reached_max_readers v" "\<not> has_readers_waiting v" "p \<notin> {Reading, Writing}" "p' \<notin> {Reading, Writing}"
  shows "rw_effect p v p' (v OR READERS_WAITING)"
proof (rule rw_effect.keep)
  show "lock_count v \<in> {1 .. 2 ^ 30 - 2} \<longrightarrow> has_readers_waiting (v OR READERS_WAITING) \<longrightarrow>
      has_writers_waiting (v OR READERS_WAITING) \<or> has_readers_waiting v \<and> flags (v OR READERS_WAITING) = flags v"
  proof (intro impI disjI1)
    assume "lock_count v \<in> {1 .. 2 ^ 30 - 2}"
    then have "lock_count v < 2 ^ 30 - 2" using assms(2) state_tests(3) [of v] by auto
    then have "flags v \<noteq> 0" "even (flags v)" using assms(1,3) lockable_iff [of v] flag_tests(1) [of v] by auto
    then have "flags v = 2" using flags_less [of v] by presburger
    then show "has_writers_waiting (v OR READERS_WAITING)" by (simp add: flag_tests or_flags)
  qed
qed (use assms or_flags in auto)

lemma mark_writer:
  assumes "p \<notin> {Reading, Writing}" "p' \<notin> {Reading, Writing}"
  shows "rw_effect p v p' (v OR WRITERS_WAITING)"
proof (rule rw_effect.keep)
  have "flags v \<in> {0, 1, 2, 3}" using flags_less [of v] by auto
  then have "2 \<le> flags v OR 2" by auto
  then show "lock_count v \<in> {1 .. 2 ^ 30 - 2} \<longrightarrow> has_readers_waiting (v OR WRITERS_WAITING) \<longrightarrow>
      has_writers_waiting (v OR WRITERS_WAITING) \<or> has_readers_waiting v \<and> flags (v OR WRITERS_WAITING) = flags v"
    by (simp add: flag_tests(2) or_flags(3))
qed (use assms or_flags in auto)

lemma acquire_write:
  assumes "is_unlocked v" "other \<in> {0, WRITERS_WAITING}" "p \<notin> {Reading, Writing}"
  shows "rw_effect p v Writing (v OR WRITE_LOCKED OR other)" "rw_effect p v Writing (v + WRITE_LOCKED)"
proof -
  have "lock_count v = 0" using assms(1) state_tests(1) by simp
  moreover have "lock_count (v + WRITE_LOCKED) = 2 ^ 30 - 1"
    using add_parts(1) [of v WRITE_LOCKED] calculation unat_READ_LOCKED(2) by simp
  ultimately show "rw_effect p v Writing (v OR WRITE_LOCKED OR other)" "rw_effect p v Writing (v + WRITE_LOCKED)"
    using or_write_locked [OF _ assms(2)] assms(3) by (blast intro: rw_effect.write_acquire)+
qed

lemma clear_flags:
  assumes "lock_count v = 0" "lock_count v' = 0" "p \<notin> {Reading, Writing}" "p' \<notin> {Reading, Writing}"
  shows "rw_effect p v p' v'"
  using assms by (intro rw_effect.keep) auto

lemma try_effects:
  "p \<notin> {Reading, Writing} \<Longrightarrow> try_read v = (w, p') \<Longrightarrow> rw_effect p v p' w \<and> pc_ok p'"
  "p \<notin> {Reading, Writing} \<Longrightarrow> try_write v = (w, p') \<Longrightarrow> rw_effect p v p' w \<and> pc_ok p'"
  by (auto simp: try_read_def try_write_def split: if_splits intro: acquire_read acquire_write(2) [of _ 0] keep_word)

lemma rw_read_effect:
  "p \<notin> {Reading, Writing} \<Longrightarrow> rw_read ok state v = (w, p') \<Longrightarrow> rw_effect p v p' w \<and> pc_ok p'"
  by (auto simp: rw_read_def compare_exchange_weak_def compare_exchange_def split: if_splits intro: acquire_read keep_word)

lemma rw_write_effect:
  assumes "p \<notin> {Reading, Writing}" "rw_write ok v = (w, p')"
  shows "rw_effect p v p' w \<and> pc_ok p'"
proof -
  have "rw_effect p 0 Writing (0 + WRITE_LOCKED)"
    using assms(1) state_tests(1) [of 0] const_parts(4) by (intro acquire_write(2) [of 0 0]) auto
  then show ?thesis using assms
    by (auto simp: rw_write_def compare_exchange_weak_def compare_exchange_def split: if_splits intro: keep_word)
qed

lemma read_contended_effect:
  "p \<notin> {Reading, Writing} \<Longrightarrow> read_contended ok state v = (w, p') \<Longrightarrow> rw_effect p v p' w \<and> pc_ok p'"
  by (auto simp: read_contended_def compare_exchange_weak_def compare_exchange_def split: if_splits
      intro: acquire_read keep_word mark_reader)

lemma write_contended_effect:
  "p \<notin> {Reading, Writing} \<Longrightarrow> other \<in> {0, WRITERS_WAITING} \<Longrightarrow> write_contended ok state other v = (w, p') \<Longrightarrow>
    rw_effect p v p' w \<and> pc_ok p'"
  using acquire_write(1) [of v other p]
  by (auto simp: write_contended_def compare_exchange_weak_def compare_exchange_def split: if_splits
      intro: keep_word mark_writer)

lemma wake_effects:
  assumes "p \<notin> {Reading, Writing}"
  shows "wake_third state v = (w, p') \<Longrightarrow> rw_effect p v p' w \<and> pc_ok p'"
    "wake_second state v = (w, p') \<Longrightarrow> rw_effect p v p' w \<and> pc_ok p'"
    "is_unlocked state \<Longrightarrow> wake_writer_or_readers state v = (w, p') \<Longrightarrow> rw_effect p v p' w \<and> pc_ok p'"
proof -
  show t: "rw_effect p v p' w \<and> pc_ok p'" if "wake_third state v = (w, p')" for state
    using that assms const_parts
    by (auto simp: wake_third_def compare_exchange_def split: if_splits intro: keep_word clear_flags)
  show s: "rw_effect p v p' w \<and> pc_ok p'" if "wake_second state v = (w, p')" for state
    using that assms const_parts t [of state]
    by (auto simp: wake_second_def compare_exchange_def split: if_splits intro: keep_word clear_flags)
  show "rw_effect p v p' w \<and> pc_ok p'" if "is_unlocked state" "wake_writer_or_readers state v = (w, p')"
    using that assms const_parts s [of state]
    by (auto simp: wake_writer_or_readers_def compare_exchange_def split: if_splits intro: keep_word clear_flags)
qed

lemma unlock_effects:
  "lock_count v \<ge> 1 \<Longrightarrow> read_unlock v = (w, p') \<Longrightarrow> rw_effect Reading v p' w \<and> pc_ok p'"
  "lock_count v = 2 ^ 30 - 1 \<Longrightarrow> write_unlock v = (w, p') \<Longrightarrow> rw_effect Writing v p' w \<and> pc_ok p'"
proof -
  show "rw_effect Reading v p' w \<and> pc_ok p'" if "lock_count v \<ge> 1" "read_unlock v = (w, p')"
    using that sub_parts [of READ_LOCKED v] unat_READ_LOCKED
    by (auto simp: read_unlock_def Let_def intro!: rw_effect.read_release split: if_splits)
  show "rw_effect Writing v p' w \<and> pc_ok p'" if "lock_count v = 2 ^ 30 - 1" "write_unlock v = (w, p')"
    using that sub_parts [of WRITE_LOCKED v] unat_READ_LOCKED
    by (auto simp: write_unlock_def Let_def state_tests intro!: rw_effect.write_release split: if_splits)
qed

lemma rw_access_effect:
  assumes inv: "rw_inv s" and a: "rw_access ok (rw_pcs s t) (rw_word s) n = Some ((v, p), n')"
  shows "rw_effect (rw_pcs s t) (rw_word s) p v \<and> pc_ok p"
proof (cases "rw_pcs s t \<in> {Reading, Writing}")
  case True
  have i: "lock_count (rw_word s) \<ge> 1" if "rw_pcs s t = Reading"
  proof -
    have t: "t \<in> reading (rw_pcs s)" using that in_sets by simp
    then have "lock_count (rw_word s) = card (reading (rw_pcs s))" using rw_inv_parts(4) [OF inv] by blast
    then show ?thesis using t rw_inv_parts(1) [OF inv] by (auto simp: card_gt_0_iff Suc_le_eq)
  qed
  have j: "lock_count (rw_word s) = 2 ^ 30 - 1" if "rw_pcs s t = Writing"
    using that in_sets(2) [of t "rw_pcs s"] rw_inv_parts(3) [OF inv] by blast
  from True show ?thesis using a i j unlock_effects [of "rw_word s" v p] by auto
next
  case False
  note ok = rw_inv_parts(2) [OF inv, of t]
  note e = rw_read_effect [OF False] read_contended_effect [OF False] write_contended_effect [OF False] wake_effects [OF False]
  show ?thesis
  proof (cases "rw_pcs s t")
    case (Read_Try state)
    then show ?thesis using a e(1) [of ok state "rw_word s" v p] by simp
  next
    case (Read_Loop state)
    then show ?thesis using a e(2) [of ok state "rw_word s" v p] by simp
  next
    case (Write_Loop state other)
    then show ?thesis using a ok e(3) [of other ok state "rw_word s" v p] by simp
  next
    case (Wake_Start state)
    then show ?thesis using a ok e(6) [of state "rw_word s" v p] by simp
  next
    case (Wake_Second state)
    then show ?thesis using a e(5) [of state "rw_word s" v p] by simp
  next
    case Wake_Third
    then show ?thesis using a e(4) [of READERS_WAITING "rw_word s" v p] by simp
  qed (use a ok False in \<open>auto simp: spin_read_def spin_write_def write_check_def intro!: keep_word split: if_splits\<close>)
qed

lemma rw_call_effect:
  assumes "rw_call v (w, p)"
  shows "rw_effect RIdle v p w \<and> pc_ok p"
  using assms
proof cases
  case 1
  then show ?thesis using try_effects(1) [of RIdle v w p] by simp
next
  case 3
  then show ?thesis using try_effects(2) [of RIdle v w p] by simp
next
  case (4 ok)
  then show ?thesis using rw_write_effect [of RIdle ok v w p] by simp
qed (simp add: keep_word)

text \<open>Steps that only move threads between places outside the lock.\<close>

lemma rw_inv_moves:
  assumes "rw_inv s" "\<And>u. f u \<noteq> rw_pcs s u \<Longrightarrow> f u \<notin> {Reading, Writing} \<and> rw_pcs s u \<notin> {Reading, Writing} \<and> pc_ok (f u)"
  shows "rw_inv (s\<lparr>rw_pcs := f\<rparr>)"
proof -
  have "reading f = reading (rw_pcs s)" "writing f = writing (rw_pcs s)" "\<forall>u. pc_ok (f u)"
    using assms(2) rw_inv_parts(2) [OF assms(1)] by (auto simp: reading_def writing_def) (metis insertCI)+
  then show ?thesis using assms(1) unfolding rw_inv_def by simp
qed

lemma rw_inv_step:
  assumes "rw_inv s" "rw_step s s'"
  shows "rw_inv s'"
  using assms(2)
proof cases
  case (call t v p)
  then have "rw_inv (s\<lparr>rw_word := v, rw_notify := rw_notify s, rw_pcs := (rw_pcs s)(t := p)\<rparr>)"
    using rw_call_effect [of "rw_word s" v p] by (intro rw_inv_update [OF assms(1)]) simp_all
  then show ?thesis unfolding call(1) by simp
next
  case (access ok t v p n)
  then show ?thesis using rw_access_effect [OF assms(1) access(2)] rw_inv_update [OF assms(1)] by simp
qed (auto intro!: rw_inv_moves [OF assms(1)] split: if_splits)

interpretation rwlock: invariant_system rw_step rwlock_new rw_inv
proof unfold_locales
  show "rw_inv rwlock_new" by (simp add: rw_inv_def rwlock_new_def reading_def writing_def const_parts)
qed (rule rw_inv_step)

text \<open>The debug assertions of the unlock functions.\<close>

lemma rwlock_debug_assertions:
  assumes "reachable rw_step rwlock_new s"
  shows "(rw_pcs s t = Reading \<longrightarrow>
       \<not> has_readers_waiting (fst (read_unlock (rw_word s))) \<or> has_writers_waiting (fst (read_unlock (rw_word s))))
    \<and> (rw_pcs s t = Writing \<longrightarrow> is_unlocked (fst (write_unlock (rw_word s))))"
proof -
  have inv: "rw_inv s" by (rule rwlock.inv_reachable [OF assms])
  note i = rw_inv_parts [OF inv]
  have "has_writers_waiting (rw_word s - READ_LOCKED)" if "rw_pcs s t = Reading" "has_readers_waiting (rw_word s - READ_LOCKED)"
  proof -
    have t: "t \<in> reading (rw_pcs s)" using that(1) in_sets by simp
    then have c: "lock_count (rw_word s) = card (reading (rw_pcs s))" "lock_count (rw_word s) \<le> 2 ^ 30 - 2" using i(4) by blast+
    have "lock_count (rw_word s) \<ge> 1" using c(1) t i(1) by (auto simp: card_gt_0_iff Suc_le_eq)
    then have "flags (rw_word s - READ_LOCKED) = flags (rw_word s)" "lock_count (rw_word s) \<in> {1 .. 2 ^ 30 - 2}"
      using sub_parts(2) [of READ_LOCKED "rw_word s"] unat_READ_LOCKED c(2) by auto
    then show ?thesis using i(5) that(2) flag_tests by simp
  qed
  moreover have "is_unlocked (rw_word s - WRITE_LOCKED)" if "rw_pcs s t = Writing"
  proof -
    have "lock_count (rw_word s) = 2 ^ 30 - 1" using that in_sets(2) [of t "rw_pcs s"] i(3) by blast
    then show ?thesis using sub_parts(1) [of WRITE_LOCKED "rw_word s"] unat_READ_LOCKED state_tests(1) by simp
  qed
  ultimately show ?thesis by (auto simp: read_unlock_def write_unlock_def Let_def)
qed

section \<open>Properties\<close>

text \<open>C21: readers and writers exclude each other. In every reachable state there is at most one writer and no
  reader beside it, the 30 bit counter of the state word is the number of readers (or all ones for the
  writer) and so never overflows into the flags nor underflows, and the assertion of
  \<open>wake_writer_or_readers\<close> never fails. The debug assertions of the unlock functions hold: when a reader is about to
  unlock, the decremented word says that readers wait only if a writer waits, and when a writer is about to
  unlock, the new word is unlocked, so that the wake-up it may start is within its contract.\<close>

theorem rwlock_exclusion:
  assumes "reachable rw_step rwlock_new s"
  shows "(rw_pcs s t = Writing \<and> rw_pcs s u \<in> {Reading, Writing} \<longrightarrow> u = t)
    \<and> lock_count (rw_word s) = (if \<exists>w. rw_pcs s w = Writing then 2 ^ 30 - 1 else card {r. rw_pcs s r = Reading})
    \<and> card {r. rw_pcs s r = Reading} \<le> 2 ^ 30 - 2
    \<and> rw_pcs s t \<noteq> Assertion_Failed
    \<and> (rw_pcs s t = Reading \<longrightarrow>
         \<not> has_readers_waiting (fst (read_unlock (rw_word s))) \<or> has_writers_waiting (fst (read_unlock (rw_word s))))
    \<and> (rw_pcs s t = Writing \<longrightarrow> is_unlocked (fst (write_unlock (rw_word s))))"
proof -
  have inv: "rw_inv s" by (rule rwlock.inv_reachable [OF assms])
  note i = rw_inv_parts [OF inv]
  have a: "rw_pcs s t \<noteq> Assertion_Failed" using i(2) [of t] by auto
  note d = rwlock_debug_assertions [OF assms, of t]
  show ?thesis
  proof (cases "writing (rw_pcs s) = {}")
    case True
    then have "lock_count (rw_word s) = card (reading (rw_pcs s)) \<and> lock_count (rw_word s) \<le> 2 ^ 30 - 2"
      using inv unfolding rw_inv_def by blast
    with a d show ?thesis using True by (simp add: reading_def writing_def)
  next
    case False
    then obtain w where w: "writing (rw_pcs s) = {w}" "reading (rw_pcs s) = {}" "lock_count (rw_word s) = 2 ^ 30 - 1" using i(3) by blast
    then have "rw_pcs s r = Writing \<longleftrightarrow> r = w" "rw_pcs s r \<noteq> Reading" for r using in_sets [of r "rw_pcs s"] by auto
    with a d w(3) show ?thesis by auto
  qed
qed

lemma demo_reader: "reachable rw_step rwlock_new (rwlock_new\<lparr>rw_word := 1, rw_pcs := (\<lambda>_. RIdle)(3 := Reading)\<rparr>)"
proof -
  have "rw_call (rw_word rwlock_new) (1, Reading)"
    using rw_call.intros(1) [of 0]
    by (simp add: try_read_def is_read_lockable_def has_readers_waiting_def has_writers_waiting_def READ_LOCKED_def
        MAX_READERS_def MASK_def rwlock_new_def push_bit_eq_mult)
  then have "rw_step rwlock_new (rwlock_new\<lparr>rw_word := 1, rw_pcs := (rw_pcs rwlock_new)(3 := Reading)\<rparr>)"
    by (intro rw_step.call) (simp_all add: rwlock_new_def)
  from reachable_single [of rw_step, OF this] show ?thesis by (simp add: rwlock_new_def)
qed

theorem rwlock_exclusion_witness:
  "lock_count (rw_word (rwlock_new\<lparr>rw_word := 1, rw_pcs := (\<lambda>_. RIdle)(3 := Reading)\<rparr>)) = 1"
  using rwlock_exclusion [OF demo_reader, of 3 3] by (simp add: Collect_conv_if)

end
