(* ===== verification/Futex_Once.thy ===== *)
theory Futex_Once
  imports Thread_System
begin

text \<open>
  One-time initialisation as in \<open>library/std/src/sys/sync/once/futex.rs\<close>: any number of threads call
  \<open>call\<close> and \<open>wait\<close> on one word. The closure may return, mark the \<open>Once\<close> as poisoned
  before it returns, or panic; the number of runs that completed is kept beside the word to state what the component promises.
  \<open>Running\<close> carries the two fields of \<open>OnceState\<close>; \<open>Returned\<close> says whether the call has
  run a closure that called \<open>OnceState::poison\<close>, as \<open>OnceLock\<close> does when its initialiser fails.
\<close>

definition INCOMPLETE :: u32 where "INCOMPLETE = 0"
definition POISONED :: u32 where "POISONED = 1"
definition RUNNING :: u32 where "RUNNING = 2"
definition COMPLETE :: u32 where "COMPLETE = 3"
definition QUEUED :: u32 where "QUEUED = 4"
definition STATE_MASK :: u32 where "STATE_MASK = 3"

text \<open>The two entry points with their argument \<open>ignore_poisoning\<close>.\<close>

datatype once_op = Call bool | Await bool

datatype once_pc =
    Outside
  | Once_Loop once_op u32
  | Once_Wait once_op u32
  | Once_Asleep once_op
  | Once_Reload once_op
  | Running bool u32
  | Wake_Sleepers once_pc
  | Returned bool
  | Poison_Panic
  | Closure_Panic
  | Bad_State

record once_state =
  once_word :: u32
  once_pcs :: "nat \<Rightarrow> once_pc"
  completed :: nat

definition once_new :: once_state where
  "once_new = \<lparr>once_word = INCOMPLETE, once_pcs = \<lambda>_. Outside, completed = 0\<rparr>"

definition is_completed :: "u32 \<Rightarrow> bool" where
  "is_completed v = (v = COMPLETE)"

section \<open>Operations\<close>

text \<open>The branch that both loops share: set the queued bit, then wait.\<close>

definition queue_and_wait :: "bool \<Rightarrow> once_op \<Rightarrow> u32 \<Rightarrow> u32 \<Rightarrow> u32 \<times> once_pc" where
  "queue_and_wait ok op state_and_queued v =
     (let state = state_and_queued AND STATE_MASK; queued = (state_and_queued AND QUEUED \<noteq> 0) in
      if \<not> queued then
        (if ok then
           (case compare_exchange v state (state_and_queued + QUEUED) of
              (Inl new, v') \<Rightarrow> (v', Once_Loop op new) | (Inr _, v') \<Rightarrow> (v', Once_Wait op (state_and_queued + QUEUED)))
         else (v, Once_Loop op v))
      else (v, Once_Wait op state_and_queued))"

definition once_wait :: "bool \<Rightarrow> bool \<Rightarrow> u32 \<Rightarrow> u32 \<Rightarrow> u32 \<times> once_pc" where
  "once_wait ok ignore_poisoning state_and_queued v =
     (let state = state_and_queued AND STATE_MASK in
      if state = COMPLETE then (v, Returned False)
      else if state = POISONED \<and> \<not> ignore_poisoning then (v, Poison_Panic)
      else queue_and_wait ok (Await ignore_poisoning) state_and_queued v)"

definition once_call :: "bool \<Rightarrow> bool \<Rightarrow> u32 \<Rightarrow> u32 \<Rightarrow> u32 \<times> once_pc" where
  "once_call ok ignore_poisoning state_and_queued v =
     (let state = state_and_queued AND STATE_MASK; queued = (state_and_queued AND QUEUED \<noteq> 0) in
      if state = COMPLETE then (v, Returned False)
      else if state = POISONED \<and> \<not> ignore_poisoning then (v, Poison_Panic)
      else if state = INCOMPLETE \<or> state = POISONED then
        (let next = RUNNING + (if queued then QUEUED else 0) in
         if ok then
           (case compare_exchange v state_and_queued next of
              (Inl new, v') \<Rightarrow> (v', Once_Loop (Call ignore_poisoning) new) | (Inr _, v') \<Rightarrow> (v', Running (state = POISONED) COMPLETE))
         else (v, Once_Loop (Call ignore_poisoning) v))
      else if state = RUNNING then queue_and_wait ok (Call ignore_poisoning) state_and_queued v
      else (v, Bad_State))"

fun once_access :: "bool \<Rightarrow> once_pc \<Rightarrow> u32 \<Rightarrow> (u32 \<times> once_pc) option" where
  "once_access ok (Once_Loop (Call ign) s) v = Some (once_call ok ign s v)"
| "once_access ok (Once_Loop (Await ign) s) v = Some (once_wait ok ign s v)"
| "once_access ok (Once_Wait op expected) v = Some (v, if v = expected then Once_Asleep op else Once_Reload op)"
| "once_access ok (Once_Reload op) v = Some (v, Once_Loop op v)"
| "once_access ok _ v = None"

text \<open>Dropping the guard stores the outcome and wakes everybody if the queued bit was set; then the call goes on
  to where it ends.\<close>

definition guard_drop :: "u32 \<Rightarrow> once_pc \<Rightarrow> u32 \<Rightarrow> u32 \<times> once_pc" where
  "guard_drop set_state_on_drop_to q v =
     (set_state_on_drop_to, if v AND QUEUED \<noteq> 0 then Wake_Sleepers q else q)"

definition once_poison :: "once_pc \<Rightarrow> once_pc" where
  "once_poison p = (case p of Running poisoned set_state_to \<Rightarrow> Running poisoned POISONED | _ \<Rightarrow> p)"

inductive once_step :: "once_state \<Rightarrow> once_state \<Rightarrow> bool" where
  enter: "once_pcs s t = Outside \<Longrightarrow> once_step s (s\<lparr>once_pcs := (once_pcs s)(t := Once_Loop op (once_word s))\<rparr>)"
| access: "once_access ok (once_pcs s t) (once_word s) = Some (v, p) \<Longrightarrow>
    once_step s (s\<lparr>once_word := v, once_pcs := (once_pcs s)(t := p)\<rparr>)"
| poison: "once_pcs s t = Running poisoned set_state_to \<Longrightarrow>
    once_step s (s\<lparr>once_pcs := (once_pcs s)(t := once_poison (once_pcs s t))\<rparr>)"
| finish: "once_pcs s t = Running poisoned set_state_to \<Longrightarrow>
    guard_drop set_state_to (Returned (set_state_to = POISONED)) (once_word s) = (v, p) \<Longrightarrow>
    once_step s (s\<lparr>once_word := v, once_pcs := (once_pcs s)(t := p), completed := completed s + (if set_state_to = COMPLETE then 1 else 0)\<rparr>)"
| panic: "once_pcs s t = Running poisoned set_state_to \<Longrightarrow> guard_drop POISONED Closure_Panic (once_word s) = (v, p) \<Longrightarrow>
    once_step s (s\<lparr>once_word := v, once_pcs := (once_pcs s)(t := p)\<rparr>)"
| wake_all: "once_pcs s t = Wake_Sleepers q \<Longrightarrow>
    once_step s (s\<lparr>once_pcs := (\<lambda>u. case once_pcs s u of Once_Asleep op \<Rightarrow> Once_Reload op | p \<Rightarrow> p)(t := q)\<rparr>)"
| spurious: "once_pcs s t = Once_Asleep op \<Longrightarrow> once_step s (s\<lparr>once_pcs := (once_pcs s)(t := Once_Reload op)\<rparr>)"
| leave: "once_pcs s t \<in> {Returned True, Returned False, Poison_Panic, Closure_Panic} \<Longrightarrow> once_step s (s\<lparr>once_pcs := (once_pcs s)(t := Outside)\<rparr>)"

section \<open>The invariant\<close>

lemmas once_words = INCOMPLETE_def POISONED_def RUNNING_def COMPLETE_def QUEUED_def STATE_MASK_def

text \<open>What the place of a thread says about the word.\<close>

fun once_pc_ok :: "u32 \<Rightarrow> once_pc \<Rightarrow> bool" where
  "once_pc_ok v (Once_Loop op s) = (s \<in> {0, 1, 2, 3, 4, 5, 6} \<and> (s = COMPLETE \<longrightarrow> v = COMPLETE))"
| "once_pc_ok v (Once_Wait op s) = (s AND QUEUED \<noteq> 0)"
| "once_pc_ok v (Running poisoned st) = (st = COMPLETE \<or> st = POISONED)"
| "once_pc_ok v (Wake_Sleepers q) = (q = Closure_Panic \<or> q = Returned True \<or> q = Returned False \<and> v = COMPLETE)"
| "once_pc_ok v (Returned own) = (own \<or> v = COMPLETE)"
| "once_pc_ok v Bad_State = False"
| "once_pc_ok v _ = True"

fun is_running :: "once_pc \<Rightarrow> bool" where
  "is_running (Running p st) = True"
| "is_running _ = False"

definition once_inv :: "once_state \<Rightarrow> bool" where
  "once_inv s \<longleftrightarrow> once_word s \<in> {0, 1, 2, 3, 4, 5, 6}
     \<and> (\<forall>t. once_pc_ok (once_word s) (once_pcs s t))
     \<and> (if once_word s AND STATE_MASK = RUNNING then \<exists>t. \<forall>u. is_running (once_pcs s u) \<longleftrightarrow> u = t
        else \<forall>u. \<not> is_running (once_pcs s u))
     \<and> completed s = (if once_word s = COMPLETE then 1 else 0)
     \<and> ((\<exists>t op. once_pcs s t = Once_Asleep op) \<longrightarrow> once_word s AND QUEUED \<noteq> 0 \<or> (\<exists>u q. once_pcs s u = Wake_Sleepers q))"

definition legal :: "u32 \<Rightarrow> bool" where
  "legal v \<longleftrightarrow> v \<in> {0, 1, 2, 3, 4, 5, 6}"

lemma legal_cases:
  assumes "legal v"
  obtains "v = 0" | "v = 1" | "v = 2" | "v = 3" | "v = 4" | "v = 5" | "v = 6"
  using assms unfolding legal_def by blast

text \<open>What one access may do: nothing to the state bits, or start the run.\<close>

definition quiet :: "u32 \<Rightarrow> u32 \<Rightarrow> bool" where
  "quiet v v' \<longleftrightarrow> legal v' \<and> v' AND STATE_MASK = v AND STATE_MASK \<and> (v AND QUEUED \<noteq> 0 \<longrightarrow> v' AND QUEUED \<noteq> 0)
     \<and> (v' = COMPLETE \<longleftrightarrow> v = COMPLETE)"

definition starts :: "u32 \<Rightarrow> u32 \<Rightarrow> bool" where
  "starts v v' \<longleftrightarrow> legal v' \<and> v AND STATE_MASK \<noteq> RUNNING \<and> v \<noteq> COMPLETE \<and> v' AND STATE_MASK = RUNNING
     \<and> (v AND QUEUED \<noteq> 0 \<longrightarrow> v' AND QUEUED \<noteq> 0)"

fun plain :: "once_pc \<Rightarrow> bool" where
  "plain (Running p st) = False"
| "plain (Wake_Sleepers q) = False"
| "plain _ = True"

definition once_effect :: "u32 \<Rightarrow> u32 \<Rightarrow> once_pc \<Rightarrow> bool" where
  "once_effect v v' p' \<longleftrightarrow> once_pc_ok v' p' \<and> ((\<exists>op. p' = Once_Asleep op) \<longrightarrow> v' AND QUEUED \<noteq> 0)
     \<and> (quiet v v' \<and> plain p' \<or> starts v v' \<and> (\<exists>b. p' = Running b COMPLETE))"

lemma quiet_refl: "legal v \<Longrightarrow> quiet v v"
  by (simp add: quiet_def)

lemma effect_same:
  "legal v \<Longrightarrow> once_pc_ok v p' \<Longrightarrow> plain p' \<Longrightarrow> (\<And>op. p' \<noteq> Once_Asleep op) \<Longrightarrow> once_effect v v p'"
  by (simp add: once_effect_def quiet_refl)

lemma loop_ok: "legal v \<Longrightarrow> once_pc_ok v (Once_Loop op v)"
  by (simp add: legal_def)

lemma queue_effect:
  assumes "legal v" "legal s" "s AND STATE_MASK \<noteq> COMPLETE"
    and "queue_and_wait ok op s v = (v', p')"
  shows "once_effect v v' p'"
proof (cases "s AND QUEUED \<noteq> 0 \<or> \<not> ok \<or> v \<noteq> s")
  case True
  have "s AND QUEUED = 0 \<Longrightarrow> s AND STATE_MASK = s" using assms(2,3) by (cases rule: legal_cases [OF assms(2)]) (simp_all add: once_words)
  then have "v' = v \<and> (p' = Once_Loop op v \<or> p' = Once_Wait op s \<and> s AND QUEUED \<noteq> 0)"
    using True assms(4) by (auto simp: queue_and_wait_def Let_def split: if_splits)
  then show ?thesis using assms(1) loop_ok [OF assms(1), of op] by (auto intro!: effect_same)
next
  case False
  then have s: "s AND STATE_MASK = s" "quiet s (s + QUEUED)" "(s + QUEUED) AND QUEUED \<noteq> 0"
    using assms(3) by (cases rule: legal_cases [OF assms(2)]; simp add: once_words quiet_def legal_def)+
  then have "v' = s + QUEUED" "p' = Once_Wait op (s + QUEUED)" "v = s"
    using False assms(4) by (auto simp: queue_and_wait_def Let_def)
  then show ?thesis using s by (simp add: once_effect_def)
qed

lemma mask_legal: "legal s \<Longrightarrow> s AND STATE_MASK = COMPLETE \<longleftrightarrow> s = COMPLETE"
  "legal s \<Longrightarrow> s AND STATE_MASK \<in> {INCOMPLETE, POISONED, RUNNING, COMPLETE}"
  by (cases rule: legal_cases; simp add: once_words)+

lemma wait_effect:
  assumes "legal v" "once_pc_ok v (Once_Loop op s)" "once_wait ok ign s v = (v', p')"
  shows "once_effect v v' p'"
proof -
  have s: "legal s" "s = COMPLETE \<Longrightarrow> v = COMPLETE" using assms(2) by (auto simp: legal_def)
  show ?thesis
  proof (cases "s AND STATE_MASK = COMPLETE \<or> s AND STATE_MASK = POISONED \<and> \<not> ign")
    case True
    then have "v' = v \<and> (p' = Returned False \<and> v = COMPLETE \<or> p' = Poison_Panic)"
      using assms(3) s mask_legal(1) [OF s(1)] by (auto simp: once_wait_def Let_def split: if_splits)
    then show ?thesis using assms(1) by (auto intro!: effect_same)
  next
    case False
    then have "queue_and_wait ok (Await ign) s v = (v', p')" using assms(3) by (auto simp: once_wait_def Let_def split: if_splits)
    then show ?thesis using False by (intro queue_effect [OF assms(1) s(1)]) auto
  qed
qed

lemma call_effect:
  assumes "legal v" "once_pc_ok v (Once_Loop op s)" "once_call ok ign s v = (v', p')"
  shows "once_effect v v' p'"
proof -
  have s: "legal s" "s = COMPLETE \<Longrightarrow> v = COMPLETE" using assms(2) by (auto simp: legal_def)
  let ?st = "s AND STATE_MASK"
  consider (out) "?st = COMPLETE \<or> ?st = POISONED \<and> \<not> ign" | (run) "\<not> (?st = COMPLETE \<or> ?st = POISONED \<and> \<not> ign)" "?st = INCOMPLETE \<or> ?st = POISONED"
    | (wait) "?st = RUNNING" "?st \<noteq> COMPLETE" "?st \<noteq> POISONED" "?st \<noteq> INCOMPLETE" using mask_legal(2) [OF s(1)] by (auto simp: once_words)
  then show ?thesis
  proof cases
    case out
    then have "v' = v \<and> (p' = Returned False \<and> v = COMPLETE \<or> p' = Poison_Panic)"
      using assms(3) s mask_legal(1) [OF s(1)] by (auto simp: once_call_def Let_def split: if_splits)
    then show ?thesis using assms(1) by (auto intro!: effect_same)
  next
    case run
    let ?n = "RUNNING + (if s AND QUEUED \<noteq> 0 then QUEUED else 0)"
    have n: "starts s ?n" using run(2) by (cases rule: legal_cases [OF s(1)]) (simp_all add: once_words starts_def legal_def)
    have "v' = v \<and> p' = Once_Loop (Call ign) v \<or> v = s \<and> v' = ?n \<and> p' = Running (?st = POISONED) COMPLETE"
      using assms(3) run by (auto simp: once_call_def Let_def compare_exchange_def split: if_splits)
    then show ?thesis
    proof
      assume "v' = v \<and> p' = Once_Loop (Call ign) v"
      then show ?thesis using assms(1) loop_ok [OF assms(1), of "Call ign"] by (auto intro!: effect_same)
    qed (use n in \<open>simp add: once_effect_def\<close>)
  next
    case wait
    then have "queue_and_wait ok (Call ign) s v = (v', p')" using assms(3) by (simp add: once_call_def Let_def)
    then show ?thesis using wait by (intro queue_effect [OF assms(1) s(1)]) auto
  qed
qed

lemma access_effect:
  assumes "legal v" "once_pc_ok v p" "once_access ok p v = Some (v', p')"
  shows "once_effect v v' p' \<and> plain p"
proof (cases p)
  case (Once_Loop op s)
  then show ?thesis using assms call_effect [OF assms(1), of op s ok] wait_effect [OF assms(1), of op s ok] by (cases op) auto
next
  case (Once_Wait op e)
  then show ?thesis using assms by (auto simp: once_effect_def quiet_refl split: if_splits)
next
  case (Once_Reload op)
  then show ?thesis using assms loop_ok [OF assms(1), of op] by (auto intro!: effect_same)
qed (use assms in auto)

lemma pc_ok_mono: "once_pc_ok v p \<Longrightarrow> (v = COMPLETE \<longrightarrow> v' = COMPLETE) \<Longrightarrow> once_pc_ok v' p"
  by (cases "(v, p)" rule: once_pc_ok.cases) auto

lemma once_invI:
  assumes "legal v" "\<And>t. once_pc_ok v (f t)"
    and "if v AND STATE_MASK = RUNNING then \<exists>t. \<forall>u. is_running (f u) \<longleftrightarrow> u = t else \<forall>u. \<not> is_running (f u)"
    and "c = (if v = COMPLETE then 1 else 0)"
    and "\<And>t op. f t = Once_Asleep op \<Longrightarrow> v AND QUEUED \<noteq> 0 \<or> (\<exists>u q. f u = Wake_Sleepers q)"
  shows "once_inv \<lparr>once_word = v, once_pcs = f, completed = c\<rparr>"
proof -
  have "(\<exists>t op. f t = Once_Asleep op) \<longrightarrow> v AND QUEUED \<noteq> 0 \<or> (\<exists>u q. f u = Wake_Sleepers q)" using assms(5) by blast
  then show ?thesis unfolding once_inv_def once_state.simps legal_def [symmetric] using assms(1-4) by blast
qed

lemma once_inv_parts:
  assumes "once_inv s"
  shows "legal (once_word s)" "once_pc_ok (once_word s) (once_pcs s t)"
    "if once_word s AND STATE_MASK = RUNNING then \<exists>t. \<forall>u. is_running (once_pcs s u) \<longleftrightarrow> u = t else \<forall>u. \<not> is_running (once_pcs s u)"
    "completed s = (if once_word s = COMPLETE then 1 else 0)"
    "once_pcs s t = Once_Asleep op \<Longrightarrow> once_word s AND QUEUED \<noteq> 0 \<or> (\<exists>u q. once_pcs s u = Wake_Sleepers q)"
  using assms unfolding once_inv_def legal_def by blast+

lemma plain_not: "plain p \<Longrightarrow> \<not> is_running p" "plain p \<Longrightarrow> p \<noteq> Wake_Sleepers q"
  by (cases p; simp)+

lemma once_inv_access:
  assumes inv: "once_inv s" and e: "once_effect (once_word s) v p" "plain (once_pcs s t)"
  shows "once_inv (s\<lparr>once_word := v, once_pcs := (once_pcs s)(t := p)\<rparr>)"
proof -
  let ?f = "(once_pcs s)(t := p)"
  note i = once_inv_parts [OF inv]
  note d = e(1) [unfolded once_effect_def]
  have c: "once_word s = COMPLETE \<longrightarrow> v = COMPLETE" "v = COMPLETE \<longrightarrow> once_word s = COMPLETE"
    using d mask_legal(1) [of v] by (auto simp: quiet_def starts_def once_words)
  have q: "once_word s AND QUEUED \<noteq> 0 \<Longrightarrow> v AND QUEUED \<noteq> 0" using d by (auto simp: quiet_def starts_def)
  have "once_inv \<lparr>once_word = v, once_pcs = ?f, completed = completed s\<rparr>"
  proof (rule once_invI)
    show "legal v" using d by (auto simp: quiet_def starts_def)
    show "once_pc_ok v (?f u)" for u using d pc_ok_mono [OF i(2) c(1)] by simp
    show "completed s = (if v = COMPLETE then 1 else 0)" using i(4) c by auto
    show "v AND QUEUED \<noteq> 0 \<or> (\<exists>u q. ?f u = Wake_Sleepers q)" if a: "?f r = Once_Asleep op" for r op
    proof (cases "r = t")
      case True
      then show ?thesis using a d by auto
    next
      case False
      then have "once_pcs s r = Once_Asleep op" using a by simp
      then consider "once_word s AND QUEUED \<noteq> 0" | u w where "once_pcs s u = Wake_Sleepers w" using i(5) by blast
      then show ?thesis
      proof cases
        case (2 u w)
        then have "?f u = Wake_Sleepers w" using e(2) plain_not(2) [of "once_pcs s t" w] by auto
        then show ?thesis by blast
      qed (use q in blast)
    qed
    from d show "if v AND STATE_MASK = RUNNING then \<exists>r. \<forall>u. is_running (?f u) \<longleftrightarrow> u = r else \<forall>u. \<not> is_running (?f u)"
    proof (elim conjE disjE)
      assume "quiet (once_word s) v" "plain p"
      moreover have "is_running (?f u) \<longleftrightarrow> is_running (once_pcs s u)" for u
        using plain_not(1) [OF e(2)] plain_not(1) [OF \<open>plain p\<close>] by simp
      ultimately show ?thesis using i(3) unfolding quiet_def by presburger
    next
      assume st: "starts (once_word s) v" "\<exists>b. p = Running b COMPLETE"
      then have "\<forall>u. \<not> is_running (once_pcs s u)" using i(3) by (simp add: starts_def)
      then have "is_running (?f u) \<longleftrightarrow> u = t" for u using st(2) by auto
      then show ?thesis using st(1) by (auto simp: starts_def)
    qed
  qed
  moreover have "s\<lparr>once_word := v, once_pcs := ?f\<rparr> = \<lparr>once_word = v, once_pcs = ?f, completed = completed s\<rparr>" by (cases s) simp
  ultimately show ?thesis by (simp only:)
qed

lemma guard_drop_parts:
  assumes "guard_drop to q v = (v', p)" "to = COMPLETE \<and> q = Returned False \<or> to = POISONED \<and> q \<in> {Returned True, Closure_Panic}"
  shows "v' = to" "once_pc_ok to p" "\<not> is_running p" "v AND QUEUED \<noteq> 0 \<Longrightarrow> \<exists>q. p = Wake_Sleepers q" "\<And>op. p \<noteq> Once_Asleep op"
  using assms by (auto simp: guard_drop_def split: if_splits)

lemma once_inv_drop:
  assumes inv: "once_inv s" and r: "once_pcs s t = Running b st" and g: "guard_drop to q (once_word s) = (v, p)"
    and to: "to = COMPLETE \<and> q = Returned False \<or> to = POISONED \<and> q \<in> {Returned True, Closure_Panic}"
  shows "once_inv (s\<lparr>once_word := v, once_pcs := (once_pcs s)(t := p), completed := completed s + (if to = COMPLETE then 1 else 0)\<rparr>)"
proof -
  let ?f = "(once_pcs s)(t := p)"
  note i = once_inv_parts [OF inv] and g = guard_drop_parts [OF g to]
  have run: "once_word s AND STATE_MASK = RUNNING" "is_running (once_pcs s u) \<Longrightarrow> u = t" for u
    using i(3) r by (auto split: if_splits) (metis is_running.simps(1))+
  have nc: "once_word s \<noteq> COMPLETE" using run(1) by (auto simp: once_words)
  have "once_inv \<lparr>once_word = v, once_pcs = ?f, completed = completed s + (if to = COMPLETE then 1 else 0)\<rparr>"
  proof (rule once_invI)
    show "legal v" using to g(1) by (auto simp: legal_def once_words)
    show "once_pc_ok v (?f u)" for u using g(1,2) pc_ok_mono [OF i(2)] nc by simp
    show "completed s + (if to = COMPLETE then 1 else 0) = (if v = COMPLETE then 1 else 0)" using i(4) nc g(1) by simp
    show "v AND QUEUED \<noteq> 0 \<or> (\<exists>u q. ?f u = Wake_Sleepers q)" if "?f w = Once_Asleep op" for w op
    proof -
      have "once_pcs s w = Once_Asleep op" using that g(5) by (cases "w = t") auto
      then consider "once_word s AND QUEUED \<noteq> 0" | u q where "once_pcs s u = Wake_Sleepers q" using i(5) by blast
      then show ?thesis
      proof cases
        case 1
        then obtain q where "?f t = Wake_Sleepers q" using g(4) by auto
        then show ?thesis by blast
      next
        case (2 u q)
        then have "?f u = Wake_Sleepers q" using r by auto
        then show ?thesis by blast
      qed
    qed
    have "\<not> is_running (?f u)" for u using run(2) [of u] g(3) by auto
    moreover have "v AND STATE_MASK \<noteq> RUNNING" using g(1) to by (auto simp: once_words)
    ultimately show "if v AND STATE_MASK = RUNNING then \<exists>r. \<forall>u. is_running (?f u) \<longleftrightarrow> u = r else \<forall>u. \<not> is_running (?f u)" by simp
  qed
  moreover have "s\<lparr>once_word := v, once_pcs := ?f, completed := c\<rparr> = \<lparr>once_word = v, once_pcs = ?f, completed = c\<rparr>" for c
    by (cases s) simp
  ultimately show ?thesis by (simp only:)
qed

text \<open>Steps that leave the word alone and move threads between places outside the run.\<close>

lemma once_inv_moves:
  assumes inv: "once_inv s" and ok: "\<And>u. once_pc_ok (once_word s) (f u)" and run: "\<And>u. is_running (f u) = is_running (once_pcs s u)"
    and "\<And>u op. f u = Once_Asleep op \<Longrightarrow> once_pcs s u = Once_Asleep op \<and> (\<forall>w q. once_pcs s w = Wake_Sleepers q \<longrightarrow> f w = Wake_Sleepers q)"
  shows "once_inv (s\<lparr>once_pcs := f\<rparr>)"
proof -
  note i = once_inv_parts [OF inv]
  have "once_inv \<lparr>once_word = once_word s, once_pcs = f, completed = completed s\<rparr>"
  proof (rule once_invI)
    show "if once_word s AND STATE_MASK = RUNNING then \<exists>t. \<forall>u. is_running (f u) \<longleftrightarrow> u = t else \<forall>u. \<not> is_running (f u)"
      using i(3) unfolding run .
    show "once_word s AND QUEUED \<noteq> 0 \<or> (\<exists>u q. f u = Wake_Sleepers q)" if "f t = Once_Asleep op" for t op
      using assms(4) [OF that] i(5) by blast
  qed (use i ok in auto)
  moreover have "s\<lparr>once_pcs := f\<rparr> = \<lparr>once_word = once_word s, once_pcs = f, completed = completed s\<rparr>" by (cases s) simp
  ultimately show ?thesis by (simp only:)
qed

lemma once_inv_step:
  assumes inv: "once_inv s" and "once_step s s'"
  shows "once_inv s'"
  using assms(2)
proof cases
  case (access ok t v p)
  then show ?thesis
    using access_effect [OF once_inv_parts(1,2) [OF inv] access(2)] once_inv_access [OF inv] by simp
next
  case (finish t poisoned st v p)
  have "st = COMPLETE \<or> st = POISONED" using once_inv_parts(2) [OF inv, of t] finish(2) by simp
  moreover have "POISONED \<noteq> COMPLETE" by (simp add: once_words)
  ultimately show ?thesis using once_inv_drop [OF inv finish(2,3)] unfolding finish(1) by auto
next
  case (panic t poisoned st v p)
  have "POISONED \<noteq> COMPLETE" by (simp add: once_words)
  moreover have "s\<lparr>once_word := v, once_pcs := f, completed := completed s\<rparr> = s\<lparr>once_word := v, once_pcs := f\<rparr>" for f by (cases s) simp
  ultimately show ?thesis using panic once_inv_drop [OF inv panic(2,3)] by simp
next
  case (poison t poisoned st)
  show ?thesis unfolding poison(1)
    by (rule once_inv_moves [OF inv]) (use once_inv_parts(2) [OF inv] poison(2) in \<open>auto simp: once_poison_def split: if_splits\<close>)
next
  case (enter t op)
  show ?thesis unfolding enter(1)
  proof (rule once_inv_moves [OF inv])
    show "once_pc_ok (once_word s) (((once_pcs s)(t := Once_Loop op (once_word s))) u)" for u
      using once_inv_parts(2) [OF inv] loop_ok [OF once_inv_parts(1) [OF inv], of op] by simp
  qed (use enter(2) in \<open>auto split: if_splits\<close>)
next
  case (wake_all t q)
  let ?f = "\<lambda>u. case once_pcs s u of Once_Asleep op \<Rightarrow> Once_Reload op | p \<Rightarrow> p"
  have q: "once_pc_ok (once_word s) q \<and> \<not> is_running q \<and> (\<forall>op. q \<noteq> Once_Asleep op)"
    using once_inv_parts(2) [OF inv, of t] wake_all(2) by auto
  have f: "once_pc_ok (once_word s) (?f u)" "is_running (?f u) = is_running (once_pcs s u)" "?f u \<noteq> Once_Asleep op" for u op
    using once_inv_parts(2) [OF inv, of u] by (auto split: once_pc.split)
  show ?thesis unfolding wake_all(1)
    by (rule once_inv_moves [OF inv]) (use q f wake_all(2) in \<open>simp_all split: if_splits\<close>)
next
  case (spurious t op)
  show ?thesis unfolding spurious(1)
    by (rule once_inv_moves [OF inv]) (use once_inv_parts(2) [OF inv] spurious(2) in \<open>auto split: if_splits\<close>)
next
  case (leave t)
  show ?thesis unfolding leave(1)
    by (rule once_inv_moves [OF inv]) (use once_inv_parts(2) [OF inv] leave(2) in \<open>auto split: if_splits\<close>)
qed

interpretation once: invariant_system once_step once_new once_inv
proof unfold_locales
  show "once_inv once_new" by (simp add: once_inv_def once_new_def once_words)
qed (rule once_inv_step)

section \<open>Properties\<close>

text \<open>C22: one-time initialisation. In every reachable state at most one thread runs the closure and the word says so,
  at most one run has completed, and a thread that returns from \<open>call\<close> or \<open>wait\<close> does so after the
  completed run, with \<open>is_completed\<close> holding, unless it has itself run a closure that called
  \<open>OnceState::poison\<close>; that call returns normally and leaves the word \<open>POISONED\<close>. While a thread
  sleeps the queued bit is set or a thread is about to wake all sleepers. The assertion that any other state is
  \<open>RUNNING\<close> never fails.\<close>

theorem once_runs_once:
  assumes "reachable once_step once_new s"
  shows "(is_running (once_pcs s t) \<and> is_running (once_pcs s u) \<longrightarrow> t = u \<and> once_word s AND STATE_MASK = RUNNING)
    \<and> completed s \<le> 1
    \<and> (once_pcs s t = Returned False \<longrightarrow> completed s = 1 \<and> is_completed (once_word s))
    \<and> (\<forall>b st v p. once_pcs s t = Running b st \<and> guard_drop st (Returned (st = POISONED)) (once_word s) = (v, p)
         \<longrightarrow> v = st \<and> (st = COMPLETE \<or> st = POISONED) \<and> once_step s (s\<lparr>once_word := v, once_pcs := (once_pcs s)(t := p),
               completed := (if st = COMPLETE then 1 else 0)\<rparr>))
    \<and> (once_pcs s t = Once_Asleep op \<longrightarrow> once_word s AND QUEUED \<noteq> 0 \<or> (\<exists>u q. once_pcs s u = Wake_Sleepers q))
    \<and> once_pcs s t \<noteq> Bad_State"
proof -
  have inv: "once_inv s" by (rule once.inv_reachable [OF assms])
  note i = once_inv_parts [OF inv]
  have "t = u \<and> once_word s AND STATE_MASK = RUNNING" if "is_running (once_pcs s t)" "is_running (once_pcs s u)"
    using i(3) that by (metis (full_types))
  moreover have "completed s \<le> 1" using i(4) by simp
  moreover have "completed s = 1 \<and> is_completed (once_word s)" if "once_pcs s t = Returned False"
    using i(2) [of t] i(4) that by (simp add: is_completed_def)
  moreover have "v = st \<and> (st = COMPLETE \<or> st = POISONED) \<and> once_step s (s\<lparr>once_word := v, once_pcs := (once_pcs s)(t := p),
      completed := (if st = COMPLETE then 1 else 0)\<rparr>)"
    if r: "once_pcs s t = Running b st" and g: "guard_drop st (Returned (st = POISONED)) (once_word s) = (v, p)" for b st v p
  proof -
    have "is_running (once_pcs s t)" using r by simp
    then have "once_word s AND STATE_MASK = RUNNING" using i(3) by metis
    then have "completed s = 0" using i(4) by (auto simp: once_words)
    then show ?thesis using once_step.finish [OF r g] i(2) [of t] r g by (auto simp: guard_drop_def)
  qed
  moreover have "once_pcs s t \<noteq> Bad_State" using i(2) [of t] by auto
  ultimately show ?thesis using i(5) by blast
qed

text \<open>A closure that has poisoned its \<open>Once\<close>, about to return.\<close>

definition demo_running :: once_state where
  "demo_running = \<lparr>once_word = RUNNING, once_pcs = (\<lambda>_. Outside)(0 := Running False POISONED), completed = 0\<rparr>"

lemma demo_running_reachable: "reachable once_step once_new demo_running"
proof -
  let ?a = "once_new\<lparr>once_pcs := (once_pcs once_new)(0 := Once_Loop (Call False) (once_word once_new))\<rparr>"
  let ?b = "\<lparr>once_word = RUNNING, once_pcs = (\<lambda>_. Outside)(0 := Running False COMPLETE), completed = 0\<rparr>"
  have 1: "once_step once_new ?a" by (rule once_step.enter) (simp add: once_new_def)
  have "once_step ?a (?a\<lparr>once_word := RUNNING, once_pcs := (once_pcs ?a)(0 := Running False COMPLETE)\<rparr>)"
    by (rule once_step.access [where ok = True]) (simp add: once_new_def once_call_def once_words)
  moreover have "?a\<lparr>once_word := RUNNING, once_pcs := (once_pcs ?a)(0 := Running False COMPLETE)\<rparr> = ?b"
    by (simp add: once_new_def)
  ultimately have 2: "once_step ?a ?b" by (simp only:)
  have "once_step ?b (?b\<lparr>once_pcs := (once_pcs ?b)(0 := once_poison (once_pcs ?b 0))\<rparr>)" by (rule once_step.poison [of _ 0 False COMPLETE]) simp
  moreover have "?b\<lparr>once_pcs := (once_pcs ?b)(0 := once_poison (once_pcs ?b 0))\<rparr> = demo_running"
    by (simp add: demo_running_def once_poison_def)
  ultimately have 3: "once_step ?b demo_running" by (simp only:)
  show ?thesis by (rule reachable_step [of once_step, OF reachable_step [of once_step, OF reachable_single [of once_step, OF 1] 2] 3])
qed

theorem once_runs_once_witness:
  "completed demo_running \<le> 1 \<and> once_word demo_running AND STATE_MASK = RUNNING
    \<and> once_step demo_running \<lparr>once_word = POISONED, once_pcs = (\<lambda>_. Outside)(0 := Returned True), completed = 0\<rparr>"
  using once_runs_once [OF demo_running_reachable, of 0 0] by (auto simp: demo_running_def guard_drop_def once_words)

end
