(* ===== verification/Duration.thy ===== *)
theory Duration
  imports Rust_Prelude
begin

text \<open>
  \<open>Duration\<close> of \<open>library/core/src/time.rs\<close>: whole seconds in a \<open>u64\<close> and nanoseconds in
  a \<open>u32\<close> whose valid values are below one second. Building a \<open>Nanoseconds\<close> outside that range is
  undefined behaviour, so the constructors that do it without a check are modelled with that outcome. The conversions to and
  from floating point are not modelled.
\<close>

type_synonym u128 = "128 word"

definition NANOS_PER_SEC :: u32 where "NANOS_PER_SEC = 1000000000"
definition NANOS_PER_MILLI :: u32 where "NANOS_PER_MILLI = 1000000"
definition NANOS_PER_MICRO :: u32 where "NANOS_PER_MICRO = 1000"
definition MILLIS_PER_SEC :: u64 where "MILLIS_PER_SEC = 1000"
definition MICROS_PER_SEC :: u64 where "MICROS_PER_SEC = 1000000"
definition SECS_PER_MINUTE :: u64 where "SECS_PER_MINUTE = 60"
definition MINS_PER_HOUR :: u64 where "MINS_PER_HOUR = 60"
definition HOURS_PER_DAY :: u64 where "HOURS_PER_DAY = 24"
definition DAYS_PER_WEEK :: u64 where "DAYS_PER_WEEK = 7"

record duration =
  d_secs :: u64
  d_nanos :: u32

definition Nanoseconds :: "u32 \<Rightarrow> u32 outcome" where
  "Nanoseconds n = (if n < NANOS_PER_SEC then Ret n else UB)"

text \<open>The checked operations on \<open>u64\<close> that the arithmetic is made of.\<close>

definition u64_checked_add :: "u64 \<Rightarrow> u64 \<Rightarrow> u64 option" where
  "u64_checked_add a b = (if unat a + unat b < 2 ^ 64 then Some (a + b) else None)"

definition u64_checked_sub :: "u64 \<Rightarrow> u64 \<Rightarrow> u64 option" where
  "u64_checked_sub a b = (if b \<le> a then Some (a - b) else None)"

definition u64_checked_mul :: "u64 \<Rightarrow> u64 \<Rightarrow> u64 option" where
  "u64_checked_mul a b = (if unat a * unat b < 2 ^ 64 then Some (a * b) else None)"

section \<open>Construction\<close>

definition duration_new :: "u64 \<Rightarrow> u32 \<Rightarrow> duration outcome" where
  "duration_new secs nanos =
     (if nanos < NANOS_PER_SEC then and_then (Nanoseconds nanos) (\<lambda>n. Ret \<lparr>d_secs = secs, d_nanos = n\<rparr>)
      else case u64_checked_add secs (ucast (nanos div NANOS_PER_SEC)) of
        None \<Rightarrow> Panic
      | Some secs \<Rightarrow> and_then (Nanoseconds (nanos mod NANOS_PER_SEC)) (\<lambda>n. Ret \<lparr>d_secs = secs, d_nanos = n\<rparr>))"

definition from_secs :: "u64 \<Rightarrow> duration" where
  "from_secs secs = \<lparr>d_secs = secs, d_nanos = 0\<rparr>"

definition from_millis :: "u64 \<Rightarrow> duration outcome" where
  "from_millis millis =
     (let secs = millis div MILLIS_PER_SEC; subsec_millis = (ucast (millis mod MILLIS_PER_SEC) :: u32) in
      and_then (Nanoseconds (subsec_millis * NANOS_PER_MILLI)) (\<lambda>n. Ret \<lparr>d_secs = secs, d_nanos = n\<rparr>))"

definition from_micros :: "u64 \<Rightarrow> duration outcome" where
  "from_micros micros =
     (let secs = micros div MICROS_PER_SEC; subsec_micros = (ucast (micros mod MICROS_PER_SEC) :: u32) in
      and_then (Nanoseconds (subsec_micros * NANOS_PER_MICRO)) (\<lambda>n. Ret \<lparr>d_secs = secs, d_nanos = n\<rparr>))"

definition from_nanos :: "u64 \<Rightarrow> duration outcome" where
  "from_nanos nanos =
     (let per_sec = (ucast NANOS_PER_SEC :: u64); secs = nanos div per_sec; subsec_nanos = (ucast (nanos mod per_sec) :: u32) in
      and_then (Nanoseconds subsec_nanos) (\<lambda>n. Ret \<lparr>d_secs = secs, d_nanos = n\<rparr>))"

definition from_mins :: "u64 \<Rightarrow> duration outcome" where
  "from_mins mins = (if mins > (- 1) div SECS_PER_MINUTE then Panic else Ret (from_secs (mins * SECS_PER_MINUTE)))"

definition from_hours :: "u64 \<Rightarrow> duration outcome" where
  "from_hours hours =
     (if hours > (- 1) div (SECS_PER_MINUTE * MINS_PER_HOUR) then Panic
      else Ret (from_secs (hours * MINS_PER_HOUR * SECS_PER_MINUTE)))"

definition from_days :: "u64 \<Rightarrow> duration outcome" where
  "from_days days =
     (if days > (- 1) div (SECS_PER_MINUTE * MINS_PER_HOUR * HOURS_PER_DAY) then Panic
      else Ret (from_secs (days * MINS_PER_HOUR * SECS_PER_MINUTE * HOURS_PER_DAY)))"

definition from_weeks :: "u64 \<Rightarrow> duration outcome" where
  "from_weeks weeks =
     (if weeks > (- 1) div (SECS_PER_MINUTE * MINS_PER_HOUR * HOURS_PER_DAY * DAYS_PER_WEEK) then Panic
      else Ret (from_secs (weeks * MINS_PER_HOUR * SECS_PER_MINUTE * HOURS_PER_DAY * DAYS_PER_WEEK)))"

section \<open>Observation\<close>

definition is_zero :: "duration \<Rightarrow> bool" where
  "is_zero d = (d_secs d = 0 \<and> d_nanos d = 0)"

definition as_secs :: "duration \<Rightarrow> u64" where "as_secs d = d_secs d"
definition subsec_millis :: "duration \<Rightarrow> u32" where "subsec_millis d = d_nanos d div NANOS_PER_MILLI"
definition subsec_micros :: "duration \<Rightarrow> u32" where "subsec_micros d = d_nanos d div NANOS_PER_MICRO"
definition subsec_nanos :: "duration \<Rightarrow> u32" where "subsec_nanos d = d_nanos d"

definition as_millis :: "duration \<Rightarrow> u128" where
  "as_millis d = ucast (d_secs d) * ucast MILLIS_PER_SEC + ucast (d_nanos d div NANOS_PER_MILLI)"

definition as_micros :: "duration \<Rightarrow> u128" where
  "as_micros d = ucast (d_secs d) * ucast MICROS_PER_SEC + ucast (d_nanos d div NANOS_PER_MICRO)"

definition as_nanos :: "duration \<Rightarrow> u128" where
  "as_nanos d = ucast (d_secs d) * ucast NANOS_PER_SEC + ucast (d_nanos d)"

section \<open>Arithmetic\<close>

definition duration_checked_add :: "duration \<Rightarrow> duration \<Rightarrow> duration option outcome" where
  "duration_checked_add d rhs =
     (case u64_checked_add (d_secs d) (d_secs rhs) of
        None \<Rightarrow> Ret None
      | Some secs \<Rightarrow>
          (let nanos = d_nanos d + d_nanos rhs in
           if nanos \<ge> NANOS_PER_SEC then
             (let nanos = nanos - NANOS_PER_SEC in
              case u64_checked_add secs 1 of
                None \<Rightarrow> Ret None
              | Some secs \<Rightarrow> and_then (duration_new secs nanos) (\<lambda>r. Ret (Some r)))
           else and_then (duration_new secs nanos) (\<lambda>r. Ret (Some r))))"

definition duration_checked_sub :: "duration \<Rightarrow> duration \<Rightarrow> duration option outcome" where
  "duration_checked_sub d rhs =
     (case u64_checked_sub (d_secs d) (d_secs rhs) of
        None \<Rightarrow> Ret None
      | Some secs \<Rightarrow>
          if d_nanos d \<ge> d_nanos rhs then and_then (duration_new secs (d_nanos d - d_nanos rhs)) (\<lambda>r. Ret (Some r))
          else case u64_checked_sub secs 1 of
            None \<Rightarrow> Ret None
          | Some secs \<Rightarrow> and_then (duration_new secs (d_nanos d + NANOS_PER_SEC - d_nanos rhs)) (\<lambda>r. Ret (Some r)))"

definition duration_checked_mul :: "duration \<Rightarrow> u32 \<Rightarrow> duration option outcome" where
  "duration_checked_mul d rhs =
     (let total_nanos = (ucast (d_nanos d) :: u64) * ucast rhs;
          extra_secs = total_nanos div ucast NANOS_PER_SEC;
          nanos = (ucast (total_nanos mod ucast NANOS_PER_SEC) :: u32)
      in case u64_checked_mul (d_secs d) (ucast rhs) of
           None \<Rightarrow> Ret None
         | Some s \<Rightarrow> (case u64_checked_add s extra_secs of
             None \<Rightarrow> Ret None
           | Some secs \<Rightarrow> and_then (duration_new secs nanos) (\<lambda>r. Ret (Some r))))"

definition duration_checked_div :: "duration \<Rightarrow> u32 \<Rightarrow> duration option outcome" where
  "duration_checked_div d rhs =
     (if rhs \<noteq> 0 then
        (let secs = d_secs d div ucast rhs; extra_secs = d_secs d mod ucast rhs;
             nanos = d_nanos d div rhs; extra_nanos = d_nanos d mod rhs;
             nanos = nanos + ucast ((extra_secs * ucast NANOS_PER_SEC + ucast extra_nanos) div (ucast rhs :: u64))
         in and_then (duration_new secs nanos) (\<lambda>r. Ret (Some r)))
      else Ret None)"

text \<open>\<open>expect\<close> and \<open>unwrap\<close> panic on \<open>None\<close>.\<close>

definition expect :: "'a option outcome \<Rightarrow> 'a outcome" where
  "expect m = and_then m (\<lambda>r. case r of Some x \<Rightarrow> Ret x | None \<Rightarrow> Panic)"

definition or_else :: "'a option outcome \<Rightarrow> 'a outcome \<Rightarrow> 'a outcome" where
  "or_else m y = and_then m (\<lambda>r. case r of Some x \<Rightarrow> Ret x | None \<Rightarrow> y)"

definition duration_MAX :: "duration outcome" where "duration_MAX = duration_new (- 1) (NANOS_PER_SEC - 1)"
definition duration_ZERO :: "duration outcome" where "duration_ZERO = from_nanos 0"

definition duration_saturating_add :: "duration \<Rightarrow> duration \<Rightarrow> duration outcome" where
  "duration_saturating_add d rhs = or_else (duration_checked_add d rhs) duration_MAX"

definition duration_saturating_sub :: "duration \<Rightarrow> duration \<Rightarrow> duration outcome" where
  "duration_saturating_sub d rhs = or_else (duration_checked_sub d rhs) duration_ZERO"

definition duration_saturating_mul :: "duration \<Rightarrow> u32 \<Rightarrow> duration outcome" where
  "duration_saturating_mul d rhs = or_else (duration_checked_mul d rhs) duration_MAX"

definition duration_abs_diff :: "duration \<Rightarrow> duration \<Rightarrow> duration outcome" where
  "duration_abs_diff d other =
     and_then (duration_checked_sub d other) (\<lambda>r. case r of
       Some res \<Rightarrow> Ret res | None \<Rightarrow> expect (duration_checked_sub other d))"

text \<open>The operators \<open>+\<close>, \<open>-\<close>, \<open>*\<close> and \<open>/\<close>.\<close>

definition duration_add :: "duration \<Rightarrow> duration \<Rightarrow> duration outcome" where "duration_add d rhs = expect (duration_checked_add d rhs)"
definition duration_sub :: "duration \<Rightarrow> duration \<Rightarrow> duration outcome" where "duration_sub d rhs = expect (duration_checked_sub d rhs)"
definition duration_mul :: "duration \<Rightarrow> u32 \<Rightarrow> duration outcome" where "duration_mul d rhs = expect (duration_checked_mul d rhs)"
definition duration_div :: "duration \<Rightarrow> u32 \<Rightarrow> duration outcome" where "duration_div d rhs = expect (duration_checked_div d rhs)"

text \<open>The loop of \<open>sum_durations\<close>, which carries seconds only when the nanoseconds would not fit.\<close>

fun sum_loop :: "u64 \<Rightarrow> u64 \<Rightarrow> duration list \<Rightarrow> (u64 \<times> u64) outcome" where
  "sum_loop total_secs total_nanos [] = Ret (total_secs, total_nanos)"
| "sum_loop total_secs total_nanos (entry # es) =
     (case u64_checked_add total_secs (d_secs entry) of
        None \<Rightarrow> Panic
      | Some total_secs \<Rightarrow>
          (case u64_checked_add total_nanos (ucast (d_nanos entry)) of
             Some n \<Rightarrow> sum_loop total_secs n es
           | None \<Rightarrow> (case u64_checked_add total_secs (total_nanos div ucast NANOS_PER_SEC) of
               None \<Rightarrow> Panic
             | Some total_secs \<Rightarrow> sum_loop total_secs (total_nanos mod ucast NANOS_PER_SEC + ucast (d_nanos entry)) es)))"

definition sum_durations :: "duration list \<Rightarrow> duration outcome" where
  "sum_durations es =
     and_then (sum_loop 0 0 es) (\<lambda>(total_secs, total_nanos).
       case u64_checked_add total_secs (total_nanos div ucast NANOS_PER_SEC) of
         None \<Rightarrow> Panic
       | Some total_secs \<Rightarrow> duration_new total_secs (ucast (total_nanos mod ucast NANOS_PER_SEC)))"

section \<open>Nanoseconds as numbers\<close>

definition d_ok :: "duration \<Rightarrow> bool" where
  "d_ok d \<longleftrightarrow> unat (d_nanos d) < 10 ^ 9"

definition nanos_of :: "duration \<Rightarrow> nat" where
  "nanos_of d = unat (d_secs d) * 10 ^ 9 + unat (d_nanos d)"

definition dur :: "nat \<Rightarrow> duration" where
  "dur n = \<lparr>d_secs = word_of_nat (n div 10 ^ 9), d_nanos = word_of_nat (n mod 10 ^ 9)\<rparr>"

definition dur_bound :: nat where
  "dur_bound = 2 ^ 64 * 10 ^ 9"

lemma duration_consts [simp]:
  "unat NANOS_PER_SEC = 10 ^ 9" "unat NANOS_PER_MILLI = 10 ^ 6" "unat NANOS_PER_MICRO = 1000" "unat MILLIS_PER_SEC = 1000"
  "unat MICROS_PER_SEC = 10 ^ 6" "unat SECS_PER_MINUTE = 60" "unat MINS_PER_HOUR = 60" "unat HOURS_PER_DAY = 24" "unat DAYS_PER_WEEK = 7"
  by (simp_all add: NANOS_PER_SEC_def NANOS_PER_MILLI_def NANOS_PER_MICRO_def MILLIS_PER_SEC_def MICROS_PER_SEC_def
      SECS_PER_MINUTE_def MINS_PER_HOUR_def HOURS_PER_DAY_def DAYS_PER_WEEK_def)

lemma unat_widen: "LENGTH('a) \<le> LENGTH('b) \<Longrightarrow> unat (ucast (w :: 'a::len word) :: 'b::len word) = unat w"
  using order_less_le_trans [OF unat_less_pow [of w] power_increasing [of "LENGTH('a)" "LENGTH('b)" "2 :: nat"]]
  by (simp add: unat_ucast_mod)

lemma unat_narrow: "unat w < 2 ^ LENGTH('b) \<Longrightarrow> unat (ucast (w :: 'a::len word) :: 'b::len word) = unat w"
  by (simp add: unat_ucast_mod)

lemma unat_of_nat_small: "n < 2 ^ LENGTH('a) \<Longrightarrow> unat (word_of_nat n :: 'a::len word) = n"
  by (simp add: unsigned_of_nat take_bit_eq_mod)

lemma unat_plus_exact: "unat a + unat b < 2 ^ LENGTH('a) \<Longrightarrow> unat (a + b :: 'a::len word) = unat a + unat b"
  by (simp add: unat_word_ariths)

lemma unat_times_exact: "unat a * unat b < 2 ^ LENGTH('a) \<Longrightarrow> unat (a * b :: 'a::len word) = unat a * unat b"
  by (simp add: unat_word_ariths)

lemma unat_minus_exact: "unat b \<le> unat a \<Longrightarrow> unat (a - b :: 'a::len word) = unat a - unat b"
  by (simp add: unat_sub word_le_nat_alt)

lemmas unat_divmod = unat_div_distrib unat_mod_distrib

lemma quotient_less: "r < k \<Longrightarrow> a * k + r < b * k \<longleftrightarrow> a < (b :: nat)"
proof
  assume "r < k" "a < b"
  then have "a * k + r < Suc a * k" "Suc a * k \<le> b * k" by (simp, intro mult_le_mono1) simp
  then show "a * k + r < b * k" by simp
next
  assume "r < k" "a * k + r < b * k"
  then have "a * k < b * k" by linarith
  then show "a < b" by (metis mult_less_cancel2)
qed

lemma nanos_dur:
  assumes "n < dur_bound"
  shows "nanos_of (dur n) = n" "d_ok (dur n)"
proof -
  have "n div 10 ^ 9 < 2 ^ 64" using assms unfolding dur_bound_def by (simp add: less_mult_imp_div_less)
  moreover have "n mod 10 ^ 9 < 2 ^ 32" using mod_less_divisor [of "10 ^ 9" n] by simp
  ultimately show "nanos_of (dur n) = n" "d_ok (dur n)" by (simp_all add: nanos_of_def dur_def d_ok_def unat_of_nat_small)
qed

lemma dur_of: "unat k < 10 ^ 9 \<Longrightarrow> \<lparr>d_secs = s, d_nanos = k\<rparr> = dur (unat s * 10 ^ 9 + unat k)"
  by (simp add: dur_def)

lemma dur_nanos: "d_ok d \<Longrightarrow> dur (nanos_of d) = d"
proof -
  have "\<lparr>d_secs = d_secs d, d_nanos = d_nanos d\<rparr> = d" by (cases d) simp
  moreover assume "d_ok d"
  ultimately show ?thesis using dur_of [of "d_nanos d" "d_secs d"] unfolding d_ok_def nanos_of_def by (simp only:)
qed

lemma nanos_less: "d_ok d \<Longrightarrow> nanos_of d < dur_bound"
  using unat_less_pow [of "d_secs d"] by (simp add: d_ok_def nanos_of_def dur_bound_def)

lemma Nanoseconds_Ret: "unat n < 10 ^ 9 \<Longrightarrow> Nanoseconds n = Ret n"
  by (simp add: Nanoseconds_def word_less_nat_alt)

lemma u64_checked_exact:
  "u64_checked_add a b = (if unat a + unat b < 2 ^ 64 then Some (word_of_nat (unat a + unat b)) else None)"
  "u64_checked_mul a b = (if unat a * unat b < 2 ^ 64 then Some (word_of_nat (unat a * unat b)) else None)"
  "u64_checked_sub a b = (if unat b \<le> unat a then Some (word_of_nat (unat a - unat b)) else None)"
  by (auto simp: u64_checked_add_def u64_checked_mul_def u64_checked_sub_def word_le_nat_alt unat_sub word_unat_eq_iff
      unat_word_ariths unat_of_nat_small unat_less_pow [THEN order_le_less_trans [rotated]])

lemma duration_new_exact:
  "duration_new secs nanos = (if unat secs * 10 ^ 9 + unat nanos < dur_bound then Ret (dur (unat secs * 10 ^ 9 + unat nanos)) else Panic)"
proof (cases "unat nanos < 10 ^ 9")
  case True
  then have "unat secs * 10 ^ 9 + unat nanos < dur_bound" using nanos_less [of "\<lparr>d_secs = secs, d_nanos = nanos\<rparr>"]
    by (simp add: d_ok_def nanos_of_def)
  then show ?thesis using True dur_of [OF True, of secs] by (simp add: duration_new_def word_less_nat_alt Nanoseconds_Ret)
next
  case False
  let ?q = "unat nanos div 10 ^ 9" and ?r = "unat nanos mod 10 ^ 9"
  have n: "unat nanos = ?q * 10 ^ 9 + ?r" "?r < 10 ^ 9" by simp_all
  have q: "unat (ucast (nanos div NANOS_PER_SEC) :: u64) = ?q" by (simp add: unat_widen unat_divmod)
  have r: "Nanoseconds (nanos mod NANOS_PER_SEC) = Ret (nanos mod NANOS_PER_SEC)" "unat (nanos mod NANOS_PER_SEC) = ?r"
    by (simp_all add: Nanoseconds_Ret unat_divmod)
  have iff: "unat secs * 10 ^ 9 + unat nanos < dur_bound \<longleftrightarrow> unat secs + ?q < 2 ^ 64"
  proof -
    have "unat secs * 10 ^ 9 + unat nanos = (unat secs + ?q) * 10 ^ 9 + ?r"
      unfolding add_mult_distrib add.assoc n(1) [symmetric] ..
    then show ?thesis unfolding dur_bound_def by (simp only: quotient_less [OF n(2)])
  qed
  show ?thesis
  proof (cases "unat secs + ?q < 2 ^ 64")
    case True
    have u: "unat (word_of_nat (unat secs + ?q) :: u64) = unat secs + ?q" by (rule unat_of_nat_small) (use True in simp)
    have "(unat secs + ?q) * 10 ^ 9 + ?r = unat secs * 10 ^ 9 + unat nanos"
      unfolding add_mult_distrib add.assoc n(1) [symmetric] ..
    then have "\<lparr>d_secs = word_of_nat (unat secs + ?q), d_nanos = nanos mod NANOS_PER_SEC\<rparr> = dur (unat secs * 10 ^ 9 + unat nanos)"
      using dur_of [of "nanos mod NANOS_PER_SEC" "word_of_nat (unat secs + ?q)", unfolded r(2) u, OF n(2)] by (simp only:)
    then show ?thesis using False True iff q r(1) by (simp add: duration_new_def word_less_nat_alt u64_checked_exact)
  next
    case over: False
    then show ?thesis using False iff q by (simp add: duration_new_def word_less_nat_alt u64_checked_exact)
  qed
qed

section \<open>Arithmetic is exact\<close>

text \<open>Numbers with a carry: \<open>s\<close> seconds and \<open>n\<close> nanoseconds.\<close>

lemma new_word:
  assumes "s < 2 ^ 64" "n < 10 ^ 9" "unat secs = s" "unat nanos = n"
  shows "duration_new secs nanos = Ret (dur (s * 10 ^ 9 + n))"
proof -
  have "s * 10 ^ 9 + n < dur_bound" unfolding dur_bound_def quotient_less [OF assms(2)] by (rule assms(1))
  then show ?thesis unfolding duration_new_exact assms(3,4) by (rule if_P)
qed

lemma checked_add_cases:
  obtains c where "u64_checked_add a b = Some c" "unat c = unat a + unat b" "unat a + unat b < 2 ^ 64"
  | "u64_checked_add a b = None" "\<not> unat a + unat b < 2 ^ 64"
  using unat_plus_exact [of a b] by (cases "unat a + unat b < 2 ^ 64") (auto simp: u64_checked_add_def)

lemma checked_sub_cases:
  obtains c where "u64_checked_sub a b = Some c" "unat c = unat a - unat b" "unat b \<le> unat a"
  | "u64_checked_sub a b = None" "\<not> unat b \<le> unat a"
  using unat_minus_exact [of b a] by (cases "b \<le> a") (auto simp: u64_checked_sub_def word_le_nat_alt)

lemma checked_mul_cases:
  obtains c where "u64_checked_mul a b = Some c" "unat c = unat a * unat b" "unat a * unat b < 2 ^ 64"
  | "u64_checked_mul a b = None" "\<not> unat a * unat b < 2 ^ 64"
  using unat_times_exact [of a b] by (cases "unat a * unat b < 2 ^ 64") (auto simp: u64_checked_mul_def)

definition limited :: "nat \<Rightarrow> duration option" where
  "limited n = (if n < dur_bound then Some (dur n) else None)"

lemma limited_carry: "r < 10 ^ 9 \<Longrightarrow> limited (s * 10 ^ 9 + r) = (if s < 2 ^ 64 then Some (dur (s * 10 ^ 9 + r)) else None)"
  unfolding limited_def dur_bound_def quotient_less ..

lemma duration_checked_add_exact:
  assumes "d_ok d" "d_ok e"
  shows "duration_checked_add d e = Ret (limited (nanos_of d + nanos_of e))"
proof -
  let ?s = "unat (d_secs d) + unat (d_secs e)" and ?n = "unat (d_nanos d) + unat (d_nanos e)"
  have n: "?n < 2 * 10 ^ 9" "unat (d_nanos d + d_nanos e) = ?n"
    using assms by (auto simp: d_ok_def intro!: unat_plus_exact)
  have v: "nanos_of d + nanos_of e = ?s * 10 ^ 9 + ?n" by (simp add: nanos_of_def algebra_simps)
  have ge: "d_nanos d + d_nanos e \<ge> NANOS_PER_SEC \<longleftrightarrow> 10 ^ 9 \<le> ?n" by (simp add: word_le_nat_alt n(2))
  show ?thesis
  proof (cases "10 ^ 9 \<le> ?n")
    case False
    then have "limited (nanos_of d + nanos_of e) = (if ?s < 2 ^ 64 then Some (dur (?s * 10 ^ 9 + ?n)) else None)"
      unfolding v by (intro limited_carry) simp
    moreover have "duration_checked_add d e = Ret (if ?s < 2 ^ 64 then Some (dur (?s * 10 ^ 9 + ?n)) else None)"
    proof (cases rule: checked_add_cases [of "d_secs d" "d_secs e"])
      case (1 c)
      then show ?thesis using False ge new_word [of ?s ?n c "d_nanos d + d_nanos e"] n(2)
        by (simp add: duration_checked_add_def Let_def del: unat_of_nat)
    qed (simp add: duration_checked_add_def)
    ultimately show ?thesis by simp
  next
    case True
    let ?m = "?n - 10 ^ 9"
    have m: "?m < 10 ^ 9" "unat (d_nanos d + d_nanos e - NANOS_PER_SEC) = ?m"
      using n True unat_minus_exact [of NANOS_PER_SEC "d_nanos d + d_nanos e"] by auto
    have "nanos_of d + nanos_of e = (?s + 1) * 10 ^ 9 + ?m" unfolding v using True by simp
    then have l: "limited (nanos_of d + nanos_of e) = (if ?s + 1 < 2 ^ 64 then Some (dur ((?s + 1) * 10 ^ 9 + ?m)) else None)"
      using limited_carry [OF m(1), of "?s + 1"] by (simp only:)
    have "duration_checked_add d e = Ret (if ?s + 1 < 2 ^ 64 then Some (dur ((?s + 1) * 10 ^ 9 + ?m)) else None)"
    proof (cases rule: checked_add_cases [of "d_secs d" "d_secs e"])
      case (1 c)
      note c = 1
      show ?thesis
      proof (cases rule: checked_add_cases [of c 1])
        case (1 k)
        then have "duration_new k (d_nanos d + d_nanos e - NANOS_PER_SEC) = Ret (dur ((?s + 1) * 10 ^ 9 + ?m))"
          using c m by (intro new_word) simp_all
        then show ?thesis using 1 c True ge by (simp add: duration_checked_add_def Let_def)
      qed (use c True ge in \<open>simp add: duration_checked_add_def Let_def\<close>)
    qed (simp add: duration_checked_add_def)
    then show ?thesis using l by simp
  qed
qed

lemma duration_checked_sub_exact:
  assumes "d_ok d" "d_ok e"
  shows "duration_checked_sub d e = Ret (if nanos_of e \<le> nanos_of d then Some (dur (nanos_of d - nanos_of e)) else None)"
proof -
  let ?sd = "unat (d_secs d)" and ?se = "unat (d_secs e)" and ?nd = "unat (d_nanos d)" and ?ne = "unat (d_nanos e)"
  have ok: "?nd < 10 ^ 9" "?ne < 10 ^ 9" using assms by (auto simp: d_ok_def)
  have v: "nanos_of d = ?sd * 10 ^ 9 + ?nd" "nanos_of e = ?se * 10 ^ 9 + ?ne" by (simp_all add: nanos_of_def)
  have ge: "d_nanos e \<le> d_nanos d \<longleftrightarrow> ?ne \<le> ?nd" by (simp add: word_le_nat_alt)
  show ?thesis
  proof (cases rule: checked_sub_cases [of "d_secs d" "d_secs e"])
    case 2
    then have "\<not> nanos_of e \<le> nanos_of d" unfolding v using ok by simp
    then show ?thesis using 2 by (simp add: duration_checked_sub_def)
  next
    case (1 c)
    have b: "?sd - ?se < 2 ^ 64" using unat_less_pow [of "d_secs d"] by simp
    show ?thesis
    proof (cases "?ne \<le> ?nd")
      case True
      have "nanos_of e \<le> nanos_of d" "nanos_of d - nanos_of e = (?sd - ?se) * 10 ^ 9 + (?nd - ?ne)"
        unfolding v using 1(3) True ok by (auto simp: diff_mult_distrib)
      moreover have "duration_new c (d_nanos d - d_nanos e) = Ret (dur ((?sd - ?se) * 10 ^ 9 + (?nd - ?ne)))"
        using 1 b ok True unat_minus_exact [of "d_nanos e" "d_nanos d"] by (intro new_word) simp_all
      ultimately show ?thesis using 1(1) True ge by (simp add: duration_checked_sub_def)
    next
      case False
      note less = False
      show ?thesis
      proof (cases rule: checked_sub_cases [of c 1])
        case 2
        then have "?sd = ?se" using 1 by simp
        then have "\<not> nanos_of e \<le> nanos_of d" unfolding v using less by simp
        then show ?thesis using 1(1) 2(1) less ge by (simp add: duration_checked_sub_def)
      next
        case (1 k)
        have s: "?se + 1 \<le> ?sd" using 1 \<open>unat c = ?sd - ?se\<close> by simp
        have u: "unat (d_nanos d + NANOS_PER_SEC - d_nanos e) = ?nd + 10 ^ 9 - ?ne"
          using ok unat_plus_exact [of "d_nanos d" NANOS_PER_SEC] unat_minus_exact [of "d_nanos e" "d_nanos d + NANOS_PER_SEC"] by simp
        have "nanos_of e \<le> nanos_of d" "nanos_of d - nanos_of e = (?sd - ?se - 1) * 10 ^ 9 + (?nd + 10 ^ 9 - ?ne)"
          unfolding v using s less ok by (auto simp: diff_mult_distrib)
        moreover have "duration_new k (d_nanos d + NANOS_PER_SEC - d_nanos e) = Ret (dur ((?sd - ?se - 1) * 10 ^ 9 + (?nd + 10 ^ 9 - ?ne)))"
          using 1 \<open>unat c = ?sd - ?se\<close> b u less ok by (intro new_word) simp_all
        ultimately show ?thesis using \<open>u64_checked_sub (d_secs d) (d_secs e) = Some c\<close> 1(1) less ge
          by (simp add: duration_checked_sub_def)
      qed
    qed
  qed
qed

lemma limited_none: "dur_bound \<le> s * 10 ^ 9 + n \<Longrightarrow> limited (s * 10 ^ 9 + n) = None"
  by (simp add: limited_def)

lemma bound_mult: "2 ^ 64 \<le> s \<Longrightarrow> dur_bound \<le> s * 10 ^ 9 + n"
  unfolding dur_bound_def by (rule trans_le_add1) (rule mult_le_mono1)

lemma duration_checked_mul_exact:
  assumes "d_ok d"
  shows "duration_checked_mul d rhs = Ret (limited (nanos_of d * unat rhs))"
proof -
  let ?t = "unat (d_nanos d) * unat rhs"
  let ?q = "?t div 10 ^ 9" and ?r = "?t mod 10 ^ 9" and ?s = "unat (d_secs d) * unat rhs"
  have "?t < 10 ^ 9 * 2 ^ 32" using assms unat_less_pow [of rhs] unfolding d_ok_def by (intro mult_strict_mono) auto
  then have t: "unat ((ucast (d_nanos d) :: u64) * ucast rhs) = ?t"
    using unat_times_exact [of "ucast (d_nanos d) :: u64" "ucast rhs"] by (simp add: unat_widen)
  have q: "unat ((ucast (d_nanos d) :: u64) * ucast rhs div ucast NANOS_PER_SEC) = ?q"
    "unat (ucast ((ucast (d_nanos d) :: u64) * ucast rhs mod ucast NANOS_PER_SEC) :: u32) = ?r"
    using mod_less_divisor [of "10 ^ 9" ?t] by (subst unat_divmod | subst unat_narrow | simp add: unat_divmod t unat_widen)+
  have r: "?r < 10 ^ 9" by simp
  have v: "nanos_of d * unat rhs = (?s + ?q) * 10 ^ 9 + ?r"
    unfolding nanos_of_def add_mult_distrib add.assoc div_mult_mod_eq by (simp add: ac_simps)
  show ?thesis
  proof (cases rule: checked_mul_cases [of "d_secs d" "ucast rhs"])
    case 2
    then have "limited (nanos_of d * unat rhs) = None" unfolding v by (intro limited_none bound_mult) (simp add: unat_widen)
    then show ?thesis using 2 by (simp add: duration_checked_mul_def)
  next
    case (1 c)
    have c: "unat c = ?s" using 1 by (simp add: unat_widen)
    show ?thesis
    proof (cases rule: checked_add_cases [of c "(ucast (d_nanos d) :: u64) * ucast rhs div ucast NANOS_PER_SEC"])
      case 2
      then have "limited (nanos_of d * unat rhs) = None" unfolding v q(1) c by (intro limited_none bound_mult) simp
      then show ?thesis using 1(1) 2(1) by (simp add: duration_checked_mul_def Let_def)
    next
      case (1 k)
      then have "limited (nanos_of d * unat rhs) = Some (dur ((?s + ?q) * 10 ^ 9 + ?r))"
        unfolding v limited_carry [OF r] using c q(1) by simp
      moreover have "duration_new k (ucast ((ucast (d_nanos d) :: u64) * ucast rhs mod ucast NANOS_PER_SEC)) = Ret (dur ((?s + ?q) * 10 ^ 9 + ?r))"
        using 1 c q r by (intro new_word) simp_all
      ultimately show ?thesis using \<open>u64_checked_mul (d_secs d) (ucast rhs) = Some c\<close> 1(1) by (simp add: duration_checked_mul_def Let_def)
    qed
  qed
qed

lemma div_carry: "0 < (r :: nat) \<Longrightarrow> x = y + q * r \<Longrightarrow> x div r = q + y div r"
  by simp

lemma div_parts:
  fixes s n r k :: nat
  assumes "0 < r" "n < k"
  shows "(s * k + n) div r = s div r * k + (n div r + (s mod r * k + n mod r) div r)"
    "n div r + (s mod r * k + n mod r) div r < k"
proof -
  have g: "(s mod r * k + n) div r = n div r + (s mod r * k + n mod r) div r"
    by (rule div_carry [OF assms(1)]) simp
  have "s * k = (s mod r + s div r * r) * k" by (simp only: mod_div_mult_eq)
  then have "s * k + n = (s mod r * k + n) + (s div r * k) * r"
    by (simp only: add_mult_distrib add_mult_distrib2 ac_simps)
  from div_carry [OF assms(1) this]
  show "(s * k + n) div r = s div r * k + (n div r + (s mod r * k + n mod r) div r)" by (simp only: g)
  have "s mod r * k + n < r * k" unfolding quotient_less [OF assms(2)] using assms(1) by simp
  then show "n div r + (s mod r * k + n mod r) div r < k"
    unfolding g [symmetric] by (simp add: less_mult_imp_div_less mult.commute)
qed

lemma duration_checked_div_exact:
  assumes "d_ok d"
  shows "duration_checked_div d rhs = Ret (if rhs = 0 then None else Some (dur (nanos_of d div unat rhs)))"
proof (cases "rhs = 0")
  case False
  let ?r = "unat rhs" and ?s = "unat (d_secs d)" and ?n = "unat (d_nanos d)"
  have r: "0 < ?r" "?r < 2 ^ 32" using False unat_less_pow [of rhs] by (simp_all add: unat_gt_0)
  have n: "?n < 10 ^ 9" using assms by (simp add: d_ok_def)
  note p = div_parts [OF r(1) n, of ?s]
  let ?e = "(d_secs d mod ucast rhs) * ucast NANOS_PER_SEC + ucast (d_nanos d mod rhs)"
  have m: "?s mod ?r < 2 ^ 32" "?n mod ?r < 2 ^ 32" using r by (simp_all add: order_less_trans [OF mod_less_divisor])
  have e1: "unat ((d_secs d mod ucast rhs) * ucast NANOS_PER_SEC) = ?s mod ?r * 10 ^ 9"
    using m(1) unat_times_exact [of "d_secs d mod ucast rhs" "ucast NANOS_PER_SEC"] by (simp add: unat_divmod unat_widen)
  have e: "unat ?e = ?s mod ?r * 10 ^ 9 + ?n mod ?r"
    using m e1 unat_plus_exact [of "(d_secs d mod ucast rhs) * ucast NANOS_PER_SEC" "ucast (d_nanos d mod rhs)"]
    by (simp add: unat_divmod unat_widen)
  have w: "unat (ucast (?e div ucast rhs) :: u32) = (?s mod ?r * 10 ^ 9 + ?n mod ?r) div ?r"
    using p(2) by (subst unat_narrow) (simp_all add: unat_divmod unat_widen e)
  have "unat (d_nanos d div rhs + ucast (?e div ucast rhs)) = ?n div ?r + (?s mod ?r * 10 ^ 9 + ?n mod ?r) div ?r"
    using p(2) w unat_plus_exact [of "d_nanos d div rhs" "ucast (?e div ucast rhs)"] by (simp add: unat_divmod)
  then have "duration_new (d_secs d div ucast rhs) (d_nanos d div rhs + ucast (?e div ucast rhs)) = Ret (dur (nanos_of d div ?r))"
    unfolding nanos_of_def p(1) using p(2) order_le_less_trans [OF div_le_dividend unat_less_pow [of "d_secs d"]]
    by (intro new_word) (simp_all add: unat_divmod unat_widen)
  then show ?thesis using False by (simp add: duration_checked_div_def Let_def)
qed (simp add: duration_checked_div_def)

section \<open>Saturation, operators and sums\<close>

lemma duration_extremes: "duration_MAX = Ret (dur (dur_bound - 1))" "duration_ZERO = Ret (dur 0)" "from_secs s = dur (unat s * 10 ^ 9)"
  by (simp_all add: duration_MAX_def duration_new_exact duration_ZERO_def from_nanos_def Nanoseconds_Ret from_secs_def dur_def dur_bound_def
      NANOS_PER_SEC_def unsigned_minus_1_eq_mask mask_eq_exp_minus_1)

lemma saturating_exact:
  assumes "d_ok d" "d_ok e"
  shows "duration_saturating_add d e = Ret (dur (min (nanos_of d + nanos_of e) (dur_bound - 1)))"
    "duration_saturating_sub d e = Ret (dur (nanos_of d - nanos_of e))"
    "duration_saturating_mul d rhs = Ret (dur (min (nanos_of d * unat rhs) (dur_bound - 1)))"
    "duration_abs_diff d e = Ret (dur (max (nanos_of d) (nanos_of e) - min (nanos_of d) (nanos_of e)))"
proof -
  have min: "or_else (Ret (limited n)) duration_MAX = Ret (dur (min n (dur_bound - 1)))" for n
    unfolding limited_def or_else_def duration_extremes by (cases "n < dur_bound") simp_all
  show "duration_saturating_add d e = Ret (dur (min (nanos_of d + nanos_of e) (dur_bound - 1)))"
    unfolding duration_saturating_add_def duration_checked_add_exact [OF assms] by (rule min)
  show "duration_saturating_mul d rhs = Ret (dur (min (nanos_of d * unat rhs) (dur_bound - 1)))"
    unfolding duration_saturating_mul_def duration_checked_mul_exact [OF assms(1)] by (rule min)
  show "duration_saturating_sub d e = Ret (dur (nanos_of d - nanos_of e))"
    by (simp add: duration_saturating_sub_def duration_checked_sub_exact [OF assms] or_else_def duration_extremes)
  show "duration_abs_diff d e = Ret (dur (max (nanos_of d) (nanos_of e) - min (nanos_of d) (nanos_of e)))"
    by (simp add: duration_abs_diff_def duration_checked_sub_exact assms expect_def max_def min_def)
qed

text \<open>The value of a list of durations, and what a result that may panic must be for it.\<close>

definition total_nanos_of :: "duration list \<Rightarrow> nat" where
  "total_nanos_of es = (\<Sum>e\<leftarrow>es. nanos_of e)"

definition dur_or_panic :: "nat \<Rightarrow> duration outcome" where
  "dur_or_panic n = (if n < dur_bound then Ret (dur n) else Panic)"

lemma expect_limited: "expect (Ret (limited n)) = dur_or_panic n"
  by (simp add: expect_def limited_def dur_or_panic_def)

lemma operators_exact:
  assumes "d_ok d" "d_ok e"
  shows "duration_add d e = dur_or_panic (nanos_of d + nanos_of e)"
    "duration_sub d e = (if nanos_of e \<le> nanos_of d then Ret (dur (nanos_of d - nanos_of e)) else Panic)"
    "duration_mul d rhs = dur_or_panic (nanos_of d * unat rhs)"
    "duration_div d rhs = (if rhs = 0 then Panic else Ret (dur (nanos_of d div unat rhs)))"
  unfolding duration_add_def duration_sub_def duration_mul_def duration_div_def
    duration_checked_add_exact [OF assms] duration_checked_sub_exact [OF assms]
    duration_checked_mul_exact [OF assms(1)] duration_checked_div_exact [OF assms(1)] expect_limited
  by (simp_all add: expect_def)

text \<open>What the loop of \<open>sum_durations\<close> keeps: the two totals are together the sum so far.\<close>

definition sum_result :: "nat \<Rightarrow> (u64 \<times> u64) outcome \<Rightarrow> bool" where
  "sum_result v r = (case r of Ret (s, n) \<Rightarrow> unat s * 10 ^ 9 + unat n = v | Panic \<Rightarrow> dur_bound \<le> v | _ \<Rightarrow> False)"

lemma sum_result_Panic: "2 ^ 64 \<le> s \<Longrightarrow> v = s * 10 ^ 9 + n \<Longrightarrow> sum_result v Panic"
  unfolding sum_result_def using bound_mult [of s n] by (simp only: outcome.case)

lemma sum_loop_result:
  "\<forall>e\<in>set es. d_ok e \<Longrightarrow> sum_result (unat s * 10 ^ 9 + unat n + total_nanos_of es) (sum_loop s n es)"
proof (induction es arbitrary: s n)
  case Nil
  then show ?case by (simp add: sum_result_def total_nanos_of_def)
next
  case (Cons e es)
  let ?t = "total_nanos_of es" and ?es = "unat (d_secs e)" and ?en = "unat (d_nanos e)"
  let ?v = "unat s * 10 ^ 9 + unat n + total_nanos_of (e # es)"
  have ok: "?en < 10 ^ 9" "\<forall>e\<in>set es. d_ok e" using Cons.prems by (auto simp: d_ok_def)
  have v: "?v = (unat s + ?es) * 10 ^ 9 + (unat n + ?en + ?t)" by (simp add: total_nanos_of_def nanos_of_def)
  have w: "unat (ucast (d_nanos e) :: u64) = ?en" by (simp add: unat_widen)
  show ?case
  proof (cases rule: checked_add_cases [of s "d_secs e"])
    case 2
    then have "sum_result ?v Panic" by (intro sum_result_Panic [OF _ v]) simp
    then show ?thesis using 2(1) by simp
  next
    case (1 s1)
    note s1 = 1
    show ?thesis
    proof (cases rule: checked_add_cases [of n "ucast (d_nanos e)"])
      case (1 n1)
      have "?v = unat s1 * 10 ^ 9 + unat n1 + ?t" unfolding v s1(2) 1(2) w by simp
      then show ?thesis using Cons.IH [OF ok(2), of s1 n1] s1(1) 1(1) by (simp only: sum_loop.simps option.case)
    next
      case 2
      note none = 2
      let ?q = "n div ucast NANOS_PER_SEC" and ?r = "n mod ucast NANOS_PER_SEC"
      have q: "unat ?q = unat n div 10 ^ 9" "unat ?r = unat n mod 10 ^ 9" by (simp_all add: unat_divmod unat_widen)
      have v2: "?v = (unat s1 + unat ?q) * 10 ^ 9 + (unat ?r + ?en + ?t)"
        unfolding v s1(2) q add_mult_distrib using div_mult_mod_eq [of "unat n" "10 ^ 9"] by linarith
      show ?thesis
      proof (cases rule: checked_add_cases [of s1 ?q])
        case 2
        then have "sum_result ?v Panic" by (intro sum_result_Panic [OF _ v2]) simp
        then show ?thesis using 2(1) none(1) s1(1) by simp
      next
        case (1 s2)
        have "unat ?r < 10 ^ 9" unfolding q by simp
        then have r: "unat (?r + ucast (d_nanos e)) = unat ?r + ?en" using ok(1) w by (subst unat_plus_exact) simp_all
        have "?v = unat s2 * 10 ^ 9 + unat (?r + ucast (d_nanos e)) + ?t" unfolding v2 1(2) r by simp
        then show ?thesis using Cons.IH [OF ok(2), of s2 "?r + ucast (d_nanos e)"] s1(1) none(1) 1(1)
          by (simp only: sum_loop.simps option.case)
      qed
    qed
  qed
qed

lemma sum_durations_exact:
  assumes "\<forall>e\<in>set es. d_ok e"
  shows "sum_durations es = dur_or_panic (total_nanos_of es)"
proof (cases "sum_loop 0 0 es")
  case (Ret p)
  obtain s n where p: "p = (s, n)" by (cases p)
  let ?q = "n div ucast NANOS_PER_SEC" and ?r = "n mod ucast NANOS_PER_SEC"
  have v: "total_nanos_of es = unat s * 10 ^ 9 + unat n"
    using sum_loop_result [OF assms, of 0 0] Ret p by (simp add: sum_result_def)
  have q: "unat ?q = unat n div 10 ^ 9" "unat ?r = unat n mod 10 ^ 9" "unat (ucast ?r :: u32) = unat n mod 10 ^ 9"
    using mod_less_divisor [of "10 ^ 9" "unat n"]
    by (simp_all add: unat_divmod unat_widen unat_narrow)
  have v2: "total_nanos_of es = (unat s + unat ?q) * 10 ^ 9 + unat n mod 10 ^ 9"
    unfolding v q add_mult_distrib using div_mult_mod_eq [of "unat n" "10 ^ 9"] by linarith
  have less: "total_nanos_of es < dur_bound \<longleftrightarrow> unat s + unat ?q < 2 ^ 64"
    unfolding v2 dur_bound_def by (rule quotient_less) simp
  show ?thesis
  proof (cases rule: checked_add_cases [of s ?q])
    case (1 c)
    then have "duration_new c (ucast ?r) = Ret (dur (total_nanos_of es))"
      unfolding v2 by (intro new_word) (simp_all add: q)
    then show ?thesis using Ret p 1 less by (simp add: sum_durations_def dur_or_panic_def)
  next
    case 2
    then show ?thesis using Ret p less by (simp add: sum_durations_def dur_or_panic_def)
  qed
qed (use sum_loop_result [OF assms, of 0 0] in \<open>simp_all add: sum_result_def sum_durations_def dur_or_panic_def\<close>)

section \<open>Units\<close>

lemma subsecond_exact:
  fixes w per :: u64 and unit :: u32
  assumes "unat per * unat unit = 10 ^ 9" "unat per < 2 ^ 32"
  shows "and_then (Nanoseconds (ucast (w mod per) * unit)) (\<lambda>n. Ret \<lparr>d_secs = w div per, d_nanos = n\<rparr>) = Ret (dur (unat w * unat unit))"
proof -
  let ?m = "unat w mod unat per" and ?u = "unat unit"
  have pos: "0 < unat per" "0 < ?u" using assms(1) by (auto intro: gr0I)
  then have "?m * ?u < unat per * ?u" by simp
  then have m: "?m * ?u < 10 ^ 9" unfolding assms(1) .
  have "unat (ucast (w mod per) :: u32) = ?m"
    using mod_less_divisor [OF pos(1), of "unat w"] assms(2) by (subst unat_narrow) (simp_all add: unat_divmod)
  then have n: "unat (ucast (w mod per) * unit) = ?m * ?u" using m by (subst unat_times_exact) simp_all
  have "unat w * ?u = (unat w div unat per * unat per + ?m) * ?u" by simp
  then have "unat w * ?u = unat w div unat per * 10 ^ 9 + ?m * ?u" unfolding add_mult_distrib mult.assoc assms(1) .
  then have "dur (unat w * ?u) = \<lparr>d_secs = w div per, d_nanos = ucast (w mod per) * unit\<rparr>"
    using dur_of [of "ucast (w mod per) * unit" "w div per"] n m by (simp add: unat_divmod)
  then show ?thesis using n m by (simp add: Nanoseconds_Ret)
qed

lemma from_subseconds_exact:
  "from_millis w = Ret (dur (unat w * 10 ^ 6))" "from_micros w = Ret (dur (unat w * 1000))" "from_nanos w = Ret (dur (unat w))"
  using subsecond_exact [of MILLIS_PER_SEC NANOS_PER_MILLI w] subsecond_exact [of MICROS_PER_SEC NANOS_PER_MICRO w]
    subsecond_exact [of "ucast NANOS_PER_SEC" 1 w]
  by (simp_all add: from_millis_def from_micros_def from_nanos_def Let_def unat_widen)

lemma max_div_less:
  assumes "0 < unat (k :: u64)"
  shows "w > (- 1) div k \<longleftrightarrow> 2 ^ 64 \<le> unat w * unat k"
proof -
  have "unat (- 1 :: u64) = 2 ^ 64 - 1" by (simp only: unsigned_minus_1_eq_mask mask_eq_exp_minus_1) simp
  then have "w > (- 1) div k \<longleftrightarrow> (2 ^ 64 - 1) div unat k < unat w" by (simp only: word_less_nat_alt unat_divmod)
  also have "\<dots> \<longleftrightarrow> \<not> unat w * unat k \<le> 2 ^ 64 - 1" unfolding not_le [symmetric] less_eq_div_iff_mult_less_eq [OF assms] ..
  finally show ?thesis by auto
qed

lemma from_multiple:
  assumes "0 < unat k"
  shows "(if w > (- 1) div k then Panic else Ret (from_secs (w * k))) = dur_or_panic (unat w * unat k * 10 ^ 9)"
proof (cases "unat w * unat k < 2 ^ 64")
  case True
  then have "unat w * unat k * 10 ^ 9 < dur_bound" unfolding dur_bound_def by (intro mult_strict_right_mono) simp_all
  then show ?thesis using True max_div_less [OF assms, of w] unat_times_exact [of w k]
    by (simp add: dur_or_panic_def duration_extremes)
next
  case False
  then have "dur_bound \<le> unat w * unat k * 10 ^ 9" unfolding dur_bound_def by (intro mult_le_mono1) simp
  then show ?thesis using False max_div_less [OF assms, of w] by (simp add: dur_or_panic_def)
qed

lemma from_multiples_exact:
  "from_mins w = dur_or_panic (unat w * 60 * 10 ^ 9)" "from_hours w = dur_or_panic (unat w * 3600 * 10 ^ 9)"
  "from_days w = dur_or_panic (unat w * 86400 * 10 ^ 9)" "from_weeks w = dur_or_panic (unat w * 604800 * 10 ^ 9)"
  using from_multiple [of 60 w] from_multiple [of 3600 w] from_multiple [of 86400 w] from_multiple [of 604800 w]
  unfolding from_mins_def from_hours_def from_days_def from_weeks_def SECS_PER_MINUTE_def MINS_PER_HOUR_def
    HOURS_PER_DAY_def DAYS_PER_WEEK_def mult.assoc
  by (simp_all cong del: if_weak_cong split del: if_split)

lemma divide_parts: "(s * (u * k) + n) div k = s * u + n div (k :: nat)" if "0 < k"
  using that by (intro div_carry) simp_all

lemma observers_exact:
  assumes "d_ok d"
  shows "unat (as_nanos d) = nanos_of d" "unat (as_micros d) = nanos_of d div 1000" "unat (as_millis d) = nanos_of d div 10 ^ 6"
    "unat (as_secs d) = nanos_of d div 10 ^ 9" "unat (subsec_nanos d) = nanos_of d mod 10 ^ 9"
    "unat (subsec_micros d) = nanos_of d mod 10 ^ 9 div 1000" "unat (subsec_millis d) = nanos_of d mod 10 ^ 9 div 10 ^ 6"
    "is_zero d \<longleftrightarrow> nanos_of d = 0"
proof -
  have n: "unat (d_nanos d) < 10 ^ 9" and s: "unat (d_secs d) < 2 ^ 64"
    using assms unat_less_pow [of "d_secs d"] by (simp_all add: d_ok_def)
  have wide: "unat (ucast (d_secs d) * ucast a + ucast b :: u128) = unat (d_secs d) * unat a + unat b"
    if "unat (a :: 'a::len word) \<le> 10 ^ 9" "unat (b :: u32) < 10 ^ 9" "LENGTH('a) \<le> 128" for a b
  proof -
    have "unat (d_secs d) * unat a \<le> 2 ^ 64 * 10 ^ 9" using s that(1) by (intro mult_le_mono) simp_all
    then show ?thesis using that by (simp add: unat_plus_exact unat_times_exact unat_widen)
  qed
  have q: "unat (d_nanos d) div k < 10 ^ 9" for k by (rule order_le_less_trans [OF div_le_dividend n])
  show "unat (as_nanos d) = nanos_of d" unfolding as_nanos_def nanos_of_def by (subst wide) (use n in simp_all)
  show "unat (as_micros d) = nanos_of d div 1000" unfolding as_micros_def nanos_of_def
    using divide_parts [of 1000 "unat (d_secs d)" "10 ^ 6" "unat (d_nanos d)"] by (subst wide) (use q in \<open>simp_all add: unat_divmod\<close>)
  show "unat (as_millis d) = nanos_of d div 10 ^ 6" unfolding as_millis_def nanos_of_def
    using divide_parts [of "10 ^ 6" "unat (d_secs d)" 1000 "unat (d_nanos d)"] by (subst wide) (use q in \<open>simp_all add: unat_divmod\<close>)
  have "nanos_of d mod 10 ^ 9 = unat (d_nanos d)" using n by (simp add: nanos_of_def)
  then show "unat (subsec_nanos d) = nanos_of d mod 10 ^ 9"
    "unat (subsec_micros d) = nanos_of d mod 10 ^ 9 div 1000" "unat (subsec_millis d) = nanos_of d mod 10 ^ 9 div 10 ^ 6"
    by (simp_all add: subsec_nanos_def subsec_micros_def subsec_millis_def unat_divmod)
  show "unat (as_secs d) = nanos_of d div 10 ^ 9" using n by (simp add: as_secs_def nanos_of_def)
  show "is_zero d \<longleftrightarrow> nanos_of d = 0" by (simp add: is_zero_def nanos_of_def unat_eq_zero)
qed

section \<open>Properties\<close>

text \<open>C23: on valid durations (nanoseconds below one second) the arithmetic of \<open>Duration\<close> is exact
  arithmetic on the total number of nanoseconds. The checked operations return the exact result, or \<open>None\<close>
  precisely when it does not fit or would be negative; division by a nonzero number rounds down. The saturating operations
  clamp, \<open>abs_diff\<close> never fails, the operators panic exactly when the checked operation returns
  \<open>None\<close>, and the sum of an iterator is the exact sum, with a panic precisely when it does not fit: the
  intermediate carry of \<open>sum_durations\<close> never fails a sum that fits. None of them builds an out-of-range
  nanosecond field.\<close>

theorem duration_arithmetic:
  assumes "d_ok d" "d_ok e" "\<forall>x\<in>set es. d_ok x"
  shows "duration_checked_add d e = Ret (limited (nanos_of d + nanos_of e)) \<and>
    (duration_checked_sub d e = Ret (if nanos_of e \<le> nanos_of d then Some (dur (nanos_of d - nanos_of e)) else None)) \<and>
    duration_checked_mul d k = Ret (limited (nanos_of d * unat k)) \<and>
    (duration_checked_div d k = Ret (if k = 0 then None else Some (dur (nanos_of d div unat k)))) \<and>
    duration_saturating_add d e = Ret (dur (min (nanos_of d + nanos_of e) (dur_bound - 1))) \<and>
    duration_saturating_sub d e = Ret (dur (nanos_of d - nanos_of e)) \<and>
    duration_saturating_mul d k = Ret (dur (min (nanos_of d * unat k) (dur_bound - 1))) \<and>
    duration_abs_diff d e = Ret (dur (max (nanos_of d) (nanos_of e) - min (nanos_of d) (nanos_of e))) \<and>
    duration_add d e = dur_or_panic (nanos_of d + nanos_of e) \<and>
    (duration_sub d e = (if nanos_of e \<le> nanos_of d then Ret (dur (nanos_of d - nanos_of e)) else Panic)) \<and>
    duration_mul d k = dur_or_panic (nanos_of d * unat k) \<and>
    (duration_div d k = (if k = 0 then Panic else Ret (dur (nanos_of d div unat k)))) \<and>
    sum_durations es = dur_or_panic (total_nanos_of es)"
  by (simp only: duration_checked_add_exact [OF assms(1,2)] duration_checked_sub_exact [OF assms(1,2)]
      duration_checked_mul_exact [OF assms(1)] duration_checked_div_exact [OF assms(1)]
      saturating_exact [OF assms(1,2)] operators_exact [OF assms(1,2)] sum_durations_exact [OF assms(3)] simp_thms)

theorem duration_arithmetic_witness:
  "duration_checked_add \<lparr>d_secs = 1, d_nanos = 999999999\<rparr> \<lparr>d_secs = 2, d_nanos = 2\<rparr> = Ret (Some \<lparr>d_secs = 4, d_nanos = 1\<rparr>) \<and>
   duration_checked_sub \<lparr>d_secs = 1, d_nanos = 999999999\<rparr> \<lparr>d_secs = 2, d_nanos = 2\<rparr> = Ret None \<and>
   duration_checked_mul \<lparr>d_secs = 1, d_nanos = 999999999\<rparr> 3 = Ret (Some \<lparr>d_secs = 5, d_nanos = 999999997\<rparr>) \<and>
   duration_sub \<lparr>d_secs = 1, d_nanos = 999999999\<rparr> \<lparr>d_secs = 2, d_nanos = 2\<rparr> = Panic \<and>
   sum_durations [\<lparr>d_secs = 1, d_nanos = 600000000\<rparr>, \<lparr>d_secs = 2, d_nanos = 600000000\<rparr>] = Ret \<lparr>d_secs = 4, d_nanos = 200000000\<rparr>"
  using duration_arithmetic [of "\<lparr>d_secs = 1, d_nanos = 999999999\<rparr>" "\<lparr>d_secs = 2, d_nanos = 2\<rparr>"
      "[\<lparr>d_secs = 1, d_nanos = 600000000\<rparr>, \<lparr>d_secs = 2, d_nanos = 600000000\<rparr>]" 3]
  by (simp_all add: d_ok_def nanos_of_def limited_def dur_bound_def dur_def dur_or_panic_def total_nanos_of_def)

text \<open>C24: every constructor yields a valid duration of exactly the stated length: the subsecond units never panic and
  never build an out-of-range nanosecond field, \<open>new\<close> and the units above a second panic precisely when the seconds do
  not fit in 64 bits. On valid durations the observers read that number back, in whole units and without overflow.\<close>

theorem duration_units:
  "from_secs w = dur (unat w * 10 ^ 9) \<and>
   from_millis w = Ret (dur (unat w * 10 ^ 6)) \<and>
   from_micros w = Ret (dur (unat w * 1000)) \<and>
   from_nanos w = Ret (dur (unat w)) \<and>
   duration_new w n = dur_or_panic (unat w * 10 ^ 9 + unat n) \<and>
   from_mins w = dur_or_panic (unat w * 60 * 10 ^ 9) \<and>
   from_hours w = dur_or_panic (unat w * 3600 * 10 ^ 9) \<and>
   from_days w = dur_or_panic (unat w * 86400 * 10 ^ 9) \<and>
   from_weeks w = dur_or_panic (unat w * 604800 * 10 ^ 9) \<and>
   (m < dur_bound \<longrightarrow> d_ok (dur m) \<and> nanos_of (dur m) = m \<and> unat (as_nanos (dur m)) = m \<and> unat (as_micros (dur m)) = m div 1000 \<and>
     unat (as_millis (dur m)) = m div 10 ^ 6 \<and> unat (as_secs (dur m)) = m div 10 ^ 9 \<and> unat (subsec_nanos (dur m)) = m mod 10 ^ 9 \<and>
     unat (subsec_micros (dur m)) = m mod 10 ^ 9 div 1000 \<and> unat (subsec_millis (dur m)) = m mod 10 ^ 9 div 10 ^ 6 \<and> (is_zero (dur m) \<longleftrightarrow> m = 0))"
  using duration_extremes from_subseconds_exact from_multiples_exact observers_exact [of "dur m"] nanos_dur [of m]
  by (simp only: duration_new_exact dur_or_panic_def) simp

theorem duration_units_witness:
  "d_ok (dur 61000000007) \<and> nanos_of (dur 61000000007) = 61000000007 \<and> unat (as_millis (dur 61000000007)) = 61000"
  using duration_units [of 0 0 61000000007] by (simp add: dur_bound_def)

end
