(* ===== verification/Int_Parse.thy ===== *)
theory Int_Parse
  imports Str_Format
begin

text \<open>
  Parsing integers: \<open>from_str_radix\<close> of \<open>library/core/src/num/mod.rs\<close>. An integer type is its size
  in bytes and its signedness, a value is an \<open>int\<close> in its range; the plain operators panic outside it, the
  checked ones return \<open>None\<close>.
\<close>

section \<open>Integer types\<close>

record int_ty =
  it_bytes :: nat
  it_signed :: bool

definition it_bits :: "int_ty \<Rightarrow> nat" where "it_bits ty = 8 * it_bytes ty"
definition it_min :: "int_ty \<Rightarrow> int" where "it_min ty = (if it_signed ty then - (2 ^ (it_bits ty - 1)) else 0)"
definition it_max :: "int_ty \<Rightarrow> int" where "it_max ty = (if it_signed ty then 2 ^ (it_bits ty - 1) - 1 else 2 ^ it_bits ty - 1)"
definition in_ty :: "int_ty \<Rightarrow> int \<Rightarrow> bool" where "in_ty ty x \<longleftrightarrow> it_min ty \<le> x \<and> x \<le> it_max ty"

text \<open>The result of a plain operator and of a checked operation.\<close>

definition int_plain :: "int_ty \<Rightarrow> int \<Rightarrow> int outcome" where "int_plain ty x = (if in_ty ty x then Ret x else Panic)"
definition int_checked :: "int_ty \<Rightarrow> int \<Rightarrow> int option" where "int_checked ty x = (if in_ty ty x then Some x else None)"

section \<open>Parsing\<close>

text \<open>\<open>Zero\<close> is the error of the non-zero types only.\<close>

datatype int_error_kind = Empty | InvalidDigit | PosOverflow | NegOverflow | Zero

definition can_not_overflow :: "int_ty \<Rightarrow> u32 \<Rightarrow> u8 list \<Rightarrow> bool" where
  "can_not_overflow ty radix digits \<longleftrightarrow> radix \<le> 16 \<and> length digits \<le> it_bytes ty * 2 - (if it_signed ty then 1 else 0)"

text \<open>The match on the sign: \<open>None\<close> is the early return of \<open>InvalidDigit\<close>.\<close>

definition split_sign :: "bool \<Rightarrow> u8 list \<Rightarrow> (bool \<times> u8 list) option" where
  "split_sign is_signed_ty src =
     (if src = [0x2B] \<or> src = [0x2D] then None
      else case src of
        [] \<Rightarrow> Some (True, src)
      | c # rest \<Rightarrow> if c = 0x2B then Some (True, rest) else if c = 0x2D \<and> is_signed_ty then Some (False, rest) else Some (True, src))"

fun run_unchecked_loop :: "int_ty \<Rightarrow> u32 \<Rightarrow> bool \<Rightarrow> int \<Rightarrow> u8 list \<Rightarrow> (int_error_kind + int) outcome" where
  "run_unchecked_loop ty radix is_positive result [] = Ret (Inr result)"
| "run_unchecked_loop ty radix is_positive result (c # rest) =
     and_then (int_plain ty (result * uint radix)) (\<lambda>result.
     and_then (to_digit (ucast c) radix) (\<lambda>x.
       case x of None \<Rightarrow> Ret (Inl InvalidDigit)
       | Some x \<Rightarrow> and_then (int_plain ty (if is_positive then result + uint x else result - uint x))
           (\<lambda>result. run_unchecked_loop ty radix is_positive result rest)))"

fun run_checked_loop :: "int_ty \<Rightarrow> u32 \<Rightarrow> bool \<Rightarrow> int \<Rightarrow> u8 list \<Rightarrow> (int_error_kind + int) outcome" where
  "run_checked_loop ty radix is_positive result [] = Ret (Inr result)"
| "run_checked_loop ty radix is_positive result (c # rest) =
     (let mul = int_checked ty (result * uint radix); overflow_err = (if is_positive then PosOverflow else NegOverflow) in
      and_then (to_digit (ucast c) radix) (\<lambda>x.
        case x of None \<Rightarrow> Ret (Inl InvalidDigit)
        | Some x \<Rightarrow> (case mul of None \<Rightarrow> Ret (Inl overflow_err)
          | Some result \<Rightarrow> (case int_checked ty (if is_positive then result + uint x else result - uint x) of
              None \<Rightarrow> Ret (Inl overflow_err)
            | Some result \<Rightarrow> run_checked_loop ty radix is_positive result rest))))"

definition from_str_radix :: "int_ty \<Rightarrow> u8 list \<Rightarrow> u32 \<Rightarrow> (int_error_kind + int) outcome" where
  "from_str_radix ty src radix =
     (if 2 > radix \<or> radix > 36 then Panic
      else if src = [] then Ret (Inl Empty)
      else case split_sign (0 > it_min ty) src of
        None \<Rightarrow> Ret (Inl InvalidDigit)
      | Some (is_positive, digits) \<Rightarrow>
          if can_not_overflow ty radix digits then run_unchecked_loop ty radix is_positive 0 digits
          else run_checked_loop ty radix is_positive 0 digits)"

definition from_str :: "int_ty \<Rightarrow> u8 list \<Rightarrow> (int_error_kind + int) outcome" where
  "from_str ty src = from_str_radix ty src 10"

section \<open>Digits\<close>

text \<open>The value of an ASCII digit in the largest radix.\<close>

definition digit_of :: "u8 \<Rightarrow> nat option" where
  "digit_of b = (let n = unat b in
     if 48 \<le> n \<and> n < 58 then Some (n - 48) else if 97 \<le> n \<and> n < 123 then Some (n - 87)
     else if 65 \<le> n \<and> n < 91 then Some (n - 55) else None)"

definition digit_in :: "nat \<Rightarrow> u8 \<Rightarrow> nat option" where
  "digit_in radix b = (case digit_of b of None \<Rightarrow> None | Some d \<Rightarrow> if d < radix then Some d else None)"

definition low_digit :: "u8 \<Rightarrow> u32" where "low_digit b = ucast b - 0x30"
definition high_digit :: "u8 \<Rightarrow> u32" where "high_digit b = saturating_add_u32 ((ucast b OR 0x20) - 0x61) 10"

lemma or_32: "n OR 32 = (if odd (n div 32) then n else n + (32 :: nat))"
  using set_bit_eq_or [of 5 n] set_bit_eq [of 5 n] by (cases "odd (n div 32)") (simp_all add: bit_iff_odd push_bit_eq_mult)

lemma unat_low: "unat (low_digit b) = (if 48 \<le> unat b then unat b - 48 else unat b + 2 ^ 32 - 48)"
  using unat_less_pow [of b] by (simp add: low_digit_def unat_sub_wrap unat_ucast_mod)

lemma unat_high:
  "unat (high_digit b) = (let m = (if odd (unat b div 32) then unat b else unat b + 32) in
     if 97 \<le> m then m - 87 else if m < 87 then m + 2 ^ 32 - 87 else 2 ^ 32 - 1)"
proof -
  let ?w = "(ucast b :: u32) OR 0x20"
  have m: "unat ?w = (if odd (unat b div 32) then unat b else unat b + 32)" "unat ?w < 2 ^ 9"
    using unat_less_pow [of b] by (simp_all add: unsigned_or_eq or_32 unat_ucast_mod)
  have d: "unat (?w - 0x61) = (if 97 \<le> unat ?w then unat ?w - 97 else unat ?w + 2 ^ 32 - 97)"
    using m(2) by (simp add: unat_sub_wrap)
  then have "unat (?w - 0x61) + 10 < 2 ^ 32 \<longleftrightarrow> 97 \<le> unat ?w \<or> unat ?w < 87" using m(2) by auto
  moreover have "unat (?w - 0x61 + 10) = (unat (?w - 0x61) + 10) mod 2 ^ 32" by (simp only: unat_word_ariths) simp
  moreover have "unat (- 1 :: u32) = 2 ^ 32 - 1" by (simp only: unsigned_minus_1_eq_mask mask_eq_exp_minus_1) simp
  ultimately show ?thesis using d m(2) unfolding high_digit_def saturating_add_u32_def Let_def m(1) [symmetric] by auto
qed

lemma digit_table:
  "(if low_digit b < 10 then digit_of b = Some (unat (low_digit b))
    else if high_digit b < 36 then digit_of b = Some (unat (high_digit b)) \<and> 10 \<le> high_digit b else digit_of b = None)"
proof -
  define n where "n = unat b"
  have "n < 256" using unat_less_pow [of b] by (simp add: n_def)
  then consider "n div 32 = 0" "n < 32" | "n div 32 = 1" "32 \<le> n" "n < 64" | "n div 32 = 2" "64 \<le> n" "n < 96"
    | "n div 32 = 3" "96 \<le> n" "n < 128" | "128 \<le> n" "n < 256" by linarith
  then show ?thesis
    by cases (auto simp: digit_of_def word_less_nat_alt word_le_nat_alt unat_low unat_high Let_def n_def [symmetric] split: if_splits)
qed

lemma to_digit_exact:
  assumes "radix \<le> 36"
  shows "to_digit (ucast b) radix = Ret (map_option word_of_nat (digit_in (unat radix) b))"
proof -
  have d: "to_digit (ucast b) radix = (if 10 < radix then (if low_digit b < 10 then Ret (Some (low_digit b)) else
      Ret (if high_digit b < radix then Some (high_digit b) else None)) else Ret (if low_digit b < radix then Some (low_digit b) else None))"
    using assms by (simp add: to_digit_def low_digit_def high_digit_def Let_def)
  show ?thesis unfolding d using digit_table [of b] assms
    by (auto simp: digit_in_def word_less_nat_alt word_le_nat_alt split: if_splits)
qed

text \<open>The value of a sequence of digits, most significant first, on top of \<open>acc\<close>.\<close>

fun digits_value :: "nat \<Rightarrow> nat \<Rightarrow> u8 list \<Rightarrow> nat option" where
  "digits_value radix acc [] = Some acc"
| "digits_value radix acc (b # bs) =
     (case digit_in radix b of None \<Rightarrow> None | Some d \<Rightarrow> digits_value radix (acc * radix + d) bs)"

section \<open>Parsing is exact\<close>

definition signed_value :: "bool \<Rightarrow> nat \<Rightarrow> int" where
  "signed_value is_positive v = (if is_positive then int v else - int v)"

lemma digit_in_less: "digit_in radix b = Some d \<Longrightarrow> d < radix"
  by (auto simp: digit_in_def split: option.splits if_splits)

lemma digits_value_append:
  "digits_value radix acc (p @ q) = (case digits_value radix acc p of None \<Rightarrow> None | Some v \<Rightarrow> digits_value radix v q)"
  by (induction p arbitrary: acc) (auto split: option.splits)

lemma digits_value_ge: "digits_value radix acc ds = Some v \<Longrightarrow> 0 < radix \<Longrightarrow> acc \<le> v"
proof (induction ds arbitrary: acc)
  case (Cons d ds)
  then obtain k where "digits_value radix (acc * radix + k) ds = Some v" by (auto split: option.splits)
  then have "acc * radix + k \<le> v" using Cons by simp
  moreover have "acc \<le> acc * radix" using Cons.prems by simp
  ultimately show ?case by linarith
qed simp

lemma digits_value_less:
  "digits_value radix acc ds = Some v \<Longrightarrow> acc < 16 ^ j \<Longrightarrow> radix \<le> 16 \<Longrightarrow> v < 16 ^ (j + length ds)"
proof (induction ds arbitrary: acc j)
  case (Cons d ds)
  then obtain k where k: "digit_in radix d = Some k" "digits_value radix (acc * radix + k) ds = Some v" by (auto split: option.splits)
  have "acc * radix + k < Suc acc * radix" using digit_in_less [OF k(1)] by simp
  also have "\<dots> \<le> 16 ^ j * 16" using Cons.prems by (intro mult_le_mono) simp_all
  finally have "acc * radix + k < 16 ^ Suc j" by simp
  then show ?case using Cons.IH [OF k(2), of "Suc j"] Cons.prems by simp
qed simp

lemma signed_value_step:
  "signed_value p a * int r = signed_value p (a * r)"
  "signed_value True a + int d = signed_value True (a + d)" "signed_value False a - int d = signed_value False (a + d)"
  by (simp_all add: signed_value_def)

text \<open>Some leading digits alone are already out of range; and what the result of a loop must be, from the accumulated
  value on.\<close>

definition overflows :: "int_ty \<Rightarrow> nat \<Rightarrow> bool \<Rightarrow> nat \<Rightarrow> u8 list \<Rightarrow> bool" where
  "overflows ty radix pos acc ds \<longleftrightarrow> (\<exists>n v. digits_value radix acc (take n ds) = Some v \<and> \<not> in_ty ty (signed_value pos v))"

definition loop_result :: "int_ty \<Rightarrow> nat \<Rightarrow> bool \<Rightarrow> nat \<Rightarrow> u8 list \<Rightarrow> int_error_kind + int \<Rightarrow> bool" where
  "loop_result ty radix pos acc ds r \<longleftrightarrow>
     (case r of
        Inr n \<Rightarrow> (\<exists>v. digits_value radix acc ds = Some v \<and> n = signed_value pos v \<and> in_ty ty n)
      | Inl k \<Rightarrow> k = InvalidDigit \<and> digits_value radix acc ds = None \<or>
          k = (if pos then PosOverflow else NegOverflow) \<and> overflows ty radix pos acc ds)"

lemma overflows_Cons:
  assumes "digit_in radix c = Some d"
  shows "overflows ty radix pos (acc * radix + d) ds \<Longrightarrow> overflows ty radix pos acc (c # ds)"
proof -
  assume "overflows ty radix pos (acc * radix + d) ds"
  then obtain n v where "digits_value radix (acc * radix + d) (take n ds) = Some v" "\<not> in_ty ty (signed_value pos v)"
    unfolding overflows_def by blast
  then have "digits_value radix acc (take (Suc n) (c # ds)) = Some v \<and> \<not> in_ty ty (signed_value pos v)" using assms by simp
  then show ?thesis unfolding overflows_def by blast
qed

lemma overflows_now: "\<not> in_ty ty (signed_value pos acc) \<Longrightarrow> overflows ty radix pos acc ds"
  unfolding overflows_def by (rule exI [of _ 0]) simp

lemma loop_result_Cons:
  assumes "digit_in radix c = Some d" "loop_result ty radix pos (acc * radix + d) ds r"
  shows "loop_result ty radix pos acc (c # ds) r"
  using assms overflows_Cons [OF assms(1), of ty pos acc ds] by (auto simp: loop_result_def split: sum.splits)

lemma loop_result_overflow:
  assumes "digit_in radix c = Some d" "\<not> in_ty ty (signed_value pos (acc * radix + d))"
  shows "loop_result ty radix pos acc (c # ds) (Inl (if pos then PosOverflow else NegOverflow))"
  unfolding loop_result_def using overflows_Cons [OF assms(1) overflows_now [OF assms(2)]] by simp

lemma to_digit_bytes:
  assumes "radix \<le> (36 :: u32)"
  obtains "digit_in (unat radix) c = None" "to_digit (ucast c) radix = Ret None"
  | d x where "digit_in (unat radix) c = Some d" "to_digit (ucast c) radix = Ret (Some x)" "uint x = int d"
proof (cases "digit_in (unat radix) c")
  case None
  then show ?thesis using that(1) to_digit_exact [OF assms, of c] by simp
next
  case (Some d)
  then have "d < 2 ^ 32" using digit_in_less [OF Some] unat_less_pow [of radix] by simp
  then have "uint (word_of_nat d :: u32) = int d" by (simp add: unsigned_of_nat take_bit_nat_eq_self uint_nat)
  then show ?thesis using that(2) [OF Some] to_digit_exact [OF assms, of c] Some by simp
qed

lemma in_ty_smaller: "in_ty ty (signed_value pos b) \<Longrightarrow> a \<le> b \<Longrightarrow> 0 < it_bytes ty \<Longrightarrow> in_ty ty (signed_value pos a)"
  by (auto simp: in_ty_def signed_value_def it_min_def it_max_def it_bits_def split: if_splits intro: order_trans [of _ 0])

lemma checked_loop_result:
  assumes "radix \<le> 36" "0 < it_bytes ty"
  shows "in_ty ty (signed_value pos acc) \<Longrightarrow>
    \<exists>r. run_checked_loop ty radix pos (signed_value pos acc) ds = Ret r \<and> loop_result ty (unat radix) pos acc ds r"
proof (induction ds arbitrary: acc)
  case (Cons c ds)
  let ?e = "if pos then PosOverflow else NegOverflow"
  show ?case
  proof (cases rule: to_digit_bytes [OF assms(1), of c])
    case 1
    then show ?thesis by (auto simp: loop_result_def)
  next
    case (2 d x)
    have u: "uint radix = int (unat radix)" by simp
    let ?m = "acc * unat radix"
    show ?thesis
    proof (cases "in_ty ty (signed_value pos (?m + d))")
      case False
      have "run_checked_loop ty radix pos (signed_value pos acc) (c # ds) = Ret (Inl ?e)"
        using False 2 unfolding u run_checked_loop.simps Let_def signed_value_step by (cases pos) (simp_all add: int_checked_def signed_value_step)
      then show ?thesis using loop_result_overflow [OF 2(1) False] by blast
    next
      case True
      then have m: "in_ty ty (signed_value pos ?m)" using in_ty_smaller [of ty pos "?m + d" ?m] assms(2) by simp
      have "run_checked_loop ty radix pos (signed_value pos acc) (c # ds) = run_checked_loop ty radix pos (signed_value pos (?m + d)) ds"
        using True m 2 unfolding u run_checked_loop.simps Let_def signed_value_step by (cases pos) (simp_all add: int_checked_def signed_value_step)
      then show ?thesis using Cons.IH [OF True] loop_result_Cons [OF 2(1)] by auto
    qed
  qed
qed (simp add: loop_result_def)

lemma unchecked_loop_result:
  assumes "radix \<le> 16" and fits: "\<And>a. a < 16 ^ l \<Longrightarrow> in_ty ty (signed_value pos a)"
  shows "acc < 16 ^ j \<Longrightarrow> j + length ds \<le> l \<Longrightarrow>
    \<exists>r. run_unchecked_loop ty radix pos (signed_value pos acc) ds = Ret r \<and> loop_result ty (unat radix) pos acc ds r"
proof (induction ds arbitrary: acc j)
  case Nil
  have "(16 :: nat) ^ j \<le> 16 ^ l" using Nil by (intro power_increasing) simp_all
  then have "acc < 16 ^ l" using Nil by linarith
  then show ?case using fits [of acc] by (simp add: loop_result_def)
next
  case (Cons c ds)
  have r: "radix \<le> 36" "unat radix \<le> 16" using assms(1) by (simp_all add: word_le_nat_alt)
  have "(16 :: nat) ^ Suc j \<le> 16 ^ l" using Cons.prems by (intro power_increasing) simp_all
  then have fit: "in_ty ty (signed_value pos a)" if "a < 16 ^ Suc j" for a using fits [of a] that by linarith
  let ?m = "acc * unat radix"
  have m: "?m < 16 ^ Suc j"
  proof -
    have "?m \<le> acc * 16" using r(2) by (rule mult_le_mono2)
    then show ?thesis using Cons.prems(1) unfolding power_Suc by linarith
  qed
  have u: "uint radix = int (unat radix)" by simp
  show ?case
  proof (cases rule: to_digit_bytes [OF r(1), of c])
    case 1
    then show ?thesis using fit [OF m] unfolding u run_unchecked_loop.simps signed_value_step by (auto simp: int_plain_def loop_result_def)
  next
    case (2 d x)
    have d: "?m + d < 16 ^ Suc j" using digits_value_less [of "unat radix" acc "[c]" "?m + d" j] 2(1) Cons.prems(1) r(2) by simp
    have "run_unchecked_loop ty radix pos (signed_value pos acc) (c # ds) = run_unchecked_loop ty radix pos (signed_value pos (?m + d)) ds"
      using fit [OF m] fit [OF d] 2 unfolding u run_unchecked_loop.simps signed_value_step by (cases pos) (simp_all add: int_plain_def signed_value_step)
    then show ?thesis using Cons.IH [OF d] Cons.prems(2) loop_result_Cons [OF 2(1)] by auto
  qed
qed

text \<open>What a source text denotes: an optional sign, a minus only for signed types, and at least one digit.\<close>

definition int_denotes :: "int_ty \<Rightarrow> nat \<Rightarrow> u8 list \<Rightarrow> bool \<Rightarrow> u8 list \<Rightarrow> bool" where
  "int_denotes ty radix src pos ds \<longleftrightarrow>
     ds \<noteq> [] \<and> (pos \<and> (src = ds \<and> src \<noteq> [0x2D] \<and> hd src \<noteq> 0x2B \<and> (hd src \<noteq> 0x2D \<or> \<not> it_signed ty) \<or> src = 0x2B # ds) \<or> \<not> pos \<and> it_signed ty \<and> src = 0x2D # ds)"

lemma split_sign_cases:
  assumes "src \<noteq> []"
  obtains "src = [0x2B] \<or> src = [0x2D]" "split_sign sg src = None"
  | pos ds where "split_sign sg src = Some (pos, ds)" "ds \<noteq> []"
      "pos \<and> (src = ds \<and> src \<noteq> [0x2D] \<and> hd src \<noteq> 0x2B \<and> (hd src \<noteq> 0x2D \<or> \<not> sg) \<or> src = 0x2B # ds) \<or> \<not> pos \<and> sg \<and> src = 0x2D # ds"
proof (cases src)
  case (Cons c rest)
  show ?thesis
  proof (cases "split_sign sg src")
    case None
    then show ?thesis using that(1) Cons by (auto simp: split_sign_def split: if_splits)
  next
    case (Some r)
    obtain pos ds where r: "r = (pos, ds)" by (cases r)
    show ?thesis
      by (rule that(2) [of pos ds]) (use Some r Cons in \<open>auto simp: split_sign_def split: if_splits\<close>)
  qed
qed (use assms in simp)

lemma it_min_neg: "0 < it_bytes ty \<Longrightarrow> 0 > it_min ty \<longleftrightarrow> it_signed ty"
  by (simp add: it_min_def)

lemma fits_short:
  assumes "0 < it_bytes ty" "pos \<or> it_signed ty" "a < 16 ^ (it_bytes ty * 2 - (if it_signed ty then 1 else 0))"
  shows "in_ty ty (signed_value pos a)"
proof -
  have p: "(16 :: nat) ^ k = 2 ^ (4 * k)" for k by (simp add: power_mult)
  have "a < 2 ^ (if it_signed ty then it_bits ty - 1 else it_bits ty)"
  proof (cases "it_signed ty")
    case True
    have "(2 :: nat) ^ (4 * (it_bytes ty * 2 - 1)) \<le> 2 ^ (it_bits ty - 1)"
      using assms(1) by (intro power_increasing) (simp_all add: it_bits_def)
    then show ?thesis using assms(3) True unfolding p by (simp del: power_increasing_iff)
  next
    case False
    have "4 * (it_bytes ty * 2) = it_bits ty" by (simp add: it_bits_def)
    then show ?thesis using assms(3) False unfolding p by simp
  qed
  then have "int a < 2 ^ (if it_signed ty then it_bits ty - 1 else it_bits ty)" by (metis of_nat_less_iff of_nat_numeral of_nat_power)
  moreover have "0 \<le> int a" by simp
  ultimately show ?thesis using assms(2) unfolding in_ty_def signed_value_def it_min_def it_max_def
    by (cases pos; cases "it_signed ty"; simp only: if_True if_False simp_thms; linarith)
qed

text \<open>Both loops of \<open>from_str_radix\<close> give a result that fits the text.\<close>

lemma from_str_radix_result:
  assumes "2 \<le> radix" "radix \<le> 36" "0 < it_bytes ty" "int_denotes ty (unat radix) src pos ds"
  shows "\<exists>r. from_str_radix ty src radix = Ret r \<and> loop_result ty (unat radix) pos 0 ds r"
proof -
  have src: "src \<noteq> []" using assms(4) by (auto simp: int_denotes_def)
  have split: "split_sign (0 > it_min ty) src = Some (pos, ds)" "ds \<noteq> []" "pos \<or> it_signed ty"
    using assms(4) unfolding it_min_neg [OF assms(3)] int_denotes_def
    by (auto simp: split_sign_def neq_Nil_conv split: list.splits)
  have "\<not> 2 > radix" "\<not> radix > 36" using assms(1,2) by auto
  then have d: "from_str_radix ty src radix = (if can_not_overflow ty radix ds then run_unchecked_loop ty radix pos 0 ds
      else run_checked_loop ty radix pos 0 ds)"
    using src split(1) by (simp add: from_str_radix_def)
  have z: "0 = signed_value pos 0" by (simp add: signed_value_def)
  show ?thesis
  proof (cases "can_not_overflow ty radix ds")
    case True
    note fit = fits_short [OF assms(3) split(3)]
    from True have "radix \<le> 16" "0 + length ds \<le> it_bytes ty * 2 - (if it_signed ty then 1 else 0)" by (simp_all add: can_not_overflow_def)
    from unchecked_loop_result [OF this(1) fit, of "it_bytes ty * 2 - (if it_signed ty then 1 else 0)" 0 0, OF _ _ this(2)]
    show ?thesis using True d z by simp
  next
    case False
    have "in_ty ty (signed_value pos 0)" using fits_short [OF assms(3) split(3), of 0] by simp
    from checked_loop_result [OF assms(2,3) this] show ?thesis using False d z by simp
  qed
qed

lemma from_str_radix_syntax:
  assumes "2 \<le> radix" "radix \<le> 36" "0 < it_bytes ty" "\<nexists>pos ds. int_denotes ty (unat radix) src pos ds"
  shows "from_str_radix ty src radix = Ret (Inl (if src = [] then Empty else InvalidDigit))"
proof (cases "src = []")
  case False
  have "split_sign (0 > it_min ty) src = None"
  proof (cases rule: split_sign_cases [OF False, of "it_signed ty"])
    case (2 pos ds)
    then have "int_denotes ty (unat radix) src pos ds" by (simp add: int_denotes_def)
    then show ?thesis using assms(4) by blast
  qed (simp add: it_min_neg [OF assms(3)])
  then show ?thesis using False assms(1,2) by (simp add: from_str_radix_def not_less)
qed (use assms in \<open>simp add: from_str_radix_def not_less\<close>)

lemma overflows_value:
  assumes "overflows ty radix pos acc ds" "digits_value radix acc ds = Some v" "0 < radix" "0 < it_bytes ty"
  shows "\<not> in_ty ty (signed_value pos v)"
proof -
  obtain n u where u: "digits_value radix acc (take n ds) = Some u" "\<not> in_ty ty (signed_value pos u)"
    using assms(1) unfolding overflows_def by blast
  have "digits_value radix u (drop n ds) = Some v"
    using assms(2) u(1) digits_value_append [of radix acc "take n ds" "drop n ds"] by simp
  then have "u \<le> v" using digits_value_ge assms(3) by blast
  then show ?thesis using in_ty_smaller [of ty pos v u] u(2) assms(4) by blast
qed

lemma int_denotes_unique: "int_denotes ty radix src p d \<Longrightarrow> int_denotes ty radix src q e \<Longrightarrow> q = p \<and> e = d"
  by (auto simp: int_denotes_def)

section \<open>Properties\<close>

text \<open>C25: \<open>from_str_radix\<close> is exact for every integer type and every radix from 2 to 36, the loop without
  overflow checks included: it returns \<open>Ok\<close> of a number precisely when the text is an optional sign (a minus only
  for signed types) and digits whose value is in range; it reports \<open>Empty\<close> precisely for the empty text, an
  overflow only when the leading digits are already out of range on that side, and \<open>InvalidDigit\<close> only when the
  digits are missing or invalid. It never panics.\<close>

theorem from_str_radix_exact:
  assumes "2 \<le> radix" "radix \<le> 36" "0 < it_bytes ty"
  shows "\<exists>r. from_str_radix ty src radix = Ret r \<and> (r = Inl Empty \<longleftrightarrow> src = []) \<and>
    (\<forall>n. r = Inr n \<longleftrightarrow> (\<exists>pos ds v. int_denotes ty (unat radix) src pos ds \<and> digits_value (unat radix) 0 ds = Some v \<and>
       n = signed_value pos v \<and> in_ty ty n)) \<and>
    (r = Inl PosOverflow \<longrightarrow> (\<exists>ds. int_denotes ty (unat radix) src True ds \<and> overflows ty (unat radix) True 0 ds)) \<and>
    (r = Inl NegOverflow \<longrightarrow> (\<exists>ds. int_denotes ty (unat radix) src False ds \<and> overflows ty (unat radix) False 0 ds)) \<and>
    (r = Inl InvalidDigit \<longrightarrow> (\<forall>pos ds. int_denotes ty (unat radix) src pos ds \<longrightarrow> digits_value (unat radix) 0 ds = None))"
proof (cases "\<exists>pos ds. int_denotes ty (unat radix) src pos ds")
  case False
  then show ?thesis using from_str_radix_syntax [OF assms] by auto
next
  case True
  then obtain pos ds where d: "int_denotes ty (unat radix) src pos ds" by blast
  then obtain r where r: "from_str_radix ty src radix = Ret r" "loop_result ty (unat radix) pos 0 ds r"
    using from_str_radix_result [OF assms] by blast
  have u: "q = pos \<and> e = ds" if "int_denotes ty (unat radix) src q e" for q e using int_denotes_unique [OF d that] .
  have "src \<noteq> []" using d by (auto simp: int_denotes_def)
  have rad: "0 < unat radix" using assms(1) by (simp add: word_le_nat_alt)
  let ?val = "\<lambda>n. \<exists>pos ds v. int_denotes ty (unat radix) src pos ds \<and> digits_value (unat radix) 0 ds = Some v \<and> n = signed_value pos v \<and> in_ty ty n"
  have val: "?val n \<longleftrightarrow> (\<exists>v. digits_value (unat radix) 0 ds = Some v \<and> n = signed_value pos v \<and> in_ty ty n)" for n
    using d u by blast
  consider v where "r = Inr (signed_value pos v)" "digits_value (unat radix) 0 ds = Some v" "in_ty ty (signed_value pos v)"
    | "r = Inl InvalidDigit" "digits_value (unat radix) 0 ds = None"
    | "r = Inl (if pos then PosOverflow else NegOverflow)" "overflows ty (unat radix) pos 0 ds"
    using r(2) unfolding loop_result_def by (cases r) auto
  then show ?thesis
  proof cases
    case (1 v)
    then show ?thesis using r(1) \<open>src \<noteq> []\<close> unfolding val by auto
  next
    case 2
    have "\<forall>pos ds. int_denotes ty (unat radix) src pos ds \<longrightarrow> digits_value (unat radix) 0 ds = None" using 2(2) u by blast
    then show ?thesis using r(1) 2 \<open>src \<noteq> []\<close> unfolding val by simp
  next
    case 3
    have "\<not> ?val n" for n unfolding val using overflows_value [OF 3(2) _ rad assms(3)] by blast
    then show ?thesis using r(1) 3 d \<open>src \<noteq> []\<close> by (cases pos) auto
  qed
qed

theorem from_str_radix_exact_witness:
  "from_str_radix \<lparr>it_bytes = 1, it_signed = True\<rparr> (bytes_of ''-80'') 16 = Ret (Inr (- 128))"
proof -
  let ?t = "\<lparr>it_bytes = 1, it_signed = True\<rparr>" and ?s = "bytes_of ''-80''"
  have u: "unat (16 :: u32) = 16" by simp
  have "int_denotes ?t 16 ?s False (bytes_of ''80'') \<and> digits_value 16 0 (bytes_of ''80'') = Some 128 \<and>
      - 128 = signed_value False 128 \<and> in_ty ?t (- 128)"
    by (intro conjI; code_simp)
  then have "\<exists>pos ds v. int_denotes ?t 16 ?s pos ds \<and> digits_value 16 0 ds = Some v \<and> - 128 = signed_value pos v \<and> in_ty ?t (- 128)"
    by blast
  moreover obtain r where "from_str_radix ?t ?s 16 = Ret r"
    "\<forall>n. r = Inr n \<longleftrightarrow> (\<exists>pos ds v. int_denotes ?t 16 ?s pos ds \<and> digits_value 16 0 ds = Some v \<and> n = signed_value pos v \<and> in_ty ?t n)"
    using from_str_radix_exact [of 16 ?t ?s] unfolding u by auto
  ultimately have "r = Inr (- 128)" by (simp only:)
  then show ?thesis using \<open>from_str_radix ?t ?s 16 = Ret r\<close> by (simp only:)
qed

end
