(* ===== verification/Int_Format.thy ===== *)
theory Int_Format
  imports Int_Parse
begin

text \<open>
  Printing integers: \<open>Display\<close> and the radix formats of \<open>library/core/src/fmt/num.rs\<close> with
  \<open>pad_integral\<close> of \<open>library/core/src/fmt/mod.rs\<close>. The code writes backwards into an uninitialised
  buffer through raw pointers: a write outside the buffer, a read outside the table of digit pairs and a position below the
  start of the buffer are undefined behaviour.
\<close>

section \<open>Printing in decimal\<close>

text \<open>\<open>checked_ilog\<close>, which fixes the size of the buffer, with its shortcut for 128 bits.\<close>

lemma ilog_decreases: "2 \<le> base \<Longrightarrow> 0 < r \<Longrightarrow> r * base \<le> self \<Longrightarrow> self - r * base < self - (r :: nat)"
proof -
  assume "2 \<le> base" "0 < r" "r * base \<le> self"
  moreover have "r * 2 \<le> r * base" using \<open>2 \<le> base\<close> by simp
  ultimately show ?thesis by linarith
qed

text \<open>The first two conditions hold whenever the loop is reached; they make it end for every argument.\<close>

function ilog_loop :: "nat \<Rightarrow> nat \<Rightarrow> nat \<Rightarrow> nat \<Rightarrow> nat" where
  "ilog_loop self base n r = (if 2 \<le> base \<and> 0 < r \<and> r \<le> self div base then ilog_loop self base (n + 1) (r * base) else n)"
  by pat_completeness auto
termination
  by (relation "measure (\<lambda>(self, base, n, r). self - r)") (auto simp: less_eq_div_iff_mult_less_eq intro: ilog_decreases)

declare ilog_loop.simps [simp del]

definition checked_ilog :: "nat \<Rightarrow> nat \<Rightarrow> nat \<Rightarrow> nat option" where
  "checked_ilog bits self base =
     (if self = 0 \<or> base \<le> 1 then None
      else if self < base then Some 0
      else (let (n, r) = (if bits = 128 then (let n = ilog2 self div (ilog2 base + 1) in (n, base ^ n)) else (1, base))
            in Some (ilog_loop self base n r)))"

definition DEC_DIGITS_LUT :: "u8 list" where
  "DEC_DIGITS_LUT = bytes_of (''0001020304050607080910111213141516171819''
     @ ''2021222324252627282930313233343536373839''
     @ ''4041424344454647484950515253545556575859''
     @ ''6061626364656667686970717273747576777879''
     @ ''8081828384858687888990919293949596979899'')"

text \<open>Moving the position back, and the raw copies and writes into the buffer.\<close>

definition curr_sub :: "nat \<Rightarrow> nat \<Rightarrow> nat outcome" where
  "curr_sub cur k = (if k \<le> cur then Ret (cur - k) else UB)"

definition copy_pair :: "nat \<Rightarrow> nat \<Rightarrow> u8 option list \<Rightarrow> u8 option list outcome" where
  "copy_pair d cur buf =
     (if d + 2 \<le> length DEC_DIGITS_LUT \<and> cur + 2 \<le> length buf
      then Ret (take cur buf @ map Some (take 2 (drop d DEC_DIGITS_LUT)) @ drop (cur + 2) buf) else UB)"

definition write_byte :: "nat \<Rightarrow> u8 \<Rightarrow> u8 option list \<Rightarrow> u8 option list outcome" where
  "write_byte i b buf = (if i < length buf then Ret (buf[i := Some b]) else UB)"

fun assume_init :: "u8 option list \<Rightarrow> u8 list outcome" where
  "assume_init [] = Ret []"
| "assume_init (None # bs) = UB"
| "assume_init (Some b # bs) = and_then (assume_init bs) (\<lambda>r. Ret (b # r))"

text \<open>Four digits at a time while the number is large.\<close>

fun four_digits :: "nat \<Rightarrow> nat \<Rightarrow> u8 option list \<Rightarrow> (nat \<times> nat \<times> u8 option list) outcome" where
  "four_digits self cur buf =
     (if 10000 \<le> self then
        (let rem = self mod 10000; d1 = 2 * (rem div 100); d2 = 2 * (rem mod 100) in
         and_then (curr_sub cur 4) (\<lambda>cur.
         and_then (copy_pair d1 cur buf) (\<lambda>buf.
         and_then (copy_pair d2 (cur + 2) buf) (\<lambda>buf.
           four_digits (self div 10000) cur buf))))
      else Ret (self, cur, buf))"

declare four_digits.simps [simp del]

definition last_digits :: "nat \<Rightarrow> nat \<Rightarrow> u8 option list \<Rightarrow> (nat \<times> u8 option list) outcome" where
  "last_digits n cur buf =
     and_then
       (if 100 \<le> n then
          and_then (curr_sub cur 2) (\<lambda>cur. and_then (copy_pair (2 * (n mod 100)) cur buf) (\<lambda>buf. Ret (n div 100, cur, buf)))
        else Ret (n, cur, buf))
       (\<lambda>(n, cur, buf).
          if n < 10 then and_then (curr_sub cur 1) (\<lambda>cur. and_then (write_byte cur (word_of_nat n + 0x30) buf) (\<lambda>buf. Ret (cur, buf)))
          else and_then (curr_sub cur 2) (\<lambda>cur. and_then (copy_pair (2 * n) cur buf) (\<lambda>buf. Ret (cur, buf))))"

text \<open>\<open>_fmt\<close> up to \<open>pad_integral\<close>: the digits of a non-negative number of type
  \<open>ty\<close>.\<close>

definition decimal_digits :: "int_ty \<Rightarrow> nat \<Rightarrow> u8 list outcome" where
  "decimal_digits ty self =
     (case checked_ilog (it_bits ty) (nat (it_max ty)) 10 of
        None \<Rightarrow> Panic
      | Some l \<Rightarrow>
          (let SIZE = l + 1 in
           and_then (if it_bytes ty \<ge> 2 then four_digits self SIZE (replicate SIZE None) else Ret (self, SIZE, replicate SIZE None))
             (\<lambda>(n, cur, buf). and_then (last_digits n cur buf) (\<lambda>(cur, buf).
                and_then (assume_init (drop cur buf)) from_utf8_unchecked))))"

text \<open>The flags of the formatter, by the position of the flag.\<close>

definition sign_plus :: "formatter \<Rightarrow> bool" where "sign_plus f = (fmt_flags f AND push_bit 0 1 \<noteq> 0)"
definition alternate :: "formatter \<Rightarrow> bool" where "alternate f = (fmt_flags f AND push_bit 2 1 \<noteq> 0)"
definition sign_aware_zero_pad :: "formatter \<Rightarrow> bool" where "sign_aware_zero_pad f = (fmt_flags f AND push_bit 3 1 \<noteq> 0)"

definition pad_integral :: "formatter \<Rightarrow> bool \<Rightarrow> string \<Rightarrow> string \<Rightarrow> string" where
  "pad_integral f is_nonnegative prefix buf =
     (let sign = (if \<not> is_nonnegative then ''-'' else if sign_plus f then ''+'' else []);
          pre = (if alternate f then prefix else []);
          width = length buf + length sign + (if alternate f then chars_count prefix else 0);
          write_prefix = sign @ pre
      in case fmt_width f of
           None \<Rightarrow> write_prefix @ buf
         | Some mn \<Rightarrow>
             if width \<ge> mn then write_prefix @ buf
             else if sign_aware_zero_pad f then
               (let (before, after) = padding (f\<lparr>fmt_fill := CHR ''0'', fmt_align := Some AlignRight\<rparr>) (mn - width) AlignRight
                in write_prefix @ before @ buf @ after)
             else
               (let (before, after) = padding f (mn - width) AlignRight
                in before @ write_prefix @ buf @ after))"

text \<open>\<open>Display\<close> of an integer: a negative number is printed as its two's complement in the unsigned type of that
  size. This is the printer of the types of at most 64 bits; 128-bit integers have another one, which is not modelled.\<close>

definition int_display :: "int_ty \<Rightarrow> formatter \<Rightarrow> int \<Rightarrow> string outcome" where
  "int_display ty f self =
     (if it_signed ty \<and> \<not> self \<ge> 0 then
        and_then (decimal_digits (ty\<lparr>it_signed := False\<rparr>) ((nat (- self - 1) + 1) mod 2 ^ it_bits ty))
          (\<lambda>buf. Ret (pad_integral f False [] (string_of buf)))
      else and_then (decimal_digits ty (nat self)) (\<lambda>buf. Ret (pad_integral f True [] (string_of buf))))"

section \<open>Printing in binary, octal and hexadecimal\<close>

datatype generic_radix = Binary | Octal | LowerHex | UpperHex

definition BASE :: "generic_radix \<Rightarrow> nat" where
  "BASE r = (case r of Binary \<Rightarrow> 2 | Octal \<Rightarrow> 8 | LowerHex \<Rightarrow> 16 | UpperHex \<Rightarrow> 16)"

definition PREFIX :: "generic_radix \<Rightarrow> string" where
  "PREFIX r = (case r of Binary \<Rightarrow> ''0b'' | Octal \<Rightarrow> ''0o'' | LowerHex \<Rightarrow> ''0x'' | UpperHex \<Rightarrow> ''0x'')"

definition radix_digit :: "generic_radix \<Rightarrow> u8 \<Rightarrow> u8 outcome" where
  "radix_digit r x =
     (case r of
        Binary \<Rightarrow> if x \<le> 1 then Ret (0x30 + x) else Panic
      | Octal \<Rightarrow> if x \<le> 7 then Ret (0x30 + x) else Panic
      | LowerHex \<Rightarrow> if x \<le> 9 then Ret (0x30 + x) else if x \<le> 15 then Ret (0x61 + (x - 10)) else Panic
      | UpperHex \<Rightarrow> if x \<le> 9 then Ret (0x30 + x) else if x \<le> 15 then Ret (0x41 + (x - 10)) else Panic)"

text \<open>The loop over the buffer from its end; \<open>i\<close> cells are left.\<close>

fun radix_loop :: "generic_radix \<Rightarrow> nat \<Rightarrow> nat \<Rightarrow> u8 option list \<Rightarrow> (nat \<times> u8 option list) outcome" where
  "radix_loop r x 0 buf = Ret (0, buf)"
| "radix_loop r x (Suc i) buf =
     (let n = x mod BASE r; x = x div BASE r in
      and_then (radix_digit r (word_of_nat n)) (\<lambda>d.
        let buf = buf[i := Some d] in if x = 0 then Ret (i, buf) else radix_loop r x i buf))"

text \<open>The number is of an unsigned type in every call (\<open>*self as $U\<close>), so the branch for negative numbers
  is never taken.\<close>

definition fmt_int :: "generic_radix \<Rightarrow> nat \<Rightarrow> formatter \<Rightarrow> string outcome" where
  "fmt_int r x f =
     and_then (radix_loop r x 128 (replicate 128 None)) (\<lambda>(cur, buf).
     and_then (assume_init (drop cur buf)) (\<lambda>bs.
     and_then (from_utf8_unchecked bs) (\<lambda>s.
       Ret (pad_integral f True (PREFIX r) (string_of s)))))"

text \<open>The radix formats of a signed integer print its two's complement.\<close>

definition int_radix :: "generic_radix \<Rightarrow> int_ty \<Rightarrow> formatter \<Rightarrow> int \<Rightarrow> string outcome" where
  "int_radix r ty f self = fmt_int r (nat (self mod 2 ^ it_bits ty)) f"

section \<open>Printing is exact\<close>

text \<open>The digits of a number, most significant first.\<close>

fun digits_of :: "nat \<Rightarrow> (nat \<Rightarrow> u8) \<Rightarrow> nat \<Rightarrow> u8 list" where
  "digits_of base dg n = (if base < 2 \<or> n < base then [dg n] else digits_of base dg (n div base) @ [dg (n mod base)])"

declare digits_of.simps [simp del]

definition dec :: "nat \<Rightarrow> u8" where "dec d = word_of_nat d + 0x30"

abbreviation decimal :: "nat \<Rightarrow> u8 list" where "decimal \<equiv> digits_of 10 dec"
abbreviation dec_pair :: "nat \<Rightarrow> u8 list" where "dec_pair k \<equiv> [dec (k div 10), dec (k mod 10)]"

lemma lut_pairs: "list_all (\<lambda>k. take 2 (drop (2 * k) DEC_DIGITS_LUT) = dec_pair k) [0..<100]"
  by code_simp

lemma lut_pair: "k < 100 \<Longrightarrow> take 2 (drop (2 * k) DEC_DIGITS_LUT) = dec_pair k"
  using lut_pairs by (simp add: list_all_iff)

lemma lut_length: "length DEC_DIGITS_LUT = 200"
  by (simp add: DEC_DIGITS_LUT_def bytes_of_def)

lemma mod_100: "n mod 100 div 10 = n div 10 mod (10 :: nat)" "n mod 100 mod 10 = n mod (10 :: nat)"
proof -
  have "n mod 100 = 10 * (n div 10 mod 10) + n mod 10" using mod_mult2_eq [of n 10 10] by simp
  then show "n mod 100 div 10 = n div 10 mod 10" "n mod 100 mod 10 = n mod 10" by simp_all
qed

lemma decimal_100:
  assumes "100 \<le> n"
  shows "decimal n = decimal (n div 100) @ dec_pair (n mod 100)"
proof -
  have "decimal n = decimal (n div 10) @ [dec (n mod 10)]" using assms by (subst digits_of.simps) simp
  moreover have "decimal (n div 10) = decimal (n div 10 div 10) @ [dec (n div 10 mod 10)]"
    using assms by (subst digits_of.simps) (simp add: div_less_iff_less_mult)
  moreover have "n div 10 div 10 = n div 100" by (simp add: div_mult2_eq [symmetric])
  ultimately show ?thesis by (simp add: mod_100)
qed

lemma decimal_small: "n < 10 \<Longrightarrow> decimal n = [dec n]" "10 \<le> n \<Longrightarrow> n < 100 \<Longrightarrow> decimal n = dec_pair n"
  by (simp add: digits_of.simps) (subst digits_of.simps, simp add: digits_of.simps [of _ _ "n div 10"] div_less_iff_less_mult)

text \<open>A buffer that is filled from \<open>cur\<close> on.\<close>

definition filled_from :: "nat \<Rightarrow> nat \<Rightarrow> u8 list \<Rightarrow> u8 option list \<Rightarrow> bool" where
  "filled_from len cur s buf \<longleftrightarrow> length buf = len \<and> (\<exists>pre. length pre = cur \<and> buf = pre @ map Some s)"

lemma filled_split:
  assumes "filled_from len (cur + k) s buf"
  obtains p q where "length p = cur" "length q = k" "buf = p @ q @ map Some s" "length buf = len"
proof -
  obtain pre where "length pre = cur + k" "buf = pre @ map Some s" "length buf = len" using assms unfolding filled_from_def by blast
  then show ?thesis using that [of "take cur pre" "drop cur pre"] by (simp add: min_def)
qed

lemma filled_fromI: "length p = cur \<Longrightarrow> length (p @ map Some s) = len \<Longrightarrow> filled_from len cur s (p @ map Some s)"
  unfolding filled_from_def by blast

lemma copy_pair_Ret:
  "k < 100 \<Longrightarrow> length p = cur \<Longrightarrow> length q = 2 \<Longrightarrow> copy_pair (2 * k) cur (p @ q @ r) = Ret (p @ map Some (dec_pair k) @ r)"
  by (simp add: copy_pair_def lut_length lut_pair)

lemma filled_copy:
  assumes "filled_from len (cur + 2) s buf" "k < 100"
  obtains buf' where "copy_pair (2 * k) cur buf = Ret buf'" "filled_from len cur (dec_pair k @ s) buf'"
proof -
  obtain p q where b: "length p = cur" "length q = 2" "buf = p @ q @ map Some s" "length buf = len" by (rule filled_split [OF assms(1)])
  show ?thesis
  proof (rule that)
    show "copy_pair (2 * k) cur buf = Ret (p @ map Some (dec_pair k @ s))" using copy_pair_Ret [OF assms(2) b(1,2)] b(3) by simp
    show "filled_from len cur (dec_pair k @ s) (p @ map Some (dec_pair k @ s))" using b by (intro filled_fromI) simp_all
  qed
qed

lemma filled_copy_two:
  assumes "filled_from len (cur + 4) s buf" "j < 100" "k < 100"
  obtains b1 b2 where "copy_pair (2 * j) cur buf = Ret b1" "copy_pair (2 * k) (cur + 2) b1 = Ret b2"
    "filled_from len cur (dec_pair j @ dec_pair k @ s) b2"
proof -
  obtain p q where b: "length p = cur" "length q = 4" "buf = p @ q @ map Some s" "length buf = len" by (rule filled_split [OF assms(1)])
  let ?x = "map Some (dec_pair j)"
  have q: "length (take 2 q) = 2" "length (drop 2 q) = 2" "q = take 2 q @ drop 2 q" using b(2) by simp_all
  show ?thesis
  proof (rule that)
    show "copy_pair (2 * j) cur buf = Ret (p @ ?x @ drop 2 q @ map Some s)"
      using copy_pair_Ret [OF assms(2) b(1) q(1), of "drop 2 q @ map Some s"] q(3) b(3) by (metis append.assoc)
    show "copy_pair (2 * k) (cur + 2) (p @ ?x @ drop 2 q @ map Some s) = Ret (p @ map Some (dec_pair j @ dec_pair k @ s))"
      using copy_pair_Ret [OF assms(3) _ q(2), of "p @ ?x" "cur + 2" "map Some s"] b(1) by simp
    show "filled_from len cur (dec_pair j @ dec_pair k @ s) (p @ map Some (dec_pair j @ dec_pair k @ s))"
      using b by (intro filled_fromI) simp_all
  qed
qed

lemma filled_write:
  assumes "filled_from len (cur + 1) s buf"
  obtains buf' where "write_byte cur b buf = Ret buf'" "filled_from len cur (b # s) buf'"
proof -
  obtain p q where l: "length p = cur" "length q = 1" "buf = p @ q @ map Some s" "length buf = len" by (rule filled_split [OF assms])
  then obtain x where "q = [x]" by (auto simp: length_Suc_conv)
  then have "write_byte cur b buf = Ret (p @ map Some (b # s))" using l by (simp add: write_byte_def list_update_append)
  moreover have "filled_from len cur (b # s) (p @ map Some (b # s))" using l by (intro filled_fromI) simp_all
  ultimately show ?thesis by (rule that)
qed

lemma power_room: "10 ^ k \<le> n \<Longrightarrow> n < (10 :: nat) ^ c \<Longrightarrow> k < c"
proof (rule ccontr)
  assume "10 ^ k \<le> n" "n < 10 ^ c" "\<not> k < c"
  moreover have "(10 :: nat) ^ c \<le> 10 ^ k" using \<open>\<not> k < c\<close> by (intro power_increasing) simp_all
  ultimately show False by linarith
qed

lemma power_shrink: "n < (10 :: nat) ^ c \<Longrightarrow> k \<le> c \<Longrightarrow> n div 10 ^ k < 10 ^ (c - k)"
  by (simp add: div_less_iff_less_mult power_add [symmetric])

lemma four_digits_result:
  "filled_from len cur s buf \<Longrightarrow> self < 10 ^ cur \<Longrightarrow> 0 < cur \<Longrightarrow>
   \<exists>n c s' b. four_digits self cur buf = Ret (n, c, b) \<and> filled_from len c s' b \<and> n < 10000 \<and> n < 10 ^ c \<and> 0 < c \<and> decimal n @ s' = decimal self @ s"
proof (induction self arbitrary: cur s buf rule: less_induct)
  case (less self)
  show ?case
  proof (cases "10000 \<le> self")
    case False
    then show ?thesis using less.prems by (auto simp: four_digits.simps [of self])
  next
    case True
    let ?r = "self mod 10000" and ?c = "cur - 4"
    have c: "4 < cur" using power_room [of 4 self cur] True less.prems(2) by simp
    have r: "?r div 100 < 100" "?r mod 100 < 100" using mod_less_divisor [of 10000 self] by (simp_all add: div_less_iff_less_mult)
    have "cur = ?c + 4" using c by simp
    with less.prems(1) have "filled_from len (?c + 4) s buf" by (simp only:)
    then obtain b1 b2 where b: "copy_pair (2 * (?r div 100)) ?c buf = Ret b1" "copy_pair (2 * (?r mod 100)) (?c + 2) b1 = Ret b2"
      "filled_from len ?c (dec_pair (?r div 100) @ dec_pair (?r mod 100) @ s) b2"
      using filled_copy_two r by blast
    have n: "self div 10000 < self" "self div 10000 < 10 ^ ?c" using True power_shrink [OF less.prems(2), of 4] c by simp_all
    have e: "four_digits self cur buf = four_digits (self div 10000) ?c b2"
      using True c b by (simp add: four_digits.simps [of self] curr_sub_def Let_def)
    have "?r = 100 * (self div 100 mod 100) + self mod 100" using mod_mult2_eq [of self 100 100] by simp
    then have "?r div 100 = self div 100 mod 100" "?r mod 100 = self mod 100" by simp_all
    moreover have "decimal (self div 100) = decimal (self div 100 div 100) @ dec_pair (self div 100 mod 100)"
      using True by (intro decimal_100) (simp add: less_eq_div_iff_mult_less_eq)
    moreover have "self div 100 div 100 = self div 10000" by (simp add: div_mult2_eq [symmetric])
    ultimately have "decimal self = decimal (self div 10000) @ dec_pair (?r div 100) @ dec_pair (?r mod 100)"
      using decimal_100 [of self] True by simp
    then show ?thesis using less.IH [OF n(1) b(3) n(2)] e c by simp
  qed
qed

lemma last_digits_result:
  assumes "filled_from len cur s buf" "n < 10000" "n < 10 ^ cur" "0 < cur"
  shows "\<exists>c b. last_digits n cur buf = Ret (c, b) \<and> filled_from len c (decimal n @ s) b"
proof -
  have small: "\<exists>c b. (if n < 10 then and_then (curr_sub cur 1) (\<lambda>cur. and_then (write_byte cur (word_of_nat n + 0x30) buf) (\<lambda>buf. Ret (cur, buf)))
        else and_then (curr_sub cur 2) (\<lambda>cur. and_then (copy_pair (2 * n) cur buf) (\<lambda>buf. Ret (cur, buf)))) = Ret (c, b)
      \<and> filled_from len c (decimal n @ s) b"
    if f: "filled_from len cur s buf" and n: "n < 100" "n < 10 ^ cur" "0 < cur" for n cur s buf
  proof (cases "n < 10")
    case True
    obtain c where c: "cur = c + 1" using n(3) by (cases cur) auto
    then obtain b where "write_byte c (word_of_nat n + 0x30) buf = Ret b" "filled_from len c ((word_of_nat n + 0x30) # s) b"
      using filled_write f by blast
    then show ?thesis using True c by (simp add: curr_sub_def decimal_small(1) dec_def)
  next
    case False
    then have "1 < cur" using power_room [of 1 n cur] n(2) by simp
    then have c: "cur = (cur - 2) + 2" by simp
    then obtain b where "copy_pair (2 * n) (cur - 2) buf = Ret b" "filled_from len (cur - 2) (dec_pair n @ s) b"
      using filled_copy [of len "cur - 2" s buf n] f n(1) by metis
    then show ?thesis using False \<open>1 < cur\<close> n(1) by (simp add: curr_sub_def decimal_small(2))
  qed
  show ?thesis
  proof (cases "100 \<le> n")
    case False
    then show ?thesis using small [OF assms(1) _ assms(3,4)] by (simp add: last_digits_def)
  next
    case True
    then have "2 < cur" using power_room [of 2 n cur] assms(3) by simp
    then obtain c where c: "cur = c + 2" "0 < c" by (intro that [of "cur - 2"]) simp_all
    then obtain b where b: "copy_pair (2 * (n mod 100)) c buf = Ret b" "filled_from len c (dec_pair (n mod 100) @ s) b"
      using filled_copy [of len c s buf "n mod 100"] assms(1) by auto
    have "n div 100 < 100" "n div 100 < 10 ^ c" using assms(2,3) power_shrink [OF assms(3), of 2] c(1) by (simp_all add: div_less_iff_less_mult)
    from small [OF b(2) this c(2)] show ?thesis using True b(1) c(1) decimal_100 [OF True] by (simp add: last_digits_def curr_sub_def)
  qed
qed

lemma ilog_loop_bounds:
  "2 \<le> base \<Longrightarrow> r = base ^ n \<Longrightarrow> r \<le> self \<Longrightarrow>
   base ^ ilog_loop self base n r \<le> self \<and> self < base ^ Suc (ilog_loop self base n r)"
proof (induction self base n r rule: ilog_loop.induct)
  case (1 self base n r)
  have r: "0 < r" using 1 by simp
  show ?case
  proof (cases "r \<le> self div base")
    case True
    then have "r * base \<le> self" using 1 by (simp add: less_eq_div_iff_mult_less_eq)
    moreover have "ilog_loop self base n r = ilog_loop self base (n + 1) (r * base)"
      using 1(2) True r by (subst ilog_loop.simps) simp
    ultimately show ?thesis using 1 True r by (simp add: mult.commute)
  next
    case False
    then have "self < r * base" using 1 by (simp add: less_eq_div_iff_mult_less_eq)
    moreover have "ilog_loop self base n r = n" using False by (subst ilog_loop.simps) simp
    ultimately show ?thesis using 1 by (simp add: mult.commute)
  qed
qed

lemma checked_ilog_bounds:
  assumes "0 < m" "2 \<le> base"
  obtains k where "checked_ilog bits m base = Some k" "base ^ k \<le> m" "m < base ^ Suc k"
proof (cases "m < base")
  case True
  then show ?thesis using that [of 0] assms by (simp add: checked_ilog_def)
next
  case False
  let ?n = "if bits = 128 then ilog2 m div (ilog2 base + 1) else 1"
  have "base ^ ?n \<le> m"
  proof (cases "bits = 128")
    case True
    let ?q = "ilog2 m div (ilog2 base + 1)"
    have "base ^ ?q \<le> (2 ^ Suc (ilog2 base)) ^ ?q" using ilog2_bounds [of base] assms(2) by (intro power_mono) simp_all
    also have "\<dots> = 2 ^ (?q * (ilog2 base + 1))" by (simp only: power_mult [symmetric] mult.commute Suc_eq_plus1)
    also have "\<dots> \<le> 2 ^ ilog2 m" by (intro power_increasing div_times_less_eq_dividend) simp
    also have "\<dots> \<le> m" using ilog2_bounds [OF assms(1)] by blast
    finally show ?thesis using True by simp
  qed (use False in simp)
  from ilog_loop_bounds [OF assms(2) refl this] show ?thesis
    using False assms by (intro that [of "ilog_loop m base ?n (base ^ ?n)"]) (simp_all add: checked_ilog_def Let_def)
qed

lemma assume_init_Some: "assume_init (map Some s) = Ret s"
  by (induction s) simp_all

lemma ascii_text: "\<forall>b\<in>set s. b < 0x80 \<Longrightarrow> from_utf8_unchecked s = Ret s"
  using is_utf8_append_ascii [of s "[]"] by (simp add: from_utf8_unchecked_def)

lemma digits_of_all: "(\<And>d. d < base \<Longrightarrow> P (dg d)) \<Longrightarrow> 2 \<le> base \<Longrightarrow> b \<in> set (digits_of base dg n) \<Longrightarrow> P b"
proof (induction base dg n rule: digits_of.induct)
  case (1 base dg n)
  then show ?case by (subst (asm) (2) digits_of.simps) (auto split: if_splits)
qed

lemma dec_range: "d < 10 \<Longrightarrow> unat (dec d) = 48 + d" "d < 10 \<Longrightarrow> dec d < 0x80"
  by (simp_all add: dec_def word_less_nat_alt unat_word_ariths unsigned_of_nat take_bit_nat_eq_self)

lemma it_max_pos: "0 < it_bytes ty \<Longrightarrow> 127 \<le> it_max ty"
proof -
  assume "0 < it_bytes ty"
  then have "(2 :: int) ^ 7 \<le> 2 ^ (it_bits ty - 1)" "(2 :: int) ^ 7 \<le> 2 ^ it_bits ty"
    by (intro power_increasing; simp add: it_bits_def)+
  then show ?thesis by (simp add: it_max_def)
qed

lemma decimal_digits_exact:
  assumes "0 < it_bytes ty" "int self \<le> it_max ty"
  shows "decimal_digits ty self = Ret (decimal self)"
proof -
  have "0 < nat (it_max ty)" using it_max_pos [OF assms(1)] by simp
  then obtain l where l: "checked_ilog (it_bits ty) (nat (it_max ty)) 10 = Some l" "nat (it_max ty) < 10 ^ Suc l"
    using checked_ilog_bounds [of "nat (it_max ty)" 10 "it_bits ty"] by auto
  let ?S = "l + 1" and ?b = "replicate (l + 1) None"
  have self: "self < 10 ^ ?S" using l(2) assms(2) unfolding Suc_eq_plus1 by linarith
  have f: "filled_from ?S ?S [] ?b" by (auto simp: filled_from_def)
  have "\<exists>n c s b. (if it_bytes ty \<ge> 2 then four_digits self ?S ?b else Ret (self, ?S, ?b)) = Ret (n, c, b) \<and>
      filled_from ?S c s b \<and> n < 10000 \<and> n < 10 ^ c \<and> 0 < c \<and> decimal n @ s = decimal self"
  proof (cases "it_bytes ty \<ge> 2")
    case True
    then show ?thesis using four_digits_result [OF f self] by simp
  next
    case False
    then have "it_bytes ty = 1" using assms(1) by simp
    then have "it_max ty < 10000" by (simp add: it_max_def it_bits_def)
    then show ?thesis using False assms(2) self f by (intro exI [of _ self] exI [of _ ?S] exI [of _ "[]"] exI [of _ ?b]) auto
  qed
  then obtain n c s b where a: "(if it_bytes ty \<ge> 2 then four_digits self ?S ?b else Ret (self, ?S, ?b)) = Ret (n, c, b)"
    "filled_from ?S c s b" "n < 10000" "n < 10 ^ c" "0 < c" "decimal n @ s = decimal self" by blast
  obtain c' b' where d: "last_digits n c b = Ret (c', b')" "filled_from ?S c' (decimal self) b'"
    using last_digits_result [OF a(2-5)] a(6) by auto
  have "drop c' b' = map Some (decimal self)" using d(2) by (auto simp: filled_from_def)
  then have "assume_init (drop c' b') = Ret (decimal self)" by (simp add: assume_init_Some)
  moreover have "from_utf8_unchecked (decimal self) = Ret (decimal self)"
    using digits_of_all [of 10 "\<lambda>b. b < 0x80" dec] dec_range(2) by (intro ascii_text) auto
  ultimately show ?thesis unfolding decimal_digits_def l(1) option.case Let_def a(1) using d(1) by simp
qed

lemma int_display_exact:
  assumes "0 < it_bytes ty" "in_ty ty x"
  shows "int_display ty f x = Ret (pad_integral f (x \<ge> 0) [] (string_of (decimal (nat \<bar>x\<bar>))))"
proof (cases "it_signed ty \<and> \<not> x \<ge> 0")
  case False
  then have "0 \<le> x" using assms(2) by (auto simp: in_ty_def it_min_def)
  then show ?thesis using decimal_digits_exact [OF assms(1), of "nat x"] assms(2) by (simp add: int_display_def in_ty_def)
next
  case True
  let ?u = "ty\<lparr>it_signed := False\<rparr>"
  have "- x \<le> 2 ^ (it_bits ty - 1)" using True assms(2) by (simp add: in_ty_def it_min_def)
  moreover have "(2 :: int) ^ (it_bits ty - 1) < 2 ^ it_bits ty" using assms(1) by (intro power_strict_increasing) (simp_all add: it_bits_def)
  ultimately have x: "- x < 2 ^ it_bits ty" by linarith
  then have "nat (- x) < 2 ^ it_bits ty" by (simp add: nat_less_iff)
  then have "(nat (- x - 1) + 1) mod 2 ^ it_bits ty = nat \<bar>x\<bar>" using True by (simp add: nat_diff_distrib' Suc_nat_eq_nat_zadd1 [symmetric])
  moreover have "decimal_digits ?u (nat \<bar>x\<bar>) = Ret (decimal (nat \<bar>x\<bar>))"
    using assms(1) x True by (intro decimal_digits_exact) (simp_all add: it_max_def it_bits_def)
  ultimately show ?thesis using True by (simp add: int_display_def it_bits_def)
qed

subsection \<open>The other radices\<close>

definition radix_char :: "generic_radix \<Rightarrow> nat \<Rightarrow> u8" where
  "radix_char r d = (if d < 10 then word_of_nat (48 + d) else word_of_nat ((if r = UpperHex then 55 else 87) + d))"

lemma BASE_range: "2 \<le> BASE r" "BASE r \<le> 16"
  by (cases r; simp add: BASE_def)+

lemma radix_digit_Ret: "d < BASE r \<Longrightarrow> radix_digit r (word_of_nat d) = Ret (radix_char r d)"
proof -
  assume d: "d < BASE r"
  then have "d < 16" using BASE_range(2) [of r] by simp
  then have u: "unat (word_of_nat d :: u8) = d" by (simp add: unsigned_of_nat take_bit_nat_eq_self)
  have "(word_of_nat (48 + d) :: u8) = 0x30 + word_of_nat d" "(word_of_nat (87 + d) :: u8) = 0x61 + (word_of_nat d - 10)"
    "(word_of_nat (55 + d) :: u8) = 0x41 + (word_of_nat d - 10)" by simp_all
  then show ?thesis using d u by (cases r) (auto simp: radix_digit_def radix_char_def BASE_def word_le_nat_alt not_less)
qed

lemma radix_char_range: "d < BASE r \<Longrightarrow> unat (radix_char r d) = (if d < 10 then 48 + d else (if r = UpperHex then 55 else 87) + d)"
proof -
  assume "d < BASE r"
  then have d: "d < 16" using BASE_range(2) [of r] by simp
  have "unat (word_of_nat k :: u8) = k" if "k < 256" for k using that by (simp add: unsigned_of_nat take_bit_nat_eq_self)
  then show ?thesis unfolding radix_char_def using d by (simp del: of_nat_add)
qed

lemma radix_loop_result:
  "filled_from len i s buf \<Longrightarrow> x < BASE r ^ i \<Longrightarrow> 0 < i \<Longrightarrow>
   \<exists>c b. radix_loop r x i buf = Ret (c, b) \<and> filled_from len c (digits_of (BASE r) (radix_char r) x @ s) b"
proof (induction r x i buf arbitrary: s rule: radix_loop.induct)
  case (2 r x i buf)
  let ?B = "BASE r" and ?d = "radix_char r (x mod BASE r)"
  have B: "2 \<le> ?B" "x mod ?B < ?B" using BASE_range [of r] by simp_all
  have "filled_from len (i + 1) s buf" using "2.prems"(1) by simp
  then have f: "filled_from len i (?d # s) (buf[i := Some ?d])"
    using filled_write [of len i s buf ?d] by (auto simp: write_byte_def filled_from_def split: if_splits)
  have step: "radix_loop r x (Suc i) buf =
      (if x div ?B = 0 then Ret (i, buf[i := Some ?d]) else radix_loop r (x div ?B) i (buf[i := Some ?d]))"
    using radix_digit_Ret [OF B(2)] by (simp add: Let_def)
  show ?case
  proof (cases "x div ?B = 0")
    case True
    then have "x < ?B" using B by (simp add: div_eq_0_iff)
    then show ?thesis using True f step B by (simp add: digits_of.simps [of ?B _ x])
  next
    case False
    then have d: "digits_of ?B (radix_char r) x = digits_of ?B (radix_char r) (x div ?B) @ [?d]"
      using B by (subst digits_of.simps) (auto simp: not_less)
    have x: "x div ?B < ?B ^ i" using "2.prems"(2) B by (simp add: div_less_iff_less_mult mult.commute)
    have i: "0 < i" using x False by (cases i) simp_all
    from "2.IH" [OF refl refl _ refl False f x i] show ?thesis using False step d by (simp add: radix_digit_Ret [OF B(2)])
  qed
qed simp

lemma fmt_int_exact:
  assumes "x < 2 ^ 128"
  shows "fmt_int r x f = Ret (pad_integral f True (PREFIX r) (string_of (digits_of (BASE r) (radix_char r) x)))"
proof -
  let ?s = "digits_of (BASE r) (radix_char r) x"
  have "(2 :: nat) ^ 128 \<le> BASE r ^ 128" using BASE_range [of r] by (intro power_mono) simp_all
  then have "x < BASE r ^ 128" using assms by linarith
  moreover have "filled_from 128 128 [] (replicate 128 None)" unfolding filled_from_def by (rule conjI, simp) (rule exI [of _ "replicate 128 None"], simp)
  ultimately obtain c b where b: "radix_loop r x 128 (replicate 128 None) = Ret (c, b)" "filled_from 128 c (?s @ []) b"
    using radix_loop_result [of 128 128 "[]" "replicate 128 None" x r] by auto
  have "drop c b = map Some ?s" using b(2) by (auto simp: filled_from_def)
  moreover have "from_utf8_unchecked ?s = Ret ?s"
    using digits_of_all [of "BASE r" "\<lambda>b. b < 0x80" "radix_char r" _ x] BASE_range [of r]
    by (intro ascii_text ballI) (auto simp: word_less_nat_alt radix_char_range split: if_splits)
  ultimately show ?thesis unfolding fmt_int_def b(1) by (simp add: assume_init_Some)
qed

section \<open>Round trips\<close>

lemma digits_value_of:
  assumes "2 \<le> base" "\<And>d. d < base \<Longrightarrow> digit_in base (dg d) = Some d"
  shows "digits_value base 0 (digits_of base dg n) = Some n"
  using assms
proof (induction base dg n rule: digits_of.induct)
  case (1 base dg n)
  show ?case
  proof (cases "n < base")
    case True
    then show ?thesis using 1 by (simp add: digits_of.simps [of base dg n])
  next
    case False
    then have "digits_value base 0 (digits_of base dg (n div base)) = Some (n div base)" using 1 by simp
    moreover have "digit_in base (dg (n mod base)) = Some (n mod base)" using 1 by simp
    ultimately show ?thesis using False "1.prems"(1) by (subst digits_of.simps) (simp add: digits_value_append)
  qed
qed

lemma digits_of_not_Nil: "digits_of base dg n \<noteq> []"
  by (subst digits_of.simps) simp

lemma bytes_string [simp]: "bytes_of (string_of bs) = bs"
proof -
  have "of_char (char_of (unat b)) = (b :: u8)" for b
  proof -
    have "(of_char (char_of (unat b)) :: u8) = word_of_nat (of_char (char_of (unat b)))" by (rule of_nat_of_char [symmetric])
    moreover have "of_char (char_of (unat b)) = unat b" using unat_less_pow [of b] by (simp add: take_bit_nat_eq_self)
    ultimately show ?thesis by simp
  qed
  then show ?thesis unfolding bytes_of_def string_of_def map_map comp_def by (intro map_idI)
qed

lemma bytes_append [simp]: "bytes_of (s @ t) = bytes_of s @ bytes_of t"
  by (simp add: bytes_of_def)

lemma digit_in_dec: "d < 10 \<Longrightarrow> digit_in 10 (dec d) = Some d"
  by (simp add: digit_in_def digit_of_def dec_range)

lemma digit_in_radix: "d < BASE r \<Longrightarrow> digit_in (BASE r) (radix_char r d) = Some d"
  using BASE_range(2) [of r] by (auto simp: digit_in_def digit_of_def radix_char_range)

lemma digit_not_sign: "digit_in base b = Some d \<Longrightarrow> b \<noteq> 0x2B \<and> b \<noteq> 0x2D"
  by (auto simp: digit_in_def digit_of_def)

lemma digits_value_hd: "digits_value base acc ds = Some v \<Longrightarrow> ds \<noteq> [] \<Longrightarrow> hd ds \<noteq> 0x2B \<and> hd ds \<noteq> 0x2D"
  using digit_not_sign by (cases ds) (auto split: option.splits)

text \<open>A text with a sign and valid digits is parsed to its value.\<close>

lemma from_str_radix_value:
  assumes "2 \<le> radix" "radix \<le> 36" "0 < it_bytes ty" "digits_value (unat radix) 0 ds = Some v" "ds \<noteq> []"
    and "sign = [] \<and> pos \<or> sign = [0x2B] \<and> pos \<or> sign = [0x2D] \<and> \<not> pos \<and> it_signed ty" "in_ty ty (signed_value pos v)"
  shows "from_str_radix ty (sign @ ds) radix = Ret (Inr (signed_value pos v))"
proof -
  have "int_denotes ty (unat radix) (sign @ ds) pos ds"
    using assms(5,6) digits_value_hd [OF assms(4,5)] by (auto simp: int_denotes_def)
  then obtain r where r: "from_str_radix ty (sign @ ds) radix = Ret r" "loop_result ty (unat radix) pos 0 ds r"
    using from_str_radix_result [OF assms(1-3)] by blast
  have "0 < unat radix" using assms(1) by (simp add: word_le_nat_alt)
  then have "\<not> overflows ty (unat radix) pos 0 ds" using overflows_value assms(3,4,7) by blast
  then have "r = Inr (signed_value pos v)" using r(2) assms(4) by (auto simp: loop_result_def split: sum.splits)
  then show ?thesis using r(1) by simp
qed

lemma pad_integral_plain:
  "fmt_width f = None \<Longrightarrow> pad_integral f nn prefix buf =
     (if \<not> nn then ''-'' else if sign_plus f then ''+'' else []) @ (if alternate f then prefix else []) @ buf"
  by (simp add: pad_integral_def Let_def)

text \<open>What is written for a formatter without minimum width is parsed to the number.\<close>

lemma display_parses:
  assumes "0 < it_bytes ty" "in_ty ty x" "fmt_width f = None"
  shows "from_str ty (bytes_of (pad_integral f (x \<ge> 0) [] (string_of (decimal (nat \<bar>x\<bar>))))) = Ret (Inr x)"
proof -
  let ?pos = "x \<ge> 0" and ?ds = "decimal (nat \<bar>x\<bar>)"
  have v: "digits_value (unat (10 :: u32)) 0 ?ds = Some (nat \<bar>x\<bar>)" using digits_value_of [of 10 dec] digit_in_dec by simp
  have x: "signed_value ?pos (nat \<bar>x\<bar>) = x" by (simp add: signed_value_def)
  have signed: "it_signed ty" if "\<not> ?pos" using assms(2) that by (auto simp: in_ty_def it_min_def split: if_splits)
  define sign where "sign = bytes_of (if \<not> ?pos then ''-'' else if sign_plus f then ''+'' else [])"
  have "sign = [] \<and> ?pos \<or> sign = [0x2B] \<and> ?pos \<or> sign = [0x2D] \<and> \<not> ?pos \<and> it_signed ty"
    using signed by (auto simp: sign_def bytes_of_def)
  from from_str_radix_value [OF _ _ assms(1) v digits_of_not_Nil this] assms(2) x
  have "from_str ty (sign @ ?ds) = Ret (Inr x)" by (simp add: from_str_def)
  moreover have "bytes_of (pad_integral f ?pos [] (string_of ?ds)) = sign @ ?ds"
    using assms(3) by (simp add: pad_integral_plain sign_def)
  ultimately show ?thesis by simp
qed

lemma radix_parses:
  assumes "0 < it_bytes ty" "in_ty ty x" "0 \<le> x" "fmt_width f = None" "\<not> alternate f"
  shows "from_str_radix ty (bytes_of (pad_integral f True (PREFIX r) (string_of (digits_of (BASE r) (radix_char r) (nat x)))))
    (word_of_nat (BASE r)) = Ret (Inr x)"
proof -
  let ?ds = "digits_of (BASE r) (radix_char r) (nat x)" and ?sign = "bytes_of (if sign_plus f then ''+'' else [])"
  have b: "unat (word_of_nat (BASE r) :: u32) = BASE r" "2 \<le> (word_of_nat (BASE r) :: u32)" "(word_of_nat (BASE r) :: u32) \<le> 36"
    by (cases r; simp add: BASE_def)+
  have v: "digits_value (unat (word_of_nat (BASE r) :: u32)) 0 ?ds = Some (nat x)"
    unfolding b(1) using digits_value_of BASE_range(1) digit_in_radix by blast
  have "from_str_radix ty (?sign @ ?ds) (word_of_nat (BASE r)) = Ret (Inr (signed_value True (nat x)))"
    using b assms(1-3) by (intro from_str_radix_value [OF _ _ assms(1) v digits_of_not_Nil]) (simp_all add: bytes_of_def signed_value_def)
  then show ?thesis using assms(3-5) by (simp add: pad_integral_plain signed_value_def)
qed

section \<open>Properties\<close>

text \<open>C26: printing an integer of at most 64 bits in decimal writes its sign and its decimal digits, padded as the
  formatter says, without undefined behaviour: the buffer sized by \<open>ilog\<close> is always large enough for the digit
  pairs written through raw pointers. For a formatter without minimum width, parsing the text for the same type returns the
  number. The binary, octal and hexadecimal formats of an integer of at most 128 bits write the digits of its two's
  complement, which is the number itself if it is not negative, after the prefix that the alternate form asks for. For a
  formatter without minimum width and alternate form, parsing that text in the same radix for the unsigned type of the same
  size returns the two's complement: a negative number is not read back by its own type.\<close>

theorem int_text_roundtrip:
  assumes "0 < it_bytes ty" "it_bytes ty \<le> 16" "in_ty ty x"
  shows "(it_bytes ty \<le> 8 \<longrightarrow>
      int_display ty f x = Ret (pad_integral f (x \<ge> 0) [] (string_of (decimal (nat \<bar>x\<bar>)))) \<and>
      (fmt_width f = None \<longrightarrow> (\<exists>s. int_display ty f x = Ret s \<and> from_str ty (bytes_of s) = Ret (Inr x)))) \<and>
    int_radix r ty f x
      = Ret (pad_integral f True (PREFIX r) (string_of (digits_of (BASE r) (radix_char r) (nat (x mod 2 ^ it_bits ty))))) \<and>
    (fmt_width f = None \<and> \<not> alternate f \<longrightarrow>
      (\<exists>s. int_radix r ty f x = Ret s \<and>
         from_str_radix (ty\<lparr>it_signed := False\<rparr>) (bytes_of s) (word_of_nat (BASE r)) = Ret (Inr (x mod 2 ^ it_bits ty)))) \<and>
    (0 \<le> x \<longrightarrow> x mod 2 ^ it_bits ty = x)"
proof (intro conjI impI)
  note disp = int_display_exact [OF assms(1,3), of f]
  show "int_display ty f x = Ret (pad_integral f (x \<ge> 0) [] (string_of (decimal (nat \<bar>x\<bar>))))" by (rule disp)
  assume "fmt_width f = None"
  then show "\<exists>s. int_display ty f x = Ret s \<and> from_str ty (bytes_of s) = Ret (Inr x)"
    using disp display_parses [OF assms(1,3)] by simp
next
  let ?u = "x mod 2 ^ it_bits ty"
  have u: "0 \<le> ?u" "?u < 2 ^ it_bits ty" by simp_all
  have "(2 :: int) ^ it_bits ty \<le> 2 ^ 128" using assms(2) by (intro power_increasing) (simp_all add: it_bits_def)
  then have "?u < 2 ^ 128" using u(2) by (rule order_less_le_trans [rotated])
  then have "nat ?u < 2 ^ 128" by (simp add: nat_less_iff)
  then show e: "int_radix r ty f x = Ret (pad_integral f True (PREFIX r) (string_of (digits_of (BASE r) (radix_char r) (nat ?u))))"
    unfolding int_radix_def by (rule fmt_int_exact)
  assume p: "fmt_width f = None \<and> \<not> alternate f"
  have "in_ty (ty\<lparr>it_signed := False\<rparr>) ?u" using u by (simp add: in_ty_def it_min_def it_max_def it_bits_def)
  then show "\<exists>s. int_radix r ty f x = Ret s \<and>
         from_str_radix (ty\<lparr>it_signed := False\<rparr>) (bytes_of s) (word_of_nat (BASE r)) = Ret (Inr ?u)"
    using e p radix_parses [of "ty\<lparr>it_signed := False\<rparr>" ?u f r] u(1) assms(1) by simp
next
  assume "0 \<le> x"
  have "(2 :: int) ^ (it_bits ty - 1) \<le> 2 ^ it_bits ty" by (intro power_increasing) simp_all
  then have "it_max ty < 2 ^ it_bits ty" unfolding it_max_def by (split if_split, intro conjI impI; linarith)
  then show "x mod 2 ^ it_bits ty = x" using \<open>0 \<le> x\<close> assms(3) by (intro mod_pos_pos_trivial) (simp_all add: in_ty_def)
qed

theorem int_text_roundtrip_witness:
  "int_display \<lparr>it_bytes = 8, it_signed = True\<rparr> \<lparr>fmt_fill = CHR '' '', fmt_align = None, fmt_width = None, fmt_precision = None, fmt_flags = 0\<rparr> (- 1048576)
     = Ret ''-1048576'' \<and>
   int_radix LowerHex \<lparr>it_bytes = 1, it_signed = True\<rparr> \<lparr>fmt_fill = CHR '' '', fmt_align = None, fmt_width = None, fmt_precision = None, fmt_flags = 0\<rparr> (- 1)
     = Ret ''ff''"
proof
  let ?f = "\<lparr>fmt_fill = CHR '' '', fmt_align = None, fmt_width = None, fmt_precision = None, fmt_flags = 0\<rparr>"
  have "decimal 1048576 = bytes_of ''1048576''" by (simp add: digits_of.simps dec_def bytes_of_def)
  moreover have "in_ty \<lparr>it_bytes = 8, it_signed = True\<rparr> (- 1048576)" by (simp add: in_ty_def it_min_def it_max_def it_bits_def)
  moreover have "string_of (bytes_of ''1048576'') = ''1048576''" by code_simp
  ultimately show "int_display \<lparr>it_bytes = 8, it_signed = True\<rparr> ?f (- 1048576) = Ret ''-1048576''"
    using int_text_roundtrip [of "\<lparr>it_bytes = 8, it_signed = True\<rparr>" "- 1048576" ?f] by (simp add: pad_integral_plain alternate_def)
  have "string_of (digits_of (BASE LowerHex) (radix_char LowerHex) (nat (- 1 mod 2 ^ it_bits \<lparr>it_bytes = 1, it_signed = True\<rparr>))) = ''ff''"
    by code_simp
  moreover have "in_ty \<lparr>it_bytes = 1, it_signed = True\<rparr> (- 1)" by (simp add: in_ty_def it_min_def it_max_def it_bits_def)
  ultimately show "int_radix LowerHex \<lparr>it_bytes = 1, it_signed = True\<rparr> ?f (- 1) = Ret ''ff''"
    using int_text_roundtrip [of "\<lparr>it_bytes = 1, it_signed = True\<rparr>" "- 1" ?f LowerHex]
    by (simp add: pad_integral_plain alternate_def sign_plus_def)
qed

end
