(* ===== verification/Net_Parser.thy ===== *)
theory Net_Parser
  imports Int_Format
begin

text \<open>
  The parser of network addresses, \<open>library/core/src/net/parser.rs\<close>, with the address types of
  \<open>library/core/src/net/ip_addr.rs\<close> and \<open>socket_addr.rs\<close>. A parser maps the remaining bytes to its
  result and the bytes that remain; a failed one may leave them changed unless it runs atomically. Octets and segments are
  lists, of length 4, 16 and 8 for valid addresses.
\<close>

section \<open>Addresses\<close>

record ipv4_addr =
  v4_octets :: "u8 list"

record ipv6_addr =
  v6_octets :: "u8 list"

datatype ip_addr = V4 ipv4_addr | V6 ipv6_addr

record socket_addr_v4 =
  s4_ip :: ipv4_addr
  s4_port :: u16

record socket_addr_v6 =
  s6_ip :: ipv6_addr
  s6_port :: u16
  s6_flowinfo :: u32
  s6_scope_id :: u32

datatype socket_addr = Socket_V4 socket_addr_v4 | Socket_V6 socket_addr_v6

definition from_be_bytes :: "u8 \<Rightarrow> u8 \<Rightarrow> u16" where
  "from_be_bytes a b = push_bit 8 (ucast a) OR ucast b"

definition to_be_bytes :: "u16 \<Rightarrow> u8 list" where
  "to_be_bytes w = [ucast (drop_bit 8 w), ucast w]"

definition v6_from_segments :: "u16 list \<Rightarrow> ipv6_addr" where
  "v6_from_segments segs = \<lparr>v6_octets = concat (map to_be_bytes segs)\<rparr>"

fun be_pairs :: "u8 list \<Rightarrow> u16 list" where
  "be_pairs (a # b # bs) = from_be_bytes a b # be_pairs bs"
| "be_pairs bs = []"

definition segments :: "ipv6_addr \<Rightarrow> u16 list" where
  "segments a = be_pairs (v6_octets a)"

section \<open>The parser\<close>

type_synonym 'a parser = "u8 list \<Rightarrow> ('a option \<times> u8 list) outcome"

text \<open>Sequencing with the operator \<open>?\<close>, which returns early on \<open>None\<close>.\<close>

definition p_try :: "'a parser \<Rightarrow> ('a \<Rightarrow> 'b parser) \<Rightarrow> 'b parser" where
  "p_try p f = (\<lambda>s. and_then (p s) (\<lambda>(r, s). case r of None \<Rightarrow> Ret (None, s) | Some x \<Rightarrow> f x s))"

definition p_some :: "'a \<Rightarrow> 'a parser" where
  "p_some x = (\<lambda>s. Ret (Some x, s))"

definition p_none :: "'a parser" where
  "p_none = (\<lambda>s. Ret (None, s))"

definition read_atomically :: "'a parser \<Rightarrow> 'a parser" where
  "read_atomically p = (\<lambda>s. and_then (p s) (\<lambda>(r, s'). Ret (r, if r = None then s else s')))"

datatype addr_kind = Kind_Ip | Kind_Ipv4 | Kind_Ipv6 | Kind_Socket | Kind_SocketV4 | Kind_SocketV6

definition parse_with :: "'a parser \<Rightarrow> addr_kind \<Rightarrow> u8 list \<Rightarrow> (addr_kind + 'a) outcome" where
  "parse_with p kind b = and_then (p b) (\<lambda>(r, s). Ret (case (if s = [] then r else None) of None \<Rightarrow> Inl kind | Some x \<Rightarrow> Inr x))"

definition peek_char :: "u8 list \<Rightarrow> u32 option" where
  "peek_char s = (case s of [] \<Rightarrow> None | b # bs \<Rightarrow> Some (ucast b))"

definition read_char :: "u32 parser" where
  "read_char = (\<lambda>s. Ret (case s of [] \<Rightarrow> (None, s) | b # bs \<Rightarrow> (Some (ucast b), bs)))"

definition read_given_char :: "u32 \<Rightarrow> unit parser" where
  "read_given_char target = read_atomically (p_try read_char (\<lambda>c. if c = target then p_some () else p_none))"

definition read_separator :: "u32 \<Rightarrow> nat \<Rightarrow> 'a parser \<Rightarrow> 'a parser" where
  "read_separator sep idx inner =
     read_atomically (if idx > 0 then p_try (read_given_char sep) (\<lambda>_. inner) else inner)"

definition read_digit :: "u32 \<Rightarrow> u32 parser" where
  "read_digit radix = read_atomically (p_try read_char (\<lambda>c s. and_then (to_digit c radix) (\<lambda>d. Ret (d, s))))"

lemma read_digit_simps:
  "read_digit radix [] = Ret (None, [])"
  "read_digit radix (b # bs) = and_then (to_digit (ucast b) radix) (\<lambda>d. Ret (case d of None \<Rightarrow> (None, b # bs) | Some x \<Rightarrow> (Some x, bs)))"
  by (auto simp: read_digit_def read_atomically_def p_try_def read_char_def and_then_assoc intro!: arg_cong [where f = "and_then _"] split: option.splits)

lemma read_digit_shorter: "read_digit radix s = Ret (Some d, s') \<Longrightarrow> length s' < length s"
  by (cases s) (auto simp: read_digit_simps outcome_simps split: option.splits)

text \<open>The loop for a bounded number of digits, on a \<open>u32\<close> that panics on overflow; the first component is
  \<open>None\<close> for the early return. The second loop is the one with checked arithmetic on the result type, whose
  maximum is \<open>tmax\<close>.\<close>

function digits_bounded :: "u32 \<Rightarrow> nat \<Rightarrow> nat \<Rightarrow> nat \<Rightarrow> (nat \<times> nat) parser" where
  "digits_bounded radix max_digits result digit_count s =
     and_then (read_digit radix s) (\<lambda>(d, s'). case d of
       None \<Rightarrow> Ret (Some (result, digit_count), s')
     | Some digit \<Rightarrow>
         if 2 ^ 32 \<le> result * unat radix + unat digit then Panic
         else if digit_count + 1 > max_digits then Ret (None, s')
         else digits_bounded radix max_digits (result * unat radix + unat digit) (digit_count + 1) s')"
  by pat_completeness auto
termination by (relation "measure (\<lambda>(radix, mx, r, c, s). length s)") (auto dest: read_digit_shorter)

function digits_checked :: "nat \<Rightarrow> u32 \<Rightarrow> nat \<Rightarrow> nat \<Rightarrow> (nat \<times> nat) parser" where
  "digits_checked tmax radix result digit_count s =
     and_then (read_digit radix s) (\<lambda>(d, s'). case d of
       None \<Rightarrow> Ret (Some (result, digit_count), s')
     | Some digit \<Rightarrow>
         if tmax < result * unat radix then Ret (None, s')
         else if tmax < result * unat radix + unat digit then Ret (None, s')
         else digits_checked tmax radix (result * unat radix + unat digit) (digit_count + 1) s')"
  by pat_completeness auto
termination by (relation "measure (\<lambda>(tmax, radix, r, c, s). length s)") (auto dest: read_digit_shorter)

declare digits_bounded.simps [simp del] digits_checked.simps [simp del]

definition read_number :: "nat \<Rightarrow> u32 \<Rightarrow> nat option \<Rightarrow> bool \<Rightarrow> nat parser" where
  "read_number tmax radix max_digits allow_zero_prefix = read_atomically (\<lambda>s.
     let has_leading_zero = (peek_char s = Some 0x30) in
     p_try
       (case max_digits of
          Some md \<Rightarrow> p_try (if md < 10 then digits_bounded radix md 0 0 else (\<lambda>s. Panic)) (\<lambda>(result, digit_count).
            p_some (if result \<le> tmax then Some result else None, digit_count))
        | None \<Rightarrow> p_try (digits_checked tmax radix 0 0) (\<lambda>(result, digit_count). p_some (Some result, digit_count)))
       (\<lambda>(result, digit_count).
          if digit_count = 0 then p_none
          else if \<not> allow_zero_prefix \<and> has_leading_zero \<and> digit_count > 1 then p_none
          else (case result of None \<Rightarrow> p_none | Some n \<Rightarrow> p_some n)) s)"

text \<open>The loop over the slots of an IPv4 address from slot \<open>i\<close> on; \<open>n\<close> slots are left.\<close>

fun read_octets :: "nat \<Rightarrow> nat \<Rightarrow> u8 list parser" where
  "read_octets 0 i = p_some []"
| "read_octets (Suc n) i =
     p_try (read_separator 0x2E i (read_number 255 10 (Some 3) False)) (\<lambda>slot.
     p_try (read_octets n (i + 1)) (\<lambda>slots. p_some (word_of_nat slot # slots)))"

definition read_ipv4_addr :: "ipv4_addr parser" where
  "read_ipv4_addr = read_atomically (p_try (read_octets 4 0) (\<lambda>groups. p_some \<lparr>v4_octets = groups\<rparr>))"

text \<open>\<open>read_groups\<close>: the loop over the groups from group \<open>i\<close> on, with \<open>n\<close> groups
  left. The result is the number of groups read, whether an IPv4 address ended them, the groups and the remaining
  input.\<close>

fun read_groups_loop :: "nat \<Rightarrow> nat \<Rightarrow> nat \<Rightarrow> u16 list \<Rightarrow> u8 list \<Rightarrow> ((nat \<times> bool) \<times> u16 list \<times> u8 list) outcome" where
  "read_groups_loop limit 0 i groups s = Ret ((limit, False), groups, s)"
| "read_groups_loop limit (Suc n) i groups s =
     and_then (if i < limit - 1 then read_separator 0x3A i read_ipv4_addr s else Ret (None, s)) (\<lambda>(ipv4, s).
       case ipv4 of
         Some a \<Rightarrow> (let os = v4_octets a in
           Ret ((i + 2, True), groups[i := from_be_bytes (os ! 0) (os ! 1), i + 1 := from_be_bytes (os ! 2) (os ! 3)], s))
       | None \<Rightarrow>
           and_then (read_separator 0x3A i (read_number 65535 16 (Some 4) True) s) (\<lambda>(group, s).
             case group of
               Some g \<Rightarrow> read_groups_loop limit n (i + 1) (groups[i := word_of_nat g]) s
             | None \<Rightarrow> Ret ((i, False), groups, s)))"

definition read_groups :: "u16 list \<Rightarrow> u8 list \<Rightarrow> ((nat \<times> bool) \<times> u16 list \<times> u8 list) outcome" where
  "read_groups groups s = read_groups_loop (length groups) (length groups) 0 groups s"

definition read_ipv6_addr :: "ipv6_addr parser" where
  "read_ipv6_addr = read_atomically (\<lambda>s.
     and_then (read_groups (replicate 8 0) s) (\<lambda>((head_size, head_ipv4), head, s).
       if head_size = 8 then Ret (Some (v6_from_segments head), s)
       else if head_ipv4 then Ret (None, s)
       else p_try (read_given_char 0x3A) (\<lambda>_. p_try (read_given_char 0x3A) (\<lambda>_ s.
         let limit = 8 - (head_size + 1) in
         and_then (read_groups (take limit (replicate 7 0)) s) (\<lambda>((tail_size, _), tail, s).
           Ret (Some (v6_from_segments (take (8 - tail_size) head @ take tail_size tail)), s)))) s))"

definition read_ip_addr :: "ip_addr parser" where
  "read_ip_addr = (\<lambda>s. and_then (read_ipv4_addr s) (\<lambda>(r, s). case r of
     Some a \<Rightarrow> Ret (Some (V4 a), s)
   | None \<Rightarrow> and_then (read_ipv6_addr s) (\<lambda>(r, s). Ret (map_option V6 r, s))))"

definition read_port :: "nat parser" where
  "read_port = read_atomically (p_try (read_given_char 0x3A) (\<lambda>_. read_number 65535 10 None True))"

definition read_scope_id :: "nat parser" where
  "read_scope_id = read_atomically (p_try (read_given_char 0x25) (\<lambda>_. read_number 4294967295 10 None True))"

definition read_socket_addr_v4 :: "socket_addr_v4 parser" where
  "read_socket_addr_v4 = read_atomically (
     p_try read_ipv4_addr (\<lambda>ip. p_try read_port (\<lambda>port. p_some \<lparr>s4_ip = ip, s4_port = word_of_nat port\<rparr>)))"

definition read_socket_addr_v6 :: "socket_addr_v6 parser" where
  "read_socket_addr_v6 = read_atomically (
     p_try (read_given_char 0x5B) (\<lambda>_. p_try read_ipv6_addr (\<lambda>ip s.
       and_then (read_scope_id s) (\<lambda>(r, s). let scope_id = (case r of None \<Rightarrow> 0 | Some n \<Rightarrow> n) in
         p_try (read_given_char 0x5D) (\<lambda>_. p_try read_port (\<lambda>port.
           p_some \<lparr>s6_ip = ip, s6_port = word_of_nat port, s6_flowinfo = 0, s6_scope_id = word_of_nat scope_id\<rparr>)) s))))"

definition read_socket_addr :: "socket_addr parser" where
  "read_socket_addr = (\<lambda>s. and_then (read_socket_addr_v4 s) (\<lambda>(r, s). case r of
     Some a \<Rightarrow> Ret (Some (Socket_V4 a), s)
   | None \<Rightarrow> and_then (read_socket_addr_v6 s) (\<lambda>(r, s). Ret (map_option Socket_V6 r, s))))"

definition ip_parse_ascii :: "u8 list \<Rightarrow> (addr_kind + ip_addr) outcome" where
  "ip_parse_ascii b = parse_with read_ip_addr Kind_Ip b"

definition v4_parse_ascii :: "u8 list \<Rightarrow> (addr_kind + ipv4_addr) outcome" where
  "v4_parse_ascii b = (if length b > 15 then Ret (Inl Kind_Ipv4) else parse_with read_ipv4_addr Kind_Ipv4 b)"

definition v6_parse_ascii :: "u8 list \<Rightarrow> (addr_kind + ipv6_addr) outcome" where
  "v6_parse_ascii b = parse_with read_ipv6_addr Kind_Ipv6 b"

definition s4_parse_ascii :: "u8 list \<Rightarrow> (addr_kind + socket_addr_v4) outcome" where
  "s4_parse_ascii b = parse_with read_socket_addr_v4 Kind_SocketV4 b"

definition s6_parse_ascii :: "u8 list \<Rightarrow> (addr_kind + socket_addr_v6) outcome" where
  "s6_parse_ascii b = parse_with read_socket_addr_v6 Kind_SocketV6 b"

definition socket_parse_ascii :: "u8 list \<Rightarrow> (addr_kind + socket_addr) outcome" where
  "socket_parse_ascii b = parse_with read_socket_addr Kind_Socket b"

section \<open>Numbers\<close>

lemma p_try_Ret [simp]: "p s = Ret (Some x, s') \<Longrightarrow> p_try p f s = f x s'" "p s = Ret (None, s') \<Longrightarrow> p_try p f s = Ret (None, s')"
  by (simp_all add: p_try_def)

lemma p_units [simp]: "p_some x s = Ret (Some x, s)" "p_none s = Ret (None, s)"
  by (simp_all add: p_some_def p_none_def)

lemma atomically_Ret [simp]: "p s = Ret (Some x, s') \<Longrightarrow> read_atomically p s = Ret (Some x, s')" "p s = Ret (None, s') \<Longrightarrow> read_atomically p s = Ret (None, s)"
  by (simp_all add: read_atomically_def)

definition is_dig :: "nat \<Rightarrow> u8 \<Rightarrow> bool" where "is_dig radix b \<longleftrightarrow> digit_in radix b \<noteq> None"

definition leading :: "nat \<Rightarrow> u8 list \<Rightarrow> u8 list" where "leading radix s = takeWhile (is_dig radix) s"
definition behind :: "nat \<Rightarrow> u8 list \<Rightarrow> u8 list" where "behind radix s = dropWhile (is_dig radix) s"

definition number_at :: "nat \<Rightarrow> nat \<Rightarrow> u8 list \<Rightarrow> nat" where
  "number_at radix acc s = the (digits_value radix acc (leading radix s))"

lemma digits_value_digits: "\<forall>b\<in>set ds. is_dig radix b \<Longrightarrow> \<exists>v. digits_value radix acc ds = Some v"
  by (induction ds arbitrary: acc) (auto simp: is_dig_def)

lemma number_at_Some: "digits_value radix acc (leading radix s) = Some (number_at radix acc s)"
  using digits_value_digits [of "leading radix s" radix acc] unfolding number_at_def leading_def
  by (metis option.sel set_takeWhileD)

lemma number_steps [simp]:
  "leading radix [] = []" "behind radix [] = []" "number_at radix acc [] = acc"
  "digit_in radix b = None \<Longrightarrow> leading radix (b # s) = []" "digit_in radix b = None \<Longrightarrow> behind radix (b # s) = b # s"
  "digit_in radix b = None \<Longrightarrow> number_at radix acc (b # s) = acc"
  "digit_in radix b = Some d \<Longrightarrow> leading radix (b # s) = b # leading radix s"
  "digit_in radix b = Some d \<Longrightarrow> behind radix (b # s) = behind radix s"
  "digit_in radix b = Some d \<Longrightarrow> number_at radix acc (b # s) = number_at radix (acc * radix + d) s"
  by (simp_all add: leading_def behind_def number_at_def is_dig_def)

lemma number_at_ge: "0 < radix \<Longrightarrow> acc \<le> number_at radix acc s"
  using digits_value_ge [OF number_at_Some] .

lemma read_digit_cases:
  assumes "radix \<le> (36 :: u32)"
  obtains "digit_in (unat radix) b = None" "read_digit radix (b # s) = Ret (None, b # s)"
  | d x where "digit_in (unat radix) b = Some d" "read_digit radix (b # s) = Ret (Some x, s)" "unat x = d" "d < unat radix"
proof (cases rule: to_digit_bytes [OF assms, of b])
  case (2 d x)
  then have "unat x = d" by (metis nat_int unat_eq_nat_uint)
  then show ?thesis using that(2) [of d x] 2 digit_in_less by (simp add: read_digit_simps)
qed (use that(1) in \<open>simp add: read_digit_simps\<close>)

lemma digits_bounded_result:
  assumes "radix \<le> 16" "md \<le> 7"
  shows "cnt \<le> md \<Longrightarrow> acc < 16 ^ cnt \<Longrightarrow>
    \<exists>s'. digits_bounded radix md acc cnt s = Ret (if cnt + length (leading (unat radix) s) \<le> md
      then (Some (number_at (unat radix) acc s, cnt + length (leading (unat radix) s)), behind (unat radix) s) else (None, s'))"
proof (induction s arbitrary: acc cnt)
  case Nil
  then show ?case by (simp add: digits_bounded.simps [of _ _ _ _ "[]"] read_digit_simps)
next
  case (Cons b s)
  have r: "radix \<le> 36" "unat radix \<le> 16" using assms(1) by (simp_all add: word_le_nat_alt)
  show ?case
  proof (cases rule: read_digit_cases [OF r(1), of b s])
    case 1
    then show ?thesis using Cons.prems by (simp add: digits_bounded.simps [of _ _ _ _ "b # s"])
  next
    case (2 d x)
    let ?a = "acc * unat radix + d"
    have "acc * unat radix + d < Suc acc * unat radix" using 2(4) by simp
    also have "\<dots> \<le> 16 ^ cnt * 16" using Cons.prems(2) r(2) by (intro mult_le_mono) simp_all
    finally have a: "?a < 16 ^ Suc cnt" by simp
    also have "\<dots> \<le> 16 ^ 8" using Cons.prems(1) assms(2) by (intro power_increasing) simp_all
    finally have "\<not> 2 ^ 32 \<le> ?a" by simp
    then have step: "digits_bounded radix md acc cnt (b # s) = (if cnt + 1 > md then Ret (None, s) else digits_bounded radix md ?a (cnt + 1) s)"
      using 2 by (subst digits_bounded.simps) simp
    show ?thesis
    proof (cases "cnt + 1 > md")
      case False
      then obtain s' where "digits_bounded radix md ?a (cnt + 1) s = Ret (if cnt + 1 + length (leading (unat radix) s) \<le> md
          then (Some (number_at (unat radix) ?a s, cnt + 1 + length (leading (unat radix) s)), behind (unat radix) s) else (None, s'))"
        using Cons.IH [of "cnt + 1" ?a] a by auto
      then show ?thesis using False step 2(1) by (intro exI [of _ s']) simp
    qed (use step 2(1) in simp)
  qed
qed

lemma digits_checked_result:
  assumes "radix \<le> 36" "0 < unat radix"
  shows "acc \<le> tmax \<Longrightarrow>
    \<exists>s'. digits_checked tmax radix acc cnt s = Ret (if number_at (unat radix) acc s \<le> tmax
      then (Some (number_at (unat radix) acc s, cnt + length (leading (unat radix) s)), behind (unat radix) s) else (None, s'))"
proof (induction s arbitrary: acc cnt)
  case Nil
  then show ?case by (simp add: digits_checked.simps [of _ _ _ _ "[]"] read_digit_simps)
next
  case (Cons b s)
  show ?case
  proof (cases rule: read_digit_cases [OF assms(1), of b s])
    case 1
    then show ?thesis using Cons.prems by (simp add: digits_checked.simps [of _ _ _ _ "b # s"])
  next
    case (2 d x)
    let ?a = "acc * unat radix + d"
    have step: "digits_checked tmax radix acc cnt (b # s) = (if tmax < ?a then Ret (None, s) else digits_checked tmax radix ?a (cnt + 1) s)"
      using 2 by (subst digits_checked.simps) simp
    show ?thesis
    proof (cases "tmax < ?a")
      case True
      then have "\<not> number_at (unat radix) ?a s \<le> tmax" using number_at_ge [OF assms(2), of ?a s] by simp
      then show ?thesis using True step 2(1) by simp
    next
      case False
      then obtain s' where "digits_checked tmax radix ?a (cnt + 1) s = Ret (if number_at (unat radix) ?a s \<le> tmax
          then (Some (number_at (unat radix) ?a s, cnt + 1 + length (leading (unat radix) s)), behind (unat radix) s) else (None, s'))"
        using Cons.IH [of ?a "cnt + 1"] by auto
      then show ?thesis using False step 2(1) by (intro exI [of _ s']) simp
    qed
  qed
qed

text \<open>What \<open>read_number\<close> does: it takes the longest run of digits, if there is one that is allowed.\<close>

definition number_ok :: "nat \<Rightarrow> nat \<Rightarrow> nat option \<Rightarrow> bool \<Rightarrow> u8 list \<Rightarrow> bool" where
  "number_ok tmax radix lim az s \<longleftrightarrow> leading radix s \<noteq> [] \<and> (case lim of None \<Rightarrow> True | Some md \<Rightarrow> length (leading radix s) \<le> md) \<and>
     number_at radix 0 s \<le> tmax \<and> (az \<or> hd s \<noteq> 0x30 \<or> length (leading radix s) \<le> 1)"

lemma peek_zero: "leading radix s \<noteq> [] \<Longrightarrow> peek_char s = Some 0x30 \<longleftrightarrow> hd s = 0x30"
proof (cases s)
  case (Cons b bs)
  have "(ucast b :: u32) = 0x30 \<longleftrightarrow> b = 0x30"
    using unat_less_pow [of b] by (simp add: word_unat_eq_iff unat_ucast_mod)
  then show ?thesis using Cons by (simp add: peek_char_def)
qed simp

lemma read_number_exact:
  assumes "2 \<le> radix" "radix \<le> 16" "case lim of None \<Rightarrow> True | Some md \<Rightarrow> md \<le> 7"
  shows "read_number tmax radix lim az s =
    Ret (if number_ok tmax (unat radix) lim az s then (Some (number_at (unat radix) 0 s), behind (unat radix) s) else (None, s))"
proof -
  have r: "radix \<le> 36" "0 < unat radix" using assms(1,2) by (simp_all add: word_le_nat_alt)
  let ?l = "length (leading (unat radix) s)" and ?n = "number_at (unat radix) 0 s"
  have z: "?l = 0 \<longleftrightarrow> leading (unat radix) s = []" by simp
  show ?thesis
  proof (cases lim)
    case None
    obtain s' where "digits_checked tmax radix 0 0 s = Ret (if ?n \<le> tmax then (Some (?n, ?l), behind (unat radix) s) else (None, s'))"
      using digits_checked_result [OF r, of 0 tmax 0 s] unfolding add_0 by blast
    then show ?thesis using None peek_zero [of "unat radix" s]
      by (auto simp: read_number_def number_ok_def Let_def p_try_def read_atomically_def p_some_def p_none_def)
  next
    case (Some md)
    obtain s' where "digits_bounded radix md 0 0 s = Ret (if ?l \<le> md then (Some (?n, ?l), behind (unat radix) s) else (None, s'))"
      using digits_bounded_result [OF assms(2), of md 0 0 s] assms(3) Some unfolding add_0 by auto
    then show ?thesis using Some assms(3) peek_zero [of "unat radix" s]
      by (auto simp: read_number_def number_ok_def Let_def p_try_def read_atomically_def p_some_def p_none_def)
  qed
qed

section \<open>Printed numbers are read back\<close>

definition stops :: "nat \<Rightarrow> u8 list \<Rightarrow> bool" where
  "stops radix rest \<longleftrightarrow> rest = [] \<or> \<not> is_dig radix (hd rest)"

lemma stops_Nil [simp]: "stops radix []"
  by (simp add: stops_def)

lemma leading_append:
  assumes "\<forall>b\<in>set ds. is_dig radix b" "stops radix rest"
  shows "leading radix (ds @ rest) = ds" "behind radix (ds @ rest) = rest"
proof -
  have "leading radix rest = []" "behind radix rest = rest"
    using assms(2) by (cases rest; simp add: stops_def leading_def behind_def)+
  then show "leading radix (ds @ rest) = ds" "behind radix (ds @ rest) = rest"
    using assms(1) by (simp_all add: leading_def behind_def takeWhile_append2 dropWhile_append2)
qed

lemma leading_behind: "leading radix s @ behind radix s = s"
  by (simp add: leading_def behind_def)

lemma digits_of_length:
  assumes "2 \<le> base"
  shows "n < base ^ k \<Longrightarrow> 0 < k \<Longrightarrow> length (digits_of base dg n) \<le> k"
proof (induction k arbitrary: n)
  case (Suc k)
  show ?case
  proof (cases "n < base")
    case False
    then have "length (digits_of base dg n) = Suc (length (digits_of base dg (n div base)))"
      using assms by (subst digits_of.simps) simp
    moreover have n: "n div base < base ^ k" using Suc.prems assms by (simp add: div_less_iff_less_mult mult.commute)
    moreover have "0 < k" using n False assms by (cases k) (auto simp: div_eq_0_iff)
    ultimately show ?thesis using Suc.IH by simp
  qed (simp add: digits_of.simps [of base dg n])
qed simp

lemma digits_of_hd:
  assumes "2 \<le> base"
  shows "base \<le> n \<Longrightarrow> \<exists>d. 0 < d \<and> d < base \<and> hd (digits_of base dg n) = dg d"
proof (induction n rule: less_induct)
  case (less n)
  then have n: "digits_of base dg n = digits_of base dg (n div base) @ [dg (n mod base)]"
    using assms by (subst digits_of.simps) simp
  show ?case
  proof (cases "base \<le> n div base")
    case True
    moreover have "n div base < n" using less.prems assms by simp
    ultimately show ?thesis using less.IH n by (simp add: digits_of_not_Nil)
  next
    case False
    then have "digits_of base dg (n div base) = [dg (n div base)]" by (subst digits_of.simps) simp
    moreover have "0 < n div base" using less.prems assms by (simp add: div_greater_zero_iff)
    ultimately show ?thesis using False n by auto
  qed
qed

lemma printed_digits:
  assumes "2 \<le> base" "\<And>d. d < base \<Longrightarrow> digit_in base (dg d) = Some d" "stops base rest"
  shows "leading base (digits_of base dg n @ rest) = digits_of base dg n" "behind base (digits_of base dg n @ rest) = rest"
    "number_at base 0 (digits_of base dg n @ rest) = n"
proof -
  have "\<forall>b\<in>set (digits_of base dg n). is_dig base b"
    using digits_of_all [of base "is_dig base" dg _ n] assms(1,2) by (auto simp: is_dig_def)
  from leading_append [OF this assms(3)]
  show l: "leading base (digits_of base dg n @ rest) = digits_of base dg n" "behind base (digits_of base dg n @ rest) = rest" .
  show "number_at base 0 (digits_of base dg n @ rest) = n"
    unfolding number_at_def l using digits_value_of [OF assms(1,2)] by simp
qed

lemmas decimal_printed = printed_digits [of 10 dec, OF _ digit_in_dec, simplified]

text \<open>Digits without a leading zero are the printed form of their value.\<close>

lemma digit_of_dec: "digit_in 10 b = Some d \<Longrightarrow> b = dec d \<and> d < 10"
proof -
  assume "digit_in 10 b = Some d"
  then have "unat b = 48 + d" "d < 10" by (auto simp: digit_in_def digit_of_def Let_def split: if_splits option.splits)
  then show ?thesis using dec_range(1) [of d] by (simp add: word_unat_eq_iff)
qed

lemma decimal_unique:
  assumes "digits_value 10 0 ds = Some v" "ds \<noteq> []" "hd ds \<noteq> 0x30 \<or> length ds \<le> 1"
  shows "ds = decimal v"
  using assms
proof (induction ds arbitrary: v rule: rev_induct)
  case (snoc b ds)
  obtain u d where u: "digits_value 10 0 ds = Some u" "digit_in 10 b = Some d" "v = u * 10 + d"
    using snoc.prems(1) by (auto simp: digits_value_append split: option.splits)
  note b = digit_of_dec [OF u(2)]
  show ?case
  proof (cases "ds = []")
    case True
    then show ?thesis using u b by (simp add: decimal_small(1))
  next
    case False
    then have "hd ds \<noteq> 0x30" using snoc.prems(3) by auto
    then have ds: "ds = decimal u" using snoc.IH [OF u(1)] False by simp
    have "u \<noteq> 0"
    proof
      assume "u = 0"
      then have "ds = [dec 0]" using ds by (simp add: decimal_small(1))
      then show False using \<open>hd ds \<noteq> 0x30\<close> by (simp add: dec_def)
    qed
    then have "decimal v = decimal (v div 10) @ [dec (v mod 10)]" using u(3) by (subst digits_of.simps) simp
    then show ?thesis using ds b u(3) by simp
  qed
qed simp

section \<open>Octets and IPv4 addresses\<close>

lemma given_char:
  assumes "t < 256"
  shows "read_given_char t s = Ret (if s \<noteq> [] \<and> hd s = ucast t then (Some (), tl s) else (None, s))"
proof (cases s)
  case (Cons b bs)
  have "(ucast b :: u32) = t \<longleftrightarrow> b = ucast t"
    using assms unat_less_pow [of b] by (auto simp: word_unat_eq_iff unat_ucast_mod word_less_nat_alt)
  then show ?thesis using Cons by (simp add: read_given_char_def read_atomically_def p_try_def read_char_def)
qed (simp add: read_given_char_def read_atomically_def p_try_def read_char_def)

lemma separator_first: "read_separator sep 0 p = read_atomically p"
  by (simp add: read_separator_def)

lemma separator_next:
  assumes "sep < 256" "0 < i"
  shows "read_separator sep i p s = (if s \<noteq> [] \<and> hd s = ucast sep
    then and_then (p (tl s)) (\<lambda>(r, s'). Ret (r, if r = None then s else s')) else Ret (None, s))"
  using assms by (simp add: read_separator_def read_atomically_def p_try_def given_char)

fun octets_text :: "bool \<Rightarrow> u8 list \<Rightarrow> u8 list" where
  "octets_text dot [] = []"
| "octets_text dot (b # bs) = (if dot then [0x2E] else []) @ decimal (unat b) @ octets_text True bs"

lemma octet_complete:
  assumes "stops 10 rest"
  shows "read_number 255 10 (Some 3) False (decimal (unat (b :: u8)) @ rest) = Ret (Some (unat b), rest)"
proof -
  note p = decimal_printed [OF assms, of "unat b"]
  have b: "unat b < 256" using unat_less_pow [of b] by simp
  have "length (decimal (unat b)) \<le> 3" using b by (intro digits_of_length) simp_all
  moreover have "hd (decimal (unat b) @ rest) \<noteq> 0x30 \<or> length (decimal (unat b)) \<le> 1"
  proof (cases "unat b < 10")
    case False
    then obtain d where d: "0 < d" "d < 10" "hd (decimal (unat b)) = dec d" using digits_of_hd [of 10 "unat b" dec] by auto
    have "hd (decimal (unat b) @ rest) = dec d" using d(3) by (simp add: digits_of_not_Nil)
    moreover have "dec d \<noteq> 0x30"
    proof
      assume "dec d = 0x30"
      then have "unat (dec d) = 48" by simp
      then show False using d(1,2) dec_range(1) [of d] by simp
    qed
    ultimately show ?thesis by simp
  qed (simp add: decimal_small(1))
  ultimately have "number_ok 255 10 (Some 3) False (decimal (unat b) @ rest)"
    using b p by (simp add: number_ok_def digits_of_not_Nil)
  then show ?thesis using read_number_exact [of 10 "Some 3" 255 False] p by simp
qed

lemma octet_sound:
  assumes "read_number 255 10 (Some 3) False s = Ret (Some n, s')"
  shows "n < 256 \<and> s = decimal n @ s'"
proof -
  have ok: "number_ok 255 10 (Some 3) False s" and n: "n = number_at 10 0 s" "s' = behind 10 s"
    using assms read_number_exact [of 10 "Some 3" 255 False s] by (auto split: if_splits)
  have "hd (leading 10 s) = hd s" using ok leading_behind [of 10 s] by (metis hd_append2 number_ok_def)
  then have "leading 10 s = decimal n"
    using ok n number_at_Some [of 10 0 s] by (intro decimal_unique) (auto simp: number_ok_def)
  then show ?thesis using ok n leading_behind [of 10 s] by (auto simp: number_ok_def)
qed

lemma not_digits: "\<not> is_dig 10 0x2E" "\<not> is_dig 10 0x3A" "\<not> is_dig 16 0x3A" "\<not> is_dig 10 0x5D" "\<not> is_dig 16 0x5D" "\<not> is_dig 16 0x25" "\<not> is_dig 10 0x5B" "\<not> is_dig 16 0x2E"
  by (simp_all add: is_dig_def digit_in_def digit_of_def)

lemma stops_octets: "stops 10 rest \<Longrightarrow> stops 10 (octets_text True os @ rest)"
  by (cases os) (simp_all add: stops_def not_digits)

lemma slot_complete:
  assumes "stops 10 rest"
  shows "read_separator 0x2E i (read_number 255 10 (Some 3) False) ((if 0 < i then [0x2E] else []) @ decimal (unat (b :: u8)) @ rest) = Ret (Some (unat b), rest)"
  using octet_complete [OF assms, of b]
  by (cases "0 < i") (simp_all add: separator_next separator_first [unfolded read_atomically_def])

lemma slot_sound:
  assumes "read_separator 0x2E i (read_number 255 10 (Some 3) False) s = Ret (Some n, s')"
  shows "n < 256 \<and> s = (if 0 < i then [0x2E] else []) @ decimal n @ s'"
proof (cases "0 < i")
  case True
  then have s: "s \<noteq> []" "hd s = 0x2E" and r: "and_then (read_number 255 10 (Some 3) False (tl s)) (\<lambda>(r, s'). Ret (r, if r = None then s else s')) = Ret (Some n, s')"
    using assms by (auto simp: separator_next split: if_splits)
  then have "read_number 255 10 (Some 3) False (tl s) = Ret (Some n, s')" by (auto simp: outcome_simps split: if_splits)
  from octet_sound [OF this] show ?thesis using True s by (cases s) auto
next
  case False
  then have "read_number 255 10 (Some 3) False s = Ret (Some n, s')"
    using assms by (auto simp: separator_first read_atomically_def outcome_simps split: if_splits)
  from octet_sound [OF this] show ?thesis using False by simp
qed

lemma slot_total: "\<exists>r s'. read_separator 0x2E i (read_number 255 10 (Some 3) False) s = Ret (r, s')"
  using read_number_exact [of 10 "Some 3" 255 False]
  by (cases "0 < i") (auto simp: separator_next separator_first read_atomically_def)

lemma read_octets_complete: "stops 10 rest \<Longrightarrow> read_octets (length os) i (octets_text (0 < i) os @ rest) = Ret (Some os, rest)"
proof (induction os arbitrary: i)
  case (Cons b os)
  have "read_separator 0x2E i (read_number 255 10 (Some 3) False) (octets_text (0 < i) (b # os) @ rest) = Ret (Some (unat b), octets_text True os @ rest)"
    using slot_complete [OF stops_octets [OF Cons.prems, of os], of i b] by simp
  then show ?case using Cons.IH [of "i + 1"] Cons.prems by simp
qed simp

lemma read_octets_total: "\<exists>r s'. read_octets n i s = Ret (r, s') \<and> (\<forall>os. r = Some os \<longrightarrow> length os = n \<and> s = octets_text (0 < i) os @ s')"
proof (induction n arbitrary: i s)
  case (Suc n)
  obtain r s1 where r: "read_separator 0x2E i (read_number 255 10 (Some 3) False) s = Ret (r, s1)" using slot_total by blast
  show ?case
  proof (cases r)
    case (Some k)
    obtain r2 s2 where r2: "read_octets n (i + 1) s1 = Ret (r2, s2)" "\<forall>os. r2 = Some os \<longrightarrow> length os = n \<and> s1 = octets_text (0 < i + 1) os @ s2"
      using Suc.IH by blast
    have k: "k < 256" "s = (if 0 < i then [0x2E] else []) @ decimal k @ s1" using slot_sound r Some by blast+
    have "unat (word_of_nat k :: u8) = k" using k(1) by (simp add: unsigned_of_nat take_bit_nat_eq_self)
    then show ?thesis using r r2 Some k by (cases r2) auto
  qed (use r in auto)
qed simp

definition v4_text :: "ipv4_addr \<Rightarrow> u8 list" where
  "v4_text a = octets_text False (v4_octets a)"

definition v4_ok :: "ipv4_addr \<Rightarrow> bool" where
  "v4_ok a \<longleftrightarrow> length (v4_octets a) = 4"

lemma read_ipv4_complete: "v4_ok a \<Longrightarrow> stops 10 rest \<Longrightarrow> read_ipv4_addr (v4_text a @ rest) = Ret (Some a, rest)"
  using read_octets_complete [of rest "v4_octets a" 0]
  by (simp add: v4_ok_def v4_text_def read_ipv4_addr_def)

lemma read_ipv4_total: "\<exists>r s'. read_ipv4_addr s = Ret (r, s') \<and> (r = None \<longrightarrow> s' = s) \<and> (\<forall>a. r = Some a \<longrightarrow> v4_ok a \<and> s = v4_text a @ s')"
proof -
  obtain r s' where r: "read_octets 4 0 s = Ret (r, s')" "\<forall>os. r = Some os \<longrightarrow> length os = 4 \<and> s = octets_text False os @ s'"
    using read_octets_total [of 4 0 s] by auto
  then show ?thesis by (cases r) (auto simp: read_ipv4_addr_def v4_ok_def v4_text_def)
qed

lemma v4_text_split:
  assumes "v4_ok a"
  obtains b bs where "v4_text a = decimal (unat (b :: u8)) @ 0x2E # bs"
proof -
  obtain b c d e where "v4_octets a = [b, c, d, e]" using assms by (auto simp: v4_ok_def numeral_eq_Suc length_Suc_conv)
  then show ?thesis using that by (simp add: v4_text_def)
qed

text \<open>Input in which no dot follows the leading digits is not an IPv4 address.\<close>

lemma read_ipv4_fails:
  assumes "behind 10 s = [] \<or> hd (behind 10 s) \<noteq> 0x2E"
  shows "read_ipv4_addr s = Ret (None, s)"
proof -
  obtain r s' where r: "read_ipv4_addr s = Ret (r, s')" "r = None \<longrightarrow> s' = s" "\<forall>a. r = Some a \<longrightarrow> v4_ok a \<and> s = v4_text a @ s'"
    using read_ipv4_total by blast
  show ?thesis
  proof (cases r)
    case (Some a)
    then have "v4_ok a" "s = v4_text a @ s'" using r(3) by auto
    then obtain b bs where s: "s = decimal (unat (b :: u8)) @ 0x2E # bs @ s'" using v4_text_split [of a] by (metis append.assoc append_Cons)
    have "behind 10 s = 0x2E # bs @ s'" unfolding s by (rule decimal_printed(2)) (simp add: stops_def not_digits)
    then show ?thesis using assms by simp
  qed (use r in simp)
qed

section \<open>Properties\<close>

lemma octets_text_length: "length (octets_text dot os) \<le> 4 * length os - (if dot then 0 else 1)"
proof (induction dot os rule: octets_text.induct)
  case (2 dot b bs)
  have "length (decimal (unat b)) \<le> 3" using unat_less_pow [of b] by (intro digits_of_length) simp_all
  then show ?case using 2 by (cases bs) auto
qed simp

text \<open>C27: \<open>Ipv4Addr::parse_ascii\<close> accepts exactly the canonical texts: four decimal numbers up to 255
  without leading zeros, separated by dots and nothing else; every other input, of any length, is rejected with the IPv4
  error, without a panic.\<close>

theorem v4_parse_exact:
  "\<exists>r. v4_parse_ascii b = Ret r \<and> (\<forall>a. r = Inr a \<longleftrightarrow> v4_ok a \<and> b = v4_text a) \<and> (\<forall>k. r = Inl k \<longrightarrow> k = Kind_Ipv4)"
proof -
  obtain r s' where r: "read_ipv4_addr b = Ret (r, s')" "\<forall>a. r = Some a \<longrightarrow> v4_ok a \<and> b = v4_text a @ s'"
    using read_ipv4_total by blast
  have len: "length (v4_text a) \<le> 15" if "v4_ok a" for a
    using octets_text_length [of False "v4_octets a"] that by (simp add: v4_text_def v4_ok_def)
  have again: "read_ipv4_addr b = Ret (Some a, [])" if "v4_ok a" "b = v4_text a" for a
    using read_ipv4_complete [OF that(1), of "[]"] that(2) by simp
  have hit: "r = Some a \<and> s' = [] \<and> length b \<le> 15" if "v4_ok a \<and> b = v4_text a" for a
    using again [of a] len [of a] that r(1) by simp
  show ?thesis
  proof (cases "length b > 15 \<or> r = None \<or> s' \<noteq> []")
    case True
    then have "v4_parse_ascii b = Ret (Inl Kind_Ipv4)" using r(1) by (auto simp: v4_parse_ascii_def parse_with_def split: option.splits)
    moreover have "\<not> (v4_ok a \<and> b = v4_text a)" for a using True hit [of a] by auto
    ultimately show ?thesis by (intro exI [of _ "Inl Kind_Ipv4"]) simp
  next
    case False
    then obtain a where a: "r = Some a" "s' = []" "length b \<le> 15" by auto
    then have "v4_parse_ascii b = Ret (Inr a)" using r(1) by (simp add: v4_parse_ascii_def parse_with_def)
    moreover have "Inr a = Inr a' \<longleftrightarrow> v4_ok a' \<and> b = v4_text a'" for a' using hit [of a'] r(2) a by auto
    ultimately show ?thesis by blast
  qed
qed

theorem v4_parse_exact_witness:
  "v4_parse_ascii (bytes_of ''127.0.0.1'') = Ret (Inr \<lparr>v4_octets = [127, 0, 0, 1]\<rparr>)"
proof -
  have "bytes_of ''127.0.0.1'' = v4_text \<lparr>v4_octets = [127, 0, 0, 1]\<rparr>"
    by (simp add: v4_text_def bytes_of_def digits_of.simps dec_def)
  moreover have "v4_ok \<lparr>v4_octets = [127, 0, 0, 1]\<rparr>" by (simp add: v4_ok_def)
  ultimately show ?thesis using v4_parse_exact [of "bytes_of ''127.0.0.1''"] by auto
qed

end
