(* ===== verification/Net_Addr.thy ===== *)
theory Net_Addr
  imports Net_Parser
begin

text \<open>
  Printing network addresses (\<open>Display\<close> in \<open>library/core/src/net/ip_addr.rs\<close> and
  \<open>socket_addr.rs\<close>, with the buffer of \<open>display_buffer.rs\<close>) and reading them back with the parser. A
  writer takes the place it writes to, which may have a limited capacity, and returns it extended, or fails.
\<close>

section \<open>Writers\<close>

record sink =
  sink_cap :: "nat option"
  sink_out :: string

type_synonym writer = "sink \<Rightarrow> sink option outcome"

definition write_str :: "string \<Rightarrow> sink \<Rightarrow> sink option" where
  "write_str s k = (case sink_cap k of
       Some c \<Rightarrow> if length (sink_out k) + length s \<le> c then Some (k\<lparr>sink_out := sink_out k @ s\<rparr>) else None
     | None \<Rightarrow> Some (k\<lparr>sink_out := sink_out k @ s\<rparr>))"

definition w_str :: "string \<Rightarrow> writer" where
  "w_str s = (\<lambda>k. Ret (write_str s k))"

definition w_then :: "writer \<Rightarrow> writer \<Rightarrow> writer" where
  "w_then a b = (\<lambda>k. and_then (a k) (\<lambda>r. case r of None \<Rightarrow> Ret None | Some k \<Rightarrow> b k))"

definition w_text :: "string outcome \<Rightarrow> writer" where
  "w_text m = (\<lambda>k. and_then m (\<lambda>s. Ret (write_str s k)))"

text \<open>An argument of a format string without options, and the types of the numbers in an address.\<close>

definition plain_fmt :: formatter where
  "plain_fmt = \<lparr>fmt_fill = CHR '' '', fmt_align = None, fmt_width = None, fmt_precision = None, fmt_flags = 0\<rparr>"

definition u8_ty :: int_ty where "u8_ty = \<lparr>it_bytes = 1, it_signed = False\<rparr>"
definition u16_ty :: int_ty where "u16_ty = \<lparr>it_bytes = 2, it_signed = False\<rparr>"
definition u32_ty :: int_ty where "u32_ty = \<lparr>it_bytes = 4, it_signed = False\<rparr>"

text \<open>The slow path of every \<open>Display\<close>: write to a buffer of fixed size, unwrap, and pad what
  \<open>as_str\<close> returns.\<close>

definition padded :: "formatter \<Rightarrow> nat \<Rightarrow> writer \<Rightarrow> writer" where
  "padded f cap w = (\<lambda>k.
     and_then (w \<lparr>sink_cap = Some cap, sink_out = []\<rparr>) (\<lambda>r. case r of
       None \<Rightarrow> Panic
     | Some buf \<Rightarrow> and_then (from_utf8_unchecked (bytes_of (sink_out buf))) (\<lambda>s. Ret (write_str (pad f (string_of s)) k))))"

section \<open>Display\<close>

definition w4 :: "ipv4_addr \<Rightarrow> writer" where
  "w4 a = (let o8 = (\<lambda>i. w_text (int_display u8_ty plain_fmt (uint (v4_octets a ! i)))) in
     w_then (o8 0) (w_then (w_str ''.'') (w_then (o8 1) (w_then (w_str ''.'') (w_then (o8 2) (w_then (w_str ''.'') (o8 3)))))))"

definition ipv4_fmt :: "formatter \<Rightarrow> ipv4_addr \<Rightarrow> writer" where
  "ipv4_fmt f a = (if fmt_precision f = None \<and> fmt_width f = None then w4 a else padded f 15 (w4 a))"

definition to_ipv4_mapped :: "ipv6_addr \<Rightarrow> ipv4_addr option" where
  "to_ipv4_mapped a =
     (if length (v6_octets a) = 16 \<and> take 12 (v6_octets a) = [0, 0, 0, 0, 0, 0, 0, 0, 0, 0, 0xFF, 0xFF]
      then Some \<lparr>v4_octets = drop 12 (v6_octets a)\<rparr> else None)"

record span =
  sp_start :: nat
  sp_len :: nat

definition span_default :: span where "span_default = \<lparr>sp_start = 0, sp_len = 0\<rparr>"

fun zero_spans :: "nat \<Rightarrow> span \<Rightarrow> span \<Rightarrow> u16 list \<Rightarrow> span" where
  "zero_spans i longest current [] = longest"
| "zero_spans i longest current (segment # segs) =
     (if segment = 0 then
        (let current = (if sp_len current = 0 then current\<lparr>sp_start := i\<rparr> else current);
             current = current\<lparr>sp_len := sp_len current + 1\<rparr>;
             longest = (if sp_len current > sp_len longest then current else longest)
         in zero_spans (i + 1) longest current segs)
      else zero_spans (i + 1) longest span_default segs)"

definition fmt_hex :: "u16 \<Rightarrow> writer" where
  "fmt_hex seg = w_text (int_radix LowerHex u16_ty plain_fmt (uint seg))"

fun fmt_tail :: "u16 list \<Rightarrow> writer" where
  "fmt_tail [] = w_str []"
| "fmt_tail (seg # rest) = w_then (w_str '':'') (w_then (fmt_hex seg) (fmt_tail rest))"

definition fmt_subslice :: "u16 list \<Rightarrow> writer" where
  "fmt_subslice chunk = (case chunk of [] \<Rightarrow> w_str [] | first # rest \<Rightarrow> w_then (fmt_hex first) (fmt_tail rest))"

definition w6 :: "ipv6_addr \<Rightarrow> writer" where
  "w6 a = (let segs = segments a in
     case to_ipv4_mapped a of
       Some ipv4 \<Rightarrow> w_then (w_str ''::ffff:'') (ipv4_fmt plain_fmt ipv4)
     | None \<Rightarrow>
         (let zeroes = zero_spans 0 span_default span_default segs in
          if sp_len zeroes > 1 then
            w_then (fmt_subslice (take (sp_start zeroes) segs)) (w_then (w_str ''::'') (fmt_subslice (drop (sp_start zeroes + sp_len zeroes) segs)))
          else fmt_subslice segs))"

definition ipv6_fmt :: "formatter \<Rightarrow> ipv6_addr \<Rightarrow> writer" where
  "ipv6_fmt f a = (if fmt_precision f = None \<and> fmt_width f = None then w6 a else padded f 39 (w6 a))"

definition ip_fmt :: "formatter \<Rightarrow> ip_addr \<Rightarrow> writer" where
  "ip_fmt f a = (case a of V4 ip \<Rightarrow> ipv4_fmt f ip | V6 ip \<Rightarrow> ipv6_fmt f ip)"

definition ws4 :: "socket_addr_v4 \<Rightarrow> writer" where
  "ws4 a = w_then (ipv4_fmt plain_fmt (s4_ip a)) (w_then (w_str '':'') (w_text (int_display u16_ty plain_fmt (uint (s4_port a)))))"

definition socket_v4_fmt :: "formatter \<Rightarrow> socket_addr_v4 \<Rightarrow> writer" where
  "socket_v4_fmt f a = (if fmt_precision f = None \<and> fmt_width f = None then ws4 a else padded f 21 (ws4 a))"

definition ws6 :: "socket_addr_v6 \<Rightarrow> writer" where
  "ws6 a = (let port = w_text (int_display u16_ty plain_fmt (uint (s6_port a))); ip = ipv6_fmt plain_fmt (s6_ip a) in
     if s6_scope_id a = 0 then w_then (w_str ''['') (w_then ip (w_then (w_str '']:'') port))
     else w_then (w_str ''['') (w_then ip (w_then (w_str ''%'') (w_then (w_text (int_display u32_ty plain_fmt (uint (s6_scope_id a))))
       (w_then (w_str '']:'') port)))))"

definition socket_v6_fmt :: "formatter \<Rightarrow> socket_addr_v6 \<Rightarrow> writer" where
  "socket_v6_fmt f a = (if fmt_precision f = None \<and> fmt_width f = None then ws6 a else padded f 58 (ws6 a))"

definition socket_fmt :: "formatter \<Rightarrow> socket_addr \<Rightarrow> writer" where
  "socket_fmt f a = (case a of Socket_V4 s \<Rightarrow> socket_v4_fmt f s | Socket_V6 s \<Rightarrow> socket_v6_fmt f s)"

section \<open>What a writer writes\<close>

definition writes :: "writer \<Rightarrow> u8 list \<Rightarrow> bool" where
  "writes w bs \<longleftrightarrow> (\<forall>b\<in>set bs. b < 0x80) \<and> (\<forall>k. w k = Ret (write_str (string_of bs) k))"

named_theorems writes_intros

lemma string_of_append: "string_of (a @ b) = string_of a @ string_of b"
  by (simp add: string_of_def)

lemma write_str_append: "(case write_str s k of None \<Rightarrow> None | Some k \<Rightarrow> write_str t k) = write_str (s @ t) k"
  by (auto simp: write_str_def split: option.splits)

lemma writes_then [writes_intros]: "writes a s \<Longrightarrow> writes b t \<Longrightarrow> writes (w_then a b) (s @ t)"
  unfolding writes_def w_then_def
  by (auto simp: string_of_append write_str_append [symmetric] split: option.splits)

lemma writes_chars [writes_intros]:
  "writes (w_str ''.'') [0x2E]" "writes (w_str '':'') [0x3A]" "writes (w_str []) []" "writes (w_str ''::'') [0x3A, 0x3A]"
  "writes (w_str ''['') [0x5B]" "writes (w_str '']:'') [0x5D, 0x3A]" "writes (w_str ''%'') [0x25]"
  "writes (w_str ''::ffff:'') [0x3A, 0x3A, 0x66, 0x66, 0x66, 0x66, 0x3A]"
  by (simp_all add: writes_def w_str_def string_of_def char_of_def bit_Suc_0_iff)

lemma decimal_ascii: "\<forall>b\<in>set (decimal n). b < 0x80"
  using digits_of_all [of 10 "\<lambda>b. b < 0x80" dec] dec_range(2) by auto

abbreviation hex :: "nat \<Rightarrow> u8 list" where "hex \<equiv> digits_of 16 (radix_char LowerHex)"

lemma hex_ascii: "\<forall>b\<in>set (hex n). b < 0x80"
proof -
  have "radix_char LowerHex d < 0x80" if "d < 16" for d
    using that radix_char_range [of d LowerHex] by (simp add: BASE_def word_less_nat_alt)
  then show ?thesis using digits_of_all [of 16 "\<lambda>b. b < 0x80" "radix_char LowerHex"] by auto
qed

lemma writes_decimal: "0 < it_bytes ty \<Longrightarrow> \<not> it_signed ty \<Longrightarrow> in_ty ty x \<Longrightarrow> writes (w_text (int_display ty plain_fmt x)) (decimal (nat x))"
  by (auto simp: writes_def w_text_def decimal_ascii int_display_exact pad_integral_plain plain_fmt_def sign_plus_def alternate_def
      in_ty_def it_min_def)

lemma in_ty_words: "in_ty u8_ty (uint (b :: u8))" "in_ty u16_ty (uint (p :: u16))" "in_ty u32_ty (uint (q :: u32))"
  using uint_bounded [of b] uint_bounded [of p] uint_bounded [of q]
  by (simp_all add: in_ty_def it_min_def it_max_def it_bits_def u8_ty_def u16_ty_def u32_ty_def)

lemma writes_word [writes_intros]:
  "writes (w_text (int_display u8_ty plain_fmt (uint (b :: u8)))) (decimal (unat b))"
  "writes (w_text (int_display u16_ty plain_fmt (uint (p :: u16)))) (decimal (unat p))"
  "writes (w_text (int_display u32_ty plain_fmt (uint (q :: u32)))) (decimal (unat q))"
  using writes_decimal [OF _ _ in_ty_words(1), of b] writes_decimal [OF _ _ in_ty_words(2), of p] writes_decimal [OF _ _ in_ty_words(3), of q]
  by (simp_all add: u8_ty_def u16_ty_def u32_ty_def)

lemma writes_hex [writes_intros]: "writes (fmt_hex w) (hex (unat w))"
proof -
  have "uint w mod 2 ^ it_bits u16_ty = uint w" using uint_bounded [of w] by (simp add: it_bits_def u16_ty_def)
  moreover have "unat w < 2 ^ 128" using unat_less_pow [of w] by simp
  ultimately have "int_radix LowerHex u16_ty plain_fmt (uint w) = Ret (string_of (hex (unat w)))"
    using fmt_int_exact [of "unat w" LowerHex plain_fmt]
    by (simp add: int_radix_def pad_integral_plain plain_fmt_def sign_plus_def alternate_def BASE_def)
  then show ?thesis by (simp add: writes_def fmt_hex_def w_text_def hex_ascii)
qed

lemma writes_padded:
  assumes "writes w bs" "length bs \<le> cap"
  shows "padded f cap w k = Ret (write_str (pad f (string_of bs)) k)"
proof -
  have "w \<lparr>sink_cap = Some cap, sink_out = []\<rparr> = Ret (Some \<lparr>sink_cap = Some cap, sink_out = string_of bs\<rparr>)"
    using assms by (simp add: writes_def write_str_def string_of_def)
  moreover have "from_utf8_unchecked bs = Ret bs" using assms(1) by (intro ascii_text) (simp add: writes_def)
  ultimately show ?thesis by (simp add: padded_def)
qed

text \<open>Every \<open>Display\<close> of an address writes its text, padded as the formatter says.\<close>

definition displays :: "(formatter \<Rightarrow> writer) \<Rightarrow> u8 list \<Rightarrow> bool" where
  "displays d bs \<longleftrightarrow> (\<forall>f k. d f k = Ret (write_str (pad f (string_of bs)) k))"

lemma displays_if:
  assumes "writes w bs" "length bs \<le> cap"
  shows "displays (\<lambda>f. if fmt_precision f = None \<and> fmt_width f = None then w else padded f cap w) bs"
  unfolding displays_def using assms writes_padded [OF assms] by (auto simp: writes_def pad_def)

lemma displays_plain: "displays d bs \<Longrightarrow> \<forall>b\<in>set bs. b < 0x80 \<Longrightarrow> writes (d plain_fmt) bs"
  by (simp add: displays_def writes_def pad_def plain_fmt_def)

section \<open>Texts of addresses\<close>

fun groups_text :: "bool \<Rightarrow> u16 list \<Rightarrow> u8 list" where
  "groups_text colon [] = []"
| "groups_text colon (w # ws) = (if colon then [0x3A] else []) @ hex (unat w) @ groups_text True ws"

definition v6_text :: "ipv6_addr \<Rightarrow> u8 list" where
  "v6_text a = (let segs = segments a; z = zero_spans 0 span_default span_default segs in
     case to_ipv4_mapped a of
       Some b \<Rightarrow> [0x3A, 0x3A, 0x66, 0x66, 0x66, 0x66, 0x3A] @ v4_text b
     | None \<Rightarrow> if sp_len z > 1 then groups_text False (take (sp_start z) segs) @ [0x3A, 0x3A] @ groups_text False (drop (sp_start z + sp_len z) segs)
               else groups_text False segs)"

definition s4_text :: "socket_addr_v4 \<Rightarrow> u8 list" where
  "s4_text a = v4_text (s4_ip a) @ [0x3A] @ decimal (unat (s4_port a))"

definition s6_text :: "socket_addr_v6 \<Rightarrow> u8 list" where
  "s6_text a = [0x5B] @ v6_text (s6_ip a) @ (if s6_scope_id a = 0 then [] else [0x25] @ decimal (unat (s6_scope_id a))) @
     [0x5D, 0x3A] @ decimal (unat (s6_port a))"

definition ip_text :: "ip_addr \<Rightarrow> u8 list" where
  "ip_text a = (case a of V4 b \<Rightarrow> v4_text b | V6 b \<Rightarrow> v6_text b)"

definition socket_text :: "socket_addr \<Rightarrow> u8 list" where
  "socket_text a = (case a of Socket_V4 b \<Rightarrow> s4_text b | Socket_V6 b \<Rightarrow> s6_text b)"

definition v6_ok :: "ipv6_addr \<Rightarrow> bool" where
  "v6_ok a \<longleftrightarrow> length (v6_octets a) = 16"

lemma length_be_pairs: "length bs = 2 * n \<Longrightarrow> length (be_pairs bs) = n"
proof (induction n arbitrary: bs)
  case (Suc n)
  then obtain a b cs where "bs = a # b # cs" by (auto simp: length_Suc_conv)
  then show ?case using Suc by simp
qed simp

lemma v6_segments: "v6_ok a \<Longrightarrow> length (segments a) = 8"
  by (simp add: v6_ok_def segments_def length_be_pairs)

lemma mapped_ok: "to_ipv4_mapped a = Some b \<Longrightarrow> v4_ok b"
  by (auto simp: to_ipv4_mapped_def v4_ok_def split: if_splits)

lemma word_text_length:
  "length (decimal (unat (b :: u8))) \<le> 3" "length (decimal (unat (p :: u16))) \<le> 5" "length (decimal (unat (q :: u32))) \<le> 10"
  "length (hex (unat p)) \<le> 4"
  using unat_less_pow [of b] unat_less_pow [of p] unat_less_pow [of q] by (intro digits_of_length; simp)+

lemma v4_text_length: "v4_ok a \<Longrightarrow> length (v4_text a) \<le> 15"
  using octets_text_length [of False "v4_octets a"] by (simp add: v4_text_def v4_ok_def)

lemma groups_text_length: "length (groups_text colon ws) \<le> 5 * length ws - (if colon then 0 else 1)"
proof (induction colon ws rule: groups_text.induct)
  case (2 colon w ws)
  then show ?case using word_text_length(4) [of w] by (cases ws) auto
qed simp

text \<open>The two spans of the loop are runs of zeros, and the first is at least as long as every run seen.\<close>

definition zero_run :: "u16 list \<Rightarrow> nat \<Rightarrow> nat \<Rightarrow> bool" where
  "zero_run segs start len \<longleftrightarrow> start + len \<le> length segs \<and> (\<forall>j. start \<le> j \<and> j < start + len \<longrightarrow> segs ! j = 0)"

lemma zero_run_extend: "zero_run (pre @ [x]) s l \<longleftrightarrow> zero_run pre s l \<or> (s + l = Suc (length pre) \<and> (l = 0 \<or> x = 0 \<and> zero_run pre s (l - 1)))"
proof (cases "s + l = Suc (length pre) \<and> 0 < l")
  case True
  then have j: "s \<le> j \<and> j < s + l \<longleftrightarrow> j = length pre \<or> s \<le> j \<and> j < s + (l - 1)" for j by auto
  have "zero_run (pre @ [x]) s l \<longleftrightarrow> x = 0 \<and> (\<forall>j. s \<le> j \<and> j < s + (l - 1) \<longrightarrow> pre ! j = 0)"
    using True unfolding zero_run_def j by (auto simp: nth_append)
  then show ?thesis using True by (auto simp: zero_run_def)
next
  case False
  then show ?thesis by (auto simp: zero_run_def nth_append)
qed

definition trailing :: "u16 list \<Rightarrow> nat \<Rightarrow> bool" where
  "trailing pre l \<longleftrightarrow> l \<le> length pre \<and> zero_run pre (length pre - l) l"

lemma trailing_snoc: "trailing (pre @ [x]) l \<longleftrightarrow> l = 0 \<or> x = 0 \<and> trailing pre (l - 1)"
  by (cases l) (auto simp: trailing_def zero_run_extend, auto simp: zero_run_def)

lemma zero_run_snoc: "zero_run (pre @ [x]) s l \<longleftrightarrow> zero_run pre s l \<or> s + l = Suc (length pre) \<and> trailing (pre @ [x]) l"
proof
  assume run: "zero_run (pre @ [x]) s l"
  show "zero_run pre s l \<or> s + l = Suc (length pre) \<and> trailing (pre @ [x]) l"
  proof (cases "s + l = Suc (length pre)")
    case True
    then have "s = Suc (length pre) - l" by simp
    then show ?thesis using True run by (simp add: trailing_def)
  qed (use run in \<open>simp add: zero_run_extend\<close>)
next
  assume "zero_run pre s l \<or> s + l = Suc (length pre) \<and> trailing (pre @ [x]) l"
  then show "zero_run (pre @ [x]) s l"
  proof
    assume "s + l = Suc (length pre) \<and> trailing (pre @ [x]) l"
    then have "zero_run (pre @ [x]) (Suc (length pre) - l) l" "s = Suc (length pre) - l" by (auto simp: trailing_def)
    then show ?thesis by simp
  qed (simp add: zero_run_extend)
qed

definition spans_ok :: "u16 list \<Rightarrow> span \<Rightarrow> span \<Rightarrow> bool" where
  "spans_ok pre longest current \<longleftrightarrow>
     zero_run pre (sp_start longest) (sp_len longest) \<and> (\<forall>s l. zero_run pre s l \<longrightarrow> l \<le> sp_len longest) \<and>
     (\<forall>l. trailing pre l \<longleftrightarrow> l \<le> sp_len current) \<and> (0 < sp_len current \<longrightarrow> sp_start current + sp_len current = length pre)"

definition next_span :: "nat \<Rightarrow> u16 \<Rightarrow> span \<Rightarrow> span" where
  "next_span i w current = (if w = 0 then \<lparr>sp_start = (if sp_len current = 0 then i else sp_start current), sp_len = sp_len current + 1\<rparr> else span_default)"

definition longer :: "span \<Rightarrow> span \<Rightarrow> span" where
  "longer current longest = (if sp_len current > sp_len longest then current else longest)"

lemma spans_step:
  assumes "spans_ok pre longest current"
  shows "spans_ok (pre @ [w]) (longer (next_span (length pre) w current) longest) (next_span (length pre) w current)"
proof -
  let ?c = "next_span (length pre) w current" and ?l = "longer (next_span (length pre) w current) longest"
  have ok: "zero_run pre (sp_start longest) (sp_len longest)" "zero_run pre s l \<Longrightarrow> l \<le> sp_len longest"
    "trailing pre l \<longleftrightarrow> l \<le> sp_len current" "0 < sp_len current \<Longrightarrow> sp_start current + sp_len current = length pre" for s l
    using assms unfolding spans_ok_def by blast+
  have t: "trailing (pre @ [w]) l \<longleftrightarrow> l \<le> sp_len ?c" for l
    using ok(3) [of "l - 1"] unfolding trailing_snoc next_span_def span_default_def by (cases l) auto
  have c: "0 < sp_len ?c \<Longrightarrow> sp_start ?c + sp_len ?c = Suc (length pre)"
    using ok(4) by (cases "w = 0") (auto simp: next_span_def span_default_def)
  have "zero_run (pre @ [w]) (sp_start ?c) (sp_len ?c)" if "0 < sp_len ?c"
    unfolding zero_run_snoc using c [OF that] t by simp
  then have "zero_run (pre @ [w]) (sp_start ?l) (sp_len ?l)" using ok(1) unfolding longer_def by (auto simp: zero_run_snoc)
  moreover have "l \<le> sp_len ?l" if "zero_run (pre @ [w]) s l" for s l
    using that ok(2) [of s l] t [of l] unfolding zero_run_snoc longer_def by auto
  ultimately show ?thesis unfolding spans_ok_def using t c by simp
qed

lemma zero_spans_longest:
  "spans_ok pre longest current \<Longrightarrow> z = zero_spans (length pre) longest current segs \<Longrightarrow>
     zero_run (pre @ segs) (sp_start z) (sp_len z) \<and> (\<forall>s l. zero_run (pre @ segs) s l \<longrightarrow> l \<le> sp_len z)"
proof (induction segs arbitrary: pre longest current)
  case (Cons w segs)
  have "zero_spans (length pre) longest current (w # segs) =
      zero_spans (length (pre @ [w])) (longer (next_span (length pre) w current) longest) (next_span (length pre) w current) segs"
    by (cases current) (simp add: next_span_def longer_def span_default_def Let_def)
  then show ?case using Cons.IH [OF spans_step [OF Cons.prems(1), of w]] Cons.prems(2) by simp
qed (simp add: spans_ok_def)

lemma zero_spans_run:
  assumes "z = zero_spans 0 span_default span_default segs"
  shows "zero_run segs (sp_start z) (sp_len z)" "zero_run segs s l \<Longrightarrow> l \<le> sp_len z"
proof -
  have "spans_ok [] span_default span_default" by (auto simp: spans_ok_def span_default_def zero_run_def trailing_def)
  from zero_spans_longest [OF this, of z segs] assms
  show "zero_run segs (sp_start z) (sp_len z)" "zero_run segs s l \<Longrightarrow> l \<le> sp_len z" by auto
qed

lemma zero_run_split:
  assumes "zero_run segs s l"
  shows "segs = take s segs @ replicate l 0 @ drop (s + l) segs"
proof -
  have "take l (drop s segs) = replicate l 0"
    using assms by (intro nth_equalityI) (auto simp: zero_run_def)
  then show ?thesis by (metis append_take_drop_id drop_drop add.commute)
qed

section \<open>Display writes the text\<close>

lemma writes_v4: "v4_ok a \<Longrightarrow> writes (w4 a) (v4_text a)"
proof -
  assume "v4_ok a"
  then obtain b c d e where a: "v4_octets a = [b, c, d, e]" by (auto simp: v4_ok_def numeral_eq_Suc length_Suc_conv)
  then have n: "v4_octets a ! 0 = b" "v4_octets a ! 1 = c" "v4_octets a ! 2 = d" "v4_octets a ! 3 = e" by simp_all
  have "writes (w4 a) (decimal (unat b) @ [0x2E] @ decimal (unat c) @ [0x2E] @ decimal (unat d) @ [0x2E] @ decimal (unat e))"
    unfolding w4_def Let_def n by (intro writes_then writes_chars writes_word)
  then show ?thesis by (simp add: v4_text_def a)
qed

lemma displays_v4: "v4_ok a \<Longrightarrow> displays (\<lambda>f. ipv4_fmt f a) (v4_text a)"
  unfolding ipv4_fmt_def by (intro displays_if writes_v4 v4_text_length)

lemma writes_ascii: "writes w bs \<Longrightarrow> \<forall>b\<in>set bs. b < 0x80"
  by (simp add: writes_def)

lemma writes_v4_plain: "v4_ok a \<Longrightarrow> writes (ipv4_fmt plain_fmt a) (v4_text a)"
  using displays_plain [OF displays_v4 writes_ascii [OF writes_v4]] .

lemma writes_fmt_tail: "writes (fmt_tail ws) (groups_text True ws)"
proof (induction ws)
  case (Cons w ws)
  have "writes (fmt_tail (w # ws)) ([0x3A] @ hex (unat w) @ groups_text True ws)"
    unfolding fmt_tail.simps by (intro writes_then Cons.IH writes_hex writes_chars)
  then show ?case by simp
qed (simp add: writes_chars)

lemma writes_subslice: "writes (fmt_subslice ws) (groups_text False ws)"
proof (cases ws)
  case (Cons w vs)
  have "writes (fmt_subslice ws) (hex (unat w) @ groups_text True vs)"
    unfolding fmt_subslice_def Cons list.case by (intro writes_then writes_fmt_tail writes_hex)
  then show ?thesis using Cons by simp
qed (simp add: fmt_subslice_def writes_chars)

lemma writes_v6: "writes (w6 a) (v6_text a)"
proof (cases "to_ipv4_mapped a")
  case (Some b)
  show ?thesis unfolding w6_def v6_text_def Let_def Some option.case
    by (intro writes_then writes_chars writes_v4_plain mapped_ok [OF Some])
next
  case None
  let ?z = "zero_spans 0 span_default span_default (segments a)"
  show ?thesis unfolding w6_def v6_text_def Let_def None option.case
    by (cases "sp_len ?z > 1") (simp_all only: if_True if_False writes_then writes_chars writes_subslice)
qed

lemma v6_text_length:
  assumes "v6_ok a"
  shows "length (v6_text a) \<le> 39"
proof (cases "to_ipv4_mapped a")
  case (Some b)
  then show ?thesis using v4_text_length [OF mapped_ok [OF Some]] by (simp add: v6_text_def Let_def)
next
  case None
  let ?s = "segments a" and ?z = "zero_spans 0 span_default span_default (segments a)"
  have s: "length ?s = 8" by (rule v6_segments [OF assms])
  have "zero_run ?s (sp_start ?z) (sp_len ?z)" by (rule zero_spans_run(1) [OF refl])
  then have "sp_start ?z + sp_len ?z \<le> 8" by (simp add: zero_run_def s)
  then show ?thesis
    using None groups_text_length [of False ?s] s
      groups_text_length [of False "take (sp_start ?z) ?s"] groups_text_length [of False "drop (sp_start ?z + sp_len ?z) ?s"]
    by (auto simp: v6_text_def Let_def)
qed

lemma displays_v6: "v6_ok a \<Longrightarrow> displays (\<lambda>f. ipv6_fmt f a) (v6_text a)"
  unfolding ipv6_fmt_def by (intro displays_if writes_v6 v6_text_length)

lemma writes_v6_plain: "v6_ok a \<Longrightarrow> writes (ipv6_fmt plain_fmt a) (v6_text a)"
  using displays_plain [OF displays_v6 writes_ascii [OF writes_v6]] .

lemma displays_s4: "v4_ok (s4_ip a) \<Longrightarrow> displays (\<lambda>f. socket_v4_fmt f a) (s4_text a)"
  unfolding socket_v4_fmt_def
proof (intro displays_if)
  assume ok: "v4_ok (s4_ip a)"
  show "writes (ws4 a) (s4_text a)" unfolding ws4_def s4_text_def by (intro writes_then writes_v4_plain ok writes_chars writes_word)
  show "length (s4_text a) \<le> 21" using v4_text_length [OF ok] word_text_length(2) [of "s4_port a"] by (simp add: s4_text_def)
qed

lemma displays_s6: "v6_ok (s6_ip a) \<Longrightarrow> displays (\<lambda>f. socket_v6_fmt f a) (s6_text a)"
  unfolding socket_v6_fmt_def
proof (intro displays_if)
  assume ok: "v6_ok (s6_ip a)"
  show "writes (ws6 a) (s6_text a)"
  proof (cases "s6_scope_id a = 0")
    case True
    then show ?thesis unfolding ws6_def s6_text_def Let_def if_P [OF True] append_Nil
      by (intro writes_then writes_v6_plain ok writes_chars writes_word)
  next
    case False
    then show ?thesis unfolding ws6_def s6_text_def Let_def if_not_P [OF False] append.assoc
      by (intro writes_then writes_v6_plain ok writes_chars writes_word)
  qed
  show "length (s6_text a) \<le> 58"
    using v6_text_length [OF ok] word_text_length(2) [of "s6_port a"] word_text_length(3) [of "s6_scope_id a"] by (simp add: s6_text_def)
qed

section \<open>Reading the text back\<close>

text \<open>A printer and a parser that returns the remaining input: what is printed is read back, whatever follows, as long as
  it may follow.\<close>

locale text_codec =
  fixes prt :: "'a \<Rightarrow> u8 list" and rd :: "'a parser" and ok :: "'a \<Rightarrow> bool" and follow :: "u8 list \<Rightarrow> bool"
  assumes reads: "ok x \<Longrightarrow> follow rest \<Longrightarrow> rd (prt x @ rest) = Ret (Some x, rest)"
    and follow_Nil: "follow []"
begin

lemma parse_printed: "ok x \<Longrightarrow> parse_with rd kind (prt x) = Ret (Inr x)"
  using reads [OF _ follow_Nil] by (simp add: parse_with_def)

lemma printed_injective: "ok x \<Longrightarrow> ok y \<Longrightarrow> prt x = prt y \<Longrightarrow> x = y"
  using reads [OF _ follow_Nil, of x] reads [OF _ follow_Nil, of y] by simp

end

text \<open>An alternative of two formats: the second is tried on input the first rejects.\<close>

locale alternative_codec =
  first: text_codec prt1 rd1 ok1 follow1 + second: text_codec prt2 rd2 ok2 follow2
  for prt1 :: "'a \<Rightarrow> u8 list" and rd1 ok1 follow1 and prt2 :: "'b \<Rightarrow> u8 list" and rd2 ok2 follow2 +
  assumes rejects: "ok2 y \<Longrightarrow> follow2 rest \<Longrightarrow> rd1 (prt2 y @ rest) = Ret (None, prt2 y @ rest)"
begin

definition either :: "('a \<Rightarrow> 'c) \<Rightarrow> ('b \<Rightarrow> 'c) \<Rightarrow> 'c parser" where
  "either l r = (\<lambda>s. and_then (rd1 s) (\<lambda>(x, s). case x of Some a \<Rightarrow> Ret (Some (l a), s)
     | None \<Rightarrow> and_then (rd2 s) (\<lambda>(x, s). Ret (map_option r x, s))))"

lemma either_reads:
  "ok1 x \<Longrightarrow> follow1 rest \<Longrightarrow> either l r (prt1 x @ rest) = Ret (Some (l x), rest)"
  "ok2 y \<Longrightarrow> follow2 rest \<Longrightarrow> either l r (prt2 y @ rest) = Ret (Some (r y), rest)"
  using first.reads second.reads rejects by (simp_all add: either_def)

end

interpretation v4: text_codec v4_text read_ipv4_addr v4_ok "stops 10"
  by unfold_locales (simp_all add: read_ipv4_complete)

subsection \<open>IPv6 groups\<close>

definition no_group :: "u8 list \<Rightarrow> bool" where
  "no_group t \<longleftrightarrow> t = [] \<or> \<not> is_dig 16 (hd t) \<and> hd t \<noteq> 0x2E"

definition follow6 :: "u8 list \<Rightarrow> bool" where
  "follow6 rest \<longleftrightarrow> no_group rest \<and> (rest = [] \<or> hd rest \<noteq> 0x3A)"

lemma dec_is_hex: "is_dig 10 b \<Longrightarrow> is_dig 16 b"
  by (auto simp: is_dig_def digit_in_def split: option.splits if_splits)

lemma hex_printed:
  assumes "stops 16 rest"
  shows "leading 16 (hex n @ rest) = hex n" "behind 16 (hex n @ rest) = rest" "number_at 16 0 (hex n @ rest) = n"
  using printed_digits [of 16 "radix_char LowerHex" rest n] digit_in_radix [of _ LowerHex] assms by (simp_all add: BASE_def)

lemma no_group_stops: "no_group t \<Longrightarrow> stops 16 t"
  by (auto simp: no_group_def stops_def)

lemma behind_no_group: "no_group t \<Longrightarrow> behind 10 t = t"
  using dec_is_hex by (cases t) (auto simp: no_group_def behind_def)

lemma no_v4: "no_group t \<Longrightarrow> read_ipv4_addr t = Ret (None, t)"
  by (rule read_ipv4_fails) (auto simp: behind_no_group no_group_def)

lemma behind_digits: "no_group mr \<Longrightarrow> \<forall>b\<in>set ds. b \<noteq> 0x2E \<Longrightarrow> behind 10 (ds @ mr) = [] \<or> hd (behind 10 (ds @ mr)) \<noteq> 0x2E"
proof (induction ds)
  case Nil
  then show ?case by (auto simp: behind_no_group no_group_def)
next
  case (Cons b ds)
  then show ?case by (cases "is_dig 10 b") (simp_all add: behind_def)
qed

lemma no_v4_group: "no_group mr \<Longrightarrow> read_ipv4_addr (hex n @ mr) = Ret (None, hex n @ mr)"
proof (rule read_ipv4_fails)
  assume m: "no_group mr"
  have "\<forall>b\<in>set (hex n). is_dig 16 b"
    using hex_printed(1) [OF no_group_stops [OF m], of n] set_takeWhileD [of _ "is_dig 16" "hex n @ mr"] unfolding leading_def by metis
  then have h: "\<forall>b\<in>set (hex n). b \<noteq> 0x2E" using not_digits(8) by auto
  show "behind 10 (hex n @ mr) = [] \<or> hd (behind 10 (hex n @ mr)) \<noteq> 0x2E" by (rule behind_digits [OF m h])
qed

lemma no_number: "no_group t \<Longrightarrow> read_number 65535 16 (Some 4) True t = Ret (None, t)"
proof -
  assume "no_group t"
  then have "leading 16 t = []" by (cases t) (auto simp: no_group_def leading_def)
  then show ?thesis using read_number_exact [of 16 "Some 4" 65535 True t] by (simp add: number_ok_def)
qed

lemma group_number: "no_group mr \<Longrightarrow> read_number 65535 16 (Some 4) True (hex (unat (w :: u16)) @ mr) = Ret (Some (unat w), mr)"
proof -
  assume "no_group mr"
  note p = hex_printed [OF no_group_stops [OF this], of "unat w"]
  have "unat w \<le> 65535" using unat_less_pow [of w] by simp
  then have "number_ok 65535 16 (Some 4) True (hex (unat w) @ mr)"
    using p word_text_length(4) [of w] by (simp add: number_ok_def digits_of_not_Nil)
  then show ?thesis using read_number_exact [of 16 "Some 4" 65535 True] p by simp
qed

text \<open>With its separator: a group that is there, and one that is not.\<close>

definition sep_text :: "nat \<Rightarrow> u8 list" where
  "sep_text i = (if 0 < i then [0x3A] else [])"

definition blocked :: "nat \<Rightarrow> u8 list \<Rightarrow> bool" where
  "blocked i t \<longleftrightarrow> (if 0 < i then t = [] \<or> hd t \<noteq> 0x3A \<or> no_group (tl t) else no_group t)"

lemma separated:
  assumes "p t = Ret (r, t')" "r = None \<Longrightarrow> t' = t"
  shows "read_separator 0x3A i p (sep_text i @ t) = Ret (r, if r = None then sep_text i @ t else t')"
  using assms by (cases "0 < i") (auto simp: sep_text_def separator_next separator_first read_atomically_def)

lemma blocked_fails:
  assumes "blocked i t" "\<And>u. no_group u \<Longrightarrow> p u = Ret (None, u)"
  shows "read_separator 0x3A i p t = Ret (None, t)"
  using assms by (cases "0 < i") (auto simp: blocked_def separator_next separator_first read_atomically_def)

lemma groups_read:
  assumes "length groups = limit" "no_group rest"
  shows "i + length ws + n = limit \<Longrightarrow> take i groups = pre \<Longrightarrow>
    read_groups_loop limit (length ws + n) i groups (groups_text (0 < i) ws @ rest) =
    read_groups_loop limit n (i + length ws) (pre @ ws @ drop (i + length ws) groups) rest"
  using assms(1)
proof (induction ws arbitrary: i groups pre)
  case Nil
  then show ?case using append_take_drop_id [of i groups] by simp
next
  case (Cons w ws)
  let ?mr = "groups_text True ws @ rest"
  have mr: "no_group ?mr" using assms(2) by (cases ws) (simp_all add: no_group_def not_digits)
  have t: "groups_text (0 < i) (w # ws) @ rest = sep_text i @ hex (unat w) @ ?mr" by (simp add: sep_text_def)
  have v4: "read_separator 0x3A i read_ipv4_addr (sep_text i @ hex (unat w) @ ?mr) = Ret (None, sep_text i @ hex (unat w) @ ?mr)"
    using separated [of read_ipv4_addr, OF no_v4_group [OF mr]] by simp
  have num: "read_separator 0x3A i (read_number 65535 16 (Some 4) True) (sep_text i @ hex (unat w) @ ?mr) = Ret (Some (unat w), ?mr)"
    using separated [of "read_number 65535 16 (Some 4) True", OF group_number [OF mr]] by simp
  have i: "i < limit" "i < length groups" using Cons.prems by simp_all
  have "read_groups_loop limit (length (w # ws) + n) i groups (groups_text (0 < i) (w # ws) @ rest) =
      read_groups_loop limit (length ws + n) (i + 1) (groups[i := w]) ?mr"
    unfolding t by (simp add: v4 num)
  also have "\<dots> = read_groups_loop limit n (i + 1 + length ws) ((pre @ [w]) @ ws @ drop (i + 1 + length ws) (groups[i := w])) rest"
    using Cons.IH [of "i + 1" "groups[i := w]" "pre @ [w]"] Cons.prems i by (simp add: take_Suc_conv_app_nth)
  finally show ?case by simp
qed

lemma groups_stop: "blocked i t \<Longrightarrow> read_groups_loop limit (Suc n) i groups t = Ret ((i, False), groups, t)"
  using blocked_fails [of i t read_ipv4_addr] blocked_fails [of i t "read_number 65535 16 (Some 4) True"] no_v4 no_number by simp

lemma colon_no_group: "no_group (0x3A # t)"
  by (simp add: no_group_def not_digits)

lemma blocked_follow: "follow6 rest \<Longrightarrow> blocked i rest" "blocked i (0x3A # 0x3A # t)"
  by (auto simp: follow6_def blocked_def no_group_def not_digits)

lemma groups_read_all:
  assumes "length ws \<le> limit" "no_group rest" "limit = length ws \<or> blocked (length ws) rest"
  shows "read_groups (replicate limit 0) (groups_text False ws @ rest) = Ret ((length ws, False), ws @ replicate (limit - length ws) 0, rest)"
proof -
  define n where "n = limit - length ws"
  have l: "limit = length ws + n" using assms(1) by (simp add: n_def)
  have "read_groups (replicate limit 0) (groups_text False ws @ rest) = read_groups_loop limit n (length ws) (ws @ replicate n 0) rest"
    using groups_read [of "replicate limit 0" limit rest 0 ws n "[]"] assms(2) l by (simp add: read_groups_def)
  also have "\<dots> = Ret ((length ws, False), ws @ replicate n 0, rest)"
  proof (cases n)
    case (Suc m)
    then have "blocked (length ws) rest" using assms(3) l by simp
    from groups_stop [OF this] show ?thesis unfolding Suc .
  qed (use l in simp)
  finally show ?thesis by (simp add: n_def)
qed

lemma v6_plain:
  assumes "length segs = 8" "follow6 rest"
  shows "read_ipv6_addr (groups_text False segs @ rest) = Ret (Some (v6_from_segments segs), rest)"
  using groups_read_all [of segs 8 rest] assms unfolding read_ipv6_addr_def follow6_def by simp

text \<open>Reading \<open>::\<close> and what follows it, after fewer than eight groups.\<close>

lemma v6_compressed:
  assumes "length a < 8" "read_groups (replicate (7 - length a) 0) (t @ rest) = Ret ((n, b), tail, rest)"
  shows "read_ipv6_addr (groups_text False a @ [0x3A, 0x3A] @ t @ rest) =
    Ret (Some (v6_from_segments (take (8 - n) (a @ replicate (8 - length a) 0) @ take n tail)), rest)"
proof -
  have "read_groups (replicate 8 0) (groups_text False a @ 0x3A # 0x3A # t @ rest) =
      Ret ((length a, False), a @ replicate (8 - length a) 0, 0x3A # 0x3A # t @ rest)"
    using assms(1) by (intro groups_read_all) (simp_all add: colon_no_group blocked_follow)
  moreover have "take (7 - length a) (replicate 7 0) = replicate (7 - length a) (0 :: u16)" by (simp add: min_def)
  ultimately show ?thesis using assms by (simp add: read_ipv6_addr_def given_char Let_def)
qed

lemma be_bytes: "to_be_bytes (from_be_bytes a b) = [a, b]"
proof -
  have l: "unat a < 256" "unat b < 256" using unat_less_pow [of a] unat_less_pow [of b] by simp_all
  have u: "unat (from_be_bytes a b) = unat a * 256 + unat b"
    unfolding from_be_bytes_def using l by (subst unat_or_disjoint [where k = 8]) (simp_all add: word_nat)
  have "ucast (drop_bit 8 (from_be_bytes a b)) = a"
    by (rule word_eq_unatI) (use l in \<open>simp add: unat_ucast_mod unat_drop_bit_div u\<close>)
  moreover have "ucast (from_be_bytes a b) = b"
    by (rule word_eq_unatI) (use l in \<open>simp add: unat_ucast_mod u\<close>)
  ultimately show ?thesis by (simp add: to_be_bytes_def)
qed

lemma concat_be_pairs: "length bs = 2 * n \<Longrightarrow> concat (map to_be_bytes (be_pairs bs)) = bs"
proof (induction n arbitrary: bs)
  case (Suc n)
  then obtain a b cs where "bs = a # b # cs" by (auto simp: length_Suc_conv)
  then show ?case using Suc by (simp add: be_bytes)
qed simp

lemma v6_from_to: "v6_ok a \<Longrightarrow> v6_from_segments (segments a) = a"
  using concat_be_pairs [of "v6_octets a" 8] by (simp add: v6_from_segments_def segments_def v6_ok_def)

lemma v6_mapped:
  assumes "to_ipv4_mapped a = Some b" "follow6 rest"
  shows "read_ipv6_addr (v6_text a @ rest) = Ret (Some a, rest)"
proof -
  obtain o0 o1 o2 o3 where o4: "v4_octets b = [o0, o1, o2, o3]" using mapped_ok [OF assms(1)] by (auto simp: v4_ok_def numeral_eq_Suc length_Suc_conv)
  have a: "length (v6_octets a) = 16" "take 12 (v6_octets a) = [0, 0, 0, 0, 0, 0, 0, 0, 0, 0, 0xFF, 0xFF]" "drop 12 (v6_octets a) = [o0, o1, o2, o3]"
    using assms(1) o4 by (auto simp: to_ipv4_mapped_def split: if_splits)
  let ?g = "[0xFFFF, from_be_bytes o0 o1, from_be_bytes o2 o3] :: u16 list"
  have hex: "hex 65535 = [0x66, 0x66, 0x66, 0x66]" by (simp add: digits_of.simps radix_char_def)
  have "stops 10 rest" using assms(2) dec_is_hex by (auto simp: follow6_def no_group_def stops_def)
  then have v4: "read_separator 0x3A 1 read_ipv4_addr (0x3A # v4_text b @ rest) = Ret (Some b, rest)"
    using v4.reads [OF mapped_ok [OF assms(1)]] by (simp add: separator_next)
  have "read_groups (replicate 7 0) ([0x66, 0x66, 0x66, 0x66] @ 0x3A # v4_text b @ rest) =
      read_groups_loop 7 6 1 ([0xFFFF] @ replicate 6 0) (0x3A # v4_text b @ rest)"
    using groups_read [of "replicate 7 0" 7 "0x3A # v4_text b @ rest" 0 "[0xFFFF]" 6 "[]"] colon_no_group by (simp add: read_groups_def hex)
  also have "\<dots> = Ret ((3, True), ?g @ replicate 4 0, rest)"
    using v4 o4 by (simp add: numeral_eq_Suc)
  finally have "read_ipv6_addr (groups_text False [] @ [0x3A, 0x3A] @ ([0x66, 0x66, 0x66, 0x66] @ 0x3A # v4_text b) @ rest) =
      Ret (Some (v6_from_segments (take (8 - 3) ([] @ replicate (8 - length []) 0) @ take 3 (?g @ replicate 4 0))), rest)"
    using v6_compressed [of "[]" "[0x66, 0x66, 0x66, 0x66] @ 0x3A # v4_text b" rest 3 True "?g @ replicate 4 0"] by simp
  moreover have "v6_from_segments (take (8 - 3) ([] @ replicate (8 - length []) 0) @ take 3 (?g @ replicate 4 0)) = a"
  proof -
    have "to_be_bytes 0 = [0, 0]" "to_be_bytes 0xFFFF = [0xFF, 0xFF]" by (simp_all add: to_be_bytes_def)
    then have "concat (map to_be_bytes (replicate 5 0 @ ?g)) = v6_octets a"
      using a append_take_drop_id [of 12 "v6_octets a"] by (simp add: be_bytes numeral_eq_Suc)
    then show ?thesis by (simp add: v6_from_segments_def)
  qed
  ultimately show ?thesis using assms(1) by (simp add: v6_text_def Let_def)
qed

lemma read_ipv6_complete:
  assumes "v6_ok a" "follow6 rest"
  shows "read_ipv6_addr (v6_text a @ rest) = Ret (Some a, rest)"
proof (cases "to_ipv4_mapped a")
  case (Some b)
  then show ?thesis using v6_mapped assms(2) by blast
next
  case None
  let ?s = "segments a"
  define z where "z = zero_spans 0 span_default span_default ?s"
  let ?h = "take (sp_start z) ?s" and ?t = "drop (sp_start z + sp_len z) ?s"
  have s: "length ?s = 8" by (rule v6_segments [OF assms(1)])
  have run: "zero_run ?s (sp_start z) (sp_len z)" by (rule zero_spans_run(1) [OF z_def])
  then have len: "sp_start z + sp_len z \<le> 8" by (simp add: zero_run_def s)
  show ?thesis
  proof (cases "sp_len z > 1")
    case False
    then show ?thesis using None v6_plain [OF s assms(2)] v6_from_to [OF assms(1)] by (simp add: v6_text_def Let_def z_def)
  next
    case True
    let ?n = "length ?t"
    have "read_groups (replicate (7 - length ?h) 0) (groups_text False ?t @ rest) = Ret ((?n, False), ?t @ replicate (7 - length ?h - ?n) 0, rest)"
      using assms(2) s len True by (intro groups_read_all) (auto simp: follow6_def blocked_follow(1) [OF assms(2)])
    moreover have "length ?h < 8" using len s True by simp
    ultimately have "read_ipv6_addr (groups_text False ?h @ [0x3A, 0x3A] @ groups_text False ?t @ rest) =
        Ret (Some (v6_from_segments (take (8 - ?n) (?h @ replicate (8 - length ?h) 0) @ take ?n (?t @ replicate (7 - length ?h - ?n) 0))), rest)"
      by (intro v6_compressed)
    moreover have "take (8 - ?n) (?h @ replicate (8 - length ?h) 0) @ take ?n (?t @ replicate (7 - length ?h - ?n) 0) = ?s"
    proof -
      have "take (8 - ?n) (?h @ replicate (8 - length ?h) 0) = ?h @ replicate (sp_len z) (0 :: u16)" using len s by (auto simp: min_def)
      then show ?thesis using zero_run_split [OF run] by simp
    qed
    ultimately show ?thesis using None True v6_from_to [OF assms(1)] by (simp add: v6_text_def Let_def z_def)
  qed
qed

interpretation v6: text_codec v6_text read_ipv6_addr v6_ok follow6
  by unfold_locales (simp_all add: read_ipv6_complete follow6_def no_group_def)

subsection \<open>Ports, scopes and socket addresses\<close>

lemma number_read: "stops 10 rest \<Longrightarrow> n \<le> tmax \<Longrightarrow> read_number tmax 10 None True (decimal n @ rest) = Ret (Some n, rest)"
  using read_number_exact [of 10 None tmax True "decimal n @ rest"] decimal_printed [of rest n]
  by (simp add: number_ok_def digits_of_not_Nil)

lemma port_read: "stops 10 rest \<Longrightarrow> read_port (0x3A # decimal (unat (p :: u16)) @ rest) = Ret (Some (unat p), rest)"
  using number_read [of rest "unat p" 65535] unat_less_pow [of p] by (simp add: read_port_def given_char)

lemma scope_read: "stops 10 rest \<Longrightarrow> read_scope_id (0x25 # decimal (unat (q :: u32)) @ rest) = Ret (Some (unat q), rest)"
  using number_read [of rest "unat q" 4294967295] unat_less_pow [of q] by (simp add: read_scope_id_def given_char)

lemma no_scope: "read_scope_id (0x5D # t) = Ret (None, 0x5D # t)"
  by (simp add: read_scope_id_def given_char)

definition s6_ok :: "socket_addr_v6 \<Rightarrow> bool" where
  "s6_ok a \<longleftrightarrow> v6_ok (s6_ip a) \<and> s6_flowinfo a = 0"

lemma read_s4_complete:
  assumes "v4_ok (s4_ip a)" "stops 10 rest"
  shows "read_socket_addr_v4 (s4_text a @ rest) = Ret (Some a, rest)"
proof -
  have "stops 10 (0x3A # t)" for t by (simp add: stops_def not_digits)
  then show ?thesis using v4.reads [OF assms(1)] port_read [OF assms(2), of "s4_port a"]
    by (simp add: read_socket_addr_v4_def s4_text_def)
qed

lemma read_s6_complete:
  assumes "s6_ok a" "stops 10 rest"
  shows "read_socket_addr_v6 (s6_text a @ rest) = Ret (Some a, rest)"
proof -
  let ?fin = "0x5D # 0x3A # decimal (unat (s6_port a)) @ rest"
  have f: "follow6 (0x5D # t)" "follow6 (0x25 # t)" "stops 10 (0x5D # t)" for t
    by (simp_all add: follow6_def no_group_def stops_def not_digits)
  have a: "a = \<lparr>s6_ip = s6_ip a, s6_port = s6_port a, s6_flowinfo = 0, s6_scope_id = s6_scope_id a\<rparr>" "v6_ok (s6_ip a)"
    using assms(1) by (simp_all add: s6_ok_def)
  show ?thesis
  proof (cases "s6_scope_id a = 0")
    case True
    have "read_socket_addr_v6 (0x5B # v6_text (s6_ip a) @ ?fin) = Ret (Some a, rest)"
      unfolding read_socket_addr_v6_def
      using v6.reads [OF a(2) f(1)] no_scope port_read [OF assms(2)] True a(1) by (simp add: given_char)
    then show ?thesis using True by (simp add: s6_text_def)
  next
    case False
    have "read_socket_addr_v6 (0x5B # v6_text (s6_ip a) @ 0x25 # decimal (unat (s6_scope_id a)) @ ?fin) = Ret (Some a, rest)"
      unfolding read_socket_addr_v6_def
      using v6.reads [OF a(2) f(2)] scope_read [OF f(3)] port_read [OF assms(2)] a(1) by (simp add: given_char)
    then show ?thesis using False by (simp add: s6_text_def)
  qed
qed

interpretation s4: text_codec s4_text read_socket_addr_v4 "\<lambda>a. v4_ok (s4_ip a)" "stops 10"
  by unfold_locales (simp_all add: read_s4_complete)

interpretation s6: text_codec s6_text read_socket_addr_v6 s6_ok "stops 10"
  by unfold_locales (simp_all add: read_s6_complete)

subsection \<open>Alternatives\<close>

lemma groups_text_start: "no_group t \<Longrightarrow> no_group (groups_text False ws @ t) \<or> (\<exists>n mr. groups_text False ws @ t = hex n @ mr \<and> no_group mr)"
proof (cases ws)
  case (Cons w vs)
  assume "no_group t"
  then have "no_group (groups_text True vs @ t)" by (cases vs) (simp_all add: colon_no_group)
  then show ?thesis using Cons by auto
qed simp

lemma no_v4_in_v6:
  assumes "follow6 rest"
  shows "read_ipv4_addr (v6_text a @ rest) = Ret (None, v6_text a @ rest)"
proof -
  have "no_group (v6_text a @ rest) \<or> (\<exists>n mr. v6_text a @ rest = hex n @ mr \<and> no_group mr)"
    using groups_text_start [of rest] groups_text_start [OF colon_no_group] assms colon_no_group
    by (auto simp: v6_text_def Let_def follow6_def split: option.splits)
  then show ?thesis using no_v4 no_v4_group by auto
qed

interpretation ip: alternative_codec v4_text read_ipv4_addr v4_ok "stops 10" v6_text read_ipv6_addr v6_ok follow6
  by unfold_locales (simp add: no_v4_in_v6)

interpretation socket: alternative_codec s4_text read_socket_addr_v4 "\<lambda>a. v4_ok (s4_ip a)" "stops 10" s6_text read_socket_addr_v6 s6_ok "stops 10"
proof unfold_locales
  fix a rest
  have "no_group (s6_text a @ rest)" by (simp add: s6_text_def no_group_def is_dig_def digit_in_def digit_of_def)
  from no_v4 [OF this] show "read_socket_addr_v4 (s6_text a @ rest) = Ret (None, s6_text a @ rest)" by (simp add: read_socket_addr_v4_def)
qed

lemma alternatives: "read_ip_addr = ip.either V4 V6" "read_socket_addr = socket.either Socket_V4 Socket_V6"
  by (simp_all add: read_ip_addr_def read_socket_addr_def ip.either_def socket.either_def)

definition ip_ok :: "ip_addr \<Rightarrow> bool" where
  "ip_ok a \<longleftrightarrow> (case a of V4 b \<Rightarrow> v4_ok b | V6 b \<Rightarrow> v6_ok b)"

definition socket_ok :: "socket_addr \<Rightarrow> bool" where
  "socket_ok a \<longleftrightarrow> (case a of Socket_V4 b \<Rightarrow> v4_ok (s4_ip b) | Socket_V6 b \<Rightarrow> v6_ok (s6_ip b))"

text \<open>The text of an IPv6 socket address does not show its flow information, which is zero when it is read back.\<close>

definition s6_shown :: "socket_addr_v6 \<Rightarrow> socket_addr_v6" where
  "s6_shown a = a\<lparr>s6_flowinfo := 0\<rparr>"

definition socket_shown :: "socket_addr \<Rightarrow> socket_addr" where
  "socket_shown a = (case a of Socket_V4 b \<Rightarrow> Socket_V4 b | Socket_V6 b \<Rightarrow> Socket_V6 (s6_shown b))"

lemma s6_shown [simp]: "s6_text (s6_shown a) = s6_text a" "s6_ok (s6_shown a) \<longleftrightarrow> v6_ok (s6_ip a)"
  by (simp_all add: s6_shown_def s6_text_def s6_ok_def)

lemma ip_parse_printed: "ip_ok a \<Longrightarrow> ip_parse_ascii (ip_text a) = Ret (Inr a)"
  using ip.either_reads(1) [of _ "[]" V4 V6] ip.either_reads(2) [of _ "[]" V4 V6] v6.follow_Nil
  by (cases a) (simp_all add: ip_ok_def ip_text_def ip_parse_ascii_def parse_with_def alternatives)

lemma s6_parse_printed: "v6_ok (s6_ip a) \<Longrightarrow> s6_parse_ascii (s6_text a) = Ret (Inr (s6_shown a))"
  using s6.parse_printed [of "s6_shown a"] by (simp add: s6_parse_ascii_def)

lemma socket_parse_printed: "socket_ok a \<Longrightarrow> socket_parse_ascii (socket_text a) = Ret (Inr (socket_shown a))"
  using socket.either_reads(1) [of _ "[]" Socket_V4 Socket_V6] socket.either_reads(2) [of "s6_shown _" "[]" Socket_V4 Socket_V6]
  by (cases a) (simp_all add: socket_ok_def socket_text_def socket_shown_def socket_parse_ascii_def parse_with_def alternatives)

section \<open>Properties\<close>

text \<open>C28: every valid address is printed, with any formatter, as its text padded as the formatter says: the fixed buffers
  are large enough, so nothing panics, and \<open>::\<close> stands for a longest run of zero groups. Parsing the text, with the
  parser of its own type or with the one that tries both versions, returns the address, except that the flow
  information of an IPv6 socket address, which the text does not show, is read back as zero: such an address is returned
  exactly if its flow information is zero.\<close>

theorem addr_text_roundtrip:
  assumes "ip_ok a" "socket_ok s"
  shows "displays (\<lambda>f. ip_fmt f a) (ip_text a) \<and> ip_parse_ascii (ip_text a) = Ret (Inr a) \<and>
    displays (\<lambda>f. socket_fmt f s) (socket_text s) \<and> socket_parse_ascii (socket_text s) = Ret (Inr (socket_shown s)) \<and>
    (case a of V4 b \<Rightarrow> v4_parse_ascii (v4_text b) = Ret (Inr b)
     | V6 b \<Rightarrow> v6_parse_ascii (v6_text b) = Ret (Inr b) \<and>
         (\<forall>i l. zero_run (segments b) i l \<longrightarrow> l \<le> sp_len (zero_spans 0 span_default span_default (segments b)))) \<and>
    (case s of Socket_V4 t \<Rightarrow> s4_parse_ascii (s4_text t) = Ret (Inr t)
     | Socket_V6 t \<Rightarrow> s6_parse_ascii (s6_text t) = Ret (Inr (t\<lparr>s6_flowinfo := 0\<rparr>)))"
proof (intro conjI)
  show "displays (\<lambda>f. ip_fmt f a) (ip_text a)"
    using assms(1) displays_v4 displays_v6 by (cases a) (simp_all add: ip_ok_def ip_fmt_def ip_text_def)
  show "displays (\<lambda>f. socket_fmt f s) (socket_text s)"
    using assms(2) displays_s4 displays_s6 by (cases s) (simp_all add: socket_ok_def socket_fmt_def socket_text_def)
  show "case s of Socket_V4 t \<Rightarrow> s4_parse_ascii (s4_text t) = Ret (Inr t)
     | Socket_V6 t \<Rightarrow> s6_parse_ascii (s6_text t) = Ret (Inr (t\<lparr>s6_flowinfo := 0\<rparr>))"
    using assms(2) s4.parse_printed s6_parse_printed by (cases s) (simp_all add: socket_ok_def s4_parse_ascii_def s6_shown_def)
  show "case a of V4 b \<Rightarrow> v4_parse_ascii (v4_text b) = Ret (Inr b)
     | V6 b \<Rightarrow> v6_parse_ascii (v6_text b) = Ret (Inr b) \<and>
         (\<forall>i l. zero_run (segments b) i l \<longrightarrow> l \<le> sp_len (zero_spans 0 span_default span_default (segments b)))"
    using assms(1) v4.parse_printed v6.parse_printed v4_text_length zero_spans_run(2) [OF refl]
    by (cases a) (simp_all add: ip_ok_def v4_parse_ascii_def v6_parse_ascii_def not_less)
qed (simp_all add: ip_parse_printed socket_parse_printed assms)

theorem addr_text_roundtrip_witness:
  "ip_parse_ascii (bytes_of ''::1'') = Ret (Inr (V6 \<lparr>v6_octets = replicate 15 0 @ [1]\<rparr>)) \<and>
   socket_parse_ascii (bytes_of ''10.0.0.1:80'') = Ret (Inr (Socket_V4 \<lparr>s4_ip = \<lparr>v4_octets = [10, 0, 0, 1]\<rparr>, s4_port = 80\<rparr>)) \<and>
   socket_text (Socket_V6 \<lparr>s6_ip = \<lparr>v6_octets = replicate 15 0 @ [1]\<rparr>, s6_port = 80, s6_flowinfo = 7, s6_scope_id = 0\<rparr>) = bytes_of ''[::1]:80'' \<and>
   socket_parse_ascii (bytes_of ''[::1]:80'')
     = Ret (Inr (Socket_V6 \<lparr>s6_ip = \<lparr>v6_octets = replicate 15 0 @ [1]\<rparr>, s6_port = 80, s6_flowinfo = 0, s6_scope_id = 0\<rparr>))"
proof -
  let ?l = "\<lparr>v6_octets = replicate 15 0 @ [1]\<rparr>" and ?s = "Socket_V4 \<lparr>s4_ip = \<lparr>v4_octets = [10, 0, 0, 1]\<rparr>, s4_port = 80\<rparr>"
  let ?a = "V6 ?l" and ?t = "Socket_V6 \<lparr>s6_ip = ?l, s6_port = 80, s6_flowinfo = 7, s6_scope_id = 0\<rparr>"
  have "ip_ok ?a" "socket_ok ?s" "socket_ok ?t" by (simp_all add: ip_ok_def v6_ok_def socket_ok_def v4_ok_def)
  moreover have "ip_text ?a = bytes_of ''::1''" by code_simp
  moreover have "socket_text ?s = bytes_of ''10.0.0.1:80''" by code_simp
  moreover have "socket_text ?t = bytes_of ''[::1]:80''" by code_simp
  ultimately show ?thesis using addr_text_roundtrip [of ?a ?s] addr_text_roundtrip [of ?a ?t] by (simp add: socket_shown_def s6_shown_def)
qed

end
