(* ===== verification/Vec_Ops.thy ===== *)
theory Vec_Ops
  imports Raw_Vec Call_Sequences
begin

text \<open>
  \<open>Vec\<close>, \<open>library/alloc/src/vec/mod.rs\<close>: the element moves over the buffer of
  \<open>Raw_Vec\<close>, for element types of non-zero size. Raw reads, writes and block copies have undefined behaviour
  outside the buffer, and a read also where a cell holds no value. Dropping a value empties its cell and is recorded, so that
  a value dropped twice would be a read of an empty cell. Code that runs closures, clones or iterators may unwind in the
  middle: it ends in \<open>Unwinding\<close> with the vector its scope guards leave behind.
\<close>

section \<open>Raw memory\<close>

definition ptr_read :: "'a cells \<Rightarrow> nat \<Rightarrow> 'a outcome" where
  "ptr_read b i = (if i < length b then (case b ! i of Some x \<Rightarrow> Ret x | None \<Rightarrow> UB) else UB)"

definition ptr_write :: "'a cells \<Rightarrow> nat \<Rightarrow> 'a \<Rightarrow> 'a cells outcome" where
  "ptr_write b i x = (if i < length b then Ret (b[i := Some x]) else UB)"

definition ptr_copy :: "'a cells \<Rightarrow> nat \<Rightarrow> nat \<Rightarrow> nat \<Rightarrow> 'a cells outcome" where
  "ptr_copy b src dst n =
     (if src + n \<le> length b \<and> dst + n \<le> length b then Ret (mem_move b src dst n) else UB)"

definition ptr_copy_nonoverlapping :: "'a cells \<Rightarrow> nat \<Rightarrow> nat \<Rightarrow> nat \<Rightarrow> 'a cells outcome" where
  "ptr_copy_nonoverlapping b src dst n =
     (if src + n \<le> length b \<and> dst + n \<le> length b \<and> (src + n \<le> dst \<or> dst + n \<le> src)
      then Ret (mem_move b src dst n) else UB)"

text \<open>The same copy between two allocations, which never overlap.\<close>

definition ptr_copy_from :: "'a cells \<Rightarrow> nat \<Rightarrow> 'a cells \<Rightarrow> nat \<Rightarrow> nat \<Rightarrow> 'a cells outcome" where
  "ptr_copy_from from src b dst n =
     (if src + n \<le> length from \<and> dst + n \<le> length b
      then Ret (take dst b @ take n (drop src from) @ drop (dst + n) b) else UB)"

text \<open>Dropping a slice in place drops its elements from the first to the last; an unwinding destructor
  does not keep the others from being dropped.\<close>

fun drop_slice :: "'a cells \<Rightarrow> nat \<Rightarrow> nat \<Rightarrow> ('a cells \<times> 'a list) outcome" where
  "drop_slice b off 0 = Ret (b, [])"
| "drop_slice b off (Suc n) =
     and_then (ptr_read b off) (\<lambda>x.
       and_then (drop_slice (b[off := None]) (Suc off) n) (\<lambda>(b, d). Ret (b, x # d)))"

section \<open>The vector\<close>

record 'a vec =
  v_buf :: "'a cells"
  v_len :: nat

datatype 'v exit = Finished 'v | Unwinding 'v

definition vec_with_capacity :: "allocator \<Rightarrow> layout \<Rightarrow> nat \<Rightarrow> 'a vec outcome" where
  "vec_with_capacity al el n = and_then (raw_with_capacity_in al el n) (\<lambda>b. Ret \<lparr>v_buf = b, v_len = 0\<rparr>)"

definition vec_reserve :: "allocator \<Rightarrow> layout \<Rightarrow> 'a vec \<Rightarrow> nat \<Rightarrow> 'a vec outcome" where
  "vec_reserve al el v additional =
     and_then (raw_reserve al el (v_buf v) (v_len v) additional) (\<lambda>b. Ret (v\<lparr>v_buf := b\<rparr>))"

text \<open>The unsafe \<open>set_len\<close> requires a length within the capacity.\<close>

definition set_len :: "layout \<Rightarrow> 'a vec \<Rightarrow> nat \<Rightarrow> 'a vec outcome" where
  "set_len el v n = (if n \<le> capacity el (v_buf v) then Ret (v\<lparr>v_len := n\<rparr>) else UB)"

definition vec_truncate :: "'a vec \<Rightarrow> nat \<Rightarrow> ('a list \<times> 'a vec) outcome" where
  "vec_truncate v n =
     (if n > v_len v then Ret ([], v)
      else and_then (drop_slice (v_buf v) n (v_len v - n)) (\<lambda>(b, d). Ret (d, \<lparr>v_buf = b, v_len = n\<rparr>)))"

definition vec_clear :: "'a vec \<Rightarrow> ('a list \<times> 'a vec) outcome" where
  "vec_clear v = and_then (drop_slice (v_buf v) 0 (v_len v)) (\<lambda>(b, d). Ret (d, \<lparr>v_buf = b, v_len = 0\<rparr>))"

definition vec_swap_remove :: "layout \<Rightarrow> 'a vec \<Rightarrow> nat \<Rightarrow> ('a \<times> 'a vec) outcome" where
  "vec_swap_remove el v i =
     (if i \<ge> v_len v then Panic
      else and_then (ptr_read (v_buf v) i) (\<lambda>x.
        and_then (ptr_copy (v_buf v) (v_len v - 1) i 1) (\<lambda>b.
          and_then (set_len el (v\<lparr>v_buf := b\<rparr>) (v_len v - 1)) (\<lambda>v. Ret (x, v)))))"

text \<open>The test that opens \<open>push\<close> and \<open>insert\<close>.\<close>

definition grow_if_full :: "allocator \<Rightarrow> layout \<Rightarrow> 'a cells \<Rightarrow> nat \<Rightarrow> 'a cells outcome" where
  "grow_if_full al el b len = (if len = capacity el b then raw_grow_one al el b else Ret b)"

definition vec_insert :: "allocator \<Rightarrow> layout \<Rightarrow> 'a vec \<Rightarrow> nat \<Rightarrow> 'a \<Rightarrow> 'a vec outcome" where
  "vec_insert al el v i x =
     (if i > v_len v then Panic
      else and_then (grow_if_full al el (v_buf v) (v_len v)) (\<lambda>b.
        and_then (if i < v_len v then ptr_copy b i (i + 1) (v_len v - i) else Ret b) (\<lambda>b.
          and_then (ptr_write b i x) (\<lambda>b. set_len el (v\<lparr>v_buf := b\<rparr>) (v_len v + 1)))))"

definition vec_remove :: "layout \<Rightarrow> 'a vec \<Rightarrow> nat \<Rightarrow> ('a \<times> 'a vec) outcome" where
  "vec_remove el v i =
     (if i \<ge> v_len v then Panic
      else and_then (ptr_read (v_buf v) i) (\<lambda>x.
        and_then (ptr_copy (v_buf v) (i + 1) i (v_len v - i - 1)) (\<lambda>b.
          and_then (set_len el (v\<lparr>v_buf := b\<rparr>) (v_len v - 1)) (\<lambda>v. Ret (x, v)))))"

definition vec_push :: "allocator \<Rightarrow> layout \<Rightarrow> 'a vec \<Rightarrow> 'a \<Rightarrow> 'a vec outcome" where
  "vec_push al el v x =
     and_then (grow_if_full al el (v_buf v) (v_len v)) (\<lambda>b.
       and_then (ptr_write b (v_len v) x) (\<lambda>b. Ret \<lparr>v_buf = b, v_len = v_len v + 1\<rparr>))"

definition vec_push_within_capacity :: "layout \<Rightarrow> 'a vec \<Rightarrow> 'a \<Rightarrow> (('a + unit) \<times> 'a vec) outcome" where
  "vec_push_within_capacity el v x =
     (if v_len v = capacity el (v_buf v) then Ret (Inl x, v)
      else and_then (ptr_write (v_buf v) (v_len v) x) (\<lambda>b. Ret (Inr (), \<lparr>v_buf = b, v_len = v_len v + 1\<rparr>)))"

definition vec_pop :: "layout \<Rightarrow> 'a vec \<Rightarrow> ('a option \<times> 'a vec) outcome" where
  "vec_pop el v =
     (if v_len v = 0 then Ret (None, v)
      else assert_unchecked (v_len v - 1 < capacity el (v_buf v))
        (and_then (ptr_read (v_buf v) (v_len v - 1)) (\<lambda>x. Ret (Some x, v\<lparr>v_len := v_len v - 1\<rparr>))))"

text \<open>The predicate of \<open>pop_if\<close> may change the last element, and may panic.\<close>

definition vec_pop_if :: "layout \<Rightarrow> 'a vec \<Rightarrow> ('a \<Rightarrow> ('a \<times> bool) outcome) \<Rightarrow> ('a option \<times> 'a vec) outcome" where
  "vec_pop_if el v f =
     (if v_len v = 0 then Ret (None, v)
      else and_then (ptr_read (v_buf v) (v_len v - 1)) (\<lambda>x. and_then (f x) (\<lambda>(x, r).
        and_then (ptr_write (v_buf v) (v_len v - 1) x) (\<lambda>b.
          if r then vec_pop el (v\<lparr>v_buf := b\<rparr>) else Ret (None, v\<lparr>v_buf := b\<rparr>)))))"

text \<open>The elements appended are the first \<open>n\<close> of another allocation.\<close>

definition vec_append_elements :: "allocator \<Rightarrow> layout \<Rightarrow> 'a vec \<Rightarrow> 'a cells \<Rightarrow> nat \<Rightarrow> 'a vec outcome" where
  "vec_append_elements al el v other n =
     and_then (vec_reserve al el v n) (\<lambda>v.
       and_then (ptr_copy_from other 0 (v_buf v) (v_len v) n) (\<lambda>b. Ret \<lparr>v_buf = b, v_len = v_len v + n\<rparr>))"

definition vec_append :: "allocator \<Rightarrow> layout \<Rightarrow> 'a vec \<Rightarrow> 'a vec \<Rightarrow> ('a vec \<times> 'a vec) outcome" where
  "vec_append al el v other =
     and_then (vec_append_elements al el v (v_buf other) (v_len other)) (\<lambda>v.
       and_then (set_len el other 0) (\<lambda>other. Ret (v, other)))"

definition vec_split_off :: "allocator \<Rightarrow> layout \<Rightarrow> 'a vec \<Rightarrow> nat \<Rightarrow> ('a vec \<times> 'a vec) outcome" where
  "vec_split_off al el v at =
     (if at > v_len v then Panic
      else and_then (vec_with_capacity al el (v_len v - at)) (\<lambda>other.
        and_then (set_len el v at) (\<lambda>v'.
          and_then (set_len el other (v_len v - at)) (\<lambda>other.
            and_then (ptr_copy_from (v_buf v') at (v_buf other) 0 (v_len other)) (\<lambda>b.
              Ret (v', other\<lparr>v_buf := b\<rparr>))))))"

text \<open>A call that may unwind leaves the vector as it was before the call.\<close>

definition or_unwind :: "'v \<Rightarrow> 'b outcome \<Rightarrow> ('b \<Rightarrow> 'v exit outcome) \<Rightarrow> 'v exit outcome" where
  "or_unwind v m k = (case m of Ret x \<Rightarrow> k x | Panic \<Rightarrow> Ret (Unwinding v) | UB \<Rightarrow> UB)"

text \<open>The next free cell is written and the guard's length counts it.\<close>

definition write_next :: "'a vec \<Rightarrow> 'a \<Rightarrow> 'a vec outcome" where
  "write_next v x = and_then (ptr_write (v_buf v) (v_len v) x) (\<lambda>b. Ret \<lparr>v_buf = b, v_len = v_len v + 1\<rparr>)"

text \<open>The argument \<open>clone\<close> gives the value of each call of \<open>clone()\<close>, \<open>None\<close>
  where the call panics.\<close>

fun write_clones :: "(nat \<Rightarrow> 'a \<Rightarrow> 'a option) \<Rightarrow> nat \<Rightarrow> nat \<Rightarrow> 'a \<Rightarrow> 'a vec \<Rightarrow> 'a vec exit outcome" where
  "write_clones clone k 0 x v = Ret (Finished v)"
| "write_clones clone k (Suc n) x v =
     (case clone k x of
        None \<Rightarrow> Ret (Unwinding v)
      | Some y \<Rightarrow> and_then (write_next v y) (write_clones clone (Suc k) n x))"

definition vec_extend_with ::
  "allocator \<Rightarrow> layout \<Rightarrow> (nat \<Rightarrow> 'a \<Rightarrow> 'a option) \<Rightarrow> 'a vec \<Rightarrow> nat \<Rightarrow> 'a \<Rightarrow> 'a vec exit outcome" where
  "vec_extend_with al el clone v n x =
     or_unwind v (vec_reserve al el v n) (\<lambda>v.
       and_then (write_clones clone 0 (n - 1) x v) (\<lambda>e. case e of
         Unwinding v \<Rightarrow> Ret (Unwinding v)
       | Finished v \<Rightarrow> if n > 0 then and_then (write_next v x) (\<lambda>v. Ret (Finished v)) else Ret (Finished v)))"

definition vec_resize ::
  "allocator \<Rightarrow> layout \<Rightarrow> (nat \<Rightarrow> 'a \<Rightarrow> 'a option) \<Rightarrow> 'a vec \<Rightarrow> nat \<Rightarrow> 'a \<Rightarrow> 'a vec exit outcome" where
  "vec_resize al el clone v n x =
     (if n > v_len v then vec_extend_with al el clone v (n - v_len v) x
      else and_then (vec_truncate v n) (\<lambda>(d, v). Ret (Finished v)))"

text \<open>An iterator is the list of its items, \<open>None\<close> for a call of \<open>next\<close> that panics; its lower
  size hint is any function of what is left of it.\<close>

definition usize_saturating_add :: "nat \<Rightarrow> nat \<Rightarrow> nat" where
  "usize_saturating_add a b = min (a + b) (usize_bound - 1)"

fun vec_extend_desugared ::
  "allocator \<Rightarrow> layout \<Rightarrow> ('a option list \<Rightarrow> nat) \<Rightarrow> 'a option list \<Rightarrow> 'a vec \<Rightarrow> 'a vec exit outcome" where
  "vec_extend_desugared al el hint [] v = Ret (Finished v)"
| "vec_extend_desugared al el hint (None # items) v = Ret (Unwinding v)"
| "vec_extend_desugared al el hint (Some x # items) v =
     or_unwind v
       (if v_len v = capacity el (v_buf v) then vec_reserve al el v (usize_saturating_add (hint items) 1) else Ret v)
       (\<lambda>v. and_then (ptr_write (v_buf v) (v_len v) x) (\<lambda>b.
          and_then (set_len el (v\<lparr>v_buf := b\<rparr>) (v_len v + 1)) (vec_extend_desugared al el hint items)))"

fun write_items :: "'a option list \<Rightarrow> 'a vec \<Rightarrow> 'a vec exit outcome" where
  "write_items [] v = Ret (Finished v)"
| "write_items (None # items) v = Ret (Unwinding v)"
| "write_items (Some x # items) v = and_then (write_next v x) (write_items items)"

definition vec_extend_trusted ::
  "allocator \<Rightarrow> layout \<Rightarrow> nat option \<Rightarrow> 'a option list \<Rightarrow> 'a vec \<Rightarrow> 'a vec exit outcome" where
  "vec_extend_trusted al el high items v =
     (case high of
        Some additional \<Rightarrow> or_unwind v (vec_reserve al el v additional) (write_items items)
      | None \<Rightarrow> Ret (Unwinding v))"

section \<open>Buffers in segments\<close>

text \<open>The lemmas describe a buffer as the concatenation of its segments; each primitive rewrites one.\<close>

lemma ptr_read_segment [simp]: "length A = i \<Longrightarrow> ptr_read (A @ Some x # R) i = Ret x"
  by (auto simp: ptr_read_def nth_append)

lemma ptr_write_segment [simp]: "length A = i \<Longrightarrow> ptr_write (A @ c # R) i x = Ret (A @ Some x # R)"
  by (auto simp: ptr_write_def list_update_append)

lemma mem_move_segment:
  "length A = dst \<Longrightarrow> length A + length H = src \<Longrightarrow> length Y = n \<Longrightarrow>
     mem_move (A @ H @ Y @ R) src dst n = A @ Y @ drop n (H @ Y) @ R"
  by (auto simp: mem_move_def)

lemma ptr_copy_down:
  "length A = dst \<Longrightarrow> length A + length H = src \<Longrightarrow> length Y = n \<Longrightarrow>
     ptr_copy (A @ H @ Y @ R) src dst n = Ret (A @ Y @ drop n (H @ Y) @ R)"
  by (simp add: ptr_copy_def mem_move_segment)

lemma ptr_copy_up_one:
  "length A = i \<Longrightarrow> length Y = n \<Longrightarrow>
     ptr_copy (A @ Y @ c # R) i (Suc i) n = Ret (A @ take 1 (Y @ [c]) @ Y @ R)"
  by (cases Y) (auto simp: ptr_copy_def mem_move_def)

lemma ptr_copy_from_segment:
  "length S = src \<Longrightarrow> length A = dst \<Longrightarrow> length Y = n \<Longrightarrow> length H = n \<Longrightarrow>
     ptr_copy_from (S @ Y @ T) src (A @ H @ R) dst n = Ret (A @ Y @ R)"
  by (auto simp: ptr_copy_from_def)

lemma drop_slice_segment:
  "length A = i \<Longrightarrow> length xs = n \<Longrightarrow>
     drop_slice (A @ map Some xs @ R) i n = Ret (A @ replicate n None @ R, xs)"
proof (induction xs arbitrary: A i n)
  case (Cons x xs)
  have "drop_slice ((A @ [None]) @ map Some xs @ R) (Suc i) (length xs)
      = Ret ((A @ [None]) @ replicate (length xs) None @ R, xs)"
    using Cons by (intro Cons.IH) auto
  then show ?case using Cons.prems by (auto simp: list_update_append)
qed simp

section \<open>The invariant\<close>

text \<open>A vector represents a list: its buffer is a valid allocation and its first cells, as many as its
  length says, hold the elements.\<close>

definition vec_rep :: "layout \<Rightarrow> 'a list \<Rightarrow> 'a vec \<Rightarrow> bool" where
  "vec_rep el xs v \<longleftrightarrow> raw_ok el (v_buf v) \<and> l_size el \<noteq> 0 \<and> v_len v = length xs
     \<and> take (length xs) (v_buf v) = map Some xs"

lemma vec_rep_iff:
  "vec_rep el xs v \<longleftrightarrow> raw_ok el (v_buf v) \<and> l_size el \<noteq> 0 \<and> v_len v = length xs
     \<and> (\<exists>R. v_buf v = map Some xs @ R)"
proof -
  have "take (length xs) b = map Some xs \<longleftrightarrow> (\<exists>R. b = map Some xs @ R)" for b :: "'a cells"
    by (metis append_eq_conv_conj append_take_drop_id length_map)
  then show ?thesis by (simp add: vec_rep_def)
qed

lemma vec_repE:
  assumes "vec_rep el xs v"
  obtains R where "v = \<lparr>v_buf = map Some xs @ R, v_len = length xs\<rparr>" "raw_ok el (map Some xs @ R)" "l_size el \<noteq> 0"
  using assms by (cases v) (auto simp: vec_rep_iff)

lemma vec_repI [intro]:
  "raw_ok el (map Some xs @ R) \<Longrightarrow> l_size el \<noteq> 0 \<Longrightarrow> n = length xs \<Longrightarrow>
     vec_rep el xs \<lparr>v_buf = map Some xs @ R, v_len = n\<rparr>"
  by (auto simp: vec_rep_iff)

lemma raw_ok_same_length: "raw_ok el b \<Longrightarrow> length b' = length b \<Longrightarrow> raw_ok el b'"
  by (simp add: raw_ok_def)

lemma vec_rep_length_bound: "vec_rep el xs v \<Longrightarrow> length xs < usize_bound"
  using raw_ok_length [of el "v_buf v"] by (fastforce simp: vec_rep_iff usize_bound_def isize_bound_def)

lemma set_len_Ret [simp]:
  "l_size el \<noteq> 0 \<Longrightarrow> n \<le> length (v_buf v) \<Longrightarrow> set_len el v n = Ret (v\<lparr>v_len := n\<rparr>)"
  by (simp add: set_len_def capacity_def)

lemma vec_reserve_cases:
  assumes "vec_rep el xs v"
  obtains R where "has_room al el (v_buf v) (length xs + n)"
      "vec_reserve al el v n = Ret \<lparr>v_buf = map Some xs @ R, v_len = length xs\<rparr>" "raw_ok el (map Some xs @ R)" "n \<le> length R"
    | "\<not> has_room al el (v_buf v) (length xs + n)" "vec_reserve al el v n = Panic"
proof -
  from assms obtain R where v: "v = \<lparr>v_buf = map Some xs @ R, v_len = length xs\<rparr>"
    and ok: "raw_ok el (map Some xs @ R)" "l_size el \<noteq> 0" by (rule vec_repE)
  have pre: "raw_ok el (map Some xs @ R) \<and> l_size el \<noteq> 0 \<and> length xs \<le> length (map Some xs @ R)" using ok by simp
  show ?thesis
  proof (cases rule: reserve.grow_cases [OF pre, of al n])
    case (1 k)
    then show ?thesis using v that(1) [of "R @ replicate k None"] by (simp add: vec_reserve_def)
  next
    case 2
    then show ?thesis using v that(2) by (simp add: vec_reserve_def)
  qed
qed

lemma grow_if_full_cases:
  assumes "raw_ok el (map Some xs @ R)" "l_size el \<noteq> 0"
  obtains c R' where "has_room al el (map Some xs @ R) (Suc (length xs))"
      "grow_if_full al el (map Some xs @ R) (length xs) = Ret (map Some xs @ c # R')" "raw_ok el (map Some xs @ c # R')"
    | "\<not> has_room al el (map Some xs @ R) (Suc (length xs))" "grow_if_full al el (map Some xs @ R) (length xs) = Panic"
proof (cases R)
  case Nil
  have pre: "raw_ok el (map Some xs @ R) \<and> l_size el \<noteq> 0" using assms by simp
  show ?thesis
  proof (cases rule: grow_one.grow_cases [OF pre, of al])
    case (1 n)
    then obtain k where "n = Suc k" by (cases n) auto
    with 1 Nil assms(2) show ?thesis using that(1) [of None "replicate k None"] by (simp add: grow_if_full_def capacity_def)
  next
    case 2
    with Nil assms(2) show ?thesis using that(2) by (simp add: grow_if_full_def capacity_def)
  qed
next
  case (Cons c R')
  with assms show ?thesis using that(1) [of c R'] by (simp add: grow_if_full_def capacity_def has_room_def)
qed

section \<open>Behaviour of the operations\<close>

lemma vec_with_capacity_rep:
  assumes "elem_ok el" "l_size el \<noteq> 0"
  shows "if n = 0 \<or> granted al el n
    then vec_with_capacity al el n = Ret \<lparr>v_buf = replicate n (None :: 'a option), v_len = 0\<rparr> \<and> raw_ok el (replicate n (None :: 'a option))
    else vec_with_capacity al el n = (Panic :: 'a vec outcome)"
  using raw_with_capacity_exactly(1) [OF assms, of n al, where ?'a = 'a] raw_with_capacity_exactly(2) [OF assms, of al n, where ?'a = 'a]
  by (auto simp: vec_with_capacity_def)

lemma vec_push_rep:
  assumes "vec_rep el xs v"
  shows "if has_room al el (v_buf v) (Suc (length xs)) then \<exists>v'. vec_push al el v x = Ret v' \<and> vec_rep el (xs @ [x]) v'
    else vec_push al el v x = Panic"
proof -
  from assms obtain R where v: "v = \<lparr>v_buf = map Some xs @ R, v_len = length xs\<rparr>"
    and ok: "raw_ok el (map Some xs @ R)" "l_size el \<noteq> 0" by (rule vec_repE)
  show ?thesis
  proof (rule grow_if_full_cases [OF ok, of al])
    fix c R'
    assume h: "has_room al el (map Some xs @ R) (Suc (length xs))"
      and g: "grow_if_full al el (map Some xs @ R) (length xs) = Ret (map Some xs @ c # R')" and ok': "raw_ok el (map Some xs @ c # R')"
    have "raw_ok el (map Some (xs @ [x]) @ R')" by (rule raw_ok_same_length [OF ok']) simp
    then have "vec_rep el (xs @ [x]) \<lparr>v_buf = map Some (xs @ [x]) @ R', v_len = length xs + 1\<rparr>"
      using ok(2) by (intro vec_repI) auto
    with h g v show ?thesis by (simp add: vec_push_def)
  qed (use v in \<open>simp add: vec_push_def\<close>)
qed

lemma vec_insert_rep:
  assumes "vec_rep el xs v" "i \<le> length xs"
  shows "if has_room al el (v_buf v) (Suc (length xs))
    then \<exists>v'. vec_insert al el v i x = Ret v' \<and> vec_rep el (take i xs @ x # drop i xs) v' else vec_insert al el v i x = Panic"
proof -
  let ?A = "map Some (take i xs)" and ?Y = "map Some (drop i xs)"
  from assms obtain R where v: "v = \<lparr>v_buf = map Some xs @ R, v_len = length xs\<rparr>"
    and ok: "raw_ok el (map Some xs @ R)" "l_size el \<noteq> 0" by (rule_tac vec_repE)
  show ?thesis
  proof (rule grow_if_full_cases [OF ok, of al])
    fix c R'
    assume h: "has_room al el (map Some xs @ R) (Suc (length xs))"
      and g: "grow_if_full al el (map Some xs @ R) (length xs) = Ret (map Some xs @ c # R')" and ok': "raw_ok el (map Some xs @ c # R')"
    have s: "map Some xs @ c # R' = ?A @ ?Y @ c # R'"
      by (metis append_assoc append_take_drop_id map_append)
    have p: "(if i < length xs then ptr_copy (?A @ ?Y @ c # R') i (Suc i) (length xs - i) else Ret (?A @ ?Y @ c # R'))
        = Ret (?A @ take 1 (?Y @ [c]) @ ?Y @ R')"
      using assms(2) ptr_copy_up_one [of ?A i ?Y "length xs - i" c R'] by auto
    have "raw_ok el (map Some (take i xs @ x # drop i xs) @ R')"
      by (rule raw_ok_same_length [OF ok']) (use assms(2) in simp)
    then have "vec_rep el (take i xs @ x # drop i xs) \<lparr>v_buf = map Some (take i xs @ x # drop i xs) @ R', v_len = Suc (length xs)\<rparr>"
      using ok(2) assms(2) by (intro vec_repI) auto
    moreover obtain c' where "take 1 (?Y @ [c]) = [c']" by (cases ?Y) auto
    ultimately show ?thesis using h g v ok(2) assms(2) p unfolding s by (auto simp: vec_insert_def)
  qed (use v assms(2) in \<open>simp add: vec_insert_def\<close>)
qed

lemma vec_remove_rep:
  assumes "vec_rep el xs v" "i < length xs"
  shows "\<exists>v'. vec_remove el v i = Ret (xs ! i, v') \<and> vec_rep el (take i xs @ drop (Suc i) xs) v'"
proof -
  let ?A = "map Some (take i xs)" and ?Y = "map Some (drop (Suc i) xs)"
  from assms obtain R where v: "v = \<lparr>v_buf = map Some xs @ R, v_len = length xs\<rparr>"
    and ok: "raw_ok el (map Some xs @ R)" "l_size el \<noteq> 0" by (rule_tac vec_repE)
  have s: "map Some xs @ R = ?A @ Some (xs ! i) # ?Y @ R"
    using arg_cong [OF id_take_nth_drop [OF assms(2)], of "map Some"] by simp
  have c: "ptr_copy (?A @ Some (xs ! i) # ?Y @ R) (Suc i) i (length xs - Suc i)
      = Ret (?A @ ?Y @ drop (length xs - Suc i) (Some (xs ! i) # ?Y) @ R)"
    using ptr_copy_down [of ?A i "[Some (xs ! i)]" "Suc i" ?Y "length xs - Suc i" R] assms(2) by simp
  have "raw_ok el (map Some (take i xs @ drop (Suc i) xs) @ drop (length xs - Suc i) (Some (xs ! i) # ?Y) @ R)"
    by (rule raw_ok_same_length [OF ok(1)]) (use assms(2) in simp)
  then have "vec_rep el (take i xs @ drop (Suc i) xs) \<lparr>v_buf = map Some (take i xs @ drop (Suc i) xs)
      @ drop (length xs - Suc i) (Some (xs ! i) # ?Y) @ R, v_len = length xs - Suc 0\<rparr>"
    using ok(2) assms(2) by (intro vec_repI) auto
  then show ?thesis using v ok(2) assms(2) c unfolding s by (auto simp: vec_remove_def)
qed

lemma vec_swap_remove_rep:
  assumes "vec_rep el xs v" "i < length xs"
  shows "\<exists>v'. vec_swap_remove el v i = Ret (xs ! i, v') \<and> vec_rep el (butlast (xs[i := last xs])) v'"
proof -
  from assms obtain R where v: "v = \<lparr>v_buf = map Some xs @ R, v_len = length xs\<rparr>"
    and ok: "raw_ok el (map Some xs @ R)" "l_size el \<noteq> 0" by (rule_tac vec_repE)
  obtain ys y where xs: "xs = ys @ [y]" using assms(2) by (cases xs rule: rev_cases) auto
  have m: "mem_move (map Some xs @ R) (length ys) i 1 = (map Some xs @ R)[i := Some y]"
  proof (rule nth_equalityI)
    fix j assume "j < length (mem_move (map Some xs @ R) (length ys) i 1)"
    then show "mem_move (map Some xs @ R) (length ys) i 1 ! j = (map Some xs @ R)[i := Some y] ! j"
      using assms(2) xs by (auto simp: nth_mem_move nth_list_update nth_append le_antisym)
  qed (use assms(2) xs in simp)
  have r: "ptr_read (map Some xs @ R) i = Ret (xs ! i)"
    using assms(2) by (simp add: ptr_read_def nth_append)
  have u: "(map Some xs @ R)[i := Some y] = map Some (butlast (xs[i := y])) @ Some (if i = length ys then y else y) # R"
    using assms(2) xs by (auto simp: list_update_append map_update split: nat.split)
  have "raw_ok el (map Some (butlast (xs[i := y])) @ Some y # R)"
    by (rule raw_ok_same_length [OF ok(1)]) (use assms(2) in simp)
  then have "vec_rep el (butlast (xs[i := y])) \<lparr>v_buf = map Some (butlast (xs[i := y])) @ Some y # R, v_len = length xs - 1\<rparr>"
    using ok(2) by (intro vec_repI) auto
  then show ?thesis using v r m u assms(2) xs ok(2)
    by (auto simp: vec_swap_remove_def ptr_copy_def)
qed

lemma vec_pop_rep:
  assumes "vec_rep el xs v"
  shows "\<exists>v'. vec_pop el v = Ret (if xs = [] then None else Some (last xs), v') \<and> vec_rep el (butlast xs) v'"
proof -
  from assms obtain R where v: "v = \<lparr>v_buf = map Some xs @ R, v_len = length xs\<rparr>"
    and ok: "raw_ok el (map Some xs @ R)" "l_size el \<noteq> 0" by (rule vec_repE)
  show ?thesis
  proof (cases xs rule: rev_cases)
    case (snoc ys y)
    then have "vec_rep el ys \<lparr>v_buf = map Some ys @ Some y # R, v_len = length ys\<rparr>" using ok by (intro vec_repI) auto
    then show ?thesis using snoc v ok by (auto simp: vec_pop_def assert_unchecked_def capacity_def)
  qed (use assms v in \<open>simp add: vec_pop_def\<close>)
qed

lemma vec_truncate_rep:
  assumes "vec_rep el xs v"
  shows "\<exists>v'. vec_truncate v n = Ret (drop n xs, v') \<and> vec_rep el (take n xs) v'"
proof (cases "length xs < n")
  case False
  from assms obtain R where v: "v = \<lparr>v_buf = map Some xs @ R, v_len = length xs\<rparr>"
    and ok: "raw_ok el (map Some xs @ R)" "l_size el \<noteq> 0" by (rule vec_repE)
  have s: "map Some xs @ R = map Some (take n xs) @ map Some (drop n xs) @ R"
    by (metis append_assoc append_take_drop_id map_append)
  have "raw_ok el (map Some (take n xs) @ replicate (length xs - n) None @ R)"
    by (rule raw_ok_same_length [OF ok(1)]) (use False in simp)
  then have "vec_rep el (take n xs) \<lparr>v_buf = map Some (take n xs) @ replicate (length xs - n) None @ R, v_len = n\<rparr>"
    using ok(2) False by (intro vec_repI) auto
  then show ?thesis using v False unfolding s
    by (auto simp: vec_truncate_def drop_slice_segment)
qed (use assms in \<open>auto simp: vec_truncate_def vec_rep_def\<close>)

lemma vec_clear_rep:
  assumes "vec_rep el xs v"
  shows "\<exists>v'. vec_clear v = Ret (xs, v') \<and> vec_rep el [] v'"
  using vec_truncate_rep [OF assms, of 0] by (simp add: vec_truncate_def vec_clear_def)

lemma vec_push_within_capacity_rep:
  assumes "vec_rep el xs v"
  shows "if v_len v = length (v_buf v) then vec_push_within_capacity el v x = Ret (Inl x, v)
    else \<exists>v'. vec_push_within_capacity el v x = Ret (Inr (), v') \<and> vec_rep el (xs @ [x]) v'"
proof (cases "v_len v = length (v_buf v)")
  case False
  with assms have "has_room (\<lambda>_. True) el (v_buf v) (Suc (length xs))" by (auto simp: vec_rep_iff has_room_def Suc_le_eq)
  then show ?thesis using False vec_push_rep [OF assms, of "\<lambda>_. True" x] assms
    by (auto simp: vec_push_within_capacity_def vec_push_def grow_if_full_def capacity_def vec_rep_def outcome_simps)
qed (use assms in \<open>simp add: vec_push_within_capacity_def capacity_def vec_rep_def\<close>)

lemma vec_pop_if_rep:
  assumes "vec_rep el xs v"
  shows "if xs = [] then vec_pop_if el v f = Ret (None, v)
    else case f (last xs) of
        Ret (x, True) \<Rightarrow> \<exists>v'. vec_pop_if el v f = Ret (Some x, v') \<and> vec_rep el (butlast xs) v'
      | Ret (x, False) \<Rightarrow> \<exists>v'. vec_pop_if el v f = Ret (None, v') \<and> vec_rep el (butlast xs @ [x]) v'
      | r \<Rightarrow> vec_pop_if el v f = and_then r (\<lambda>_. UB)"
proof -
  from assms obtain R where v: "v = \<lparr>v_buf = map Some xs @ R, v_len = length xs\<rparr>"
    and ok: "raw_ok el (map Some xs @ R)" "l_size el \<noteq> 0" by (rule vec_repE)
  show ?thesis
  proof (cases xs rule: rev_cases)
    case (snoc ys y)
    have rep: "vec_rep el (ys @ [x]) \<lparr>v_buf = map Some ys @ Some x # R, v_len = Suc (length ys)\<rparr>" for x
      using vec_repI [of el "ys @ [x]" R] raw_ok_same_length [OF ok(1), of "map Some (ys @ [x]) @ R"] snoc ok(2) by simp
    show ?thesis
    proof (cases "f y")
      case (Ret p)
      obtain x r where "p = (x, r)" by force
      with Ret snoc v rep [of x] vec_pop_rep [OF rep [of x]] show ?thesis by (cases r) (simp_all add: vec_pop_if_def)
    qed (use snoc v in \<open>simp_all add: vec_pop_if_def\<close>)
  qed (use v in \<open>simp add: vec_pop_if_def\<close>)
qed

lemma vec_append_rep:
  assumes "vec_rep el xs v" "vec_rep el ys w"
  shows "if has_room al el (v_buf v) (length xs + length ys)
    then \<exists>v' w'. vec_append al el v w = Ret (v', w') \<and> vec_rep el (xs @ ys) v' \<and> vec_rep el [] w'
    else vec_append al el v w = Panic"
proof -
  from assms(2) obtain T where w: "w = \<lparr>v_buf = map Some ys @ T, v_len = length ys\<rparr>"
    and ok: "raw_ok el (map Some ys @ T)" "l_size el \<noteq> 0" by (rule vec_repE)
  show ?thesis
  proof (rule vec_reserve_cases [OF assms(1), of al "length ys"])
    fix R assume h: "has_room al el (v_buf v) (length xs + length ys)" and r: "vec_reserve al el v (length ys) = Ret \<lparr>v_buf = map Some xs @ R, v_len = length xs\<rparr>"
      "raw_ok el (map Some xs @ R)" "length ys \<le> length R"
    have "ptr_copy_from (map Some ys @ T) 0 (map Some xs @ R) (length xs) (length ys)
        = Ret (map Some (xs @ ys) @ drop (length ys) R)"
      using ptr_copy_from_segment [of "[]" 0 "map Some xs" "length xs" "map Some ys" "length ys"
          "take (length ys) R" T "drop (length ys) R"] r(3) by simp
    moreover have "vec_rep el (xs @ ys) \<lparr>v_buf = map Some (xs @ ys) @ drop (length ys) R, v_len = length xs + length ys\<rparr>"
      by (rule vec_repI) (use ok(2) r(3) in \<open>auto intro: raw_ok_same_length [OF r(2)]\<close>)
    moreover have "vec_rep el [] \<lparr>v_buf = map Some ys @ T, v_len = 0\<rparr>" using ok by (simp add: vec_rep_def)
    ultimately show ?thesis using h r(1) w ok(2) by (simp add: vec_append_def vec_append_elements_def)
  qed (use w in \<open>simp add: vec_append_def vec_append_elements_def\<close>)
qed

lemma vec_split_off_rep:
  assumes "vec_rep el xs v" "at \<le> length xs"
  shows "if at = length xs \<or> granted al el (length xs - at)
    then \<exists>v' w. vec_split_off al el v at = Ret (v', w) \<and> vec_rep el (take at xs) v' \<and> vec_rep el (drop at xs) w
    else vec_split_off al el v at = Panic"
proof -
  let ?n = "length xs - at"
  from assms(1) obtain R where v: "v = \<lparr>v_buf = map Some xs @ R, v_len = length xs\<rparr>"
    and ok: "raw_ok el (map Some xs @ R)" "l_size el \<noteq> 0" by (rule vec_repE)
  have s: "map Some xs @ R = map Some (take at xs) @ map Some (drop at xs) @ R"
    by (metis append_assoc append_take_drop_id map_append)
  have "elem_ok el" using ok(1) by (simp add: raw_ok_def)
  from vec_with_capacity_rep [OF this ok(2), of ?n al, where 'a = 'a] assms(2)
  consider "\<not> (at = length xs \<or> granted al el ?n)" "vec_with_capacity al el ?n = (Panic :: 'a vec outcome)"
    | "at = length xs \<or> granted al el ?n" "vec_with_capacity al el ?n = Ret \<lparr>v_buf = replicate ?n (None :: 'a option), v_len = 0\<rparr>"
      "raw_ok el (replicate ?n (None :: 'a option))"
    by (auto split: if_splits)
  then show ?thesis
  proof cases
    case 2
    have "ptr_copy_from (map Some xs @ R) at (replicate ?n None) 0 ?n = Ret (map Some (drop at xs) @ [])"
      using ptr_copy_from_segment [of "map Some (take at xs)" at "[]" 0 "map Some (drop at xs)" ?n "replicate ?n None" R "[]"]
        assms(2) unfolding s by simp
    moreover have "vec_rep el (drop at xs) \<lparr>v_buf = map Some (drop at xs) @ [], v_len = ?n\<rparr>"
      by (rule vec_repI) (use ok(2) in \<open>auto intro: raw_ok_same_length [OF 2(3)]\<close>)
    moreover have "vec_rep el (take at xs) \<lparr>v_buf = map Some xs @ R, v_len = at\<rparr>"
      using ok assms(2) by (simp add: vec_rep_def take_map)
    ultimately show ?thesis using 2(1,2) v ok(2) assms(2) by (simp add: vec_split_off_def)
  qed (use v assms(2) in \<open>simp add: vec_split_off_def\<close>)
qed

text \<open>What an iterator yields before it ends or panics, and how an extension may end: complete only if no
  call panicked; with all that was yielded if the iterator panicked; and otherwise with a prefix, the vector being full when the
  request for the next item, with what the size hint then says, was refused.\<close>

definition yielded :: "'a option list \<Rightarrow> 'a list" where
  "yielded items = map the (takeWhile (\<lambda>i. i \<noteq> None) items)"

definition extended :: "allocator \<Rightarrow> layout \<Rightarrow> ('a option list \<Rightarrow> nat) \<Rightarrow> 'a list \<Rightarrow> 'a option list \<Rightarrow> 'a vec exit \<Rightarrow> bool" where
  "extended al el hint xs items e = (case e of
     Finished v \<Rightarrow> None \<notin> set items \<and> vec_rep el (xs @ yielded items) v
   | Unwinding v \<Rightarrow> (None \<in> set items \<and> vec_rep el (xs @ yielded items) v)
       \<or> (\<exists>k < length (yielded items). vec_rep el (xs @ take k (yielded items)) v \<and> v_len v = length (v_buf v)
            \<and> \<not> granted al el (amortized el (v_buf v) (v_len v + usize_saturating_add (hint (drop (Suc k) items)) 1))))"

lemma yielded_simps [simp]:
  "yielded [] = []" "yielded (None # items) = []" "yielded (Some x # items) = x # yielded items"
  by (simp_all add: yielded_def)

lemma extended_Cons: "extended al el hint (xs @ [x]) items e \<Longrightarrow> extended al el hint xs (Some x # items) e"
proof (cases e)
  case (Unwinding v)
  assume e: "extended al el hint (xs @ [x]) items e"
  show ?thesis
  proof (cases "None \<in> set items \<and> vec_rep el ((xs @ [x]) @ yielded items) v")
    case False
    with e Unwinding obtain k where "k < length (yielded items)" "vec_rep el ((xs @ [x]) @ take k (yielded items)) v"
      "v_len v = length (v_buf v)"
      "\<not> granted al el (amortized el (v_buf v) (v_len v + usize_saturating_add (hint (drop (Suc k) items)) 1))"
      unfolding extended_def by auto
    then have "\<exists>k < length (yielded (Some x # items)). vec_rep el (xs @ take k (yielded (Some x # items))) v \<and> v_len v = length (v_buf v)
        \<and> \<not> granted al el (amortized el (v_buf v) (v_len v + usize_saturating_add (hint (drop (Suc k) (Some x # items))) 1))"
      by (intro exI [of _ "Suc k"]) simp
    with Unwinding show ?thesis unfolding extended_def by simp
  qed (use Unwinding in \<open>simp add: extended_def\<close>)
qed (auto simp: extended_def)

lemma vec_rep_write_next:
  assumes "vec_rep el xs v" "length xs < length (v_buf v)"
  obtains v' where "write_next v x = Ret v'" "vec_rep el (xs @ [x]) v'" "length (v_buf v') = length (v_buf v)"
proof -
  from assms(1) obtain R where v: "v = \<lparr>v_buf = map Some xs @ R, v_len = length xs\<rparr>"
    and ok: "raw_ok el (map Some xs @ R)" "l_size el \<noteq> 0" by (rule vec_repE)
  with assms(2) obtain c R' where R: "R = c # R'" by (cases R) auto
  have "vec_rep el (xs @ [x]) \<lparr>v_buf = map Some (xs @ [x]) @ R', v_len = Suc (length xs)\<rparr>"
    by (rule vec_repI) (use ok(2) R in \<open>auto intro: raw_ok_same_length [OF ok(1)]\<close>)
  then show ?thesis using that v R by (simp add: write_next_def)
qed

text \<open>With room for all items the end of the extension is determined.\<close>

lemma write_items_exact:
  assumes "vec_rep el xs v" "length xs + length items \<le> length (v_buf v)"
  shows "\<exists>v'. write_items items v = Ret (if None \<in> set items then Unwinding v' else Finished v')
    \<and> vec_rep el (xs @ yielded items) v'"
  using assms
proof (induction items v arbitrary: xs rule: write_items.induct)
  case (3 x items v)
  from "3.prems" obtain v' where v': "write_next v x = Ret v'" "vec_rep el (xs @ [x]) v'"
    "length (v_buf v') = length (v_buf v)" by (auto elim: vec_rep_write_next [of el xs v x])
  with "3.IH" [OF v'(1,2)] "3.prems" show ?case by (simp add: v'(1))
qed auto

lemma write_items_append:
  "write_items (a @ b) v = and_then (write_items a v) (\<lambda>e. case e of
     Unwinding v \<Rightarrow> Ret (Unwinding v) | Finished v \<Rightarrow> write_items b v)"
  by (induction a v rule: write_items.induct) (auto simp: and_then_assoc intro!: and_then_cong)

lemma write_clones_items: "write_clones clone k n x v = write_items (map (\<lambda>j. clone j x) [k..<k + n]) v"
proof (induction n arbitrary: k v)
  case (Suc n)
  have "map (\<lambda>j. clone j x) [k..<k + Suc n] = clone k x # map (\<lambda>j. clone j x) [Suc k..<Suc k + n]"
    by (simp add: upt_conv_Cons del: upt_Suc)
  then show ?case using Suc by (cases "clone k x") (auto simp del: upt_Suc intro!: and_then_cong)
qed simp

text \<open>The values \<open>extend_with\<close> writes: clones, and the value itself last.\<close>

definition clones :: "(nat \<Rightarrow> 'a \<Rightarrow> 'a option) \<Rightarrow> 'a \<Rightarrow> nat \<Rightarrow> 'a option list" where
  "clones clone x n = map (\<lambda>j. clone j x) [0..<n - 1] @ (if n > 0 then [Some x] else [])"

lemma length_clones [simp]: "length (clones clone x n) = n"
  by (simp add: clones_def)

lemma vec_extend_with_items:
  "vec_extend_with al el clone v n x
     = vec_extend_trusted al el (Some n) (clones clone x n) v"
proof -
  have "and_then (write_clones clone 0 (n - 1) x v) (\<lambda>e. case e of
         Unwinding v \<Rightarrow> Ret (Unwinding v)
       | Finished v \<Rightarrow> if n > 0 then and_then (write_next v x) (\<lambda>v. Ret (Finished v)) else Ret (Finished v))
     = write_items (clones clone x n) v" for v
  proof (cases "n > 0")
    case True
    then have "write_items (clones clone x n) v = and_then (write_clones clone 0 (n - 1) x v) (\<lambda>e. case e of
        Unwinding v \<Rightarrow> Ret (Unwinding v) | Finished v \<Rightarrow> write_items [Some x] v)"
      by (simp add: clones_def write_items_append write_clones_items)
    also have "(\<lambda>e. case e of Unwinding v \<Rightarrow> Ret (Unwinding v) | Finished v \<Rightarrow> write_items [Some x] v)
        = (\<lambda>e. case e of Unwinding v \<Rightarrow> Ret (Unwinding v)
            | Finished v \<Rightarrow> if n > 0 then and_then (write_next v x) (\<lambda>v. Ret (Finished v)) else Ret (Finished v))"
      using True by (auto simp: fun_eq_iff split: exit.split intro!: arg_cong [where f = "and_then _"])
    finally show ?thesis by simp
  qed (simp add: clones_def)
  then show ?thesis by (simp add: vec_extend_with_def vec_extend_trusted_def)
qed

lemma vec_extend_trusted_exact:
  assumes "vec_rep el xs v" "length items \<le> n"
  shows "if has_room al el (v_buf v) (length xs + n)
    then \<exists>v'. vec_extend_trusted al el (Some n) items v = Ret (if None \<in> set items then Unwinding v' else Finished v')
      \<and> vec_rep el (xs @ yielded items) v'
    else vec_extend_trusted al el (Some n) items v = Ret (Unwinding v)"
proof (rule vec_reserve_cases [OF assms(1), of al n])
  fix R assume h: "has_room al el (v_buf v) (length xs + n)"
    and r: "vec_reserve al el v n = Ret \<lparr>v_buf = map Some xs @ R, v_len = length xs\<rparr>" "raw_ok el (map Some xs @ R)" "n \<le> length R"
  have "vec_rep el xs \<lparr>v_buf = map Some xs @ R, v_len = length xs\<rparr>"
    by (rule vec_repI) (use r assms in \<open>auto simp: vec_rep_def\<close>)
  from write_items_exact [OF this, of items] h r assms(2)
  show ?thesis by (simp add: vec_extend_trusted_def or_unwind_def)
qed (simp add: vec_extend_trusted_def or_unwind_def)

text \<open>The same step written with \<open>set_len\<close>.\<close>

lemma vec_rep_write_set_len:
  assumes "vec_rep el xs v" "length xs < length (v_buf v)"
  obtains b v' where "ptr_write (v_buf v) (length xs) x = Ret b"
    "set_len el (v\<lparr>v_buf := b\<rparr>) (Suc (length xs)) = Ret v'" "vec_rep el (xs @ [x]) v'"
proof -
  obtain v' where v': "write_next v x = Ret v'" "vec_rep el (xs @ [x]) v'" "length (v_buf v') = length (v_buf v)"
    using vec_rep_write_next [OF assms] by metis
  then have "ptr_write (v_buf v) (length xs) x = Ret (v_buf v')" "v_len v' = Suc (length xs)"
    using assms(1) by (auto simp: write_next_def outcome_simps vec_rep_def)
  moreover have "set_len el (v\<lparr>v_buf := v_buf v'\<rparr>) (Suc (length xs)) = Ret v'"
    using assms v' calculation(2) by (cases v; cases v') (simp add: vec_rep_def)
  ultimately show ?thesis using that v'(2) by blast
qed

lemma vec_extend_desugared_extended:
  "vec_rep el xs v \<Longrightarrow> \<exists>e. vec_extend_desugared al el hint items v = Ret e \<and> extended al el hint xs items e"
proof (induction al el hint items v arbitrary: xs rule: vec_extend_desugared.induct)
  case (3 al el hint x items v)
  let ?n = "usize_saturating_add (hint items) 1"
  let ?m = "if v_len v = capacity el (v_buf v) then vec_reserve al el v ?n else Ret v"
  have pos: "1 \<le> ?n" by (simp add: usize_saturating_add_def usize_bound_def)
  have v: "v_len v = length xs" "l_size el \<noteq> 0" "length xs \<le> length (v_buf v)" using "3.prems" by (auto simp: vec_rep_iff)
  consider w where "?m = Ret w" "vec_rep el xs w" "length xs < length (v_buf w)"
    | "?m = Panic" "v_len v = length (v_buf v)" "\<not> has_room al el (v_buf v) (length xs + ?n)"
  proof (cases "v_len v = capacity el (v_buf v)")
    case True
    show ?thesis
    proof (rule vec_reserve_cases [OF "3.prems", of al ?n])
      fix R assume r: "vec_reserve al el v ?n = Ret \<lparr>v_buf = map Some xs @ R, v_len = length xs\<rparr>"
        "raw_ok el (map Some xs @ R)" "?n \<le> length R"
      then have "vec_rep el xs \<lparr>v_buf = map Some xs @ R, v_len = length xs\<rparr>" "R \<noteq> []" using v(2) pos by (auto simp: vec_repI)
      with r(1) show ?thesis using that(1) True by simp
    qed (use True v that(2) in \<open>simp add: capacity_def\<close>)
  next
    case False
    with "3.prems" v that(1) show ?thesis by (simp add: capacity_def)
  qed
  then show ?case
  proof cases
    case w: (1 w)
    have len: "v_len w = length xs" using w(2) by (simp add: vec_rep_def)
    obtain b w' where w': "ptr_write (v_buf w) (v_len w) x = Ret b"
      "set_len el (w\<lparr>v_buf := b\<rparr>) (v_len w + 1) = Ret w'" "vec_rep el (xs @ [x]) w'"
      using vec_rep_write_set_len [OF w(2,3), of x] len by auto
    then obtain e where "vec_extend_desugared al el hint items w' = Ret e" "extended al el hint (xs @ [x]) items e"
      using "3.IH" by blast
    with w(1) w' show ?thesis by (auto simp: or_unwind_def intro: extended_Cons)
  next
    case 2
    then have "extended al el hint xs (Some x # items) (Unwinding v)" using "3.prems" v(1)
      by (auto simp: extended_def has_room_def intro!: exI [of _ 0])
    with 2(1) show ?thesis by (simp add: or_unwind_def)
  qed
qed (auto simp: extended_def)

section \<open>Sequences of calls\<close>

text \<open>The calls of \<open>Vec\<close> that take and return single elements. A call's result is the list of the values that
  leave the vector, returned to the caller or dropped.\<close>

datatype 'a vec_call = Push 'a | Pop | Insert nat 'a | Remove nat | Swap_Remove nat | Truncate nat | Clear

fun vec_step :: "allocator \<Rightarrow> layout \<Rightarrow> 'a vec_call \<Rightarrow> 'a vec \<Rightarrow> ('a list \<times> 'a vec) outcome" where
  "vec_step al el (Push x) v = and_then (vec_push al el v x) (\<lambda>v. Ret ([], v))"
| "vec_step al el Pop v = and_then (vec_pop el v) (\<lambda>(r, v). Ret (case r of None \<Rightarrow> [] | Some x \<Rightarrow> [x], v))"
| "vec_step al el (Insert i x) v = and_then (vec_insert al el v i x) (\<lambda>v. Ret ([], v))"
| "vec_step al el (Remove i) v = and_then (vec_remove el v i) (\<lambda>(x, v). Ret ([x], v))"
| "vec_step al el (Swap_Remove i) v = and_then (vec_swap_remove el v i) (\<lambda>(x, v). Ret ([x], v))"
| "vec_step al el (Truncate n) v = vec_truncate v n"
| "vec_step al el Clear v = vec_clear v"

fun vec_spec :: "'a vec_call \<Rightarrow> 'a list \<Rightarrow> ('a list \<times> 'a list) option" where
  "vec_spec (Push x) xs = Some ([], xs @ [x])"
| "vec_spec Pop xs = Some (if xs = [] then [] else [last xs], butlast xs)"
| "vec_spec (Insert i x) xs = (if i \<le> length xs then Some ([], take i xs @ x # drop i xs) else None)"
| "vec_spec (Remove i) xs = (if i < length xs then Some ([xs ! i], take i xs @ drop (Suc i) xs) else None)"
| "vec_spec (Swap_Remove i) xs = (if i < length xs then Some ([xs ! i], butlast (xs[i := last xs])) else None)"
| "vec_spec (Truncate n) xs = Some (drop n xs, take n xs)"
| "vec_spec Clear xs = Some (xs, [])"

text \<open>The two calls that add an element are stuck when the vector is full and the larger buffer is no valid layout or
  refused by the allocator; no other call ever is.\<close>

fun vec_stuck :: "allocator \<Rightarrow> layout \<Rightarrow> 'a vec_call \<Rightarrow> 'a vec \<Rightarrow> bool" where
  "vec_stuck al el (Push x) v \<longleftrightarrow> v_len v = length (v_buf v) \<and> \<not> granted al el (amortized el (v_buf v) (Suc (v_len v)))"
| "vec_stuck al el (Insert i x) v \<longleftrightarrow> v_len v = length (v_buf v) \<and> \<not> granted al el (amortized el (v_buf v) (Suc (v_len v)))"
| "vec_stuck al el _ v \<longleftrightarrow> False"

lemma vec_step_refines:
  assumes "vec_rep el xs v"
  shows "refines (vec_rep el) (vec_stuck al el c v) (vec_step al el c v) (vec_spec c xs)"
proof -
  have len: "v_len v = length xs" using assms by (simp add: vec_rep_def)
  have "length xs \<le> length (v_buf v)" using assms by (auto simp: vec_rep_iff)
  then have room: "has_room al el (v_buf v) (Suc (length xs))
      \<longleftrightarrow> \<not> (v_len v = length (v_buf v) \<and> \<not> granted al el (amortized el (v_buf v) (Suc (v_len v))))"
    using len by (cases "length xs = length (v_buf v)") (auto simp: has_room_def)
  show ?thesis
  proof (cases c)
    case (Push x)
    then show ?thesis using vec_push_rep [OF assms, of al x] room by (auto simp: refines_def)
  next
    case Pop
    then show ?thesis using vec_pop_rep [OF assms] by (auto simp: refines_def)
  next
    case (Insert i x)
    then show ?thesis using vec_insert_rep [OF assms, of i al x] room len
      by (cases "i \<le> length xs") (auto simp: refines_def vec_insert_def [of al el v i])
  next
    case (Remove i)
    then show ?thesis using vec_remove_rep [OF assms, of i] len by (auto simp: refines_def vec_remove_def)
  next
    case (Swap_Remove i)
    then show ?thesis using vec_swap_remove_rep [OF assms, of i] len by (auto simp: refines_def vec_swap_remove_def)
  next
    case (Truncate n)
    then show ?thesis using vec_truncate_rep [OF assms, of n] by (auto simp: refines_def)
  next
    case Clear
    then show ?thesis using vec_clear_rep [OF assms] by (auto simp: refines_def)
  qed
qed

interpretation vec_machine: call_machine "vec_rep el" "vec_step al el" vec_spec "vec_stuck al el" for al el
  by unfold_locales (rule vec_step_refines)

text \<open>No value is lost or duplicated by the calls: what leaves the vector and what stays is what was there
  and what was pushed.\<close>

fun call_input :: "'a vec_call \<Rightarrow> 'a list" where
  "call_input (Push x) = [x]"
| "call_input (Insert i x) = [x]"
| "call_input _ = []"

lemma mset_swap_remove: "i < length xs \<Longrightarrow> add_mset (xs ! i) (mset (butlast (xs[i := last xs]))) = mset xs"
proof (cases xs rule: rev_cases)
  case (snoc ys y)
  assume i: "i < length xs"
  show ?thesis
  proof (cases "i < length ys")
    case True
    then show ?thesis using snoc by (simp add: list_update_append nth_append mset_update butlast_append)
  qed (use snoc i in \<open>auto simp: list_update_append nth_append less_Suc_eq\<close>)
qed simp

lemma vec_spec_conserves:
  "vec_spec c xs = Some (r, ys) \<Longrightarrow> mset r + mset ys = mset xs + mset (call_input c)"
proof (cases c)
  case (Insert i x)
  assume "vec_spec c xs = Some (r, ys)"
  moreover have "mset xs = mset (take i xs) + mset (drop i xs)" by (metis append_take_drop_id mset_append)
  ultimately show ?thesis using Insert by (auto split: if_splits)
next
  case (Remove i)
  assume "vec_spec c xs = Some (r, ys)"
  with Remove show ?thesis using arg_cong [OF id_take_nth_drop [of i xs], of mset] by (auto split: if_splits)
next
  case (Truncate n)
  assume "vec_spec c xs = Some (r, ys)"
  with Truncate show ?thesis by (simp, metis add.commute append_take_drop_id mset_append)
next
  case Pop
  assume "vec_spec c xs = Some (r, ys)"
  with Pop show ?thesis by (cases xs rule: rev_cases) auto
qed (auto simp: mset_swap_remove split: if_splits)

lemma vec_spec_run_conserves:
  "spec_calls vec_spec cs xs = Some (rs, ys) \<Longrightarrow>
     mset (concat rs) + mset ys = mset xs + mset (concat (map call_input cs))"
proof (induction cs arbitrary: xs rs)
  case (Cons c cs)
  then obtain r zs rs' where "vec_spec c xs = Some (r, zs)" "spec_calls vec_spec cs zs = Some (rs', ys)" "rs = r # rs'"
    by (auto split: option.splits prod.splits)
  with vec_spec_conserves [of c xs r zs] Cons.IH [of zs rs'] show ?case
    by (simp, metis (no_types, lifting) add.assoc add.commute)
qed simp

section \<open>Properties\<close>

text \<open>C29: the single-element calls of a vector, in any sequence, return the values and leave the elements
  that the same calls give on a list. A sequence panics exactly when an index is out of range as documented, or
  when a push or an insertion of it meets a full vector and the larger buffer is no valid layout or is refused by the allocator.
  The calls have no undefined behaviour: every raw read finds a value, every copy stays in the allocation, and no value is dropped
  twice or lost.\<close>

theorem vec_refines_list:
  assumes "vec_rep el xs v"
  shows "case spec_calls vec_spec cs xs of
      None \<Rightarrow> run_calls (vec_step al el) cs v = Panic
    | Some (rs, ys) \<Rightarrow> mset (concat rs) + mset ys = mset xs + mset (concat (map call_input cs))
        \<and> (if runs_out (vec_step al el) (vec_stuck al el) cs v then run_calls (vec_step al el) cs v = Panic
           else \<exists>v'. run_calls (vec_step al el) cs v = Ret (rs, v') \<and> vec_rep el ys v')"
  using vec_machine.run_refines [OF assms, of al cs] vec_spec_run_conserves [of cs xs]
  by (auto simp: refines_def split: option.splits)

text \<open>C30: the calls of a vector that move several elements. Appending leaves the other vector empty, splitting gives
  the two halves; they panic exactly when the memory is refused, or the index is beyond the length. Pushing within the
  capacity hands the value back exactly when the vector is full; \<open>pop_if\<close> removes the last element only if the
  predicate accepts it. Extending by an iterator, whatever its size hint claims, ends with all items; or it unwinds, with all
  that was yielded when the iterator panics, and with a prefix of it in a full vector when the next item finds no memory.
  Extending by an iterator of trusted length and resizing by clones do nothing when the memory is refused, and otherwise add
  every item up to the first that panics.\<close>

theorem vec_bulk_operations:
  assumes v: "vec_rep el xs v" and w: "vec_rep el ys w"
  shows "(if has_room al el (v_buf v) (length xs + length ys)
      then \<exists>v' w'. vec_append al el v w = Ret (v', w') \<and> vec_rep el (xs @ ys) v' \<and> vec_rep el [] w'
      else vec_append al el v w = Panic)
    \<and> (if at \<le> length xs \<and> (at = length xs \<or> granted al el (length xs - at))
       then \<exists>v' w'. vec_split_off al el v at = Ret (v', w') \<and> vec_rep el (take at xs) v' \<and> vec_rep el (drop at xs) w'
       else vec_split_off al el v at = Panic)
    \<and> (if v_len v = length (v_buf v) then vec_push_within_capacity el v x = Ret (Inl x, v)
       else \<exists>v'. vec_push_within_capacity el v x = Ret (Inr (), v') \<and> vec_rep el (xs @ [x]) v')
    \<and> (if xs = [] then vec_pop_if el v f = Ret (None, v)
       else case f (last xs) of
           Ret (y, True) \<Rightarrow> \<exists>v'. vec_pop_if el v f = Ret (Some y, v') \<and> vec_rep el (butlast xs) v'
         | Ret (y, False) \<Rightarrow> \<exists>v'. vec_pop_if el v f = Ret (None, v') \<and> vec_rep el (butlast xs @ [y]) v'
         | r \<Rightarrow> vec_pop_if el v f = and_then r (\<lambda>_. UB))
    \<and> (\<exists>e. vec_extend_desugared al el hint items v = Ret e \<and> extended al el hint xs items e)
    \<and> (if has_room al el (v_buf v) (length xs + length items)
       then \<exists>v'. vec_extend_trusted al el (Some (length items)) items v = Ret (if None \<in> set items then Unwinding v' else Finished v')
         \<and> vec_rep el (xs @ yielded items) v'
       else vec_extend_trusted al el (Some (length items)) items v = Ret (Unwinding v))
    \<and> (if n \<le> length xs then \<exists>v'. vec_resize al el clone v n x = Ret (Finished v') \<and> vec_rep el (take n xs) v'
       else if has_room al el (v_buf v) n
       then \<exists>v'. vec_resize al el clone v n x
             = Ret (if None \<in> set (clones clone x (n - length xs)) then Unwinding v' else Finished v')
           \<and> vec_rep el (xs @ yielded (clones clone x (n - length xs))) v'
       else vec_resize al el clone v n x = Ret (Unwinding v))"
proof (intro conjI)
  have len: "v_len v = length xs" using v by (simp add: vec_rep_def)
  show "if at \<le> length xs \<and> (at = length xs \<or> granted al el (length xs - at))
       then \<exists>v' w'. vec_split_off al el v at = Ret (v', w') \<and> vec_rep el (take at xs) v' \<and> vec_rep el (drop at xs) w'
       else vec_split_off al el v at = Panic"
  proof (cases "at \<le> length xs")
    case True
    then show ?thesis using vec_split_off_rep [OF v True, of al] by simp
  qed (use len in \<open>simp add: vec_split_off_def\<close>)
  show "if n \<le> length xs then \<exists>v'. vec_resize al el clone v n x = Ret (Finished v') \<and> vec_rep el (take n xs) v'
       else if has_room al el (v_buf v) n
       then \<exists>v'. vec_resize al el clone v n x
             = Ret (if None \<in> set (clones clone x (n - length xs)) then Unwinding v' else Finished v')
           \<and> vec_rep el (xs @ yielded (clones clone x (n - length xs))) v'
       else vec_resize al el clone v n x = Ret (Unwinding v)"
    using vec_truncate_rep [OF v, of n] len
      vec_extend_trusted_exact [OF v, of "clones clone x (n - length xs)" "n - length xs" al]
    by (auto simp: vec_resize_def vec_extend_with_items)
qed (rule vec_append_rep [OF v w] vec_push_within_capacity_rep [OF v] vec_pop_if_rep [OF v]
    vec_extend_desugared_extended [OF v] vec_extend_trusted_exact [OF v order_refl])+

text \<open>A concrete vector: four-byte elements, two of them in an allocation of three cells.\<close>

definition demo_vec :: "char vec" where
  "demo_vec = \<lparr>v_buf = [Some CHR ''a'', Some CHR ''b'', None], v_len = 2\<rparr>"

lemma demo_vec_rep: "vec_rep \<lparr>l_size = 4, l_align = 4\<rparr> ''ab'' demo_vec"
  by (simp add: demo_vec_def vec_rep_def raw_ok_def elem_ok_def layout_ok_def is_power_of_two_iff isize_bound_def)
    (auto intro: exI [of _ 2])

lemmas vec_eval = demo_vec_def vec_push_def grow_if_full_def capacity_def ptr_write_def ptr_read_def ptr_copy_def mem_move_def set_len_def
  vec_remove_def vec_swap_remove_def vec_pop_def assert_unchecked_def raw_grow_one_exactly granted_def array_layout_def
  layout_ok_def demo_pow2 isize_bound_def min_non_zero_cap_def amortized_def raw_ok_def elem_ok_def

theorem vec_refines_list_witness:
  "(\<exists>v'. run_calls (vec_step (\<lambda>_. True) \<lparr>l_size = 4, l_align = 4\<rparr>) [Push CHR ''c'', Push CHR ''d'', Remove 0, Swap_Remove 0, Pop, Pop, Pop] demo_vec
      = Ret ([[], [], ''a'', ''b'', ''c'', ''d'', []], v') \<and> vec_rep \<lparr>l_size = 4, l_align = 4\<rparr> [] v')
   \<and> run_calls (vec_step (\<lambda>_. False) \<lparr>l_size = 4, l_align = 4\<rparr>) [Push CHR ''c'', Push CHR ''d''] demo_vec = Panic"
  using vec_refines_list [OF demo_vec_rep, of "\<lambda>_. True" "[Push CHR ''c'', Push CHR ''d'', Remove 0, Swap_Remove 0, Pop, Pop, Pop]"]
    vec_refines_list [OF demo_vec_rep, of "\<lambda>_. False" "[Push CHR ''c'', Push CHR ''d'']"]
  by (simp add: vec_eval numeral_3_eq_3)

theorem vec_bulk_operations_witness:
  "(\<exists>v'. vec_pop_if \<lparr>l_size = 4, l_align = 4\<rparr> demo_vec (\<lambda>x. Ret (x, x = CHR ''b'')) = Ret (Some CHR ''b'', v')
     \<and> vec_rep \<lparr>l_size = 4, l_align = 4\<rparr> ''a'' v')
   \<and> (\<exists>v' w'. vec_split_off (\<lambda>_. True) \<lparr>l_size = 4, l_align = 4\<rparr> demo_vec 1 = Ret (v', w')
     \<and> vec_rep \<lparr>l_size = 4, l_align = 4\<rparr> ''a'' v' \<and> vec_rep \<lparr>l_size = 4, l_align = 4\<rparr> ''b'' w')
   \<and> (\<exists>v'. vec_extend_trusted (\<lambda>_. False) \<lparr>l_size = 4, l_align = 4\<rparr> (Some 1) [Some CHR ''c''] demo_vec = Ret (Finished v')
     \<and> vec_rep \<lparr>l_size = 4, l_align = 4\<rparr> ''abc'' v')"
  using vec_bulk_operations [OF demo_vec_rep demo_vec_rep, where f = "\<lambda>x. Ret (x, x = CHR ''b'')" and at = 1 and al = "\<lambda>_. True" and items = "[Some CHR ''c'']"]
    vec_bulk_operations [OF demo_vec_rep demo_vec_rep, where f = "\<lambda>x. Ret (x, x = CHR ''b'')" and at = 1 and al = "\<lambda>_. False" and items = "[Some CHR ''c'']"]
  by (simp add: granted_def array_layout_def layout_ok_def demo_pow2 isize_bound_def has_room_def demo_vec_def)

end
