(* ===== verification/Vec_Retain.thy ===== *)
theory Vec_Retain
  imports Vec_Ops
begin

text \<open>
  The two in-place filters of \<open>Vec\<close>, \<open>library/alloc/src/vec/mod.rs\<close>: \<open>retain_mut\<close> with
  its guard \<open>BackshiftOnDrop\<close> and \<open>dedup_by\<close> with its guard \<open>FillGapOnDrop\<close>. A closure
  has a state, may change the elements it is shown, and may panic: \<open>f s x\<close> is the new state, the element
  afterwards and the answer, \<open>None\<close> for a panic. The predicate \<open>dp\<close> says which values panic when
  they are dropped. A panic drops the guard, which repairs the vector, and the call ends in \<open>Unwinding\<close>. The
  second component of a result lists the dropped values in order.
\<close>

section \<open>Retaining\<close>

type_synonym ('s, 'a) pred_mut = "'s \<Rightarrow> 'a \<Rightarrow> 's \<times> 'a \<times> bool option"

record 'a backshift =
  bs_v :: "'a vec"
  processed_len :: nat
  deleted_cnt :: nat
  original_len :: nat

definition backshift_drop :: "layout \<Rightarrow> 'a backshift \<Rightarrow> 'a vec outcome" where
  "backshift_drop el g =
     and_then (if deleted_cnt g > 0
         then ptr_copy (v_buf (bs_v g)) (processed_len g) (processed_len g - deleted_cnt g) (original_len g - processed_len g)
         else Ret (v_buf (bs_v g))) (\<lambda>b.
       set_len el ((bs_v g)\<lparr>v_buf := b\<rparr>) (original_len g - deleted_cnt g))"

text \<open>The writes of the loop: the closure's change of the current element, the end of a dropped element,
  and the move of a kept element down into the first hole.\<close>

definition bs_set :: "'a backshift \<Rightarrow> 'a cells \<Rightarrow> 'a backshift" where
  "bs_set g b = g\<lparr>bs_v := (bs_v g)\<lparr>v_buf := b\<rparr>\<rparr>"

definition bs_drop_cur :: "'a backshift \<Rightarrow> 'a backshift" where
  "bs_drop_cur g = (bs_set g ((v_buf (bs_v g))[processed_len g := None]))
     \<lparr>processed_len := processed_len g + 1, deleted_cnt := deleted_cnt g + 1\<rparr>"

definition bs_keep_cur :: "bool \<Rightarrow> 'a backshift \<Rightarrow> 'a backshift outcome" where
  "bs_keep_cur deleted g =
     and_then (if deleted
         then ptr_copy_nonoverlapping (v_buf (bs_v g)) (processed_len g) (processed_len g - deleted_cnt g) 1
         else Ret (v_buf (bs_v g))) (\<lambda>b.
       Ret ((bs_set g b)\<lparr>processed_len := processed_len g + 1\<rparr>))"

lemma bs_set_simps [simp]:
  "v_buf (bs_v (bs_set g b)) = b" "processed_len (bs_set g b) = processed_len g"
  "deleted_cnt (bs_set g b) = deleted_cnt g" "original_len (bs_set g b) = original_len g"
  by (simp_all add: bs_set_def)

lemma bs_drop_cur_simps [simp]:
  "v_buf (bs_v (bs_drop_cur g)) = (v_buf (bs_v g))[processed_len g := None]"
  "processed_len (bs_drop_cur g) = Suc (processed_len g)"
  "deleted_cnt (bs_drop_cur g) = Suc (deleted_cnt g)" "original_len (bs_drop_cur g) = original_len g"
  by (simp_all add: bs_drop_cur_def)

lemma bs_keep_cur_length:
  "bs_keep_cur deleted g = Ret g' \<Longrightarrow> length (v_buf (bs_v g')) = length (v_buf (bs_v g))
     \<and> processed_len g' = Suc (processed_len g)"
  by (auto simp: bs_keep_cur_def ptr_copy_nonoverlapping_def outcome_simps split: if_splits)

text \<open>The loop, for both values of the constant \<open>DELETED\<close>: it ends with whether it unwinds, the closure's
  state, the guard and the values dropped.\<close>

function process_loop :: "bool \<Rightarrow> ('s, 'a) pred_mut \<Rightarrow> ('a \<Rightarrow> bool) \<Rightarrow> 's \<Rightarrow> 'a backshift
    \<Rightarrow> (bool \<times> 's \<times> 'a backshift \<times> 'a list) outcome" where
  "process_loop deleted f dp s g =
     (if processed_len g = original_len g then Ret (False, s, g, [])
      else and_then (ptr_read (v_buf (bs_v g)) (processed_len g)) (\<lambda>cur.
        (case f s cur of (s, cur, r) \<Rightarrow>
          let g = bs_set g ((v_buf (bs_v g))[processed_len g := Some cur])
          in (case r of
               None \<Rightarrow> Ret (True, s, g, [])
             | Some False \<Rightarrow>
                 if dp cur then Ret (True, s, bs_drop_cur g, [cur])
                 else if deleted then
                   and_then (process_loop deleted f dp s (bs_drop_cur g)) (\<lambda>(u, s, g, d). Ret (u, s, g, cur # d))
                 else Ret (False, s, bs_drop_cur g, [cur])
             | Some True \<Rightarrow> and_then (bs_keep_cur deleted g) (process_loop deleted f dp s)))))"
  by pat_completeness auto
termination
  by (relation "measure (\<lambda>(deleted, f, dp, s, g). length (v_buf (bs_v g)) - processed_len g)")
    (auto simp: ptr_read_def bs_keep_cur_length split: if_splits dest: bs_keep_cur_length)

definition vec_retain_mut ::
  "layout \<Rightarrow> ('s, 'a) pred_mut \<Rightarrow> ('a \<Rightarrow> bool) \<Rightarrow> 's \<Rightarrow> 'a vec \<Rightarrow> ('a vec exit \<times> 'a list) outcome" where
  "vec_retain_mut el f dp s v =
     (if v_len v = 0 then Ret (Finished v, [])
      else and_then (set_len el v 0) (\<lambda>v0.
        and_then (process_loop False f dp s
            \<lparr>bs_v = v0, processed_len = 0, deleted_cnt = 0, original_len = v_len v\<rparr>) (\<lambda>(u, s, g, d).
          if u then and_then (backshift_drop el g) (\<lambda>v. Ret (Unwinding v, d))
          else and_then (process_loop True f dp s g) (\<lambda>(u, s, g, d').
            and_then (backshift_drop el g) (\<lambda>v. Ret (if u then Unwinding v else Finished v, d @ d'))))))"

text \<open>The reference definition: one pass over the list. The result says whether the pass unwinds, what the
  vector holds afterwards and what was dropped.\<close>

fun retain_run :: "('s, 'a) pred_mut \<Rightarrow> ('a \<Rightarrow> bool) \<Rightarrow> 's \<Rightarrow> 'a list \<Rightarrow> bool \<times> 'a list \<times> 'a list" where
  "retain_run f dp s [] = (False, [], [])"
| "retain_run f dp s (x # xs) =
     (case f s x of
        (s, x, None) \<Rightarrow> (True, x # xs, [])
      | (s, x, Some True) \<Rightarrow> (case retain_run f dp s xs of (u, ys, d) \<Rightarrow> (u, x # ys, d))
      | (s, x, Some False) \<Rightarrow>
          if dp x then (True, xs, [x])
          else (case retain_run f dp s xs of (u, ys, d) \<Rightarrow> (u, ys, x # d)))"

declare process_loop.simps [simp del]

subsection \<open>The loop invariant\<close>

text \<open>The picture in the source: kept elements, holes, unchecked elements, spare cells.\<close>

definition bs_state :: "'a list \<Rightarrow> 'a cells \<Rightarrow> 'a list \<Rightarrow> 'a cells \<Rightarrow> 'a backshift" where
  "bs_state ks hole ys R = \<lparr>bs_v = \<lparr>v_buf = map Some ks @ hole @ map Some ys @ R, v_len = 0\<rparr>,
     processed_len = length ks + length hole, deleted_cnt = length hole,
     original_len = length ks + length hole + length ys\<rparr>"

lemma bs_state_sel [simp]:
  "v_buf (bs_v (bs_state ks hole ys R)) = map Some ks @ hole @ map Some ys @ R"
  "processed_len (bs_state ks hole ys R) = length ks + length hole"
  "deleted_cnt (bs_state ks hole ys R) = length hole"
  "original_len (bs_state ks hole ys R) = length ks + length hole + length ys"
  by (simp_all add: bs_state_def)

lemma bs_state_read: "ptr_read (map Some ks @ hole @ Some y # T) (length ks + length hole) = Ret y"
  using ptr_read_segment [of "map Some ks @ hole"] by simp

lemma bs_state_update:
  "(map Some ks @ hole @ c # T)[length ks + length hole := c'] = map Some ks @ hole @ c' # T"
  by (simp add: list_update_append)

lemma bs_state_set:
  "bs_set (bs_state ks hole (y # ys) R) ((map Some ks @ hole @ Some y # map Some ys @ R)[length ks + length hole := Some y'])
     = bs_state ks hole (y' # ys) R"
  unfolding bs_state_update by (simp add: bs_set_def bs_state_def)

lemma bs_state_drop: "bs_drop_cur (bs_state ks hole (y # ys) R) = bs_state ks (hole @ [None]) ys R"
  by (simp add: bs_drop_cur_def bs_set_def bs_state_update) (simp add: bs_state_def)

lemma mem_move_one:
  "length A = dst \<Longrightarrow> length A + length H + 1 = src \<Longrightarrow>
     mem_move (A @ h # H @ c # R) src dst 1 = A @ c # H @ c # R"
  by (auto simp: mem_move_def)

lemma bs_state_keep:
  "bs_keep_cur (hole \<noteq> []) (bs_state ks hole (y # ys) R) = Ret (bs_state (ks @ [y]) (drop 1 (hole @ [Some y])) ys R)"
proof (cases hole)
  case (Cons h hs)
  have "mem_move (map Some ks @ h # hs @ Some y # map Some ys @ R) (length ks + length hole) (length ks) 1
      = map Some ks @ Some y # hs @ Some y # map Some ys @ R"
    by (rule mem_move_one) (simp_all add: Cons)
  with Cons show ?thesis
    by (simp add: bs_keep_cur_def ptr_copy_nonoverlapping_def bs_set_def) (simp add: bs_state_def)
qed (simp add: bs_keep_cur_def bs_set_def bs_state_def)

lemma process_loop_Nil: "process_loop deleted f dp s (bs_state ks hole [] R) = Ret (False, s, bs_state ks hole [] R, [])"
  by (simp add: process_loop.simps)

lemma process_loop_Cons:
  "process_loop (hole \<noteq> []) f dp s (bs_state ks hole (y # ys) R) =
     (case f s y of
        (s, y, None) \<Rightarrow> Ret (True, s, bs_state ks hole (y # ys) R, [])
      | (s, y, Some False) \<Rightarrow>
          if dp y then Ret (True, s, bs_state ks (hole @ [None]) ys R, [y])
          else if hole \<noteq> [] then and_then (process_loop True f dp s (bs_state ks (hole @ [None]) ys R))
            (\<lambda>(u, s, g, d). Ret (u, s, g, y # d))
          else Ret (False, s, bs_state ks (hole @ [None]) ys R, [y])
      | (s, y, Some True) \<Rightarrow>
          process_loop (hole \<noteq> []) f dp s (bs_state (ks @ [y]) (drop 1 (hole @ [Some y])) ys R))"
  by (subst process_loop.simps)
    (simp add: bs_state_read bs_state_set bs_state_drop bs_state_keep Let_def
      split: prod.split option.split bool.split)

text \<open>Either pass of the loop keeps the picture, and what it leaves undone is the reference on the
  unchecked elements.\<close>

definition pass_post :: "('s, 'a) pred_mut \<Rightarrow> ('a \<Rightarrow> bool) \<Rightarrow> 's \<Rightarrow> 'a list \<Rightarrow> 'a cells \<Rightarrow> 'a list \<Rightarrow> 'a cells
    \<Rightarrow> (bool \<times> 's \<times> 'a backshift \<times> 'a list) outcome \<Rightarrow> bool" where
  "pass_post f dp s ks hole ys R m \<longleftrightarrow> (\<exists>u s' ps hole' ys' d.
     m = Ret (u, s', bs_state (ks @ ps) hole' ys' R, d)
     \<and> length ps + length hole' + length ys' = length hole + length ys
     \<and> retain_run f dp s ys = (if u then (True, ps @ ys', d)
          else case retain_run f dp s' ys' of (u, zs, d') \<Rightarrow> (u, ps @ zs, d @ d'))
     \<and> (u \<or> ys' = [] \<or> hole = [] \<and> hole' \<noteq> []))"

lemma pass_postI:
  assumes "m = Ret (u, s', bs_state (ks @ ps) hole' ys' R, d)"
    "length ps + length hole' + length ys' = length hole + length ys"
    "retain_run f dp s ys = (if u then (True, ps @ ys', d)
       else case retain_run f dp s' ys' of (u, zs, d') \<Rightarrow> (u, ps @ zs, d @ d'))"
    "u \<or> ys' = [] \<or> hole = [] \<and> hole' \<noteq> []"
  shows "pass_post f dp s ks hole ys R m"
  using assms unfolding pass_post_def by blast

lemma pass_postE:
  assumes "pass_post f dp s ks hole ys R m"
  obtains u s' ps hole' ys' d where "m = Ret (u, s', bs_state (ks @ ps) hole' ys' R, d)"
    "length ps + length hole' + length ys' = length hole + length ys"
    "retain_run f dp s ys = (if u then (True, ps @ ys', d)
       else case retain_run f dp s' ys' of (u, zs, d') \<Rightarrow> (u, ps @ zs, d @ d'))"
    "u \<or> ys' = [] \<or> hole = [] \<and> hole' \<noteq> []"
  using assms unfolding pass_post_def by blast

lemma pass_post_kept:
  assumes "pass_post f dp s1 (ks @ [y1]) hole1 ys R m" "f s y = (s1, y1, Some True)"
    "length hole1 = length hole" "hole1 = [] \<longleftrightarrow> hole = []"
  shows "pass_post f dp s ks hole (y # ys) R m"
  using assms(1)
proof (rule pass_postE)
  fix u s' ps hole' ys' d
  assume "m = Ret (u, s', bs_state ((ks @ [y1]) @ ps) hole' ys' R, d)"
    "length ps + length hole' + length ys' = length hole1 + length ys"
    "retain_run f dp s1 ys = (if u then (True, ps @ ys', d)
       else case retain_run f dp s' ys' of (u, zs, d') \<Rightarrow> (u, ps @ zs, d @ d'))"
    "u \<or> ys' = [] \<or> hole1 = [] \<and> hole' \<noteq> []"
  with assms(2-4) show ?thesis
    by (intro pass_postI [of m u s' ks "y1 # ps" hole' ys' R d]) (auto split: prod.split)
qed

lemma pass_post_dropped:
  assumes "pass_post f dp s1 ks (hole @ [None]) ys R m" "f s y = (s1, y1, Some False)" "\<not> dp y1"
  shows "pass_post f dp s ks hole (y # ys) R (and_then m (\<lambda>(u, s, g, d). Ret (u, s, g, y1 # d)))"
  using assms(1)
proof (rule pass_postE)
  fix u s' ps hole' ys' d
  assume "m = Ret (u, s', bs_state (ks @ ps) hole' ys' R, d)"
    "length ps + length hole' + length ys' = length (hole @ [None]) + length ys"
    "retain_run f dp s1 ys = (if u then (True, ps @ ys', d)
       else case retain_run f dp s' ys' of (u, zs, d') \<Rightarrow> (u, ps @ zs, d @ d'))"
    "u \<or> ys' = [] \<or> hole @ [None] = [] \<and> hole' \<noteq> []"
  with assms(2,3) show ?thesis
    by (intro pass_postI [of _ u s' ks ps hole' ys' R "y1 # d"]) (auto split: prod.split)
qed

lemma process_loop_state:
  "pass_post f dp s ks hole ys R (process_loop (hole \<noteq> []) f dp s (bs_state ks hole ys R))"
proof (induction ys arbitrary: s ks hole)
  case Nil
  show ?case by (rule pass_postI [of _ False s ks "[]" hole "[]" R "[]"]) (simp_all add: process_loop_Nil)
next
  case (Cons y ys)
  obtain s1 y1 r where f: "f s y = (s1, y1, r)" by (cases "f s y") auto
  note unfold = process_loop_Cons [of hole f dp s ks y ys R, unfolded f]
  consider "r = None" | "r = Some False" "dp y1" | "r = Some False" "\<not> dp y1" "hole = []"
    | "r = Some False" "\<not> dp y1" "hole \<noteq> []" | "r = Some True" by (cases r) auto
  then show ?case
  proof cases
    case 1
    with f unfold show ?thesis by (intro pass_postI [of _ True s1 ks "[]" hole "y1 # ys" R "[]"]) simp_all
  next
    case 2
    with f unfold show ?thesis by (intro pass_postI [of _ True s1 ks "[]" "hole @ [None]" ys R "[y1]"]) simp_all
  next
    case 3
    with f unfold show ?thesis
      by (intro pass_postI [of _ False s1 ks "[]" "hole @ [None]" ys R "[y1]"]) (simp_all split: prod.split)
  next
    case 4
    with f unfold show ?thesis using pass_post_dropped [OF Cons.IH [of s1 ks "hole @ [None]"], of s y y1] by simp
  next
    case 5
    define h where "h = drop 1 (hole @ [Some y1])"
    have h: "(h = []) = (hole = [])" "length h = length hole" unfolding h_def by (cases hole; simp)+
    from 5 unfold have "process_loop (hole \<noteq> []) f dp s (bs_state ks hole (y # ys) R)
        = process_loop (h \<noteq> []) f dp s1 (bs_state (ks @ [y1]) h ys R)" unfolding h(1) by (simp add: h_def)
    then show ?thesis using pass_post_kept [OF Cons.IH [of s1 "ks @ [y1]" h], of s y hole] 5 f h by simp
  qed
qed

lemma backshift_drop_state:
  assumes "raw_ok el (map Some ks @ hole @ map Some ys @ R)" "l_size el \<noteq> 0"
  shows "\<exists>v. backshift_drop el (bs_state ks hole ys R) = Ret v \<and> vec_rep el (ks @ ys) v"
proof -
  have c: "(if hole \<noteq> [] then ptr_copy (map Some ks @ hole @ map Some ys @ R) (length ks + length hole) (length ks) (length ys)
      else Ret (map Some ks @ hole @ map Some ys @ R))
      = Ret (map Some ks @ map Some ys @ drop (length ys) (hole @ map Some ys) @ R)"
    by (simp add: ptr_copy_down)
  have "vec_rep el (ks @ ys) \<lparr>v_buf = map Some (ks @ ys) @ drop (length ys) (hole @ map Some ys) @ R, v_len = length ks + length ys\<rparr>"
    by (rule vec_repI) (use assms(2) in \<open>auto intro: raw_ok_same_length [OF assms(1)]\<close>)
  moreover have "backshift_drop el (bs_state ks hole ys R) = and_then (if hole \<noteq> []
      then ptr_copy (map Some ks @ hole @ map Some ys @ R) (length ks + length hole) (length ks) (length ys)
      else Ret (map Some ks @ hole @ map Some ys @ R))
    (\<lambda>b. set_len el \<lparr>v_buf = b, v_len = 0\<rparr> (length ks + length ys))"
    by (simp add: backshift_drop_def) (simp add: bs_state_def)
  ultimately show ?thesis using assms(2) unfolding c by simp
qed

text \<open>The second pass finishes what the first one left, also when that is nothing.\<close>

lemma second_pass:
  assumes "ys = [] \<or> hole \<noteq> []"
  obtains u s' qs hole' zs d where
    "process_loop True f dp s (bs_state ks hole ys R) = Ret (u, s', bs_state (ks @ qs) hole' zs R, d)"
    "length qs + length hole' + length zs = length hole + length ys"
    "retain_run f dp s ys = (u, qs @ zs, d)"
proof (cases "ys = []")
  case True
  then show ?thesis using that [of False s "[]" hole "[]" "[]"] by (simp add: process_loop_Nil)
next
  case False
  with assms process_loop_state [of f dp s ks hole ys R]
  have "pass_post f dp s ks hole ys R (process_loop True f dp s (bs_state ks hole ys R))" by simp
  then obtain u s' qs hole' zs d where *:
    "process_loop True f dp s (bs_state ks hole ys R) = Ret (u, s', bs_state (ks @ qs) hole' zs R, d)"
    "length qs + length hole' + length zs = length hole + length ys"
    "retain_run f dp s ys = (if u then (True, qs @ zs, d)
       else case retain_run f dp s' zs of (u, zs, d') \<Rightarrow> (u, qs @ zs, d @ d'))"
    "u \<or> zs = [] \<or> hole = [] \<and> hole' \<noteq> []" by (rule pass_postE)
  from *(3,4) assms False have "retain_run f dp s ys = (u, qs @ zs, d)" by (cases u) auto
  with * show ?thesis using that by blast
qed

lemma vec_retain_mut_run:
  fixes xs :: "'a list"
  assumes "vec_rep el xs v"
  shows "case retain_run f dp s xs of (u, ys, d) \<Rightarrow>
    \<exists>v'. vec_retain_mut el f dp s v = Ret (if u then Unwinding v' else Finished v', d) \<and> vec_rep el ys v'"
proof (cases "xs = []")
  case False
  from assms obtain R where v: "v = \<lparr>v_buf = map Some xs @ R, v_len = length xs\<rparr>"
    and ok: "raw_ok el (map Some xs @ R)" "l_size el \<noteq> 0" by (rule vec_repE)
  have start: "\<lparr>bs_v = \<lparr>v_buf = map Some xs @ R, v_len = 0\<rparr>, processed_len = 0, deleted_cnt = 0, original_len = length xs\<rparr>
      = bs_state [] [] xs R" by (simp add: bs_state_def)
  have finish: "\<exists>v. backshift_drop el (bs_state ks hole ys R) = Ret v \<and> vec_rep el (ks @ ys) v"
    if "length ks + length hole + length ys = length xs" for ks hole ys
    by (rule backshift_drop_state [OF raw_ok_same_length [OF ok(1)] ok(2)]) (use that in simp)
  have "pass_post f dp s [] [] xs R (process_loop False f dp s (bs_state [] [] xs R))"
    using process_loop_state [of f dp s "[]" "[]" xs R] by simp
  then obtain u s1 ps hole ys d where
    p: "process_loop False f dp s (bs_state [] [] xs R) = Ret (u, s1, bs_state ([] @ ps) hole ys R, d)"
      "length ps + length hole + length ys = length ([] :: 'a cells) + length xs"
    and r: "retain_run f dp s xs = (if u then (True, ps @ ys, d)
        else case retain_run f dp s1 ys of (u, zs, d') \<Rightarrow> (u, ps @ zs, d @ d'))"
    and e: "u \<or> ys = [] \<or> ([] :: 'a cells) = [] \<and> hole \<noteq> []" by (rule pass_postE)
  have m: "vec_retain_mut el f dp s v =
      (if u then and_then (backshift_drop el (bs_state ps hole ys R)) (\<lambda>v. Ret (Unwinding v, d))
       else and_then (process_loop True f dp s1 (bs_state ps hole ys R)) (\<lambda>(u, s, g, d').
         and_then (backshift_drop el g) (\<lambda>v. Ret (if u then Unwinding v else Finished v, d @ d'))))"
    using False p(1) v ok(2) start by (simp add: vec_retain_mut_def)
  show ?thesis
  proof (cases u)
    case True
    with m r finish [of ps hole ys] p(2) show ?thesis by auto
  next
    case nu: False
    with e have "ys = [] \<or> hole \<noteq> []" by simp
    then obtain u2 s2 qs hole2 zs d2 where
      q: "process_loop True f dp s1 (bs_state ps hole ys R) = Ret (u2, s2, bs_state (ps @ qs) hole2 zs R, d2)"
        "length qs + length hole2 + length zs = length hole + length ys"
        "retain_run f dp s1 ys = (u2, qs @ zs, d2)" by (rule second_pass)
    from p(2) q(2) have "length (ps @ qs) + length hole2 + length zs = length xs" by simp
    from finish [OF this] m q r nu show ?thesis by auto
  qed
qed (use assms in \<open>auto simp: vec_retain_mut_def vec_rep_def\<close>)

text \<open>The reference filters, and no value is lost: what stays and what was dropped is what was there, if the
  closure does not change the elements, panic or not.\<close>

lemma retain_run_filter:
  "(\<And>s x. f s x = (s, x, Some (P x))) \<Longrightarrow> (\<And>x. \<not> dp x) \<Longrightarrow>
     retain_run f dp s xs = (False, filter P xs, filter (\<lambda>x. \<not> P x) xs)"
  by (induction xs) auto

lemma retain_run_conserves:
  assumes "\<And>s x. fst (snd (f s x)) = x"
  shows "retain_run f dp s xs = (u, ys, d) \<Longrightarrow> mset ys + mset d = mset xs"
proof (induction xs arbitrary: s u ys d)
  case (Cons x xs)
  obtain s1 r where "f s x = (s1, x, r)" using assms [of s x] by (cases "f s x") auto
  with Cons show ?case by (auto split: prod.splits option.splits bool.splits if_splits)
qed simp


section \<open>Property\<close>

text \<open>C31: \<open>retain_mut\<close> on a valid vector has no undefined behaviour and ends as the reference definition: one
  call of the closure for each element in order, the rejected ones dropped in order, the others kept in
  order. If the closure or a destructor panics, the vector is valid and holds the elements kept so far
  and all elements not yet examined. A closure that does not change the elements loses none and none is
  dropped twice, panic or not; with a pure predicate the result is the filtered list.\<close>

theorem retain_mut_panic_safe:
  assumes "vec_rep el xs v"
  shows "case retain_run f dp s xs of (u, ys, d) \<Rightarrow>
    (\<exists>v'. vec_retain_mut el f dp s v = Ret (if u then Unwinding v' else Finished v', d) \<and> vec_rep el ys v')
    \<and> ((\<forall>s x. fst (snd (f s x)) = x) \<longrightarrow> mset ys + mset d = mset xs)
    \<and> ((\<forall>s x. f s x = (s, x, Some (P x))) \<and> (\<forall>x. \<not> dp x) \<longrightarrow>
        \<not> u \<and> ys = filter P xs \<and> d = filter (\<lambda>x. \<not> P x) xs)"
  using vec_retain_mut_run [OF assms, of f dp s] retain_run_conserves [of f dp s xs] retain_run_filter [of f P dp s xs]
  by (auto split: prod.splits)

theorem retain_mut_panic_safe_witness:
  "\<exists>v'. vec_retain_mut \<lparr>l_size = 4, l_align = 4\<rparr> (\<lambda>n x. (Suc n, x, if n = 3 then None else Some (x \<noteq> CHR ''b''))) (\<lambda>_. False) 0
     \<lparr>v_buf = map Some ''abcde'', v_len = 5\<rparr> = Ret (Unwinding v', ''b'') \<and> vec_rep \<lparr>l_size = 4, l_align = 4\<rparr> ''acde'' v'"
proof -
  have "vec_rep \<lparr>l_size = 4, l_align = 4\<rparr> ''abcde'' \<lparr>v_buf = map Some ''abcde'', v_len = 5\<rparr>"
    by (simp add: vec_rep_def raw_ok_def elem_ok_def layout_ok_def demo_pow2 isize_bound_def)
  from retain_mut_panic_safe [OF this, of "\<lambda>n x. (Suc n, x, if n = 3 then None else Some (x \<noteq> CHR ''b''))" "\<lambda>_. False" 0]
  show ?thesis by simp
qed

end
