(* ===== verification/Vec_Dedup.thy ===== *)
theory Vec_Dedup
  imports Vec_Retain
begin

text \<open>
  \<open>Vec::dedup_by\<close>, \<open>library/alloc/src/vec/mod.rs\<close>: a first loop that only looks for a duplicate, then a
  second one that drops duplicates and moves the other elements down, guarded by \<open>FillGapOnDrop\<close>. The
  closure is shown the current element and the last one kept, in this order, may change both, and may
  panic; \<open>dp\<close> says which values panic when they are dropped.
\<close>

type_synonym ('s, 'a) same_mut = "'s \<Rightarrow> 'a \<Rightarrow> 'a \<Rightarrow> 's \<times> 'a \<times> 'a \<times> bool option"

text \<open>The first loop. The result is the closure's state and the index where the loop stops, \<open>None\<close> if the
  closure panicked, and the buffer with the closure's changes.\<close>

function first_duplicate :: "('s, 'a) same_mut \<Rightarrow> 's \<Rightarrow> nat \<Rightarrow> nat \<Rightarrow> 'a cells \<Rightarrow> (('s \<times> nat) option \<times> 'a cells) outcome" where
  "first_duplicate same s len i b =
     (if i = len then Ret (Some (s, i), b)
      else and_then (ptr_read b (usize_wrapping_sub i 1)) (\<lambda>prev. and_then (ptr_read b i) (\<lambda>cur.
        case same s cur prev of (s, cur, prev, r) \<Rightarrow>
          let b = b[i := Some cur, usize_wrapping_sub i 1 := Some prev]
          in (case r of
               None \<Rightarrow> Ret (None, b)
             | Some True \<Rightarrow> Ret (Some (s, i), b)
             | Some False \<Rightarrow> first_duplicate same s len (i + 1) b))))"
  by pat_completeness auto
termination
  by (relation "measure (\<lambda>(same, s, len, i, b). length b - i)") (auto simp: ptr_read_def split: if_splits)

record 'a fill_gap =
  gap_read :: nat
  gap_write :: nat
  gap_vec :: "'a vec"

definition fill_gap_drop :: "layout \<Rightarrow> 'a fill_gap \<Rightarrow> 'a vec outcome" where
  "fill_gap_drop el gap =
     (let len = v_len (gap_vec gap); items_left = usize_wrapping_sub len (gap_read gap)
      in and_then (ptr_copy (v_buf (gap_vec gap)) (gap_read gap) (gap_write gap) items_left) (\<lambda>b.
        let dropped = usize_wrapping_sub (gap_read gap) (gap_write gap)
        in set_len el ((gap_vec gap)\<lparr>v_buf := b\<rparr>) (len - dropped)))"

definition gap_set :: "'a fill_gap \<Rightarrow> 'a cells \<Rightarrow> 'a fill_gap" where
  "gap_set gap b = gap\<lparr>gap_vec := (gap_vec gap)\<lparr>v_buf := b\<rparr>\<rparr>"

text \<open>The two branches of the second loop: the duplicate's cell is emptied, or the element is moved down
  to the write position.\<close>

definition gap_drop_cur :: "'a fill_gap \<Rightarrow> 'a fill_gap" where
  "gap_drop_cur gap = (gap_set gap ((v_buf (gap_vec gap))[gap_read gap := None]))\<lparr>gap_read := gap_read gap + 1\<rparr>"

definition gap_keep_cur :: "'a fill_gap \<Rightarrow> 'a fill_gap outcome" where
  "gap_keep_cur gap =
     and_then (ptr_copy_nonoverlapping (v_buf (gap_vec gap)) (gap_read gap) (gap_write gap) 1) (\<lambda>b.
       Ret ((gap_set gap b)\<lparr>gap_write := gap_write gap + 1, gap_read := gap_read gap + 1\<rparr>))"

lemma gap_set_simps [simp]:
  "v_buf (gap_vec (gap_set gap b)) = b" "gap_read (gap_set gap b) = gap_read gap"
  "gap_write (gap_set gap b) = gap_write gap"
  by (simp_all add: gap_set_def)

lemma gap_cur_simps [simp]:
  "v_buf (gap_vec (gap_drop_cur gap)) = (v_buf (gap_vec gap))[gap_read gap := None]"
  "gap_read (gap_drop_cur gap) = Suc (gap_read gap)"
  by (simp_all add: gap_drop_cur_def)

lemma gap_keep_cur_length:
  "gap_keep_cur gap = Ret gap' \<Longrightarrow> length (v_buf (gap_vec gap')) = length (v_buf (gap_vec gap))
     \<and> gap_read gap' = Suc (gap_read gap)"
  by (auto simp: gap_keep_cur_def ptr_copy_nonoverlapping_def outcome_simps split: if_splits)

function dedup_loop :: "('s, 'a) same_mut \<Rightarrow> ('a \<Rightarrow> bool) \<Rightarrow> 's \<Rightarrow> nat \<Rightarrow> 'a fill_gap
    \<Rightarrow> (bool \<times> 'a fill_gap \<times> 'a list) outcome" where
  "dedup_loop same dp s len gap =
     (if \<not> gap_read gap < len then Ret (False, gap, [])
      else and_then (ptr_read (v_buf (gap_vec gap)) (gap_read gap)) (\<lambda>cur.
        and_then (ptr_read (v_buf (gap_vec gap)) (usize_wrapping_sub (gap_write gap) 1)) (\<lambda>prev.
          case same s cur prev of (s, cur, prev, r) \<Rightarrow>
            let gap = gap_set gap ((v_buf (gap_vec gap))
                  [gap_read gap := Some cur, usize_wrapping_sub (gap_write gap) 1 := Some prev])
            in (case r of
                 None \<Rightarrow> Ret (True, gap, [])
               | Some True \<Rightarrow>
                   if dp cur then Ret (True, gap_drop_cur gap, [cur])
                   else and_then (dedup_loop same dp s len (gap_drop_cur gap)) (\<lambda>(u, gap, d). Ret (u, gap, cur # d))
               | Some False \<Rightarrow> and_then (gap_keep_cur gap) (dedup_loop same dp s len)))))"
  by pat_completeness auto
termination
  by (relation "measure (\<lambda>(same, dp, s, len, gap). length (v_buf (gap_vec gap)) - gap_read gap)")
    (auto simp: ptr_read_def gap_keep_cur_length split: if_splits dest: gap_keep_cur_length)

definition vec_dedup_by ::
  "layout \<Rightarrow> ('s, 'a) same_mut \<Rightarrow> ('a \<Rightarrow> bool) \<Rightarrow> 's \<Rightarrow> 'a vec \<Rightarrow> ('a vec exit \<times> 'a list) outcome" where
  "vec_dedup_by el same dp s v =
     (if v_len v \<le> 1 then Ret (Finished v, [])
      else and_then (first_duplicate same s (v_len v) 1 (v_buf v)) (\<lambda>(r, b). case r of
        None \<Rightarrow> Ret (Unwinding (v\<lparr>v_buf := b\<rparr>), [])
      | Some (s, i) \<Rightarrow>
          if i = v_len v then Ret (Finished (v\<lparr>v_buf := b\<rparr>), [])
          else and_then (ptr_read b i) (\<lambda>x.
            let gap = \<lparr>gap_read = i + 1, gap_write = i, gap_vec = v\<lparr>v_buf := b[i := None]\<rparr>\<rparr>
            in if dp x then and_then (fill_gap_drop el gap) (\<lambda>v. Ret (Unwinding v, [x]))
               else and_then (dedup_loop same dp s (v_len v) gap) (\<lambda>(u, gap, d).
                 if u then and_then (fill_gap_drop el gap) (\<lambda>v. Ret (Unwinding v, x # d))
                 else and_then (set_len el (gap_vec gap) (gap_write gap)) (\<lambda>v. Ret (Finished v, x # d))))))"

text \<open>The reference: \<open>p\<close> is the last element kept.\<close>

fun dedup_run :: "('s, 'a) same_mut \<Rightarrow> ('a \<Rightarrow> bool) \<Rightarrow> 's \<Rightarrow> 'a \<Rightarrow> 'a list \<Rightarrow> bool \<times> 'a list \<times> 'a list" where
  "dedup_run same dp s p [] = (False, [p], [])"
| "dedup_run same dp s p (x # xs) =
     (case same s x p of
        (s, x, p, None) \<Rightarrow> (True, p # x # xs, [])
      | (s, x, p, Some True) \<Rightarrow>
          if dp x then (True, p # xs, [x])
          else (case dedup_run same dp s p xs of (u, ys, d) \<Rightarrow> (u, ys, x # d))
      | (s, x, p, Some False) \<Rightarrow> (case dedup_run same dp s x xs of (u, ys, d) \<Rightarrow> (u, p # ys, d)))"

definition dedup_list :: "('s, 'a) same_mut \<Rightarrow> ('a \<Rightarrow> bool) \<Rightarrow> 's \<Rightarrow> 'a list \<Rightarrow> bool \<times> 'a list \<times> 'a list" where
  "dedup_list same dp s xs = (case xs of [] \<Rightarrow> (False, [], []) | x # xs \<Rightarrow> dedup_run same dp s x xs)"

section \<open>The first loop\<close>

declare first_duplicate.simps [simp del] dedup_loop.simps [simp del]

text \<open>How the first loop ends, as a function of the elements after the first: \<open>Found s qs q x zs\<close> is a
  duplicate \<open>x\<close> of its predecessor \<open>q\<close>.\<close>

datatype ('s, 'a) dedup_stop = Panicked "'a list" | Exhausted 's "'a list" | Found 's "'a list" 'a 'a "'a list"

fun dedup_prefix :: "('s, 'a) same_mut \<Rightarrow> 's \<Rightarrow> 'a \<Rightarrow> 'a list \<Rightarrow> ('s, 'a) dedup_stop" where
  "dedup_prefix same s p [] = Exhausted s [p]"
| "dedup_prefix same s p (x # xs) =
     (case same s x p of
        (s, x, p, None) \<Rightarrow> Panicked (p # x # xs)
      | (s, x, p, Some True) \<Rightarrow> Found s [] p x xs
      | (s, x, p, Some False) \<Rightarrow> (case dedup_prefix same s x xs of
            Panicked zs \<Rightarrow> Panicked (p # zs)
          | Exhausted s zs \<Rightarrow> Exhausted s (p # zs)
          | Found s qs q x zs \<Rightarrow> Found s (p # qs) q x zs))"

lemma dedup_run_prefix:
  "dedup_run same dp s p xs = (case dedup_prefix same s p xs of
     Panicked zs \<Rightarrow> (True, zs, [])
   | Exhausted s zs \<Rightarrow> (False, zs, [])
   | Found s qs q x zs \<Rightarrow> if dp x then (True, qs @ q # zs, [x])
       else (case dedup_run same dp s q zs of (u, ws, d) \<Rightarrow> (u, qs @ ws, x # d)))"
proof (induction xs arbitrary: s p)
  case (Cons x xs)
  obtain s' x' p' a where f: "same s x p = (s', x', p', a)" by (cases "same s x p") auto
  show ?case using Cons [of s' x'] f
    by (cases a) (auto split: prod.split bool.split dedup_stop.split)
qed simp

lemma dedup_prefix_length:
  "case dedup_prefix same s p xs of
     Panicked zs \<Rightarrow> length zs = Suc (length xs)
   | Exhausted s zs \<Rightarrow> length zs = Suc (length xs)
   | Found s qs q x zs \<Rightarrow> length qs + length zs + 2 = Suc (length xs)"
proof (induction xs arbitrary: s p)
  case (Cons x xs)
  obtain s' x' p' a where f: "same s x p = (s', x', p', a)" by (cases "same s x p") auto
  show ?case using Cons [of s' x'] f
    by (cases a) (auto split: bool.split dedup_stop.split)
qed simp

lemma usize_wrapping_sub_le: "b \<le> a \<Longrightarrow> a < usize_bound \<Longrightarrow> usize_wrapping_sub a b = a - b"
proof -
  assume b: "b \<le> a" "a < usize_bound"
  then have "a + (usize_bound - b) = (a - b) + usize_bound" by simp
  with b show ?thesis unfolding usize_wrapping_sub_def by (simp only: mod_add_self2) simp
qed

lemma usize_pred: "Suc n < usize_bound \<Longrightarrow> usize_wrapping_sub (Suc n) (Suc 0) = n"
  by (simp add: usize_wrapping_sub_le)

lemma read_pair:
  "ptr_read (map Some ks @ Some p # T) (length ks) = Ret p"
  "ptr_read (map Some ks @ c # Some x # T) (Suc (length ks)) = Ret x"
  using ptr_read_segment [of "map Some ks"] ptr_read_segment [of "map Some ks @ [c]"] by simp_all

lemma write_pair:
  "(map Some ks @ c # c' # T)[Suc (length ks) := d', length ks := d] = map Some ks @ d # d' # T"
  by (simp add: list_update_append)

lemma first_duplicate_Cons:
  assumes "len \<noteq> Suc (length ks)" "Suc (length ks) < usize_bound"
  shows "first_duplicate same s len (Suc (length ks)) (map Some ks @ Some p # Some x # T) =
    (case same s x p of
       (s, x, p, None) \<Rightarrow> Ret (None, map Some ks @ Some p # Some x # T)
     | (s, x, p, Some True) \<Rightarrow> Ret (Some (s, Suc (length ks)), map Some ks @ Some p # Some x # T)
     | (s, x, p, Some False) \<Rightarrow>
         first_duplicate same s len (Suc (length (ks @ [p]))) (map Some (ks @ [p]) @ Some x # T))"
  using assms by (subst first_duplicate.simps)
    (simp add: usize_pred read_pair write_pair Let_def split: prod.split option.split bool.split)

lemma first_duplicate_prefix:
  "len = Suc (length ks) + length xs \<Longrightarrow> len < usize_bound \<Longrightarrow>
     first_duplicate same s len (Suc (length ks)) (map Some ks @ Some p # map Some xs @ R) = Ret (case dedup_prefix same s p xs of
       Panicked zs \<Rightarrow> (None, map Some (ks @ zs) @ R)
     | Exhausted s zs \<Rightarrow> (Some (s, len), map Some (ks @ zs) @ R)
     | Found s qs q x zs \<Rightarrow> (Some (s, Suc (length (ks @ qs))), map Some (ks @ qs) @ Some q # Some x # map Some zs @ R))"
proof (induction xs arbitrary: s p ks)
  case (Cons x xs)
  obtain s' x' p' a where f: "same s x p = (s', x', p', a)" by (cases "same s x p") auto
  have step: "first_duplicate same s len (Suc (length ks)) (map Some ks @ Some p # Some x # map Some xs @ R) =
    (case a of
       None \<Rightarrow> Ret (None, map Some ks @ Some p' # Some x' # map Some xs @ R)
     | Some True \<Rightarrow> Ret (Some (s', Suc (length ks)), map Some ks @ Some p' # Some x' # map Some xs @ R)
     | Some False \<Rightarrow> first_duplicate same s' len (Suc (length (ks @ [p']))) (map Some (ks @ [p']) @ Some x' # map Some xs @ R))"
    using first_duplicate_Cons [of len ks same s p x] f Cons.prems by (simp split: option.split bool.split)
  note IH = Cons.IH [of "ks @ [p']" s' x']
  show ?case
  proof (cases "a = Some False")
    case True
    with step f IH Cons.prems show ?thesis by (simp split: dedup_stop.split)
  qed (use step f in \<open>auto split: option.split bool.split\<close>)
qed (simp add: first_duplicate.simps)

section \<open>The second loop\<close>

text \<open>The invariant of the source, \<open>len > read > write > write - 1 >= 0\<close>, as a picture: kept elements, the
  last of them \<open>p\<close>, a gap, unchecked elements, spare cells.\<close>

definition gap_state :: "'a list \<Rightarrow> 'a \<Rightarrow> 'a cells \<Rightarrow> 'a list \<Rightarrow> 'a cells \<Rightarrow> 'a fill_gap" where
  "gap_state ks p hole ys R = \<lparr>gap_read = Suc (length ks + length hole), gap_write = Suc (length ks),
     gap_vec = \<lparr>v_buf = map Some ks @ Some p # hole @ map Some ys @ R, v_len = Suc (length ks + length hole + length ys)\<rparr>\<rparr>"

lemma gap_state_sel [simp]:
  "v_buf (gap_vec (gap_state ks p hole ys R)) = map Some ks @ Some p # hole @ map Some ys @ R"
  "v_len (gap_vec (gap_state ks p hole ys R)) = Suc (length ks + length hole + length ys)"
  "gap_read (gap_state ks p hole ys R) = Suc (length ks + length hole)"
  "gap_write (gap_state ks p hole ys R) = Suc (length ks)"
  by (simp_all add: gap_state_def)

lemma gap_state_read:
  "ptr_read (map Some ks @ Some p # hole @ Some y # T) (Suc (length ks + length hole)) = Ret y"
  using ptr_read_segment [of "map Some ks @ Some p # hole"] by simp

lemma gap_state_set:
  "gap_set (gap_state ks p hole (y # ys) R)
     ((map Some ks @ Some p # hole @ Some y # map Some ys @ R)[Suc (length ks + length hole) := Some y', length ks := Some p'])
     = gap_state ks p' hole (y' # ys) R"
  by (simp add: gap_set_def gap_state_def list_update_append)

lemma gap_state_drop: "gap_drop_cur (gap_state ks p hole (y # ys) R) = gap_state ks p (hole @ [None]) ys R"
  by (simp add: gap_drop_cur_def gap_set_def list_update_append gap_state_def)

lemma gap_state_keep:
  "gap_keep_cur (gap_state ks p (h # hs) (y # ys) R) = Ret (gap_state (ks @ [p]) y (hs @ [Some y]) ys R)"
proof -
  have "mem_move ((map Some ks @ [Some p]) @ h # hs @ Some y # map Some ys @ R) (Suc (Suc (length ks + length hs))) (Suc (length ks)) 1
      = (map Some ks @ [Some p]) @ Some y # hs @ Some y # map Some ys @ R"
    by (rule mem_move_one) simp_all
  then show ?thesis
    by (simp add: gap_keep_cur_def ptr_copy_nonoverlapping_def gap_set_def gap_state_def)
qed

lemma dedup_loop_Nil:
  "dedup_loop same dp s (Suc (length ks + length hole)) (gap_state ks p hole [] R) = Ret (False, gap_state ks p hole [] R, [])"
  by (simp add: dedup_loop.simps)

lemma dedup_loop_Cons:
  assumes "len = Suc (length ks + length (h # hs) + length (y # ys))" "len < usize_bound"
  shows "dedup_loop same dp s len (gap_state ks p (h # hs) (y # ys) R) =
    (case same s y p of
       (s, y, p, None) \<Rightarrow> Ret (True, gap_state ks p (h # hs) (y # ys) R, [])
     | (s, y, p, Some True) \<Rightarrow>
         if dp y then Ret (True, gap_state ks p (h # hs @ [None]) ys R, [y])
         else and_then (dedup_loop same dp s len (gap_state ks p (h # hs @ [None]) ys R)) (\<lambda>(u, g, d). Ret (u, g, y # d))
     | (s, y, p, Some False) \<Rightarrow> dedup_loop same dp s len (gap_state (ks @ [p]) y (hs @ [Some y]) ys R))"
proof -
  have r: "ptr_read (map Some ks @ Some p # h # hs @ Some y # T) (Suc (Suc (length ks + length hs))) = Ret y" for T
    using gap_state_read [of ks p "h # hs" y T] by simp
  have s: "gap_set (gap_state ks p (h # hs) (y # ys) R) ((map Some ks @ Some p # h # hs @ Some y # map Some ys @ R)
      [Suc (Suc (length ks + length hs)) := Some y', length ks := Some p']) = gap_state ks p' (h # hs) (y' # ys) R" for y' p'
    using gap_state_set [of ks p "h # hs" y ys R y' p'] by simp
  show ?thesis
    using assms by (subst dedup_loop.simps)
      (simp add: usize_pred r s read_pair(1) gap_state_drop gap_state_keep Let_def split: prod.split option.split bool.split)
qed

lemma dedup_loop_state:
  assumes "len = Suc (length ks + length hole + length ys)" "len < usize_bound" "hole \<noteq> []"
  shows "\<exists>u ks' p' hole' ys' d. dedup_loop same dp s len (gap_state ks p hole ys R) = Ret (u, gap_state ks' p' hole' ys' R, d)
    \<and> length ks' + length hole' + length ys' = length ks + length hole + length ys
    \<and> (case dedup_run same dp s p ys of (u', zs, d') \<Rightarrow> u' = u \<and> d' = d \<and> ks @ zs = ks' @ p' # ys')
    \<and> (u \<or> ys' = [])"
  using assms
proof (induction ys arbitrary: s p ks hole)
  case Nil
  then show ?case using dedup_loop_Nil [of same dp s ks hole p R] by fastforce
next
  case (Cons y ys)
  obtain h hs where h: "hole = h # hs" using Cons.prems(3) by (cases hole) auto
  obtain s1 y1 p1 a where f: "same s y p = (s1, y1, p1, a)" by (cases "same s y p") auto
  note step = dedup_loop_Cons [OF Cons.prems(1,2) [unfolded h], of same dp s p R, unfolded f]
  consider "a = None" | "a = Some True" "dp y1" | "a = Some True" "\<not> dp y1" | "a = Some False" by (cases a) auto
  then show ?case
  proof cases
    case 1
    with step f h show ?thesis by fastforce
  next
    case 2
    with step f h show ?thesis by fastforce
  next
    case 3
    from Cons.IH [of ks "h # hs @ [None]" s1 p1] Cons.prems h obtain u ks' p' hole' ys' d where
      "dedup_loop same dp s1 len (gap_state ks p1 (h # hs @ [None]) ys R) = Ret (u, gap_state ks' p' hole' ys' R, d)"
      "length ks' + length hole' + length ys' = length ks + length hole + length (y # ys)"
      "case dedup_run same dp s1 p1 ys of (u', zs, d') \<Rightarrow> u' = u \<and> d' = d \<and> ks @ zs = ks' @ p' # ys'" "u \<or> ys' = []"
      by auto
    with 3 step f h show ?thesis by (fastforce split: prod.splits)
  next
    case 4
    from Cons.IH [of "ks @ [p1]" "hs @ [Some y1]" s1 y1] Cons.prems h obtain u ks' p' hole' ys' d where
      "dedup_loop same dp s1 len (gap_state (ks @ [p1]) y1 (hs @ [Some y1]) ys R) = Ret (u, gap_state ks' p' hole' ys' R, d)"
      "length ks' + length hole' + length ys' = length ks + length hole + length (y # ys)"
      "case dedup_run same dp s1 y1 ys of (u', zs, d') \<Rightarrow> u' = u \<and> d' = d \<and> (ks @ [p1]) @ zs = ks' @ p' # ys'"
      "u \<or> ys' = []" by auto
    with 4 step f h show ?thesis by (fastforce split: prod.splits)
  qed
qed

lemma fill_gap_drop_state:
  assumes "raw_ok el (map Some ks @ Some p # hole @ map Some ys @ R)" "l_size el \<noteq> 0"
    "Suc (length ks + length hole + length ys) < usize_bound"
  shows "\<exists>v. fill_gap_drop el (gap_state ks p hole ys R) = Ret v \<and> vec_rep el (ks @ p # ys) v"
proof -
  have c: "ptr_copy (map Some ks @ Some p # hole @ map Some ys @ R) (Suc (length ks + length hole)) (Suc (length ks)) (length ys)
      = Ret (map Some (ks @ p # ys) @ drop (length ys) (hole @ map Some ys) @ R)"
    using ptr_copy_down [of "map Some (ks @ [p])" "Suc (length ks)" hole "Suc (length ks + length hole)" "map Some ys"
        "length ys" R] by simp
  have "vec_rep el (ks @ p # ys) \<lparr>v_buf = map Some (ks @ p # ys) @ drop (length ys) (hole @ map Some ys) @ R,
      v_len = Suc (length ks + length ys)\<rparr>"
    by (rule vec_repI) (use assms(2) in \<open>auto intro: raw_ok_same_length [OF assms(1)]\<close>)
  then show ?thesis using c assms(2,3) by (simp add: fill_gap_drop_def usize_wrapping_sub_le gap_state_def)
qed

text \<open>The part after the first duplicate, from the buffer the first loop leaves.\<close>

lemma dedup_rest:
  assumes ok: "raw_ok el (map Some ks @ Some p # None # map Some ys @ R)" "l_size el \<noteq> 0"
    and len: "len = Suc (Suc (length ks + length ys))" "len < usize_bound"
  shows "case dedup_run same dp s p ys of (u, zs, d) \<Rightarrow>
    \<exists>v'. and_then (dedup_loop same dp s len (gap_state ks p [None] ys R)) (\<lambda>(u, gap, d).
           if u then and_then (fill_gap_drop el gap) (\<lambda>v. Ret (Unwinding v, x # d))
           else and_then (set_len el (gap_vec gap) (gap_write gap)) (\<lambda>v. Ret (Finished v, x # d)))
       = Ret (if u then Unwinding v' else Finished v', x # d) \<and> vec_rep el (ks @ zs) v'"
proof -
  obtain u zs d where run: "dedup_run same dp s p ys = (u, zs, d)" by (cases "dedup_run same dp s p ys") auto
  from dedup_loop_state [of len ks "[None]" ys same dp s p R] len run obtain ks' p' hole' ys' where
    l: "dedup_loop same dp s len (gap_state ks p [None] ys R) = Ret (u, gap_state ks' p' hole' ys' R, d)"
      "length ks' + length hole' + length ys' = Suc (length ks + length ys)" "ks @ zs = ks' @ p' # ys'" "u \<or> ys' = []"
    by auto
  have ok': "raw_ok el (map Some ks' @ Some p' # hole' @ map Some ys' @ R)"
    by (rule raw_ok_same_length [OF ok(1)]) (use l(2) in simp)
  show ?thesis
  proof (cases u)
    case True
    from fill_gap_drop_state [OF ok' ok(2)] len l(2) obtain v where
      "fill_gap_drop el (gap_state ks' p' hole' ys' R) = Ret v" "vec_rep el (ks' @ p' # ys') v" by auto
    with True l run show ?thesis by simp
  next
    case False
    with l(4) ok' have "vec_rep el (ks' @ [p']) \<lparr>v_buf = map Some (ks' @ [p']) @ hole' @ R, v_len = Suc (length ks')\<rparr>"
      using ok(2) by (intro vec_repI) auto
    with False l run ok(2) show ?thesis by (simp add: gap_state_def)
  qed
qed

lemma vec_dedup_by_found:
  assumes ok: "raw_ok el (map Some qs @ Some q # None # map Some zs @ R)" "l_size el \<noteq> 0"
    and len: "v_len v = Suc (Suc (length qs + length zs))" "v_len v < usize_bound"
    and first: "first_duplicate same s (v_len v) 1 (v_buf v)
      = Ret (Some (s', Suc (length qs)), map Some qs @ Some q # Some x # map Some zs @ R)"
  shows "case (if dp x then (True, qs @ q # zs, [x])
      else case dedup_run same dp s' q zs of (u, ws, d) \<Rightarrow> (u, qs @ ws, x # d)) of (u, ys, d) \<Rightarrow>
    \<exists>v'. vec_dedup_by el same dp s v = Ret (if u then Unwinding v' else Finished v', d) \<and> vec_rep el ys v'"
proof -
  let ?b = "map Some qs @ Some q # Some x # map Some zs @ R"
  have gap: "\<lparr>gap_read = Suc (Suc (length qs)), gap_write = Suc (length qs), gap_vec = v\<lparr>v_buf := ?b[Suc (length qs) := None]\<rparr>\<rparr>
      = gap_state qs q [None] zs R" using len(1) by (cases v) (simp add: gap_state_def list_update_append)
  have m: "vec_dedup_by el same dp s v =
      (if dp x then and_then (fill_gap_drop el (gap_state qs q [None] zs R)) (\<lambda>v. Ret (Unwinding v, [x]))
       else and_then (dedup_loop same dp s' (v_len v) (gap_state qs q [None] zs R)) (\<lambda>(u, gap, d).
         if u then and_then (fill_gap_drop el gap) (\<lambda>v. Ret (Unwinding v, x # d))
         else and_then (set_len el (gap_vec gap) (gap_write gap)) (\<lambda>v. Ret (Finished v, x # d))))"
    using first len(1) unfolding vec_dedup_by_def Let_def by (simp add: read_pair(2) gap)
  show ?thesis
  proof (cases "dp x")
    case True
    obtain v' where "fill_gap_drop el (gap_state qs q [None] zs R) = Ret v'" "vec_rep el (qs @ q # zs) v'"
      using fill_gap_drop_state [of el qs q "[None]" zs R] ok len by auto
    with m True show ?thesis by simp
  next
    case False
    obtain u ws d where "dedup_run same dp s' q zs = (u, ws, d)" by (cases "dedup_run same dp s' q zs") auto
    with m False dedup_rest [OF ok len, of same dp s' x] show ?thesis by auto
  qed
qed

lemma vec_dedup_by_run:
  assumes "vec_rep el xs v"
  shows "case dedup_list same dp s xs of (u, ys, d) \<Rightarrow>
    \<exists>v'. vec_dedup_by el same dp s v = Ret (if u then Unwinding v' else Finished v', d) \<and> vec_rep el ys v'"
proof -
  from assms obtain R where v: "v = \<lparr>v_buf = map Some xs @ R, v_len = length xs\<rparr>"
    and ok: "raw_ok el (map Some xs @ R)" "l_size el \<noteq> 0" by (rule vec_repE)
  have bound: "length xs < usize_bound" using assms by (rule vec_rep_length_bound)
  have rep: "vec_rep el zs \<lparr>v_buf = map Some zs @ R, v_len = length xs\<rparr>" if "length zs = length xs" for zs
    by (rule vec_repI) (use that ok(2) in \<open>auto intro: raw_ok_same_length [OF ok(1)]\<close>)
  consider "length xs \<le> 1" | p ys where "xs = p # ys" "ys \<noteq> []" by (cases xs) auto
  then show ?thesis
  proof cases
    case 1
    with v assms show ?thesis by (cases xs) (auto simp: vec_dedup_by_def dedup_list_def)
  next
    case xs: 2
    have first: "first_duplicate same s (length xs) 1 (map Some xs @ R) = Ret (case dedup_prefix same s p ys of
         Panicked zs \<Rightarrow> (None, map Some zs @ R)
       | Exhausted s zs \<Rightarrow> (Some (s, length xs), map Some zs @ R)
       | Found s qs q x zs \<Rightarrow> (Some (s, Suc (length qs)), map Some qs @ Some q # Some x # map Some zs @ R))"
      using first_duplicate_prefix [of "length xs" "[]" ys same s p R] bound xs(1) by (simp split: dedup_stop.split)
    have run: "dedup_list same dp s xs = dedup_run same dp s p ys" by (simp add: dedup_list_def xs(1))
    have plen: "case dedup_prefix same s p ys of
        Panicked zs \<Rightarrow> length zs = length xs | Exhausted s zs \<Rightarrow> length zs = length xs
      | Found s qs q x zs \<Rightarrow> length qs + length zs + 2 = length xs"
      using dedup_prefix_length [of ys same s p] xs(1) by (simp split: dedup_stop.splits)
    show ?thesis
    proof (cases "dedup_prefix same s p ys")
      case (Panicked zs)
      with first v xs(2) plen rep [of zs] run show ?thesis
        by (simp add: vec_dedup_by_def dedup_run_prefix [of same dp s p ys] xs(1))
    next
      case (Exhausted s' zs)
      with first v xs(2) plen rep [of zs] run show ?thesis
        by (simp add: vec_dedup_by_def dedup_run_prefix [of same dp s p ys] xs(1))
    next
      case (Found s' qs q x zs)
      have "raw_ok el (map Some qs @ Some q # None # map Some zs @ R)"
        by (rule raw_ok_same_length [OF ok(1)]) (use plen Found in simp)
      from vec_dedup_by_found [OF this ok(2), of v same s s' x dp] first v plen Found bound run show ?thesis
        by (simp add: dedup_run_prefix [of same dp s p ys])
    qed
  qed
qed

lemma dedup_run_conserves:
  assumes "\<And>s x p. fst (snd (same s x p)) = x \<and> fst (snd (snd (same s x p))) = p"
  shows "dedup_run same dp s p xs = (u, ys, d) \<Longrightarrow> mset ys + mset d = add_mset p (mset xs)"
proof (induction xs arbitrary: s p u ys d)
  case (Cons x xs)
  obtain s' a where "same s x p = (s', x, p, a)" using assms [of s x p] by (cases "same s x p") auto
  with Cons show ?case by (auto split: prod.splits option.splits bool.splits if_splits)
qed simp

lemma dedup_run_remdups:
  assumes "\<And>s x p. same s x p = (s, x, p, Some (x = p))" "\<And>x. \<not> dp x"
  shows "\<exists>d. dedup_run same dp s p xs = (False, remdups_adj (p # xs), d)"
proof (induction xs arbitrary: s p)
  case (Cons x xs)
  obtain d where "dedup_run same dp s x xs = (False, remdups_adj (x # xs), d)" using Cons by blast
  then show ?case using assms(1) [of s x p] assms(2) [of x] by simp
qed simp

section \<open>Property\<close>

text \<open>C32: \<open>dedup_by\<close> on a valid vector has no undefined behaviour and ends as the reference definition: it
  shows the closure each element and the last element kept, drops the duplicates in order and keeps the
  others in order. If the closure or a destructor panics, the vector is valid and holds the elements kept
  so far and all elements not yet examined. A closure that does not change the elements loses none and
  none is dropped twice, panic or not; with equality as the closure the result has no adjacent
  duplicates left.\<close>

theorem dedup_by_panic_safe:
  assumes "vec_rep el xs v"
  shows "case dedup_list same dp s xs of (u, ys, d) \<Rightarrow>
    (\<exists>v'. vec_dedup_by el same dp s v = Ret (if u then Unwinding v' else Finished v', d) \<and> vec_rep el ys v')
    \<and> ((\<forall>s x p. fst (snd (same s x p)) = x \<and> fst (snd (snd (same s x p))) = p) \<longrightarrow> mset ys + mset d = mset xs)
    \<and> ((\<forall>s x p. same s x p = (s, x, p, Some (x = p))) \<and> (\<forall>x. \<not> dp x) \<longrightarrow> \<not> u \<and> ys = remdups_adj xs)"
proof -
  obtain u ys d where r: "dedup_list same dp s xs = (u, ys, d)" by (cases "dedup_list same dp s xs") auto
  have "mset ys + mset d = mset xs" if "\<forall>s x p. fst (snd (same s x p)) = x \<and> fst (snd (snd (same s x p))) = p"
    using dedup_run_conserves [of same dp s "hd xs" "tl xs" u ys d] that r by (cases xs) (auto simp: dedup_list_def)
  moreover have "\<not> u \<and> ys = remdups_adj xs"
    if "(\<forall>s x p. same s x p = (s, x, p, Some (x = p))) \<and> (\<forall>x. \<not> dp x)"
    using dedup_run_remdups [of same dp s "hd xs" "tl xs"] that r by (cases xs) (auto simp: dedup_list_def)
  ultimately show ?thesis using vec_dedup_by_run [OF assms, of same dp s] r by simp
qed

theorem dedup_by_panic_safe_witness:
  "\<exists>v'. vec_dedup_by \<lparr>l_size = 4, l_align = 4\<rparr> (\<lambda>s x p. (s, x, p, Some (x = p))) (\<lambda>x. x = CHR ''b'') ()
     \<lparr>v_buf = map Some ''aabbcd'', v_len = 6\<rparr> = Ret (Unwinding v', ''ab'') \<and> vec_rep \<lparr>l_size = 4, l_align = 4\<rparr> ''abcd'' v'"
proof -
  have "vec_rep \<lparr>l_size = 4, l_align = 4\<rparr> ''aabbcd'' \<lparr>v_buf = map Some ''aabbcd'', v_len = 6\<rparr>"
    by (simp add: vec_rep_def raw_ok_def elem_ok_def layout_ok_def demo_pow2 isize_bound_def)
  from dedup_by_panic_safe [OF this, of "\<lambda>s x p. (s, x, p, Some (x = p))" "\<lambda>x. x = CHR ''b''" "()"]
  show ?thesis by (simp add: dedup_list_def)
qed

end
