(* ===== verification/Vec_Drain.thy ===== *)
theory Vec_Drain
  imports Vec_Ops
begin

text \<open>
  Draining and splicing a range of a vector, \<open>library/alloc/src/vec/drain.rs\<close> and \<open>splice.rs\<close>, and
  the check of a range against a length, \<open>library/core/src/slice/index.rs\<close>. While a \<open>Drain\<close> lives,
  the vector's length is the start of the range, so that a leaked iterator leaves a valid vector; the iterator is the pair of
  the indices that bound what it has not yielded. Element types have a non-zero size.
\<close>

section \<open>Ranges\<close>



section \<open>Drain\<close>








section \<open>Splice\<close>










section \<open>Behaviour of a drain\<close>














section \<open>Behaviour of a splice\<close>























lemma yielded_map_Some: "yielded (map Some ys) = ys"
  by (induction ys) auto





section \<open>Property\<close>



end
