(* ===== verification/Linked_List.thy ===== *)
theory Linked_List
  imports Usize Deque_Spec
begin

text \<open>
  \<open>LinkedList\<close>, \<open>library/alloc/src/collections/linked_list.rs\<close>: a doubly linked list over an
  explicit heap of nodes. Following a pointer to memory that is not allocated is undefined behaviour. The allocator is a
  parameter that chooses an address or fails; what the list relies on is that an address it returns is not in use. Lengths and
  indices count nodes that are in memory, so they stay far from the limit of \<open>usize\<close> and are numbers here; a
  subtraction below zero panics.
\<close>

section \<open>Nodes\<close>

record 'a node =
  n_next :: "nat option"
  n_prev :: "nat option"
  n_elem :: 'a

type_synonym 'a heap = "nat \<rightharpoonup> 'a node"
type_synonym 'a node_allocator = "'a heap \<Rightarrow> nat option"

record linked_list =
  ll_head :: "nat option"
  ll_tail :: "nat option"
  ll_len :: nat

definition node_new :: "'a \<Rightarrow> 'a node" where
  "node_new x = \<lparr>n_next = None, n_prev = None, n_elem = x\<rparr>"

definition ll_new :: linked_list where
  "ll_new = \<lparr>ll_head = None, ll_tail = None, ll_len = 0\<rparr>"

definition as_ref :: "'a heap \<Rightarrow> nat \<Rightarrow> 'a node outcome" where
  "as_ref h p = (case h p of Some n \<Rightarrow> Ret n | None \<Rightarrow> UB)"

definition set_next :: "'a heap \<Rightarrow> nat \<Rightarrow> nat option \<Rightarrow> 'a heap outcome" where
  "set_next h p v = and_then (as_ref h p) (\<lambda>n. Ret (h(p \<mapsto> n\<lparr>n_next := v\<rparr>)))"

definition set_prev :: "'a heap \<Rightarrow> nat \<Rightarrow> nat option \<Rightarrow> 'a heap outcome" where
  "set_prev h p v = and_then (as_ref h p) (\<lambda>n. Ret (h(p \<mapsto> n\<lparr>n_prev := v\<rparr>)))"

text \<open>Boxing a new node and taking a node back out of its box.\<close>

definition box_new :: "'a node_allocator \<Rightarrow> 'a heap \<Rightarrow> 'a \<Rightarrow> (nat \<times> 'a heap) outcome" where
  "box_new al h x = (case al h of None \<Rightarrow> Panic | Some p \<Rightarrow> Ret (p, h(p \<mapsto> node_new x)))"

definition box_from_raw :: "'a heap \<Rightarrow> nat \<Rightarrow> ('a node \<times> 'a heap) outcome" where
  "box_from_raw h p = and_then (as_ref h p) (\<lambda>n. Ret (n, h(p := None)))"

definition len_sub :: "linked_list \<Rightarrow> nat \<Rightarrow> linked_list outcome" where
  "len_sub l n = (if n \<le> ll_len l then Ret (l\<lparr>ll_len := ll_len l - n\<rparr>) else Panic)"

text \<open>The two matches that recur in the private methods: the successor pointer of a predecessor, or the head of
  the list if there is none; the predecessor pointer of a successor, or the tail.\<close>

definition link_after :: "'a heap \<Rightarrow> linked_list \<Rightarrow> nat option \<Rightarrow> nat option \<Rightarrow> ('a heap \<times> linked_list) outcome" where
  "link_after h l prv v = (case prv of
     Some q \<Rightarrow> and_then (set_next h q v) (\<lambda>h. Ret (h, l))
   | None \<Rightarrow> Ret (h, l\<lparr>ll_head := v\<rparr>))"

definition link_before :: "'a heap \<Rightarrow> linked_list \<Rightarrow> nat option \<Rightarrow> nat option \<Rightarrow> ('a heap \<times> linked_list) outcome" where
  "link_before h l nxt v = (case nxt of
     Some q \<Rightarrow> and_then (set_prev h q v) (\<lambda>h. Ret (h, l))
   | None \<Rightarrow> Ret (h, l\<lparr>ll_tail := v\<rparr>))"

section \<open>Private methods\<close>

definition push_front_node :: "'a heap \<Rightarrow> linked_list \<Rightarrow> nat \<Rightarrow> ('a heap \<times> linked_list) outcome" where
  "push_front_node h l p =
     and_then (set_next h p (ll_head l)) (\<lambda>h.
       and_then (set_prev h p None) (\<lambda>h.
         and_then (link_before h l (ll_head l) (Some p)) (\<lambda>(h, l).
           Ret (h, l\<lparr>ll_head := Some p, ll_len := ll_len l + 1\<rparr>))))"

definition pop_front_node :: "'a heap \<Rightarrow> linked_list \<Rightarrow> ('a option \<times> 'a heap \<times> linked_list) outcome" where
  "pop_front_node h l = (case ll_head l of
     None \<Rightarrow> Ret (None, h, l)
   | Some p \<Rightarrow> and_then (box_from_raw h p) (\<lambda>(n, h).
       and_then (link_before h (l\<lparr>ll_head := n_next n\<rparr>) (n_next n) None) (\<lambda>(h, l).
         and_then (len_sub l 1) (\<lambda>l. Ret (Some (n_elem n), h, l)))))"

definition push_back_node :: "'a heap \<Rightarrow> linked_list \<Rightarrow> nat \<Rightarrow> ('a heap \<times> linked_list) outcome" where
  "push_back_node h l p =
     and_then (set_next h p None) (\<lambda>h.
       and_then (set_prev h p (ll_tail l)) (\<lambda>h.
         and_then (link_after h l (ll_tail l) (Some p)) (\<lambda>(h, l).
           Ret (h, l\<lparr>ll_tail := Some p, ll_len := ll_len l + 1\<rparr>))))"

definition pop_back_node :: "'a heap \<Rightarrow> linked_list \<Rightarrow> ('a option \<times> 'a heap \<times> linked_list) outcome" where
  "pop_back_node h l = (case ll_tail l of
     None \<Rightarrow> Ret (None, h, l)
   | Some p \<Rightarrow> and_then (box_from_raw h p) (\<lambda>(n, h).
       and_then (link_after h (l\<lparr>ll_tail := n_prev n\<rparr>) (n_prev n) None) (\<lambda>(h, l).
         and_then (len_sub l 1) (\<lambda>l. Ret (Some (n_elem n), h, l)))))"

definition unlink_node :: "'a heap \<Rightarrow> linked_list \<Rightarrow> nat \<Rightarrow> ('a heap \<times> linked_list) outcome" where
  "unlink_node h l p =
     and_then (as_ref h p) (\<lambda>n.
       and_then (link_after h l (n_prev n) (n_next n)) (\<lambda>(h, l).
         and_then (link_before h l (n_next n) (n_prev n)) (\<lambda>(h, l).
           and_then (len_sub l 1) (\<lambda>l. Ret (h, l)))))"

definition splice_nodes :: "'a heap \<Rightarrow> linked_list \<Rightarrow> nat option \<Rightarrow> nat option \<Rightarrow> nat \<Rightarrow> nat \<Rightarrow> nat
    \<Rightarrow> ('a heap \<times> linked_list) outcome" where
  "splice_nodes h l existing_prev existing_next splice_start splice_end splice_length =
     and_then (link_after h l existing_prev (Some splice_start)) (\<lambda>(h, l).
       and_then (link_before h l existing_next (Some splice_end)) (\<lambda>(h, l).
         and_then (set_prev h splice_start existing_prev) (\<lambda>h.
           and_then (set_next h splice_end existing_next) (\<lambda>h.
             Ret (h, l\<lparr>ll_len := ll_len l + splice_length\<rparr>)))))"

definition detach_all_nodes :: "linked_list \<Rightarrow> (nat \<times> nat \<times> nat) option outcome" where
  "detach_all_nodes l = (case ll_head l of
     Some p \<Rightarrow> (case ll_tail l of Some q \<Rightarrow> Ret (Some (p, q, ll_len l)) | None \<Rightarrow> UB)
   | None \<Rightarrow> Ret None)"

text \<open>The results are the heap, the list the method is called on, and the list split off.\<close>

definition split_off_before_node :: "'a heap \<Rightarrow> linked_list \<Rightarrow> nat option \<Rightarrow> nat
    \<Rightarrow> ('a heap \<times> linked_list \<times> linked_list) outcome" where
  "split_off_before_node h l split_node at = (case split_node of
     Some p \<Rightarrow> and_then (as_ref h p) (\<lambda>n.
       and_then (set_prev h p None) (\<lambda>h.
         and_then (case n_prev n of
             Some q \<Rightarrow> and_then (set_next h q None) (\<lambda>h. Ret (h, ll_head l))
           | None \<Rightarrow> Ret (h, None)) (\<lambda>(h, first_part_head).
           and_then (len_sub (l\<lparr>ll_head := Some p\<rparr>) at) (\<lambda>l.
             Ret (h, l, \<lparr>ll_head = first_part_head, ll_tail = n_prev n, ll_len = at\<rparr>)))))
   | None \<Rightarrow> Ret (h, ll_new, l))"

definition split_off_after_node :: "'a heap \<Rightarrow> linked_list \<Rightarrow> nat option \<Rightarrow> nat
    \<Rightarrow> ('a heap \<times> linked_list \<times> linked_list) outcome" where
  "split_off_after_node h l split_node at = (case split_node of
     Some p \<Rightarrow> and_then (as_ref h p) (\<lambda>n.
       and_then (set_next h p None) (\<lambda>h.
         and_then (case n_next n of
             Some q \<Rightarrow> and_then (set_prev h q None) (\<lambda>h. Ret (h, ll_tail l))
           | None \<Rightarrow> Ret (h, None)) (\<lambda>(h, second_part_tail).
           and_then (len_sub l at) (\<lambda>l'.
             Ret (h, l\<lparr>ll_tail := Some p, ll_len := at\<rparr>,
               \<lparr>ll_head = n_next n, ll_tail = second_part_tail, ll_len = ll_len l'\<rparr>)))))
   | None \<Rightarrow> Ret (h, ll_new, l))"

section \<open>Public methods\<close>

definition ll_push_front :: "'a node_allocator \<Rightarrow> 'a heap \<times> linked_list \<Rightarrow> 'a \<Rightarrow> ('a heap \<times> linked_list) outcome" where
  "ll_push_front al = (\<lambda>(h, l) x. and_then (box_new al h x) (\<lambda>(p, h). push_front_node h l p))"

definition ll_push_back :: "'a node_allocator \<Rightarrow> 'a heap \<times> linked_list \<Rightarrow> 'a \<Rightarrow> ('a heap \<times> linked_list) outcome" where
  "ll_push_back al = (\<lambda>(h, l) x. and_then (box_new al h x) (\<lambda>(p, h). push_back_node h l p))"

definition ll_pop_front :: "'a heap \<times> linked_list \<Rightarrow> ('a option \<times> 'a heap \<times> linked_list) outcome" where
  "ll_pop_front = (\<lambda>(h, l). pop_front_node h l)"

definition ll_pop_back :: "'a heap \<times> linked_list \<Rightarrow> ('a option \<times> 'a heap \<times> linked_list) outcome" where
  "ll_pop_back = (\<lambda>(h, l). pop_back_node h l)"

definition ll_front :: "'a heap \<Rightarrow> linked_list \<Rightarrow> 'a option outcome" where
  "ll_front h l = (case ll_head l of None \<Rightarrow> Ret None | Some p \<Rightarrow> and_then (as_ref h p) (\<lambda>n. Ret (Some (n_elem n))))"

definition ll_back :: "'a heap \<Rightarrow> linked_list \<Rightarrow> 'a option outcome" where
  "ll_back h l = (case ll_tail l of None \<Rightarrow> Ret None | Some p \<Rightarrow> and_then (as_ref h p) (\<lambda>n. Ret (Some (n_elem n))))"

text \<open>Appending another list of the same heap; the results are the two lists afterwards.\<close>

definition ll_append :: "'a heap \<Rightarrow> linked_list \<Rightarrow> linked_list \<Rightarrow> ('a heap \<times> linked_list \<times> linked_list) outcome" where
  "ll_append h l other = (case ll_tail l of
     None \<Rightarrow> Ret (h, other, l)
   | Some p \<Rightarrow> (case ll_head other of
       None \<Rightarrow> Ret (h, l, other)
     | Some q \<Rightarrow> and_then (set_next h p (Some q)) (\<lambda>h. and_then (set_prev h q (Some p)) (\<lambda>h.
         Ret (h, l\<lparr>ll_tail := ll_tail other, ll_len := ll_len l + ll_len other\<rparr>, ll_new)))))"

section \<open>Linked segments\<close>

text \<open>A segment lists the nodes between a predecessor and a successor, with their addresses and elements.\<close>

fun first :: "(nat \<times> 'a) list \<Rightarrow> nat option \<Rightarrow> nat option" where
  "first [] nxt = nxt"
| "first (c # cs) nxt = Some (fst c)"

definition final :: "(nat \<times> 'a) list \<Rightarrow> nat option \<Rightarrow> nat option" where
  "final cs prv = (if cs = [] then prv else Some (fst (last cs)))"

abbreviation addrs :: "(nat \<times> 'a) list \<Rightarrow> nat set" where
  "addrs cs \<equiv> fst ` set cs"

fun links :: "'a heap \<Rightarrow> nat option \<Rightarrow> (nat \<times> 'a) list \<Rightarrow> nat option \<Rightarrow> bool" where
  "links h prv [] nxt = True"
| "links h prv (c # cs) nxt \<longleftrightarrow>
     h (fst c) = Some \<lparr>n_next = first cs nxt, n_prev = prv, n_elem = snd c\<rparr> \<and> links h (Some (fst c)) cs nxt"

lemma first_append [simp]: "first (as @ bs) nxt = first as (first bs nxt)"
  by (cases as) auto

lemma final_simps [simp]: "final [] prv = prv" "final (as @ [c]) prv = Some (fst c)"
  by (simp_all add: final_def)

lemma final_Cons [simp]: "final (c # cs) prv = final cs (Some (fst c))"
  by (simp add: final_def)

lemma final_append [simp]: "final (as @ bs) prv = final bs (final as prv)"
  by (simp add: final_def)

lemma links_append [simp]: "links h prv (as @ bs) nxt \<longleftrightarrow> links h prv as (first bs nxt) \<and> links h (final as prv) bs nxt"
  by (induction as arbitrary: prv) auto

lemma links_cong: "(\<And>p. p \<in> addrs cs \<Longrightarrow> h' p = h p) \<Longrightarrow> links h' prv cs nxt = links h prv cs nxt"
  by (induction cs arbitrary: prv) auto

lemma links_allocated: "links h prv cs nxt \<Longrightarrow> p \<in> addrs cs \<Longrightarrow> p \<in> dom h"
  by (induction cs arbitrary: prv) auto

text \<open>Changing the outer pointers of a segment.\<close>

lemma set_prev_segment:
  assumes "links h prv (c # cs) nxt" "fst c \<notin> addrs cs"
  obtains h' where "set_prev h (fst c) v = Ret h'" "links h' v (c # cs) nxt" "\<And>q. q \<noteq> fst c \<Longrightarrow> h' q = h q"
proof -
  let ?n = "\<lparr>n_next = first cs nxt, n_prev = prv, n_elem = snd c\<rparr>"
  let ?h = "h(fst c \<mapsto> ?n\<lparr>n_prev := v\<rparr>)"
  have n: "h (fst c) = Some ?n" using assms(1) by simp
  have "links ?h (Some (fst c)) cs nxt = links h (Some (fst c)) cs nxt" by (rule links_cong) (use assms(2) in \<open>metis fun_upd_other\<close>)
  then have "links ?h v (c # cs) nxt" using assms(1) by simp
  moreover have "set_prev h (fst c) v = Ret ?h" using n by (simp add: set_prev_def as_ref_def)
  ultimately show ?thesis using that [of ?h] by simp
qed

lemma set_next_segment:
  assumes "links h prv (cs @ [c]) nxt" "fst c \<notin> addrs cs"
  obtains h' where "set_next h (fst c) v = Ret h'" "links h' prv (cs @ [c]) v" "\<And>q. q \<noteq> fst c \<Longrightarrow> h' q = h q"
proof -
  let ?n = "\<lparr>n_next = nxt, n_prev = final cs prv, n_elem = snd c\<rparr>"
  let ?h = "h(fst c \<mapsto> ?n\<lparr>n_next := v\<rparr>)"
  have n: "h (fst c) = Some ?n" using assms(1) by simp
  have "links ?h prv cs (Some (fst c)) = links h prv cs (Some (fst c))" by (rule links_cong) (use assms(2) in \<open>metis fun_upd_other\<close>)
  then have "links ?h prv (cs @ [c]) v" using assms(1) by simp
  moreover have "set_next h (fst c) v = Ret ?h" using n by (simp add: set_next_def as_ref_def)
  ultimately show ?thesis using that [of ?h] by simp
qed

text \<open>A list from its head up to a point, and from a point to its tail.\<close>

definition front_part :: "'a heap \<Rightarrow> linked_list \<Rightarrow> (nat \<times> 'a) list \<Rightarrow> nat option \<Rightarrow> bool" where
  "front_part h l cs nxt \<longleftrightarrow> links h None cs nxt \<and> ll_head l = first cs nxt \<and> distinct (map fst cs)"

definition back_part :: "'a heap \<Rightarrow> linked_list \<Rightarrow> (nat \<times> 'a) list \<Rightarrow> nat option \<Rightarrow> bool" where
  "back_part h l cs prv \<longleftrightarrow> links h prv cs None \<and> ll_tail l = final cs prv \<and> distinct (map fst cs)"

lemma link_after_part:
  assumes "front_part h l cs nxt"
  obtains h' l' where "link_after h l (final cs None) v = Ret (h', l')" "front_part h' l' cs v"
    "ll_tail l' = ll_tail l" "ll_len l' = ll_len l" "\<And>q. q \<notin> addrs cs \<Longrightarrow> h' q = h q"
proof (cases cs rule: rev_cases)
  case Nil
  with assms show ?thesis using that [of h "l\<lparr>ll_head := v\<rparr>"] by (simp add: link_after_def front_part_def)
next
  case (snoc as c)
  with assms obtain h' where h': "set_next h (fst c) v = Ret h'" "links h' None (as @ [c]) v"
    "\<And>q. q \<noteq> fst c \<Longrightarrow> h' q = h q"
    using set_next_segment [of h None as c nxt v] by (auto simp: front_part_def)
  have "ll_head l = first (as @ [c]) v" using assms snoc by (cases as) (auto simp: front_part_def)
  with assms snoc h' show ?thesis using that [of h' l] by (auto simp: link_after_def front_part_def)
qed

lemma link_before_part:
  assumes "back_part h l cs prv"
  obtains h' l' where "link_before h l (first cs None) v = Ret (h', l')" "back_part h' l' cs v"
    "ll_head l' = ll_head l" "ll_len l' = ll_len l" "\<And>q. q \<notin> addrs cs \<Longrightarrow> h' q = h q"
proof (cases cs)
  case Nil
  with assms show ?thesis using that [of h "l\<lparr>ll_tail := v\<rparr>"] by (simp add: link_before_def back_part_def)
next
  case (Cons c bs)
  with assms obtain h' where h': "set_prev h (fst c) v = Ret h'" "links h' v (c # bs) None"
    "\<And>q. q \<noteq> fst c \<Longrightarrow> h' q = h q"
    using set_prev_segment [of h prv c bs None v] by (auto simp: back_part_def)
  have "ll_tail l = final (c # bs) v" using assms Cons by (auto simp: back_part_def)
  with assms Cons h' show ?thesis using that [of h' l] by (auto simp: link_before_def back_part_def)
qed

section \<open>The invariant\<close>

definition ll_rep :: "'a heap \<Rightarrow> (nat \<times> 'a) list \<Rightarrow> linked_list \<Rightarrow> bool" where
  "ll_rep h cs l \<longleftrightarrow> links h None cs None \<and> distinct (map fst cs) \<and> ll_head l = first cs None
     \<and> ll_tail l = final cs None \<and> ll_len l = length cs"

lemma ll_rep_split:
  "ll_rep h (as @ bs) l \<longleftrightarrow> front_part h l as (first bs None) \<and> back_part h l bs (final as None)
     \<and> addrs as \<inter> addrs bs = {} \<and> ll_len l = length as + length bs"
  by (auto simp: ll_rep_def front_part_def back_part_def)

lemma part_cong:
  "\<forall>p\<in>addrs cs. h' p = h p \<Longrightarrow> ll_head l' = ll_head l \<Longrightarrow> front_part h' l' cs nxt = front_part h l cs nxt"
  "\<forall>p\<in>addrs cs. h' p = h p \<Longrightarrow> ll_tail l' = ll_tail l \<Longrightarrow> back_part h' l' cs prv = back_part h l cs prv"
  using links_cong [of cs h' h] by (auto simp: front_part_def back_part_def)

lemma ll_rep_cong: "\<forall>p\<in>addrs cs. h' p = h p \<Longrightarrow> ll_rep h' cs l = ll_rep h cs l"
  using links_cong [of cs h' h] by (auto simp: ll_rep_def)

lemma ll_new_rep [simp]: "ll_rep h [] ll_new"
  by (simp add: ll_rep_def ll_new_def)

text \<open>What a list does not own is its frame; memory is neither leaked nor touched outside the list when the frame
  stays the same.\<close>

definition frame :: "'a heap \<Rightarrow> (nat \<times> 'a) list \<Rightarrow> 'a heap" where
  "frame h cs = h |` (- addrs cs)"

lemma frame_eqI:
  "(\<And>q. q \<notin> addrs cs \<Longrightarrow> q \<notin> addrs cs' \<Longrightarrow> h' q = h q) \<Longrightarrow> (\<And>q. q \<notin> addrs cs' \<Longrightarrow> q \<in> addrs cs \<Longrightarrow> h' q = None)
     \<Longrightarrow> (\<And>q. q \<notin> addrs cs \<Longrightarrow> q \<in> addrs cs' \<Longrightarrow> h q = None) \<Longrightarrow> frame h' cs' = frame h cs"
  by (auto simp: frame_def restrict_map_def fun_eq_iff)

section \<open>Behaviour of the methods\<close>

lemma as_ref_Cons: "links h prv (c # cs) nxt \<Longrightarrow>
    as_ref h (fst c) = Ret \<lparr>n_next = first cs nxt, n_prev = prv, n_elem = snd c\<rparr>"
  by (simp add: as_ref_def)

text \<open>A spliced segment between two parts of the list.\<close>

lemma splice_nodes_rep:
  assumes rep: "ll_rep h (as @ bs) l"
    and seg: "links h p0 (m # ms) n0" "distinct (map fst (m # ms))" "addrs (m # ms) \<inter> addrs (as @ bs) = {}"
  obtains h' l' where "splice_nodes h l (final as None) (first bs None) (fst m) (fst (last (m # ms))) (length (m # ms)) = Ret (h', l')"
    "ll_rep h' (as @ m # ms @ bs) l'" "\<And>q. q \<notin> addrs (as @ m # ms @ bs) \<Longrightarrow> h' q = h q"
proof -
  let ?M = "m # ms" and ?e = "fst (last (m # ms))"
  from rep have f: "front_part h l as (first bs None)" and b: "back_part h l bs (final as None)"
    and d: "addrs as \<inter> addrs bs = {}" and len: "ll_len l = length as + length bs" by (simp_all add: ll_rep_split)
  obtain h1 l1 where 1: "link_after h l (final as None) (Some (fst m)) = Ret (h1, l1)" "front_part h1 l1 as (Some (fst m))"
    "ll_tail l1 = ll_tail l" "ll_len l1 = ll_len l" "\<And>q. q \<notin> addrs as \<Longrightarrow> h1 q = h q" by (rule link_after_part [OF f, where v = "Some (fst m)"]) blast
  have b1: "back_part h1 l1 bs (final as None)" 
  proof -
    have "\<forall>p\<in>addrs bs. h1 p = h p" using d 1(5) by (metis disjoint_iff)
    then show ?thesis using part_cong(2) [OF _ 1(3)] b by blast
  qed
  obtain h2 l2 where 2: "link_before h1 l1 (first bs None) (Some ?e) = Ret (h2, l2)" "back_part h2 l2 bs (Some ?e)"
    "ll_head l2 = ll_head l1" "ll_len l2 = ll_len l1" "\<And>q. q \<notin> addrs bs \<Longrightarrow> h2 q = h1 q" by (rule link_before_part [OF b1, where v = "Some ?e"]) blast
  have dM: "addrs ?M \<inter> addrs as = {}" "addrs ?M \<inter> addrs bs = {}" using seg(3) by (auto simp: image_Un)
  have "h2 p = h p" if "p \<in> addrs ?M" for p using that dM 1(5) 2(5) by (metis disjoint_iff)
  then have m2: "links h2 p0 ?M n0" using links_cong [of ?M h2 h] seg(1) by blast
  obtain h3 where 3: "set_prev h2 (fst m) (final as None) = Ret h3" "links h3 (final as None) ?M n0"
    "\<And>q. q \<noteq> fst m \<Longrightarrow> h3 q = h2 q" using set_prev_segment [OF m2, where v = "final as None"] seg(2) by auto
  obtain us u where M: "?M = us @ [u]" by (metis append_butlast_last_id list.distinct(1))
  have u: "?e = fst u" using M by simp
  obtain h4 where 4: "set_next h3 ?e (first bs None) = Ret h4" "links h4 (final as None) ?M (first bs None)"
    "\<And>q. q \<noteq> ?e \<Longrightarrow> h4 q = h3 q"
    using set_next_segment [of h3 "final as None" us u n0 "first bs None"] 3(2) seg(2) unfolding M u by auto
  have e: "fst m \<in> addrs ?M" "?e \<in> addrs ?M" by (simp, rule imageI, rule last_in_set, simp)
  have out: "h4 q = h2 q" if "q \<notin> addrs ?M" for q using 3(3) [of q] 4(3) [of q] e that by metis
  let ?l = "l2\<lparr>ll_len := ll_len l2 + length ?M\<rparr>"
  have inB: "\<forall>p\<in>addrs bs. h4 p = h2 p" using out dM(2) by (metis disjoint_iff)
  have inA: "\<forall>p\<in>addrs as. h4 p = h1 p" using out dM(1) 2(5) d by (metis disjoint_iff)
  have fa: "front_part h4 ?l as (Some (fst m))"
    using part_cong(1) [OF inA, of ?l l1] 1(2) 2(3) by simp
  have ba: "back_part h4 ?l bs (Some ?e)" using part_cong(2) [OF inB, of ?l l2] 2(2) by simp
  have "ll_rep h4 (as @ ?M @ bs) ?l"
  proof -
    have fM: "final ?M p = Some ?e" for p by (simp add: final_def)
    have "links h4 (final as None) (?M @ bs) None" using 4(2) ba unfolding links_append fM back_part_def by simp
    moreover have "final (?M @ bs) p = final bs (Some ?e)" for p unfolding final_append fM ..
    moreover have "addrs (as @ bs) \<inter> addrs ?M = {}" using seg(3) by blast
    ultimately show ?thesis using fa ba 4(2) d dM seg(2) len 1(4) 2(4)
      by (simp add: ll_rep_def front_part_def back_part_def image_Un Int_Un_distrib2 Int_commute Int_Un_distrib
          del: links.simps final_Cons last.simps)
  qed
  moreover have "splice_nodes h l (final as None) (first bs None) (fst m) ?e (length ?M) = Ret (h4, ?l)"
    using 1(1) 2(1) 3(1) 4(1) by (simp add: splice_nodes_def del: last.simps)
  moreover have "h4 q = h q" if "q \<notin> addrs (as @ m # ms @ bs)" for q
    using that out 1(5) 2(5) by (simp add: image_Un)
  ultimately show ?thesis using that [of h4 ?l] by simp
qed

lemma unlink_node_rep:
  assumes rep: "ll_rep h (as @ c # bs) l"
  obtains h' l' where "unlink_node h l (fst c) = Ret (h', l')" "ll_rep h' (as @ bs) l'" "h' (fst c) = h (fst c)"
    "\<And>q. q \<notin> addrs (as @ bs) \<Longrightarrow> h' q = h q"
proof -
  from rep have f: "front_part h l as (Some (fst c))" and b: "back_part h l (c # bs) (final as None)"
    and d: "addrs as \<inter> addrs (c # bs) = {}" and len: "ll_len l = length as + length (c # bs)" by (simp_all add: ll_rep_split)
  have n: "as_ref h (fst c) = Ret \<lparr>n_next = first bs None, n_prev = final as None, n_elem = snd c\<rparr>"
    using b by (intro as_ref_Cons) (simp add: back_part_def)
  obtain h1 l1 where 1: "link_after h l (final as None) (first bs None) = Ret (h1, l1)" "front_part h1 l1 as (first bs None)"
    "ll_tail l1 = ll_tail l" "ll_len l1 = ll_len l" "\<And>q. q \<notin> addrs as \<Longrightarrow> h1 q = h q" by (rule link_after_part [OF f, where v = "first bs None"]) blast
  have dA: "addrs as \<inter> addrs bs = {}" using d by simp
  have b1: "back_part h1 l1 bs (Some (fst c)) "
  proof -
    have "back_part h l bs (Some (fst c))" using b by (simp add: back_part_def)
    moreover have "\<forall>p\<in>addrs bs. h1 p = h p" using dA 1(5) by (metis disjoint_iff)
    ultimately show ?thesis using part_cong(2) [OF _ 1(3)] by blast
  qed
  obtain h2 l2 where 2: "link_before h1 l1 (first bs None) (final as None) = Ret (h2, l2)" "back_part h2 l2 bs (final as None)"
    "ll_head l2 = ll_head l1" "ll_len l2 = ll_len l1" "\<And>q. q \<notin> addrs bs \<Longrightarrow> h2 q = h1 q" by (rule link_before_part [OF b1, where v = "final as None"]) blast
  let ?l = "l2\<lparr>ll_len := ll_len l2 - 1\<rparr>"
  have "\<forall>p\<in>addrs as. h2 p = h1 p" using 2(5) dA by (metis disjoint_iff)
  then have fa: "front_part h2 ?l as (first bs None)" using part_cong(1) [of as h2 h1 ?l l1] 1(2) 2(3) by simp
  have ba: "back_part h2 ?l bs (final as None)" using 2(2) by (simp add: back_part_def)
  have c: "fst c \<notin> addrs as" "fst c \<notin> addrs bs" using rep by (auto simp: ll_rep_def)
  have "ll_rep h2 (as @ bs) ?l" using fa ba d len 1(4) 2(4) by (simp add: ll_rep_split)
  moreover have "unlink_node h l (fst c) = Ret (h2, ?l)"
    using n 1(1) 2(1) len 1(4) 2(4) by (simp add: unlink_node_def len_sub_def)
  moreover have "h2 (fst c) = h (fst c)" using c 1(5) 2(5) by metis
  moreover have "h2 q = h q" if "q \<notin> addrs (as @ bs)" for q using that 1(5) 2(5) by (simp add: image_Un)
  ultimately show ?thesis using that [of h2 ?l] by blast
qed

lemma push_front_node_rep:
  assumes rep: "ll_rep h cs l" and p: "h p = Some n" "p \<notin> addrs cs"
  obtains h' l' where "push_front_node h l p = Ret (h', l')" "ll_rep h' ((p, n_elem n) # cs) l'"
    "\<And>q. q \<noteq> p \<Longrightarrow> q \<notin> addrs cs \<Longrightarrow> h' q = h q"
proof -
  define h1 where "h1 = h(p \<mapsto> \<lparr>n_next = first cs None, n_prev = None, n_elem = n_elem n\<rparr>)"
  have head: "ll_head l = first cs None" using rep by (simp add: ll_rep_def)
  have s: "and_then (set_next h p (ll_head l)) (\<lambda>h. set_prev h p None) = Ret h1"
    using p(1) head by (cases n) (simp add: set_next_def set_prev_def as_ref_def h1_def)
  have "links h1 u cs w = links h u cs w" for u w
    by (rule links_cong) (use p(2) in \<open>unfold h1_def, metis fun_upd_other\<close>)
  with rep have b: "back_part h1 l cs None" by (simp add: back_part_def ll_rep_def)
  obtain h2 l2 where 2: "link_before h1 l (first cs None) (Some p) = Ret (h2, l2)" "back_part h2 l2 cs (Some p)"
    "ll_head l2 = ll_head l" "ll_len l2 = ll_len l" "\<And>q. q \<notin> addrs cs \<Longrightarrow> h2 q = h1 q"
    by (rule link_before_part [OF b, where v = "Some p"]) blast
  let ?l = "l2\<lparr>ll_head := Some p, ll_len := ll_len l2 + 1\<rparr>"
  have "h2 p = Some \<lparr>n_next = first cs None, n_prev = None, n_elem = n_elem n\<rparr>" using 2(5) [OF p(2)] by (simp add: h1_def)
  then have "ll_rep h2 ((p, n_elem n) # cs) ?l" using 2(2,4) rep p(2) by (simp add: ll_rep_def back_part_def)
  moreover have "push_front_node h l p = Ret (h2, ?l)"
    using s 2(1) head by (auto simp: push_front_node_def outcome_simps and_then_assoc [symmetric])
  moreover have "h2 q = h q" if "q \<noteq> p" "q \<notin> addrs cs" for q using that 2(5) by (simp add: h1_def)
  ultimately show ?thesis using that by blast
qed

lemma push_back_node_rep:
  assumes rep: "ll_rep h cs l" and p: "h p = Some n" "p \<notin> addrs cs"
  obtains h' l' where "push_back_node h l p = Ret (h', l')" "ll_rep h' (cs @ [(p, n_elem n)]) l'"
    "\<And>q. q \<noteq> p \<Longrightarrow> q \<notin> addrs cs \<Longrightarrow> h' q = h q"
proof -
  define h1 where "h1 = h(p \<mapsto> \<lparr>n_next = None, n_prev = final cs None, n_elem = n_elem n\<rparr>)"
  have tail: "ll_tail l = final cs None" using rep by (simp add: ll_rep_def)
  have s: "and_then (set_next h p None) (\<lambda>h. set_prev h p (ll_tail l)) = Ret h1"
    using p(1) tail by (cases n) (simp add: set_next_def set_prev_def as_ref_def h1_def)
  have "links h1 u cs w = links h u cs w" for u w
    by (rule links_cong) (use p(2) in \<open>unfold h1_def, metis fun_upd_other\<close>)
  with rep have f: "front_part h1 l cs None" by (simp add: front_part_def ll_rep_def)
  obtain h2 l2 where 2: "link_after h1 l (final cs None) (Some p) = Ret (h2, l2)" "front_part h2 l2 cs (Some p)"
    "ll_tail l2 = ll_tail l" "ll_len l2 = ll_len l" "\<And>q. q \<notin> addrs cs \<Longrightarrow> h2 q = h1 q"
    by (rule link_after_part [OF f, where v = "Some p"]) blast
  let ?l = "l2\<lparr>ll_tail := Some p, ll_len := ll_len l2 + 1\<rparr>"
  have "h2 p = Some \<lparr>n_next = None, n_prev = final cs None, n_elem = n_elem n\<rparr>" using 2(5) [OF p(2)] by (simp add: h1_def)
  then have "ll_rep h2 (cs @ [(p, n_elem n)]) ?l" using 2(2,4) rep p(2) by (simp add: ll_rep_def front_part_def)
  moreover have "push_back_node h l p = Ret (h2, ?l)"
    using s 2(1) tail by (auto simp: push_back_node_def outcome_simps and_then_assoc [symmetric])
  moreover have "h2 q = h q" if "q \<noteq> p" "q \<notin> addrs cs" for q using that 2(5) by (simp add: h1_def)
  ultimately show ?thesis using that by blast
qed

lemma pop_front_node_rep:
  assumes rep: "ll_rep h (c # cs) l"
  obtains h' l' where "pop_front_node h l = Ret (Some (snd c), h', l')" "ll_rep h' cs l'" "h' (fst c) = None"
    "\<And>q. q \<notin> addrs (c # cs) \<Longrightarrow> h' q = h q"
proof -
  let ?n = "\<lparr>n_next = first cs None, n_prev = None, n_elem = snd c\<rparr>" and ?h = "h(fst c := None)"
  let ?l = "l\<lparr>ll_head := first cs None\<rparr>"
  have c: "fst c \<notin> addrs cs" and n: "h (fst c) = Some ?n" using rep by (simp_all add: ll_rep_def)
  have "links ?h u cs w = links h u cs w" for u w
    by (rule links_cong) (use c in \<open>metis fun_upd_other\<close>)
  with rep have b: "back_part ?h ?l cs (Some (fst c))" by (simp add: back_part_def ll_rep_def)
  obtain h2 l2 where 2: "link_before ?h ?l (first cs None) None = Ret (h2, l2)" "back_part h2 l2 cs None"
    "ll_head l2 = ll_head ?l" "ll_len l2 = ll_len ?l" "\<And>q. q \<notin> addrs cs \<Longrightarrow> h2 q = ?h q"
    by (rule link_before_part [OF b, where v = None]) blast
  let ?l2 = "l2\<lparr>ll_len := ll_len l2 - 1\<rparr>"
  have "ll_rep h2 cs ?l2" using 2(2-4) rep by (simp add: ll_rep_def back_part_def)
  moreover have "pop_front_node h l = Ret (Some (snd c), h2, ?l2)"
    using n 2(1,4) rep by (simp add: pop_front_node_def box_from_raw_def as_ref_def len_sub_def ll_rep_def)
  ultimately show ?thesis using that 2(5) c by simp
qed

lemma pop_back_node_rep:
  assumes rep: "ll_rep h (cs @ [c]) l"
  obtains h' l' where "pop_back_node h l = Ret (Some (snd c), h', l')" "ll_rep h' cs l'" "h' (fst c) = None"
    "\<And>q. q \<notin> addrs (cs @ [c]) \<Longrightarrow> h' q = h q"
proof -
  let ?n = "\<lparr>n_next = None, n_prev = final cs None, n_elem = snd c\<rparr>" and ?h = "h(fst c := None)"
  let ?l = "l\<lparr>ll_tail := final cs None\<rparr>"
  have c: "fst c \<notin> addrs cs" and n: "h (fst c) = Some ?n" using rep by (simp_all add: ll_rep_def)
  have "links ?h u cs w = links h u cs w" for u w
    by (rule links_cong) (use c in \<open>metis fun_upd_other\<close>)
  with rep have f: "front_part ?h ?l cs (Some (fst c))" by (simp add: front_part_def ll_rep_def)
  obtain h2 l2 where 2: "link_after ?h ?l (final cs None) None = Ret (h2, l2)" "front_part h2 l2 cs None"
    "ll_tail l2 = ll_tail ?l" "ll_len l2 = ll_len ?l" "\<And>q. q \<notin> addrs cs \<Longrightarrow> h2 q = ?h q"
    by (rule link_after_part [OF f, where v = None]) blast
  let ?l2 = "l2\<lparr>ll_len := ll_len l2 - 1\<rparr>"
  have "ll_rep h2 cs ?l2" using 2(2-4) rep by (simp add: ll_rep_def front_part_def)
  moreover have "pop_back_node h l = Ret (Some (snd c), h2, ?l2)"
    using n 2(1,4) rep by (simp add: pop_back_node_def box_from_raw_def as_ref_def len_sub_def ll_rep_def)
  ultimately show ?thesis using that 2(5) c by simp
qed

lemma ll_append_rep:
  assumes l: "ll_rep h as l" and m: "ll_rep h bs m" and d: "addrs as \<inter> addrs bs = {}"
  obtains h' l' where "ll_append h l m = Ret (h', l', ll_new)" "ll_rep h' (as @ bs) l'"
    "\<And>q. q \<notin> addrs (as @ bs) \<Longrightarrow> h' q = h q"
proof (cases as rule: rev_cases)
  case Nil
  then have "l = ll_new" using l by (cases l) (simp add: ll_rep_def ll_new_def)
  with Nil m show ?thesis using that [of h m] by (simp add: ll_append_def ll_new_def)
next
  case as: (snoc as' a)
  show ?thesis
  proof (cases bs)
    case Nil
    then have "m = ll_new" using m by (cases m) (simp add: ll_rep_def ll_new_def)
    with Nil l as show ?thesis using that [of h l] by (simp add: ll_append_def ll_new_def ll_rep_def)
  next
    case bs: (Cons b bs')
    have la: "links h None (as' @ [a]) None" "fst a \<notin> addrs as'" and lb: "links h None (b # bs') None" "fst b \<notin> addrs bs'"
      and ab: "fst a \<notin> addrs (b # bs')" "fst b \<notin> addrs (as' @ [a])" using l m d as bs by (auto simp: ll_rep_def)
    obtain h1 where 1: "set_next h (fst a) (Some (fst b)) = Ret h1" "links h1 None (as' @ [a]) (Some (fst b))"
      "\<And>q. q \<noteq> fst a \<Longrightarrow> h1 q = h q" by (rule set_next_segment [OF la, where v = "Some (fst b)"]) blast
    have "links h1 None (b # bs') None = links h None (b # bs') None" by (rule links_cong) (use 1(3) ab(1) in metis)
    with lb have lb1: "links h1 None (b # bs') None" by blast
    obtain h2 where 2: "set_prev h1 (fst b) (Some (fst a)) = Ret h2" "links h2 (Some (fst a)) (b # bs') None"
      "\<And>q. q \<noteq> fst b \<Longrightarrow> h2 q = h1 q" by (rule set_prev_segment [OF lb1 lb(2), where v = "Some (fst a)"]) blast
    have "links h2 None (as' @ [a]) (Some (fst b)) = links h1 None (as' @ [a]) (Some (fst b))"
      by (rule links_cong) (use 2(3) ab(2) in metis)
    with 1 have la2: "links h2 None (as' @ [a]) (Some (fst b))" by blast
    let ?l = "l\<lparr>ll_tail := ll_tail m, ll_len := ll_len l + ll_len m\<rparr>"
    have "ll_rep h2 (as @ bs) ?l" using l m la2 2(2) d as bs
      by (simp add: ll_rep_def image_Un Int_Un_distrib Int_Un_distrib2)
    moreover have "ll_append h l m = Ret (h2, ?l, ll_new)" using l m as bs 1(1) 2(1) by (simp add: ll_append_def ll_rep_def)
    moreover have "h2 q = h q" if "q \<notin> addrs (as @ bs)" for q using that 1(3) 2(3) as bs by (auto simp: image_Un)
    ultimately show ?thesis using that by blast
  qed
qed

lemma split_off_after_node_rep:
  assumes rep: "ll_rep h (as @ bs) l" and as: "as \<noteq> []"
  obtains h' l' m where "split_off_after_node h l (final as None) (length as) = Ret (h', l', m)"
    "ll_rep h' as l'" "ll_rep h' bs m" "\<And>q. q \<notin> addrs (as @ bs) \<Longrightarrow> h' q = h q"
proof -
  obtain as' a where a: "as = as' @ [a]" using as by (cases as rule: rev_cases) auto
  have f: "links h None (as' @ [a]) (first bs None)" "fst a \<notin> addrs as'" and b: "links h (Some (fst a)) bs None"
    and d: "addrs as \<inter> addrs bs = {}" and len: "ll_len l = length as + length bs"
    using rep a by (auto simp: ll_rep_def)
  have n: "as_ref h (fst a) = Ret \<lparr>n_next = first bs None, n_prev = final as' None, n_elem = snd a\<rparr>"
    using f(1) by (simp add: as_ref_def)
  obtain h1 where 1: "set_next h (fst a) None = Ret h1" "links h1 None (as' @ [a]) None" "\<And>q. q \<noteq> fst a \<Longrightarrow> h1 q = h q"
    by (rule set_next_segment [OF f, where v = None]) blast
  have a_bs: "fst a \<notin> addrs bs" using d a by auto
  have "links h1 (Some (fst a)) bs None = links h (Some (fst a)) bs None" by (rule links_cong) (use 1(3) a_bs in metis)
  with b have b1: "links h1 (Some (fst a)) bs None" by blast
  have head: "ll_head l = first as None" using rep a by (cases as') (simp_all add: ll_rep_def)
  let ?l = "l\<lparr>ll_tail := Some (fst a), ll_len := length as\<rparr>"
  have dist: "distinct (map fst as)" "distinct (map fst bs)" using rep by (simp_all add: ll_rep_def)
  show ?thesis
  proof (cases bs)
    case Nil
    have "ll_rep h1 as ?l" using 1(2) head dist a by (simp add: ll_rep_def)
    then show ?thesis using that [of h1 ?l ll_new] n 1(1,3) len Nil a
      by (simp add: split_off_after_node_def len_sub_def ll_new_def ll_new_rep [unfolded ll_new_def])
  next
    case (Cons c bs')
    obtain h2 where 2: "set_prev h1 (fst c) None = Ret h2" "links h2 None (c # bs') None" "\<And>q. q \<noteq> fst c \<Longrightarrow> h2 q = h1 q"
      using set_prev_segment [of h1 "Some (fst a)" c bs' None None] b1 dist(2) Cons by auto
    have c_as: "fst c \<notin> addrs (as' @ [a])" using d a Cons by auto
    have "links h2 None (as' @ [a]) None = links h1 None (as' @ [a]) None" by (rule links_cong) (use 2(3) c_as in metis)
    with 1(2) have "ll_rep h2 as ?l" using head dist a by (simp add: ll_rep_def)
    moreover have "ll_rep h2 bs \<lparr>ll_head = Some (fst c), ll_tail = ll_tail l, ll_len = length bs\<rparr>"
      using 2(2) dist Cons rep a by (simp add: ll_rep_def)
    ultimately show ?thesis using that [of h2 ?l "\<lparr>ll_head = Some (fst c), ll_tail = ll_tail l, ll_len = length bs\<rparr>"]
        n 1(1,3) 2(1,3) len Cons a by (simp add: split_off_after_node_def len_sub_def image_Un)
  qed
qed

lemma split_off_before_node_rep:
  assumes rep: "ll_rep h (as @ bs) l" and bs: "bs \<noteq> []"
  obtains h' l' m where "split_off_before_node h l (first bs None) (length as) = Ret (h', l', m)"
    "ll_rep h' bs l'" "ll_rep h' as m" "\<And>q. q \<notin> addrs (as @ bs) \<Longrightarrow> h' q = h q"
proof -
  obtain c bs' where c: "bs = c # bs'" using bs by (cases bs) auto
  have f: "links h None as (Some (fst c))" and b: "links h (final as None) (c # bs') None" "fst c \<notin> addrs bs'"
    and d: "addrs as \<inter> addrs bs = {}" and len: "ll_len l = length as + length bs"
    using rep c by (auto simp: ll_rep_def)
  have n: "as_ref h (fst c) = Ret \<lparr>n_next = first bs' None, n_prev = final as None, n_elem = snd c\<rparr>"
    using b(1) by (rule as_ref_Cons)
  obtain h1 where 1: "set_prev h (fst c) None = Ret h1" "links h1 None (c # bs') None" "\<And>q. q \<noteq> fst c \<Longrightarrow> h1 q = h q"
    by (rule set_prev_segment [OF b, where v = None]) blast
  have c_as: "fst c \<notin> addrs as" using d c by auto
  have "links h1 None as (Some (fst c)) = links h None as (Some (fst c))" by (rule links_cong) (use 1(3) c_as in metis)
  with f have f1: "links h1 None as (Some (fst c))" by blast
  let ?l = "l\<lparr>ll_head := Some (fst c), ll_len := length bs\<rparr>"
  have dist: "distinct (map fst as)" "distinct (map fst bs)" using rep by (simp_all add: ll_rep_def)
  have tail: "ll_tail l = final bs None" using rep c by (simp add: ll_rep_def)
  show ?thesis
  proof (cases as rule: rev_cases)
    case Nil
    have "ll_rep h1 bs ?l" using 1(2) tail dist c by (simp add: ll_rep_def)
    then show ?thesis using that [of h1 ?l ll_new] n 1(1,3) len Nil c
      by (simp add: split_off_before_node_def len_sub_def ll_new_def ll_new_rep [unfolded ll_new_def])
  next
    case (snoc as' a)
    obtain h2 where 2: "set_next h1 (fst a) None = Ret h2" "links h2 None (as' @ [a]) None" "\<And>q. q \<noteq> fst a \<Longrightarrow> h2 q = h1 q"
      using set_next_segment [of h1 None as' a "Some (fst c)" None] f1 dist(1) snoc by auto
    have a_bs: "fst a \<notin> addrs (c # bs')" using d c snoc by auto
    have "links h2 None (c # bs') None = links h1 None (c # bs') None" by (rule links_cong) (use 2(3) a_bs in metis)
    with 1(2) have "ll_rep h2 bs ?l" using tail dist c by (simp add: ll_rep_def)
    moreover have "ll_rep h2 as \<lparr>ll_head = ll_head l, ll_tail = Some (fst a), ll_len = length as\<rparr>"
      using 2(2) dist snoc rep c by (cases as') (simp_all add: ll_rep_def)
    ultimately show ?thesis using that [of h2 ?l "\<lparr>ll_head = ll_head l, ll_tail = Some (fst a), ll_len = length as\<rparr>"]
        n 1(1,3) 2(1,3) len snoc c by (simp add: split_off_before_node_def len_sub_def image_Un)
  qed
qed

section \<open>A double-ended queue\<close>

text \<open>The documented behaviour of an allocator: it returns memory that is not in use.\<close>

definition allocates :: "'a node_allocator \<Rightarrow> bool" where
  "allocates al \<longleftrightarrow> (\<forall>h p. al h = Some p \<longrightarrow> h p = None)"

text \<open>A heap and a list represent a list of elements within a frame: the nodes of the list, and nothing
  else, are allocated besides the frame.\<close>

definition ll_models :: "'a heap \<Rightarrow> 'a heap \<times> linked_list \<Rightarrow> 'a list \<Rightarrow> bool" where
  "ll_models F s xs \<longleftrightarrow> (\<exists>cs. ll_rep (fst s) cs (snd s) \<and> map snd cs = xs \<and> frame (fst s) cs = F)"

lemma ll_modelsI:
  "ll_rep h' cs' l' \<Longrightarrow> map snd cs' = xs \<Longrightarrow> frame h' cs' = F \<Longrightarrow> ll_models F (h', l') xs"
  by (auto simp: ll_models_def)

lemma box_new_cases:
  assumes "allocates al"
  obtains "al h = None" "box_new al h x = Panic"
    | p where "al h \<noteq> None" "box_new al h x = Ret (p, h(p \<mapsto> node_new x))" "h p = None"
  using assms by (cases "al h") (auto simp: box_new_def allocates_def)

lemma node_new_elem: "n_elem (node_new x) = x"
  by (simp add: node_new_def)

lemma box_new_rep:
  assumes "ll_rep h cs l" "h p = None"
  shows "ll_rep (h(p \<mapsto> n)) cs l" "p \<notin> addrs cs"
proof -
  show "p \<notin> addrs cs" using links_allocated [of h None cs None p] assms by (auto simp: ll_rep_def)
  then have "\<forall>q\<in>addrs cs. (h(p \<mapsto> n)) q = h q" by (metis fun_upd_other)
  then show "ll_rep (h(p \<mapsto> n)) cs l" using ll_rep_cong [of cs "h(p \<mapsto> n)" h l] assms(1) by blast
qed

lemma frame_grown:
  assumes "h p = None" "p \<notin> addrs cs" "\<And>q. q \<noteq> p \<Longrightarrow> q \<notin> addrs cs \<Longrightarrow> h' q = h q" "addrs cs' = insert p (addrs cs)"
  shows "frame h' cs' = frame h cs"
  by (rule frame_eqI) (use assms in auto)

lemma frame_shrunk:
  assumes "h' p = None" "addrs cs = insert p (addrs cs')" "\<And>q. q \<notin> addrs cs \<Longrightarrow> h' q = h q"
  shows "frame h' cs' = frame h cs"
  by (rule frame_eqI) (use assms in auto)

lemma ll_push_models:
  assumes "allocates al" "ll_models F s xs"
  shows "if al (fst s) = None then ll_push_back al s x = Panic else \<exists>s'. ll_push_back al s x = Ret s' \<and> ll_models F s' (xs @ [x])"
    (is ?at_back)
    "if al (fst s) = None then ll_push_front al s x = Panic else \<exists>s'. ll_push_front al s x = Ret s' \<and> ll_models F s' (x # xs)"
    (is ?at_front)
proof -
  obtain h l where s: "s = (h, l)" by force
  from assms(2) s obtain cs where cs: "ll_rep h cs l" "map snd cs = xs" "frame h cs = F" by (auto simp: ll_models_def)
  have "?at_back \<and> ?at_front"
  proof (rule box_new_cases [OF assms(1), of h x])
    fix p assume a: "al h \<noteq> None" and p: "box_new al h x = Ret (p, h(p \<mapsto> node_new x))" "h p = None"
    note b = box_new_rep(1) [OF cs(1) p(2), of "node_new x"] box_new_rep(2) [OF cs(1) p(2)]
    have n: "(h(p \<mapsto> node_new x)) p = Some (node_new x)" by simp
    obtain h1 l1 where 1: "push_back_node (h(p \<mapsto> node_new x)) l p = Ret (h1, l1)" "ll_rep h1 (cs @ [(p, x)]) l1"
      "\<And>q. q \<noteq> p \<Longrightarrow> q \<notin> addrs cs \<Longrightarrow> h1 q = (h(p \<mapsto> node_new x)) q"
      by (rule push_back_node_rep [OF b(1) n b(2), unfolded node_new_elem]) blast
    obtain h2 l2 where 2: "push_front_node (h(p \<mapsto> node_new x)) l p = Ret (h2, l2)" "ll_rep h2 ((p, x) # cs) l2"
      "\<And>q. q \<noteq> p \<Longrightarrow> q \<notin> addrs cs \<Longrightarrow> h2 q = (h(p \<mapsto> node_new x)) q"
      by (rule push_front_node_rep [OF b(1) n b(2), unfolded node_new_elem]) blast
    have "frame h1 (cs @ [(p, x)]) = F" "frame h2 ((p, x) # cs) = F"
      using frame_grown [of h p cs h1 "cs @ [(p, x)]"] frame_grown [of h p cs h2 "(p, x) # cs"] p(2) b(2) 1(3) 2(3) cs(3) by simp_all
    with a 1 2 p(1) cs(2) s show ?thesis by (auto simp: ll_push_back_def ll_push_front_def intro: ll_modelsI)
  qed (use s in \<open>simp add: ll_push_back_def ll_push_front_def\<close>)
  then show ?at_back ?at_front by blast+
qed

lemma ll_pop_models:
  assumes "ll_models F s xs"
  shows "\<exists>s'. ll_pop_back s = Ret (if xs = [] then None else Some (last xs), s') \<and> ll_models F s' (butlast xs)"
    "\<exists>s'. ll_pop_front s = Ret (if xs = [] then None else Some (hd xs), s') \<and> ll_models F s' (tl xs)"
proof -
  obtain h l where s: "s = (h, l)" by force
  from assms(1) s obtain cs where cs: "ll_rep h cs l" "map snd cs = xs" "frame h cs = F" by (auto simp: ll_models_def)
  show "\<exists>s'. ll_pop_back s = Ret (if xs = [] then None else Some (last xs), s') \<and> ll_models F s' (butlast xs)"
  proof (cases cs rule: rev_cases)
    case Nil
    with s cs assms show ?thesis by (auto simp: ll_pop_back_def pop_back_node_def ll_rep_def)
  next
    case (snoc cs' c)
    obtain h' l' where "pop_back_node h l = Ret (Some (snd c), h', l')" "ll_rep h' cs' l'" "h' (fst c) = None"
      "\<And>q. q \<notin> addrs (cs' @ [c]) \<Longrightarrow> h' q = h q" using pop_back_node_rep [OF cs(1) [unfolded snoc]] by blast
    moreover have "frame h' cs' = frame h cs" by (rule frame_shrunk [of h' "fst c"]) (use calculation snoc in auto)
    ultimately show ?thesis using s cs snoc by (auto simp: ll_pop_back_def intro!: ll_modelsI)
  qed
  show "\<exists>s'. ll_pop_front s = Ret (if xs = [] then None else Some (hd xs), s') \<and> ll_models F s' (tl xs)"
  proof (cases cs)
    case Nil
    with s cs assms show ?thesis by (auto simp: ll_pop_front_def pop_front_node_def ll_rep_def)
  next
    case (Cons c cs')
    obtain h' l' where "pop_front_node h l = Ret (Some (snd c), h', l')" "ll_rep h' cs' l'" "h' (fst c) = None"
      "\<And>q. q \<notin> addrs (c # cs') \<Longrightarrow> h' q = h q" using pop_front_node_rep [OF cs(1) [unfolded Cons]] by blast
    moreover have "frame h' cs' = frame h cs" by (rule frame_shrunk [of h' "fst c"]) (use calculation Cons in auto)
    ultimately show ?thesis using s cs Cons by (auto simp: ll_pop_front_def intro!: ll_modelsI)
  qed
qed

lemma ll_deque: "allocates al \<Longrightarrow> deque (ll_models F) (ll_push_back al) (ll_push_front al) ll_pop_back ll_pop_front (\<lambda>s. al (fst s) = None)"
  by (rule deque.intro) (rule ll_push_models ll_pop_models, assumption+)+

text \<open>An allocator that takes the first free address below a bound, for the interpretation and the examples.\<close>

definition first_fit :: "nat \<Rightarrow> 'a node_allocator" where
  "first_fit n h = List.find (\<lambda>p. h p = None) [0..<n]"

lemma first_fit_allocates: "allocates (first_fit n)"
  by (auto simp: allocates_def first_fit_def find_Some_iff)

interpretation ll: deque "ll_models F" "ll_push_back (first_fit n)" "ll_push_front (first_fit n)" ll_pop_back ll_pop_front
  "\<lambda>s. first_fit n (fst s) = None" for F n
  by (rule ll_deque [OF first_fit_allocates])

end
