(* ===== verification/Linked_Cursor.thy ===== *)
theory Linked_Cursor
  imports Linked_List
begin

text \<open>
  The mutable cursors of \<open>LinkedList\<close>, \<open>library/alloc/src/collections/linked_list.rs\<close>. A cursor
  rests on an element or on the ghost element between the end and the beginning of the list, and keeps the
  index of its position.
\<close>

record cursor =
  c_index :: nat
  c_current :: "nat option"

section \<open>Moving and looking\<close>

definition cursor_front_mut :: "linked_list \<Rightarrow> cursor" where
  "cursor_front_mut l = \<lparr>c_index = 0, c_current = ll_head l\<rparr>"

definition cursor_back_mut :: "linked_list \<Rightarrow> cursor" where
  "cursor_back_mut l = \<lparr>c_index = (if 1 \<le> ll_len l then ll_len l - 1 else 0), c_current = ll_tail l\<rparr>"

definition cursor_index :: "cursor \<Rightarrow> nat option" where
  "cursor_index c = (case c_current c of None \<Rightarrow> None | Some _ \<Rightarrow> Some (c_index c))"

definition move_next :: "'a heap \<Rightarrow> linked_list \<Rightarrow> cursor \<Rightarrow> cursor outcome" where
  "move_next h l c = (case c_current c of
     None \<Rightarrow> Ret \<lparr>c_index = 0, c_current = ll_head l\<rparr>
   | Some p \<Rightarrow> and_then (as_ref h p) (\<lambda>n. Ret \<lparr>c_index = c_index c + 1, c_current = n_next n\<rparr>))"

definition move_prev :: "'a heap \<Rightarrow> linked_list \<Rightarrow> cursor \<Rightarrow> cursor outcome" where
  "move_prev h l c = (case c_current c of
     None \<Rightarrow> Ret \<lparr>c_index = (if 1 \<le> ll_len l then ll_len l - 1 else 0), c_current = ll_tail l\<rparr>
   | Some p \<Rightarrow> and_then (as_ref h p) (\<lambda>n.
       Ret \<lparr>c_index = (if 1 \<le> c_index c then c_index c - 1 else ll_len l), c_current = n_prev n\<rparr>))"

definition elem_at :: "'a heap \<Rightarrow> nat option \<Rightarrow> 'a option outcome" where
  "elem_at h p = (case p of None \<Rightarrow> Ret None | Some p \<Rightarrow> and_then (as_ref h p) (\<lambda>n. Ret (Some (n_elem n))))"

definition cursor_current :: "'a heap \<Rightarrow> cursor \<Rightarrow> 'a option outcome" where
  "cursor_current h c = elem_at h (c_current c)"

text \<open>The neighbours of the cursor's position, with the ends of the list next to the ghost element.\<close>

definition node_next :: "'a heap \<Rightarrow> linked_list \<Rightarrow> cursor \<Rightarrow> nat option outcome" where
  "node_next h l c = (case c_current c of None \<Rightarrow> Ret (ll_head l) | Some p \<Rightarrow> and_then (as_ref h p) (\<lambda>n. Ret (n_next n)))"

definition node_prev :: "'a heap \<Rightarrow> linked_list \<Rightarrow> cursor \<Rightarrow> nat option outcome" where
  "node_prev h l c = (case c_current c of None \<Rightarrow> Ret (ll_tail l) | Some p \<Rightarrow> and_then (as_ref h p) (\<lambda>n. Ret (n_prev n)))"

definition peek_next :: "'a heap \<Rightarrow> linked_list \<Rightarrow> cursor \<Rightarrow> 'a option outcome" where
  "peek_next h l c = and_then (node_next h l c) (elem_at h)"

definition peek_prev :: "'a heap \<Rightarrow> linked_list \<Rightarrow> cursor \<Rightarrow> 'a option outcome" where
  "peek_prev h l c = and_then (node_prev h l c) (elem_at h)"

section \<open>Editing\<close>

type_synonym 'a cursor_state = "'a heap \<times> linked_list \<times> cursor"

definition splice_after :: "'a heap \<Rightarrow> linked_list \<Rightarrow> cursor \<Rightarrow> linked_list \<Rightarrow> 'a cursor_state outcome" where
  "splice_after h l c other =
     and_then (detach_all_nodes other) (\<lambda>r. case r of
       None \<Rightarrow> Ret (h, l, c)
     | Some (s, e, n) \<Rightarrow>
         and_then (node_next h l c) (\<lambda>nxt.
           and_then (splice_nodes h l (c_current c) nxt s e n) (\<lambda>(h, l).
             Ret (h, l, if c_current c = None then c\<lparr>c_index := ll_len l\<rparr> else c))))"

definition splice_before :: "'a heap \<Rightarrow> linked_list \<Rightarrow> cursor \<Rightarrow> linked_list \<Rightarrow> 'a cursor_state outcome" where
  "splice_before h l c other =
     and_then (detach_all_nodes other) (\<lambda>r. case r of
       None \<Rightarrow> Ret (h, l, c)
     | Some (s, e, n) \<Rightarrow>
         and_then (node_prev h l c) (\<lambda>prv.
           and_then (splice_nodes h l prv (c_current c) s e n) (\<lambda>(h, l).
             Ret (h, l, c\<lparr>c_index := c_index c + n\<rparr>))))"

definition insert_after :: "'a node_allocator \<Rightarrow> 'a heap \<Rightarrow> linked_list \<Rightarrow> cursor \<Rightarrow> 'a \<Rightarrow> 'a cursor_state outcome" where
  "insert_after al h l c x =
     and_then (box_new al h x) (\<lambda>(p, h).
       and_then (node_next h l c) (\<lambda>nxt.
         and_then (splice_nodes h l (c_current c) nxt p p 1) (\<lambda>(h, l).
           Ret (h, l, if c_current c = None then c\<lparr>c_index := ll_len l\<rparr> else c))))"

definition insert_before :: "'a node_allocator \<Rightarrow> 'a heap \<Rightarrow> linked_list \<Rightarrow> cursor \<Rightarrow> 'a \<Rightarrow> 'a cursor_state outcome" where
  "insert_before al h l c x =
     and_then (box_new al h x) (\<lambda>(p, h).
       and_then (node_prev h l c) (\<lambda>prv.
         and_then (splice_nodes h l prv (c_current c) p p 1) (\<lambda>(h, l).
           Ret (h, l, c\<lparr>c_index := c_index c + 1\<rparr>))))"

definition remove_current :: "'a heap \<Rightarrow> linked_list \<Rightarrow> cursor \<Rightarrow> ('a option \<times> 'a cursor_state) outcome" where
  "remove_current h l c = (case c_current c of
     None \<Rightarrow> Ret (None, h, l, c)
   | Some p \<Rightarrow> and_then (as_ref h p) (\<lambda>n.
       and_then (unlink_node h l p) (\<lambda>(h, l).
         and_then (box_from_raw h p) (\<lambda>(b, h). Ret (Some (n_elem b), h, l, c\<lparr>c_current := n_next n\<rparr>)))))"

definition remove_current_as_list :: "'a heap \<Rightarrow> linked_list \<Rightarrow> cursor \<Rightarrow> (linked_list option \<times> 'a cursor_state) outcome" where
  "remove_current_as_list h l c = (case c_current c of
     None \<Rightarrow> Ret (None, h, l, c)
   | Some p \<Rightarrow> and_then (as_ref h p) (\<lambda>n.
       and_then (unlink_node h l p) (\<lambda>(h, l).
         and_then (set_prev h p None) (\<lambda>h.
           and_then (set_next h p None) (\<lambda>h.
             Ret (Some \<lparr>ll_head = Some p, ll_tail = Some p, ll_len = 1\<rparr>, h, l, c\<lparr>c_current := n_next n\<rparr>))))))"

definition split_after :: "'a heap \<Rightarrow> linked_list \<Rightarrow> cursor \<Rightarrow> ('a heap \<times> linked_list \<times> cursor \<times> linked_list) outcome" where
  "split_after h l c =
     (let split_off_idx = (if c_index c = ll_len l then 0 else c_index c + 1);
          c' = (if c_index c = ll_len l then c\<lparr>c_index := 0\<rparr> else c)
      in and_then (split_off_after_node h l (c_current c) split_off_idx) (\<lambda>(h, l, m). Ret (h, l, c', m)))"

definition split_before :: "'a heap \<Rightarrow> linked_list \<Rightarrow> cursor \<Rightarrow> ('a heap \<times> linked_list \<times> cursor \<times> linked_list) outcome" where
  "split_before h l c =
     and_then (split_off_before_node h l (c_current c) (c_index c)) (\<lambda>(h, l, m). Ret (h, l, c\<lparr>c_index := 0\<rparr>, m))"

definition cursor_push_front :: "'a node_allocator \<Rightarrow> 'a heap \<Rightarrow> linked_list \<Rightarrow> cursor \<Rightarrow> 'a \<Rightarrow> 'a cursor_state outcome" where
  "cursor_push_front al h l c x =
     and_then (ll_push_front al (h, l) x) (\<lambda>(h, l). Ret (h, l, c\<lparr>c_index := c_index c + 1\<rparr>))"

definition cursor_push_back :: "'a node_allocator \<Rightarrow> 'a heap \<Rightarrow> linked_list \<Rightarrow> cursor \<Rightarrow> 'a \<Rightarrow> 'a cursor_state outcome" where
  "cursor_push_back al h l c x =
     and_then (ll_push_back al (h, l) x) (\<lambda>(h, l).
       and_then (cursor_current h c) (\<lambda>r.
         Ret (h, l, if r = None then c\<lparr>c_index := c_index c + 1\<rparr> else c)))"

definition cursor_pop_front :: "'a heap \<Rightarrow> linked_list \<Rightarrow> cursor \<Rightarrow> ('a option \<times> 'a cursor_state) outcome" where
  "cursor_pop_front h l c =
     (if ll_head l = None then Ret (None, h, l, c)
      else and_then (if ll_head l = c_current c then move_next h l c
          else if 1 \<le> c_index c then Ret (c\<lparr>c_index := c_index c - 1\<rparr>) else Panic) (\<lambda>c.
        and_then (ll_pop_front (h, l)) (\<lambda>(r, h, l). Ret (r, h, l, c))))"

definition cursor_pop_back :: "'a heap \<Rightarrow> linked_list \<Rightarrow> cursor \<Rightarrow> ('a option \<times> 'a cursor_state) outcome" where
  "cursor_pop_back h l c =
     (if ll_head l = None then Ret (None, h, l, c)
      else and_then (if ll_tail l = c_current c then Ret (c\<lparr>c_current := None\<rparr>)
          else if c_current c = None then (if 1 \<le> ll_len l then Ret (c\<lparr>c_index := ll_len l - 1\<rparr>) else Panic)
          else Ret c) (\<lambda>c.
        and_then (ll_pop_back (h, l)) (\<lambda>(r, h, l). Ret (r, h, l, c))))"

section \<open>The cursor invariant\<close>

text \<open>The elements before the cursor and from the cursor on; the latter are none at the ghost element.\<close>

definition cursor_at :: "'a heap \<Rightarrow> (nat \<times> 'a) list \<Rightarrow> (nat \<times> 'a) list \<Rightarrow> linked_list \<Rightarrow> cursor \<Rightarrow> bool" where
  "cursor_at h as bs l c \<longleftrightarrow> ll_rep h (as @ bs) l \<and> c_index c = length as \<and> c_current c = first bs None"

lemma cursor_at_rep: "cursor_at h as bs l c \<Longrightarrow> ll_rep h (as @ bs) l"
  by (simp add: cursor_at_def)

lemma as_ref_mid: "ll_rep h (as @ b # bs) l \<Longrightarrow>
    as_ref h (fst b) = Ret \<lparr>n_next = first bs None, n_prev = final as None, n_elem = snd b\<rparr>"
  by (simp add: ll_rep_def as_ref_def)

lemma cursor_ends:
  "ll_rep h cs l \<Longrightarrow> cursor_at h [] cs l (cursor_front_mut l)"
  "ll_rep h (as @ [a]) l \<Longrightarrow> cursor_at h as [a] l (cursor_back_mut l)"
  by (simp_all add: cursor_at_def cursor_front_mut_def cursor_back_mut_def ll_rep_def)

lemma move_next_at:
  "cursor_at h as (b # bs) l c \<Longrightarrow> \<exists>c'. move_next h l c = Ret c' \<and> cursor_at h (as @ [b]) bs l c'"
  "cursor_at h as [] l c \<Longrightarrow> \<exists>c'. move_next h l c = Ret c' \<and> cursor_at h [] as l c'"
  using as_ref_mid [of h as b bs l] by (auto simp: cursor_at_def move_next_def ll_rep_def)

lemma move_prev_at:
  "cursor_at h (as @ [a]) bs l c \<Longrightarrow> \<exists>c'. move_prev h l c = Ret c' \<and> cursor_at h as (a # bs) l c'"
  "cursor_at h [] bs l c \<Longrightarrow> \<exists>c'. move_prev h l c = Ret c' \<and> cursor_at h bs [] l c'"
proof -
  show "\<exists>c'. move_prev h l c = Ret c' \<and> cursor_at h as (a # bs) l c'" if "cursor_at h (as @ [a]) bs l c"
    using that as_ref_mid [of h "as @ [a]" "hd bs" "tl bs" l]
    by (cases bs) (auto simp: cursor_at_def move_prev_def ll_rep_def)
  show "\<exists>c'. move_prev h l c = Ret c' \<and> cursor_at h bs [] l c'" if "cursor_at h [] bs l c"
    using that as_ref_mid [of h "[]" "hd bs" "tl bs" l]
    by (cases bs) (auto simp: cursor_at_def move_prev_def ll_rep_def)
qed

lemma elem_at_first: "ll_rep h (as @ bs) l \<Longrightarrow> elem_at h (first bs None) = Ret (if bs = [] then None else Some (snd (hd bs)))"
  using as_ref_mid [of h as "hd bs" "tl bs" l] by (cases bs) (auto simp: elem_at_def)

lemma elem_at_final: "ll_rep h (as @ bs) l \<Longrightarrow> elem_at h (final as None) = Ret (if as = [] then None else Some (snd (last as)))"
  using as_ref_mid [of h "butlast as" "last as" bs l] by (cases as rule: rev_cases) (auto simp: elem_at_def)

text \<open>The successor and the predecessor of a position, the ghost element included.\<close>

lemma neighbours_at:
  assumes "cursor_at h as bs l c"
  shows "node_next h l c = Ret (if bs = [] then first as None else first (tl bs) None)"
    "node_prev h l c = Ret (final as None)"
proof -
  note c = assms [unfolded cursor_at_def]
  show "node_next h l c = Ret (if bs = [] then first as None else first (tl bs) None)"
    using c as_ref_mid [of h as "hd bs" "tl bs" l] by (cases bs) (auto simp: node_next_def ll_rep_def)
  show "node_prev h l c = Ret (final as None)"
    using c as_ref_mid [of h as "hd bs" "tl bs" l] by (cases bs) (auto simp: node_prev_def ll_rep_def)
qed

lemma cursor_looks:
  assumes "cursor_at h as bs l c"
  shows "cursor_current h c = Ret (if bs = [] then None else Some (snd (hd bs)))"
    "peek_prev h l c = Ret (if as = [] then None else Some (snd (last as)))"
    "peek_next h l c = Ret (case if bs = [] then as else tl bs of [] \<Rightarrow> None | d # _ \<Rightarrow> Some (snd d))"
proof -
  note c = assms [unfolded cursor_at_def]
  show "cursor_current h c = Ret (if bs = [] then None else Some (snd (hd bs)))"
    using c elem_at_first [of h as bs l] by (simp add: cursor_current_def)
  show "peek_prev h l c = Ret (if as = [] then None else Some (snd (last as)))"
    using c elem_at_final [of h as bs l] neighbours_at(2) [OF assms] by (simp add: peek_prev_def)
  show "peek_next h l c = Ret (case if bs = [] then as else tl bs of [] \<Rightarrow> None | d # _ \<Rightarrow> Some (snd d))"
    using c elem_at_first [of h "[]" as l] elem_at_first [of h "as @ [hd bs]" "tl bs" l] neighbours_at(1) [OF assms]
    by (cases bs) (auto simp: peek_next_def split: list.split)
qed

section \<open>Editing at a cursor\<close>

lemma detach_all_nodes_rep:
  "ll_rep h [] m \<Longrightarrow> detach_all_nodes m = Ret None"
  "ll_rep h (x # xs) m \<Longrightarrow> detach_all_nodes m = Ret (Some (fst x, fst (last (x # xs)), length (x # xs)))"
  by (auto simp: detach_all_nodes_def ll_rep_def final_def)

lemma ll_rep_segment:
  "ll_rep h ms m \<Longrightarrow> links h None ms None \<and> distinct (map fst ms)"
  by (simp add: ll_rep_def)

lemma splice_before_at:
  assumes c: "cursor_at h as bs l c" and m: "ll_rep h ms m" "addrs ms \<inter> addrs (as @ bs) = {}"
  obtains h' l' c' where "splice_before h l c m = Ret (h', l', c')" "cursor_at h' (as @ ms) bs l' c'"
    "\<And>q. q \<notin> addrs (as @ ms @ bs) \<Longrightarrow> h' q = h q"
proof (cases ms)
  case Nil
  with c m show ?thesis using that [of h l c] by (simp add: splice_before_def detach_all_nodes_rep(1))
next
  case (Cons x xs)
  have seg: "links h None (x # xs) None" "distinct (map fst (x # xs))" using ll_rep_segment [OF m(1)] Cons by auto
  obtain h' l' where s: "splice_nodes h l (final as None) (first bs None) (fst x) (fst (last (x # xs))) (length (x # xs)) = Ret (h', l')"
    "ll_rep h' (as @ x # xs @ bs) l'" "\<And>q. q \<notin> addrs (as @ x # xs @ bs) \<Longrightarrow> h' q = h q"
    by (rule splice_nodes_rep [OF cursor_at_rep [OF c] seg m(2) [unfolded Cons]]) blast
  let ?c = "c\<lparr>c_index := c_index c + length (x # xs)\<rparr>"
  have "splice_before h l c m = Ret (h', l', ?c)"
    using detach_all_nodes_rep(2) [of h x xs m] m(1) Cons s(1) c neighbours_at(2) [OF c]
    by (simp add: splice_before_def cursor_at_def del: last.simps)
  moreover have "cursor_at h' (as @ ms) bs l' ?c" using s(2) c Cons by (simp add: cursor_at_def)
  ultimately show ?thesis using that s(3) Cons by simp
qed

lemma splice_after_at:
  assumes c: "cursor_at h as (b # bs) l c" and m: "ll_rep h ms m" "addrs ms \<inter> addrs (as @ b # bs) = {}"
  obtains h' l' c' where "splice_after h l c m = Ret (h', l', c')" "cursor_at h' as (b # ms @ bs) l' c'"
    "\<And>q. q \<notin> addrs (as @ b # ms @ bs) \<Longrightarrow> h' q = h q"
proof (cases ms)
  case Nil
  with c m show ?thesis using that [of h l c] by (simp add: splice_after_def detach_all_nodes_rep(1))
next
  case (Cons x xs)
  have seg: "links h None (x # xs) None" "distinct (map fst (x # xs))" using ll_rep_segment [OF m(1)] Cons by auto
  have rep: "ll_rep h ((as @ [b]) @ bs) l" and d: "addrs (x # xs) \<inter> addrs ((as @ [b]) @ bs) = {}"
    using cursor_at_rep [OF c] m(2) Cons by simp_all
  obtain h' l' where s: "splice_nodes h l (final (as @ [b]) None) (first bs None) (fst x) (fst (last (x # xs))) (length (x # xs)) = Ret (h', l')"
    "ll_rep h' ((as @ [b]) @ x # xs @ bs) l'" "\<And>q. q \<notin> addrs ((as @ [b]) @ x # xs @ bs) \<Longrightarrow> h' q = h q"
    by (rule splice_nodes_rep [OF rep seg d]) blast
  have "splice_after h l c m = Ret (h', l', c)"
    using detach_all_nodes_rep(2) [of h x xs m] m(1) Cons s(1) c neighbours_at(1) [OF c]
    by (simp add: splice_after_def cursor_at_def del: last.simps)
  moreover have "cursor_at h' as (b # ms @ bs) l' c" using s(2) c Cons by (simp add: cursor_at_def)
  ultimately show ?thesis using that s(3) Cons by simp
qed

lemma splice_after_ghost:
  assumes c: "cursor_at h as [] l c" and m: "ll_rep h ms m" "addrs ms \<inter> addrs as = {}"
  obtains h' l' c' where "splice_after h l c m = Ret (h', l', c')" "cursor_at h' (ms @ as) [] l' c'"
    "\<And>q. q \<notin> addrs (ms @ as) \<Longrightarrow> h' q = h q"
proof (cases ms)
  case Nil
  with c m show ?thesis using that [of h l c] by (simp add: splice_after_def detach_all_nodes_rep(1))
next
  case (Cons x xs)
  have seg: "links h None (x # xs) None" "distinct (map fst (x # xs))" using ll_rep_segment [OF m(1)] Cons by auto
  have rep: "ll_rep h ([] @ as) l" and d: "addrs (x # xs) \<inter> addrs ([] @ as) = {}"
    using cursor_at_rep [OF c] m(2) Cons by simp_all
  obtain h' l' where s: "splice_nodes h l None (first as None) (fst x) (fst (last (x # xs))) (length (x # xs)) = Ret (h', l')"
    "ll_rep h' (x # xs @ as) l'" "\<And>q. q \<notin> addrs (x # xs @ as) \<Longrightarrow> h' q = h q"
    by (rule splice_nodes_rep [OF rep seg d, unfolded final_simps(1) append_Nil]) blast
  let ?c = "c\<lparr>c_index := ll_len l'\<rparr>"
  have "splice_after h l c m = Ret (h', l', ?c)"
    using detach_all_nodes_rep(2) [of h x xs m] m(1) Cons s(1) c neighbours_at(1) [OF c]
    by (simp add: splice_after_def cursor_at_def del: last.simps)
  moreover have "cursor_at h' (ms @ as) [] l' ?c" using s(2) c Cons by (simp add: cursor_at_def ll_rep_def)
  ultimately show ?thesis using that s(3) Cons by simp
qed

text \<open>A new node is a list of its own, so inserting is splicing.\<close>

lemma box_new_single:
  "h p = None \<Longrightarrow> ll_rep (h(p \<mapsto> node_new x)) [(p, x)] \<lparr>ll_head = Some p, ll_tail = Some p, ll_len = 1\<rparr>"
  by (simp add: ll_rep_def node_new_def)

lemma insert_as_splice:
  assumes "box_new al h x = Ret (p, h')"
  shows "insert_before al h l c x = splice_before h' l c \<lparr>ll_head = Some p, ll_tail = Some p, ll_len = 1\<rparr>"
    "insert_after al h l c x = splice_after h' l c \<lparr>ll_head = Some p, ll_tail = Some p, ll_len = 1\<rparr>"
  using assms by (simp_all add: insert_before_def insert_after_def splice_before_def splice_after_def detach_all_nodes_def)

lemma box_new_cursor:
  assumes "cursor_at h as bs l c" "h p = None"
  shows "cursor_at (h(p \<mapsto> n)) as bs l c" "p \<notin> addrs (as @ bs)"
  using assms box_new_rep [of h "as @ bs" l p] by (auto simp: cursor_at_def)


text \<open>A heap, a list and a cursor represent a list with a position in it, within a frame.\<close>

definition cursor_models :: "'a heap \<Rightarrow> 'a cursor_state \<Rightarrow> 'a list \<times> 'a list \<Rightarrow> bool" where
  "cursor_models F s z \<longleftrightarrow> (case s of (h, l, c) \<Rightarrow> \<exists>as bs. cursor_at h as bs l c \<and> z = (map snd as, map snd bs)
     \<and> frame h (as @ bs) = F)"

lemma cursor_modelsI:
  "cursor_at h as bs l c \<Longrightarrow> frame h (as @ bs) = F \<Longrightarrow> cursor_models F (h, l, c) (map snd as, map snd bs)"
  by (auto simp: cursor_models_def)

lemma cursor_modelsE:
  assumes "cursor_models F s (xs, ys)"
  obtains h l c as bs where "s = (h, l, c)" "cursor_at h as bs l c" "xs = map snd as" "ys = map snd bs" "frame h (as @ bs) = F"
  using assms by (auto simp: cursor_models_def)

lemma insert_before_at:
  assumes "allocates al" and c: "cursor_at h as bs l c"
  shows "if al h = None then insert_before al h l c x = Panic else \<exists>s'. insert_before al h l c x = Ret s'
    \<and> cursor_models (frame h (as @ bs)) s' (map snd as @ [x], map snd bs)"
proof (rule box_new_cases [OF assms(1), of h x])
  fix p assume a: "al h \<noteq> None" and p: "box_new al h x = Ret (p, h(p \<mapsto> node_new x))" "h p = None"
  note c' = box_new_cursor(1) [OF c p(2), of "node_new x"] and out = box_new_cursor(2) [OF c p(2)]
  obtain h' l' c' where s: "splice_before (h(p \<mapsto> node_new x)) l c \<lparr>ll_head = Some p, ll_tail = Some p, ll_len = 1\<rparr> = Ret (h', l', c')"
    "cursor_at h' (as @ [(p, x)]) bs l' c'" "\<And>q. q \<notin> addrs (as @ [(p, x)] @ bs) \<Longrightarrow> h' q = (h(p \<mapsto> node_new x)) q"
    by (rule splice_before_at [OF c' box_new_single [of h p x, OF p(2)]]) (use out in auto)
  have "frame h' ((as @ [(p, x)]) @ bs) = frame h (as @ bs)"
    by (rule frame_grown [of h p]) (use p(2) out s(3) in auto)
  then show ?thesis using a insert_as_splice(1) [OF p(1), of l c] s(1) cursor_modelsI [OF s(2)] by simp
qed (simp add: insert_before_def)

lemma insert_after_at:
  assumes "allocates al" and c: "cursor_at h as bs l c"
  shows "if al h = None then insert_after al h l c x = Panic else \<exists>s'. insert_after al h l c x = Ret s' \<and> cursor_models (frame h (as @ bs)) s'
    (case bs of [] \<Rightarrow> (x # map snd as, []) | b # bs' \<Rightarrow> (map snd as, snd b # x # map snd bs'))"
proof (rule box_new_cases [OF assms(1), of h x])
  fix p assume a: "al h \<noteq> None" and p: "box_new al h x = Ret (p, h(p \<mapsto> node_new x))" "h p = None"
  note c' = box_new_cursor(1) [OF c p(2), of "node_new x"] and out = box_new_cursor(2) [OF c p(2)]
  show ?thesis
  proof (cases bs)
    case Nil
    obtain h' l' c' where s: "splice_after (h(p \<mapsto> node_new x)) l c \<lparr>ll_head = Some p, ll_tail = Some p, ll_len = 1\<rparr> = Ret (h', l', c')"
      "cursor_at h' ([(p, x)] @ as) [] l' c'" "\<And>q. q \<notin> addrs ([(p, x)] @ as) \<Longrightarrow> h' q = (h(p \<mapsto> node_new x)) q"
      by (rule splice_after_ghost [OF c' [unfolded Nil] box_new_single [of h p x, OF p(2)]]) (use out Nil in auto)
    have "frame h' (([(p, x)] @ as) @ []) = frame h (as @ bs)"
      by (rule frame_grown [of h p]) (use p(2) out s(3) Nil in auto)
    then show ?thesis using a insert_as_splice(2) [OF p(1), of l c] s(1) cursor_modelsI [OF s(2)] Nil by simp
  next
    case (Cons b bs')
    obtain h' l' c' where s: "splice_after (h(p \<mapsto> node_new x)) l c \<lparr>ll_head = Some p, ll_tail = Some p, ll_len = 1\<rparr> = Ret (h', l', c')"
      "cursor_at h' as (b # [(p, x)] @ bs') l' c'" "\<And>q. q \<notin> addrs (as @ b # [(p, x)] @ bs') \<Longrightarrow> h' q = (h(p \<mapsto> node_new x)) q"
      by (rule splice_after_at [OF c' [unfolded Cons] box_new_single [of h p x, OF p(2)]]) (use out Cons in auto)
    have "frame h' (as @ b # [(p, x)] @ bs') = frame h (as @ bs)"
      by (rule frame_grown [of h p]) (use p(2) out s(3) Cons in auto)
    then show ?thesis using a insert_as_splice(2) [OF p(1), of l c] s(1) cursor_modelsI [OF s(2)] Cons by simp
  qed
qed (simp add: insert_after_def)

lemma remove_current_at:
  assumes c: "cursor_at h as (b # bs) l c"
  obtains h' l' c' where "remove_current h l c = Ret (Some (snd b), h', l', c')" "cursor_at h' as bs l' c'"
    "h' (fst b) = None" "frame h' (as @ bs) = frame h (as @ b # bs)"
proof -
  note rep = cursor_at_rep [OF c]
  obtain h1 l1 where 1: "unlink_node h l (fst b) = Ret (h1, l1)" "ll_rep h1 (as @ bs) l1" "h1 (fst b) = h (fst b)"
    "\<And>q. q \<notin> addrs (as @ bs) \<Longrightarrow> h1 q = h q" by (rule unlink_node_rep [OF rep]) blast
  have n: "as_ref h (fst b) = Ret \<lparr>n_next = first bs None, n_prev = final as None, n_elem = snd b\<rparr>" by (rule as_ref_mid [OF rep])
  have n1: "as_ref h1 (fst b) = as_ref h (fst b)" by (simp add: as_ref_def 1(3))
  let ?h = "h1(fst b := None)" and ?c = "c\<lparr>c_current := first bs None\<rparr>"
  have out: "fst b \<notin> addrs (as @ bs)" using rep by (auto simp: ll_rep_def image_Un)
  have "\<forall>q\<in>addrs (as @ bs). ?h q = h1 q" using out by (metis fun_upd_other)
  then have "ll_rep ?h (as @ bs) l1" using ll_rep_cong 1(2) by blast
  then have "cursor_at ?h as bs l1 ?c" using c by (simp add: cursor_at_def)
  moreover have "remove_current h l c = Ret (Some (snd b), ?h, l1, ?c)"
    using c n n1 1(1) by (simp add: remove_current_def cursor_at_def box_from_raw_def)
  moreover have "frame ?h (as @ bs) = frame h (as @ b # bs)" by (rule frame_shrunk [of _ "fst b"]) (use 1(4) in auto)
  ultimately show ?thesis using that by simp
qed


lemma remove_current_as_list_at:
  assumes c: "cursor_at h as (b # bs) l c"
  obtains h' l' c' m where "remove_current_as_list h l c = Ret (Some m, h', l', c')" "cursor_at h' as bs l' c'"
    "ll_rep h' [b] m" "frame h' (as @ b # bs) = frame h (as @ b # bs)"
proof -
  note rep = cursor_at_rep [OF c]
  obtain h1 l1 where 1: "unlink_node h l (fst b) = Ret (h1, l1)" "ll_rep h1 (as @ bs) l1" "h1 (fst b) = h (fst b)"
    "\<And>q. q \<notin> addrs (as @ bs) \<Longrightarrow> h1 q = h q" by (rule unlink_node_rep [OF rep]) blast
  have n: "as_ref h (fst b) = Ret \<lparr>n_next = first bs None, n_prev = final as None, n_elem = snd b\<rparr>" by (rule as_ref_mid [OF rep])
  have n1: "as_ref h1 (fst b) = as_ref h (fst b)" by (simp add: as_ref_def 1(3))
  let ?h = "h1(fst b \<mapsto> \<lparr>n_next = None, n_prev = None, n_elem = snd b\<rparr>)" and ?c = "c\<lparr>c_current := first bs None\<rparr>"
    and ?m = "\<lparr>ll_head = Some (fst b), ll_tail = Some (fst b), ll_len = 1\<rparr>"
  have out: "fst b \<notin> addrs (as @ bs)" using rep by (auto simp: ll_rep_def image_Un)
  have "\<forall>q\<in>addrs (as @ bs). ?h q = h1 q" using out by (metis fun_upd_other)
  then have "ll_rep ?h (as @ bs) l1" using ll_rep_cong 1(2) by blast
  then have "cursor_at ?h as bs l1 ?c" using c by (simp add: cursor_at_def)
  moreover have "remove_current_as_list h l c = Ret (Some ?m, ?h, l1, ?c)"
    using c n n1 1(1) by (simp add: remove_current_as_list_def cursor_at_def set_prev_def set_next_def) (simp add: as_ref_def)
  moreover have "ll_rep ?h [b] ?m" by (simp add: ll_rep_def)
  moreover have "frame ?h (as @ b # bs) = frame h (as @ b # bs)" by (rule frame_eqI) (use 1(4) in auto)
  ultimately show ?thesis using that by simp
qed

text \<open>Splitting leaves the nodes of both lists in place.\<close>

lemma frame_sameI: "(\<And>q. q \<notin> addrs cs \<Longrightarrow> h' q = h q) \<Longrightarrow> addrs cs' = addrs cs \<Longrightarrow> frame h' cs' = frame h cs"
  by (rule frame_eqI) auto

lemma split_after_at:
  assumes c: "cursor_at h as (b # bs) l c"
  obtains h' l' m where "split_after h l c = Ret (h', l', c, m)" "cursor_at h' as [b] l' c" "ll_rep h' bs m"
    "frame h' (as @ b # bs) = frame h (as @ b # bs)"
proof -
  have rep: "ll_rep h ((as @ [b]) @ bs) l" using cursor_at_rep [OF c] by simp
  obtain h' l' m where s: "split_off_after_node h l (final (as @ [b]) None) (length (as @ [b])) = Ret (h', l', m)"
    "ll_rep h' (as @ [b]) l'" "ll_rep h' bs m" "\<And>q. q \<notin> addrs ((as @ [b]) @ bs) \<Longrightarrow> h' q = h q"
    by (rule split_off_after_node_rep [OF rep]) auto
  have "split_after h l c = Ret (h', l', c, m)" using s(1) c by (simp add: split_after_def cursor_at_def ll_rep_def)
  moreover have "cursor_at h' as [b] l' c" using s(2) c by (simp add: cursor_at_def)
  moreover have "frame h' (as @ b # bs) = frame h (as @ b # bs)" by (rule frame_sameI) (use s(4) in auto)
  ultimately show ?thesis using that s(3) by simp
qed

lemma split_before_at:
  assumes c: "cursor_at h as (b # bs) l c"
  obtains h' l' c' m where "split_before h l c = Ret (h', l', c', m)" "cursor_at h' [] (b # bs) l' c'" "ll_rep h' as m"
    "frame h' (as @ b # bs) = frame h (as @ b # bs)"
proof -
  obtain h' l' m where s: "split_off_before_node h l (first (b # bs) None) (length as) = Ret (h', l', m)"
    "ll_rep h' (b # bs) l'" "ll_rep h' as m" "\<And>q. q \<notin> addrs (as @ b # bs) \<Longrightarrow> h' q = h q"
    by (rule split_off_before_node_rep [OF cursor_at_rep [OF c]]) auto
  let ?c = "c\<lparr>c_index := 0\<rparr>"
  have "split_before h l c = Ret (h', l', ?c, m)" using s(1) c by (simp add: split_before_def cursor_at_def)
  moreover have "cursor_at h' [] (b # bs) l' ?c" using s(2) c by (simp add: cursor_at_def)
  moreover have "frame h' (as @ b # bs) = frame h (as @ b # bs)" by (rule frame_sameI) (use s(4) in auto)
  ultimately show ?thesis using that s(3) by simp
qed

lemma split_at_ghost:
  assumes "cursor_at h as [] l c"
  shows "split_after h l c = Ret (h, ll_new, c\<lparr>c_index := 0\<rparr>, l)" "split_before h l c = Ret (h, ll_new, c\<lparr>c_index := 0\<rparr>, l)"
    "cursor_at h [] [] ll_new (c\<lparr>c_index := 0\<rparr>)"
  using assms by (simp_all add: split_after_def split_before_def split_off_after_node_def split_off_before_node_def
    cursor_at_def ll_rep_def ll_new_def)


section \<open>Pushing and popping beside a cursor\<close>

lemma cursor_push_at:
  assumes "allocates al" and c: "cursor_at h as bs l c"
  shows "if al h = None then cursor_push_front al h l c x = Panic else \<exists>s'. cursor_push_front al h l c x = Ret s'
      \<and> cursor_models (frame h (as @ bs)) s' (x # map snd as, map snd bs)" (is ?at_front)
    "if al h = None then cursor_push_back al h l c x = Panic else \<exists>s'. cursor_push_back al h l c x = Ret s' \<and> cursor_models (frame h (as @ bs)) s'
      (if bs = [] then (map snd as @ [x], []) else (map snd as, map snd bs @ [x]))" (is ?at_back)
proof -
  have "?at_front \<and> ?at_back"
  proof (rule box_new_cases [OF assms(1), of h x])
    fix p assume a: "al h \<noteq> None" and p: "box_new al h x = Ret (p, h(p \<mapsto> node_new x))" "h p = None"
    note b = cursor_at_rep [OF box_new_cursor(1) [OF c p(2), of "node_new x"]] and out = box_new_cursor(2) [OF c p(2)]
    have n: "(h(p \<mapsto> node_new x)) p = Some (node_new x)" by simp
    obtain h1 l1 where 1: "push_front_node (h(p \<mapsto> node_new x)) l p = Ret (h1, l1)" "ll_rep h1 ((p, x) # as @ bs) l1"
      "\<And>q. q \<noteq> p \<Longrightarrow> q \<notin> addrs (as @ bs) \<Longrightarrow> h1 q = (h(p \<mapsto> node_new x)) q"
      by (rule push_front_node_rep [OF b n out, unfolded node_new_elem]) blast
    obtain h2 l2 where 2: "push_back_node (h(p \<mapsto> node_new x)) l p = Ret (h2, l2)" "ll_rep h2 ((as @ bs) @ [(p, x)]) l2"
      "\<And>q. q \<noteq> p \<Longrightarrow> q \<notin> addrs (as @ bs) \<Longrightarrow> h2 q = (h(p \<mapsto> node_new x)) q"
      by (rule push_back_node_rep [OF b n out, unfolded node_new_elem]) blast
    have f: "frame h1 (((p, x) # as) @ bs) = frame h (as @ bs)" "frame h2 ((as @ bs) @ [(p, x)]) = frame h (as @ bs)"
      using frame_grown [of h p "as @ bs" h1 "((p, x) # as) @ bs"] frame_grown [of h p "as @ bs" h2 "(as @ bs) @ [(p, x)]"] p(2) out 1(3) 2(3)
      by simp_all
    have "cursor_at h1 ((p, x) # as) bs l1 (c\<lparr>c_index := c_index c + 1\<rparr>)" using 1(2) c by (simp add: cursor_at_def)
    from cursor_modelsI [OF this f(1)] have ?at_front using a p(1) 1(1) by (simp add: cursor_push_front_def ll_push_front_def)
    moreover have ?at_back
    proof (cases bs)
      case Nil
      have "cursor_at h2 (as @ [(p, x)]) [] l2 (c\<lparr>c_index := c_index c + 1\<rparr>)" using 2(2) c Nil by (simp add: cursor_at_def)
      from cursor_modelsI [OF this] f(2) show ?thesis using a p(1) 2(1) c Nil
        by (simp add: cursor_push_back_def ll_push_back_def cursor_current_def elem_at_def cursor_at_def)
    next
      case (Cons b bs')
      have c2: "cursor_at h2 as (bs @ [(p, x)]) l2 c" using 2(2) c Cons by (simp add: cursor_at_def)
      from cursor_modelsI [OF this] f(2) show ?thesis using a p(1) 2(1) Cons cursor_looks(1) [OF c2]
        by (simp add: cursor_push_back_def ll_push_back_def)
    qed
    ultimately show ?thesis by blast
  qed (simp add: cursor_push_front_def cursor_push_back_def ll_push_front_def ll_push_back_def)
  then show ?at_front ?at_back by blast+
qed

text \<open>Popping at the front is right when the cursor is not at the head.\<close>

lemma cursor_pop_front_at:
  assumes c: "cursor_at h (a # as) bs l c"
  obtains h' l' c' where "cursor_pop_front h l c = Ret (Some (snd a), h', l', c')" "cursor_at h' as bs l' c'"
    "frame h' (as @ bs) = frame h (a # as @ bs)"
proof -
  obtain h' l' where s: "pop_front_node h l = Ret (Some (snd a), h', l')" "ll_rep h' (as @ bs) l'" "h' (fst a) = None"
    "\<And>q. q \<notin> addrs (a # as @ bs) \<Longrightarrow> h' q = h q"
    using pop_front_node_rep [of h a "as @ bs" l] cursor_at_rep [OF c] by auto
  let ?c = "c\<lparr>c_index := length as\<rparr>"
  have "fst a \<notin> addrs bs" using cursor_at_rep [OF c] by (auto simp: ll_rep_def)
  then have "first bs None \<noteq> Some (fst a)" by (cases bs) auto
  then have "cursor_pop_front h l c = Ret (Some (snd a), h', l', ?c)" using s(1) c
    by (simp add: cursor_pop_front_def ll_pop_front_def cursor_at_def ll_rep_def)
  moreover have "cursor_at h' as bs l' ?c" using s(2) c by (simp add: cursor_at_def)
  moreover have "frame h' (as @ bs) = frame h (a # as @ bs)" by (rule frame_shrunk [of _ "fst a"]) (use s in auto)
  ultimately show ?thesis using that by simp
qed

text \<open>At the head the cursor moves on first, which counts one element too many.\<close>

lemma cursor_pop_front_head:
  assumes c: "cursor_at h [] (b # bs) l c"
  obtains h' l' c' where "cursor_pop_front h l c = Ret (Some (snd b), h', l', c'\<lparr>c_index := 1\<rparr>)" "cursor_at h' [] bs l' c'"
    "frame h' bs = frame h (b # bs)"
proof -
  obtain h' l' where s: "pop_front_node h l = Ret (Some (snd b), h', l')" "ll_rep h' bs l'" "h' (fst b) = None"
    "\<And>q. q \<notin> addrs (b # bs) \<Longrightarrow> h' q = h q"
    using pop_front_node_rep [of h b bs l] cursor_at_rep [OF c] by auto
  let ?c = "\<lparr>c_index = 0, c_current = first bs None\<rparr>"
  have "cursor_pop_front h l c = Ret (Some (snd b), h', l', ?c\<lparr>c_index := 1\<rparr>)" using s(1) c as_ref_mid [of h "[]" b bs l]
    by (simp add: cursor_pop_front_def ll_pop_front_def cursor_at_def ll_rep_def move_next_def as_ref_def)
  moreover have "cursor_at h' [] bs l' ?c" using s(2) by (simp add: cursor_at_def)
  moreover have "frame h' bs = frame h (b # bs)" by (rule frame_shrunk [of _ "fst b"]) (use s in auto)
  ultimately show ?thesis by (rule that)
qed

lemma cursor_pop_back_at:
  assumes c: "cursor_at h as bs l c" and ne: "as @ bs = cs @ [d]"
  shows "\<exists>s'. cursor_pop_back h l c = Ret (Some (snd d), s') \<and> cursor_models (frame h (as @ bs)) s'
    (if bs = [] then (map snd (butlast as), []) else (map snd as, map snd (butlast bs)))"
proof -
  obtain h' l' where s: "pop_back_node h l = Ret (Some (snd d), h', l')" "ll_rep h' cs l'" "h' (fst d) = None"
    "\<And>q. q \<notin> addrs (cs @ [d]) \<Longrightarrow> h' q = h q"
    using pop_back_node_rep [of h cs d l] cursor_at_rep [OF c] ne by auto
  have f: "frame h' cs = frame h (as @ bs)" unfolding ne by (rule frame_shrunk [of _ "fst d"]) (use s in auto)
  note r = cursor_at_rep [OF c, unfolded ne, unfolded ll_rep_def]
  have ends: "ll_tail l = Some (fst d)" "ll_head l \<noteq> None" "ll_len l = Suc (length cs)" using r by (cases cs; auto)+
  consider "bs = []" "as = cs @ [d]" | "bs = [d]" "as = cs" | b bs' where "bs = b # bs' @ [d]" "cs = as @ b # bs'"
  proof (cases bs rule: rev_cases)
    case Nil
    then show ?thesis using ne by (intro that(1)) simp_all
  next
    case (snoc us u)
    then have "cs = as @ us" "u = d" using ne by simp_all
    then show ?thesis using snoc that(2,3) by (cases us) simp_all
  qed
  then show ?thesis
  proof cases
    case 1
    have "cursor_at h' cs [] l' (c\<lparr>c_index := ll_len l - 1\<rparr>)" using s(2) c 1 ends by (simp add: cursor_at_def)
    from cursor_modelsI [OF this, of "frame h (as @ bs)"] f show ?thesis using s(1) c 1 ends
      by (simp add: cursor_pop_back_def ll_pop_back_def cursor_at_def)
  next
    case 2
    have "cursor_at h' cs [] l' (c\<lparr>c_current := None\<rparr>)" using s(2) c 2 by (simp add: cursor_at_def)
    from cursor_modelsI [OF this, of "frame h (as @ bs)"] f show ?thesis using s(1) c 2 ends
      by (simp add: cursor_pop_back_def ll_pop_back_def cursor_at_def)
  next
    case 3
    have "fst b \<noteq> fst d" using r 3 by auto
    have "cursor_at h' as (b # bs') l' c" using s(2) c 3 by (simp add: cursor_at_def)
    from cursor_modelsI [OF this, of "frame h (as @ bs)"] f show ?thesis using s(1) c 3 ends \<open>fst b \<noteq> fst d\<close>
      by (simp add: cursor_pop_back_def ll_pop_back_def cursor_at_def)
  qed
qed


section \<open>A list with a position\<close>

text \<open>The calls on a cursor, and what they mean on the elements before the cursor and from the cursor on.\<close>

datatype 'a cursor_call = Move_Next | Move_Prev | Current | Peek_Next | Peek_Prev | Insert_Before 'a | Insert_After 'a
  | Remove_Current | Cursor_Push_Front 'a | Cursor_Push_Back 'a | Cursor_Pop_Front | Cursor_Pop_Back

fun cursor_step :: "'a node_allocator \<Rightarrow> 'a cursor_call \<Rightarrow> 'a cursor_state \<Rightarrow> ('a option \<times> 'a cursor_state) outcome" where
  "cursor_step al Move_Next (h, l, c) = and_then (move_next h l c) (\<lambda>c. Ret (None, h, l, c))"
| "cursor_step al Move_Prev (h, l, c) = and_then (move_prev h l c) (\<lambda>c. Ret (None, h, l, c))"
| "cursor_step al Current (h, l, c) = and_then (cursor_current h c) (\<lambda>r. Ret (r, h, l, c))"
| "cursor_step al Peek_Next (h, l, c) = and_then (peek_next h l c) (\<lambda>r. Ret (r, h, l, c))"
| "cursor_step al Peek_Prev (h, l, c) = and_then (peek_prev h l c) (\<lambda>r. Ret (r, h, l, c))"
| "cursor_step al (Insert_Before x) (h, l, c) = and_then (insert_before al h l c x) (\<lambda>s. Ret (None, s))"
| "cursor_step al (Insert_After x) (h, l, c) = and_then (insert_after al h l c x) (\<lambda>s. Ret (None, s))"
| "cursor_step al Remove_Current (h, l, c) = remove_current h l c"
| "cursor_step al (Cursor_Push_Front x) (h, l, c) = and_then (cursor_push_front al h l c x) (\<lambda>s. Ret (None, s))"
| "cursor_step al (Cursor_Push_Back x) (h, l, c) = and_then (cursor_push_back al h l c x) (\<lambda>s. Ret (None, s))"
| "cursor_step al Cursor_Pop_Front (h, l, c) = cursor_pop_front h l c"
| "cursor_step al Cursor_Pop_Back (h, l, c) = cursor_pop_back h l c"

definition head_opt :: "'a list \<Rightarrow> 'a option" where
  "head_opt xs = (case xs of [] \<Rightarrow> None | x # _ \<Rightarrow> Some x)"

definition last_opt :: "'a list \<Rightarrow> 'a option" where
  "last_opt xs = (if xs = [] then None else Some (last xs))"

fun zip_call :: "'a cursor_call \<Rightarrow> 'a list \<times> 'a list \<Rightarrow> 'a option \<times> 'a list \<times> 'a list" where
  "zip_call Move_Next (xs, ys) = (None, case ys of [] \<Rightarrow> ([], xs) | y # ys' \<Rightarrow> (xs @ [y], ys'))"
| "zip_call Move_Prev (xs, ys) = (None, if xs = [] then (ys, []) else (butlast xs, last xs # ys))"
| "zip_call Current (xs, ys) = (head_opt ys, xs, ys)"
| "zip_call Peek_Next (xs, ys) = (head_opt (if ys = [] then xs else tl ys), xs, ys)"
| "zip_call Peek_Prev (xs, ys) = (last_opt xs, xs, ys)"
| "zip_call (Insert_Before x) (xs, ys) = (None, xs @ [x], ys)"
| "zip_call (Insert_After x) (xs, ys) = (None, case ys of [] \<Rightarrow> (x # xs, []) | y # ys' \<Rightarrow> (xs, y # x # ys'))"
| "zip_call Remove_Current (xs, ys) = (head_opt ys, xs, tl ys)"
| "zip_call (Cursor_Push_Front x) (xs, ys) = (None, x # xs, ys)"
| "zip_call (Cursor_Push_Back x) (xs, ys) = (None, if ys = [] then (xs @ [x], []) else (xs, ys @ [x]))"
| "zip_call Cursor_Pop_Front (xs, ys) = (head_opt (xs @ ys), if xs = [] then ([], tl ys) else (tl xs, ys))"
| "zip_call Cursor_Pop_Back (xs, ys) = (last_opt (xs @ ys), if ys = [] then (butlast xs, []) else (xs, butlast ys))"

text \<open>The calls that keep the index right: all but popping the element under a cursor at the head.\<close>

definition index_kept :: "'a cursor_call \<Rightarrow> 'a list \<times> 'a list \<Rightarrow> bool" where
  "index_kept call z \<longleftrightarrow> call = Cursor_Pop_Front \<longrightarrow> fst z \<noteq> [] \<or> snd z = []"

fun zip_calls :: "'a cursor_call list \<Rightarrow> 'a list \<times> 'a list \<Rightarrow> 'a option list \<times> 'a list \<times> 'a list" where
  "zip_calls [] z = ([], z)"
| "zip_calls (k # ks) z = (case zip_call k z of (r, z) \<Rightarrow> (case zip_calls ks z of (rs, z) \<Rightarrow> (r # rs, z)))"

fun indices_kept :: "'a cursor_call list \<Rightarrow> 'a list \<times> 'a list \<Rightarrow> bool" where
  "indices_kept [] z = True"
| "indices_kept (k # ks) z \<longleftrightarrow> index_kept k z \<and> indices_kept ks (snd (zip_call k z))"

text \<open>The calls that add an element need a node; they are stuck when the allocator has none in that heap.\<close>

fun cursor_stuck :: "'a node_allocator \<Rightarrow> 'a cursor_call \<Rightarrow> 'a cursor_state \<Rightarrow> bool" where
  "cursor_stuck al (Insert_Before x) s \<longleftrightarrow> al (fst s) = None"
| "cursor_stuck al (Insert_After x) s \<longleftrightarrow> al (fst s) = None"
| "cursor_stuck al (Cursor_Push_Front x) s \<longleftrightarrow> al (fst s) = None"
| "cursor_stuck al (Cursor_Push_Back x) s \<longleftrightarrow> al (fst s) = None"
| "cursor_stuck al _ s \<longleftrightarrow> False"

definition refined :: "'a heap \<Rightarrow> ('r \<times> 'a cursor_state) outcome \<Rightarrow> 'r \<times> 'a list \<times> 'a list \<Rightarrow> bool" where
  "refined F m z \<longleftrightarrow> (\<exists>s. m = Ret (fst z, s) \<and> cursor_models F s (snd z))"

lemma refinedI: "m = Ret (r, s) \<Longrightarrow> cursor_models F s z \<Longrightarrow> refined F m (r, z)"
  by (simp add: refined_def)

lemma refined_unit:
  "if blocked then m = Panic else \<exists>s. m = Ret s \<and> cursor_models F s z \<Longrightarrow>
     if blocked then and_then m (\<lambda>s. Ret (None, s)) = Panic else refined F (and_then m (\<lambda>s. Ret (None, s))) (None, z)"
  by (auto simp: refined_def)

lemma head_opt_map: "head_opt (map f xs) = (if xs = [] then None else Some (f (hd xs)))"
  by (cases xs) (simp_all add: head_opt_def)


lemma move_refined:
  assumes c: "cursor_at h as bs l c" and F: "frame h (as @ bs) = F"
  shows "refined F (cursor_step al Move_Next (h, l, c)) (zip_call Move_Next (map snd as, map snd bs))"
    "refined F (cursor_step al Move_Prev (h, l, c)) (zip_call Move_Prev (map snd as, map snd bs))"
proof -
  show "refined F (cursor_step al Move_Next (h, l, c)) (zip_call Move_Next (map snd as, map snd bs))"
  proof (cases bs)
    case Nil
    obtain c' where "move_next h l c = Ret c'" "cursor_at h [] as l c'" using move_next_at(2) c Nil by blast
    with F Nil cursor_modelsI [of h "[]" as l c' F] show ?thesis by (simp add: refined_def)
  next
    case (Cons b bs')
    obtain c' where "move_next h l c = Ret c'" "cursor_at h (as @ [b]) bs' l c'" using move_next_at(1) c Cons by blast
    with F Cons cursor_modelsI [of h "as @ [b]" bs' l c' F] show ?thesis by (simp add: refined_def)
  qed
  show "refined F (cursor_step al Move_Prev (h, l, c)) (zip_call Move_Prev (map snd as, map snd bs))"
  proof (cases as rule: rev_cases)
    case Nil
    obtain c' where "move_prev h l c = Ret c'" "cursor_at h bs [] l c'" using move_prev_at(2) c Nil by blast
    with F Nil cursor_modelsI [of h bs "[]" l c' F] show ?thesis by (simp add: refined_def)
  next
    case (snoc as' a)
    obtain c' where "move_prev h l c = Ret c'" "cursor_at h as' (a # bs) l c'" using move_prev_at(1) c snoc by blast
    with F snoc cursor_modelsI [of h as' "a # bs" l c' F] show ?thesis by (simp add: refined_def)
  qed
qed

lemma look_refined:
  assumes c: "cursor_at h as bs l c" and F: "frame h (as @ bs) = F" and k: "k \<in> {Current, Peek_Next, Peek_Prev}"
  shows "refined F (cursor_step al k (h, l, c)) (zip_call k (map snd as, map snd bs))"
proof -
  have "peek_next h l c = Ret (head_opt (if map snd bs = [] then map snd as else tl (map snd bs)))"
    using cursor_looks(3) [OF c] by (simp add: head_opt_def map_tl [symmetric] split: list.split)
  moreover have "cursor_current h c = Ret (head_opt (map snd bs))" "peek_prev h l c = Ret (last_opt (map snd as))"
    using cursor_looks(1,2) [OF c] by (simp_all add: head_opt_map last_opt_def last_map)
  ultimately show ?thesis using k cursor_modelsI [OF c F] by (auto simp: refined_def)
qed

lemma remove_refined:
  assumes c: "cursor_at h as bs l c" and F: "frame h (as @ bs) = F"
  shows "refined F (cursor_step al Remove_Current (h, l, c)) (zip_call Remove_Current (map snd as, map snd bs))"
proof (cases bs)
  case Nil
  then show ?thesis using c cursor_modelsI [OF c F] by (simp add: refined_def remove_current_def cursor_at_def head_opt_def)
next
  case (Cons b bs')
  obtain h' l' c' where r: "remove_current h l c = Ret (Some (snd b), h', l', c')" "cursor_at h' as bs' l' c'"
    "h' (fst b) = None" "frame h' (as @ bs') = frame h (as @ b # bs')" by (rule remove_current_at [OF c [unfolded Cons]])
  then show ?thesis using F Cons cursor_modelsI [OF r(2)] by (simp add: refined_def head_opt_def)
qed

lemma pop_refined:
  assumes c: "cursor_at h as bs l c" and F: "frame h (as @ bs) = F"
  shows "as \<noteq> [] \<or> bs = [] \<Longrightarrow>
      refined F (cursor_step al Cursor_Pop_Front (h, l, c)) (zip_call Cursor_Pop_Front (map snd as, map snd bs))"
    "refined F (cursor_step al Cursor_Pop_Back (h, l, c)) (zip_call Cursor_Pop_Back (map snd as, map snd bs))"
proof -
  have empty: "ll_head l = None" if "as @ bs = []" using cursor_at_rep [OF c] that by (simp add: ll_rep_def)
  show "refined F (cursor_step al Cursor_Pop_Front (h, l, c)) (zip_call Cursor_Pop_Front (map snd as, map snd bs))"
    if ok: "as \<noteq> [] \<or> bs = []"
  proof (cases as)
    case Nil
    with ok show ?thesis using empty cursor_modelsI [OF c F] by (simp add: refined_def cursor_pop_front_def head_opt_def)
  next
    case (Cons a as')
    obtain h' l' c' where r: "cursor_pop_front h l c = Ret (Some (snd a), h', l', c')" "cursor_at h' as' bs l' c'"
      "frame h' (as' @ bs) = frame h (a # as' @ bs)" by (rule cursor_pop_front_at [OF c [unfolded Cons]])
    then show ?thesis using F Cons cursor_modelsI [OF r(2)] by (simp add: refined_def head_opt_def)
  qed
  show "refined F (cursor_step al Cursor_Pop_Back (h, l, c)) (zip_call Cursor_Pop_Back (map snd as, map snd bs))"
  proof (cases "as @ bs" rule: rev_cases)
    case Nil
    then show ?thesis using empty cursor_modelsI [OF c F] by (simp add: refined_def cursor_pop_back_def last_opt_def)
  next
    case (snoc cs d)
    obtain s' where r: "cursor_pop_back h l c = Ret (Some (snd d), s')" "cursor_models F s'
      (if bs = [] then (map snd (butlast as), []) else (map snd as, map snd (butlast bs)))"
      using cursor_pop_back_at [OF c snoc] F by blast
    have m: "map snd as @ map snd bs = map snd cs @ [snd d]" using arg_cong [OF snoc, of "map snd"] by simp
    have "last_opt (map snd as @ map snd bs) = Some (snd d)" unfolding m by (simp add: last_opt_def)
    then show ?thesis using r by (simp add: refined_def map_butlast split: if_splits)
  qed
qed

lemma cursor_step_refined:
  assumes "allocates al" "cursor_models F s z" "index_kept k z"
  shows "if cursor_stuck al k s then cursor_step al k s = Panic else refined F (cursor_step al k s) (zip_call k z)"
proof -
  obtain h l c as bs where s: "s = (h, l, c)" and c: "cursor_at h as bs l c" and z': "z = (map snd as, map snd bs)"
    and F: "frame h (as @ bs) = F" using assms(2) unfolding cursor_models_def by (cases s) auto
  note at = assms(1) c
  show ?thesis
  proof (cases k)
    case (Insert_Before x)
    then show ?thesis using refined_unit [OF insert_before_at [OF at, of x]] s z' F by (cases "al h") simp_all
  next
    case (Insert_After x)
    then show ?thesis using refined_unit [OF insert_after_at [OF at, of x]] s z' F
      by (cases "al h") (simp_all split: list.split list.split_asm)
  next
    case (Cursor_Push_Front x)
    then show ?thesis using refined_unit [OF cursor_push_at(1) [OF at, of x]] s z' F by (cases "al h") simp_all
  next
    case (Cursor_Push_Back x)
    then show ?thesis using refined_unit [OF cursor_push_at(2) [OF at, of x]] s z' F by (cases "al h") simp_all
  next
    case Cursor_Pop_Front
    with assms(3) have "as \<noteq> [] \<or> bs = []" using z' by (simp add: index_kept_def)
    then show ?thesis using pop_refined(1) [OF c F] Cursor_Pop_Front s z' by simp
  qed (use move_refined [OF c F] look_refined [OF c F, of k] remove_refined [OF c F] pop_refined(2) [OF c F] s z' in simp_all)
qed


text \<open>The interface that carries a sequence of calls: a call that is allowed in the abstract state
  returns what the abstract call returns, unless it is stuck and panics.\<close>

locale guarded_machine =
  fixes rep :: "'s \<Rightarrow> 'z \<Rightarrow> bool"
    and step :: "'k \<Rightarrow> 's \<Rightarrow> ('r \<times> 's) outcome"
    and spec :: "'k \<Rightarrow> 'z \<Rightarrow> 'r \<times> 'z"
    and allowed :: "'k \<Rightarrow> 'z \<Rightarrow> bool"
    and stuck :: "'k \<Rightarrow> 's \<Rightarrow> bool"
    and spec_run :: "'k list \<Rightarrow> 'z \<Rightarrow> 'r list \<times> 'z"
    and all_allowed :: "'k list \<Rightarrow> 'z \<Rightarrow> bool"
  assumes step_refines: "rep s z \<Longrightarrow> allowed k z \<Longrightarrow>
      if stuck k s then step k s = Panic else \<exists>s'. step k s = Ret (fst (spec k z), s') \<and> rep s' (snd (spec k z))"
    and run_Nil: "spec_run [] z = ([], z)"
    and run_Cons: "spec_run (k # ks) z = (fst (spec k z) # fst (spec_run ks (snd (spec k z))), snd (spec_run ks (snd (spec k z))))"
      "all_allowed (k # ks) z \<longleftrightarrow> allowed k z \<and> all_allowed ks (snd (spec k z))"
begin

lemma run_refines:
  "rep s z \<Longrightarrow> all_allowed ks z \<Longrightarrow>
     if runs_out step stuck ks s then run_calls step ks s = Panic
     else \<exists>s'. run_calls step ks s = Ret (fst (spec_run ks z), s') \<and> rep s' (snd (spec_run ks z))"
proof (induction ks arbitrary: s z)
  case (Cons k ks)
  from step_refines [OF Cons.prems(1), of k] Cons.prems(2) run_Cons(2) consider "stuck k s" "step k s = Panic"
    | s' where "\<not> stuck k s" "step k s = Ret (fst (spec k z), s')" "rep s' (snd (spec k z))" by (auto split: if_splits)
  then show ?case
  proof cases
    case 2
    then show ?thesis using Cons.IH [OF 2(3)] Cons.prems(2) by (auto simp: run_Cons split: if_splits)
  qed simp
qed (simp add: run_Nil)

end

lemma cursor_machine: "allocates al \<Longrightarrow> guarded_machine (cursor_models F) (cursor_step al) zip_call index_kept
    (cursor_stuck al) zip_calls indices_kept"
  by (rule guarded_machine.intro, erule (2) cursor_step_refined [unfolded refined_def]) (simp_all split: prod.split)

interpretation cursor_m: guarded_machine "cursor_models F" "cursor_step (first_fit n)" zip_call index_kept
    "cursor_stuck (first_fit n)" zip_calls indices_kept for F n
  by (rule cursor_machine [OF first_fit_allocates])


section \<open>A second list\<close>

text \<open>A list with a cursor, and another list, in disjoint nodes of the same heap.\<close>

definition cursor_beside :: "'a heap \<Rightarrow> 'a cursor_state \<Rightarrow> linked_list \<Rightarrow> 'a list \<times> 'a list \<Rightarrow> 'a list \<Rightarrow> bool" where
  "cursor_beside F s m z zs \<longleftrightarrow> (case s of (h, l, c) \<Rightarrow> \<exists>as bs ms. cursor_at h as bs l c \<and> ll_rep h ms m
     \<and> addrs ms \<inter> addrs (as @ bs) = {} \<and> z = (map snd as, map snd bs) \<and> zs = map snd ms \<and> frame h (as @ bs @ ms) = F)"

lemma cursor_besideI:
  "cursor_at h as bs l c \<Longrightarrow> ll_rep h ms m \<Longrightarrow> addrs ms \<inter> addrs (as @ bs) = {} \<Longrightarrow> frame h (as @ bs @ ms) = F
     \<Longrightarrow> cursor_beside F (h, l, c) m (map snd as, map snd bs) (map snd ms)"
  unfolding cursor_beside_def by (simp, intro exI [of _ as] exI [of _ bs] conjI exI [of _ ms]) auto

lemma ll_rep_disjoint: "ll_rep h (as @ bs) l \<Longrightarrow> addrs as \<inter> addrs bs = {}"
  by (simp add: ll_rep_split)

lemma splices_models:
  assumes "cursor_beside F (h, l, c) m (xs, ys) zs"
  shows "\<exists>s'. splice_before h l c m = Ret s' \<and> cursor_models F s' (xs @ zs, ys)"
    "\<exists>s'. splice_after h l c m = Ret s'
       \<and> cursor_models F s' (case ys of [] \<Rightarrow> (zs @ xs, []) | y # ys' \<Rightarrow> (xs, y # zs @ ys'))"
proof -
  obtain as bs ms where c: "cursor_at h as bs l c" and m: "ll_rep h ms m" and d: "addrs ms \<inter> addrs (as @ bs) = {}"
    and z: "xs = map snd as" "ys = map snd bs" "zs = map snd ms" and F: "frame h (as @ bs @ ms) = F"
    using assms by (auto simp: cursor_beside_def)
  obtain h' l' c' where s: "splice_before h l c m = Ret (h', l', c')" "cursor_at h' (as @ ms) bs l' c'"
    "\<And>q. q \<notin> addrs (as @ ms @ bs) \<Longrightarrow> h' q = h q" by (rule splice_before_at [OF c m d]) blast
  have "frame h' ((as @ ms) @ bs) = F" unfolding F [symmetric] by (rule frame_sameI) (use s(3) in auto)
  with s z show "\<exists>s'. splice_before h l c m = Ret s' \<and> cursor_models F s' (xs @ zs, ys)"
    using cursor_modelsI [OF s(2)] by simp
  show "\<exists>s'. splice_after h l c m = Ret s'
      \<and> cursor_models F s' (case ys of [] \<Rightarrow> (zs @ xs, []) | y # ys' \<Rightarrow> (xs, y # zs @ ys'))"
  proof (cases bs)
    case Nil
    obtain h' l' c' where s: "splice_after h l c m = Ret (h', l', c')" "cursor_at h' (ms @ as) [] l' c'"
      "\<And>q. q \<notin> addrs (ms @ as) \<Longrightarrow> h' q = h q" using splice_after_ghost [of h as l c ms m] c m d Nil by auto
    have "frame h' ((ms @ as) @ []) = F" unfolding F [symmetric] by (rule frame_sameI) (use s(3) Nil in auto)
    with s z Nil show ?thesis using cursor_modelsI [OF s(2)] by simp
  next
    case (Cons b bs')
    obtain h' l' c' where s: "splice_after h l c m = Ret (h', l', c')" "cursor_at h' as (b # ms @ bs') l' c'"
      "\<And>q. q \<notin> addrs (as @ b # ms @ bs') \<Longrightarrow> h' q = h q" using splice_after_at [of h as b bs' l c ms m] c m d Cons by auto
    have "frame h' (as @ b # ms @ bs') = F" unfolding F [symmetric] by (rule frame_sameI) (use s(3) Cons in auto)
    with s z Cons show ?thesis using cursor_modelsI [OF s(2)] by simp
  qed
qed

lemma split_after_models:
  assumes "cursor_models F (h, l, c) (xs, ys)"
  shows "\<exists>h' l' c' m. split_after h l c = Ret (h', l', c', m) \<and> cursor_beside F (h', l', c') m
       (case ys of [] \<Rightarrow> ([], []) | y # ys' \<Rightarrow> (xs, [y])) (case ys of [] \<Rightarrow> xs | y # ys' \<Rightarrow> ys')"
proof -
  obtain as bs where c: "cursor_at h as bs l c" and z: "xs = map snd as" "ys = map snd bs" and F: "frame h (as @ bs) = F"
    using assms by (auto simp: cursor_models_def)
  show ?thesis
  proof (cases bs)
    case Nil
    note g = split_at_ghost [OF c [unfolded Nil]]
    from cursor_besideI [OF g(3), of as l F] cursor_at_rep [OF c] F Nil z g(1) show ?thesis by simp
  next
    case (Cons b bs')
    obtain h' l' m where s: "split_after h l c = Ret (h', l', c, m)" "cursor_at h' as [b] l' c" "ll_rep h' bs' m"
      "frame h' (as @ b # bs') = frame h (as @ b # bs')" by (rule split_after_at [OF c [unfolded Cons]])
    have "addrs bs' \<inter> addrs (as @ [b]) = {}" using ll_rep_disjoint [of h "as @ [b]" bs' l] cursor_at_rep [OF c] Cons by auto
    from cursor_besideI [OF s(2,3) this, of F] s(1,4) F Cons z show ?thesis by simp
  qed
qed

lemma split_before_models:
  assumes "cursor_models F (h, l, c) (xs, ys)"
  shows "\<exists>h' l' c' m. split_before h l c = Ret (h', l', c', m) \<and> cursor_beside F (h', l', c') m ([], ys) xs"
proof -
  obtain as bs where c: "cursor_at h as bs l c" and z: "xs = map snd as" "ys = map snd bs" and F: "frame h (as @ bs) = F"
    using assms by (auto simp: cursor_models_def)
  show ?thesis
  proof (cases bs)
    case Nil
    note g = split_at_ghost [OF c [unfolded Nil]]
    from cursor_besideI [OF g(3), of as l F] cursor_at_rep [OF c] F Nil z g(2) show ?thesis by simp
  next
    case (Cons b bs')
    obtain h' l' c' m where s: "split_before h l c = Ret (h', l', c', m)" "cursor_at h' [] (b # bs') l' c'" "ll_rep h' as m"
      "frame h' (as @ b # bs') = frame h (as @ b # bs')" by (rule split_before_at [OF c [unfolded Cons]])
    have "addrs as \<inter> addrs ([] @ b # bs') = {}" using ll_rep_disjoint [of h as bs l] cursor_at_rep [OF c] Cons by auto
    moreover have "frame h' ([] @ (b # bs') @ as) = F" unfolding F [symmetric] Cons s(4) [symmetric] by (rule frame_sameI) auto
    ultimately show ?thesis using cursor_besideI [OF s(2,3), of F] s(1) Cons z by simp
  qed
qed

lemma remove_as_list_models:
  assumes "cursor_models F (h, l, c) (xs, ys)"
  shows "case ys of [] \<Rightarrow> remove_current_as_list h l c = Ret (None, h, l, c)
    | y # ys' \<Rightarrow> (\<exists>m s'. remove_current_as_list h l c = Ret (Some m, s') \<and> cursor_beside F s' m (xs, ys') [y])"
proof -
  obtain as bs where c: "cursor_at h as bs l c" and z: "xs = map snd as" "ys = map snd bs" and F: "frame h (as @ bs) = F"
    using assms by (auto simp: cursor_models_def)
  show ?thesis
  proof (cases bs)
    case Nil
    with c z show ?thesis by (simp add: remove_current_as_list_def cursor_at_def)
  next
    case (Cons b bs')
    obtain h' l' c' m where s: "remove_current_as_list h l c = Ret (Some m, h', l', c')" "cursor_at h' as bs' l' c'"
      "ll_rep h' [b] m" "frame h' (as @ b # bs') = frame h (as @ b # bs')" by (rule remove_current_as_list_at [OF c [unfolded Cons]])
    have "addrs [b] \<inter> addrs (as @ bs') = {}" using cursor_at_rep [OF c] Cons by (auto simp: ll_rep_def image_Un)
    moreover have "frame h' (as @ bs' @ [b]) = F" unfolding F [symmetric] Cons s(4) [symmetric] by (rule frame_sameI) auto
    ultimately show ?thesis using cursor_besideI [OF s(2,3), of F] s(1) Cons z by auto
  qed
qed


lemma cursor_index_models:
  "cursor_models F (h, l, c) (xs, ys) \<Longrightarrow> cursor_index c = (if ys = [] then None else Some (length xs))"
proof -
  assume "cursor_models F (h, l, c) (xs, ys)"
  then obtain as bs where "cursor_at h as bs l c" "xs = map snd as" "ys = map snd bs" by (auto simp: cursor_models_def)
  then show ?thesis by (cases bs) (simp_all add: cursor_at_def cursor_index_def)
qed

lemma cursor_new_models: "cursor_models h (h, ll_new, cursor_front_mut ll_new) ([], [])"
  using cursor_modelsI [OF cursor_ends(1) [OF ll_new_rep [of h]], of h] by (simp add: frame_def restrict_map_def)

text \<open>Popping the front element under a cursor at the head returns the element and leaves the rest of the list, but
  the index says 1 where no element precedes the cursor, at the ghost element of a list that is now empty too. A
  following \<open>split_before\<close> then hands out a list without nodes whose length is 1, and the list itself says that it
  has one element fewer than it has.\<close>

lemma cursor_pop_front_miscounts:
  assumes "cursor_models F (h, l, c) ([], y # ys)"
  shows "\<exists>h' l' c'. cursor_pop_front h l c = Ret (Some y, h', l', c') \<and> ll_models F (h', l') ys \<and> c_index c' = 1
    \<and> (ys = [] \<or> (\<exists>h2 l2 c2 m. split_before h' l' c' = Ret (h2, l2, c2, m)
         \<and> ll_head m = None \<and> ll_len m = 1 \<and> ll_models F (h2, l2\<lparr>ll_len := ll_len l2 + 1\<rparr>) ys))"
proof -
  obtain b bs where c: "cursor_at h [] (b # bs) l c" and z: "y = snd b" "ys = map snd bs" and F: "frame h (b # bs) = F"
    using assms by (auto simp: cursor_models_def)
  obtain h' l' c' where r: "cursor_pop_front h l c = Ret (Some (snd b), h', l', c'\<lparr>c_index := 1\<rparr>)" "cursor_at h' [] bs l' c'"
    "frame h' bs = frame h (b # bs)" by (rule cursor_pop_front_head [OF c])
  have m: "ll_models F (h', l') ys" using ll_modelsI [of h' bs l' ys F] cursor_at_rep [OF r(2)] r(3) F z by simp
  moreover have "\<exists>h2 l2 c2 m. split_before h' l' (c'\<lparr>c_index := 1\<rparr>) = Ret (h2, l2, c2, m)
      \<and> ll_head m = None \<and> ll_len m = 1 \<and> ll_models F (h2, l2\<lparr>ll_len := ll_len l2 + 1\<rparr>) ys" if ne: "ys \<noteq> []"
  proof -
    obtain d ds where d: "bs = d # ds" using ne z by (cases bs) auto
    have rep: "ll_rep h' (d # ds) l'" using cursor_at_rep [OF r(2)] d by simp
    have n: "h' (fst d) = Some \<lparr>n_next = first ds None, n_prev = None, n_elem = snd d\<rparr>" using rep by (simp add: ll_rep_def)
    have h: "h'(fst d \<mapsto> \<lparr>n_next = first ds None, n_prev = None, n_elem = snd d\<rparr>) = h'" using n by auto
    have "split_before h' l' (c'\<lparr>c_index := 1\<rparr>) = Ret (h', l'\<lparr>ll_len := ll_len l' - 1\<rparr>, c'\<lparr>c_index := 0\<rparr>,
        \<lparr>ll_head = None, ll_tail = None, ll_len = 1\<rparr>)"
      using rep r(2) d n by (simp add: split_before_def split_off_before_node_def as_ref_def set_prev_def h len_sub_def
        cursor_at_def ll_rep_def)
    moreover have "l'\<lparr>ll_len := ll_len l' - 1 + 1\<rparr> = l'" using rep by (cases l') (simp add: ll_rep_def)
    ultimately show ?thesis using m by simp
  qed
  ultimately show ?thesis using r(1) z by auto
qed

section \<open>Properties\<close>

text \<open>C38: a mutable cursor is a position in a list. Started on a list and a cursor whose index is the number of
  elements before it, any sequence of moves, looks, insertions, removals, pushes and pops returns what the calls return on the
  pair of the elements before and from the cursor, keeps the index exact, follows only pointers to allocated nodes, frees what
  it removes and touches nothing else. It panics exactly when a call of it that adds an element finds the allocator out of
  nodes. The one call that is left out, popping the front element under a cursor at the head, returns the element and leaves
  the rest of the list, but the index says 1 where no element precedes the cursor, also when the cursor is then at the ghost
  element of the empty list, where the comment in the source expects 0; unless the list is then empty, a following
  \<open>split_before\<close> hands out a list without nodes whose length is 1, and the list itself counts one element too
  few.\<close>

theorem cursor_refines_zipper:
  assumes "allocates al" "cursor_models F s z" "indices_kept ks z"
  shows "(if runs_out (cursor_step al) (cursor_stuck al) ks s then run_calls (cursor_step al) ks s = Panic
      else \<exists>s'. run_calls (cursor_step al) ks s = Ret (fst (zip_calls ks z), s') \<and> cursor_models F s' (snd (zip_calls ks z)))
    \<and> (case (s, z) of ((h, l, c), [], y # ys) \<Rightarrow>
        \<exists>h' l' c'. cursor_pop_front h l c = Ret (Some y, h', l', c') \<and> ll_models F (h', l') ys \<and> c_index c' = 1
          \<and> (ys = [] \<or> (\<exists>h2 l2 c2 m. split_before h' l' c' = Ret (h2, l2, c2, m)
               \<and> ll_head m = None \<and> ll_len m = 1 \<and> ll_models F (h2, l2\<lparr>ll_len := ll_len l2 + 1\<rparr>) ys))
       | _ \<Rightarrow> True)"
proof (rule conjI)
  show "if runs_out (cursor_step al) (cursor_stuck al) ks s then run_calls (cursor_step al) ks s = Panic
      else \<exists>s'. run_calls (cursor_step al) ks s = Ret (fst (zip_calls ks z), s') \<and> cursor_models F s' (snd (zip_calls ks z))"
    by (rule guarded_machine.run_refines [OF cursor_machine [OF assms(1)] assms(2,3)])
qed (use cursor_pop_front_miscounts [of F] assms(2) in \<open>(simp split: prod.split list.split, blast)\<close>)

theorem cursor_refines_zipper_witness:
  "(\<exists>s'. run_calls (cursor_step (first_fit 4)) [Insert_Before 1, Insert_After (2 :: nat), Move_Prev, Cursor_Push_Back 3, Remove_Current, Peek_Prev]
        (Map.empty, ll_new, cursor_front_mut ll_new) = Ret ([None, None, None, None, Some 1, Some 2], s')
      \<and> cursor_models Map.empty s' ([2], [3]))
   \<and> run_calls (cursor_step (first_fit 1)) [Insert_Before 1, Insert_After (2 :: nat)] (Map.empty, ll_new, cursor_front_mut ll_new) = Panic"
proof -
  let ?ks = "[Insert_Before 1, Insert_After (2 :: nat), Move_Prev, Cursor_Push_Back 3, Remove_Current, Peek_Prev]"
    and ?ks' = "[Insert_Before 1, Insert_After (2 :: nat)]" and ?s = "(Map.empty, ll_new, cursor_front_mut ll_new)"
  have z: "zip_calls ?ks ([], []) = ([None, None, None, None, Some 1, Some 2], [2], [3])" "indices_kept ?ks ([], [])"
    "indices_kept ?ks' ([], [])" by code_simp+
  have o: "runs_out (cursor_step (first_fit 4)) (cursor_stuck (first_fit 4)) ?ks ?s = False"
    "runs_out (cursor_step (first_fit 1)) (cursor_stuck (first_fit 1)) ?ks' ?s = True" by code_simp+
  show ?thesis
    using cursor_refines_zipper [OF first_fit_allocates cursor_new_models z(2), of 4 Map.empty, THEN conjunct1, unfolded z(1) fst_conv snd_conv o(1) if_False]
      cursor_refines_zipper [OF first_fit_allocates cursor_new_models z(3), of 1 Map.empty, THEN conjunct1, unfolded o(2) if_True] by blast
qed

text \<open>C39: splicing another list in before or after the cursor, splitting the list there, and taking out the node
  under the cursor as a list of its own. The two lists are the pieces of the abstract list, share no node and
  together own what they owned before. The index that a cursor reports is the number of elements before it, and none
  at the ghost element.\<close>

theorem cursor_splice_split:
  assumes "cursor_beside F (h, l, c) m (xs, ys) zs" "cursor_models F (h1, l1, c1) (xs1, ys1)"
  shows "(\<exists>s'. splice_before h l c m = Ret s' \<and> cursor_models F s' (xs @ zs, ys))
    \<and> (\<exists>s'. splice_after h l c m = Ret s'
         \<and> cursor_models F s' (case ys of [] \<Rightarrow> (zs @ xs, []) | y # ys' \<Rightarrow> (xs, y # zs @ ys')))
    \<and> (\<exists>h' l' c' m. split_after h1 l1 c1 = Ret (h', l', c', m) \<and> cursor_beside F (h', l', c') m
         (case ys1 of [] \<Rightarrow> ([], []) | y # ys' \<Rightarrow> (xs1, [y])) (case ys1 of [] \<Rightarrow> xs1 | y # ys' \<Rightarrow> ys'))
    \<and> (\<exists>h' l' c' m. split_before h1 l1 c1 = Ret (h', l', c', m) \<and> cursor_beside F (h', l', c') m ([], ys1) xs1)
    \<and> (case ys1 of [] \<Rightarrow> remove_current_as_list h1 l1 c1 = Ret (None, h1, l1, c1)
       | y # ys' \<Rightarrow> (\<exists>m s'. remove_current_as_list h1 l1 c1 = Ret (Some m, s') \<and> cursor_beside F s' m (xs1, ys') [y]))
    \<and> cursor_index c1 = (if ys1 = [] then None else Some (length xs1))"
  by (intro conjI cursor_index_models [OF assms(2)] splices_models [OF assms(1)] split_after_models [OF assms(2)] split_before_models [OF assms(2)]
    remove_as_list_models [OF assms(2)])

lemma demo_beside: "cursor_beside Map.empty
    ([0 \<mapsto> \<lparr>n_next = None, n_prev = None, n_elem = 7\<rparr>, 1 \<mapsto> \<lparr>n_next = None, n_prev = None, n_elem = 8\<rparr>],
      \<lparr>ll_head = Some 0, ll_tail = Some 0, ll_len = 1\<rparr>, \<lparr>c_index = 0, c_current = Some 0\<rparr>)
    \<lparr>ll_head = Some 1, ll_tail = Some 1, ll_len = 1\<rparr> ([], [7 :: nat]) [8]"
  using cursor_besideI [of "[0 \<mapsto> \<lparr>n_next = None, n_prev = None, n_elem = 7\<rparr>, 1 \<mapsto> \<lparr>n_next = None, n_prev = None, n_elem = 8\<rparr>]"
      "[]" "[(0, 7 :: nat)]" "\<lparr>ll_head = Some 0, ll_tail = Some 0, ll_len = 1\<rparr>" "\<lparr>c_index = 0, c_current = Some 0\<rparr>" "[(1, 8)]"
      "\<lparr>ll_head = Some 1, ll_tail = Some 1, ll_len = 1\<rparr>" Map.empty]
  by (simp add: cursor_at_def ll_rep_def frame_def restrict_map_def fun_eq_iff)

theorem cursor_splice_split_witness:
  "\<exists>s'. splice_after [0 \<mapsto> \<lparr>n_next = None, n_prev = None, n_elem = 7\<rparr>, 1 \<mapsto> \<lparr>n_next = None, n_prev = None, n_elem = 8\<rparr>]
      \<lparr>ll_head = Some 0, ll_tail = Some 0, ll_len = 1\<rparr> \<lparr>c_index = 0, c_current = Some 0\<rparr>
      \<lparr>ll_head = Some 1, ll_tail = Some 1, ll_len = 1\<rparr> = Ret s' \<and> cursor_models Map.empty s' ([], [7 :: nat, 8])"
  using cursor_splice_split [OF demo_beside cursor_new_models] by simp

end
