(* ===== verification/Linked_Ops.thy ===== *)
theory Linked_Ops
  imports Linked_Cursor Vec_Retain
begin

text \<open>
  The operations of \<open>LinkedList\<close> that walk through the list,
  \<open>library/alloc/src/collections/linked_list.rs\<close>: iterators, removal and splitting by index, filtering,
  searching, extending, clearing and dropping.
\<close>

section \<open>Indexed operations, filtering and iteration\<close>

fun move_times :: "nat \<Rightarrow> ('c \<Rightarrow> 'c outcome) \<Rightarrow> 'c \<Rightarrow> 'c outcome" where
  "move_times 0 step c = Ret c"
| "move_times (Suc n) step c = and_then (step c) (move_times n step)"

definition unwrap_current :: "('a option \<times> 'a cursor_state) outcome \<Rightarrow> ('a \<times> 'a cursor_state) outcome" where
  "unwrap_current m = and_then m (\<lambda>(r, s). case r of None \<Rightarrow> Panic | Some x \<Rightarrow> Ret (x, s))"

definition ll_remove :: "'a heap \<Rightarrow> linked_list \<Rightarrow> nat \<Rightarrow> ('a \<times> 'a heap \<times> linked_list) outcome" where
  "ll_remove h l at =
     (if \<not> at < ll_len l then Panic
      else let offset_from_end = ll_len l - at - 1
        in and_then (if at \<le> offset_from_end
            then move_times at (move_next h l) (cursor_front_mut l)
            else move_times offset_from_end (move_prev h l) (cursor_back_mut l)) (\<lambda>c.
          and_then (unwrap_current (remove_current h l c)) (\<lambda>(x, h, l, c). Ret (x, h, l))))"

text \<open>The loop of \<open>retain_mut\<close> ends when the cursor reaches the ghost element; \<open>None\<close> means
  that the fuel was not enough. The closure may change the element and may panic, and so may the destructor of a removed
  one.\<close>

fun ll_retain_loop :: "nat \<Rightarrow> ('s, 'a) pred_mut \<Rightarrow> ('a \<Rightarrow> bool) \<Rightarrow> 's \<Rightarrow> 'a cursor_state
    \<Rightarrow> (bool \<times> 'a heap \<times> linked_list \<times> 'a list) outcome option" where
  "ll_retain_loop fuel f dp s (h, l, c) = (case c_current c of
     None \<Rightarrow> Some (Ret (False, h, l, []))
   | Some p \<Rightarrow> (case h p of
       None \<Rightarrow> Some UB
     | Some n \<Rightarrow> (case f s (n_elem n) of (s, x, r) \<Rightarrow>
         let h = h(p \<mapsto> n\<lparr>n_elem := x\<rparr>)
         in (case r of
              None \<Rightarrow> Some (Ret (True, h, l, []))
            | Some False \<Rightarrow> (case unwrap_current (remove_current h l c) of
                  Ret (y, h, l, c) \<Rightarrow>
                    if dp y then Some (Ret (True, h, l, [y]))
                    else (case fuel of
                        0 \<Rightarrow> None
                      | Suc fuel \<Rightarrow> map_option (\<lambda>m. and_then m (\<lambda>(u, h, l, d). Ret (u, h, l, y # d)))
                          (ll_retain_loop fuel f dp s (h, l, c)))
                | Panic \<Rightarrow> Some Panic | UB \<Rightarrow> Some UB)
            | Some True \<Rightarrow> (case move_next h l c of
                  Ret c \<Rightarrow> (case fuel of 0 \<Rightarrow> None | Suc fuel \<Rightarrow> ll_retain_loop fuel f dp s (h, l, c))
                | Panic \<Rightarrow> Some Panic | UB \<Rightarrow> Some UB)))))"

definition ll_retain_mut :: "nat \<Rightarrow> ('s, 'a) pred_mut \<Rightarrow> ('a \<Rightarrow> bool) \<Rightarrow> 's \<Rightarrow> 'a heap \<Rightarrow> linked_list
    \<Rightarrow> (bool \<times> 'a heap \<times> linked_list \<times> 'a list) outcome option" where
  "ll_retain_mut fuel f dp s h l = ll_retain_loop fuel f dp s (h, l, cursor_front_mut l)"

record ll_iter =
  it_head :: "nat option"
  it_tail :: "nat option"
  it_len :: nat

definition ll_iter_of :: "linked_list \<Rightarrow> ll_iter" where
  "ll_iter_of l = \<lparr>it_head = ll_head l, it_tail = ll_tail l, it_len = ll_len l\<rparr>"

definition iter_next :: "'a heap \<Rightarrow> ll_iter \<Rightarrow> ('a option \<times> ll_iter) outcome" where
  "iter_next h i =
     (if it_len i = 0 then Ret (None, i)
      else (case it_head i of
          None \<Rightarrow> Ret (None, i)
        | Some p \<Rightarrow> and_then (as_ref h p) (\<lambda>n. Ret (Some (n_elem n), i\<lparr>it_len := it_len i - 1, it_head := n_next n\<rparr>))))"

definition iter_next_back :: "'a heap \<Rightarrow> ll_iter \<Rightarrow> ('a option \<times> ll_iter) outcome" where
  "iter_next_back h i =
     (if it_len i = 0 then Ret (None, i)
      else (case it_tail i of
          None \<Rightarrow> Ret (None, i)
        | Some p \<Rightarrow> and_then (as_ref h p) (\<lambda>n. Ret (Some (n_elem n), i\<lparr>it_len := it_len i - 1, it_tail := n_prev n\<rparr>))))"

definition ll_split_off :: "'a heap \<Rightarrow> linked_list \<Rightarrow> nat \<Rightarrow> ('a heap \<times> linked_list \<times> linked_list) outcome" where
  "ll_split_off h l at =
     (if \<not> at \<le> ll_len l then Panic
      else if at = 0 then Ret (h, ll_new, l)
      else if at = ll_len l then Ret (h, l, ll_new)
      else and_then (if at - 1 \<le> ll_len l - 1 - (at - 1)
          then and_then (move_times (at - 1) (\<lambda>i. and_then (iter_next h i) (\<lambda>(_, i). Ret i)) (ll_iter_of l)) (\<lambda>i. Ret (it_head i))
          else and_then (move_times (ll_len l - 1 - (at - 1)) (\<lambda>i. and_then (iter_next_back h i) (\<lambda>(_, i). Ret i)) (ll_iter_of l))
            (\<lambda>i. Ret (it_tail i))) (\<lambda>split_node.
        split_off_after_node h l split_node at))"

function ll_contains_from :: "'a heap \<Rightarrow> ('a \<Rightarrow> bool) \<Rightarrow> ll_iter \<Rightarrow> bool outcome" where
  "ll_contains_from h eq i = and_then (iter_next h i) (\<lambda>(r, i'). case r of
     None \<Rightarrow> Ret False
   | Some y \<Rightarrow> if eq y then Ret True else ll_contains_from h eq i')"
  by pat_completeness auto
termination
  by (relation "measure (\<lambda>(h, eq, i). it_len i)") (auto simp: iter_next_def outcome_simps split: if_splits option.splits)

definition ll_contains :: "'a heap \<Rightarrow> linked_list \<Rightarrow> ('a \<Rightarrow> bool) \<Rightarrow> bool outcome" where
  "ll_contains h l eq = ll_contains_from h eq (ll_iter_of l)"

text \<open>Extending by a sequence of elements pushes them one by one.\<close>

fun ll_extend :: "'a node_allocator \<Rightarrow> 'a heap \<times> linked_list \<Rightarrow> 'a list \<Rightarrow> ('a heap \<times> linked_list) outcome" where
  "ll_extend al s [] = Ret s"
| "ll_extend al s (x # xs) = and_then (ll_push_back al s x) (\<lambda>s. ll_extend al s xs)"

text \<open>The loop of \<open>drop\<close> pops until the list is empty or the destructor of an element panics. The guard then
  runs the same loop again; a second panic aborts the process.\<close>

lemma pop_front_node_len: "pop_front_node h l = Ret (Some x, h', l') \<Longrightarrow> ll_len l' < ll_len l"
  by (auto simp: pop_front_node_def link_before_def len_sub_def outcome_simps split: option.splits if_splits)

function drop_loop :: "('a \<Rightarrow> bool) \<Rightarrow> 'a heap \<Rightarrow> linked_list \<Rightarrow> (bool \<times> 'a heap \<times> linked_list \<times> 'a list) outcome" where
  "drop_loop dp h l = and_then (pop_front_node h l) (\<lambda>(r, h, l). case r of
     None \<Rightarrow> Ret (False, h, l, [])
   | Some x \<Rightarrow> if dp x then Ret (True, h, l, [x])
       else and_then (drop_loop dp h l) (\<lambda>(u, h, l, d). Ret (u, h, l, x # d)))"
  by pat_completeness auto
termination
  by (relation "measure (\<lambda>(dp, h, l). ll_len l)") (auto dest: pop_front_node_len)

datatype drop_end = Dropped | Unwound | Aborted

definition ll_drop :: "('a \<Rightarrow> bool) \<Rightarrow> 'a heap \<Rightarrow> linked_list \<Rightarrow> (drop_end \<times> 'a heap \<times> 'a list) outcome" where
  "ll_drop dp h l = and_then (drop_loop dp h l) (\<lambda>(u, h, l, d).
     if u then and_then (drop_loop dp h l) (\<lambda>(u, h, l, d'). Ret (if u then Aborted else Unwound, h, d @ d'))
     else Ret (Dropped, h, d))"

definition ll_clear :: "('a \<Rightarrow> bool) \<Rightarrow> 'a heap \<Rightarrow> linked_list \<Rightarrow> (drop_end \<times> 'a heap \<times> linked_list \<times> 'a list) outcome" where
  "ll_clear dp h l = and_then (ll_drop dp h l) (\<lambda>(e, h, d). Ret (e, h, ll_new, d))"

text \<open>The iterator that removes the elements a closure selects. The first component of a result is \<open>None\<close>
  when the closure panics.\<close>

record extract_if =
  ex_it :: "nat option"
  ex_idx :: nat
  ex_old_len :: nat

definition ll_extract_if :: "linked_list \<Rightarrow> extract_if" where
  "ll_extract_if l = \<lparr>ex_it = ll_head l, ex_idx = 0, ex_old_len = ll_len l\<rparr>"

fun extract_next :: "nat \<Rightarrow> ('s, 'a) pred_mut \<Rightarrow> 's \<Rightarrow> 'a heap \<times> linked_list \<times> extract_if
    \<Rightarrow> ('a option option \<times> 's \<times> 'a heap \<times> linked_list \<times> extract_if) outcome option" where
  "extract_next fuel f s (h, l, e) = (case ex_it e of
     None \<Rightarrow> Some (Ret (Some None, s, h, l, e))
   | Some p \<Rightarrow> (case h p of
       None \<Rightarrow> Some UB
     | Some n \<Rightarrow>
         let e = e\<lparr>ex_it := n_next n, ex_idx := ex_idx e + 1\<rparr>
         in (case f s (n_elem n) of (s, x, r) \<Rightarrow>
           let h = h(p \<mapsto> n\<lparr>n_elem := x\<rparr>)
           in (case r of
                None \<Rightarrow> Some (Ret (None, s, h, l, e))
              | Some True \<Rightarrow> Some (and_then (unlink_node h l p) (\<lambda>(h, l).
                  and_then (box_from_raw h p) (\<lambda>(b, h). Ret (Some (Some (n_elem b)), s, h, l, e))))
              | Some False \<Rightarrow> (case fuel of 0 \<Rightarrow> None | Suc fuel \<Rightarrow> extract_next fuel f s (h, l, e))))))"

definition extract_size_hint :: "extract_if \<Rightarrow> (nat \<times> nat) outcome" where
  "extract_size_hint e = (if ex_idx e \<le> ex_old_len e then Ret (0, ex_old_len e - ex_idx e) else Panic)"


declare ll_retain_loop.simps [simp del] extract_next.simps [simp del] drop_loop.simps [simp del] ll_contains_from.simps [simp del]

section \<open>Walking\<close>

lemma move_next_times: "cursor_at h as (bs @ cs) l c \<Longrightarrow>
    \<exists>c'. move_times (length bs) (move_next h l) c = Ret c' \<and> cursor_at h (as @ bs) cs l c'"
proof (induction bs arbitrary: as c)
  case (Cons b bs)
  from move_next_at(1) [of h as b "bs @ cs" l c] Cons.prems obtain c1 where
    "move_next h l c = Ret c1" "cursor_at h (as @ [b]) (bs @ cs) l c1" by auto
  with Cons.IH [of "as @ [b]" c1] show ?case by simp
qed simp

lemma move_prev_times: "cursor_at h (as @ bs) cs l c \<Longrightarrow>
    \<exists>c'. move_times (length bs) (move_prev h l) c = Ret c' \<and> cursor_at h as (bs @ cs) l c'"
proof (induction bs arbitrary: cs c rule: rev_induct)
  case (snoc b bs)
  from move_prev_at(1) [of h "as @ bs" b cs l c] snoc.prems obtain c1 where
    "move_prev h l c = Ret c1" "cursor_at h (as @ bs) (b # cs) l c1" by auto
  with snoc.IH [of "b # cs" c1] show ?case by simp
qed simp

text \<open>An iterator over a segment.\<close>

definition iter_at :: "'a heap \<Rightarrow> (nat \<times> 'a) list \<Rightarrow> ll_iter \<Rightarrow> bool" where
  "iter_at h cs i \<longleftrightarrow> it_len i = length cs \<and> (\<exists>prv nxt. links h prv cs nxt \<and> it_head i = first cs nxt \<and> it_tail i = final cs prv)"

lemma iter_at_of: "ll_rep h cs l \<Longrightarrow> iter_at h cs (ll_iter_of l)"
  by (auto simp: iter_at_def ll_iter_of_def ll_rep_def)

lemma iter_next_at:
  "iter_at h [] i \<Longrightarrow> iter_next h i = Ret (None, i)"
  "iter_at h (c # cs) i \<Longrightarrow> \<exists>i'. iter_next h i = Ret (Some (snd c), i') \<and> iter_at h cs i'"
proof -
  assume "iter_at h (c # cs) i"
  then obtain prv nxt where "it_len i = Suc (length cs)" "links h prv (c # cs) nxt" "it_head i = Some (fst c)"
    "it_tail i = final cs (Some (fst c))" by (auto simp: iter_at_def)
  then show "\<exists>i'. iter_next h i = Ret (Some (snd c), i') \<and> iter_at h cs i'"
    by (auto simp: iter_next_def iter_at_def as_ref_def)
qed (simp add: iter_at_def iter_next_def)

lemma iter_next_back_at:
  "iter_at h [] i \<Longrightarrow> iter_next_back h i = Ret (None, i)"
  "iter_at h (cs @ [c]) i \<Longrightarrow> \<exists>i'. iter_next_back h i = Ret (Some (snd c), i') \<and> iter_at h cs i'"
proof -
  assume "iter_at h (cs @ [c]) i"
  then obtain prv nxt where "it_len i = Suc (length cs)" "links h prv (cs @ [c]) nxt" "it_tail i = Some (fst c)"
    "it_head i = first cs (Some (fst c))" by (auto simp: iter_at_def)
  then show "\<exists>i'. iter_next_back h i = Ret (Some (snd c), i') \<and> iter_at h cs i'"
    by (auto simp: iter_next_back_def iter_at_def as_ref_def)
qed (simp add: iter_at_def iter_next_back_def)

lemma iter_skip: "iter_at h (as @ bs) i \<Longrightarrow>
    \<exists>i'. move_times (length as) (\<lambda>i. and_then (iter_next h i) (\<lambda>(_, i). Ret i)) i = Ret i' \<and> iter_at h bs i'"
proof (induction as arbitrary: i)
  case (Cons a as)
  from iter_next_at(2) [of h a "as @ bs" i] Cons.prems obtain i1 where
    "iter_next h i = Ret (Some (snd a), i1)" "iter_at h (as @ bs) i1" by auto
  with Cons.IH [of i1] show ?case by simp
qed simp

lemma iter_skip_back: "iter_at h (as @ bs) i \<Longrightarrow>
    \<exists>i'. move_times (length bs) (\<lambda>i. and_then (iter_next_back h i) (\<lambda>(_, i). Ret i)) i = Ret i' \<and> iter_at h as i'"
proof (induction bs arbitrary: i rule: rev_induct)
  case (snoc b bs)
  from iter_next_back_at(2) [of h "as @ bs" b i] snoc.prems obtain i1 where
    "iter_next_back h i = Ret (Some (snd b), i1)" "iter_at h (as @ bs) i1" by auto
  with snoc.IH [of i1] show ?case by simp
qed simp

lemma iter_at_ends: "iter_at h (cs @ [c]) i \<Longrightarrow> it_tail i = Some (fst c)" "iter_at h (c # cs) i \<Longrightarrow> it_head i = Some (fst c)"
  by (auto simp: iter_at_def)

lemma ll_contains_from_at: "iter_at h cs i \<Longrightarrow> ll_contains_from h eq i = Ret (\<exists>x\<in>set (map snd cs). eq x)"
proof (induction cs arbitrary: i)
  case Nil
  then show ?case by (subst ll_contains_from.simps) (simp add: iter_next_at)
next
  case (Cons c cs)
  from iter_next_at(2) [OF Cons.prems] obtain i' where "iter_next h i = Ret (Some (snd c), i')" "iter_at h cs i'" by auto
  then show ?case using Cons.IH [of i'] by (subst ll_contains_from.simps) simp
qed

lemma ll_contains_models: "ll_models F (h, l) xs \<Longrightarrow> ll_contains h l eq = Ret (\<exists>x\<in>set xs. eq x)"
  by (auto simp: ll_models_def ll_contains_def ll_contains_from_at [OF iter_at_of])

lemma ll_ends_models:
  assumes "ll_models F (h, l) xs"
  shows "ll_front h l = Ret (head_opt xs)" "ll_back h l = Ret (last_opt xs)"
proof -
  obtain cs where cs: "ll_rep h cs l" "map snd cs = xs" using assms by (auto simp: ll_models_def)
  show "ll_front h l = Ret (head_opt xs)" using elem_at_first [of h "[]" cs l] cs
    by (auto simp: ll_front_def elem_at_def ll_rep_def head_opt_map) (simp add: head_opt_def)
  show "ll_back h l = Ret (last_opt xs)" using elem_at_final [of h cs "[]" l] cs
    by (auto simp: ll_back_def elem_at_def ll_rep_def last_opt_def last_map)
qed

section \<open>Indexed operations\<close>

lemma split_at_index: "k < length cs \<Longrightarrow> cs = take k cs @ cs ! k # drop (Suc k) cs"
  by (rule id_take_nth_drop)

lemma ll_remove_models:
  assumes "ll_models F (h, l) xs"
  shows "if at < length xs then \<exists>s'. ll_remove h l at = Ret (xs ! at, s') \<and> ll_models F s' (take at xs @ drop (Suc at) xs)
    else ll_remove h l at = Panic"
proof -
  obtain cs where cs: "ll_rep h cs l" "map snd cs = xs" "frame h cs = F" using assms by (auto simp: ll_models_def)
  have len: "ll_len l = length xs" using cs by (auto simp: ll_rep_def)
  show ?thesis
  proof (cases "at < length xs")
    case True
    then have k: "at < length cs" using cs(2) by auto
    define as b bs where d: "as = take at cs" "b = cs ! at" "bs = drop (Suc at) cs"
    have s: "cs = as @ b # bs" using split_at_index [OF k] d by simp
    have la: "length as = at" "length bs = length xs - at - 1" using k d cs(2) by auto
    have "\<exists>c. (if at \<le> length xs - at - 1 then move_times at (move_next h l) (cursor_front_mut l)
        else move_times (length xs - at - 1) (move_prev h l) (cursor_back_mut l)) = Ret c \<and> cursor_at h as (b # bs) l c"
    proof (cases "at \<le> length xs - at - 1")
      case True
      then show ?thesis using move_next_times [of h "[]" as "b # bs" l] cursor_ends(1) [OF cs(1)] s la by simp
    next
      case False
      have "cs \<noteq> []" using s by simp
      then have "cursor_at h (butlast cs) [last cs] l (cursor_back_mut l)"
        using cursor_ends(2) [of h "butlast cs" "last cs" l] cs(1) by simp
      moreover obtain us u where u: "b # bs = us @ [u]" by (metis append_butlast_last_id list.distinct(1))
      ultimately have "cursor_at h (as @ us) [u] l (cursor_back_mut l)" using s by (simp add: butlast_append)
      moreover have "length us = length xs - at - 1" using arg_cong [OF u, of length] la(2) by simp
      ultimately show ?thesis using move_prev_times [of h as us "[u]" l "cursor_back_mut l"] u False by simp
    qed
    then obtain c where c: "(if at \<le> length xs - at - 1 then move_times at (move_next h l) (cursor_front_mut l)
        else move_times (length xs - at - 1) (move_prev h l) (cursor_back_mut l)) = Ret c" "cursor_at h as (b # bs) l c" by blast
    obtain h' l' c' where r: "remove_current h l c = Ret (Some (snd b), h', l', c')" "cursor_at h' as bs l' c'"
      "h' (fst b) = None" "frame h' (as @ bs) = frame h (as @ b # bs)" by (rule remove_current_at [OF c(2)])
    have "ll_models F (h', l') (map snd (as @ bs))"
      using ll_modelsI [OF cursor_at_rep [OF r(2)]] r(4) cs(3) s by simp
    moreover have "map snd (as @ bs) = take at xs @ drop (Suc at) xs" "snd b = xs ! at"
      using d cs(2) k by (auto simp: take_map drop_map)
    moreover have "ll_remove h l at = Ret (snd b, h', l')"
      using True r(1) unfolding ll_remove_def len Let_def c(1) by (simp add: unwrap_current_def)
    ultimately show ?thesis using True by auto
  qed (simp add: ll_remove_def len)
qed


text \<open>Two lists in disjoint nodes of one heap.\<close>

definition lists_beside :: "'a heap \<Rightarrow> 'a heap \<Rightarrow> linked_list \<Rightarrow> 'a list \<Rightarrow> linked_list \<Rightarrow> 'a list \<Rightarrow> bool" where
  "lists_beside F h l xs m ys \<longleftrightarrow> (\<exists>as bs. ll_rep h as l \<and> ll_rep h bs m \<and> addrs as \<inter> addrs bs = {}
     \<and> map snd as = xs \<and> map snd bs = ys \<and> frame h (as @ bs) = F)"

lemma lists_besideI:
  "ll_rep h as l \<Longrightarrow> ll_rep h bs m \<Longrightarrow> addrs as \<inter> addrs bs = {} \<Longrightarrow> frame h (as @ bs) = F
     \<Longrightarrow> lists_beside F h l (map snd as) m (map snd bs)"
  unfolding lists_beside_def by blast

lemma ll_split_off_models:
  assumes "ll_models F (h, l) xs"
  shows "if at \<le> length xs then \<exists>h' l' m. ll_split_off h l at = Ret (h', l', m) \<and> lists_beside F h' l' (take at xs) m (drop at xs)
    else ll_split_off h l at = Panic"
proof -
  obtain cs where cs: "ll_rep h cs l" "map snd cs = xs" "frame h cs = F" using assms by (auto simp: ll_models_def)
  have len: "ll_len l = length xs" using cs by (auto simp: ll_rep_def)
  consider "length xs < at" | "at = 0" | "at = length xs" "at \<noteq> 0" | "at < length xs" "at \<noteq> 0" by linarith
  then show ?thesis
  proof cases
    case 2
    then show ?thesis using cs lists_besideI [OF ll_new_rep cs(1)] by (simp add: ll_split_off_def)
  next
    case 3
    then show ?thesis using cs len lists_besideI [OF cs(1) ll_new_rep] by (simp add: ll_split_off_def)
  next
    case 4
    define as bs where d: "as = take at cs" "bs = drop at cs"
    have s: "cs = as @ bs" "length as = at" "length bs = length xs - at" using d 4 cs(2) by auto
    then have ne: "as \<noteq> []" "bs \<noteq> []" using 4 by auto
    obtain as' a where a: "as = as' @ [a]" using ne(1) by (cases as rule: rev_cases) auto
    note i = iter_at_of [OF cs(1)]
    have la: "length as' = at - 1" "length bs = length xs - 1 - (at - 1)" using a s 4 by auto
    obtain i1 where 1: "move_times (at - 1) (\<lambda>i. and_then (iter_next h i) (\<lambda>(_, i). Ret i)) (ll_iter_of l) = Ret i1"
      "it_head i1 = Some (fst a)" using iter_skip [of h as' "a # bs" "ll_iter_of l"] i s(1) a la(1) by (auto dest: iter_at_ends(2))
    obtain i2 where 2: "move_times (length xs - 1 - (at - 1)) (\<lambda>i. and_then (iter_next_back h i) (\<lambda>(_, i). Ret i)) (ll_iter_of l) = Ret i2"
      "it_tail i2 = Some (fst a)" using iter_skip_back [of h as bs "ll_iter_of l"] i s(1) a la(2) by (auto dest: iter_at_ends(1))
    obtain h' l' m where r: "split_off_after_node h l (final as None) (length as) = Ret (h', l', m)"
      "ll_rep h' as l'" "ll_rep h' bs m" "\<And>q. q \<notin> addrs (as @ bs) \<Longrightarrow> h' q = h q"
      using split_off_after_node_rep [of h as bs l] cs(1) s(1) ne(1) by auto
    have "ll_split_off h l at = Ret (h', l', m)" using 4 1 2 r(1) len a s(2) by (simp add: ll_split_off_def)
    moreover have "addrs as \<inter> addrs bs = {}" using ll_rep_disjoint cs(1) s(1) by blast
    moreover have "map snd as = take at xs" "map snd bs = drop at xs" using d cs(2) by (auto simp: take_map drop_map)
    moreover have "frame h' (as @ bs) = F" unfolding cs(3) [symmetric] s(1) by (rule frame_sameI) (use r(4) in auto)
    ultimately show ?thesis using 4 lists_besideI [OF r(2,3)] by simp
  qed (simp add: ll_split_off_def len)
qed

lemma ll_append_models:
  assumes "lists_beside F h l xs m ys"
  shows "\<exists>h' l'. ll_append h l m = Ret (h', l', ll_new) \<and> ll_models F (h', l') (xs @ ys)"
proof -
  obtain as bs where s: "ll_rep h as l" "ll_rep h bs m" "addrs as \<inter> addrs bs = {}" "map snd as = xs" "map snd bs = ys"
    "frame h (as @ bs) = F" using assms by (auto simp: lists_beside_def)
  obtain h' l' where r: "ll_append h l m = Ret (h', l', ll_new)" "ll_rep h' (as @ bs) l'"
    "\<And>q. q \<notin> addrs (as @ bs) \<Longrightarrow> h' q = h q" by (rule ll_append_rep [OF s(1-3)]) blast
  have "frame h' (as @ bs) = F" unfolding s(6) [symmetric] by (rule frame_sameI) (use r(3) in auto)
  then show ?thesis using r(1) ll_modelsI [OF r(2)] s(4,5) by auto
qed

text \<open>Calls at the two ends, and when such a sequence runs out of nodes.\<close>

abbreviation ll_call :: "'a node_allocator \<Rightarrow> 'a deque_op \<Rightarrow> 'a heap \<times> linked_list \<Rightarrow> ('a option \<times> 'a heap \<times> linked_list) outcome" where
  "ll_call al \<equiv> run_op (ll_push_back al) (ll_push_front al) ll_pop_back ll_pop_front"

abbreviation ll_stuck :: "'a node_allocator \<Rightarrow> 'a deque_op \<Rightarrow> 'a heap \<times> linked_list \<Rightarrow> bool" where
  "ll_stuck al \<equiv> push_stuck (\<lambda>s. al (fst s) = None)"

lemma ll_extend_models:
  assumes "allocates al"
  shows "ll_models F s xs \<Longrightarrow> if runs_out (ll_call al) (ll_stuck al) (map Push_Back ys) s then ll_extend al s ys = Panic
    else \<exists>s'. ll_extend al s ys = Ret s' \<and> ll_models F s' (xs @ ys)"
proof (induction ys arbitrary: s xs)
  case (Cons y ys)
  from ll_push_models(1) [OF assms Cons.prems, of y] consider "al (fst s) = None" "ll_push_back al s y = Panic"
    | s' where "al (fst s) \<noteq> None" "ll_push_back al s y = Ret s'" "ll_models F s' (xs @ [y])" by (auto split: if_splits)
  then show ?case
  proof cases
    case 2
    with Cons.IH [OF 2(3)] show ?thesis by (cases "al (fst s)") (simp_all split: if_splits)
  qed simp
qed simp


section \<open>Filtering\<close>

text \<open>The closure's change of the element under the cursor.\<close>

lemma cursor_elem_at:
  assumes "cursor_at h as (b # bs) l c"
  obtains n where "c_current c = Some (fst b)" "h (fst b) = Some n" "n_elem n = snd b" "n_next n = first bs None"
    "\<And>x. cursor_at (h(fst b \<mapsto> n\<lparr>n_elem := x\<rparr>)) as ((fst b, x) # bs) l c"
    "\<And>x. frame (h(fst b \<mapsto> n\<lparr>n_elem := x\<rparr>)) (as @ (fst b, x) # bs) = frame h (as @ b # bs)"
proof -
  let ?n = "\<lparr>n_next = first bs None, n_prev = final as None, n_elem = snd b\<rparr>"
  note rep = cursor_at_rep [OF assms]
  have n: "h (fst b) = Some ?n" using rep by (simp add: ll_rep_def)
  have out: "fst b \<notin> addrs as" "fst b \<notin> addrs bs" using rep by (auto simp: ll_rep_def)
  have "cursor_at (h(fst b \<mapsto> ?n\<lparr>n_elem := x\<rparr>)) as ((fst b, x) # bs) l c" for x
  proof -
    let ?h = "h(fst b \<mapsto> ?n\<lparr>n_elem := x\<rparr>)"
    have "links ?h None as (Some (fst b)) = links h None as (Some (fst b))" by (rule links_cong) (use out(1) in \<open>metis fun_upd_other\<close>)
    moreover have "links ?h (Some (fst b)) bs None = links h (Some (fst b)) bs None" by (rule links_cong) (use out(2) in \<open>metis fun_upd_other\<close>)
    ultimately show ?thesis using assms by (simp add: cursor_at_def ll_rep_def)
  qed
  moreover have "frame (h(fst b \<mapsto> ?n\<lparr>n_elem := x\<rparr>)) (as @ (fst b, x) # bs) = frame h (as @ b # bs)" for x
    by (rule frame_sameI) auto
  ultimately show ?thesis using that [of ?n] n assms by (simp add: cursor_at_def)
qed

lemma ll_models_at: "cursor_at h as bs l c \<Longrightarrow> frame h (as @ bs) = F \<Longrightarrow> ll_models F (h, l) (map snd as @ map snd bs)"
  using ll_modelsI [of h "as @ bs" l "map snd as @ map snd bs" F] cursor_at_rep [of h as bs l c] by simp

definition retained :: "'a heap \<Rightarrow> 'a list \<Rightarrow> (bool \<times> 'a heap \<times> linked_list \<times> 'a list) outcome option \<Rightarrow> bool \<times> 'a list \<times> 'a list \<Rightarrow> bool" where
  "retained F xs m r \<longleftrightarrow> (case r of (u, ys, d) \<Rightarrow> \<exists>h l. m = Some (Ret (u, h, l, d)) \<and> ll_models F (h, l) (xs @ ys))"

lemma retainedI: "m = Some (Ret (u, h, l, d)) \<Longrightarrow> ll_models F (h, l) (xs @ ys) \<Longrightarrow> retained F xs m (u, ys, d)"
  by (simp add: retained_def)

lemma ll_retain_loop_at:
  "cursor_at h as bs l c \<Longrightarrow> frame h (as @ bs) = F \<Longrightarrow> length bs \<le> fuel \<Longrightarrow>
     retained F (map snd as) (ll_retain_loop fuel f dp s (h, l, c)) (retain_run f dp s (map snd bs))"
proof (induction bs arbitrary: as h l c fuel s)
  case Nil
  then show ?case using ll_models_at [OF Nil(1,2)]
    by (subst ll_retain_loop.simps) (simp add: cursor_at_def retained_def)
next
  case (Cons b bs)
  obtain k where k: "fuel = Suc k" "length bs \<le> k" using Cons.prems(3) by (cases fuel) auto
  obtain n where n: "c_current c = Some (fst b)" "h (fst b) = Some n" "n_elem n = snd b"
    "\<And>x. cursor_at (h(fst b \<mapsto> n\<lparr>n_elem := x\<rparr>)) as ((fst b, x) # bs) l c"
    "\<And>x. frame (h(fst b \<mapsto> n\<lparr>n_elem := x\<rparr>)) (as @ (fst b, x) # bs) = frame h (as @ b # bs)"
    by (rule cursor_elem_at [OF Cons.prems(1)]) blast
  obtain s' x r where f: "f s (snd b) = (s', x, r)" by (metis prod_cases3)
  let ?h = "h(fst b \<mapsto> n\<lparr>n_elem := x\<rparr>)"
  note c1 = n(4) [of x] and F1 = n(5) [of x, unfolded Cons.prems(2)]
  consider "r = None" | "r = Some True" | "r = Some False" by (cases r) auto
  then show ?case
  proof cases
    case 1
    then show ?thesis using ll_models_at [OF c1 F1] n(1-3) f
      by (subst ll_retain_loop.simps) (simp add: retained_def)
  next
    case 2
    obtain c' where m: "move_next ?h l c = Ret c'" "cursor_at ?h (as @ [(fst b, x)]) bs l c'" using move_next_at(1) [OF c1] by blast
    have "retained F (map snd (as @ [(fst b, x)])) (ll_retain_loop k f dp s' (?h, l, c')) (retain_run f dp s' (map snd bs))"
      by (rule Cons.IH [OF m(2) _ k(2)]) (simp only: append_assoc append.simps F1)
    then show ?thesis using 2 n(1-3) f m(1) k(1)
      by (subst ll_retain_loop.simps) (simp add: retained_def split: prod.splits)
  next
    case 3
    obtain h' l' c' where m: "remove_current ?h l c = Ret (Some x, h', l', c')" "cursor_at h' as bs l' c'"
      "frame h' (as @ bs) = frame ?h (as @ (fst b, x) # bs)" by (rule remove_current_at [OF c1, unfolded snd_conv]) blast
    have F': "frame h' (as @ bs) = F" using m(3) F1 by simp
    have u: "unwrap_current (remove_current ?h l c) = Ret (x, h', l', c')" using m(1) by (simp add: unwrap_current_def)
    have ih: "retained F (map snd as) (ll_retain_loop k f dp s' (h', l', c')) (retain_run f dp s' (map snd bs))"
      by (rule Cons.IH [OF m(2) F' k(2)])
    show ?thesis using 3 n(1-3) f u k(1) ih ll_models_at [OF m(2) F']
      by (subst ll_retain_loop.simps) (auto simp: retained_def split: prod.splits)
  qed
qed

lemma ll_retain_mut_models:
  assumes "ll_models F (h, l) xs" "length xs \<le> fuel"
  shows "retained F [] (ll_retain_mut fuel f dp s h l) (retain_run f dp s xs)"
proof -
  obtain cs where cs: "ll_rep h cs l" "map snd cs = xs" "frame h cs = F" using assms by (auto simp: ll_models_def)
  show ?thesis using ll_retain_loop_at [OF cursor_ends(1) [OF cs(1)], of F fuel f dp s] cs assms(2)
    by (simp add: ll_retain_mut_def) (metis length_map)
qed


text \<open>Extracting: one step of the iterator on the elements it has not seen, as a reference definition. The result is
  what the call returns, the closure's state, the seen elements that stay and the unseen ones.\<close>

fun extract_run :: "('s, 'a) pred_mut \<Rightarrow> 's \<Rightarrow> 'a list \<Rightarrow> 'a option option \<times> 's \<times> 'a list \<times> 'a list" where
  "extract_run f s [] = (Some None, s, [], [])"
| "extract_run f s (x # xs) = (case f s x of
     (s, x, None) \<Rightarrow> (None, s, [x], xs)
   | (s, x, Some True) \<Rightarrow> (Some (Some x), s, [], xs)
   | (s, x, Some False) \<Rightarrow> (case extract_run f s xs of (r, s, ks, ys) \<Rightarrow> (r, s, x # ks, ys)))"

text \<open>The iterator stands between the seen elements that stayed and the unseen ones; its index counts the seen ones,
  removed or not.\<close>

definition extract_models :: "'a heap \<Rightarrow> 'a heap \<times> linked_list \<times> extract_if \<Rightarrow> 'a list \<Rightarrow> 'a list \<Rightarrow> bool" where
  "extract_models F z xs ys \<longleftrightarrow> (case z of (h, l, e) \<Rightarrow> \<exists>as bs. ll_rep h (as @ bs) l \<and> map snd as = xs \<and> map snd bs = ys
     \<and> frame h (as @ bs) = F \<and> ex_it e = first bs None \<and> ex_idx e + length bs = ex_old_len e)"

lemma extract_modelsI:
  "ll_rep h (as @ bs) l \<Longrightarrow> map snd as = xs \<Longrightarrow> map snd bs = ys \<Longrightarrow> frame h (as @ bs) = F \<Longrightarrow> ex_it e = first bs None
     \<Longrightarrow> ex_idx e + length bs = ex_old_len e \<Longrightarrow> extract_models F (h, l, e) xs ys"
  unfolding extract_models_def by auto

lemma unlink_and_free:
  assumes "ll_rep h (as @ b # bs) l"
  obtains h' l' where "and_then (unlink_node h l (fst b)) (\<lambda>(h, l). and_then (box_from_raw h (fst b)) (\<lambda>(n, h). g (n_elem n) h l))
      = g (snd b) h' l'" "ll_rep h' (as @ bs) l'" "frame h' (as @ bs) = frame h (as @ b # bs)"
proof -
  let ?c = "\<lparr>c_index = length as, c_current = Some (fst b)\<rparr>"
  have c: "cursor_at h as (b # bs) l ?c" using assms by (simp add: cursor_at_def)
  obtain h' l' c' where r: "remove_current h l ?c = Ret (Some (snd b), h', l', c')" "cursor_at h' as bs l' c'"
    "frame h' (as @ bs) = frame h (as @ b # bs)" by (rule remove_current_at [OF c])
  have "and_then (unlink_node h l (fst b)) (\<lambda>(h, l). and_then (box_from_raw h (fst b)) (\<lambda>(n, h). g (n_elem n) h l)) = g (snd b) h' l'"
    using r(1) as_ref_mid [OF assms] by (auto simp: remove_current_def outcome_simps split: prod.splits)
  then show ?thesis using that cursor_at_rep [OF r(2)] r(3) by blast
qed


definition extracted :: "'a heap \<Rightarrow> 'a list \<Rightarrow> ('a option option \<times> 's \<times> 'a heap \<times> linked_list \<times> extract_if) outcome option
    \<Rightarrow> 'a option option \<times> 's \<times> 'a list \<times> 'a list \<Rightarrow> bool" where
  "extracted F xs m z \<longleftrightarrow> (case z of (r, s, ks, ys) \<Rightarrow> \<exists>h l e. m = Some (Ret (r, s, h, l, e)) \<and> extract_models F (h, l, e) (xs @ ks) ys)"

lemma extract_next_at:
  "ll_rep h (as @ bs) l \<Longrightarrow> frame h (as @ bs) = F \<Longrightarrow> ex_it e = first bs None \<Longrightarrow> ex_idx e + length bs = ex_old_len e
     \<Longrightarrow> length bs \<le> fuel \<Longrightarrow> extracted F (map snd as) (extract_next fuel f s (h, l, e)) (extract_run f s (map snd bs))"
proof (induction bs arbitrary: as h l e fuel s)
  case Nil
  then show ?case using extract_modelsI [of h as "[]" l "map snd as" "[]" F e]
    by (subst extract_next.simps) (simp add: extracted_def)
next
  case (Cons b bs)
  obtain k where k: "fuel = Suc k" "length bs \<le> k" using Cons.prems(5) by (cases fuel) auto
  have c: "cursor_at h as (b # bs) l \<lparr>c_index = length as, c_current = Some (fst b)\<rparr>" using Cons.prems(1) by (simp add: cursor_at_def)
  obtain n where n: "h (fst b) = Some n" "n_elem n = snd b" "n_next n = first bs None"
    "\<And>x. cursor_at (h(fst b \<mapsto> n\<lparr>n_elem := x\<rparr>)) as ((fst b, x) # bs) l \<lparr>c_index = length as, c_current = Some (fst b)\<rparr>"
    "\<And>x. frame (h(fst b \<mapsto> n\<lparr>n_elem := x\<rparr>)) (as @ (fst b, x) # bs) = frame h (as @ b # bs)"
    by (rule cursor_elem_at [OF c]) blast
  obtain s' x r where f: "f s (snd b) = (s', x, r)" by (metis prod_cases3)
  let ?h = "h(fst b \<mapsto> n\<lparr>n_elem := x\<rparr>)" and ?e = "e\<lparr>ex_it := n_next n, ex_idx := ex_idx e + 1\<rparr>"
  have c1: "ll_rep ?h (as @ (fst b, x) # bs) l" by (rule cursor_at_rep [OF n(4)])
  have F1: "frame ?h (as @ (fst b, x) # bs) = F" using n(5) Cons.prems(2) by (simp only:)
  have e: "ex_it ?e = first bs None" "ex_idx ?e + length bs = ex_old_len ?e" using n(3) Cons.prems(4) by simp_all
  have it: "ex_it e = Some (fst b)" using Cons.prems(3) by simp
  have c2: "ll_rep ?h ((as @ [(fst b, x)]) @ bs) l" "frame ?h ((as @ [(fst b, x)]) @ bs) = F" using c1 F1 by (simp_all only: append_assoc append.simps)
  consider "r = None" | "r = Some False" | "r = Some True" by (cases r) auto
  then show ?case
  proof cases
    case 1
    have "extract_models F (?h, l, ?e) (map snd as @ [x]) (map snd bs)" by (rule extract_modelsI [OF c2(1) _ _ c2(2) e]) simp_all
    then show ?thesis using 1 it n(1,2) f by (subst extract_next.simps) (simp add: extracted_def Let_def)
  next
    case 2
    have "extracted F (map snd (as @ [(fst b, x)])) (extract_next k f s' (?h, l, ?e)) (extract_run f s' (map snd bs))"
      by (rule Cons.IH [OF c2 e k(2)])
    then show ?thesis using 2 it n(1,2) f k(1)
      by (subst extract_next.simps) (simp add: extracted_def Let_def split: prod.splits)
  next
    case 3
    obtain h' l' where r: "and_then (unlink_node ?h l (fst b)) (\<lambda>(h, l). and_then (box_from_raw h (fst b))
        (\<lambda>(n, h). Ret (Some (Some (n_elem n)), s', h, l, ?e))) = Ret (Some (Some x), s', h', l', ?e)"
      "ll_rep h' (as @ bs) l'" "frame h' (as @ bs) = F"
      using unlink_and_free [OF c1, of "\<lambda>x h l. Ret (Some (Some x), s', h, l, ?e)"] F1 by auto
    have "extract_models F (h', l', ?e) (map snd as) (map snd bs)" by (rule extract_modelsI [OF r(2) _ _ r(3) e]) simp_all
    then show ?thesis using 3 it n(1,2) f r(1) by (subst extract_next.simps) (simp add: extracted_def Let_def)
  qed
qed

lemma extract_next_models:
  assumes "extract_models F z xs ys" "length ys \<le> fuel"
  shows "extracted F xs (extract_next fuel f s z) (extract_run f s ys)"
proof -
  obtain h l e where z: "z = (h, l, e)" by (metis prod_cases3)
  show ?thesis using assms extract_next_at [of h _ _ l F e fuel f s] unfolding z extract_models_def by auto
qed

section \<open>Dropping\<close>

text \<open>How far a first pass gets: the elements up to and including the first whose destructor panics.\<close>

fun drop_run :: "('a \<Rightarrow> bool) \<Rightarrow> 'a list \<Rightarrow> bool \<times> 'a list \<times> 'a list" where
  "drop_run dp [] = (False, [], [])"
| "drop_run dp (x # xs) = (if dp x then (True, [x], xs) else (case drop_run dp xs of (u, d, ys) \<Rightarrow> (u, x # d, ys)))"

lemma drop_loop_models:
  "ll_models F (h, l) xs \<Longrightarrow> \<exists>h' l'. drop_loop dp h l = Ret (fst (drop_run dp xs), h', l', fst (snd (drop_run dp xs)))
     \<and> ll_models F (h', l') (snd (snd (drop_run dp xs)))"
proof (induction xs arbitrary: h l)
  case Nil
  obtain s' where "pop_front_node h l = Ret (None, s')" "ll_models F s' []"
    using ll_pop_models(2) [OF Nil] by (auto simp: ll_pop_front_def)
  then show ?case by (cases s') (subst drop_loop.simps, simp)
next
  case (Cons x xs)
  obtain h' l' where p: "pop_front_node h l = Ret (Some x, h', l')" "ll_models F (h', l') xs"
    using ll_pop_models(2) [OF Cons.prems] by (auto simp: ll_pop_front_def)
  show ?case using p Cons.IH [OF p(2)] by (subst drop_loop.simps) (auto split: prod.split)
qed

lemma drop_run_split: "drop_run dp xs = (u, d, ys) \<Longrightarrow> xs = d @ ys \<and> (\<not> u \<longrightarrow> ys = []) \<and> length (filter dp d) = (if u then 1 else 0)"
  by (induction xs arbitrary: u d ys) (auto split: if_splits prod.splits)

lemma ll_models_Nil: "ll_models F (h, l) [] \<Longrightarrow> h = F"
  by (auto simp: ll_models_def frame_def restrict_map_def)

lemma ll_drop_models:
  assumes "ll_models F (h, l) xs"
  shows "\<exists>h' d e. ll_drop dp h l = Ret (e, h', d) \<and> (e = Aborted \<or> d = xs \<and> h' = F)
    \<and> e = (case length (filter dp xs) of 0 \<Rightarrow> Dropped | Suc 0 \<Rightarrow> Unwound | _ \<Rightarrow> Aborted)"
proof -
  obtain u d ys where r: "drop_run dp xs = (u, d, ys)" by (metis prod_cases3)
  note s = drop_run_split [OF r]
  obtain h' l' where 1: "drop_loop dp h l = Ret (u, h', l', d)" "ll_models F (h', l') ys" using drop_loop_models [OF assms, of dp] r by auto
  obtain u2 d2 zs where r2: "drop_run dp ys = (u2, d2, zs)" by (metis prod_cases3)
  note s2 = drop_run_split [OF r2]
  obtain h2 l2 where 2: "drop_loop dp h' l' = Ret (u2, h2, l2, d2)" "ll_models F (h2, l2) zs" using drop_loop_models [OF 1(2), of dp] r2 by auto
  show ?thesis
  proof (cases u)
    case True
    have e: "ll_drop dp h l = Ret (if u2 then Aborted else Unwound, h2, d @ d2)" using 1(1) 2(1) True by (simp add: ll_drop_def)
    show ?thesis
    proof (cases u2)
      case False
      then show ?thesis using e s s2 True ll_models_Nil 2(2) by auto
    next
      case u2: True
      then have "length (filter dp xs) = Suc (Suc (length (filter dp zs)))" using s s2 True by simp
      then show ?thesis using e u2 by simp
    qed
  next
    case False
    then have "ll_drop dp h l = Ret (Dropped, h', d)" using 1(1) by (simp add: ll_drop_def)
    then show ?thesis using s False ll_models_Nil 1(2) by auto
  qed
qed


section \<open>Properties\<close>

text \<open>C36: a \<open>LinkedList\<close> is a list. Any sequence of pushes and pops at both ends returns what it returns
  on the represented list; it panics exactly when a push of it finds the allocator out of nodes, and so does extending by
  elements. Removal and splitting by index, from whichever end is closer, take the element or the tail at that index and panic
  exactly out of range; appending another list of the same heap, extending by elements, searching and looking at the ends are
  the list operations. In all of them the pointers stay consistent, every node that leaves the list is freed or belongs to the
  other list, and nothing else in memory changes.\<close>

theorem ll_refines_list:
  assumes "allocates al" "ll_models F (h, l) xs" "lists_beside F h1 l1 as m bs"
  shows "(if runs_out (ll_call al) (ll_stuck al) ks (h, l) then run_calls (ll_call al) ks (h, l) = Panic
      else \<exists>s'. run_calls (ll_call al) ks (h, l) = Ret (fst (list_run ks xs), s') \<and> ll_models F s' (snd (list_run ks xs)))
    \<and> (if at < length xs then \<exists>s'. ll_remove h l at = Ret (xs ! at, s') \<and> ll_models F s' (take at xs @ drop (Suc at) xs)
       else ll_remove h l at = Panic)
    \<and> (if at \<le> length xs then \<exists>h' l' m. ll_split_off h l at = Ret (h', l', m) \<and> lists_beside F h' l' (take at xs) m (drop at xs)
       else ll_split_off h l at = Panic)
    \<and> (\<exists>h' l'. ll_append h1 l1 m = Ret (h', l', ll_new) \<and> ll_models F (h', l') (as @ bs))
    \<and> (if runs_out (ll_call al) (ll_stuck al) (map Push_Back ys) (h, l) then ll_extend al (h, l) ys = Panic
       else \<exists>s'. ll_extend al (h, l) ys = Ret s' \<and> ll_models F s' (xs @ ys))
    \<and> ll_contains h l eq = Ret (\<exists>x\<in>set xs. eq x)
    \<and> ll_front h l = Ret (head_opt xs) \<and> ll_back h l = Ret (last_opt xs)"
  by (intro conjI deque.run_ops_refines [OF ll_deque [OF assms(1)] assms(2)] ll_remove_models [OF assms(2)]
    ll_split_off_models [OF assms(2)] ll_append_models [OF assms(3)] ll_extend_models [OF assms(1,2)] ll_contains_models [OF assms(2)]
    ll_ends_models [OF assms(2)])

lemma ll_new_models: "ll_models h (h, ll_new) []" "lists_beside h h ll_new [] ll_new []"
  using ll_modelsI [OF ll_new_rep [of h], of "[]" h] lists_besideI [OF ll_new_rep [of h] ll_new_rep [of h], of h]
  by (simp_all add: frame_def restrict_map_def)

theorem ll_refines_list_witness:
  "(\<exists>s'. run_calls (ll_call (first_fit 3))
      [Push_Back 1, Push_Front (2 :: nat), Push_Back 3, Pop_Front, Push_Front 4, Pop_Back] (Map.empty, ll_new)
      = Ret ([None, None, None, Some 2, None, Some 3], s') \<and> ll_models Map.empty s' [4, 1])
   \<and> (\<exists>s'. ll_extend (first_fit 3) (Map.empty, ll_new) [5, 6, 7 :: nat] = Ret s' \<and> ll_models Map.empty s' [5, 6, 7])
   \<and> ll_extend (first_fit 3) (Map.empty, ll_new) [5, 6, 7, 8 :: nat] = Panic"
proof -
  let ?ks = "[Push_Back 1, Push_Front (2 :: nat), Push_Back 3, Pop_Front, Push_Front 4, Pop_Back]" and ?s = "(Map.empty, ll_new)"
  have z: "list_run ?ks [] = ([None, None, None, Some 2, None, Some 3], [4, 1])" by simp
  have o: "runs_out (ll_call (first_fit 3)) (ll_stuck (first_fit 3)) ?ks ?s = False"
    "runs_out (ll_call (first_fit 3)) (ll_stuck (first_fit 3)) (map Push_Back [5, 6, 7 :: nat]) ?s = False"
    "runs_out (ll_call (first_fit 3)) (ll_stuck (first_fit 3)) (map Push_Back [5, 6, 7, 8 :: nat]) ?s = True" by code_simp+
  note t = ll_refines_list [OF first_fit_allocates ll_new_models(1) [of Map.empty] ll_new_models(2)]
  show ?thesis
    using t [of 3 ?ks 0 "[5, 6, 7]" "\<lambda>_. True", unfolded o if_False z fst_conv snd_conv append_Nil]
      t [of 3 ?ks 0 "[5, 6, 7, 8]" "\<lambda>_. True", unfolded o if_True] by blast
qed

text \<open>C37: the operations that call user code are safe against its panics. \<open>retain_mut\<close> ends and is the same
  in-order pass as on a vector: kept elements stay in order with the closure's changes, rejected ones are unlinked
  and dropped, and if the closure or a destructor panics the rest is still in the list. Each step of \<open>extract_if\<close>
  ends, returns the next selected element and keeps the others; its size hint is the number of unseen elements. Dropping
  or clearing a list frees every node and drops every element once, in order, also when one destructor panics; a
  second panic aborts.\<close>

theorem ll_filters_panic_safe:
  assumes "ll_models F (h, l) xs" "extract_models F (h1, l1, e) as bs" "length xs + length bs \<le> fuel"
  shows "retained F [] (ll_retain_mut fuel f dp s h l) (retain_run f dp s xs)
    \<and> extract_models F (h, l, ll_extract_if l) [] xs
    \<and> extracted F as (extract_next fuel f s (h1, l1, e)) (extract_run f s bs)
    \<and> extract_size_hint e = Ret (0, length bs)
    \<and> (\<exists>h' d e. ll_drop dp h l = Ret (e, h', d) \<and> ll_clear dp h l = Ret (e, h', ll_new, d) \<and> (e = Aborted \<or> d = xs \<and> h' = F)
        \<and> e = (case length (filter dp xs) of 0 \<Rightarrow> Dropped | Suc 0 \<Rightarrow> Unwound | _ \<Rightarrow> Aborted))"
proof (intro conjI)
  obtain cs where cs: "ll_rep h cs l" "map snd cs = xs" "frame h cs = F" using assms(1) by (auto simp: ll_models_def)
  then show "extract_models F (h, l, ll_extract_if l) [] xs"
    by (intro extract_modelsI [of h "[]" cs]) (auto simp: ll_extract_if_def ll_rep_def)
  show "extract_size_hint e = Ret (0, length bs)" using assms(2) by (auto simp: extract_models_def extract_size_hint_def)
  show "\<exists>h' d e. ll_drop dp h l = Ret (e, h', d) \<and> ll_clear dp h l = Ret (e, h', ll_new, d) \<and> (e = Aborted \<or> d = xs \<and> h' = F)
        \<and> e = (case length (filter dp xs) of 0 \<Rightarrow> Dropped | Suc 0 \<Rightarrow> Unwound | _ \<Rightarrow> Aborted)"
    using ll_drop_models [OF assms(1), of dp] by (auto simp: ll_clear_def)
  show "retained F [] (ll_retain_mut fuel f dp s h l) (retain_run f dp s xs)"
    by (rule ll_retain_mut_models [OF assms(1)]) (use assms(3) in simp)
  show "extracted F as (extract_next fuel f s (h1, l1, e)) (extract_run f s bs)"
    by (rule extract_next_models [OF assms(2)]) (use assms(3) in simp)
qed

definition demo_list :: "nat heap \<times> linked_list" where
  "demo_list = ([0 \<mapsto> \<lparr>n_next = Some 1, n_prev = None, n_elem = 7\<rparr>, 1 \<mapsto> \<lparr>n_next = None, n_prev = Some 0, n_elem = 8\<rparr>],
     \<lparr>ll_head = Some 0, ll_tail = Some 1, ll_len = 2\<rparr>)"

lemma demo_list_models: "ll_models Map.empty (fst demo_list, snd demo_list) [7, 8]"
  by (rule ll_modelsI [of _ "[(0, 7), (1, 8)]"])
    (simp_all add: demo_list_def ll_rep_def frame_def restrict_map_def fun_eq_iff)

lemma extract_new_models: "extract_models h (h, ll_new, ll_extract_if ll_new) [] []"
  by (rule extract_modelsI [of _ "[]" "[]"]) (simp_all add: frame_def restrict_map_def ll_extract_if_def, simp_all add: ll_new_def)

theorem ll_filters_panic_safe_witness:
  "\<exists>h l. ll_retain_mut 2 (\<lambda>s x. (s, x + 1, Some (odd x))) (\<lambda>_. False) () (fst demo_list) (snd demo_list)
     = Some (Ret (False, h, l, [9])) \<and> ll_models Map.empty (h, l) [8]"
  using ll_filters_panic_safe [OF demo_list_models extract_new_models, of 2 "\<lambda>s x. (s, x + 1, Some (odd x))" "\<lambda>_. False" "()"]
  by (simp add: retained_def)

end
