(* ===== verification/Sort_Insertion.thy ===== *)
theory Sort_Insertion
  imports Usize
begin

text \<open>
  What the stable sorts of \<open>library/core/src/slice/sort\<close> share: the comparison closure, the ways a piece of the
  sort can end, stable permutations, and the insertion sort of \<open>shared/smallsort.rs\<close>.
\<close>

section \<open>Comparisons and control flow\<close>

text \<open>The closure \<open>is_less\<close> has a state and may panic, which is the answer \<open>None\<close>; it need not
  be consistent. A slice is a list. Pointer copies duplicate an element for a while, so that no element is lost or duplicated
  in the end is a theorem. The result of a step is the closure's state, the slice, and whether the step returns, unwinds
  because the closure panicked, aborts the process, or has not ended within its fuel.\<close>

type_synonym ('s, 'a) is_less = "'s \<Rightarrow> 'a \<Rightarrow> 'a \<Rightarrow> 's \<times> bool option"

datatype 'r flow = Goes 'r | Unwinds | Aborts | No_Fuel

type_synonym ('s, 'a, 'r) sort_step = "('s \<times> 'a list \<times> 'r flow) outcome"

definition if_goes :: "('s, 'a, 'r) sort_step \<Rightarrow> ('s \<Rightarrow> 'a list \<Rightarrow> 'r \<Rightarrow> ('s, 'a, 'q) sort_step) \<Rightarrow> ('s, 'a, 'q) sort_step" where
  "if_goes m k = and_then m (\<lambda>(s, v, f). case f of
     Goes r \<Rightarrow> k s v r | Unwinds \<Rightarrow> Ret (s, v, Unwinds) | Aborts \<Rightarrow> Ret (s, v, Aborts) | No_Fuel \<Rightarrow> Ret (s, v, No_Fuel))"

text \<open>Writing through a pointer into a slice, and running a step on the sub-slice from \<open>a\<close> to
  \<open>b\<close>.\<close>

definition put :: "'a list \<Rightarrow> nat \<Rightarrow> 'a \<Rightarrow> 'a list outcome" where
  "put v i x = (if i < length v then Ret (v[i := x]) else UB)"

definition on_slice :: "nat \<Rightarrow> nat \<Rightarrow> 'a list \<Rightarrow> ('a list \<Rightarrow> ('s, 'a, 'r) sort_step) \<Rightarrow> ('s, 'a, 'r) sort_step" where
  "on_slice a b v m =
     (if a \<le> b \<and> b \<le> length v
      then and_then (m (take (b - a) (drop a v))) (\<lambda>(s, w, f). Ret (s, take a v @ w @ drop b v, f))
      else Panic)"

text \<open>A comparison of two elements of the slice.\<close>

definition compare_at :: "('s, 'a) is_less \<Rightarrow> 's \<Rightarrow> 'a list \<Rightarrow> nat \<Rightarrow> nat \<Rightarrow> ('s, 'a, bool) sort_step" where
  "compare_at is_less s v i j =
     and_then (get_unchecked v i) (\<lambda>a. and_then (get_unchecked v j) (\<lambda>b. case is_less s a b of
       (s, None) \<Rightarrow> Ret (s, v, Unwinds) | (s, Some r) \<Rightarrow> Ret (s, v, Goes r)))"

section \<open>Insertion sort\<close>

text \<open>The loop of \<open>insert_tail\<close> and its guard, which writes the saved element back into the gap on every
  way out.\<close>

fun insert_loop :: "('s, 'a) is_less \<Rightarrow> 'a \<Rightarrow> 's \<Rightarrow> 'a list \<Rightarrow> nat \<Rightarrow> nat \<Rightarrow> ('s, 'a, unit) sort_step" where
  "insert_loop is_less tmp s v 0 gap =
     and_then (get_unchecked v 0) (\<lambda>x.
       and_then (put v gap x) (\<lambda>v.
         and_then (put v 0 tmp) (\<lambda>v. Ret (s, v, Goes ()))))"
| "insert_loop is_less tmp s v (Suc sift) gap =
     and_then (get_unchecked v (Suc sift)) (\<lambda>x.
       and_then (put v gap x) (\<lambda>v.
         and_then (get_unchecked v sift) (\<lambda>y. case is_less s tmp y of
             (s, None) \<Rightarrow> and_then (put v (Suc sift) tmp) (\<lambda>v. Ret (s, v, Unwinds))
           | (s, Some False) \<Rightarrow> and_then (put v (Suc sift) tmp) (\<lambda>v. Ret (s, v, Goes ()))
           | (s, Some True) \<Rightarrow> insert_loop is_less tmp s v sift (Suc sift))))"

definition insert_tail :: "('s, 'a) is_less \<Rightarrow> 's \<Rightarrow> 'a list \<Rightarrow> nat \<Rightarrow> ('s, 'a, unit) sort_step" where
  "insert_tail is_less s v tail =
     (if tail = 0 then UB
      else and_then (get_unchecked v tail) (\<lambda>tmp.
        and_then (get_unchecked v (tail - 1)) (\<lambda>x. case is_less s tmp x of
            (s, None) \<Rightarrow> Ret (s, v, Unwinds)
          | (s, Some False) \<Rightarrow> Ret (s, v, Goes ())
          | (s, Some True) \<Rightarrow> insert_loop is_less tmp s v (tail - 1) tail)))"

text \<open>The loop over the tails, with the number of elements that are left.\<close>

fun insert_tails :: "('s, 'a) is_less \<Rightarrow> nat \<Rightarrow> 's \<Rightarrow> 'a list \<Rightarrow> nat \<Rightarrow> ('s, 'a, unit) sort_step" where
  "insert_tails is_less 0 s v tail = Ret (s, v, Goes ())"
| "insert_tails is_less (Suc n) s v tail =
     if_goes (insert_tail is_less s v tail) (\<lambda>s v _. insert_tails is_less n s v (tail + 1))"

definition insertion_sort_shift_left :: "('s, 'a) is_less \<Rightarrow> 's \<Rightarrow> 'a list \<Rightarrow> nat \<Rightarrow> ('s, 'a, unit) sort_step" where
  "insertion_sort_shift_left is_less s v offset =
     (if offset = 0 \<or> offset > length v then Ret (s, v, Aborts)
      else insert_tails is_less (length v - offset) s v offset)"

section \<open>Stable permutations\<close>

definition stably :: "('a \<Rightarrow> 'k) \<Rightarrow> 'a list \<Rightarrow> 'a list \<Rightarrow> bool" where
  "stably key xs ys \<longleftrightarrow> (\<forall>k. filter (\<lambda>x. key x = k) xs = filter (\<lambda>x. key x = k) ys)"

lemma stably_refl [simp]: "stably key xs xs"
  by (simp add: stably_def)

lemma stably_sym: "stably key xs ys \<Longrightarrow> stably key ys xs"
  by (simp add: stably_def)

lemma stably_trans [trans]: "stably key xs ys \<Longrightarrow> stably key ys zs \<Longrightarrow> stably key xs zs"
  by (simp add: stably_def)

lemma stably_append: "stably key xs xs' \<Longrightarrow> stably key ys ys' \<Longrightarrow> stably key (xs @ ys) (xs' @ ys')"
  by (simp add: stably_def)

lemma stably_Cons: "stably key xs ys \<Longrightarrow> stably key (x # xs) (x # ys)"
  by (simp add: stably_def)

text \<open>Neighbouring blocks without a common key can be exchanged.\<close>

lemma stably_exchange:
  assumes "\<And>x y. x \<in> set xs \<Longrightarrow> y \<in> set ys \<Longrightarrow> key x \<noteq> key y"
  shows "stably key (xs @ ys) (ys @ xs)"
  unfolding stably_def
proof
  fix k
  have "filter (\<lambda>x. key x = k) xs = [] \<or> filter (\<lambda>x. key x = k) ys = []"
    using assms by (auto simp: filter_empty_conv)
  then show "filter (\<lambda>x. key x = k) (xs @ ys) = filter (\<lambda>x. key x = k) (ys @ xs)" by auto
qed

lemma stably_mset: "stably key xs ys \<Longrightarrow> mset xs = mset ys"
proof (rule multiset_eqI)
  fix x
  assume "stably key xs ys"
  then have f: "filter (\<lambda>y. key y = key x) xs = filter (\<lambda>y. key y = key x) ys" by (simp add: stably_def)
  have c: "count (mset zs) x = count (mset (filter (\<lambda>y. key y = key x) zs)) x" for zs by (induction zs) auto
  show "count (mset xs) x = count (mset ys) x" unfolding c [of xs] c [of ys] f ..
qed

lemma stably_sort_key: "stably key xs ys \<Longrightarrow> sorted (map key ys) \<Longrightarrow> sort_key key xs = (ys :: 'a list)"
proof (rule properties_for_sort_key)
  assume a: "stably key xs ys"
  show "mset ys = mset xs" using stably_mset [OF a] by simp
  show "filter (\<lambda>x. key k = key x) ys = filter (\<lambda>x. key k = key x) xs" if "k \<in> set ys" for k
    using a [unfolded stably_def, rule_format, of "key k"] by (simp only: eq_commute [of "key k"])
qed

text \<open>A closure that compares keys, whatever it does to its state.\<close>

definition keyed :: "('s, 'a) is_less \<Rightarrow> ('a \<Rightarrow> 'k :: linorder) \<Rightarrow> bool" where
  "keyed is_less key \<longleftrightarrow> (\<forall>s a b. snd (is_less s a b) = Some (key a < key b))"

lemma keyed_answer: "keyed is_less key \<Longrightarrow> is_less s a b = (s', r) \<Longrightarrow> r = Some (key a < key b)"
  unfolding keyed_def by (metis snd_conv)

text \<open>What every part of the sort promises: it ends without undefined behaviour and without an abort, and whatever the
  closure does it leaves a permutation of the slice; if the closure compares keys, the step returns and the
  permutation is stable.\<close>

definition permutes :: "('s, 'a) is_less \<Rightarrow> ('a \<Rightarrow> 'k :: linorder) \<Rightarrow> 'a list \<Rightarrow> ('s, 'a, 'r) sort_step \<Rightarrow> ('r \<Rightarrow> 'a list \<Rightarrow> bool) \<Rightarrow> bool" where
  "permutes is_less key v m Q \<longleftrightarrow> (\<exists>s w f. m = Ret (s, w, f) \<and> mset w = mset v
     \<and> (case f of Goes r \<Rightarrow> (keyed is_less key \<longrightarrow> stably key v w) \<and> Q r w | Unwinds \<Rightarrow> \<not> keyed is_less key | _ \<Rightarrow> False))"

definition sorts :: "('s, 'a) is_less \<Rightarrow> ('a \<Rightarrow> 'k :: linorder) \<Rightarrow> 'a list \<Rightarrow> ('s, 'a, unit) sort_step \<Rightarrow> bool" where
  "sorts is_less key v m \<longleftrightarrow> permutes is_less key v m (\<lambda>_ w. keyed is_less key \<longrightarrow> sorted (map key w))"


section \<open>Rules\<close>

lemma permutes_Goes: "Q r v \<Longrightarrow> permutes is_less key v (Ret (s, v, Goes r)) Q"
  by (simp add: permutes_def)

lemma permutesI:
  "m = Ret (s, w, Goes r) \<Longrightarrow> mset w = mset v \<Longrightarrow> (keyed is_less key \<Longrightarrow> stably key v w) \<Longrightarrow> Q r w \<Longrightarrow> permutes is_less key v m Q"
  by (simp add: permutes_def)

lemma permutes_Unwinds: "m = Ret (s, w, Unwinds) \<Longrightarrow> mset w = mset v \<Longrightarrow> \<not> keyed is_less key \<Longrightarrow> permutes is_less key v m Q"
  by (simp add: permutes_def)

lemma permutesE [consumes 1, case_names goes unwinds]:
  assumes "permutes is_less key v m Q"
  obtains s w r where "m = Ret (s, w, Goes r)" "mset w = mset v" "keyed is_less key \<Longrightarrow> stably key v w" "Q r w"
    | s w where "m = Ret (s, w, Unwinds)" "mset w = mset v" "\<not> keyed is_less key"
proof -
  obtain s w f where f: "m = Ret (s, w, f)" "mset w = mset v"
    "case f of Goes r \<Rightarrow> (keyed is_less key \<longrightarrow> stably key v w) \<and> Q r w | Unwinds \<Rightarrow> \<not> keyed is_less key | _ \<Rightarrow> False"
    using assms unfolding permutes_def by blast
  then show ?thesis using that by (cases f) auto
qed

lemma sorts_sort_key:
  "sorts is_less key v m \<longleftrightarrow> (\<exists>s w f. m = Ret (s, w, f) \<and> mset w = mset v
     \<and> (f = Goes () \<or> f = Unwinds \<and> \<not> keyed is_less key) \<and> (keyed is_less key \<longrightarrow> w = sort_key key v))"
proof
  assume "sorts is_less key v m"
  then show "\<exists>s w f. m = Ret (s, w, f) \<and> mset w = mset v
     \<and> (f = Goes () \<or> f = Unwinds \<and> \<not> keyed is_less key) \<and> (keyed is_less key \<longrightarrow> w = sort_key key v)"
    unfolding sorts_def by (cases rule: permutesE) (auto simp: stably_sort_key)
next
  have "stably key v (sort_key key v)" by (simp add: stably_def sort_key_stable)
  moreover assume "\<exists>s w f. m = Ret (s, w, f) \<and> mset w = mset v
     \<and> (f = Goes () \<or> f = Unwinds \<and> \<not> keyed is_less key) \<and> (keyed is_less key \<longrightarrow> w = sort_key key v)"
  ultimately show "sorts is_less key v m" unfolding sorts_def permutes_def by auto
qed

lemma permutes_weaken:
  assumes "permutes is_less key v m P"
    and "\<And>r w. mset w = mset v \<Longrightarrow> (keyed is_less key \<Longrightarrow> stably key v w) \<Longrightarrow> P r w \<Longrightarrow> Q r w"
  shows "permutes is_less key v m Q"
  using assms(1)
proof (cases rule: permutesE)
  case (goes s w r)
  then show ?thesis by (intro permutesI [of m s w r]) (auto intro: assms(2))
qed (rule permutes_Unwinds)

lemma permutes_if_goes:
  assumes m: "permutes is_less key v m P"
    and k: "\<And>s w r. mset w = mset v \<Longrightarrow> (keyed is_less key \<Longrightarrow> stably key v w) \<Longrightarrow> P r w \<Longrightarrow> permutes is_less key w (k s w r) Q"
  shows "permutes is_less key v (if_goes m k) Q"
  using m
proof (cases rule: permutesE)
  case (goes s w r)
  have "permutes is_less key w (k s w r) Q" by (rule k) (use goes in auto)
  then show ?thesis
  proof (cases rule: permutesE)
    case g: (goes s' w' r')
    then show ?thesis using goes by (intro permutesI [of _ s' w' r']) (auto simp: if_goes_def intro: stably_trans)
  next
    case (unwinds s' w')
    then show ?thesis using goes by (intro permutes_Unwinds [of _ s' w']) (simp_all add: if_goes_def)
  qed
next
  case (unwinds s w)
  then show ?thesis by (intro permutes_Unwinds [of _ s w]) (simp_all add: if_goes_def)
qed

lemma permutes_on_slice:
  assumes b: "a \<le> b" "b \<le> length v" and m: "permutes is_less key (take (b - a) (drop a v)) (m (take (b - a) (drop a v))) P"
    and Q: "\<And>r w. mset w = mset (take (b - a) (drop a v)) \<Longrightarrow> (keyed is_less key \<Longrightarrow> stably key (take (b - a) (drop a v)) w)
      \<Longrightarrow> P r w \<Longrightarrow> Q r (take a v @ w @ drop b v)"
  shows "permutes is_less key v (on_slice a b v m) Q"
proof -
  obtain s w f where f: "m (take (b - a) (drop a v)) = Ret (s, w, f)" "mset w = mset (take (b - a) (drop a v))"
    "case f of Goes r \<Rightarrow> (keyed is_less key \<longrightarrow> stably key (take (b - a) (drop a v)) w) \<and> P r w
      | Unwinds \<Rightarrow> \<not> keyed is_less key | _ \<Rightarrow> False" using m unfolding permutes_def by blast
  have v: "v = take a v @ take (b - a) (drop a v) @ drop b v"
    using b by (metis append_take_drop_id drop_drop le_add_diff_inverse2)
  have ms: "mset (take a v @ w @ drop b v) = mset v" using f(2) by (subst (2) v) simp
  have st: "stably key v (take a v @ w @ drop b v)" if "stably key (take (b - a) (drop a v)) w"
    by (subst v) (intro stably_append stably_refl that)
  show ?thesis using f b ms st Q [of w] unfolding permutes_def by (cases f) (auto simp: on_slice_def)
qed

lemma put_Ret [simp]: "i < length v \<Longrightarrow> put v i x = Ret (v[i := x])"
  by (simp add: put_def)

lemma compare_at_permutes:
  assumes "i < length v" "j < length v"
  shows "permutes is_less key v (compare_at is_less s v i j) (\<lambda>r w. w = v \<and> (keyed is_less key \<longrightarrow> r = (key (v ! i) < key (v ! j))))"
proof -
  obtain s1 a where q: "is_less s (v ! i) (v ! j) = (s1, a)" by force
  have key: "a = Some (key (v ! i) < key (v ! j))" if "keyed is_less key" using keyed_answer [OF that q] .
  show ?thesis
  proof (cases a)
    case None
    then show ?thesis using assms q key by (intro permutes_Unwinds [of _ s1 v]) (auto simp: compare_at_def)
  next
    case (Some r)
    then show ?thesis using assms q key by (intro permutesI [of _ s1 v r]) (auto simp: compare_at_def)
  qed
qed

lemma permutes_compare:
  assumes "i < length v" "j < length v"
    and k: "\<And>s r. (keyed is_less key \<Longrightarrow> r = (key (v ! i) < key (v ! j))) \<Longrightarrow> permutes is_less key v (k s v r) Q"
  shows "permutes is_less key v (if_goes (compare_at is_less s v i j) k) Q"
  by (rule permutes_if_goes [OF compare_at_permutes [OF assms(1,2)]]) (use k in auto)

section \<open>Insertion sort sorts\<close>

text \<open>The gap lies one behind the element that is about to move up.\<close>

lemma insert_loop_run:
  "\<exists>s' w f. insert_loop is_less tmp s (P @ x # g # R) (length P) (Suc (length P)) = Ret (s', w @ R, f)
     \<and> mset w = add_mset tmp (mset (P @ [x])) \<and> (f = Goes () \<or> f = Unwinds \<and> \<not> keyed is_less key)
     \<and> (keyed is_less key \<and> key tmp < key x \<longrightarrow>
         (\<exists>A B. w = A @ tmp # B \<and> P @ [x] = A @ B \<and> (\<forall>b\<in>set B. key tmp < key b) \<and> (A = [] \<or> key (last A) \<le> key tmp)))"
proof (induction P arbitrary: s x g R rule: rev_induct)
  case Nil
  have "[x] = [] @ [x]" by simp
  then show ?case by (fastforce simp: nth_append)
next
  case (snoc y P)
  let ?v = "P @ y # x # x # R" and ?w = "P @ y # tmp # x # R"
  have step: "insert_loop is_less tmp s ((P @ [y]) @ x # g # R) (length (P @ [y])) (Suc (length (P @ [y]))) = (case is_less s tmp y of
      (s, None) \<Rightarrow> Ret (s, ?w, Unwinds) | (s, Some False) \<Rightarrow> Ret (s, ?w, Goes ())
    | (s, Some True) \<Rightarrow> insert_loop is_less tmp s ?v (length P) (Suc (length P)))"
    by (simp add: nth_append list_update_append split: prod.split option.split bool.split)
  obtain s1 r where c: "is_less s tmp y = (s1, r)" by force
  have key: "r = Some (key tmp < key y)" if "keyed is_less key" using keyed_answer [OF that c] .
  consider "r = None" | "r = Some False" | "r = Some True" by (cases r) auto
  then show ?case
  proof cases
    case 1
    then show ?thesis unfolding step c using key
      by (intro exI [of _ s1] exI [of _ "P @ [y, tmp, x]"] exI [of _ "Unwinds"]) auto
  next
    case 2
    have "keyed is_less key \<and> key tmp < key x \<longrightarrow>
        (\<exists>A B. P @ [y, tmp, x] = A @ tmp # B \<and> (P @ [y]) @ [x] = A @ B \<and> (\<forall>b\<in>set B. key tmp < key b) \<and> (A = [] \<or> key (last A) \<le> key tmp))"
      using key 2 by (intro impI exI [of _ "P @ [y]"] exI [of _ "[x]"]) auto
    then show ?thesis unfolding step c using 2
      by (intro exI [of _ s1] exI [of _ "P @ [y, tmp, x]"] exI [of _ "Goes ()"]) auto
  next
    case 3
    obtain s' w f where ih: "insert_loop is_less tmp s1 (P @ y # x # x # R) (length P) (Suc (length P)) = Ret (s', w @ x # R, f)"
      "mset w = add_mset tmp (mset (P @ [y]))" "f = Goes () \<or> f = Unwinds \<and> \<not> keyed is_less key"
      "keyed is_less key \<and> key tmp < key y \<longrightarrow>
         (\<exists>A B. w = A @ tmp # B \<and> P @ [y] = A @ B \<and> (\<forall>b\<in>set B. key tmp < key b) \<and> (A = [] \<or> key (last A) \<le> key tmp))"
      using snoc [of s1 y x "x # R"] by blast
    have "keyed is_less key \<and> key tmp < key x \<longrightarrow>
        (\<exists>A B. w @ [x] = A @ tmp # B \<and> (P @ [y]) @ [x] = A @ B \<and> (\<forall>b\<in>set B. key tmp < key b) \<and> (A = [] \<or> key (last A) \<le> key tmp))"
    proof
      assume k: "keyed is_less key \<and> key tmp < key x"
      then obtain A B where "w = A @ tmp # B" "P @ [y] = A @ B" "\<forall>b\<in>set B. key tmp < key b" "A = [] \<or> key (last A) \<le> key tmp"
        using ih(4) key 3 by auto
      then show "\<exists>A B. w @ [x] = A @ tmp # B \<and> (P @ [y]) @ [x] = A @ B \<and> (\<forall>b\<in>set B. key tmp < key b) \<and> (A = [] \<or> key (last A) \<le> key tmp)"
        using k by (intro exI [of _ A] exI [of _ "B @ [x]"]) auto
    qed
    then show ?thesis unfolding step c using 3 ih(1-3)
      by (intro exI [of _ s'] exI [of _ "w @ [x]"] exI [of _ f]) auto
  qed
qed


lemma sorted_insert_at:
  assumes "sorted (map key (A @ B))" "\<forall>b\<in>set B. key t \<le> key b" "A = [] \<or> key (last A) \<le> (key t :: 'k :: linorder)"
  shows "sorted (map key (A @ t # B))"
proof -
  have "key a \<le> key t" if a: "a \<in> set A" for a
  proof -
    obtain A' z where A: "A = A' @ [z]" using a by (cases A rule: rev_cases) auto
    then have "key a \<le> key z" using assms(1) a by (auto simp: sorted_append)
    then show ?thesis using assms(3) A by auto
  qed
  then show ?thesis using assms(1,2) by (auto simp: sorted_append)
qed

lemma insert_tail_permutes:
  assumes "0 < tail" "tail < length v"
  shows "permutes is_less key v (insert_tail is_less s v tail) (\<lambda>_ w. drop (Suc tail) w = drop (Suc tail) v
    \<and> (keyed is_less key \<and> sorted (map key (take tail v)) \<longrightarrow> sorted (map key (take (Suc tail) w))))"
    (is "permutes _ _ _ _ ?Q")
proof -
  define P x tmp R where d: "P = take (tail - 1) v" "x = v ! (tail - 1)" "tmp = v ! tail" "R = drop (Suc tail) v"
  have tx: "take tail v = P @ [x]" using assms d take_Suc_conv_app_nth [of "tail - 1" v] by simp
  have v: "v = P @ x # tmp # R" using id_take_nth_drop [OF assms(2)] tx d by simp
  have len: "length P = tail - 1" using assms d by simp
  have tail: "tail = Suc (length P)" using len assms by simp
  obtain s1 r where c: "is_less s tmp x = (s1, r)" by force
  have key: "r = Some (key tmp < key x)" if "keyed is_less key" using keyed_answer [OF that c] .
  have step: "insert_tail is_less s v tail = (case r of None \<Rightarrow> Ret (s1, v, Unwinds) | Some False \<Rightarrow> Ret (s1, v, Goes ())
    | Some True \<Rightarrow> insert_loop is_less tmp s1 v (length P) (Suc (length P)))"
    using assms c d(2,3) tail by (simp add: insert_tail_def split: option.split bool.split)
  consider "r = None" | "r = Some False" | "r = Some True" by (cases r) auto
  then show ?thesis
  proof cases
    case 1
    then show ?thesis using step key by (intro permutes_Unwinds [of _ s1 v]) auto
  next
    case 2
    have "sorted (map key (take (Suc tail) v))" if "keyed is_less key" "sorted (map key (take tail v))"
    proof -
      have "key x \<le> key tmp" using key [OF that(1)] 2 by simp
      then have "sorted (map key ((P @ [x]) @ [tmp]))" using that(2) tx sorted_insert_at [of key "P @ [x]" "[]" tmp] by simp
      moreover have "take (Suc tail) v = (P @ [x]) @ [tmp]" by (subst v) (simp add: tail)
      ultimately show ?thesis by simp
    qed
    then show ?thesis using step 2 by (simp add: permutes_Goes)
  next
    case 3
    obtain s' w f where l: "insert_loop is_less tmp s1 (P @ x # tmp # R) (length P) (Suc (length P)) = Ret (s', w @ R, f)"
      "mset w = add_mset tmp (mset (P @ [x]))" "f = Goes () \<or> f = Unwinds \<and> \<not> keyed is_less key"
      "keyed is_less key \<and> key tmp < key x \<longrightarrow>
         (\<exists>A B. w = A @ tmp # B \<and> P @ [x] = A @ B \<and> (\<forall>b\<in>set B. key tmp < key b) \<and> (A = [] \<or> key (last A) \<le> key tmp))"
      using insert_loop_run [of is_less tmp s1 P x tmp R key] by blast
    have r: "insert_tail is_less s v tail = Ret (s', w @ R, f)" using step 3 l(1) v by simp
    have ms: "mset (w @ R) = mset v" using l(2) by (simp add: v)
    have lw: "length w = Suc tail" using mset_eq_length [OF l(2) [folded mset.simps(2)]] tail by simp
    show ?thesis
    proof (cases "f = Goes ()")
      case True
      have key': "\<exists>A B. w = A @ tmp # B \<and> P @ [x] = A @ B \<and> (\<forall>b\<in>set B. key tmp < key b) \<and> (A = [] \<or> key (last A) \<le> key tmp)"
        if "keyed is_less key" using that key [OF that] 3 l(4) by simp
      show ?thesis
      proof (rule permutesI [OF r [unfolded True] ms])
        assume "keyed is_less key"
        then obtain A B where w: "w = A @ tmp # B" "P @ [x] = A @ B" "\<forall>b\<in>set B. key tmp < key b" using key' by blast
        have "stably key (B @ [tmp]) ([tmp] @ B)" using w(3) by (intro stably_exchange) auto
        then have "stably key ((A @ (B @ [tmp])) @ R) ((A @ ([tmp] @ B)) @ R)" by (rule stably_append [OF stably_append [OF stably_refl] stably_refl])
        moreover have "v = (P @ [x]) @ [tmp] @ R" using v by simp
        then have "v = (A @ (B @ [tmp])) @ R" unfolding w(2) by simp
        ultimately show "stably key v (w @ R)" using w(1) by simp
      next
        have "sorted (map key w)" if k: "keyed is_less key" "sorted (map key (take tail v))"
        proof -
          obtain A B where w: "w = A @ tmp # B" "P @ [x] = A @ B" "\<forall>b\<in>set B. key tmp < key b" "A = [] \<or> key (last A) \<le> key tmp"
            using key' [OF k(1)] by blast
          have "sorted (map key (A @ B))" using k(2) unfolding tx w(2) .
          then show ?thesis unfolding w(1) by (rule sorted_insert_at [OF _ _ w(4)]) (use w(3) in auto)
        qed
        then show "?Q () (w @ R)" using lw d(4) by simp
      qed
    next
      case False
      then show ?thesis using l(3) r by (intro permutes_Unwinds [OF _ ms]) auto
    qed
  qed
qed

lemma insert_tails_permutes:
  "0 < tail \<Longrightarrow> tail + n = length v \<Longrightarrow> permutes is_less key v (insert_tails is_less n s v tail)
     (\<lambda>_ w. keyed is_less key \<and> sorted (map key (take tail v)) \<longrightarrow> sorted (map key w))"
proof (induction n arbitrary: s v tail)
  case 0
  then show ?case by (simp add: permutes_Goes)
next
  case (Suc n)
  have t: "tail < length v" using Suc.prems by simp
  show ?case unfolding insert_tails.simps
  proof (rule permutes_if_goes [OF insert_tail_permutes [OF Suc.prems(1) t]], goal_cases)
    case (1 s' w r)
    have "length w = length v" using mset_eq_length [OF 1(1)] .
    then have "permutes is_less key w (insert_tails is_less n s' w (tail + 1))
        (\<lambda>_ z. keyed is_less key \<and> sorted (map key (take (tail + 1) w)) \<longrightarrow> sorted (map key z))"
      using Suc.IH [of "tail + 1" w s'] Suc.prems by simp
    then show ?case by (rule permutes_weaken) (use 1(3) in simp)
  qed
qed

lemma insertion_sort_shift_left_permutes:
  assumes "0 < offset" "offset \<le> length v"
  shows "permutes is_less key v (insertion_sort_shift_left is_less s v offset)
    (\<lambda>_ w. keyed is_less key \<and> sorted (map key (take offset v)) \<longrightarrow> sorted (map key w))"
  using insert_tails_permutes [of offset "length v - offset" v is_less key s] assms by (simp add: insertion_sort_shift_left_def)

lemma insertion_sort_sorts: "2 \<le> length v \<Longrightarrow> sorts is_less key v (insertion_sort_shift_left is_less s v 1)"
  unfolding sorts_def
  by (rule permutes_weaken [OF insertion_sort_shift_left_permutes]) (cases v; simp)+

end
