(* ===== verification/Sort_Partition.thy ===== *)
theory Sort_Partition
  imports Sort_Insertion
begin

text \<open>
  The pivot selection of \<open>library/core/src/slice/sort/shared/pivot.rs\<close> and the stable partition of
  \<open>library/core/src/slice/sort/stable/quicksort.rs\<close>.
\<close>

section \<open>Choosing a pivot\<close>

definition median3 :: "('s, 'a) is_less \<Rightarrow> 's \<Rightarrow> 'a list \<Rightarrow> nat \<Rightarrow> nat \<Rightarrow> nat \<Rightarrow> ('s, 'a, nat) sort_step" where
  "median3 is_less s v a b c =
     if_goes (compare_at is_less s v a b) (\<lambda>s v x.
       if_goes (compare_at is_less s v a c) (\<lambda>s v y.
         if x = y
         then if_goes (compare_at is_less s v b c) (\<lambda>s v z. Ret (s, v, Goes (if z \<noteq> x then c else b)))
         else Ret (s, v, Goes a)))"

definition PSEUDO_MEDIAN_REC_THRESHOLD :: nat where
  "PSEUDO_MEDIAN_REC_THRESHOLD = 64"

function median3_rec :: "('s, 'a) is_less \<Rightarrow> 's \<Rightarrow> 'a list \<Rightarrow> nat \<Rightarrow> nat \<Rightarrow> nat \<Rightarrow> nat \<Rightarrow> ('s, 'a, nat) sort_step" where
  "median3_rec is_less s v a b c n =
     (if n * 8 \<ge> PSEUDO_MEDIAN_REC_THRESHOLD
      then if_goes (median3_rec is_less s v a (a + n div 8 * 4) (a + n div 8 * 7) (n div 8)) (\<lambda>s v a.
        if_goes (median3_rec is_less s v b (b + n div 8 * 4) (b + n div 8 * 7) (n div 8)) (\<lambda>s v b.
          if_goes (median3_rec is_less s v c (c + n div 8 * 4) (c + n div 8 * 7) (n div 8)) (\<lambda>s v c.
            median3 is_less s v a b c)))
      else median3 is_less s v a b c)"
  by pat_completeness auto
termination
  by (relation "measure (\<lambda>(is_less, s, v, a, b, c, n). n)") (auto simp: PSEUDO_MEDIAN_REC_THRESHOLD_def)

definition choose_pivot :: "('s, 'a) is_less \<Rightarrow> 's \<Rightarrow> 'a list \<Rightarrow> ('s, 'a, nat) sort_step" where
  "choose_pivot is_less s v =
     (if length v < 8 then Ret (s, v, Aborts)
      else let n = length v div 8
        in if length v < PSEUDO_MEDIAN_REC_THRESHOLD then median3 is_less s v 0 (n * 4) (n * 7)
           else median3_rec is_less s v 0 (n * 4) (n * 7) n)"

declare median3_rec.simps [simp del]

section \<open>Partitioning\<close>

text \<open>The scratch space is a list of cells, \<open>None\<close> where it is uninitialised: elements that go left are
  written from its beginning, the others from position \<open>len\<close> downwards.\<close>

record 'a partition_state =
  ps_scratch :: "'a option list"
  ps_scan :: nat
  ps_num_left :: nat
  ps_scratch_rev :: nat

definition partition_new :: "nat \<Rightarrow> nat \<Rightarrow> 'a partition_state" where
  "partition_new sl len = \<lparr>ps_scratch = replicate sl None, ps_scan = 0, ps_num_left = 0, ps_scratch_rev = len\<rparr>"

definition partition_one :: "'a list \<Rightarrow> 'a partition_state \<Rightarrow> bool \<Rightarrow> ('a partition_state \<times> nat) outcome" where
  "partition_one v st towards_left =
     (if ps_scratch_rev st = 0 then UB
      else let dst = (if towards_left then 0 else ps_scratch_rev st - 1) + ps_num_left st
        in and_then (get_unchecked v (ps_scan st)) (\<lambda>x.
          and_then (put (ps_scratch st) dst (Some x)) (\<lambda>scratch.
            Ret (\<lparr>ps_scratch = scratch, ps_scan = ps_scan st + 1,
              ps_num_left = ps_num_left st + (if towards_left then 1 else 0), ps_scratch_rev = ps_scratch_rev st - 1\<rparr>, dst))))"

text \<open>Comparing the scanned element with the pivot and partitioning it; no state when the comparison panics.\<close>

definition partition_next :: "('s, 'a) is_less \<Rightarrow> 'a list \<Rightarrow> nat \<Rightarrow> 's \<Rightarrow> 'a partition_state \<Rightarrow> ('s \<times> 'a partition_state option) outcome" where
  "partition_next is_less v pivot s st =
     and_then (get_unchecked v (ps_scan st)) (\<lambda>x. and_then (get_unchecked v pivot) (\<lambda>p. case is_less s x p of
         (s, None) \<Rightarrow> Ret (s, None)
       | (s, Some b) \<Rightarrow> and_then (partition_one v st b) (\<lambda>(st, _). Ret (s, Some st))))"

fun partition_times :: "nat \<Rightarrow> ('s, 'a) is_less \<Rightarrow> 'a list \<Rightarrow> nat \<Rightarrow> 's \<Rightarrow> 'a partition_state \<Rightarrow> ('s \<times> 'a partition_state option) outcome" where
  "partition_times 0 is_less v pivot s st = Ret (s, Some st)"
| "partition_times (Suc n) is_less v pivot s st =
     and_then (partition_next is_less v pivot s st) (\<lambda>(s, r). case r of
       None \<Rightarrow> Ret (s, None) | Some st \<Rightarrow> partition_times n is_less v pivot s st)"

lemma partition_next_scan: "partition_next is_less v pivot s st = Ret (s', Some st') \<Longrightarrow> ps_scan st' = Suc (ps_scan st) \<and> ps_scan st < length v"
  by (auto simp: partition_next_def partition_one_def Let_def outcome_simps get_unchecked_def split: if_splits prod.splits option.splits)

lemma partition_times_scan: "partition_times n is_less v pivot s st = Ret (s', Some st') \<Longrightarrow> ps_scan st' = ps_scan st + n"
  by (induction n arbitrary: s st) (fastforce simp: outcome_simps split: option.splits dest: partition_next_scan)+

text \<open>A loop with \<open>n + 1\<close> copies of its body: four in the unrolled loop, one in the other.\<close>

function partition_while :: "nat \<Rightarrow> ('s, 'a) is_less \<Rightarrow> 'a list \<Rightarrow> nat \<Rightarrow> nat \<Rightarrow> 's \<Rightarrow> 'a partition_state
    \<Rightarrow> ('s \<times> 'a partition_state option) outcome" where
  "partition_while n is_less v pivot loop_end s st =
     (if ps_scan st < loop_end
      then and_then (partition_times (Suc n) is_less v pivot s st) (\<lambda>(s, r). case r of
        None \<Rightarrow> Ret (s, None) | Some st \<Rightarrow> partition_while n is_less v pivot loop_end s st)
      else Ret (s, Some st))"
  by pat_completeness auto
termination
  by (relation "measure (\<lambda>(n, is_less, v, pivot, loop_end, s, st). loop_end - ps_scan st)") (auto simp del: partition_times.simps dest: partition_times_scan)

declare partition_while.simps [simp del]

definition partition_upto :: "bool \<Rightarrow> ('s, 'a) is_less \<Rightarrow> 'a list \<Rightarrow> nat \<Rightarrow> nat \<Rightarrow> 's \<Rightarrow> 'a partition_state
    \<Rightarrow> ('s \<times> 'a partition_state option) outcome" where
  "partition_upto small is_less v pivot loop_end_pos s st =
     and_then (if small then partition_while 3 is_less v pivot (loop_end_pos - 3) s st else Ret (s, Some st)) (\<lambda>(s, r). case r of
       None \<Rightarrow> Ret (s, None) | Some st \<Rightarrow> partition_while 0 is_less v pivot loop_end_pos s st)"

definition init_all :: "'a option list \<Rightarrow> 'a list outcome" where
  "init_all cs = (if None \<in> set cs then UB else Ret (map the cs))"

text \<open>\<open>small\<close> says that an element takes at most 16 bytes, \<open>freeze\<close> that it has no interior
  mutability.\<close>

definition stable_partition :: "('s, 'a) is_less \<Rightarrow> bool \<Rightarrow> bool \<Rightarrow> nat \<Rightarrow> 's \<Rightarrow> 'a list \<Rightarrow> nat \<Rightarrow> bool \<Rightarrow> ('s, 'a, nat) sort_step" where
  "stable_partition is_less small freeze sl s v pivot_pos pivot_goes_left =
     (if sl < length v \<or> pivot_pos \<ge> length v then Ret (s, v, Aborts)
      else and_then (partition_upto small is_less v pivot_pos pivot_pos s (partition_new sl (length v))) (\<lambda>(s, r). case r of
          None \<Rightarrow> Ret (s, v, Unwinds)
        | Some st \<Rightarrow> and_then (partition_one v st pivot_goes_left) (\<lambda>(st, pivot_in_scratch).
            and_then (partition_upto small is_less v pivot_pos (length v) s st) (\<lambda>(s, r). case r of
                None \<Rightarrow> Ret (s, v, Unwinds)
              | Some st \<Rightarrow>
                  and_then (if freeze then Ret (ps_scratch st)
                      else and_then (get_unchecked v pivot_pos) (\<lambda>p. put (ps_scratch st) pivot_in_scratch (Some p))) (\<lambda>scratch.
                    and_then (init_all (take (ps_num_left st) scratch)) (\<lambda>l.
                      and_then (init_all (rev (drop (ps_num_left st) (take (length v) scratch)))) (\<lambda>r.
                        Ret (s, l @ r, Goes (ps_num_left st)))))))))"


section \<open>The pivot is in range\<close>

lemma median3_permutes:
  assumes "a < length v" "b < length v" "c < length v"
  shows "permutes is_less key v (median3 is_less s v a b c) (\<lambda>r w. w = v \<and> r < length v)"
  unfolding median3_def
proof (rule permutes_if_goes [OF compare_at_permutes [OF assms(1,2)]], goal_cases)
  case (1 s1 w x)
  then have w: "w = v" by simp
  have bc: "permutes is_less key v (if_goes (compare_at is_less s v b c) (\<lambda>s v z. Ret (s, v, Goes (if z \<noteq> x then c else b))))
      (\<lambda>r w. w = v \<and> r < length v)" for s x
    by (rule permutes_if_goes [OF compare_at_permutes [OF assms(2,3)]]) (use assms in \<open>auto intro!: permutes_Goes\<close>)
  show ?case unfolding w
    by (rule permutes_if_goes [OF compare_at_permutes [OF assms(1,3)]]) (use assms bc in \<open>auto intro!: permutes_Goes\<close>)
qed

lemma median3_rec_permutes:
  "0 < n \<Longrightarrow> a + n \<le> length v \<Longrightarrow> b + n \<le> length v \<Longrightarrow> c + n \<le> length v \<Longrightarrow>
     permutes is_less key v (median3_rec is_less s v a b c n) (\<lambda>r w. w = v \<and> r < length v)"
proof (induction n arbitrary: s a b c rule: less_induct)
  case (less n)
  show ?case
  proof (cases "n * 8 \<ge> PSEUDO_MEDIAN_REC_THRESHOLD")
    case True
    then have n: "0 < n div 8" "n div 8 < n" "n div 8 * 7 + n div 8 \<le> n" by (auto simp: PSEUDO_MEDIAN_REC_THRESHOLD_def)
    have r: "permutes is_less key v (median3_rec is_less s v x (x + n div 8 * 4) (x + n div 8 * 7) (n div 8)) (\<lambda>r w. w = v \<and> r < length v)"
      if x: "x + n \<le> length v" for s x
      by (rule less.IH) (use n x in auto)
    have m: "permutes is_less key v (median3 is_less s v x y z) (\<lambda>r w. w = v \<and> r < length v)"
      if "x < length v" "y < length v" "z < length v" for s x y z using that by (rule median3_permutes)
    have c: "permutes is_less key v (if_goes (median3_rec is_less s v c (c + n div 8 * 4) (c + n div 8 * 7) (n div 8))
        (\<lambda>s v c. median3 is_less s v x y c)) (\<lambda>r w. w = v \<and> r < length v)" if "x < length v" "y < length v" for s x y
      by (rule permutes_if_goes [OF r [OF less.prems(4)]]) (use m that in auto)
    have b: "permutes is_less key v (if_goes (median3_rec is_less s v b (b + n div 8 * 4) (b + n div 8 * 7) (n div 8)) (\<lambda>s v b.
        if_goes (median3_rec is_less s v c (c + n div 8 * 4) (c + n div 8 * 7) (n div 8)) (\<lambda>s v c. median3 is_less s v x b c)))
        (\<lambda>r w. w = v \<and> r < length v)" if "x < length v" for s x
      by (rule permutes_if_goes [OF r [OF less.prems(3)]]) (use c that in auto)
    show ?thesis using True unfolding median3_rec.simps [of is_less s v a b c n]
      by (simp only: if_True) (rule permutes_if_goes [OF r [OF less.prems(2)]], use b in auto)
  next
    case False
    then show ?thesis using less.prems unfolding median3_rec.simps [of is_less s v a b c n] by (simp add: median3_permutes)
  qed
qed

lemma choose_pivot_permutes:
  assumes "8 \<le> length v"
  shows "permutes is_less key v (choose_pivot is_less s v) (\<lambda>r w. w = v \<and> r < length v)"
proof -
  define n where "n = length v div 8"
  have n: "0 < n" "n * 7 + n \<le> length v" using assms by (auto simp: n_def)
  have "\<not> length v < 8" "v \<noteq> []" using assms by auto
  then show ?thesis using n median3_permutes [of 0 v "n * 4" "n * 7" is_less key s] median3_rec_permutes [of n 0 v "n * 4" "n * 7" is_less key s]
    unfolding choose_pivot_def n_def [symmetric] Let_def by simp
qed


section \<open>The partition\<close>

text \<open>A closure that gives the answers of a relation.\<close>

definition answers :: "('s, 'a) is_less \<Rightarrow> ('a \<Rightarrow> 'a \<Rightarrow> bool) \<Rightarrow> bool" where
  "answers is_less c \<longleftrightarrow> (\<forall>s a b. snd (is_less s a b) = Some (c a b))"

lemma answers_answer: "answers is_less c \<Longrightarrow> is_less s a b = (s', r) \<Longrightarrow> r = Some (c a b)"
  unfolding answers_def by (metis snd_conv)

text \<open>The elements \<open>L\<close> that went left and \<open>R\<close> that went right, in the order of the slice, and
  where the scratch space holds them. \<open>g\<close> is the side of the pivot at position \<open>p\<close>.\<close>

definition part_inv :: "('s, 'a) is_less \<Rightarrow> nat \<Rightarrow> 'a list \<Rightarrow> nat \<Rightarrow> bool \<Rightarrow> 'a partition_state \<Rightarrow> 'a list \<Rightarrow> 'a list \<Rightarrow> bool" where
  "part_inv is_less sl v p g st L R \<longleftrightarrow> ps_scan st = length L + length R \<and> ps_scan st \<le> length v \<and> length v \<le> sl
     \<and> ps_num_left st = length L \<and> ps_scratch_rev st = length v - ps_scan st
     \<and> ps_scratch st = map Some L @ replicate (length v - ps_scan st) None @ map Some (rev R) @ replicate (sl - length v) None
     \<and> mset (L @ R) = mset (take (ps_scan st) v)
     \<and> (p < ps_scan st \<longrightarrow> (if g then L \<noteq> [] else R \<noteq> []))
     \<and> (\<forall>c. answers is_less c \<and> c (v ! p) (v ! p) = g \<longrightarrow>
          L = filter (\<lambda>x. c x (v ! p)) (take (ps_scan st) v) \<and> R = filter (\<lambda>x. \<not> c x (v ! p)) (take (ps_scan st) v))"

lemma part_inv_new: "length v \<le> sl \<Longrightarrow> part_inv is_less sl v p g (partition_new sl (length v)) [] []"
  by (simp add: part_inv_def partition_new_def replicate_add [symmetric])

lemma scratch_left:
  "(map Some L @ replicate (Suc k) None @ T)[length L := Some x] = map Some (L @ [x]) @ replicate k None @ T"
  by (simp add: list_update_append)

lemma scratch_right:
  "(map Some L @ replicate (Suc k) None @ T)[length L + k := Some x] = map Some L @ replicate k None @ Some x # T"
proof -
  have "replicate (Suc k) (None :: 'a option) = replicate k None @ [None]" by (simp add: replicate_append_same)
  then show ?thesis by (simp add: list_update_append)
qed

lemma partition_one_inv:
  assumes inv: "part_inv is_less sl v p g st L R" and scan: "ps_scan st < length v"
    and side: "\<And>c. answers is_less c \<Longrightarrow> c (v ! p) (v ! p) = g \<Longrightarrow> b = c (v ! ps_scan st) (v ! p)" "ps_scan st = p \<Longrightarrow> b = g"
  obtains st' d where "partition_one v st b = Ret (st', d)" "ps_scan st' = Suc (ps_scan st)"
    "part_inv is_less sl v p g st' (if b then L @ [v ! ps_scan st] else L) (if b then R else R @ [v ! ps_scan st])"
    "d < sl" "ps_scratch st' ! d = Some (v ! ps_scan st)" "\<And>e x. e < sl \<Longrightarrow> ps_scratch st ! e = Some x \<Longrightarrow> ps_scratch st' ! e = Some x"
proof -
  note i = inv [unfolded part_inv_def]
  define k where "k = length v - Suc (ps_scan st)"
  have k: "length v - ps_scan st = Suc k" using scan by (simp add: k_def)
  let ?x = "v ! ps_scan st"
  have i1: "ps_scan st = length L + length R" and i2: "length v \<le> sl" and i3: "ps_num_left st = length L"
    and i4: "ps_scratch_rev st = Suc k" using i k by simp_all
  have lv: "length v = length L + length R + Suc k" using k i1 scan by simp
  define d where "d = (if b then length L else k + length L)"
  have sc: "ps_scratch st = map Some L @ replicate (Suc k) None @ map Some (rev R) @ replicate (sl - length v) None"
    using i unfolding k by blast
  have len: "length (ps_scratch st) = sl" using lv i2 by (simp add: sc)
  have d_sl: "d < sl" using lv i2 by (simp add: d_def)
  have free: "ps_scratch st ! d = None" unfolding sc by (auto simp: d_def nth_append simp del: replicate_Suc)
  let ?s = "(ps_scratch st)[d := Some ?x]"
  let ?st = "\<lparr>ps_scratch = ?s, ps_scan = ps_scan st + 1, ps_num_left = ps_num_left st + (if b then 1 else 0), ps_scratch_rev = ps_scratch_rev st - 1\<rparr>"
  have dst: "(if b then 0 else ps_scratch_rev st - 1) + ps_num_left st = d" by (simp add: d_def i3 i4)
  have run: "partition_one v st b = Ret (?st, d)"
    unfolding partition_one_def Let_def dst using scan d_sl len i4 by simp
  have s': "?s = map Some (if b then L @ [?x] else L) @ replicate k None @ map Some (rev (if b then R else R @ [?x])) @ replicate (sl - length v) None"
    using scratch_left [of L k "map Some (rev R) @ replicate (sl - length v) None" ?x]
      scratch_right [of L k "map Some (rev R) @ replicate (sl - length v) None" ?x]
    unfolding sc by (simp add: d_def add.commute)
  have tk: "take (Suc (ps_scan st)) v = take (ps_scan st) v @ [?x]" using scan by (rule take_Suc_conv_app_nth)
  define L' R' where LR: "L' = (if b then L @ [?x] else L)" "R' = (if b then R else R @ [?x])"
  have f: "L' = filter (\<lambda>x. c x (v ! p)) (take (Suc (ps_scan st)) v) \<and> R' = filter (\<lambda>x. \<not> c x (v ! p)) (take (Suc (ps_scan st)) v)"
    if c: "answers is_less c \<and> c (v ! p) (v ! p) = g" for c
  proof -
    have "L = filter (\<lambda>x. c x (v ! p)) (take (ps_scan st) v)" "R = filter (\<lambda>x. \<not> c x (v ! p)) (take (ps_scan st) v)" using i c by blast+
    moreover have "b = c ?x (v ! p)" using side(1) [of c] c by blast
    ultimately show ?thesis unfolding LR tk by simp
  qed
  have "mset (L @ R) = mset (take (ps_scan st) v)" using i by blast
  then have ms: "mset (L' @ R') = mset (take (Suc (ps_scan st)) v)" unfolding tk LR by simp
  have ne: "if g then L' \<noteq> [] else R' \<noteq> []" if "p < Suc (ps_scan st)"
  proof (cases "ps_scan st = p")
    case True
    then show ?thesis using side(2) by (auto simp: LR)
  next
    case False
    then have "p < ps_scan st" using that by simp
    then have "if g then L \<noteq> [] else R \<noteq> []" using i by blast
    then show ?thesis by (auto simp: LR split: if_splits)
  qed
  have ln: "length L' + length R' = Suc (ps_scan st)" "ps_num_left st + (if b then 1 else 0) = length L'" using i1 i3 by (simp_all add: LR)
  have s2: "?s = map Some L' @ replicate (length v - Suc (ps_scan st)) None @ map Some (rev R') @ replicate (sl - length v) None"
    using s' unfolding LR k_def .
  have "part_inv is_less sl v p g ?st L' R'"
    unfolding part_inv_def partition_state.simps
    by (intro conjI allI impI) (use scan i2 i4 ln ms s2 k_def f ne in simp_all)
  moreover have "?s ! e = Some x" if "ps_scratch st ! e = Some x" for e x using that free by (cases "e = d") auto
  ultimately show ?thesis using that [of ?st d] run d_sl len by (simp add: LR)
qed

text \<open>A part of the loop that does not meet the pivot.\<close>

definition part_post :: "('s, 'a) is_less \<Rightarrow> nat \<Rightarrow> 'a list \<Rightarrow> nat \<Rightarrow> bool \<Rightarrow> 'a partition_state \<Rightarrow> nat \<Rightarrow> ('s \<times> 'a partition_state option) outcome \<Rightarrow> bool" where
  "part_post is_less sl v p g st j m \<longleftrightarrow> (\<exists>s r. m = Ret (s, r) \<and> (case r of
     None \<Rightarrow> \<not> (\<exists>c. answers is_less c)
   | Some st' \<Rightarrow> ps_scan st' = j \<and> (\<exists>L R. part_inv is_less sl v p g st' L R)
       \<and> (\<forall>e x. e < sl \<longrightarrow> ps_scratch st ! e = Some x \<longrightarrow> ps_scratch st' ! e = Some x)))"

lemma partition_next_post:
  assumes inv: "part_inv is_less sl v p g st L R" and scan: "ps_scan st < length v" "ps_scan st \<noteq> p" "p < length v"
  shows "part_post is_less sl v p g st (Suc (ps_scan st)) (partition_next is_less v p s st)"
proof -
  obtain s1 a where q: "is_less s (v ! ps_scan st) (v ! p) = (s1, a)" by force
  have an: "a = Some (c (v ! ps_scan st) (v ! p))" if "answers is_less c" for c using answers_answer [OF that q] .
  show ?thesis
  proof (cases a)
    case None
    then show ?thesis using q scan an by (auto simp: part_post_def partition_next_def)
  next
    case (Some b)
    obtain st' d where o: "partition_one v st b = Ret (st', d)" "ps_scan st' = Suc (ps_scan st)"
      "part_inv is_less sl v p g st' (if b then L @ [v ! ps_scan st] else L) (if b then R else R @ [v ! ps_scan st])"
      "\<And>e x. e < sl \<Longrightarrow> ps_scratch st ! e = Some x \<Longrightarrow> ps_scratch st' ! e = Some x"
      by (rule partition_one_inv [OF inv scan(1), of b]) (use an Some scan in auto)
    then show ?thesis using q scan Some by (auto simp: part_post_def partition_next_def)
  qed
qed

lemma part_post_trans:
  assumes "part_post is_less sl v p g st j m"
    and "\<And>s st' L R. ps_scan st' = j \<Longrightarrow> part_inv is_less sl v p g st' L R \<Longrightarrow> part_post is_less sl v p g st' i (k s st')"
  shows "part_post is_less sl v p g st i (and_then m (\<lambda>(s, r). case r of None \<Rightarrow> Ret (s, None) | Some st \<Rightarrow> k s st))"
proof -
  obtain s r where m: "m = Ret (s, r)" and r: "case r of None \<Rightarrow> \<not> (\<exists>c. answers is_less c)
   | Some st' \<Rightarrow> ps_scan st' = j \<and> (\<exists>L R. part_inv is_less sl v p g st' L R)
       \<and> (\<forall>e x. e < sl \<longrightarrow> ps_scratch st ! e = Some x \<longrightarrow> ps_scratch st' ! e = Some x)" using assms(1) unfolding part_post_def by blast
  show ?thesis
  proof (cases r)
    case None
    then show ?thesis using m r by (simp add: part_post_def)
  next
    case (Some st')
    then have "part_post is_less sl v p g st' i (k s st')" using assms(2) [of st' _ _ s] r by auto
    then obtain s2 r2 where 2: "k s st' = Ret (s2, r2)" "case r2 of None \<Rightarrow> \<not> (\<exists>c. answers is_less c)
     | Some st2 \<Rightarrow> ps_scan st2 = i \<and> (\<exists>L R. part_inv is_less sl v p g st2 L R)
         \<and> (\<forall>e x. e < sl \<longrightarrow> ps_scratch st' ! e = Some x \<longrightarrow> ps_scratch st2 ! e = Some x)"
      unfolding part_post_def by blast
    then show ?thesis using m r Some unfolding part_post_def by (auto split: option.splits)
  qed
qed

lemma partition_times_post:
  "part_inv is_less sl v p g st L R \<Longrightarrow> ps_scan st + n \<le> length v \<Longrightarrow> p < length v \<Longrightarrow> p < ps_scan st \<or> ps_scan st + n \<le> p \<Longrightarrow>
     part_post is_less sl v p g st (ps_scan st + n) (partition_times n is_less v p s st)"
proof (induction n arbitrary: st s L R)
  case 0
  then show ?case by (auto simp: part_post_def)
next
  case (Suc n)
  show ?case unfolding partition_times.simps
  proof (rule part_post_trans [OF partition_next_post [OF Suc.prems(1)]])
    fix s st' L R assume "ps_scan st' = Suc (ps_scan st)" "part_inv is_less sl v p g st' L R"
    with Suc.IH [of st' L R s] Suc.prems show "part_post is_less sl v p g st' (ps_scan st + Suc n) (partition_times n is_less v p s st')" by auto
  qed (use Suc.prems in auto)
qed

lemma part_post_weaken:
  assumes "part_post is_less sl v p g st' j m" "\<And>e x. e < sl \<Longrightarrow> ps_scratch st ! e = Some x \<Longrightarrow> ps_scratch st' ! e = Some x"
  shows "part_post is_less sl v p g st j m"
proof -
  obtain s r where r: "m = Ret (s, r)" "case r of None \<Rightarrow> \<not> (\<exists>c. answers is_less c)
   | Some st2 \<Rightarrow> ps_scan st2 = j \<and> (\<exists>L R. part_inv is_less sl v p g st2 L R)
       \<and> (\<forall>e x. e < sl \<longrightarrow> ps_scratch st' ! e = Some x \<longrightarrow> ps_scratch st2 ! e = Some x)" using assms(1) unfolding part_post_def by blast
  show ?thesis unfolding part_post_def
    by (intro exI [of _ s] exI [of _ r]) (use r assms(2) in \<open>cases r; auto\<close>)
qed

lemma partition_while_post:
  "part_inv is_less sl v p g st L R \<Longrightarrow> ps_scan st \<le> E \<Longrightarrow> E \<le> length v \<Longrightarrow> p < length v \<Longrightarrow> p < ps_scan st \<or> E \<le> p \<Longrightarrow> e = E - n \<Longrightarrow>
     \<exists>j. e \<le> j \<and> j \<le> E \<and> ps_scan st \<le> j \<and> part_post is_less sl v p g st j (partition_while n is_less v p e s st)"
proof (induction "E - ps_scan st" arbitrary: st s L R rule: less_induct)
  case less
  show ?case
  proof (cases "ps_scan st < e")
    case False
    then have "part_post is_less sl v p g st (ps_scan st) (partition_while n is_less v p e s st)"
      using less.prems(1) by (subst partition_while.simps) (auto simp: part_post_def)
    then show ?thesis using less.prems(2) False by (intro exI [of _ "ps_scan st"]) auto
  next
    case True
    have "part_post is_less sl v p g st (ps_scan st + Suc n) (partition_times (Suc n) is_less v p s st)"
      by (rule partition_times_post [OF less.prems(1)]) (use less.prems True in auto)
    then obtain s1 r where t: "partition_times (Suc n) is_less v p s st = Ret (s1, r)" "case r of None \<Rightarrow> \<not> (\<exists>c. answers is_less c)
      | Some st' \<Rightarrow> ps_scan st' = ps_scan st + Suc n \<and> (\<exists>L R. part_inv is_less sl v p g st' L R)
       \<and> (\<forall>e x. e < sl \<longrightarrow> ps_scratch st ! e = Some x \<longrightarrow> ps_scratch st' ! e = Some x)" unfolding part_post_def by blast
    show ?thesis
    proof (cases r)
      case None
      then have "part_post is_less sl v p g st E (partition_while n is_less v p e s st)"
        using t True by (subst partition_while.simps) (simp add: part_post_def del: partition_times.simps)
      then show ?thesis using less.prems True by (intro exI [of _ E]) auto
    next
      case (Some st')
      then obtain L' R' where i: "ps_scan st' = ps_scan st + Suc n" "part_inv is_less sl v p g st' L' R'"
        "\<And>e x. e < sl \<Longrightarrow> ps_scratch st ! e = Some x \<Longrightarrow> ps_scratch st' ! e = Some x" using t(2) by auto
      have a: "Suc (ps_scan st + n) \<le> E" using True less.prems(6) by linarith
      have "\<exists>j. e \<le> j \<and> j \<le> E \<and> ps_scan st' \<le> j \<and> part_post is_less sl v p g st' j (partition_while n is_less v p e s1 st')"
      proof (rule less.hyps [OF _ i(2)])
        show "E - ps_scan st' < E - ps_scan st" "ps_scan st' \<le> E" using a i(1) by linarith+
        show "p < ps_scan st' \<or> E \<le> p" using less.prems(5) i(1) by linarith
      qed (fact less.prems)+
      then obtain j where j: "e \<le> j" "j \<le> E" "ps_scan st' \<le> j" "part_post is_less sl v p g st' j (partition_while n is_less v p e s1 st')"
        by blast
      have "partition_while n is_less v p e s st = partition_while n is_less v p e s1 st'"
        using t(1) True Some by (subst partition_while.simps) (simp del: partition_times.simps)
      moreover have "part_post is_less sl v p g st j (partition_while n is_less v p e s1 st')"
        by (rule part_post_weaken [OF j(4)]) (rule i(3))
      ultimately show ?thesis using j i(1) by (intro exI [of _ j]) auto
    qed
  qed
qed

lemma partition_upto_post:
  assumes "part_inv is_less sl v p g st L R" "ps_scan st \<le> E" "E \<le> length v" "p < length v" "p < ps_scan st \<or> E \<le> p"
  shows "part_post is_less sl v p g st E (partition_upto small is_less v p E s st)"
proof -
  have rest: "part_post is_less sl v p g st' E (partition_while 0 is_less v p E s st')"
    if "part_inv is_less sl v p g st' L R" "ps_scan st' \<le> E" "p < ps_scan st' \<or> E \<le> p" for s st' L R
    using partition_while_post [OF that(1,2) assms(3,4) that(3), of E 0 s] by (auto dest!: le_antisym)
  have "\<exists>j. ps_scan st \<le> j \<and> j \<le> E \<and> part_post is_less sl v p g st j
      (if small then partition_while 3 is_less v p (E - 3) s st else Ret (s, Some st))"
    using partition_while_post [OF assms, of "E - 3" 3 s] assms(1,2) by (auto simp: part_post_def)
  then obtain j where j: "ps_scan st \<le> j" "j \<le> E" "part_post is_less sl v p g st j
      (if small then partition_while 3 is_less v p (E - 3) s st else Ret (s, Some st))" by blast
  show ?thesis unfolding partition_upto_def
    by (rule part_post_trans [OF j(3)]) (use rest j assms(5) in auto)
qed

lemma init_all_Some [simp]: "init_all (map Some xs) = Ret xs"
  by (simp add: init_all_def comp_def)

lemma scratch_full:
  assumes "part_inv is_less sl v p g st L R" "ps_scan st = length v"
  shows "take (ps_num_left st) (ps_scratch st) = map Some L" "rev (drop (ps_num_left st) (take (length v) (ps_scratch st))) = map Some R"
    "ps_num_left st = length L" "mset (L @ R) = mset v" "length (ps_scratch st) = sl"
    "\<And>c. answers is_less c \<Longrightarrow> c (v ! p) (v ! p) = g \<Longrightarrow> L = filter (\<lambda>x. c x (v ! p)) v \<and> R = filter (\<lambda>x. \<not> c x (v ! p)) v"
proof -
  have sc: "ps_scratch st = map Some L @ map Some (rev R) @ replicate (sl - length v) None" "length L + length R = length v" "length v \<le> sl"
    using assms by (auto simp: part_inv_def)
  show n: "ps_num_left st = length L" and "mset (L @ R) = mset v" using assms by (auto simp: part_inv_def)
  show "take (ps_num_left st) (ps_scratch st) = map Some L" "length (ps_scratch st) = sl"
    "rev (drop (ps_num_left st) (take (length v) (ps_scratch st))) = map Some R"
    using sc(2) [symmetric] sc(3) by (simp_all add: n sc(1) rev_map)
  show "\<And>c. answers is_less c \<Longrightarrow> c (v ! p) (v ! p) = g \<Longrightarrow> L = filter (\<lambda>x. c x (v ! p)) v \<and> R = filter (\<lambda>x. \<not> c x (v ! p)) v"
    using assms by (auto simp: part_inv_def)
qed

text \<open>The partition leaves a permutation; if the closure is consistent it separates the slice by the pivot, in
  order, and if the pivot goes left or right that side is not empty.\<close>

lemma stable_partition_run:
  assumes p: "p < length v" and sl: "length v \<le> sl"
  shows "\<exists>s' w f. stable_partition is_less small freeze sl s v p g = Ret (s', w, f) \<and> mset w = mset v
    \<and> (f = Unwinds \<and> \<not> (\<exists>c. answers is_less c)
      \<or> (\<exists>L R. f = Goes (length L) \<and> w = L @ R \<and> (if g then L \<noteq> [] else R \<noteq> [])
          \<and> (\<forall>c. answers is_less c \<and> c (v ! p) (v ! p) = g \<longrightarrow> L = filter (\<lambda>x. c x (v ! p)) v \<and> R = filter (\<lambda>x. \<not> c x (v ! p)) v)))"
proof -
  let ?st = "partition_new sl (length v)"
  have n: "ps_scan ?st = 0" by (simp add: partition_new_def)
  have "part_post is_less sl v p g ?st p (partition_upto small is_less v p p s ?st)"
    by (rule partition_upto_post [OF part_inv_new [OF sl]]) (use p in \<open>simp_all add: n\<close>)
  then obtain s1 r1 where 1: "partition_upto small is_less v p p s ?st = Ret (s1, r1)" "case r1 of None \<Rightarrow> \<not> (\<exists>c. answers is_less c)
      | Some st \<Rightarrow> ps_scan st = p \<and> (\<exists>L R. part_inv is_less sl v p g st L R)"
    unfolding part_post_def by (force split: option.splits)
  note d = stable_partition_def [of is_less small freeze sl s v p g]
  show ?thesis
  proof (cases r1)
    case None
    then show ?thesis using 1 p sl by (simp add: d)
  next
    case (Some st1)
    then obtain L1 R1 where i1: "ps_scan st1 = p" "part_inv is_less sl v p g st1 L1 R1" using 1(2) by auto
    obtain st2 q L2 R2 where 2: "partition_one v st1 g = Ret (st2, q)" "ps_scan st2 = Suc p" "part_inv is_less sl v p g st2 L2 R2"
      "q < sl" "ps_scratch st2 ! q = Some (v ! p)"
      by (rule partition_one_inv [OF i1(2), of g]) (use i1(1) p in auto)
    have "part_post is_less sl v p g st2 (length v) (partition_upto small is_less v p (length v) s1 st2)"
      by (rule partition_upto_post [OF 2(3)]) (use p 2(2) in auto)
    then obtain s3 r3 where 3: "partition_upto small is_less v p (length v) s1 st2 = Ret (s3, r3)" "case r3 of None \<Rightarrow> \<not> (\<exists>c. answers is_less c)
      | Some st \<Rightarrow> ps_scan st = length v \<and> (\<exists>L R. part_inv is_less sl v p g st L R) \<and> ps_scratch st ! q = Some (v ! p)"
      unfolding part_post_def using 2(4,5) by (force split: option.splits)
    show ?thesis
    proof (cases r3)
      case None
      then show ?thesis using 1(1) 2(1) 3 Some p sl by (simp add: d)
    next
      case st3: (Some st3)
      then obtain L R where i3: "ps_scan st3 = length v" "part_inv is_less sl v p g st3 L R" "ps_scratch st3 ! q = Some (v ! p)"
        using 3(2) by auto
      note f = scratch_full [OF i3(2,1)]
      have "(ps_scratch st3)[q := Some (v ! p)] = ps_scratch st3" using i3(3) by (metis list_update_id)
      then have "stable_partition is_less small freeze sl s v p g = Ret (s3, L @ R, Goes (length L))"
        using 1(1) 2(1,4) 3(1) Some st3 p sl f(1,2,3,5) by (simp add: d)
      moreover have "if g then L \<noteq> [] else R \<noteq> []" using i3 p by (simp add: part_inv_def)
      ultimately show ?thesis using f(4,6) by blast
    qed
  qed
qed

end
