(* ===== verification/Sort_Small.thy ===== *)
theory Sort_Small
  imports Sort_Partition
begin

text \<open>
  The small sort of the stable sort, \<open>library/core/src/slice/sort/shared/smallsort.rs\<close>: an insertion sort for
  types with interior mutability, and otherwise two sorted halves in the scratch space and a merge from both ends.
\<close>

definition SMALL_SORT_FALLBACK_THRESHOLD :: nat where
  "SMALL_SORT_FALLBACK_THRESHOLD = 16"

definition SMALL_SORT_GENERAL_THRESHOLD :: nat where
  "SMALL_SORT_GENERAL_THRESHOLD = 32"

definition SMALL_SORT_GENERAL_SCRATCH_LEN :: nat where
  "SMALL_SORT_GENERAL_SCRATCH_LEN = SMALL_SORT_GENERAL_THRESHOLD + 16"

text \<open>A step on a buffer in the scratch space: the slice itself stays as it is, and what is in the buffer in the end
  is the result.\<close>

definition in_scratch :: "'a list \<Rightarrow> ('s, 'a, unit) sort_step \<Rightarrow> ('s, 'a, 'a list) sort_step" where
  "in_scratch v m = and_then m (\<lambda>(s, w, f). Ret (s, v, case f of
     Goes _ \<Rightarrow> Goes w | Unwinds \<Rightarrow> Unwinds | Aborts \<Rightarrow> Aborts | No_Fuel \<Rightarrow> No_Fuel))"

text \<open>Four elements from position \<open>base\<close> on; the result is what is written to the destination.\<close>

definition sort4_stable :: "('s, 'a) is_less \<Rightarrow> 's \<Rightarrow> 'a list \<Rightarrow> nat \<Rightarrow> ('s, 'a, 'a list) sort_step" where
  "sort4_stable is_less s v base =
     if_goes (compare_at is_less s v (base + 1) base) (\<lambda>s v c1.
       if_goes (compare_at is_less s v (base + 3) (base + 2)) (\<lambda>s v c2.
         let a = base + (if c1 then 1 else 0);
             b = base + (if c1 then 0 else 1);
             c = base + 2 + (if c2 then 1 else 0);
             d = base + 2 + (if c2 then 0 else 1)
         in if_goes (compare_at is_less s v c a) (\<lambda>s v c3.
           if_goes (compare_at is_less s v d b) (\<lambda>s v c4.
             let mn = (if c3 then c else a);
                 mx = (if c4 then b else d);
                 unknown_left = (if c3 then a else if c4 then c else b);
                 unknown_right = (if c4 then d else if c3 then b else c)
             in if_goes (compare_at is_less s v unknown_right unknown_left) (\<lambda>s v c5.
               let lo = (if c5 then unknown_right else unknown_left);
                   hi = (if c5 then unknown_left else unknown_right)
               in and_then (get_unchecked v mn) (\<lambda>x0. and_then (get_unchecked v lo) (\<lambda>x1.
                 and_then (get_unchecked v hi) (\<lambda>x2. and_then (get_unchecked v mx) (\<lambda>x3.
                   Ret (s, v, Goes [x0, x1, x2, x3]))))))))))"

section \<open>The merge from both ends\<close>

text \<open>\<open>left_end\<close> and \<open>right_end\<close> are the pointers \<open>left_rev\<close> and
  \<open>right_rev\<close> plus one; the cells of the destination are \<open>None\<close> until they are written.\<close>

record 'a bidi_state =
  bd_left :: nat
  bd_right :: nat
  bd_dst :: nat
  bd_left_end :: nat
  bd_right_end :: nat
  bd_dst_end :: nat
  bd_cells :: "'a option list"

definition merge_up_one :: "('s, 'a) is_less \<Rightarrow> 's \<Rightarrow> 'a list \<Rightarrow> 'a bidi_state \<Rightarrow> ('s \<times> 'a bidi_state option) outcome" where
  "merge_up_one is_less s v st =
     and_then (get_unchecked v (bd_right st)) (\<lambda>r. and_then (get_unchecked v (bd_left st)) (\<lambda>l. case is_less s r l of
         (s, None) \<Rightarrow> Ret (s, None)
       | (s, Some lt) \<Rightarrow> and_then (put (bd_cells st) (bd_dst st) (Some (if lt then r else l))) (\<lambda>cells.
           Ret (s, Some (st\<lparr>bd_right := bd_right st + (if lt then 1 else 0), bd_left := bd_left st + (if lt then 0 else 1),
             bd_dst := bd_dst st + 1, bd_cells := cells\<rparr>)))))"

definition merge_down_one :: "('s, 'a) is_less \<Rightarrow> 's \<Rightarrow> 'a list \<Rightarrow> 'a bidi_state \<Rightarrow> ('s \<times> 'a bidi_state option) outcome" where
  "merge_down_one is_less s v st =
     (if bd_left_end st = 0 \<or> bd_right_end st = 0 \<or> bd_dst_end st = 0 then UB
      else and_then (get_unchecked v (bd_right_end st - 1)) (\<lambda>r. and_then (get_unchecked v (bd_left_end st - 1)) (\<lambda>l. case is_less s r l of
         (s, None) \<Rightarrow> Ret (s, None)
       | (s, Some lt) \<Rightarrow> and_then (put (bd_cells st) (bd_dst_end st - 1) (Some (if lt then l else r))) (\<lambda>cells.
           Ret (s, Some (st\<lparr>bd_right_end := bd_right_end st - (if lt then 0 else 1), bd_left_end := bd_left_end st - (if lt then 1 else 0),
             bd_dst_end := bd_dst_end st - 1, bd_cells := cells\<rparr>))))))"

fun bidi_loop :: "nat \<Rightarrow> ('s, 'a) is_less \<Rightarrow> 's \<Rightarrow> 'a list \<Rightarrow> 'a bidi_state \<Rightarrow> ('s \<times> 'a bidi_state option) outcome" where
  "bidi_loop 0 is_less s v st = Ret (s, Some st)"
| "bidi_loop (Suc n) is_less s v st =
     and_then (merge_up_one is_less s v st) (\<lambda>(s, r). case r of None \<Rightarrow> Ret (s, None) | Some st \<Rightarrow>
       and_then (merge_down_one is_less s v st) (\<lambda>(s, r). case r of None \<Rightarrow> Ret (s, None) | Some st \<Rightarrow>
         bidi_loop n is_less s v st))"

text \<open>If the merge unwinds nothing of the destination is used: the result is the source, which the caller's guard
  copies over the destination. \<open>bidi_finish\<close> is what follows the loop.\<close>

definition bidi_finish :: "'s \<Rightarrow> 'a list \<Rightarrow> 'a bidi_state \<Rightarrow> ('s, 'a, unit) sort_step" where
  "bidi_finish s v st =
     and_then (if length v mod 2 \<noteq> 0
       then let left_nonempty = bd_left st < bd_left_end st
         in and_then (get_unchecked v (if left_nonempty then bd_left st else bd_right st)) (\<lambda>x.
           and_then (put (bd_cells st) (bd_dst st) (Some x)) (\<lambda>cells.
             Ret (st\<lparr>bd_left := bd_left st + (if left_nonempty then 1 else 0),
               bd_right := bd_right st + (if left_nonempty then 0 else 1), bd_cells := cells\<rparr>)))
       else Ret st) (\<lambda>st.
     if bd_left st \<noteq> bd_left_end st \<or> bd_right st \<noteq> bd_right_end st then Ret (s, v, Unwinds)
     else and_then (init_all (bd_cells st)) (\<lambda>w. Ret (s, w, Goes ())))"

definition bidirectional_merge :: "('s, 'a) is_less \<Rightarrow> 's \<Rightarrow> 'a list \<Rightarrow> ('s, 'a, unit) sort_step" where
  "bidirectional_merge is_less s v =
     (let len = length v; half = len div 2
      in if half = 0 then UB
         else and_then (bidi_loop half is_less s v
             \<lparr>bd_left = 0, bd_right = half, bd_dst = 0, bd_left_end = half, bd_right_end = len, bd_dst_end = len,
              bd_cells = replicate len None\<rparr>) (\<lambda>(s, r). case r of
           None \<Rightarrow> Ret (s, v, Unwinds)
         | Some st \<Rightarrow> bidi_finish s v st))"

section \<open>Sorting\<close>

definition sort8_stable :: "('s, 'a) is_less \<Rightarrow> 's \<Rightarrow> 'a list \<Rightarrow> nat \<Rightarrow> ('s, 'a, 'a list) sort_step" where
  "sort8_stable is_less s v base =
     if_goes (sort4_stable is_less s v base) (\<lambda>s v x.
       if_goes (sort4_stable is_less s v (base + 4)) (\<lambda>s v y.
         in_scratch v (bidirectional_merge is_less s (x @ y))))"

text \<open>The loop that extends the sorted half \<open>d\<close> in the scratch space; it copies one element and inserts
  it.\<close>

fun extend_half :: "nat \<Rightarrow> ('s, 'a) is_less \<Rightarrow> 's \<Rightarrow> 'a list \<Rightarrow> nat \<Rightarrow> 'a list \<Rightarrow> ('s, 'a, 'a list) sort_step" where
  "extend_half 0 is_less s v offset d = Ret (s, v, Goes d)"
| "extend_half (Suc n) is_less s v offset d =
     and_then (get_unchecked v (offset + length d)) (\<lambda>x.
       if_goes (in_scratch v (insert_tail is_less s (d @ [x]) (length d))) (\<lambda>s v d. extend_half n is_less s v offset d))"

text \<open>The first elements of a half; \<open>small\<close> says that an element takes at most 16 bytes.\<close>

definition presort :: "('s, 'a) is_less \<Rightarrow> bool \<Rightarrow> 's \<Rightarrow> 'a list \<Rightarrow> nat \<Rightarrow> ('s, 'a, 'a list) sort_step" where
  "presort is_less small s v base =
     (if small \<and> 16 \<le> length v then sort8_stable is_less s v base
      else if 8 \<le> length v then sort4_stable is_less s v base
      else and_then (get_unchecked v base) (\<lambda>x. Ret (s, v, Goes [x])))"

definition small_sort_general_with_scratch :: "('s, 'a) is_less \<Rightarrow> bool \<Rightarrow> nat \<Rightarrow> 's \<Rightarrow> 'a list \<Rightarrow> ('s, 'a, unit) sort_step" where
  "small_sort_general_with_scratch is_less small sl s v =
     (let len = length v; half = len div 2
      in if len < 2 then Ret (s, v, Goes ())
         else if sl < len + 16 then Ret (s, v, Aborts)
         else if_goes (presort is_less small s v 0) (\<lambda>s v a.
           if_goes (presort is_less small s v half) (\<lambda>s v b.
             if_goes (extend_half (half - length a) is_less s v 0 a) (\<lambda>s v a.
               if_goes (extend_half (len - half - length b) is_less s v half b) (\<lambda>s v b.
                 bidirectional_merge is_less s (a @ b))))))"

definition small_sort_threshold :: "bool \<Rightarrow> nat" where
  "small_sort_threshold freeze = (if freeze then SMALL_SORT_GENERAL_THRESHOLD else SMALL_SORT_FALLBACK_THRESHOLD)"

definition small_sort :: "('s, 'a) is_less \<Rightarrow> bool \<Rightarrow> bool \<Rightarrow> nat \<Rightarrow> 's \<Rightarrow> 'a list \<Rightarrow> ('s, 'a, unit) sort_step" where
  "small_sort is_less small freeze sl s v =
     (if freeze then small_sort_general_with_scratch is_less small sl s v
      else if 2 \<le> length v then insertion_sort_shift_left is_less s v 1
      else Ret (s, v, Goes ()))"


section \<open>The merge of two lists\<close>

fun mrg :: "('a \<Rightarrow> 'k :: linorder) \<Rightarrow> 'a list \<Rightarrow> 'a list \<Rightarrow> 'a list" where
  "mrg key [] R = R"
| "mrg key (l # L) [] = l # L"
| "mrg key (l # L) (r # R) = (if key r < key l then r # mrg key (l # L) R else l # mrg key L (r # R))"

lemma mrg_Nil2 [simp]: "mrg key L [] = L"
  by (cases L) auto

lemma length_mrg [simp]: "length (mrg key L R) = length L + length R"
  by (induction key L R rule: mrg.induct) auto

lemma mset_mrg [simp]: "mset (mrg key L R) = mset L + mset R"
  by (induction key L R rule: mrg.induct) auto

lemma set_mrg [simp]: "set (mrg key L R) = set L \<union> set R"
  by (metis mset_mrg set_mset_mset set_mset_union)

lemma mrg_filter:
  "\<forall>x\<in>set L. P x \<Longrightarrow> \<forall>x\<in>set R. \<not> P x \<Longrightarrow> filter P (mrg key L R) = L \<and> filter (\<lambda>x. \<not> P x) (mrg key L R) = R"
  by (induction key L R rule: mrg.induct) (auto simp: filter_empty_conv intro: filter_True)

lemma map_mrg: "map f (mrg (\<lambda>x. key (f x)) L R) = mrg key (map f L) (map f R)"
  by (induction "\<lambda>x. key (f x)" L R rule: mrg.induct) auto

lemma sorted_mrg: "sorted (map key L) \<Longrightarrow> sorted (map key R) \<Longrightarrow> sorted (map key (mrg key L R))"
  by (induction key L R rule: mrg.induct) force+

lemma stably_mrg: "sorted (map key L) \<Longrightarrow> stably key (L @ R) (mrg key L R)"
proof (induction key L R rule: mrg.induct)
  case (3 key l L r R)
  show ?case
  proof (cases "key r < key l")
    case True
    have "stably key ((l # L) @ [r]) ([r] @ (l # L))" using 3(3) True by (intro stably_exchange) auto
    from stably_append [OF this stably_refl, of R] have "stably key ((l # L) @ r # R) (r # (l # L) @ R)" by simp
    also have "stably key \<dots> (r # mrg key (l # L) R)" using 3 True by (intro stably_Cons) simp
    finally show ?thesis using True by simp
  next
    case False
    then show ?thesis using 3(2) 3(3) by (simp add: stably_Cons)
  qed
qed auto

lemma mrg_last_left: "\<forall>y\<in>set R. key y < key l \<Longrightarrow> mrg key (L @ [l]) R = mrg key L R @ [l]"
proof (induction key L R rule: mrg.induct)
  case (1 key R)
  then show ?case by (induction R) auto
qed auto

lemma mrg_last_right: "\<forall>x\<in>set L. key x \<le> key r \<Longrightarrow> mrg key L (R @ [r]) = mrg key L R @ [r]"
proof (induction key L R rule: mrg.induct)
  case (2 key l L)
  then show ?case by (induction L arbitrary: l) auto
qed auto

lemma mrg_snoc:
  assumes "sorted (map key (L @ [l]))" "sorted (map key (R @ [r]))"
  shows "mrg key (L @ [l]) (R @ [r]) = (if key r < key l then mrg key L (R @ [r]) @ [l] else mrg key (L @ [l]) R @ [r])"
proof (cases "key r < key l")
  case True
  then have "\<forall>y\<in>set (R @ [r]). key y < key l" using assms(2) by (fastforce simp: sorted_append)
  then show ?thesis using True by (simp add: mrg_last_left)
next
  case False
  then have "\<forall>x\<in>set (L @ [l]). key x \<le> key r" using assms(1) by (fastforce simp: sorted_append)
  then show ?thesis using False by (simp add: mrg_last_right)
qed


section \<open>The merge from both ends\<close>

text \<open>Elements tagged with the half they come from, and the merge of the tagged halves.\<close>

definition tagged :: "('a \<Rightarrow> 'k :: linorder) \<Rightarrow> 'a list \<Rightarrow> 'a list \<Rightarrow> (bool \<times> 'a) list" where
  "tagged key L R = mrg (\<lambda>x. key (snd x)) (map (Pair True) L) (map (Pair False) R)"

lemma length_tagged [simp]: "length (tagged key L R) = length L + length R"
  by (simp add: tagged_def)

lemma map_snd_tagged: "map snd (tagged key L R) = mrg key L R"
  by (simp add: tagged_def map_mrg comp_def)

lemma tagged_Cons: "tagged key (l # L) (r # R) = (if key r < key l then (False, r) # tagged key (l # L) R else (True, l) # tagged key L (r # R))"
  by (simp add: tagged_def)

lemma tagged_snoc:
  assumes "sorted (map key (L @ [l]))" "sorted (map key (R @ [r]))"
  shows "tagged key (L @ [l]) (R @ [r]) =
    (if key r < key l then tagged key L (R @ [r]) @ [(True, l)] else tagged key (L @ [l]) R @ [(False, r)])"
  using mrg_snoc [of "\<lambda>x. key (snd x)" "map (Pair True) L" "(True, l)" "map (Pair False) R" "(False, r)"] assms
  by (simp add: tagged_def comp_def)

text \<open>The position behind a known next element.\<close>

lemma step_up:
  assumes "drop i T = x # U"
  shows "drop (Suc i) T = U" "take (Suc i) T = take i T @ [x]"
proof -
  have "i < length T" using assms by (metis drop_eq_Nil2 list.distinct(1) not_le)
  then show "drop (Suc i) T = U" "take (Suc i) T = take i T @ [x]"
    using assms Cons_nth_drop_Suc [of i T] by (auto simp: take_Suc_conv_app_nth)
qed

lemma step_down:
  assumes "take (Suc n) T = U @ [x]" "n < length T"
  shows "take n T = U" "drop n T = x # drop (Suc n) T"
  using assms Cons_nth_drop_Suc [of n T] by (auto simp: take_Suc_conv_app_nth)

text \<open>What steps up have taken from the halves and written, \<open>F\<close>; and what steps down have,
  \<open>B\<close>.\<close>

definition up_part :: "('s, 'a) is_less \<Rightarrow> ('a \<Rightarrow> 'k :: linorder) \<Rightarrow> 'a list \<Rightarrow> 'a list \<Rightarrow> nat \<Rightarrow> nat \<Rightarrow> 'a list \<Rightarrow> bool" where
  "up_part is_less key L R a b F \<longleftrightarrow> length F = a + b \<and> mset F = mset (take a L) + mset (take b R)
     \<and> (keyed is_less key \<and> sorted (map key L) \<and> sorted (map key R) \<longrightarrow>
          F = map snd (take (a + b) (tagged key L R)) \<and> drop (a + b) (tagged key L R) = tagged key (drop a L) (drop b R))"

definition down_part :: "('s, 'a) is_less \<Rightarrow> ('a \<Rightarrow> 'k :: linorder) \<Rightarrow> 'a list \<Rightarrow> 'a list \<Rightarrow> nat \<Rightarrow> nat \<Rightarrow> 'a list \<Rightarrow> bool" where
  "down_part is_less key L R c d B \<longleftrightarrow> length B + c + d = length L + length R \<and> mset B = mset (drop c L) + mset (drop d R)
     \<and> (keyed is_less key \<and> sorted (map key L) \<and> sorted (map key R) \<longrightarrow>
          B = map snd (drop (c + d) (tagged key L R)) \<and> take (c + d) (tagged key L R) = tagged key (take c L) (take d R))"

lemma up_part_step:
  assumes "up_part is_less key L R a b F" "a < length L" "b < length R" "keyed is_less key \<Longrightarrow> lt = (key (R ! b) < key (L ! a))"
  shows "up_part is_less key L R (a + (if lt then 0 else 1)) (b + (if lt then 1 else 0)) (F @ [if lt then R ! b else L ! a])"
    (is "up_part _ _ _ _ ?a ?b (F @ [?y])")
proof -
  have "F @ [?y] = map snd (take (Suc (a + b)) (tagged key L R)) \<and> drop (Suc (a + b)) (tagged key L R) = tagged key (drop ?a L) (drop ?b R)"
    if k: "keyed is_less key \<and> sorted (map key L) \<and> sorted (map key R)"
  proof -
    have f: "F = map snd (take (a + b) (tagged key L R))" "drop (a + b) (tagged key L R) = tagged key (drop a L) (drop b R)"
      using assms(1) k unfolding up_part_def by blast+
    have "tagged key (L ! a # drop (Suc a) L) (R ! b # drop (Suc b) R) = (\<not> lt, ?y) # tagged key (drop ?a L) (drop ?b R)"
      using assms(4) k tagged_Cons [of key "L ! a" "drop (Suc a) L" "R ! b" "drop (Suc b) R"] assms(2,3)
      by (simp add: Cons_nth_drop_Suc)
    then have "drop (a + b) (tagged key L R) = (\<not> lt, ?y) # tagged key (drop ?a L) (drop ?b R)"
      using f(2) assms(2,3) by (simp add: Cons_nth_drop_Suc)
    from step_up [OF this] show ?thesis using f(1) by simp
  qed
  moreover have "mset (F @ [?y]) = mset (take ?a L) + mset (take ?b R)" "length F = a + b"
    using assms(1-3) unfolding up_part_def by (simp_all add: take_Suc_conv_app_nth)
  moreover have "?a + ?b = Suc (a + b)" by simp
  ultimately show ?thesis unfolding up_part_def by simp
qed

lemma down_part_step:
  assumes "down_part is_less key L R (Suc c) (Suc d) B" "c < length L" "d < length R" "keyed is_less key \<Longrightarrow> lt = (key (R ! d) < key (L ! c))"
  shows "down_part is_less key L R (Suc c - (if lt then 1 else 0)) (Suc d - (if lt then 0 else 1)) ((if lt then L ! c else R ! d) # B)"
    (is "down_part _ _ _ _ ?c ?d (?y # B)")
proof -
  have "?y # B = map snd (drop (Suc (c + d)) (tagged key L R)) \<and> take (Suc (c + d)) (tagged key L R) = tagged key (take ?c L) (take ?d R)"
    if k: "keyed is_less key \<and> sorted (map key L) \<and> sorted (map key R)"
  proof -
    have f: "B = map snd (drop (Suc c + Suc d) (tagged key L R))" "take (Suc c + Suc d) (tagged key L R) = tagged key (take (Suc c) L) (take (Suc d) R)"
      using assms(1) k unfolding down_part_def by blast+
    have "sorted (map key (take (Suc c) L))" "sorted (map key (take (Suc d) R))" using k by (simp_all add: take_map [symmetric] sorted_wrt_take)
    then have "tagged key (take (Suc c) L) (take (Suc d) R) = tagged key (take ?c L) (take ?d R) @ [(lt, ?y)]"
      using tagged_snoc [of key "take c L" "L ! c" "take d R" "R ! d"] assms(2-4) k by (simp add: take_Suc_conv_app_nth)
    then have t: "take (Suc (Suc (c + d))) (tagged key L R) = tagged key (take ?c L) (take ?d R) @ [(lt, ?y)]" using f(2) by simp
    have "Suc (c + d) < length (tagged key L R)" using assms(2,3) by simp
    from step_down [OF t this] show ?thesis using f(1) by simp
  qed
  moreover have "mset (drop c L) = add_mset (L ! c) (mset (drop (Suc c) L))" "mset (drop d R) = add_mset (R ! d) (mset (drop (Suc d) R))"
    using assms(2,3) by (simp_all flip: Cons_nth_drop_Suc)
  then have "mset (?y # B) = mset (drop ?c L) + mset (drop ?d R)" "length (?y # B) + ?c + ?d = length L + length R"
    using assms(1-3) unfolding down_part_def by simp_all
  moreover have "?c + ?d = Suc (c + d)" by simp
  ultimately show ?thesis unfolding down_part_def by metis
qed


text \<open>A step that returns no state only when the closure does not compare keys.\<close>

definition answered :: "('s \<times> 'b option) outcome \<Rightarrow> bool \<Rightarrow> ('b \<Rightarrow> bool) \<Rightarrow> bool" where
  "answered m P Q \<longleftrightarrow> (\<exists>s r. m = Ret (s, r) \<and> (case r of None \<Rightarrow> P | Some st \<Rightarrow> Q st))"

lemma answered_None: "m = Ret (s, None) \<Longrightarrow> P \<Longrightarrow> answered m P Q"
  by (simp add: answered_def)

lemma answered_Some: "m = Ret (s, Some st) \<Longrightarrow> Q st \<Longrightarrow> answered m P Q"
  by (simp add: answered_def)

lemma answered_bind:
  assumes "answered m P Q" "\<And>s st. Q st \<Longrightarrow> answered (k s st) P Q'"
  shows "answered (and_then m (\<lambda>(s, r). case r of None \<Rightarrow> Ret (s, None) | Some st \<Rightarrow> k s st)) P Q'"
proof -
  obtain s r where m: "m = Ret (s, r)" "case r of None \<Rightarrow> P | Some st \<Rightarrow> Q st" using assms(1) unfolding answered_def by blast
  show ?thesis
  proof (cases r)
    case None
    then show ?thesis using m by (intro answered_None [of _ s]) simp_all
  next
    case (Some st)
    then show ?thesis using m assms(2) [of st s] by simp
  qed
qed

text \<open>The state between steps.\<close>

definition bidi :: "'a list \<Rightarrow> nat \<Rightarrow> nat \<Rightarrow> nat \<Rightarrow> nat \<Rightarrow> 'a list \<Rightarrow> 'a list \<Rightarrow> 'a bidi_state" where
  "bidi L a b c d F B = \<lparr>bd_left = a, bd_right = length L + b, bd_dst = a + b, bd_left_end = c, bd_right_end = length L + d,
     bd_dst_end = c + d, bd_cells = map Some F @ replicate (c + d - (a + b)) None @ map Some B\<rparr>"

lemma merge_up_one_run:
  assumes up: "up_part is_less key L R a b F" and ab: "a < length L" "b < length R" "a + b < c + d"
  shows "answered (merge_up_one is_less s (L @ R) (bidi L a b c d F B)) (\<not> keyed is_less key)
    (\<lambda>st. \<exists>a' b' F'. st = bidi L a' b' c d F' B \<and> a' + b' = Suc (a + b) \<and> up_part is_less key L R a' b' F')"
proof -
  obtain s1 x where x: "is_less s (R ! b) (L ! a) = (s1, x)" by force
  have key: "x = Some (key (R ! b) < key (L ! a))" if "keyed is_less key" using keyed_answer [OF that x] .
  have F: "length F = a + b" using up by (simp add: up_part_def)
  show ?thesis
  proof (cases x)
    case None
    then show ?thesis using x ab key by (intro answered_None [of _ s1]) (auto simp: merge_up_one_def bidi_def nth_append)
  next
    case (Some lt)
    let ?a = "a + (if lt then 0 else 1)" and ?b = "b + (if lt then 1 else 0)" and ?y = "if lt then R ! b else L ! a"
    obtain n where n: "c + d - (a + b) = Suc n" using ab(3) by (metis Suc_diff_Suc)
    have "(map Some F @ replicate (Suc n) None @ map Some B)[a + b := Some ?y] = map Some (F @ [?y]) @ replicate n None @ map Some B"
      using scratch_left [of F n "map Some B" ?y] unfolding F .
    then have run: "merge_up_one is_less s (L @ R) (bidi L a b c d F B) = Ret (s1, Some (bidi L ?a ?b c d (F @ [?y]) B))"
      using x ab Some n F by (simp add: merge_up_one_def bidi_def nth_append del: replicate.simps)
    have part: "up_part is_less key L R ?a ?b (F @ [?y])" by (rule up_part_step [OF up ab(1,2)]) (use key Some in simp)
    have "?a + ?b = Suc (a + b)" by simp
    with part have "\<exists>a' b' F'. bidi L ?a ?b c d (F @ [?y]) B = bidi L a' b' c d F' B \<and> a' + b' = Suc (a + b) \<and> up_part is_less key L R a' b' F'"
      by blast
    then show ?thesis by (rule answered_Some [OF run])
  qed
qed

lemma merge_down_one_run:
  assumes down: "down_part is_less key L R (Suc c) (Suc d) B" and cd: "c < length L" "d < length R" "a + b < Suc c + Suc d" and F: "length F = a + b"
  shows "answered (merge_down_one is_less s (L @ R) (bidi L a b (Suc c) (Suc d) F B)) (\<not> keyed is_less key)
    (\<lambda>st. \<exists>c' d' B'. st = bidi L a b c' d' F B' \<and> c' + d' = Suc (c + d) \<and> c' \<le> Suc c \<and> d' \<le> Suc d \<and> down_part is_less key L R c' d' B')"
proof -
  obtain s1 x where x: "is_less s (R ! d) (L ! c) = (s1, x)" by force
  have key: "x = Some (key (R ! d) < key (L ! c))" if "keyed is_less key" using keyed_answer [OF that x] .
  have g: "get_unchecked (L @ R) (length L + d) = Ret (R ! d)" "get_unchecked (L @ R) c = Ret (L ! c)" using cd by (simp_all add: nth_append)
  show ?thesis
  proof (cases x)
    case None
    then show ?thesis using x g key by (intro answered_None [of _ s1]) (auto simp: merge_down_one_def bidi_def)
  next
    case (Some lt)
    let ?c = "Suc c - (if lt then 1 else 0)" and ?d = "Suc d - (if lt then 0 else 1)" and ?y = "if lt then L ! c else R ! d"
    define n where "n = Suc (c + d) - (a + b)"
    have n: "Suc c + Suc d - (a + b) = Suc n" "Suc (c + d) = a + b + n" using cd(3) by (simp_all add: n_def Suc_diff_le)
    have "(map Some F @ replicate (Suc n) None @ map Some B)[a + b + n := Some ?y] = map Some F @ replicate n None @ map Some (?y # B)"
      using scratch_right [of F n "map Some B" ?y] unfolding F by simp
    then have run: "merge_down_one is_less s (L @ R) (bidi L a b (Suc c) (Suc d) F B) = Ret (s1, Some (bidi L a b ?c ?d F (?y # B)))"
      using x g Some n F cd(3) by (auto simp add: merge_down_one_def bidi_def simp del: replicate.simps)
    have part: "down_part is_less key L R ?c ?d (?y # B)" by (rule down_part_step [OF down cd(1,2)]) (use key Some in simp)
    have "?c + ?d = Suc (c + d)" "?c \<le> Suc c" "?d \<le> Suc d" by simp_all
    with part have "\<exists>c' d' B'. bidi L a b ?c ?d F (?y # B) = bidi L a b c' d' F B' \<and> c' + d' = Suc (c + d) \<and> c' \<le> Suc c \<and> d' \<le> Suc d
      \<and> down_part is_less key L R c' d' B'" by blast
    then show ?thesis by (rule answered_Some [OF run])
  qed
qed

lemma bidi_loop_run:
  "up_part is_less key L R a b F \<Longrightarrow> down_part is_less key L R c d B \<Longrightarrow> c \<le> length L \<Longrightarrow> d \<le> length R
     \<Longrightarrow> a + b + n = length L \<Longrightarrow> length L \<le> length R \<Longrightarrow> a + b + (c + d) = length L + length R \<Longrightarrow>
   answered (bidi_loop n is_less s (L @ R) (bidi L a b c d F B)) (\<not> keyed is_less key)
     (\<lambda>st. \<exists>a b c d F B. st = bidi L a b c d F B \<and> a + b = length L \<and> c + d = length R \<and> c \<le> length L \<and> d \<le> length R
        \<and> up_part is_less key L R a b F \<and> down_part is_less key L R c d B)"
proof (induction n arbitrary: s a b c d F B)
  case 0
  have "a + b = length L" "c + d = length R" using 0(5,7) by simp_all
  then show ?case using 0(1-4) by (intro answered_Some [OF bidi_loop.simps(1)]) blast
next
  case (Suc n)
  have ab: "a < length L" "b < length R" "a + b < c + d" using Suc.prems(5-7) by linarith+
  obtain c0 d0 where cd: "c = Suc c0" "d = Suc d0" using Suc.prems(3-7) by (cases c; cases d) auto
  show ?case unfolding bidi_loop.simps
  proof (rule answered_bind [OF merge_up_one_run [OF Suc.prems(1) ab]])
    fix s1 st1 assume "\<exists>a' b' F'. st1 = bidi L a' b' c d F' B \<and> a' + b' = Suc (a + b) \<and> up_part is_less key L R a' b' F'"
    then obtain a1 b1 F1 where u: "st1 = bidi L a1 b1 c d F1 B" "a1 + b1 = Suc (a + b)" "up_part is_less key L R a1 b1 F1" by blast
    have l: "length F1 = a1 + b1" using u(3) by (simp add: up_part_def)
    have "c0 < length L" "d0 < length R" "a1 + b1 < Suc c0 + Suc d0" using Suc.prems(3-7) cd u(2) by linarith+
    note down = merge_down_one_run [OF Suc.prems(2) [unfolded cd] this l]
    show "answered (and_then (merge_down_one is_less s1 (L @ R) st1) (\<lambda>(s, r). case r of None \<Rightarrow> Ret (s, None) | Some st \<Rightarrow>
         bidi_loop n is_less s (L @ R) st)) (\<not> keyed is_less key)
     (\<lambda>st. \<exists>a b c d F B. st = bidi L a b c d F B \<and> a + b = length L \<and> c + d = length R \<and> c \<le> length L \<and> d \<le> length R
        \<and> up_part is_less key L R a b F \<and> down_part is_less key L R c d B)" unfolding u(1) cd
    proof (rule answered_bind [OF down])
      fix s2 st2 assume "\<exists>c' d' B'. st2 = bidi L a1 b1 c' d' F1 B' \<and> c' + d' = Suc (c0 + d0) \<and> c' \<le> Suc c0 \<and> d' \<le> Suc d0 \<and> down_part is_less key L R c' d' B'"
      then obtain c1 d1 B1 where w: "st2 = bidi L a1 b1 c1 d1 F1 B1" "c1 + d1 = Suc (c0 + d0)" "c1 \<le> Suc c0" "d1 \<le> Suc d0"
        "down_part is_less key L R c1 d1 B1" by blast
      show "answered (bidi_loop n is_less s2 (L @ R) st2) (\<not> keyed is_less key)
       (\<lambda>st. \<exists>a b c d F B. st = bidi L a b c d F B \<and> a + b = length L \<and> c + d = length R \<and> c \<le> length L \<and> d \<le> length R
        \<and> up_part is_less key L R a b F \<and> down_part is_less key L R c d B)" unfolding w(1)
        by (rule Suc.IH [OF u(3) w(5)]) (use Suc.prems(3-7) u(2) w(2-4) cd in linarith)+
    qed
  qed
qed


lemma tagged_filter:
  "filter fst (tagged key L R) = map (Pair True) L" "filter (\<lambda>x. \<not> fst x) (tagged key L R) = map (Pair False) R"
  using mrg_filter [of "map (Pair True) L" fst "map (Pair False) R" "\<lambda>x. key (snd x)"] by (auto simp: tagged_def)

text \<open>If the closure compares keys and the halves are sorted, both directions meet.\<close>

lemma tagged_meet_even:
  assumes "take n T = tagged key (take c L) (take d R)" "drop n T = tagged key (drop a L) (drop b R)" "T = tagged key L R"
    and "a \<le> length L" "b \<le> length R" "c \<le> length L" "d \<le> length R"
  shows "c = a" "d = b"
proof -
  have t: "filter fst T = map (Pair True) L" "filter (\<lambda>x. \<not> fst x) T = map (Pair False) R" using assms(3) tagged_filter by auto
  have l: "length (filter P T) = length (filter P (take n T)) + length (filter P (drop n T))" for P
    by (metis append_take_drop_id filter_append length_append)
  show "c = a" "d = b" using l [of fst] l [of "\<lambda>x. \<not> fst x"] assms(4-7) unfolding assms(1,2) t tagged_filter by simp_all
qed

lemma tagged_meet_odd:
  assumes "take (Suc n) T = tagged key (take c L) (take d R)" "drop n T = tagged key (drop a L) (drop b R)" "T = tagged key L R" "n < length T"
    and "a \<le> length L" "b \<le> length R" "c \<le> length L" "d \<le> length R"
  shows "c = a + (if a < c then 1 else 0)" "d = b + (if a < c then 0 else 1)" "snd (T ! n) = (if a < c then L ! a else R ! b)"
proof -
  define x where "x = T ! n"
  have t: "filter fst T = map (Pair True) L" "filter (\<lambda>x. \<not> fst x) T = map (Pair False) R" using assms(3) tagged_filter by auto
  have dn: "drop n T = x # drop (Suc n) T" using assms(4) by (simp add: x_def Cons_nth_drop_Suc)
  have f: "filter P (drop n T) = (if P x then [x] else []) @ filter P (drop (Suc n) T)" for P by (simp add: dn)
  have g: "filter P T = filter P (take (Suc n) T) @ filter P (drop (Suc n) T)" for P by (metis append_take_drop_id filter_append)
  have l: "length (filter P T) + (if P x then 1 else 0) = length (filter P (take (Suc n) T)) + length (filter P (drop n T))" for P
    by (simp add: g [of P] f [of P])
  have len: "length L + (if fst x then 1 else 0) = c + (length L - a)" "length R + (if fst x then 0 else 1) = d + (length R - b)"
    using l [of fst] l [of "\<lambda>x. \<not> fst x"] assms(5-8) unfolding assms(1,2) t tagged_filter by (simp_all split: if_splits)
  then have ac: "fst x \<longleftrightarrow> a < c" using assms(5) by (cases "fst x") auto
  show cd: "c = a + (if a < c then 1 else 0)" "d = b + (if a < c then 0 else 1)" using len assms(5,6) ac by (cases "fst x"; simp)+
  have h: "map (Pair True) (drop a L) = (if fst x then [x] else []) @ filter fst (drop (Suc n) T)"
    "map (Pair False) (drop b R) = (if fst x then [] else [x]) @ filter (\<lambda>x. \<not> fst x) (drop (Suc n) T)"
    using f [of fst] f [of "\<lambda>x. \<not> fst x"] unfolding assms(2) tagged_filter by (cases "fst x"; simp)+
  show "snd (T ! n) = (if a < c then L ! a else R ! b)"
  proof (cases "fst x")
    case True
    then have "a < length L" using ac assms(7) by simp
    then show ?thesis using h(1) True ac unfolding x_def [symmetric] by (simp flip: Cons_nth_drop_Suc) (metis snd_conv)
  next
    case False
    then have "b < length R" using cd ac assms(8) by simp
    then show ?thesis using h(2) False ac unfolding x_def [symmetric] by (simp flip: Cons_nth_drop_Suc) (metis snd_conv)
  qed
qed


lemma bidi_finish_even:
  assumes "length R = length L" "a + b = length L" "c + d = length L"
  shows "bidi_finish s (L @ R) (bidi L a b c d F B) = Ret (if a = c \<and> b = d then (s, F @ B, Goes ()) else (s, L @ R, Unwinds))"
  using assms by (auto simp: bidi_finish_def bidi_def simp flip: map_append)

lemma bidi_finish_odd:
  assumes "length R = Suc (length L)" "a + b = length L" "c + d = Suc (length L)" "c \<le> length L" "length F = length L"
    and "y = (if a < c then L ! a else R ! b)"
  shows "bidi_finish s (L @ R) (bidi L a b c d F B) =
    Ret (if c = a + (if a < c then 1 else 0) \<and> d = b + (if a < c then 0 else 1) then (s, F @ y # B, Goes ()) else (s, L @ R, Unwinds))"
proof -
  have "(map Some F @ [None] @ map Some B)[length L := Some y] = map Some (F @ y # B)"
    using assms(5) by (simp add: list_update_append flip: assms(5))
  then have p: "put (map Some F @ None # map Some B) (length L) (Some y) = Ret (map Some (F @ y # B))"
    using assms(5) by simp
  have c: "bd_cells (bidi L a b c d F B) = map Some F @ None # map Some B" using assms(2,3) by (simp add: bidi_def)
  have g: "get_unchecked (L @ R) (if a < c then a else length L + b) = Ret y" using assms by (auto simp: nth_append)
  have o: "length (L @ R) mod 2 \<noteq> 0" using assms(1) by simp presburger
  show ?thesis unfolding bidi_finish_def
    using p c g o assms(2,3) by (auto simp: bidi_def Let_def simp flip: map_append list.map(2))
qed


lemma mset_take_drop: "mset (take i xs) + mset (drop i xs) = mset xs"
  by (metis append_take_drop_id mset_append)

lemma bidi_finish_sorts:
  assumes up: "up_part is_less key L R a b F" and down: "down_part is_less key L R c d B"
    and len: "length R = length L \<or> length R = Suc (length L)" "a + b = length L" "c + d = length R" "c \<le> length L" "d \<le> length R"
    and sorted: "keyed is_less key \<Longrightarrow> sorted (map key L) \<and> sorted (map key R)"
  shows "sorts is_less key (L @ R) (bidi_finish s (L @ R) (bidi L a b c d F B))"
proof -
  define n where "n = length L"
  have F: "length F = n" "mset F = mset (take a L) + mset (take b R)" and B: "mset B = mset (drop c L) + mset (drop d R)"
    using up down len(2) by (auto simp: up_part_def down_part_def n_def)
  have k: "F = map snd (take n (tagged key L R))" "drop n (tagged key L R) = tagged key (drop a L) (drop b R)"
    "B = map snd (drop (c + d) (tagged key L R))" "take (c + d) (tagged key L R) = tagged key (take c L) (take d R)"
    if "keyed is_less key"
    using up down sorted [OF that] that len(2) unfolding up_part_def down_part_def n_def by auto
  have ab: "a \<le> length L" "b \<le> length R" using len by auto
  have fin: "sorts is_less key (L @ R) m" if m: "m = Ret (s, w, Goes ())" "mset w = mset (L @ R)" "keyed is_less key \<Longrightarrow> w = mrg key L R" for m w
    unfolding sorts_def by (rule permutesI [OF m(1,2)]) (use m(3) sorted in \<open>auto simp: sorted_mrg stably_mrg\<close>)
  have bad: "sorts is_less key (L @ R) m" if "m = Ret (s, L @ R, Unwinds)" "\<not> keyed is_less key" for m
    unfolding sorts_def by (rule permutes_Unwinds [OF that(1) refl that(2)])
  show ?thesis
  proof (cases "length R = length L")
    case True
    note e = bidi_finish_even [OF True len(2) len(3) [unfolded True], of s F B]
    have meet: "c = a" "d = b" if "keyed is_less key"
      using tagged_meet_even [OF _ k(2) [OF that] refl, of c d] k(4) [OF that] ab len True unfolding n_def by auto
    show ?thesis
    proof (cases "a = c \<and> b = d")
      case t: True
      have "mset (F @ B) = mset (take c L @ drop c L) + mset (take d R @ drop d R)" using F(2) B t unfolding mset_append by simp
      then have "mset (F @ B) = mset (L @ R)" by simp
      moreover have "F @ B = mrg key L R" if "keyed is_less key"
      proof -
        have "F @ B = map snd (take n (tagged key L R) @ drop n (tagged key L R))" using k(1,3) [OF that] len(3) True n_def by (simp del: append_take_drop_id)
        then show ?thesis by (simp only: append_take_drop_id map_snd_tagged)
      qed
      ultimately show ?thesis using e t by (intro fin [of _ "F @ B"]) simp_all
    next
      case False
      then show ?thesis using e meet by (intro bad) auto
    qed
  next
    case False
    then have R: "length R = Suc (length L)" using len(1) by simp
    define y where "y = (if a < c then L ! a else R ! b)"
    note e = bidi_finish_odd [OF R len(2) len(3) [unfolded R] len(4) F(1) [unfolded n_def] y_def, of s B]
    have cd: "c + d = Suc n" using len(3) R n_def by simp
    have nT: "n < length (tagged key L R)" using R n_def by simp
    note meet = tagged_meet_odd [OF k(4) [unfolded cd] k(2) refl nT ab len(4,5)]
    show ?thesis
    proof (cases "c = a + (if a < c then 1 else 0) \<and> d = b + (if a < c then 0 else 1)")
      case t: True
      have "mset (F @ y # B) = mset (L @ R)"
      proof (cases "a < c")
        case True
        then have "c = Suc a" "d = b" "y = L ! a" "a < length L" using t len(4) by (simp_all add: y_def)
        then have "mset (F @ y # B) = mset (take a L @ L ! a # drop (Suc a) L) + mset (take b R @ drop b R)" using F(2) B by (simp add: mset_take_drop)
        also have "\<dots> = mset (L @ R)" using \<open>a < length L\<close> by (simp only: id_take_nth_drop [symmetric] append_take_drop_id mset_append)
        finally show ?thesis .
      next
        case False
        then have "c = a" "d = Suc b" "y = R ! b" "b < length R" using t len(5) by (simp_all add: y_def)
        then have "mset (F @ y # B) = mset (take a L @ drop a L) + mset (take b R @ R ! b # drop (Suc b) R)" using F(2) B by (simp add: mset_take_drop)
        also have "\<dots> = mset (L @ R)" using \<open>b < length R\<close> by (simp only: id_take_nth_drop [symmetric] append_take_drop_id mset_append)
        finally show ?thesis .
      qed
      moreover have "F @ y # B = mrg key L R" if kd: "keyed is_less key"
      proof -
        have "F @ y # B = map snd (take n (tagged key L R) @ tagged key L R ! n # drop (Suc n) (tagged key L R))"
          using k(1,3) [OF kd] cd meet(3) [OF kd kd] by (simp add: y_def)
        then show ?thesis by (simp only: id_take_nth_drop [OF nT, symmetric] map_snd_tagged)
      qed
      ultimately show ?thesis using e t by (intro fin [of _ "F @ y # B"]) simp_all
    next
      case False
      then show ?thesis using e meet by (intro bad) auto
    qed
  qed
qed

lemma bidirectional_merge_sorts:
  assumes "2 \<le> length v" and sorted: "keyed is_less key \<Longrightarrow> sorted (map key (take (length v div 2) v)) \<and> sorted (map key (drop (length v div 2) v))"
  shows "sorts is_less key v (bidirectional_merge is_less s v)"
proof -
  obtain L R where v: "v = L @ R" "length L = length v div 2" by (metis append_take_drop_id length_take min.absorb2 div_le_dividend)
  have h: "(length L + length R) div 2 = length L" using v by (metis length_append)
  have R: "length R = length L \<or> length R = Suc (length L)" "length L \<le> length R" "0 < length L" using v assms(1) by auto
  have sL: "sorted (map key L) \<and> sorted (map key R)" if "keyed is_less key" using sorted [OF that] v by (metis append_eq_conv_conj)
  have "answered (bidi_loop (length L) is_less s (L @ R) (bidi L 0 0 (length L) (length R) [] [])) (\<not> keyed is_less key)
     (\<lambda>st. \<exists>a b c d F B. st = bidi L a b c d F B \<and> a + b = length L \<and> c + d = length R \<and> c \<le> length L \<and> d \<le> length R
        \<and> up_part is_less key L R a b F \<and> down_part is_less key L R c d B)"
    by (rule bidi_loop_run) (use R in \<open>simp_all add: up_part_def down_part_def\<close>)
  then obtain s1 r where r: "bidi_loop (length L) is_less s (L @ R) (bidi L 0 0 (length L) (length R) [] []) = Ret (s1, r)"
    "case r of None \<Rightarrow> \<not> keyed is_less key | Some st \<Rightarrow> \<exists>a b c d F B. st = bidi L a b c d F B \<and> a + b = length L \<and> c + d = length R
        \<and> c \<le> length L \<and> d \<le> length R \<and> up_part is_less key L R a b F \<and> down_part is_less key L R c d B"
    unfolding answered_def by blast
  have run: "bidirectional_merge is_less s v = (case r of None \<Rightarrow> Ret (s1, v, Unwinds) | Some st \<Rightarrow> bidi_finish s1 (L @ R) st)"
    using r(1) R(3) h by (simp add: bidirectional_merge_def Let_def bidi_def v(1) split: option.split)
  show ?thesis
  proof (cases r)
    case None
    then show ?thesis using run r(2) unfolding sorts_def by (intro permutes_Unwinds [of _ s1 v]) simp_all
  next
    case (Some st)
    then obtain a b c d F B where st: "st = bidi L a b c d F B" "a + b = length L" "c + d = length R" "c \<le> length L" "d \<le> length R"
      "up_part is_less key L R a b F" "down_part is_less key L R c d B" using r(2) by auto
    show ?thesis using bidi_finish_sorts [OF st(6,7) R(1) st(2-5) sL, of s1] run Some st(1) v(1) by simp
  qed
qed


section \<open>The small sort sorts\<close>

text \<open>What is copied to the scratch space: the elements of \<open>xs\<close>, sorted stably if the closure compares
  keys.\<close>

definition sorted_copy :: "('s, 'a) is_less \<Rightarrow> ('a \<Rightarrow> 'k :: linorder) \<Rightarrow> 'a list \<Rightarrow> 'a list \<Rightarrow> bool" where
  "sorted_copy is_less key xs r \<longleftrightarrow> mset r = mset xs \<and> (keyed is_less key \<longrightarrow> stably key xs r \<and> sorted (map key r))"

lemma sorted_copy_length: "sorted_copy is_less key xs r \<Longrightarrow> length r = length xs"
  unfolding sorted_copy_def by (metis size_mset)

text \<open>The elements that \<open>sort4_stable\<close> writes.\<close>

definition sort4_list :: "'a \<Rightarrow> 'a \<Rightarrow> 'a \<Rightarrow> 'a \<Rightarrow> bool \<Rightarrow> bool \<Rightarrow> bool \<Rightarrow> bool \<Rightarrow> bool \<Rightarrow> 'a list" where
  "sort4_list x0 x1 x2 x3 c1 c2 c3 c4 c5 =
     (let a = (if c1 then x1 else x0); b = (if c1 then x0 else x1); c = (if c2 then x3 else x2); d = (if c2 then x2 else x3);
          ul = (if c3 then a else if c4 then c else b); ur = (if c4 then d else if c3 then b else c)
      in [if c3 then c else a, if c5 then ur else ul, if c5 then ul else ur, if c4 then b else d])"

lemma mset_sort4_list: "mset (sort4_list x0 x1 x2 x3 c1 c2 c3 c4 c5) = {#x0, x1, x2, x3#}"
  by (simp add: sort4_list_def Let_def)

text \<open>Two pairs of neighbours in order, and the answers of the three further comparisons.\<close>

lemma sort4_pairs:
  fixes key :: "'a \<Rightarrow> 'k :: linorder"
  assumes "key a \<le> key b" "key c \<le> key d" "c3 = (key c < key a)" "c4 = (key d < key b)"
    and "ul = (if c3 then a else if c4 then c else b)" "ur = (if c4 then d else if c3 then b else c)" "c5 = (key ur < key ul)"
    and "r = [if c3 then c else a, if c5 then ur else ul, if c5 then ul else ur, if c4 then b else d]"
  shows "sorted (map key r)" "stably key [a, b, c, d] r"
  using assms by (auto simp: stably_def)


lemma stably_pair: "stably key [x, y] (if key y < (key x :: 'k :: linorder) then [y, x] else [x, y])"
  by (auto simp: stably_def)

lemma sort4_list_sorted:
  fixes key :: "'a \<Rightarrow> 'k :: linorder"
  assumes c: "c1 = (key x1 < key x0)" "c2 = (key x3 < key x2)"
    and abcd: "a = (if c1 then x1 else x0)" "b = (if c1 then x0 else x1)" "c = (if c2 then x3 else x2)" "d = (if c2 then x2 else x3)"
    and c34: "c3 = (key c < key a)" "c4 = (key d < key b)"
    and u: "ul = (if c3 then a else if c4 then c else b)" "ur = (if c4 then d else if c3 then b else c)" and c5: "c5 = (key ur < key ul)"
  shows "sorted (map key (sort4_list x0 x1 x2 x3 c1 c2 c3 c4 c5))" "stably key [x0, x1, x2, x3] (sort4_list x0 x1 x2 x3 c1 c2 c3 c4 c5)"
proof -
  have r: "sort4_list x0 x1 x2 x3 c1 c2 c3 c4 c5 = [if c3 then c else a, if c5 then ur else ul, if c5 then ul else ur, if c4 then b else d]"
    unfolding sort4_list_def Let_def u abcd ..
  have le: "key a \<le> key b" "key c \<le> key d" using c abcd by auto
  note p = sort4_pairs [OF le c34 u c5 r]
  show "sorted (map key (sort4_list x0 x1 x2 x3 c1 c2 c3 c4 c5))" by (rule p(1))
  have "stably key ([x0, x1] @ [x2, x3]) ([a, b] @ [c, d])"
    using stably_pair [of key x0 x1] stably_pair [of key x2 x3] c abcd by (intro stably_append) (auto split: if_splits)
  then show "stably key [x0, x1, x2, x3] (sort4_list x0 x1 x2 x3 c1 c2 c3 c4 c5)" using p(2) by (simp add: stably_trans)
qed

lemma take4: "base + 4 \<le> length v \<Longrightarrow> take 4 (drop base v) = [v ! base, v ! (base + 1), v ! (base + 2), v ! (base + 3)]"
  by (rule nth_equalityI) (auto simp: less_Suc_eq numeral_eq_Suc)

lemma sort4_stable_permutes:
  assumes len: "base + 4 \<le> length v"
  shows "permutes is_less key v (sort4_stable is_less s v base) (\<lambda>r w. w = v \<and> sorted_copy is_less key (take 4 (drop base v)) r)"
proof -
  have fin: "permutes is_less key v (and_then (get_unchecked v mn) (\<lambda>x0. and_then (get_unchecked v lo) (\<lambda>x1.
       and_then (get_unchecked v hi) (\<lambda>x2. and_then (get_unchecked v mx) (\<lambda>x3. Ret (s, v, Goes [x0, x1, x2, x3]))))))
     (\<lambda>r w. w = v \<and> sorted_copy is_less key (take 4 (drop base v)) r)"
    if i: "a = base + (if c1 then 1 else 0)" "b = base + (if c1 then 0 else 1)" "c = base + 2 + (if c2 then 1 else 0)" "d = base + 2 + (if c2 then 0 else 1)"
      "ul = (if c3 then a else if c4 then c else b)" "ur = (if c4 then d else if c3 then b else c)"
      "mn = (if c3 then c else a)" "lo = (if c5 then ur else ul)" "hi = (if c5 then ul else ur)" "mx = (if c4 then b else d)"
    and k: "keyed is_less key \<Longrightarrow> c1 = (key (v ! (base + 1)) < key (v ! base))" "keyed is_less key \<Longrightarrow> c2 = (key (v ! (base + 3)) < key (v ! (base + 2)))"
      "keyed is_less key \<Longrightarrow> c3 = (key (v ! c) < key (v ! a))" "keyed is_less key \<Longrightarrow> c4 = (key (v ! d) < key (v ! b))"
      "keyed is_less key \<Longrightarrow> c5 = (key (v ! ur) < key (v ! ul))"
    for s a b c d ul ur mn lo hi mx c1 c2 c3 c4 c5
  proof -
    have r: "[v ! mn, v ! lo, v ! hi, v ! mx] = sort4_list (v ! base) (v ! (base + 1)) (v ! (base + 2)) (v ! (base + 3)) c1 c2 c3 c4 c5"
      unfolding i sort4_list_def Let_def by (simp add: numeral_eq_Suc)
    have "sorted_copy is_less key (take 4 (drop base v)) [v ! mn, v ! lo, v ! hi, v ! mx]"
      unfolding sorted_copy_def r take4 [OF len]
    proof (intro conjI impI)
      assume kd: "keyed is_less key"
      note s4 = sort4_list_sorted [of c1 key "v ! (base + 1)" "v ! base" c2 "v ! (base + 3)" "v ! (base + 2)", OF k(1) [OF kd] k(2) [OF kd] refl refl refl refl _ _ refl refl]
      have "c3 = (key (if c2 then v ! (base + 3) else v ! (base + 2)) < key (if c1 then v ! (base + 1) else v ! base))"
        "c4 = (key (if c2 then v ! (base + 2) else v ! (base + 3)) < key (if c1 then v ! base else v ! (base + 1)))"
        using k(3,4) [OF kd] unfolding i by (cases c1; cases c2; simp add: numeral_eq_Suc)+
      moreover have "c5 = (key (if c4 then if c2 then v ! (base + 2) else v ! (base + 3) else if c3 then if c1 then v ! base else v ! (base + 1)
             else if c2 then v ! (base + 3) else v ! (base + 2))
         < key (if c3 then if c1 then v ! (base + 1) else v ! base else if c4 then if c2 then v ! (base + 3) else v ! (base + 2)
             else if c1 then v ! base else v ! (base + 1)))"
        using k(5) [OF kd] unfolding i by (cases c1; cases c2; cases c3; cases c4; simp add: numeral_eq_Suc)
      ultimately show "stably key [v ! base, v ! (base + 1), v ! (base + 2), v ! (base + 3)]
          (sort4_list (v ! base) (v ! (base + 1)) (v ! (base + 2)) (v ! (base + 3)) c1 c2 c3 c4 c5)"
        "sorted (map key (sort4_list (v ! base) (v ! (base + 1)) (v ! (base + 2)) (v ! (base + 3)) c1 c2 c3 c4 c5))" by (rule s4(2), rule s4(1))
    qed (simp add: mset_sort4_list)
    moreover have "mn < length v" "lo < length v" "hi < length v" "mx < length v" unfolding i using len by simp_all
    ultimately show ?thesis by (simp add: permutes_Goes)
  qed
  show ?thesis unfolding sort4_stable_def Let_def
    by (intro permutes_compare fin [OF refl refl refl refl refl refl refl refl refl refl]; (assumption | use len in simp))
qed


lemma in_scratch_permutes:
  assumes "permutes is_less key u m P"
  shows "permutes is_less key v (in_scratch v m) (\<lambda>r w. w = v \<and> mset r = mset u \<and> (keyed is_less key \<longrightarrow> stably key u r) \<and> P () r)"
  using assms
proof (cases rule: permutesE)
  case (goes s w r)
  then show ?thesis by (intro permutesI [of _ s v w]) (simp_all add: in_scratch_def)
next
  case (unwinds s w)
  then show ?thesis by (intro permutes_Unwinds [of _ s v]) (simp_all add: in_scratch_def)
qed

lemma permutes_from:
  assumes "permutes is_less key u m Q" "mset u = mset v" "keyed is_less key \<Longrightarrow> stably key v u"
  shows "permutes is_less key v m Q"
  using assms(1)
proof (cases rule: permutesE)
  case (goes s w r)
  then show ?thesis using assms(2,3) by (intro permutesI [of m s w r]) (auto intro: stably_trans)
next
  case (unwinds s w)
  then show ?thesis using assms(2) by (intro permutes_Unwinds [of m s w]) simp_all
qed

lemma take_drop_add: "take (m + n) (drop b v) = take m (drop b v) @ take n (drop (b + m) v)"
  by (simp add: take_add add.commute)

lemma sort8_stable_permutes:
  assumes len: "base + 8 \<le> length v"
  shows "permutes is_less key v (sort8_stable is_less s v base) (\<lambda>r w. w = v \<and> sorted_copy is_less key (take 8 (drop base v)) r)"
  unfolding sort8_stable_def
proof (rule permutes_if_goes [OF sort4_stable_permutes], goal_cases)
  case (2 s1 w1 x)
  then have w1: "w1 = v" and x: "sorted_copy is_less key (take 4 (drop base v)) x" by auto
  show ?case unfolding w1
  proof (rule permutes_if_goes [OF sort4_stable_permutes], goal_cases)
    case (2 s2 w2 y)
    then have w2: "w2 = v" and y: "sorted_copy is_less key (take 4 (drop (base + 4) v)) y" by auto
    have l: "length x = 4" "length y = 4" using sorted_copy_length [OF x] sorted_copy_length [OF y] len by auto
    have "sorts is_less key (x @ y) (bidirectional_merge is_less s2 (x @ y))"
      by (rule bidirectional_merge_sorts) (use l x y in \<open>auto simp: sorted_copy_def\<close>)
    note m = in_scratch_permutes [OF this [unfolded sorts_def], of v]
    have e: "take 8 (drop base v) = take 4 (drop base v) @ take 4 (drop (base + 4) v)" using take_drop_add [of 4 4 base v] by simp
    show ?case unfolding w2
    proof (rule permutes_weaken [OF m], goal_cases)
      case (1 r w)
      have "stably key (take 8 (drop base v)) r" if kd: "keyed is_less key"
      proof -
        have "stably key (take 8 (drop base v)) (x @ y)" unfolding e using x y kd unfolding sorted_copy_def by (blast intro: stably_append)
        then show ?thesis using 1(3) kd stably_trans by blast
      qed
      moreover have "mset r = mset (take 8 (drop base v))" unfolding e using 1(3) x y by (simp add: sorted_copy_def)
      ultimately show ?case using 1(3) by (simp add: sorted_copy_def)
    qed
  qed (use len in simp)
qed (use len in simp)

lemma extend_half_permutes:
  "sorted_copy is_less key (take (length d) (drop offset v)) d \<Longrightarrow> 0 < length d \<Longrightarrow> offset + length d + n \<le> length v \<Longrightarrow>
     permutes is_less key v (extend_half n is_less s v offset d) (\<lambda>r w. w = v \<and> sorted_copy is_less key (take (length d + n) (drop offset v)) r)"
proof (induction n arbitrary: s d)
  case 0
  then show ?case by (simp add: permutes_Goes)
next
  case (Suc n)
  define x where "x = v ! (offset + length d)"
  have g: "get_unchecked v (offset + length d) = Ret x" using Suc.prems(3) by (simp add: x_def)
  have t: "take (Suc (length d)) (drop offset v) = take (length d) (drop offset v) @ [x]"
    using Suc.prems(3) by (simp add: take_Suc_conv_app_nth x_def)
  have l: "length d < length (d @ [x])" by simp
  note it = in_scratch_permutes [OF insert_tail_permutes [OF Suc.prems(2) l, where is_less = is_less and key = key], of v]
  show ?case unfolding extend_half.simps g and_then.simps
  proof (rule permutes_if_goes [OF it], goal_cases)
    case (1 s1 w e)
    then have w: "w = v" and e: "mset e = mset (d @ [x])" "keyed is_less key \<longrightarrow> stably key (d @ [x]) e"
      "keyed is_less key \<and> sorted (map key d) \<longrightarrow> sorted (map key (take (Suc (length d)) e))" by auto
    have le: "length e = Suc (length d)" using e(1) by (metis length_append_singleton size_mset)
    have te: "take (Suc (length d)) e = e" by (simp add: le)
    have "stably key (take (length d) (drop offset v) @ [x]) (d @ [x])" if "keyed is_less key"
      using Suc.prems(1) that unfolding sorted_copy_def by (blast intro: stably_append stably_refl)
    then have "sorted_copy is_less key (take (length e) (drop offset v)) e"
      using e Suc.prems(1) unfolding le t te sorted_copy_def by (auto intro: stably_trans)
    then have "permutes is_less key v (extend_half n is_less s1 v offset e) (\<lambda>r w. w = v \<and> sorted_copy is_less key (take (length e + n) (drop offset v)) r)"
      using Suc.prems(3) le by (intro Suc.IH) auto
    then show ?case unfolding w by (simp add: le)
  qed
qed


lemma sorted_copy_take:
  assumes "sorted_copy is_less key (take n (drop base v)) r" "base + n \<le> length v"
  shows "length r = n \<and> sorted_copy is_less key (take (length r) (drop base v)) r"
  using sorted_copy_length [OF assms(1)] assms by auto

lemma presort_permutes:
  assumes "2 \<le> length v" "base \<le> length v div 2"
  shows "permutes is_less key v (presort is_less small s v base) (\<lambda>r w. w = v \<and> 0 < length r \<and> length r \<le> length v div 2
    \<and> sorted_copy is_less key (take (length r) (drop base v)) r)"
proof -
  consider "small" "16 \<le> length v" | "\<not> (small \<and> 16 \<le> length v)" "8 \<le> length v" | "\<not> (small \<and> 16 \<le> length v)" "length v < 8" by linarith
  then show ?thesis
  proof cases
    case 1
    then have b: "base + 8 \<le> length v" using assms by linarith
    have "permutes is_less key v (sort8_stable is_less s v base) (\<lambda>r w. w = v \<and> 0 < length r \<and> length r \<le> length v div 2
      \<and> sorted_copy is_less key (take (length r) (drop base v)) r)"
      by (rule permutes_weaken [OF sort8_stable_permutes [OF b]]) (use 1 in \<open>auto dest!: sorted_copy_take [OF _ b]\<close>)
    then show ?thesis using 1 by (simp add: presort_def)
  next
    case 2
    then have b: "base + 4 \<le> length v" using assms by linarith
    have "permutes is_less key v (sort4_stable is_less s v base) (\<lambda>r w. w = v \<and> 0 < length r \<and> length r \<le> length v div 2
      \<and> sorted_copy is_less key (take (length r) (drop base v)) r)"
      by (rule permutes_weaken [OF sort4_stable_permutes [OF b]]) (use 2 in \<open>auto dest!: sorted_copy_take [OF _ b]\<close>)
    then show ?thesis unfolding presort_def if_not_P [OF 2(1)] if_P [OF 2(2)] .
  next
    case 3
    have b: "base < length v" using assms by linarith
    then have "take 1 (drop base v) = [v ! base]" by (simp add: take_Suc_conv_app_nth)
    then show ?thesis using 3 b assms by (auto simp: presort_def sorted_copy_def intro!: permutes_Goes)
  qed
qed

lemma small_sort_general_with_scratch_sorts:
  assumes sl: "length v + 16 \<le> sl"
  shows "sorts is_less key v (small_sort_general_with_scratch is_less small sl s v)"
proof (cases "length v < 2")
  case True
  then have "sorted (map key v)" by (cases v) auto
  then show ?thesis using True by (simp add: small_sort_general_with_scratch_def sorts_def permutes_Goes)
next
  case False
  define h where "h = length v div 2"
  have len: "2 \<le> length v" "h \<le> length v" using False by (auto simp: h_def)
  have "permutes is_less key v (if_goes (presort is_less small s v 0) (\<lambda>s v a. if_goes (presort is_less small s v h) (\<lambda>s v b.
             if_goes (extend_half (h - length a) is_less s v 0 a) (\<lambda>s v a.
               if_goes (extend_half (length w - h - length b) is_less s v h b) (\<lambda>s v b. bidirectional_merge is_less s (a @ b))))))
      (\<lambda>_ w. keyed is_less key \<longrightarrow> sorted (map key w))" if "length w = length v" for w :: "'a list"
  proof (rule permutes_if_goes [OF presort_permutes [OF len(1)]], goal_cases)
    case (2 s1 w1 a0)
    then have w1: "w1 = v" and a0: "0 < length a0" "length a0 \<le> h" "sorted_copy is_less key (take (length a0) (drop 0 v)) a0" by (auto simp: h_def)
    show ?case unfolding w1
    proof (rule permutes_if_goes [OF presort_permutes [OF len(1)]], goal_cases)
      case (2 s2 w2 b0)
      then have w2: "w2 = v" and b0: "0 < length b0" "length b0 \<le> h" "sorted_copy is_less key (take (length b0) (drop h v)) b0" by (auto simp: h_def)
      show ?case unfolding w2
      proof (rule permutes_if_goes [OF extend_half_permutes [OF a0(3,1)]], goal_cases)
        case (2 s3 w3 a)
        then have w3: "w3 = v" and a: "sorted_copy is_less key (take h v) a" using a0(2) by auto
        show ?case unfolding w3
        proof (rule permutes_if_goes [OF extend_half_permutes [OF b0(3,1)]], goal_cases)
          case (2 s4 w4 b)
          have "h \<le> length v - h" by (simp add: h_def)
          then have w4: "w4 = v" and b: "sorted_copy is_less key (drop h v) b" using 2(3) b0(2) that by auto
          have "length a = h" using sorted_copy_length [OF a] len(2) by simp
          moreover have "length b = length v - h" using sorted_copy_length [OF b] by simp
          ultimately have ab: "length (a @ b) div 2 = h" "length a = h" "2 \<le> length (a @ b)" using len by (auto simp: h_def)
          have "sorts is_less key (a @ b) (bidirectional_merge is_less s4 (a @ b))"
            by (rule bidirectional_merge_sorts [OF ab(3)]) (use a b ab(2) in \<open>simp add: ab(1) sorted_copy_def del: length_append\<close>)
          moreover have "mset (a @ b) = mset (take h v @ drop h v)" using a b unfolding sorted_copy_def mset_append by simp
          moreover have "stably key (take h v @ drop h v) (a @ b)" if "keyed is_less key"
            using a b that unfolding sorted_copy_def by (blast intro: stably_append)
          ultimately show ?case unfolding w4 sorts_def append_take_drop_id by (rule permutes_from)
        qed (use b0 len that in \<open>simp add: h_def\<close>)
      qed (use a0 len in simp)
    qed (simp add: h_def)
  qed simp
  from this [OF refl] show ?thesis using False sl unfolding sorts_def small_sort_general_with_scratch_def h_def Let_def by simp
qed

lemma small_sort_sorts:
  assumes "length v \<le> small_sort_threshold freeze" "SMALL_SORT_GENERAL_SCRATCH_LEN \<le> sl"
  shows "sorts is_less key v (small_sort is_less small freeze sl s v)"
proof -
  have "sorted (map key v)" if "length v < 2" using that by (cases v) auto
  then show ?thesis
    using assms small_sort_general_with_scratch_sorts [of v sl is_less key small s] insertion_sort_sorts [of v is_less key s]
    by (auto simp: small_sort_def small_sort_threshold_def SMALL_SORT_GENERAL_SCRATCH_LEN_def sorts_def permutes_Goes)
qed

end
