(* ===== verification/Sort_Merge.thy ===== *)
theory Sort_Merge
  imports Sort_Insertion
begin

text \<open>
  The merge of two neighbouring runs, \<open>library/core/src/slice/sort/stable/merge.rs\<close>. The shorter run is copied
  into the scratch space, of which only the length \<open>sl\<close> matters: what it holds from before is never read.
  \<open>MergeState\<close> is a guard that copies what is left of the saved run back into the gap, also when the comparison
  panics.
\<close>

record merge_state =
  ms_start :: nat
  ms_end :: nat
  ms_dst :: nat

definition merge_state_drop :: "'a list \<Rightarrow> 'a list \<Rightarrow> merge_state \<Rightarrow> 'a list outcome" where
  "merge_state_drop v buf m =
     (if ms_start m \<le> ms_end m \<and> ms_end m \<le> length buf \<and> ms_dst m + (ms_end m - ms_start m) \<le> length v
      then Ret (take (ms_dst m) v @ take (ms_end m - ms_start m) (drop (ms_start m) buf) @ drop (ms_dst m + (ms_end m - ms_start m)) v)
      else UB)"

text \<open>The loops return the state of the guard, and whether they unwind.\<close>

function merge_up :: "('s, 'a) is_less \<Rightarrow> 's \<Rightarrow> 'a list \<Rightarrow> 'a list \<Rightarrow> merge_state \<Rightarrow> nat
    \<Rightarrow> ('s \<times> 'a list \<times> merge_state \<times> bool) outcome" where
  "merge_up is_less s v buf m right =
     (if ms_start m \<noteq> ms_end m \<and> right \<noteq> length v
      then and_then (get_unchecked v right) (\<lambda>r.
        and_then (get_unchecked buf (ms_start m)) (\<lambda>l. case is_less s r l of
            (s, None) \<Rightarrow> Ret (s, v, m, True)
          | (s, Some lt) \<Rightarrow>
              and_then (put v (ms_dst m) (if lt then r else l)) (\<lambda>v.
                merge_up is_less s v buf
                  (m\<lparr>ms_start := ms_start m + (if lt then 0 else 1), ms_dst := ms_dst m + 1\<rparr>)
                  (right + (if lt then 1 else 0)))))
      else Ret (s, v, m, False))"
  by pat_completeness auto
termination
  by (relation "measure (\<lambda>(is_less, s, v, buf, m, right). (length buf - ms_start m) + (length v - right))")
    (auto simp: get_unchecked_def put_def split: if_splits)

function merge_down :: "('s, 'a) is_less \<Rightarrow> 's \<Rightarrow> 'a list \<Rightarrow> 'a list \<Rightarrow> merge_state \<Rightarrow> nat
    \<Rightarrow> ('s \<times> 'a list \<times> merge_state \<times> bool) outcome" where
  "merge_down is_less s v buf m out =
     (if ms_dst m = 0 \<or> ms_end m = 0 \<or> out = 0 then UB
      else and_then (get_unchecked buf (ms_end m - 1)) (\<lambda>r.
        and_then (get_unchecked v (ms_dst m - 1)) (\<lambda>l. case is_less s r l of
            (s, None) \<Rightarrow> Ret (s, v, m, True)
          | (s, Some lt) \<Rightarrow>
              and_then (put v (out - 1) (if lt then l else r)) (\<lambda>v.
                let m = m\<lparr>ms_dst := ms_dst m - 1 + (if lt then 0 else 1), ms_end := ms_end m - 1 + (if lt then 1 else 0)\<rparr>
                in if ms_dst m = 0 \<or> ms_end m = 0 then Ret (s, v, m, False)
                   else merge_down is_less s v buf m (out - 1)))))"
  by pat_completeness auto
termination
  by (relation "measure (\<lambda>(is_less, s, v, buf, m, out). ms_dst m + ms_end m)") (auto split: if_splits)

definition merge :: "('s, 'a) is_less \<Rightarrow> nat \<Rightarrow> 's \<Rightarrow> 'a list \<Rightarrow> nat \<Rightarrow> ('s, 'a, unit) sort_step" where
  "merge is_less sl s v mid =
     (if mid = 0 \<or> mid \<ge> length v \<or> sl < min mid (length v - mid) then Ret (s, v, Goes ())
      else
        let left_is_shorter = mid \<le> length v - mid;
            buf = (if left_is_shorter then take mid v else drop mid v);
            m = \<lparr>ms_start = 0, ms_end = length buf, ms_dst = (if left_is_shorter then 0 else mid)\<rparr>
        in and_then (if left_is_shorter then merge_up is_less s v buf m mid else merge_down is_less s v buf m (length v))
          (\<lambda>(s, v, m, u). and_then (merge_state_drop v buf m) (\<lambda>v. Ret (s, v, if u then Unwinds else Goes ()))))"

declare merge_up.simps [simp del] merge_down.simps [simp del]

section \<open>Merging forwards\<close>

text \<open>What the loop and the guard leave together: the merged rest \<open>w\<close>, put behind or before the part that
  is done.\<close>

definition merged :: "('s, 'a) is_less \<Rightarrow> ('a \<Rightarrow> 'k :: linorder) \<Rightarrow> 'a list \<Rightarrow> ('s \<times> 'a list \<times> merge_state \<times> bool) outcome
    \<Rightarrow> ('a list \<Rightarrow> 'a list) \<Rightarrow> 'a list \<Rightarrow> 'a list \<Rightarrow> bool" where
  "merged is_less key buf m place B R \<longleftrightarrow> (\<exists>s v st u w. m = Ret (s, v, st, u) \<and> merge_state_drop v buf st = Ret (place w)
     \<and> mset w = mset (B @ R) \<and> (keyed is_less key \<longrightarrow> \<not> u)
     \<and> (keyed is_less key \<and> sorted (map key B) \<and> sorted (map key R) \<longrightarrow> stably key (B @ R) w \<and> sorted (map key w)))"

lemma mergedI:
  "m = Ret (s, v, st, u) \<Longrightarrow> merge_state_drop v buf st = Ret (place w) \<Longrightarrow> mset w = mset (B @ R) \<Longrightarrow> (keyed is_less key \<Longrightarrow> \<not> u)
    \<Longrightarrow> (keyed is_less key \<Longrightarrow> sorted (map key B) \<Longrightarrow> sorted (map key R) \<Longrightarrow> stably key (B @ R) w \<and> sorted (map key w))
    \<Longrightarrow> merged is_less key buf m place B R"
  unfolding merged_def by blast

text \<open>One element in front of the merged rest.\<close>

lemma merged_first_right:
  assumes "merged is_less key buf m ((@) (D @ [r])) (b # B) R" "keyed is_less key \<Longrightarrow> key r < key b"
  shows "merged is_less key buf m ((@) D) (b # B) (r # R)"
proof -
  obtain s v st u w where w: "m = Ret (s, v, st, u)" "merge_state_drop v buf st = Ret ((D @ [r]) @ w)"
    "mset w = mset ((b # B) @ R)" "keyed is_less key \<longrightarrow> \<not> u"
    "keyed is_less key \<and> sorted (map key (b # B)) \<and> sorted (map key R) \<longrightarrow> stably key ((b # B) @ R) w \<and> sorted (map key w)"
    using assms(1) unfolding merged_def by blast
  show ?thesis
  proof (rule mergedI [of _ s v st u _ _ "r # w"])
    assume k: "keyed is_less key" and o: "sorted (map key (b # B))" "sorted (map key (r # R))"
    have lt: "key r < key x" if "x \<in> set (b # B)" for x using assms(2) [OF k] o(1) that by auto
    have "stably key ((b # B) @ [r]) ([r] @ b # B)" by (rule stably_exchange) (use lt in fastforce)
    from stably_append [OF this stably_refl [of key R]] have "stably key ((b # B) @ r # R) (r # (b # B) @ R)" by simp
    moreover have "stably key (r # (b # B) @ R) (r # w)" using w(5) k o by (intro stably_Cons) simp
    ultimately have "stably key ((b # B) @ r # R) (r # w)" by (rule stably_trans)
    moreover have "set w = set ((b # B) @ R)" using mset_eq_setD [OF w(3)] .
    ultimately show "stably key ((b # B) @ r # R) (r # w) \<and> sorted (map key (r # w))"
      using w(5) k o lt by (auto simp: less_imp_le)
  qed (use w in simp_all)
qed

lemma merged_first_left:
  assumes "merged is_less key buf m ((@) (D @ [b])) B (r # R)" "keyed is_less key \<Longrightarrow> key b \<le> key r"
  shows "merged is_less key buf m ((@) D) (b # B) (r # R)"
proof -
  obtain s v st u w where w: "m = Ret (s, v, st, u)" "merge_state_drop v buf st = Ret ((D @ [b]) @ w)"
    "mset w = mset (B @ r # R)" "keyed is_less key \<longrightarrow> \<not> u"
    "keyed is_less key \<and> sorted (map key B) \<and> sorted (map key (r # R)) \<longrightarrow> stably key (B @ r # R) w \<and> sorted (map key w)"
    using assms(1) unfolding merged_def by blast
  show ?thesis
  proof (rule mergedI [of _ s v st u _ _ "b # w"])
    assume k: "keyed is_less key" and o: "sorted (map key (b # B))" "sorted (map key (r # R))"
    have "set w = set (B @ r # R)" using mset_eq_setD [OF w(3)] .
    then show "stably key ((b # B) @ r # R) (b # w) \<and> sorted (map key (b # w))"
      using w(5) k o assms(2) [OF k] stably_Cons [of key "B @ r # R" w b] by fastforce
  qed (use w in simp_all)
qed

lemma merge_up_run:
  "length G = length B \<Longrightarrow> merged is_less key (X @ B)
     (merge_up is_less s (D @ G @ R) (X @ B) \<lparr>ms_start = length X, ms_end = length X + length B, ms_dst = length D\<rparr> (length D + length G))
     ((@) D) B R"
proof (induction "length B + length R" arbitrary: s B R D G X rule: less_induct)
  case less
  show ?case
  proof (cases "B = [] \<or> R = []")
    case True
    then show ?thesis using less.prems
      by (intro mergedI [of _ s "D @ G @ R" "\<lparr>ms_start = length X, ms_end = length X + length B, ms_dst = length D\<rparr>" False _ _ "B @ R"])
        (auto simp: merge_up.simps merge_state_drop_def)
  next
    case False
    then obtain b B' r R' where c: "B = b # B'" "R = r # R'" by (metis neq_Nil_conv)
    then obtain g G' where G: "G = g # G'" "length G' = length B'" using less.prems by (cases G) auto
    obtain s1 a where q: "is_less s r b = (s1, a)" by force
    have key: "a = Some (key r < key b)" if "keyed is_less key" using keyed_answer [OF that q] .
    let ?m = "\<lparr>ms_start = length X, ms_end = length X + length B, ms_dst = length D\<rparr>"
    have step: "merge_up is_less s (D @ G @ R) (X @ B) ?m (length D + length G) = (case a of
        None \<Rightarrow> Ret (s1, D @ G @ R, ?m, True)
      | Some True \<Rightarrow> merge_up is_less s1 ((D @ [r]) @ (G' @ [r]) @ R') (X @ B)
          \<lparr>ms_start = length X, ms_end = length X + length B, ms_dst = length (D @ [r])\<rparr> (length (D @ [r]) + length (G' @ [r]))
      | Some False \<Rightarrow> merge_up is_less s1 ((D @ [b]) @ G' @ r # R') ((X @ [b]) @ B')
          \<lparr>ms_start = length (X @ [b]), ms_end = length (X @ [b]) + length B', ms_dst = length (D @ [b])\<rparr> (length (D @ [b]) + length G'))"
      using q c G by (subst merge_up.simps) (simp add: nth_append list_update_append split: option.split)
    consider "a = None" | "a = Some True" | "a = Some False" by (cases a) auto
    then show ?thesis
    proof cases
      case 1
      then show ?thesis using key step less.prems
        by (intro mergedI [of _ s1 "D @ G @ R" ?m True _ _ "B @ R"]) (auto simp: merge_state_drop_def)
    next
      case 2
      have "merged is_less key (X @ B) (merge_up is_less s (D @ G @ R) (X @ B) ?m (length D + length G)) ((@) (D @ [r])) B R'"
        using less.hyps [of B R' "G' @ [r]" X s1 "D @ [r]"] c G step 2 by simp
      then show ?thesis using key 2 unfolding c by (intro merged_first_right) auto
    next
      case 3
      have "merged is_less key (X @ B) (merge_up is_less s (D @ G @ R) (X @ B) ?m (length D + length G)) ((@) (D @ [b])) B' R"
        using less.hyps [of B' R G' "X @ [b]" s1 "D @ [b]"] c G step 3 by simp
      then show ?thesis using key 3 unfolding c by (intro merged_first_left) auto
    qed
  qed
qed


section \<open>Merging backwards\<close>

lemma merged_last_left:
  assumes "merged is_less key buf m (\<lambda>w. w @ l # D) L B" "B \<noteq> []" "keyed is_less key \<Longrightarrow> key (last B) < key l"
  shows "merged is_less key buf m (\<lambda>w. w @ D) (L @ [l]) B"
proof -
  obtain s v st u w where w: "m = Ret (s, v, st, u)" "merge_state_drop v buf st = Ret (w @ l # D)"
    "mset w = mset (L @ B)" "keyed is_less key \<longrightarrow> \<not> u"
    "keyed is_less key \<and> sorted (map key L) \<and> sorted (map key B) \<longrightarrow> stably key (L @ B) w \<and> sorted (map key w)"
    using assms(1) unfolding merged_def by blast
  show ?thesis
  proof (rule mergedI [of _ s v st u _ _ "w @ [l]"])
    assume k: "keyed is_less key" and o: "sorted (map key (L @ [l]))" "sorted (map key B)"
    obtain B' r where B: "B = B' @ [r]" using assms(2) by (cases B rule: rev_cases) auto
    have lt: "key x < key l" if x: "x \<in> set B" for x
    proof -
      have "key x \<le> key r" using o(2) x B by (auto simp: sorted_append)
      then show ?thesis using assms(3) [OF k] B by auto
    qed
    have "stably key ([l] @ B) (B @ [l])" by (rule stably_exchange) (use lt in fastforce)
    from stably_append [OF stably_refl [of key L] this] have "stably key ((L @ [l]) @ B) ((L @ B) @ [l])" by simp
    moreover have "stably key ((L @ B) @ [l]) (w @ [l])" using w(5) k o by (intro stably_append stably_refl) (simp add: sorted_append)
    ultimately have "stably key ((L @ [l]) @ B) (w @ [l])" by (rule stably_trans)
    moreover have "set w = set (L @ B)" using mset_eq_setD [OF w(3)] .
    ultimately show "stably key ((L @ [l]) @ B) (w @ [l]) \<and> sorted (map key (w @ [l]))"
      using w(5) k o lt by (auto simp: less_imp_le sorted_append)
  qed (use w in simp_all)
qed

lemma merged_last_right:
  assumes "merged is_less key buf m (\<lambda>w. w @ r # D) L B" "L \<noteq> []" "keyed is_less key \<Longrightarrow> key (last L) \<le> key r"
  shows "merged is_less key buf m (\<lambda>w. w @ D) L (B @ [r])"
proof -
  obtain s v st u w where w: "m = Ret (s, v, st, u)" "merge_state_drop v buf st = Ret (w @ r # D)"
    "mset w = mset (L @ B)" "keyed is_less key \<longrightarrow> \<not> u"
    "keyed is_less key \<and> sorted (map key L) \<and> sorted (map key B) \<longrightarrow> stably key (L @ B) w \<and> sorted (map key w)"
    using assms(1) unfolding merged_def by blast
  show ?thesis
  proof (rule mergedI [of _ s v st u _ _ "w @ [r]"])
    assume k: "keyed is_less key" and o: "sorted (map key L)" "sorted (map key (B @ [r]))"
    obtain L' l where L: "L = L' @ [l]" using assms(2) by (cases L rule: rev_cases) auto
    have le: "key x \<le> key r" if x: "x \<in> set (L @ B)" for x
    proof (cases "x \<in> set L")
      case True
      then have "key x \<le> key l" using o(1) L by (auto simp: sorted_append)
      then show ?thesis using assms(3) [OF k] L by auto
    qed (use x o(2) in \<open>auto simp: sorted_append\<close>)
    have "stably key ((L @ B) @ [r]) (w @ [r])" using w(5) k o by (intro stably_append stably_refl) (simp add: sorted_append)
    moreover have "set w = set (L @ B)" using mset_eq_setD [OF w(3)] .
    ultimately show "stably key (L @ B @ [r]) (w @ [r]) \<and> sorted (map key (w @ [r]))"
      using w(5) k o le by (auto simp: sorted_append)
  qed (use w in simp_all)
qed

lemma merge_down_run:
  "length G = length B \<Longrightarrow> L \<noteq> [] \<Longrightarrow> B \<noteq> [] \<Longrightarrow> merged is_less key (B @ Y)
     (merge_down is_less s (L @ G @ D) (B @ Y) \<lparr>ms_start = 0, ms_end = length B, ms_dst = length L\<rparr> (length L + length G))
     (\<lambda>w. w @ D) L B"
proof (induction "length L + length B" arbitrary: s L B G D Y rule: less_induct)
  case less
  obtain L' l where L: "L = L' @ [l]" using less.prems by (cases L rule: rev_cases) auto
  obtain B' r where B: "B = B' @ [r]" using less.prems by (cases B rule: rev_cases) auto
  obtain G' g where G: "G = G' @ [g]" "length G' = length B'" using less.prems B by (cases G rule: rev_cases) auto
  obtain s1 a where q: "is_less s r l = (s1, a)" by force
  have key: "a = Some (key r < key l)" if "keyed is_less key" using keyed_answer [OF that q] .
  let ?m = "\<lparr>ms_start = 0, ms_end = length B, ms_dst = length L\<rparr>"
  let ?l = "\<lparr>ms_start = 0, ms_end = length B, ms_dst = length L'\<rparr>"
  let ?r = "\<lparr>ms_start = 0, ms_end = length B', ms_dst = length L\<rparr>"
  let ?run = "merge_down is_less s (L @ G @ D) (B @ Y) ?m (length L + length G)"
  have step: "?run = (case a of
      None \<Rightarrow> Ret (s1, L @ G @ D, ?m, True)
    | Some True \<Rightarrow> if L' = [] then Ret (s1, L' @ (l # G') @ l # D, ?l, False)
        else merge_down is_less s1 (L' @ (l # G') @ l # D) (B @ Y) ?l (length L' + length (l # G'))
    | Some False \<Rightarrow> if B' = [] then Ret (s1, L @ G' @ r # D, ?r, False)
        else merge_down is_less s1 (L @ G' @ r # D) (B' @ r # Y) ?r (length L + length G'))"
    using q L B G by (subst merge_down.simps) (simp add: nth_append list_update_append split: option.split)
  consider "a = None" | "a = Some True" | "a = Some False" by (cases a) auto
  then show ?case
  proof cases
    case 1
    then show ?thesis using key step G B
      by (intro mergedI [of _ s1 "L @ G @ D" ?m True _ _ "L @ B"]) (auto simp: merge_state_drop_def)
  next
    case 2
    have "merged is_less key (B @ Y) ?run (\<lambda>w. w @ l # D) L' B"
    proof (cases "L' = []")
      case True
      then show ?thesis using step 2 G B
        by (intro mergedI [of _ s1 "L' @ (l # G') @ l # D" ?l False _ _ B]) (simp_all add: merge_state_drop_def)
    next
      case False
      then show ?thesis using less.hyps [of L' B "l # G'" Y s1 "l # D"] less.prems step 2 L G B by simp
    qed
    then have "merged is_less key (B @ Y) ?run (\<lambda>w. w @ D) (L' @ [l]) B"
      by (rule merged_last_left) (use key 2 B in auto)
    then show ?thesis using L by simp
  next
    case 3
    have "merged is_less key (B @ Y) ?run (\<lambda>w. w @ r # D) L B'"
    proof (cases "B' = []")
      case True
      then show ?thesis using step 3 G
        by (intro mergedI [of _ s1 "L @ G' @ r # D" ?r False _ _ L]) (simp_all add: merge_state_drop_def)
    next
      case False
      then show ?thesis using less.hyps [of L B' G' "r # Y" s1 "r # D"] less.prems step 3 G B by simp
    qed
    then have "merged is_less key (B @ Y) ?run (\<lambda>w. w @ D) L (B' @ [r])"
      by (rule merged_last_right) (use key 3 L in auto)
    then show ?thesis using B by simp
  qed
qed

section \<open>The merge\<close>

lemma merge_sorts:
  fixes v :: "'a list"
  assumes "min mid (length v - mid) \<le> sl" "keyed is_less key \<Longrightarrow> sorted (map key (take mid v)) \<and> sorted (map key (drop mid v))"
  shows "sorts is_less key v (merge is_less sl s v mid)"
proof (cases "mid = 0 \<or> mid \<ge> length v")
  case True
  then show ?thesis using assms(2) unfolding sorts_def by (auto simp: merge_def intro!: permutes_Goes)
next
  case False
  obtain L R where v: "v = L @ R" "mid = length L" by (metis False append_take_drop_id length_take min.absorb4 not_le)
  have ne: "L \<noteq> []" "R \<noteq> []" using False v by auto
  let ?left = "mid \<le> length v - mid"
  define buf where "buf = (if ?left then L else R)"
  let ?m = "\<lparr>ms_start = 0, ms_end = length buf, ms_dst = (if ?left then 0 else mid)\<rparr>"
  let ?run = "if ?left then merge_up is_less s v buf ?m mid else merge_down is_less s v buf ?m (length v)"
  have "merged is_less key buf ?run (\<lambda>w. w) L R"
  proof (cases ?left)
    case True
    have "merged is_less key L (merge_up is_less s v L \<lparr>ms_start = 0, ms_end = length L, ms_dst = 0\<rparr> (length L)) ((@) []) L R"
      using merge_up_run [of L L is_less key "[]" s "[]" R] v by simp
    moreover have "(@) [] = (\<lambda>w. w :: 'a list)" by auto
    ultimately show ?thesis using True v by (simp add: buf_def)
  next
    case False
    have "merged is_less key (R @ []) (merge_down is_less s (L @ R @ []) (R @ [])
        \<lparr>ms_start = 0, ms_end = length R, ms_dst = length L\<rparr> (length L + length R)) (\<lambda>w. w @ []) L R"
      by (rule merge_down_run) (use ne in simp_all)
    then show ?thesis using False v by (simp add: buf_def)
  qed
  then obtain s' v' st u w where r: "?run = Ret (s', v', st, u)" "merge_state_drop v' buf st = Ret w" "mset w = mset (L @ R)"
    "keyed is_less key \<longrightarrow> \<not> u" "keyed is_less key \<and> sorted (map key L) \<and> sorted (map key R) \<longrightarrow> stably key (L @ R) w \<and> sorted (map key w)"
    unfolding merged_def by blast
  have "merge is_less sl s v mid = and_then ?run (\<lambda>(s, v, m, u). and_then (merge_state_drop v buf m) (\<lambda>v. Ret (s, v, if u then Unwinds else Goes ())))"
    using False assms(1) by (simp add: merge_def Let_def buf_def v del: min_less_iff_conj)
  then have "merge is_less sl s v mid = Ret (s', w, if u then Unwinds else Goes ())" unfolding r(1) by (simp add: r(2))
  then show ?thesis unfolding sorts_def permutes_def using r(3-5) assms(2) v by auto
qed

end
