(* ===== verification/Sort_Drift.thy ===== *)
theory Sort_Drift
  imports Sort_Small Sort_Merge
begin

unbundle bit_operations_syntax

text \<open>
  The runs and the merge policy of driftsort: \<open>find_existing_run\<close> of
  \<open>library/core/src/slice/sort/shared/mod.rs\<close>, \<open>library/core/src/slice/sort/stable/drift.rs\<close>, and
  the \<open>reverse\<close> of \<open>library/core/src/slice/mod.rs\<close>. The main loop calls the quicksort, which calls
  the main loop when its pivots are bad; here the quicksort is the argument \<open>qs\<close>, which takes the limit for bad
  pivots, and the locale \<open>run_sorter\<close> states what the main loop needs of it.
\<close>

section \<open>Existing runs\<close>

text \<open>The loops of \<open>find_existing_run\<close>, with the number of elements that are left.\<close>

fun run_while :: "bool \<Rightarrow> nat \<Rightarrow> ('s, 'a) is_less \<Rightarrow> 's \<Rightarrow> 'a list \<Rightarrow> nat \<Rightarrow> ('s, 'a, nat) sort_step" where
  "run_while b 0 is_less s v run_len = Ret (s, v, Goes run_len)"
| "run_while b (Suc n) is_less s v run_len =
     if_goes (compare_at is_less s v run_len (run_len - 1)) (\<lambda>s v r.
       if r = b then run_while b n is_less s v (run_len + 1) else Ret (s, v, Goes run_len))"

definition find_existing_run :: "('s, 'a) is_less \<Rightarrow> 's \<Rightarrow> 'a list \<Rightarrow> ('s, 'a, nat \<times> bool) sort_step" where
  "find_existing_run is_less s v =
     (if length v < 2 then Ret (s, v, Goes (length v, False))
      else if_goes (compare_at is_less s v 1 0) (\<lambda>s v strictly_descending.
        if_goes (run_while strictly_descending (length v - 2) is_less s v 2) (\<lambda>s v run_len.
          Ret (s, v, Goes (run_len, strictly_descending)))))"

text \<open>The halves are swapped element by element, from both ends.\<close>

fun revswap :: "nat \<Rightarrow> 'a list \<Rightarrow> nat \<Rightarrow> 'a list outcome" where
  "revswap 0 v i = Ret v"
| "revswap (Suc n) v i =
     and_then (index v i) (\<lambda>x. and_then (index v (length v - 1 - i)) (\<lambda>y.
       and_then (put v i y) (\<lambda>v. and_then (put v (length v - 1 - i) x) (\<lambda>v. revswap n v (i + 1)))))"

definition reverse :: "'a list \<Rightarrow> 'a list outcome" where
  "reverse v = revswap (length v div 2) v 0"

section \<open>Runs and the merge tree\<close>

type_synonym driftsort_run = nat

definition new_sorted :: "nat \<Rightarrow> driftsort_run" where
  "new_sorted n = (n * 2 mod usize_bound) OR 1"

definition new_unsorted :: "nat \<Rightarrow> driftsort_run" where
  "new_unsorted n = n * 2 mod usize_bound"

definition run_sorted :: "driftsort_run \<Rightarrow> bool" where
  "run_sorted r \<longleftrightarrow> r AND 1 = 1"

definition run_len :: "driftsort_run \<Rightarrow> nat" where
  "run_len r = r div 2"

definition merge_tree_scale_factor :: "nat \<Rightarrow> nat" where
  "merge_tree_scale_factor n = (2 ^ 62 + n - 1) mod usize_bound div n"

definition merge_tree_depth :: "nat \<Rightarrow> nat \<Rightarrow> nat \<Rightarrow> nat \<Rightarrow> nat" where
  "merge_tree_depth left mid right scale_factor =
     (let x = (left + mid) mod usize_bound;
          y = (mid + right) mod usize_bound
      in leading_zeros ((scale_factor * x mod usize_bound) XOR (scale_factor * y mod usize_bound)))"

definition sqrt_approx :: "nat \<Rightarrow> nat" where
  "sqrt_approx n = (let shift = (1 + ilog2 (n OR 1)) div 2 in (2 ^ shift + n div 2 ^ shift) div 2)"

section \<open>The main loop\<close>

type_synonym ('s, 'a) quicksort = "nat \<Rightarrow> 's \<Rightarrow> 'a list \<Rightarrow> ('s, 'a, unit) sort_step"

definition stable_quicksort :: "('s, 'a) quicksort \<Rightarrow> 's \<Rightarrow> 'a list \<Rightarrow> ('s, 'a, unit) sort_step" where
  "stable_quicksort qs s v = qs (2 * ilog2 (length v OR 1)) s v"

definition logical_merge :: "('s, 'a) quicksort \<Rightarrow> ('s, 'a) is_less \<Rightarrow> nat \<Rightarrow> driftsort_run \<Rightarrow> driftsort_run \<Rightarrow> 's \<Rightarrow> 'a list
    \<Rightarrow> ('s, 'a, driftsort_run) sort_step" where
  "logical_merge qs is_less sl left right s v =
     (let len = length v
      in if \<not> len \<le> sl \<or> run_sorted left \<or> run_sorted right
         then if_goes (if run_sorted left then Ret (s, v, Goes ()) else on_slice 0 (run_len left) v (stable_quicksort qs s)) (\<lambda>s v _.
           if_goes (if run_sorted right then Ret (s, v, Goes ()) else on_slice (run_len left) len v (stable_quicksort qs s)) (\<lambda>s v _.
             if_goes (merge is_less sl s v (run_len left)) (\<lambda>s v _. Ret (s, v, Goes (new_sorted len)))))
         else Ret (s, v, Goes (new_unsorted len)))"

definition create_run :: "('s, 'a) quicksort \<Rightarrow> ('s, 'a) is_less \<Rightarrow> bool \<Rightarrow> nat \<Rightarrow> bool \<Rightarrow> 's \<Rightarrow> 'a list \<Rightarrow> ('s, 'a, driftsort_run) sort_step" where
  "create_run qs is_less freeze min_good_run_len eager_sort s v =
     (let len = length v
      in if_goes (if min_good_run_len \<le> len
           then if_goes (find_existing_run is_less s v) (\<lambda>s v (n, was_reversed).
             if len < n then UB
             else if min_good_run_len \<le> n
             then if was_reversed
               then and_then (reverse (take n v)) (\<lambda>w. Ret (s, w @ drop n v, Goes (Some (new_sorted n))))
               else Ret (s, v, Goes (Some (new_sorted n)))
             else Ret (s, v, Goes None))
           else Ret (s, v, Goes None)) (\<lambda>s v found. case found of
         Some r \<Rightarrow> Ret (s, v, Goes r)
       | None \<Rightarrow>
           if eager_sort
           then let eager_run_len = min (small_sort_threshold freeze) len
             in if_goes (on_slice 0 eager_run_len v (qs 0 s)) (\<lambda>s v _. Ret (s, v, Goes (new_sorted eager_run_len)))
           else Ret (s, v, Goes (new_unsorted (min min_good_run_len len)))))"

text \<open>The stack of runs with the desired depths, the top first. The loop merges the top run into
  \<open>prev_run\<close>; the run at the bottom stays.\<close>

fun collapse :: "('s, 'a) quicksort \<Rightarrow> ('s, 'a) is_less \<Rightarrow> nat \<Rightarrow> nat \<Rightarrow> nat \<Rightarrow> (driftsort_run \<times> nat) list \<Rightarrow> driftsort_run \<Rightarrow> 's \<Rightarrow> 'a list
    \<Rightarrow> ('s, 'a, (driftsort_run \<times> nat) list \<times> driftsort_run) sort_step" where
  "collapse qs is_less sl desired_depth scan_idx ((left, d) # x # stack) prev_run s v =
     (if desired_depth \<le> d
      then let merged_len = run_len left + run_len prev_run
        in if scan_idx < merged_len \<or> length v < scan_idx then UB
           else if_goes (on_slice (scan_idx - merged_len) scan_idx v (logical_merge qs is_less sl left prev_run s)) (\<lambda>s v prev_run.
             collapse qs is_less sl desired_depth scan_idx (x # stack) prev_run s v)
      else Ret (s, v, Goes ((left, d) # x # stack, prev_run)))"
| "collapse qs is_less sl desired_depth scan_idx stack prev_run s v = Ret (s, v, Goes (stack, prev_run))"

text \<open>The main loop returns the last \<open>prev_run\<close>. The arrays of the stack have 66 cells. Every turn but the
  last advances \<open>scan_idx\<close>, so that one more turn than there are elements is enough.\<close>

fun drift_loop :: "nat \<Rightarrow> ('s, 'a) quicksort \<Rightarrow> ('s, 'a) is_less \<Rightarrow> bool \<Rightarrow> nat \<Rightarrow> nat \<Rightarrow> bool \<Rightarrow> nat \<Rightarrow> nat
    \<Rightarrow> (driftsort_run \<times> nat) list \<Rightarrow> driftsort_run \<Rightarrow> 's \<Rightarrow> 'a list \<Rightarrow> ('s, 'a, driftsort_run) sort_step" where
  "drift_loop 0 qs is_less freeze sl min_good_run_len eager_sort scale_factor scan_idx stack prev_run s v = Ret (s, v, No_Fuel)"
| "drift_loop (Suc n) qs is_less freeze sl min_good_run_len eager_sort scale_factor scan_idx stack prev_run s v =
     if_goes (if scan_idx < length v
         then if_goes (on_slice scan_idx (length v) v (create_run qs is_less freeze min_good_run_len eager_sort s)) (\<lambda>s v next_run.
           Ret (s, v, Goes (next_run, merge_tree_depth (scan_idx - run_len prev_run) scan_idx (scan_idx + run_len next_run) scale_factor)))
         else Ret (s, v, Goes (new_sorted 0, 0))) (\<lambda>s v (next_run, desired_depth).
       if_goes (collapse qs is_less sl desired_depth scan_idx stack prev_run s v) (\<lambda>s v (stack, prev_run).
         if 66 \<le> length stack then UB
         else if length v \<le> scan_idx then Ret (s, v, Goes prev_run)
         else drift_loop n qs is_less freeze sl min_good_run_len eager_sort scale_factor (scan_idx + run_len next_run)
           ((prev_run, desired_depth) # stack) next_run s v))"

definition MIN_SQRT_RUN_LEN :: nat where
  "MIN_SQRT_RUN_LEN = 64"

definition min_good_run_len :: "nat \<Rightarrow> nat" where
  "min_good_run_len len =
     (if len \<le> MIN_SQRT_RUN_LEN * MIN_SQRT_RUN_LEN then min (len - len div 2) MIN_SQRT_RUN_LEN else sqrt_approx len)"

definition drift_sort :: "('s, 'a) quicksort \<Rightarrow> ('s, 'a) is_less \<Rightarrow> bool \<Rightarrow> nat \<Rightarrow> bool \<Rightarrow> 's \<Rightarrow> 'a list \<Rightarrow> ('s, 'a, unit) sort_step" where
  "drift_sort qs is_less freeze sl eager_sort s v =
     (let len = length v
      in if len < 2 then Ret (s, v, Goes ())
         else if_goes (drift_loop (Suc len) qs is_less freeze sl (min_good_run_len len) eager_sort (merge_tree_scale_factor len) 0 []
             (new_sorted 0) s v) (\<lambda>s v prev_run.
           if run_sorted prev_run then Ret (s, v, Goes ()) else stable_quicksort qs s v))"


section \<open>Existing runs are runs\<close>

lemma revswap_rev: "length A = length B \<Longrightarrow> n = length M div 2 \<Longrightarrow> revswap n (A @ M @ B) (length A) = Ret (A @ rev M @ B)"
proof (induction n arbitrary: A M B)
  case 0
  then have "rev M = M" by (cases M rule: remdups_adj.cases) auto
  then show ?case by simp
next
  case (Suc n)
  obtain x M' where "M = x # M'" using Suc.prems(2) by (cases M) auto
  moreover obtain M2 y where "M' = M2 @ [y]" using Suc.prems(2) calculation by (cases M' rule: rev_cases) auto
  ultimately have M: "M = x # M2 @ [y]" by simp
  have "revswap n ((A @ [y]) @ M2 @ [x] @ B) (length (A @ [y])) = Ret ((A @ [y]) @ rev M2 @ [x] @ B)"
    using Suc.prems M by (intro Suc.IH) auto
  moreover have "revswap (Suc n) (A @ M @ B) (length A) = revswap n ((A @ [y]) @ M2 @ [x] @ B) (length (A @ [y]))"
    using Suc.prems(1) by (simp add: M index_def nth_append list_update_append Suc_diff_le)
  ultimately show ?case by (simp add: M)
qed

lemma reverse_rev [simp]: "reverse v = Ret (rev v)"
  using revswap_rev [of "[]" "[]" "length v div 2" v] by (simp add: reverse_def)

text \<open>A run: strictly descending or ascending.\<close>

definition is_run :: "('a \<Rightarrow> 'k :: linorder) \<Rightarrow> bool \<Rightarrow> 'a list \<Rightarrow> bool" where
  "is_run key desc xs \<longleftrightarrow> (if desc then sorted_wrt (\<lambda>a b. key b < key a) xs else sorted (map key xs))"

lemma is_run_snoc:
  assumes "is_run key desc (take n v)" "0 < n" "n < length v" "(key (v ! n) < key (v ! (n - 1))) = desc"
  shows "is_run key desc (take (Suc n) v)"
proof -
  have t: "take n v = take (n - 1) v @ [v ! (n - 1)]" "take (Suc n) v = take n v @ [v ! n]"
    using assms(2,3) take_Suc_conv_app_nth [of "n - 1" v] take_Suc_conv_app_nth [of n v] by simp_all
  show ?thesis using assms(1,4) unfolding t is_run_def by (cases desc) (fastforce simp: sorted_wrt_append sorted_append)+
qed

lemma run_while_permutes:
  "0 < m \<Longrightarrow> m + n = length v \<Longrightarrow> (keyed is_less key \<Longrightarrow> is_run key b (take m v)) \<Longrightarrow>
     permutes is_less key v (run_while b n is_less s v m)
       (\<lambda>r w. w = v \<and> m \<le> r \<and> r \<le> length v \<and> (keyed is_less key \<longrightarrow> is_run key b (take r v)))"
proof (induction n arbitrary: s m)
  case 0
  then show ?case by (auto intro!: permutes_Goes)
next
  case (Suc n)
  show ?case unfolding run_while.simps
  proof (rule permutes_compare)
    fix s r assume r: "keyed is_less key \<Longrightarrow> r = (key (v ! m) < key (v ! (m - 1)))"
    have up: "permutes is_less key v (run_while b n is_less s v (m + 1))
       (\<lambda>r w. w = v \<and> m + 1 \<le> r \<and> r \<le> length v \<and> (keyed is_less key \<longrightarrow> is_run key b (take r v)))" if "r = b"
      by (rule Suc.IH) (use Suc.prems that r is_run_snoc [of key b m v] in auto)
    have "permutes is_less key v (run_while b n is_less s v (m + 1))
       (\<lambda>r w. w = v \<and> m \<le> r \<and> r \<le> length v \<and> (keyed is_less key \<longrightarrow> is_run key b (take r v)))" if "r = b"
      by (rule permutes_weaken [OF up [OF that]]) auto
    then show "permutes is_less key v (if r = b then run_while b n is_less s v (m + 1) else Ret (s, v, Goes m))
       (\<lambda>r w. w = v \<and> m \<le> r \<and> r \<le> length v \<and> (keyed is_less key \<longrightarrow> is_run key b (take r v)))"
      using Suc.prems by (auto intro!: permutes_Goes)
  qed (use Suc.prems in auto)
qed

lemma find_existing_run_permutes:
  "permutes is_less key v (find_existing_run is_less s v)
     (\<lambda>(n, desc) w. w = v \<and> n \<le> length v \<and> (keyed is_less key \<longrightarrow> is_run key desc (take n v)))"
proof (cases "length v < 2")
  case True
  then have "sorted (map key v)" by (cases v) auto
  then show ?thesis using True by (auto simp: find_existing_run_def is_run_def intro!: permutes_Goes)
next
  case False
  have t: "take 2 v = [v ! 0, v ! 1]" using False by (cases v rule: remdups_adj.cases) auto
  have "permutes is_less key v (if_goes (compare_at is_less s v 1 0) (\<lambda>s v strictly_descending.
        if_goes (run_while strictly_descending (length v - 2) is_less s v 2) (\<lambda>s v run_len.
          Ret (s, v, Goes (run_len, strictly_descending)))))
     (\<lambda>(n, desc) w. w = v \<and> n \<le> length v \<and> (keyed is_less key \<longrightarrow> is_run key desc (take n v)))"
  proof (rule permutes_compare)
    fix s r assume r: "keyed is_less key \<Longrightarrow> r = (key (v ! 1) < key (v ! 0))"
    show "permutes is_less key v (if_goes (run_while r (length v - 2) is_less s v 2) (\<lambda>s v run_len. Ret (s, v, Goes (run_len, r))))
     (\<lambda>(n, desc) w. w = v \<and> n \<le> length v \<and> (keyed is_less key \<longrightarrow> is_run key desc (take n v)))"
      by (rule permutes_if_goes [OF run_while_permutes]) (use False r t in \<open>auto simp: is_run_def intro!: permutes_Goes\<close>)
  qed (use False in auto)
  then show ?thesis using False by (simp add: find_existing_run_def)
qed

text \<open>A strictly descending run has no equal keys, so that reversing it is stable.\<close>

lemma stably_rev: "sorted_wrt (\<lambda>a b. key b < (key a :: 'k :: linorder)) xs \<Longrightarrow> stably key xs (rev xs)"
proof (induction xs)
  case (Cons x xs)
  have "stably key (x # xs) ([x] @ rev xs)" using Cons by (simp add: stably_Cons)
  also have "stably key ([x] @ rev xs) (rev xs @ [x])" using Cons.prems by (intro stably_exchange) auto
  finally show ?case by simp
qed simp

lemma sorted_rev_run: "sorted_wrt (\<lambda>a b. key b < (key a :: 'k :: linorder)) xs \<Longrightarrow> sorted (map key (rev xs))"
  by (induction xs) (fastforce simp: sorted_append)+

section \<open>Run descriptors\<close>

lemma run_new [simp]:
  "n < isize_bound \<Longrightarrow> run_len (new_sorted n) = n" "n < isize_bound \<Longrightarrow> run_sorted (new_sorted n)"
  "n < isize_bound \<Longrightarrow> run_len (new_unsorted n) = n" "n < isize_bound \<Longrightarrow> \<not> run_sorted (new_unsorted n)"
proof -
  assume "n < isize_bound"
  then have m: "n * 2 mod usize_bound = n * 2" by (simp add: usize_bound_double)
  show "run_len (new_sorted n) = n" "run_sorted (new_sorted n)" "run_len (new_unsorted n) = n" "\<not> run_sorted (new_unsorted n)"
    by (simp_all add: run_len_def run_sorted_def new_sorted_def new_unsorted_def m and_one_eq or_Suc_0_eq mod_Suc)
qed

lemma merge_tree_depth_le: "merge_tree_depth left mid right f \<le> 64"
  by (simp add: merge_tree_depth_def leading_zeros_def Let_def)


section \<open>Runs that cover a slice\<close>

text \<open>A descriptor of the elements \<open>u\<close>: either they are sorted, or they fit into the scratch space and the
  sort is not in eager mode.\<close>

definition run_ok :: "('s, 'a) is_less \<Rightarrow> ('a \<Rightarrow> 'k :: linorder) \<Rightarrow> nat \<Rightarrow> bool \<Rightarrow> 'a list \<Rightarrow> driftsort_run \<Rightarrow> bool" where
  "run_ok is_less key sl eager u r \<longleftrightarrow> run_len r = length u
     \<and> (if run_sorted r then keyed is_less key \<longrightarrow> sorted (map key u) else \<not> eager \<and> length u \<le> sl)"

text \<open>Neighbouring runs from the beginning of the slice up to \<open>scan\<close>, the last one first.\<close>

fun covers :: "('s, 'a) is_less \<Rightarrow> ('a \<Rightarrow> 'k :: linorder) \<Rightarrow> nat \<Rightarrow> bool \<Rightarrow> 'a list \<Rightarrow> nat \<Rightarrow> driftsort_run list \<Rightarrow> bool" where
  "covers is_less key sl eager v scan [] \<longleftrightarrow> scan = 0"
| "covers is_less key sl eager v scan (r # rs) \<longleftrightarrow> run_len r \<le> scan \<and> run_ok is_less key sl eager (drop (scan - run_len r) (take scan v)) r
     \<and> covers is_less key sl eager v (scan - run_len r) rs"

lemma covers_cong: "take scan v = take scan w \<Longrightarrow> covers is_less key sl eager v scan rs \<Longrightarrow> covers is_less key sl eager w scan rs"
proof (induction rs arbitrary: scan)
  case (Cons r rs)
  have "take (scan - run_len r) (take scan v) = take (scan - run_len r) (take scan w)" using Cons.prems(1) by (rule arg_cong)
  then have "take (scan - run_len r) v = take (scan - run_len r) w" by simp
  then show ?case using Cons by simp
qed simp

text \<open>The depths on the stack decrease from the top, except for the one at the bottom.\<close>

definition depths_ok :: "(driftsort_run \<times> nat) list \<Rightarrow> bool" where
  "depths_ok stack \<longleftrightarrow> sorted_wrt (\<lambda>x y. snd y < snd x) (butlast stack) \<and> (\<forall>x\<in>set stack. snd x \<le> 64)"

lemma depths_ok_push:
  assumes "depths_ok stack" "depth \<le> 64" "length stack \<le> 1 \<or> snd (hd stack) < depth"
  shows "depths_ok ((r, depth) # stack)"
proof (cases stack)
  case (Cons x xs)
  show ?thesis
  proof (cases xs)
    case c: (Cons y ys)
    have "snd z < depth" if "z \<in> set (butlast stack)" for z using assms(1,3) that c Cons by (auto simp: depths_ok_def)
    then show ?thesis using assms(1,2) Cons by (simp add: depths_ok_def)
  qed (use assms(1,2) Cons in \<open>simp add: depths_ok_def\<close>)
qed (use assms(2) in \<open>simp add: depths_ok_def\<close>)

lemma depths_ok_drop: "depths_ok stack \<Longrightarrow> depths_ok (drop k stack)"
  unfolding depths_ok_def by (auto simp: butlast_drop sorted_wrt_drop dest: in_set_dropD)

text \<open>At most 65 depths are on the stack when a run is pushed.\<close>

lemma decreasing_length: "sorted_wrt (\<lambda>x y. f y < (f x :: nat)) xs \<Longrightarrow> \<forall>x\<in>set xs. f x < n \<Longrightarrow> length xs \<le> n"
proof (induction xs arbitrary: n)
  case (Cons x xs)
  have "length xs \<le> f x" using Cons by (intro Cons.IH) auto
  then show ?case using Cons.prems(2) by simp
qed simp

lemma depths_ok_length:
  assumes "depths_ok stack" "depth \<le> 64" "length stack \<le> 1 \<or> snd (hd stack) < depth"
  shows "length stack < 66"
proof (cases "length stack \<le> 1")
  case False
  have "depths_ok ((0, depth) # stack)" using assms by (rule depths_ok_push)
  then have "length (butlast ((0, depth) # stack)) \<le> 65"
  proof (intro decreasing_length [of snd] ballI)
    fix x assume "x \<in> set (butlast ((0, depth) # stack))"
    then have "x \<in> set ((0, depth) # stack)" by (rule in_set_butlastD)
    then show "snd x < 65" using \<open>depths_ok ((0, depth) # stack)\<close> unfolding depths_ok_def by fastforce
  qed (simp_all add: depths_ok_def)
  then show ?thesis using False by (simp add: length_butlast split: if_splits)
qed simp

section \<open>The main loop sorts\<close>

text \<open>What the main loop needs of the quicksort it calls: that it sorts slices below the threshold of the small sort
  whatever the limit is, and unless the loop is in eager mode every slice that fits into the scratch space.\<close>

locale run_sorter =
  fixes is_less :: "('s, 'a) is_less" and key :: "'a \<Rightarrow> 'k :: linorder" and qs :: "('s, 'a) quicksort"
    and freeze :: bool and sl :: nat and eager :: bool
  assumes short_runs: "length u \<le> small_sort_threshold freeze \<Longrightarrow> sorts is_less key u (qs 0 s u)"
    and long_runs: "\<not> eager \<Longrightarrow> length u \<le> sl \<Longrightarrow> length u < isize_bound \<Longrightarrow> sorts is_less key u (qs (2 * ilog2 (length u OR 1)) s u)"
begin

lemma create_run_permutes:
  assumes v: "v \<noteq> []" "length v < isize_bound" and mg: "0 < mg" "\<not> eager \<Longrightarrow> mg \<le> sl"
  shows "permutes is_less key v (create_run qs is_less freeze mg eager s v) (\<lambda>r w. 0 < run_len r \<and> run_len r \<le> length v
    \<and> run_ok is_less key sl eager (take (run_len r) w) r)" (is "permutes _ _ _ _ ?Q")
proof -
  let ?P = "\<lambda>found w. length w = length v \<and> (\<forall>r. found = Some r \<longrightarrow> ?Q r w)"
  let ?found = "if mg \<le> length v
           then if_goes (find_existing_run is_less s v) (\<lambda>s w (n, was_reversed).
             if length v < n then UB
             else if mg \<le> n
             then if was_reversed
               then and_then (reverse (take n w)) (\<lambda>u. Ret (s, u @ drop n w, Goes (Some (new_sorted n))))
               else Ret (s, w, Goes (Some (new_sorted n)))
             else Ret (s, w, Goes None))
           else Ret (s, v, Goes None)"
  have found: "permutes is_less key v ?found ?P"
  proof (cases "mg \<le> length v")
    case True
    have "permutes is_less key v (if_goes (find_existing_run is_less s v) (\<lambda>s w (n, was_reversed).
             if length v < n then UB
             else if mg \<le> n
             then if was_reversed
               then and_then (reverse (take n w)) (\<lambda>u. Ret (s, u @ drop n w, Goes (Some (new_sorted n))))
               else Ret (s, w, Goes (Some (new_sorted n)))
             else Ret (s, w, Goes None))) ?P"
    proof (rule permutes_if_goes [OF find_existing_run_permutes], goal_cases)
      case (1 s1 w x)
      obtain n desc where x: "x = (n, desc)" by force
      with 1(3) have w: "w = v" and n: "n \<le> length v" and run: "keyed is_less key \<Longrightarrow> is_run key desc (take n v)" by auto
      have r: "run_len (new_sorted n) = n" "run_sorted (new_sorted n)" using n v(2) by simp_all
      have up: "permutes is_less key v (Ret (s1, v, Goes (Some (new_sorted n)))) ?P" if "mg \<le> n" "\<not> desc"
        using n run r that mg(1) by (intro permutes_Goes) (auto simp: run_ok_def is_run_def)
      have down: "permutes is_less key v (Ret (s1, rev (take n v) @ drop n v, Goes (Some (new_sorted n)))) ?P" if "mg \<le> n" desc
      proof (rule permutesI [OF refl])
        show "stably key v (rev (take n v) @ drop n v)" if kd: "keyed is_less key"
          using stably_append [OF stably_rev stably_refl, of key "take n v" "drop n v"] run [OF kd] \<open>desc\<close> by (simp add: is_run_def)
        have "mset (rev (take n v) @ drop n v) = mset (take n v @ drop n v)" by (simp only: mset_append mset_rev)
        then show "mset (rev (take n v) @ drop n v) = mset v" by simp
        have "sorted (map key (rev (take n v)))" if "keyed is_less key" using run [OF that] \<open>desc\<close> by (simp add: is_run_def sorted_rev_run)
        then show "?P (Some (new_sorted n)) (rev (take n v) @ drop n v)" using n r that mg(1) by (simp add: run_ok_def)
      qed
      show ?case using up down n by (auto simp: x w intro!: permutes_Goes)
    qed
    then show ?thesis using True by simp
  qed (simp add: permutes_Goes)
  have "permutes is_less key v (if_goes ?found (\<lambda>s w found. case found of
         Some r \<Rightarrow> Ret (s, w, Goes r)
       | None \<Rightarrow>
           if eager
           then let eager_run_len = min (small_sort_threshold freeze) (length v)
             in if_goes (on_slice 0 eager_run_len w (qs 0 s)) (\<lambda>s w _. Ret (s, w, Goes (new_sorted eager_run_len)))
           else Ret (s, w, Goes (new_unsorted (min mg (length v)))))) ?Q"
  proof (rule permutes_if_goes [OF found], goal_cases)
    case (1 s1 w x)
    have len: "length w = length v" using 1 by simp
    define e where "e = min (small_sort_threshold freeze) (length v)"
    have e: "0 < e" "e \<le> length v" using v(1)
      by (auto simp: e_def small_sort_threshold_def SMALL_SORT_GENERAL_THRESHOLD_def SMALL_SORT_FALLBACK_THRESHOLD_def)
    have re: "run_len (new_sorted e) = e" "run_sorted (new_sorted e)" using e v(2) by simp_all
    have "sorts is_less key (take (e - 0) (drop 0 w)) (qs 0 s1 (take (e - 0) (drop 0 w)))" by (rule short_runs) (simp add: e_def)
    then have "permutes is_less key w (on_slice 0 e w (qs 0 s1)) (\<lambda>_ w. keyed is_less key \<longrightarrow> sorted (map key (take e w)))"
      unfolding sorts_def by (rule permutes_on_slice [rotated 2]) (use e len in \<open>auto dest!: mset_eq_length\<close>)
    then have eager: "permutes is_less key w (if_goes (on_slice 0 e w (qs 0 s1)) (\<lambda>s w _. Ret (s, w, Goes (new_sorted e)))) ?Q"
      by (rule permutes_if_goes) (use e re len in \<open>auto simp: run_ok_def dest!: mset_eq_length intro!: permutes_Goes\<close>)
    have lazy: "permutes is_less key w (Ret (s1, w, Goes (new_unsorted (min mg (length v))))) ?Q" if "\<not> eager"
      using v mg that len by (intro permutes_Goes) (auto simp: run_ok_def)
    show ?case
    proof (cases x)
      case None
      then show ?thesis using eager lazy by (cases eager) (simp_all add: e_def [symmetric] Let_def)
    next
      case (Some r)
      then show ?thesis using 1 by (auto intro!: permutes_Goes)
    qed
  qed
  then show ?thesis by (simp add: create_run_def Let_def)
qed

text \<open>Sorting the elements of a run that is not sorted yet.\<close>

lemma sort_run_permutes:
  assumes "a \<le> b" "b \<le> length v" "length v < isize_bound" "run_ok is_less key sl eager (take (b - a) (drop a v)) r"
  shows "permutes is_less key v (if run_sorted r then Ret (s, v, Goes ()) else on_slice a b v (stable_quicksort qs s))
    (\<lambda>_ w. \<exists>u. w = take a v @ u @ drop b v \<and> length u = b - a \<and> (keyed is_less key \<longrightarrow> sorted (map key u)))"
proof (cases "run_sorted r")
  case True
  have "v = take a v @ take (b - a) (drop a v) @ drop b v" using assms(1) by (metis append_take_drop_id drop_drop le_add_diff_inverse2)
  then show ?thesis using True assms unfolding run_ok_def by (auto intro!: permutes_Goes exI [of _ "take (b - a) (drop a v)"])
next
  case False
  then have "sorts is_less key (take (b - a) (drop a v)) (stable_quicksort qs s (take (b - a) (drop a v)))"
    unfolding stable_quicksort_def using assms by (intro long_runs) (auto simp: run_ok_def)
  then have "permutes is_less key v (on_slice a b v (stable_quicksort qs s))
    (\<lambda>_ w. \<exists>u. w = take a v @ u @ drop b v \<and> length u = b - a \<and> (keyed is_less key \<longrightarrow> sorted (map key u)))"
    unfolding sorts_def by (rule permutes_on_slice [rotated 2]) (use assms(1,2) in \<open>auto dest!: mset_eq_length\<close>)
  then show ?thesis using False by simp
qed

lemma logical_merge_permutes:
  assumes v: "length v < isize_bound" "length v div 2 \<le> sl" and l: "run_len left \<le> length v"
    and runs: "run_ok is_less key sl eager (take (run_len left) v) left" "run_ok is_less key sl eager (drop (run_len left) v) right"
  shows "permutes is_less key v (logical_merge qs is_less sl left right s v) (\<lambda>r w. run_ok is_less key sl eager w r)"
proof (cases "\<not> length v \<le> sl \<or> run_sorted left \<or> run_sorted right")
  case True
  define a where "a = run_len left"
  have "permutes is_less key v (if_goes (if run_sorted left then Ret (s, v, Goes ()) else on_slice 0 a v (stable_quicksort qs s)) (\<lambda>s w _.
           if_goes (if run_sorted right then Ret (s, w, Goes ()) else on_slice a (length v) w (stable_quicksort qs s)) (\<lambda>s z _.
             if_goes (merge is_less sl s z a) (\<lambda>s w _. Ret (s, w, Goes (new_sorted (length v)))))))
     (\<lambda>r w. run_ok is_less key sl eager w r)"
  proof (rule permutes_if_goes [OF sort_run_permutes], goal_cases)
    case (5 s1 w x)
    then obtain u where w: "w = u @ drop a v" "length u = a" "keyed is_less key \<Longrightarrow> sorted (map key u)" by auto
    have len: "length w = length v" using w l a_def by simp
    show ?case
    proof (rule permutes_if_goes [OF sort_run_permutes], goal_cases)
      case (5 s2 z y)
      then obtain u2 where z: "z = u @ u2" "length u2 = length v - a" "keyed is_less key \<Longrightarrow> sorted (map key u2)" using w len by auto
      have lz: "length z = length v" using z w l a_def by simp
      have "sorts is_less key z (merge is_less sl s2 z a)"
        by (rule merge_sorts) (use z w v(2) lz in auto)
      then show ?case unfolding sorts_def
        by (rule permutes_if_goes) (use v(1) lz in \<open>auto simp: run_ok_def dest!: mset_eq_length intro!: permutes_Goes\<close>)
    qed (use l v w len runs in \<open>auto simp: a_def\<close>)
  qed (use l v runs in \<open>auto simp: a_def\<close>)
  then show ?thesis unfolding logical_merge_def Let_def if_P [OF True] a_def .
next
  case False
  then have "\<not> eager" using runs(1) by (simp add: run_ok_def)
  then show ?thesis using False v(1) by (auto simp: logical_merge_def run_ok_def intro!: permutes_Goes)
qed

lemma collapse_permutes:
  "covers is_less key sl eager v scan (prev # map fst stack) \<Longrightarrow> scan \<le> length v \<Longrightarrow> length v < isize_bound \<Longrightarrow> length v div 2 \<le> sl \<Longrightarrow>
     permutes is_less key v (collapse qs is_less sl depth scan stack prev s v)
       (\<lambda>(st, p) w. drop scan w = drop scan v \<and> covers is_less key sl eager w scan (p # map fst st)
         \<and> (\<exists>k. st = drop k stack \<and> (stack \<noteq> [] \<longrightarrow> k < length stack)) \<and> (length st \<le> 1 \<or> snd (hd st) < depth))"
proof (induction stack arbitrary: prev s v rule: induct_list012)
  case 1
  then show ?case by (auto intro!: permutes_Goes)
next
  case (2 x)
  then show ?case by (cases x) (auto intro!: permutes_Goes)
next
  case (3 y x stack)
  obtain left d where y: "y = (left, d)" by force
  show ?case
  proof (cases "depth \<le> d")
    case False
    then show ?thesis using 3(3) by (auto simp: y intro!: permutes_Goes exI [of _ 0])
  next
    case True
    define m where "m = run_len left + run_len prev"
    define a where "a = scan - m"
    let ?u = "take (scan - a) (drop a v)"
    have c: "run_len prev \<le> scan" "run_ok is_less key sl eager (drop (scan - run_len prev) (take scan v)) prev"
      "run_len left \<le> scan - run_len prev" "run_ok is_less key sl eager (drop (scan - run_len prev - run_len left) (take (scan - run_len prev) v)) left"
      "covers is_less key sl eager v (scan - run_len prev - run_len left) (map fst (x # stack))"
      using 3(3) by (simp_all add: y)
    have m: "m \<le> scan" and a: "scan - run_len prev - run_len left = a" "a + run_len left = scan - run_len prev" "scan - a = m" "a \<le> scan"
      using c(1,3) by (auto simp: m_def a_def)
    have u: "take (run_len left) ?u = drop a (take (scan - run_len prev) v)" "drop (run_len left) ?u = drop (scan - run_len prev) (take scan v)"
    proof -
      have "scan - run_len prev - a = run_len left" "scan - (scan - run_len prev) = run_len prev" "m - run_len left = run_len prev" "run_len left \<le> m"
        using a c(1,3) by (auto simp: m_def)
      then show "take (run_len left) ?u = drop a (take (scan - run_len prev) v)" "drop (run_len left) ?u = drop (scan - run_len prev) (take scan v)"
        by (simp_all add: drop_take a(3) min_absorb1 a(2) [symmetric] add.commute)
    qed
    have "permutes is_less key ?u (logical_merge qs is_less sl left prev s ?u) (\<lambda>r w. run_ok is_less key sl eager w r)"
    proof (rule logical_merge_permutes)
      show "run_ok is_less key sl eager (take (run_len left) ?u) left" using c(4) unfolding u(1) a(1) .
      show "run_ok is_less key sl eager (drop (run_len left) ?u) prev" using c(2) unfolding u(2) .
      show "run_len left \<le> length ?u" using 3(4) a(3) m by (simp add: m_def)
      show "length ?u < isize_bound" using 3(5) by simp
      show "length ?u div 2 \<le> sl" using 3(6) div_le_mono [of "length ?u" "length v" 2] by simp
    qed
    then have step: "permutes is_less key v (on_slice a scan v (logical_merge qs is_less sl left prev s))
        (\<lambda>r w. drop scan w = drop scan v \<and> covers is_less key sl eager w scan (r # map fst (x # stack)))"
    proof (rule permutes_on_slice [OF a(4) 3(4)], goal_cases)
      case (1 r w)
      have lw: "length w = scan - a" using mset_eq_length [OF 1(1)] 3(4) by simp
      then have r: "run_len r = scan - a" using 1(3) by (simp add: run_ok_def)
      have cv: "covers is_less key sl eager (take a v @ w @ drop scan v) a (map fst (x # stack))"
        by (rule covers_cong [of _ v]) (use c(5) a 3(4) in auto)
      have t: "drop a (take scan (take a v @ w @ drop scan v)) = w" "scan - run_len r = a" using lw a 3(4) r by auto
      show ?case using lw a 3(4) 1(3) cv unfolding covers.simps t by (simp add: r)
    qed
    have "permutes is_less key v (if_goes (on_slice a scan v (logical_merge qs is_less sl left prev s)) (\<lambda>s v prev_run.
             collapse qs is_less sl depth scan (x # stack) prev_run s v))
       (\<lambda>(st, p) w. drop scan w = drop scan v \<and> covers is_less key sl eager w scan (p # map fst st)
         \<and> (\<exists>k. st = drop k (y # x # stack) \<and> k < length (y # x # stack)) \<and> (length st \<le> 1 \<or> snd (hd st) < depth))"
    proof (rule permutes_if_goes [OF step], goal_cases)
      case (1 s1 w r)
      have lw: "length w = length v" using mset_eq_length [OF 1(1)] .
      have w: "drop scan w = drop scan v" using 1(3) by blast
      have "permutes is_less key w (collapse qs is_less sl depth scan (x # stack) r s1 w)
       (\<lambda>(st, p) z. drop scan z = drop scan w \<and> covers is_less key sl eager z scan (p # map fst st)
         \<and> (\<exists>k. st = drop k (x # stack) \<and> (x # stack \<noteq> [] \<longrightarrow> k < length (x # stack))) \<and> (length st \<le> 1 \<or> snd (hd st) < depth))"
        by (rule 3(2)) (use 1(3) 3(4-6) lw in auto)
      then show ?case
      proof (rule permutes_weaken, goal_cases)
        case (1 q z)
        obtain st p where q: "q = (st, p)" by force
        with 1(3) obtain k where "st = drop k (x # stack)" "k < length (x # stack)" by auto
        then have "\<exists>k. st = drop k (y # x # stack) \<and> k < length (y # x # stack)" by (intro exI [of _ "Suc k"]) simp
        moreover have "drop scan z = drop scan v" "covers is_less key sl eager z scan (p # map fst st)" "length st \<le> 1 \<or> snd (hd st) < depth"
          using 1(3) w q by (simp_all del: covers.simps)
        ultimately show ?case unfolding q prod.case by blast
      qed
    qed
    then show ?thesis using True m 3(4) by (simp add: y m_def [symmetric] a_def [symmetric] Let_def)
  qed
qed

text \<open>The invariant of the main loop: the runs cover the slice up to \<open>scan_idx\<close>, and the run at the bottom
  of the stack is the empty one of the beginning.\<close>

lemma drift_loop_permutes:
  assumes mg: "0 < mg" "\<not> eager \<Longrightarrow> mg \<le> sl"
  shows "covers is_less key sl eager v scan (prev # map fst stack) \<Longrightarrow> scan \<le> length v \<Longrightarrow> length v < isize_bound \<Longrightarrow> length v div 2 \<le> sl
    \<Longrightarrow> depths_ok stack \<Longrightarrow> (if stack = [] then scan = 0 \<and> v \<noteq> [] else run_len (fst (last stack)) = 0) \<Longrightarrow> length v < n + scan \<Longrightarrow>
     permutes is_less key v (drift_loop n qs is_less freeze sl mg eager f scan stack prev s v) (\<lambda>r w. run_ok is_less key sl eager w r)"
proof (induction n arbitrary: v scan prev stack s)
  case (Suc n)
  let ?next = "if scan < length v
         then if_goes (on_slice scan (length v) v (create_run qs is_less freeze mg eager s)) (\<lambda>s v next_run.
           Ret (s, v, Goes (next_run, merge_tree_depth (scan - run_len prev) scan (scan + run_len next_run) f)))
         else Ret (s, v, Goes (new_sorted 0, 0))"
  have nx: "permutes is_less key v ?next (\<lambda>(r, depth) w. take scan w = take scan v \<and> depth \<le> 64 \<and>
     (if scan < length v then 0 < run_len r \<and> scan + run_len r \<le> length v \<and> run_ok is_less key sl eager (take (run_len r) (drop scan w)) r
      else depth = 0))" (is "permutes _ _ _ _ ?N")
  proof (cases "scan < length v")
    case True
    let ?u = "take (length v - scan) (drop scan v)"
    have "permutes is_less key ?u (create_run qs is_less freeze mg eager s ?u) (\<lambda>r w. 0 < run_len r \<and> run_len r \<le> length ?u
        \<and> run_ok is_less key sl eager (take (run_len r) w) r)"
      by (rule create_run_permutes) (use True Suc.prems(3) mg in auto)
    then have "permutes is_less key v (on_slice scan (length v) v (create_run qs is_less freeze mg eager s))
      (\<lambda>r w. take scan w = take scan v \<and> 0 < run_len r \<and> scan + run_len r \<le> length v \<and> run_ok is_less key sl eager (take (run_len r) (drop scan w)) r)"
      by (rule permutes_on_slice [rotated 2]) (use True in auto)
    then have "permutes is_less key v (if_goes (on_slice scan (length v) v (create_run qs is_less freeze mg eager s)) (\<lambda>s v next_run.
           Ret (s, v, Goes (next_run, merge_tree_depth (scan - run_len prev) scan (scan + run_len next_run) f)))) ?N"
      by (rule permutes_if_goes) (use True in \<open>auto simp: merge_tree_depth_le intro!: permutes_Goes\<close>)
    then show ?thesis using True by simp
  qed (simp add: permutes_Goes)
  show ?case unfolding drift_loop.simps
  proof (rule permutes_if_goes [OF nx], goal_cases)
    case (1 s1 w x)
    obtain r depth where x: "x = (r, depth)" by force
    note N = 1(3) [unfolded x prod.case]
    have lw: "length w = length v" using mset_eq_length [OF 1(1)] .
    have cw: "covers is_less key sl eager w scan (prev # map fst stack)" by (rule covers_cong [OF _ Suc.prems(1)]) (use N in simp)
    note col = collapse_permutes [OF cw, unfolded lw, OF Suc.prems(2-4)]
    show ?case unfolding x prod.case
    proof (rule permutes_if_goes [OF col], goal_cases)
      case (1 s2 z y)
      obtain st p where y: "y = (st, p)" by force
      obtain k where k: "st = drop k stack" "stack \<noteq> [] \<Longrightarrow> k < length stack" and z: "drop scan z = drop scan w"
        "covers is_less key sl eager z scan (p # map fst st)" and top: "length st \<le> 1 \<or> snd (hd st) < depth" using 1(3) unfolding y prod.case by blast
      have lz: "length z = length v" using mset_eq_length [OF 1(1)] lw by simp
      have d: "depths_ok st" "depth \<le> 64" using Suc.prems(5) N by (simp_all add: k(1) depths_ok_drop)
      have len: "length st < 66" using depths_ok_length [OF d top] .
      have bottom: "if st = [] then stack = [] else run_len (fst (last st)) = 0" using Suc.prems(6) k by (cases "stack = []") auto
      show ?case
      proof (cases "scan < length v")
        case False
        have "depth = 0" using N False by simp
        then have "length st \<le> 1" using top by simp
        moreover have "stack \<noteq> []" using False Suc.prems(6) by auto
        then have "st \<noteq> []" using k by simp
        ultimately obtain b where st: "st = [b]" by (cases st) auto
        have "run_len p = scan" using z(2) bottom st by simp
        moreover have "scan = length z" using False Suc.prems(2) lz by simp
        ultimately have "run_ok is_less key sl eager z p" using z(2) by simp
        then show ?thesis using False lz len by (simp add: y permutes_Goes)
      next
        case True
        have r: "0 < run_len r" "scan + run_len r \<le> length v" "run_ok is_less key sl eager (take (run_len r) (drop scan z)) r" using N True z(1) by auto
        have "drop scan (take (scan + run_len r) z) = take (run_len r) (drop scan z)" by (simp add: drop_take)
        then have "covers is_less key sl eager z (scan + run_len r) (r # map fst ((p, depth) # st))" using r z(2) by simp
        moreover have "depths_ok ((p, depth) # st)" using d top by (rule depths_ok_push)
        moreover have "run_len (fst (last ((p, depth) # st))) = 0"
        proof (cases st)
          case Nil
          then have "scan = 0" using bottom Suc.prems(6) by simp
          then show ?thesis using z(2) Nil by simp
        qed (use bottom in simp)
        ultimately have "permutes is_less key z (drift_loop n qs is_less freeze sl mg eager f (scan + run_len r) ((p, depth) # st) r s2 z)
          (\<lambda>r w. run_ok is_less key sl eager w r)"
          using r Suc.prems(2-4,7) lz by (intro Suc.IH) simp_all
        then show ?thesis using True lz len by (simp add: y)
      qed
    qed
  qed
qed simp

lemma drift_sort_sorts:
  assumes v: "length v < isize_bound" "length v div 2 \<le> sl" and mg: "\<not> eager \<Longrightarrow> min_good_run_len (length v) \<le> sl" "0 < min_good_run_len (length v)"
  shows "sorts is_less key v (drift_sort qs is_less freeze sl eager s v)"
proof (cases "length v < 2")
  case True
  then have "sorted (map key v)" by (cases v) auto
  then show ?thesis using True by (simp add: drift_sort_def sorts_def permutes_Goes)
next
  case False
  have z: "run_len (new_sorted 0) = 0" "run_sorted (new_sorted 0)" by simp_all
  have "permutes is_less key v (if_goes (drift_loop (Suc (length v)) qs is_less freeze sl (min_good_run_len (length v)) eager
       (merge_tree_scale_factor (length v)) 0 [] (new_sorted 0) s v) (\<lambda>s v prev_run.
           if run_sorted prev_run then Ret (s, v, Goes ()) else stable_quicksort qs s v)) (\<lambda>_ w. keyed is_less key \<longrightarrow> sorted (map key w))"
  proof (rule permutes_if_goes [OF drift_loop_permutes [OF mg(2,1)]], goal_cases)
    case (9 s1 w r)
    have "length w = length v" using mset_eq_length [OF 9(1)] .
    then have "permutes is_less key w (stable_quicksort qs s1 w) (\<lambda>_ w. keyed is_less key \<longrightarrow> sorted (map key w))" if "\<not> run_sorted r"
      using 9(3) that v(1) long_runs [of w s1] by (simp add: stable_quicksort_def sorts_def run_ok_def)
    then show ?case using 9(3) by (simp add: run_ok_def permutes_Goes)
  qed (use v False z in \<open>auto simp: run_ok_def depths_ok_def\<close>)
  then show ?thesis using False by (simp add: drift_sort_def sorts_def Let_def)
qed

end

end
