(* ===== verification/Sort_Stable.thy ===== *)
theory Sort_Stable
  imports Sort_Drift
begin

unbundle bit_operations_syntax

text \<open>
  The stable quicksort of \<open>library/core/src/slice/sort/stable/quicksort.rs\<close> and the entry points of the stable sort,
  \<open>library/core/src/slice/sort/stable/mod.rs\<close>.
\<close>

section \<open>Quicksort\<close>

text \<open>The closure of the partition by equality.\<close>

definition not_greater :: "('s, 'a) is_less \<Rightarrow> ('s, 'a) is_less" where
  "not_greater is_less s a b = (case is_less s b a of (s, r) \<Rightarrow> (s, map_option Not r))"

text \<open>Whether the pivot is not above its left ancestor.\<close>

definition equals_ancestor :: "('s, 'a) is_less \<Rightarrow> 'a option \<Rightarrow> 's \<Rightarrow> 'a list \<Rightarrow> nat \<Rightarrow> ('s, 'a, bool) sort_step" where
  "equals_ancestor is_less left_ancestor_pivot s v pivot_pos = (case left_ancestor_pivot of
     None \<Rightarrow> Ret (s, v, Goes False)
   | Some la_pivot \<Rightarrow> (case is_less s la_pivot (v ! pivot_pos) of
         (s, None) \<Rightarrow> Ret (s, v, Unwinds)
       | (s, Some b) \<Rightarrow> Ret (s, v, Goes (\<not> b))))"

text \<open>Every turn of the loop and every recursive call lowers \<open>limit\<close>; at zero the main loop of driftsort
  takes over in eager mode, which calls the quicksort only for small slices. The fuel counts these calls.\<close>

fun quicksort :: "nat \<Rightarrow> ('s, 'a) is_less \<Rightarrow> bool \<Rightarrow> bool \<Rightarrow> nat \<Rightarrow> nat \<Rightarrow> 'a option \<Rightarrow> 's \<Rightarrow> 'a list \<Rightarrow> ('s, 'a, unit) sort_step" where
  "quicksort 0 is_less small freeze sl limit left_ancestor_pivot s v = Ret (s, v, No_Fuel)"
| "quicksort (Suc n) is_less small freeze sl limit left_ancestor_pivot s v =
     (if length v \<le> small_sort_threshold freeze then small_sort is_less small freeze sl s v
      else if limit = 0
      then drift_sort (\<lambda>limit. quicksort n is_less small freeze sl limit None) is_less freeze sl True s v
      else if_goes (choose_pivot is_less s v) (\<lambda>s v pivot_pos.
        if length v \<le> pivot_pos then UB
        else let pivot = v ! pivot_pos
          in if_goes (equals_ancestor is_less left_ancestor_pivot s v pivot_pos) (\<lambda>s v eq.
            if_goes (if eq then Ret (s, v, Goes 0) else stable_partition is_less small freeze sl s v pivot_pos False) (\<lambda>s v left_partition_len.
              if eq \<or> left_partition_len = 0
              then if_goes (stable_partition (not_greater is_less) small freeze sl s v pivot_pos True) (\<lambda>s v mid_eq.
                on_slice mid_eq (length v) v (quicksort n is_less small freeze sl (limit - 1) None s))
              else if_goes (on_slice left_partition_len (length v) v
                  (quicksort n is_less small freeze sl (limit - 1) (if freeze then Some pivot else None) s)) (\<lambda>s v _.
                on_slice 0 left_partition_len v (quicksort n is_less small freeze sl (limit - 1) left_ancestor_pivot s))))))"

section \<open>The stable sort\<close>

text \<open>\<open>bytes\<close> is the size of an element. The buffer is a parameter: \<open>with_capacity\<close> returns
  the length of its spare space, or panics. The fuel of the quicksort is more than twice the logarithm of the longest
  slice.\<close>

definition quicksort_fuel :: nat where
  "quicksort_fuel = 200"

definition MAX_FULL_ALLOC_BYTES :: nat where
  "MAX_FULL_ALLOC_BYTES = 8000000"

definition alloc_len :: "nat \<Rightarrow> nat \<Rightarrow> nat" where
  "alloc_len bytes len = max (max (len div 2) (min len (MAX_FULL_ALLOC_BYTES div bytes))) SMALL_SORT_GENERAL_SCRATCH_LEN"

definition stack_scratch_len :: "nat \<Rightarrow> nat" where
  "stack_scratch_len bytes = 4096 div bytes"

definition driftsort_main :: "('s, 'a) is_less \<Rightarrow> nat \<Rightarrow> bool \<Rightarrow> (nat \<Rightarrow> nat outcome) \<Rightarrow> 's \<Rightarrow> 'a list \<Rightarrow> ('s, 'a, unit) sort_step" where
  "driftsort_main is_less bytes freeze with_capacity s v =
     and_then (if alloc_len bytes (length v) \<le> stack_scratch_len bytes then Ret (stack_scratch_len bytes)
         else with_capacity (alloc_len bytes (length v))) (\<lambda>sl.
       drift_sort (\<lambda>limit. quicksort quicksort_fuel is_less (bytes \<le> 16) freeze sl limit None) is_less freeze sl
         (length v \<le> small_sort_threshold freeze * 2) s v)"

definition MAX_LEN_ALWAYS_INSERTION_SORT :: nat where
  "MAX_LEN_ALWAYS_INSERTION_SORT = 20"

definition stable_sort :: "('s, 'a) is_less \<Rightarrow> nat \<Rightarrow> bool \<Rightarrow> (nat \<Rightarrow> nat outcome) \<Rightarrow> 's \<Rightarrow> 'a list \<Rightarrow> ('s, 'a, unit) sort_step" where
  "stable_sort is_less bytes freeze with_capacity s v =
     (if bytes = 0 then Ret (s, v, Goes ())
      else if length v < 2 then Ret (s, v, Goes ())
      else if length v \<le> MAX_LEN_ALWAYS_INSERTION_SORT then insertion_sort_shift_left is_less s v 1
      else driftsort_main is_less bytes freeze with_capacity s v)"

section \<open>Partitions in the quicksort\<close>

lemma stably_filter:
  assumes "\<And>x y. P x \<Longrightarrow> \<not> P y \<Longrightarrow> key x \<noteq> key y"
  shows "stably key v (filter P v @ filter (\<lambda>x. \<not> P x) v)"
  unfolding stably_def
proof
  fix k
  show "filter (\<lambda>x. key x = k) v = filter (\<lambda>x. key x = k) (filter P v @ filter (\<lambda>x. \<not> P x) v)"
  proof (cases "\<exists>x. P x \<and> key x = k")
    case True
    then have "key x \<noteq> k" if "\<not> P x" for x using assms that by blast
    then have "filter (\<lambda>x. key x = k) (filter (\<lambda>x. \<not> P x) v) = []" by (auto simp: filter_empty_conv)
    moreover have "(key x = k \<and> P x) = (key x = k)" for x using True assms by blast
    ultimately show ?thesis by (simp add: conj_commute)
  next
    case False
    then have "filter (\<lambda>x. key x = k) (filter P v) = []" by (auto simp: filter_empty_conv)
    moreover have "(key x = k \<and> \<not> P x) = (key x = k)" for x using False by blast
    ultimately show ?thesis by (simp add: conj_commute)
  qed
qed

text \<open>A partition by any closure that answers a relation whenever \<open>is_less\<close> compares keys.\<close>

lemma stable_partition_permutes:
  assumes "p < length v" "length v \<le> sl"
    and c: "keyed is_less key \<Longrightarrow> answers cl c \<and> c (v ! p) (v ! p) = g \<and> (\<forall>x y. c x (v ! p) \<longrightarrow> \<not> c y (v ! p) \<longrightarrow> key x \<noteq> key y)"
  shows "permutes is_less key v (stable_partition cl small freeze sl s v p g) (\<lambda>n w. n \<le> length v \<and> (if g then 0 < n else n < length v)
    \<and> (keyed is_less key \<longrightarrow> (\<forall>x\<in>set (take n w). c x (v ! p)) \<and> (\<forall>x\<in>set (drop n w). \<not> c x (v ! p)) \<and> (n = 0 \<longrightarrow> w = v)))"
proof -
  obtain s' w f where r: "stable_partition cl small freeze sl s v p g = Ret (s', w, f)" "mset w = mset v"
    and f: "f = Unwinds \<and> \<not> (\<exists>c. answers cl c) \<or> (\<exists>L R. f = Goes (length L) \<and> w = L @ R \<and> (if g then L \<noteq> [] else R \<noteq> [])
      \<and> (\<forall>c. answers cl c \<and> c (v ! p) (v ! p) = g \<longrightarrow> L = filter (\<lambda>x. c x (v ! p)) v \<and> R = filter (\<lambda>x. \<not> c x (v ! p)) v))"
    using stable_partition_run [OF assms(1,2), of cl small freeze s g] by blast
  show ?thesis using f
  proof (elim disjE exE conjE)
    assume "f = Unwinds" "\<not> (\<exists>c. answers cl c)"
    then show ?thesis using r c by (intro permutes_Unwinds [of _ s' w]) auto
  next
    fix L R
    assume a: "f = Goes (length L)" "w = L @ R" "if g then L \<noteq> [] else R \<noteq> []"
      "\<forall>c. answers cl c \<and> c (v ! p) (v ! p) = g \<longrightarrow> L = filter (\<lambda>x. c x (v ! p)) v \<and> R = filter (\<lambda>x. \<not> c x (v ! p)) v"
    have LR: "L = filter (\<lambda>x. c x (v ! p)) v \<and> R = filter (\<lambda>x. \<not> c x (v ! p)) v" if "keyed is_less key" using a(4) c [OF that] by blast
    have wv: "w = v" if "keyed is_less key" "L = []" using LR [OF that(1)] that(2) a(2) by (metis append_Nil filter_empty_conv filter_id_conv)
    have "length L + length R = length v" using r(2) a(2) by (metis length_append size_mset)
    then have len: "length L \<le> length v" "R \<noteq> [] \<Longrightarrow> length L < length v" by (cases R; simp)+
    show ?thesis
    proof (intro permutesI [of _ s' w "length L"])
      show "stably key v w" if kd: "keyed is_less key" unfolding a(2) using LR [OF kd] c [OF kd] stably_filter [of "\<lambda>x. c x (v ! p)" key v] by simp
    qed (use r a(1-3) LR len wv in \<open>auto split: if_splits\<close>)
  qed
qed

lemma keyed_answers: "keyed is_less key \<Longrightarrow> answers is_less (\<lambda>a b. key a < key b)"
  by (simp add: keyed_def answers_def)

lemma keyed_not_greater: "keyed is_less key \<Longrightarrow> answers (not_greater is_less) (\<lambda>a b. key a \<le> key b)"
  unfolding keyed_def answers_def not_greater_def by (auto simp: not_less split: prod.split) (metis option.simps(9) snd_conv not_le)

lemma partition_less_permutes:
  assumes "p < length v" "length v \<le> sl"
  shows "permutes is_less key v (stable_partition is_less small freeze sl s v p False) (\<lambda>n w. n < length v
    \<and> (keyed is_less key \<longrightarrow> (\<forall>x\<in>set (take n w). key x < key (v ! p)) \<and> (\<forall>x\<in>set (drop n w). key (v ! p) \<le> key x) \<and> (n = 0 \<longrightarrow> w = v)))"
  by (rule permutes_weaken [OF stable_partition_permutes [OF assms, where c = "\<lambda>a b. key a < key b"]]) (use keyed_answers in auto)

lemma partition_equal_permutes:
  assumes "p < length v" "length v \<le> sl"
  shows "permutes is_less key v (stable_partition (not_greater is_less) small freeze sl s v p True) (\<lambda>n w. 0 < n \<and> n \<le> length v
    \<and> (keyed is_less key \<longrightarrow> (\<forall>x\<in>set (take n w). key x \<le> key (v ! p)) \<and> (\<forall>x\<in>set (drop n w). key (v ! p) < key x)))"
  by (rule permutes_weaken [OF stable_partition_permutes [OF assms, where c = "\<lambda>a b. key a \<le> key b"]]) (use keyed_not_greater in auto)

section \<open>Quicksort sorts\<close>

lemma equals_ancestor_permutes:
  assumes "p < length v"
  shows "permutes is_less key v (equals_ancestor is_less la s v p) (\<lambda>b w. w = v \<and> (b \<longrightarrow> (\<exists>a. la = Some a \<and> (keyed is_less key \<longrightarrow> key (v ! p) \<le> key a))))"
proof (cases la)
  case None
  then show ?thesis by (simp add: equals_ancestor_def permutes_Goes)
next
  case (Some a)
  obtain s1 r where q: "is_less s a (v ! p) = (s1, r)" by force
  have key: "r = Some (key a < key (v ! p))" if "keyed is_less key" using keyed_answer [OF that q] .
  show ?thesis
  proof (cases r)
    case None
    then show ?thesis using q Some key by (intro permutes_Unwinds [of _ s1 v]) (auto simp: equals_ancestor_def)
  next
    case (Some b)
    then show ?thesis using q \<open>la = Some a\<close> key by (auto simp: equals_ancestor_def intro!: permutes_Goes)
  qed
qed

lemma min_good_run_len_pos: "2 \<le> n \<Longrightarrow> 0 < min_good_run_len n"
proof (cases "n \<le> MIN_SQRT_RUN_LEN * MIN_SQRT_RUN_LEN")
  case False
  assume "2 \<le> n"
  define k where "k = (1 + ilog2 (n OR 1)) div 2"
  have "2 \<le> n OR 1" using \<open>2 \<le> n\<close> by (simp add: or_Suc_0_eq)
  then have "1 \<le> ilog2 (n OR 1)" by (subst ilog2.simps) simp
  then have "1 \<le> k" by (simp add: k_def)
  then have "2 ^ 1 \<le> (2 :: nat) ^ k" by (rule power_increasing) simp
  then have "2 \<le> 2 ^ k + n div 2 ^ k" by simp
  then show ?thesis using False unfolding min_good_run_len_def sqrt_approx_def k_def [symmetric] Let_def by simp
qed (simp add: min_good_run_len_def MIN_SQRT_RUN_LEN_def)

lemma quicksort_small:
  assumes "length v \<le> small_sort_threshold freeze" "SMALL_SORT_GENERAL_SCRATCH_LEN \<le> sl" "0 < n"
  shows "sorts is_less key v (quicksort n is_less small freeze sl limit la s v)"
  using assms small_sort_sorts [OF assms(1,2), of is_less key small s] by (cases n) simp_all

declare quicksort.simps(2) [simp del]

text \<open>Sorting what is right of a partition, and then what is left of it.\<close>

lemma sort_right:
  assumes n: "n \<le> length w" and m: "sorts is_less key (drop n w) (m (drop n w))"
    and parted: "keyed is_less key \<Longrightarrow> (\<forall>x\<in>set (take n w). \<forall>y\<in>set (drop n w). key x \<le> key y)"
  shows "permutes is_less key w (on_slice n (length w) w m) (\<lambda>_ z. take n z = take n w
    \<and> (keyed is_less key \<longrightarrow> sorted (map key (drop n z)) \<and> (\<forall>x\<in>set (take n z). \<forall>y\<in>set (drop n z). key x \<le> key y)))"
proof -
  have "permutes is_less key (take (length w - n) (drop n w)) (m (take (length w - n) (drop n w))) (\<lambda>_ u. keyed is_less key \<longrightarrow> sorted (map key u))"
    using m by (simp add: sorts_def)
  then show ?thesis
  proof (rule permutes_on_slice [OF n order_refl], goal_cases)
    case (1 r u)
    have "set u = set (drop n w)" using mset_eq_setD [OF 1(1)] by simp
    then show ?case using 1(3) n parted by auto
  qed
qed

lemma sort_sides:
  assumes n: "n \<le> length w" and m: "sorts is_less key (drop n w) (m (drop n w))" "\<And>s. sorts is_less key (take n w) (k s (take n w))"
    and parted: "keyed is_less key \<Longrightarrow> (\<forall>x\<in>set (take n w). \<forall>y\<in>set (drop n w). key x \<le> key y)"
  shows "sorts is_less key w (if_goes (on_slice n (length w) w m) (\<lambda>s z _. on_slice 0 n z (k s)))"
  unfolding sorts_def
proof (rule permutes_if_goes [OF sort_right [OF n, of is_less key m]], goal_cases)
  case (3 s z r)
  have "length z = length w" using mset_eq_length [OF 3(1)] .
  then have nz: "n \<le> length z" using n by simp
  have "permutes is_less key (take (n - 0) (drop 0 z)) (k s (take (n - 0) (drop 0 z))) (\<lambda>_ u. keyed is_less key \<longrightarrow> sorted (map key u))"
    using m(2) [of s] 3(3) by (simp add: sorts_def)
  then show ?case
  proof (rule permutes_on_slice [OF le0 nz], goal_cases)
    case (1 r u)
    have "set u = set (take n z)" using mset_eq_setD [OF 1(1)] by simp
    then show ?case using 1(3) 3(3) by (auto simp: sorted_append)
  qed
qed (use m(1) parted in auto)

text \<open>The turn that moves the elements equal to the pivot to the left.\<close>

lemma equal_turn_sorts:
  assumes p: "p < length v" "length v \<le> sl" and least: "keyed is_less key \<Longrightarrow> \<forall>x\<in>set v. key (v ! p) \<le> key x"
    and k: "\<And>s u. length u \<le> length v \<Longrightarrow> sorts is_less key u (k s u)"
  shows "sorts is_less key v (if_goes (stable_partition (not_greater is_less) small freeze sl s v p True) (\<lambda>s v mid_eq. on_slice mid_eq (length v) v (k s)))"
  unfolding sorts_def
proof (rule permutes_if_goes [OF partition_equal_permutes [OF p]], goal_cases)
  case (1 s1 w n)
  have len: "length w = length v" using mset_eq_length [OF 1(1)] .
  have sw: "set w = set v" using mset_eq_setD [OF 1(1)] .
  have eq: "key x = key (v ! p)" if "keyed is_less key" "x \<in> set (take n w)" for x
    using least [OF that(1)] 1(3) that sw in_set_takeD [OF that(2)] by (auto intro: order_antisym)
  have "sorted (map key (take n w))" if kd: "keyed is_less key"
  proof -
    have "map key (take n w) = map (\<lambda>_. key (v ! p)) (take n w)" using eq [OF kd] by (intro map_cong refl) auto
    then show ?thesis by (simp add: map_replicate_const)
  qed
  then have fin: "keyed is_less key \<longrightarrow> sorted (map key z)"
    if "take n z = take n w" "keyed is_less key \<longrightarrow> sorted (map key (drop n z)) \<and> (\<forall>x\<in>set (take n z). \<forall>y\<in>set (drop n z). key x \<le> key y)" for z
  proof -
    have "map key z = map key (take n z) @ map key (drop n z)" by (simp flip: map_append)
    then show ?thesis using that \<open>_ \<Longrightarrow> sorted (map key (take n w))\<close> by (auto simp: sorted_append)
  qed
  have "permutes is_less key w (on_slice n (length w) w (k s1)) (\<lambda>_ z. take n z = take n w
    \<and> (keyed is_less key \<longrightarrow> sorted (map key (drop n z)) \<and> (\<forall>x\<in>set (take n z). \<forall>y\<in>set (drop n z). key x \<le> key y)))"
    by (rule sort_right) (use 1(3) len k eq in \<open>auto intro: order.strict_implies_order\<close>)
  then show ?case by (rule permutes_weaken) (use fin in blast)
qed

lemma quicksort_sorts:
  fixes key :: "'a \<Rightarrow> 'k :: linorder"
  shows "limit + 2 \<le> n \<Longrightarrow> SMALL_SORT_GENERAL_SCRATCH_LEN \<le> sl \<Longrightarrow> length v \<le> sl \<Longrightarrow> length v < isize_bound
    \<Longrightarrow> (\<And>a. keyed is_less key \<Longrightarrow> la = Some a \<Longrightarrow> \<forall>x\<in>set v. key a \<le> key x)
    \<Longrightarrow> sorts is_less key v (quicksort n is_less small freeze sl limit la s v)"
proof (induction n arbitrary: v limit la s)
  case (Suc n)
  let ?thr = "small_sort_threshold freeze"
  consider "length v \<le> ?thr" | "\<not> length v \<le> ?thr" "limit = 0" | "\<not> length v \<le> ?thr" "limit \<noteq> 0" by blast
  then show ?case
  proof cases
    case 1
    then show ?thesis by (rule quicksort_small [OF _ Suc.prems(2)]) simp
  next
    case 2
    have thr: "16 \<le> ?thr"
      by (simp add: small_sort_threshold_def SMALL_SORT_GENERAL_THRESHOLD_def SMALL_SORT_FALLBACK_THRESHOLD_def)
    have "run_sorter is_less key (\<lambda>limit. quicksort n is_less small freeze sl limit None) freeze sl True"
      by (rule run_sorter.intro) (use Suc.prems(1,2) in \<open>simp_all add: quicksort_small [where n = n]\<close>)
    then have "sorts is_less key v (drift_sort (\<lambda>limit. quicksort n is_less small freeze sl limit None) is_less freeze sl True s v)"
      by (rule run_sorter.drift_sort_sorts) (use 2(1) thr Suc.prems in \<open>auto intro: min_good_run_len_pos\<close>)
    then show ?thesis using 2 by (simp add: quicksort.simps(2))
  next
    case 3
    have len: "8 \<le> length v"
      using 3(1) by (simp add: small_sort_threshold_def SMALL_SORT_GENERAL_THRESHOLD_def SMALL_SORT_FALLBACK_THRESHOLD_def split: if_splits)
    have ih: "sorts is_less key u (quicksort n is_less small freeze sl (limit - 1) la' s u)"
      if "length u \<le> length v" "\<And>a. keyed is_less key \<Longrightarrow> la' = Some a \<Longrightarrow> \<forall>x\<in>set u. key a \<le> key x" for s u la'
      by (rule Suc.IH) (use that 3(2) Suc.prems(1-4) in auto)
    have "permutes is_less key v (if_goes (choose_pivot is_less s v) (\<lambda>s v pivot_pos.
        if length v \<le> pivot_pos then UB
        else let pivot = v ! pivot_pos
          in if_goes (equals_ancestor is_less la s v pivot_pos) (\<lambda>s v eq.
            if_goes (if eq then Ret (s, v, Goes 0) else stable_partition is_less small freeze sl s v pivot_pos False) (\<lambda>s v left_partition_len.
              if eq \<or> left_partition_len = 0
              then if_goes (stable_partition (not_greater is_less) small freeze sl s v pivot_pos True) (\<lambda>s v mid_eq.
                on_slice mid_eq (length v) v (quicksort n is_less small freeze sl (limit - 1) None s))
              else if_goes (on_slice left_partition_len (length v) v
                  (quicksort n is_less small freeze sl (limit - 1) (if freeze then Some pivot else None) s)) (\<lambda>s v _.
                on_slice 0 left_partition_len v (quicksort n is_less small freeze sl (limit - 1) la s))))))
      (\<lambda>_ w. keyed is_less key \<longrightarrow> sorted (map key w))"
    proof (rule permutes_if_goes [OF choose_pivot_permutes [OF len]], goal_cases)
      case (1 s1 w p)
      then have w: "w = v" and p: "p < length v" by auto
      have "permutes is_less key v (if_goes (equals_ancestor is_less la s1 v p) (\<lambda>s w eq.
            if_goes (if eq then Ret (s, w, Goes 0) else stable_partition is_less small freeze sl s w p False) (\<lambda>s w n'.
              if eq \<or> n' = 0
              then if_goes (stable_partition (not_greater is_less) small freeze sl s w p True) (\<lambda>s v mid_eq.
                on_slice mid_eq (length v) v (quicksort n is_less small freeze sl (limit - 1) None s))
              else if_goes (on_slice n' (length w) w
                  (quicksort n is_less small freeze sl (limit - 1) (if freeze then Some (v ! p) else None) s)) (\<lambda>s v _.
                on_slice 0 n' v (quicksort n is_less small freeze sl (limit - 1) la s)))))
        (\<lambda>_ w. keyed is_less key \<longrightarrow> sorted (map key w))"
      proof (rule permutes_if_goes [OF equals_ancestor_permutes [OF p]], goal_cases)
        case (1 s2 w2 eq)
        then have w2: "w2 = v" and eq: "eq \<Longrightarrow> \<exists>a. la = Some a \<and> (keyed is_less key \<longrightarrow> key (v ! p) \<le> key a)" by auto
        have least: "\<forall>x\<in>set v. key (v ! p) \<le> key x" if "keyed is_less key" eq
          using eq [OF that(2)] Suc.prems(5) [OF that(1)] that(1) by (auto intro: order_trans)
        have part: "permutes is_less key v (if eq then Ret (s2, v, Goes 0) else stable_partition is_less small freeze sl s2 v p False)
          (\<lambda>m w. m < length v \<and> (eq \<longrightarrow> w = v) \<and> (keyed is_less key \<and> \<not> eq \<longrightarrow> (\<forall>x\<in>set (take m w). key x < key (v ! p)) \<and> (\<forall>x\<in>set (drop m w). key (v ! p) \<le> key x) \<and> (m = 0 \<longrightarrow> w = v)))"
        proof (cases eq)
          case True
          then show ?thesis using p by (auto intro!: permutes_Goes)
        next
          case False
          have "permutes is_less key v (stable_partition is_less small freeze sl s2 v p False)
            (\<lambda>m w. m < length v \<and> (eq \<longrightarrow> w = v) \<and> (keyed is_less key \<and> \<not> eq \<longrightarrow> (\<forall>x\<in>set (take m w). key x < key (v ! p)) \<and> (\<forall>x\<in>set (drop m w). key (v ! p) \<le> key x) \<and> (m = 0 \<longrightarrow> w = v)))"
            by (rule permutes_weaken [OF partition_less_permutes [OF p Suc.prems(3)]]) (use False in auto)
          then show ?thesis using False by simp
        qed
        show ?case unfolding w2
        proof (rule permutes_if_goes [OF part], goal_cases)
          case (1 s3 z m)
          have lz: "length z = length v" and sz: "set z = set v" using mset_eq_length [OF 1(1)] mset_eq_setD [OF 1(1)] .
          show ?case
          proof (cases "eq \<or> m = 0")
            case True
            have zv: "z = v \<and> (\<forall>x\<in>set v. key (v ! p) \<le> key x)" if "keyed is_less key" using least 1(3) True that by (cases eq) auto
            have "sorts is_less key z (if_goes (stable_partition (not_greater is_less) small freeze sl s3 z p True) (\<lambda>s v mid_eq.
                on_slice mid_eq (length v) v (quicksort n is_less small freeze sl (limit - 1) None s)))"
              by (rule equal_turn_sorts) (use p lz Suc.prems(3) zv ih in auto)
            then show ?thesis using True by (simp add: sorts_def)
          next
            case False
            have "sorts is_less key z (if_goes (on_slice m (length z) z
                  (quicksort n is_less small freeze sl (limit - 1) (if freeze then Some (v ! p) else None) s3)) (\<lambda>s v _.
                on_slice 0 m v (quicksort n is_less small freeze sl (limit - 1) la s)))"
            proof (rule sort_sides)
              show "m \<le> length z" using 1(3) lz by simp
              show "sorts is_less key (drop m z) (quicksort n is_less small freeze sl (limit - 1) (if freeze then Some (v ! p) else None) s3 (drop m z))"
                by (rule ih) (use 1(3) False lz in \<open>auto split: if_splits\<close>)
              show "sorts is_less key (take m z) (quicksort n is_less small freeze sl (limit - 1) la s (take m z))" for s
                by (rule ih) (use Suc.prems(5) lz sz in \<open>auto dest: in_set_takeD\<close>)
              show "\<forall>x\<in>set (take m z). \<forall>y\<in>set (drop m z). key x \<le> key y" if "keyed is_less key"
                using 1(3) False that by fastforce
            qed
            then show ?thesis using False by (simp add: sorts_def)
          qed
        qed
      qed
      then show ?case using p by (simp add: w Let_def)
    qed
    then show ?thesis using 3 by (simp add: quicksort.simps(2) sorts_def)
  qed
qed simp


section \<open>The stable sort\<close>

lemma ilog2_limit:
  assumes "n < isize_bound"
  shows "2 * ilog2 (n OR 1) + 2 \<le> quicksort_fuel"
proof -
  have "even isize_bound" by (simp add: isize_bound_def)
  then have "n OR 1 < isize_bound" using assms by (cases "Suc n = isize_bound") (auto simp: or_Suc_0_eq dest: arg_cong [of _ _ even])
  moreover have "0 < n OR 1" by (cases "even n") (auto simp: or_Suc_0_eq intro: odd_pos)
  then have "2 ^ ilog2 (n OR 1) \<le> n OR 1" using ilog2_bounds by blast
  ultimately have "(2 :: nat) ^ ilog2 (n OR 1) < 2 ^ 63" by (simp add: isize_bound_def)
  then have "ilog2 (n OR 1) < 63" by (rule power_less_imp_less_exp [rotated]) simp
  then show ?thesis by (simp add: quicksort_fuel_def)
qed

interpretation drift: run_sorter is_less key "\<lambda>limit. quicksort quicksort_fuel is_less small freeze (max SMALL_SORT_GENERAL_SCRATCH_LEN sl) limit None"
    freeze "max SMALL_SORT_GENERAL_SCRATCH_LEN sl" eager
  for is_less :: "('s, 'a) is_less" and key :: "'a \<Rightarrow> 'k :: linorder" and small freeze sl eager
proof (unfold_locales, goal_cases)
  case (1 u s)
  then show ?case by (rule quicksort_small) (simp_all add: quicksort_fuel_def)
next
  case (2 u s)
  then show ?case using ilog2_limit [of "length u"] by (intro quicksort_sorts) simp_all
qed

text \<open>The lengths for which the shortest unsorted run is longer than half of the slice.\<close>

lemma sqrt_approx_le:
  assumes "4096 < n"
  shows "sqrt_approx n \<le> n div 2"
proof -
  define k where "k = ilog2 (n OR 1)"
  define h where "h = (1 + k) div 2"
  have "0 < n OR 1" using assms by (simp add: or_Suc_0_eq)
  then have k: "2 ^ k \<le> n OR 1" "n OR 1 < 2 ^ Suc k" unfolding k_def using ilog2_bounds by blast+
  have n: "n \<le> n OR 1" "n OR 1 \<le> n + 1" by (simp_all add: or_Suc_0_eq)
  have "(2 :: nat) ^ 12 < 2 ^ Suc k" using k(2) n(1) assms by simp
  then have "12 < Suc k" by (rule power_less_imp_less_exp [rotated]) simp
  then have h: "2 \<le> h" "h \<le> k - 1" by (auto simp: h_def)
  have "(2 :: nat) ^ h \<le> 2 ^ (k - 1)" using h(2) by (rule power_increasing) simp
  moreover have "2 * (2 :: nat) ^ (k - 1) = 2 ^ k" using \<open>12 < Suc k\<close> by (cases k) simp_all
  ultimately have a: "2 * 2 ^ h \<le> n + 1" using k(1) n(2) by linarith
  have "(2 :: nat) ^ 2 \<le> 2 ^ h" using h(1) by (rule power_increasing) simp
  then have "n div 2 ^ h \<le> n div 4" by (intro div_le_mono2) auto
  then have "2 ^ h + n div 2 ^ h \<le> n" using a assms by linarith
  then show ?thesis unfolding sqrt_approx_def k_def [symmetric] h_def [symmetric] Let_def by (rule div_le_mono)
qed

lemma min_good_run_len_fits:
  assumes "\<not> (odd n \<and> 97 \<le> n \<and> n \<le> 127 \<and> MAX_FULL_ALLOC_BYTES div bytes \<le> n div 2)"
  shows "min_good_run_len n \<le> alloc_len bytes n"
proof (cases "n \<le> 4096")
  case True
  then have g: "min_good_run_len n = min (n - n div 2) 64" by (simp add: min_good_run_len_def MIN_SQRT_RUN_LEN_def)
  consider "n \<le> 96" | "128 \<le> n" | "even n" | "97 \<le> n" "n \<le> 127" "n div 2 < MAX_FULL_ALLOC_BYTES div bytes" using assms by force
  then show ?thesis
  proof cases
    case 1
    then have "n - n div 2 \<le> 48" by linarith
    then show ?thesis unfolding g alloc_len_def by (simp add: SMALL_SORT_GENERAL_SCRATCH_LEN_def SMALL_SORT_GENERAL_THRESHOLD_def)
  next
    case 2
    then have "64 \<le> n div 2" by linarith
    then show ?thesis unfolding g alloc_len_def by linarith
  next
    case 3
    then have "n - n div 2 = n div 2" by presburger
    then show ?thesis unfolding g alloc_len_def by linarith
  next
    case 4
    then have "n - n div 2 \<le> min n (MAX_FULL_ALLOC_BYTES div bytes)" by linarith
    then show ?thesis unfolding g alloc_len_def by linarith
  qed
next
  case False
  then have "min_good_run_len n \<le> n div 2" using sqrt_approx_le [of n] by (simp add: min_good_run_len_def MIN_SQRT_RUN_LEN_def)
  then show ?thesis unfolding alloc_len_def by linarith
qed

lemma driftsort_main_sorts:
  fixes key :: "'a \<Rightarrow> 'k :: linorder"
  assumes v: "2 \<le> length v" "length v < isize_bound"
    and fits: "\<not> (odd (length v) \<and> 97 \<le> length v \<and> length v \<le> 127 \<and> MAX_FULL_ALLOC_BYTES div bytes \<le> length v div 2)"
    and cap: "\<exists>m\<ge>alloc_len bytes (length v). with_capacity (alloc_len bytes (length v)) = Ret m"
  shows "sorts is_less key v (driftsort_main is_less bytes freeze with_capacity s v)"
proof -
  obtain sl where sl: "(if alloc_len bytes (length v) \<le> stack_scratch_len bytes then Ret (stack_scratch_len bytes)
         else with_capacity (alloc_len bytes (length v))) = Ret sl" "alloc_len bytes (length v) \<le> sl" using cap by (cases "alloc_len bytes (length v) \<le> stack_scratch_len bytes") auto
  have m: "max SMALL_SORT_GENERAL_SCRATCH_LEN sl = sl" "length v div 2 \<le> sl" using sl(2) by (simp_all add: alloc_len_def)
  have "sorts is_less key v (drift_sort (\<lambda>limit. quicksort quicksort_fuel is_less (bytes \<le> 16) freeze sl limit None) is_less freeze sl
         (length v \<le> small_sort_threshold freeze * 2) s v)"
    using drift.drift_sort_sorts [of v sl _ is_less key "bytes \<le> 16" freeze s, unfolded m(1)] v m(2) sl(2)
      min_good_run_len_fits [OF fits] min_good_run_len_pos [OF v(1)] by simp
  then show ?thesis unfolding driftsort_main_def sl(1) by simp
qed


text \<open>C34: the stable sort of a slice. Whatever the closure answers and whenever it panics, the sort ends without undefined
  behaviour, without an abort of the process and within its fuel, and leaves a permutation of the slice; it
  unwinds only if the closure does not compare keys. If the closure compares keys, the slice is then the stably
  sorted one. The slice obeys the limit of the language for its size in bytes, and the
  buffer has at least the capacity that is asked for. Excluded are odd lengths from 97 to 127 with elements
  so large that at most half of the slice, rounded down, fits into eight million bytes: for them the scratch
  space may be too short (see \<open>stable_sort_aborts\<close>).\<close>

theorem stable_sort_sorts:
  fixes key :: "'a \<Rightarrow> 'k :: linorder"
  assumes bytes: "0 < bytes" "length v * bytes < isize_bound"
    and with_capacity: "\<And>n. \<exists>m\<ge>n. with_capacity n = Ret m"
    and scratch: "\<not> (odd (length v) \<and> 97 \<le> length v \<and> length v \<le> 127 \<and> MAX_FULL_ALLOC_BYTES div bytes \<le> length v div 2)"
  shows "\<exists>s' w f. stable_sort is_less bytes freeze with_capacity s v = Ret (s', w, f) \<and> mset w = mset v
    \<and> (f = Goes () \<or> f = Unwinds \<and> \<not> keyed is_less key) \<and> (keyed is_less key \<longrightarrow> w = sort_key key v)"
proof -
  have len: "length v < isize_bound" using bytes by (metis Suc_leI less_le_trans mult_le_mono2 mult.right_neutral not_le One_nat_def)
  have "sorts is_less key v (stable_sort is_less bytes freeze with_capacity s v)"
  proof (cases "length v < 2")
    case True
    then have "sorted (map key v)" by (cases v) auto
    then show ?thesis using True by (simp add: stable_sort_def sorts_def permutes_Goes)
  next
    case False
    then show ?thesis using bytes(1) insertion_sort_sorts [of v is_less key s]
        driftsort_main_sorts [OF _ len scratch, of with_capacity is_less key freeze s] with_capacity by (simp add: stable_sort_def)
  qed
  then show ?thesis by (simp only: sorts_sort_key)
qed

lemma keyed_nat: "keyed (\<lambda>s a b. (s, Some (a < (b :: nat)))) (\<lambda>x. x)"
  by (simp add: keyed_def)

theorem stable_sort_sorts_witness:
  "stable_sort (\<lambda>s a b. (s, Some (a < b))) 8 True Ret () (rev [0..<200]) = Ret ((), [0..<200 :: nat], Goes ())"
proof -
  have "\<exists>s' w f. stable_sort (\<lambda>s a b. (s, Some (a < b))) 8 True Ret () (rev [0..<200 :: nat]) = Ret (s', w, f) \<and> mset w = mset (rev [0..<200 :: nat])
    \<and> (f = Goes () \<or> f = Unwinds \<and> \<not> keyed (\<lambda>(s :: unit) a b. (s, Some (a < (b :: nat)))) (\<lambda>x. x))
    \<and> (keyed (\<lambda>(s :: unit) a b. (s, Some (a < (b :: nat)))) (\<lambda>x. x) \<longrightarrow> w = sort (rev [0..<200]))"
    by (rule stable_sort_sorts) (simp_all add: isize_bound_def)
  moreover have "sort (rev [0..<200 :: nat]) = [0..<200]" by (rule properties_for_sort) simp_all
  ultimately show ?thesis using keyed_nat by fastforce
qed

section \<open>The scratch space that is too short\<close>

lemma if_goes_simps:
  "if_goes (Ret (s, v, Goes r)) k = k s v r" "if_goes (Ret (s, v, Aborts)) k = Ret (s, v, Aborts)"
  by (simp_all add: if_goes_def)

lemma quicksort_aborts:
  assumes "keyed is_less key" "small_sort_threshold freeze < length u" "limit \<noteq> 0" "sl < length u"
  shows "\<exists>s'. quicksort (Suc n) is_less small freeze sl limit None s u = Ret (s', u, Aborts)"
proof -
  have "8 \<le> length u" using assms(2)
    by (simp add: small_sort_threshold_def SMALL_SORT_GENERAL_THRESHOLD_def SMALL_SORT_FALLBACK_THRESHOLD_def split: if_splits)
  then have "permutes is_less key u (choose_pivot is_less s u) (\<lambda>r w. w = u \<and> r < length u)" by (rule choose_pivot_permutes)
  then obtain s1 p where "choose_pivot is_less s u = Ret (s1, u, Goes p)" "p < length u"
    using assms(1) by (cases rule: permutesE) auto
  then show ?thesis using assms(2-4)
    by (simp add: quicksort.simps(2) if_goes_simps equals_ancestor_def stable_partition_def)
qed

text \<open>A run that is too short is not taken, whatever follows.\<close>

lemma compare_at_keyed:
  assumes "keyed is_less key" "i < length v" "j < length v"
  obtains s' where "compare_at is_less s v i j = Ret (s', v, Goes (key (v ! i) < key (v ! j)))"
  using compare_at_permutes [OF assms(2,3), of is_less key s] assms(1) by (cases rule: permutesE) auto

lemma create_run_lazy:
  assumes kd: "keyed is_less key" and v: "mg \<le> length v \<Longrightarrow> 3 \<le> length v \<and> 2 < mg \<and> key (v ! 0) \<le> key (v ! 1) \<and> key (v ! 2) < key (v ! 1)"
  shows "\<exists>s'. create_run qs is_less freeze mg False s v = Ret (s', v, Goes (new_unsorted (min mg (length v))))"
proof (cases "mg \<le> length v")
  case True
  note w = v [OF True]
  then have len: "1 < length v" "0 < length v" "2 < length v" by auto
  obtain s1 where 1: "compare_at is_less s v 1 0 = Ret (s1, v, Goes (key (v ! 1) < key (v ! 0)))" using compare_at_keyed [OF kd len(1,2)] .
  obtain s2 where 2: "compare_at is_less s1 v 2 1 = Ret (s2, v, Goes (key (v ! 2) < key (v ! 1)))" using compare_at_keyed [OF kd len(3,1)] .
  obtain n where n: "length v - 2 = Suc n" using len(3) by (metis Suc_diff_Suc)
  have "find_existing_run is_less s v = Ret (s2, v, Goes (2, False))"
    using w 1 2 n by (auto simp: find_existing_run_def if_goes_simps numeral_2_eq_2 [symmetric] not_less [symmetric])
  then show ?thesis using True w by (simp add: create_run_def if_goes_simps)
qed (simp add: create_run_def if_goes_simps)

lemma drift_loop_aborts:
  assumes kd: "keyed is_less key" and len: "length v = 2 * h + 1" "48 \<le> h" "h < 64"
    and run: "key (v ! 0) \<le> key (v ! 1)" "key (v ! 2) < key (v ! 1)" and thr: "small_sort_threshold freeze < h + 1"
  shows "\<exists>s' w. drift_loop (Suc (Suc (Suc m))) (\<lambda>limit. quicksort (Suc n) is_less small freeze h limit None) is_less freeze h (h + 1) False f
    0 [] (new_sorted 0) s v = Ret (s', w, Aborts)"
proof -
  let ?qs = "\<lambda>limit. quicksort (Suc n) is_less small freeze h limit None"
  have b: "h + 1 < isize_bound" "h < isize_bound" using len by (simp_all add: isize_bound_def)
  note r = run_new [OF b(1)] run_new [OF b(2)]
  have z: "run_len (new_sorted 0) = 0" by simp
  obtain s1 where 1: "create_run ?qs is_less freeze (h + 1) False s v = Ret (s1, v, Goes (new_unsorted (h + 1)))"
    using create_run_lazy [OF kd, of "h + 1" v ?qs freeze s] len run by auto
  obtain s2 where 2: "create_run ?qs is_less freeze (h + 1) False s1 (drop (h + 1) v) = Ret (s2, drop (h + 1) v, Goes (new_unsorted h))"
    using create_run_lazy [OF kd, of "h + 1" "drop (h + 1) v" ?qs freeze s1] len by auto
  have "2 * ilog2 (length (take (h + 1) v) OR 1) \<noteq> 0"
    using len by (subst ilog2.simps) (simp add: or_Suc_0_eq)
  then obtain s3 where 3: "stable_quicksort ?qs s2 (take (h + 1) v) = Ret (s3, take (h + 1) v, Aborts)"
    unfolding stable_quicksort_def using quicksort_aborts [OF kd, of freeze "take (h + 1) v" "2 * ilog2 (length (take (h + 1) v) OR 1)" h n small s2] thr len by auto
  have lm: "logical_merge ?qs is_less h (new_unsorted (h + 1)) (new_unsorted h) s2 v = Ret (s3, v, Aborts)"
    using 3 len r by (simp add: logical_merge_def on_slice_def if_goes_simps)
  have on1: "on_slice 0 (length v) v (create_run ?qs is_less freeze (h + 1) False s) = Ret (s1, v, Goes (new_unsorted (h + 1)))"
    using 1 by (simp add: on_slice_def)
  have on2: "on_slice (h + 1) (length v) v (create_run ?qs is_less freeze (h + 1) False s1) = Ret (s2, v, Goes (new_unsorted h))"
    using 2 len by (simp add: on_slice_def)
  have on3: "on_slice 0 (length v) v (logical_merge ?qs is_less h (new_unsorted (h + 1)) (new_unsorted h) s2) = Ret (s3, v, Aborts)"
    using lm by (simp add: on_slice_def)
  have l3: "drift_loop (Suc m) ?qs is_less freeze h (h + 1) False f (length v) [(new_unsorted (h + 1), d1), (new_sorted 0, d0)] (new_unsorted h) s2 v
      = Ret (s3, v, Aborts)" for d0 d1
    using on3 r len by (simp add: if_goes_simps)
  have e: "Suc (h + h) = length v" "Suc h < length v" "0 < length v" using len by simp_all
  have l2: "drift_loop (Suc (Suc m)) ?qs is_less freeze h (h + 1) False f (h + 1) [(new_sorted 0, d0)] (new_unsorted (h + 1)) s1 v = Ret (s3, v, Aborts)" for d0
    unfolding drift_loop.simps(2) [of "Suc m"] using on2 r l3 e by (simp add: if_goes_simps del: drift_loop.simps)
  have "drift_loop (Suc (Suc (Suc m))) ?qs is_less freeze h (h + 1) False f 0 [] (new_sorted 0) s v = Ret (s3, v, Aborts)"
    unfolding drift_loop.simps(2) [of "Suc (Suc m)"] using on1 r z l2 e by (simp add: if_goes_simps del: drift_loop.simps)
  then show ?thesis by blast
qed


text \<open>C35: slices whose sort aborts the process. The slice has an odd length from 97 to 127, its elements are so large that
  at most half of the slice, rounded down, fits into the eight million bytes of the largest full-length scratch
  space, and its first two elements are in order but the third is less than the second, so that it does
  not begin with a sorted run. Then the scratch space is half the length, rounded down, one less than the
  length of the first run, which is not sorted: the partition finds the scratch space too short and aborts, although the
  closure compares keys, the buffer has the capacity that is asked for, and the comment of \<open>drift.rs\<close> calls half of
  the length enough.\<close>

theorem stable_sort_aborts:
  fixes key :: "'a \<Rightarrow> 'k :: linorder"
  assumes "keyed is_less key" and len: "odd (length v)" "97 \<le> length v" "length v \<le> 127"
    and bytes: "0 < bytes" "MAX_FULL_ALLOC_BYTES div bytes \<le> length v div 2"
    and run: "key (v ! 0) \<le> key (v ! 1)" "key (v ! 2) < key (v ! 1)"
  shows "\<exists>s' w. stable_sort is_less bytes freeze Ret s v = Ret (s', w, Aborts)"
proof -
  define h where "h = length v div 2"
  have h: "length v = 2 * h + 1" "48 \<le> h" "h < 64" using len unfolding h_def by presburger+
  have mg: "min_good_run_len (length v) = h + 1" using h by (simp add: min_good_run_len_def MIN_SQRT_RUN_LEN_def)
  have al: "alloc_len bytes (length v) = h"
    using h bytes(2) unfolding alloc_len_def h_def [symmetric] SMALL_SORT_GENERAL_SCRATCH_LEN_def SMALL_SORT_GENERAL_THRESHOLD_def by linarith
  have "bytes * 64 > 8000000"
    using bytes h(3) unfolding h_def [symmetric] MAX_FULL_ALLOC_BYTES_def by (metis div_less_iff_less_mult le_less_trans mult.commute)
  then have st: "stack_scratch_len bytes = 0" by (simp add: stack_scratch_len_def)
  have thr: "small_sort_threshold freeze < h + 1" "\<not> length v \<le> small_sort_threshold freeze * 2"
    using h by (simp_all add: small_sort_threshold_def SMALL_SORT_GENERAL_THRESHOLD_def SMALL_SORT_FALLBACK_THRESHOLD_def)
  have fuel: "quicksort_fuel = Suc 199" by (simp add: quicksort_fuel_def)
  have "Suc (length v) = Suc (Suc (Suc (length v - 2)))" using len by simp
  then obtain s' w where "drift_loop (Suc (length v)) (\<lambda>limit. quicksort quicksort_fuel is_less (bytes \<le> 16) freeze h limit None) is_less freeze h (h + 1) False
      (merge_tree_scale_factor (length v)) 0 [] (new_sorted 0) s v = Ret (s', w, Aborts)"
    using drift_loop_aborts [OF assms(1) h run thr(1), of "length v - 2" 199 "bytes \<le> 16" "merge_tree_scale_factor (length v)" s] unfolding fuel by metis
  then have "driftsort_main is_less bytes freeze Ret s v = Ret (s', w, Aborts)"
    using al st thr(2) h mg by (simp add: driftsort_main_def drift_sort_def if_goes_simps del: drift_loop.simps)
  then show ?thesis using bytes(1) len by (simp add: stable_sort_def MAX_LEN_ALWAYS_INSERTION_SORT_def)
qed

theorem stable_sort_aborts_witness:
  "\<exists>s' w. stable_sort (\<lambda>s a b. (s, Some (a < b))) 200000 True Ret () (0 # 2 # 1 # replicate 94 (5 :: nat)) = Ret (s', w, Aborts)"
  by (rule stable_sort_aborts [OF keyed_nat]) (simp_all add: MAX_FULL_ALLOC_BYTES_def)

end
