(* ===== verification/Arc_Counts.thy ===== *)
theory Arc_Counts
  imports Thread_System Usize
begin

text \<open>
  The reference counts of \<open>Arc\<close> and \<open>Weak\<close> (\<open>library/alloc/src/sync.rs\<close>) for one
  allocation. An agent is a handle or a call on a borrowed handle; there may be any number of them, and one step is one atomic
  access, or one access to the value, of one agent. A call that takes a handle by value or by mutable reference needs a handle
  that no other call borrows. Beside the two counters the state says whether the value is there, and counts how often it was
  destroyed or moved out and how often the allocation was freed.
\<close>

definition MAX_REFCOUNT :: nat where
  "MAX_REFCOUNT = isize_max"

definition usize_max :: nat where
  "usize_max = usize_bound - 1"

text \<open>A number of threads that no machine has: how many may be between the increment and the check of a
  \<open>clone\<close> at once.\<close>

definition thread_limit :: nat where
  "thread_limit = 2 ^ 62"

datatype arc_pc =
    Idle
  | Strong_Ref
  | Weak_Ref
  | Building
  | Strong_Added nat
  | Weak_Added nat
  | Downgrade_Load nat
  | Downgrade nat nat
  | Upgrade_Load nat
  | Upgrade nat nat
  | Locked
  | Unlock bool
  | Mut_Ref
  | Destroy
  | Take
  | Sole
  | Restore
  | Weak_Drop
  | Dealloc
  | Forgotten_Strong
  | Forgotten_Weak

datatype arc_data = Uninit | Live | Gone

record arc_state =
  arc_strong :: nat
  arc_weak :: nat
  arc_data :: arc_data
  arc_pcs :: "nat \<Rightarrow> arc_pc"
  arc_aborted :: bool
  arc_destroyed :: nat
  arc_freed :: nat

section \<open>Operations\<close>

definition arc_new :: arc_state where
  "arc_new = \<lparr>arc_strong = 1, arc_weak = 1, arc_data = Live, arc_pcs = (\<lambda>_. Idle)(0 := Strong_Ref), arc_aborted = False,
     arc_destroyed = 0, arc_freed = 0\<rparr>"

definition arc_new_cyclic :: arc_state where
  "arc_new_cyclic = \<lparr>arc_strong = 0, arc_weak = 1, arc_data = Uninit, arc_pcs = (\<lambda>_. Idle)(0 := Building), arc_aborted = False,
     arc_destroyed = 0, arc_freed = 0\<rparr>"

text \<open>Every operation takes the value of the counter it accesses and gives the new value and where the agent goes on.\<close>

definition arc_clone :: "nat \<Rightarrow> nat \<times> arc_pc" where
  "arc_clone strong = (usize_wrapping_add strong 1, Strong_Added strong)"

definition weak_clone :: "nat \<Rightarrow> nat \<times> arc_pc" where
  "weak_clone weak = (usize_wrapping_add weak 1, Weak_Added weak)"

definition downgrade :: "bool \<Rightarrow> nat \<Rightarrow> nat \<Rightarrow> nat \<Rightarrow> nat \<times> arc_pc" where
  "downgrade ok h cur weak =
     (if cur = usize_max then (weak, Downgrade_Load h)
      else if \<not> cur \<le> MAX_REFCOUNT then (weak, Idle)
      else if ok then (case compare_exchange weak cur (cur + 1) of
          (Inr _, weak) \<Rightarrow> (weak, Weak_Ref)
        | (Inl old, weak) \<Rightarrow> (weak, Downgrade h old))
      else (weak, Downgrade h weak))"

definition upgrade :: "bool \<Rightarrow> nat \<Rightarrow> nat \<Rightarrow> nat \<Rightarrow> nat \<times> arc_pc" where
  "upgrade ok h n strong =
     (if n = 0 then (strong, Idle)
      else if \<not> n \<le> MAX_REFCOUNT then (strong, Idle)
      else if ok then (case compare_exchange strong n (n + 1) of
          (Inr _, strong) \<Rightarrow> (strong, Strong_Ref)
        | (Inl old, strong) \<Rightarrow> (strong, Upgrade h old))
      else (strong, Upgrade h strong))"

definition arc_drop :: "nat \<Rightarrow> nat \<times> arc_pc" where
  "arc_drop strong = (usize_wrapping_sub strong 1, if strong \<noteq> 1 then Idle else Destroy)"

definition into_inner :: "nat \<Rightarrow> nat \<times> arc_pc" where
  "into_inner strong = (usize_wrapping_sub strong 1, if strong \<noteq> 1 then Idle else Take)"

definition try_unwrap :: "nat \<Rightarrow> nat \<times> arc_pc" where
  "try_unwrap strong = (case compare_exchange strong 1 0 of (Inl _, strong) \<Rightarrow> (strong, Strong_Ref) | (Inr _, strong) \<Rightarrow> (strong, Take))"

definition is_unique :: "nat \<Rightarrow> nat \<times> arc_pc" where
  "is_unique weak = (case compare_exchange weak 1 usize_max of (Inr _, weak) \<Rightarrow> (weak, Locked) | (Inl _, weak) \<Rightarrow> (weak, Strong_Ref))"

text \<open>If the handle is not the only one, \<open>make_mut\<close> clones the value through it and drops it, like any
  other use and drop of a handle.\<close>

definition make_mut :: "nat \<Rightarrow> nat \<times> arc_pc" where
  "make_mut strong = (case compare_exchange strong 1 0 of (Inl _, strong) \<Rightarrow> (strong, Strong_Ref) | (Inr _, strong) \<Rightarrow> (strong, Sole))"

definition weak_drop :: "nat \<Rightarrow> nat \<times> arc_pc" where
  "weak_drop weak = (usize_wrapping_sub weak 1, if weak = 1 then Dealloc else Idle)"

text \<open>The handle that a call borrows, with whether it is a strong one.\<close>

fun borrow_of :: "arc_pc \<Rightarrow> (bool \<times> nat) option" where
  "borrow_of (Downgrade_Load h) = Some (True, h)"
| "borrow_of (Downgrade h n) = Some (True, h)"
| "borrow_of (Upgrade_Load h) = Some (False, h)"
| "borrow_of (Upgrade h n) = Some (False, h)"
| "borrow_of _ = None"

definition over_limit :: "arc_pc \<Rightarrow> bool" where
  "over_limit p \<longleftrightarrow> (\<exists>n > MAX_REFCOUNT. p = Strong_Added n \<or> p = Weak_Added n)"

definition how_many :: "(arc_pc \<Rightarrow> bool) \<Rightarrow> (nat \<Rightarrow> arc_pc) \<Rightarrow> nat" where
  "how_many P f = card {t. P (f t)}"

text \<open>\<open>goto\<close> moves an agent.\<close>

definition goto :: "arc_state \<Rightarrow> nat \<Rightarrow> arc_pc \<Rightarrow> arc_state" where
  "goto s t p = s\<lparr>arc_pcs := (arc_pcs s)(t := p)\<rparr>"

definition unborrowed :: "arc_state \<Rightarrow> nat \<Rightarrow> bool" where
  "unborrowed s h \<longleftrightarrow> (\<forall>t b. borrow_of (arc_pcs s t) \<noteq> Some (b, h))"

inductive arc_step :: "arc_state \<Rightarrow> arc_state \<Rightarrow> bool" where
  clone: "arc_pcs s h = Strong_Ref \<Longrightarrow> arc_pcs s t = Idle \<Longrightarrow> how_many over_limit (arc_pcs s) < thread_limit \<Longrightarrow>
    arc_clone (arc_strong s) = (n, p) \<Longrightarrow> arc_step s (goto (s\<lparr>arc_strong := n\<rparr>) t p)"
| clone_weak: "arc_pcs s h = Weak_Ref \<or> arc_pcs s h = Building \<Longrightarrow> arc_pcs s t = Idle \<Longrightarrow> how_many over_limit (arc_pcs s) < thread_limit \<Longrightarrow>
    weak_clone (arc_weak s) = (n, p) \<Longrightarrow> arc_step s (goto (s\<lparr>arc_weak := n\<rparr>) t p)"
| cloned: "arc_pcs s t = Strong_Added old \<Longrightarrow>
    arc_step s (if old > MAX_REFCOUNT then s\<lparr>arc_aborted := True\<rparr> else goto s t Strong_Ref)"
| cloned_weak: "arc_pcs s t = Weak_Added old \<Longrightarrow>
    arc_step s (if old > MAX_REFCOUNT then s\<lparr>arc_aborted := True\<rparr> else goto s t Weak_Ref)"
| downgrade_call: "arc_pcs s h = Strong_Ref \<Longrightarrow> arc_pcs s t = Idle \<Longrightarrow> arc_step s (goto s t (Downgrade_Load h))"
| downgrade_load: "arc_pcs s t = Downgrade_Load h \<Longrightarrow> arc_step s (goto s t (Downgrade h (arc_weak s)))"
| downgrade_cas: "arc_pcs s t = Downgrade h cur \<Longrightarrow> downgrade ok h cur (arc_weak s) = (n, p) \<Longrightarrow> arc_step s (goto (s\<lparr>arc_weak := n\<rparr>) t p)"
| upgrade_call: "arc_pcs s h = Weak_Ref \<or> arc_pcs s h = Building \<Longrightarrow> arc_pcs s t = Idle \<Longrightarrow> arc_step s (goto s t (Upgrade_Load h))"
| upgrade_load: "arc_pcs s t = Upgrade_Load h \<Longrightarrow> arc_step s (goto s t (Upgrade h (arc_strong s)))"
| upgrade_cas: "arc_pcs s t = Upgrade h cur \<Longrightarrow> upgrade ok h cur (arc_strong s) = (n, p) \<Longrightarrow> arc_step s (goto (s\<lparr>arc_strong := n\<rparr>) t p)"
| drop: "arc_pcs s t = Strong_Ref \<Longrightarrow> unborrowed s t \<Longrightarrow> arc_drop (arc_strong s) = (n, p) \<Longrightarrow> arc_step s (goto (s\<lparr>arc_strong := n\<rparr>) t p)"
| inner: "arc_pcs s t = Strong_Ref \<Longrightarrow> unborrowed s t \<Longrightarrow> into_inner (arc_strong s) = (n, p) \<Longrightarrow> arc_step s (goto (s\<lparr>arc_strong := n\<rparr>) t p)"
| unwrap: "arc_pcs s t = Strong_Ref \<Longrightarrow> unborrowed s t \<Longrightarrow> try_unwrap (arc_strong s) = (n, p) \<Longrightarrow> arc_step s (goto (s\<lparr>arc_strong := n\<rparr>) t p)"
| lock: "arc_pcs s t = Strong_Ref \<Longrightarrow> unborrowed s t \<Longrightarrow> is_unique (arc_weak s) = (n, p) \<Longrightarrow> arc_step s (goto (s\<lparr>arc_weak := n\<rparr>) t p)"
| locked: "arc_pcs s t = Locked \<Longrightarrow> arc_step s (goto s t (Unlock (arc_strong s = 1)))"
| unlock: "arc_pcs s t = Unlock unique \<Longrightarrow> arc_step s (goto (s\<lparr>arc_weak := 1\<rparr>) t (if unique then Mut_Ref else Strong_Ref))"
| mut_end: "arc_pcs s t = Mut_Ref \<Longrightarrow> arc_step s (goto s t Strong_Ref)"
| make_mut_cas: "arc_pcs s t = Strong_Ref \<Longrightarrow> unborrowed s t \<Longrightarrow> make_mut (arc_strong s) = (n, p) \<Longrightarrow> arc_step s (goto (s\<lparr>arc_strong := n\<rparr>) t p)"
| make_mut_weak: "arc_pcs s t = Sole \<Longrightarrow> arc_step s (goto s t (if arc_weak s \<noteq> 1 then Take else Restore))"
| make_mut_store: "arc_pcs s t = Restore \<Longrightarrow> arc_step s (goto (s\<lparr>arc_strong := 1\<rparr>) t Mut_Ref)"
| destroy: "arc_pcs s t = Destroy \<or> arc_pcs s t = Take \<Longrightarrow>
    arc_step s (goto (s\<lparr>arc_data := Gone, arc_destroyed := arc_destroyed s + 1\<rparr>) t Weak_Drop)"
| destroy_panics: "arc_pcs s t = Destroy \<Longrightarrow>
    arc_step s (goto (s\<lparr>arc_data := Gone, arc_destroyed := arc_destroyed s + 1\<rparr>) t Forgotten_Weak)"
| drop_weak: "arc_pcs s t = Weak_Drop \<or> arc_pcs s t = Weak_Ref \<or> arc_pcs s t = Building \<Longrightarrow> unborrowed s t \<Longrightarrow> weak_drop (arc_weak s) = (n, p) \<Longrightarrow>
    arc_step s (goto (s\<lparr>arc_weak := n\<rparr>) t p)"
| free: "arc_pcs s t = Dealloc \<Longrightarrow> arc_step s (goto (s\<lparr>arc_freed := arc_freed s + 1\<rparr>) t Idle)"
| built: "arc_pcs s t = Building \<Longrightarrow> unborrowed s t \<Longrightarrow>
    arc_step s (goto (s\<lparr>arc_data := Live, arc_strong := usize_wrapping_add (arc_strong s) 1\<rparr>) t Strong_Ref)"
| forget: "arc_pcs s t = Strong_Ref \<Longrightarrow> unborrowed s t \<Longrightarrow> arc_step s (goto s t Forgotten_Strong)"
| forget_weak: "arc_pcs s t = Weak_Ref \<Longrightarrow> unborrowed s t \<Longrightarrow> arc_step s (goto s t Forgotten_Weak)"

text \<open>An abort ends the process.\<close>

definition arc_system :: "arc_state \<Rightarrow> arc_state \<Rightarrow> bool" where
  "arc_system s s' \<longleftrightarrow> \<not> arc_aborted s \<and> arc_step s s'"

section \<open>Counting agents\<close>

lemma how_many_update:
  assumes "finite {t. P (f t)}"
  shows "how_many P (f(t := p)) + of_bool (P (f t)) = how_many P f + of_bool (P p)"
proof -
  let ?A = "{u. P (f u)} - {t}"
  have f: "{u. P (f u)} = (if P (f t) then insert t ?A else ?A)" "{u. P ((f(t := p)) u)} = (if P p then insert t ?A else ?A)" by auto
  have "finite ?A" "t \<notin> ?A" using assms by auto
  then have c: "card (if b then insert t ?A else ?A) = card ?A + of_bool b" for b
    by (cases b) (simp_all add: card_insert_disjoint del: insert_Diff_single)
  have "how_many P f = card ?A + of_bool (P (f t))" "how_many P (f(t := p)) = card ?A + of_bool (P p)"
    unfolding how_many_def c [symmetric] using f by simp_all
  then show ?thesis by simp
qed

lemma how_many_pos: "finite {t. P (f t)} \<Longrightarrow> P (f t) \<Longrightarrow> 0 < how_many P f"
  unfolding how_many_def by (auto simp: card_gt_0_iff)

lemma how_many_mono: "finite {t. Q (f t)} \<Longrightarrow> (\<And>p. P p \<Longrightarrow> Q p) \<Longrightarrow> how_many P f \<le> how_many Q f"
  unfolding how_many_def by (intro card_mono) auto

lemma how_many_less: "finite {t. Q (f t)} \<Longrightarrow> (\<And>p. P p \<Longrightarrow> Q p) \<Longrightarrow> Q (f t) \<Longrightarrow> \<not> P (f t) \<Longrightarrow> how_many P f < how_many Q f"
  unfolding how_many_def by (intro psubset_card_mono) auto

lemma how_many_0: "finite {t. P (f t)} \<Longrightarrow> how_many P f = 0 \<longleftrightarrow> (\<forall>t. \<not> P (f t))"
  unfolding how_many_def by auto

lemma how_many_1: "finite {t. P (f t)} \<Longrightarrow> how_many P f = 1 \<Longrightarrow> P (f t) \<Longrightarrow> P (f u) \<Longrightarrow> u = t"
  unfolding how_many_def by (metis One_nat_def card_1_singletonE mem_Collect_eq singletonD)

section \<open>The invariant\<close>

text \<open>Who is counted by the strong counter, and by the weak counter beside the reference that all the strong handles
  hold together; who owns the value after the strong counter has gone to zero; who has locked the weak counter; who may write
  to the value.\<close>

fun strong_holder :: "arc_pc \<Rightarrow> bool" where
  "strong_holder Strong_Ref = True"
| "strong_holder (Strong_Added n) = True"
| "strong_holder Locked = True"
| "strong_holder (Unlock u) = True"
| "strong_holder Mut_Ref = True"
| "strong_holder Forgotten_Strong = True"
| "strong_holder _ = False"

fun weak_holder :: "arc_pc \<Rightarrow> bool" where
  "weak_holder Weak_Ref = True"
| "weak_holder Building = True"
| "weak_holder (Weak_Added n) = True"
| "weak_holder Weak_Drop = True"
| "weak_holder Forgotten_Weak = True"
| "weak_holder _ = False"

fun data_owner :: "arc_pc \<Rightarrow> bool" where
  "data_owner Destroy = True"
| "data_owner Take = True"
| "data_owner Sole = True"
| "data_owner Restore = True"
| "data_owner _ = False"

fun weak_locker :: "arc_pc \<Rightarrow> bool" where
  "weak_locker Locked = True"
| "weak_locker (Unlock u) = True"
| "weak_locker _ = False"

fun exclusive :: "arc_pc \<Rightarrow> bool" where
  "exclusive (Unlock u) = u"
| "exclusive Mut_Ref = True"
| "exclusive _ = False"

text \<open>The invariant over the numbers of agents of each kind.\<close>

definition counts_ok :: "nat \<Rightarrow> nat \<Rightarrow> arc_data \<Rightarrow> nat \<Rightarrow> nat \<Rightarrow> nat \<Rightarrow> nat \<Rightarrow> nat \<Rightarrow> nat \<Rightarrow> nat \<Rightarrow> nat \<Rightarrow> nat \<Rightarrow> nat \<Rightarrow> nat \<Rightarrow> bool" where
  "counts_ok strong weak data destroyed freed S W N B L M R D X \<longleftrightarrow>
     strong = S \<and> N \<le> 1 \<and> (0 < S \<longrightarrow> N = 0) \<and> (data = Live \<longleftrightarrow> 0 < S + N) \<and> B \<le> 1 \<and> (0 < B \<longrightarrow> data = Uninit)
     \<and> L \<le> 1 \<and> (0 < L \<longrightarrow> W = 0) \<and> weak = (if 0 < L then usize_max else W + (if data = Live then 1 else 0))
     \<and> (0 < M \<longrightarrow> S = 1 \<and> W = 0) \<and> (0 < R \<longrightarrow> W = 0)
     \<and> freed + D \<le> 1 \<and> (0 < freed + D \<longleftrightarrow> W = 0 \<and> data \<noteq> Live) \<and> destroyed = (if data = Gone then 1 else 0)
     \<and> S \<le> isize_max + 1 + X \<and> W + (if data = Live then 1 else 0) \<le> isize_max + 1 + X \<and> X \<le> thread_limit"

definition arc_counts :: "arc_state \<Rightarrow> bool" where
  "arc_counts s \<longleftrightarrow> counts_ok (arc_strong s) (arc_weak s) (arc_data s) (arc_destroyed s) (arc_freed s)
         (how_many strong_holder (arc_pcs s)) (how_many weak_holder (arc_pcs s)) (how_many data_owner (arc_pcs s))
         (how_many (\<lambda>p. p = Building) (arc_pcs s)) (how_many weak_locker (arc_pcs s)) (how_many exclusive (arc_pcs s))
         (how_many (\<lambda>p. p = Restore) (arc_pcs s)) (how_many (\<lambda>p. p = Dealloc) (arc_pcs s)) (how_many over_limit (arc_pcs s))"

definition borrows_ok :: "(nat \<Rightarrow> arc_pc) \<Rightarrow> bool" where
  "borrows_ok f \<longleftrightarrow> (\<forall>t b h. borrow_of (f t) = Some (b, h) \<longrightarrow> f h \<in> (if b then {Strong_Ref} else {Weak_Ref, Building}))"

definition arc_inv :: "arc_state \<Rightarrow> bool" where
  "arc_inv s \<longleftrightarrow> finite {t. arc_pcs s t \<noteq> Idle} \<and> borrows_ok (arc_pcs s) \<and> arc_counts s"

section \<open>Preservation\<close>

lemma borrows_ok_unborrowed: "borrows_ok (arc_pcs s) \<Longrightarrow> arc_pcs s t \<notin> {Strong_Ref, Weak_Ref, Building} \<Longrightarrow> unborrowed s t"
  unfolding borrows_ok_def unborrowed_def by (metis insertCI singletonD)

lemma borrows_ok_move:
  assumes "borrows_ok (arc_pcs s)" "unborrowed s t"
    and "\<And>b h. borrow_of p = Some (b, h) \<Longrightarrow> h \<noteq> t \<and> arc_pcs s h \<in> (if b then {Strong_Ref} else {Weak_Ref, Building})"
  shows "borrows_ok ((arc_pcs s)(t := p))"
  unfolding borrows_ok_def
proof (intro allI impI)
  fix u b h assume u: "borrow_of (((arc_pcs s)(t := p)) u) = Some (b, h)"
  show "((arc_pcs s)(t := p)) h \<in> (if b then {Strong_Ref} else {Weak_Ref, Building})"
  proof (cases "u = t")
    case True
    then show ?thesis using u assms(3) [of b h] by simp
  next
    case False
    then have "h \<noteq> t" "arc_pcs s h \<in> (if b then {Strong_Ref} else {Weak_Ref, Building})"
      using u assms(1,2) unfolding borrows_ok_def unborrowed_def by (metis fun_upd_other)+
    then show ?thesis by simp
  qed
qed

text \<open>A turn of an agent that nobody borrows.\<close>

lemma arc_move:
  assumes inv: "arc_inv s" and free: "arc_pcs s t \<notin> {Strong_Ref, Weak_Ref, Building} \<or> unborrowed s t"
    and pcs: "arc_pcs s' = (arc_pcs s)(t := p')"
    and target: "\<And>b h. borrow_of p' = Some (b, h) \<Longrightarrow> h \<noteq> t \<and> arc_pcs s h \<in> (if b then {Strong_Ref} else {Weak_Ref, Building})"
    and counts: "\<And>S W N B L M R D X S' W' N' B' L' M' R' D' X'.
      counts_ok (arc_strong s) (arc_weak s) (arc_data s) (arc_destroyed s) (arc_freed s) S W N B L M R D X \<Longrightarrow>
      X = how_many over_limit (arc_pcs s) \<Longrightarrow>
      S' + of_bool (strong_holder (arc_pcs s t)) = S + of_bool (strong_holder p') \<Longrightarrow>
      W' + of_bool (weak_holder (arc_pcs s t)) = W + of_bool (weak_holder p') \<Longrightarrow>
      N' + of_bool (data_owner (arc_pcs s t)) = N + of_bool (data_owner p') \<Longrightarrow>
      B' + of_bool (arc_pcs s t = Building) = B + of_bool (p' = Building) \<Longrightarrow>
      L' + of_bool (weak_locker (arc_pcs s t)) = L + of_bool (weak_locker p') \<Longrightarrow>
      M' + of_bool (exclusive (arc_pcs s t)) = M + of_bool (exclusive p') \<Longrightarrow>
      R' + of_bool (arc_pcs s t = Restore) = R + of_bool (p' = Restore) \<Longrightarrow>
      D' + of_bool (arc_pcs s t = Dealloc) = D + of_bool (p' = Dealloc) \<Longrightarrow>
      X' + of_bool (over_limit (arc_pcs s t)) = X + of_bool (over_limit p') \<Longrightarrow>
      L \<le> S \<Longrightarrow> M \<le> S \<Longrightarrow> B \<le> W \<Longrightarrow> R \<le> N \<Longrightarrow>
      (\<And>h. strong_holder (arc_pcs s h) \<Longrightarrow> 0 < S) \<Longrightarrow> (\<And>h. weak_holder (arc_pcs s h) \<Longrightarrow> 0 < W) \<Longrightarrow>
      (\<And>h. strong_holder (arc_pcs s h) \<Longrightarrow> \<not> weak_locker (arc_pcs s h) \<Longrightarrow> L < S) \<Longrightarrow>
      (\<And>h. strong_holder (arc_pcs s h) \<Longrightarrow> \<not> exclusive (arc_pcs s h) \<Longrightarrow> M < S) \<Longrightarrow> (\<And>h. data_owner (arc_pcs s h) \<Longrightarrow> 0 < N) \<Longrightarrow>
      (\<And>h. data_owner (arc_pcs s h) \<Longrightarrow> arc_pcs s h \<noteq> Restore \<Longrightarrow> R < N) \<Longrightarrow>
      counts_ok (arc_strong s') (arc_weak s') (arc_data s') (arc_destroyed s') (arc_freed s') S' W' N' B' L' M' R' D' X'"
  shows "arc_inv s'"
proof -
  let ?f = "arc_pcs s"
  have fin: "finite {t. ?f t \<noteq> Idle}" using inv by (simp add: arc_inv_def)
  have P: "finite {u. P (?f u)}" if "\<not> P Idle" for P using that by (intro finite_subset [OF _ fin]) auto
  have up: "how_many P (?f(t := p')) + of_bool (P (?f t)) = how_many P ?f + of_bool (P p')" if "\<not> P Idle" for P
    by (rule how_many_update) (rule P [of P, OF that])
  have "{u. arc_pcs s' u \<noteq> Idle} \<subseteq> insert t {t. ?f t \<noteq> Idle}" by (auto simp: pcs)
  then have "finite {u. arc_pcs s' u \<noteq> Idle}" using fin by (meson finite_insert finite_subset)
  moreover have "arc_counts s'" unfolding arc_counts_def pcs
  proof (rule counts)
    show "counts_ok (arc_strong s) (arc_weak s) (arc_data s) (arc_destroyed s) (arc_freed s)
         (how_many strong_holder ?f) (how_many weak_holder ?f) (how_many data_owner ?f) (how_many (\<lambda>p. p = Building) ?f) (how_many weak_locker ?f)
         (how_many exclusive ?f) (how_many (\<lambda>p. p = Restore) ?f) (how_many (\<lambda>p. p = Dealloc) ?f) (how_many over_limit ?f)"
      using inv by (simp add: arc_inv_def arc_counts_def)
    show "0 < how_many data_owner ?f" if "data_owner (?f h)" for h using that by (intro how_many_pos P) auto
    show "how_many (\<lambda>p. p = Restore) ?f < how_many data_owner ?f" if "data_owner (?f h)" "?f h \<noteq> Restore" for h
      using that by (intro how_many_less P) auto
    have l: "strong_holder p" if "weak_locker p" for p using that by (cases p) auto
    then show "how_many weak_locker ?f \<le> how_many strong_holder ?f" by (intro how_many_mono P) auto
    show "how_many weak_locker ?f < how_many strong_holder ?f" if "strong_holder (?f h)" "\<not> weak_locker (?f h)" for h
      using l that by (intro how_many_less P) auto
    have x: "strong_holder p" if "exclusive p" for p using that by (cases p) auto
    then show "how_many exclusive ?f \<le> how_many strong_holder ?f" by (intro how_many_mono P) auto
    show "how_many exclusive ?f < how_many strong_holder ?f" if "strong_holder (?f h)" "\<not> exclusive (?f h)" for h
      using x that by (intro how_many_less P) auto
    show "how_many (\<lambda>p. p = Building) ?f \<le> how_many weak_holder ?f" "how_many (\<lambda>p. p = Restore) ?f \<le> how_many data_owner ?f"
      by (intro how_many_mono P; auto)+
    show "0 < how_many strong_holder ?f" if "strong_holder (?f h)" for h using that by (intro how_many_pos P) auto
    show "0 < how_many weak_holder ?f" if "weak_holder (?f h)" for h using that by (intro how_many_pos P) auto
  qed (rule refl | (rule up, simp add: over_limit_def))+
  moreover have b: "borrows_ok (arc_pcs s)" using inv by (simp add: arc_inv_def)
  then have "unborrowed s t" using free borrows_ok_unborrowed by blast
  then have "borrows_ok ((arc_pcs s)(t := p'))" using target by (rule borrows_ok_move [OF b])
  ultimately show ?thesis by (simp add: arc_inv_def pcs)
qed

lemma limits: "isize_max + 2 + thread_limit < usize_max" "Suc usize_max = usize_bound" "MAX_REFCOUNT = isize_max" "0 < isize_max"
  by (simp_all add: MAX_REFCOUNT_def isize_max_def isize_bound_def usize_bound_def thread_limit_def usize_max_def)

lemma wrapping_add_small: "n < usize_max \<Longrightarrow> usize_wrapping_add n (Suc 0) = Suc n"
  using limits(2) unfolding usize_wrapping_add_def by (metis Suc_mono add_Suc_right add_0_right mod_less)

lemma wrapping_sub_small:
  assumes "0 < n" "n \<le> usize_max"
  shows "usize_wrapping_sub n (Suc 0) = n - 1"
proof -
  have n: "n - 1 < usize_bound" using assms limits(2) by linarith
  have "n + (usize_bound - Suc 0) = (n - 1) + usize_bound" using assms limits(2) by linarith
  then have "usize_wrapping_sub n (Suc 0) = (n - 1 + usize_bound) mod usize_bound" by (simp only: usize_wrapping_sub_def)
  also have "\<dots> = n - 1" using n by (simp only: mod_add_self2 mod_less)
  finally show ?thesis .
qed

lemma over_limit_simps [simp]:
  "over_limit (Strong_Added n) \<longleftrightarrow> isize_max < n" "over_limit (Weak_Added n) \<longleftrightarrow> isize_max < n"
  "\<not> over_limit Idle" "\<not> over_limit Strong_Ref" "\<not> over_limit Weak_Ref" "\<not> over_limit Building" "\<not> over_limit (Downgrade_Load h)"
  "\<not> over_limit (Downgrade h n)" "\<not> over_limit (Upgrade_Load h)" "\<not> over_limit (Upgrade h n)" "\<not> over_limit Locked" "\<not> over_limit (Unlock u)"
  "\<not> over_limit Mut_Ref" "\<not> over_limit Destroy" "\<not> over_limit Take" "\<not> over_limit Sole" "\<not> over_limit Restore" "\<not> over_limit Weak_Drop"
  "\<not> over_limit Dealloc" "\<not> over_limit Forgotten_Strong" "\<not> over_limit Forgotten_Weak"
  by (auto simp: over_limit_def limits(3))

lemma goto_simps [simp]:
  "arc_pcs (goto s t p) = (arc_pcs s)(t := p)" "arc_strong (goto s t p) = arc_strong s" "arc_weak (goto s t p) = arc_weak s"
  "arc_data (goto s t p) = arc_data s" "arc_destroyed (goto s t p) = arc_destroyed s" "arc_freed (goto s t p) = arc_freed s"
  by (simp_all add: goto_def)

text \<open>The three phases: there are strong handles; the last one is about to destroy the value, or to take it; the value
  is not there.\<close>

lemma counts_cases:
  assumes c: "counts_ok strong weak data destroyed freed S W N B L M R D X" and le: "L \<le> S" "M \<le> S" "B \<le> W" "R \<le> N"
  obtains (shared) "0 < S" "strong = S" "data = Live" "destroyed = 0" "freed = 0" "N = 0" "B = 0" "R = 0" "D = 0"
      "L = 0 \<and> weak = Suc W \<or> L = 1 \<and> weak = usize_max \<and> W = 0" "M = 0 \<or> S = 1 \<and> W = 0"
      "S \<le> isize_max + 1 + X" "Suc W \<le> isize_max + 1 + X" "X \<le> thread_limit"
    | (owned) "S = 0" "strong = 0" "data = Live" "destroyed = 0" "freed = 0" "N = 1" "B = 0" "R = 0 \<or> W = 0" "D = 0" "L = 0" "M = 0" "weak = Suc W"
      "Suc W \<le> isize_max + 1 + X" "X \<le> thread_limit"
    | (absent) "S = 0" "strong = 0" "data \<noteq> Live" "destroyed = (if data = Gone then 1 else 0)" "N = 0" "R = 0" "L = 0" "M = 0" "weak = W"
      "B = 0 \<or> B = 1 \<and> data = Uninit" "freed + D = (if W = 0 then 1 else 0)" "W \<le> isize_max + 1 + X" "X \<le> thread_limit"
proof -
  have "strong = S" "N \<le> 1" "0 < S \<Longrightarrow> N = 0" "data = Live \<longleftrightarrow> 0 < S + N" "B \<le> 1" "0 < B \<Longrightarrow> data = Uninit" "L \<le> 1" "0 < L \<Longrightarrow> W = 0"
    "weak = (if 0 < L then usize_max else W + (if data = Live then 1 else 0))" "0 < M \<Longrightarrow> S = 1 \<and> W = 0" "0 < R \<Longrightarrow> W = 0"
    "freed + D \<le> 1" "0 < freed + D \<longleftrightarrow> W = 0 \<and> data \<noteq> Live" "destroyed = (if data = Gone then 1 else 0)"
    "S \<le> isize_max + 1 + X" "W + (if data = Live then 1 else 0) \<le> isize_max + 1 + X" "X \<le> thread_limit" using c unfolding counts_ok_def by blast+
  note k = this
  consider "0 < S" | "S = 0" "N = 1" | "S = 0" "N = 0" using k(2) by linarith
  then show ?thesis
  proof cases
    case 1
    then have d: "data = Live" "N = 0" using k(3,4) by auto
    have "B = 0" "freed + D = 0" using k(6) k(12,13) d by auto
    moreover have "L = 0 \<or> L = 1" "M = 0 \<or> 0 < M" using k(7) by auto
    then have "L = 0 \<and> weak = Suc W \<or> L = 1 \<and> weak = usize_max \<and> W = 0" "M = 0 \<or> S = 1 \<and> W = 0" using k(8,9,10) d by auto
    ultimately show ?thesis using 1 d k(1,14-17) le by (intro shared) auto
  next
    case 2
    then have d: "data = Live" using k(4) by auto
    have "B = 0" "freed + D = 0" using k(6) k(12,13) d by auto
    then show ?thesis using 2 d k(1,9,11,14,16,17) le by (intro owned) auto
  next
    case 3
    then have d: "data \<noteq> Live" using k(4) by auto
    have "freed + D = (if W = 0 then 1 else 0)" using k(12,13) d by (cases "W = 0") auto
    moreover have "B = 0 \<or> B = 1 \<and> data = Uninit" using k(5,6) by (cases "B = 0") auto
    ultimately show ?thesis using 3 d k(1,9,14,16,17) le by (intro absent) auto
  qed
qed

lemma clone_keeps:
  assumes "arc_inv s" "arc_pcs s h = Strong_Ref" "arc_pcs s t = Idle" "how_many over_limit (arc_pcs s) < thread_limit" "arc_clone (arc_strong s) = (n, p)"
  shows "arc_inv (goto (s\<lparr>arc_strong := n\<rparr>) t p)"
proof (rule arc_move [OF assms(1), of t _ p], goal_cases)
  case (4 S W N B L M R D X S' W' N' B' L' M' R' D' X')
  have h: "0 < S" "M < S" using 4(16) [of h] 4(19) [of h] assms(2) by simp_all
  from 4(1,12-15) show ?case
  proof (cases rule: counts_cases)
    case shared
    have n: "n = Suc S" "p = Strong_Added S" using shared limits(1) assms(5) by (auto simp: arc_clone_def wrapping_add_small)
    then show ?thesis using 4(2-11) assms(3,4) shared h by (auto simp: counts_ok_def)
  qed (use h in auto)
qed (use assms in \<open>auto simp: arc_clone_def\<close>)

lemma clone_weak_keeps:
  assumes "arc_inv s" "arc_pcs s h = Weak_Ref \<or> arc_pcs s h = Building" "arc_pcs s t = Idle" "how_many over_limit (arc_pcs s) < thread_limit"
    "weak_clone (arc_weak s) = (n, p)"
  shows "arc_inv (goto (s\<lparr>arc_weak := n\<rparr>) t p)"
proof (rule arc_move [OF assms(1), of t _ p], goal_cases)
  case (4 S W N B L M R D X S' W' N' B' L' M' R' D' X')
  have h: "0 < W" using 4(17) [of h] assms(2) by auto
  have "arc_weak s < usize_max" if "arc_weak s \<le> Suc W" "W \<le> isize_max + 1 + X" using that limits(1) 4(2) assms(4) by linarith
  then have n: "n = Suc (arc_weak s)" "p = Weak_Added (arc_weak s)" if "arc_weak s \<le> Suc W" "W \<le> isize_max + 1 + X"
    using that assms(5) by (auto simp: weak_clone_def wrapping_add_small)
  from 4(1,12-15) show ?case
  proof (cases rule: counts_cases)
    case shared
    then show ?thesis using n 4(2-11) assms(3,4) h by (auto simp: counts_ok_def)
  next
    case owned
    then show ?thesis using n 4(2-11) assms(3,4) h by (auto simp: counts_ok_def)
  next
    case absent
    then show ?thesis using n 4(2-11) assms(3,4) h by (auto simp: counts_ok_def)
  qed
qed (use assms in \<open>auto simp: weak_clone_def\<close>)


text \<open>Steps that change nothing but the place of the agent.\<close>

lemma goto_keeps:
  assumes "arc_inv s" "arc_pcs s t \<notin> {Strong_Ref, Weak_Ref, Building} \<or> unborrowed s t"
    and "\<And>b h. borrow_of p = Some (b, h) \<Longrightarrow> h \<noteq> t \<and> arc_pcs s h \<in> (if b then {Strong_Ref} else {Weak_Ref, Building})"
    and "strong_holder p = strong_holder (arc_pcs s t)" "weak_holder p = weak_holder (arc_pcs s t)" "data_owner p = data_owner (arc_pcs s t)"
      "weak_locker p = weak_locker (arc_pcs s t)" "over_limit p = over_limit (arc_pcs s t)" "(p = Dealloc) = (arc_pcs s t = Dealloc)"
      "p = Building \<Longrightarrow> arc_pcs s t = Building"
    and "exclusive p \<Longrightarrow> exclusive (arc_pcs s t) \<or> arc_strong s = 1 \<and> arc_weak s = usize_max" "p = Restore \<Longrightarrow> arc_weak s = 1"
  shows "arc_inv (goto s t p)"
proof (rule arc_move [where p' = p, OF assms(1,2)], goal_cases)
  case (3 S W N B L M R D X S' W' N' B' L' M' R' D' X')
  have eq: "S' = S" "W' = W" "N' = N" "L' = L" "D' = D" "X' = X"
    using 3(3) 3(4) 3(5) 3(7) 3(10) 3(11) by (simp_all add: assms(4-9))
  have B: "B' \<le> B" using 3(6) assms(10) by (cases "p = Building") simp_all
  have M: "M' \<le> M \<or> exclusive p \<and> \<not> exclusive (arc_pcs s t)" using 3(8) by (cases "exclusive p"; cases "exclusive (arc_pcs s t)") simp_all
  have R: "R' \<le> R \<or> p = Restore" using 3(9) by (cases "p = Restore") simp_all
  from 3(1,12-15) show ?case
  proof (cases rule: counts_cases)
    case shared
    have "W = 0 \<and> S = 1" if "\<not> M' \<le> M" using M that assms(11) shared limits(1) by auto
    moreover have "p \<noteq> Restore" using 3(20) [of t] shared(6) assms(6) by auto
    ultimately show ?thesis using shared eq R B by (auto simp: counts_ok_def)
  next
    case owned
    have "M' = 0" using M assms(11) owned(2,11) by auto
    then show ?thesis using owned eq R B assms(12) by (auto simp: counts_ok_def)
  next
    case absent
    have "M' = 0" using M assms(11) absent(2,8) by auto
    moreover have "p \<noteq> Restore" using 3(20) [of t] absent(5) assms(6) by auto
    ultimately show ?thesis using absent eq R B by (auto simp: counts_ok_def)
  qed
qed (use assms(3) in auto)

lemma borrowed: "arc_inv s \<Longrightarrow> borrow_of (arc_pcs s t) = Some (b, h) \<Longrightarrow> arc_pcs s h \<in> (if b then {Strong_Ref} else {Weak_Ref, Building})"
  by (auto simp: arc_inv_def borrows_ok_def)

lemma same_weak: "s\<lparr>arc_weak := arc_weak s\<rparr> = s" and same_strong: "s\<lparr>arc_strong := arc_strong s\<rparr> = s"
  by simp_all

lemma downgrade_keeps:
  assumes inv: "arc_inv s" and t: "arc_pcs s t = Downgrade h cur" and d: "downgrade ok h cur (arc_weak s) = (n, p)"
  shows "arc_inv (goto (s\<lparr>arc_weak := n\<rparr>) t p)"
proof -
  have h: "arc_pcs s h = Strong_Ref" using borrowed [OF inv, of t True h] t by simp
  then have ht: "h \<noteq> t" using t by auto
  consider (go) "ok" "cur \<noteq> usize_max" "cur \<le> isize_max" "arc_weak s = cur" "n = Suc cur" "p = Weak_Ref"
    | (stay) "n = arc_weak s" "p = Idle \<or> p = Downgrade_Load h \<or> (\<exists>m. p = Downgrade h m)"
    using d by (auto simp: downgrade_def compare_exchange_def limits(3) split: if_splits)
  then show ?thesis
  proof cases
    case go
    show ?thesis
    proof (rule arc_move [OF inv, of t _ p], goal_cases)
      case (4 S W N B L M R D X S' W' N' B' L' M' R' D' X')
      have S: "0 < S" "M < S" using 4(16) [of h] 4(19) [of h] h by simp_all
      from 4(1,12-15) show ?case
      proof (cases rule: counts_cases)
        case shared
        then have "L = 0" "M = 0" using go S by auto
        then show ?thesis using shared go 4(2-11) t by (auto simp: counts_ok_def)
      qed (use S in auto)
    qed (use t go in auto)
  next
    case stay
    have "arc_inv (goto s t p)" by (rule goto_keeps [OF inv]) (use stay(2) t h ht in auto)
    then show ?thesis by (simp only: stay(1) same_weak)
  qed
qed

lemma upgrade_keeps:
  assumes inv: "arc_inv s" and t: "arc_pcs s t = Upgrade h cur" and d: "upgrade ok h cur (arc_strong s) = (n, p)"
  shows "arc_inv (goto (s\<lparr>arc_strong := n\<rparr>) t p)"
proof -
  have h: "arc_pcs s h = Weak_Ref \<or> arc_pcs s h = Building" using borrowed [OF inv, of t False h] t by simp
  then have ht: "h \<noteq> t" using t by auto
  consider (go) "0 < cur" "cur \<le> isize_max" "arc_strong s = cur" "n = Suc cur" "p = Strong_Ref"
    | (stay) "n = arc_strong s" "p = Idle \<or> (\<exists>m. p = Upgrade h m)"
    using d by (auto simp: upgrade_def compare_exchange_def limits(3) split: if_splits)
  then show ?thesis
  proof cases
    case go
    show ?thesis
    proof (rule arc_move [OF inv, of t _ p], goal_cases)
      case (4 S W N B L M R D X S' W' N' B' L' M' R' D' X')
      have W: "0 < W" using 4(17) [of h] h by auto
      from 4(1,12-15) show ?case
      proof (cases rule: counts_cases)
        case shared
        then have "L = 0" "M = 0" using W by auto
        then show ?thesis using shared go 4(2-11) t by (auto simp: counts_ok_def)
      qed (use go in auto)
    qed (use t go in auto)
  next
    case stay
    have "arc_inv (goto s t p)" by (rule goto_keeps [OF inv]) (use stay(2) t h ht in auto)
    then show ?thesis by (simp only: stay(1) same_strong)
  qed
qed

text \<open>Giving up a strong handle; the last one owns the value.\<close>

lemma release_keeps:
  assumes inv: "arc_inv s" and t: "arc_pcs s t = Strong_Ref" "unborrowed s t"
    and n: "arc_strong s = Suc n" "p = (if n = 0 then q else Idle)" "q \<in> {Destroy, Take, Sole}"
  shows "arc_inv (goto (s\<lparr>arc_strong := n\<rparr>) t p)"
proof (rule arc_move [OF inv, of t _ p], goal_cases)
  case (4 S W N B L M R D X S' W' N' B' L' M' R' D' X')
  have S: "L < S" "M < S" using 4(18) [of t] 4(19) [of t] t by simp_all
  from 4(1,12-15) show ?case
  proof (cases rule: counts_cases)
    case shared
    then have M: "M = 0" using S by auto
    show ?thesis
    proof (cases "n = 0")
      case True
      then have "L = 0" using S shared(2) n(1) by simp
      then show ?thesis using shared M n True 4(2-11) t by (auto simp: counts_ok_def)
    next
      case False
      then show ?thesis using shared M n 4(2-11) t by (auto simp: counts_ok_def)
    qed
  qed (use S in auto)
qed (use t n in \<open>auto split: if_splits\<close>)

lemma strong_pos: "arc_inv s \<Longrightarrow> strong_holder (arc_pcs s t) \<Longrightarrow> 0 < arc_strong s \<and> arc_strong s \<le> usize_max"
proof -
  assume a: "arc_inv s" "strong_holder (arc_pcs s t)"
  then have "finite {t. strong_holder (arc_pcs s t)}" unfolding arc_inv_def by (auto elim!: finite_subset [rotated])
  then have "0 < how_many strong_holder (arc_pcs s)" using a(2) by (rule how_many_pos)
  moreover have "arc_strong s = how_many strong_holder (arc_pcs s)" "arc_strong s \<le> isize_max + 1 + thread_limit"
    using a(1) unfolding arc_inv_def arc_counts_def counts_ok_def by linarith+
  ultimately show ?thesis using limits(1) by simp
qed

lemma drop_keeps:
  assumes inv: "arc_inv s" and t: "arc_pcs s t = Strong_Ref" "unborrowed s t"
    and d: "arc_drop (arc_strong s) = (n, p) \<or> into_inner (arc_strong s) = (n, p)"
  shows "arc_inv (goto (s\<lparr>arc_strong := n\<rparr>) t p)"
proof -
  have "0 < arc_strong s" "arc_strong s \<le> usize_max" using strong_pos [OF inv, of t] t by auto
  then have n: "arc_strong s = Suc n" "p = (if n = 0 then Destroy else Idle) \<or> p = (if n = 0 then Take else Idle)"
    using d by (auto simp: arc_drop_def into_inner_def wrapping_sub_small split: if_splits)
  then obtain q where "q \<in> {Destroy, Take, Sole}" "p = (if n = 0 then q else Idle)" by blast
  then show ?thesis using release_keeps [OF inv t n(1)] by blast
qed

lemma take_keeps:
  assumes inv: "arc_inv s" and t: "arc_pcs s t = Strong_Ref" "unborrowed s t"
    and d: "try_unwrap (arc_strong s) = (n, p) \<or> make_mut (arc_strong s) = (n, p)"
  shows "arc_inv (goto (s\<lparr>arc_strong := n\<rparr>) t p)"
proof (cases "arc_strong s = 1")
  case True
  then have "n = 0" "p \<in> {Take, Sole}" using d by (auto simp: try_unwrap_def make_mut_def)
  then show ?thesis using True by (intro release_keeps [OF inv t]) auto
next
  case False
  then have "n = arc_strong s" "p = Strong_Ref" using d by (auto simp: try_unwrap_def make_mut_def compare_exchange_def)
  moreover have "arc_inv (goto s t Strong_Ref)" by (rule goto_keeps [OF inv]) (use t in auto)
  ultimately show ?thesis by (simp only: same_strong)
qed


lemma lock_keeps:
  assumes inv: "arc_inv s" and t: "arc_pcs s t = Strong_Ref" "unborrowed s t" and d: "is_unique (arc_weak s) = (n, p)"
  shows "arc_inv (goto (s\<lparr>arc_weak := n\<rparr>) t p)"
proof (cases "arc_weak s = 1")
  case True
  then have n: "n = usize_max" "p = Locked" using d by (auto simp: is_unique_def)
  show ?thesis
  proof (rule arc_move [OF inv, of t _ p], goal_cases)
    case (4 S W N B L M R D X S' W' N' B' L' M' R' D' X')
    have S: "0 < S" "M < S" using 4(16) [of t] 4(19) [of t] t by simp_all
    from 4(1,12-15) show ?case
    proof (cases rule: counts_cases)
      case shared
      then have "L = 0" "W = 0" "M = 0" using True S limits(1) by auto
      then show ?thesis using shared n 4(2-11) t by (auto simp: counts_ok_def)
    qed (use S in auto)
  qed (use t n in auto)
next
  case False
  then have "n = arc_weak s" "p = Strong_Ref" using d by (auto simp: is_unique_def compare_exchange_def)
  moreover have "arc_inv (goto s t Strong_Ref)" by (rule goto_keeps [OF inv]) (use t in auto)
  ultimately show ?thesis by (simp only: same_weak)
qed

lemma locked_weak: "arc_inv s \<Longrightarrow> weak_locker (arc_pcs s t) \<Longrightarrow> arc_weak s = usize_max"
proof -
  assume a: "arc_inv s" "weak_locker (arc_pcs s t)"
  then have "finite {t. weak_locker (arc_pcs s t)}" unfolding arc_inv_def by (auto elim!: finite_subset [rotated])
  then have "0 < how_many weak_locker (arc_pcs s)" using a(2) by (rule how_many_pos)
  then show ?thesis using a(1) by (simp add: arc_inv_def arc_counts_def counts_ok_def)
qed

lemma unlock_keeps:
  assumes inv: "arc_inv s" and t: "arc_pcs s t = Unlock unique"
  shows "arc_inv (goto (s\<lparr>arc_weak := 1\<rparr>) t (if unique then Mut_Ref else Strong_Ref))"
proof (rule arc_move [OF inv, of t _ "if unique then Mut_Ref else Strong_Ref"], goal_cases)
  case (4 S W N B L M R D X S' W' N' B' L' M' R' D' X')
  have S: "0 < S" "0 < L" using 4(16) [of t] 4(7) t by (cases unique; simp)+
  from 4(1,12-15) show ?case
  proof (cases rule: counts_cases)
    case shared
    then have "L = 1" "W = 0" using S by auto
    then show ?thesis using shared 4(2-11) t by (cases unique) (auto simp: counts_ok_def)
  qed (use S in auto)
qed (use t in \<open>auto split: if_splits\<close>)

lemma restore_keeps:
  assumes inv: "arc_inv s" and t: "arc_pcs s t = Restore"
  shows "arc_inv (goto (s\<lparr>arc_strong := 1\<rparr>) t Mut_Ref)"
proof (rule arc_move [OF inv, of t _ Mut_Ref], goal_cases)
  case (4 S W N B L M R D X S' W' N' B' L' M' R' D' X')
  have N: "0 < N" "0 < R" using 4(20) [of t] 4(9) t by auto
  from 4(1,12-15) show ?case
  proof (cases rule: counts_cases)
    case owned
    then have "W = 0" "R = 1" using N 4(15) by auto
    then show ?thesis using owned 4(2-11) t by (auto simp: counts_ok_def)
  qed (use N in auto)
qed (use t in auto)

text \<open>The value is destroyed or moved out, and the reference that the strong handles held together is left.\<close>

lemma destroy_keeps:
  assumes inv: "arc_inv s" and t: "arc_pcs s t = Destroy \<or> arc_pcs s t = Take" and p: "p = Weak_Drop \<or> p = Forgotten_Weak"
  shows "arc_inv (goto (s\<lparr>arc_data := Gone, arc_destroyed := arc_destroyed s + 1\<rparr>) t p)"
proof (rule arc_move [OF inv, of t _ p], goal_cases)
  case (4 S W N B L M R D X S' W' N' B' L' M' R' D' X')
  have R: "R < N" using 4(21) [of t] t by auto
  have eq: "S' = S" "W' = Suc W" "Suc N' = N" "B' = B" "L' = L" "M' = M" "R' = R" "D' = D" "X' = X"
    using 4(3) 4(4) 4(5) 4(6) 4(7) 4(8) 4(9) 4(10) 4(11) t p by auto
  from 4(1,12-15) show ?case
  proof (cases rule: counts_cases)
    case owned
    then show ?thesis using owned eq R by (auto simp: counts_ok_def)
  qed (use R in auto)
qed (use t p in auto)

lemma weak_drop_keeps:
  assumes inv: "arc_inv s" and t: "arc_pcs s t = Weak_Drop \<or> arc_pcs s t = Weak_Ref \<or> arc_pcs s t = Building" "unborrowed s t"
    and d: "weak_drop (arc_weak s) = (n, p)"
  shows "arc_inv (goto (s\<lparr>arc_weak := n\<rparr>) t p)"
proof (rule arc_move [OF inv, of t _ p], goal_cases)
  case (4 S W N B L M R D X S' W' N' B' L' M' R' D' X')
  have p: "p = (if arc_weak s = 1 then Dealloc else Idle)" using d by (simp add: weak_drop_def)
  have W: "0 < W" using 4(17) [of t] t by auto
  have n: "n = arc_weak s - 1" if "0 < arc_weak s" "arc_weak s \<le> isize_max + 1 + X" "X \<le> thread_limit"
    using d that limits(1) by (simp add: weak_drop_def wrapping_sub_small)
  have eq: "S' = S" "Suc W' = W" "N' = N" "B' \<le> B" "L' = L" "M' = M" "R' = R" "D' = D + of_bool (p = Dealloc)" "X' = X"
    using 4(3) 4(4) 4(5) 4(6) 4(7) 4(8) 4(9) 4(10) 4(11) t p by (cases "arc_weak s = 1"; auto)+
  from 4(1,12-15) show ?case
  proof (cases rule: counts_cases)
    case shared
    then show ?thesis using n p eq W by (auto simp: counts_ok_def)
  next
    case owned
    then show ?thesis using n p eq W by (auto simp: counts_ok_def)
  next
    case absent
    then show ?thesis using n p eq W by (auto simp: counts_ok_def split: if_splits)
  qed
qed (use t d in \<open>auto simp: weak_drop_def split: if_splits\<close>)

lemma free_keeps:
  assumes inv: "arc_inv s" and t: "arc_pcs s t = Dealloc"
  shows "arc_inv (goto (s\<lparr>arc_freed := arc_freed s + 1\<rparr>) t Idle)"
proof (rule arc_move [OF inv, of t _ Idle], goal_cases)
  case (4 S W N B L M R D X S' W' N' B' L' M' R' D' X')
  have eq: "S' = S" "W' = W" "N' = N" "B' = B" "L' = L" "M' = M" "R' = R" "Suc D' = D" "X' = X"
    using 4(3) 4(4) 4(5) 4(6) 4(7) 4(8) 4(9) 4(10) 4(11) t by auto
  from 4(1,12-15) show ?case
  proof (cases rule: counts_cases)
    case absent
    then show ?thesis using eq by (auto simp: counts_ok_def split: if_splits)
  qed (use eq in auto)
qed (use t in auto)

lemma built_keeps:
  assumes inv: "arc_inv s" and t: "arc_pcs s t = Building" "unborrowed s t"
  shows "arc_inv (goto (s\<lparr>arc_data := Live, arc_strong := usize_wrapping_add (arc_strong s) 1\<rparr>) t Strong_Ref)"
proof (rule arc_move [OF inv, of t _ Strong_Ref], goal_cases)
  case (4 S W N B L M R D X S' W' N' B' L' M' R' D' X')
  have eq: "S' = Suc S" "Suc W' = W" "N' = N" "Suc B' = B" "L' = L" "M' = M" "R' = R" "D' = D" "X' = X"
    using 4(3) 4(4) 4(5) 4(6) 4(7) 4(8) 4(9) 4(10) 4(11) t by auto
  have one: "usize_wrapping_add 0 (Suc 0) = Suc 0" using limits(1) by (simp add: wrapping_add_small)
  from 4(1,12-15) show ?case
  proof (cases rule: counts_cases)
    case absent
    then show ?thesis using eq one by (auto simp: counts_ok_def split: if_splits)
  qed (use eq in auto)
qed (use t in auto)

lemma abort_keeps: "arc_inv s \<Longrightarrow> arc_inv (s\<lparr>arc_aborted := True\<rparr>)"
  by (simp add: arc_inv_def arc_counts_def)

lemma arc_step_keeps: "arc_step s s' \<Longrightarrow> arc_inv s \<Longrightarrow> arc_inv s'"
proof (induction rule: arc_step.cases)
  case (cloned s t old)
  then show ?case by (auto simp: limits(3) intro!: goto_keeps abort_keeps)
next
  case (cloned_weak s t old)
  then show ?case by (auto simp: limits(3) intro!: goto_keeps abort_keeps)
next
  case (downgrade_call s h t)
  then show ?case by (auto intro!: goto_keeps)
next
  case (downgrade_load s t h)
  then show ?case using borrowed [of s t True h] by (auto intro!: goto_keeps)
next
  case (upgrade_call s h t)
  then show ?case by (auto intro!: goto_keeps)
next
  case (upgrade_load s t h)
  then show ?case using borrowed [of s t False h] by (auto intro!: goto_keeps)
next
  case (locked s t)
  then show ?case using locked_weak [of s t] by (auto intro!: goto_keeps)
next
  case (mut_end s t)
  then show ?case by (auto intro!: goto_keeps)
next
  case (make_mut_weak s t)
  then show ?case by (auto intro!: goto_keeps)
next
  case (forget s t)
  then show ?case by (auto intro!: goto_keeps)
next
  case (forget_weak s t)
  then show ?case by (auto intro!: goto_keeps)
qed (simp_all only:, (blast intro: clone_keeps clone_weak_keeps downgrade_keeps upgrade_keeps drop_keeps take_keeps lock_keeps unlock_keeps
    restore_keeps destroy_keeps weak_drop_keeps free_keeps built_keeps)+)

lemma how_many_single: "how_many P ((\<lambda>_. Idle)(t := p)) = of_bool (\<not> P Idle \<and> P p)" if "\<not> P Idle"
  using how_many_update [of P "\<lambda>_. Idle" t p] that by (simp add: how_many_def)

lemma arc_inv_start: "arc_inv arc_new" "arc_inv arc_new_cyclic"
  by (auto simp: arc_inv_def arc_counts_def arc_new_def arc_new_cyclic_def borrows_ok_def how_many_single counts_ok_def thread_limit_def)

interpretation arc: invariant_system arc_system arc_new arc_inv
  by unfold_locales (auto simp: arc_system_def arc_inv_start arc_step_keeps)

interpretation arc_cyclic: invariant_system arc_system arc_new_cyclic arc_inv
  by unfold_locales (auto simp: arc_system_def arc_inv_start arc_step_keeps)

section \<open>Safety\<close>

text \<open>Who reads or writes the counters, and who reads the value.\<close>

fun uses_counts :: "arc_pc \<Rightarrow> bool" where
  "uses_counts Idle = False"
| "uses_counts Forgotten_Strong = False"
| "uses_counts Forgotten_Weak = False"
| "uses_counts _ = True"

definition uses_value :: "arc_pc \<Rightarrow> bool" where
  "uses_value p \<longleftrightarrow> strong_holder p \<or> data_owner p"

lemma arc_inv_finite: "arc_inv s \<Longrightarrow> \<not> P Idle \<Longrightarrow> finite {t. P (arc_pcs s t)}"
  unfolding arc_inv_def by (auto elim!: finite_subset [rotated])

lemma arc_value_live:
  assumes "arc_inv s" "uses_value (arc_pcs s t)"
  shows "arc_data s = Live"
proof -
  have "0 < how_many strong_holder (arc_pcs s) + how_many data_owner (arc_pcs s)"
    using assms(2) how_many_pos [OF arc_inv_finite [OF assms(1), of strong_holder], of t] how_many_pos [OF arc_inv_finite [OF assms(1), of data_owner], of t]
    by (auto simp: uses_value_def)
  then show ?thesis using assms(1) by (simp add: arc_inv_def arc_counts_def counts_ok_def)
qed

lemma arc_not_freed:
  assumes inv: "arc_inv s" and t: "uses_counts (arc_pcs s t)"
  shows "arc_freed s = 0"
proof -
  have pos: "\<not> P Idle \<Longrightarrow> P (arc_pcs s u) \<Longrightarrow> 0 < how_many P (arc_pcs s)" for P u by (rule how_many_pos [OF arc_inv_finite [OF inv, of P]])
  have c: "arc_freed s + how_many (\<lambda>p. p = Dealloc) (arc_pcs s) \<le> 1"
    "0 < arc_freed s \<Longrightarrow> how_many weak_holder (arc_pcs s) = 0 \<and> arc_data s \<noteq> Live"
    using inv unfolding arc_inv_def arc_counts_def counts_ok_def by auto
  have holder: "strong_holder (arc_pcs s u) \<or> weak_holder (arc_pcs s u) \<or> data_owner (arc_pcs s u) \<Longrightarrow> arc_freed s = 0" for u
    using c(2) pos [of weak_holder u] arc_value_live [OF inv, of u] by (cases "arc_freed s = 0") (auto simp: uses_value_def)
  show ?thesis
  proof (cases "borrow_of (arc_pcs s t)")
    case (Some x)
    then obtain b h where "borrow_of (arc_pcs s t) = Some (b, h)" by (cases x) auto
    then have "arc_pcs s h \<in> (if b then {Strong_Ref} else {Weak_Ref, Building})" by (rule borrowed [OF inv])
    then show ?thesis using holder [of h] by (auto split: if_splits)
  next
    case None
    then show ?thesis using holder [of t] t c(1) pos [of "\<lambda>p. p = Dealloc" t] by (cases "arc_pcs s t") auto
  qed
qed

text \<open>A mutable reference to the value: nobody else has a handle or a call under way.\<close>

lemma arc_mut_alone:
  assumes inv: "arc_inv s" and t: "arc_pcs s t = Mut_Ref" and u: "u \<noteq> t"
  shows "arc_pcs s u = Idle"
proof -
  have fin: "finite {t. P (arc_pcs s t)}" if "\<not> P Idle" for P using arc_inv_finite [of s P] inv that by simp
  have M: "0 < how_many exclusive (arc_pcs s)" using how_many_pos [OF fin [of exclusive], of t] t by simp
  have S: "how_many strong_holder (arc_pcs s) = 1" "how_many weak_holder (arc_pcs s) = 0" "how_many data_owner (arc_pcs s) = 0"
    "how_many (\<lambda>p. p = Dealloc) (arc_pcs s) = 0"
    using inv M unfolding arc_inv_def arc_counts_def counts_ok_def by auto
  have none: "\<not> strong_holder (arc_pcs s v)" if "v \<noteq> t" for v
    using how_many_1 [OF fin [of strong_holder] S(1), of t v] that t by auto
  have rest: "\<not> weak_holder (arc_pcs s v)" "\<not> data_owner (arc_pcs s v)" "arc_pcs s v \<noteq> Dealloc" for v
    using S(2-4) how_many_0 [OF fin [of weak_holder]] how_many_0 [OF fin [of data_owner]] how_many_0 [OF fin [of "\<lambda>p. p = Dealloc"]]
    by simp_all
  have "borrow_of (arc_pcs s u) = None"
  proof (rule ccontr)
    assume "borrow_of (arc_pcs s u) \<noteq> None"
    then obtain b h where "borrow_of (arc_pcs s u) = Some (b, h)" by auto
    then have "arc_pcs s h \<in> (if b then {Strong_Ref} else {Weak_Ref, Building})" by (rule borrowed [OF inv])
    then show False using none [of h] rest(1) [of h] t by (cases "h = t") (auto split: if_splits)
  qed
  then show ?thesis using none [OF u] rest [of u] by (cases "arc_pcs s u") auto
qed

text \<open>When the last handle has gone the allocation is freed, and its value was destroyed or moved out unless it was
  never made.\<close>

lemma arc_no_leak:
  assumes inv: "arc_inv s" and t: "\<And>t. arc_pcs s t = Idle"
  shows "arc_freed s = 1 \<and> arc_data s \<noteq> Live"
proof -
  have no: "how_many P (arc_pcs s) = 0" if "\<not> P Idle" for P using that t by (simp add: how_many_def)
  have "arc_data s \<noteq> Live" "0 < arc_freed s" "arc_freed s \<le> 1"
    using inv unfolding arc_inv_def arc_counts_def counts_ok_def by (simp_all add: no)
  then show ?thesis by simp
qed

lemma arc_once: "arc_inv s \<Longrightarrow> arc_freed s \<le> 1 \<and> arc_destroyed s = of_bool (arc_data s = Gone)"
  unfolding arc_inv_def arc_counts_def counts_ok_def by simp

lemma arc_reachable_inv: "reachable arc_system arc_new s \<or> reachable arc_system arc_new_cyclic s \<Longrightarrow> arc_inv s"
  using arc.inv_reachable arc_cyclic.inv_reachable by blast

text \<open>A value that was never made stays so only until the builder returns: from \<open>Arc::new\<close> it is there from
  the start.\<close>

lemma arc_new_init: "reachable arc_system arc_new s \<Longrightarrow> arc_data s \<noteq> Uninit"
  by (induction rule: reachable.induct) (auto simp: arc_new_def arc_system_def goto_def elim!: arc_step.cases split: if_splits)

text \<open>C40: whatever \<open>clone\<close>, \<open>downgrade\<close>, \<open>upgrade\<close>, \<open>drop\<close>,
  \<open>try_unwrap\<close>, \<open>into_inner\<close>, \<open>get_mut\<close>, \<open>make_mut\<close> and
  \<open>mem::forget\<close> calls interleave on the handles of one \<open>Arc\<close>, made by \<open>new\<close> or by
  \<open>new_cyclic\<close>: no call accesses the counters after the allocation was freed, a strong handle's value is there, a
  mutable reference is the only handle, the value is destroyed at most once and the allocation is freed at most once, and when
  no handle is left it has been freed, the value of \<open>new\<close> having been destroyed. A forgotten
  handle counts as left, and so does the implicit weak handle that is leaked when the destructor of the value panics.\<close>

theorem arc_safe:
  assumes "reachable arc_system arc_new s \<or> reachable arc_system arc_new_cyclic s"
  shows "(uses_counts (arc_pcs s t) \<longrightarrow> arc_freed s = 0) \<and> (uses_value (arc_pcs s t) \<longrightarrow> arc_data s = Live)
    \<and> (arc_pcs s t = Mut_Ref \<longrightarrow> arc_pcs s = (\<lambda>_. Idle)(t := Mut_Ref))
    \<and> arc_freed s \<le> 1 \<and> arc_destroyed s = of_bool (arc_data s = Gone)
    \<and> (arc_pcs s = (\<lambda>_. Idle) \<longrightarrow> arc_freed s = 1 \<and> arc_data s \<noteq> Live)
    \<and> (reachable arc_system arc_new s \<longrightarrow> arc_data s \<noteq> Uninit)"
proof -
  note inv = arc_reachable_inv [OF assms]
  have "arc_pcs s t = Mut_Ref \<Longrightarrow> arc_pcs s = (\<lambda>_. Idle)(t := Mut_Ref)"
  proof
    fix u
    assume "arc_pcs s t = Mut_Ref"
    then show "arc_pcs s u = ((\<lambda>_. Idle)(t := Mut_Ref)) u" using arc_mut_alone [OF inv, of t u] by (cases "u = t") auto
  qed
  moreover have "arc_pcs s = (\<lambda>_. Idle) \<Longrightarrow> arc_freed s = 1 \<and> arc_data s \<noteq> Live" by (rule arc_no_leak [OF inv]) simp
  ultimately show ?thesis
    using arc_not_freed [OF inv, of t] arc_value_live [OF inv, of t] arc_once [OF inv] arc_new_init [of s] by blast
qed

text \<open>A run that gives out a mutable reference, and drops the only handle.\<close>

definition arc_run :: "arc_state list" where
  "arc_run = [arc_new,
     goto (arc_new\<lparr>arc_weak := usize_max\<rparr>) 0 Locked,
     goto (arc_new\<lparr>arc_weak := usize_max\<rparr>) 0 (Unlock True),
     goto arc_new 0 Mut_Ref,
     arc_new,
     goto (arc_new\<lparr>arc_strong := 0\<rparr>) 0 Destroy,
     goto (arc_new\<lparr>arc_strong := 0, arc_data := Gone, arc_destroyed := 1\<rparr>) 0 Weak_Drop,
     goto (arc_new\<lparr>arc_strong := 0, arc_weak := 0, arc_data := Gone, arc_destroyed := 1\<rparr>) 0 Dealloc,
     goto (arc_new\<lparr>arc_strong := 0, arc_weak := 0, arc_data := Gone, arc_destroyed := 1, arc_freed := 1\<rparr>) 0 Idle]"

lemma arc_new_simps:
  "arc_pcs arc_new 0 = Strong_Ref" "arc_strong arc_new = 1" "arc_weak arc_new = 1" "arc_aborted arc_new = False" "unborrowed arc_new 0"
  by (auto simp: arc_new_def unborrowed_def)

lemma arc_systemI: "arc_step s x \<Longrightarrow> \<not> arc_aborted s \<Longrightarrow> x = s' \<Longrightarrow> arc_system s s'"
  by (simp add: arc_system_def)

lemmas arc_run_simps = arc_run_def goto_def arc_new_def unborrowed_def nth_Cons'

lemma wrapping_sub_one: "usize_wrapping_sub (Suc 0) (Suc 0) = 0"
  using wrapping_sub_small [of "Suc 0"] limits(1) by simp

lemma arc_run_lock:
  "arc_system (arc_run ! 0) (arc_run ! 1)" "arc_system (arc_run ! 1) (arc_run ! 2)" "arc_system (arc_run ! 2) (arc_run ! 3)"
  subgoal by (rule arc_systemI [OF arc_step.lock [of _ 0 usize_max Locked]]; simp add: arc_run_simps is_unique_def)
  subgoal by (rule arc_systemI [OF arc_step.locked [of _ 0]]; simp add: arc_run_simps)
  subgoal by (rule arc_systemI [OF arc_step.unlock [of _ 0 True]]; simp add: arc_run_simps)
  done

lemma arc_run_drop:
  "arc_system (arc_run ! 3) (arc_run ! 4)" "arc_system (arc_run ! 4) (arc_run ! 5)" "arc_system (arc_run ! 5) (arc_run ! 6)"
  "arc_system (arc_run ! 6) (arc_run ! 7)" "arc_system (arc_run ! 7) (arc_run ! 8)"
  subgoal by (rule arc_systemI [OF arc_step.mut_end [of _ 0]]; simp add: arc_run_simps)
  subgoal by (rule arc_systemI [OF arc_step.drop [of _ 0 0 Destroy]]; simp add: arc_run_simps arc_drop_def wrapping_sub_one)
  subgoal by (rule arc_systemI [OF arc_step.destroy [of _ 0]]; simp add: arc_run_simps)
  subgoal by (rule arc_systemI [OF arc_step.drop_weak [of _ 0 0 Dealloc]]; simp add: arc_run_simps weak_drop_def wrapping_sub_one)
  subgoal by (rule arc_systemI [OF arc_step.free [of _ 0]]; simp add: arc_run_simps)
  done

lemma arc_run_reachable: "reachable arc_system arc_new (arc_run ! 3)" "reachable arc_system arc_new (arc_run ! 8)"
proof -
  have "reachable arc_system arc_new (arc_run ! 0)" by (simp add: arc_run_def reachable_start)
  from this arc_run_lock(1) have "reachable arc_system arc_new (arc_run ! 1)" by (rule reachable_step)
  from this arc_run_lock(2) have "reachable arc_system arc_new (arc_run ! 2)" by (rule reachable_step)
  from this arc_run_lock(3) show "reachable arc_system arc_new (arc_run ! 3)" by (rule reachable_step)
  from this arc_run_drop(1) have "reachable arc_system arc_new (arc_run ! 4)" by (rule reachable_step)
  from this arc_run_drop(2) have "reachable arc_system arc_new (arc_run ! 5)" by (rule reachable_step)
  from this arc_run_drop(3) have "reachable arc_system arc_new (arc_run ! 6)" by (rule reachable_step)
  from this arc_run_drop(4) have "reachable arc_system arc_new (arc_run ! 7)" by (rule reachable_step)
  from this arc_run_drop(5) show "reachable arc_system arc_new (arc_run ! 8)" by (rule reachable_step)
qed

theorem arc_safe_witness:
  "arc_pcs (arc_run ! 3) 0 = Mut_Ref \<and> arc_pcs (arc_run ! 3) = (\<lambda>_. Idle)(0 := Mut_Ref) \<and> arc_freed (arc_run ! 3) = 0
    \<and> arc_data (arc_run ! 3) = Live \<and> arc_pcs (arc_run ! 8) = (\<lambda>_. Idle) \<and> arc_freed (arc_run ! 8) = 1 \<and> arc_destroyed (arc_run ! 8) = 1"
proof -
  have r: "reachable arc_system arc_new (arc_run ! 3) \<or> reachable arc_system arc_new_cyclic (arc_run ! 3)"
    "reachable arc_system arc_new (arc_run ! 8) \<or> reachable arc_system arc_new_cyclic (arc_run ! 8)"
    using arc_run_reachable by blast+
  have p: "arc_pcs (arc_run ! 3) 0 = Mut_Ref" "arc_pcs (arc_run ! 8) = (\<lambda>_. Idle)" by (auto simp: arc_run_simps)
  have "arc_data (arc_run ! 8) = Gone"
    using arc_safe [OF r(2), of 0] p(2) arc_run_reachable(2) by (cases "arc_data (arc_run ! 8)") auto
  then show ?thesis using arc_safe [OF r(1), of 0] arc_safe [OF r(2), of 0] p by (simp add: uses_value_def)
qed

end
