(* ===== verification/Spec2Isabelle.thy ===== *)
theory Spec2Isabelle
  imports Scanner Vec_Deque_Slices Binary_Heap Futex_Mutex Futex_RwLock Futex_Once Duration Net_Addr
    Vec_Dedup Vec_Drain Linked_Ops Sort_Stable Arc_Counts
begin

text \<open>
  A verification library for the repository: the scanner of unchecked functions (\<open>src/src/main.rs\<close>), which walks
  a directory tree of Rust sources, collects the functions whose name contains \<open>unchecked\<close>, looks for a safe
  version of each and writes a table; and the library sources kept beside it (\<open>src/library/core\<close>,
  \<open>alloc\<close> and \<open>std\<close>), of which the parts that rest on unchecked operations, on a representation
  invariant or on the order of atomic accesses are modelled.

  \<^bold>\<open>Conventions.\<close> A \<open>uN\<close> whose bits matter is an \<open>N word\<close>; lengths, indices and
  capacities of type \<open>usize\<close> are numbers below \<open>2 ^ 64\<close> with every overflow written out
  (\<open>Usize\<close>). A computation ends in an \<open>outcome\<close>: a value, a panic, or undefined behaviour
  (\<open>Rust_Prelude\<close>); an unchecked operation outside its contract is the last one, so a theorem that a safe
  function returns or panics also says that its unsafe blocks are sound. \<open>Panic\<close> also stands for the end of the
  process by \<open>handle_alloc_error\<close> and by a panic in a destructor during unwinding, except in
  \<open>LinkedList\<close> and in the sort, which tell them apart. Memory is a list of cells, \<open>None\<close> where
  uninitialised. Errors that the code returns are values of sum or option types.

  \<^bold>\<open>The scanner.\<close> \<open>Scanner\<close> has one definition per function and loop of
  \<open>main.rs\<close>: the visitor (\<open>visit_item\<close>), \<open>process_file\<close>, the walk
  (\<open>process_directory\<close>), the search (\<open>check_for_safe_versions\<close>) and the report
  (\<open>scanner_main\<close>). The file system, the parser and the iteration order of the hash sets are the fields of
  \<open>environment\<close>. The walk follows directory entries, links included, so it may not end; it takes fuel, and on a
  tree without cycles (a rank that decreases from a directory to its entries) any fuel above the rank of the start directory
  gives the same result, which is never \<open>Out_Of_Fuel\<close>. \<open>Str_Format\<close> holds the library functions the
  scanner calls: \<open>str::replace\<close>, padding and file extensions. The lemmas show what is collected and what is not
  (the methods of traits and foreign functions), what each column means, how every failure ends the run, and the widths of the
  table.

  \<^bold>\<open>Text.\<close> \<open>Char_Encoding\<close> (\<open>core/src/char\<close>): the range check of
  \<open>char::from_u32\<close>, the UTF-8 and UTF-16 encoders, \<open>DecodeUtf16\<close>, digits. \<open>Utf8_Codec\<close>
  and \<open>Utf8_Validation\<close> (\<open>core/src/str/validations.rs\<close>, \<open>converts.rs\<close>): the validator
  with its word-wise fast path and exact error positions, against the table of RFC 3629, and the code point decoders in both
  directions. \<open>Utf8_Lossy\<close> (\<open>core/src/str/lossy.rs\<close>): the chunk iterator and the lossy conversions.

  \<^bold>\<open>Memory and collections.\<close> \<open>Layout\<close> (\<open>core/src/alloc/layout.rs\<close>) and
  \<open>Raw_Vec\<close> (\<open>alloc/src/raw_vec.rs\<close>) show that sizes are exact and that buffers stay valid; the
  allocator is a predicate on requests, and the contract of \<open>Allocator::grow\<close> is an assumption whose violation is
  undefined behaviour. \<open>Call_Sequences\<close> runs a sequence of calls on a machine: the locale
  \<open>call_machine\<close> asks that a call either is stuck, for lack of memory, and panics, or does what the specification
  says, and gives the same for sequences, which panic exactly where the specification does or at the first stuck call.
  \<open>Deque_Spec\<close> is the interface of a double-ended queue, an instance of it by \<open>sublocale\<close>;
  \<open>Vec_Deque_Buffer\<close>, \<open>Vec_Deque\<close> and \<open>Vec_Deque_Slices\<close>
  (\<open>alloc/src/collections/vec_deque\<close>) model the ring buffer and implement it, and show that each operation is the
  list operation for elements of non-zero size (the capacity of a deque of zero-sized elements is \<open>usize::MAX\<close>
  without a buffer). An operation that needs memory panics exactly when the buffer it asks for is no valid layout or is
  refused (\<open>has_room\<close>, \<open>vd_stuck\<close>, \<open>vec_stuck\<close>). \<open>Binary_Heap\<close>
  (\<open>alloc/src/collections/binary_heap/mod.rs\<close>) models the hole, the sifting loops, \<open>PeekMut\<close> and the
  operations that add and remove elements, on the list of elements, and implements the interface of a priority queue over
  multisets; its capacity is that of the vector and not modelled.

  \<^bold>\<open>Vec.\<close> \<open>Vec_Ops\<close> (\<open>alloc/src/vec/mod.rs\<close>) models the element moves over the
  buffer, single and in bulk, with the values that are dropped; \<open>call_machine\<close> carries the refinement of a list
  from one call to sequences. \<open>Vec_Retain\<close> and \<open>Vec_Dedup\<close> are the in-place filters with their drop
  guards, \<open>Vec_Drain\<close> (\<open>drain.rs\<close>, \<open>splice.rs\<close>) draining and splicing. Closures,
  clones, iterators and destructors may panic at any call; the lemmas show that the vector is then valid, what it holds, and
  that no value is lost or dropped twice. Inside a splice, extending and collecting take the general path; their
  specialisations for iterators of trusted length are not modelled there. Their loops end because an index rises to the end of
  the buffer.

  \<^bold>\<open>LinkedList.\<close> \<open>Linked_List\<close> (\<open>alloc/src/collections/linked_list.rs\<close>) puts the
  nodes into an explicit heap, where following a dangling pointer is undefined behaviour, with the private methods, the ends
  and appending; the allocator is a function that chooses a free address or fails. It implements \<open>Deque_Spec\<close>
  too. \<open>Linked_Cursor\<close> has the mutable cursors and shows that they are a position in a list, call by call and for
  sequences of calls, with the one call that miscounts; \<open>Linked_Ops\<close> has the iterators, the indexed operations,
  the filters and the destructor. The frame of a list, what it does not own, stays the same in every lemma, so nothing is
  leaked, freed twice or touched from outside. A walk along \<open>next\<close> pointers takes fuel; the length of the list is
  enough.

  \<^bold>\<open>The stable sort.\<close> \<open>Sort_Insertion\<close>
  (\<open>core/src/slice/sort/shared/smallsort.rs\<close>) fixes what the parts share: a comparison closure with a state that
  may answer anything and may panic, the ways a step can end (it returns, unwinds, aborts the process or has no fuel left),
  and the judgement \<open>permutes\<close>, by which a step ends without undefined behaviour and leaves a permutation, a
  stable one if the closure compares keys, with rules for sequences, sub-slices and comparisons. \<open>Sort_Merge\<close>
  (\<open>stable/merge.rs\<close>), \<open>Sort_Partition\<close> (\<open>shared/pivot.rs\<close>, the partition of
  \<open>stable/quicksort.rs\<close>) and \<open>Sort_Small\<close> (\<open>shared/smallsort.rs\<close>: the networks for four
  and eight elements and the merge from both ends) are its parts. \<open>Sort_Drift\<close> (\<open>stable/drift.rs\<close>)
  is the main loop over runs, generic in the quicksort it calls: the locale \<open>run_sorter\<close> states what it needs,
  and \<open>Sort_Stable\<close> (\<open>stable/quicksort.rs\<close>, \<open>stable/mod.rs\<close>) proves it for the
  quicksort, which in turn calls the main loop. The fuel of the quicksort is 200, more than twice the logarithm of any length,
  which bounds the depth of its calls; a turn of the main loop consumes a run that is not empty. The whole sort returns the
  stable sort of the library, except for the sizes at which it may abort. Interior mutability of the elements is not modelled,
  only the branches that depend on it: a closure cannot change what it compares, so copying the pivot back has no effect.

  \<^bold>\<open>Locks.\<close> \<open>Thread_System\<close> has reachability and the locale of systems with an inductive
  invariant; \<open>Futex_Mutex\<close>, \<open>Futex_RwLock\<close> and \<open>Futex_Once\<close>
  (\<open>std/src/sys/sync\<close>) are step relations in which every step is one atomic access of one of arbitrarily many
  threads. They show mutual exclusion, that the assertions in the code hold, and that sleeping threads are not forgotten. A
  run of the mutex in which one thread moves alone (\<open>alone\<close>) counts its accesses; the closure of
  \<open>Once\<close> may return, panic or call \<open>OnceState::poison\<close>. Memory orderings matter to the data behind a
  lock and are not modelled; accesses to one atomic variable have a total order regardless.

  \<^bold>\<open>Reference counts.\<close> \<open>Arc_Counts\<close> (\<open>alloc/src/sync.rs\<close>) models the two
  counters of one \<open>Arc\<close> allocation in the same style. An agent is a handle or a call on a borrowed handle, and
  there may be any number; handles may be forgotten, exchanges may fail spuriously and destructors may panic. The invariant
  relates the counters to the numbers of agents that are counted by them, through \<open>arc_move\<close>, which reduces a
  step to arithmetic on those numbers. It shows that nothing is used after it is released, that a mutable reference is
  exclusive, and that nothing is released twice or, with the last handle gone, not at all; a forgotten handle, and the
  implicit weak handle leaked by a destructor that panics, count as left. The code checks a count after it has increased it,
  and relies on fewer than \<open>2 ^ 63\<close> threads doing so at once; the model allows \<open>thread_limit\<close>,
  \<open>2 ^ 62\<close>, of them.

  \<^bold>\<open>Time.\<close> \<open>Duration\<close> (\<open>core/src/time.rs\<close>): construction, observation and
  arithmetic are exact on nanoseconds, with overflow reported precisely.

  \<^bold>\<open>Integers and addresses as text.\<close> \<open>Int_Parse\<close> (\<open>core/src/num/mod.rs\<close>) and
  \<open>Int_Format\<close> (\<open>core/src/fmt/num.rs\<close>): parsing accepts exactly the numerals in range, printing
  stays within its buffer, and the two are inverse, for the decimal format of at most 64 bits and for the radix formats of at
  most 128 bits, which print the two's complement. \<open>Net_Parser\<close> (\<open>core/src/net/parser.rs\<close>) and
  \<open>Net_Addr\<close> (\<open>Display\<close> in \<open>core/src/net\<close>): a locale for a printer and a parser that
  returns the rest of its input, interpreted for IPv4, IPv6 and the two kinds of socket addresses, and one for the choice
  between two formats.

  \<^bold>\<open>Not modelled.\<close> The \<open>syn\<close>, \<open>anyhow\<close> and \<open>walkdir\<close> style
  dependencies and the file system, which are parameters; the substring searcher behind \<open>match_indices\<close>, given by
  its specification; operating system bindings, Unicode tables, SIMD and architecture intrinsics, generated code; iterators,
  trait implementations that only forward, the unstable sort, and the drops of elements of the collections other than
  \<open>Vec\<close> and \<open>LinkedList\<close>; floating point; and the parts of the library not named above, which the
  manifest lists.
\<close>

end
